(* ===== verification/Csp_Prelude.thy ===== *)
theory Csp_Prelude
  imports Complex_Main "HOL-Library.Word" "HOL-Library.AList"
begin

text \<open>
  The prelude of the development: what the components of \<open>csp_lib\<close> share.

  \<^item> \<open>py_exc\<close> names the exception classes the modelled code raises, and \<open>'a res\<close> is the
    result of a call that may raise: \<open>Inl\<close> the exception, \<open>Inr\<close> the value.
  \<^item> \<open>flt\<close> is Python's \<open>float\<close>: a finite number, the two infinities or NaN, with IEEE
    comparisons (every comparison with NaN is false) and IEEE rules for the special values.
    Finite numbers are exact rationals: rounding, overflow of the exponent and the sign of
    zero are not modelled.
  \<^item> \<open>pyval\<close> is a dynamically typed value, for code that asks \<open>isinstance\<close>.
  \<^item> A \<open>dict\<close> is an association list in insertion order (\<open>AList.update\<close> replaces in place
    or appends at the end, as a Python dict does).
\<close>

section \<open>Exceptions and results\<close>

datatype py_exc =
    TypeError | ValueError | KeyError | IndexError | AttributeError
  | OverflowError | ZeroDivisionError | AssertionError | StructError
  | UnicodeEncodeError | UnicodeDecodeError
  | ConfigurationError | ModbusError | ModbusEncodeError | ModbusDecodeError
  | ModbusConfigError | ModbusCircuitBreakerError | ModbusQueueFullError
  | RegisterConflictError | PermissionError | DeviceError | DeviceConnectionError | CommunicationError | NotLeaderError | NotImplementedError | DataError

type_synonym 'a res = "py_exc + 'a"

named_theorems res_simps "rewrite rules for sequencing calls that may raise"
named_theorems flt_simps "rewrite rules for floating-point values"

definition rbind :: "'a res \<Rightarrow> ('a \<Rightarrow> 'b res) \<Rightarrow> 'b res" where
  "rbind r f = (case r of Inl e \<Rightarrow> Inl e | Inr x \<Rightarrow> f x)"

lemma rbind_Inl [simp, res_simps]: "rbind (Inl e) f = Inl e"
  by (simp add: rbind_def)

lemma rbind_Inr [simp, res_simps]: "rbind (Inr x) f = f x"
  by (simp add: rbind_def)

lemma rbind_eq_Inr [res_simps]: "rbind r f = Inr y \<longleftrightarrow> (\<exists>x. r = Inr x \<and> f x = Inr y)"
  by (cases r) auto

lemma rbind_split: "P (rbind r f) \<longleftrightarrow> (\<forall>e. r = Inl e \<longrightarrow> P (Inl e)) \<and> (\<forall>x. r = Inr x \<longrightarrow> P (f x))"
  by (cases r) auto

text \<open>Calls in sequence over a list: the first exception wins.\<close>

fun rmap :: "('a \<Rightarrow> 'b res) \<Rightarrow> 'a list \<Rightarrow> 'b list res" where
  "rmap f [] = Inr []"
| "rmap f (x # xs) = rbind (f x) (\<lambda>y. rbind (rmap f xs) (\<lambda>ys. Inr (y # ys)))"

lemma rmap_Inr_map: "(\<And>x. x \<in> set xs \<Longrightarrow> f x = Inr (g x)) \<Longrightarrow> rmap f xs = Inr (map g xs)"
  by (induction xs) auto

lemma rmap_length: "rmap f xs = Inr ys \<Longrightarrow> length ys = length xs"
  by (induction xs arbitrary: ys) (auto simp: res_simps)

definition is_ok :: "'a res \<Rightarrow> bool" where
  "is_ok r = (case r of Inl _ \<Rightarrow> False | Inr _ \<Rightarrow> True)"

lemma is_ok_simps [simp]: "is_ok (Inr x)" "\<not> is_ok (Inl e)"
  by (simp_all add: is_ok_def)

section \<open>Floating-point values\<close>

datatype flt = Fin rat | PInf | NInf | NaN

instantiation flt :: "{zero, one, plus, uminus, minus, times, ord}"
begin

definition zero_flt :: flt where "zero_flt = Fin 0"

definition one_flt :: flt where "one_flt = Fin 1"

fun plus_flt :: "flt \<Rightarrow> flt \<Rightarrow> flt" where
  "plus_flt (Fin a) (Fin b) = Fin (a + b)"
| "plus_flt NaN y = NaN"
| "plus_flt x NaN = NaN"
| "plus_flt PInf NInf = NaN"
| "plus_flt NInf PInf = NaN"
| "plus_flt PInf y = PInf"
| "plus_flt x PInf = PInf"
| "plus_flt NInf y = NInf"
| "plus_flt x NInf = NInf"

fun uminus_flt :: "flt \<Rightarrow> flt" where
  "uminus_flt (Fin a) = Fin (- a)"
| "uminus_flt PInf = NInf"
| "uminus_flt NInf = PInf"
| "uminus_flt NaN = NaN"

definition minus_flt :: "flt \<Rightarrow> flt \<Rightarrow> flt" where "minus_flt x y = x + (- y)"

fun times_flt :: "flt \<Rightarrow> flt \<Rightarrow> flt" where
  "times_flt (Fin a) (Fin b) = Fin (a * b)"
| "times_flt NaN y = NaN"
| "times_flt x NaN = NaN"
| "times_flt (Fin a) PInf = (if a = 0 then NaN else if 0 < a then PInf else NInf)"
| "times_flt (Fin a) NInf = (if a = 0 then NaN else if 0 < a then NInf else PInf)"
| "times_flt PInf (Fin b) = (if b = 0 then NaN else if 0 < b then PInf else NInf)"
| "times_flt NInf (Fin b) = (if b = 0 then NaN else if 0 < b then NInf else PInf)"
| "times_flt PInf PInf = PInf"
| "times_flt NInf NInf = PInf"
| "times_flt PInf NInf = NInf"
| "times_flt NInf PInf = NInf"

fun less_flt :: "flt \<Rightarrow> flt \<Rightarrow> bool" where
  "less_flt (Fin a) (Fin b) = (a < b)"
| "less_flt NaN y = False"
| "less_flt x NaN = False"
| "less_flt NInf y = (y \<noteq> NInf)"
| "less_flt x PInf = (x \<noteq> PInf)"
| "less_flt PInf y = False"
| "less_flt x NInf = False"

definition less_eq_flt :: "flt \<Rightarrow> flt \<Rightarrow> bool" where
  "less_eq_flt x y = (x < y \<or> (x = y \<and> x \<noteq> NaN))"

instance ..

end

instance flt :: semigroup_add
proof
  fix a b c :: flt
  show "a + b + c = a + (b + c)"
    by (cases a; cases b; cases c) auto
qed

instance flt :: numeral ..

lemma numeral_flt [simp, flt_simps]: "numeral k = Fin (numeral k)"
  by (induction k) (simp_all only: numeral.simps one_flt_def plus_flt.simps)

lemma zero_flt_Fin [simp, flt_simps]: "(0 :: flt) = Fin 0"
  by (simp add: zero_flt_def)

lemma one_flt_Fin [simp, flt_simps]: "(1 :: flt) = Fin 1"
  by (simp add: one_flt_def)

lemma minus_flt_Fin [simp, flt_simps]: "Fin a - Fin b = Fin (a - b)"
  by (simp add: minus_flt_def)

lemma flt_le_Fin [simp, flt_simps]: "Fin a \<le> Fin b \<longleftrightarrow> a \<le> b"
  by (auto simp: less_eq_flt_def)

lemma flt_le_PInf [simp, flt_simps]: "Fin a \<le> PInf" "NInf \<le> Fin a" "\<not> PInf \<le> Fin a" "\<not> Fin a \<le> NInf"
  by (auto simp: less_eq_flt_def)

lemma flt_NaN_le [simp, flt_simps]: "\<not> NaN \<le> x" "\<not> x \<le> NaN" "\<not> NaN < x" "\<not> x < NaN"
  by (cases x; simp add: less_eq_flt_def)+

text \<open>IEEE equality (\<open>==\<close> on floats): NaN is not equal to itself.\<close>

definition feq :: "flt \<Rightarrow> flt \<Rightarrow> bool" where
  "feq x y = (x = y \<and> x \<noteq> NaN)"

lemma feq_Fin [simp, flt_simps]: "feq (Fin a) (Fin b) \<longleftrightarrow> a = b"
  by (simp add: feq_def)

fun fabs :: "flt \<Rightarrow> flt" where
  "fabs (Fin a) = Fin \<bar>a\<bar>"
| "fabs PInf = PInf"
| "fabs NInf = PInf"
| "fabs NaN = NaN"

text \<open>\<open>math.isfinite\<close>.\<close>

fun is_finite :: "flt \<Rightarrow> bool" where
  "is_finite (Fin a) = True"
| "is_finite x = False"

lemma is_finite_iff: "is_finite x \<longleftrightarrow> (\<exists>a. x = Fin a)"
  by (cases x) auto

text \<open>Division raises on a zero divisor.\<close>

fun fdiv :: "flt \<Rightarrow> flt \<Rightarrow> flt res" where
  "fdiv x (Fin b) =
     (if b = 0 then Inl ZeroDivisionError
      else Inr (case x of Fin a \<Rightarrow> Fin (a / b) | NaN \<Rightarrow> NaN
                | PInf \<Rightarrow> (if 0 < b then PInf else NInf)
                | NInf \<Rightarrow> (if 0 < b then NInf else PInf)))"
| "fdiv NaN y = Inr NaN"
| "fdiv x NaN = Inr NaN"
| "fdiv (Fin a) y = Inr (Fin 0)"
| "fdiv x y = Inr NaN"

text \<open>
  Python's two-argument \<open>max\<close> and \<open>min\<close>: the second argument is taken only when it compares
  strictly greater (smaller), so a NaN in second place is dropped and one in first place is kept.
\<close>

definition py_max :: "flt \<Rightarrow> flt \<Rightarrow> flt" where
  "py_max a b = (if a < b then b else a)"

definition py_min :: "flt \<Rightarrow> flt \<Rightarrow> flt" where
  "py_min a b = (if b < a then b else a)"

lemma py_max_Fin [simp, flt_simps]: "py_max (Fin a) (Fin b) = Fin (max a b)"
  by (auto simp: py_max_def)

lemma py_min_Fin [simp, flt_simps]: "py_min (Fin a) (Fin b) = Fin (min a b)"
  by (auto simp: py_min_def)

text \<open>\<open>round\<close> to the nearest integer, ties to even.\<close>

definition round_half_even :: "rat \<Rightarrow> int" where
  "round_half_even x =
     (let f = \<lfloor>x\<rfloor>; d = x - of_int f
      in if d < 1 / 2 then f else if 1 / 2 < d then f + 1
         else if even f then f else f + 1)"

lemma round_half_even_of_int [simp]: "round_half_even (of_int k) = k"
  by (simp add: round_half_even_def)

lemma round_half_even_dist: "\<bar>of_int (round_half_even x) - x\<bar> \<le> 1 / 2"
proof -
  have "of_int \<lfloor>x\<rfloor> \<le> x" "x < of_int \<lfloor>x\<rfloor> + 1" by linarith+
  then show ?thesis by (auto simp: round_half_even_def Let_def)
qed

text \<open>\<open>round\<close>, \<open>math.floor\<close> and \<open>math.ceil\<close> of a float: an integer, or the error of the conversion.\<close>

fun to_integer :: "(rat \<Rightarrow> int) \<Rightarrow> flt \<Rightarrow> int res" where
  "to_integer f (Fin q) = Inr (f q)"
| "to_integer f NaN = Inl ValueError"
| "to_integer f x = Inl OverflowError"

text \<open>\<open>int(x)\<close> on a finite float truncates towards zero.\<close>

definition trunc_rat :: "rat \<Rightarrow> int" where
  "trunc_rat x = (if 0 \<le> x then \<lfloor>x\<rfloor> else \<lceil>x\<rceil>)"

section \<open>Dynamically typed values\<close>

datatype pyval =
    PyNone
  | PyBool bool
  | PyInt int
  | PyFloat flt
  | PyStr string
  | PyBytes "8 word list"
  | PyList "pyval list"
  | PyDict "(string \<times> pyval) list"

text \<open>\<open>bool\<close> is a subclass of \<open>int\<close>: \<open>isinstance(True, int)\<close> holds.\<close>

fun is_int_val :: "pyval \<Rightarrow> bool" where
  "is_int_val (PyInt i) = True"
| "is_int_val (PyBool b) = True"
| "is_int_val v = False"

fun is_num_val :: "pyval \<Rightarrow> bool" where
  "is_num_val (PyFloat x) = True"
| "is_num_val v = is_int_val v"

text \<open>The integer of an \<open>int\<close> or \<open>bool\<close> value.\<close>

fun int_val :: "pyval \<Rightarrow> int" where
  "int_val (PyInt i) = i"
| "int_val (PyBool b) = (if b then 1 else 0)"
| "int_val v = 0"

text \<open>The float of a number.\<close>

fun flt_val :: "pyval \<Rightarrow> flt" where
  "flt_val (PyFloat x) = x"
| "flt_val v = Fin (of_int (int_val v))"

text \<open>Truthiness, as \<open>bool(v)\<close> and \<open>if v:\<close> see it.\<close>

fun truthy :: "pyval \<Rightarrow> bool" where
  "truthy PyNone = False"
| "truthy (PyBool b) = b"
| "truthy (PyInt i) = (i \<noteq> 0)"
| "truthy (PyFloat x) = (x \<noteq> Fin 0)"
| "truthy (PyStr s) = (s \<noteq> [])"
| "truthy (PyBytes bs) = (bs \<noteq> [])"
| "truthy (PyList xs) = (xs \<noteq> [])"
| "truthy (PyDict d) = (d \<noteq> [])"

text \<open>
  \<open>==\<close> on values: numbers compare by value across \<open>int\<close>, \<open>bool\<close> and \<open>float\<close>, dicts without
  regard to order, everything else by type and content.
\<close>

fun py_eq :: "pyval \<Rightarrow> pyval \<Rightarrow> bool"
  and py_eq_list :: "pyval list \<Rightarrow> pyval list \<Rightarrow> bool"
  and py_sub_dict :: "(string \<times> pyval) list \<Rightarrow> (string \<times> pyval) list \<Rightarrow> bool" where
  "py_eq (PyList xs) w = (case w of PyList ys \<Rightarrow> py_eq_list xs ys | _ \<Rightarrow> False)"
| "py_eq (PyDict d) w = (case w of PyDict e \<Rightarrow> length d = length e \<and> py_sub_dict d e | _ \<Rightarrow> False)"
| "py_eq (PyStr s) w = (w = PyStr s)"
| "py_eq (PyBytes bs) w = (w = PyBytes bs)"
| "py_eq PyNone w = (w = PyNone)"
| "py_eq (PyBool b) w = (is_num_val w \<and> feq (flt_val (PyBool b)) (flt_val w))"
| "py_eq (PyInt i) w = (is_num_val w \<and> feq (flt_val (PyInt i)) (flt_val w))"
| "py_eq (PyFloat x) w = (is_num_val w \<and> feq x (flt_val w))"
| "py_eq_list [] ys = (ys = [])"
| "py_eq_list (x # xs) ys = (case ys of [] \<Rightarrow> False | y # zs \<Rightarrow> py_eq x y \<and> py_eq_list xs zs)"
| "py_sub_dict [] e = True"
| "py_sub_dict ((k, v) # d) e =
     (case map_of e k of None \<Rightarrow> False | Some w \<Rightarrow> py_eq v w \<and> py_sub_dict d e)"

section \<open>Text: whitespace, digits and number literals\<close>

definition is_space :: "char \<Rightarrow> bool" where
  "is_space c = (let n = of_char c :: nat
     in n = 32 \<or> (9 \<le> n \<and> n \<le> 13) \<or> (28 \<le> n \<and> n \<le> 31) \<or> n = 133 \<or> n = 160)"

definition rstrip_when :: "(char \<Rightarrow> bool) \<Rightarrow> string \<Rightarrow> string" where
  "rstrip_when p s = rev (dropWhile p (rev s))"

definition strip_ws :: "string \<Rightarrow> string" where
  "strip_ws s = dropWhile is_space (rstrip_when is_space s)"

definition is_digit :: "char \<Rightarrow> bool" where
  "is_digit c = (48 \<le> (of_char c :: nat) \<and> (of_char c :: nat) \<le> 57)"

definition digit_val :: "char \<Rightarrow> int" where
  "digit_val c = of_char c - 48"

definition digits_val :: "string \<Rightarrow> int" where
  "digits_val s = foldl (\<lambda>a c. 10 * a + digit_val c) 0 s"

text \<open>Underscores are allowed between two digits only.\<close>

fun underscores_ok :: "bool \<Rightarrow> string \<Rightarrow> bool" where
  "underscores_ok prev [] = True"
| "underscores_ok prev (c # cs) =
     (if c = CHR ''_'' then prev \<and> (cs \<noteq> [] \<and> is_digit (hd cs)) \<and> underscores_ok False cs
      else underscores_ok (is_digit c) cs)"

definition drop_sign :: "string \<Rightarrow> bool \<times> string" where
  "drop_sign s = (case s of [] \<Rightarrow> (False, [])
     | c # cs \<Rightarrow> if c = CHR ''-'' then (True, cs) else if c = CHR ''+'' then (False, cs) else (False, s))"

text \<open>\<open>int(s)\<close>: surrounding whitespace, a sign, decimal digits.\<close>

definition int_of_str :: "string \<Rightarrow> int option" where
  "int_of_str s0 =
     (let (neg, s) = drop_sign (strip_ws s0); ds = filter (\<lambda>c. c \<noteq> CHR ''_'') s
      in if underscores_ok False s \<and> ds \<noteq> [] \<and> list_all is_digit ds
         then Some (if neg then - digits_val ds else digits_val ds) else None)"

definition lower_char :: "char \<Rightarrow> char" where
  "lower_char c = (let n = of_char c :: nat in if 65 \<le> n \<and> n \<le> 90 then char_of (n + 32) else c)"

text \<open>The unsigned decimal part of \<open>float(s)\<close>: digits, a point, digits.\<close>

definition mantissa_of_str :: "string \<Rightarrow> rat option" where
  "mantissa_of_str s =
     (let ip = takeWhile is_digit s; r = dropWhile is_digit s;
          fp = (case r of [] \<Rightarrow> [] | c # cs \<Rightarrow> cs)
      in if (r = [] \<or> hd r = CHR ''.'') \<and> list_all is_digit fp \<and> ip @ fp \<noteq> []
         then Some (of_int (digits_val (ip @ fp)) / 10 ^ length fp) else None)"

definition is_exp_char :: "char \<Rightarrow> bool" where
  "is_exp_char c = (c = CHR ''e'')"

text \<open>\<open>float(s)\<close>: whitespace, a sign, then infinity, NaN or a decimal literal with an exponent.\<close>

definition flt_of_str :: "string \<Rightarrow> flt option" where
  "flt_of_str s0 =
     (let (neg, s) = drop_sign (map lower_char (strip_ws s0));
          body = filter (\<lambda>c. c \<noteq> CHR ''_'') s;
          m = takeWhile (\<lambda>c. \<not> is_exp_char c) body;
          er = dropWhile (\<lambda>c. \<not> is_exp_char c) body;
          (eneg, eds) = drop_sign (tl er)
      in if s = ''inf'' \<or> s = ''infinity'' then Some (if neg then NInf else PInf)
         else if s = ''nan'' then Some NaN
         else if \<not> underscores_ok False s then None
         else if er \<noteq> [] \<and> (eds = [] \<or> \<not> list_all is_digit eds) then None
         else map_option
           (\<lambda>q. Fin ((if neg then - q else q) *
              (if er = [] then 1 else if eneg then 1 / 10 ^ nat (digits_val eds) else 10 ^ nat (digits_val eds))))
           (mantissa_of_str m))"

text \<open>\<open>int(v)\<close> and \<open>float(v)\<close> on any value.\<close>

fun py_int :: "pyval \<Rightarrow> int res" where
  "py_int (PyInt i) = Inr i"
| "py_int (PyBool b) = Inr (if b then 1 else 0)"
| "py_int (PyFloat x) = (case x of Fin q \<Rightarrow> Inr (trunc_rat q) | NaN \<Rightarrow> Inl ValueError | _ \<Rightarrow> Inl OverflowError)"
| "py_int (PyStr s) = (case int_of_str s of Some i \<Rightarrow> Inr i | None \<Rightarrow> Inl ValueError)"
| "py_int (PyBytes bs) =
     (case int_of_str (map (\<lambda>b. char_of (unat b)) bs) of Some i \<Rightarrow> Inr i | None \<Rightarrow> Inl ValueError)"
| "py_int v = Inl TypeError"

fun py_float :: "pyval \<Rightarrow> flt res" where
  "py_float (PyFloat x) = Inr x"
| "py_float (PyInt i) = Inr (Fin (of_int i))"
| "py_float (PyBool b) = Inr (Fin (if b then 1 else 0))"
| "py_float (PyStr s) = (case flt_of_str s of Some x \<Rightarrow> Inr x | None \<Rightarrow> Inl ValueError)"
| "py_float (PyBytes bs) =
     (case flt_of_str (map (\<lambda>b. char_of (unat b)) bs) of Some x \<Rightarrow> Inr x | None \<Rightarrow> Inl ValueError)"
| "py_float v = Inl TypeError"

section \<open>Dictionaries in insertion order\<close>

abbreviation dict_get :: "('k \<times> 'v) list \<Rightarrow> 'k \<Rightarrow> 'v option" where
  "dict_get d k \<equiv> map_of d k"

abbreviation dict_set :: "'k \<Rightarrow> 'v \<Rightarrow> ('k \<times> 'v) list \<Rightarrow> ('k \<times> 'v) list" where
  "dict_set \<equiv> AList.update"

abbreviation dict_del :: "'k \<Rightarrow> ('k \<times> 'v) list \<Rightarrow> ('k \<times> 'v) list" where
  "dict_del \<equiv> AList.delete"

abbreviation dict_keys :: "('k \<times> 'v) list \<Rightarrow> 'k list" where
  "dict_keys d \<equiv> map fst d"

text \<open>\<open>d.get(k, default)\<close>.\<close>

definition dict_get_or :: "('k \<times> 'v) list \<Rightarrow> 'k \<Rightarrow> 'v \<Rightarrow> 'v" where
  "dict_get_or d k x = (case map_of d k of None \<Rightarrow> x | Some v \<Rightarrow> v)"

lemma dict_get_or_set [simp]: "dict_get_or (dict_set k v d) j x = (if j = k then v else dict_get_or d j x)"
  by (simp add: dict_get_or_def update_conv')

lemma dict_get_or_del [simp]: "dict_get_or (dict_del k d) j x = (if j = k then x else dict_get_or d j x)"
  by (simp add: dict_get_or_def delete_conv')

lemma dict_get_or_Nil [simp]: "dict_get_or [] k x = x"
  by (simp add: dict_get_or_def)

lemma map_of_dict_set: "map_of (dict_set k v d) = (map_of d)(k \<mapsto> v)"
  by (simp add: update_conv')

lemma dict_set_keys_set: "set (dict_keys (dict_set k v d)) = insert k (set (dict_keys d))"
  by (induction d) auto

lemma dict_set_keys_image [simp]: "fst ` set (dict_set k v d) = insert k (fst ` set d)"
  by (induction d) auto

lemma dict_set_values: "snd ` set (dict_set k v d) \<subseteq> insert v (snd ` set d)"
  by (induction d) auto

lemma dict_set_keys_old: "k \<in> set (dict_keys d) \<Longrightarrow> dict_keys (dict_set k v d) = dict_keys d"
  by (induction d) auto

lemma dict_set_keys_new: "k \<notin> set (dict_keys d) \<Longrightarrow> dict_set k v d = d @ [(k, v)]"
  by (induction d) auto

lemma dict_set_same: "map_of d k = Some v \<Longrightarrow> dict_set k v d = d"
  by (induction d) auto

lemma dict_keys_map_of: "k \<in> set (dict_keys d) \<longleftrightarrow> map_of d k \<noteq> None"
  by (induction d) auto

lemma map_of_map_values: "map_of (map (\<lambda>(k, v). (k, f k v)) d) k = map_option (f k) (map_of d k)"
  by (induction d) auto

lemma map_of_SomeI_distinct:
  "distinct (dict_keys d) \<Longrightarrow> (k, v) \<in> set d \<Longrightarrow> map_of d k = Some v"
  by simp

text \<open>A boolean signal that starts at \<open>b\<close> and changes with every entry.\<close>

fun alternates :: "bool \<Rightarrow> bool list \<Rightarrow> bool" where
  "alternates b [] = True"
| "alternates b (c # cs) = (c = (\<not> b) \<and> alternates c cs)"

lemma alternates_snoc: "alternates b (cs @ [c]) \<longleftrightarrow> alternates b cs \<and> c = (\<not> last (b # cs))"
  by (induction cs arbitrary: b) auto

text \<open>Slices of a list: \<open>xs[a:b]\<close> and \<open>xs[a:b] = ys\<close>; a negative bound counts from the end.\<close>

definition slice_bound :: "'a list \<Rightarrow> int \<Rightarrow> nat" where
  "slice_bound xs i = (if i < 0 then nat (int (length xs) + i) else min (nat i) (length xs))"

definition py_slice :: "'a list \<Rightarrow> int \<Rightarrow> int \<Rightarrow> 'a list" where
  "py_slice xs a b = take (slice_bound xs b - slice_bound xs a) (drop (slice_bound xs a) xs)"

definition py_slice_set :: "'a list \<Rightarrow> int \<Rightarrow> int \<Rightarrow> 'a list \<Rightarrow> 'a list" where
  "py_slice_set xs a b ys =
     take (slice_bound xs a) xs @ ys @ drop (max (slice_bound xs a) (slice_bound xs b)) xs"

lemma py_slice_inside:
  "0 \<le> a \<Longrightarrow> a + int n \<le> int (length xs) \<Longrightarrow> py_slice xs a (a + int n) = take n (drop (nat a) xs)"
  by (simp add: py_slice_def slice_bound_def nat_add_distrib)

lemma py_slice_set_inside:
  "0 \<le> a \<Longrightarrow> a + int (length ys) \<le> int (length xs) \<Longrightarrow>
    py_slice_set xs a (a + int (length ys)) ys = take (nat a) xs @ ys @ drop (nat a + length ys) xs"
  by (simp add: py_slice_set_def slice_bound_def nat_add_distrib)

section \<open>Operations on a state\<close>

text \<open>
  An operation of an object: the outcome of the call and the object it leaves, also when it raises.
\<close>

type_synonym ('s, 'a) op = "'s \<Rightarrow> 'a res \<times> 's"

definition op_ret :: "'a \<Rightarrow> ('s, 'a) op" where
  "op_ret x s = (Inr x, s)"

definition op_res :: "'a res \<Rightarrow> ('s, 'a) op" where
  "op_res r s = (r, s)"

definition op_mod :: "('s \<Rightarrow> 's) \<Rightarrow> ('s, unit) op" where
  "op_mod f s = (Inr (), f s)"

definition sbind :: "('s, 'a) op \<Rightarrow> ('a \<Rightarrow> ('s, 'b) op) \<Rightarrow> ('s, 'b) op" where
  "sbind m f s = (case m s of (Inl e, s') \<Rightarrow> (Inl e, s') | (Inr x, s') \<Rightarrow> f x s')"

lemma op_simps [simp]: "op_ret x s = (Inr x, s)" "op_res r s = (r, s)" "op_mod f s = (Inr (), f s)"
  by (simp_all add: op_ret_def op_res_def op_mod_def)

lemma sbind_ok [simp]: "m s = (Inr x, s') \<Longrightarrow> sbind m f s = f x s'"
  by (simp add: sbind_def)

lemma sbind_fails [simp]: "m s = (Inl e, s') \<Longrightarrow> sbind m f s = (Inl e, s')"
  by (simp add: sbind_def)

lemma sbind_cases:
  assumes "sbind m f s = (r, s')"
  obtains e where "m s = (Inl e, s')" "r = Inl e" | x s1 where "m s = (Inr x, s1)" "f x s1 = (r, s')"
  using assms by (auto simp: sbind_def split: prod.splits sum.splits)

text \<open>What every step keeps, the sequence keeps.\<close>

definition preserves :: "('s \<Rightarrow> bool) \<Rightarrow> ('s, 'a) op \<Rightarrow> bool" where
  "preserves law m \<longleftrightarrow> (\<forall>s. law s \<longrightarrow> law (snd (m s)))"

lemma preservesI: "(\<And>s. law s \<Longrightarrow> law (snd (m s))) \<Longrightarrow> preserves law m"
  by (simp add: preserves_def)

lemma preservesD: "preserves law m \<Longrightarrow> law s \<Longrightarrow> law (snd (m s))"
  by (simp add: preserves_def)

lemma preserves_run: "preserves law m \<Longrightarrow> law s \<Longrightarrow> m s = (r, s') \<Longrightarrow> law s'"
  by (metis preservesD snd_conv)

lemma preserves_pure [intro!, simp]: "preserves law (op_ret x)" "preserves law (op_res r)"
  by (simp_all add: preserves_def)

lemma preserves_mod [intro!]: "(\<And>s. law s \<Longrightarrow> law (f s)) \<Longrightarrow> preserves law (op_mod f)"
  by (simp add: preserves_def)

lemma preserves_sbind [intro!]:
  assumes "preserves law m" "\<And>x. preserves law (f x)"
  shows "preserves law (sbind m f)"
proof (rule preservesI)
  fix s assume s: "law s"
  obtain r s1 where m: "m s = (r, s1)" by fastforce
  have s1: "law s1" using preservesD [OF assms(1) s] m by simp
  show "law (snd (sbind m f s))"
    using m s1 preservesD [OF assms(2) s1] by (cases r) (simp_all add: sbind_def)
qed

text \<open>A \<open>for\<close> loop of operations: the first exception ends it.\<close>

fun sfor :: "('a \<Rightarrow> ('s, unit) op) \<Rightarrow> 'a list \<Rightarrow> ('s, unit) op" where
  "sfor f [] = op_ret ()"
| "sfor f (x # xs) = sbind (f x) (\<lambda>_. sfor f xs)"

lemma preserves_sfor: "(\<And>x. x \<in> set xs \<Longrightarrow> preserves law (f x)) \<Longrightarrow> preserves law (sfor f xs)"
  by (induction xs) auto

lemma sfor_append: "sfor f (xs @ ys) s = sbind (sfor f xs) (\<lambda>_. sfor f ys) s"
  by (induction xs arbitrary: s) (auto simp: sbind_def split: prod.split sum.split)

lemma sbind_InrE:
  assumes "sbind m f s = (Inr y, s')"
  obtains x s1 where "m s = (Inr x, s1)" "f x s1 = (Inr y, s')"
  using assms by (auto simp: sbind_def split: prod.splits sum.splits)

lemma sfor_middle:
  assumes "sfor f (xs @ y # ys) s = (Inr (), s')"
  obtains s1 s2 where "sfor f xs s = (Inr (), s1)" "f y s1 = (Inr (), s2)" "sfor f ys s2 = (Inr (), s')"
  using assms unfolding sfor_append by (auto elim!: sbind_InrE)

section \<open>Reachable states\<close>

text \<open>
  A component whose state changes by steps. A client of such a component may rely on every law
  the steps keep: \<open>always\<close> lifts a one-step law to every state a run can reach.
  \<open>ok\<close> is what the component's documentation asks of an event (\<open>\<lambda>_. True\<close> where it asks nothing).
\<close>

fun run_steps :: "('e \<Rightarrow> 's \<Rightarrow> 's) \<Rightarrow> 'e list \<Rightarrow> 's \<Rightarrow> 's" where
  "run_steps step [] s = s"
| "run_steps step (e # es) s = run_steps step es (step e s)"

lemma run_steps_append: "run_steps step (es @ fs) s = run_steps step fs (run_steps step es s)"
  by (induction es arbitrary: s) auto

locale step_invariant =
  fixes step :: "'e \<Rightarrow> 's \<Rightarrow> 's"
    and ok :: "'e \<Rightarrow> bool"
    and inv :: "'s \<Rightarrow> bool"
  assumes step_inv: "inv s \<Longrightarrow> ok e \<Longrightarrow> inv (step e s)"
begin

lemma always: "inv s \<Longrightarrow> list_all ok es \<Longrightarrow> inv (run_steps step es s)"
  by (induction es arbitrary: s) (auto intro: step_inv)

end

end
