(* ===== verification/Resilience.thy ===== *)
theory Resilience
  imports Csp_Prelude
begin

text \<open>
  \<open>csp_lib/core/resilience.py\<close> and \<open>csp_lib/core/_time_anchor.py\<close>: the circuit breaker with
  exponential back-off and jitter, the retry delays, and the drift-free tick computation that
  every periodic loop of the library calls. The clock (\<open>time.monotonic()\<close>) and the random number
  (\<open>random.random()\<close>) are arguments of the operations that read them.
\<close>

section \<open>Circuit breaker\<close>

datatype circuit_state = CLOSED | OPEN | HALF_OPEN

record circuit_breaker =
  cb_threshold :: int
  cb_cooldown :: rat
  cb_max_cooldown :: rat
  cb_backoff_factor :: rat
  cb_state :: circuit_state
  cb_failure_count :: int
  cb_consecutive_failures :: int
  cb_last_failure_time :: rat
  cb_current_cooldown :: rat

definition circuit_breaker_init :: "int \<Rightarrow> rat \<Rightarrow> rat \<Rightarrow> rat \<Rightarrow> circuit_breaker" where
  "circuit_breaker_init thr cool maxc factor =
     \<lparr>cb_threshold = thr, cb_cooldown = cool, cb_max_cooldown = maxc, cb_backoff_factor = factor,
      cb_state = CLOSED, cb_failure_count = 0, cb_consecutive_failures = 0,
      cb_last_failure_time = 0, cb_current_cooldown = cool\<rparr>"

definition compute_cooldown :: "circuit_breaker \<Rightarrow> rat \<Rightarrow> rat" where
  "compute_cooldown cb rnd =
     (let exponent = min (cb_consecutive_failures cb) 5;
          base = cb_cooldown cb * cb_backoff_factor cb ^ nat exponent;
          base = min base (cb_max_cooldown cb);
          jitter = 8 / 10 + 4 / 10 * rnd
      in base * jitter)"

text \<open>Reading \<open>state\<close> moves an open breaker whose cooldown has passed to half-open.\<close>

definition circuit_state_at :: "circuit_breaker \<Rightarrow> rat \<Rightarrow> circuit_state \<times> circuit_breaker" where
  "circuit_state_at cb now =
     (let cb' = (if cb_state cb = OPEN \<and> now - cb_last_failure_time cb \<ge> cb_current_cooldown cb
                 then cb\<lparr>cb_state := HALF_OPEN\<rparr> else cb)
      in (cb_state cb', cb'))"

definition record_success :: "circuit_breaker \<Rightarrow> circuit_breaker" where
  "record_success cb = cb\<lparr>cb_failure_count := 0, cb_consecutive_failures := 0, cb_state := CLOSED\<rparr>"

definition record_failure :: "circuit_breaker \<Rightarrow> rat \<Rightarrow> rat \<Rightarrow> circuit_breaker" where
  "record_failure cb now rnd =
     (let cb1 = cb\<lparr>cb_failure_count := cb_failure_count cb + 1, cb_last_failure_time := now\<rparr>
      in if cb_failure_count cb1 \<ge> cb_threshold cb1
         then let cb2 = cb1\<lparr>cb_consecutive_failures := cb_consecutive_failures cb1 + 1\<rparr>;
                  cb3 = cb2\<lparr>cb_current_cooldown := compute_cooldown cb2 rnd\<rparr>
              in cb3\<lparr>cb_state := OPEN\<rparr>
         else cb1)"

definition circuit_reset :: "circuit_breaker \<Rightarrow> circuit_breaker" where
  "circuit_reset cb =
     cb\<lparr>cb_failure_count := 0, cb_consecutive_failures := 0, cb_state := CLOSED, cb_last_failure_time := 0\<rparr>"

definition allows_request :: "circuit_breaker \<Rightarrow> rat \<Rightarrow> bool \<times> circuit_breaker" where
  "allows_request cb now = (let (st, cb') = circuit_state_at cb now in (st \<noteq> OPEN, cb'))"

subsection \<open>Runs of a breaker\<close>

datatype cb_event = Success | Failure rat rat | Reset | Query rat

fun cb_step :: "cb_event \<Rightarrow> circuit_breaker \<Rightarrow> circuit_breaker" where
  "cb_step Success cb = record_success cb"
| "cb_step (Failure now rnd) cb = record_failure cb now rnd"
| "cb_step Reset cb = circuit_reset cb"
| "cb_step (Query now) cb = snd (allows_request cb now)"

text \<open>\<open>random.random()\<close> returns a number of \<open>[0, 1)\<close>.\<close>

fun cb_event_ok :: "cb_event \<Rightarrow> bool" where
  "cb_event_ok (Failure now rnd) = (0 \<le> rnd \<and> rnd < 1)"
| "cb_event_ok e = True"

text \<open>What the breaker is meant to track: the failures since the last success or reset.\<close>

fun failures_since :: "int \<Rightarrow> cb_event list \<Rightarrow> int" where
  "failures_since n [] = n"
| "failures_since n (Success # es) = failures_since 0 es"
| "failures_since n (Reset # es) = failures_since 0 es"
| "failures_since n (Failure now rnd # es) = failures_since (n + 1) es"
| "failures_since n (Query now # es) = failures_since n es"

lemmas cb_defs = circuit_state_at_def allows_request_def record_success_def record_failure_def
  circuit_reset_def Let_def

text \<open>A breaker is closed exactly below its threshold; its cooldown stays within the jitter's range.\<close>

definition cb_inv :: "circuit_breaker \<Rightarrow> bool" where
  "cb_inv cb \<longleftrightarrow> 1 \<le> cb_threshold cb \<and> 0 \<le> cb_cooldown cb \<and> 0 \<le> cb_max_cooldown cb
     \<and> 1 \<le> cb_backoff_factor cb \<and> 0 \<le> cb_failure_count cb \<and> 0 \<le> cb_consecutive_failures cb
     \<and> (cb_state cb = CLOSED \<longleftrightarrow> cb_failure_count cb < cb_threshold cb)
     \<and> (cb_state cb \<noteq> CLOSED \<longrightarrow>
          8 / 10 * min (cb_cooldown cb) (cb_max_cooldown cb) \<le> cb_current_cooldown cb
          \<and> cb_current_cooldown cb \<le> 12 / 10 * cb_max_cooldown cb)"

lemma compute_cooldown_bounds:
  assumes "0 \<le> cb_cooldown cb" "0 \<le> cb_max_cooldown cb" "1 \<le> cb_backoff_factor cb"
    and "0 \<le> rnd" "rnd < 1"
  shows "8 / 10 * min (cb_cooldown cb) (cb_max_cooldown cb) \<le> compute_cooldown cb rnd"
    and "compute_cooldown cb rnd \<le> 12 / 10 * cb_max_cooldown cb"
proof -
  define f where "f = cb_backoff_factor cb ^ nat (min (cb_consecutive_failures cb) 5)"
  define b where "b = min (cb_cooldown cb * f) (cb_max_cooldown cb)"
  define j where "j = 8 / 10 + 4 / 10 * rnd"
  have f1: "1 \<le> f" unfolding f_def using assms(3) by (rule one_le_power)
  have "cb_cooldown cb * 1 \<le> cb_cooldown cb * f"
    using f1 assms(1) by (rule mult_left_mono)
  then have blo: "min (cb_cooldown cb) (cb_max_cooldown cb) \<le> b"
    by (auto simp: b_def min_def)
  have b0: "0 \<le> min (cb_cooldown cb) (cb_max_cooldown cb)" using assms(1,2) by simp
  have bhi: "b \<le> cb_max_cooldown cb" by (simp add: b_def)
  have j: "8 / 10 \<le> j" "j \<le> 12 / 10" using assms(4,5) by (auto simp: j_def)
  have eq: "compute_cooldown cb rnd = b * j"
    by (simp add: compute_cooldown_def Let_def b_def f_def j_def)
  have "min (cb_cooldown cb) (cb_max_cooldown cb) * (8 / 10) \<le> b * j"
    using blo b0 j by (intro mult_mono) auto
  then show "8 / 10 * min (cb_cooldown cb) (cb_max_cooldown cb) \<le> compute_cooldown cb rnd"
    unfolding eq by (simp add: mult.commute)
  have "b * j \<le> cb_max_cooldown cb * (12 / 10)"
    using bhi j blo b0 by (intro mult_mono) auto
  then show "compute_cooldown cb rnd \<le> 12 / 10 * cb_max_cooldown cb"
    unfolding eq by (simp add: mult.commute)
qed

lemma cb_inv_step: "cb_inv cb \<Longrightarrow> cb_event_ok e \<Longrightarrow> cb_inv (cb_step e cb)"
proof (cases e)
  case (Failure now rnd)
  assume inv: "cb_inv cb" and ok: "cb_event_ok e"
  let ?cb2 = "cb\<lparr>cb_failure_count := cb_failure_count cb + 1, cb_last_failure_time := now,
    cb_consecutive_failures := cb_consecutive_failures cb + 1\<rparr>"
  have b: "8 / 10 * min (cb_cooldown cb) (cb_max_cooldown cb) \<le> compute_cooldown ?cb2 rnd"
    "compute_cooldown ?cb2 rnd \<le> 12 / 10 * cb_max_cooldown cb"
    using compute_cooldown_bounds [of ?cb2 rnd] inv ok Failure by (simp_all add: cb_inv_def)
  show ?thesis
    using inv ok b Failure
    by (cases "cb_failure_count cb + 1 \<ge> cb_threshold cb") (auto simp: cb_inv_def cb_defs)
qed (auto simp: cb_inv_def cb_defs)

interpretation breaker: step_invariant cb_step cb_event_ok cb_inv
  by unfold_locales (rule cb_inv_step)

lemma cb_inv_init:
  "1 \<le> thr \<Longrightarrow> 0 \<le> cool \<Longrightarrow> 0 \<le> maxc \<Longrightarrow> 1 \<le> factor \<Longrightarrow> cb_inv (circuit_breaker_init thr cool maxc factor)"
  by (simp add: cb_inv_def circuit_breaker_init_def)

lemma cb_failure_count_run:
  "cb_failure_count (run_steps cb_step es cb) = failures_since (cb_failure_count cb) es"
proof (induction es arbitrary: cb)
  case (Cons e es)
  then show ?case by (cases e) (simp_all add: cb_defs)
qed simp

lemma cb_config_step:
  "cb_threshold (cb_step e cb) = cb_threshold cb" "cb_max_cooldown (cb_step e cb) = cb_max_cooldown cb"
  "cb_cooldown (cb_step e cb) = cb_cooldown cb"
  by (cases e; simp add: cb_defs)+

lemma cb_config_run:
  "cb_threshold (run_steps cb_step es cb) = cb_threshold cb"
  "cb_max_cooldown (run_steps cb_step es cb) = cb_max_cooldown cb"
  "cb_cooldown (run_steps cb_step es cb) = cb_cooldown cb"
  by (induction es arbitrary: cb) (simp_all add: cb_config_step)

text \<open>
  After any sequence of successes, failures, resets and queries, a breaker is closed exactly
  when the failures since the last success or reset are fewer than the threshold: it implements
  the abstract counter.
\<close>

theorem breaker_closed_iff:
  assumes "1 \<le> thr" "0 \<le> cool" "0 \<le> maxc" "1 \<le> factor" "list_all cb_event_ok es"
  shows "cb_state (run_steps cb_step es (circuit_breaker_init thr cool maxc factor)) = CLOSED
     \<longleftrightarrow> failures_since 0 es < thr"
proof -
  let ?init = "circuit_breaker_init thr cool maxc factor"
  have "cb_inv (run_steps cb_step es ?init)"
    using cb_inv_init [OF assms(1-4)] assms(5) by (rule breaker.always)
  then show ?thesis
    by (simp add: cb_inv_def cb_config_run cb_failure_count_run) (simp add: circuit_breaker_init_def)
qed

theorem breaker_closed_iff_witness:
  "cb_state (run_steps cb_step [Failure 1 0, Failure 2 0, Query 3] (circuit_breaker_init 2 30 300 2)) \<noteq> CLOSED"
  using breaker_closed_iff [of 2 30 300 2 "[Failure 1 0, Failure 2 0, Query 3]"] by simp

text \<open>
  A breaker that is open refuses every request until its cooldown has passed and admits the
  probe from then on; the cooldown is never shorter than 80% of the smaller of the base and the
  maximal cooldown, and, because the jitter is applied after the cap, up to 120% of the maximal one.
\<close>

theorem breaker_cooldown:
  assumes "1 \<le> thr" "0 \<le> cool" "0 \<le> maxc" "1 \<le> factor" "list_all cb_event_ok es"
    and "cb = run_steps cb_step es (circuit_breaker_init thr cool maxc factor)" "cb_state cb = OPEN"
  shows "(fst (allows_request cb now) \<longleftrightarrow> now - cb_last_failure_time cb \<ge> cb_current_cooldown cb)
    \<and> 8 / 10 * min cool maxc \<le> cb_current_cooldown cb \<and> cb_current_cooldown cb \<le> 12 / 10 * maxc"
proof -
  have inv: "cb_inv cb"
    unfolding assms(6) using cb_inv_init [OF assms(1-4)] assms(5) by (rule breaker.always)
  have "fst (allows_request cb now) \<longleftrightarrow> now - cb_last_failure_time cb \<ge> cb_current_cooldown cb"
    using assms(7) by (auto simp: cb_defs)
  moreover have "cb_cooldown cb = cool" "cb_max_cooldown cb = maxc"
    by (simp_all add: assms(6) cb_config_run) (simp_all add: circuit_breaker_init_def)
  ultimately show ?thesis using inv assms(7) by (simp add: cb_inv_def)
qed

theorem breaker_cooldown_witness:
  "fst (allows_request (run_steps cb_step [Failure 10 (1 / 2)] (circuit_breaker_init 1 30 300 2)) 70)"
proof -
  have "cb_state (run_steps cb_step [Failure 10 (1 / 2)] (circuit_breaker_init 1 30 300 2)) = OPEN"
    by (simp add: cb_defs circuit_breaker_init_def)
  from breaker_cooldown [OF _ _ _ _ _ refl this, of 70] show ?thesis
    by (simp add: cb_defs circuit_breaker_init_def compute_cooldown_def)
qed

section \<open>Retry policy\<close>

record retry_policy =
  rp_max_retries :: int
  rp_base_delay :: rat
  rp_exponential_base :: rat

definition get_delay :: "retry_policy \<Rightarrow> int \<Rightarrow> rat res" where
  "get_delay rp attempt =
     (if 0 \<le> attempt then Inr (rp_base_delay rp * rp_exponential_base rp ^ nat attempt)
      else if rp_exponential_base rp = 0 then Inl ZeroDivisionError
      else Inr (rp_base_delay rp * (1 / rp_exponential_base rp ^ nat (- attempt))))"

lemma get_delay_grows:
  assumes "0 \<le> rp_base_delay rp" "1 \<le> rp_exponential_base rp" "0 \<le> a" "a \<le> b"
    and "get_delay rp a = Inr d" "get_delay rp b = Inr d'"
  shows "d \<le> d'"
  using assms by (auto simp: get_delay_def intro!: mult_left_mono power_increasing)

section \<open>Absolute time anchoring\<close>

text \<open>\<open>next_tick_delay\<close> with the clock's reading as its last argument.\<close>

definition next_tick_delay :: "rat \<Rightarrow> int \<Rightarrow> rat \<Rightarrow> rat \<Rightarrow> rat \<times> rat \<times> int" where
  "next_tick_delay anchor completed interval now =
     (let target = completed + 1;
          next_tick = anchor + of_int target * interval;
          delay = next_tick - now
      in if delay > 0 then (delay, anchor, target)
         else if delay \<le> - interval then (0, now, 0)
         else (0, anchor, target))"

text \<open>
  The work-first loop of its documentation, with instantaneous wake-ups: the times at which the
  work starts when the rounds of work take the durations given.
\<close>

fun tick_starts :: "rat \<Rightarrow> int \<Rightarrow> rat \<Rightarrow> rat \<Rightarrow> rat list \<Rightarrow> rat list" where
  "tick_starts anchor n interval now [] = [now]"
| "tick_starts anchor n interval now (w # ws) =
     now # (let (delay, anchor', n') = next_tick_delay anchor n interval (now + w)
            in tick_starts anchor' n' interval (now + w + delay) ws)"

lemma tick_starts_grid:
  assumes "now = anchor + of_int n * interval" and "list_all (\<lambda>w. 0 \<le> w \<and> w < interval) ws"
  shows "tick_starts anchor n interval now ws
    = map (\<lambda>k. now + of_nat k * interval) [0..<Suc (length ws)]"
  using assms
proof (induction ws arbitrary: n now)
  case (Cons w ws)
  let ?now' = "now + interval"
  have step: "next_tick_delay anchor n interval (now + w) = (interval - w, anchor, n + 1)"
    using Cons.prems by (simp add: next_tick_delay_def Let_def algebra_simps)
  have "?now' = anchor + of_int (n + 1) * interval"
    using Cons.prems(1) by (simp add: algebra_simps)
  then have "tick_starts anchor (n + 1) interval ?now' ws
      = map (\<lambda>k. ?now' + of_nat k * interval) [0..<Suc (length ws)]"
    using Cons.prems(2) by (intro Cons.IH) auto
  also have "\<dots> = map (\<lambda>k. now + of_nat k * interval) (map Suc [0..<Suc (length ws)])"
    by (simp add: algebra_simps)
  finally show ?case
    using step by (simp add: upt_conv_Cons map_Suc_upt del: upt_Suc)
qed simp

text \<open>
  A work-first loop whose rounds of work each take less than one interval starts its k-th round
  exactly k intervals after the anchor, whatever the rounds took: the work time does not accumulate
  as drift.
\<close>

theorem tick_loop_no_drift:
  assumes "list_all (\<lambda>w. 0 \<le> w \<and> w < interval) ws"
  shows "tick_starts anchor 0 interval anchor ws
    = map (\<lambda>k. anchor + of_nat k * interval) [0..<Suc (length ws)]"
  by (rule tick_starts_grid) (simp_all add: assms)

theorem tick_loop_no_drift_witness:
  "tick_starts 100 0 5 100 [2, 4, 1] = [100, 105, 110, 115]"
  using tick_loop_no_drift [of 5 "[2, 4, 1]" 100] by (simp add: upt_rec)

text \<open>
  No burst catch-up: however late a call comes, the delay it returns is never negative, and a
  second call right after that sleep returns a positive delay of at most one interval.
\<close>

theorem tick_no_burst:
  assumes "0 < interval" and "anchor + of_int completed * interval \<le> now"
    and "next_tick_delay anchor completed interval now = (delay, anchor', completed')"
    and "next_tick_delay anchor' completed' interval (now + delay) = (delay', anchor'', completed'')"
  shows "0 \<le> delay \<and> delay \<le> interval \<and> 0 < delay' \<and> delay' \<le> interval"
  using assms by (auto simp: next_tick_delay_def Let_def algebra_simps split: if_splits)

theorem tick_no_burst_witness:
  "next_tick_delay 0 3 5 1000 = (0, 1000, 0) \<and> next_tick_delay 1000 0 5 1000 = (5, 1000, 1) \<and> (0::rat) < 5"
  using tick_no_burst [of 5 0 3 1000 0 1000 0 5 1000 1] by (simp add: next_tick_delay_def)

end
