(* ===== verification/RuntimeParams.thy ===== *)
theory RuntimeParams
  imports Csp_Prelude
begin

text \<open>
  \<open>csp_lib/core/runtime_params.py\<close>: the parameter container shared between the Modbus threads and
  the event loop. Every operation takes the lock for its reads and writes, so an operation is one
  step on the state; what it tells the observers is a trace of notifications, in call order.
  Observers are named by numbers. An observer's exception is swallowed by \<open>_notify\<close> and changes
  nothing; observers that call the container back are not modelled.
\<close>

record runtime_params =
  rp_values :: "(string \<times> pyval) list"
  rp_observers :: "nat list"

type_synonym notification = "nat \<times> string \<times> pyval \<times> pyval"

definition params_init :: "(string \<times> pyval) list \<Rightarrow> runtime_params" where
  "params_init vs = \<lparr>rp_values = vs, rp_observers = []\<rparr>"

definition params_get :: "runtime_params \<Rightarrow> string \<Rightarrow> pyval \<Rightarrow> pyval" where
  "params_get rp key dflt = dict_get_or (rp_values rp) key dflt"

definition params_snapshot :: "runtime_params \<Rightarrow> (string \<times> pyval) list" where
  "params_snapshot rp = rp_values rp"

definition params_keys :: "runtime_params \<Rightarrow> string list" where
  "params_keys rp = dict_keys (rp_values rp)"

definition params_contains :: "runtime_params \<Rightarrow> string \<Rightarrow> bool" where
  "params_contains rp key = (dict_get (rp_values rp) key \<noteq> None)"

definition params_len :: "runtime_params \<Rightarrow> nat" where
  "params_len rp = length (rp_values rp)"

definition params_notify :: "runtime_params \<Rightarrow> string \<Rightarrow> pyval \<Rightarrow> pyval \<Rightarrow> notification list" where
  "params_notify rp key old new = map (\<lambda>cb. (cb, key, old, new)) (rp_observers rp)"

definition params_set :: "runtime_params \<Rightarrow> string \<Rightarrow> pyval \<Rightarrow> runtime_params \<times> notification list" where
  "params_set rp key v =
     (let old = params_get rp key PyNone;
          rp' = rp\<lparr>rp_values := dict_set key v (rp_values rp)\<rparr>
      in (rp', if \<not> py_eq old v then params_notify rp' key old v else []))"

text \<open>The locked loop of \<open>update\<close> collects the changes; they are told after the lock is released.\<close>

fun params_update_loop ::
  "(string \<times> pyval) list \<Rightarrow> (string \<times> pyval \<times> pyval) list \<Rightarrow> (string \<times> pyval) list
   \<Rightarrow> (string \<times> pyval) list \<times> (string \<times> pyval \<times> pyval) list" where
  "params_update_loop vs changes [] = (vs, changes)"
| "params_update_loop vs changes ((key, v) # mapping) =
     (let old = dict_get_or vs key PyNone
      in params_update_loop (dict_set key v vs)
           (if \<not> py_eq old v then changes @ [(key, old, v)] else changes) mapping)"

definition params_update :: "runtime_params \<Rightarrow> (string \<times> pyval) list \<Rightarrow> runtime_params \<times> notification list" where
  "params_update rp mapping =
     (let (vs, changes) = params_update_loop (rp_values rp) [] mapping;
          rp' = rp\<lparr>rp_values := vs\<rparr>
      in (rp', concat (map (\<lambda>(key, old, new). params_notify rp' key old new) changes)))"

definition params_setdefault :: "runtime_params \<Rightarrow> string \<Rightarrow> pyval \<Rightarrow> runtime_params \<times> pyval" where
  "params_setdefault rp key dflt =
     (case dict_get (rp_values rp) key of
        None \<Rightarrow> (rp\<lparr>rp_values := dict_set key dflt (rp_values rp)\<rparr>, dflt)
      | Some v \<Rightarrow> (rp, v))"

definition params_delete :: "runtime_params \<Rightarrow> string \<Rightarrow> runtime_params \<times> notification list" where
  "params_delete rp key =
     (let old = params_get rp key PyNone;
          rp' = rp\<lparr>rp_values := dict_del key (rp_values rp)\<rparr>
      in (rp', if old \<noteq> PyNone then params_notify rp' key old PyNone else []))"

definition params_on_change :: "runtime_params \<Rightarrow> nat \<Rightarrow> runtime_params" where
  "params_on_change rp cb = rp\<lparr>rp_observers := rp_observers rp @ [cb]\<rparr>"

definition params_remove_observer :: "runtime_params \<Rightarrow> nat \<Rightarrow> runtime_params" where
  "params_remove_observer rp cb = rp\<lparr>rp_observers := remove1 cb (rp_observers rp)\<rparr>"

text \<open>\<open>__getattr__\<close>: names that start with an underscore never reach the parameters.\<close>

definition params_getattr :: "runtime_params \<Rightarrow> string \<Rightarrow> pyval res" where
  "params_getattr rp name =
     (if name \<noteq> [] \<and> hd name = CHR ''_'' then Inl AttributeError
      else case dict_get (rp_values rp) name of Some v \<Rightarrow> Inr v | None \<Rightarrow> Inl AttributeError)"

text \<open>\<open>__setattr__\<close>: an underscore name is a slot of the object, not a parameter.\<close>

definition params_setattr ::
  "runtime_params \<Rightarrow> string \<Rightarrow> pyval \<Rightarrow> (runtime_params \<times> notification list) option" where
  "params_setattr rp name v =
     (if name \<noteq> [] \<and> hd name = CHR ''_'' then None else Some (params_set rp name v))"

lemmas params_defs = params_get_def params_set_def params_update_def params_delete_def
  params_notify_def params_setdefault_def params_on_change_def params_remove_observer_def

section \<open>Batch update\<close>

fun params_sets :: "runtime_params \<Rightarrow> (string \<times> pyval) list \<Rightarrow> runtime_params \<times> notification list" where
  "params_sets rp [] = (rp, [])"
| "params_sets rp ((key, v) # mapping) =
     (let (rp1, t1) = params_set rp key v; (rp2, t2) = params_sets rp1 mapping in (rp2, t1 @ t2))"

lemma params_update_loop_sets:
  "params_update_loop vs changes mapping = (vs', changes') \<Longrightarrow>
   params_sets \<lparr>rp_values = vs, rp_observers = obs\<rparr> mapping =
     (\<lparr>rp_values = vs', rp_observers = obs\<rparr>,
      concat (map (\<lambda>(key, old, new). map (\<lambda>cb. (cb, key, old, new)) obs) (drop (length changes) changes')))
   \<and> take (length changes) changes' = changes"
proof (induction vs changes mapping arbitrary: vs' changes' rule: params_update_loop.induct)
  case (2 vs changes key v mapping)
  define old where "old = dict_get_or vs key PyNone"
  define c1 where "c1 = (if \<not> py_eq old v then changes @ [(key, old, v)] else changes)"
  have "params_update_loop (dict_set key v vs) c1 mapping = (vs', changes')"
    using "2.prems" by (simp only: params_update_loop.simps old_def c1_def Let_def)
  note ih = "2.IH" [OF old_def, folded c1_def, OF this]
  show ?case
  proof (cases "py_eq old v")
    case True
    then show ?thesis
      using ih by (simp add: c1_def params_defs Let_def flip: old_def)
  next
    case False
    then have "take (Suc (length changes)) changes' = changes @ [(key, old, v)]"
      using ih by (simp add: c1_def)
    then obtain rest where "changes' = changes @ (key, old, v) # rest"
      by (metis append_take_drop_id append_assoc append_Cons append_Nil)
    then show ?thesis
      using ih False by (simp add: c1_def params_defs Let_def flip: old_def)
  qed
qed simp

lemma params_update_sets: "params_update rp mapping = params_sets rp mapping"
proof -
  obtain vs' changes' where loop: "params_update_loop (rp_values rp) [] mapping = (vs', changes')"
    by (cases "params_update_loop (rp_values rp) [] mapping") auto
  from params_update_loop_sets [OF this, of "rp_observers rp"] loop show ?thesis
    by (cases rp) (simp add: params_update_def params_notify_def)
qed

lemma params_set_simps [simp]:
  "params_notify (fst (params_set rp key v)) = params_notify rp"
  "params_get (fst (params_set rp key v)) k d = (if k = key then v else params_get rp k d)"
  by (simp_all add: params_defs Let_def fun_eq_iff)

lemma params_sets_trace:
  "distinct (dict_keys mapping) \<Longrightarrow>
   snd (params_sets rp mapping) = concat (map (\<lambda>(key, v). if py_eq (params_get rp key PyNone) v then []
     else params_notify rp key (params_get rp key PyNone) v) mapping)"
proof (induction mapping arbitrary: rp)
  case (Cons kv mapping)
  obtain key v where kv: "kv = (key, v)" by (cases kv)
  have other: "fst x \<noteq> key" if "x \<in> set mapping" for x
    using Cons.prems kv that by (auto simp: image_iff)
  have "snd (params_sets (fst (params_set rp key v)) mapping)
    = concat (map (\<lambda>(key, v). if py_eq (params_get rp key PyNone) v then []
        else params_notify rp key (params_get rp key PyNone) v) mapping)"
    using Cons.prems kv other
    by (subst Cons.IH) (auto intro!: arg_cong [where f = concat] simp: split_beta)
  then show ?case
    by (simp add: kv split_beta') (simp add: params_set_def Let_def params_notify_def)
qed simp

lemma params_sets_values:
  "fst (params_sets rp mapping) = rp\<lparr>rp_values := foldl (\<lambda>d (key, v). dict_set key v d) (rp_values rp) mapping\<rparr>"
proof (induction mapping arbitrary: rp)
  case (Cons kv mapping)
  then show ?case by (cases kv) (simp add: split_beta params_set_def Let_def)
qed simp

text \<open>
  A batch update writes every key of the mapping, and tells every observer, in registration
  order, about exactly the keys whose value changed, once each, with the value the key had before
  the update and only after all keys are written: state and notifications are those of setting the
  keys one at a time.
\<close>

theorem params_update_notifies:
  assumes "distinct (dict_keys mapping)"
  shows "params_update rp mapping = params_sets rp mapping
    \<and> params_update rp mapping =
       (rp\<lparr>rp_values := foldl (\<lambda>d (key, v). dict_set key v d) (rp_values rp) mapping\<rparr>,
        concat (map (\<lambda>(key, v). if py_eq (params_get rp key PyNone) v then []
          else params_notify rp key (params_get rp key PyNone) v) mapping))"
  unfolding params_update_sets
  by (simp add: prod_eq_iff params_sets_trace [OF assms] params_sets_values)

theorem params_update_notifies_witness:
  "snd (params_update \<lparr>rp_values = [(''soc_max'', PyInt 95), (''pf'', PyInt 1)], rp_observers = [7]\<rparr>
     [(''soc_max'', PyInt 90), (''pf'', PyFloat 1)]) = [(7, ''soc_max'', PyInt 95, PyInt 90)]"
  using params_update_notifies [of "[(''soc_max'', PyInt 90), (''pf'', PyFloat 1)]"
    "\<lparr>rp_values = [(''soc_max'', PyInt 95), (''pf'', PyInt 1)], rp_observers = [7]\<rparr>", THEN conjunct2]
  by (simp add: params_get_def dict_get_or_def params_notify_def)

section \<open>Observers that follow the notifications\<close>

datatype params_op = PSet string pyval | PUpdate "(string \<times> pyval) list" | PDelete string

fun params_step :: "params_op \<Rightarrow> runtime_params \<Rightarrow> runtime_params \<times> notification list" where
  "params_step (PSet key v) rp = params_set rp key v"
| "params_step (PUpdate mapping) rp = params_update rp mapping"
| "params_step (PDelete key) rp = params_delete rp key"

fun params_run :: "params_op list \<Rightarrow> runtime_params \<Rightarrow> runtime_params \<times> notification list" where
  "params_run [] rp = (rp, [])"
| "params_run (e # es) rp =
     (let (rp1, t1) = params_step e rp; (rp2, t2) = params_run es rp1 in (rp2, t1 @ t2))"

text \<open>The observer \<open>cb\<close> keeps a copy of its own, writing what it is told.\<close>

fun mirror :: "nat \<Rightarrow> notification list \<Rightarrow> (string \<Rightarrow> pyval) \<Rightarrow> (string \<Rightarrow> pyval)" where
  "mirror cb [] m = m"
| "mirror cb ((c, key, old, new) # t) m = mirror cb t (if c = cb then m(key := new) else m)"

lemma mirror_append: "mirror cb (s @ t) m = mirror cb t (mirror cb s m)"
  by (induction s arbitrary: m) auto

lemma mirror_notify:
  "cb \<in> set (rp_observers rp) \<Longrightarrow> mirror cb (params_notify rp key old new) m = m(key := new)"
proof -
  have "mirror cb (map (\<lambda>c. (c, key, old, new)) obs) m = (if cb \<in> set obs then m(key := new) else m)" for obs
    by (induction obs arbitrary: m) auto
  then show "cb \<in> set (rp_observers rp) \<Longrightarrow> ?thesis" by (simp add: params_notify_def)
qed

lemma py_sub_dict_lookup:
  "py_sub_dict d e \<Longrightarrow> (k, v) \<in> set d \<Longrightarrow> \<exists>w. map_of e k = Some w \<and> py_eq v w"
  by (induction d) (auto split: option.splits)

lemma py_eq_num_trans:
  "is_num_val v \<Longrightarrow> feq x (flt_val v) \<Longrightarrow> py_eq v w \<Longrightarrow> is_num_val w \<and> feq x (flt_val w)"
  by (cases v) (auto simp: feq_def)

lemma py_eq_trans:
  "py_eq u v \<Longrightarrow> py_eq v w \<Longrightarrow> py_eq u w"
  "py_eq_list us vs \<Longrightarrow> py_eq_list vs ws \<Longrightarrow> py_eq_list us ws"
  "py_sub_dict d e \<Longrightarrow> py_sub_dict e f \<Longrightarrow> py_sub_dict d f"
proof (induction u v and us vs and d e arbitrary: w and ws and f rule: py_eq_py_eq_list_py_sub_dict.induct)
  case (10 x xs ys)
  then show ?case by (cases ys; cases ws) auto
next
  case (12 k v d e)
  from "12.prems"(1) obtain w where w: "map_of e k = Some w" "py_eq v w" "py_sub_dict d e"
    by (auto split: option.splits)
  from py_sub_dict_lookup [OF "12.prems"(2) map_of_SomeD [OF w(1)]]
  obtain u where "map_of f k = Some u" "py_eq w u" by auto
  then show ?case using w "12.IH" "12.prems"(2) by auto
qed (auto split: pyval.splits dest: py_eq_num_trans)

text \<open>What the copy may differ in: the representation of equal values (\<open>1\<close> and \<open>1.0\<close>).\<close>

definition same_value :: "pyval \<Rightarrow> pyval \<Rightarrow> bool" where
  "same_value v w = (v = w \<or> py_eq v w)"

definition follows :: "(string \<Rightarrow> pyval) \<Rightarrow> runtime_params \<Rightarrow> bool" where
  "follows m rp = (\<forall>key. same_value (m key) (params_get rp key PyNone))"

lemma follows_set:
  assumes "follows m rp" "cb \<in> set (rp_observers rp)"
  shows "follows (mirror cb (snd (params_set rp key v)) m) (fst (params_set rp key v))"
  using assms
  by (auto simp: follows_def same_value_def params_set_def Let_def mirror_notify params_get_def
      dest: py_eq_trans(1)) (metis py_eq_trans(1))

lemma params_set_observers [simp]: "rp_observers (fst (params_set rp key v)) = rp_observers rp"
  by (simp add: params_set_def Let_def)

lemma params_step_observers: "rp_observers (fst (params_step e rp)) = rp_observers rp"
  by (cases e) (simp_all add: params_update_sets params_sets_values params_delete_def Let_def)

lemma follows_sets:
  "follows m rp \<Longrightarrow> cb \<in> set (rp_observers rp) \<Longrightarrow>
   follows (mirror cb (snd (params_sets rp mapping)) m) (fst (params_sets rp mapping))"
proof (induction mapping arbitrary: m rp)
  case (Cons kv mapping)
  obtain key v where kv: "kv = (key, v)" by (cases kv)
  show ?case
    using Cons.IH [OF follows_set [OF Cons.prems, of key v]] Cons.prems
    by (simp add: kv split_beta mirror_append)
qed simp

lemma follows_delete:
  assumes "follows m rp" "cb \<in> set (rp_observers rp)"
  shows "follows (mirror cb (snd (params_delete rp key)) m) (fst (params_delete rp key))"
proof (cases "params_get rp key PyNone = PyNone")
  case True
  then show ?thesis
    using assms(1) by (auto simp: follows_def params_delete_def Let_def params_get_def) metis
next
  case False
  then show ?thesis
    using assms
    by (auto simp: follows_def params_delete_def Let_def mirror_notify params_get_def same_value_def)
qed

lemma follows_step:
  "follows m rp \<Longrightarrow> cb \<in> set (rp_observers rp) \<Longrightarrow>
   follows (mirror cb (snd (params_step e rp)) m) (fst (params_step e rp))"
  by (cases e) (simp_all add: params_update_sets follows_set follows_sets follows_delete)

text \<open>
  An observer that starts from a snapshot and writes what it is told holds, after any sequence of
  sets, batch updates and deletions, a value equal to the container's for every key (a missing key
  reads as \<open>None\<close>): no change is ever missed.
\<close>

theorem observer_follows:
  assumes "cb \<in> set (rp_observers rp)" "params_run es rp = (rp', trace)"
  shows "same_value (mirror cb trace (\<lambda>k. dict_get_or (params_snapshot rp) k PyNone) key) (params_get rp' key PyNone)"
proof -
  have "follows (mirror cb trace m) rp'" if "follows m rp" for m
    using assms that
  proof (induction es arbitrary: rp m trace)
    case (Cons e es)
    obtain t2 where run: "params_run es (fst (params_step e rp)) = (rp', t2)"
      and t: "trace = snd (params_step e rp) @ t2"
      using Cons.prems(2) by (auto simp: split_beta Let_def prod_eq_iff)
    show ?case
      unfolding t mirror_append
      using Cons.IH [OF _ run follows_step [OF Cons.prems(3,1)]] Cons.prems(1)
      by (simp add: params_step_observers)
  qed simp
  then have "follows (mirror cb trace (\<lambda>k. params_get rp k PyNone)) rp'"
    by (simp add: follows_def same_value_def)
  then show ?thesis by (simp add: follows_def params_snapshot_def params_get_def)
qed

theorem observer_follows_witness:
  "same_value (mirror 7 [(7, ''a'', PyNone, PyInt 2), (7, ''b'', PyInt 5, PyNone)]
     (\<lambda>k. dict_get_or [(''b'', PyInt 5)] k PyNone) ''b'')
     (params_get \<lparr>rp_values = [(''a'', PyInt 2)], rp_observers = [7]\<rparr> ''b'' PyNone)"
  by (rule observer_follows [of 7 "\<lparr>rp_values = [(''b'', PyInt 5)], rp_observers = [7]\<rparr>"
        "[PSet ''a'' (PyInt 2), PDelete ''b'']", unfolded params_snapshot_def, simplified])
    (simp add: params_defs dict_get_or_def)

end
