(* ===== verification/Command_Core.thy ===== *)
theory Command_Core
  imports RuntimeParams
begin

text \<open>
  \<open>csp_lib/core/_numeric.py\<close> and \<open>csp_lib/controller/core/command.py\<close>, \<open>context.py\<close>: the numeric
  guards, the command a strategy returns (each axis a set-point or the \<open>NO_CHANGE\<close> sentinel) and
  the context it reads. P > 0 discharges, P < 0 charges. A \<open>RuntimeParameters\<close> object is shared by
  reference: who reads one holds its number in a store.
\<close>

section \<open>Numeric guards\<close>

definition is_non_finite_float :: "pyval \<Rightarrow> bool" where
  "is_non_finite_float v = (case v of PyFloat x \<Rightarrow> \<not> is_finite x | _ \<Rightarrow> False)"

definition safe_float :: "pyval \<Rightarrow> flt option \<Rightarrow> flt option" where
  "safe_float v d = (case v of PyInt i \<Rightarrow> Some (Fin (of_int i))
     | PyFloat x \<Rightarrow> if is_finite x then Some x else d | _ \<Rightarrow> d)"

definition clamp :: "flt \<Rightarrow> flt \<Rightarrow> flt \<Rightarrow> flt" where
  "clamp x lo hi = py_max lo (py_min hi x)"

lemma clamp_Fin [simp]: "clamp (Fin x) (Fin lo) (Fin hi) = Fin (max lo (min hi x))"
  by (simp add: clamp_def)

text \<open>Python's \<open>min(hi, NaN)\<close> is \<open>hi\<close>: a NaN is clamped to the upper bound.\<close>

lemma clamp_NaN: "clamp NaN (Fin lo) (Fin hi) = Fin (max lo hi)"
  by (simp add: clamp_def py_min_def)

lemma clamp_bounds: "lo \<le> hi \<Longrightarrow> \<exists>y. clamp x (Fin lo) (Fin hi) = Fin y \<and> lo \<le> y \<and> y \<le> hi"
  by (cases x) (auto simp: clamp_def py_max_def py_min_def)

section \<open>Configuration from a dictionary\<close>

definition is_upper :: "char \<Rightarrow> bool" where
  "is_upper c = (65 \<le> (of_char c :: nat) \<and> (of_char c :: nat) \<le> 90)"

definition camel_to_snake :: "string \<Rightarrow> string" where
  "camel_to_snake name = map lower_char (case name of [] \<Rightarrow> []
     | c # cs \<Rightarrow> c # concat (map (\<lambda>x. if is_upper x then [CHR ''_'', x] else [x]) cs))"

fun from_dict_loop :: "string list \<Rightarrow> (string \<times> pyval) list \<Rightarrow> (string \<times> pyval) list \<Rightarrow> (string \<times> pyval) list" where
  "from_dict_loop names out [] = out"
| "from_dict_loop names out ((key, v) # data) =
     (if key \<in> set names then from_dict_loop names (dict_set key v out) data
      else if camel_to_snake key \<in> set names then from_dict_loop names (dict_set (camel_to_snake key) v out) data
      else from_dict_loop names out data)"

text \<open>The keyword arguments \<open>from_dict\<close> calls the dataclass with.\<close>

definition from_dict_args :: "string list \<Rightarrow> (string \<times> pyval) list \<Rightarrow> (string \<times> pyval) list" where
  "from_dict_args names data = from_dict_loop names [] data"

lemma from_dict_loop_keys:
  "set (dict_keys out) \<subseteq> set names \<Longrightarrow> set (dict_keys (from_dict_loop names out data)) \<subseteq> set names"
  by (induction names out data rule: from_dict_loop.induct) simp_all

section \<open>Commands\<close>

datatype axis = NO_CHANGE | Val flt

definition is_no_change :: "axis \<Rightarrow> bool" where
  "is_no_change v = (v = NO_CHANGE)"

record command =
  p_target :: axis
  q_target :: axis
  is_fallback :: bool

definition mk_command :: "flt \<Rightarrow> flt \<Rightarrow> command" where
  "mk_command p q = \<lparr>p_target = Val p, q_target = Val q, is_fallback = False\<rparr>"

definition with_p :: "command \<Rightarrow> axis \<Rightarrow> command" where
  "with_p c p = c\<lparr>p_target := p\<rparr>"

definition with_q :: "command \<Rightarrow> axis \<Rightarrow> command" where
  "with_q c q = c\<lparr>q_target := q\<rparr>"

definition effective_p :: "command \<Rightarrow> flt \<Rightarrow> flt" where
  "effective_p c fallback = (case p_target c of NO_CHANGE \<Rightarrow> fallback | Val p \<Rightarrow> p)"

definition effective_q :: "command \<Rightarrow> flt \<Rightarrow> flt" where
  "effective_q c fallback = (case q_target c of NO_CHANGE \<Rightarrow> fallback | Val q \<Rightarrow> q)"

section \<open>Strategy context\<close>

record system_base =
  p_base :: flt
  q_base :: flt

text \<open>\<open>ctx_params\<close> is the number of a \<open>RuntimeParameters\<close> object; times are seconds.\<close>

record strategy_context =
  last_command :: command
  ctx_soc :: "flt option"
  ctx_system_base :: "system_base option"
  ctx_time :: "rat option"
  ctx_extra :: "(string \<times> pyval) list"
  ctx_params :: "nat option"

type_synonym params_store = "nat \<Rightarrow> runtime_params"

definition percent_to_kw :: "strategy_context \<Rightarrow> flt \<Rightarrow> flt res" where
  "percent_to_kw ctx pct = (case ctx_system_base ctx of None \<Rightarrow> Inl ValueError
     | Some b \<Rightarrow> fdiv (pct * p_base b) 100)"

definition percent_to_kvar :: "strategy_context \<Rightarrow> flt \<Rightarrow> flt res" where
  "percent_to_kvar ctx pct = (case ctx_system_base ctx of None \<Rightarrow> Inl ValueError
     | Some b \<Rightarrow> fdiv (pct * q_base b) 100)"

text \<open>\<open>Command()\<close> and \<open>StrategyContext()\<close> with every field at its default.\<close>

definition default_command :: command where
  "default_command = mk_command 0 0"

definition default_context :: strategy_context where
  "default_context = \<lparr>last_command = default_command, ctx_soc = None, ctx_system_base = None,
     ctx_time = None, ctx_extra = [], ctx_params = None\<rparr>"

text \<open>An operand of \<open>+\<close>, \<open>*\<close> or \<open><\<close> that must be a number.\<close>

definition num_of :: "pyval \<Rightarrow> flt res" where
  "num_of v = (if is_num_val v then Inr (flt_val v) else Inl TypeError)"

lemma with_p_simps [simp]:
  "p_target (with_p c p) = p" "q_target (with_p c p) = q_target c" "is_fallback (with_p c p) = is_fallback c"
  "q_target (with_q c q) = q" "p_target (with_q c q) = p_target c"
  by (simp_all add: with_p_def with_q_def)

lemma mk_command_simps [simp]: "p_target (mk_command p q) = Val p" "q_target (mk_command p q) = Val q"
  by (simp_all add: mk_command_def)

end
