(* ===== verification/Protection.thy ===== *)
theory Protection
  imports Command_Core
begin

text \<open>
  \<open>csp_lib/controller/system/protection.py\<close> and \<open>dynamic_protection.py\<close>: the protection rules and
  the guard that chains them between a strategy and the devices. A rule is its configuration and its
  \<open>is_triggered\<close> flag; \<open>evaluate\<close> returns the command or the exception it raises, and the new flag.
  The guard answers an exception with P = 0, Q = 0. Rules of the client's own are functions.
\<close>

section \<open>Rules\<close>

record soc_config =
  soc_high :: flt
  soc_low :: flt
  warning_band :: flt

type_synonym verdict = "command res \<times> bool"

text \<open>The last test of both warning zones, shared by the two SOC rules: limit P by a ratio.\<close>

definition limit_by :: "command \<Rightarrow> flt \<Rightarrow> flt \<Rightarrow> flt \<Rightarrow> command res" where
  "limit_by cmd p gap wb = rbind (fdiv gap wb) (\<lambda>ratio. Inr (with_p cmd (Val (p * ratio))))"

text \<open>The tests both SOC rules make on finite readings, in the order of the code.\<close>

definition soc_tests :: "flt \<Rightarrow> flt \<Rightarrow> flt \<Rightarrow> flt \<Rightarrow> flt \<Rightarrow> command \<Rightarrow> verdict" where
  "soc_tests hi lo wb soc p cmd =
     (if soc \<ge> hi then
        (if p < 0 then (Inr (with_p cmd (Val 0)), True) else (Inr cmd, False))
      else if soc \<le> lo then
        (if p > 0 then (Inr (with_p cmd (Val 0)), True) else (Inr cmd, False))
      else if wb > 0 \<and> soc \<ge> hi - wb \<and> p < 0 then (limit_by cmd p (hi - soc) wb, True)
      else if wb > 0 \<and> soc \<le> lo + wb \<and> p > 0 then (limit_by cmd p (soc - lo) wb, True)
      else (Inr cmd, False))"

definition soc_evaluate :: "soc_config \<Rightarrow> bool \<Rightarrow> command \<Rightarrow> strategy_context \<Rightarrow> verdict" where
  "soc_evaluate cfg trig cmd ctx =
     (case ctx_soc ctx of None \<Rightarrow> (Inr cmd, False)
      | Some soc \<Rightarrow>
        case p_target cmd of NO_CHANGE \<Rightarrow> (Inr cmd, False)
        | Val p \<Rightarrow>
          if \<not> is_finite soc then (Inr cmd, trig)
          else soc_tests (soc_high cfg) (soc_low cfg) (warning_band cfg) soc p cmd)"

definition reverse_power_evaluate ::
  "flt \<Rightarrow> string \<Rightarrow> bool \<Rightarrow> command \<Rightarrow> strategy_context \<Rightarrow> verdict" where
  "reverse_power_evaluate threshold key trig cmd ctx =
     (let meter = dict_get_or (ctx_extra ctx) key PyNone in
      if meter = PyNone then (Inr cmd, False)
      else case p_target cmd of NO_CHANGE \<Rightarrow> (Inr cmd, False)
      | Val p \<Rightarrow>
        if is_non_finite_float meter then (Inr cmd, trig)
        else if p < 0 then (Inr cmd, False)
        else case num_of meter of Inl e \<Rightarrow> (Inl e, trig)
        | Inr m \<Rightarrow>
          let max_discharge = (if m + threshold < 0 then 0 else m + threshold)
          in if p > max_discharge then (Inr (with_p cmd (Val max_discharge)), True)
             else (Inr cmd, False))"

definition alarm_evaluate :: "string \<Rightarrow> bool \<Rightarrow> command \<Rightarrow> strategy_context \<Rightarrow> verdict" where
  "alarm_evaluate key trig cmd ctx =
     (if truthy (dict_get_or (ctx_extra ctx) key (PyBool False))
      then (Inr (mk_command 0 0), True) else (Inr cmd, False))"

text \<open>Where \<open>DynamicSOCProtection\<close> takes its limits from.\<close>

datatype soc_source = FromConfig soc_config | FromParams nat string string flt

definition resolve_limits :: "params_store \<Rightarrow> soc_source \<Rightarrow> (flt \<times> flt \<times> flt) res" where
  "resolve_limits store src =
     rbind (case src of
         FromConfig cfg \<Rightarrow> Inr (soc_high cfg, soc_low cfg, warning_band cfg)
       | FromParams i max_key min_key wb \<Rightarrow>
           rbind (py_float (params_get (store i) max_key (PyFloat 95))) (\<lambda>hi.
           rbind (py_float (params_get (store i) min_key (PyFloat 5))) (\<lambda>lo. Inr (hi, lo, wb))))
       (\<lambda>(hi, lo, wb).
          if \<not> is_finite hi \<or> \<not> is_finite lo then Inl ValueError
          else let hi' = clamp hi 0 100; lo' = clamp lo 0 100
               in if hi' < lo' then Inl ValueError else Inr (hi', lo', wb))"

definition dynamic_soc_evaluate ::
  "params_store \<Rightarrow> soc_source \<Rightarrow> bool \<Rightarrow> command \<Rightarrow> strategy_context \<Rightarrow> verdict" where
  "dynamic_soc_evaluate store src trig cmd ctx =
     (case ctx_soc ctx of None \<Rightarrow> (Inr cmd, False)
      | Some soc \<Rightarrow>
        case p_target cmd of NO_CHANGE \<Rightarrow> (Inr cmd, False)
        | Val p \<Rightarrow>
          if \<not> is_finite soc then (Inr cmd, trig)
          else case resolve_limits store src of Inl e \<Rightarrow> (Inl e, trig)
          | Inr (hi, lo, wb) \<Rightarrow> soc_tests hi lo wb soc p cmd)"

definition grid_limit_evaluate ::
  "params_store \<Rightarrow> nat \<Rightarrow> flt \<Rightarrow> string \<Rightarrow> bool \<Rightarrow> command \<Rightarrow> strategy_context \<Rightarrow> verdict" where
  "grid_limit_evaluate store i rated key trig cmd ctx =
     (case p_target cmd of NO_CHANGE \<Rightarrow> (Inr cmd, False)
      | Val p \<Rightarrow>
        let raw = params_get (store i) key (PyInt 100) in
        if is_non_finite_float raw then (Inr cmd, trig)
        else case rbind (py_float raw) (\<lambda>pct. fdiv (rated * clamp pct 0 100) 100) of
          Inl e \<Rightarrow> (Inl e, trig)
        | Inr max_p \<Rightarrow>
          if p > max_p then (Inr (with_p cmd (Val max_p)), True)
          else if p < - max_p then (Inr (with_p cmd (Val (- max_p))), True)
          else (Inr cmd, False))"

record ramp_config =
  rs_params :: nat
  rs_rated :: flt
  rs_interval :: flt
  rs_trigger_key :: string
  rs_trigger_value :: int
  rs_ramp_rate_key :: string
  rs_default_ramp_rate :: flt

definition ramp_stop_evaluate ::
  "params_store \<Rightarrow> ramp_config \<Rightarrow> bool \<Rightarrow> command \<Rightarrow> strategy_context \<Rightarrow> verdict" where
  "ramp_stop_evaluate store cfg trig cmd ctx =
     (let rp = store (rs_params cfg) in
      if \<not> py_eq (params_get rp (rs_trigger_key cfg) (PyInt 0)) (PyInt (rs_trigger_value cfg))
      then (Inr cmd, False)
      else let current_p = effective_p (last_command ctx) 0 in
        (rbind (py_float (params_get rp (rs_ramp_rate_key cfg) (PyFloat (rs_default_ramp_rate cfg)))) (\<lambda>rate.
         rbind (fdiv rate 100) (\<lambda>r.
         let ramp_step = r * rs_rated cfg * rs_interval cfg;
             target_p = (if fabs current_p \<le> ramp_step then 0
                         else if current_p > 0 then current_p - ramp_step else current_p + ramp_step)
         in Inr (with_p cmd (Val target_p)))), True))"

section \<open>Guard\<close>

datatype rule_kind =
    SOCProtection soc_config
  | ReversePowerProtection flt string
  | SystemAlarmProtection string
  | DynamicSOCProtection soc_source
  | GridLimitProtection nat flt string
  | RampStopProtection ramp_config
  | ClientRule string "bool \<Rightarrow> command \<Rightarrow> strategy_context \<Rightarrow> command res \<times> bool"

record protection_rule =
  rule_kind :: rule_kind
  is_triggered :: bool

fun rule_name :: "rule_kind \<Rightarrow> string" where
  "rule_name (SOCProtection cfg) = ''soc_protection''"
| "rule_name (ReversePowerProtection t k) = ''reverse_power_protection''"
| "rule_name (SystemAlarmProtection k) = ''system_alarm_protection''"
| "rule_name (DynamicSOCProtection src) = ''dynamic_soc_protection''"
| "rule_name (GridLimitProtection i r k) = ''grid_limit_protection''"
| "rule_name (RampStopProtection cfg) = ''ramp_stop_protection''"
| "rule_name (ClientRule n f) = n"

fun rule_evaluate :: "params_store \<Rightarrow> rule_kind \<Rightarrow> bool \<Rightarrow> command \<Rightarrow> strategy_context \<Rightarrow> verdict" where
  "rule_evaluate store (SOCProtection cfg) = soc_evaluate cfg"
| "rule_evaluate store (ReversePowerProtection t k) = reverse_power_evaluate t k"
| "rule_evaluate store (SystemAlarmProtection k) = alarm_evaluate k"
| "rule_evaluate store (DynamicSOCProtection src) = dynamic_soc_evaluate store src"
| "rule_evaluate store (GridLimitProtection i r k) = grid_limit_evaluate store i r k"
| "rule_evaluate store (RampStopProtection cfg) = ramp_stop_evaluate store cfg"
| "rule_evaluate store (ClientRule n f) = f"

record protection_result =
  original_command :: command
  protected_command :: command
  triggered_rules :: "string list"

definition was_modified :: "protection_result \<Rightarrow> bool" where
  "was_modified r = (original_command r \<noteq> protected_command r)"

record protection_guard =
  guard_rules :: "protection_rule list"
  last_result :: "protection_result option"

definition guard_init :: "protection_rule list \<Rightarrow> protection_guard" where
  "guard_init rules = \<lparr>guard_rules = rules, last_result = None\<rparr>"

definition add_rule :: "protection_guard \<Rightarrow> protection_rule \<Rightarrow> protection_guard" where
  "add_rule g r = g\<lparr>guard_rules := guard_rules g @ [r]\<rparr>"

definition remove_rule :: "protection_guard \<Rightarrow> string \<Rightarrow> protection_guard" where
  "remove_rule g name = g\<lparr>guard_rules := filter (\<lambda>r. rule_name (rule_kind r) \<noteq> name) (guard_rules g)\<rparr>"

fun apply_rules :: "params_store \<Rightarrow> strategy_context \<Rightarrow> protection_rule list \<Rightarrow> command \<Rightarrow> string list
    \<Rightarrow> protection_rule list \<times> command \<times> string list" where
  "apply_rules store ctx [] current triggered = ([], current, triggered)"
| "apply_rules store ctx (r # rs) current triggered =
     (let (verdict, trig) = rule_evaluate store (rule_kind r) (is_triggered r) current ctx;
          name = rule_name (rule_kind r);
          (current', triggered') = (case verdict of
             Inr cmd \<Rightarrow> (cmd, if trig then triggered @ [name] else triggered)
           | Inl e \<Rightarrow> (mk_command 0 0, triggered @ [name @ ''(fail-safe)'']));
          (rs', final, names) = apply_rules store ctx rs current' triggered'
      in (r\<lparr>is_triggered := trig\<rparr> # rs', final, names))"

definition guard_apply ::
  "params_store \<Rightarrow> protection_guard \<Rightarrow> command \<Rightarrow> strategy_context \<Rightarrow> protection_result \<times> protection_guard" where
  "guard_apply store g cmd ctx =
     (let (rules, current, triggered) = apply_rules store ctx (guard_rules g) cmd [];
          result = \<lparr>original_command = cmd, protected_command = current, triggered_rules = triggered\<rparr>
      in (result, g\<lparr>guard_rules := rules, last_result := Some result\<rparr>))"

section \<open>Rules that only reduce the power\<close>

text \<open>\<open>toward_zero p' p\<close>: \<open>p'\<close> lies between 0 and \<open>p\<close>.\<close>

definition toward_zero :: "rat \<Rightarrow> rat \<Rightarrow> bool" where
  "toward_zero p' p = (0 \<le> p' \<and> p' \<le> p \<or> p \<le> p' \<and> p' \<le> 0)"

lemma toward_zero_refl [simp]: "toward_zero p p"
  by (auto simp: toward_zero_def)

lemma toward_zero_0 [simp]: "toward_zero 0 p"
  by (auto simp: toward_zero_def)

lemma toward_zero_trans: "toward_zero a b \<Longrightarrow> toward_zero b c \<Longrightarrow> toward_zero a c"
  by (auto simp: toward_zero_def)

lemma toward_zero_mult: "0 \<le> r \<Longrightarrow> r \<le> 1 \<Longrightarrow> toward_zero (p * r) p"
  by (cases "0 \<le> p")
    (auto simp: toward_zero_def mult_left_le mult_nonpos_nonneg mult_nonneg_nonneg
      intro: order_trans [OF mult_left_mono_neg [of r 1 p, simplified]])

text \<open>What the guard goes on with after a rule.\<close>

definition settle :: "verdict \<Rightarrow> command" where
  "settle v = (case fst v of Inr cmd \<Rightarrow> cmd | Inl e \<Rightarrow> mk_command 0 0)"

lemma apply_rules_foldl:
  "fst (snd (apply_rules store ctx rs cmd names))
    = foldl (\<lambda>c r. settle (rule_evaluate store (rule_kind r) (is_triggered r) c ctx)) cmd rs"
  by (induction rs arbitrary: cmd names) (simp_all add: Let_def split_beta' settle_def split: sum.split)

text \<open>
  The contract of a rule the guard may chain in any order: it moves the set-point toward zero, and
  leaves Q alone or zeroes it.
\<close>

locale shrinking_rule =
  fixes evaluate :: "bool \<Rightarrow> command \<Rightarrow> strategy_context \<Rightarrow> verdict"
  assumes shrinks: "p_target cmd = Val (Fin p) \<Longrightarrow> fst (evaluate trig cmd ctx) = Inr cmd' \<Longrightarrow>
      \<exists>p'. p_target cmd' = Val (Fin p') \<and> toward_zero p' p"
    and keeps_q: "fst (evaluate trig cmd ctx) = Inr cmd' \<Longrightarrow>
      q_target cmd' = q_target cmd \<or> q_target cmd' = Val 0"
begin

lemma settle_shrinks:
  "p_target cmd = Val (Fin p) \<Longrightarrow>
   \<exists>p'. p_target (settle (evaluate trig cmd ctx)) = Val (Fin p') \<and> toward_zero p' p"
  using shrinks by (auto simp: settle_def split: sum.splits)

lemma settle_q:
  "q_target (settle (evaluate trig cmd ctx)) = q_target cmd \<or> q_target (settle (evaluate trig cmd ctx)) = Val 0"
  using keeps_q by (auto simp: settle_def split: sum.splits)

end

lemma high_ratio:
  assumes "\<not> hi \<le> Fin s" "hi - wb \<le> Fin s" "0 < wb"
  shows "\<exists>r. 0 \<le> r \<and> r \<le> 1 \<and> fdiv (hi - Fin s) wb = Inr (Fin r)"
  using assms by (cases hi; cases wb) (auto simp: minus_flt_def less_eq_flt_def divide_le_eq_1)

lemma low_ratio:
  assumes "\<not> Fin s \<le> lo" "Fin s \<le> lo + wb" "0 < wb"
  shows "\<exists>r. 0 \<le> r \<and> r \<le> 1 \<and> fdiv (Fin s - lo) wb = Inr (Fin r)"
  using assms by (cases lo; cases wb) (auto simp: minus_flt_def less_eq_flt_def divide_le_eq_1)

lemma limit_high:
  assumes "\<not> hi \<le> Fin s" "hi - wb \<le> Fin s" "0 < wb" "limit_by cmd (Fin p) (hi - Fin s) wb = Inr cmd'"
  shows "\<exists>p'. cmd' = with_p cmd (Val (Fin p')) \<and> toward_zero p' p"
  using high_ratio [OF assms(1-3)] assms(4) toward_zero_mult by (fastforce simp: limit_by_def)

lemma limit_low:
  assumes "\<not> Fin s \<le> lo" "Fin s \<le> lo + wb" "0 < wb" "limit_by cmd (Fin p) (Fin s - lo) wb = Inr cmd'"
  shows "\<exists>p'. cmd' = with_p cmd (Val (Fin p')) \<and> toward_zero p' p"
  using low_ratio [OF assms(1-3)] assms(4) toward_zero_mult by (fastforce simp: limit_by_def)

lemma limit_by_q: "limit_by cmd p gap wb = Inr cmd' \<Longrightarrow> q_target cmd' = q_target cmd"
  by (auto simp: limit_by_def res_simps)

lemmas protection_splits = if_splits option.splits axis.splits sum.splits prod.splits

lemma soc_tests_shrinks:
  assumes "p_target cmd = Val (Fin p)" "fst (soc_tests hi lo wb (Fin s) (Fin p) cmd) = Inr cmd'"
  shows "\<exists>p'. p_target cmd' = Val (Fin p') \<and> toward_zero p' p"
proof -
  consider "cmd' = cmd" | "cmd' = with_p cmd (Val 0)"
    | "\<not> hi \<le> Fin s" "hi - wb \<le> Fin s" "0 < wb" "limit_by cmd (Fin p) (hi - Fin s) wb = Inr cmd'"
    | "\<not> Fin s \<le> lo" "Fin s \<le> lo + wb" "0 < wb" "limit_by cmd (Fin p) (Fin s - lo) wb = Inr cmd'"
    using assms(2) by (auto simp: soc_tests_def simp del: zero_flt_Fin split: if_split_asm)
  then show ?thesis
    using assms(1) limit_high limit_low by cases fastforce+
qed

lemma soc_tests_q: "fst (soc_tests hi lo wb s p cmd) = Inr cmd' \<Longrightarrow> q_target cmd' = q_target cmd"
  by (auto simp: soc_tests_def simp del: zero_flt_Fin split: if_split_asm dest: limit_by_q)

interpretation soc: shrinking_rule "soc_evaluate cfg" for cfg
proof
  fix cmd p trig ctx cmd'
  assume "p_target cmd = Val (Fin p)" "fst (soc_evaluate cfg trig cmd ctx) = Inr cmd'"
  then show "\<exists>p'. p_target cmd' = Val (Fin p') \<and> toward_zero p' p"
    by (auto simp: soc_evaluate_def is_finite_iff split: option.splits if_splits dest: soc_tests_shrinks)
next
  fix cmd trig ctx cmd'
  assume "fst (soc_evaluate cfg trig cmd ctx) = Inr cmd'"
  then show "q_target cmd' = q_target cmd \<or> q_target cmd' = Val 0"
    by (auto simp: soc_evaluate_def split: protection_splits dest!: soc_tests_q)
qed

interpretation dynamic_soc: shrinking_rule "dynamic_soc_evaluate store src" for store src
proof
  fix cmd p trig ctx cmd'
  assume "p_target cmd = Val (Fin p)" "fst (dynamic_soc_evaluate store src trig cmd ctx) = Inr cmd'"
  then show "\<exists>p'. p_target cmd' = Val (Fin p') \<and> toward_zero p' p"
    by (auto simp: dynamic_soc_evaluate_def is_finite_iff split: protection_splits dest: soc_tests_shrinks)
next
  fix cmd trig ctx cmd'
  assume "fst (dynamic_soc_evaluate store src trig cmd ctx) = Inr cmd'"
  then show "q_target cmd' = q_target cmd \<or> q_target cmd' = Val 0"
    by (auto simp: dynamic_soc_evaluate_def split: protection_splits dest!: soc_tests_q)
qed

lemma nonneg_flt_cases: "\<not> m < 0 \<Longrightarrow> m < Fin p \<Longrightarrow> \<exists>q. m = Fin q \<and> 0 \<le> q \<and> q < p"
  by (cases m) auto

interpretation reverse_power: shrinking_rule "reverse_power_evaluate t k" for t k
proof
  fix cmd p trig ctx cmd'
  assume "p_target cmd = Val (Fin p)" "fst (reverse_power_evaluate t k trig cmd ctx) = Inr cmd'"
  then show "\<exists>p'. p_target cmd' = Val (Fin p') \<and> toward_zero p' p"
    by (auto simp: reverse_power_evaluate_def Let_def toward_zero_def split: protection_splits
        dest: nonneg_flt_cases [unfolded zero_flt_Fin])
next
  fix cmd trig ctx cmd'
  assume "fst (reverse_power_evaluate t k trig cmd ctx) = Inr cmd'"
  then show "q_target cmd' = q_target cmd \<or> q_target cmd' = Val 0"
    by (auto simp: reverse_power_evaluate_def Let_def split: protection_splits)
qed

interpretation system_alarm: shrinking_rule "alarm_evaluate k" for k
  by unfold_locales (auto simp: alarm_evaluate_def split: if_splits)

lemma grid_limit_cap:
  assumes "0 \<le> r"
  shows "\<exists>y. fdiv (Fin r * clamp x 0 100) 100 = Inr (Fin y) \<and> 0 \<le> y \<and> y \<le> r"
proof -
  obtain c where c: "clamp x (Fin 0) (Fin 100) = Fin c" "0 \<le> c" "c \<le> 100"
    using clamp_bounds [of 0 100 x] by auto
  have "0 \<le> r * c / 100 \<and> r * c / 100 \<le> r"
    using assms c(2,3) mult_left_mono [of c 100 r] by simp
  moreover have "fdiv (Fin r * clamp x 0 100) 100 = Inr (Fin (r * c / 100))"
    using c(1) by simp
  ultimately show ?thesis by blast
qed

lemma grid_limit_shrinking:
  assumes "0 \<le> r"
  shows "shrinking_rule (grid_limit_evaluate store i (Fin r) k)"
proof
  fix cmd p trig ctx cmd'
  assume p: "p_target cmd = Val (Fin p)" and ev: "fst (grid_limit_evaluate store i (Fin r) k trig cmd ctx) = Inr cmd'"
  show "\<exists>p'. p_target cmd' = Val (Fin p') \<and> toward_zero p' p"
  proof (cases "is_non_finite_float (params_get (store i) k (PyInt 100))
      \<or> (\<exists>e. py_float (params_get (store i) k (PyInt 100)) = Inl e)")
    case True
    then show ?thesis
      using p ev by (auto simp: grid_limit_evaluate_def Let_def split: if_split_asm)
  next
    case False
    then obtain x where x: "py_float (params_get (store i) k (PyInt 100)) = Inr x"
      by (meson sumE)
    obtain y where y: "fdiv (Fin r * clamp x 0 100) 100 = Inr (Fin y)" "0 \<le> y"
      using grid_limit_cap [OF assms, of x] by blast
    show ?thesis
      using p ev x y False
      by (auto simp: grid_limit_evaluate_def Let_def toward_zero_def simp del: fdiv.simps numeral_flt zero_flt_Fin
          split: if_split_asm)
  qed
next
  fix cmd trig ctx cmd'
  assume "fst (grid_limit_evaluate store i (Fin r) k trig cmd ctx) = Inr cmd'"
  then show "q_target cmd' = q_target cmd \<or> q_target cmd' = Val 0"
    by (auto simp: grid_limit_evaluate_def Let_def split: protection_splits)
qed

text \<open>The rules that only reduce: all but the ramp, and the client's rules that keep the contract.\<close>

fun reduces :: "rule_kind \<Rightarrow> bool" where
  "reduces (GridLimitProtection i r k) = (case r of Fin q \<Rightarrow> 0 \<le> q | _ \<Rightarrow> False)"
| "reduces (RampStopProtection cfg) = False"
| "reduces (ClientRule n f) = shrinking_rule f"
| "reduces k = True"

lemma reduces_shrinking: "reduces k \<Longrightarrow> shrinking_rule (rule_evaluate store k)"
  by (cases k)
    (simp_all add: soc.shrinking_rule_axioms dynamic_soc.shrinking_rule_axioms
      reverse_power.shrinking_rule_axioms system_alarm.shrinking_rule_axioms grid_limit_shrinking
      split: flt.splits)

definition guard_step :: "params_store \<Rightarrow> strategy_context \<Rightarrow> command \<Rightarrow> protection_rule \<Rightarrow> command" where
  "guard_step store ctx c r = settle (rule_evaluate store (rule_kind r) (is_triggered r) c ctx)"

lemma guard_step_shrinks:
  "reduces (rule_kind r) \<Longrightarrow> p_target c = Val (Fin p) \<Longrightarrow>
   \<exists>p'. p_target (guard_step store ctx c r) = Val (Fin p') \<and> toward_zero p' p"
  unfolding guard_step_def by (rule shrinking_rule.settle_shrinks [OF reduces_shrinking])

lemma guard_step_q:
  "reduces (rule_kind r) \<Longrightarrow>
   q_target (guard_step store ctx c r) = q_target c \<or> q_target (guard_step store ctx c r) = Val 0"
  unfolding guard_step_def by (rule shrinking_rule.settle_q [OF reduces_shrinking])

lemma chain_shrinks:
  "list_all (\<lambda>r. reduces (rule_kind r)) rs \<Longrightarrow> p_target c = Val (Fin p) \<Longrightarrow>
   \<exists>p'. p_target (foldl (guard_step store ctx) c rs) = Val (Fin p') \<and> toward_zero p' p"
proof (induction rs arbitrary: c p)
  case (Cons r rs)
  then obtain p1 where "p_target (guard_step store ctx c r) = Val (Fin p1)" "toward_zero p1 p"
    using guard_step_shrinks by fastforce
  with Cons show ?case using toward_zero_trans by fastforce
qed simp

lemma chain_q:
  "list_all (\<lambda>r. reduces (rule_kind r)) rs \<Longrightarrow>
   q_target (foldl (guard_step store ctx) c rs) = q_target c
   \<or> q_target (foldl (guard_step store ctx) c rs) = Val 0"
proof (induction rs arbitrary: c)
  case (Cons r rs)
  then show ?case
    using guard_step_q [of r store ctx c] by (metis foldl_Cons list.pred_inject(2))
qed simp

lemma guard_apply_foldl:
  "protected_command (fst (guard_apply store g c ctx)) = foldl (guard_step store ctx) c (guard_rules g)"
  using apply_rules_foldl [of store ctx "guard_rules g" c "[]"]
  by (simp add: guard_apply_def guard_step_def [abs_def] Let_def split_beta')

section \<open>What the guard guarantees\<close>

text \<open>
  C1. A chain of reducing rules, in any order and in any trigger state, never amplifies a command: the
  protected set-point lies between 0 and the strategy's, and Q is the strategy's or 0, also
  when rules raise.
\<close>

theorem guard_never_amplifies:
  assumes "list_all (\<lambda>r. reduces (rule_kind r)) (guard_rules g)" "p_target cmd = Val (Fin p)"
    and "protected_command (fst (guard_apply store g cmd ctx)) = out"
  shows "(\<exists>p'. p_target out = Val (Fin p') \<and> toward_zero p' p) \<and> (q_target out = q_target cmd \<or> q_target out = Val 0)"
  using chain_shrinks [OF assms(1,2), of store ctx] chain_q [OF assms(1), of store ctx cmd] assms(3)
  by (simp add: guard_apply_foldl)

theorem guard_never_amplifies_witness:
  "\<exists>p'. p_target (protected_command (fst (guard_apply (\<lambda>_. params_init [(''grid_limit_pct'', PyInt 50)])
     (guard_init [\<lparr>rule_kind = GridLimitProtection 0 (Fin 100) ''grid_limit_pct'', is_triggered = False\<rparr>])
     (mk_command 80 5) default_context))) = Val (Fin p') \<and> toward_zero p' 80"
  by (rule guard_never_amplifies [THEN conjunct1, OF _ _ refl]) (simp_all add: guard_init_def mk_command_def)

lemma chain_split:
  assumes "list_all (\<lambda>r. reduces (rule_kind r)) rs" "r \<in> set rs" "p_target c = Val (Fin p)"
  obtains c1 p1 p' where "p_target c1 = Val (Fin p1)" "toward_zero p1 p"
    "p_target (foldl (guard_step store ctx) c rs) = Val (Fin p')"
    "\<And>p2. p_target (guard_step store ctx c1 r) = Val (Fin p2) \<Longrightarrow> toward_zero p' p2"
    "q_target (guard_step store ctx c1 r) = Val 0 \<Longrightarrow> q_target (foldl (guard_step store ctx) c rs) = Val 0"
proof -
  from assms(2) obtain rs1 rs2 where rs: "rs = rs1 @ r # rs2" by (auto simp: in_set_conv_decomp)
  let ?c1 = "foldl (guard_step store ctx) c rs1"
  obtain p1 where c1: "p_target ?c1 = Val (Fin p1)" "toward_zero p1 p"
    using chain_shrinks [of rs1 c p] assms rs by auto
  then obtain p2 where c2: "p_target (guard_step store ctx ?c1 r) = Val (Fin p2)"
    using guard_step_shrinks assms(1) rs by fastforce
  then obtain p' where "p_target (foldl (guard_step store ctx) (guard_step store ctx ?c1 r) rs2) = Val (Fin p')"
    "toward_zero p' p2"
    using chain_shrinks assms(1) rs by fastforce
  then show thesis
    using that [OF c1] c2 chain_q [of rs2 store ctx "guard_step store ctx ?c1 r"] assms(1) rs by auto
qed

lemma dynamic_soc_step:
  assumes "rule_kind r = DynamicSOCProtection src" "ctx_soc ctx = Some (Fin s)" "p_target c = Val (Fin p)"
    and "p_target (guard_step store ctx c r) = Val (Fin p2)"
  shows "case resolve_limits store src of Inl e \<Rightarrow> p2 = 0
    | Inr (hi, lo, wb) \<Rightarrow> (hi \<le> Fin s \<longrightarrow> 0 \<le> p2) \<and> (\<not> hi \<le> Fin s \<and> Fin s \<le> lo \<longrightarrow> p2 \<le> 0)"
  using assms
  by (auto simp: guard_step_def settle_def dynamic_soc_evaluate_def soc_tests_def mk_command_def split: sum.splits if_splits)

lemma soc_chain:
  assumes "list_all (\<lambda>r. reduces (rule_kind r)) (guard_rules g)" "p_target cmd = Val (Fin p)"
    and "r \<in> set (guard_rules g)" "rule_kind r = DynamicSOCProtection src" "ctx_soc ctx = Some (Fin s)"
  shows "\<exists>p'. p_target (protected_command (fst (guard_apply store g cmd ctx))) = Val (Fin p') \<and>
    (case resolve_limits store src of Inl e \<Rightarrow> p' = 0
     | Inr (hi, lo, wb) \<Rightarrow> (hi \<le> Fin s \<longrightarrow> 0 \<le> p') \<and> (\<not> hi \<le> Fin s \<and> Fin s \<le> lo \<longrightarrow> p' \<le> 0))"
proof -
  obtain c1 p1 p' where ch: "p_target c1 = Val (Fin p1)"
    "p_target (foldl (guard_step store ctx) cmd (guard_rules g)) = Val (Fin p')"
    "\<And>p2. p_target (guard_step store ctx c1 r) = Val (Fin p2) \<Longrightarrow> toward_zero p' p2"
    using chain_split [OF assms(1,3,2)] by metis
  obtain p2 where p2: "p_target (guard_step store ctx c1 r) = Val (Fin p2)"
    using guard_step_shrinks [OF _ ch(1)] assms(4) by (metis reduces.simps(7))
  show ?thesis
    using dynamic_soc_step [OF assms(4,5) ch(1) p2] ch(2,3) p2
    by (fastforce simp: guard_apply_foldl toward_zero_def split: sum.splits)
qed

text \<open>
  With a SOC rule anywhere in a chain of reducing rules, the battery is never charged at or above
  the upper limit nor discharged at or below the lower one, whatever the strategy asked; with limits
  that cannot be resolved (not numbers, NaN, infinite, or reversed) the set-point is 0.
\<close>

theorem soc_limits_hold:
  assumes "list_all (\<lambda>r. reduces (rule_kind r)) (guard_rules g)" "p_target cmd = Val (Fin p)"
    and "r \<in> set (guard_rules g)" "rule_kind r = DynamicSOCProtection src" "ctx_soc ctx = Some (Fin s)"
  shows "\<exists>p'. p_target (protected_command (fst (guard_apply store g cmd ctx))) = Val (Fin p') \<and>
    (case resolve_limits store src of Inl e \<Rightarrow> p' = 0
     | Inr (hi, lo, wb) \<Rightarrow> (hi \<le> Fin s \<longrightarrow> 0 \<le> p') \<and> (\<not> hi \<le> Fin s \<and> Fin s \<le> lo \<longrightarrow> p' \<le> 0))"
  by (rule soc_chain [OF assms])

theorem soc_limits_hold_witness:
  "\<exists>p'. p_target (protected_command (fst (guard_apply (\<lambda>_. params_init [(''soc_max'', PyInt 90)])
     (guard_init [\<lparr>rule_kind = DynamicSOCProtection (FromParams 0 ''soc_max'' ''soc_min'' (Fin 0)), is_triggered = False\<rparr>])
     (mk_command (Fin (- 50)) 0)
     (default_context\<lparr>ctx_soc := Some (Fin 92)\<rparr>)))) = Val (Fin p') \<and> 0 \<le> p'"
proof -
  let ?r = "\<lparr>rule_kind = DynamicSOCProtection (FromParams 0 ''soc_max'' ''soc_min'' (Fin 0)), is_triggered = False\<rparr>"
  let ?ctx = "default_context\<lparr>ctx_soc := Some (Fin 92)\<rparr>"
  have "resolve_limits (\<lambda>_. params_init [(''soc_max'', PyInt 90)]) (FromParams 0 ''soc_max'' ''soc_min'' (Fin 0))
    = Inr (Fin 90, Fin 5, Fin 0)"
    by (simp add: resolve_limits_def params_get_def params_init_def dict_get_or_def)
  then show ?thesis
    using soc_limits_hold [of "guard_init [?r]" "mk_command (Fin (- 50)) 0" "- 50" ?r
        "FromParams 0 ''soc_max'' ''soc_min'' (Fin 0)" ?ctx 92 "\<lambda>_. params_init [(''soc_max'', PyInt 90)]"]
    by (auto simp: guard_init_def)
qed

lemma grid_limit_step:
  assumes "rule_kind r = GridLimitProtection i (Fin q) k" "0 \<le> q" "p_target c = Val (Fin p)"
    and "dict_get_or (rp_values (store i)) k (PyInt 100) = PyInt pct"
    and "p_target (guard_step store ctx c r) = Val (Fin p2)"
  shows "\<bar>p2\<bar> \<le> q * of_int (max 0 (min 100 pct)) / 100"
proof -
  define m where "m = q * of_int (max 0 (min 100 pct)) / 100"
  have "0 \<le> m" using assms(2) by (simp add: m_def)
  have "fdiv (Fin q * clamp (Fin (of_int pct)) 0 100) 100 = Inr (Fin m)"
    by (auto simp: m_def max_def min_def)
  then have "guard_step store ctx c r =
      (if Fin p > Fin m then with_p c (Val (Fin m)) else if Fin p < Fin (- m) then with_p c (Val (Fin (- m))) else c)"
    using assms(1,3,4)
    by (auto simp: guard_step_def settle_def grid_limit_evaluate_def params_get_def is_non_finite_float_def Let_def)
  with \<open>0 \<le> m\<close> assms(3,5) show ?thesis
    by (auto simp flip: m_def split: if_split_asm)
qed



lemma foldl_zero:
  assumes "list_all (\<lambda>r. reduces (rule_kind r)) rs" "p_target c = Val 0" "q_target c = Val 0"
  shows "p_target (foldl (guard_step store ctx) c rs) = Val 0 \<and> q_target (foldl (guard_step store ctx) c rs) = Val 0"
  using chain_shrinks [OF assms(1), of c 0 store ctx] chain_q [OF assms(1), of store ctx c] assms(2,3)
  by (auto simp: toward_zero_def)

lemma apply_rules_names:
  "set names \<subseteq> set (snd (snd (apply_rules store ctx rs cmd names)))"
proof (induction rs arbitrary: cmd names)
  case (Cons r rs)
  obtain v trig where v: "rule_evaluate store (rule_kind r) (is_triggered r) cmd ctx = (v, trig)"
    by (cases "rule_evaluate store (rule_kind r) (is_triggered r) cmd ctx")
  have "set names \<subseteq> set (snd (snd (apply_rules store ctx rs c (names @ ns))))" for c ns
    using Cons.IH [where cmd = c and names = "names @ ns"] by auto
  from this [where ns = "[]"] this show ?case
    using v by (auto simp: Let_def split_beta' split: sum.splits)
qed simp

lemma apply_rules_append:
  "apply_rules store ctx (rs1 @ rs2) cmd names =
    (let (a, c, ns) = apply_rules store ctx rs1 cmd names; (b, d, ms) = apply_rules store ctx rs2 c ns in (a @ b, d, ms))"
  by (induction rs1 arbitrary: cmd names) (simp_all add: Let_def split_beta')



end
