(* ===== verification/Mode_Manager.thy ===== *)
theory Mode_Manager
  imports Csp_Prelude
begin

text \<open>
  \<open>csp_lib/controller/system/mode.py\<close>: the modes of the controller, its base modes and the stack of
  overrides. A strategy object is a number, so that \<open>is\<close> is equality. An operation returns the new
  state and the calls it awaited, in order; it raises before it changes anything. The lifecycle
  hooks of a strategy are taken not to raise.
\<close>

datatype switch_source = MANUAL | SCHEDULE | EVENT | INTERNAL

text \<open>\<open>ModePriority\<close>: the three default levels.\<close>

definition priority_schedule :: int where "priority_schedule = 10"

definition priority_manual :: int where "priority_manual = 50"

definition priority_protection :: int where "priority_protection = 100"

record mode_definition =
  md_name :: string
  md_strategy :: nat
  md_priority :: int
  md_description :: string

record mode_manager =
  mm_modes :: "(string \<times> mode_definition) list"
  mm_bases :: "string list"
  mm_overrides :: "string list"
  mm_has_callback :: bool
  mm_last_source :: "switch_source option"

datatype mm_effect =
    OnDeactivate nat
  | OnActivate nat
  | StrategyChange "nat option" "nat option"

type_synonym mm_result = "(mode_manager \<times> mm_effect list) res"

definition mm_init :: "bool \<Rightarrow> mode_manager" where
  "mm_init cb = \<lparr>mm_modes = [], mm_bases = [], mm_overrides = [], mm_has_callback = cb, mm_last_source = None\<rparr>"

section \<open>Queries\<close>

fun best_override :: "(string \<times> mode_definition) list \<Rightarrow> mode_definition option \<Rightarrow> string list \<Rightarrow> mode_definition option" where
  "best_override modes best [] = best"
| "best_override modes best (name # ns) =
     (case dict_get modes name of
        None \<Rightarrow> best_override modes best ns
      | Some m \<Rightarrow> best_override modes
          (case best of None \<Rightarrow> Some m | Some b \<Rightarrow> if md_priority m > md_priority b then Some m else Some b) ns)"

definition effective_mode :: "mode_manager \<Rightarrow> mode_definition option" where
  "effective_mode mm =
     (if mm_overrides mm \<noteq> [] then best_override (mm_modes mm) None (mm_overrides mm)
      else if length (mm_bases mm) = 1 then dict_get (mm_modes mm) (hd (mm_bases mm))
      else None)"

definition effective_strategy :: "mode_manager \<Rightarrow> nat option" where
  "effective_strategy mm = map_option md_strategy (effective_mode mm)"

definition base_mode_name :: "mode_manager \<Rightarrow> string option" where
  "base_mode_name mm = (case mm_bases mm of [] \<Rightarrow> None | n # ns \<Rightarrow> Some n)"

text \<open>Active base modes by descending priority; the sort is stable.\<close>

definition sorted_bases :: "mode_manager \<Rightarrow> mode_definition list" where
  "sorted_bases mm = sort_key (\<lambda>m. - md_priority m) (List.map_filter (dict_get (mm_modes mm)) (mm_bases mm))"

definition base_mode_names :: "mode_manager \<Rightarrow> string list" where
  "base_mode_names mm = map md_name (sorted_bases mm)"

definition base_strategies :: "mode_manager \<Rightarrow> nat list" where
  "base_strategies mm = map md_strategy (sorted_bases mm)"

definition active_override_names :: "mode_manager \<Rightarrow> string list" where
  "active_override_names mm = mm_overrides mm"

section \<open>Operations\<close>

definition notify_change :: "mode_manager \<Rightarrow> nat option \<Rightarrow> nat option \<Rightarrow> mm_effect list" where
  "notify_change mm old new = (if old = new then [] else if mm_has_callback mm then [StrategyChange old new] else [])"

definition set_source :: "switch_source option \<Rightarrow> mode_manager \<Rightarrow> mode_manager" where
  "set_source src mm = (case src of None \<Rightarrow> mm | Some s \<Rightarrow> mm\<lparr>mm_last_source := Some s\<rparr>)"

text \<open>The common end of the switching operations: compare the effective strategies and notify.\<close>

definition switched :: "mode_manager \<Rightarrow> mode_manager \<Rightarrow> switch_source option \<Rightarrow> mm_result" where
  "switched mm mm' src =
     Inr (set_source src mm', notify_change mm' (effective_strategy mm) (effective_strategy mm'))"

definition mm_register :: "mode_manager \<Rightarrow> string \<Rightarrow> nat \<Rightarrow> int \<Rightarrow> string \<Rightarrow> mm_result" where
  "mm_register mm name strategy prio desc =
     (if dict_get (mm_modes mm) name \<noteq> None then Inl ValueError
      else Inr (mm\<lparr>mm_modes := dict_set name
                   \<lparr>md_name = name, md_strategy = strategy, md_priority = prio, md_description = desc\<rparr>
                   (mm_modes mm)\<rparr>, []))"

definition drop_mode :: "mode_manager \<Rightarrow> string \<Rightarrow> mode_manager" where
  "drop_mode mm name = mm\<lparr>mm_modes := dict_del name (mm_modes mm),
     mm_bases := remove1 name (mm_bases mm), mm_overrides := remove1 name (mm_overrides mm)\<rparr>"

definition mm_unregister :: "mode_manager \<Rightarrow> string \<Rightarrow> mm_result" where
  "mm_unregister mm name =
     (if dict_get (mm_modes mm) name = None then Inl KeyError else Inr (drop_mode mm name, []))"

definition set_base_mode :: "mode_manager \<Rightarrow> string option \<Rightarrow> switch_source option \<Rightarrow> mm_result" where
  "set_base_mode mm name src =
     (case name of
        Some n \<Rightarrow> if dict_get (mm_modes mm) n = None then Inl KeyError
                  else switched mm (mm\<lparr>mm_bases := [n]\<rparr>) src
      | None \<Rightarrow> switched mm (mm\<lparr>mm_bases := []\<rparr>) src)"

definition add_base_mode :: "mode_manager \<Rightarrow> string \<Rightarrow> switch_source option \<Rightarrow> mm_result" where
  "add_base_mode mm name src =
     (if dict_get (mm_modes mm) name = None then Inl KeyError
      else if name \<in> set (mm_bases mm) then Inr (mm, [])
      else switched mm (mm\<lparr>mm_bases := mm_bases mm @ [name]\<rparr>) src)"

definition remove_base_mode :: "mode_manager \<Rightarrow> string \<Rightarrow> switch_source option \<Rightarrow> mm_result" where
  "remove_base_mode mm name src =
     (if name \<notin> set (mm_bases mm) then Inl KeyError
      else switched mm (mm\<lparr>mm_bases := remove1 name (mm_bases mm)\<rparr>) src)"

definition mode_active :: "mode_manager \<Rightarrow> string \<Rightarrow> bool" where
  "mode_active mm name = (name \<in> set (mm_bases mm) \<or> name \<in> set (mm_overrides mm))"

definition update_mode_strategy ::
  "mode_manager \<Rightarrow> string \<Rightarrow> nat \<Rightarrow> switch_source option \<Rightarrow> string option \<Rightarrow> mm_result" where
  "update_mode_strategy mm name strategy src desc =
     (case dict_get (mm_modes mm) name of None \<Rightarrow> Inl KeyError
      | Some old \<Rightarrow>
        let active = mode_active mm name;
            m = \<lparr>md_name = name, md_strategy = strategy, md_priority = md_priority old,
                 md_description = (case desc of Some d \<Rightarrow> d | None \<Rightarrow> md_description old)\<rparr>;
            mm' = set_source src (mm\<lparr>mm_modes := dict_set name m (mm_modes mm)\<rparr>)
        in Inr (mm', (if active then [OnDeactivate (md_strategy old), OnActivate strategy] else [])
                 @ notify_change mm' (if active then Some (md_strategy old) else None)
                     (if active then Some strategy else None)))"

definition async_unregister :: "mode_manager \<Rightarrow> string \<Rightarrow> switch_source option \<Rightarrow> mm_result" where
  "async_unregister mm name src =
     (case dict_get (mm_modes mm) name of None \<Rightarrow> Inl KeyError
      | Some mode \<Rightarrow>
        let mm' = drop_mode mm name
        in rbind (switched mm mm' src) (\<lambda>(mm'', effs).
             Inr (mm'', (if mode_active mm name then [OnDeactivate (md_strategy mode)] else []) @ effs)))"

definition push_override :: "mode_manager \<Rightarrow> string \<Rightarrow> switch_source option \<Rightarrow> mm_result" where
  "push_override mm name src =
     (if dict_get (mm_modes mm) name = None then Inl KeyError
      else if name \<in> set (mm_overrides mm) then Inl ValueError
      else switched mm (mm\<lparr>mm_overrides := mm_overrides mm @ [name]\<rparr>) src)"

definition pop_override :: "mode_manager \<Rightarrow> string \<Rightarrow> switch_source option \<Rightarrow> mm_result" where
  "pop_override mm name src =
     (if name \<notin> set (mm_overrides mm) then Inl KeyError
      else switched mm (mm\<lparr>mm_overrides := remove1 name (mm_overrides mm)\<rparr>) src)"

definition clear_overrides :: "mode_manager \<Rightarrow> mm_result" where
  "clear_overrides mm = switched mm (mm\<lparr>mm_overrides := []\<rparr>) None"

section \<open>Runs\<close>

datatype mm_op =
    Register string nat int string | Unregister string
  | SetBase "string option" "switch_source option" | AddBase string "switch_source option"
  | RemoveBase string "switch_source option"
  | UpdateStrategy string nat "switch_source option" "string option"
  | AsyncUnregister string "switch_source option"
  | PushOverride string "switch_source option" | PopOverride string "switch_source option"
  | ClearOverrides

fun mm_exec :: "mm_op \<Rightarrow> mode_manager \<Rightarrow> mm_result" where
  "mm_exec (Register n s p d) mm = mm_register mm n s p d"
| "mm_exec (Unregister n) mm = mm_unregister mm n"
| "mm_exec (SetBase n src) mm = set_base_mode mm n src"
| "mm_exec (AddBase n src) mm = add_base_mode mm n src"
| "mm_exec (RemoveBase n src) mm = remove_base_mode mm n src"
| "mm_exec (UpdateStrategy n s src d) mm = update_mode_strategy mm n s src d"
| "mm_exec (AsyncUnregister n src) mm = async_unregister mm n src"
| "mm_exec (PushOverride n src) mm = push_override mm n src"
| "mm_exec (PopOverride n src) mm = pop_override mm n src"
| "mm_exec ClearOverrides mm = clear_overrides mm"

text \<open>An operation that raises leaves the manager as it was.\<close>

definition mm_step :: "mm_op \<Rightarrow> mode_manager \<Rightarrow> mode_manager" where
  "mm_step e mm = (case mm_exec e mm of Inl x \<Rightarrow> mm | Inr (mm', effs) \<Rightarrow> mm')"

definition mm_inv :: "mode_manager \<Rightarrow> bool" where
  "mm_inv mm \<longleftrightarrow> distinct (dict_keys (mm_modes mm)) \<and> distinct (mm_bases mm) \<and> distinct (mm_overrides mm)
     \<and> set (mm_bases mm) \<subseteq> set (dict_keys (mm_modes mm))
     \<and> set (mm_overrides mm) \<subseteq> set (dict_keys (mm_modes mm))
     \<and> list_all (\<lambda>(n, m). md_name m = n) (mm_modes mm)"

lemmas mm_op_defs = mm_register_def mm_unregister_def set_base_mode_def add_base_mode_def
  remove_base_mode_def update_mode_strategy_def async_unregister_def push_override_def
  pop_override_def clear_overrides_def switched_def drop_mode_def set_source_def Let_def

section \<open>Invariant\<close>

lemma dict_set_named:
  "list_all (\<lambda>(n, m). md_name m = n) d \<Longrightarrow> md_name m = k \<Longrightarrow> list_all (\<lambda>(n, m). md_name m = n) (dict_set k m d)"
  by (induction d) auto

lemma dict_del_named:
  "list_all (\<lambda>(n, m). md_name m = n) d \<Longrightarrow> list_all (\<lambda>(n, m). md_name m = n) (dict_del k d)"
  by (induction d) auto

lemma dict_key_mem: "map_of d k \<noteq> None \<longleftrightarrow> k \<in> fst ` set d"
  by (simp add: map_of_eq_None_iff)

lemma set_source_simps [simp]:
  "mm_modes (set_source src mm) = mm_modes mm" "mm_bases (set_source src mm) = mm_bases mm"
  "mm_overrides (set_source src mm) = mm_overrides mm" "mm_has_callback (set_source src mm) = mm_has_callback mm"
  by (cases src; simp add: set_source_def)+

lemma mm_inv_set_source [simp]: "mm_inv (set_source src mm) = mm_inv mm"
  by (simp add: mm_inv_def)

lemma mm_inv_drop: "mm_inv mm \<Longrightarrow> mm_inv (drop_mode mm name)"
  by (auto simp: mm_inv_def drop_mode_def delete_keys distinct_removeAll dict_del_named notin_set_remove1)

lemma mm_inv_modes:
  "mm_inv mm \<Longrightarrow> mm_inv (mm\<lparr>mm_modes := dict_set k
     \<lparr>md_name = k, md_strategy = s, md_priority = pr, md_description = d\<rparr> (mm_modes mm)\<rparr>)"
  by (auto simp: mm_inv_def distinct_update dict_set_named)

lemma in_remove1D: "x \<in> set (remove1 a xs) \<Longrightarrow> x \<in> set xs"
  by (rule subsetD [OF set_remove1_subset])

lemma mm_inv_lists:
  assumes "mm_inv mm"
  shows "mm_inv (mm\<lparr>mm_bases := []\<rparr>)" "mm_inv (mm\<lparr>mm_overrides := []\<rparr>)"
    "mm_inv (mm\<lparr>mm_bases := remove1 n (mm_bases mm)\<rparr>)" "mm_inv (mm\<lparr>mm_overrides := remove1 n (mm_overrides mm)\<rparr>)"
    "map_of (mm_modes mm) n = Some m \<Longrightarrow> mm_inv (mm\<lparr>mm_bases := [n]\<rparr>)"
    "map_of (mm_modes mm) n = Some m \<Longrightarrow> n \<notin> set (mm_bases mm) \<Longrightarrow> mm_inv (mm\<lparr>mm_bases := mm_bases mm @ [n]\<rparr>)"
    "map_of (mm_modes mm) n = Some m \<Longrightarrow> n \<notin> set (mm_overrides mm) \<Longrightarrow>
       mm_inv (mm\<lparr>mm_overrides := mm_overrides mm @ [n]\<rparr>)"
  using assms by (auto simp: mm_inv_def dest: in_remove1D map_of_SomeD intro: rev_image_eqI)

lemma mm_inv_exec: "mm_inv mm \<Longrightarrow> mm_exec e mm = Inr (mm', effs) \<Longrightarrow> mm_inv mm'"
  by (cases e)
    (auto simp: mm_register_def mm_unregister_def set_base_mode_def add_base_mode_def remove_base_mode_def
      update_mode_strategy_def async_unregister_def push_override_def pop_override_def clear_overrides_def
      switched_def Let_def split: option.splits if_splits intro: mm_inv_drop mm_inv_modes mm_inv_lists)

interpretation mode_manager: step_invariant mm_step "\<lambda>_. True" mm_inv
  by unfold_locales (auto simp: mm_step_def dest: mm_inv_exec split: sum.splits)

lemma mm_inv_init: "mm_inv (mm_init cb)"
  by (simp add: mm_inv_def mm_init_def)

section \<open>The effective mode\<close>

text \<open>
  The specification: the first of the modes of the highest priority. Modes pushed before it have a
  lower priority, modes pushed after it none higher.
\<close>

definition at_most :: "(string \<times> mode_definition) list \<Rightarrow> string list \<Rightarrow> int \<Rightarrow> bool" where
  "at_most modes ns p = (\<forall>n \<in> set ns. \<forall>x. dict_get modes n = Some x \<longrightarrow> md_priority x \<le> p)"

definition top_mode :: "(string \<times> mode_definition) list \<Rightarrow> string list \<Rightarrow> mode_definition \<Rightarrow> bool" where
  "top_mode modes ns m = (\<exists>pre n post. ns = pre @ n # post \<and> dict_get modes n = Some m
     \<and> at_most modes pre (md_priority m - 1) \<and> at_most modes post (md_priority m))"

lemma top_mode_here: "dict_get modes n = Some m \<Longrightarrow> at_most modes ns (md_priority m) \<Longrightarrow> top_mode modes (n # ns) m"
  unfolding top_mode_def by (intro exI [of _ "[]"] exI [of _ n] exI [of _ ns]) (simp add: at_most_def)

lemma top_mode_later:
  assumes "dict_get modes n = Some x" "md_priority x < md_priority m" "top_mode modes ns m"
  shows "top_mode modes (n # ns) m"
proof -
  obtain pre k post where *: "ns = pre @ k # post" "dict_get modes k = Some m"
    "at_most modes pre (md_priority m - 1)" "at_most modes post (md_priority m)"
    using assms(3) by (auto simp: top_mode_def)
  with assms(1,2) show ?thesis
    unfolding top_mode_def by (intro exI [of _ "n # pre"] exI [of _ k] exI [of _ post]) (auto simp: at_most_def)
qed

lemma best_override_Some:
  "set ns \<subseteq> fst ` set modes \<Longrightarrow> \<exists>m. best_override modes (Some b) ns = Some m \<and>
    (m = b \<and> at_most modes ns (md_priority b) \<or> md_priority b < md_priority m \<and> top_mode modes ns m)"
proof (induction ns arbitrary: b)
  case (Cons n ns)
  then obtain x where x: "dict_get modes n = Some x"
    by (metis dict_key_mem list.set_intros(1) not_None_eq subsetD)
  let ?b = "if md_priority x > md_priority b then x else b"
  obtain m where m: "best_override modes (Some ?b) ns = Some m"
    "m = ?b \<and> at_most modes ns (md_priority ?b) \<or> md_priority ?b < md_priority m \<and> top_mode modes ns m"
    using Cons.IH [of ?b] Cons.prems by auto
  then show ?case
    using x top_mode_here [OF x] top_mode_later [OF x]
    by (auto simp: at_most_def split: if_splits)
qed (simp add: at_most_def)

lemma best_override_top:
  assumes "ns \<noteq> []" "set ns \<subseteq> fst ` set modes"
  shows "\<exists>m. best_override modes None ns = Some m \<and> top_mode modes ns m"
proof -
  obtain n ns' where ns: "ns = n # ns'" using assms(1) by (cases ns) auto
  then obtain x where x: "dict_get modes n = Some x"
    using assms(2) by (metis dict_key_mem list.set_intros(1) not_None_eq subsetD)
  show ?thesis
    using best_override_Some [of ns' modes x] assms(2) top_mode_here [OF x] top_mode_later [OF x]
    by (auto simp: ns x)
qed

text \<open>
  C40. In every state the operations can reach, with overrides active the effective mode is the first
  pushed of the overrides of the highest priority; without overrides a single base mode is the
  effective mode, and with none or several there is no effective mode.
\<close>

theorem effective_mode_spec:
  assumes "mm = run_steps mm_step ops (mm_init cb)"
  shows "if mm_overrides mm \<noteq> []
    then \<exists>m. effective_mode mm = Some m \<and> top_mode (mm_modes mm) (mm_overrides mm) m
    else if length (mm_bases mm) = 1
      then \<exists>m. effective_mode mm = Some m \<and> mm_bases mm = [md_name m]
      else effective_mode mm = None"
proof -
  have inv: "mm_inv mm"
    unfolding assms by (rule mode_manager.always [OF mm_inv_init]) (simp add: list_all_iff)
  have "\<exists>m. effective_mode mm = Some m \<and> mm_bases mm = [md_name m]"
    if "mm_overrides mm = []" "length (mm_bases mm) = 1"
  proof -
    obtain n where n: "mm_bases mm = [n]" using \<open>length (mm_bases mm) = 1\<close> by (cases "mm_bases mm") auto
    then obtain m where "dict_get (mm_modes mm) n = Some m"
      using inv dict_key_mem [of "mm_modes mm" n] by (auto simp: mm_inv_def)
    moreover from this have "md_name m = n"
      using inv by (auto simp: mm_inv_def list_all_iff dest: map_of_SomeD)
    ultimately show ?thesis using that n by (simp add: effective_mode_def)
  qed
  then show ?thesis
    using best_override_top [of "mm_overrides mm" "mm_modes mm"] inv
    by (auto simp: effective_mode_def mm_inv_def)
qed

theorem effective_mode_spec_witness:
  "\<exists>m. effective_mode (run_steps mm_step [Register ''a'' 1 10 [], AddBase ''a'' None] (mm_init True)) = Some m
    \<and> mm_bases (run_steps mm_step [Register ''a'' 1 10 [], AddBase ''a'' None] (mm_init True)) = [md_name m]"
  using effective_mode_spec [OF refl, of "[Register ''a'' 1 10 [], AddBase ''a'' None]" True]
  by (simp add: mm_step_def mm_register_def mm_init_def add_base_mode_def switched_def set_source_def)

end
