(* ===== verification/System_Controller.thy ===== *)
theory System_Controller
  imports Mode_Manager Command_Core
begin

text \<open>
  How \<open>csp_lib/integration/system_controller.py\<close> keeps the executor on the strategy the modes ask
  for: the resolution of the modes to one strategy, the change callback, the executor's
  \<open>set_strategy\<close>, the schedule mode and the event-driven overrides with their cooldown
  (\<open>csp_lib/controller/system/event_override.py\<close>).
\<close>

section \<open>Resolution of the modes to a strategy\<close>

text \<open>Several base modes are combined, highest priority first, into a cascade with a capacity.\<close>

datatype resolved = Single nat | Cascade "nat list" flt

record controller =
  sc_modes :: mode_manager
  sc_strategy :: "resolved option"
  sc_capacity :: "flt option"
  sc_heartbeat_paused :: "bool option"
  sc_auto_stop :: bool

definition resolve_strategy :: "mode_manager \<Rightarrow> flt option \<Rightarrow> resolved option" where
  "resolve_strategy mm capacity =
     (if active_override_names mm \<noteq> [] then map_option Single (effective_strategy mm)
      else case base_strategies mm of
        [] \<Rightarrow> None
      | [s] \<Rightarrow> Some (Single s)
      | s # ss \<Rightarrow> (case capacity of Some c \<Rightarrow> Some (Cascade (s # ss) c) | None \<Rightarrow> Some (Single s)))"

text \<open>The lifecycle hooks a resolved strategy runs: a cascade delegates to its layers.\<close>

definition hook_targets :: "resolved option \<Rightarrow> nat list" where
  "hook_targets r = (case r of None \<Rightarrow> [] | Some (Single s) \<Rightarrow> [s] | Some (Cascade ss c) \<Rightarrow> ss)"

definition set_strategy :: "controller \<Rightarrow> resolved option \<Rightarrow> controller \<times> mm_effect list" where
  "set_strategy sc r = (sc\<lparr>sc_strategy := r\<rparr>,
     map OnDeactivate (hook_targets (sc_strategy sc)) @ map OnActivate (hook_targets r))"

definition suppresses :: "(nat \<Rightarrow> bool) \<Rightarrow> resolved \<Rightarrow> bool" where
  "suppresses suppress r = (case r of Single s \<Rightarrow> suppress s | Cascade ss c \<Rightarrow> False)"

definition on_strategy_change :: "(nat \<Rightarrow> bool) \<Rightarrow> controller \<Rightarrow> controller \<times> mm_effect list" where
  "on_strategy_change suppress sc =
     (let r = resolve_strategy (sc_modes sc) (sc_capacity sc);
          (sc', effs) = set_strategy sc r
      in case (sc_heartbeat_paused sc', r) of
           (Some _, Some s) \<Rightarrow> (sc'\<lparr>sc_heartbeat_paused := Some (suppresses suppress s)\<rparr>, effs)
         | _ \<Rightarrow> (sc', effs))"

text \<open>A mode operation of the controller: its hooks, and the callback when the manager notifies.\<close>

definition run_effect :: "(nat \<Rightarrow> bool) \<Rightarrow> mm_effect \<Rightarrow> controller \<times> mm_effect list \<Rightarrow> controller \<times> mm_effect list" where
  "run_effect suppress e st =
     (case e of StrategyChange old new \<Rightarrow>
         (let (sc, effs) = on_strategy_change suppress (fst st) in (sc, snd st @ effs))
       | _ \<Rightarrow> (fst st, snd st @ [e]))"

definition mode_op :: "(nat \<Rightarrow> bool) \<Rightarrow> controller \<Rightarrow> mm_result \<Rightarrow> (controller \<times> mm_effect list) res" where
  "mode_op suppress sc r =
     rbind r (\<lambda>(mm', effs). Inr (fold (run_effect suppress) effs (sc\<lparr>sc_modes := mm'\<rparr>, [])))"

definition sc_step :: "(nat \<Rightarrow> bool) \<Rightarrow> mm_op \<Rightarrow> controller \<Rightarrow> controller" where
  "sc_step suppress e sc =
     (case mode_op suppress sc (mm_exec e (sc_modes sc)) of Inl x \<Rightarrow> sc | Inr (sc', effs) \<Rightarrow> sc')"

section \<open>Schedule mode\<close>

definition schedule_mode :: string where
  "schedule_mode = ''__schedule__''"

definition seq_op :: "(nat \<Rightarrow> bool) \<Rightarrow> (controller \<times> mm_effect list) res
    \<Rightarrow> (controller \<Rightarrow> mm_result) \<Rightarrow> (controller \<times> mm_effect list) res" where
  "seq_op suppress r f = rbind r (\<lambda>(sc, effs).
     rbind (mode_op suppress sc (f sc)) (\<lambda>(sc', effs'). Inr (sc', effs @ effs')))"

definition activate_schedule_mode ::
  "(nat \<Rightarrow> bool) \<Rightarrow> controller \<Rightarrow> nat \<Rightarrow> string \<Rightarrow> (controller \<times> mm_effect list) res" where
  "activate_schedule_mode suppress sc strategy desc =
     (if dict_get (mm_modes (sc_modes sc)) schedule_mode = None
      then seq_op suppress
             (mode_op suppress sc (mm_register (sc_modes sc) schedule_mode strategy priority_schedule desc))
             (\<lambda>sc. add_base_mode (sc_modes sc) schedule_mode (Some SCHEDULE))
      else rbind (mode_op suppress sc
                    (update_mode_strategy (sc_modes sc) schedule_mode strategy (Some SCHEDULE) (Some desc)))
             (\<lambda>(sc', effs).
                if schedule_mode \<notin> set (base_mode_names (sc_modes sc'))
                then seq_op suppress (Inr (sc', effs))
                       (\<lambda>sc. add_base_mode (sc_modes sc) schedule_mode (Some SCHEDULE))
                else Inr (sc', effs)))"

definition deactivate_schedule_mode ::
  "(nat \<Rightarrow> bool) \<Rightarrow> controller \<Rightarrow> (controller \<times> mm_effect list) res" where
  "deactivate_schedule_mode suppress sc =
     (if schedule_mode \<in> set (base_mode_names (sc_modes sc))
      then mode_op suppress sc (remove_base_mode (sc_modes sc) schedule_mode None)
      else Inr (sc, []))"

section \<open>Event-driven overrides\<close>

datatype event_override =
    AlarmStopOverride string string
  | ContextKeyOverride string string "pyval \<Rightarrow> bool" rat
  | ClientOverride string rat "strategy_context \<Rightarrow> bool"

fun override_name :: "event_override \<Rightarrow> string" where
  "override_name (AlarmStopOverride n k) = n"
| "override_name (ContextKeyOverride n k f c) = n"
| "override_name (ClientOverride n c f) = n"

fun cooldown_seconds :: "event_override \<Rightarrow> rat" where
  "cooldown_seconds (AlarmStopOverride n k) = 0"
| "cooldown_seconds (ContextKeyOverride n k f c) = c"
| "cooldown_seconds (ClientOverride n c f) = c"

fun should_activate :: "event_override \<Rightarrow> strategy_context \<Rightarrow> bool" where
  "should_activate (AlarmStopOverride n k) ctx = (dict_get_or (ctx_extra ctx) k (PyBool False) = PyBool True)"
| "should_activate (ContextKeyOverride n k f c) ctx =
     (let v = dict_get_or (ctx_extra ctx) k PyNone in v \<noteq> PyNone \<and> f v)"
| "should_activate (ClientOverride n c f) ctx = f ctx"

record override_state =
  ov_active :: bool
  ov_deactivate_at :: "rat option"

definition override_state_init :: override_state where
  "override_state_init = \<lparr>ov_active = False, ov_deactivate_at = None\<rparr>"

datatype override_action = Push | Pop | Keep

text \<open>The decision of one evaluation for one override.\<close>

definition override_step :: "rat \<Rightarrow> rat \<Rightarrow> bool \<Rightarrow> override_state \<Rightarrow> override_state \<times> override_action" where
  "override_step now cooldown should st =
     (if should \<and> \<not> ov_active st then (\<lparr>ov_active = True, ov_deactivate_at = None\<rparr>, Push)
      else if \<not> should \<and> ov_active st then
        (let due = (case ov_deactivate_at st of None \<Rightarrow> now + cooldown | Some t \<Rightarrow> t)
         in if now \<ge> due then (\<lparr>ov_active = False, ov_deactivate_at = None\<rparr>, Pop)
            else (st\<lparr>ov_deactivate_at := Some due\<rparr>, Keep))
      else (st, Keep))"

text \<open>A failing push or pop is swallowed; the override's own state has changed all the same.\<close>

definition swallow :: "controller \<Rightarrow> (controller \<times> mm_effect list) res \<Rightarrow> controller \<times> mm_effect list" where
  "swallow sc r = (case r of Inl e \<Rightarrow> (sc, []) | Inr x \<Rightarrow> x)"

definition auto_stop_mode :: string where
  "auto_stop_mode = ''__auto_stop__''"

definition override_effect :: "(nat \<Rightarrow> bool) \<Rightarrow> string \<Rightarrow> override_action \<Rightarrow> controller \<Rightarrow> controller \<times> mm_effect list" where
  "override_effect suppress name act sc =
     (case act of Keep \<Rightarrow> (sc, [])
      | Push \<Rightarrow> (let (sc', effs) = swallow sc (mode_op suppress sc (push_override (sc_modes sc) name (Some EVENT)))
                 in (if name = auto_stop_mode then sc'\<lparr>sc_auto_stop := True\<rparr> else sc', effs))
      | Pop \<Rightarrow> (let (sc', effs) = swallow sc (mode_op suppress sc (pop_override (sc_modes sc) name (Some EVENT)))
                in (if name = auto_stop_mode then sc'\<lparr>sc_auto_stop := False\<rparr> else sc', effs)))"

type_synonym override_states = "(string \<times> override_state) list"

definition register_event_override ::
  "event_override list \<Rightarrow> override_states \<Rightarrow> event_override \<Rightarrow> event_override list \<times> override_states" where
  "register_event_override os sts ov = (os @ [ov], dict_set (override_name ov) override_state_init sts)"

fun evaluate_event_overrides :: "(nat \<Rightarrow> bool) \<Rightarrow> rat \<Rightarrow> strategy_context \<Rightarrow> event_override list
    \<Rightarrow> override_states \<Rightarrow> controller \<Rightarrow> override_states \<times> controller" where
  "evaluate_event_overrides suppress now ctx [] sts sc = (sts, sc)"
| "evaluate_event_overrides suppress now ctx (ov # os) sts sc =
     (case dict_get sts (override_name ov) of
        None \<Rightarrow> evaluate_event_overrides suppress now ctx os sts sc
      | Some st \<Rightarrow>
        let (st', act) = override_step now (cooldown_seconds ov) (should_activate ov ctx) st;
            sc' = fst (override_effect suppress (override_name ov) act sc)
        in evaluate_event_overrides suppress now ctx os (dict_set (override_name ov) st' sts) sc')"

section \<open>The executor follows the modes\<close>

definition mode_view :: "mode_definition \<Rightarrow> int \<times> nat" where
  "mode_view m = (md_priority m, md_strategy m)"

text \<open>Two managers that show the same strategies and priorities for their active names.\<close>

definition same_active :: "mode_manager \<Rightarrow> mode_manager \<Rightarrow> bool" where
  "same_active mm mm' \<longleftrightarrow> mm_bases mm' = mm_bases mm \<and> mm_overrides mm' = mm_overrides mm
     \<and> (\<forall>n. mode_active mm n \<longrightarrow>
          map_option mode_view (dict_get (mm_modes mm') n) = map_option mode_view (dict_get (mm_modes mm) n))"

lemma best_override_view:
  assumes "\<forall>n \<in> set ns. map_option mode_view (dict_get d n) = map_option mode_view (dict_get d' n)"
    and "map_option mode_view b = map_option mode_view b'"
  shows "map_option mode_view (best_override d b ns) = map_option mode_view (best_override d' b' ns)"
  using assms
proof (induction ns arbitrary: b b')
  case (Cons n ns)
  define upd where "upd best x = (case x of None \<Rightarrow> best
    | Some m \<Rightarrow> (case best of None \<Rightarrow> Some m | Some b \<Rightarrow> if md_priority m > md_priority b then Some m else Some b))"
    for best x :: "mode_definition option"
  have unfold: "best_override e c (n # ns) = best_override e (upd c (dict_get e n)) ns" for e c
    by (simp add: upd_def split: option.split)
  have "map_option mode_view (dict_get d n) = map_option mode_view (dict_get d' n)"
    using Cons.prems(1) by simp
  then have "map_option mode_view (upd b (dict_get d n)) = map_option mode_view (upd b' (dict_get d' n))"
    using Cons.prems(2)
    by (cases "dict_get d n"; cases "dict_get d' n"; cases b; cases b') (auto simp: upd_def mode_view_def)
  then show ?case
    unfolding unfold using Cons.prems(1) by (intro Cons.IH) auto
qed simp

lemma insort_key_map: "map g (insort_key (\<lambda>a. f (g a)) x xs) = insort_key f (g x) (map g xs)"
  by (induction xs) auto

lemma sort_key_map: "map g (sort_key (\<lambda>a. f (g a)) xs) = sort_key f (map g xs)"
  by (induction xs) (simp_all add: insort_key_map)

lemma base_strategies_view:
  "base_strategies mm = map snd (sort_key (\<lambda>v. - fst v) (List.map_filter (\<lambda>n. map_option mode_view (dict_get (mm_modes mm) n)) (mm_bases mm)))"
proof -
  have filt: "List.map_filter (\<lambda>n. map_option mode_view (f n)) ns = map mode_view (List.map_filter f ns)"
    for f :: "string \<Rightarrow> mode_definition option" and ns
    by (induction ns) (auto simp: List.map_filter_simps split: option.splits)
  have "sort_key (\<lambda>v. - fst v) (map mode_view xs) = map mode_view (sort_key (\<lambda>m. - md_priority m) xs)" for xs
    using sort_key_map [of mode_view "\<lambda>v. - fst v" xs] by (simp add: mode_view_def)
  then show ?thesis
    by (simp add: base_strategies_def sorted_bases_def filt) (simp add: mode_view_def)
qed

lemma map_filter_cong: "(\<And>x. x \<in> set xs \<Longrightarrow> f x = g x) \<Longrightarrow> List.map_filter f xs = List.map_filter g xs"
  by (induction xs) (simp_all add: List.map_filter_simps split: option.split)

lemma effective_strategy_view:
  "effective_strategy mm = map_option snd (map_option mode_view (effective_mode mm))"
  by (simp add: effective_strategy_def option.map_comp comp_def mode_view_def)

lemma same_active_resolve:
  assumes "same_active mm mm'"
  shows "effective_strategy mm' = effective_strategy mm" "resolve_strategy mm' cap = resolve_strategy mm cap"
proof -
  have act: "map_option mode_view (dict_get (mm_modes mm') n) = map_option mode_view (dict_get (mm_modes mm) n)"
    if "n \<in> set (mm_bases mm) \<or> n \<in> set (mm_overrides mm)" for n
    using assms that by (auto simp: same_active_def mode_active_def)
  have "map_option mode_view (effective_mode mm') = map_option mode_view (effective_mode mm)"
    using assms act best_override_view [of "mm_overrides mm" "mm_modes mm'" "mm_modes mm" None None]
    by (cases "mm_bases mm") (auto simp: effective_mode_def same_active_def)
  then show eff: "effective_strategy mm' = effective_strategy mm"
    by (simp add: effective_strategy_view)
  have "base_strategies mm' = base_strategies mm"
    using assms act unfolding base_strategies_view
    by (auto simp: same_active_def intro!: arg_cong [where f = "\<lambda>xs. map snd (sort_key _ xs)"] map_filter_cong)
  then show "resolve_strategy mm' cap = resolve_strategy mm cap"
    using eff assms by (simp add: resolve_strategy_def active_override_names_def same_active_def)
qed

lemma base_lookup:
  "mm_inv mm \<Longrightarrow> n \<in> set (mm_bases mm) \<Longrightarrow> \<exists>m. dict_get (mm_modes mm) n = Some m"
  using dict_key_mem [of "mm_modes mm" n] by (auto simp: mm_inv_def)

lemma resolve_effective:
  assumes "mm_inv mm" "effective_strategy mm = Some s"
  shows "resolve_strategy mm cap = Some (Single s)"
proof (cases "mm_overrides mm = []")
  case True
  then obtain n where "mm_bases mm = [n]"
    using assms(2) by (cases "mm_bases mm") (auto simp: effective_strategy_def effective_mode_def split: if_splits)
  then show ?thesis
    using True assms(2)
    by (auto simp: resolve_strategy_def active_override_names_def base_strategies_def sorted_bases_def
        effective_strategy_def effective_mode_def List.map_filter_simps split: option.splits)
next
  case False
  then show ?thesis using assms(2) by (simp add: resolve_strategy_def active_override_names_def)
qed

lemma effective_None:
  assumes "mm_inv mm" "effective_strategy mm = None"
  shows "mm_overrides mm = []" "length (mm_bases mm) \<noteq> 1"
proof -
  show "mm_overrides mm = []"
    using assms best_override_top [of "mm_overrides mm" "mm_modes mm"]
    by (auto simp: effective_strategy_def effective_mode_def mm_inv_def split: if_splits)
  then show "length (mm_bases mm) \<noteq> 1"
    using assms base_lookup [of mm "hd (mm_bases mm)"]
    by (cases "mm_bases mm") (auto simp: effective_strategy_def effective_mode_def)
qed

lemma resolve_none: "mm_overrides mm = [] \<Longrightarrow> mm_bases mm = [] \<Longrightarrow> resolve_strategy mm cap = None"
  by (simp add: resolve_strategy_def active_override_names_def base_strategies_def sorted_bases_def List.map_filter_simps)

text \<open>A change between states without an effective mode, one of them a cascade of base modes.\<close>

definition blind_switch :: "mode_manager \<Rightarrow> mode_manager \<Rightarrow> bool" where
  "blind_switch mm mm' \<longleftrightarrow> effective_strategy mm = None \<and> effective_strategy mm' = None
     \<and> (2 \<le> length (mm_bases mm) \<or> 2 \<le> length (mm_bases mm'))"

lemma effective_same_resolve:
  assumes "mm_inv mm" "mm_inv mm'" "effective_strategy mm = effective_strategy mm'" "\<not> blind_switch mm mm'"
  shows "resolve_strategy mm' cap = resolve_strategy mm cap"
proof (cases "effective_strategy mm")
  case None
  have "mm_bases m = []" if "length (mm_bases m) \<noteq> 1" "\<not> 2 \<le> length (mm_bases m)" for m :: mode_manager
    using that by (cases "mm_bases m" rule: remdups_adj.cases) auto
  then show ?thesis
    using None assms effective_None [of mm] effective_None [of mm']
    by (simp add: blind_switch_def resolve_none)
next
  case (Some s)
  then show ?thesis using assms resolve_effective [of mm s] resolve_effective [of mm' s] by simp
qed

definition hook :: "mm_effect \<Rightarrow> bool" where
  "hook e = (case e of StrategyChange old new \<Rightarrow> False | _ \<Rightarrow> True)"

lemma fold_hooks: "list_all hook es \<Longrightarrow> fold (run_effect suppress) es (sc, t) = (sc, t @ es)"
  by (induction es arbitrary: t) (auto simp: hook_def run_effect_def split: mm_effect.splits)

lemma on_strategy_change_simps [simp]:
  "sc_modes (fst (on_strategy_change suppress sc)) = sc_modes sc"
  "sc_capacity (fst (on_strategy_change suppress sc)) = sc_capacity sc"
  "sc_strategy (fst (on_strategy_change suppress sc)) = resolve_strategy (sc_modes sc) (sc_capacity sc)"
  by (auto simp: on_strategy_change_def set_strategy_def Let_def split: option.splits)

lemma mode_op_notify:
  assumes "mm_has_callback mm'" "list_all hook pre"
    and "mode_op suppress sc (Inr (mm', pre @ notify_change mm' old new)) = Inr (sc', effs)"
  shows "sc_modes sc' = mm' \<and> sc_capacity sc' = sc_capacity sc
    \<and> sc_strategy sc' = (if old = new then sc_strategy sc else resolve_strategy mm' (sc_capacity sc))"
  using assms
  by (auto simp: mode_op_def notify_change_def fold_hooks run_effect_def split_beta Let_def split: if_splits)

lemma resolve_set_source [simp]: "resolve_strategy (set_source src mm) cap = resolve_strategy mm cap"
  by (cases src) (simp_all add: set_source_def resolve_strategy_def active_override_names_def
      effective_strategy_def effective_mode_def base_strategies_def sorted_bases_def)

lemma effective_set_source [simp]: "effective_strategy (set_source src mm) = effective_strategy mm"
  by (cases src) (simp_all add: set_source_def effective_strategy_def effective_mode_def)

lemma blind_set_source [simp]: "blind_switch mm (set_source src mm') = blind_switch mm mm'"
  by (simp add: blind_switch_def)

lemma notify_set_source [simp]: "notify_change (set_source src mm) old new = notify_change mm old new"
  by (simp add: notify_change_def)

text \<open>Every operation but the synchronous \<open>unregister\<close> ends by comparing an old and a new strategy.\<close>

definition honest :: "mode_manager \<Rightarrow> mode_manager \<Rightarrow> mm_effect list \<Rightarrow> bool" where
  "honest mm mm' effs \<longleftrightarrow> mm_has_callback mm' = mm_has_callback mm \<and> (\<exists>pre old new.
     effs = pre @ notify_change mm' old new \<and> list_all hook pre
     \<and> (old = new \<longrightarrow> \<not> blind_switch mm mm' \<longrightarrow> (\<forall>cap. resolve_strategy mm' cap = resolve_strategy mm cap)))"

lemma switched_honest:
  assumes "mm_inv mm" "mm_inv mm'" "mm_has_callback mm' = mm_has_callback mm" "list_all hook pre"
  shows "honest mm (set_source src mm') (pre @ notify_change mm' (effective_strategy mm) (effective_strategy mm'))"
  unfolding honest_def
  using assms effective_same_resolve [OF assms(1,2)]
  by (intro conjI exI [of _ pre] exI [of _ "effective_strategy mm"] exI [of _ "effective_strategy mm'"]) auto

lemma quiet_honest: "same_active mm mm' \<Longrightarrow> mm_has_callback mm' = mm_has_callback mm \<Longrightarrow> honest mm mm' []"
  unfolding honest_def
  by (intro conjI exI [of _ "[]"] exI [of _ "None :: nat option"] exI [of _ "None :: nat option"])
    (auto simp: notify_change_def same_active_resolve)

lemma same_active_refl: "same_active mm mm"
  by (simp add: same_active_def)

lemma update_honest:
  assumes "mm_inv mm" "update_mode_strategy mm name s src desc = Inr (mm', effs)"
  shows "honest mm mm' effs"
proof -
  obtain old where old: "dict_get (mm_modes mm) name = Some old"
    using assms(2) by (auto simp: update_mode_strategy_def split: option.splits)
  have other: "mode_active mm n \<Longrightarrow> n \<noteq> name \<Longrightarrow> dict_get (mm_modes mm') n = dict_get (mm_modes mm) n" for n
    using assms(2) old by (auto simp: update_mode_strategy_def Let_def map_of_dict_set)
  have here: "dict_get (mm_modes mm') name = Some m \<Longrightarrow> md_priority m = md_priority old \<and> md_strategy m = s" for m
    using assms(2) old by (auto simp: update_mode_strategy_def Let_def map_of_dict_set)
  have keep: "mm_bases mm' = mm_bases mm" "mm_overrides mm' = mm_overrides mm" "mm_has_callback mm' = mm_has_callback mm"
    using assms(2) old by (auto simp: update_mode_strategy_def Let_def)
  have some: "dict_get (mm_modes mm') name \<noteq> None"
    using assms(2) old by (auto simp: update_mode_strategy_def Let_def map_of_dict_set)
  show ?thesis
  proof (cases "mode_active mm name")
    case False
    then have "dict_get (mm_modes mm') n = dict_get (mm_modes mm) n" if "mode_active mm n" for n
      using other that by metis
    then have "same_active mm mm'" using keep by (simp add: same_active_def)
    moreover have "effs = []"
      using assms(2) old False by (simp add: update_mode_strategy_def Let_def notify_change_def)
    ultimately show ?thesis using keep quiet_honest by simp
  next
    case True
    have "same_active mm mm'" if "md_strategy old = s"
      using that other here some keep old by (fastforce simp: same_active_def mode_view_def)
    then have "md_strategy old = s \<longrightarrow> (\<forall>cap. resolve_strategy mm' cap = resolve_strategy mm cap)"
      using same_active_resolve by blast
    moreover have "effs = [OnDeactivate (md_strategy old), OnActivate s] @ notify_change mm' (Some (md_strategy old)) (Some s)"
      using assms(2) old True by (auto simp: update_mode_strategy_def Let_def)
    ultimately show ?thesis
      unfolding honest_def using keep
      by (intro conjI exI [of _ "[OnDeactivate (md_strategy old), OnActivate s]"]
          exI [of _ "Some (md_strategy old)"] exI [of _ "Some s"]) (auto simp: hook_def)
  qed
qed

lemma register_honest:
  assumes "mm_inv mm" "mm_register mm name s pr desc = Inr (mm', effs)"
  shows "honest mm mm' effs"
proof -
  have "\<not> mode_active mm name"
    using assms dict_key_mem [of "mm_modes mm" name]
    by (auto simp: mm_register_def mm_inv_def mode_active_def split: if_splits)
  then have "same_active mm mm'"
    using assms(2) by (auto simp: mm_register_def same_active_def mode_active_def map_of_dict_set split: if_splits)
  then show ?thesis
    using assms(2) by (auto simp: mm_register_def split: if_splits intro: quiet_honest)
qed

lemma exec_honest:
  assumes "mm_inv mm" "mm_exec e mm = Inr (mm', effs)" "\<And>n. e \<noteq> Unregister n"
  shows "honest mm mm' effs"
proof -
  have generic: "honest mm (set_source src mm2) (notify_change mm2 (effective_strategy mm) (effective_strategy mm2))"
    if "mm_inv mm2" "mm_has_callback mm2 = mm_has_callback mm" for mm2 src
    using switched_honest [OF assms(1) that, of "[]"] by simp
  note inv = mm_inv_exec [OF assms(1,2)]
  show ?thesis
  proof (cases e)
    case (AsyncUnregister n src)
    then obtain mode where mode: "dict_get (mm_modes mm) n = Some mode"
      using assms(2) by (auto simp: async_unregister_def split: option.splits)
    then show ?thesis
      using AsyncUnregister assms(1,2) inv switched_honest [of mm "drop_mode mm n" "[OnDeactivate (md_strategy mode)]" src]
        generic [of "drop_mode mm n" src] mm_inv_drop [OF assms(1), of n]
      by (auto simp: async_unregister_def switched_def hook_def drop_mode_def Let_def)
  qed (use assms inv generic in \<open>auto simp: set_base_mode_def add_base_mode_def remove_base_mode_def push_override_def
      pop_override_def clear_overrides_def switched_def split: option.splits if_splits
      intro: register_honest update_honest quiet_honest same_active_refl\<close>)
qed

definition in_sync :: "controller \<Rightarrow> bool" where
  "in_sync sc \<longleftrightarrow> sc_strategy sc = resolve_strategy (sc_modes sc) (sc_capacity sc)"

lemma sc_step_in_sync:
  assumes "mm_inv (sc_modes sc)" "mm_has_callback (sc_modes sc)" "in_sync sc" "\<And>n. e \<noteq> Unregister n"
    and "\<not> blind_switch (sc_modes sc) (sc_modes (sc_step suppress e sc))"
  shows "in_sync (sc_step suppress e sc)"
proof (cases "mm_exec e (sc_modes sc)")
  case (Inl x)
  then show ?thesis using assms(3) by (simp add: sc_step_def mode_op_def)
next
  case (Inr r)
  obtain mm' effs where r: "r = (mm', effs)" by (cases r)
  have exec: "mm_exec e (sc_modes sc) = Inr (mm', effs)" using Inr r by simp
  obtain pre old new where h: "mm_has_callback mm' = mm_has_callback (sc_modes sc)" "list_all hook pre"
    "effs = pre @ notify_change mm' old new"
    "old = new \<longrightarrow> \<not> blind_switch (sc_modes sc) mm' \<longrightarrow>
      (\<forall>cap. resolve_strategy mm' cap = resolve_strategy (sc_modes sc) cap)"
    using exec_honest [OF assms(1) exec assms(4)] by (auto simp: honest_def)
  obtain sc' out where run: "mode_op suppress sc (Inr (mm', pre @ notify_change mm' old new)) = Inr (sc', out)"
    by (simp add: mode_op_def) (metis prod.collapse)
  then have step: "sc_step suppress e sc = sc'"
    using exec h(3) by (simp add: sc_step_def)
  from mode_op_notify [OF _ h(2) run] h(1) assms(2)
  have "sc_modes sc' = mm'" "sc_capacity sc' = sc_capacity sc"
    "sc_strategy sc' = (if old = new then sc_strategy sc else resolve_strategy mm' (sc_capacity sc))" by auto
  then show ?thesis
    using step h(4) assms(3,5) by (simp add: in_sync_def)
qed

text \<open>
  C7. The executor follows the modes: if it runs the strategy the modes resolve to, it does so after
  every mode operation that notifies (all but the synchronous \<open>unregister\<close>), whether it succeeds or
  raises, except a change among states without an effective mode of which one has two or more base modes.
\<close>

theorem executor_follows_modes:
  assumes "mm_inv (sc_modes sc)" "mm_has_callback (sc_modes sc)" "in_sync sc" "\<And>n. e \<noteq> Unregister n"
    and "\<not> blind_switch (sc_modes sc) (sc_modes (sc_step suppress e sc))"
  shows "in_sync (sc_step suppress e sc)"
  by (rule sc_step_in_sync [OF assms])

definition demo_controller :: "mm_op list \<Rightarrow> controller" where
  "demo_controller ops = fold (sc_step (\<lambda>_. False)) ops
     \<lparr>sc_modes = mm_init True, sc_strategy = None, sc_capacity = Some (Fin 500), sc_heartbeat_paused = None, sc_auto_stop = False\<rparr>"

lemmas controller_eval = demo_controller_def sc_step_def mode_op_def mm_init_def mm_register_def
  add_base_mode_def set_base_mode_def push_override_def update_mode_strategy_def switched_def set_source_def notify_change_def
  effective_strategy_def effective_mode_def resolve_strategy_def base_strategies_def sorted_bases_def
  active_override_names_def run_effect_def on_strategy_change_def set_strategy_def hook_targets_def
  mode_active_def in_sync_def mm_inv_def List.map_filter_simps blind_switch_def Let_def

theorem executor_follows_modes_witness:
  "in_sync (sc_step (\<lambda>_. False) (PushOverride ''b'' None)
     (demo_controller [Register ''a'' 1 10 [], Register ''b'' 2 50 [], AddBase ''a'' None]))"
  by (rule executor_follows_modes) (simp_all add: controller_eval)

text \<open>
  Clearing the base modes while two or more of them run as a cascade, no override active, does
  not reach the executor: the modes resolve to no strategy and the executor keeps the cascade.
\<close>

theorem cascade_survives_clear:
  assumes "mm_inv (sc_modes sc)" "in_sync sc" "mm_overrides (sc_modes sc) = []" "2 \<le> length (mm_bases (sc_modes sc))"
    and "sc' = sc_step suppress (SetBase None src) sc"
  shows "resolve_strategy (sc_modes sc') (sc_capacity sc') = None \<and> sc_strategy sc' = sc_strategy sc \<and> sc_strategy sc' \<noteq> None"
proof -
  let ?mm = "sc_modes sc"
  have eff: "effective_strategy ?mm = None" "effective_strategy (?mm\<lparr>mm_bases := []\<rparr>) = None"
    using assms(3,4) by (simp_all add: effective_strategy_def effective_mode_def)
  have sc': "sc' = sc\<lparr>sc_modes := set_source src (?mm\<lparr>mm_bases := []\<rparr>)\<rparr>"
    using eff by (simp add: assms(5) sc_step_def mode_op_def set_base_mode_def switched_def notify_change_def)
  obtain n ns where b: "mm_bases ?mm = n # ns" using assms(4) by (cases "mm_bases ?mm") auto
  then obtain m where "dict_get (mm_modes ?mm) n = Some m" using base_lookup [OF assms(1), of n] by auto
  then have "sorted_bases ?mm \<noteq> []"
    by (simp add: sorted_bases_def b List.map_filter_simps insort_not_Nil)
  then have "resolve_strategy ?mm (sc_capacity sc) \<noteq> None"
    using assms(3)
    by (auto simp: resolve_strategy_def active_override_names_def base_strategies_def split: list.splits option.splits)
  then show ?thesis
    using assms(2,3) by (simp add: sc' in_sync_def resolve_none)
qed

theorem cascade_survives_clear_witness:
  "sc_strategy (sc_step (\<lambda>_. False) (SetBase None None)
     (demo_controller [Register ''a'' 1 10 [], Register ''b'' 2 50 [], AddBase ''a'' None, AddBase ''b'' None]))
   = Some (Cascade [2, 1] (Fin 500))"
  using cascade_survives_clear [of "demo_controller [Register ''a'' 1 10 [], Register ''b'' 2 50 [], AddBase ''a'' None, AddBase ''b'' None]"
      "sc_step (\<lambda>_. False) (SetBase None None) (demo_controller [Register ''a'' 1 10 [], Register ''b'' 2 50 [], AddBase ''a'' None, AddBase ''b'' None])"
      "\<lambda>_. False" None]
  by (simp add: controller_eval)

text \<open>
  Replacing the strategy of the one active base mode runs the lifecycle hooks twice: the manager
  deactivates the old strategy and activates the new one, and the change callback makes the
  executor do both again.
\<close>

theorem update_runs_hooks_twice:
  assumes "in_sync sc" "mm_has_callback (sc_modes sc)" "mm_overrides (sc_modes sc) = []" "mm_bases (sc_modes sc) = [name]"
    and "dict_get (mm_modes (sc_modes sc)) name = Some m" "md_strategy m \<noteq> s"
    and "mode_op suppress sc (update_mode_strategy (sc_modes sc) name s src desc) = Inr (sc', effs)"
  shows "effs = [OnDeactivate (md_strategy m), OnActivate s, OnDeactivate (md_strategy m), OnActivate s]"
  using assms
  by (cases src) (auto simp: controller_eval map_of_dict_set split: option.splits)

theorem update_runs_hooks_twice_witness:
  "map_sum id snd (mode_op (\<lambda>_. False) (demo_controller [Register ''a'' 1 10 [], AddBase ''a'' None])
     (update_mode_strategy (sc_modes (demo_controller [Register ''a'' 1 10 [], AddBase ''a'' None])) ''a'' 2 None None))
   = (Inr [OnDeactivate 1, OnActivate 2, OnDeactivate 1, OnActivate 2] :: mm_effect list res)"
proof -
  let ?sc = "demo_controller [Register ''a'' 1 10 [], AddBase ''a'' None]"
  obtain sc' effs where run: "mode_op (\<lambda>_. False) ?sc (update_mode_strategy (sc_modes ?sc) ''a'' 2 None None) = Inr (sc', effs)"
    by (simp add: controller_eval)
  have "effs = [OnDeactivate 1, OnActivate 2, OnDeactivate 1, OnActivate 2]"
    using update_runs_hooks_twice [OF _ _ _ _ _ _ run, of "\<lparr>md_name = ''a'', md_strategy = 1, md_priority = 10, md_description = []\<rparr>"]
    by (simp add: controller_eval)
  then show ?thesis using run by simp
qed

section \<open>Overrides driven by events\<close>

fun override_run :: "rat \<Rightarrow> override_state \<Rightarrow> (rat \<times> bool) list \<Rightarrow> override_state \<times> override_action list" where
  "override_run c st [] = (st, [])"
| "override_run c st ((now, should) # es) =
     (let (st1, a) = override_step now c should st; (st2, as) = override_run c st1 es in (st2, a # as))"

text \<open>A pending deadline was set by an earlier reading; a pop comes at or after a deadline.\<close>

lemma override_pop:
  assumes "i < length es" "snd (override_run c st es) ! i = Pop"
  shows "\<not> snd (es ! i) \<and>
    ((\<exists>t. ov_deactivate_at st = Some t \<and> t \<le> fst (es ! i) \<and> (\<forall>k < i. snd (override_run c st es) ! k = Keep))
     \<or> (\<exists>j \<le> i. \<not> snd (es ! j) \<and> fst (es ! j) + c \<le> fst (es ! i)
          \<and> (\<forall>k. j \<le> k \<and> k < i \<longrightarrow> snd (override_run c st es) ! k = Keep)))"
  using assms
proof (induction c st es arbitrary: i rule: override_run.induct)
  case (2 c st now should es)
  obtain st1 a where step: "override_step now c should st = (st1, a)" by (cases "override_step now c should st")
  have run: "snd (override_run c st ((now, should) # es)) = a # snd (override_run c st1 es)"
    by (simp add: step Let_def split_beta)
  show ?case
  proof (cases i)
    case 0
    then show ?thesis
      using "2.prems"(2) step unfolding run
      by (auto simp: override_step_def Let_def split: if_splits option.splits)
  next
    case (Suc i')
    from "2.IH" [OF step [symmetric] refl, of i'] "2.prems" Suc
    have ih: "\<not> snd (es ! i')"
      "(\<exists>t. ov_deactivate_at st1 = Some t \<and> t \<le> fst (es ! i') \<and> (\<forall>k < i'. snd (override_run c st1 es) ! k = Keep))
       \<or> (\<exists>j \<le> i'. \<not> snd (es ! j) \<and> fst (es ! j) + c \<le> fst (es ! i')
          \<and> (\<forall>k. j \<le> k \<and> k < i' \<longrightarrow> snd (override_run c st1 es) ! k = Keep))"
      unfolding run by auto
    from ih(2) show ?thesis
    proof (elim disjE exE conjE)
      fix t
      assume t: "ov_deactivate_at st1 = Some t" "t \<le> fst (es ! i')" "\<forall>k < i'. snd (override_run c st1 es) ! k = Keep"
      have a: "a = Keep" and t0: "ov_deactivate_at st = Some t \<or> ov_deactivate_at st = None \<and> \<not> should \<and> t = now + c"
        using step t(1) by (auto simp: override_step_def Let_def split: if_splits option.splits)
      have keep: "\<forall>k < i. (a # snd (override_run c st1 es)) ! k = Keep"
        using t(3) a Suc by (auto simp: less_Suc_eq_0_disj)
      from t0 show ?thesis
      proof
        assume "ov_deactivate_at st = Some t"
        then show ?thesis
          using ih(1) t(2) Suc keep unfolding run by (intro conjI disjI1 exI [of _ t]) auto
      next
        assume "ov_deactivate_at st = None \<and> \<not> should \<and> t = now + c"
        then show ?thesis
          using ih(1) t(2) Suc keep unfolding run by (intro conjI disjI2 exI [of _ 0]) auto
      qed
    next
      fix j
      assume j: "j \<le> i'" "\<not> snd (es ! j)" "fst (es ! j) + c \<le> fst (es ! i')"
        "\<forall>k. j \<le> k \<and> k < i' \<longrightarrow> snd (override_run c st1 es) ! k = Keep"
      then have "\<forall>k. Suc j \<le> k \<and> k < Suc i' \<longrightarrow> (a # snd (override_run c st1 es)) ! k = Keep"
        by (auto simp: less_Suc_eq_0_disj nth_Cons split: nat.split)
      then show ?thesis
        using ih(1) j Suc unfolding run by (intro conjI disjI2 exI [of _ "Suc j"]) auto
    qed
  qed
qed simp

text \<open>
  An override is withdrawn only by an evaluation that finds its condition false, at least one
  cooldown after an evaluation of the same activation that already found it false: a condition that
  has just gone false for the first time never withdraws an override with a positive cooldown.
\<close>

theorem override_waits_cooldown:
  assumes "i < length es" "snd (override_run c override_state_init es) ! i = Pop"
  shows "\<not> snd (es ! i) \<and> (\<exists>j \<le> i. \<not> snd (es ! j) \<and> fst (es ! j) + c \<le> fst (es ! i)
    \<and> (\<forall>k. j \<le> k \<and> k < i \<longrightarrow> snd (override_run c override_state_init es) ! k = Keep))"
  using override_pop [OF assms] by (simp add: override_state_init_def)

theorem override_waits_cooldown_witness:
  "\<exists>j \<le> 2. \<not> snd ([(0 :: rat, True), (1, False), (7, False)] ! j) \<and> fst ([(0, True), (1, False), (7 :: rat, False)] ! j) + 5 \<le> 7"
proof -
  have "snd (override_run 5 override_state_init [(0, True), (1, False), (7, False)]) ! 2 = Pop"
    by (simp add: override_step_def override_state_init_def)
  from override_waits_cooldown [OF _ this] show ?thesis by auto
qed

text \<open>
  The deadline survives a condition that comes back: an active override whose condition went
  false, then true again, is withdrawn by the next evaluation that finds it false once the first
  deadline has passed, whatever the cooldown.
\<close>

theorem override_stale_deadline:
  assumes "ov_active st" "ov_deactivate_at st = Some t" "t \<le> now2"
  shows "snd (override_step now2 c False (fst (override_step now1 c True st))) = Pop"
  using assms by (simp add: override_step_def)

theorem override_stale_deadline_witness:
  "snd (override_run 5 override_state_init [(0, True), (1, False)]) = [Push, Keep] \<and>
   snd (override_step (7 :: rat) 5 False (fst (override_step (69 / 10) 5 True
     (fst (override_run 5 override_state_init [(0, True), (1, False)]))))) = Pop"
  using override_stale_deadline [of "fst (override_run 5 override_state_init [(0, True), (1, False)])" 6 7 5 "69 / 10"]
  by (simp add: override_step_def override_state_init_def)

lemma top_mode_mem: "top_mode modes ns m \<Longrightarrow> \<exists>n \<in> set ns. dict_get modes n = Some m"
  by (auto simp: top_mode_def)

lemma top_mode_unique:
  assumes "top_mode modes ns x" "n \<in> set ns" "dict_get modes n = Some m"
    and "\<And>k y. k \<noteq> n \<Longrightarrow> dict_get modes k = Some y \<Longrightarrow> md_priority y < md_priority m"
  shows "x = m"
proof -
  obtain pre k post where ns: "ns = pre @ k # post" and k: "dict_get modes k = Some x"
    and rest: "at_most modes pre (md_priority x - 1)" "at_most modes post (md_priority x)"
    using assms(1) by (auto simp: top_mode_def)
  show ?thesis
  proof (cases "k = n")
    case True
    then show ?thesis using k assms(3) by simp
  next
    case False
    then have "n \<in> set pre \<or> n \<in> set post" using assms(2) ns by auto
    then have "md_priority m \<le> md_priority x" using rest assms(3) by (auto simp: at_most_def)
    with assms(4) [OF False k] show ?thesis by simp
  qed
qed

lemma effective_highest:
  assumes "mm_inv mm" "n \<in> set (mm_overrides mm)" "dict_get (mm_modes mm) n = Some m"
    and "\<And>k y. k \<noteq> n \<Longrightarrow> dict_get (mm_modes mm) k = Some y \<Longrightarrow> md_priority y < md_priority m"
  shows "effective_strategy mm = Some (md_strategy m)"
proof -
  have "mm_overrides mm \<noteq> []" using assms(2) by auto
  moreover obtain x where "best_override (mm_modes mm) None (mm_overrides mm) = Some x"
    "top_mode (mm_modes mm) (mm_overrides mm) x"
    using best_override_top [OF calculation, of "mm_modes mm"] assms(1) by (auto simp: mm_inv_def)
  ultimately show ?thesis
    using top_mode_unique [OF _ assms(2,3,4)] by (simp add: effective_strategy_def effective_mode_def)
qed

lemma fold_run_effect_overrides:
  "sc_modes (fst (fold (run_effect suppress) effs st)) = sc_modes (fst st)"
proof (induction effs arbitrary: st)
  case (Cons e effs)
  have "sc_modes (fst (run_effect suppress e st)) = sc_modes (fst st)"
    by (simp add: run_effect_def split_beta Let_def split: mm_effect.split)
  then show ?case using Cons.IH by simp
qed simp

lemma override_effect_modes:
  assumes "(act = Push \<longrightarrow> mm_exec (PushOverride name (Some EVENT)) (sc_modes sc) = Inr (mm', effs))"
    "(act = Pop \<longrightarrow> mm_exec (PopOverride name (Some EVENT)) (sc_modes sc) = Inr (mm', effs))"
  shows "sc_modes (fst (override_effect suppress name act sc)) = (if act = Keep then sc_modes sc else mm')"
  using assms
  by (cases act) (auto simp: override_effect_def swallow_def mode_op_def fold_run_effect_overrides split_beta Let_def)

lemma override_effect_step:
  "\<exists>b. fst (override_effect suppress name Push sc) = (sc_step suppress (PushOverride name (Some EVENT)) sc)\<lparr>sc_auto_stop := b\<rparr>"
  "\<exists>b. fst (override_effect suppress name Pop sc) = (sc_step suppress (PopOverride name (Some EVENT)) sc)\<lparr>sc_auto_stop := b\<rparr>"
proof -
  have same: "\<exists>b. r = r\<lparr>sc_auto_stop := b\<rparr>" for r :: controller
    by (rule exI [of _ "sc_auto_stop r"]) simp
  show "\<exists>b. fst (override_effect suppress name Push sc) = (sc_step suppress (PushOverride name (Some EVENT)) sc)\<lparr>sc_auto_stop := b\<rparr>"
    using same by (auto simp: override_effect_def swallow_def sc_step_def Let_def split: sum.split prod.split)
  show "\<exists>b. fst (override_effect suppress name Pop sc) = (sc_step suppress (PopOverride name (Some EVENT)) sc)\<lparr>sc_auto_stop := b\<rparr>"
    using same by (auto simp: override_effect_def swallow_def sc_step_def Let_def split: sum.split prod.split)
qed

text \<open>
  One evaluation of the alarm override brings the system to the stop: with the alarm set, the
  executor runs the strategy of the stop mode, registered with the highest priority, whatever modes
  and overrides were active; with the alarm clear, the stop mode is no longer on the stack.
\<close>

theorem alarm_stops_system:
  assumes "mm_inv (sc_modes sc)" "mm_has_callback (sc_modes sc)" "in_sync sc"
    and "dict_get (mm_modes (sc_modes sc)) n = Some m"
    and "\<And>k y. k \<noteq> n \<Longrightarrow> dict_get (mm_modes (sc_modes sc)) k = Some y \<Longrightarrow> md_priority y < md_priority m"
    and "dict_get sts n = Some st" "ov_deactivate_at st = None" "ov_active st \<longleftrightarrow> n \<in> set (mm_overrides (sc_modes sc))"
    and "sc' = snd (evaluate_event_overrides suppress now ctx [AlarmStopOverride n key] sts sc)"
  shows "if dict_get_or (ctx_extra ctx) key (PyBool False) = PyBool True
    then sc_strategy sc' = Some (Single (md_strategy m)) else n \<notin> set (mm_overrides (sc_modes sc'))"
proof -
  let ?mm = "sc_modes sc" and ?alarm = "dict_get_or (ctx_extra ctx) key (PyBool False) = PyBool True"
  let ?act = "snd (override_step now 0 ?alarm st)"
  have sc': "sc' = fst (override_effect suppress n ?act sc)"
    using assms(6) by (simp add: assms(9) split_beta Let_def)
  have keep: "override_effect suppress n Keep sc = (sc, [])" by (simp add: override_effect_def)
  show ?thesis
  proof (cases ?alarm)
    case True
    show ?thesis
    proof (cases "ov_active st")
      case True
      then have "effective_strategy ?mm = Some (md_strategy m)"
        using assms(8) by (intro effective_highest [OF assms(1) _ assms(4,5)]) auto
      then show ?thesis
        using \<open>?alarm\<close> True resolve_effective [OF assms(1)] assms(3)
        by (simp add: sc' override_step_def keep in_sync_def)
    next
      case False
      define sc1 where "sc1 = sc_step suppress (PushOverride n (Some EVENT)) sc"
      have exec: "mm_exec (PushOverride n (Some EVENT)) ?mm
          = switched ?mm (?mm\<lparr>mm_overrides := mm_overrides ?mm @ [n]\<rparr>) (Some EVENT)"
        using False assms(4,8) by (simp add: push_override_def)
      then have modes: "sc_modes sc1 = set_source (Some EVENT) (?mm\<lparr>mm_overrides := mm_overrides ?mm @ [n]\<rparr>)"
        by (simp add: sc1_def sc_step_def switched_def mode_op_def fold_run_effect_overrides split_beta)
      have inv1: "mm_inv (sc_modes sc1)"
        using mm_inv_exec [OF assms(1) exec [unfolded switched_def]] by (simp add: modes)
      have "effective_strategy (sc_modes sc1) = Some (md_strategy m)"
        by (rule effective_highest [OF inv1, where n = n]) (use assms(4,5) in \<open>auto simp: modes\<close>)
      moreover from this have "in_sync sc1"
        unfolding sc1_def by (intro sc_step_in_sync [OF assms(1-3)]) (auto simp: blind_switch_def)
      ultimately have "sc_strategy sc1 = Some (Single (md_strategy m))"
        using resolve_effective [OF inv1] by (simp add: in_sync_def)
      then show ?thesis
        using \<open>?alarm\<close> False override_effect_step(1) [of suppress n sc]
        by (auto simp: sc' override_step_def sc1_def)
    qed
  next
    case False
    show ?thesis
    proof (cases "ov_active st")
      case True
      have "sc_modes (sc_step suppress (PopOverride n (Some EVENT)) sc)
          = set_source (Some EVENT) (?mm\<lparr>mm_overrides := remove1 n (mm_overrides ?mm)\<rparr>)"
        using True assms(8)
        by (simp add: sc_step_def pop_override_def switched_def mode_op_def fold_run_effect_overrides split_beta)
      then show ?thesis
        using False True assms(1,7) override_effect_step(2) [of suppress n sc]
        by (auto simp: sc' override_step_def mm_inv_def)
    qed (use False assms(8) in \<open>simp add: sc' override_step_def keep\<close>)
  qed
qed

theorem alarm_stops_system_witness:
  "sc_strategy (snd (evaluate_event_overrides (\<lambda>_. False) 1
     (default_context\<lparr>ctx_extra := [(''system_alarm'', PyBool True)]\<rparr>)
     [AlarmStopOverride ''stop'' ''system_alarm''] [(''stop'', override_state_init)]
     (demo_controller [Register ''a'' 1 10 [], Register ''stop'' 9 101 [], AddBase ''a'' None]))) = Some (Single 9)"
proof -
  let ?sc = "demo_controller [Register ''a'' 1 10 [], Register ''stop'' 9 101 [], AddBase ''a'' None]"
  let ?m = "\<lparr>md_name = ''stop'', md_strategy = 9, md_priority = 101, md_description = []\<rparr>"
  have "dict_get (mm_modes (sc_modes ?sc)) k = Some y \<Longrightarrow> k \<noteq> ''stop'' \<Longrightarrow> md_priority y < md_priority ?m" for k y
    by (auto simp: controller_eval split: if_splits)
  then show ?thesis
    using alarm_stops_system [of ?sc "''stop''" ?m "[(''stop'', override_state_init)]" override_state_init
        "snd (evaluate_event_overrides (\<lambda>_. False) 1 (default_context\<lparr>ctx_extra := [(''system_alarm'', PyBool True)]\<rparr>)
          [AlarmStopOverride ''stop'' ''system_alarm''] [(''stop'', override_state_init)] ?sc)" "\<lambda>_. False" 1
        "default_context\<lparr>ctx_extra := [(''system_alarm'', PyBool True)]\<rparr>" "''system_alarm''"]
    by (simp add: controller_eval override_state_init_def dict_get_or_def default_context_def)
qed

end
