(* ===== verification/Distributor.thy ===== *)
theory Distributor
  imports Command_Core
begin

text \<open>
  \<open>csp_lib/integration/distributor.py\<close>: the distributors that split a system command among devices.
  An axis at \<open>NO_CHANGE\<close> is passed on to every device; the other axes are divided equally, by rated
  power, or by rated power and state of charge, with an optional limit per device.
\<close>

record device_snapshot =
  ds_id :: string
  ds_metadata :: "(string \<times> pyval) list"
  ds_latest :: "(string \<times> pyval) list"
  ds_capabilities :: "(string \<times> (string \<times> pyval) list) list"

definition get_capability_value :: "device_snapshot \<Rightarrow> string \<Rightarrow> string \<Rightarrow> pyval" where
  "get_capability_value d cap slot = dict_get_or (dict_get_or (ds_capabilities d) cap []) slot PyNone"

type_synonym shares = "(string \<times> command) list"

definition share :: "axis \<Rightarrow> axis \<Rightarrow> command" where
  "share p q = \<lparr>p_target = p, q_target = q, is_fallback = False\<rparr>"

definition dict_of :: "('k \<times> 'v) list \<Rightarrow> ('k \<times> 'v) list" where
  "dict_of kvs = foldl (\<lambda>d (k, v). dict_set k v d) [] kvs"

definition fsum :: "flt list \<Rightarrow> flt" where
  "fsum xs = foldl (+) 0 xs"

text \<open>\<open>NO_CHANGE if no_change else f(value)\<close> on an axis.\<close>

definition axis_map :: "axis \<Rightarrow> (flt \<Rightarrow> flt res) \<Rightarrow> axis res" where
  "axis_map a f = (case a of NO_CHANGE \<Rightarrow> Inr NO_CHANGE | Val x \<Rightarrow> rbind (f x) (\<lambda>y. Inr (Val y)))"

definition equal_distribute :: "command \<Rightarrow> device_snapshot list \<Rightarrow> shares res" where
  "equal_distribute cmd ds =
     (if ds = [] then Inr []
      else rbind (axis_map (p_target cmd) (\<lambda>p. fdiv p (Fin (of_nat (length ds))))) (\<lambda>p_each.
           rbind (axis_map (q_target cmd) (\<lambda>q. fdiv q (Fin (of_nat (length ds))))) (\<lambda>q_each.
           Inr (dict_of (map (\<lambda>d. (ds_id d, share p_each q_each)) ds)))))"

definition rated_of :: "string \<Rightarrow> device_snapshot \<Rightarrow> pyval" where
  "rated_of key d = dict_get_or (ds_metadata d) key (PyFloat 0)"

definition proportional_share :: "command \<Rightarrow> flt \<Rightarrow> device_snapshot \<times> flt \<Rightarrow> (string \<times> command) res" where
  "proportional_share cmd tot = (\<lambda>(d, rated).
     rbind (fdiv rated tot) (\<lambda>ratio.
     rbind (axis_map (p_target cmd) (\<lambda>p. Inr (p * ratio))) (\<lambda>p_val.
     rbind (axis_map (q_target cmd) (\<lambda>q. Inr (q * ratio))) (\<lambda>q_val.
     Inr (ds_id d, share p_val q_val)))))"

definition proportional_distribute :: "string \<Rightarrow> command \<Rightarrow> device_snapshot list \<Rightarrow> shares res" where
  "proportional_distribute key cmd ds =
     (if ds = [] then Inr []
      else rbind (rmap (\<lambda>d. num_of (rated_of key d)) ds) (\<lambda>rateds.
        let tot = fsum rateds in
        if tot \<le> 0 then equal_distribute cmd ds
        else rbind (rmap (proportional_share cmd tot) (zip ds rateds)) (\<lambda>kvs. Inr (dict_of kvs))))"

section \<open>SOC balancing\<close>

record soc_balancing =
  sb_rated_key :: string
  sb_soc_capability :: string
  sb_soc_slot :: string
  sb_gain :: flt
  sb_max_p :: "flt option"
  sb_max_q :: "flt option"
  sb_soc_source :: "(device_snapshot \<Rightarrow> pyval res) option"

definition read_soc :: "soc_balancing \<Rightarrow> device_snapshot \<Rightarrow> pyval res" where
  "read_soc sb d =
     rbind (case sb_soc_source sb of None \<Rightarrow> Inr PyNone | Some f \<Rightarrow> f d) (\<lambda>v.
       Inr (if v \<noteq> PyNone then v else get_capability_value d (sb_soc_capability sb) (sb_soc_slot sb)))"

datatype axis_field = PField | QField

definition get_axis :: "axis_field \<Rightarrow> command \<Rightarrow> axis" where
  "get_axis fld c = (case fld of PField \<Rightarrow> p_target c | QField \<Rightarrow> q_target c)"

definition axis_value :: "axis_field \<Rightarrow> command \<Rightarrow> flt res" where
  "axis_value fld c = (case get_axis fld c of NO_CHANGE \<Rightarrow> Inl TypeError | Val x \<Rightarrow> Inr x)"

text \<open>One clamping pass: the clamped values, the overflow and the devices it saturated.\<close>

definition clamp_value :: "flt \<Rightarrow> flt \<Rightarrow> flt" where
  "clamp_value max_val v = (if fabs v > max_val then (if v > 0 then max_val else - max_val) else v)"

definition clamp_pass :: "flt \<Rightarrow> (string \<times> flt) list \<Rightarrow> (string \<times> flt) list \<times> flt \<times> string list" where
  "clamp_pass max_val vs =
     (map (\<lambda>(d, v). (d, clamp_value max_val v)) vs,
      fsum (map (\<lambda>(d, v). v - clamp_value max_val v) (filter (\<lambda>(d, v). fabs v > max_val) vs)),
      map fst (filter (\<lambda>(d, v). fabs v > max_val) vs))"

definition eps :: flt where "eps = Fin (1 / 10 ^ 9)"

text \<open>Pass 2: the overflow goes to the unsaturated devices in proportion to what they carry.\<close>

definition redistribute :: "flt \<Rightarrow> string list \<Rightarrow> (string \<times> flt) list \<Rightarrow> (string \<times> flt) list res" where
  "redistribute overflow saturated vs =
     (let unsat = filter (\<lambda>(d, v). d \<notin> set saturated) vs;
          tot = fsum (map (\<lambda>(d, v). fabs v) unsat)
      in rmap (\<lambda>(d, v). if d \<in> set saturated then Inr (d, v)
           else rbind (if tot > eps then fdiv (fabs v) tot else fdiv 1 (Fin (of_nat (length unsat))))
                  (\<lambda>s. Inr (d, v + overflow * s))) vs)"

text \<open>Pass 4: the second overflow goes to the devices that have headroom left, in turn.\<close>

fun fill_headroom :: "flt \<Rightarrow> flt \<Rightarrow> (string \<times> flt) list \<Rightarrow> flt \<Rightarrow> (string \<times> flt) list \<Rightarrow> (string \<times> flt) list res" where
  "fill_headroom sg tot [] remaining vs = Inr vs"
| "fill_headroom sg tot ((d, hr) # hrs) remaining vs =
     rbind (fdiv hr tot) (\<lambda>r.
       let s = py_min hr (remaining * r);
           vs' = dict_set d (dict_get_or vs d 0 + sg * s) vs;
           remaining' = remaining - s
       in if remaining' < eps then Inr vs' else fill_headroom sg tot hrs remaining' vs')"

definition pass4 :: "flt \<Rightarrow> flt \<Rightarrow> string list \<Rightarrow> (string \<times> flt) list \<Rightarrow> (string \<times> flt) list res" where
  "pass4 max_val overflow2 saturated2 vs =
     (if fabs overflow2 > eps then
        (let headroom = map (\<lambda>(d, v). (d, max_val - fabs v)) (filter (\<lambda>(d, v). d \<notin> set saturated2) vs);
             tot = fsum (map snd headroom)
         in if tot > eps
            then fill_headroom (if overflow2 > 0 then 1 else Fin (- 1)) tot headroom (fabs overflow2) vs
            else Inr vs)
      else Inr vs)"

definition clamp_values :: "flt \<Rightarrow> (string \<times> flt) list \<Rightarrow> (string \<times> flt) list res" where
  "clamp_values max_val vs =
     (let (vs1, overflow, saturated) = clamp_pass max_val vs
      in rbind (if fabs overflow > eps then redistribute overflow saturated vs1 else Inr vs1) (\<lambda>vs2.
         let (vs3, overflow2, saturated2) = clamp_pass max_val vs2
         in pass4 max_val overflow2 (saturated @ saturated2) vs3))"

definition apply_clamp_and_overflow :: "shares \<Rightarrow> axis_field \<Rightarrow> flt \<Rightarrow> shares res" where
  "apply_clamp_and_overflow result fld max_val =
     rbind (rmap (\<lambda>(d, c). rbind (axis_value fld c) (\<lambda>v. Inr (d, v))) result) (\<lambda>vs.
     rbind (clamp_values max_val vs) (\<lambda>vs'.
     Inr (map (\<lambda>(d, c). (d, case fld of
            PField \<Rightarrow> share (Val (dict_get_or vs' d 0)) (q_target c)
          | QField \<Rightarrow> share (p_target c) (Val (dict_get_or vs' d 0)))) result)))"

text \<open>The P weight of a device; a device without SOC counts with the average.\<close>

definition p_weight :: "soc_balancing \<Rightarrow> bool \<Rightarrow> flt \<Rightarrow> flt option \<times> flt \<Rightarrow> flt res" where
  "p_weight sb discharging avg = (\<lambda>(soc, rated).
     rbind (fdiv ((case soc of None \<Rightarrow> avg | Some s \<Rightarrow> s) - avg) 100) (\<lambda>dev.
     let factor = (if discharging then 1 + sb_gain sb * dev else 1 - sb_gain sb * dev)
     in Inr (rated * py_max factor 0)))"

definition clamp_opt :: "flt option \<Rightarrow> axis_field \<Rightarrow> shares \<Rightarrow> shares res" where
  "clamp_opt m fld r = (case m of None \<Rightarrow> Inr r | Some x \<Rightarrow> apply_clamp_and_overflow r fld x)"

definition soc_reading :: "soc_balancing \<Rightarrow> device_snapshot \<Rightarrow> (flt option \<times> flt) res" where
  "soc_reading sb d =
     rbind (read_soc sb d) (\<lambda>v.
     rbind (if v = PyNone then Inr None else rbind (py_float v) (\<lambda>x. Inr (Some x))) (\<lambda>soc.
     rbind (py_float (rated_of (sb_rated_key sb) d)) (\<lambda>rated. Inr (soc, rated))))"

text \<open>The shares by weight: P by the SOC weights, Q by the rated powers.\<close>

definition weighted_share :: "command \<Rightarrow> flt \<Rightarrow> flt \<Rightarrow> device_snapshot \<times> flt \<times> flt \<Rightarrow> (string \<times> command) res" where
  "weighted_share cmd total_w total_rated = (\<lambda>(d, w, rated).
     rbind (fdiv w total_w) (\<lambda>p_ratio.
     rbind (fdiv rated total_rated) (\<lambda>q_ratio.
     rbind (axis_map (q_target cmd) (\<lambda>q. Inr (q * q_ratio))) (\<lambda>q_val.
     Inr (ds_id d, share (Val (effective_p cmd 0 * p_ratio)) q_val)))))"

definition q_only_share :: "command \<Rightarrow> flt \<Rightarrow> device_snapshot \<times> flt \<Rightarrow> (string \<times> command) res" where
  "q_only_share cmd total_rated = (\<lambda>(d, rated).
     rbind (fdiv rated total_rated) (\<lambda>q_ratio.
     rbind (axis_map (q_target cmd) (\<lambda>q. Inr (q * q_ratio))) (\<lambda>q_val.
     Inr (ds_id d, share NO_CHANGE q_val))))"

definition soc_distribute :: "soc_balancing \<Rightarrow> command \<Rightarrow> device_snapshot list \<Rightarrow> shares res" where
  "soc_distribute sb cmd ds =
     (if ds = [] then Inr []
      else if is_no_change (p_target cmd) \<and> is_no_change (q_target cmd)
        then Inr (dict_of (map (\<lambda>d. (ds_id d, share NO_CHANGE NO_CHANGE)) ds))
      else rbind (rmap (soc_reading sb) ds) (\<lambda>rs.
        let rateds = map snd rs; total_rated = fsum rateds;
            valid = List.map_filter fst rs
        in if total_rated \<le> 0 then equal_distribute cmd ds
           else if valid = [] then proportional_distribute (sb_rated_key sb) cmd ds
           else rbind (fdiv (fsum valid) (Fin (of_nat (length valid)))) (\<lambda>avg.
             if is_no_change (p_target cmd) then
               rbind (rmap (q_only_share cmd total_rated) (zip ds rateds)) (\<lambda>kvs.
                 clamp_opt (sb_max_q sb) QField (dict_of kvs))
             else
               rbind (rmap (p_weight sb (effective_p cmd 0 > 0) avg) rs) (\<lambda>ws.
                 let total_w = fsum ws
                 in if total_w \<le> 0 then proportional_distribute (sb_rated_key sb) cmd ds
                    else rbind (rmap (weighted_share cmd total_w total_rated) (zip ds (zip ws rateds))) (\<lambda>kvs.
                      rbind (clamp_opt (sb_max_p sb) PField (dict_of kvs)) (\<lambda>r.
                        if is_no_change (q_target cmd) then Inr r else clamp_opt (sb_max_q sb) QField r))))))"

section \<open>The limit per device\<close>

text \<open>Dictionaries of finite values.\<close>

definition fin_vals :: "(string \<times> rat) list \<Rightarrow> (string \<times> flt) list" where
  "fin_vals vs = map (\<lambda>(d, v). (d, Fin v)) vs"

lemma fsum_Fin: "fsum (map Fin xs) = Fin (sum_list xs)"
proof -
  have "foldl (+) (Fin a) (map Fin xs) = Fin (a + sum_list xs)" for a
    by (induction xs arbitrary: a) (simp_all add: add.assoc)
  then show ?thesis by (simp add: fsum_def)
qed

definition clip :: "rat \<Rightarrow> rat \<Rightarrow> rat" where
  "clip m v = max (- m) (min m v)"

definition total_of :: "(string \<times> rat) list \<Rightarrow> rat" where
  "total_of vs = sum_list (map snd vs)"

definition bounded_by :: "rat \<Rightarrow> (string \<times> rat) list \<Rightarrow> bool" where
  "bounded_by m vs = list_all (\<lambda>(d, v). \<bar>v\<bar> \<le> m) vs"

lemma fin_vals_simps [simp]:
  "fin_vals [] = []" "fin_vals ((d, v) # vs) = (d, Fin v) # fin_vals vs" "map fst (fin_vals vs) = map fst vs"
  by (auto simp: fin_vals_def)

lemma fin_vals_update: "dict_set d (Fin x) (fin_vals vs) = fin_vals (dict_set d x vs)"
  by (induction vs) auto

lemma fin_vals_get: "dict_get_or (fin_vals vs) d (Fin x) = Fin (dict_get_or vs d x)"
  by (induction vs) (auto simp: dict_get_or_def)

lemma total_of_update:
  "distinct (map fst vs) \<Longrightarrow> map_of vs d = Some v \<Longrightarrow> total_of (dict_set d x vs) = total_of vs - v + x"
  by (induction vs) (auto simp: total_of_def split: if_splits)

lemma bounded_update: "bounded_by m vs \<Longrightarrow> \<bar>x\<bar> \<le> m \<Longrightarrow> bounded_by m (dict_set d x vs)"
  by (induction vs) (auto simp: bounded_by_def)

lemma clip_bound: "0 \<le> m \<Longrightarrow> \<bar>clip m v\<bar> \<le> m"
  by (auto simp: clip_def)

lemma clip_id: "\<bar>v\<bar> \<le> m \<Longrightarrow> clip m v = v"
  by (auto simp: clip_def)

lemma clamp_value_Fin: "0 \<le> m \<Longrightarrow> clamp_value (Fin m) (Fin v) = Fin (clip m v)"
  by (auto simp: clamp_value_def clip_def)

definition clip_all :: "rat \<Rightarrow> (string \<times> rat) list \<Rightarrow> (string \<times> rat) list" where
  "clip_all m vs = map (\<lambda>(d, v). (d, clip m v)) vs"

definition over :: "rat \<Rightarrow> (string \<times> rat) list \<Rightarrow> string list" where
  "over m vs = map fst (filter (\<lambda>(d, v). \<bar>v\<bar> > m) vs)"

lemma clamp_pass_Fin:
  assumes "0 \<le> m"
  shows "clamp_pass (Fin m) (fin_vals vs) = (fin_vals (clip_all m vs), Fin (total_of vs - total_of (clip_all m vs)), over m vs)"
proof -
  have "map (\<lambda>(d, v). (d, clamp_value (Fin m) v)) (fin_vals vs) = fin_vals (clip_all m vs)"
    using assms by (auto simp: fin_vals_def clip_all_def clamp_value_Fin)
  moreover have "map (\<lambda>(d, v). v - clamp_value (Fin m) v) (filter (\<lambda>(d, v). fabs v > Fin m) (fin_vals vs))
      = map Fin (map (\<lambda>(d, v). v - clip m v) (filter (\<lambda>(d, v). \<bar>v\<bar> > m) vs))"
    using assms by (induction vs) (auto simp: clamp_value_Fin)
  moreover have "sum_list (map (\<lambda>(d, v). v - clip m v) (filter (\<lambda>(d, v). \<bar>v\<bar> > m) vs)) = total_of vs - total_of (clip_all m vs)"
    by (induction vs) (auto simp: total_of_def clip_all_def clip_id)
  moreover have "map fst (filter (\<lambda>(d, v). fabs v > Fin m) (fin_vals vs)) = over m vs"
    by (induction vs) (auto simp: over_def)
  ultimately show ?thesis by (simp add: clamp_pass_def fsum_Fin del: map_map)
qed

lemma bounded_clip: "0 \<le> m \<Longrightarrow> bounded_by m (clip_all m vs)"
  by (auto simp: bounded_by_def clip_all_def list_all_iff clip_bound)

lemma clip_all_keys [simp]: "map fst (clip_all m vs) = map fst vs"
  by (induction vs) (auto simp: clip_all_def)

lemma fill_headroom_Fin:
  assumes "distinct (map fst hs)" "distinct (map fst vs)" "bounded_by m vs" "0 < t" "0 \<le> rem" "\<bar>g\<bar> = 1"
    and "\<forall>(d, h) \<in> set hs. 0 \<le> h \<and> h \<le> t \<and> (\<exists>v. map_of vs d = Some v \<and> \<bar>v\<bar> + h \<le> m)"
  shows "\<exists>vs' add. fill_headroom (Fin g) (Fin t) (fin_vals hs) (Fin rem) (fin_vals vs) = Inr (fin_vals vs')
    \<and> map fst vs' = map fst vs \<and> bounded_by m vs' \<and> 0 \<le> add \<and> add \<le> rem \<and> total_of vs' = total_of vs + g * add"
  using assms
proof (induction hs arbitrary: vs rem)
  case Nil
  then show ?case by (auto intro!: exI [of _ 0])
next
  case (Cons dh hs)
  obtain d h where dh: "dh = (d, h)" by (cases dh)
  obtain v where v: "map_of vs d = Some v" "\<bar>v\<bar> + h \<le> m" and h: "0 \<le> h" "h \<le> t"
    using Cons.prems(7) dh by auto
  define s where "s = min h (rem * (h / t))"
  have "0 \<le> h / t" "h / t \<le> 1" using h Cons.prems(4) by auto
  then have s: "0 \<le> s" "s \<le> rem" "s \<le> h"
    using h Cons.prems(5) mult_left_le [of "h / t" rem] by (auto simp: s_def min_le_iff_disj)
  define vs1 where "vs1 = dict_set d (v + g * s) vs"
  have gs: "\<bar>g * s\<bar> = s" using s(1) Cons.prems(6) by (simp add: abs_mult)
  then have "\<bar>v + g * s\<bar> \<le> m" using v(2) s(3) by linarith
  then have vs1: "map fst vs1 = map fst vs" "bounded_by m vs1" "total_of vs1 = total_of vs + g * s"
    using Cons.prems(2,3) v(1) bounded_update dict_set_keys_old [of d vs] total_of_update [of vs d v] dict_keys_map_of [of d vs]
    by (simp_all add: vs1_def)
  have step: "fill_headroom (Fin g) (Fin t) (fin_vals (dh # hs)) (Fin rem) (fin_vals vs)
      = (if Fin (rem - s) < eps then Inr (fin_vals vs1) else fill_headroom (Fin g) (Fin t) (fin_vals hs) (Fin (rem - s)) (fin_vals vs1))"
  proof -
    have "min h (rem * h / t) = s" by (simp add: s_def)
    moreover have "dict_get_or (fin_vals vs) d (Fin 0) = Fin v"
      using v(1) by (simp add: fin_vals_get) (simp add: dict_get_or_def)
    ultimately show ?thesis
      using Cons.prems(4) by (simp add: dh fin_vals_update vs1_def Let_def)
  qed
  show ?case
  proof (cases "Fin (rem - s) < eps")
    case True
    then show ?thesis using step vs1 s by auto
  next
    case False
    have "\<forall>(e, h) \<in> set hs. 0 \<le> h \<and> h \<le> t \<and> (\<exists>v. map_of vs1 e = Some v \<and> \<bar>v\<bar> + h \<le> m)"
      using Cons.prems(1,7) by (force simp: dh vs1_def map_of_dict_set)
    then obtain vs' add where "fill_headroom (Fin g) (Fin t) (fin_vals hs) (Fin (rem - s)) (fin_vals vs1) = Inr (fin_vals vs')"
      "map fst vs' = map fst vs1" "bounded_by m vs'" "0 \<le> add" "add \<le> rem - s" "total_of vs' = total_of vs1 + g * add"
      using Cons.IH [of vs1 "rem - s"] Cons.prems vs1 s(2) by auto
    then show ?thesis
      using step False vs1 s(1) by (intro exI [of _ vs'] exI [of _ "s + add"]) (simp add: algebra_simps)
  qed
qed

lemma fin_vals_filter: "filter (\<lambda>(d, v). P d) (fin_vals vs) = fin_vals (filter (\<lambda>(d, v). P d) vs)"
  by (induction vs) auto

lemma fin_vals_abs: "map (\<lambda>(d, v). fabs v) (fin_vals vs) = map Fin (map (\<lambda>(d, v). \<bar>v\<bar>) vs)"
  by (induction vs) auto

lemma sum_list_frac: "sum_list (map (\<lambda>x. f x / t) xs) = (sum_list (map f xs) :: rat) / t"
  by (induction xs) (simp_all add: add_divide_distrib)

lemma redistribute_Fin:
  "\<exists>f. redistribute (Fin q) sat (fin_vals vs) = Inr (fin_vals (map (\<lambda>(d, v). (d, if d \<in> set sat then v else v + q * f v)) vs))
     \<and> (\<forall>v. 0 \<le> f v)
     \<and> sum_list (map (\<lambda>(d, v). f v) (filter (\<lambda>(d, v). d \<notin> set sat) vs)) = (if filter (\<lambda>(d, v). d \<notin> set sat) vs = [] then 0 else 1)"
proof -
  define us where "us = filter (\<lambda>(d, v). d \<notin> set sat) vs"
  define t where "t = sum_list (map (\<lambda>(d, v). \<bar>v\<bar>) us)"
  define f where "f v = (if Fin t > eps then \<bar>v\<bar> / t else 1 / of_nat (length us))" for v :: rat
  have t0: "Fin t > eps \<Longrightarrow> 0 < t" by (simp add: eps_def)
  have tot: "fsum (map (\<lambda>(d, v). fabs v) (filter (\<lambda>(d, v). d \<notin> set sat) (fin_vals vs))) = Fin t"
    by (simp add: fin_vals_filter fin_vals_abs fsum_Fin us_def t_def del: map_map)
  have len: "length (filter (\<lambda>(d, v). d \<notin> set sat) (fin_vals vs)) = length us"
    by (simp add: fin_vals_filter us_def) (simp add: fin_vals_def)
  have share: "(if Fin t > eps then fdiv (Fin \<bar>v\<bar>) (Fin t) else fdiv 1 (Fin (of_nat (length us)))) = Inr (Fin (f v))"
    if "us \<noteq> []" for v
    using that t0 by (auto simp: f_def)
  have "redistribute (Fin q) sat (fin_vals vs)
      = Inr (map (\<lambda>(d, v). case v of Fin w \<Rightarrow> (d, if d \<in> set sat then v else v + Fin q * Fin (f w)) | _ \<Rightarrow> (d, v)) (fin_vals vs))"
    unfolding redistribute_def Let_def tot len
  proof (rule rmap_Inr_map)
    fix x
    assume "x \<in> set (fin_vals vs)"
    then obtain d w where x: "x = (d, Fin w)" and mem: "(d, w) \<in> set vs" by (auto simp: fin_vals_def)
    show "(case x of (d, v) \<Rightarrow> if d \<in> set sat then Inr (d, v)
        else rbind (if eps < Fin t then fdiv (fabs v) (Fin t) else fdiv 1 (Fin (of_nat (length us)))) (\<lambda>s. Inr (d, v + Fin q * s)))
      = Inr (case x of (d, v) \<Rightarrow> case v of Fin w \<Rightarrow> (d, if d \<in> set sat then v else v + Fin q * Fin (f w)) | _ \<Rightarrow> (d, v))"
    proof (cases "d \<in> set sat")
      case False
      then have "us \<noteq> []" using mem by (auto simp: us_def filter_empty_conv)
      then show ?thesis
        by (simp only: x prod.case False if_False fabs.simps share [OF \<open>us \<noteq> []\<close>] rbind_Inr flt.case)
    qed (simp add: x)
  qed
  also have "\<dots> = Inr (fin_vals (map (\<lambda>(d, v). (d, if d \<in> set sat then v else v + q * f v)) vs))"
    by (auto simp: fin_vals_def)
  finally have 1: "redistribute (Fin q) sat (fin_vals vs)
    = Inr (fin_vals (map (\<lambda>(d, v). (d, if d \<in> set sat then v else v + q * f v)) vs))" .
  have "0 \<le> t" by (auto simp: t_def intro!: sum_list_nonneg)
  then have 2: "\<forall>v. 0 \<le> f v" by (auto simp: f_def)
  have 3: "sum_list (map (\<lambda>(d, v). f v) us) = (if us = [] then 0 else 1)"
  proof (cases "Fin t > eps")
    case True
    have "map (\<lambda>(d, v). f v) us = map (\<lambda>x. (case x of (d, v) \<Rightarrow> \<bar>v\<bar>) / t) us"
      using True by (auto simp: f_def)
    then have "sum_list (map (\<lambda>(d, v). f v) us) = t / t"
      by (simp only: sum_list_frac t_def)
    moreover have "us \<noteq> []" using t0 [OF True] by (auto simp: t_def)
    ultimately show ?thesis using t0 [OF True] by simp
  next
    case False
    then have "map (\<lambda>(d, v). f v) us = replicate (length us) (1 / of_nat (length us))"
      by (auto simp: f_def map_replicate_const split_beta')
    then show ?thesis by (simp add: sum_list_replicate)
  qed
  from 1 2 3 show ?thesis by (auto simp: us_def)
qed

lemma redistribute_total:
  assumes "redistribute (Fin q) sat (fin_vals vs) = Inr ws"
  obtains us where "ws = fin_vals us" "map fst us = map fst vs"
    "total_of us = total_of vs + (if set (map fst vs) \<subseteq> set sat then 0 else q)"
    "0 \<le> q \<longrightarrow> list_all (\<lambda>(d, v). 0 \<le> v) vs \<longrightarrow> list_all (\<lambda>(d, v). 0 \<le> v) us"
proof -
  obtain f where f: "ws = fin_vals (map (\<lambda>(d, v). (d, if d \<in> set sat then v else v + q * f v)) vs)" "\<forall>v. 0 \<le> f v"
    "sum_list (map (\<lambda>(d, v). f v) (filter (\<lambda>(d, v). d \<notin> set sat) vs)) = (if filter (\<lambda>(d, v). d \<notin> set sat) vs = [] then 0 else 1)"
    using redistribute_Fin [of q sat vs] assms by auto
  let ?us = "map (\<lambda>(d, v). (d, if d \<in> set sat then v else v + q * f v)) vs"
  have "total_of ?us = total_of vs + q * sum_list (map (\<lambda>(d, v). f v) (filter (\<lambda>(d, v). d \<notin> set sat) vs))"
    by (induction vs) (auto simp: total_of_def algebra_simps)
  moreover have "filter (\<lambda>(d, v). d \<notin> set sat) vs = [] \<longleftrightarrow> set (map fst vs) \<subseteq> set sat"
    by (auto simp: filter_empty_conv)
  moreover have "map fst ?us = map fst vs" by (induction vs) auto
  moreover have "0 \<le> q \<longrightarrow> list_all (\<lambda>(d, v). 0 \<le> v) vs \<longrightarrow> list_all (\<lambda>(d, v). 0 \<le> v) ?us"
    using f(2) by (auto simp: list_all_iff)
  ultimately show thesis using that [of ?us] f by auto
qed

lemma pass4_Fin:
  assumes "distinct (map fst vs)" "bounded_by m vs" "0 \<le> m"
  shows "\<exists>us. pass4 (Fin m) (Fin q) sat (fin_vals vs) = Inr (fin_vals us) \<and> map fst us = map fst vs \<and> bounded_by m us
    \<and> (0 \<le> q \<longrightarrow> total_of us \<le> total_of vs + q) \<and> (q = 0 \<longrightarrow> us = vs)"
proof -
  define hs where "hs = map (\<lambda>(d, v). (d, m - \<bar>v\<bar>)) (filter (\<lambda>(d, v). d \<notin> set sat) vs)"
  define t where "t = total_of hs"
  define g where "g = (if 0 < q then 1 else - 1 :: rat)"
  have hs: "map (\<lambda>(d, v). (d, Fin m - fabs v)) (filter (\<lambda>(d, v). d \<notin> set sat) (fin_vals vs)) = fin_vals hs"
    by (simp add: fin_vals_filter hs_def) (auto simp: fin_vals_def)
  have nonneg: "\<forall>x \<in> set (map snd hs). 0 \<le> x"
    using assms(2) by (auto simp: hs_def bounded_by_def list_all_iff)
  have tot: "fsum (map snd (fin_vals hs)) = Fin t"
    using fsum_Fin [of "map snd hs"] by (simp add: fin_vals_def t_def total_of_def split_beta' comp_def)
  have room: "\<forall>(d, h) \<in> set hs. 0 \<le> h \<and> h \<le> t \<and> (\<exists>v. map_of vs d = Some v \<and> \<bar>v\<bar> + h \<le> m)"
  proof -
    have "h \<le> t" if "h \<in> set (map snd hs)" for h
      using member_le_sum_list [of h "map snd hs"] nonneg that by (simp add: t_def total_of_def)
    then have "h \<le> t" if "(d, h) \<in> set hs" for d h using that by force
    moreover have "0 \<le> h \<and> (\<exists>v. map_of vs d = Some v \<and> \<bar>v\<bar> + h \<le> m)" if "(d, h) \<in> set hs" for d h
    proof -
      obtain v where v: "(d, v) \<in> set vs" "h = m - \<bar>v\<bar>" using \<open>(d, h) \<in> set hs\<close> by (auto simp: hs_def)
      then have "map_of vs d = Some v" using assms(1) by simp
      moreover have "\<bar>v\<bar> \<le> m" using assms(2) v(1) by (auto simp: bounded_by_def list_all_iff)
      ultimately show ?thesis using v(2) by simp
    qed
    ultimately show ?thesis by blast
  qed
  have "map fst hs = map fst (filter (\<lambda>(d, v). d \<notin> set sat) vs)" by (auto simp: hs_def)
  then have dist: "distinct (map fst hs)" using assms(1) by (simp add: distinct_map_filter)
  show ?thesis
  proof (cases "fabs (Fin q) > eps \<and> Fin t > eps")
    case True
    then have "0 < t" "q \<noteq> 0" by (auto simp: eps_def)
    have g1: "\<bar>g\<bar> = 1" by (simp add: g_def)
    obtain us add where us: "fill_headroom (Fin g) (Fin t) (fin_vals hs) (Fin \<bar>q\<bar>) (fin_vals vs) = Inr (fin_vals us)"
      "map fst us = map fst vs" "bounded_by m us" "0 \<le> add" "add \<le> \<bar>q\<bar>" "total_of us = total_of vs + g * add"
      using fill_headroom_Fin [OF dist assms(1,2) \<open>0 < t\<close> abs_ge_zero g1 room] by blast
    have "(if Fin q > 0 then 1 else Fin (- 1)) = Fin g" by (simp add: g_def)
    then have "pass4 (Fin m) (Fin q) sat (fin_vals vs) = Inr (fin_vals us)"
      using True us(1) unfolding pass4_def Let_def hs tot by simp
    moreover have "0 \<le> q \<longrightarrow> total_of us \<le> total_of vs + q"
      using us(4,5,6) \<open>q \<noteq> 0\<close> by (auto simp: g_def)
    ultimately show ?thesis using \<open>q \<noteq> 0\<close> us(2,3) by blast
  next
    case False
    then have "pass4 (Fin m) (Fin q) sat (fin_vals vs) = Inr (fin_vals vs)"
      using hs tot unfolding pass4_def Let_def by auto
    then show ?thesis using assms(2) by auto
  qed
qed

lemma total_clip_le: "0 \<le> m \<Longrightarrow> list_all (\<lambda>(d, v). 0 \<le> v) vs \<Longrightarrow> total_of (clip_all m vs) \<le> total_of vs"
  by (induction vs) (auto simp: total_of_def clip_all_def clip_def)

lemma clip_all_id: "bounded_by m vs \<Longrightarrow> clip_all m vs = vs"
  by (induction vs) (auto simp: bounded_by_def clip_all_def clip_id)

lemma clip_all_nonneg: "0 \<le> m \<Longrightarrow> list_all (\<lambda>(d, v). 0 \<le> v) vs \<Longrightarrow> list_all (\<lambda>(d, v). 0 \<le> v) (clip_all m vs)"
  by (induction vs) (auto simp: clip_all_def clip_def)

text \<open>
  The limit per device is a hard limit: whatever finite shares the devices were given, after the
  clamping passes every device stays in the dictionary with at most the limit in absolute value, in
  sum never more power than asked is dispatched (for shares of one sign), and shares
  that respect the limit are not changed.
\<close>

theorem device_limit_holds:
  assumes "distinct (map fst vs)" "0 \<le> m"
  shows "\<exists>us. clamp_values (Fin m) (fin_vals vs) = Inr (fin_vals us) \<and> map fst us = map fst vs \<and> bounded_by m us
    \<and> (list_all (\<lambda>(d, v). 0 \<le> v) vs \<longrightarrow> total_of us \<le> total_of vs) \<and> (bounded_by m vs \<longrightarrow> us = vs)"
proof -
  let ?c = "clip_all m vs" and ?nonneg = "list_all (\<lambda>(d, v). (0 :: rat) \<le> v)"
  define q where "q = total_of vs - total_of ?c"
  obtain ws where ws: "(if fabs (Fin q) > eps then redistribute (Fin q) (over m vs) (fin_vals ?c) else Inr (fin_vals ?c)) = Inr (fin_vals ws)"
    "map fst ws = map fst vs" "?nonneg vs \<longrightarrow> ?nonneg ws \<and> total_of ws \<le> total_of vs" "q = 0 \<longrightarrow> ws = ?c"
  proof (cases "fabs (Fin q) > eps")
    case True
    obtain r where r: "redistribute (Fin q) (over m vs) (fin_vals ?c) = Inr r"
      using redistribute_Fin [of q "over m vs" ?c] by auto
    obtain us where us: "r = fin_vals us" "map fst us = map fst ?c"
      "total_of us = total_of ?c + (if set (map fst ?c) \<subseteq> set (over m vs) then 0 else q)"
      "0 \<le> q \<longrightarrow> ?nonneg ?c \<longrightarrow> ?nonneg us"
      using redistribute_total [OF r] by blast
    moreover have "?nonneg vs \<longrightarrow> 0 \<le> q \<and> ?nonneg ?c"
      using total_clip_le clip_all_nonneg assms(2) by (simp add: q_def)
    moreover have "q \<noteq> 0" using True by (auto simp: eps_def)
    ultimately show ?thesis
      using True r by (intro that [of us]) (auto simp: q_def)
  next
    case False
    then show ?thesis
      using that [of ?c] total_clip_le clip_all_nonneg assms(2) by simp
  qed
  let ?d = "clip_all m ws"
  obtain us where us: "pass4 (Fin m) (Fin (total_of ws - total_of ?d)) (over m vs @ over m ws) (fin_vals ?d) = Inr (fin_vals us)"
    "map fst us = map fst ?d" "bounded_by m us"
    "0 \<le> total_of ws - total_of ?d \<longrightarrow> total_of us \<le> total_of ?d + (total_of ws - total_of ?d)"
    "total_of ws - total_of ?d = 0 \<longrightarrow> us = ?d"
    using pass4_Fin [of ?d m] assms ws(2) bounded_clip by (metis clip_all_keys)
  have "clamp_values (Fin m) (fin_vals vs) = Inr (fin_vals us)"
    using ws(1) us(1) by (simp add: clamp_values_def clamp_pass_Fin assms(2) flip: q_def)
  moreover have "?nonneg vs \<longrightarrow> total_of us \<le> total_of vs"
    using ws(3) us(4) total_clip_le [OF assms(2), of ws] by auto
  moreover have "bounded_by m vs \<longrightarrow> us = vs"
    using ws(4) us(5) clip_all_id by (simp add: q_def)
  ultimately show ?thesis using us(2,3) ws(2) by auto
qed

theorem device_limit_holds_witness:
  "\<exists>us. clamp_values 100 (fin_vals [(''a'', 150), (''b'', 50)]) = Inr (fin_vals us) \<and> bounded_by 100 us"
  using device_limit_holds [of "[(''a'', 150), (''b'', 50)]" 100] by auto

text \<open>
  The last pass does not hand out all of the second overflow although the headroom would take it:
  the share of a device is computed from what remains while the total headroom stays that of the
  start. With a limit of 100, shares of 150, 95, 5 and 5 end as 100, 100, 27.5 and 17.44: about 10 of
  the 255 asked are not dispatched, with the last two devices far below the limit.
\<close>

theorem overflow_not_delivered:
  "clamp_values 100 (fin_vals [(''a'', 150), (''b'', 95), (''c'', 5), (''d'', 5)])
     = Inr (fin_vals [(''a'', 100), (''b'', 100), (''c'', 55 / 2), (''d'', 1465 / 84)])
   \<and> total_of [(''a'', 100), (''b'', 100), (''c'', 55 / 2), (''d'', 1465 / 84)] < 245"
  by (simp add: clamp_values_def clamp_pass_def redistribute_def pass4_def clamp_value_def eps_def fsum_def
      dict_get_or_def total_of_def)

section \<open>What every distributor promises\<close>

fun finite_axis :: "axis \<Rightarrow> bool" where
  "finite_axis NO_CHANGE = True"
| "finite_axis (Val x) = is_finite x"

text \<open>An axis left alone is left alone on every device; a set-point is the sum of the shares.\<close>

fun axis_plan :: "axis \<Rightarrow> axis list \<Rightarrow> bool" where
  "axis_plan NO_CHANGE as = list_all is_no_change as"
| "axis_plan (Val x) as = (\<exists>xs. as = map (\<lambda>y. Val (Fin y)) xs \<and> x = Fin (sum_list xs))"

definition faithful_split :: "command \<Rightarrow> shares \<Rightarrow> bool" where
  "faithful_split cmd r \<longleftrightarrow> axis_plan (p_target cmd) (map (\<lambda>(d, c). p_target c) r)
     \<and> axis_plan (q_target cmd) (map (\<lambda>(d, c). q_target c) r)"

locale power_distributor =
  fixes distribute :: "command \<Rightarrow> device_snapshot list \<Rightarrow> shares res"
    and ok :: "device_snapshot \<Rightarrow> bool"
  assumes splits: "ds \<noteq> [] \<Longrightarrow> distinct (map ds_id ds) \<Longrightarrow> list_all ok ds \<Longrightarrow>
      finite_axis (p_target cmd) \<Longrightarrow> finite_axis (q_target cmd) \<Longrightarrow>
      \<exists>r. distribute cmd ds = Inr r \<and> map fst r = map ds_id ds \<and> faithful_split cmd r"
begin

lemma every_device_served:
  assumes "distinct (map ds_id ds)" "list_all ok ds" "finite_axis (p_target cmd)" "finite_axis (q_target cmd)" "d \<in> set ds"
  shows "\<exists>r c. distribute cmd ds = Inr r \<and> map_of r (ds_id d) = Some c"
proof -
  have "ds \<noteq> []" using assms(5) by auto
  from splits [OF this assms(1-4)] obtain r where r: "distribute cmd ds = Inr r" "map fst r = map ds_id ds" by blast
  then have "ds_id d \<in> set (map fst r)" using assms(5) by simp
  then show ?thesis using r(1) dict_keys_map_of [of "ds_id d" r] by auto
qed

lemma idle_axis_untouched:
  assumes "ds \<noteq> []" "distinct (map ds_id ds)" "list_all ok ds" "finite_axis (q_target cmd)" "p_target cmd = NO_CHANGE"
    and "distribute cmd ds = Inr r" "(d, c) \<in> set r"
  shows "p_target c = NO_CHANGE"
  using splits [OF assms(1-3) _ assms(4)] assms(5-7)
  by (auto simp: faithful_split_def list_all_iff is_no_change_def)

end

definition scale :: "axis \<Rightarrow> rat \<Rightarrow> axis" where
  "scale a k = (case a of Val (Fin x) \<Rightarrow> Val (Fin (x * k)) | _ \<Rightarrow> a)"

definition shares_by :: "command \<Rightarrow> device_snapshot list \<Rightarrow> rat list \<Rightarrow> rat list \<Rightarrow> shares" where
  "shares_by cmd ds ks ls =
     map (\<lambda>(d, k, l). (ds_id d, share (scale (p_target cmd) k) (scale (q_target cmd) l))) (zip ds (zip ks ls))"

lemma sum_list_scale: "sum_list (map (\<lambda>k. x * k) ks) = x * (sum_list ks :: rat)"
  by (induction ks) (simp_all add: algebra_simps)

lemma axis_plan_scale:
  "finite_axis a \<Longrightarrow> sum_list ks = 1 \<Longrightarrow> axis_plan a (map (scale a) ks)"
proof (cases a)
  case (Val x)
  assume *: "finite_axis a" "sum_list ks = 1"
  then obtain y where "x = Fin y" using Val by (auto simp: is_finite_iff)
  then show ?thesis
    using * Val sum_list_scale [of y ks] by (auto simp: scale_def intro!: exI [of _ "map (\<lambda>k. y * k) ks"])
qed (simp add: scale_def list_all_iff is_no_change_def)

lemma shares_by_ok:
  assumes "length ks = length ds" "length ls = length ds" "sum_list ks = 1" "sum_list ls = 1"
    and "finite_axis (p_target cmd)" "finite_axis (q_target cmd)"
  shows "map fst (shares_by cmd ds ks ls) = map ds_id ds \<and> faithful_split cmd (shares_by cmd ds ks ls)"
proof -
  have m: "map (\<lambda>(d, k, l). g d k l) (zip xs (zip ks ls)) = map (\<lambda>i. g (xs ! i) (ks ! i) (ls ! i)) [0..<length xs]"
    if "length ks = length xs" "length ls = length xs" for g and xs :: "device_snapshot list"
    using that by (intro nth_equalityI) simp_all
  have "map (\<lambda>(d, c). p_target c) (shares_by cmd ds ks ls) = map (scale (p_target cmd)) ks"
    "map (\<lambda>(d, c). q_target c) (shares_by cmd ds ks ls) = map (scale (q_target cmd)) ls"
    "map fst (shares_by cmd ds ks ls) = map ds_id ds"
    using assms(1,2) by (auto simp: shares_by_def m share_def intro!: nth_equalityI)
  then show ?thesis using assms by (simp add: faithful_split_def axis_plan_scale)
qed

lemma dict_of_distinct: "distinct (map fst kvs) \<Longrightarrow> dict_of kvs = kvs"
proof -
  have "distinct (map fst (d @ kvs)) \<Longrightarrow> foldl (\<lambda>d (k, v). dict_set k v d) d kvs = d @ kvs" for d
  proof (induction kvs arbitrary: d)
    case (Cons kv kvs)
    obtain k v where kv: "kv = (k, v)" by (cases kv)
    then have "dict_set k v d = d @ [(k, v)]" using Cons.prems by (intro dict_set_keys_new) auto
    then show ?case using Cons.IH [of "d @ [(k, v)]"] Cons.prems kv by simp
  qed simp
  from this [of "[]"] show "distinct (map fst kvs) \<Longrightarrow> ?thesis" by (simp add: dict_of_def)
qed

lemma axis_map_scale:
  assumes "finite_axis a" "\<And>x. f (Fin x) = Inr (Fin (x * k))"
  shows "axis_map a f = Inr (scale a k)"
  using assms by (cases a) (auto simp: axis_map_def scale_def is_finite_iff)

lemma equal_shares:
  assumes "ds \<noteq> []" "distinct (map ds_id ds)" "finite_axis (p_target cmd)" "finite_axis (q_target cmd)"
  shows "equal_distribute cmd ds
    = Inr (shares_by cmd ds (replicate (length ds) (1 / of_nat (length ds))) (replicate (length ds) (1 / of_nat (length ds))))"
proof -
  let ?n = "of_nat (length ds) :: rat"
  have f: "fdiv (Fin x) (Fin ?n) = Inr (Fin (x * (1 / ?n)))" for x using assms(1) by simp
  have "shares_by cmd ds (replicate (length ds) k) (replicate (length ds) k)
      = map (\<lambda>d. (ds_id d, share (scale (p_target cmd) k) (scale (q_target cmd) k))) ds" for k
    by (auto simp: shares_by_def intro!: nth_equalityI)
  moreover have "dict_of (map (\<lambda>d. (ds_id d, c)) ds) = map (\<lambda>d. (ds_id d, c)) ds" for c :: command
    using assms(2) by (intro dict_of_distinct) (simp add: comp_def)
  ultimately show ?thesis
    using assms(1) axis_map_scale [OF assms(3) f] axis_map_scale [OF assms(4) f]
    by (simp add: equal_distribute_def)
qed

interpretation equal: power_distributor equal_distribute "\<lambda>_. True"
proof
  fix ds :: "device_snapshot list" and cmd :: command
  assume *: "ds \<noteq> []" "distinct (map ds_id ds)" "finite_axis (p_target cmd)" "finite_axis (q_target cmd)"
  then show "\<exists>r. equal_distribute cmd ds = Inr r \<and> map fst r = map ds_id ds \<and> faithful_split cmd r"
    using equal_shares [OF *] shares_by_ok [of _ ds _ cmd] by (simp add: sum_list_replicate)
qed

text \<open>A device whose rated power is a finite number.\<close>

definition rated_ok :: "string \<Rightarrow> device_snapshot \<Rightarrow> bool" where
  "rated_ok key d = (is_num_val (rated_of key d) \<and> is_finite (flt_val (rated_of key d)))"

definition rat_of :: "flt \<Rightarrow> rat" where
  "rat_of x = (case x of Fin q \<Rightarrow> q | _ \<Rightarrow> 0)"

lemma rateds_Fin:
  "list_all (rated_ok key) ds \<Longrightarrow> rmap (\<lambda>d. num_of (rated_of key d)) ds = Inr (map (\<lambda>d. Fin (rat_of (flt_val (rated_of key d)))) ds)"
  by (rule rmap_Inr_map) (auto simp: list_all_iff rated_ok_def num_of_def rat_of_def is_finite_iff)

lemma rmap_cong: "(\<And>x. x \<in> set xs \<Longrightarrow> f x = g x) \<Longrightarrow> rmap f xs = rmap g xs"
  by (induction xs) auto

lemma sum_ratios: "sum_list rs \<noteq> 0 \<Longrightarrow> sum_list (map (\<lambda>r. r / sum_list rs) rs) = (1 :: rat)"
  using sum_list_frac [of "\<lambda>r. r" "sum_list rs" rs] by simp

lemma proportional_shares:
  assumes "t \<noteq> 0" "finite_axis (p_target cmd)" "finite_axis (q_target cmd)" "length rs = length ds"
  shows "rmap (proportional_share cmd (Fin t)) (zip ds (map Fin rs))
    = Inr (shares_by cmd ds (map (\<lambda>r. r / t) rs) (map (\<lambda>r. r / t) rs))"
proof -
  have one: "proportional_share cmd (Fin t) (d, Fin r)
      = Inr (ds_id d, share (scale (p_target cmd) (r / t)) (scale (q_target cmd) (r / t)))" for d r
    using assms(1-3) axis_map_scale [of "p_target cmd" "\<lambda>p. Inr (p * Fin (r / t))" "r / t"]
      axis_map_scale [of "q_target cmd" "\<lambda>p. Inr (p * Fin (r / t))" "r / t"]
    by (simp add: proportional_share_def)
  have "rmap (proportional_share cmd (Fin t)) (zip ds (map Fin rs))
      = Inr (map (\<lambda>(d, x). (ds_id d, share (scale (p_target cmd) (rat_of x / t)) (scale (q_target cmd) (rat_of x / t)))) (zip ds (map Fin rs)))"
  proof (rule rmap_Inr_map)
    fix x assume "x \<in> set (zip ds (map Fin rs))"
    then have "snd x \<in> set (map Fin rs)" by (metis prod.collapse set_zip_rightD)
    then obtain r where "snd x = Fin r" by auto
    then obtain d where "x = (d, Fin r)" by (cases x) simp
    then show "proportional_share cmd (Fin t) x = Inr (case x of (d, x) \<Rightarrow>
        (ds_id d, share (scale (p_target cmd) (rat_of x / t)) (scale (q_target cmd) (rat_of x / t))))"
      by (simp add: one rat_of_def)
  qed
  also have "map (\<lambda>(d, x). (ds_id d, share (scale (p_target cmd) (rat_of x / t)) (scale (q_target cmd) (rat_of x / t)))) (zip ds (map Fin rs))
      = shares_by cmd ds (map (\<lambda>r. r / t) rs) (map (\<lambda>r. r / t) rs)"
    using assms(4) by (auto simp: shares_by_def rat_of_def intro!: nth_equalityI)
  finally show ?thesis .
qed

interpretation proportional: power_distributor "proportional_distribute key" "rated_ok key" for key
proof
  fix ds :: "device_snapshot list" and cmd :: command
  assume *: "ds \<noteq> []" "distinct (map ds_id ds)" "list_all (rated_ok key) ds" "finite_axis (p_target cmd)" "finite_axis (q_target cmd)"
  define rs where "rs = map (\<lambda>d. rat_of (flt_val (rated_of key d))) ds"
  let ?t = "sum_list rs"
  have r: "rmap (\<lambda>d. num_of (rated_of key d)) ds = Inr (map Fin rs)"
    using rateds_Fin [OF *(3)] by (simp add: rs_def comp_def)
  show "\<exists>r. proportional_distribute key cmd ds = Inr r \<and> map fst r = map ds_id ds \<and> faithful_split cmd r"
  proof (cases "?t \<le> 0")
    case True
    then show ?thesis
      using equal.splits [OF *(1,2) _ *(4,5)] *(1) r
      by (simp add: proportional_distribute_def fsum_Fin list_all_iff)
  next
    case False
    let ?s = "shares_by cmd ds (map (\<lambda>r. r / ?t) rs) (map (\<lambda>r. r / ?t) rs)"
    have ok: "map fst ?s = map ds_id ds \<and> faithful_split cmd ?s"
      using False *(4,5) by (intro shares_by_ok) (simp_all add: rs_def [symmetric] sum_ratios, simp_all add: rs_def)
    then have "dict_of ?s = ?s" using *(2) by (intro dict_of_distinct) simp
    moreover have "rmap (proportional_share cmd (Fin ?t)) (zip ds (map Fin rs)) = Inr ?s"
      using False *(4,5) by (intro proportional_shares) (simp_all add: rs_def)
    ultimately show ?thesis
      using *(1) r False ok by (simp add: proportional_distribute_def fsum_Fin)
  qed
qed

definition soc_ok :: "soc_balancing \<Rightarrow> device_snapshot \<Rightarrow> bool" where
  "soc_ok sb d = (rated_ok (sb_rated_key sb) d \<and>
     (case read_soc sb d of Inl e \<Rightarrow> False
      | Inr v \<Rightarrow> v = PyNone \<or> (case py_float v of Inl e \<Rightarrow> False | Inr x \<Rightarrow> is_finite x)))"

text \<open>The readings of such devices: an optional finite SOC and a finite rated power.\<close>

definition fin_reading :: "rat option \<times> rat \<Rightarrow> flt option \<times> flt" where
  "fin_reading = (\<lambda>(s, r). (map_option Fin s, Fin r))"

lemma soc_reading_Fin: "soc_ok sb d \<Longrightarrow> \<exists>x. soc_reading sb d = Inr (fin_reading x)"
proof -
  assume ok: "soc_ok sb d"
  then obtain v where v: "read_soc sb d = Inr v" "v = PyNone \<or> (\<exists>s. py_float v = Inr (Fin s))"
    by (auto simp: soc_ok_def is_finite_iff split: sum.splits)
  obtain r where "flt_val (rated_of (sb_rated_key sb) d) = Fin r" "is_num_val (rated_of (sb_rated_key sb) d)"
    using ok by (auto simp: soc_ok_def rated_ok_def is_finite_iff)
  then have r: "py_float (rated_of (sb_rated_key sb) d) = Inr (Fin r)"
    by (cases "rated_of (sb_rated_key sb) d") auto
  show ?thesis
    using v(2)
  proof
    assume "v = PyNone"
    then have "soc_reading sb d = Inr (fin_reading (None, r))" using v(1) r by (simp add: soc_reading_def fin_reading_def)
    then show ?thesis ..
  next
    assume "\<exists>s. py_float v = Inr (Fin s)"
    then obtain s where "py_float v = Inr (Fin s)" ..
    then have "v \<noteq> PyNone \<and> soc_reading sb d = Inr (fin_reading (Some s, r))"
      using v(1) r by (auto simp: soc_reading_def fin_reading_def)
    then show ?thesis by blast
  qed
qed

lemma soc_readings_Fin: "list_all (soc_ok sb) ds \<Longrightarrow> \<exists>xs. rmap (soc_reading sb) ds = Inr (map fin_reading xs) \<and> length xs = length ds"
proof (induction ds)
  case (Cons d ds)
  then obtain xs x where "rmap (soc_reading sb) ds = Inr (map fin_reading xs) \<and> length xs = length ds"
    "soc_reading sb d = Inr (fin_reading x)"
    using soc_reading_Fin [of sb d] by auto
  then show ?case by (auto intro!: exI [of _ "x # xs"])
qed simp

lemma p_weight_Fin: "\<exists>w. p_weight (sb\<lparr>sb_gain := Fin g\<rparr>) dis (Fin avg) (fin_reading x) = Inr (Fin w)"
  by (cases x; cases "fst x") (auto simp: p_weight_def fin_reading_def)

lemma p_weights_Fin:
  "\<exists>ws. rmap (p_weight (sb\<lparr>sb_gain := Fin g\<rparr>) dis (Fin avg)) (map fin_reading xs) = Inr (map Fin ws) \<and> length ws = length xs"
proof (induction xs)
  case (Cons x xs)
  then obtain ws w where "rmap (p_weight (sb\<lparr>sb_gain := Fin g\<rparr>) dis (Fin avg)) (map fin_reading xs) = Inr (map Fin ws) \<and> length ws = length xs"
    "p_weight (sb\<lparr>sb_gain := Fin g\<rparr>) dis (Fin avg) (fin_reading x) = Inr (Fin w)"
    using p_weight_Fin [where sb = sb and g = g and dis = dis and avg = avg and x = x] by auto
  then show ?case by (auto intro!: exI [of _ "w # ws"])
qed simp

lemma valid_Fin: "List.map_filter fst (map fin_reading xs) = map Fin (List.map_filter fst xs)"
  by (induction xs) (auto simp: fin_reading_def List.map_filter_simps split: option.split)

lemma scale_no_change [simp]: "scale NO_CHANGE k = NO_CHANGE"
  by (simp add: scale_def)

lemma weighted_shares:
  assumes "t \<noteq> 0" "u \<noteq> 0" "p_target cmd = Val (Fin p)" "finite_axis (q_target cmd)" "length ws = length ds" "length rs = length ds"
  shows "rmap (weighted_share cmd (Fin u) (Fin t)) (zip ds (zip (map Fin ws) (map Fin rs)))
    = Inr (shares_by cmd ds (map (\<lambda>w. w / u) ws) (map (\<lambda>r. r / t) rs))"
  using assms(5,6)
proof (induction ds arbitrary: ws rs)
  case (Cons d ds)
  obtain w ws' r rs' where wr: "ws = w # ws'" "rs = r # rs'" using Cons.prems by (metis length_Suc_conv)
  have "weighted_share cmd (Fin u) (Fin t) (d, Fin w, Fin r)
      = Inr (ds_id d, share (scale (p_target cmd) (w / u)) (scale (q_target cmd) (r / t)))"
    using assms(1-4) axis_map_scale [of "q_target cmd" "\<lambda>p. Inr (p * Fin (r / t))" "r / t"]
    by (simp add: weighted_share_def effective_p_def scale_def)
  then show ?case using Cons wr by (simp add: shares_by_def)
qed (simp add: shares_by_def)

lemma q_only_shares:
  assumes "t \<noteq> 0" "p_target cmd = NO_CHANGE" "finite_axis (q_target cmd)" "length rs = length ds"
  shows "rmap (q_only_share cmd (Fin t)) (zip ds (map Fin rs))
    = Inr (shares_by cmd ds (map (\<lambda>r. r / t) rs) (map (\<lambda>r. r / t) rs))"
  using assms(4)
proof (induction ds arbitrary: rs)
  case (Cons d ds)
  obtain r rs' where r: "rs = r # rs'" using Cons.prems by (metis length_Suc_conv)
  have "q_only_share cmd (Fin t) (d, Fin r) = Inr (ds_id d, share (scale (p_target cmd) (r / t)) (scale (q_target cmd) (r / t)))"
    using assms(1-3) axis_map_scale [of "q_target cmd" "\<lambda>p. Inr (p * Fin (r / t))" "r / t"]
    by (simp add: q_only_share_def)
  then show ?case using Cons r by (simp add: shares_by_def)
qed (simp add: shares_by_def)

definition unlimited :: "soc_balancing \<Rightarrow> rat \<Rightarrow> soc_balancing" where
  "unlimited sb g = sb\<lparr>sb_max_p := None, sb_max_q := None, sb_gain := Fin g\<rparr>"

interpretation balanced: power_distributor "soc_distribute (unlimited sb g)" "soc_ok (unlimited sb g)" for sb g
proof
  fix ds :: "device_snapshot list" and cmd :: command
  let ?sb = "unlimited sb g"
  assume *: "ds \<noteq> []" "distinct (map ds_id ds)" "list_all (soc_ok ?sb) ds" "finite_axis (p_target cmd)" "finite_axis (q_target cmd)"
  obtain xs where xs: "rmap (soc_reading ?sb) ds = Inr (map fin_reading xs)" "length xs = length ds"
    using soc_readings_Fin [OF *(3)] by blast
  define rs where "rs = map snd xs"
  let ?t = "sum_list rs" and ?goal = "\<lambda>x. \<exists>r. x = Inr r \<and> map fst r = map ds_id ds \<and> faithful_split cmd r"
  have rated: "map snd (map fin_reading xs) = map Fin rs" by (auto simp: rs_def fin_reading_def)
  have len: "length rs = length ds" using xs(2) by (simp add: rs_def)
  have none: "sb_max_p ?sb = None" "sb_max_q ?sb = None" by (simp_all add: unlimited_def)
  have fallback: "?goal (equal_distribute cmd ds)" "?goal (proportional_distribute (sb_rated_key ?sb) cmd ds)"
    using equal.splits [OF *(1,2) _ *(4,5)] proportional.splits [OF *(1,2) _ *(4,5), of "sb_rated_key ?sb"] *(3)
    by (auto simp: list_all_iff soc_ok_def)
  have planned: "?goal (Inr (dict_of (shares_by cmd ds ks ls)))"
    if "length ks = length ds" "length ls = length ds" "sum_list ks = 1" "sum_list ls = 1" for ks ls
    using shares_by_ok [OF that *(4,5)] *(2) dict_of_distinct [of "shares_by cmd ds ks ls"] by simp
  show "?goal (soc_distribute ?sb cmd ds)"
  proof (cases "is_no_change (p_target cmd) \<and> is_no_change (q_target cmd)")
    case True
    have "distinct (map fst (map (\<lambda>d. (ds_id d, share NO_CHANGE NO_CHANGE)) ds))" using *(2) by (simp add: comp_def)
    note eq = dict_of_distinct [OF this]
    show ?thesis
      using True *(1)
      by (simp add: soc_distribute_def eq) (simp add: is_no_change_def faithful_split_def list_all_iff share_def comp_def)
  next
    case False
    let ?valid = "List.map_filter fst xs"
    let ?avg = "sum_list ?valid / of_nat (length ?valid)"
    show ?thesis
    proof (cases "?t \<le> 0 \<or> ?valid = []")
      case True
      then show ?thesis
        using *(1) False xs(1) fallback
        by (auto simp: soc_distribute_def rated valid_Fin fsum_Fin Let_def simp del: map_map)
    next
      case valid: False
      then have t: "?t \<noteq> 0" "\<not> ?t \<le> 0" and v: "?valid \<noteq> []" by auto
      have avg: "fdiv (fsum (map Fin ?valid)) (Fin (of_nat (length ?valid))) = Inr (Fin ?avg)" using v by (simp add: fsum_Fin)
      show ?thesis
      proof (cases "p_target cmd")
        case NO_CHANGE
        then have "soc_distribute ?sb cmd ds = Inr (dict_of (shares_by cmd ds (map (\<lambda>r. r / ?t) rs) (map (\<lambda>r. r / ?t) rs)))"
          using *(1) False xs(1) t v avg q_only_shares [OF t(1) NO_CHANGE *(5) len]
          by (simp add: soc_distribute_def rated valid_Fin fsum_Fin Let_def is_no_change_def clamp_opt_def none del: map_map fdiv.simps)
        then show ?thesis using planned t(1) by (simp add: len sum_ratios)
      next
        case (Val x)
        then obtain p where p: "p_target cmd = Val (Fin p)" using *(4) by (auto simp: is_finite_iff)
        obtain ws where ws: "rmap (p_weight ?sb (effective_p cmd 0 > 0) (Fin ?avg)) (map fin_reading xs) = Inr (map Fin ws)"
          "length ws = length xs"
          unfolding unlimited_def using p_weights_Fin by blast
        show ?thesis
        proof (cases "sum_list ws \<le> 0")
          case True
          then show ?thesis
            using *(1) False xs(1) t v avg ws(1) fallback(2) p
            by (simp add: soc_distribute_def rated valid_Fin fsum_Fin Let_def is_no_change_def del: map_map fdiv.simps)
        next
          case False
          then have u: "sum_list ws \<noteq> 0" by auto
          have "soc_distribute ?sb cmd ds = Inr (dict_of (shares_by cmd ds (map (\<lambda>w. w / sum_list ws) ws) (map (\<lambda>r. r / ?t) rs)))"
            using *(1) False xs t v avg ws p weighted_shares [OF t(1) u p *(5) _ len]
            by (simp add: soc_distribute_def rated valid_Fin fsum_Fin Let_def is_no_change_def clamp_opt_def none
                del: map_map fdiv.simps)
          then show ?thesis using planned t(1) u ws(2) xs(2) by (simp add: len sum_ratios)
        qed
      qed
    qed
  qed
qed

definition demo_device :: "string \<Rightarrow> int \<Rightarrow> int \<Rightarrow> device_snapshot" where
  "demo_device n rated soc = \<lparr>ds_id = n, ds_metadata = [(''rated_p'', PyInt rated)], ds_latest = [],
     ds_capabilities = [(''soc_readable'', [(''soc'', PyInt soc)])]\<rparr>"

definition demo_balancing :: soc_balancing where
  "demo_balancing = \<lparr>sb_rated_key = ''rated_p'', sb_soc_capability = ''soc_readable'', sb_soc_slot = ''soc'',
     sb_gain = Fin 2, sb_max_p = None, sb_max_q = None, sb_soc_source = None\<rparr>"

lemmas demo_eval = demo_device_def demo_balancing_def unlimited_def soc_ok_def rated_ok_def rated_of_def
  read_soc_def get_capability_value_def dict_get_or_def

text \<open>
  The proportional distributor loses nothing: for devices with finite rated powers it returns one
  command per device, in the order of the devices, whose set-points add up to the system command on
  each axis, and leaves an axis at \<open>NO_CHANGE\<close> alone on every device; also when the rated
  powers do not add up to more than 0.
\<close>

theorem proportional_conserves:
  assumes "ds \<noteq> []" "distinct (map ds_id ds)" "list_all (rated_ok key) ds"
    and "finite_axis (p_target cmd)" "finite_axis (q_target cmd)"
  shows "\<exists>r. proportional_distribute key cmd ds = Inr r \<and> map fst r = map ds_id ds \<and> faithful_split cmd r"
  by (rule proportional.splits [OF assms])

theorem proportional_conserves_witness:
  "\<exists>r. proportional_distribute ''rated_p'' (mk_command 90 0) [demo_device ''a'' 100 60, demo_device ''b'' 200 40] = Inr r
    \<and> faithful_split (mk_command 90 0) r"
  using proportional_conserves [of "[demo_device ''a'' 100 60, demo_device ''b'' 200 40]" "''rated_p''" "mk_command 90 0"]
  by (auto simp: demo_eval)

text \<open>
  So does the SOC-balancing distributor without limits per device, whatever the states of charge
  and the gain, through each of its fallbacks: P is split by the SOC weights and Q by the
  rated powers, and both add up to the system command.
\<close>

theorem soc_balancing_conserves:
  assumes "ds \<noteq> []" "distinct (map ds_id ds)" "list_all (soc_ok (unlimited sb g)) ds"
    and "finite_axis (p_target cmd)" "finite_axis (q_target cmd)"
  shows "\<exists>r. soc_distribute (unlimited sb g) cmd ds = Inr r \<and> map fst r = map ds_id ds \<and> faithful_split cmd r"
  by (rule balanced.splits [OF assms])

theorem soc_balancing_conserves_witness:
  "\<exists>r. soc_distribute (unlimited demo_balancing 2) (mk_command 90 30) [demo_device ''a'' 100 60, demo_device ''b'' 200 40] = Inr r
    \<and> faithful_split (mk_command 90 30) r"
  using soc_balancing_conserves [of "[demo_device ''a'' 100 60, demo_device ''b'' 200 40]" demo_balancing 2 "mk_command 90 30"]
  by (auto simp: demo_eval)

text \<open>
  The SOC weights balance: of two devices of the same rated power, the one with the higher state
  of charge never gets the smaller weight when discharging, nor the larger one when charging.
\<close>

theorem soc_weights_balance:
  assumes "0 \<le> g" "0 \<le> r" "s1 \<le> s2"
    and "p_weight (sb\<lparr>sb_gain := Fin g\<rparr>) discharging (Fin avg) (Some (Fin s1), Fin r) = Inr (Fin w1)"
    and "p_weight (sb\<lparr>sb_gain := Fin g\<rparr>) discharging (Fin avg) (Some (Fin s2), Fin r) = Inr (Fin w2)"
  shows "if discharging then w1 \<le> w2 else w2 \<le> w1"
proof -
  have d: "g * ((s1 - avg) / 100) \<le> g * ((s2 - avg) / 100)"
    using assms(1,3) by (intro mult_left_mono divide_right_mono) auto
  show ?thesis
    using assms(2,4,5) d by (auto simp: p_weight_def simp del: times_divide_eq_right intro!: mult_left_mono)
qed

theorem soc_weights_balance_witness:
  "p_weight (demo_balancing\<lparr>sb_gain := Fin 2\<rparr>) True (Fin 50) (Some (Fin 40), Fin 100) = Inr (Fin 80)
   \<and> p_weight (demo_balancing\<lparr>sb_gain := Fin 2\<rparr>) True (Fin 50) (Some (Fin 60), Fin 100) = Inr (Fin 120)
   \<and> (80 :: rat) \<le> 120"
proof -
  have "p_weight (demo_balancing\<lparr>sb_gain := Fin 2\<rparr>) True (Fin 50) (Some (Fin 40), Fin 100) = Inr (Fin 80)"
    "p_weight (demo_balancing\<lparr>sb_gain := Fin 2\<rparr>) True (Fin 50) (Some (Fin 60), Fin 100) = Inr (Fin 120)"
    by (simp_all add: p_weight_def)
  with soc_weights_balance [OF _ _ _ this] show ?thesis by simp
qed

end
