(* ===== verification/Device_Registry.thy ===== *)
theory Device_Registry
  imports Csp_Prelude "HOL-Library.List_Lexorder" "HOL-Library.Char_ord"
begin

text \<open>
  \<open>csp_lib/integration/registry.py\<close>: the index of the devices by id, trait and capability. A device
  is an object named by a number; its own state, which changes outside the registry, is read from a
  store. A Python set is a list without duplicates; \<open>sorted\<close> is the library's \<open>sort\<close> on strings.
  Observers are numbers, what they are told is returned.
\<close>

record device =
  dev_id :: string
  dev_protected :: bool
  dev_responsive :: bool
  dev_capabilities :: "(string \<times> (string \<times> string) list) list"

type_synonym device_store = "nat \<Rightarrow> device"

definition has_capability :: "device \<Rightarrow> string \<Rightarrow> bool" where
  "has_capability d cap = (dict_get (dev_capabilities d) cap \<noteq> None)"

definition resolve_point :: "device \<Rightarrow> string \<Rightarrow> string \<Rightarrow> string res" where
  "resolve_point d cap slot =
     (case dict_get (dev_capabilities d) cap of None \<Rightarrow> Inl ConfigurationError
      | Some binding \<Rightarrow> (case dict_get binding slot of None \<Rightarrow> Inl KeyError | Some point \<Rightarrow> Inr point))"

record registry =
  rg_devices :: "(string \<times> nat) list"
  rg_device_traits :: "(string \<times> string list) list"
  rg_trait_devices :: "(string \<times> string list) list"
  rg_metadata :: "(string \<times> (string \<times> pyval) list) list"
  rg_status_observers :: "nat list"
  rg_last_responsive :: "(string \<times> bool) list"
  rg_unregister_observers :: "nat list"

definition registry_init :: registry where
  "registry_init = \<lparr>rg_devices = [], rg_device_traits = [], rg_trait_devices = [], rg_metadata = [],
     rg_status_observers = [], rg_last_responsive = [], rg_unregister_observers = []\<rparr>"

definition set_add :: "'a \<Rightarrow> 'a list \<Rightarrow> 'a list" where
  "set_add x xs = (if x \<in> set xs then xs else xs @ [x])"

definition traits_of :: "registry \<Rightarrow> string \<Rightarrow> string list" where
  "traits_of rg d = dict_get_or (rg_device_traits rg) d []"

definition devices_of :: "registry \<Rightarrow> string \<Rightarrow> string list" where
  "devices_of rg t = dict_get_or (rg_trait_devices rg) t []"

section \<open>Index maintenance\<close>

definition add_trait_index :: "string \<Rightarrow> string \<Rightarrow> registry \<Rightarrow> registry" where
  "add_trait_index d t rg =
     rg\<lparr>rg_device_traits := dict_set d (set_add t (traits_of rg d)) (rg_device_traits rg),
        rg_trait_devices := dict_set t (set_add d (devices_of rg t)) (rg_trait_devices rg)\<rparr>"

definition remove_trait_index :: "string \<Rightarrow> string \<Rightarrow> registry \<Rightarrow> registry" where
  "remove_trait_index d t rg =
     (let rg1 = rg\<lparr>rg_device_traits := dict_set d (remove1 t (traits_of rg d)) (rg_device_traits rg)\<rparr>
      in case dict_get (rg_trait_devices rg) t of None \<Rightarrow> rg1
         | Some ds \<Rightarrow> rg1\<lparr>rg_trait_devices :=
             (if remove1 d ds = [] then dict_del t (rg_trait_devices rg)
              else dict_set t (remove1 d ds) (rg_trait_devices rg))\<rparr>)"

definition rg_register :: "registry \<Rightarrow> device_store \<Rightarrow> nat \<Rightarrow> string list \<Rightarrow> (string \<times> pyval) list \<Rightarrow> registry res" where
  "rg_register rg store dev traits metadata =
     (let did = dev_id (store dev) in
      if dict_get (rg_devices rg) did \<noteq> None then Inl ValueError
      else Inr (fold (add_trait_index did) traits
             (rg\<lparr>rg_devices := dict_set did dev (rg_devices rg),
                 rg_device_traits := dict_set did [] (rg_device_traits rg),
                 rg_metadata := dict_set did metadata (rg_metadata rg)\<rparr>)))"

definition cap_trait :: "string \<Rightarrow> string" where
  "cap_trait cap = ''cap:'' @ cap"

definition register_with_capabilities ::
  "registry \<Rightarrow> device_store \<Rightarrow> nat \<Rightarrow> string list \<Rightarrow> (string \<times> pyval) list \<Rightarrow> registry res" where
  "register_with_capabilities rg store dev extra metadata =
     rg_register rg store dev (extra @ map cap_trait (dict_keys (dev_capabilities (store dev)))) metadata"

text \<open>The result names the observers called with the id, in order; an unknown id calls none.\<close>

definition rg_unregister :: "registry \<Rightarrow> string \<Rightarrow> registry \<times> (nat \<times> string) list" where
  "rg_unregister rg did =
     (if dict_get (rg_devices rg) did = None then (rg, [])
      else let rg1 = fold (remove_trait_index did) (traits_of rg did) rg
           in (rg1\<lparr>rg_devices := dict_del did (rg_devices rg1),
                   rg_device_traits := dict_del did (rg_device_traits rg1),
                   rg_metadata := dict_del did (rg_metadata rg1),
                   rg_last_responsive := dict_del did (rg_last_responsive rg1)\<rparr>,
               map (\<lambda>cb. (cb, did)) (rg_unregister_observers rg)))"

definition rg_add_trait :: "registry \<Rightarrow> string \<Rightarrow> string \<Rightarrow> registry res" where
  "rg_add_trait rg did t =
     (if dict_get (rg_devices rg) did = None then Inl KeyError else Inr (add_trait_index did t rg))"

definition rg_remove_trait :: "registry \<Rightarrow> string \<Rightarrow> string \<Rightarrow> registry res" where
  "rg_remove_trait rg did t =
     (if dict_get (rg_devices rg) did = None then Inl KeyError else Inr (remove_trait_index did t rg))"

definition refresh_capability_traits :: "registry \<Rightarrow> device_store \<Rightarrow> string \<Rightarrow> registry res" where
  "refresh_capability_traits rg store did =
     (case dict_get (rg_devices rg) did of None \<Rightarrow> Inl KeyError
      | Some dev \<Rightarrow>
        let current = filter (\<lambda>t. take 4 t = ''cap:'') (traits_of rg did);
            desired = map cap_trait (dict_keys (dev_capabilities (store dev)));
            rg1 = fold (remove_trait_index did) (filter (\<lambda>t. t \<notin> set desired) current) rg
        in Inr (fold (add_trait_index did) (filter (\<lambda>t. t \<notin> set current) desired) rg1))"

section \<open>Queries\<close>

definition get_device :: "registry \<Rightarrow> string \<Rightarrow> nat option" where
  "get_device rg did = dict_get (rg_devices rg) did"

definition device_at :: "registry \<Rightarrow> string \<Rightarrow> nat res" where
  "device_at rg did = (case dict_get (rg_devices rg) did of None \<Rightarrow> Inl KeyError | Some d \<Rightarrow> Inr d)"

definition get_devices_by_trait :: "registry \<Rightarrow> string \<Rightarrow> nat list res" where
  "get_devices_by_trait rg t = rmap (device_at rg) (sort (devices_of rg t))"

definition get_responsive_devices_by_trait :: "registry \<Rightarrow> device_store \<Rightarrow> string \<Rightarrow> nat list res" where
  "get_responsive_devices_by_trait rg store t =
     rbind (get_devices_by_trait rg t) (\<lambda>ds. Inr (filter (\<lambda>d. dev_responsive (store d)) ds))"

definition get_first_responsive_device_by_trait :: "registry \<Rightarrow> device_store \<Rightarrow> string \<Rightarrow> nat option res" where
  "get_first_responsive_device_by_trait rg store t =
     rbind (get_responsive_devices_by_trait rg store t) (\<lambda>ds. Inr (case ds of [] \<Rightarrow> None | d # _ \<Rightarrow> Some d))"

definition get_metadata :: "registry \<Rightarrow> string \<Rightarrow> (string \<times> pyval) list" where
  "get_metadata rg did = dict_get_or (rg_metadata rg) did []"

definition all_devices :: "registry \<Rightarrow> nat list res" where
  "all_devices rg = rmap (device_at rg) (sort (dict_keys (rg_devices rg)))"

definition all_traits :: "registry \<Rightarrow> string list" where
  "all_traits rg = sort (dict_keys (rg_trait_devices rg))"

definition get_devices_with_capability :: "registry \<Rightarrow> device_store \<Rightarrow> string \<Rightarrow> nat list" where
  "get_devices_with_capability rg store cap =
     sort_key (\<lambda>d. dev_id (store d)) (filter (\<lambda>d. has_capability (store d) cap) (map snd (rg_devices rg)))"

definition get_responsive_devices_with_capability :: "registry \<Rightarrow> device_store \<Rightarrow> string \<Rightarrow> nat list" where
  "get_responsive_devices_with_capability rg store cap =
     filter (\<lambda>d. dev_responsive (store d)) (get_devices_with_capability rg store cap)"

record capability_requirement =
  cr_capability :: string
  cr_min_count :: int
  cr_trait :: "string option"

text \<open>An unmet requirement with the number of devices found (the source formats it as text).\<close>

definition validate_capabilities ::
  "registry \<Rightarrow> device_store \<Rightarrow> capability_requirement list \<Rightarrow> (capability_requirement \<times> nat) list res" where
  "validate_capabilities rg store reqs =
     rbind (rmap (\<lambda>r. rbind
         (case cr_trait r of
            Some t \<Rightarrow> if t = [] then Inr (get_devices_with_capability rg store (cr_capability r))
              else rbind (get_devices_by_trait rg t) (\<lambda>ds. Inr (filter (\<lambda>d. has_capability (store d) (cr_capability r)) ds))
          | None \<Rightarrow> Inr (get_devices_with_capability rg store (cr_capability r)))
         (\<lambda>ds. Inr (r, length ds))) reqs)
       (\<lambda>found. Inr (filter (\<lambda>(r, n). int n < cr_min_count r) found))"

definition get_capability_map :: "registry \<Rightarrow> device_store \<Rightarrow> (string \<times> string list) list" where
  "get_capability_map rg store =
     map (\<lambda>(c, ids). (c, sort ids))
       (fold (\<lambda>(did, dev) acc0. fold (\<lambda>cap result. dict_set cap (dict_get_or result cap [] @ [did]) result)
            (dict_keys (dev_capabilities (store dev))) acc0) (rg_devices rg) [])"

text \<open>Total, responsive, their ratio, and the details.\<close>

definition capability_health ::
  "registry \<Rightarrow> device_store \<Rightarrow> string \<Rightarrow> nat \<times> nat \<times> rat \<times> (string \<times> bool) list" where
  "capability_health rg store cap =
     (let ds = get_devices_with_capability rg store cap;
          n = length (filter (\<lambda>d. dev_responsive (store d)) ds)
      in (length ds, n, if length ds > 0 then of_nat n / of_nat (length ds) else 0,
          map (\<lambda>d. (dev_id (store d), dev_responsive (store d))) ds))"

section \<open>Status changes\<close>

definition on_status_change :: "registry \<Rightarrow> nat \<Rightarrow> registry" where
  "on_status_change rg cb = rg\<lparr>rg_status_observers := rg_status_observers rg @ [cb]\<rparr>"

definition remove_status_observer :: "registry \<Rightarrow> nat \<Rightarrow> registry" where
  "remove_status_observer rg cb = rg\<lparr>rg_status_observers := remove1 cb (rg_status_observers rg)\<rparr>"

definition on_unregister :: "registry \<Rightarrow> nat \<Rightarrow> registry" where
  "on_unregister rg cb = rg\<lparr>rg_unregister_observers := rg_unregister_observers rg @ [cb]\<rparr>"

definition remove_unregister_observer :: "registry \<Rightarrow> nat \<Rightarrow> registry" where
  "remove_unregister_observer rg cb = rg\<lparr>rg_unregister_observers := remove1 cb (rg_unregister_observers rg)\<rparr>"

definition notify_status :: "registry \<Rightarrow> device_store \<Rightarrow> string \<Rightarrow> registry \<times> (nat \<times> string \<times> bool) list" where
  "notify_status rg store did =
     (case dict_get (rg_devices rg) did of None \<Rightarrow> (rg, [])
      | Some dev \<Rightarrow>
        let current = dev_responsive (store dev);
            prev = dict_get (rg_last_responsive rg) did;
            rg' = rg\<lparr>rg_last_responsive := dict_set did current (rg_last_responsive rg)\<rparr>
        in (rg', if prev \<noteq> None \<and> prev \<noteq> Some current
                 then map (\<lambda>cb. (cb, did, current)) (rg_status_observers rg) else []))"

section \<open>The two indices agree\<close>

datatype registry_op =
    RgRegister device_store nat "string list" "(string \<times> pyval) list"
  | RgRegisterCaps device_store nat "string list" "(string \<times> pyval) list"
  | RgUnregister string | RgAddTrait string string | RgRemoveTrait string string
  | RgRefresh device_store string | RgNotify device_store string | RgObserve nat

definition or_same :: "'a \<Rightarrow> 'a res \<Rightarrow> 'a" where
  "or_same x r = (case r of Inl e \<Rightarrow> x | Inr y \<Rightarrow> y)"

fun registry_step :: "registry_op \<Rightarrow> registry \<Rightarrow> registry" where
  "registry_step (RgRegister st dev ts md) rg = or_same rg (rg_register rg st dev ts md)"
| "registry_step (RgRegisterCaps st dev ts md) rg = or_same rg (register_with_capabilities rg st dev ts md)"
| "registry_step (RgUnregister d) rg = fst (rg_unregister rg d)"
| "registry_step (RgAddTrait d t) rg = or_same rg (rg_add_trait rg d t)"
| "registry_step (RgRemoveTrait d t) rg = or_same rg (rg_remove_trait rg d t)"
| "registry_step (RgRefresh st d) rg = or_same rg (refresh_capability_traits rg st d)"
| "registry_step (RgNotify st d) rg = fst (notify_status rg st d)"
| "registry_step (RgObserve cb) rg = on_status_change rg cb"

definition registry_inv :: "registry \<Rightarrow> bool" where
  "registry_inv rg \<longleftrightarrow>
     fst ` set (rg_device_traits rg) = fst ` set (rg_devices rg)
     \<and> (\<forall>d t. d \<in> set (devices_of rg t) \<longleftrightarrow> t \<in> set (traits_of rg d))
     \<and> (\<forall>t. dict_get (rg_trait_devices rg) t \<noteq> Some [])
     \<and> (\<forall>t. distinct (devices_of rg t)) \<and> (\<forall>d. distinct (traits_of rg d))
     \<and> fst ` set (rg_last_responsive rg) \<subseteq> fst ` set (rg_devices rg)"

lemma set_add_simps [simp]: "set (set_add x xs) = insert x (set xs)" "distinct (set_add x xs) = distinct xs"
  "set_add x xs \<noteq> []"
  by (auto simp: set_add_def)

lemma add_trait_index_simps [simp]:
  "traits_of (add_trait_index d t rg) e = (if e = d then set_add t (traits_of rg d) else traits_of rg e)"
  "devices_of (add_trait_index d t rg) u = (if u = t then set_add d (devices_of rg t) else devices_of rg u)"
  "rg_devices (add_trait_index d t rg) = rg_devices rg"
  "rg_last_responsive (add_trait_index d t rg) = rg_last_responsive rg"
  by (auto simp: add_trait_index_def traits_of_def devices_of_def)

lemma remove_trait_index_simps [simp]:
  "traits_of (remove_trait_index d t rg) e = (if e = d then remove1 t (traits_of rg d) else traits_of rg e)"
  "devices_of (remove_trait_index d t rg) u = (if u = t then remove1 d (devices_of rg t) else devices_of rg u)"
  "rg_devices (remove_trait_index d t rg) = rg_devices rg"
  "rg_last_responsive (remove_trait_index d t rg) = rg_last_responsive rg"
  by (auto simp: remove_trait_index_def traits_of_def devices_of_def dict_get_or_def Let_def delete_conv' update_conv'
      split: option.splits)

lemma add_trait_index_inv:
  assumes "registry_inv rg" "d \<in> fst ` set (rg_devices rg)"
  shows "registry_inv (add_trait_index d t rg)"
proof -
  have "fst ` set (rg_device_traits (add_trait_index d t rg)) = fst ` set (rg_devices rg)"
    using assms by (auto simp: add_trait_index_def registry_inv_def)
  moreover have "dict_get (rg_trait_devices (add_trait_index d t rg)) u \<noteq> Some []" for u
    using assms by (auto simp: add_trait_index_def registry_inv_def map_of_dict_set)
  ultimately show ?thesis using assms by (simp add: registry_inv_def)
qed

lemma remove_trait_index_inv:
  assumes "registry_inv rg" "d \<in> fst ` set (rg_devices rg)"
  shows "registry_inv (remove_trait_index d t rg)"
proof -
  have "fst ` set (rg_device_traits (remove_trait_index d t rg)) = fst ` set (rg_devices rg)"
    using assms by (auto simp: remove_trait_index_def registry_inv_def Let_def split: option.split)
  moreover have "dict_get (rg_trait_devices (remove_trait_index d t rg)) u \<noteq> Some []" for u
    using assms
    by (auto simp: remove_trait_index_def registry_inv_def Let_def update_conv' delete_conv' split: option.split)
  ultimately show ?thesis using assms by (auto simp: registry_inv_def)
qed

lemma fold_index_inv:
  assumes "registry_inv rg" "d \<in> fst ` set (rg_devices rg)"
  shows "registry_inv (fold (add_trait_index d) ts rg) \<and> rg_devices (fold (add_trait_index d) ts rg) = rg_devices rg"
    and "registry_inv (fold (remove_trait_index d) ts rg) \<and> rg_devices (fold (remove_trait_index d) ts rg) = rg_devices rg"
  using assms by (induction ts arbitrary: rg) (auto simp: add_trait_index_inv remove_trait_index_inv)

lemma fold_remove_traits:
  "distinct (traits_of rg d) \<Longrightarrow> set (traits_of (fold (remove_trait_index d) ts rg) d) = set (traits_of rg d) - set ts"
proof (induction ts arbitrary: rg)
  case (Cons t ts)
  then show ?case by (auto simp: set_remove1_eq)
qed simp

lemma register_inv: "registry_inv rg \<Longrightarrow> rg_register rg st dev ts md = Inr rg' \<Longrightarrow> registry_inv rg'"
proof -
  let ?did = "dev_id (st dev)"
  let ?rg1 = "rg\<lparr>rg_devices := dict_set ?did dev (rg_devices rg),
                 rg_device_traits := dict_set ?did [] (rg_device_traits rg),
                 rg_metadata := dict_set ?did md (rg_metadata rg)\<rparr>"
  assume inv: "registry_inv rg" and r: "rg_register rg st dev ts md = Inr rg'"
  then have new: "?did \<notin> fst ` set (rg_devices rg)" and rg': "rg' = fold (add_trait_index ?did) ts ?rg1"
    by (auto simp: rg_register_def Let_def map_of_eq_None_iff split: if_splits)
  have same: "traits_of ?rg1 d = (if d = ?did then [] else traits_of rg d)" "devices_of ?rg1 t = devices_of rg t" for d t
    by (simp_all add: traits_of_def devices_of_def)
  have "?did \<notin> fst ` set (rg_device_traits rg)" using inv new by (simp add: registry_inv_def)
  then have "traits_of rg ?did = []"
    by (auto simp: traits_of_def dict_get_or_def split: option.split dest: map_of_SomeD intro: rev_image_eqI)
  then have "registry_inv ?rg1"
    using inv unfolding registry_inv_def same by auto
  then show "registry_inv rg'"
    unfolding rg' by (intro fold_index_inv(1) [THEN conjunct1]) simp_all
qed

lemma registry_inv_keys:
  assumes "registry_inv rg"
  shows "fst ` set (rg_last_responsive rg) \<subseteq> fst ` set (rg_devices rg)"
    and "fst ` set (rg_device_traits rg) = fst ` set (rg_devices rg)"
  using assms unfolding registry_inv_def by - (elim conjE, assumption)+

lemma unregister_simps:
  assumes "registry_inv rg"
  shows "traits_of (fst (rg_unregister rg d)) e = (if e = d then [] else traits_of rg e)"
    and "devices_of (fst (rg_unregister rg d)) t = removeAll d (devices_of rg t)"
    and "rg_devices (fst (rg_unregister rg d)) = dict_del d (rg_devices rg)"
    and "registry_inv (fst (rg_unregister rg d))"
proof -
  let ?rg1 = "fold (remove_trait_index d) (traits_of rg d) rg" and ?rg2 = "fst (rg_unregister rg d)"
  have dis: "distinct (traits_of rg d)" "distinct (devices_of rg t)" for t using assms by (auto simp: registry_inv_def)
  have fold_t: "traits_of (fold (remove_trait_index d) ts r) e = traits_of r e" if "e \<noteq> d" for ts r e
    using that by (induction ts arbitrary: r) auto
  have fold_d: "devices_of (fold (remove_trait_index d) ts r) t = (if t \<in> set ts then removeAll d (devices_of r t) else devices_of r t)"
    if "distinct (devices_of r t)" for ts r and t :: string
    using that
  proof (induction ts arbitrary: r)
    case (Cons u ts)
    have "distinct (devices_of (remove_trait_index d u r) t)" using Cons.prems by (auto simp: distinct_remove1)
    from Cons.IH [OF this] Cons.prems show ?case by (auto simp: distinct_remove1_removeAll)
  qed simp
  have nil: "traits_of ?rg1 d = []"
    using fold_remove_traits [OF dis(1), of "traits_of rg d"] by simp
  have unknown: "traits_of rg d = []" "\<forall>t. d \<notin> set (devices_of rg t)" if "dict_get (rg_devices rg) d = None"
  proof -
    have "dict_get (rg_device_traits rg) d = None"
      using assms that by (simp add: registry_inv_def map_of_eq_None_iff)
    then show "traits_of rg d = []" by (simp add: traits_of_def dict_get_or_def)
    then show "\<forall>t. d \<notin> set (devices_of rg t)" using assms by (simp add: registry_inv_def)
  qed
  have t: "traits_of ?rg2 e = (if e = d then [] else traits_of rg e)" for e
    using unknown fold_t [of e "traits_of rg d" rg] by (simp add: rg_unregister_def Let_def traits_of_def)
  then show "traits_of ?rg2 e = (if e = d then [] else traits_of rg e)" .
  have mem: "t \<in> set (traits_of rg d) \<longleftrightarrow> d \<in> set (devices_of rg t)" for t
    using assms by (simp add: registry_inv_def)
  have v: "devices_of ?rg2 t = removeAll d (devices_of rg t)" for t
    using unknown fold_d [OF dis(2) [of t], of "traits_of rg d"] mem [of t]
    by (auto simp: rg_unregister_def Let_def devices_of_def)
  then show "devices_of ?rg2 t = removeAll d (devices_of rg t)" .
  have "rg_devices ?rg2 = dict_del d (rg_devices rg) \<and> registry_inv ?rg2"
  proof (cases "dict_get (rg_devices rg) d")
    case None
    then have "dict_del d (rg_devices rg) = rg_devices rg" by (simp add: map_of_eq_None_iff)
    then show ?thesis
      using None assms by (simp_all add: rg_unregister_def)
  next
    case (Some dev)
    then have d: "d \<in> fst ` set (rg_devices rg)" by (auto dest: map_of_SomeD intro: rev_image_eqI)
    note inv1 = fold_index_inv(2) [OF assms d, of "traits_of rg d"]
    then have dev: "rg_devices ?rg2 = dict_del d (rg_devices rg)"
      using Some by (simp add: rg_unregister_def Let_def)
    have parts: "rg_device_traits ?rg2 = dict_del d (rg_device_traits ?rg1)" "rg_trait_devices ?rg2 = rg_trait_devices ?rg1"
      "rg_last_responsive ?rg2 = dict_del d (rg_last_responsive ?rg1)"
      using Some by (simp_all add: rg_unregister_def Let_def)
    have dict_del_image: "fst ` set (dict_del d xs) = fst ` set xs - {d}" for xs :: "(string \<times> 'x) list"
      by (metis delete_keys list.set_map set_removeAll)
    have "registry_inv ?rg2"
      unfolding registry_inv_def
    proof (intro conjI)
      have "fst ` set (rg_last_responsive ?rg1) \<subseteq> fst ` set (rg_devices rg)"
        and keys: "fst ` set (rg_device_traits ?rg1) = fst ` set (rg_devices rg)"
        using registry_inv_keys [OF inv1 [THEN conjunct1]] inv1 [THEN conjunct2] by (simp_all only:)
      then show "fst ` set (rg_last_responsive ?rg2) \<subseteq> fst ` set (rg_devices ?rg2)"
        unfolding parts dev dict_del_image by (intro Diff_mono) simp_all
      show "fst ` set (rg_device_traits ?rg2) = fst ` set (rg_devices ?rg2)"
        unfolding parts dev dict_del_image keys ..
      show "\<forall>t. dict_get (rg_trait_devices ?rg2) t \<noteq> Some []"
        using inv1 by (simp add: parts registry_inv_def)
    qed (use assms in \<open>auto simp: t v registry_inv_def distinct_removeAll\<close>)
    with dev show ?thesis by blast
  qed
  then show "rg_devices ?rg2 = dict_del d (rg_devices rg)" "registry_inv ?rg2" by simp_all
qed

lemma registry_inv_observers [simp]: "registry_inv (rg\<lparr>rg_status_observers := x\<rparr>) = registry_inv rg"
  by (simp add: registry_inv_def traits_of_def devices_of_def)

lemma registry_inv_step: "registry_inv rg \<Longrightarrow> registry_inv (registry_step e rg)"
proof (cases e)
  case (RgRefresh st d)
  assume inv: "registry_inv rg"
  show ?thesis
  proof (cases "dict_get (rg_devices rg) d")
    case (Some dev)
    then have d: "d \<in> fst ` set (rg_devices rg)" by (auto dest: map_of_SomeD intro: rev_image_eqI)
    have "registry_inv (fold (add_trait_index d) us (fold (remove_trait_index d) ts rg))" for us ts
      using fold_index_inv(2) [OF inv d, of ts] d by (intro fold_index_inv(1) [THEN conjunct1]) auto
    then show ?thesis using RgRefresh Some by (simp add: refresh_capability_traits_def or_same_def Let_def)
  qed (use inv RgRefresh in \<open>simp add: refresh_capability_traits_def or_same_def\<close>)
next
  case (RgNotify st d)
  assume inv: "registry_inv rg"
  then show ?thesis
    using RgNotify dict_keys_map_of [of d "rg_devices rg"]
    by (auto simp: notify_status_def Let_def registry_inv_def traits_of_def devices_of_def split: option.splits)
qed (auto simp: or_same_def register_with_capabilities_def rg_add_trait_def rg_remove_trait_def on_status_change_def
    unregister_simps(4)
    split: sum.splits if_splits dest: register_inv dest!: map_of_SomeD
    intro!: add_trait_index_inv remove_trait_index_inv intro: rev_image_eqI)

interpretation registry: step_invariant registry_step "\<lambda>_. True" registry_inv
  by unfold_locales (rule registry_inv_step)

lemma registry_inv_init: "registry_inv registry_init"
  by (simp add: registry_inv_def registry_init_def traits_of_def devices_of_def)

text \<open>
  C10. In every state the registry can reach, the lookup by trait never fails on a stale id and returns
  exactly the registered devices that carry the trait, sorted by id.
\<close>

theorem trait_lookup_exact:
  assumes "rg = run_steps registry_step ops registry_init"
  shows "\<exists>ids ds. get_devices_by_trait rg t = Inr ds \<and> sorted ids \<and> distinct ids
    \<and> map (get_device rg) ids = map Some ds \<and> (\<forall>d. d \<in> set ids \<longleftrightarrow> t \<in> set (traits_of rg d))"
proof -
  have inv: "registry_inv rg"
    unfolding assms by (rule registry.always [OF registry_inv_init]) (simp add: list_all_iff)
  have known: "\<exists>x. device_at rg d = Inr x \<and> get_device rg d = Some x" if "d \<in> set (devices_of rg t)" for d
  proof -
    have "traits_of rg d \<noteq> []" using inv that by (auto simp: registry_inv_def)
    then have "d \<in> fst ` set (rg_device_traits rg)"
      by (auto simp: traits_of_def dict_get_or_def split: option.splits dest: map_of_SomeD intro: rev_image_eqI)
    then have "dict_get (rg_devices rg) d \<noteq> None" using inv by (simp add: registry_inv_def map_of_eq_None_iff)
    then show ?thesis by (auto simp: device_at_def get_device_def)
  qed
  let ?ids = "sort (devices_of rg t)"
  have "rmap (device_at rg) ids = Inr (map (\<lambda>d. the (get_device rg d)) ids)
      \<and> map (get_device rg) ids = map Some (map (\<lambda>d. the (get_device rg d)) ids)"
    if "set ids \<subseteq> set (devices_of rg t)" for ids
    using that
  proof (induction ids)
    case (Cons d ids)
    then show ?case using known [of d] by auto
  qed simp
  from this [of ?ids] show ?thesis
    using inv
    by (intro exI [of _ ?ids] exI [of _ "map (\<lambda>d. the (get_device rg d)) ?ids"])
      (simp add: get_devices_by_trait_def registry_inv_def)
qed

definition demo_store :: device_store where
  "demo_store i = \<lparr>dev_id = (if i = 0 then ''a'' else ''b''), dev_protected = False, dev_responsive = True,
     dev_capabilities = [(''pq'', [(''p_setpoint'', ''p_set'')])]\<rparr>"

theorem trait_lookup_exact_witness:
  "\<exists>(ids :: string list) ds. get_devices_by_trait (run_steps registry_step [RgRegister demo_store 1 [''pcs''] [], RgRegister demo_store 0 [''pcs''] []]
     registry_init) ''pcs'' = Inr ds \<and> sorted ids \<and> length ds = length ids"
proof -
  define rg where "rg = run_steps registry_step [RgRegister demo_store 1 [''pcs''] [], RgRegister demo_store 0 [''pcs''] []] registry_init"
  obtain ids ds where *: "get_devices_by_trait rg ''pcs'' = Inr ds" "sorted ids" "map (get_device rg) ids = map Some ds"
    using trait_lookup_exact [OF rg_def, of "''pcs''"] by blast
  from *(3) have "length ds = length ids" by (metis length_map)
  with *(1,2) show ?thesis unfolding rg_def by blast
qed

text \<open>
  Unregistering forgets the device: whatever happened before, afterwards it is in no trait index,
  has no traits, and cannot be looked up, while the traits and the lookup of every other id are as before.
\<close>

theorem unregister_forgets:
  assumes "rg = run_steps registry_step ops registry_init" "rg' = fst (rg_unregister rg d)"
  shows "get_device rg' d = None \<and> traits_of rg' d = [] \<and> (\<forall>t. d \<notin> set (devices_of rg' t))
    \<and> (e \<noteq> d \<longrightarrow> traits_of rg' e = traits_of rg e \<and> get_device rg' e = get_device rg e)"
proof -
  have inv: "registry_inv rg"
    unfolding assms(1) by (rule registry.always [OF registry_inv_init]) (simp add: list_all_iff)
  show ?thesis
    unfolding assms(2) by (simp add: unregister_simps [OF inv] get_device_def delete_conv')
qed

theorem unregister_forgets_witness:
  "get_device (fst (rg_unregister (run_steps registry_step [RgRegister demo_store 1 [''pcs''] []] registry_init) ''b'')) ''b'' = None"
  using unregister_forgets [OF refl refl, of "[RgRegister demo_store 1 [''pcs''] []]" "''b''"] by simp

end
