(* ===== verification/Command_Router.thy ===== *)
theory Command_Router
  imports Device_Registry Command_Core
begin

text \<open>
  \<open>csp_lib/integration/command_router.py\<close>: from a command to device writes, through explicit
  mappings (one device, or every responsive device of a trait) and capability mappings (one device, a
  trait, or every device with the capability). Device writes are a parameter: \<open>outcome n\<close> tells
  whether the n-th write of the run succeeds or raises \<open>DeviceError\<close>. The transforms of the mappings are
  functions that may raise. An exception the router does not catch ends the run.
\<close>

text \<open>A value on its way to a device: the sentinel, or a value.\<close>

datatype wvalue = WNoChange | WVal pyval

record command_mapping =
  cm_field :: string
  cm_point :: string
  cm_device :: "string option"
  cm_trait :: "string option"
  cm_transform :: "(wvalue \<Rightarrow> wvalue res) option"

record capability_mapping =
  cap_field :: string
  cap_name :: string
  cap_slot :: string
  cap_device :: "string option"
  cap_scope :: "string option"
  cap_transform :: "(wvalue \<Rightarrow> wvalue res) option"

text \<open>\<open>__post_init__\<close> of the two mappings.\<close>

definition command_mapping_valid :: "command_mapping \<Rightarrow> bool" where
  "command_mapping_valid m = ((cm_device m = None) \<noteq> (cm_trait m = None))"

definition capability_mapping_valid :: "string list \<Rightarrow> capability_mapping \<Rightarrow> bool" where
  "capability_mapping_valid write_slots m =
     (\<not> (cap_device m \<noteq> None \<and> cap_scope m \<noteq> None) \<and> cap_slot m \<in> set write_slots)"

text \<open>The router's table of last written values, the attempted writes, and an uncaught exception.\<close>

record router =
  rt_last_written :: "(string \<times> (string \<times> wvalue) list) list"
  rt_attempts :: "(nat \<times> string \<times> wvalue) list"
  rt_raised :: "py_exc option"

record router_env =
  re_registry :: registry
  re_store :: device_store
  re_outcome :: "nat \<Rightarrow> bool"

definition router_init :: router where
  "router_init = \<lparr>rt_last_written = [], rt_attempts = [], rt_raised = None\<rparr>"

text \<open>\<open>getattr(command, field, None)\<close> for the fields of a command.\<close>

definition command_field :: "command \<Rightarrow> string \<Rightarrow> wvalue option" where
  "command_field cmd f =
     (let of_axis = (\<lambda>a. case a of NO_CHANGE \<Rightarrow> WNoChange | Val x \<Rightarrow> WVal (PyFloat x))
      in if f = ''p_target'' then Some (of_axis (p_target cmd))
         else if f = ''q_target'' then Some (of_axis (q_target cmd))
         else if f = ''is_fallback'' then Some (WVal (PyBool (is_fallback cmd)))
         else None)"

section \<open>Single writes\<close>

definition safe_write :: "router_env \<Rightarrow> nat \<Rightarrow> string \<Rightarrow> wvalue \<Rightarrow> router \<Rightarrow> bool \<times> router" where
  "safe_write env dev point v r =
     (re_outcome env (length (rt_attempts r)), r\<lparr>rt_attempts := rt_attempts r @ [(dev, point, v)]\<rparr>)"

definition record_written :: "string \<Rightarrow> string \<Rightarrow> wvalue \<Rightarrow> router \<Rightarrow> router" where
  "record_written did point v r =
     r\<lparr>rt_last_written := dict_set did (dict_set point v (dict_get_or (rt_last_written r) did [])) (rt_last_written r)\<rparr>"

definition write_and_record :: "router_env \<Rightarrow> nat \<Rightarrow> string \<Rightarrow> string \<Rightarrow> wvalue \<Rightarrow> router \<Rightarrow> bool \<times> router" where
  "write_and_record env dev did point v r =
     (let (ok, r') = safe_write env dev point v r
      in if ok then (True, record_written did point v r') else (False, r'))"

definition try_write_single :: "router_env \<Rightarrow> string \<Rightarrow> string \<Rightarrow> wvalue \<Rightarrow> router \<Rightarrow> bool \<times> router" where
  "try_write_single env did point v r =
     (if v = WNoChange then (False, r)
      else case get_device (re_registry env) did of None \<Rightarrow> (False, r)
      | Some dev \<Rightarrow>
        let d = re_store env dev in
        if dev_protected d then (False, r)
        else if \<not> dev_responsive d then (False, r)
        else write_and_record env dev did point v r)"

text \<open>Once an exception is out, the rest of the run does nothing.\<close>

definition unless_raised :: "(router \<Rightarrow> router) \<Rightarrow> router \<Rightarrow> router" where
  "unless_raised f r = (if rt_raised r \<noteq> None then r else f r)"

definition with_res :: "'a res \<Rightarrow> ('a \<Rightarrow> router \<Rightarrow> router) \<Rightarrow> router \<Rightarrow> router" where
  "with_res x f r = (case x of Inl e \<Rightarrow> r\<lparr>rt_raised := Some e\<rparr> | Inr y \<Rightarrow> f y r)"

definition write_trait_broadcast :: "router_env \<Rightarrow> string \<Rightarrow> string \<Rightarrow> wvalue \<Rightarrow> router \<Rightarrow> router" where
  "write_trait_broadcast env trait point v =
     with_res (get_responsive_devices_by_trait (re_registry env) (re_store env) trait)
       (fold (\<lambda>dev r. let d = re_store env dev in
          if dev_protected d then r else snd (write_and_record env dev (dev_id d) point v r)))"

text \<open>The write to a device whose point the capability resolves.\<close>

definition write_resolved :: "router_env \<Rightarrow> capability_mapping \<Rightarrow> wvalue \<Rightarrow> nat \<Rightarrow> router \<Rightarrow> router" where
  "write_resolved env m v dev =
     unless_raised (\<lambda>r. let d = re_store env dev in
       with_res (resolve_point d (cap_name m) (cap_slot m))
         (\<lambda>point r. snd (write_and_record env dev (dev_id d) point v r)) r)"

definition write_capability_single :: "router_env \<Rightarrow> capability_mapping \<Rightarrow> string \<Rightarrow> wvalue \<Rightarrow> router \<Rightarrow> router" where
  "write_capability_single env m did v r =
     (case get_device (re_registry env) did of None \<Rightarrow> r
      | Some dev \<Rightarrow>
        let d = re_store env dev in
        if dev_protected d then r
        else if \<not> dev_responsive d then r
        else if \<not> has_capability d (cap_name m) then r
        else write_resolved env m v dev r)"

definition write_capability_trait :: "router_env \<Rightarrow> capability_mapping \<Rightarrow> string \<Rightarrow> wvalue \<Rightarrow> router \<Rightarrow> router" where
  "write_capability_trait env m trait v =
     with_res (get_responsive_devices_by_trait (re_registry env) (re_store env) trait)
       (fold (\<lambda>dev r. let d = re_store env dev in
          if dev_protected d then r
          else if \<not> has_capability d (cap_name m) then r
          else write_resolved env m v dev r))"

definition write_capability_auto :: "router_env \<Rightarrow> capability_mapping \<Rightarrow> wvalue \<Rightarrow> router \<Rightarrow> router" where
  "write_capability_auto env m v =
     fold (\<lambda>dev r. if dev_protected (re_store env dev) then r else write_resolved env m v dev r)
       (get_responsive_devices_with_capability (re_registry env) (re_store env) (cap_name m))"

section \<open>Routing\<close>

text \<open>A transform that raises skips its mapping.\<close>

definition transformed :: "(wvalue \<Rightarrow> wvalue res) option \<Rightarrow> wvalue \<Rightarrow> wvalue option" where
  "transformed t v = (case t of None \<Rightarrow> Some v | Some f \<Rightarrow> (case f v of Inl e \<Rightarrow> None | Inr w \<Rightarrow> Some w))"

text \<open>The value a mapping writes: a missing field, \<open>NO_CHANGE\<close> and a failing transform write nothing.\<close>

definition mapping_value :: "command \<Rightarrow> string \<Rightarrow> (wvalue \<Rightarrow> wvalue res) option \<Rightarrow> wvalue option" where
  "mapping_value cmd f t =
     (case command_field cmd f of None \<Rightarrow> None
      | Some v \<Rightarrow> if v = WNoChange then None else transformed t v)"

definition route_mapping :: "router_env \<Rightarrow> command \<Rightarrow> command_mapping \<Rightarrow> router \<Rightarrow> router" where
  "route_mapping env cmd m =
     unless_raised (\<lambda>r. case mapping_value cmd (cm_field m) (cm_transform m) of None \<Rightarrow> r
       | Some v \<Rightarrow> (case cm_device m of
            Some did \<Rightarrow> snd (try_write_single env did (cm_point m) v r)
          | None \<Rightarrow> (case cm_trait m of Some t \<Rightarrow> write_trait_broadcast env t (cm_point m) v r | None \<Rightarrow> r)))"

definition route_capability :: "router_env \<Rightarrow> command \<Rightarrow> capability_mapping \<Rightarrow> router \<Rightarrow> router" where
  "route_capability env cmd m =
     unless_raised (\<lambda>r. case mapping_value cmd (cap_field m) (cap_transform m) of None \<Rightarrow> r
       | Some v \<Rightarrow> (case cap_device m of
            Some did \<Rightarrow> write_capability_single env m did v r
          | None \<Rightarrow> (case cap_scope m of Some t \<Rightarrow> write_capability_trait env m t v r
                    | None \<Rightarrow> write_capability_auto env m v r)))"

definition route :: "router_env \<Rightarrow> command_mapping list \<Rightarrow> capability_mapping list \<Rightarrow> command \<Rightarrow> router \<Rightarrow> router" where
  "route env ms cms cmd r = fold (route_capability env cmd) cms (fold (route_mapping env cmd) ms r)"

definition resolve_capability_targets :: "router_env \<Rightarrow> capability_mapping \<Rightarrow> nat list res" where
  "resolve_capability_targets env m =
     (case cap_device m of
        Some did \<Rightarrow> Inr (case get_device (re_registry env) did of None \<Rightarrow> []
          | Some dev \<Rightarrow> let d = re_store env dev in
              if dev_responsive d \<and> \<not> dev_protected d \<and> has_capability d (cap_name m) then [dev] else [])
      | None \<Rightarrow> (case cap_scope m of
          Some t \<Rightarrow> rbind (get_responsive_devices_by_trait (re_registry env) (re_store env) t)
            (\<lambda>ds. Inr (filter (\<lambda>dev. \<not> dev_protected (re_store env dev) \<and> has_capability (re_store env dev) (cap_name m)) ds))
        | None \<Rightarrow> Inr (filter (\<lambda>dev. \<not> dev_protected (re_store env dev))
            (get_responsive_devices_with_capability (re_registry env) (re_store env) (cap_name m)))))"

definition apply_transform_and_write :: "router_env \<Rightarrow> capability_mapping \<Rightarrow> wvalue \<Rightarrow> nat \<Rightarrow> router \<Rightarrow> router" where
  "apply_transform_and_write env m v dev r =
     (case transformed (cap_transform m) v of None \<Rightarrow> r | Some w \<Rightarrow> write_resolved env m w dev r)"

definition route_capability_per_device ::
  "router_env \<Rightarrow> (string \<times> command) list \<Rightarrow> capability_mapping \<Rightarrow> router \<Rightarrow> router" where
  "route_capability_per_device env cmds m =
     unless_raised (with_res (resolve_capability_targets env m) (fold (\<lambda>dev r.
       case dict_get cmds (dev_id (re_store env dev)) of None \<Rightarrow> r
       | Some cmd \<Rightarrow> (case command_field cmd (cap_field m) of None \<Rightarrow> r
         | Some v \<Rightarrow> if v = WNoChange then r else apply_transform_and_write env m v dev r))))"

definition route_per_device :: "router_env \<Rightarrow> command_mapping list \<Rightarrow> capability_mapping list \<Rightarrow> command
    \<Rightarrow> (string \<times> command) list \<Rightarrow> router \<Rightarrow> router" where
  "route_per_device env ms cms cmd cmds r =
     fold (route_capability_per_device env cmds) cms (fold (route_mapping env cmd) ms r)"

section \<open>The desired-state table\<close>

definition on_device_unregistered :: "string \<Rightarrow> router \<Rightarrow> router" where
  "on_device_unregistered did r = r\<lparr>rt_last_written := dict_del did (rt_last_written r)\<rparr>"

definition get_last_written :: "router \<Rightarrow> string \<Rightarrow> (string \<times> wvalue) list" where
  "get_last_written r did = dict_get_or (rt_last_written r) did []"

definition get_tracked_device_ids :: "router \<Rightarrow> string set" where
  "get_tracked_device_ids r = set (dict_keys (rt_last_written r))"

section \<open>Which writes a routing run attempts\<close>

definition may_write :: "router_env \<Rightarrow> nat \<Rightarrow> bool" where
  "may_write env dev = (\<not> dev_protected (re_store env dev) \<and> dev_responsive (re_store env dev))"

text \<open>A transform that never answers with the sentinel.\<close>

definition clean :: "(wvalue \<Rightarrow> wvalue res) option \<Rightarrow> bool" where
  "clean t = (\<forall>f v. t = Some f \<longrightarrow> f v \<noteq> Inr WNoChange)"

text \<open>Every device is registered under its own id.\<close>

definition ids_ok :: "router_env \<Rightarrow> bool" where
  "ids_ok env = (\<forall>did dev. get_device (re_registry env) did = Some dev \<longrightarrow> dev_id (re_store env dev) = did)"

definition known_as :: "router_env \<Rightarrow> string \<Rightarrow> nat \<Rightarrow> bool" where
  "known_as env did dev = (dev_id (re_store env dev) = did \<or> get_device (re_registry env) did = Some dev)"

lemma known_as_own: "known_as env (dev_id (re_store env dev)) dev"
  by (simp add: known_as_def)

text \<open>
  What the routing relies on, and all it does to the router: permitted writes of values that satisfy \<open>V\<close> and the flag of an
  uncaught exception. A property these two keep is kept by every routing operation whose values satisfy \<open>V\<close>.
\<close>

locale value_writes =
  fixes env :: router_env and P :: "router \<Rightarrow> bool" and V :: "wvalue \<Rightarrow> bool"
  assumes raise: "P r \<Longrightarrow> P (r\<lparr>rt_raised := e\<rparr>)"
    and writes: "P r \<Longrightarrow> may_write env dev \<Longrightarrow> V v \<Longrightarrow> known_as env did dev \<Longrightarrow>
      P (snd (write_and_record env dev did point v r))"
begin

lemma with_res: "P r \<Longrightarrow> (\<And>y. x = Inr y \<Longrightarrow> P (f y r)) \<Longrightarrow> P (with_res x f r)"
  by (auto simp: with_res_def raise split: sum.split)

lemma unless_raised: "P r \<Longrightarrow> P (f r) \<Longrightarrow> P (unless_raised f r)"
  by (simp add: unless_raised_def)

lemma folds: "P r \<Longrightarrow> (\<And>x r. x \<in> set xs \<Longrightarrow> P r \<Longrightarrow> P (f x r)) \<Longrightarrow> P (fold f xs r)"
  by (induction xs arbitrary: r) auto

lemma resolved: "P r \<Longrightarrow> may_write env dev \<Longrightarrow> V v \<Longrightarrow> P (write_resolved env m v dev r)"
  unfolding write_resolved_def Let_def by (intro unless_raised with_res writes known_as_own)

lemma single: "P r \<Longrightarrow> v = WNoChange \<or> V v \<Longrightarrow> P (snd (try_write_single env did point v r))"
  by (auto simp: try_write_single_def Let_def may_write_def known_as_def intro!: writes split: option.split)

lemma responsive_by_trait:
  "get_responsive_devices_by_trait (re_registry env) (re_store env) t = Inr ds \<Longrightarrow> dev \<in> set ds \<Longrightarrow> dev_responsive (re_store env dev)"
  by (auto simp: get_responsive_devices_by_trait_def res_simps)

lemma responsive_by_capability:
  "dev \<in> set (get_responsive_devices_with_capability (re_registry env) (re_store env) c) \<Longrightarrow> dev_responsive (re_store env dev)"
  by (simp add: get_responsive_devices_with_capability_def)

lemma broadcast: "P r \<Longrightarrow> V v \<Longrightarrow> P (write_trait_broadcast env t point v r)"
  unfolding write_trait_broadcast_def Let_def
  by (intro with_res folds) (auto simp: may_write_def responsive_by_trait intro: writes known_as_own)

lemma capability_single: "P r \<Longrightarrow> V v \<Longrightarrow> P (write_capability_single env m did v r)"
  by (auto simp: write_capability_single_def Let_def may_write_def intro!: resolved split: option.split)

lemma capability_trait: "P r \<Longrightarrow> V v \<Longrightarrow> P (write_capability_trait env m t v r)"
  unfolding write_capability_trait_def Let_def
  by (intro with_res folds) (auto simp: may_write_def responsive_by_trait intro: resolved)

lemma capability_auto: "P r \<Longrightarrow> V v \<Longrightarrow> P (write_capability_auto env m v r)"
  unfolding write_capability_auto_def
  by (intro folds) (auto simp: may_write_def responsive_by_capability intro: resolved)

lemma mapping: "P r \<Longrightarrow> (\<And>v. mapping_value cmd (cm_field m) (cm_transform m) = Some v \<Longrightarrow> V v) \<Longrightarrow> P (route_mapping env cmd m r)"
  unfolding route_mapping_def by (intro unless_raised) (auto intro: single broadcast split: option.split)

lemma capability: "P r \<Longrightarrow> (\<And>v. mapping_value cmd (cap_field m) (cap_transform m) = Some v \<Longrightarrow> V v) \<Longrightarrow> P (route_capability env cmd m r)"
  unfolding route_capability_def
  by (intro unless_raised) (auto intro: capability_single capability_trait capability_auto split: option.split)

lemma targets: "resolve_capability_targets env m = Inr ds \<Longrightarrow> dev \<in> set ds \<Longrightarrow> may_write env dev"
  by (auto simp: resolve_capability_targets_def may_write_def Let_def res_simps responsive_by_trait responsive_by_capability
      split: option.splits if_splits)

lemma transform_and_write:
  assumes "P r" "may_write env dev" "\<And>w. transformed (cap_transform m) v = Some w \<Longrightarrow> V w"
  shows "P (apply_transform_and_write env m v dev r)"
  using assms by (auto simp: apply_transform_and_write_def intro: resolved split: option.split)

lemma per_device:
  assumes "P r" "\<And>did c v. dict_get cmds did = Some c \<Longrightarrow> mapping_value c (cap_field m) (cap_transform m) = Some v \<Longrightarrow> V v"
  shows "P (route_capability_per_device env cmds m r)"
  unfolding route_capability_per_device_def
proof (intro unless_raised with_res folds)
  fix ds dev r
  assume ds: "resolve_capability_targets env m = Inr ds" "dev \<in> set ds" and r: "P r"
  have "P (apply_transform_and_write env m v dev r)"
    if "dict_get cmds (dev_id (re_store env dev)) = Some c" "command_field c (cap_field m) = Some v" "v \<noteq> WNoChange" for c v
    using transform_and_write [OF r targets [OF ds], of m v] assms(2) [OF that(1)] that(2,3) by (simp add: mapping_value_def)
  then show "P (case dict_get cmds (dev_id (re_store env dev)) of None \<Rightarrow> r
    | Some cmd \<Rightarrow> (case command_field cmd (cap_field m) of None \<Rightarrow> r
      | Some v \<Rightarrow> if v = WNoChange then r else apply_transform_and_write env m v dev r))"
    using r by (simp split: option.split)
qed (use assms(1) in simp_all)

lemma route:
  "P r \<Longrightarrow> (\<And>m v. m \<in> set ms \<Longrightarrow> mapping_value cmd (cm_field m) (cm_transform m) = Some v \<Longrightarrow> V v) \<Longrightarrow>
   (\<And>m v. m \<in> set cms \<Longrightarrow> mapping_value cmd (cap_field m) (cap_transform m) = Some v \<Longrightarrow> V v) \<Longrightarrow>
   P (route env ms cms cmd r)"
  unfolding route_def by (intro folds mapping capability) auto

lemma route_per_device:
  "P r \<Longrightarrow> (\<And>m v. m \<in> set ms \<Longrightarrow> mapping_value cmd (cm_field m) (cm_transform m) = Some v \<Longrightarrow> V v) \<Longrightarrow>
   (\<And>m did c v. m \<in> set cms \<Longrightarrow> dict_get cmds did = Some c \<Longrightarrow> mapping_value c (cap_field m) (cap_transform m) = Some v \<Longrightarrow> V v) \<Longrightarrow>
   P (route_per_device env ms cms cmd cmds r)"
  unfolding route_per_device_def by (intro folds mapping per_device) auto

end

text \<open>With transforms that never answer with the sentinel, all values are proper ones.\<close>

locale write_invariant = value_writes env P "\<lambda>v. v \<noteq> WNoChange" for env P
begin

lemma value_clean: "clean t \<Longrightarrow> mapping_value cmd f t = Some v \<Longrightarrow> v \<noteq> WNoChange"
  by (auto simp: mapping_value_def transformed_def clean_def split: option.splits if_splits sum.splits)

lemma route_clean:
  "P r \<Longrightarrow> list_all (\<lambda>m. clean (cm_transform m)) ms \<Longrightarrow> list_all (\<lambda>m. clean (cap_transform m)) cms \<Longrightarrow>
   P (route env ms cms cmd r)"
  by (rule route) (auto simp: list_all_iff dest: value_clean)

lemma route_per_device_clean:
  "P r \<Longrightarrow> list_all (\<lambda>m. clean (cm_transform m)) ms \<Longrightarrow> list_all (\<lambda>m. clean (cap_transform m)) cms \<Longrightarrow>
   P (route_per_device env ms cms cmd cmds r)"
  by (rule route_per_device) (auto simp: list_all_iff dest: value_clean)

end

definition attempts_ok :: "router_env \<Rightarrow> router \<Rightarrow> bool" where
  "attempts_ok env r = list_all (\<lambda>(dev, point, v). may_write env dev \<and> v \<noteq> WNoChange) (rt_attempts r)"

lemma write_and_record_simps [simp]:
  "rt_attempts (snd (write_and_record env dev did point v r)) = rt_attempts r @ [(dev, point, v)]"
  "rt_last_written (snd (write_and_record env dev did point v r)) =
     (if re_outcome env (length (rt_attempts r))
      then dict_set did (dict_set point v (dict_get_or (rt_last_written r) did [])) (rt_last_written r)
      else rt_last_written r)"
  by (simp_all add: write_and_record_def safe_write_def record_written_def Let_def)

interpretation attempts: write_invariant env "attempts_ok env" for env
  by unfold_locales (simp_all add: attempts_ok_def)

text \<open>The value of the last successful write to a point of a device.\<close>

definition last_success :: "router_env \<Rightarrow> (nat \<times> string \<times> wvalue) list \<Rightarrow> string \<Rightarrow> string \<Rightarrow> wvalue option" where
  "last_success env ts did point =
     (let xs = filter (\<lambda>(n, dev, p, v). re_outcome env n \<and> dev_id (re_store env dev) = did \<and> p = point) (enumerate 0 ts)
      in if xs = [] then None else Some (snd (snd (snd (last xs)))))"

lemma last_success_append:
  "last_success env (ts @ [(dev, p, v)]) did point =
     (if re_outcome env (length ts) \<and> dev_id (re_store env dev) = did \<and> p = point then Some v else last_success env ts did point)"
  by (simp add: last_success_def enumerate_append_eq Let_def)

definition table_ok :: "router_env \<Rightarrow> (string \<times> (string \<times> wvalue) list) list \<Rightarrow> router \<Rightarrow> bool" where
  "table_ok env lw0 r \<longleftrightarrow> (\<forall>did point.
     dict_get (get_last_written r did) point =
       (case last_success env (rt_attempts r) did point of
          None \<Rightarrow> dict_get (dict_get_or lw0 did []) point | Some v \<Rightarrow> Some v))"

lemma table_ok_write:
  assumes "table_ok env lw0 r" "ids_ok env" "known_as env did dev"
  shows "table_ok env lw0 (snd (write_and_record env dev did point v r))"
proof -
  have "dev_id (re_store env dev) = did" using assms(2,3) by (auto simp: known_as_def ids_ok_def)
  then show ?thesis
    using assms(1) by (auto simp: table_ok_def get_last_written_def last_success_append update_conv')
qed

interpretation desired: write_invariant env "\<lambda>r. ids_ok env \<longrightarrow> table_ok env lw0 r" for env lw0
  by (unfold_locales, auto simp: table_ok_write) (simp add: table_ok_def get_last_written_def)


definition demo_env :: router_env where
  "demo_env = \<lparr>re_registry = registry_init\<lparr>rg_devices := [(''a'', 0), (''b'', 1)]\<rparr>,
     re_store = (\<lambda>i. if i = 0 then demo_store 0 else (demo_store 1)\<lparr>dev_protected := True\<rparr>), re_outcome = (\<lambda>_. True)\<rparr>"

definition demo_mappings :: "command_mapping list" where
  "demo_mappings = map (\<lambda>d. \<lparr>cm_field = ''p_target'', cm_point = ''p_set'', cm_device = Some d, cm_trait = None, cm_transform = None\<rparr>) [''a'', ''b'']"

lemmas router_eval = demo_env_def demo_mappings_def demo_store_def router_init_def route_def route_mapping_def
  unless_raised_def mapping_value_def command_field_def transformed_def try_write_single_def get_device_def
  write_and_record_def safe_write_def record_written_def registry_init_def clean_def ids_ok_def Let_def




lemma fold_filter_skip: "(\<And>x r. x \<in> set xs \<Longrightarrow> \<not> Q x \<Longrightarrow> f x r = r) \<Longrightarrow> fold f xs r = fold f (filter Q xs) r"
  by (induction xs arbitrary: r) auto

text \<open>
  \<open>NO_CHANGE\<close> on the P axis makes the mappings of P vanish: the run does exactly what it would do
  if no mapping of \<open>p_target\<close> were configured, so the devices keep their active power while Q is written.
\<close>

theorem no_change_axis_skipped:
  assumes "p_target cmd = NO_CHANGE"
  shows "route env ms cms cmd r =
    route env (filter (\<lambda>m. cm_field m \<noteq> ''p_target'') ms) (filter (\<lambda>m. cap_field m \<noteq> ''p_target'') cms) cmd r"
proof -
  have "mapping_value cmd ''p_target'' t = None" for t
    using assms by (simp add: mapping_value_def command_field_def)
  then have "cm_field m = ''p_target'' \<Longrightarrow> route_mapping env cmd m r = r"
    "cap_field k = ''p_target'' \<Longrightarrow> route_capability env cmd k r = r" for m k r
    by (simp_all add: route_mapping_def route_capability_def unless_raised_def)
  then show ?thesis
    unfolding route_def
    by (subst fold_filter_skip [where Q = "\<lambda>m. cm_field m \<noteq> ''p_target''" and xs = ms], simp,
        subst fold_filter_skip [where Q = "\<lambda>m. cap_field m \<noteq> ''p_target''" and xs = cms], simp, simp)
qed

theorem no_change_axis_skipped_witness:
  "rt_attempts (route demo_env demo_mappings [] \<lparr>p_target = NO_CHANGE, q_target = Val 5, is_fallback = False\<rparr> router_init) = []"
  using no_change_axis_skipped [of "\<lparr>p_target = NO_CHANGE, q_target = Val 5, is_fallback = False\<rparr>" demo_env demo_mappings "[]" router_init]
  by (simp add: demo_mappings_def) (simp add: route_def router_init_def)

end
