(* ===== verification/Election.thy ===== *)
theory Election
  imports Csp_Prelude
begin

text \<open>
  \<open>csp_lib/cluster/election.py\<close>: the lease-based leader election of one instance. The campaign task
  and the keep-alive task are program counters; each event is the answer of etcd, the end of a wait, or
  a call of the API, and one step runs the task from one \<open>await\<close> to the next. An event that does
  not match what a task waits for changes nothing; starting an instance that runs (which would
  run two campaign tasks) is left out.
\<close>

datatype election_state = CANDIDATE | LEADER | FOLLOWER | STOPPED

record cluster_config =
  cc_instance_id :: string
  cc_max_keepalive_failures :: int
  cc_campaign_retry_delay :: rat
  cc_lease_ttl :: int

text \<open>\<open>__post_init__\<close>.\<close>

definition cluster_config_valid :: "cluster_config \<Rightarrow> bool" where
  "cluster_config_valid c = (0 < cc_max_keepalive_failures c \<and> 0 < cc_campaign_retry_delay c)"

text \<open>Where the campaign task waits.\<close>

datatype campaign_pc =
    NoCampaign
  | Granting
  | Txn nat
  | ReadingLeader nat
  | Electing nat
  | LeaderWait
  | Revoking
  | PollWait
  | Polling
  | RetryWait

text \<open>The keep-alive task: its lease and the consecutive failures, between its sleeps and its calls.\<close>

datatype keepalive_pc = NoKeepalive | KaSleep nat int | KaCall nat int

record elector =
  el_state :: election_state
  el_leader :: "string option"
  el_lease :: "nat option"
  el_campaign :: campaign_pc
  el_keepalive :: keepalive_pc
  el_stop :: bool
  el_client :: bool
  el_calls :: "string list"

definition elector_init :: elector where
  "elector_init = \<lparr>el_state = STOPPED, el_leader = None, el_lease = None, el_campaign = NoCampaign,
     el_keepalive = NoKeepalive, el_stop = False, el_client = False, el_calls = []\<rparr>"

definition is_leader :: "elector \<Rightarrow> bool" where
  "is_leader el = (el_state el = LEADER)"

datatype election_event =
    Start
  | Stop
  | Resign
  | LeaseGranted nat
  | TxnDone bool
  | ElectedReturned bool
  | LeaderRead "string option"
  | LeaseRevoked bool
  | PollTimeout
  | PollRead "string option"
  | EtcdFailed
  | RetryTimeout
  | KeepaliveTimeout
  | KeepaliveDone bool

text \<open>\<open>value.split('@')[0]\<close>.\<close>

definition leader_name :: "string \<Rightarrow> string" where
  "leader_name v = takeWhile (\<lambda>c. c \<noteq> CHR ''@'') v"

definition resign_internal :: "elector \<Rightarrow> elector" where
  "resign_internal el = (if el_lease el \<noteq> None \<and> el_client el
     then el\<lparr>el_lease := None, el_calls := el_calls el @ [''lease_revoke'']\<rparr> else el)"

definition on_start :: "elector \<Rightarrow> elector" where
  "on_start el = el\<lparr>el_stop := False, el_state := CANDIDATE, el_client := True, el_campaign := Granting\<rparr>"

definition on_stop :: "elector \<Rightarrow> elector" where
  "on_stop el =
     (let el1 = el\<lparr>el_stop := True\<rparr>;
          el2 = (if el_state el1 = LEADER then resign_internal el1 else el1)
      in el2\<lparr>el_state := STOPPED, el_campaign := NoCampaign, el_keepalive := NoKeepalive, el_client := False\<rparr>)"

definition resign :: "elector \<Rightarrow> elector" where
  "resign el = (if el_state el \<noteq> LEADER then el else resign_internal el)"

definition handle_demotion :: "elector \<Rightarrow> elector" where
  "handle_demotion el =
     (if el_state el \<noteq> LEADER then el
      else el\<lparr>el_state := FOLLOWER, el_leader := None, el_calls := el_calls el @ [''on_demoted'']\<rparr>)"

text \<open>A failing campaign attempt goes to the retry wait, whatever it had done.\<close>

definition try_campaign :: "cluster_config \<Rightarrow> election_event \<Rightarrow> elector \<Rightarrow> elector" where
  "try_campaign cfg ev el =
     (case (el_campaign el, ev) of
        (Granting, LeaseGranted l) \<Rightarrow> el\<lparr>el_lease := Some l, el_campaign := Txn l\<rparr>
      | (Txn l, TxnDone True) \<Rightarrow>
          el\<lparr>el_state := LEADER, el_leader := Some (cc_instance_id cfg), el_campaign := Electing l,
             el_calls := el_calls el @ [''on_elected'']\<rparr>
      | (Electing l, ElectedReturned True) \<Rightarrow> el\<lparr>el_keepalive := KaSleep l 0, el_campaign := LeaderWait\<rparr>
      | (Electing l, ElectedReturned False) \<Rightarrow> el\<lparr>el_campaign := RetryWait\<rparr>
      | (Txn l, TxnDone False) \<Rightarrow> el\<lparr>el_campaign := ReadingLeader l\<rparr>
      | (ReadingLeader l, LeaderRead v) \<Rightarrow>
          (let el1 = (case v of None \<Rightarrow> el | Some s \<Rightarrow> el\<lparr>el_leader := Some (leader_name s)\<rparr>)
           in el1\<lparr>el_state := FOLLOWER, el_campaign := Revoking\<rparr>)
      | (Revoking, LeaseRevoked ok) \<Rightarrow> el\<lparr>el_lease := None, el_campaign := PollWait\<rparr>
      | (Granting, EtcdFailed) \<Rightarrow> el\<lparr>el_campaign := RetryWait\<rparr>
      | (Txn l, EtcdFailed) \<Rightarrow> el\<lparr>el_campaign := RetryWait\<rparr>
      | (ReadingLeader l, EtcdFailed) \<Rightarrow> el\<lparr>el_campaign := RetryWait\<rparr>
      | _ \<Rightarrow> el)"

definition wait_for_leader_loss :: "election_event \<Rightarrow> elector \<Rightarrow> elector" where
  "wait_for_leader_loss ev el =
     (case (el_campaign el, ev) of
        (PollWait, PollTimeout) \<Rightarrow> el\<lparr>el_campaign := Polling\<rparr>
      | (Polling, PollRead None) \<Rightarrow> el\<lparr>el_state := CANDIDATE, el_campaign := Granting\<rparr>
      | (Polling, PollRead (Some v)) \<Rightarrow> el\<lparr>el_campaign := PollWait\<rparr>
      | (Polling, EtcdFailed) \<Rightarrow> el\<lparr>el_campaign := PollWait\<rparr>
      | _ \<Rightarrow> el)"

definition campaign_loop :: "cluster_config \<Rightarrow> election_event \<Rightarrow> elector \<Rightarrow> elector" where
  "campaign_loop cfg ev el =
     (case el_campaign el of
        RetryWait \<Rightarrow> (if ev = RetryTimeout then el\<lparr>el_campaign := Granting\<rparr> else el)
      | PollWait \<Rightarrow> wait_for_leader_loss ev el
      | Polling \<Rightarrow> wait_for_leader_loss ev el
      | _ \<Rightarrow> try_campaign cfg ev el)"

definition keepalive_loop :: "cluster_config \<Rightarrow> election_event \<Rightarrow> elector \<Rightarrow> elector" where
  "keepalive_loop cfg ev el =
     (case (el_keepalive el, ev) of
        (KaSleep l n, KeepaliveTimeout) \<Rightarrow> el\<lparr>el_keepalive := KaCall l n\<rparr>
      | (KaCall l n, KeepaliveDone True) \<Rightarrow> el\<lparr>el_keepalive := KaSleep l 0\<rparr>
      | (KaCall l n, KeepaliveDone False) \<Rightarrow>
          (if n + 1 \<ge> cc_max_keepalive_failures cfg
           then handle_demotion (el\<lparr>el_keepalive := NoKeepalive\<rparr>)
           else el\<lparr>el_keepalive := KaSleep l (n + 1)\<rparr>)
      | _ \<Rightarrow> el)"

fun election_step :: "cluster_config \<Rightarrow> election_event \<Rightarrow> elector \<Rightarrow> elector" where
  "election_step cfg Start el = (if el_state el = STOPPED then on_start el else el)"
| "election_step cfg Stop el = on_stop el"
| "election_step cfg Resign el = resign el"
| "election_step cfg ev el = keepalive_loop cfg ev (campaign_loop cfg ev el)"

section \<open>Invariant\<close>

fun ka_failures :: "keepalive_pc \<Rightarrow> int" where
  "ka_failures NoKeepalive = 0"
| "ka_failures (KaSleep l n) = n"
| "ka_failures (KaCall l n) = n"

definition elector_inv :: "cluster_config \<Rightarrow> elector \<Rightarrow> bool" where
  "elector_inv cfg el \<longleftrightarrow>
     (el_state el = LEADER \<longrightarrow> el_leader el = Some (cc_instance_id cfg))
     \<and> (el_keepalive el \<noteq> NoKeepalive \<longrightarrow> el_state el = LEADER \<and> el_campaign el = LeaderWait)
     \<and> (el_campaign el = LeaderWait \<longrightarrow> el_state el = (if el_keepalive el = NoKeepalive then FOLLOWER else LEADER))
     \<and> (\<forall>l. el_campaign el = Electing l \<longrightarrow> el_state el = LEADER)
     \<and> (el_state el = STOPPED \<longleftrightarrow> el_campaign el = NoCampaign)
     \<and> 0 \<le> ka_failures (el_keepalive el)
     \<and> (el_keepalive el \<noteq> NoKeepalive \<longrightarrow> ka_failures (el_keepalive el) < cc_max_keepalive_failures cfg)"

lemmas election_defs = on_start_def on_stop_def resign_def resign_internal_def handle_demotion_def
  try_campaign_def wait_for_leader_loss_def campaign_loop_def keepalive_loop_def Let_def

lemma elector_inv_campaign:
  assumes "cluster_config_valid cfg" "elector_inv cfg el" "el_campaign el \<noteq> NoCampaign"
  shows "elector_inv cfg (campaign_loop cfg ev el) \<and>
    (el_campaign el = LeaderWait \<longrightarrow> campaign_loop cfg ev el = el)"
  using assms
  by (cases "el_campaign el"; cases ev)
    (auto simp: election_defs elector_inv_def cluster_config_valid_def split: bool.split option.split)

lemma elector_inv_keepalive:
  assumes "cluster_config_valid cfg" "elector_inv cfg el"
  shows "elector_inv cfg (keepalive_loop cfg ev el)"
  using assms
  by (cases "el_keepalive el"; cases ev)
    (auto simp: election_defs elector_inv_def cluster_config_valid_def split: bool.split)

lemma idle_steps: "el_campaign el = NoCampaign \<Longrightarrow> el_keepalive el = NoKeepalive \<Longrightarrow>
    keepalive_loop cfg ev (campaign_loop cfg ev el) = el"
  by (simp add: election_defs)

lemma elector_inv_step:
  assumes "cluster_config_valid cfg" "elector_inv cfg el"
  shows "elector_inv cfg (election_step cfg ev el)"
proof -
  have gen: "elector_inv cfg (keepalive_loop cfg ev (campaign_loop cfg ev el))"
  proof (cases "el_campaign el = NoCampaign")
    case True
    then show ?thesis using assms(2) idle_steps by (auto simp: elector_inv_def)
  next
    case False
    then show ?thesis using elector_inv_campaign elector_inv_keepalive assms by blast
  qed
  show ?thesis
  proof (cases ev)
    case Start
    then show ?thesis using assms(2) by (auto simp: on_start_def elector_inv_def)
  next
    case Stop
    then show ?thesis
      using assms(2) by (simp add: on_stop_def Let_def resign_internal_def) (simp add: elector_inv_def)
  next
    case Resign
    then show ?thesis using assms(2) by (auto simp: resign_def resign_internal_def elector_inv_def)
  qed (use gen in simp_all)
qed

interpretation election: step_invariant "election_step cfg" "\<lambda>_. cluster_config_valid cfg" "elector_inv cfg" for cfg
  by unfold_locales (rule elector_inv_step)

lemma elector_inv_init: "elector_inv cfg elector_init"
  by (simp add: elector_inv_def elector_init_def)

lemma reachable_inv:
  assumes "cluster_config_valid cfg"
  shows "elector_inv cfg (run_steps (election_step cfg) es elector_init)"
  by (rule election.always [OF elector_inv_init]) (simp add: assms list_all_iff)

text \<open>
  In every reachable state a leader names itself as the leader, a lease is kept alive only by a
  leader, and an instance that waits as the elected leader with its keep-alive running is the leader:
  losing the role and ending the keep-alive go together.
\<close>

theorem leader_consistent:
  assumes "cluster_config_valid cfg" "el = run_steps (election_step cfg) es elector_init"
  shows "(is_leader el \<longrightarrow> el_leader el = Some (cc_instance_id cfg))
    \<and> (el_keepalive el \<noteq> NoKeepalive \<longrightarrow> is_leader el)
    \<and> (el_campaign el = LeaderWait \<longrightarrow> (is_leader el \<longleftrightarrow> el_keepalive el \<noteq> NoKeepalive))"
  using reachable_inv [OF assms(1), of es] unfolding assms(2) is_leader_def elector_inv_def by auto

definition demo_cluster :: cluster_config where
  "demo_cluster = \<lparr>cc_instance_id = ''node1'', cc_max_keepalive_failures = 3, cc_campaign_retry_delay = 2, cc_lease_ttl = 10\<rparr>"

definition elected :: "election_event list" where
  "elected = [Start, LeaseGranted 7, TxnDone True, ElectedReturned True]"

lemmas election_eval = election_defs elected_def demo_cluster_def elector_init_def cluster_config_valid_def is_leader_def

theorem leader_consistent_witness:
  "is_leader (run_steps (election_step demo_cluster) elected elector_init)
   \<and> el_leader (run_steps (election_step demo_cluster) elected elector_init) = Some ''node1''"
  using leader_consistent [of demo_cluster, OF _ refl, of elected] by (simp add: election_eval)

definition failures :: "nat \<Rightarrow> election_event list" where
  "failures k = concat (replicate k [KeepaliveTimeout, KeepaliveDone False])"

lemma failures_Suc: "failures (Suc k) = KeepaliveTimeout # KeepaliveDone False # failures k"
  by (simp add: failures_def)

lemma failing_keepalive:
  assumes "el_keepalive el = KaSleep l n" "el_campaign el = LeaderWait" "el_state el = LEADER"
    and "0 \<le> n" "n < cc_max_keepalive_failures cfg"
  shows "let el' = run_steps (election_step cfg) (failures k) el in
    if n + int k < cc_max_keepalive_failures cfg
    then el_state el' = LEADER \<and> el_keepalive el' = KaSleep l (n + int k) \<and> el_calls el' = el_calls el
    else el_state el' = FOLLOWER \<and> el_leader el' = None \<and> el_keepalive el' = NoKeepalive
      \<and> el_calls el' = el_calls el @ [''on_demoted'']"
  using assms
proof (induction k arbitrary: el n)
  case 0
  then show ?case by (simp add: failures_def)
next
  case (Suc k)
  let ?el1 = "election_step cfg (KeepaliveDone False) (election_step cfg KeepaliveTimeout el)"
  show ?case
  proof (cases "n + 1 \<ge> cc_max_keepalive_failures cfg")
    case True
    then have el1: "?el1 = el\<lparr>el_keepalive := NoKeepalive, el_state := FOLLOWER, el_leader := None,
        el_calls := el_calls el @ [''on_demoted'']\<rparr>"
      using Suc.prems by (simp add: election_defs)
    have "run_steps (election_step cfg) (failures j) e = e"
      if "el_keepalive e = NoKeepalive" "el_campaign e = LeaderWait" for j and e :: elector
      using that by (induction j) (auto simp: failures_Suc failures_def [of 0] election_defs)
    then show ?thesis
      using True Suc.prems el1 by (simp add: failures_Suc)
  next
    case False
    then have "?el1 = el\<lparr>el_keepalive := KaSleep l (n + 1)\<rparr>"
      using Suc.prems by (simp add: election_defs)
    then show ?thesis
      using Suc.IH [of "el\<lparr>el_keepalive := KaSleep l (n + 1)\<rparr>" "n + 1"] Suc.prems False
      by (simp add: failures_Suc Let_def add.assoc)
  qed
qed

text \<open>
  C11. Self-fencing is exact: a leader whose keep-alives fail in a row stays the leader below the
  configured number of failures; at that number it becomes a follower, forgets the leader
  and calls the demotion callback once, and stays demoted however many more fail.
\<close>

theorem self_fencing_exact:
  assumes "cluster_config_valid cfg" "el = run_steps (election_step cfg) es elector_init" "el_keepalive el = KaSleep l 0"
    and "el' = run_steps (election_step cfg) (failures k) el"
  shows "if int k < cc_max_keepalive_failures cfg
    then is_leader el' \<and> el_calls el' = el_calls el
    else el_state el' = FOLLOWER \<and> el_leader el' = None \<and> el_calls el' = el_calls el @ [''on_demoted'']"
proof -
  have "el_campaign el = LeaderWait" "el_state el = LEADER"
    using reachable_inv [OF assms(1), of es] assms(3) unfolding assms(2) elector_inv_def by auto
  then show ?thesis
    using failing_keepalive [OF assms(3), of cfg k] assms(1)
    by (auto simp: assms(4) is_leader_def Let_def cluster_config_valid_def split: if_splits)
qed

theorem self_fencing_exact_witness:
  "el_state (run_steps (election_step demo_cluster) (failures 3) (run_steps (election_step demo_cluster) elected elector_init)) = FOLLOWER"
  using self_fencing_exact [OF _ refl _ refl, of demo_cluster elected 7 3] by (simp add: election_eval)

text \<open>
  After its demotion an instance never campaigns again: the campaign task waits for the stop event
  only, so whatever etcd answers and however long it runs, the instance stays a follower
  until it is stopped, even when no other instance takes the lead.
\<close>

theorem demoted_never_campaigns:
  assumes "el_campaign el = LeaderWait" "el_state el = FOLLOWER" "el_keepalive el = NoKeepalive" "Stop \<notin> set es"
  shows "run_steps (election_step cfg) es el = el"
  using assms(4)
proof (induction es)
  case (Cons e es)
  have "election_step cfg e el = el"
    using Cons.prems assms(1-3) by (cases e) (simp_all add: election_defs)
  with Cons show ?case by simp
qed simp

theorem demoted_never_campaigns_witness:
  "el_state (run_steps (election_step demo_cluster) [PollTimeout, PollRead None, RetryTimeout, LeaseGranted 9, TxnDone True]
     (run_steps (election_step demo_cluster) (elected @ failures 3) elector_init)) = FOLLOWER"
proof -
  let ?el = "run_steps (election_step demo_cluster) (elected @ failures 3) elector_init"
  have "el_campaign ?el = LeaderWait \<and> el_state ?el = FOLLOWER \<and> el_keepalive ?el = NoKeepalive"
    by (simp add: election_eval run_steps_append failures_def numeral_3_eq_3)
  then show ?thesis
    using demoted_never_campaigns [of ?el "[PollTimeout, PollRead None, RetryTimeout, LeaseGranted 9, TxnDone True]" demo_cluster]
    by simp
qed

text \<open>
  Resigning revokes the lease but leaves the role: an elected instance that resigns is still the
  leader for every caller of \<open>is_leader\<close>, with no lease, and calls no demotion callback, until
  keep-alives have failed the configured number of times.
\<close>

theorem resign_keeps_role:
  assumes "is_leader el" "el_lease el = Some l" "el_client el"
  shows "is_leader (election_step cfg Resign el) \<and> el_lease (election_step cfg Resign el) = None
    \<and> el_calls (election_step cfg Resign el) = el_calls el @ [''lease_revoke'']"
  using assms by (simp add: election_defs is_leader_def)

theorem resign_keeps_role_witness:
  "is_leader (election_step demo_cluster Resign (run_steps (election_step demo_cluster) elected elector_init))"
  using resign_keeps_role [of "run_steps (election_step demo_cluster) elected elector_init" 7 demo_cluster]
  by (simp add: election_eval)

end
