(* ===== verification/Modbus_Types.thy ===== *)
theory Modbus_Types
  imports Csp_Prelude "HOL-Library.Log_Nat"
begin

text \<open>
  \<open>csp_lib/modbus/types\<close>, \<open>enums.py\<close> and \<open>codec.py\<close>: the register codecs. Registers are Python
  integers, bytes are \<open>8 word\<close>. \<open>struct\<close> is modelled for the formats the code uses: integers of 2, 4
  and 8 bytes and the two IEEE 754 formats, in both byte orders. A \<open>ModbusString\<close> uses its default
  encoding, ASCII; other encodings are not modelled.
\<close>

datatype byte_order = BIG_ENDIAN | LITTLE_ENDIAN

datatype register_order = HIGH_FIRST | LOW_FIRST

section \<open>The standard library's \<open>struct\<close>\<close>

fun le_bytes :: "nat \<Rightarrow> int \<Rightarrow> 8 word list" where
  "le_bytes 0 v = []"
| "le_bytes (Suc n) v = word_of_int v # le_bytes n (v div 256)"

fun of_le :: "8 word list \<Rightarrow> int" where
  "of_le [] = 0"
| "of_le (b # bs) = uint b + 256 * of_le bs"

definition ordered :: "byte_order \<Rightarrow> 'a list \<Rightarrow> 'a list" where
  "ordered bo xs = (if bo = BIG_ENDIAN then rev xs else xs)"

definition pack_uint :: "byte_order \<Rightarrow> nat \<Rightarrow> int \<Rightarrow> 8 word list res" where
  "pack_uint bo n v = (if 0 \<le> v \<and> v < 256 ^ n then Inr (ordered bo (le_bytes n v)) else Inl StructError)"

definition pack_sint :: "byte_order \<Rightarrow> nat \<Rightarrow> int \<Rightarrow> 8 word list res" where
  "pack_sint bo n v =
     (if - (256 ^ n div 2) \<le> v \<and> v < 256 ^ n div 2 then Inr (ordered bo (le_bytes n v)) else Inl StructError)"

definition unpack_uint :: "byte_order \<Rightarrow> 8 word list \<Rightarrow> int" where
  "unpack_uint bo bs = of_le (ordered bo bs)"

definition unpack_sint :: "byte_order \<Rightarrow> 8 word list \<Rightarrow> int" where
  "unpack_sint bo bs =
     (let n = of_le (ordered bo bs) in if n \<ge> 256 ^ length bs div 2 then n - 256 ^ length bs else n)"

lemma length_le_bytes [simp]: "length (le_bytes n v) = n"
  by (induction n arbitrary: v) auto

lemma ordered_ordered [simp]: "ordered bo (ordered bo xs) = xs"
  by (simp add: ordered_def)

lemma length_ordered [simp]: "length (ordered bo xs) = length xs"
  by (simp add: ordered_def)

lemma uint_byte: "uint (word_of_int v :: 8 word) = v mod 256"
  by (simp add: uint_word_of_int)

lemma of_le_le_bytes: "of_le (le_bytes n v) = v mod 256 ^ n"
proof (induction n arbitrary: v)
  case (Suc n)
  have "v mod (256 * 256 ^ n) = 256 * (v div 256 mod 256 ^ n) + v mod 256"
    by (rule zmod_zmult2_eq) simp
  with Suc show ?case by (simp add: uint_byte)
qed simp

lemma of_le_bounds: "0 \<le> of_le bs \<and> of_le bs < 256 ^ length bs"
proof (induction bs)
  case (Cons b bs)
  have "0 \<le> uint b" "uint b < 256" using uint_lt2p [of b] by auto
  with Cons show ?case by auto
qed simp

lemma le_bytes_of_le: "le_bytes (length bs) (of_le bs) = bs"
proof (induction bs)
  case (Cons b bs)
  have "0 \<le> uint b" "uint b < 256" using uint_lt2p [of b] by auto
  then have div: "(uint b + 256 * of_le bs) div 256 = of_le bs"
    and mod: "(uint b + 256 * of_le bs) mod 256 = uint b" by simp_all
  have "uint (word_of_int (uint b + 256 * of_le bs) :: 8 word) = uint b"
    by (subst uint_byte) (rule mod)
  then have "word_of_int (uint b + 256 * of_le bs) = b" by (rule word_uint_eqI)
  with Cons div show ?case by (simp only: le_bytes.simps of_le.simps list.size add_Suc_right add_0_right simp_thms)
qed simp

lemma unpack_pack_uint: "pack_uint bo n v = Inr bs \<Longrightarrow> unpack_uint bo bs = v"
  by (auto simp: pack_uint_def unpack_uint_def of_le_le_bytes split: if_splits)

lemma unpack_pack_sint: "0 < n \<Longrightarrow> pack_sint bo n v = Inr bs \<Longrightarrow> unpack_sint bo bs = v"
proof -
  assume n: "0 < n" and p: "pack_sint bo n v = Inr bs"
  obtain k where k: "(256 :: int) ^ n = 2 * k" "0 < k"
    using n by (cases n) (auto intro: that [of "128 * 256 ^ (n - 1)"])
  show ?thesis
  proof (cases "0 \<le> v")
    case True
    then show ?thesis using p k
      by (auto simp: pack_sint_def unpack_sint_def of_le_le_bytes Let_def split: if_splits)
  next
    case False
    then have "0 \<le> v + 2 * k" "v + 2 * k < 2 * k"
      using p k by (auto simp: pack_sint_def split: if_splits)
    then have "v mod (2 * k) = v + 2 * k"
      by (metis mod_add_self2 mod_pos_pos_trivial)
    then show ?thesis using p k False
      by (auto simp: pack_sint_def unpack_sint_def of_le_le_bytes Let_def split: if_splits)
  qed
qed

section \<open>Splitting bytes into registers (\<open>_register_helpers.py\<close>)\<close>

definition reg_ordered :: "register_order \<Rightarrow> 'a list \<Rightarrow> 'a list" where
  "reg_ordered ro regs = (if ro = LOW_FIRST then rev regs else regs)"

definition split_to_registers :: "8 word list \<Rightarrow> nat \<Rightarrow> byte_order \<Rightarrow> register_order \<Rightarrow> int list" where
  "split_to_registers packed n bo ro =
     reg_ordered ro (map (\<lambda>i. unpack_uint bo (take 2 (drop (i * 2) packed))) [0..<n])"

definition assemble_from_registers :: "int list \<Rightarrow> nat \<Rightarrow> byte_order \<Rightarrow> register_order \<Rightarrow> 8 word list res" where
  "assemble_from_registers registers n bo ro =
     (let regs = reg_ordered ro (take n registers)
      in if length regs \<noteq> n then Inl StructError
         else rbind (rmap (pack_uint bo 2) regs) (\<lambda>bs. Inr (concat bs)))"

definition is_register :: "int \<Rightarrow> bool" where
  "is_register r = (0 \<le> r \<and> r < 65536)"

text \<open>The 16-bit digits of a number, the low one first.\<close>

fun le_regs :: "8 word list \<Rightarrow> int list" where
  "le_regs (a # b # bs) = (uint a + 256 * uint b) # le_regs bs"
| "le_regs bs = []"

lemma length_le_regs [simp]: "length (le_regs bs) = length bs div 2"
  by (induction bs rule: le_regs.induct) auto

lemma le_regs_register: "list_all is_register (le_regs bs)"
proof (induction bs rule: le_regs.induct)
  case (1 a b bs)
  have "0 \<le> uint a" "uint a < 256" "0 \<le> uint b" "uint b < 256"
    using uint_lt2p [of a] uint_lt2p [of b] by auto
  with 1 show ?case by (simp add: is_register_def)
qed simp_all

lemma split_little:
  "length bs = 2 * n \<Longrightarrow> map (\<lambda>i. unpack_uint LITTLE_ENDIAN (take 2 (drop (i * 2) bs))) [0..<n] = le_regs bs"
proof (induction n arbitrary: bs)
  case (Suc n)
  then obtain a b cs where "bs = a # b # cs" "length cs = 2 * n"
    by (cases bs; cases "tl bs") auto
  with Suc.IH [of cs] show ?case
    by (simp add: upt_rec [of 0 "Suc n"] map_Suc_upt [symmetric] comp_def unpack_uint_def ordered_def del: upt_Suc)
qed simp

lemma take_drop_rev:
  assumes "length xs = 2 * n" "i < n"
  shows "take 2 (drop (i * 2) (rev xs)) = rev (take 2 (drop ((n - 1 - i) * 2) xs))"
proof -
  have "2 * n - i * 2 = (n - 1 - i) * 2 + 2" using assms(2) by linarith
  then show ?thesis using assms
    by (simp add: drop_rev take_rev take_drop add.commute)
qed

lemma split_big:
  assumes "length bs = 2 * n"
  shows "map (\<lambda>i. unpack_uint BIG_ENDIAN (take 2 (drop (i * 2) (rev bs)))) [0..<n] = rev (le_regs bs)"
proof (rule nth_equalityI)
  fix i assume "i < length (map (\<lambda>i. unpack_uint BIG_ENDIAN (take 2 (drop (i * 2) (rev bs)))) [0..<n])"
  then have i: "i < n" by simp
  have "rev (le_regs bs) ! i = le_regs bs ! (n - 1 - i)"
    using i assms by (simp add: rev_nth)
  also have "\<dots> = of_le (take 2 (drop ((n - 1 - i) * 2) bs))"
    using i by (simp add: split_little [OF assms, symmetric] unpack_uint_def ordered_def)
  finally show "map (\<lambda>i. unpack_uint BIG_ENDIAN (take 2 (drop (i * 2) (rev bs)))) [0..<n] ! i = rev (le_regs bs) ! i"
    using i take_drop_rev [OF assms i] by (simp add: unpack_uint_def ordered_def)
qed (use assms in simp)

lemma split_ordered:
  assumes "length bs = 2 * n"
  shows "split_to_registers (ordered bo bs) n bo ro = reg_ordered ro (ordered bo (le_regs bs))"
  using split_little [OF assms] split_big [OF assms]
  by (cases bo) (simp_all add: split_to_registers_def ordered_def)

lemma pack_le_regs:
  "even (length bs) \<Longrightarrow> rmap (pack_uint bo 2) (le_regs bs) = Inr (map (ordered bo) (map (\<lambda>r. le_bytes 2 r) (le_regs bs)))
     \<and> concat (map (\<lambda>r. le_bytes 2 r) (le_regs bs)) = bs"
proof (induction bs rule: le_regs.induct)
  case (1 a b bs)
  have r: "is_register (uint a + 256 * uint b)"
    using le_regs_register [of "[a, b]"] by simp
  have "le_bytes 2 (uint a + 256 * uint b) = [a, b]"
    using le_bytes_of_le [of "[a, b]"] by (simp add: numeral_2_eq_2)
  with 1 r show ?case by (simp add: pack_uint_def is_register_def)
qed simp_all

lemma rmap_append: "rmap f (xs @ ys) = rbind (rmap f xs) (\<lambda>us. rbind (rmap f ys) (\<lambda>vs. Inr (us @ vs)))"
  by (induction xs) (auto split: sum.split simp: rbind_def)

lemma rmap_rev: "rmap f xs = Inr ys \<Longrightarrow> rmap f (rev xs) = Inr (rev ys)"
  by (induction xs arbitrary: ys) (auto simp: res_simps rmap_append)

lemma concat_rev_rev: "concat (rev (map rev xss)) = rev (concat xss)"
  by (simp add: rev_concat rev_map)

lemma assemble_ordered:
  assumes "length bs = 2 * n"
  shows "assemble_from_registers (reg_ordered ro (ordered bo (le_regs bs)) @ extra) n bo ro = Inr (ordered bo bs)"
proof -
  have len: "length (le_regs bs) = n" "even (length bs)" using assms by simp_all
  have taken: "reg_ordered ro (take n (reg_ordered ro (ordered bo (le_regs bs)) @ extra)) = ordered bo (le_regs bs)"
    using len by (simp add: reg_ordered_def)
  show ?thesis
  proof (cases bo)
    case LITTLE_ENDIAN
    then show ?thesis
      using pack_le_regs [OF len(2), of bo] len taken
      by (simp add: assemble_from_registers_def ordered_def cong: map_cong)
  next
    case BIG_ENDIAN
    then have "rmap (pack_uint bo 2) (rev (le_regs bs)) = Inr (rev (map rev (map (\<lambda>r. le_bytes 2 r) (le_regs bs))))"
      using rmap_rev [OF conjunct1 [OF pack_le_regs [OF len(2), of bo]]] by (simp add: ordered_def comp_def)
    then show ?thesis
      using pack_le_regs [OF len(2), of bo] len taken BIG_ENDIAN
      by (simp add: assemble_from_registers_def ordered_def concat_rev_rev del: map_map)
  qed
qed


section \<open>IEEE 754 formats\<close>

text \<open>A format is the width of its fraction and of its exponent: \<open>(23, 8)\<close> for \<open>f\<close>, \<open>(52, 11)\<close> for \<open>d\<close>.\<close>

type_synonym fmt = "nat \<times> nat"

definition emin :: "fmt \<Rightarrow> int" where
  "emin f = 2 - 2 ^ (snd f - 1)"

definition inf_mag :: "fmt \<Rightarrow> int" where
  "inf_mag f = (2 ^ snd f - 1) * 2 ^ fst f"

text \<open>\<open>\<lfloor>log 2 q\<rfloor>\<close> of a positive number.\<close>

definition ilog2 :: "rat \<Rightarrow> int" where
  "ilog2 q = (if 1 \<le> q then int (floorlog 2 (nat \<lfloor>q\<rfloor>)) - 1 else - int (floorlog 2 (nat (\<lceil>1 / q\<rceil> - 1))))"

text \<open>The magnitude bits of a non-negative finite number, rounded to nearest, ties to even.\<close>

definition mag_bits :: "fmt \<Rightarrow> rat \<Rightarrow> int" where
  "mag_bits f q =
     (if q = 0 then 0
      else let e = max (emin f) (ilog2 q)
           in (e - emin f) * 2 ^ fst f + round_half_even (q / 2 powi (e - int (fst f))))"

definition mag_value :: "fmt \<Rightarrow> int \<Rightarrow> rat" where
  "mag_value f b =
     (let e = b div 2 ^ fst f; m = b mod 2 ^ fst f
      in if e = 0 then of_int m * 2 powi (emin f - int (fst f))
         else of_int (2 ^ fst f + m) * 2 powi (e - 1 + emin f - int (fst f)))"

definition float_bits :: "fmt \<Rightarrow> flt \<Rightarrow> int res" where
  "float_bits f x =
     (let sign = 2 ^ (fst f + snd f)
      in case x of
        Fin q \<Rightarrow>
          (let m = mag_bits f \<bar>q\<bar>
           in if m \<ge> inf_mag f then Inl OverflowError else Inr (if q < 0 then sign + m else m))
      | PInf \<Rightarrow> Inr (inf_mag f)
      | NInf \<Rightarrow> Inr (sign + inf_mag f)
      | NaN \<Rightarrow> Inr (inf_mag f + 2 ^ (fst f - 1)))"

definition bits_float :: "fmt \<Rightarrow> int \<Rightarrow> flt" where
  "bits_float f b =
     (let sign = 2 ^ (fst f + snd f); neg = (b \<ge> sign); m = (if neg then b - sign else b)
      in if m < inf_mag f then Fin (if neg then - mag_value f m else mag_value f m)
         else if m = inf_mag f then (if neg then NInf else PInf) else NaN)"

lemma powi_less: "(2 :: rat) powi i < 2 powi j \<longleftrightarrow> i < j"
proof
  assume "i < j"
  then show "(2 :: rat) powi i < 2 powi j" by (simp add: power_int_strict_increasing)
next
  assume *: "(2 :: rat) powi i < 2 powi j"
  show "i < j"
  proof (rule ccontr)
    assume "\<not> i < j"
    then have "(2 :: rat) powi j \<le> 2 powi i" by (simp add: power_int_increasing)
    with * show False by simp
  qed
qed

lemma powi_add: "(2 :: rat) powi (i + j) = 2 powi i * 2 powi j"
  by (simp add: power_int_add)

lemma ilog2_bounds:
  assumes "0 < q"
  shows "2 powi ilog2 q \<le> q \<and> q < 2 powi (ilog2 q + 1)"
proof (cases "1 \<le> q")
  case True
  let ?n = "nat \<lfloor>q\<rfloor>" and ?k = "floorlog 2 (nat \<lfloor>q\<rfloor>)"
  have pos: "0 < ?n" using True by (simp add: le_floor_iff)
  then have k: "0 < ?k" by (simp add: floorlog_def)
  from floorlog_bounds [OF pos, of 2] have b: "2 ^ (?k - 1) \<le> ?n" "?n < 2 ^ ?k" by auto
  have "int (2 ^ (?k - 1)) \<le> \<lfloor>q\<rfloor>" using b(1) pos by linarith
  then have lo: "2 ^ (?k - 1) \<le> q" by (simp add: le_floor_iff)
  have "\<lfloor>q\<rfloor> < int (2 ^ ?k)" using b(2) by linarith
  then have hi: "q < 2 ^ ?k" by (simp add: floor_less_iff)
  have e: "ilog2 q = int (?k - 1)" "ilog2 q + 1 = int ?k" using True k by (simp_all add: ilog2_def of_nat_diff)
  then show ?thesis using lo hi unfolding e(2) unfolding e(1) by (simp only: power_int_of_nat simp_thms)
next
  case False
  let ?m = "nat (\<lceil>1 / q\<rceil> - 1)" and ?k = "floorlog 2 (nat (\<lceil>1 / q\<rceil> - 1))"
  have "1 < 1 / q" using False assms by simp
  then have pos: "0 < ?m" by (simp add: less_ceiling_iff)
  from floorlog_bounds [OF pos, of 2] have b: "2 ^ (?k - 1) \<le> ?m" "?m < 2 ^ ?k" by auto
  have k: "0 < ?k" using pos by (simp add: floorlog_def)
  have "int (2 ^ (?k - 1)) < \<lceil>1 / q\<rceil>" using b(1) pos by linarith
  then have lo: "2 ^ (?k - 1) < 1 / q" by (simp add: less_ceiling_iff)
  have "\<lceil>1 / q\<rceil> \<le> int (2 ^ ?k)" using b(2) pos by linarith
  then have hi: "1 / q \<le> 2 ^ ?k" by (simp add: ceiling_le_iff)
  have e: "ilog2 q = - int ?k" "ilog2 q + 1 = - int (?k - 1)" using False k by (simp_all add: ilog2_def of_nat_diff)
  then show ?thesis using lo hi assms unfolding e(2) unfolding e(1)
    by (simp only: power_int_minus power_int_of_nat) (simp add: field_simps)
qed

lemma ilog2_unique:
  assumes "2 powi e \<le> q" "q < 2 powi (e + 1)"
  shows "ilog2 q = e"
proof -
  have "0 < q" using assms(1) by (metis less_le_trans zero_less_power_int zero_less_numeral)
  from ilog2_bounds [OF this] assms have "2 powi e < (2 :: rat) powi (ilog2 q + 1)" "2 powi ilog2 q < (2 :: rat) powi (e + 1)"
    by linarith+
  then show ?thesis unfolding powi_less by linarith
qed

lemma mag_bits_value:
  assumes "0 \<le> b"
  shows "mag_bits f (mag_value f b) = b"
proof -
  obtain p w where f: "f = (p, w)" by (cases f)
  let ?E = "b div 2 ^ p" and ?m = "b mod 2 ^ p" and ?e0 = "emin f"
  have b: "b = ?E * 2 ^ p + ?m" by (rule div_mult_mod_eq [symmetric])
  have m: "0 \<le> ?m" "?m < 2 ^ p" by simp_all
  have E: "0 \<le> ?E" using assms by (simp add: pos_imp_zdiv_nonneg_iff)
  have pp: "(2 :: rat) powi int p = of_int (2 ^ p)" by simp
  have pp1: "(2 :: rat) powi (int p + 1) = of_int (2 ^ p * 2)" by (simp add: powi_add)
  show ?thesis
  proof (cases "?E = 0")
    case True
    then have q: "mag_value f b = of_int ?m * 2 powi (?e0 - int p)"
      by (simp add: mag_value_def f Let_def)
    show ?thesis
    proof (cases "?m = 0")
      case True
      then show ?thesis using \<open>?E = 0\<close> b q by (simp add: mag_bits_def)
    next
      case False
      then have m0: "0 < ?m" using m by linarith
      then have q0: "0 < mag_value f b" unfolding q by simp
      have "of_int ?m < (2 :: rat) powi int p" unfolding pp of_int_less_iff by (rule m)
      then have "mag_value f b < 2 powi int p * 2 powi (?e0 - int p)"
        unfolding q by simp
      also have "\<dots> = 2 powi ?e0" by (simp only: powi_add [symmetric]) simp
      finally have "2 powi ilog2 (mag_value f b) < (2 :: rat) powi ?e0"
        using ilog2_bounds [OF q0] by linarith
      then have "max ?e0 (ilog2 (mag_value f b)) = ?e0" unfolding powi_less by simp
      moreover have "mag_value f b / 2 powi (?e0 - int p) = of_int ?m" unfolding q by simp
      ultimately show ?thesis using q0 b \<open>?E = 0\<close>
        by (simp add: mag_bits_def f Let_def)
    qed
  next
    case False
    define k where "k = ?E - 1 + ?e0"
    have q: "mag_value f b = of_int (2 ^ p + ?m) * 2 powi (k - int p)"
      using False by (simp add: mag_value_def f Let_def k_def)
    have "(2 :: rat) powi int p \<le> of_int (2 ^ p + ?m)" "of_int (2 ^ p + ?m) < (2 :: rat) powi (int p + 1)"
      using m unfolding pp pp1 of_int_le_iff of_int_less_iff by simp_all
    then have "2 powi int p * 2 powi (k - int p) \<le> mag_value f b"
      "mag_value f b < 2 powi (int p + 1) * 2 powi (k - int p)"
      unfolding q by (simp_all add: mult_right_mono)
    moreover have "2 powi int p * 2 powi (k - int p) = (2 :: rat) powi k"
      "2 powi (int p + 1) * 2 powi (k - int p) = (2 :: rat) powi (k + 1)"
      by (simp_all only: powi_add [symmetric]) (simp_all add: add.commute)
    ultimately have k2: "2 powi k \<le> mag_value f b" "mag_value f b < 2 powi (k + 1)" by simp_all
    have "ilog2 (mag_value f b) = k" by (rule ilog2_unique [OF k2])
    moreover have "?e0 \<le> k" using False E k_def by linarith
    ultimately have "max ?e0 (ilog2 (mag_value f b)) = k" by simp
    moreover have "mag_value f b / 2 powi (k - int p) = of_int (2 ^ p + ?m)" unfolding q by simp
    moreover have "mag_value f b \<noteq> 0"
      using k2(1) by (metis not_le zero_less_power_int zero_less_numeral)
    ultimately have "mag_bits f (mag_value f b) = (k - ?e0) * 2 ^ p + (2 ^ p + ?m)"
      by (simp add: mag_bits_def f del: of_int_add)
    also have "\<dots> = ?E * 2 ^ p + ?m" by (simp add: k_def algebra_simps)
    finally show ?thesis using b by simp
  qed
qed

lemma mag_value_pos: "0 < b \<Longrightarrow> 0 < mag_value f b"
proof -
  assume b: "0 < b"
  have "b div 2 ^ fst f = 0 \<Longrightarrow> b mod 2 ^ fst f = b" by (metis add_0 div_mult_mod_eq mult_zero_left)
  moreover have "0 \<le> b mod 2 ^ fst f" by simp
  ultimately show ?thesis
    using b by (auto simp: mag_value_def Let_def simp del: of_int_add intro!: mult_pos_pos add_pos_nonneg)
qed

text \<open>Every bit pattern that is neither a NaN nor the negative zero survives a round trip.\<close>

lemma float_bits_bits_float:
  assumes "0 \<le> b" "b < 2 ^ (fst f + snd f + 1)" "bits_float f b \<noteq> NaN" "b \<noteq> 2 ^ (fst f + snd f)" "0 < snd f"
  shows "float_bits f (bits_float f b) = Inr b"
proof -
  let ?sign = "(2 :: int) ^ (fst f + snd f)"
  define m where "m = (if b \<ge> ?sign then b - ?sign else b)"
  have m: "0 \<le> m" using assms(1) by (simp add: m_def)
  have mb: "mag_bits f (mag_value f m) = m" by (rule mag_bits_value [OF m])
  have val: "bits_float f b = (if m < inf_mag f then Fin (if b \<ge> ?sign then - mag_value f m else mag_value f m)
      else if m = inf_mag f then (if b \<ge> ?sign then NInf else PInf) else NaN)"
    by (simp add: bits_float_def m_def Let_def)
  have abs: "\<bar>mag_value f m\<bar> = mag_value f m" "0 \<le> mag_value f m"
    using mag_value_pos [of m f] m by (cases "m = 0"; simp add: mag_value_def)+
  have neg: "0 < mag_value f m" if "b \<ge> ?sign"
    using assms(4) that by (intro mag_value_pos) (simp add: m_def)
  show ?thesis
    using assms(3) mb abs neg unfolding val
    by (auto simp: float_bits_def Let_def m_def split: if_splits)
qed

section \<open>The data types\<close>

datatype modbus_type =
    Int16 | UInt16 | Int32 | UInt32 | Int64 | UInt64 | Float32 | Float64
  | DynamicInt int | DynamicUInt int | ModbusString int

text \<open>The constructors check their argument.\<close>

fun type_valid :: "modbus_type \<Rightarrow> bool" where
  "type_valid (DynamicInt w) = (0 < w \<and> w mod 16 = 0)"
| "type_valid (DynamicUInt w) = (0 < w \<and> w mod 16 = 0)"
| "type_valid (ModbusString n) = (0 < n)"
| "type_valid _ = True"

fun register_count :: "modbus_type \<Rightarrow> nat" where
  "register_count Int16 = 1"
| "register_count UInt16 = 1"
| "register_count Int32 = 2"
| "register_count UInt32 = 2"
| "register_count Int64 = 4"
| "register_count UInt64 = 4"
| "register_count Float32 = 2"
| "register_count Float64 = 4"
| "register_count (DynamicInt w) = nat (w div 16)"
| "register_count (DynamicUInt w) = nat (w div 16)"
| "register_count (ModbusString n) = nat ((n + 1) div 2)"

text \<open>\<open>_min_value\<close>, \<open>_max_value\<close>.\<close>

fun int_range :: "modbus_type \<Rightarrow> int \<times> int" where
  "int_range Int16 = (-32768, 32767)"
| "int_range UInt16 = (0, 65535)"
| "int_range Int32 = (-2147483648, 2147483647)"
| "int_range UInt32 = (0, 4294967295)"
| "int_range Int64 = (-9223372036854775808, 9223372036854775807)"
| "int_range UInt64 = (0, 18446744073709551615)"
| "int_range (DynamicInt w) = (- (2 ^ nat (w - 1)), 2 ^ nat (w - 1) - 1)"
| "int_range (DynamicUInt w) = (0, 2 ^ nat w - 1)"
| "int_range _ = (0, 0)"

definition in_range :: "modbus_type \<Rightarrow> int \<Rightarrow> bool" where
  "in_range ty x = (fst (int_range ty) \<le> x \<and> x \<le> snd (int_range ty))"

definition int16_encode :: "pyval \<Rightarrow> byte_order \<Rightarrow> int list res" where
  "int16_encode v bo =
     (if \<not> is_int_val v then Inl ModbusEncodeError
      else if \<not> in_range Int16 (int_val v) then Inl ModbusEncodeError
      else rbind (pack_sint bo 2 (int_val v)) (\<lambda>packed. Inr [unpack_uint bo packed]))"

definition int16_decode :: "int list \<Rightarrow> byte_order \<Rightarrow> pyval res" where
  "int16_decode registers bo =
     (case registers of [] \<Rightarrow> Inl ModbusDecodeError
      | r # _ \<Rightarrow> rbind (pack_uint bo 2 r) (\<lambda>packed. Inr (PyInt (unpack_sint bo packed))))"

definition uint16_encode :: "pyval \<Rightarrow> int list res" where
  "uint16_encode v =
     (if \<not> is_int_val v then Inl ModbusEncodeError
      else if \<not> in_range UInt16 (int_val v) then Inl ModbusEncodeError
      else Inr [int_val v])"

definition uint16_decode :: "int list \<Rightarrow> pyval res" where
  "uint16_decode registers = (case registers of [] \<Rightarrow> Inl ModbusDecodeError | r # _ \<Rightarrow> Inr (PyInt r))"

text \<open>\<open>_MultiRegisterInt\<close>: signed formats \<open>i\<close>, \<open>q\<close>, unsigned formats \<open>I\<close>, \<open>Q\<close>.\<close>

definition pack_int :: "bool \<Rightarrow> byte_order \<Rightarrow> nat \<Rightarrow> int \<Rightarrow> 8 word list res" where
  "pack_int is_signed bo n v = (if is_signed then pack_sint bo n v else pack_uint bo n v)"

definition unpack_int :: "bool \<Rightarrow> byte_order \<Rightarrow> 8 word list \<Rightarrow> int" where
  "unpack_int is_signed bo bs = (if is_signed then unpack_sint bo bs else unpack_uint bo bs)"

definition multi_int_encode :: "bool \<Rightarrow> modbus_type \<Rightarrow> pyval \<Rightarrow> byte_order \<Rightarrow> register_order \<Rightarrow> int list res" where
  "multi_int_encode is_signed ty v bo ro =
     (if \<not> is_int_val v then Inl ModbusEncodeError
      else if \<not> in_range ty (int_val v) then Inl ModbusEncodeError
      else rbind (pack_int is_signed bo (2 * register_count ty) (int_val v))
        (\<lambda>packed. Inr (split_to_registers packed (register_count ty) bo ro)))"

definition multi_int_decode :: "bool \<Rightarrow> modbus_type \<Rightarrow> int list \<Rightarrow> byte_order \<Rightarrow> register_order \<Rightarrow> pyval res" where
  "multi_int_decode is_signed ty registers bo ro =
     (if length registers < register_count ty then Inl ModbusDecodeError
      else rbind (assemble_from_registers registers (register_count ty) bo ro)
        (\<lambda>packed. Inr (PyInt (unpack_int is_signed bo packed))))"

text \<open>\<open>_MultiRegisterFloat\<close>: a finite number must be given as a rational the format holds or rounds to.\<close>

definition multi_float_encode :: "fmt \<Rightarrow> modbus_type \<Rightarrow> pyval \<Rightarrow> byte_order \<Rightarrow> register_order \<Rightarrow> int list res" where
  "multi_float_encode f ty v bo ro =
     (if \<not> is_num_val v then Inl ModbusEncodeError
      else rbind (float_bits f (flt_val v)) (\<lambda>bits.
        Inr (split_to_registers (ordered bo (le_bytes (2 * register_count ty) bits)) (register_count ty) bo ro)))"

definition multi_float_decode :: "fmt \<Rightarrow> modbus_type \<Rightarrow> int list \<Rightarrow> byte_order \<Rightarrow> register_order \<Rightarrow> pyval res" where
  "multi_float_decode f ty registers bo ro =
     (if length registers < register_count ty then Inl ModbusDecodeError
      else rbind (assemble_from_registers registers (register_count ty) bo ro)
        (\<lambda>packed. Inr (PyFloat (bits_float f (unpack_uint bo packed)))))"

text \<open>\<open>_DynamicIntBase\<close>: the registers are cut off the low end.\<close>

fun low_registers :: "nat \<Rightarrow> int \<Rightarrow> int list" where
  "low_registers 0 raw = []"
| "low_registers (Suc n) raw = and raw 65535 # low_registers n (drop_bit 16 raw)"

fun or_registers :: "nat \<Rightarrow> int list \<Rightarrow> int \<Rightarrow> int" where
  "or_registers i [] value = value"
| "or_registers i (reg # regs) value = or_registers (Suc i) regs (or value (push_bit (16 * i) reg))"

definition high_ordered :: "register_order \<Rightarrow> 'a list \<Rightarrow> 'a list" where
  "high_ordered ro regs = (if ro = HIGH_FIRST then rev regs else regs)"

definition dynamic_encode :: "bool \<Rightarrow> int \<Rightarrow> modbus_type \<Rightarrow> pyval \<Rightarrow> register_order \<Rightarrow> int list res" where
  "dynamic_encode is_signed w ty v ro =
     (if \<not> is_int_val v then Inl ModbusEncodeError
      else if \<not> in_range ty (int_val v) then Inl ModbusEncodeError
      else let raw = (if is_signed \<and> int_val v < 0 then push_bit (nat w) 1 + int_val v else int_val v)
           in Inr (high_ordered ro (low_registers (register_count ty) raw)))"

definition dynamic_decode :: "bool \<Rightarrow> int \<Rightarrow> modbus_type \<Rightarrow> int list \<Rightarrow> register_order \<Rightarrow> pyval res" where
  "dynamic_decode is_signed w ty registers ro =
     (if length registers < register_count ty then Inl ModbusDecodeError
      else let value = or_registers 0 (high_ordered ro (take (register_count ty) registers)) 0
           in Inr (PyInt (if is_signed \<and> value \<ge> push_bit (nat (w - 1)) 1 then value - push_bit (nat w) 1 else value)))"

text \<open>\<open>ModbusString\<close> with the ASCII codec.\<close>

definition ascii_encode :: "string \<Rightarrow> 8 word list res" where
  "ascii_encode s = (if list_all (\<lambda>c. (of_char c :: nat) < 128) s then Inr (map of_char s) else Inl UnicodeEncodeError)"

definition ascii_decode :: "8 word list \<Rightarrow> string res" where
  "ascii_decode bs = (if list_all (\<lambda>b. unat b < 128) bs then Inr (map (\<lambda>b. char_of (unat b)) bs) else Inl UnicodeDecodeError)"

fun byte_pairs :: "byte_order \<Rightarrow> 8 word list \<Rightarrow> int list" where
  "byte_pairs bo (a # b # bs) =
     (if bo = BIG_ENDIAN then or (push_bit 8 (uint a)) (uint b) else or (uint a) (push_bit 8 (uint b))) # byte_pairs bo bs"
| "byte_pairs bo bs = []"

definition register_bytes :: "byte_order \<Rightarrow> int \<Rightarrow> 8 word list" where
  "register_bytes bo reg =
     (let hi = word_of_int (and (drop_bit 8 reg) 255); lo = word_of_int (and reg 255)
      in if bo = BIG_ENDIAN then [hi, lo] else [lo, hi])"

definition string_encode :: "int \<Rightarrow> pyval \<Rightarrow> byte_order \<Rightarrow> register_order \<Rightarrow> int list res" where
  "string_encode n v bo ro =
     (case v of
        PyStr s \<Rightarrow>
          (case ascii_encode s of
             Inl e \<Rightarrow> Inl ModbusEncodeError
           | Inr bs \<Rightarrow>
               if int (length bs) > n then Inl ModbusEncodeError
               else Inr (reg_ordered ro (byte_pairs bo
                 (bs @ replicate (2 * register_count (ModbusString n) - length bs) 0))))
      | _ \<Rightarrow> Inl ModbusEncodeError)"

definition rstrip_text :: "string \<Rightarrow> string" where
  "rstrip_text s = rstrip_when is_space (rstrip_when (\<lambda>c. (of_char c :: nat) = 0) s)"

definition string_decode :: "int \<Rightarrow> int list \<Rightarrow> byte_order \<Rightarrow> register_order \<Rightarrow> pyval res" where
  "string_decode n registers bo ro =
     (if length registers < register_count (ModbusString n) then Inl ModbusDecodeError
      else case ascii_decode (concat (map (register_bytes bo) (reg_ordered ro (take (register_count (ModbusString n)) registers)))) of
          Inl e \<Rightarrow> Inl ModbusDecodeError
        | Inr s \<Rightarrow> Inr (PyStr (rstrip_text s)))"

fun type_encode :: "modbus_type \<Rightarrow> pyval \<Rightarrow> byte_order \<Rightarrow> register_order \<Rightarrow> int list res" where
  "type_encode Int16 v bo ro = int16_encode v bo"
| "type_encode UInt16 v bo ro = uint16_encode v"
| "type_encode Int32 v bo ro = multi_int_encode True Int32 v bo ro"
| "type_encode UInt32 v bo ro = multi_int_encode False UInt32 v bo ro"
| "type_encode Int64 v bo ro = multi_int_encode True Int64 v bo ro"
| "type_encode UInt64 v bo ro = multi_int_encode False UInt64 v bo ro"
| "type_encode Float32 v bo ro = multi_float_encode (23, 8) Float32 v bo ro"
| "type_encode Float64 v bo ro = multi_float_encode (52, 11) Float64 v bo ro"
| "type_encode (DynamicInt w) v bo ro = dynamic_encode True w (DynamicInt w) v ro"
| "type_encode (DynamicUInt w) v bo ro = dynamic_encode False w (DynamicUInt w) v ro"
| "type_encode (ModbusString n) v bo ro = string_encode n v bo ro"

fun type_decode :: "modbus_type \<Rightarrow> int list \<Rightarrow> byte_order \<Rightarrow> register_order \<Rightarrow> pyval res" where
  "type_decode Int16 regs bo ro = int16_decode regs bo"
| "type_decode UInt16 regs bo ro = uint16_decode regs"
| "type_decode Int32 regs bo ro = multi_int_decode True Int32 regs bo ro"
| "type_decode UInt32 regs bo ro = multi_int_decode False UInt32 regs bo ro"
| "type_decode Int64 regs bo ro = multi_int_decode True Int64 regs bo ro"
| "type_decode UInt64 regs bo ro = multi_int_decode False UInt64 regs bo ro"
| "type_decode Float32 regs bo ro = multi_float_decode (23, 8) Float32 regs bo ro"
| "type_decode Float64 regs bo ro = multi_float_decode (52, 11) Float64 regs bo ro"
| "type_decode (DynamicInt w) regs bo ro = dynamic_decode True w (DynamicInt w) regs ro"
| "type_decode (DynamicUInt w) regs bo ro = dynamic_decode False w (DynamicUInt w) regs ro"
| "type_decode (ModbusString n) regs bo ro = string_decode n regs bo ro"

section \<open>\<open>ModbusCodec\<close>\<close>

definition or_default :: "'a option \<Rightarrow> 'a \<Rightarrow> 'a" where
  "or_default x d = (case x of None \<Rightarrow> d | Some y \<Rightarrow> y)"

definition codec_encode :: "modbus_type \<Rightarrow> pyval \<Rightarrow> byte_order option \<Rightarrow> register_order option \<Rightarrow> int list res" where
  "codec_encode ty v bo ro =
     (case type_encode ty v (or_default bo BIG_ENDIAN) (or_default ro HIGH_FIRST) of
        Inl e \<Rightarrow> Inl ModbusEncodeError | Inr regs \<Rightarrow> Inr regs)"

definition codec_decode :: "modbus_type \<Rightarrow> int list \<Rightarrow> byte_order option \<Rightarrow> register_order option \<Rightarrow> pyval res" where
  "codec_decode ty regs bo ro =
     (case type_decode ty regs (or_default bo BIG_ENDIAN) (or_default ro HIGH_FIRST) of
        Inl e \<Rightarrow> Inl ModbusDecodeError | Inr v \<Rightarrow> Inr v)"

section \<open>The contract of a register type\<close>

text \<open>
  What every client of a data type relies on: an encoding has the announced number of registers, each
  of 16 bits, and decoding it (with whatever registers follow) gives back the value in its normal form.
\<close>

locale register_type =
  fixes count :: nat
    and enc :: "pyval \<Rightarrow> int list res"
    and dec :: "int list \<Rightarrow> pyval res"
    and norm :: "pyval \<Rightarrow> pyval"
  assumes enc_registers: "enc v = Inr regs \<Longrightarrow> length regs = count \<and> list_all is_register regs"
    and dec_enc: "enc v = Inr regs \<Longrightarrow> dec (regs @ extra) = Inr (norm v)"
begin

lemma enc_inj: "enc v = Inr regs \<Longrightarrow> enc w = Inr regs \<Longrightarrow> norm v = norm w"
  using dec_enc [of v regs "[]"] dec_enc [of w regs "[]"] by simp

text \<open>Values laid out one after another are read back at multiples of the register count.\<close>

lemma dec_field:
  "list_all2 (\<lambda>v regs. enc v = Inr regs) vs rss \<Longrightarrow> i < length vs \<Longrightarrow>
    dec (drop (i * count) (concat rss)) = Inr (norm (vs ! i))"
proof (induction vs rss arbitrary: i rule: list_all2_induct)
  case (Cons v vs regs rss)
  have "length regs = count" using enc_registers [OF Cons.hyps(1)] by simp
  then show ?case
    using Cons dec_enc [OF Cons.hyps(1)] by (cases i) simp_all
qed simp

end

lemma reg_ordered_register: "list_all is_register regs \<Longrightarrow> list_all is_register (reg_ordered ro (ordered bo regs))"
  by (simp add: reg_ordered_def ordered_def list_all_iff)

lemma length_reg_ordered [simp]: "length (reg_ordered ro regs) = length regs"
  by (simp add: reg_ordered_def)

lemma pack_int_ordered: "pack_int sg bo n x = Inr bs \<Longrightarrow> bs = ordered bo (le_bytes n x)"
  by (auto simp: pack_int_def pack_sint_def pack_uint_def split: if_splits)

lemma unpack_pack_int: "0 < n \<Longrightarrow> pack_int sg bo n x = Inr bs \<Longrightarrow> unpack_int sg bo bs = x"
  by (auto simp: pack_int_def unpack_int_def unpack_pack_sint unpack_pack_uint split: if_splits)

lemma multi_int_laws:
  assumes "0 < register_count ty" "multi_int_encode sg ty v bo ro = Inr regs"
  shows "length regs = register_count ty \<and> list_all is_register regs
    \<and> multi_int_decode sg ty (regs @ extra) bo ro = Inr (PyInt (int_val v))"
proof -
  let ?n = "register_count ty" and ?bs = "le_bytes (2 * register_count ty) (int_val v)"
  have p: "pack_int sg bo (2 * ?n) (int_val v) = Inr (ordered bo ?bs)"
    and regs: "regs = reg_ordered ro (ordered bo (le_regs ?bs))"
    using assms(2) by (auto simp: multi_int_encode_def res_simps split_ordered dest: pack_int_ordered split: if_splits)
  moreover have "assemble_from_registers (regs @ extra) ?n bo ro = Inr (ordered bo ?bs)"
    unfolding regs by (rule assemble_ordered) simp
  ultimately show ?thesis
    using unpack_pack_int [OF _ p] assms(1)
    by (simp add: multi_int_decode_def reg_ordered_register le_regs_register)
qed

interpretation int32: register_type 2 "\<lambda>v. multi_int_encode True Int32 v bo ro"
  "\<lambda>regs. multi_int_decode True Int32 regs bo ro" "\<lambda>v. PyInt (int_val v)" for bo ro
  using multi_int_laws [of Int32] by unfold_locales auto

interpretation uint32: register_type 2 "\<lambda>v. multi_int_encode False UInt32 v bo ro"
  "\<lambda>regs. multi_int_decode False UInt32 regs bo ro" "\<lambda>v. PyInt (int_val v)" for bo ro
  using multi_int_laws [of UInt32] by unfold_locales auto

interpretation int64: register_type 4 "\<lambda>v. multi_int_encode True Int64 v bo ro"
  "\<lambda>regs. multi_int_decode True Int64 regs bo ro" "\<lambda>v. PyInt (int_val v)" for bo ro
  using multi_int_laws [of Int64] by unfold_locales auto

interpretation uint64: register_type 4 "\<lambda>v. multi_int_encode False UInt64 v bo ro"
  "\<lambda>regs. multi_int_decode False UInt64 regs bo ro" "\<lambda>v. PyInt (int_val v)" for bo ro
  using multi_int_laws [of UInt64] by unfold_locales auto

interpretation int16: register_type 1 "\<lambda>v. int16_encode v bo" "\<lambda>regs. int16_decode regs bo"
  "\<lambda>v. PyInt (int_val v)" for bo
proof unfold_locales
  fix v regs extra assume enc: "int16_encode v bo = Inr regs"
  let ?bs = "le_bytes 2 (int_val v)"
  have p: "pack_sint bo 2 (int_val v) = Inr (ordered bo ?bs)" and regs: "regs = [of_le ?bs]"
    using enc by (auto simp: int16_encode_def pack_sint_def res_simps unpack_uint_def split: if_splits)
  have r: "is_register (of_le ?bs)" using of_le_bounds [of ?bs] by (simp add: is_register_def)
  then have "pack_uint bo 2 (of_le ?bs) = Inr (ordered bo ?bs)"
    using le_bytes_of_le [of ?bs] by (simp add: pack_uint_def is_register_def)
  then show "int16_decode (regs @ extra) bo = Inr (PyInt (int_val v))"
    using unpack_pack_sint [OF _ p] by (simp add: int16_decode_def regs)
  show "length regs = 1 \<and> list_all is_register regs" using r by (simp add: regs)
qed

interpretation uint16: register_type 1 uint16_encode uint16_decode "\<lambda>v. PyInt (int_val v)"
  by unfold_locales (auto simp: uint16_encode_def uint16_decode_def in_range_def is_register_def split: if_splits)

section \<open>Dynamic integers\<close>

lemma or_push: "0 \<le> x \<Longrightarrow> x < 2 ^ n \<Longrightarrow> or x (push_bit n y) = x + push_bit n (y :: int)"
proof -
  assume "0 \<le> x" "x < 2 ^ n"
  then have "take_bit n x = x" by (simp add: take_bit_int_eq_self)
  then show ?thesis using concat_bit_eq [of n x y] concat_bit_def [of n x y] by simp
qed

lemma and_65535: "and x 65535 = (x :: int) mod 65536"
  using take_bit_eq_mask [of 16 x] by (simp add: mask_eq_exp_minus_1 take_bit_eq_mod)

lemma low_registers_laws: "length (low_registers n x) = n \<and> list_all is_register (low_registers n x)"
  by (induction n arbitrary: x) (auto simp: and_65535 is_register_def)

lemma or_low_registers:
  "0 \<le> a \<Longrightarrow> a < 2 ^ (16 * i) \<Longrightarrow> or_registers i (low_registers n x) a = a + 2 ^ (16 * i) * (x mod 2 ^ (16 * n))"
proof (induction n arbitrary: i x a)
  case (Suc n)
  let ?a = "a + push_bit (16 * i) (x mod 65536)"
  have digit: "0 \<le> x mod 65536" "x mod 65536 < 65536" by simp_all
  have push: "push_bit (16 * i) (x mod 65536) = 2 ^ (16 * i) * (x mod 65536)"
    by (simp add: push_bit_eq_mult mult.commute)
  have orp: "or a (2 ^ (16 * i) * (x mod 65536)) = a + 2 ^ (16 * i) * (x mod 65536)"
    using or_push [OF Suc.prems] unfolding push [symmetric] .
  have "2 ^ (16 * i) * (x mod 65536) \<le> 2 ^ (16 * i) * 65535"
    using digit by (intro mult_left_mono) auto
  moreover have "(2 :: int) ^ (16 * Suc i) = 2 ^ (16 * i) * 65535 + 2 ^ (16 * i)" by (simp add: power_add)
  ultimately have "?a < 2 ^ (16 * Suc i)"
    using Suc.prems unfolding push by linarith
  then have bound: "0 \<le> ?a" "?a < 2 ^ (16 * Suc i)"
    using Suc.prems digit unfolding push by simp_all
  have "x mod (65536 * 2 ^ (16 * n)) = 65536 * (x div 65536 mod 2 ^ (16 * n)) + x mod 65536"
    by (rule zmod_zmult2_eq) simp
  moreover have "(2 :: int) ^ (16 * Suc n) = 65536 * 2 ^ (16 * n)" "(2 :: int) ^ (16 * Suc i) = 65536 * 2 ^ (16 * i)"
    by (simp_all add: power_add)
  moreover have "drop_bit 16 x = x div 65536" by (simp add: drop_bit_eq_div)
  ultimately show ?case
    using Suc.IH [OF bound, of "drop_bit 16 x"] Suc.prems
    by (simp add: and_65535 orp push distrib_left mult.assoc mult.left_commute del: mult_Suc_right)
qed simp

lemma dynamic_laws:
  assumes "type_valid ty" "ty = (if sg then DynamicInt w else DynamicUInt w)" "dynamic_encode sg w ty v ro = Inr regs"
  shows "length regs = register_count ty \<and> list_all is_register regs
    \<and> dynamic_decode sg w ty (regs @ extra) ro = Inr (PyInt (int_val v))"
proof -
  let ?n = "register_count ty"
  obtain k where k: "w = 16 * int k" "0 < k"
  proof
    show "w = 16 * int (nat (w div 16))" "0 < nat (w div 16)"
      using assms(1,2) by (auto split: if_splits)
  qed
  have n: "?n = k" using assms(2) k by (auto split: if_splits)
  define x where "x = int_val v"
  define raw where "raw = (if sg \<and> x < 0 then 2 ^ (16 * k) + x else x)"
  obtain h where h: "(2 :: int) ^ (16 * k) = 2 * h" "(2 :: int) ^ nat (w - 1) = h" "0 < h"
  proof -
    have "nat (w - 1) = 16 * k - 1" using k by linarith
    moreover have "(2 :: int) ^ (16 * k) = 2 * 2 ^ (16 * k - 1)"
      using k(2) by (simp flip: power_Suc)
    ultimately show ?thesis using that [of "2 ^ (16 * k - 1)"] by simp
  qed
  have range: "if sg then - h \<le> x \<and> x \<le> h - 1 else 0 \<le> x \<and> x \<le> 2 * h - 1"
    and regs: "regs = high_ordered ro (low_registers k raw)"
    using assms(2,3) h k by (auto simp: dynamic_encode_def in_range_def raw_def x_def n push_bit_eq_mult nat_mult_distrib split: if_splits)
  have raw: "0 \<le> raw" "raw < 2 * h" using range h by (auto simp: raw_def split: if_splits)
  have "or_registers 0 (low_registers k raw) 0 = raw"
    using or_low_registers [of 0 0 k raw] raw h by simp
  then show ?thesis
    using low_registers_laws [of k raw] range h k
    by (auto simp: regs n dynamic_decode_def high_ordered_def list_all_iff Let_def push_bit_eq_mult raw_def x_def nat_mult_distrib)
qed

lemma dynamic_count: "register_count (DynamicInt (16 * (int k + 1))) = Suc k" "register_count (DynamicUInt (16 * (int k + 1))) = Suc k"
  by (simp_all add: nat_add_distrib)

interpretation dynamic_int: register_type "Suc k" "\<lambda>v. dynamic_encode True (16 * (int k + 1)) (DynamicInt (16 * (int k + 1))) v ro"
  "\<lambda>regs. dynamic_decode True (16 * (int k + 1)) (DynamicInt (16 * (int k + 1))) regs ro" "\<lambda>v. PyInt (int_val v)" for k ro
  using dynamic_laws [of "DynamicInt (16 * (int k + 1))" True "16 * (int k + 1)"]
  unfolding dynamic_count by unfold_locales auto

interpretation dynamic_uint: register_type "Suc k" "\<lambda>v. dynamic_encode False (16 * (int k + 1)) (DynamicUInt (16 * (int k + 1))) v ro"
  "\<lambda>regs. dynamic_decode False (16 * (int k + 1)) (DynamicUInt (16 * (int k + 1))) regs ro" "\<lambda>v. PyInt (int_val v)" for k ro
  using dynamic_laws [of "DynamicUInt (16 * (int k + 1))" False "16 * (int k + 1)"]
  unfolding dynamic_count by unfold_locales auto

section \<open>Strings\<close>

lemma byte_pairs_laws:
  "even (length bs) \<Longrightarrow> concat (map (register_bytes bo) (byte_pairs bo bs)) = bs
    \<and> list_all is_register (byte_pairs bo bs) \<and> length (byte_pairs bo bs) = length bs div 2"
proof (induction bo bs rule: byte_pairs.induct)
  case (1 bo a b bs)
  have r: "0 \<le> uint a" "uint a < 256" "0 \<le> uint b" "uint b < 256"
    using uint_lt2p [of a] uint_lt2p [of b] by auto
  have pair: "or (push_bit 8 (uint a)) (uint b) = uint b + 256 * uint a" "or (uint a) (push_bit 8 (uint b)) = uint a + 256 * uint b"
    using or_push [of "uint b" 8 "uint a"] or_push [of "uint a" 8 "uint b"] r
    by (simp_all add: or.commute push_bit_eq_mult)
  have digits: "and (drop_bit 8 (x + 256 * y)) 255 = y" "and (x + 256 * y) 255 = x"
    if "0 \<le> x" "x < 256" "0 \<le> y" "y < 256" for x y :: int
    using that take_bit_eq_mask [of 8 "x + 256 * y"] take_bit_eq_mask [of 8 "(x + 256 * y) div 256"]
    by (simp_all add: mask_eq_exp_minus_1 take_bit_eq_mod drop_bit_eq_div)
  show ?case
    using 1 r digits [OF r(3,4,1,2)] digits [OF r]
    by (cases bo) (auto simp: register_bytes_def pair Let_def is_register_def simp del: One_nat_def)
qed simp_all

lemma dropWhile_replicate: "p c \<Longrightarrow> dropWhile p (replicate k c @ xs) = dropWhile p xs"
  by (induction k) simp_all

lemma rstrip_when_replicate: "p c \<Longrightarrow> rstrip_when p (s @ replicate k c) = rstrip_when p s"
  by (simp add: rstrip_when_def dropWhile_replicate)

lemma unat_of_char: "unat (of_char c :: 8 word) = of_char c"
proof -
  have "(of_char c :: 8 word) = of_nat (of_char c)" by (simp add: of_nat_of_char)
  then show ?thesis using nat_of_char_less_256 [of c] by (simp only: unat_of_nat) simp
qed

lemma char_byte: "char_of (unat (of_char c :: 8 word)) = c"
  by (simp add: unat_of_char)

interpretation modbus_string: register_type "register_count (ModbusString n)" "\<lambda>v. string_encode n v bo ro"
  "\<lambda>regs. string_decode n regs bo ro" "\<lambda>v. case v of PyStr s \<Rightarrow> PyStr (rstrip_text s) | _ \<Rightarrow> v" for n bo ro
proof unfold_locales
  fix v regs extra assume enc: "string_encode n v bo ro = Inr regs"
  let ?count = "register_count (ModbusString n)"
  obtain s where v: "v = PyStr s" using enc by (auto simp: string_encode_def split: pyval.splits)
  let ?bs = "map of_char s :: 8 word list"
  let ?pad = "?bs @ replicate (2 * ?count - length ?bs) 0"
  have ascii: "list_all (\<lambda>c. (of_char c :: nat) < 128) s" and len: "int (length s) \<le> n"
    and regs: "regs = reg_ordered ro (byte_pairs bo ?pad)"
    using enc by (auto simp: v string_encode_def ascii_encode_def split: if_splits)
  have "length s \<le> 2 * ?count" using len by simp
  then have pad: "length ?pad = 2 * ?count" by simp
  then have laws: "concat (map (register_bytes bo) (byte_pairs bo ?pad)) = ?pad" "list_all is_register (byte_pairs bo ?pad)"
    "length (byte_pairs bo ?pad) = ?count"
    using byte_pairs_laws [of ?pad bo] by simp_all
  show "length regs = ?count \<and> list_all is_register regs"
    using laws by (simp add: regs reg_ordered_def)
  have "ascii_decode ?pad = Inr (s @ replicate (2 * ?count - length s) (char_of (0 :: nat)))"
    using ascii by (auto simp: ascii_decode_def list_all_iff unat_of_char comp_def)
  moreover have "reg_ordered ro (take ?count (regs @ extra)) = byte_pairs bo ?pad"
    using laws(3) by (simp add: regs reg_ordered_def)
  ultimately show "string_decode n (regs @ extra) bo ro = Inr (case v of PyStr s \<Rightarrow> PyStr (rstrip_text s) | _ \<Rightarrow> v)"
    using laws by (simp add: string_decode_def regs v rstrip_text_def rstrip_when_replicate)
qed

section \<open>Properties of the codec\<close>

fun canonical :: "modbus_type \<Rightarrow> pyval \<Rightarrow> pyval" where
  "canonical (ModbusString n) v = (case v of PyStr s \<Rightarrow> PyStr (rstrip_text s) | _ \<Rightarrow> v)"
| "canonical ty v = PyInt (int_val v)"

lemma codec_ok: "codec_encode ty v bo ro = Inr regs \<longleftrightarrow>
    type_encode ty v (or_default bo BIG_ENDIAN) (or_default ro HIGH_FIRST) = Inr regs"
  by (auto simp: codec_encode_def split: sum.splits)

lemma codec_decode_ok: "type_decode ty regs (or_default bo BIG_ENDIAN) (or_default ro HIGH_FIRST) = Inr v \<Longrightarrow>
    codec_decode ty regs bo ro = Inr v"
  by (simp add: codec_decode_def)

lemma dynamic_width: "0 < w \<Longrightarrow> 16 dvd w \<Longrightarrow> \<exists>k. w = 16 * (int k + 1)"
  by (rule exI [of _ "nat (w div 16 - 1)"]) auto

lemma type_laws:
  assumes "type_valid ty" "ty \<noteq> Float32" "ty \<noteq> Float64" "type_encode ty v bo ro = Inr regs"
  shows "length regs = register_count ty \<and> list_all is_register regs
    \<and> type_decode ty (regs @ extra) bo ro = Inr (canonical ty v)"
proof (cases ty)
  case (DynamicInt w)
  then obtain k where "w = 16 * (int k + 1)" using assms(1) dynamic_width [of w] by (auto simp del: dvd_imp_mod_0)
  then show ?thesis
    using dynamic_int.enc_registers dynamic_int.dec_enc assms(4) DynamicInt by (simp add: nat_add_distrib)
next
  case (DynamicUInt w)
  then obtain k where "w = 16 * (int k + 1)" using assms(1) dynamic_width [of w] by (auto simp del: dvd_imp_mod_0)
  then show ?thesis
    using dynamic_uint.enc_registers dynamic_uint.dec_enc assms(4) DynamicUInt by (simp add: nat_add_distrib)
next
  case Int16
  then show ?thesis using int16.enc_registers int16.dec_enc assms(4) by simp
next
  case UInt16
  then show ?thesis using uint16.enc_registers uint16.dec_enc assms(4) by simp
next
  case Int32
  then show ?thesis using int32.enc_registers int32.dec_enc assms(4) by simp
next
  case UInt32
  then show ?thesis using uint32.enc_registers uint32.dec_enc assms(4) by simp
next
  case Int64
  then show ?thesis using int64.enc_registers int64.dec_enc assms(4) by simp
next
  case UInt64
  then show ?thesis using uint64.enc_registers uint64.dec_enc assms(4) by simp
next
  case (ModbusString n)
  then show ?thesis using modbus_string.enc_registers modbus_string.dec_enc assms(4) by simp
qed (use assms in simp_all)

lemma codec_laws:
  assumes "type_valid ty" "ty \<noteq> Float32 \<and> ty \<noteq> Float64" "codec_encode ty v bo ro = Inr regs"
  shows "length regs = register_count ty \<and> list_all is_register regs
    \<and> codec_decode ty (regs @ extra) bo ro = Inr (canonical ty v)"
  using type_laws [OF assms(1)] assms(2,3) by (simp add: codec_ok codec_decode_ok)

text \<open>
  C14. Every integer type (fixed and dynamic) and the string type round-trip through the codec in every
  byte and register order: an accepted value becomes exactly the announced number of 16-bit registers,
  and decoding them, whatever registers follow, gives the value back (a bool as its integer, a text
  without trailing whitespace and NULs).
\<close>

theorem codec_roundtrip:
  assumes "type_valid ty" "ty \<noteq> Float32" "ty \<noteq> Float64" "codec_encode ty v bo ro = Inr regs"
  shows "length regs = register_count ty \<and> list_all is_register regs
    \<and> codec_decode ty (regs @ extra) bo ro = Inr (canonical ty v)"
  using codec_laws [OF assms(1)] assms(2-4) by blast

lemma int32_minus_two:
  "codec_encode Int32 (PyInt (- 2)) None (Some LOW_FIRST) = Inr [65534, 65535]"
  by code_simp

theorem codec_roundtrip_witness:
  "codec_decode Int32 [65534, 65535, 7] None (Some LOW_FIRST) = Inr (PyInt (- 2))"
  using codec_roundtrip [of Int32, OF _ _ _ int32_minus_two, of "[7]"] by simp

lemma le_regs_surj:
  "list_all is_register rs \<Longrightarrow> \<exists>bs. length bs = 2 * length rs \<and> le_regs bs = rs"
proof (induction rs)
  case (Cons r rs)
  then obtain bs where bs: "length bs = 2 * length rs" "le_regs bs = rs" by auto
  have r: "0 \<le> r" "r < 65536" using Cons.prems by (simp_all add: is_register_def)
  have "of_le (le_bytes 2 r) = r" using r by (simp add: of_le_le_bytes)
  then have "uint (word_of_int r :: 8 word) + 256 * uint (word_of_int (r div 256) :: 8 word) = r"
    by (simp add: numeral_2_eq_2)
  then show ?case using bs
    by (intro exI [of _ "word_of_int r # word_of_int (r div 256) # bs"]) simp
qed simp

lemma ordered_surj: "\<exists>ys. reg_ordered ro (ordered bo ys) = xs"
  by (rule exI [of _ "ordered bo (reg_ordered ro xs)"]) (simp add: reg_ordered_def ordered_def)

lemma float_laws:
  assumes "list_all is_register regs" "length regs = register_count ty" "2 * register_count ty * 8 = fst f + snd f + 1" "0 < snd f"
    and "multi_float_decode f ty regs bo ro = Inr (PyFloat x)" "x \<noteq> NaN" "x \<noteq> Fin 0"
  shows "multi_float_encode f ty (PyFloat x) bo ro = Inr regs"
proof -
  let ?n = "register_count ty"
  obtain ys where ys: "reg_ordered ro (ordered bo ys) = regs" using ordered_surj by blast
  then have "list_all is_register ys" "length ys = ?n"
    using assms(1,2) by (auto simp: reg_ordered_def ordered_def list_all_iff split: if_splits)
  then obtain bs where bs: "length bs = 2 * ?n" "le_regs bs = ys" using le_regs_surj by metis
  have "assemble_from_registers regs ?n bo ro = Inr (ordered bo bs)"
    using assemble_ordered [OF bs(1), of ro bo "[]"] by (simp add: bs(2) ys)
  then have x: "x = bits_float f (of_le bs)"
    using assms(2,5) by (simp add: multi_float_decode_def unpack_uint_def)
  have p256: "(256 :: int) ^ (2 * ?n) = 2 ^ (fst f + snd f + 1)"
  proof -
    have "(256 :: int) ^ (2 * ?n) = (2 ^ 8) ^ (2 * ?n)" by simp
    also have "\<dots> = 2 ^ (2 * ?n * 8)" by (simp only: power_mult [symmetric] mult.commute [of 8])
    finally show ?thesis unfolding assms(3) .
  qed
  have b: "0 \<le> of_le bs" "of_le bs < 2 ^ (fst f + snd f + 1)"
    using of_le_bounds [of bs] unfolding bs(1) p256 by simp_all
  have "bits_float f (2 ^ (fst f + snd f)) = Fin 0"
    using assms(4) by (simp add: bits_float_def mag_value_def Let_def inf_mag_def)
  then have "of_le bs \<noteq> 2 ^ (fst f + snd f)" using assms(7) x by auto
  then have "float_bits f x = Inr (of_le bs)"
    using float_bits_bits_float [OF b] assms(4,6) by (simp add: x)
  then show ?thesis
    using le_bytes_of_le [of bs] split_ordered [OF bs(1), of bo ro] by (simp add: multi_float_encode_def bs ys)
qed

text \<open>
  The IEEE 754 types are exact on registers: any register block that decodes to a float other than
  NaN and zero (whose sign is not modelled) is what that float encodes to again, in every byte and
  register order, subnormal numbers and infinities included.
\<close>

theorem float_registers_roundtrip:
  assumes "ty = Float32 \<or> ty = Float64" "list_all is_register regs" "length regs = register_count ty"
    and "codec_decode ty regs bo ro = Inr (PyFloat x)" "x \<noteq> NaN" "x \<noteq> Fin 0"
  shows "codec_encode ty (PyFloat x) bo ro = Inr regs"
proof -
  have "type_decode ty regs (or_default bo BIG_ENDIAN) (or_default ro HIGH_FIRST) = Inr (PyFloat x)"
    using assms(4) by (auto simp: codec_decode_def split: sum.splits)
  then show ?thesis
    using assms(1,2,3,5,6) float_laws [of regs Float32 "(23, 8)"] float_laws [of regs Float64 "(52, 11)"]
    unfolding codec_ok by auto
qed

lemma float32_three_halves: "codec_decode Float32 [16320, 0] None None = Inr (PyFloat (Fin (3 / 2)))"
  by code_simp

theorem float_registers_roundtrip_witness:
  "codec_encode Float32 (PyFloat (Fin (3 / 2))) None None = Inr [16320, 0]"
  using float_registers_roundtrip [OF _ _ _ float32_three_halves] by (simp add: is_register_def)

text \<open>
  For the types of several registers the byte order never swaps the bytes of a register: little-endian
  is exactly big-endian with the other register order, so little-endian with the high register first
  sends the low register first. For the one-register and the dynamic types it has no effect.
\<close>

theorem byte_order_is_register_order:
  assumes "\<forall>n. ty \<noteq> ModbusString n" "\<forall>w. ty \<noteq> DynamicInt w" "\<forall>w. ty \<noteq> DynamicUInt w"
  shows "type_encode ty v LITTLE_ENDIAN HIGH_FIRST = type_encode ty v BIG_ENDIAN LOW_FIRST
    \<and> type_encode ty v LITTLE_ENDIAN LOW_FIRST = type_encode ty v BIG_ENDIAN HIGH_FIRST"
proof -
  have split: "split_to_registers (ordered LITTLE_ENDIAN (le_bytes (2 * n) x)) n LITTLE_ENDIAN HIGH_FIRST
      = split_to_registers (ordered BIG_ENDIAN (le_bytes (2 * n) x)) n BIG_ENDIAN LOW_FIRST"
    "split_to_registers (ordered LITTLE_ENDIAN (le_bytes (2 * n) x)) n LITTLE_ENDIAN LOW_FIRST
      = split_to_registers (ordered BIG_ENDIAN (le_bytes (2 * n) x)) n BIG_ENDIAN HIGH_FIRST" for n x
    by (simp_all add: split_ordered) (simp_all add: reg_ordered_def ordered_def)
  have float: "multi_float_encode f t v LITTLE_ENDIAN HIGH_FIRST = multi_float_encode f t v BIG_ENDIAN LOW_FIRST"
    "multi_float_encode f t v LITTLE_ENDIAN LOW_FIRST = multi_float_encode f t v BIG_ENDIAN HIGH_FIRST" for f t
    by (simp_all add: multi_float_encode_def split)
  have int: "multi_int_encode sg t v LITTLE_ENDIAN HIGH_FIRST = multi_int_encode sg t v BIG_ENDIAN LOW_FIRST"
    "multi_int_encode sg t v LITTLE_ENDIAN LOW_FIRST = multi_int_encode sg t v BIG_ENDIAN HIGH_FIRST" for sg t
    by (simp_all add: multi_int_encode_def pack_int_def pack_sint_def pack_uint_def split)
  have "int16_encode v LITTLE_ENDIAN = int16_encode v BIG_ENDIAN"
    by (simp add: int16_encode_def pack_sint_def unpack_uint_def)
  then show ?thesis using assms float int by (cases ty) auto
qed

theorem byte_order_is_register_order_witness:
  "type_encode Int32 (PyInt 1) LITTLE_ENDIAN HIGH_FIRST = type_encode Int32 (PyInt 1) BIG_ENDIAN LOW_FIRST"
  using byte_order_is_register_order [of Int32 "PyInt 1"] by simp

end
