(* ===== verification/Alarm_State.thy ===== *)
theory Alarm_State
  imports Csp_Prelude "HOL-Library.Sublist"
begin

text \<open>
  \<open>csp_lib/equipment/alarm\<close>: alarm definitions, the three evaluators that turn a reading into
  \<open>{code: triggered}\<close>, the hysteresis of one alarm and the manager of a device's alarms. Times are
  seconds; the current time is an argument of the operations that read the clock.
\<close>

section \<open>Definitions (\<open>definition.py\<close>)\<close>

datatype alarm_level = INFO | WARNING | ALARM

record hysteresis =
  activate_threshold :: int
  clear_threshold :: int

text \<open>\<open>HysteresisConfig.__post_init__\<close>.\<close>

definition hysteresis_valid :: "hysteresis \<Rightarrow> bool" where
  "hysteresis_valid h = (1 \<le> activate_threshold h \<and> 1 \<le> clear_threshold h)"

record alarm_def =
  al_code :: string
  al_name :: string
  al_level :: alarm_level
  al_hysteresis :: hysteresis
  al_description :: string

section \<open>Evaluators (\<open>evaluator.py\<close>)\<close>

text \<open>\<open>int(value)\<close> and \<open>float(value)\<close> under \<open>except (TypeError, ValueError)\<close>.\<close>

definition or_unreadable :: "'a res \<Rightarrow> 'a option res" where
  "or_unreadable r = (case r of Inl TypeError \<Rightarrow> Inr None | Inl ValueError \<Rightarrow> Inr None
     | Inl e \<Rightarrow> Inl e | Inr x \<Rightarrow> Inr (Some x))"

definition as_int :: "pyval \<Rightarrow> int option res" where
  "as_int v = (if is_int_val v then Inr (Some (int_val v)) else or_unreadable (py_int v))"

fun bit_results :: "int \<Rightarrow> (int \<times> alarm_def) list \<Rightarrow> (string \<times> bool) list \<Rightarrow> (string \<times> bool) list res" where
  "bit_results x [] out = Inr out"
| "bit_results x ((pos, a) # bits) out =
     (if pos < 0 then Inl ValueError
      else bit_results x bits (dict_set (al_code a) (odd (drop_bit (nat pos) x)) out))"

definition bitmask_evaluate :: "(int \<times> alarm_def) list \<Rightarrow> pyval \<Rightarrow> (string \<times> bool) list res" where
  "bitmask_evaluate bits v =
     (if v = PyNone then Inr []
      else rbind (as_int v) (\<lambda>x. case x of None \<Rightarrow> Inr [] | Some x \<Rightarrow> bit_results x bits []))"

definition table_evaluate :: "(int \<times> alarm_def) list \<Rightarrow> pyval \<Rightarrow> (string \<times> bool) list res" where
  "table_evaluate tbl v =
     (if v = PyNone then Inr []
      else let result = fold (\<lambda>(k, a). dict_set (al_code a) False) tbl []
        in rbind (as_int v) (\<lambda>x. case x of None \<Rightarrow> Inr result
             | Some x \<Rightarrow> (case dict_get tbl x of None \<Rightarrow> Inr result
                 | Some a \<Rightarrow> Inr (dict_set (al_code a) True result))))"

definition bitmask_alarms :: "(int \<times> alarm_def) list \<Rightarrow> alarm_def list" where
  "bitmask_alarms bits = map snd bits"

definition table_alarms :: "(int \<times> alarm_def) list \<Rightarrow> alarm_def list" where
  "table_alarms tbl = map snd tbl"

datatype operator = GT | GE | LT | LE | EQ | NE

record threshold_condition =
  tc_alarm :: alarm_def
  tc_operator :: operator
  tc_value :: flt

definition check :: "threshold_condition \<Rightarrow> flt \<Rightarrow> bool" where
  "check c x = (case tc_operator c of
       GT \<Rightarrow> tc_value c < x | GE \<Rightarrow> tc_value c \<le> x | LT \<Rightarrow> x < tc_value c | LE \<Rightarrow> x \<le> tc_value c
     | EQ \<Rightarrow> feq x (tc_value c) | NE \<Rightarrow> \<not> feq x (tc_value c))"

definition threshold_evaluate :: "threshold_condition list \<Rightarrow> pyval \<Rightarrow> (string \<times> bool) list res" where
  "threshold_evaluate conds v =
     (if v = PyNone then Inr []
      else rbind (if is_num_val v then Inr (Some (flt_val v)) else or_unreadable (py_float v))
        (\<lambda>x. case x of None \<Rightarrow> Inr []
           | Some x \<Rightarrow> Inr (fold (\<lambda>c. dict_set (al_code (tc_alarm c)) (check c x)) conds [])))"

definition threshold_alarms :: "threshold_condition list \<Rightarrow> alarm_def list" where
  "threshold_alarms conds = map tc_alarm conds"

section \<open>One alarm (\<open>state.py\<close>)\<close>

datatype alarm_event_type = TRIGGERED | CLEARED

record alarm_event =
  ev_type :: alarm_event_type
  ev_alarm :: alarm_def
  ev_time :: rat

record alarm_state =
  as_definition :: alarm_def
  is_active :: bool
  activate_count :: int
  clear_count :: int
  activated_at :: "rat option"
  cleared_at :: "rat option"
  last_triggered_at :: "rat option"

definition alarm_state_init :: "alarm_def \<Rightarrow> alarm_state" where
  "alarm_state_init a = \<lparr>as_definition = a, is_active = False, activate_count = 0, clear_count = 0,
     activated_at = None, cleared_at = None, last_triggered_at = None\<rparr>"

definition duration :: "rat \<Rightarrow> alarm_state \<Rightarrow> rat option" where
  "duration now st = (case activated_at st of None \<Rightarrow> None
     | Some t \<Rightarrow> Some ((case cleared_at st of None \<Rightarrow> now | Some e \<Rightarrow> e) - t))"

definition update_state :: "rat \<Rightarrow> bool \<Rightarrow> alarm_state \<Rightarrow> alarm_state \<times> alarm_event option" where
  "update_state now is_triggered st =
     (let h = al_hysteresis (as_definition st)
      in if is_triggered then
        (let st1 = st\<lparr>activate_count := activate_count st + 1, clear_count := 0, last_triggered_at := Some now\<rparr>
         in if \<not> is_active st1 \<and> activate_count st1 \<ge> activate_threshold h
            then (st1\<lparr>is_active := True, activated_at := Some now, cleared_at := None\<rparr>,
                  Some \<lparr>ev_type = TRIGGERED, ev_alarm = as_definition st, ev_time = now\<rparr>)
            else (st1, None))
      else
        (let st1 = st\<lparr>clear_count := clear_count st + 1, activate_count := 0\<rparr>
         in if is_active st1 \<and> clear_count st1 \<ge> clear_threshold h
            then (st1\<lparr>is_active := False, cleared_at := Some now\<rparr>,
                  Some \<lparr>ev_type = CLEARED, ev_alarm = as_definition st, ev_time = now\<rparr>)
            else (st1, None)))"

definition force_clear :: "rat \<Rightarrow> alarm_state \<Rightarrow> alarm_state \<times> alarm_event option" where
  "force_clear now st =
     (if is_active st
      then (st\<lparr>is_active := False, activate_count := 0, clear_count := 0, cleared_at := Some now\<rparr>,
            Some \<lparr>ev_type = CLEARED, ev_alarm = as_definition st, ev_time = now\<rparr>)
      else (st, None))"

section \<open>The manager\<close>

type_synonym alarm_manager = "(string \<times> alarm_state) list"

definition register_alarm :: "alarm_def \<Rightarrow> alarm_manager \<Rightarrow> alarm_manager res" where
  "register_alarm a m =
     (if dict_get m (al_code a) \<noteq> None then Inl KeyError
      else Inr (dict_set (al_code a) (alarm_state_init a) m))"

text \<open>The states after the call, and whether it raised: a duplicate inside the list raises half-way.\<close>

fun register_each :: "alarm_def list \<Rightarrow> alarm_manager \<Rightarrow> alarm_manager \<times> bool" where
  "register_each [] m = (m, False)"
| "register_each (a # as) m = (case register_alarm a m of Inl e \<Rightarrow> (m, True) | Inr m' \<Rightarrow> register_each as m')"

definition register_alarms :: "alarm_def list \<Rightarrow> alarm_manager \<Rightarrow> alarm_manager \<times> bool" where
  "register_alarms as m =
     (if filter (\<lambda>a. dict_get m (al_code a) \<noteq> None) as \<noteq> [] then (m, True) else register_each as m)"

fun update_alarms :: "rat \<Rightarrow> (string \<times> bool) list \<Rightarrow> alarm_manager \<Rightarrow> alarm_manager \<times> alarm_event list" where
  "update_alarms now [] m = (m, [])"
| "update_alarms now ((code, trig) # evals) m =
     (case dict_get m code of
        None \<Rightarrow> update_alarms now evals m
      | Some st \<Rightarrow>
          let (st', ev) = update_state now trig st;
              (m', evs) = update_alarms now evals (dict_set code st' m)
          in (m', (case ev of None \<Rightarrow> evs | Some e \<Rightarrow> e # evs)))"

definition clear_alarm :: "rat \<Rightarrow> string \<Rightarrow> alarm_manager \<Rightarrow> alarm_manager \<times> alarm_event option" where
  "clear_alarm now code m =
     (case dict_get m code of None \<Rightarrow> (m, None)
      | Some st \<Rightarrow> let (st', ev) = force_clear now st in (dict_set code st' m, ev))"

definition get_active_alarms :: "alarm_manager \<Rightarrow> alarm_state list" where
  "get_active_alarms m = filter is_active (map snd m)"

definition get_state :: "alarm_manager \<Rightarrow> string \<Rightarrow> alarm_state option" where
  "get_state m code = dict_get m code"

definition has_protection_alarm :: "alarm_manager \<Rightarrow> bool" where
  "has_protection_alarm m = list_ex (\<lambda>st. is_active st \<and> al_level (as_definition st) = ALARM) (map snd m)"

definition import_states :: "(string \<times> alarm_state) list \<Rightarrow> alarm_manager \<Rightarrow> alarm_manager" where
  "import_states old m = fold (\<lambda>(code, old_st) m. case dict_get m code of None \<Rightarrow> m
     | Some st \<Rightarrow> dict_set code (st\<lparr>is_active := is_active old_st, activate_count := activate_count old_st,
         clear_count := clear_count old_st, activated_at := activated_at old_st, cleared_at := cleared_at old_st,
         last_triggered_at := last_triggered_at old_st\<rparr>) m) old m"

definition reset_alarms :: "rat \<Rightarrow> alarm_manager \<Rightarrow> alarm_manager" where
  "reset_alarms now m = map (\<lambda>(code, st). (code, fst (force_clear now st))) m"

section \<open>Hysteresis\<close>

text \<open>One alarm over a sequence of readings.\<close>

fun run_readings :: "(rat \<times> bool) list \<Rightarrow> alarm_state \<Rightarrow> alarm_state" where
  "run_readings [] st = st"
| "run_readings ((now, b) # rs) st = run_readings rs (fst (update_state now b st))"

lemma run_readings_append: "run_readings (rs @ ss) st = run_readings ss (run_readings rs st)"
  by (induction rs arbitrary: st) auto

lemma update_state_definition [simp]: "as_definition (fst (update_state now b st)) = as_definition st"
  by (simp add: update_state_def Let_def)

lemma run_readings_definition [simp]: "as_definition (run_readings rs st) = as_definition st"
  by (induction rs arbitrary: st) auto

text \<open>The length of the run of equal readings at the end.\<close>

definition trailing :: "bool \<Rightarrow> bool list \<Rightarrow> nat" where
  "trailing b bs = length (takeWhile (\<lambda>x. x = b) (rev bs))"

lemma trailing_snoc [simp]: "trailing b (bs @ [x]) = (if x = b then Suc (trailing b bs) else 0)"
  by (simp add: trailing_def)

lemma trailing_suffix: "k \<le> trailing b bs \<longleftrightarrow> suffix (replicate k b) bs"
proof (induction bs arbitrary: k rule: rev_induct)
  case Nil
  then show ?case by (simp add: trailing_def)
next
  case (snoc x bs)
  then show ?case
    by (cases k) (auto simp: suffix_def replicate_append_same [symmetric] simp flip: append_assoc)
qed

text \<open>
  The specification: the alarm is on when some run of \<open>a\<close> triggered readings was not followed
  by a run of \<open>c\<close> clear ones.
\<close>

definition on_after :: "nat \<Rightarrow> nat \<Rightarrow> bool list \<Rightarrow> bool" where
  "on_after a c bs = (\<exists>p q. bs = p @ replicate a True @ q \<and> \<not> sublist (replicate c False) q)"

lemma sublist_snoc_iff: "sublist xs (ys @ [y]) \<longleftrightarrow> sublist xs ys \<or> suffix xs (ys @ [y])"
  using sublist_snoc [of xs ys y] by blast

lemma on_after_True:
  assumes "0 < c"
  shows "on_after a c (bs @ [True]) \<longleftrightarrow> a \<le> trailing True (bs @ [True]) \<or> on_after a c bs"
proof
  assume "on_after a c (bs @ [True])"
  then obtain p q where pq: "bs @ [True] = p @ replicate a True @ q" "\<not> sublist (replicate c False) q"
    by (auto simp: on_after_def)
  show "a \<le> trailing True (bs @ [True]) \<or> on_after a c bs"
  proof (cases q rule: rev_exhaust)
    case Nil
    then show ?thesis unfolding trailing_suffix using pq(1) by (auto simp: suffix_def)
  next
    case (snoc q' x)
    then have "bs = p @ replicate a True @ q'" "\<not> sublist (replicate c False) q'"
      using pq by (auto simp: sublist_snoc_iff simp flip: append_assoc)
    then show ?thesis by (auto simp: on_after_def)
  qed
next
  assume *: "a \<le> trailing True (bs @ [True]) \<or> on_after a c bs"
  show "on_after a c (bs @ [True])"
  proof (cases "a \<le> trailing True (bs @ [True])")
    case True
    then obtain p where "bs @ [True] = p @ replicate a True @ []"
      unfolding trailing_suffix by (auto simp: suffix_def)
    moreover have "\<not> sublist (replicate c False) []" using assms by simp
    ultimately show ?thesis unfolding on_after_def by blast
  next
    case False
    then obtain p q where "bs = p @ replicate a True @ q" "\<not> sublist (replicate c False) q"
      using * by (auto simp: on_after_def)
    moreover have "\<not> suffix (replicate c False) (q @ [True])"
      using assms by (cases c) (auto simp: suffix_def replicate_append_same [symmetric] simp flip: append_assoc)
    ultimately show ?thesis
      unfolding on_after_def by (intro exI [of _ p] exI [of _ "q @ [True]"]) (simp add: sublist_snoc_iff)
  qed
qed

lemma on_after_False:
  assumes "0 < a"
  shows "on_after a c (bs @ [False]) \<longleftrightarrow> trailing False (bs @ [False]) < c \<and> on_after a c bs"
proof
  assume "on_after a c (bs @ [False])"
  then obtain p q where pq: "bs @ [False] = p @ replicate a True @ q" "\<not> sublist (replicate c False) q"
    by (auto simp: on_after_def)
  have "q \<noteq> []"
    using pq(1) assms by (cases a) (auto simp: replicate_append_same [symmetric] simp flip: append_assoc)
  then obtain q' x where q: "q = q' @ [x]" by (cases q rule: rev_exhaust) auto
  then have x: "x = False" "bs = p @ replicate a True @ q'" "\<not> sublist (replicate c False) q'"
    using pq by (auto simp: sublist_snoc_iff simp flip: append_assoc)
  have "\<not> suffix (replicate c False) (bs @ [False])"
  proof
    assume s: "suffix (replicate c False) (bs @ [False])"
    have "\<not> suffix (replicate c False) q" using pq(2) by (auto dest: suffix_imp_sublist)
    then have "suffix q (replicate c False)" "q \<noteq> replicate c False"
      using s suffix_same_cases [of "replicate c False" "bs @ [False]" q] pq(1) by (auto simp: suffix_def)
    then obtain r where r: "replicate c False = r @ q" "r \<noteq> []" by (auto simp: suffix_def)
    obtain u where "bs @ [False] = u @ r @ q" using s unfolding r by (auto simp: suffix_def)
    then have "last r = last (p @ replicate a True)"
      using pq(1) r(2) by (metis append.assoc append_same_eq last_appendR)
    also have "\<dots>" using assms by simp
    finally have "True \<in> set (replicate c False)" using r by (metis UnCI last_in_set set_append)
    then show False by simp
  qed
  then show "trailing False (bs @ [False]) < c \<and> on_after a c bs"
    using x unfolding on_after_def trailing_suffix [symmetric] by auto
next
  assume "trailing False (bs @ [False]) < c \<and> on_after a c bs"
  then have t: "\<not> suffix (replicate c False) (bs @ [False])" and "on_after a c bs"
    unfolding trailing_suffix [symmetric] by auto
  then obtain p q where pq: "bs = p @ replicate a True @ q" "\<not> sublist (replicate c False) q"
    by (auto simp: on_after_def)
  have "\<not> suffix (replicate c False) (q @ [False])"
    using t suffix_appendI [of "replicate c False" "q @ [False]" "p @ replicate a True"]
    unfolding pq(1) append_assoc by blast
  then show "on_after a c (bs @ [False])"
    unfolding on_after_def using pq by (intro exI [of _ p] exI [of _ "q @ [False]"]) (simp add: sublist_snoc_iff)
qed

lemma on_after_Nil: "0 < a \<Longrightarrow> \<not> on_after a c []"
  by (simp add: on_after_def)

lemma run_readings_state:
  fixes a :: alarm_def
  defines "h \<equiv> al_hysteresis a"
  assumes "hysteresis_valid h"
  shows "let st = run_readings rs (alarm_state_init a); bs = map snd rs in
    (is_active st \<longleftrightarrow> on_after (nat (activate_threshold h)) (nat (clear_threshold h)) bs)
    \<and> activate_count st = int (trailing True bs) \<and> clear_count st = int (trailing False bs)"
proof (induction rs rule: rev_induct)
  case Nil
  then show ?case using assms(2)
    by (simp add: alarm_state_init_def on_after_Nil hysteresis_valid_def trailing_def)
next
  case (snoc r rs)
  obtain now b where r: "r = (now, b)" by (cases r)
  define st where "st = run_readings rs (alarm_state_init a)"
  define bs where "bs = map snd rs"
  have d: "as_definition st = a" by (simp add: st_def) (simp add: alarm_state_init_def)
  have IH: "is_active st \<longleftrightarrow> on_after (nat (activate_threshold h)) (nat (clear_threshold h)) bs"
    "activate_count st = int (trailing True bs)" "clear_count st = int (trailing False bs)"
    using snoc by (simp_all add: st_def bs_def Let_def)
  have pos: "0 < nat (activate_threshold h)" "0 < nat (clear_threshold h)"
    using assms(2) by (simp_all add: hysteresis_valid_def)
  show ?case
  proof (cases b)
    case True
    then show ?thesis
      using IH on_after_True [OF pos(2), of "nat (activate_threshold h)" bs] d
      by (auto simp: r run_readings_append Let_def update_state_def h_def nat_le_iff simp flip: st_def bs_def)
  next
    case False
    then show ?thesis
      using IH on_after_False [OF pos(1), of "nat (clear_threshold h)" bs] d
      by (auto simp: r run_readings_append Let_def update_state_def h_def zless_nat_eq_int_zless simp flip: st_def bs_def)
  qed
qed

section \<open>The manager over evaluation results\<close>

fun run_updates :: "(rat \<times> (string \<times> bool) list) list \<Rightarrow> alarm_manager \<Rightarrow> alarm_manager" where
  "run_updates [] m = m"
| "run_updates ((now, evals) # us) m = run_updates us (fst (update_alarms now evals m))"

definition readings_in :: "string \<Rightarrow> rat \<times> (string \<times> bool) list \<Rightarrow> (rat \<times> bool) list" where
  "readings_in code u = map (\<lambda>(c, b). (fst u, b)) (filter (\<lambda>(c, b). c = code) (snd u))"

definition readings_of :: "string \<Rightarrow> (rat \<times> (string \<times> bool) list) list \<Rightarrow> (rat \<times> bool) list" where
  "readings_of code us = concat (map (readings_in code) us)"

lemma update_alarms_state:
  "dict_get (fst (update_alarms now evals m)) code =
    map_option (run_readings (readings_in code (now, evals))) (dict_get m code)"
proof (induction evals arbitrary: m)
  case Nil
  then show ?case by (cases "dict_get m code") (simp_all add: readings_in_def)
next
  case (Cons ev evals)
  obtain c trig where ev: "ev = (c, trig)" by (cases ev)
  show ?case
  proof (cases "dict_get m c")
    case None
    then show ?thesis using Cons [of m] by (cases "c = code") (simp_all add: ev readings_in_def)
  next
    case (Some st)
    then show ?thesis
      using Cons [of "dict_set c (fst (update_state now trig st)) m"]
      by (simp add: ev readings_in_def Let_def split_beta' update_conv')
  qed
qed

lemma run_updates_state:
  "dict_get (run_updates us m) code = map_option (run_readings (readings_of code us)) (dict_get m code)"
proof (induction us m rule: run_updates.induct)
  case (1 m)
  then show ?case by (cases "dict_get m code") (simp_all add: readings_of_def)
next
  case (2 now evals us m)
  then show ?case
    by (cases "dict_get m code") (simp_all add: update_alarms_state readings_of_def run_readings_append)
qed

text \<open>
  C13. Hysteresis is exact and alarms are independent: after any sequence of evaluation results, an alarm
  registered before is active if and only if its own readings contain a run of \<open>activate_threshold\<close>
  triggered ones that is not followed by a run of \<open>clear_threshold\<close> clear ones. Rounds without a
  reading of the alarm (a failed read) change nothing.
\<close>

theorem alarm_active_exact:
  assumes "hysteresis_valid (al_hysteresis a)" "dict_get m (al_code a) = Some (alarm_state_init a)"
  shows "\<exists>st. get_state (run_updates us m) (al_code a) = Some st
    \<and> (is_active st \<longleftrightarrow> on_after (nat (activate_threshold (al_hysteresis a))) (nat (clear_threshold (al_hysteresis a)))
         (map snd (readings_of (al_code a) us)))"
  using run_readings_state [OF assms(1), of "readings_of (al_code a) us"] assms(2)
  by (simp add: get_state_def run_updates_state Let_def)

definition demo_alarm :: alarm_def where
  "demo_alarm = \<lparr>al_code = ''OT'', al_name = ''over temperature'', al_level = ALARM,
     al_hysteresis = \<lparr>activate_threshold = 2, clear_threshold = 2\<rparr>, al_description = []\<rparr>"

definition demo_manager :: alarm_manager where
  "demo_manager = [(''OT'', alarm_state_init demo_alarm)]"

theorem alarm_active_exact_witness:
  "\<exists>st. get_state (run_updates [(1, [(''OT'', True)]), (2, []), (3, [(''OT'', True)]), (4, [(''OT'', False)])] demo_manager) ''OT'' = Some st
    \<and> (is_active st \<longleftrightarrow> on_after 2 2 [True, True, False])"
  using alarm_active_exact [of demo_alarm demo_manager "[(1, [(''OT'', True)]), (2, []), (3, [(''OT'', True)]), (4, [(''OT'', False)])]"]
  by (simp add: demo_alarm_def demo_manager_def hysteresis_valid_def readings_of_def readings_in_def)

section \<open>Registration\<close>

lemma register_alarm_keeps: "register_alarm a m = Inr m' \<Longrightarrow> code \<noteq> al_code a \<Longrightarrow> dict_get m' code = dict_get m code"
  by (auto simp: register_alarm_def update_conv' split: if_splits)

lemma register_each_keeps: "dict_get m code = Some st \<Longrightarrow> dict_get (fst (register_each as m)) code = Some st"
proof (induction "as" m rule: register_each.induct)
  case (2 a "as" m)
  show ?case
  proof (cases "register_alarm a m")
    case (Inr m')
    then have "al_code a \<noteq> code" using 2 by (auto simp: register_alarm_def split: if_splits)
    with 2 Inr show ?thesis using register_alarm_keeps [OF Inr] by auto
  qed (use 2 in simp)
qed simp

text \<open>Registering never touches a registered alarm, whether or not the call raises.\<close>

lemma register_alarms_keeps: "dict_get m code = Some st \<Longrightarrow> dict_get (fst (register_alarms as m)) code = Some st"
  by (simp add: register_alarms_def register_each_keeps)

section \<open>Forced clearing\<close>

lemma force_clear_inactive: "\<not> is_active (fst (force_clear now st))"
  by (simp add: force_clear_def)

lemma reset_alarms_state: "dict_get (reset_alarms now m) code = map_option (\<lambda>st. fst (force_clear now st)) (dict_get m code)"
  unfolding reset_alarms_def by (rule map_of_map_values [of "\<lambda>_ st. fst (force_clear now st)"])

lemma reset_alarms_none_active: "get_active_alarms (reset_alarms now m) = []"
  by (auto simp: get_active_alarms_def reset_alarms_def force_clear_inactive filter_empty_conv)

text \<open>
  A reset clears every active alarm but keeps the counters of the pending ones: an alarm that was one
  triggered reading short of activation before the reset is activated by the first triggered reading
  after it, although its threshold asks for more in a row.
\<close>

theorem reset_keeps_pending:
  assumes "dict_get m code = Some st" "\<not> is_active st"
    and "activate_count st + 1 = activate_threshold (al_hysteresis (as_definition st))"
  shows "get_active_alarms (reset_alarms now m) = []
    \<and> (\<exists>st'. get_state (fst (update_alarms t [(code, True)] (reset_alarms now m))) code = Some st' \<and> is_active st')"
  using assms
  by (simp add: reset_alarms_none_active get_state_def update_alarms_state readings_in_def reset_alarms_state del: update_alarms.simps)
    (simp add: force_clear_def update_state_def Let_def)

theorem reset_keeps_pending_witness:
  "\<exists>st'. get_state (fst (update_alarms 3 [(''OT'', True)] (reset_alarms 2 (fst (update_alarms 1 [(''OT'', True)] demo_manager))))) ''OT'' = Some st'
     \<and> is_active st'"
  using reset_keeps_pending [of "fst (update_alarms 1 [(''OT'', True)] demo_manager)" "''OT''"
      "fst (update_state 1 True (alarm_state_init demo_alarm))" 2 3]
  by (simp add: update_alarms_state readings_in_def)
    (simp add: demo_manager_def update_state_def alarm_state_init_def demo_alarm_def)

section \<open>Evaluators\<close>

definition infinite_reading :: "pyval \<Rightarrow> bool" where
  "infinite_reading v = (v = PyFloat PInf \<or> v = PyFloat NInf)"

lemma as_int_Inl: "as_int v = Inl e \<longleftrightarrow> e = OverflowError \<and> infinite_reading v"
  by (cases v) (auto simp: as_int_def or_unreadable_def infinite_reading_def split: option.splits flt.splits)

lemma bit_results_Inr: "list_all (\<lambda>(pos, a). 0 \<le> pos) bits \<Longrightarrow> \<exists>r. bit_results x bits out = Inr r"
  by (induction x bits out rule: bit_results.induct) auto

lemma rbind_eq_Inl: "rbind r f = Inl e \<longleftrightarrow> r = Inl e \<or> (\<exists>x. r = Inr x \<and> f x = Inl e)"
  by (cases r) auto

lemma float_reading_ok: "\<exists>x. or_unreadable (py_float v) = Inr x"
  by (cases v) (auto simp: or_unreadable_def split: option.splits)

text \<open>
  The evaluators swallow a reading they cannot convert, with one exception: the bit mask and the table
  evaluator raise \<open>OverflowError\<close> on an infinite float, which their handlers do not catch. The
  threshold evaluator never raises.
\<close>

theorem evaluators_raise_on_infinity:
  assumes "list_all (\<lambda>(pos, a). 0 \<le> pos) bits"
  shows "(bitmask_evaluate bits v = Inl e \<longleftrightarrow> e = OverflowError \<and> infinite_reading v)
    \<and> (table_evaluate tbl v = Inl e \<longleftrightarrow> e = OverflowError \<and> infinite_reading v)
    \<and> threshold_evaluate conds v \<noteq> Inl e"
proof (intro conjI)
  show "bitmask_evaluate bits v = Inl e \<longleftrightarrow> e = OverflowError \<and> infinite_reading v"
  proof (cases "v = PyNone")
    case True
    then show ?thesis by (simp add: bitmask_evaluate_def infinite_reading_def)
  next
    case False
    have "(case x of None \<Rightarrow> Inr [] | Some x \<Rightarrow> bit_results x bits []) \<noteq> Inl e" for x
      using bit_results_Inr [OF assms, of "the x" "[]"] by (cases x) auto
    with False show ?thesis by (auto simp: bitmask_evaluate_def rbind_eq_Inl as_int_Inl)
  qed
  show "table_evaluate tbl v = Inl e \<longleftrightarrow> e = OverflowError \<and> infinite_reading v"
  proof (cases "v = PyNone")
    case False
    then show ?thesis by (auto simp: table_evaluate_def rbind_eq_Inl as_int_Inl Let_def split: option.splits)
  qed (simp add: table_evaluate_def infinite_reading_def)
  show "threshold_evaluate conds v \<noteq> Inl e"
    using float_reading_ok [of v] by (auto simp: threshold_evaluate_def rbind_eq_Inl split: option.splits)
qed

theorem evaluators_raise_on_infinity_witness:
  "bitmask_evaluate [(0, demo_alarm)] (PyFloat PInf) = Inl OverflowError
   \<and> table_evaluate [(7, demo_alarm)] (PyFloat NInf) = Inl OverflowError"
  using evaluators_raise_on_infinity [of "[(0, demo_alarm)]" "PyFloat PInf" OverflowError "[]" "[]"]
    evaluators_raise_on_infinity [of "[]" "PyFloat NInf" OverflowError "[(7, demo_alarm)]" "[]"]
  by (simp add: infinite_reading_def)

text \<open>The table evaluator reports every alarm of the table and triggers the one of the reading.\<close>

lemma fold_codes: "dict_get (fold (\<lambda>(k, a). dict_set (al_code a) False) tbl d) code =
    (if code \<in> set (map (\<lambda>(k, a). al_code a) tbl) then Some False else dict_get d code)"
  by (induction tbl arbitrary: d) (auto simp: update_conv')

lemma table_evaluate_exact:
  assumes "table_evaluate tbl (PyInt x) = Inr r"
  shows "(dict_get r code \<noteq> None \<longleftrightarrow> code \<in> set (map (\<lambda>(k, a). al_code a) tbl))
    \<and> (dict_get r code = Some True \<longleftrightarrow> (\<exists>a. dict_get tbl x = Some a \<and> al_code a = code))"
proof (cases "dict_get tbl x")
  case None
  then have "r = fold (\<lambda>(k, a). dict_set (al_code a) False) tbl []"
    using assms by (simp add: table_evaluate_def as_int_def Let_def)
  then show ?thesis using None by (auto simp: fold_codes)
next
  case (Some a)
  then have "r = dict_set (al_code a) True (fold (\<lambda>(k, a). dict_set (al_code a) False) tbl [])"
    using assms by (simp add: table_evaluate_def as_int_def Let_def)
  moreover have "al_code a \<in> set (map (\<lambda>(k, a). al_code a) tbl)" using Some by (force dest: map_of_SomeD)
  ultimately show ?thesis using Some by (auto simp: fold_codes update_conv')
qed

end
