(* ===== verification/Alarm_Aggregator.thy ===== *)
theory Alarm_Aggregator
  imports Csp_Prelude
begin

text \<open>
  \<open>csp_lib/alarm/aggregator.py\<close>: the OR of alarm sources. What is hooked into a device or a watchdog
  is a list of hooks in registration order, each with the source it feeds; observers are ids, and
  every call of an observer is recorded. An observer or unbinder that raises is only logged; observers
  that call back into the aggregator are not modelled.
\<close>

datatype port = DevicePort nat | WatchdogPort nat

record hook =
  hk_id :: nat
  hk_port :: port
  hk_name :: string
  hk_alive :: bool

record aggregator =
  ag_sources :: "string set"
  ag_observers :: "nat list"
  ag_unbinders :: "(string \<times> nat) list"
  ag_hooks :: "hook list"
  ag_next :: nat
  ag_trace :: "(nat \<times> bool) list"

definition aggregator_init :: aggregator where
  "aggregator_init = \<lparr>ag_sources = {}, ag_observers = [], ag_unbinders = [], ag_hooks = [], ag_next = 0, ag_trace = []\<rparr>"

definition ag_active :: "aggregator \<Rightarrow> bool" where
  "ag_active ag = (ag_sources ag \<noteq> {})"

definition set_source_active :: "string \<Rightarrow> bool \<Rightarrow> aggregator \<Rightarrow> aggregator" where
  "set_source_active name active ag =
     (let was = ag_active ag;
          ag1 = ag\<lparr>ag_sources := (if active then insert name (ag_sources ag) else ag_sources ag - {name})\<rparr>;
          is = ag_active ag1
      in ag1\<lparr>ag_trace := ag_trace ag1 @ (if was \<noteq> is then map (\<lambda>cb. (cb, is)) (ag_observers ag1) else [])\<rparr>)"

text \<open>An unbinder takes the device hooks out and sets the flag captured by the watchdog hooks.\<close>

definition run_unbinder :: "nat \<Rightarrow> hook list \<Rightarrow> hook list" where
  "run_unbinder b hooks =
     map (\<lambda>h. if hk_id h = b then h\<lparr>hk_alive := False\<rparr> else h)
       (filter (\<lambda>h. \<not> (hk_id h = b \<and> (case hk_port h of DevicePort _ \<Rightarrow> True | WatchdogPort _ \<Rightarrow> False))) hooks)"

definition ag_unbind :: "string \<Rightarrow> aggregator \<Rightarrow> aggregator" where
  "ag_unbind name ag =
     set_source_active name False
       (case dict_get (ag_unbinders ag) name of
          None \<Rightarrow> ag
        | Some b \<Rightarrow> ag\<lparr>ag_unbinders := dict_del name (ag_unbinders ag), ag_hooks := run_unbinder b (ag_hooks ag)\<rparr>)"

definition bind_port :: "port \<Rightarrow> string \<Rightarrow> aggregator \<Rightarrow> aggregator" where
  "bind_port p name ag =
     (let ag1 = (if dict_get (ag_unbinders ag) name \<noteq> None then ag_unbind name ag else ag);
          b = ag_next ag1
      in ag1\<lparr>ag_unbinders := dict_set name b (ag_unbinders ag1),
             ag_hooks := ag_hooks ag1 @ [\<lparr>hk_id = b, hk_port = p, hk_name = name, hk_alive = True\<rparr>], ag_next := Suc b\<rparr>)"

text \<open>\<open>device_id\<close> is the attribute of the device, if it has one.\<close>

definition bind_device :: "nat \<Rightarrow> string option \<Rightarrow> string option \<Rightarrow> aggregator \<Rightarrow> aggregator res" where
  "bind_device dev device_id name ag =
     (case (case name of Some n \<Rightarrow> Some n | None \<Rightarrow> device_id) of
        None \<Rightarrow> Inl ValueError
      | Some n \<Rightarrow> if n = [] then Inl ValueError else Inr (bind_port (DevicePort dev) n ag))"

definition bind_watchdog :: "nat \<Rightarrow> string \<Rightarrow> aggregator \<Rightarrow> aggregator res" where
  "bind_watchdog wd name ag = (if name = [] then Inl ValueError else Inr (bind_port (WatchdogPort wd) name ag))"

definition on_change :: "nat \<Rightarrow> aggregator \<Rightarrow> aggregator" where
  "on_change cb ag = ag\<lparr>ag_observers := ag_observers ag @ [cb]\<rparr>"

definition remove_observer :: "nat \<Rightarrow> aggregator \<Rightarrow> aggregator" where
  "remove_observer cb ag = ag\<lparr>ag_observers := remove1 cb (ag_observers ag)\<rparr>"

definition mark_source :: "string \<Rightarrow> bool \<Rightarrow> aggregator \<Rightarrow> aggregator" where
  "mark_source name active ag = set_source_active name active ag"

text \<open>A device event or a watchdog event runs the handlers hooked there; a dead handler returns at once.\<close>

definition fire :: "port \<Rightarrow> bool \<Rightarrow> aggregator \<Rightarrow> aggregator" where
  "fire p b ag = fold (\<lambda>h a. if hk_alive h then set_source_active (hk_name h) b a else a)
     (filter (\<lambda>h. hk_port h = p) (ag_hooks ag)) ag"

datatype agg_op =
    BindDevice nat "string option" "string option"
  | BindWatchdog nat string
  | Unbind string
  | OnChange nat
  | RemoveObserver nat
  | MarkSource string bool
  | PortEvent port bool

definition keep_on_error :: "'a \<Rightarrow> 'a res \<Rightarrow> 'a" where
  "keep_on_error s r = (case r of Inl _ \<Rightarrow> s | Inr x \<Rightarrow> x)"

fun agg_step :: "agg_op \<Rightarrow> aggregator \<Rightarrow> aggregator" where
  "agg_step (BindDevice dev did name) ag = keep_on_error ag (bind_device dev did name ag)"
| "agg_step (BindWatchdog wd name) ag = keep_on_error ag (bind_watchdog wd name ag)"
| "agg_step (Unbind name) ag = ag_unbind name ag"
| "agg_step (OnChange cb) ag = on_change cb ag"
| "agg_step (RemoveObserver cb) ag = remove_observer cb ag"
| "agg_step (MarkSource name b) ag = mark_source name b ag"
| "agg_step (PortEvent p b) ag = fire p b ag"

text \<open>Every operation is made of changes of one source and changes that leave the sources alone.\<close>

locale source_invariant =
  fixes inv :: "aggregator \<Rightarrow> bool"
  assumes inv_set: "inv ag \<Longrightarrow> inv (set_source_active name b ag)"
    and inv_bindings: "inv ag \<Longrightarrow> inv (ag\<lparr>ag_unbinders := us, ag_hooks := hs, ag_next := k\<rparr>)"
begin

lemma inv_unbinders: "inv ag \<Longrightarrow> inv (ag\<lparr>ag_unbinders := us, ag_hooks := hs\<rparr>)"
  using inv_bindings [where ag = ag and hs = hs and us = us and k = "ag_next ag"] by (cases ag) simp

lemma inv_unbind: "inv ag \<Longrightarrow> inv (ag_unbind name ag)"
  by (auto simp: ag_unbind_def intro!: inv_set inv_unbinders split: option.split)

lemma inv_bind_port: "inv ag \<Longrightarrow> inv (bind_port p name ag)"
  by (auto simp: bind_port_def Let_def intro!: inv_bindings inv_unbind)

lemma inv_fold: "inv ag \<Longrightarrow> inv (fold (\<lambda>h a. if hk_alive h then set_source_active (hk_name h) b a else a) hs ag)"
  by (induction hs arbitrary: ag) (auto intro: inv_set)

lemma inv_step:
  assumes "inv ag" "\<And>cb. op \<noteq> OnChange cb" "\<And>cb. op \<noteq> RemoveObserver cb"
  shows "inv (agg_step op ag)"
  using assms
  by (cases op) (auto simp: keep_on_error_def bind_device_def bind_watchdog_def mark_source_def fire_def
      intro: inv_set inv_unbind inv_bind_port inv_fold split: option.split)

end

section \<open>What an observer sees\<close>

definition calls_of :: "nat \<Rightarrow> aggregator \<Rightarrow> bool list" where
  "calls_of cb ag = map snd (filter (\<lambda>(c, b). c = cb) (ag_trace ag))"

definition tracks :: "nat \<Rightarrow> bool \<Rightarrow> aggregator \<Rightarrow> bool" where
  "tracks cb b ag \<longleftrightarrow> count_list (ag_observers ag) cb = 1
     \<and> alternates b (calls_of cb ag) \<and> last (b # calls_of cb ag) = ag_active ag"

lemma calls_once: "map snd (filter (\<lambda>(c, b). c = cb) (map (\<lambda>c. (c, x)) cbs)) = replicate (count_list cbs cb) x"
  by (induction cbs) auto

lemma calls_set: "calls_of cb (set_source_active name x ag) = calls_of cb ag @
    (if ag_active ag \<noteq> ag_active (set_source_active name x ag)
     then replicate (count_list (ag_observers ag) cb) (ag_active (set_source_active name x ag)) else [])"
  by (simp add: set_source_active_def Let_def calls_of_def ag_active_def calls_once)

lemma set_source_bindings [simp]:
  "ag_hooks (set_source_active name b ag) = ag_hooks ag" "ag_unbinders (set_source_active name b ag) = ag_unbinders ag"
  "ag_next (set_source_active name b ag) = ag_next ag" "ag_observers (set_source_active name b ag) = ag_observers ag"
  by (simp_all add: set_source_active_def Let_def)

lemma tracks_set: "tracks cb b ag \<Longrightarrow> tracks cb b (set_source_active name x ag)"
  by (auto simp: tracks_def calls_set alternates_snoc)

interpretation observer: source_invariant "tracks cb b" for cb b
  by unfold_locales (auto intro: tracks_set, auto simp: tracks_def calls_of_def ag_active_def)

definition other_observer :: "nat \<Rightarrow> agg_op \<Rightarrow> bool" where
  "other_observer cb op = (op \<noteq> OnChange cb \<and> op \<noteq> RemoveObserver cb)"

lemma tracks_step: "tracks cb b ag \<Longrightarrow> other_observer cb op \<Longrightarrow> tracks cb b (agg_step op ag)"
proof -
  assume t: "tracks cb b ag" and o: "other_observer cb op"
  have "count_list (remove1 c xs) cb = count_list xs cb" if "c \<noteq> cb" for c xs
    using that by (induction xs) auto
  then show ?thesis
    using t o observer.inv_step [OF t, of op]
    by (cases op) (auto simp: tracks_def calls_of_def ag_active_def on_change_def remove_observer_def other_observer_def)
qed

interpretation observer_run: step_invariant agg_step "other_observer cb" "tracks cb b" for cb b
  by unfold_locales (rule tracks_step)

text \<open>
  An observer registered once sees exactly the changes of the aggregated flag: whatever is bound,
  unbound, raised, cleared or marked, and whichever other observers come and go, its calls alternate,
  starting with the opposite of the flag at its registration, and the last one is the current flag.
\<close>

theorem observer_sees_flag:
  assumes "cb \<notin> set (ag_observers ag)" "calls_of cb ag = []" "list_all (other_observer cb) ops"
    and "ag' = run_steps agg_step ops (on_change cb ag)"
  shows "alternates (ag_active ag) (calls_of cb ag') \<and> last (ag_active ag # calls_of cb ag') = ag_active ag'"
proof -
  have "tracks cb (ag_active ag) (on_change cb ag)"
    using assms(1,2) by (simp add: tracks_def on_change_def calls_of_def ag_active_def count_list_0_iff)
  then have "tracks cb (ag_active ag) ag'" unfolding assms(4) by (rule observer_run.always) (rule assms(3))
  then show ?thesis by (simp only: tracks_def simp_thms)
qed

lemmas aggregator_eval = aggregator_init_def on_change_def bind_device_def bind_port_def keep_on_error_def
  fire_def set_source_active_def ag_active_def mark_source_def ag_unbind_def run_unbinder_def calls_of_def Let_def

theorem observer_sees_flag_witness:
  "calls_of 9 (run_steps agg_step [BindDevice 0 (Some ''pcs'') None, PortEvent (DevicePort 0) True, MarkSource ''x'' True,
     Unbind ''pcs'', MarkSource ''x'' False] (on_change 9 aggregator_init)) = [True, False]"
proof -
  let ?ops = "[BindDevice 0 (Some ''pcs'') None, PortEvent (DevicePort 0) True, MarkSource ''x'' True, Unbind ''pcs'', MarkSource ''x'' False]"
  have "alternates (ag_active aggregator_init) (calls_of 9 (run_steps agg_step ?ops (on_change 9 aggregator_init)))"
    using observer_sees_flag [OF _ _ _ refl, of 9 aggregator_init ?ops] by (simp add: aggregator_init_def calls_of_def other_observer_def)
  moreover have "length (calls_of 9 (run_steps agg_step ?ops (on_change 9 aggregator_init))) = 2"
    by (simp add: aggregator_eval insert_Diff_if)
  ultimately show ?thesis
    by (auto simp: length_Suc_conv numeral_2_eq_2 ag_active_def aggregator_init_def)
qed

section \<open>Unbinding\<close>

definition hooks_inv :: "aggregator \<Rightarrow> bool" where
  "hooks_inv ag \<longleftrightarrow> (\<forall>h\<in>set (ag_hooks ag). hk_alive h \<longrightarrow> dict_get (ag_unbinders ag) (hk_name h) = Some (hk_id h))"

lemma set_source_sources [simp]:
  "ag_sources (set_source_active name b ag) = (if b then insert name (ag_sources ag) else ag_sources ag - {name})"
  by (simp add: set_source_active_def Let_def)

lemma hooks_unbind:
  assumes "hooks_inv ag"
  shows "hooks_inv (ag_unbind name ag) \<and> dict_get (ag_unbinders (ag_unbind name ag)) name = None
    \<and> (\<forall>h\<in>set (ag_hooks (ag_unbind name ag)). hk_alive h \<longrightarrow> hk_name h \<noteq> name)"
  using assms by (auto simp: hooks_inv_def ag_unbind_def run_unbinder_def delete_conv' split: option.split if_splits)

lemma hooks_bind_port:
  assumes "hooks_inv ag"
  shows "hooks_inv (bind_port p name ag)"
proof -
  define ag1 where "ag1 = (if dict_get (ag_unbinders ag) name \<noteq> None then ag_unbind name ag else ag)"
  have "hooks_inv ag1 \<and> (\<forall>h\<in>set (ag_hooks ag1). hk_alive h \<longrightarrow> hk_name h \<noteq> name)"
    using assms hooks_unbind [OF assms, of name] by (auto simp: ag1_def hooks_inv_def)
  then show ?thesis
    unfolding bind_port_def Let_def ag1_def [symmetric] by (auto simp: hooks_inv_def update_conv')
qed

lemma fold_bindings [simp]:
  "ag_hooks (fold (\<lambda>h a. if hk_alive h then set_source_active (hk_name h) b a else a) hs ag) = ag_hooks ag"
  "ag_unbinders (fold (\<lambda>h a. if hk_alive h then set_source_active (hk_name h) b a else a) hs ag) = ag_unbinders ag"
  by (induction hs arbitrary: ag) simp_all

lemma hooks_step: "hooks_inv ag \<Longrightarrow> hooks_inv (agg_step op ag)"
  using hooks_unbind [of ag] hooks_bind_port [of ag]
  by (cases op) (auto simp: keep_on_error_def bind_device_def bind_watchdog_def on_change_def remove_observer_def
      mark_source_def fire_def split: option.split, auto simp: hooks_inv_def)

interpretation hooks: step_invariant agg_step "\<lambda>_. True" hooks_inv
  by unfold_locales (rule hooks_step)

definition binds_or_marks :: "string \<Rightarrow> agg_op \<Rightarrow> bool" where
  "binds_or_marks name op = (case op of
       BindDevice dev did n \<Rightarrow> (case n of Some n \<Rightarrow> n = name | None \<Rightarrow> did = Some name)
     | BindWatchdog wd n \<Rightarrow> n = name | MarkSource n b \<Rightarrow> n = name \<and> b | _ \<Rightarrow> False)"

definition silent :: "string \<Rightarrow> aggregator \<Rightarrow> bool" where
  "silent name ag \<longleftrightarrow> name \<notin> ag_sources ag \<and> (\<forall>h\<in>set (ag_hooks ag). hk_alive h \<longrightarrow> hk_name h \<noteq> name)"

lemma silent_fold: "name \<notin> ag_sources ag \<Longrightarrow> \<forall>h\<in>set hs. hk_alive h \<longrightarrow> hk_name h \<noteq> name \<Longrightarrow>
    name \<notin> ag_sources (fold (\<lambda>h a. if hk_alive h then set_source_active (hk_name h) b a else a) hs ag)"
  by (induction hs arbitrary: ag) auto

lemma silent_unbind: "silent name ag \<Longrightarrow> silent name (ag_unbind n ag)"
  by (auto simp: silent_def ag_unbind_def run_unbinder_def split: option.split if_splits)

lemma silent_bind_port: "silent name ag \<Longrightarrow> n \<noteq> name \<Longrightarrow> silent name (bind_port p n ag)"
  using silent_unbind [of name ag n] by (auto simp: bind_port_def Let_def silent_def)

lemma silent_step:
  assumes "silent name ag" "\<not> binds_or_marks name op"
  shows "silent name (agg_step op ag)"
proof (cases op)
  case (PortEvent p b)
  then show ?thesis using assms(1) silent_fold [of name ag "filter (\<lambda>h. hk_port h = p) (ag_hooks ag)" b]
    by (simp add: silent_def fire_def)
qed (use assms silent_unbind silent_bind_port in \<open>auto simp: keep_on_error_def bind_device_def bind_watchdog_def
      on_change_def remove_observer_def mark_source_def binds_or_marks_def split: option.split\<close>,
   auto simp: silent_def)

interpretation silence: step_invariant agg_step "\<lambda>op. \<not> binds_or_marks name op" "silent name" for name
  by unfold_locales (rule silent_step)

text \<open>
  Unbinding is final: in every reachable state, after a source is unbound, no event of the device or the
  watchdog that fed it makes it active again, until the name is bound or marked anew: the hooks of a
  device are gone and those of a watchdog are dead.
\<close>

theorem unbound_source_silent:
  assumes "ag = run_steps agg_step ops0 aggregator_init" "list_all (\<lambda>op. \<not> binds_or_marks name op) ops"
  shows "name \<notin> ag_sources (run_steps agg_step ops (agg_step (Unbind name) ag))"
proof -
  have "hooks_inv aggregator_init" by (simp add: hooks_inv_def aggregator_init_def)
  then have "hooks_inv ag" unfolding assms(1) by (rule hooks.always) (simp add: list_all_iff)
  then have "silent name (agg_step (Unbind name) ag)"
    using hooks_unbind [of ag name] by (auto simp: silent_def ag_unbind_def)
  then have "silent name (run_steps agg_step ops (agg_step (Unbind name) ag))"
    by (rule silence.always) (rule assms(2))
  then show ?thesis by (simp add: silent_def)
qed

theorem unbound_source_silent_witness:
  "''wd'' \<notin> ag_sources (run_steps agg_step [PortEvent (WatchdogPort 3) True]
     (agg_step (Unbind ''wd'') (run_steps agg_step [BindWatchdog 3 ''wd'', PortEvent (WatchdogPort 3) True] aggregator_init)))"
  using unbound_source_silent [OF refl, of "''wd''" "[PortEvent (WatchdogPort 3) True]" "[BindWatchdog 3 ''wd'', PortEvent (WatchdogPort 3) True]"]
  by (simp add: binds_or_marks_def)

text \<open>
  The source of a device is one flag: when one of two active alarms of the device clears, the
  source is no longer active although the other alarm still is.
\<close>

lemma second_alarm_forgotten:
  "ag_active (run_steps agg_step [BindDevice 0 (Some ''pcs'') None, PortEvent (DevicePort 0) True, PortEvent (DevicePort 0) True,
     PortEvent (DevicePort 0) False] aggregator_init) = False"
  by (simp add: aggregator_eval)

end
