(* ===== verification/Gateway_Registers.thy ===== *)
theory Gateway_Registers
  imports Modbus_Types
begin

text \<open>
  \<open>csp_lib/modbus_gateway/config.py\<close> and \<open>register_map.py\<close>: the register definitions of the gateway and
  its two raw register arrays (holding and input), with named access through the codec and the scale.
\<close>

section \<open>Configuration\<close>

datatype register_type = HOLDING | INPUT

record reg_def =
  rd_name :: string
  rd_address :: int
  rd_data_type :: modbus_type
  rd_register_type :: register_type
  rd_scale :: flt
  rd_initial :: pyval
  rd_byte_order :: "byte_order option"
  rd_register_order :: "register_order option"
  rd_writable :: bool

text \<open>\<open>__post_init__\<close>; the data type has passed its own constructor.\<close>

definition reg_def_valid :: "reg_def \<Rightarrow> bool" where
  "reg_def_valid rd = (0 \<le> rd_address rd \<and> rd_scale rd \<noteq> Fin 0 \<and> type_valid (rd_data_type rd))"

record gateway_config =
  gc_port :: int
  gc_unit_id :: int
  gc_byte_order :: byte_order
  gc_register_order :: register_order
  gc_space_size :: int

definition gateway_config_valid :: "gateway_config \<Rightarrow> bool" where
  "gateway_config_valid c = (1 \<le> gc_unit_id c \<and> gc_unit_id c \<le> 247 \<and> 0 \<le> gc_port c \<and> gc_port c \<le> 65535)"

section \<open>The register map\<close>

record register_map =
  gm_config :: gateway_config
  gm_size :: int
  gm_hr :: "int list"
  gm_ir :: "int list"
  gm_defs :: "(string \<times> reg_def) list"

definition rd_count :: "reg_def \<Rightarrow> int" where
  "rd_count rd = int (register_count (rd_data_type rd))"

definition rd_end :: "reg_def \<Rightarrow> int" where
  "rd_end rd = rd_address rd + rd_count rd - 1"

definition overlaps :: "reg_def \<Rightarrow> reg_def \<Rightarrow> bool" where
  "overlaps new ex = (rd_register_type ex = rd_register_type new
     \<and> rd_address new \<le> rd_end ex \<and> rd_address ex \<le> rd_end new)"

definition register_def :: "reg_def \<Rightarrow> register_map \<Rightarrow> register_map res" where
  "register_def rd gm =
     (if dict_get (gm_defs gm) (rd_name rd) \<noteq> None then Inl ValueError
      else if rd_end rd \<ge> gm_size gm then Inl ValueError
      else if list_ex (overlaps rd) (map snd (gm_defs gm)) then Inl RegisterConflictError
      else Inr (gm\<lparr>gm_defs := dict_set (rd_name rd) rd (gm_defs gm)\<rparr>))"

definition bo_of :: "register_map \<Rightarrow> reg_def \<Rightarrow> byte_order" where
  "bo_of gm rd = or_default (rd_byte_order rd) (gc_byte_order (gm_config gm))"

definition ro_of :: "register_map \<Rightarrow> reg_def \<Rightarrow> register_order" where
  "ro_of gm rd = or_default (rd_register_order rd) (gc_register_order (gm_config gm))"

definition regs_of :: "register_map \<Rightarrow> register_type \<Rightarrow> int list" where
  "regs_of gm t = (if t = HOLDING then gm_hr gm else gm_ir gm)"

definition put_regs :: "register_type \<Rightarrow> int list \<Rightarrow> register_map \<Rightarrow> register_map" where
  "put_regs t regs gm = (if t = HOLDING then gm\<lparr>gm_hr := regs\<rparr> else gm\<lparr>gm_ir := regs\<rparr>)"

text \<open>\<open>round(scaled)\<close> raises on NaN and the infinities.\<close>

definition scaled_value :: "flt \<Rightarrow> pyval res" where
  "scaled_value x = (case x of
       Fin q \<Rightarrow> Inr (if \<bar>q - of_int (round_half_even q)\<bar> < 1 / 10 ^ 9 then PyInt (round_half_even q) else PyFloat x)
     | NaN \<Rightarrow> Inl ValueError
     | _ \<Rightarrow> Inl OverflowError)"

definition set_value_unlocked :: "reg_def \<Rightarrow> pyval \<Rightarrow> register_map \<Rightarrow> register_map res" where
  "set_value_unlocked rd v gm =
     rbind (py_float v) (\<lambda>x.
     rbind (scaled_value (x * rd_scale rd)) (\<lambda>sv.
     rbind (codec_encode (rd_data_type rd) sv (Some (bo_of gm rd)) (Some (ro_of gm rd))) (\<lambda>encoded.
       Inr (put_regs (rd_register_type rd)
         (py_slice_set (regs_of gm (rd_register_type rd)) (rd_address rd) (rd_address rd + int (length encoded)) encoded) gm))))"

text \<open>\<open>decoded / scale\<close>: only numbers divide.\<close>

definition unscale :: "flt \<Rightarrow> pyval \<Rightarrow> pyval res" where
  "unscale scale v =
     (if \<not> feq scale 1 then
        (if is_num_val v then rbind (fdiv (flt_val v) scale) (\<lambda>x. Inr (PyFloat x)) else Inl TypeError)
      else Inr v)"

definition get_value_unlocked :: "register_map \<Rightarrow> reg_def \<Rightarrow> pyval res" where
  "get_value_unlocked gm rd =
     rbind (codec_decode (rd_data_type rd)
         (py_slice (regs_of gm (rd_register_type rd)) (rd_address rd) (rd_address rd + rd_count rd))
         (Some (bo_of gm rd)) (Some (ro_of gm rd)))
       (unscale (rd_scale rd))"

fun register_all :: "reg_def list \<Rightarrow> register_map \<Rightarrow> register_map res" where
  "register_all [] gm = Inr gm"
| "register_all (rd # rds) gm = rbind (register_def rd gm) (register_all rds)"

fun initialise_all :: "reg_def list \<Rightarrow> register_map \<Rightarrow> register_map res" where
  "initialise_all [] gm = Inr gm"
| "initialise_all (rd # rds) gm =
     rbind (if rd_initial rd = PyNone then Inr gm else set_value_unlocked rd (rd_initial rd) gm) (initialise_all rds)"

definition empty_map :: "gateway_config \<Rightarrow> register_map" where
  "empty_map c = \<lparr>gm_config = c, gm_size = gc_space_size c, gm_hr = replicate (nat (gc_space_size c)) 0,
     gm_ir = replicate (nat (gc_space_size c)) 0, gm_defs = []\<rparr>"

definition register_map_init :: "gateway_config \<Rightarrow> reg_def list \<Rightarrow> register_map res" where
  "register_map_init c rds = rbind (register_all rds (empty_map c)) (initialise_all rds)"

definition set_value :: "register_map \<Rightarrow> string \<Rightarrow> pyval \<Rightarrow> register_map res" where
  "set_value gm name v = (case dict_get (gm_defs gm) name of None \<Rightarrow> Inl KeyError | Some rd \<Rightarrow> set_value_unlocked rd v gm)"

definition get_value :: "register_map \<Rightarrow> string \<Rightarrow> pyval res" where
  "get_value gm name = (case dict_get (gm_defs gm) name of None \<Rightarrow> Inl KeyError | Some rd \<Rightarrow> get_value_unlocked gm rd)"

definition get_all_values :: "register_map \<Rightarrow> (string \<times> pyval) list res" where
  "get_all_values gm = rmap (\<lambda>(name, rd). rbind (get_value_unlocked gm rd) (\<lambda>v. Inr (name, v))) (gm_defs gm)"

definition get_hr_raw :: "register_map \<Rightarrow> int \<Rightarrow> int \<Rightarrow> int list" where
  "get_hr_raw gm a n = py_slice (gm_hr gm) a (a + n)"

definition set_hr_raw :: "register_map \<Rightarrow> int \<Rightarrow> int list \<Rightarrow> register_map" where
  "set_hr_raw gm a values = gm\<lparr>gm_hr := py_slice_set (gm_hr gm) a (a + int (length values)) values\<rparr>"

definition get_ir_raw :: "register_map \<Rightarrow> int \<Rightarrow> int \<Rightarrow> int list" where
  "get_ir_raw gm a n = py_slice (gm_ir gm) a (a + n)"

definition find_affected_registers :: "register_map \<Rightarrow> int \<Rightarrow> int \<Rightarrow> register_type \<Rightarrow> reg_def list" where
  "find_affected_registers gm a n t =
     filter (\<lambda>rd. rd_register_type rd = t \<and> rd_address rd \<le> a + n - 1 \<and> a \<le> rd_end rd) (map snd (gm_defs gm))"

section \<open>The layout invariant\<close>

definition rd_fits :: "register_map \<Rightarrow> reg_def \<Rightarrow> bool" where
  "rd_fits gm rd \<longleftrightarrow> reg_def_valid rd \<and> rd_end rd < gm_size gm"

definition map_inv :: "register_map \<Rightarrow> bool" where
  "map_inv gm \<longleftrightarrow> distinct (dict_keys (gm_defs gm)) \<and> (\<forall>t. int (length (regs_of gm t)) = max 0 (gm_size gm))
     \<and> (\<forall>n rd. dict_get (gm_defs gm) n = Some rd \<longrightarrow> rd_name rd = n \<and> rd_fits gm rd)
     \<and> (\<forall>n m rd sd. dict_get (gm_defs gm) n = Some rd \<longrightarrow> dict_get (gm_defs gm) m = Some sd \<longrightarrow> n \<noteq> m
          \<longrightarrow> \<not> overlaps rd sd)"

lemma type_count_pos: "type_valid ty \<Longrightarrow> 0 < register_count ty"
  by (cases ty) auto

lemma codec_encode_length:
  assumes "type_valid ty" "codec_encode ty v bo ro = Inr regs"
  shows "length regs = register_count ty"
proof (cases "ty = Float32 \<or> ty = Float64")
  case True
  then show ?thesis using assms(2)
    by (auto simp: codec_ok multi_float_encode_def res_simps split_to_registers_def split: if_splits)
next
  case False
  then show ?thesis using codec_laws assms by blast
qed

lemma put_regs_simps [simp]:
  "regs_of (put_regs t regs gm) u = (if u = t then regs else regs_of gm u)"
  "gm_defs (put_regs t regs gm) = gm_defs gm" "gm_size (put_regs t regs gm) = gm_size gm"
  "gm_config (put_regs t regs gm) = gm_config gm"
  by (cases t; cases u; simp add: put_regs_def regs_of_def)+

lemma put_regs_orders [simp]: "bo_of (put_regs t regs gm) rd = bo_of gm rd" "ro_of (put_regs t regs gm) rd = ro_of gm rd"
  by (simp_all add: bo_of_def ro_of_def)

definition splice :: "nat \<Rightarrow> 'a list \<Rightarrow> 'a list \<Rightarrow> 'a list" where
  "splice a ys xs = take a xs @ ys @ drop (a + length ys) xs"

lemma length_splice: "a + length ys \<le> length xs \<Longrightarrow> length (splice a ys xs) = length xs"
  by (simp add: splice_def)

lemma nth_splice: "a + length ys \<le> length xs \<Longrightarrow> i < length xs \<Longrightarrow>
    splice a ys xs ! i = (if a \<le> i \<and> i < a + length ys then ys ! (i - a) else xs ! i)"
  by (auto simp: splice_def nth_append)

lemma splice_read_back: "a + length ys \<le> length xs \<Longrightarrow> take (length ys) (drop a (splice a ys xs)) = ys"
  by (simp add: splice_def)

lemma splice_read_other:
  assumes "a + length ys \<le> length xs" "b + n \<le> length xs" "b + n \<le> a \<or> a + length ys \<le> b"
  shows "take n (drop b (splice a ys xs)) = take n (drop b xs)"
  by (rule nth_equalityI) (use assms in \<open>auto simp: length_splice nth_splice\<close>)

lemma fits_range:
  assumes "rd_fits gm rd" "int (length xs) = max 0 (gm_size gm)"
  shows "0 \<le> rd_address rd" "nat (rd_address rd) + register_count (rd_data_type rd) \<le> length xs"
    "rd_address rd + rd_count rd \<le> int (length xs)"
  using assms by (auto simp: rd_fits_def reg_def_valid_def rd_end_def rd_count_def)

lemma raw_slice:
  assumes "rd_fits gm rd" "int (length xs) = max 0 (gm_size gm)"
  shows "py_slice xs (rd_address rd) (rd_address rd + rd_count rd)
    = take (register_count (rd_data_type rd)) (drop (nat (rd_address rd)) xs)"
  using py_slice_inside [of "rd_address rd" "register_count (rd_data_type rd)" xs] fits_range [OF assms]
  by (simp add: rd_count_def)

text \<open>What a successful store does: it replaces the registers of the definition by the encoding.\<close>

lemma set_value_unlocked_cases:
  assumes "set_value_unlocked rd v gm = Inr gm'" "rd_fits gm rd" "\<And>t. int (length (regs_of gm t)) = max 0 (gm_size gm)"
  obtains x sv enc where "py_float v = Inr x" "scaled_value (x * rd_scale rd) = Inr sv"
    "codec_encode (rd_data_type rd) sv (Some (bo_of gm rd)) (Some (ro_of gm rd)) = Inr enc"
    "length enc = register_count (rd_data_type rd)"
    "gm' = put_regs (rd_register_type rd) (splice (nat (rd_address rd)) enc (regs_of gm (rd_register_type rd))) gm"
proof -
  obtain x sv enc where *: "py_float v = Inr x" "scaled_value (x * rd_scale rd) = Inr sv"
      "codec_encode (rd_data_type rd) sv (Some (bo_of gm rd)) (Some (ro_of gm rd)) = Inr enc"
    and gm': "gm' = put_regs (rd_register_type rd)
         (py_slice_set (regs_of gm (rd_register_type rd)) (rd_address rd) (rd_address rd + int (length enc)) enc) gm"
    using assms(1) by (auto simp: set_value_unlocked_def res_simps)
  have len: "length enc = register_count (rd_data_type rd)"
    using codec_encode_length [OF _ *(3)] assms(2) by (simp add: rd_fits_def reg_def_valid_def)
  have "py_slice_set (regs_of gm (rd_register_type rd)) (rd_address rd) (rd_address rd + int (length enc)) enc
      = splice (nat (rd_address rd)) enc (regs_of gm (rd_register_type rd))"
    unfolding splice_def using fits_range [OF assms(2) assms(3)] by (intro py_slice_set_inside) (simp_all add: len rd_count_def)
  with gm' show ?thesis using that [OF * len] by simp
qed

lemma map_inv_lengths: "map_inv gm \<Longrightarrow> int (length (regs_of gm t)) = max 0 (gm_size gm)"
  by (simp add: map_inv_def)

lemma map_inv_def_of: "map_inv gm \<Longrightarrow> dict_get (gm_defs gm) n = Some rd \<Longrightarrow> rd_name rd = n \<and> rd_fits gm rd"
  unfolding map_inv_def by blast

lemma set_value_unlocked_inv:
  assumes "map_inv gm" "rd_fits gm rd" "set_value_unlocked rd v gm = Inr gm'"
  shows "map_inv gm' \<and> gm_defs gm' = gm_defs gm"
proof -
  obtain enc where enc: "length enc = register_count (rd_data_type rd)"
    and gm': "gm' = put_regs (rd_register_type rd) (splice (nat (rd_address rd)) enc (regs_of gm (rd_register_type rd))) gm"
    by (rule set_value_unlocked_cases [OF assms(3,2) map_inv_lengths [OF assms(1)]])
  have "length (splice (nat (rd_address rd)) enc (regs_of gm (rd_register_type rd))) = length (regs_of gm (rd_register_type rd))"
    using fits_range(2) [OF assms(2) map_inv_lengths [OF assms(1)]] by (intro length_splice) (simp add: enc)
  then have "int (length (regs_of gm' t)) = max 0 (gm_size gm')" for t
    using map_inv_lengths [OF assms(1)] by (simp add: gm')
  moreover have "rd_fits gm' = rd_fits gm" "gm_defs gm' = gm_defs gm"
    by (simp_all add: rd_fits_def fun_eq_iff gm')
  ultimately show ?thesis using assms(1) unfolding map_inv_def by simp
qed

lemma set_value_unlocked_size: "set_value_unlocked rd v gm = Inr gm' \<Longrightarrow> gm_size gm' = gm_size gm"
  by (auto simp: set_value_unlocked_def res_simps)

lemma set_value_inv:
  assumes "map_inv gm" "set_value gm n v = Inr gm'"
  shows "map_inv gm' \<and> gm_defs gm' = gm_defs gm"
proof -
  obtain rd where rd: "dict_get (gm_defs gm) n = Some rd" "set_value_unlocked rd v gm = Inr gm'"
    using assms(2) by (auto simp: set_value_def split: option.splits)
  have "rd_fits gm rd" using map_inv_def_of [OF assms(1) rd(1)] by simp
  then show ?thesis by (rule set_value_unlocked_inv [OF assms(1) _ rd(2)])
qed

text \<open>Disjoint definitions read the same registers after the store.\<close>

lemma set_value_other:
  assumes "map_inv gm" "set_value gm n v = Inr gm'" "m \<noteq> n"
  shows "get_value gm' m = get_value gm m"
proof (cases "dict_get (gm_defs gm) m")
  case None
  then show ?thesis using set_value_inv [OF assms(1,2)] by (simp add: get_value_def)
next
  case (Some sd)
  obtain rd where rd: "dict_get (gm_defs gm) n = Some rd" "set_value_unlocked rd v gm = Inr gm'"
    using assms(2) by (auto simp: set_value_def split: option.splits)
  have fits: "rd_fits gm rd" "rd_fits gm sd" using map_inv_def_of [OF assms(1)] rd(1) Some by blast+
  obtain enc where enc: "length enc = register_count (rd_data_type rd)"
    and gm': "gm' = put_regs (rd_register_type rd) (splice (nat (rd_address rd)) enc (regs_of gm (rd_register_type rd))) gm"
    by (rule set_value_unlocked_cases [OF rd(2) fits(1) map_inv_lengths [OF assms(1)]])
  have no: "\<not> overlaps rd sd" using assms(1,3) rd(1) Some unfolding map_inv_def by blast
  let ?t = "rd_register_type rd"
  have len: "int (length (regs_of gm t)) = max 0 (gm_size gm)" for t by (rule map_inv_lengths [OF assms(1)])
  have r: "0 \<le> rd_address rd" "nat (rd_address rd) + length enc \<le> length (regs_of gm ?t)"
    "0 \<le> rd_address sd" "nat (rd_address sd) + register_count (rd_data_type sd) \<le> length (regs_of gm ?t)"
    using fits_range [OF fits(1) len [of ?t]] fits_range [OF fits(2) len [of ?t]] by (simp_all add: enc)
  have "py_slice (regs_of gm' (rd_register_type sd)) (rd_address sd) (rd_address sd + rd_count sd)
      = py_slice (regs_of gm (rd_register_type sd)) (rd_address sd) (rd_address sd + rd_count sd)"
  proof (cases "rd_register_type sd = ?t")
    case True
    have "nat (rd_address sd) + register_count (rd_data_type sd) \<le> nat (rd_address rd)
        \<or> nat (rd_address rd) + length enc \<le> nat (rd_address sd)"
    proof -
      have "rd_end sd < rd_address rd \<or> rd_end rd < rd_address sd" using no True by (auto simp: overlaps_def)
      then show ?thesis using r(1,3) by (simp add: rd_end_def rd_count_def enc) linarith
    qed
    then have "take (register_count (rd_data_type sd)) (drop (nat (rd_address sd)) (splice (nat (rd_address rd)) enc (regs_of gm ?t)))
        = take (register_count (rd_data_type sd)) (drop (nat (rd_address sd)) (regs_of gm ?t))"
      using r by (intro splice_read_other)
    moreover have "length (splice (nat (rd_address rd)) enc (regs_of gm ?t)) = length (regs_of gm ?t)"
      using r by (simp add: length_splice)
    ultimately show ?thesis
      using len [of ?t] raw_slice [OF fits(2), of "regs_of gm ?t"] True
        raw_slice [OF fits(2), of "splice (nat (rd_address rd)) enc (regs_of gm ?t)"]
      by (simp add: gm')
  qed (simp add: gm')
  then show ?thesis by (simp add: get_value_def Some get_value_unlocked_def gm')
qed

text \<open>Steps in sequence that stop at the first exception, with the state reached and the exception.\<close>

fun run_until :: "('x \<Rightarrow> 's \<Rightarrow> 's res) \<Rightarrow> 'x list \<Rightarrow> 's \<Rightarrow> 's \<times> py_exc option" where
  "run_until step [] s = (s, None)"
| "run_until step (x # xs) s = (case step x s of Inl e \<Rightarrow> (s, Some e) | Inr s' \<Rightarrow> run_until step xs s')"

text \<open>
  What the write pipeline needs of the register map: a store keeps the layout and the definitions, and
  leaves every other register alone.
\<close>

locale named_registers =
  fixes get :: "'m \<Rightarrow> string \<Rightarrow> pyval res"
    and set_reg :: "'m \<Rightarrow> string \<Rightarrow> pyval \<Rightarrow> 'm res"
    and inv :: "'m \<Rightarrow> bool"
    and defs :: "'m \<Rightarrow> (string \<times> reg_def) list"
  assumes inv_set: "inv m \<Longrightarrow> set_reg m n v = Inr m' \<Longrightarrow> inv m' \<and> defs m' = defs m"
    and get_other: "inv m \<Longrightarrow> set_reg m n v = Inr m' \<Longrightarrow> k \<noteq> n \<Longrightarrow> get m' k = get m k"
begin

text \<open>A run of stores into some registers leaves the others alone.\<close>

lemma stores_other:
  assumes "\<And>x s s'. x \<in> set xs \<Longrightarrow> inv (fst s) \<Longrightarrow> step x s = Inr s' \<Longrightarrow>
      fst s' = fst s \<or> (\<exists>n v. allowed n \<and> set_reg (fst s) n v = Inr (fst s'))"
    and "inv (fst s)" "\<not> allowed k"
  shows "inv (fst (fst (run_until step xs s))) \<and> defs (fst (fst (run_until step xs s))) = defs (fst s)
    \<and> get (fst (fst (run_until step xs s))) k = get (fst s) k"
  using assms
proof (induction xs arbitrary: s)
  case (Cons x xs)
  show ?case
  proof (cases "step x s")
    case (Inr s1)
    then consider "fst s1 = fst s" | n v where "allowed n" "set_reg (fst s) n v = Inr (fst s1)"
      using Cons.prems(1) [of x s s1] Cons.prems(2) by auto
    then have "inv (fst s1) \<and> defs (fst s1) = defs (fst s) \<and> get (fst s1) k = get (fst s) k"
    proof cases
      case 2
      then have "k \<noteq> n" using Cons.prems(3) by blast
      then show ?thesis using inv_set [OF Cons.prems(2) 2(2)] get_other [OF Cons.prems(2) 2(2)] by simp
    qed (use Cons.prems in simp)
    moreover have "inv (fst (fst (run_until step xs s1))) \<and> defs (fst (fst (run_until step xs s1))) = defs (fst s1)
        \<and> get (fst (fst (run_until step xs s1))) k = get (fst s1) k"
      using calculation by (intro Cons.IH Cons.prems(1,3)) simp_all
    ultimately show ?thesis using Inr by simp
  qed (use Cons.prems in simp)
qed simp

end

lemma set_value_config: "set_value gm n v = Inr gm' \<Longrightarrow> gm_config gm' = gm_config gm"
  by (auto simp: set_value_def set_value_unlocked_def res_simps split: option.splits)

interpretation registers: named_registers get_value set_value "\<lambda>m. map_inv m \<and> gm_config m = c" gm_defs for c
proof unfold_locales
  fix m n v m' k assume inv: "map_inv m \<and> gm_config m = c" and set: "set_value m n v = Inr m'"
  show "(map_inv m' \<and> gm_config m' = c) \<and> gm_defs m' = gm_defs m"
    using set_value_inv [OF _ set] set_value_config [OF set] inv by simp
  show "k \<noteq> n \<Longrightarrow> get_value m' k = get_value m k" using set_value_other [OF _ set] inv by simp
qed

section \<open>Properties of the register map\<close>

lemma register_def_inv:
  assumes "map_inv gm" "reg_def_valid rd" "register_def rd gm = Inr gm'"
  shows "map_inv gm' \<and> (\<forall>n sd. dict_get (gm_defs gm) n = Some sd \<longrightarrow> dict_get (gm_defs gm') n = Some sd)
    \<and> dict_get (gm_defs gm') (rd_name rd) = Some rd"
proof -
  have new: "dict_get (gm_defs gm) (rd_name rd) = None" "rd_end rd < gm_size gm"
      "\<not> list_ex (overlaps rd) (map snd (gm_defs gm))"
    and gm': "gm' = gm\<lparr>gm_defs := dict_set (rd_name rd) rd (gm_defs gm)\<rparr>"
    using assms(3) by (auto simp: register_def_def split: if_splits)
  have dist: "\<not> overlaps rd sd \<and> \<not> overlaps sd rd" if "dict_get (gm_defs gm) n = Some sd" for n sd
    using new(3) map_of_SomeD [OF that] by (auto simp: list_ex_iff overlaps_def)
  have fits: "rd_fits gm' = rd_fits gm" "rd_fits gm rd" "regs_of gm' = regs_of gm" "gm_size gm' = gm_size gm"
    using new assms(2) by (simp_all add: gm' rd_fits_def regs_of_def fun_eq_iff)
  have get: "dict_get (gm_defs gm') n = (if n = rd_name rd then Some rd else dict_get (gm_defs gm) n)" for n
    by (simp add: gm' update_conv')
  have "distinct (dict_keys (gm_defs gm'))"
    using assms(1) by (simp add: gm' map_inv_def distinct_update)
  then have "map_inv gm'"
    unfolding map_inv_def fits get
    using assms(1) dist fits(2) unfolding map_inv_def by (auto split: if_splits)
  then show ?thesis using get new(1) by auto
qed

lemma register_all_inv:
  "map_inv gm \<Longrightarrow> list_all reg_def_valid rds \<Longrightarrow> register_all rds gm = Inr gm' \<Longrightarrow>
    map_inv gm' \<and> (\<forall>n sd. dict_get (gm_defs gm) n = Some sd \<longrightarrow> dict_get (gm_defs gm') n = Some sd)
    \<and> (\<forall>rd\<in>set rds. dict_get (gm_defs gm') (rd_name rd) = Some rd)"
proof (induction rds arbitrary: gm)
  case (Cons rd rds)
  then obtain gm1 where gm1: "register_def rd gm = Inr gm1" "register_all rds gm1 = Inr gm'"
    by (auto simp: res_simps)
  then show ?case
    using Cons.IH [of gm1] register_def_inv [OF Cons.prems(1) _ gm1(1)] Cons.prems(2) by auto
qed simp

lemma initialise_all_inv:
  "map_inv gm \<Longrightarrow> \<forall>rd\<in>set rds. rd_fits gm rd \<Longrightarrow> initialise_all rds gm = Inr gm' \<Longrightarrow> map_inv gm' \<and> gm_defs gm' = gm_defs gm"
proof (induction rds arbitrary: gm)
  case (Cons rd rds)
  then obtain gm1 where gm1: "(if rd_initial rd = PyNone then Inr gm else set_value_unlocked rd (rd_initial rd) gm) = Inr gm1"
    "initialise_all rds gm1 = Inr gm'"
    by (auto simp: res_simps split: if_splits)
  have fits: "rd_fits gm rd" using Cons.prems(2) by simp
  have keep: "map_inv gm1 \<and> gm_defs gm1 = gm_defs gm \<and> gm_size gm1 = gm_size gm"
  proof (cases "rd_initial rd = PyNone")
    case True
    then show ?thesis using gm1(1) Cons.prems(1) by simp
  next
    case False
    then have "set_value_unlocked rd (rd_initial rd) gm = Inr gm1" using gm1(1) by simp
    then show ?thesis
      using set_value_unlocked_inv [OF Cons.prems(1) fits] set_value_unlocked_size by blast
  qed
  moreover have "\<forall>rd\<in>set rds. rd_fits gm1 rd" using Cons.prems(2) keep by (simp add: rd_fits_def)
  ultimately show ?case using Cons.IH [of gm1] gm1(2) by simp
qed simp

lemma register_map_init_inv:
  assumes "list_all reg_def_valid rds" "register_map_init c rds = Inr gm"
  shows "map_inv gm \<and> (\<forall>rd\<in>set rds. dict_get (gm_defs gm) (rd_name rd) = Some rd)"
proof -
  obtain gm1 where gm1: "register_all rds (empty_map c) = Inr gm1" "initialise_all rds gm1 = Inr gm"
    using assms(2) by (auto simp: register_map_init_def res_simps)
  have "map_inv (empty_map c)" by (auto simp: map_inv_def empty_map_def regs_of_def)
  then have inv: "map_inv gm1" "\<forall>rd\<in>set rds. dict_get (gm_defs gm1) (rd_name rd) = Some rd"
    using register_all_inv [OF _ assms(1) gm1(1)] by auto
  have fits: "\<forall>rd\<in>set rds. rd_fits gm1 rd" using map_inv_def_of [OF inv(1)] inv(2) by blast
  show ?thesis using initialise_all_inv [OF inv(1) fits gm1(2)] inv(2) by simp
qed

fun set_values :: "(string \<times> pyval) list \<Rightarrow> register_map \<Rightarrow> register_map res" where
  "set_values [] gm = Inr gm"
| "set_values ((n, v) # nvs) gm = rbind (set_value gm n v) (set_values nvs)"

lemma set_values_inv: "map_inv gm \<Longrightarrow> set_values nvs gm = Inr gm' \<Longrightarrow> map_inv gm' \<and> gm_defs gm' = gm_defs gm"
proof (induction nvs gm rule: set_values.induct)
  case (2 n v nvs gm)
  then obtain gm1 where "set_value gm n v = Inr gm1" "set_values nvs gm1 = Inr gm'" by (auto simp: res_simps)
  then show ?case using set_value_inv [OF 2(2), of n v gm1] 2(1) [of gm1] by auto
qed simp

lemma set_get_bound:
  assumes "map_inv gm" "dict_get (gm_defs gm) name = Some rd" "\<forall>n. rd_data_type rd \<noteq> ModbusString n"
    and "rd_data_type rd \<noteq> Float32 \<and> rd_data_type rd \<noteq> Float64"
    and "set_value gm name v = Inr gm'" "py_float v = Inr (Fin p)" "rd_scale rd = Fin s" "s \<noteq> 0"
  shows "\<exists>y q. get_value gm' name = Inr y \<and> flt_val y = Fin q \<and> \<bar>p - q\<bar> * \<bar>s\<bar> < 1 / 10 ^ 9"
proof -
  let ?ty = "rd_data_type rd" and ?t = "rd_register_type rd"
  have set: "set_value_unlocked rd v gm = Inr gm'" using assms(2,5) by (simp add: set_value_def)
  have fits: "rd_fits gm rd" using map_inv_def_of [OF assms(1,2)] by simp
  note len = map_inv_lengths [OF assms(1)]
  obtain x sv enc where x: "py_float v = Inr x" "scaled_value (x * rd_scale rd) = Inr sv"
    and enc: "codec_encode ?ty sv (Some (bo_of gm rd)) (Some (ro_of gm rd)) = Inr enc" "length enc = register_count ?ty"
    and gm': "gm' = put_regs ?t (splice (nat (rd_address rd)) enc (regs_of gm ?t)) gm"
    by (rule set_value_unlocked_cases [OF set fits len])
  have valid: "type_valid ?ty" using fits by (simp add: rd_fits_def reg_def_valid_def)
  have "\<bar>p * s - of_int (round_half_even (p * s))\<bar> < 1 / 10 ^ 9 \<and> sv = PyInt (round_half_even (p * s))"
  proof -
    have "is_int_val sv" using enc(1) assms(3,4) valid
      by (cases ?ty) (auto simp: codec_ok int16_encode_def uint16_encode_def multi_int_encode_def dynamic_encode_def split: if_splits)
    then show ?thesis using x assms(6,7) by (auto simp: scaled_value_def split: if_splits)
  qed
  moreover have "codec_decode ?ty enc (Some (bo_of gm rd)) (Some (ro_of gm rd)) = Inr (canonical ?ty sv)"
    using codec_laws [OF valid assms(4) enc(1), of "[]"] by simp
  moreover have "py_slice (regs_of gm' ?t) (rd_address rd) (rd_address rd + rd_count rd) = enc"
    using fits_range(2) [OF fits len [of ?t]] enc(2) len [of ?t]
      raw_slice [OF fits, of "splice (nat (rd_address rd)) enc (regs_of gm ?t)"]
      splice_read_back [of "nat (rd_address rd)" enc "regs_of gm ?t"]
    by (simp add: gm' length_splice)
  moreover have "canonical ?ty (PyInt k) = PyInt k" for k using assms(3) by (cases ?ty) auto
  ultimately have "get_value gm' name = unscale (Fin s) (PyInt (round_half_even (p * s)))"
    and near: "\<bar>p * s - of_int (round_half_even (p * s))\<bar> < 1 / 10 ^ 9"
    using assms(2,7) by (simp_all add: get_value_def get_value_unlocked_def gm')
  moreover have "\<bar>p - of_int k / s\<bar> * \<bar>s\<bar> = \<bar>p * s - of_int k\<bar>" for k
    using assms(8) by (simp add: abs_mult [symmetric] algebra_simps)
  ultimately show ?thesis using assms(8) by (auto simp: unscale_def)
qed

text \<open>
  Named stores are exact and isolated: in every map the constructor accepts and after any stores, storing
  a number into an integer register succeeds only if the scaled value is within \<open>1e-9\<close> of a
  representable integer, reading it gives that number back up to \<open>1e-9 / |scale|\<close>, and no
  other register, in either space, changes.
\<close>

theorem named_store_exact:
  assumes "list_all reg_def_valid rds" "register_map_init c rds = Inr gm0" "set_values nvs gm0 = Inr gm"
    and "rd \<in> set rds" "rd_scale rd = Fin s" "rd_data_type rd = ty" "ty \<noteq> Float32 \<and> ty \<noteq> Float64" "\<forall>n. ty \<noteq> ModbusString n"
    and "py_float v = Inr (Fin p)" "set_value gm (rd_name rd) v = Inr gm'"
  shows "(\<exists>y q. get_value gm' (rd_name rd) = Inr y \<and> flt_val y = Fin q \<and> \<bar>p - q\<bar> * \<bar>s\<bar> < 1 / 10 ^ 9)
    \<and> (m \<noteq> rd_name rd \<longrightarrow> get_value gm' m = get_value gm m)"
proof -
  have inv0: "map_inv gm0" "dict_get (gm_defs gm0) (rd_name rd) = Some rd"
    using register_map_init_inv [OF assms(1,2)] assms(4) by auto
  then have inv: "map_inv gm" "dict_get (gm_defs gm) (rd_name rd) = Some rd"
    using set_values_inv [OF inv0(1) assms(3)] by auto
  have "s \<noteq> 0" using map_inv_def_of [OF inv] assms(5) by (auto simp: rd_fits_def reg_def_valid_def)
  then show ?thesis
    using set_get_bound [OF inv _ _ assms(10,9,5)] assms(6-8) registers.get_other [OF conjI [OF inv(1) refl] assms(10)] by blast
qed

definition demo_gateway :: gateway_config where
  "demo_gateway = \<lparr>gc_port = 502, gc_unit_id = 1, gc_byte_order = BIG_ENDIAN, gc_register_order = HIGH_FIRST, gc_space_size = 6\<rparr>"

definition demo_def :: "string \<Rightarrow> int \<Rightarrow> modbus_type \<Rightarrow> bool \<Rightarrow> reg_def" where
  "demo_def n a ty w = \<lparr>rd_name = n, rd_address = a, rd_data_type = ty, rd_register_type = HOLDING, rd_scale = Fin 10,
     rd_initial = PyInt 0, rd_byte_order = None, rd_register_order = None, rd_writable = w\<rparr>"

definition demo_defs :: "reg_def list" where
  "demo_defs = [demo_def ''p'' 0 Int16 True, demo_def ''limit'' 1 UInt16 False, demo_def ''ratio'' 2 Float32 True]"

definition demo_map :: register_map where
  "demo_map = (case register_map_init demo_gateway demo_defs of Inr gm \<Rightarrow> gm | Inl _ \<Rightarrow> empty_map demo_gateway)"

lemma demo_map_init: "register_map_init demo_gateway demo_defs = Inr demo_map"
  by code_simp

lemma demo_defs_valid: "list_all reg_def_valid demo_defs"
  by (simp add: demo_defs_def demo_def_def reg_def_valid_def)

lemma demo_map_inv: "map_inv demo_map"
  using register_map_init_inv [OF demo_defs_valid demo_map_init] by simp

lemma demo_p: "demo_def ''p'' 0 Int16 True \<in> set demo_defs"
  by (simp add: demo_defs_def)

lemma demo_store: "is_ok (set_value demo_map ''p'' (PyFloat (Fin (123 / 10))))"
  by code_simp

theorem named_store_exact_witness:
  "\<exists>gm y q. set_value demo_map ''p'' (PyFloat (Fin (123 / 10))) = Inr gm \<and> get_value gm ''p'' = Inr y \<and> flt_val y = Fin q
     \<and> \<bar>123 / 10 - q\<bar> * 10 < 1 / 10 ^ 9"
proof -
  let ?v = "PyFloat (Fin (123 / 10))"
  obtain gm where gm: "set_value demo_map ''p'' ?v = Inr gm"
    using demo_store by (auto simp: is_ok_def split: sum.splits)
  have "\<exists>y q. get_value gm (rd_name (demo_def ''p'' 0 Int16 True)) = Inr y \<and> flt_val y = Fin q \<and> \<bar>123 / 10 - q\<bar> * \<bar>10\<bar> < 1 / 10 ^ 9"
    by (rule conjunct1 [OF named_store_exact [where rds = demo_defs and c = demo_gateway and ?gm0.0 = demo_map and nvs = "[]"
            and gm = demo_map and ty = Int16 and v = ?v and m = "[]"]])
      (use gm in \<open>simp_all add: demo_defs_valid demo_map_init demo_p, simp_all add: demo_def_def\<close>)
  with gm show ?thesis by (simp add: demo_def_def)
qed

end
