(* ===== verification/Gateway_Writes.thy ===== *)
theory Gateway_Writes
  imports Gateway_Registers Command_Core
begin

text \<open>
  What an EMS write goes through: \<open>equipment/transport/validation.py\<close> (range rules),
  \<open>modbus_gateway/config.py\<close> (\<open>WriteRule\<close>), \<open>validators.py\<close>, \<open>pipeline.py\<close> and the data blocks of
  \<open>datablock.py\<close>, and the server's entry points. A validator is a function that may raise; the hooks an
  accepted write starts are returned as the changes handed to them.
\<close>

section \<open>Rules\<close>

record range_rule =
  rr_min :: "flt option"
  rr_max :: "flt option"
  rr_clamp :: bool

definition below :: "flt option \<Rightarrow> flt \<Rightarrow> bool" where
  "below lo x = (case lo of None \<Rightarrow> False | Some m \<Rightarrow> x < m)"

definition above :: "flt option \<Rightarrow> flt \<Rightarrow> bool" where
  "above hi x = (case hi of None \<Rightarrow> False | Some m \<Rightarrow> m < x)"

definition rule_valid :: "range_rule \<Rightarrow> bool" where
  "rule_valid r = (case (rr_min r, rr_max r) of (Some lo, Some hi) \<Rightarrow> \<not> hi < lo | _ \<Rightarrow> True)"

text \<open>\<open>value < bound\<close> on something that is not a number raises, when there is a bound.\<close>

definition comparable :: "range_rule \<Rightarrow> pyval \<Rightarrow> bool" where
  "comparable r v = (is_num_val v \<or> (rr_min r = None \<and> rr_max r = None))"

text \<open>\<open>ValidationResult\<close>: whether it was accepted, and the effective value.\<close>

type_synonym validation_result = "bool \<times> pyval"

definition range_apply :: "range_rule \<Rightarrow> pyval \<Rightarrow> validation_result res" where
  "range_apply r v =
     (if is_non_finite_float v then Inr (False, v)
      else if \<not> comparable r v then Inl TypeError
      else if below (rr_min r) (flt_val v) then
        (if rr_clamp r then Inr (True, PyFloat (the (rr_min r))) else Inr (False, v))
      else if above (rr_max r) (flt_val v) then
        (if rr_clamp r then Inr (True, PyFloat (the (rr_max r))) else Inr (False, v))
      else Inr (True, v))"

text \<open>\<open>WriteRule.apply\<close>: the value and whether it was rejected, without the guard against NaN.\<close>

definition write_rule_apply :: "range_rule \<Rightarrow> pyval \<Rightarrow> (pyval \<times> bool) res" where
  "write_rule_apply r v =
     (if \<not> comparable r v then Inl TypeError
      else if below (rr_min r) (flt_val v) then
        (if rr_clamp r then Inr (PyFloat (the (rr_min r)), False) else Inr (v, True))
      else if above (rr_max r) (flt_val v) then
        (if rr_clamp r then Inr (PyFloat (the (rr_max r)), False) else Inr (v, True))
      else Inr (v, False))"

definition apply_v2 :: "range_rule \<Rightarrow> pyval \<Rightarrow> validation_result res" where
  "apply_v2 r v = range_apply r v"

lemma write_rule_bounds:
  assumes "rule_valid r" "write_rule_apply r v = Inr (w, False)" "flt_val v = Fin x" "rr_min r = Some (Fin lo)" "rr_max r = Some (Fin hi)"
  shows "\<exists>y. flt_val w = Fin y \<and> lo \<le> y \<and> y \<le> hi"
  using assms by (auto simp: rule_valid_def write_rule_apply_def below_def above_def split: if_splits)

lemma range_apply_finite: "range_apply r v = Inr (True, w) \<Longrightarrow> \<not> is_non_finite_float v"
  by (auto simp: range_apply_def split: if_splits)

section \<open>Validators\<close>

definition whitelist_validate :: "string set \<Rightarrow> string \<Rightarrow> pyval \<Rightarrow> bool res" where
  "whitelist_validate allowed name v = Inr (name \<in> allowed)"

fun all_accept :: "(string \<Rightarrow> pyval \<Rightarrow> bool res) list \<Rightarrow> string \<Rightarrow> pyval \<Rightarrow> bool res" where
  "all_accept [] name v = Inr True"
| "all_accept (val # vals) name v = rbind (val name v) (\<lambda>ok. if ok then all_accept vals name v else Inr False)"

section \<open>The pipeline\<close>

record pipeline =
  pl_rules :: "(string \<times> range_rule) list"
  pl_validators :: "(string \<Rightarrow> pyval \<Rightarrow> bool res) list"

definition add_validator :: "(string \<Rightarrow> pyval \<Rightarrow> bool res) \<Rightarrow> pipeline \<Rightarrow> pipeline" where
  "add_validator val pl = pl\<lparr>pl_validators := pl_validators pl @ [val]\<rparr>"

type_synonym change = "string \<times> pyval \<times> pyval"

definition apply_rule :: "pipeline \<Rightarrow> string \<Rightarrow> pyval \<Rightarrow> (pyval \<times> bool) res" where
  "apply_rule pl name v = (case dict_get (pl_rules pl) name of None \<Rightarrow> Inr (v, False) | Some r \<Rightarrow> write_rule_apply r v)"

text \<open>The write of one affected register; \<open>None\<close> is \<open>continue\<close>.\<close>

definition decode_write :: "register_map \<Rightarrow> reg_def \<Rightarrow> int \<Rightarrow> int list \<Rightarrow> pyval option res" where
  "decode_write gm rd address values =
     (let offset = rd_address rd - address
      in if offset < 0 \<or> offset + rd_count rd > int (length values) then Inr None
         else rbind (codec_decode (rd_data_type rd) (py_slice values offset (offset + rd_count rd))
             (Some (bo_of gm rd)) (Some (ro_of gm rd)))
           (\<lambda>decoded. rbind (unscale (rd_scale rd) decoded) (\<lambda>v. Inr (Some v))))"

definition store_write :: "pipeline \<Rightarrow> reg_def \<Rightarrow> pyval \<Rightarrow> pyval \<Rightarrow> register_map \<times> change list \<Rightarrow> (register_map \<times> change list) res" where
  "store_write pl rd old physical s =
     rbind (apply_rule pl (rd_name rd) physical) (\<lambda>(v, rejected).
       if rejected then Inr s
       else rbind (set_value (fst s) (rd_name rd) v) (\<lambda>gm'.
         Inr (gm', if py_eq old v then snd s else snd s @ [(rd_name rd, old, v)])))"

definition write_register :: "pipeline \<Rightarrow> int \<Rightarrow> int list \<Rightarrow> reg_def \<Rightarrow> register_map \<times> change list \<Rightarrow> (register_map \<times> change list) res" where
  "write_register pl address values rd s =
     rbind (decode_write (fst s) rd address values) (\<lambda>physical. case physical of
       None \<Rightarrow> Inr s
     | Some physical \<Rightarrow>
         rbind (get_value (fst s) (rd_name rd)) (\<lambda>old.
           if \<not> rd_writable rd then Inr s
           else rbind (all_accept (pl_validators pl) (rd_name rd) physical) (\<lambda>ok.
             if \<not> ok then Inr s else store_write pl rd old physical s)))"

text \<open>The map after the call, and the changes or the exception that ended it.\<close>

definition process_write :: "pipeline \<Rightarrow> int \<Rightarrow> int list \<Rightarrow> register_map \<Rightarrow> register_map \<times> change list res" where
  "process_write pl address values gm =
     (case run_until (write_register pl address values)
         (find_affected_registers gm address (int (length values)) HOLDING) (gm, []) of
        ((gm', changes), None) \<Rightarrow> (gm', Inr changes)
      | ((gm', changes), Some e) \<Rightarrow> (gm', Inl e))"

section \<open>Data blocks and server\<close>

text \<open>pymodbus passes addresses that start at 1.\<close>

definition hr_validate :: "register_map \<Rightarrow> int \<Rightarrow> int \<Rightarrow> bool" where
  "hr_validate gm address n = (0 \<le> address - 1 \<and> address - 1 + n \<le> int (length (gm_hr gm)))"

definition hr_get_values :: "register_map \<Rightarrow> int \<Rightarrow> int \<Rightarrow> int list" where
  "hr_get_values gm address n = get_hr_raw gm (address - 1) n"

text \<open>The calls of the hooks, one for each change and hook, if the loop runs.\<close>

definition dispatch_hooks :: "nat list \<Rightarrow> bool \<Rightarrow> change list \<Rightarrow> (nat \<times> change) list" where
  "dispatch_hooks hooks loop_running changes =
     (if loop_running then concat (map (\<lambda>c. map (\<lambda>h. (h, c)) hooks) changes) else [])"

definition hr_set_values :: "pipeline \<Rightarrow> nat list \<Rightarrow> bool \<Rightarrow> int \<Rightarrow> int list \<Rightarrow> register_map
    \<Rightarrow> register_map \<times> (nat \<times> change) list res" where
  "hr_set_values pl hooks loop_running address values gm =
     (case process_write pl (address - 1) values gm of
        (gm', Inl e) \<Rightarrow> (gm', Inl e)
      | (gm', Inr changes) \<Rightarrow> (gm', Inr (dispatch_hooks hooks loop_running changes)))"

definition ir_get_values :: "register_map \<Rightarrow> int \<Rightarrow> int \<Rightarrow> int list" where
  "ir_get_values gm address n = get_ir_raw gm (address - 1) n"

definition ir_set_values :: "int \<Rightarrow> int list \<Rightarrow> register_map \<Rightarrow> register_map" where
  "ir_set_values address values gm = gm"

definition update_register_callback :: "register_map \<Rightarrow> string \<Rightarrow> pyval \<Rightarrow> register_map res" where
  "update_register_callback gm name v =
     (case dict_get (gm_defs gm) name of
        None \<Rightarrow> Inl KeyError
      | Some rd \<Rightarrow> if rd_register_type rd = HOLDING then Inl PermissionError else set_value gm name v)"

section \<open>Properties\<close>

lemma write_register_cases:
  assumes "write_register pl address values rd s = Inr s'"
  shows "s' = s \<or> (rd_writable rd \<and> (\<exists>physical v. decode_write (fst s) rd address values = Inr (Some physical)
      \<and> all_accept (pl_validators pl) (rd_name rd) physical = Inr True
      \<and> apply_rule pl (rd_name rd) physical = Inr (v, False)
      \<and> set_value (fst s) (rd_name rd) v = Inr (fst s')))"
  using assms
  by (fastforce simp: write_register_def store_write_def res_simps split: option.splits if_splits prod.splits)

definition may_write :: "register_map \<Rightarrow> pipeline \<Rightarrow> int \<Rightarrow> int list \<Rightarrow> string \<Rightarrow> bool" where
  "may_write gm pl address values name \<longleftrightarrow>
     (\<exists>rd physical v. dict_get (gm_defs gm) name = Some rd \<and> rd_register_type rd = HOLDING \<and> rd_writable rd
        \<and> decode_write gm rd address values = Inr (Some physical)
        \<and> all_accept (pl_validators pl) name physical = Inr True \<and> apply_rule pl name physical = Inr (v, False))"

lemma decode_write_config: "gm_config gm' = gm_config gm \<Longrightarrow> decode_write gm' rd a vs = decode_write gm rd a vs"
  by (simp add: decode_write_def bo_of_def ro_of_def Let_def)

lemma affected_defs:
  assumes "map_inv gm" "rd \<in> set (find_affected_registers gm a n t)"
  shows "dict_get (gm_defs gm) (rd_name rd) = Some rd \<and> rd_register_type rd = t"
proof -
  obtain k where k: "(k, rd) \<in> set (gm_defs gm)" and t: "rd_register_type rd = t"
    using assms(2) by (auto simp: find_affected_registers_def)
  then have "dict_get (gm_defs gm) k = Some rd" using assms(1) by (simp add: map_inv_def)
  then show ?thesis using map_inv_def_of [OF assms(1)] t by auto
qed

lemma process_write_other:
  assumes "map_inv gm" "process_write pl address values gm = (gm', r)" "\<not> may_write gm pl address values k"
  shows "map_inv gm' \<and> gm_defs gm' = gm_defs gm \<and> get_value gm' k = get_value gm k"
proof -
  let ?rds = "find_affected_registers gm address (int (length values)) HOLDING"
  have step: "fst s' = fst s \<or> (\<exists>n v. may_write gm pl address values n \<and> set_value (fst s) n v = Inr (fst s'))"
    if "rd \<in> set ?rds" "map_inv (fst s) \<and> gm_config (fst s) = gm_config gm" "write_register pl address values rd s = Inr s'"
    for rd s s'
    using write_register_cases [OF that(3)] affected_defs [OF assms(1) that(1)] that(2)
      decode_write_config [of "fst s" gm rd address "values"]
    unfolding may_write_def by (metis (no_types))
  have "gm' = fst (fst (run_until (write_register pl address values) ?rds (gm, [])))"
    using assms(2) by (auto simp: process_write_def split: prod.splits option.splits)
  then show ?thesis
    using registers.stores_other [where xs = ?rds and step = "write_register pl address values"
        and s = "(gm, [])" and allowed = "may_write gm pl address values" and c = "gm_config gm" and k = k] step assms(1,3)
    by simp
qed

text \<open>
  C12. An EMS write changes only what it may change: in every map the constructor accepts, after any stores, a
  register keeps its value through a write unless it is a writable holding register that the
  write covers completely, every validator accepts the decoded value and the rule does not reject it,
  also when the call ends in an exception half-way.
\<close>

theorem write_gate:
  assumes "list_all reg_def_valid rds" "register_map_init c rds = Inr gm0" "set_values nvs gm0 = Inr gm"
    and "process_write pl address values gm = (gm', r)" "get_value gm' name \<noteq> get_value gm name"
  shows "\<exists>rd physical v. dict_get (gm_defs gm) name = Some rd \<and> rd_register_type rd = HOLDING \<and> rd_writable rd
    \<and> address \<le> rd_address rd \<and> rd_address rd + rd_count rd \<le> address + int (length values)
    \<and> decode_write gm rd address values = Inr (Some physical)
    \<and> all_accept (pl_validators pl) name physical = Inr True \<and> apply_rule pl name physical = Inr (v, False)"
proof -
  have inv0: "map_inv gm0" using register_map_init_inv [OF assms(1,2)] by simp
  have "map_inv gm" using set_values_inv [OF inv0 assms(3)] by simp
  then have "may_write gm pl address values name"
    using process_write_other [OF _ assms(4)] assms(5) by blast
  moreover have "address \<le> rd_address rd \<and> rd_address rd + rd_count rd \<le> address + int (length values)"
    if "decode_write gm rd address values = Inr (Some physical)" for rd physical
    using that by (auto simp: decode_write_def Let_def split: if_splits)
  ultimately show ?thesis unfolding may_write_def by blast
qed

definition demo_pipeline :: pipeline where
  "demo_pipeline = \<lparr>pl_rules = [(''p'', \<lparr>rr_min = Some (Fin 0), rr_max = Some (Fin 50), rr_clamp = True\<rparr>)],
     pl_validators = [whitelist_validate {''p'', ''ratio''}]\<rparr>"

lemma demo_write:
  "is_ok (snd (process_write demo_pipeline 0 [800, 7] demo_map))"
  "get_value (fst (process_write demo_pipeline 0 [800, 7] demo_map)) ''p'' = Inr (PyFloat (Fin 50))"
  "get_value demo_map ''p'' = Inr (PyFloat (Fin 0))"
  by code_simp+

theorem write_gate_witness:
  "\<exists>rd physical v. dict_get (gm_defs demo_map) ''p'' = Some rd \<and> rd_writable rd
     \<and> decode_write demo_map rd 0 [800, 7] = Inr (Some physical) \<and> apply_rule demo_pipeline ''p'' physical = Inr (v, False)"
proof -
  obtain gm' r where run: "process_write demo_pipeline 0 [800, 7] demo_map = (gm', r)" by fastforce
  have "get_value gm' ''p'' \<noteq> get_value demo_map ''p''" using demo_write run by simp
  then show ?thesis
    using write_gate [OF demo_defs_valid demo_map_init _ run, of "[]" "''p''"] by auto
qed

text \<open>
  A not-a-number write is not rejected but raises out of the pipeline: no rule stops it, and rounding it in
  the register map raises \<open>ValueError\<close>. What was stored before stays stored, and the changes collected
  so far, hence their hooks, are lost.
\<close>

theorem nan_write_raises:
  assumes "rd_writable rd" "decode_write (fst s) rd address values = Inr (Some (PyFloat NaN))"
    and "get_value (fst s) (rd_name rd) = Inr old" "all_accept (pl_validators pl) (rd_name rd) (PyFloat NaN) = Inr True"
    and "dict_get (gm_defs (fst s)) (rd_name rd) = Some rd"
  shows "write_register pl address values rd s = Inl ValueError"
proof -
  have "x * NaN = NaN" "NaN * x = NaN" for x :: flt by (cases x; simp)+
  then have "set_value (fst s) (rd_name rd) (PyFloat NaN) = Inl ValueError"
    using assms(5) by (simp add: set_value_def set_value_unlocked_def scaled_value_def)
  moreover have "apply_rule pl (rd_name rd) (PyFloat NaN) = Inr (PyFloat NaN, False)"
    by (auto simp: apply_rule_def write_rule_apply_def comparable_def below_def above_def split: option.split)
  ultimately show ?thesis using assms(1-4) by (simp add: write_register_def store_write_def)
qed

lemma demo_nan:
  "decode_write demo_map (demo_def ''ratio'' 2 Float32 True) 2 [32704, 0] = Inr (Some (PyFloat NaN))"
  "get_value demo_map ''ratio'' = Inr (PyFloat (Fin 0))"
  "dict_get (gm_defs demo_map) ''ratio'' = Some (demo_def ''ratio'' 2 Float32 True)"
  "get_value (fst (process_write demo_pipeline 0 [100, 0, 32704, 0] demo_map)) ''p'' = Inr (PyFloat (Fin 10))"
  "snd (process_write demo_pipeline 0 [100, 0, 32704, 0] demo_map) = Inl ValueError"
  by code_simp+

theorem nan_write_raises_witness:
  "write_register demo_pipeline 2 [32704, 0] (demo_def ''ratio'' 2 Float32 True) (demo_map, []) = Inl ValueError
   \<and> get_value (fst (process_write demo_pipeline 0 [100, 0, 32704, 0] demo_map)) ''p'' = Inr (PyFloat (Fin 10))
   \<and> snd (process_write demo_pipeline 0 [100, 0, 32704, 0] demo_map) = Inl ValueError"
proof -
  have "write_register demo_pipeline 2 [32704, 0] (demo_def ''ratio'' 2 Float32 True) (demo_map, []) = Inl ValueError"
  proof (rule nan_write_raises)
    show "decode_write (fst (demo_map, [])) (demo_def ''ratio'' 2 Float32 True) 2 [32704, 0] = Inr (Some (PyFloat NaN))"
      using demo_nan(1) by simp
    show "get_value (fst (demo_map, [])) (rd_name (demo_def ''ratio'' 2 Float32 True)) = Inr (PyFloat (Fin 0))"
      using demo_nan(2) by (simp add: demo_def_def)
    show "dict_get (gm_defs (fst (demo_map, []))) (rd_name (demo_def ''ratio'' 2 Float32 True)) = Some (demo_def ''ratio'' 2 Float32 True)"
      using demo_nan(3) by (simp add: demo_def_def)
  qed (simp_all add: demo_def_def demo_pipeline_def whitelist_validate_def)
  with demo_nan(4,5) show ?thesis by blast
qed

end
