(* ===== verification/Gateway_Watchdog.thy ===== *)
theory Gateway_Watchdog
  imports Csp_Prelude
begin

text \<open>
  \<open>csp_lib/modbus_gateway/watchdog.py\<close>: the communication watchdog. The clock is the argument of the
  operations that read it; one iteration of the check loop is one step, and every callback it awaits
  is recorded (a callback that raises is only logged).
\<close>

record watchdog_config =
  wc_timeout :: rat
  wc_interval :: rat
  wc_enabled :: bool

definition watchdog_config_valid :: "watchdog_config \<Rightarrow> bool" where
  "watchdog_config_valid c = (0 < wc_timeout c \<and> 0 < wc_interval c)"

record watchdog =
  wd_config :: watchdog_config
  wd_last_comm :: rat
  wd_timed_out :: bool
  wd_on_timeout :: "nat list"
  wd_on_recover :: "nat list"
  wd_running :: bool
  wd_calls :: "(bool \<times> nat) list"

definition watchdog_init :: "watchdog_config \<Rightarrow> rat \<Rightarrow> watchdog" where
  "watchdog_init c now = \<lparr>wd_config = c, wd_last_comm = now, wd_timed_out = False, wd_on_timeout = [],
     wd_on_recover = [], wd_running = False, wd_calls = []\<rparr>"

definition touch :: "rat \<Rightarrow> watchdog \<Rightarrow> watchdog" where
  "touch now wd = wd\<lparr>wd_last_comm := now\<rparr>"

definition elapsed :: "rat \<Rightarrow> watchdog \<Rightarrow> rat" where
  "elapsed now wd = now - wd_last_comm wd"

definition wd_register_timeout :: "nat \<Rightarrow> watchdog \<Rightarrow> watchdog" where
  "wd_register_timeout cb wd = wd\<lparr>wd_on_timeout := wd_on_timeout wd @ [cb]\<rparr>"

definition wd_register_recover :: "nat \<Rightarrow> watchdog \<Rightarrow> watchdog" where
  "wd_register_recover cb wd = wd\<lparr>wd_on_recover := wd_on_recover wd @ [cb]\<rparr>"

definition wd_start :: "rat \<Rightarrow> watchdog \<Rightarrow> watchdog" where
  "wd_start now wd = (if \<not> wc_enabled (wd_config wd) then wd
     else wd\<lparr>wd_last_comm := now, wd_timed_out := False, wd_running := True\<rparr>)"

definition wd_stop :: "watchdog \<Rightarrow> watchdog" where
  "wd_stop wd = wd\<lparr>wd_running := False\<rparr>"

text \<open>One iteration of \<open>_check_loop\<close>.\<close>

definition wd_check :: "rat \<Rightarrow> watchdog \<Rightarrow> watchdog" where
  "wd_check now wd =
     (if \<not> wd_running wd then wd
      else let e = elapsed now wd
        in if e > wc_timeout (wd_config wd) \<and> \<not> wd_timed_out wd
           then wd\<lparr>wd_timed_out := True, wd_calls := wd_calls wd @ map (Pair True) (wd_on_timeout wd)\<rparr>
           else if e \<le> wc_timeout (wd_config wd) \<and> wd_timed_out wd
           then wd\<lparr>wd_timed_out := False, wd_calls := wd_calls wd @ map (Pair False) (wd_on_recover wd)\<rparr>
           else wd)"

datatype wd_event = Touch rat | Check rat

fun wd_step :: "wd_event \<Rightarrow> watchdog \<Rightarrow> watchdog" where
  "wd_step (Touch now) wd = touch now wd"
| "wd_step (Check now) wd = wd_check now wd"

section \<open>What the callbacks see\<close>

definition calls_for :: "nat \<Rightarrow> watchdog \<Rightarrow> bool list" where
  "calls_for cb wd = map fst (filter (\<lambda>(b, c). c = cb) (wd_calls wd))"

text \<open>A callback registered once for each of the two events.\<close>

definition wd_inv :: "nat \<Rightarrow> watchdog \<Rightarrow> bool" where
  "wd_inv cb wd \<longleftrightarrow> wd_running wd \<and> count_list (wd_on_timeout wd) cb = 1 \<and> count_list (wd_on_recover wd) cb = 1
     \<and> alternates False (calls_for cb wd) \<and> last (False # calls_for cb wd) = wd_timed_out wd"

lemma calls_for_append: "calls_for cb (wd\<lparr>wd_timed_out := t, wd_calls := wd_calls wd @ map (Pair b) cbs\<rparr>)
    = calls_for cb wd @ replicate (count_list cbs cb) b"
  by (induction cbs) (auto simp: calls_for_def)

lemma wd_inv_step: "wd_inv cb wd \<Longrightarrow> wd_inv cb (wd_step ev wd)"
proof (cases ev)
  case (Check now)
  assume inv: "wd_inv cb wd"
  have "wd_check now wd = wd \<or> (\<not> wd_timed_out wd \<and> wd_check now wd =
      wd\<lparr>wd_timed_out := True, wd_calls := wd_calls wd @ map (Pair True) (wd_on_timeout wd)\<rparr>)
    \<or> (wd_timed_out wd \<and> wd_check now wd =
      wd\<lparr>wd_timed_out := False, wd_calls := wd_calls wd @ map (Pair False) (wd_on_recover wd)\<rparr>)"
    by (simp add: wd_check_def Let_def)
  then show ?thesis using inv
    by (elim disjE conjE) (auto simp: Check wd_inv_def calls_for_append alternates_snoc split: if_splits)
qed (simp add: wd_inv_def touch_def calls_for_def)

interpretation watchdog: step_invariant wd_step "\<lambda>_. True" "wd_inv cb" for cb
  by unfold_locales (rule wd_inv_step)

lemma wd_timeout_const: "wd_config (run_steps wd_step es wd) = wd_config wd"
proof (induction es arbitrary: wd)
  case (Cons e es)
  have "wd_config (wd_step e wd) = wd_config wd" by (cases e) (simp_all add: touch_def wd_check_def Let_def)
  with Cons show ?case by simp
qed simp

text \<open>
  After every check the watchdog is timed out exactly when the silence exceeds the timeout, and a callback
  registered for both events is called exactly at the changes: its calls alternate, beginning with a
  timeout, and the last one is the state the watchdog is in.
\<close>

theorem watchdog_exact:
  assumes "wd_running wd" "\<not> wd_timed_out wd" "wd_calls wd = []"
    and "count_list (wd_on_timeout wd) cb = 1" "count_list (wd_on_recover wd) cb = 1"
    and "wd' = run_steps wd_step es wd" "wd'' = wd_check now wd'"
  shows "(wd_timed_out wd'' \<longleftrightarrow> wc_timeout (wd_config wd) < now - wd_last_comm wd')
    \<and> alternates False (calls_for cb wd'') \<and> last (False # calls_for cb wd'') = wd_timed_out wd''"
proof -
  have "wd_inv cb wd" using assms(1-5) by (simp add: wd_inv_def calls_for_def)
  then have inv: "wd_inv cb wd'" unfolding assms(6) by (rule watchdog.always) (simp add: list_all_iff)
  then have "wd_inv cb wd''" using wd_inv_step [of cb wd' "Check now"] by (simp add: assms(7))
  moreover have "wd_timed_out wd'' \<longleftrightarrow> wc_timeout (wd_config wd') < now - wd_last_comm wd'"
    using inv by (auto simp: assms(7) wd_check_def wd_inv_def elapsed_def Let_def)
  ultimately show ?thesis by (simp add: assms(6) wd_timeout_const wd_inv_def)
qed

definition demo_watchdog :: watchdog where
  "demo_watchdog = wd_start 0 (wd_register_recover 7 (wd_register_timeout 7
     (watchdog_init \<lparr>wc_timeout = 60, wc_interval = 5, wc_enabled = True\<rparr> 0)))"

theorem watchdog_exact_witness:
  "wd_timed_out (wd_check 200 (run_steps wd_step [Check 61, Touch 62, Check 65] demo_watchdog))"
proof -
  note defs = demo_watchdog_def wd_start_def wd_register_recover_def wd_register_timeout_def watchdog_init_def
  have "wd_last_comm (run_steps wd_step [Check 61, Touch 62, Check 65] demo_watchdog) = 62"
    by (simp add: defs touch_def wd_check_def Let_def elapsed_def)
  then show ?thesis
    using watchdog_exact [of demo_watchdog 7, OF _ _ _ _ _ refl refl, of 200 "[Check 61, Touch 62, Check 65]"]
    by (simp add: defs)
qed

end
