(* ===== verification/Request_Queue.thy ===== *)
theory Request_Queue
  imports Resilience "HOL-Library.Sublist"
begin

text \<open>
  \<open>csp_lib/modbus/clients/queue.py\<close>: the request queue of a shared Modbus connection. Requests wait per
  unit in a heap ordered by priority and sequence number (the list in that order); units take turns;
  each unit has a circuit breaker. A future is identified by the sequence number of its request.
  The worker runs from one \<open>await\<close> to the next in one step; the time is read once per step.
\<close>

datatype priority = WRITE_REQ | READ_REQ

fun prio_num :: "priority \<Rightarrow> int" where
  "prio_num WRITE_REQ = 0"
| "prio_num READ_REQ = 1"

record queue_config =
  qc_default_timeout :: rat
  qc_threshold :: int
  qc_cooldown :: rat
  qc_max_queue_size :: int
  qc_drain_timeout :: rat

record mb_request =
  rq_priority :: priority
  rq_unit :: int
  rq_timeout :: "rat option"
  rq_enqueue_time :: rat
  rq_sequence :: nat

text \<open>\<open>__lt__\<close>.\<close>

definition rq_less :: "mb_request \<Rightarrow> mb_request \<Rightarrow> bool" where
  "rq_less a b = (if rq_priority a \<noteq> rq_priority b then prio_num (rq_priority a) < prio_num (rq_priority b)
     else rq_sequence a < rq_sequence b)"

datatype future = FPending | FCancelled | FResult pyval | FException py_exc

record request_queue =
  mq_config :: queue_config
  mq_queues :: "(int \<times> mb_request list) list"
  mq_round_robin :: "int list"
  mq_breakers :: "(int \<times> circuit_breaker) list"
  mq_sequence :: nat
  mq_total :: int
  mq_futures :: "nat \<Rightarrow> future"
  mq_event :: bool
  mq_running :: bool

definition queue_init :: "queue_config \<Rightarrow> request_queue" where
  "queue_init c = \<lparr>mq_config = c, mq_queues = [], mq_round_robin = [], mq_breakers = [], mq_sequence = 0,
     mq_total = 0, mq_futures = (\<lambda>_. FPending), mq_event = False, mq_running = False\<rparr>"

section \<open>Circuit breakers\<close>

text \<open>\<open>CircuitBreaker(threshold, cooldown)\<close> with the default back-off (300 s, factor 2).\<close>

definition get_circuit_breaker :: "request_queue \<Rightarrow> int \<Rightarrow> circuit_breaker" where
  "get_circuit_breaker mq u = (case dict_get (mq_breakers mq) u of
       None \<Rightarrow> circuit_breaker_init (qc_threshold (mq_config mq)) (qc_cooldown (mq_config mq)) 300 2
     | Some cb \<Rightarrow> cb)"

definition put_breaker :: "int \<Rightarrow> circuit_breaker \<Rightarrow> request_queue \<Rightarrow> request_queue" where
  "put_breaker u cb mq = mq\<lparr>mq_breakers := dict_set u cb (mq_breakers mq)\<rparr>"

definition query_breaker :: "rat \<Rightarrow> int \<Rightarrow> request_queue \<Rightarrow> bool \<times> request_queue" where
  "query_breaker now u mq = (let (ok, cb) = allows_request (get_circuit_breaker mq u) now in (ok, put_breaker u cb mq))"

section \<open>Submitting\<close>

fun heap_push :: "mb_request \<Rightarrow> mb_request list \<Rightarrow> mb_request list" where
  "heap_push r [] = [r]"
| "heap_push r (x # xs) = (if rq_less r x then r # x # xs else x # heap_push r xs)"

definition enqueue :: "int \<Rightarrow> priority \<Rightarrow> rat option \<Rightarrow> rat \<Rightarrow> request_queue \<Rightarrow> request_queue" where
  "enqueue u p timeout now mq =
     (let s = Suc (mq_sequence mq);
          r = \<lparr>rq_priority = p, rq_unit = u, rq_timeout = timeout, rq_enqueue_time = now, rq_sequence = s\<rparr>;
          rr = (if dict_get (mq_queues mq) u = None then mq_round_robin mq @ [u] else mq_round_robin mq)
      in mq\<lparr>mq_sequence := s, mq_round_robin := rr,
            mq_queues := dict_set u (heap_push r (dict_get_or (mq_queues mq) u [])) (mq_queues mq),
            mq_total := mq_total mq + 1, mq_event := True\<rparr>)"

text \<open>The call up to its wait for the future; the number of the future is returned.\<close>

definition submit :: "int \<Rightarrow> priority \<Rightarrow> rat option \<Rightarrow> rat \<Rightarrow> request_queue \<Rightarrow> request_queue \<times> nat res" where
  "submit u p timeout now mq =
     (if \<not> mq_running mq then (mq, Inl ModbusError)
      else let (ok, mq1) = query_breaker now u mq
        in if \<not> ok then (mq1, Inl ModbusCircuitBreakerError)
           else if qc_max_queue_size (mq_config mq1) > 0 \<and> mq_total mq1 \<ge> qc_max_queue_size (mq_config mq1)
           then (mq1, Inl ModbusQueueFullError)
           else (enqueue u p timeout now mq1, Inr (Suc (mq_sequence mq1))))"

definition set_future :: "nat \<Rightarrow> future \<Rightarrow> request_queue \<Rightarrow> request_queue" where
  "set_future s f mq = (if mq_futures mq s = FPending then mq\<lparr>mq_futures := (mq_futures mq)(s := f)\<rparr> else mq)"

text \<open>The wait in \<open>submit\<close> timed out: \<open>future.cancel()\<close>.\<close>

definition submit_timeout :: "nat \<Rightarrow> request_queue \<Rightarrow> request_queue" where
  "submit_timeout s mq = set_future s FCancelled mq"

section \<open>Fair dequeueing\<close>

definition dead :: "request_queue \<Rightarrow> mb_request \<Rightarrow> bool" where
  "dead mq r = (mq_futures mq (rq_sequence r) \<noteq> FPending)"

text \<open>Cancelled requests at the top of a heap are dropped.\<close>

definition clean_head :: "int \<Rightarrow> mb_request list \<Rightarrow> request_queue \<Rightarrow> request_queue" where
  "clean_head u q mq =
     (let q' = dropWhile (dead mq) q
      in mq\<lparr>mq_queues := dict_set u q' (mq_queues mq), mq_total := mq_total mq - int (length q - length q')\<rparr>)"

type_synonym scan_state = "(mb_request \<times> int) option \<times> int list \<times> request_queue"

definition scan_unit :: "rat \<Rightarrow> int \<Rightarrow> scan_state \<Rightarrow> scan_state" where
  "scan_unit now u s = (case s of (best, stale, mq) \<Rightarrow>
     if dict_get_or (mq_queues mq) u [] = [] then (best, stale @ [u], mq)
     else let mq1 = clean_head u (dict_get_or (mq_queues mq) u []) mq
       in case dict_get_or (mq_queues mq1) u [] of
            [] \<Rightarrow> (best, stale @ [u], mq1)
          | candidate # _ \<Rightarrow>
              let (ok, mq2) = query_breaker now u mq1
              in if \<not> ok then (best, stale, mq2)
                 else if (case best of None \<Rightarrow> True
                          | Some (b, _) \<Rightarrow> prio_num (rq_priority candidate) < prio_num (rq_priority b))
                 then (Some (candidate, u), stale, mq2)
                 else (best, stale, mq2))"

definition scan_units :: "rat \<Rightarrow> request_queue \<Rightarrow> scan_state" where
  "scan_units now mq = fold (scan_unit now) (mq_round_robin mq) (None, [], mq)"

definition drop_unit :: "int \<Rightarrow> request_queue \<Rightarrow> request_queue" where
  "drop_unit u mq = mq\<lparr>mq_queues := dict_del u (mq_queues mq), mq_round_robin := remove1 u (mq_round_robin mq)\<rparr>"

definition pop_unit :: "int \<Rightarrow> request_queue \<Rightarrow> request_queue" where
  "pop_unit u mq =
     (let q = tl (dict_get_or (mq_queues mq) u []);
          mq1 = mq\<lparr>mq_queues := dict_set u q (mq_queues mq), mq_total := mq_total mq - 1\<rparr>
      in if q = [] then drop_unit u mq1
         else mq1\<lparr>mq_round_robin := remove1 u (mq_round_robin mq1) @ [u]\<rparr>)"

definition dequeue :: "rat \<Rightarrow> request_queue \<Rightarrow> mb_request option \<times> request_queue" where
  "dequeue now mq =
     (if mq_round_robin mq = [] then (None, mq)
      else let (best, stale, mq1) = scan_units now mq;
               mq2 = fold drop_unit stale mq1
        in case best of None \<Rightarrow> (None, mq2) | Some (r, u) \<Rightarrow> (Some r, pop_unit u mq2))"

section \<open>The worker\<close>

datatype worker_pc =
    WorkerExit
  | WorkerContinue
  | WorkerWait
  | WorkerExecute mb_request rat

text \<open>One round of the loop: it ends, goes on at once, waits for the event, or awaits the request.\<close>

definition worker_round :: "rat \<Rightarrow> request_queue \<Rightarrow> worker_pc \<times> request_queue" where
  "worker_round now mq =
     (if \<not> (mq_running mq \<or> mq_total mq > 0) then (WorkerExit, mq)
      else let (r, mq1) = dequeue now mq
        in case r of
            None \<Rightarrow>
              if \<not> mq_running mq1 then (WorkerExit, mq1)
              else let mq2 = mq1\<lparr>mq_event := False\<rparr>
                in if mq_total mq2 > 0 then (WorkerContinue, mq2) else (WorkerWait, mq2)
          | Some rq \<Rightarrow>
              if dead mq1 rq then (WorkerContinue, mq1)
              else let (ok, mq2) = query_breaker now (rq_unit rq) mq1;
                  eff = (case rq_timeout rq of None \<Rightarrow> qc_default_timeout (mq_config mq2) | Some t \<Rightarrow> t)
                in if \<not> ok then (WorkerContinue, set_future (rq_sequence rq) (FException ModbusCircuitBreakerError) mq2)
                   else (WorkerExecute rq (max (eff - (now - rq_enqueue_time rq)) (1 / 2)), mq2))"

definition request_done :: "rat \<Rightarrow> rat \<Rightarrow> mb_request \<Rightarrow> pyval res \<Rightarrow> request_queue \<Rightarrow> request_queue" where
  "request_done now rnd rq outcome mq =
     (let cb = get_circuit_breaker mq (rq_unit rq)
      in case outcome of
          Inr v \<Rightarrow> set_future (rq_sequence rq) (FResult v) (put_breaker (rq_unit rq) (record_success cb) mq)
        | Inl e \<Rightarrow> set_future (rq_sequence rq) (FException e) (put_breaker (rq_unit rq) (record_failure cb now rnd) mq))"

definition queue_start :: "request_queue \<Rightarrow> request_queue" where
  "queue_start mq = (if mq_running mq then mq else mq\<lparr>mq_running := True\<rparr>)"

definition queue_stop :: "request_queue \<Rightarrow> request_queue" where
  "queue_stop mq = (if \<not> mq_running mq then mq else mq\<lparr>mq_running := False, mq_event := True\<rparr>)"

text \<open>The end of \<open>stop\<close>, when the worker has ended: what is left is cancelled.\<close>

definition queue_clear :: "request_queue \<Rightarrow> request_queue" where
  "queue_clear mq = (fold (\<lambda>r. set_future (rq_sequence r) FCancelled) (concat (map snd (mq_queues mq))) mq)
     \<lparr>mq_queues := [], mq_round_robin := [], mq_total := 0\<rparr>"

datatype queue_event =
    Submit int priority "rat option" rat
  | SubmitTimeout nat
  | Round rat
  | Done rat rat mb_request "pyval res"
  | StartQueue
  | StopQueue
  | ClearQueue

fun queue_step :: "queue_event \<Rightarrow> request_queue \<Rightarrow> request_queue" where
  "queue_step (Submit u p t now) mq = fst (submit u p t now mq)"
| "queue_step (SubmitTimeout s) mq = submit_timeout s mq"
| "queue_step (Round now) mq = snd (worker_round now mq)"
| "queue_step (Done now rnd rq r) mq = request_done now rnd rq r mq"
| "queue_step StartQueue mq = queue_start mq"
| "queue_step StopQueue mq = queue_stop mq"
| "queue_step ClearQueue mq = queue_clear mq"

section \<open>Accounting\<close>

definition queued :: "request_queue \<Rightarrow> nat" where
  "queued mq = sum_list (map (length \<circ> snd) (mq_queues mq))"

text \<open>During a scan, empty queues may be left for the stale units.\<close>

definition scan_inv :: "request_queue \<Rightarrow> bool" where
  "scan_inv mq \<longleftrightarrow> distinct (dict_keys (mq_queues mq)) \<and> distinct (mq_round_robin mq)
     \<and> set (mq_round_robin mq) = set (dict_keys (mq_queues mq)) \<and> mq_total mq = int (queued mq)
     \<and> (\<forall>u q r. dict_get (mq_queues mq) u = Some q \<longrightarrow> r \<in> set q \<longrightarrow> rq_unit r = u)
     \<and> (\<forall>u q. dict_get (mq_queues mq) u = Some q \<longrightarrow> sorted_wrt rq_less q)
     \<and> (\<forall>u q r. dict_get (mq_queues mq) u = Some q \<longrightarrow> r \<in> set q \<longrightarrow> rq_sequence r \<le> mq_sequence mq)"

definition queue_inv :: "request_queue \<Rightarrow> bool" where
  "queue_inv mq \<longleftrightarrow> scan_inv mq \<and> (\<forall>u. dict_get (mq_queues mq) u \<noteq> Some [])
     \<and> (qc_max_queue_size (mq_config mq) > 0 \<longrightarrow> mq_total mq \<le> qc_max_queue_size (mq_config mq))"

lemma sum_set: "distinct (dict_keys d) \<Longrightarrow>
    sum_list (map (length \<circ> snd) (dict_set u ys d)) + length (dict_get_or d u [])
      = sum_list (map (length \<circ> snd) d) + length ys"
proof (induction d)
  case (Cons kv d)
  obtain k v where kv: "kv = (k, v)" by (cases kv)
  have "u \<notin> fst ` set d \<Longrightarrow> dict_get_or d u [] = []"
    by (simp add: dict_get_or_def map_of_eq_None_iff [symmetric])
  with Cons kv show ?case by (auto simp: dict_get_or_def)
qed simp

lemma sum_del: "distinct (dict_keys d) \<Longrightarrow>
    sum_list (map (length \<circ> snd) (dict_del u d)) + length (dict_get_or d u []) = sum_list (map (length \<circ> snd) d)"
proof (induction d)
  case (Cons kv d)
  obtain k v where kv: "kv = (k, v)" by (cases kv)
  have "u \<notin> fst ` set d \<Longrightarrow> dict_get_or d u [] = [] \<and> dict_del u d = d"
    by (simp add: dict_get_or_def map_of_eq_None_iff [symmetric] delete_id)
  with Cons kv show ?case by (auto simp: dict_get_or_def)
qed simp

lemma put_breaker_simps [simp]:
  "mq_queues (put_breaker u cb mq) = mq_queues mq" "mq_round_robin (put_breaker u cb mq) = mq_round_robin mq"
  "mq_total (put_breaker u cb mq) = mq_total mq" "mq_futures (put_breaker u cb mq) = mq_futures mq"
  "mq_config (put_breaker u cb mq) = mq_config mq" "mq_sequence (put_breaker u cb mq) = mq_sequence mq"
  "mq_running (put_breaker u cb mq) = mq_running mq" "mq_event (put_breaker u cb mq) = mq_event mq"
  by (simp_all add: put_breaker_def)

lemma scan_inv_put_breaker [simp]: "scan_inv (put_breaker u cb mq) = scan_inv mq"
  by (simp add: scan_inv_def queued_def)

lemma query_breaker_put: "\<exists>cb. snd (query_breaker now u mq) = put_breaker u cb mq"
  by (auto simp: query_breaker_def split: prod.split)

lemma get_or_Some: "dict_get_or d u [] \<noteq> [] \<Longrightarrow> dict_get d u = Some (dict_get_or d u [])"
  by (auto simp: dict_get_or_def split: option.splits)

lemma scan_inv_shrink:
  assumes "scan_inv mq" "dict_get (mq_queues mq) u = Some q" "suffix q' q"
  shows "scan_inv (mq\<lparr>mq_queues := dict_set u q' (mq_queues mq), mq_total := mq_total mq - int (length q - length q')\<rparr>)"
proof -
  have len: "length q' \<le> length q" and sub: "set q' \<subseteq> set q" and srt: "sorted_wrt rq_less q \<Longrightarrow> sorted_wrt rq_less q'"
    using assms(3) by (auto simp: suffix_def sorted_wrt_append)
  have "u \<in> set (dict_keys (mq_queues mq))" unfolding dict_keys_map_of using assms(2) by simp
  then have keys: "dict_keys (dict_set u q' (mq_queues mq)) = dict_keys (mq_queues mq)" by (rule dict_set_keys_old)
  have "sum_list (map (length \<circ> snd) (dict_set u q' (mq_queues mq))) + length q = queued mq + length q'"
    using sum_set [of "mq_queues mq" u q'] assms(1,2) by (simp add: scan_inv_def queued_def dict_get_or_def)
  then have "int (sum_list (map (length \<circ> snd) (dict_set u q' (mq_queues mq)))) = int (queued mq) - int (length q - length q')"
    using len by linarith
  moreover have "\<forall>r\<in>set q'. rq_unit r = u \<and> rq_sequence r \<le> mq_sequence mq" "sorted_wrt rq_less q'"
    using assms(1,2) sub srt unfolding scan_inv_def by blast+
  ultimately show ?thesis
    using assms(1) unfolding scan_inv_def queued_def
    by (simp add: keys update_conv' del: dict_set_keys_image map_of_eq_Some_iff)
qed

lemma clean_head_inv:
  assumes "scan_inv mq" "dict_get_or (mq_queues mq) u [] = q" "q \<noteq> []"
  shows "scan_inv (clean_head u q mq)"
  unfolding clean_head_def Let_def
  using assms get_or_Some [of "mq_queues mq" u] by (intro scan_inv_shrink) (auto simp: suffix_dropWhile)

lemma clean_head_simps [simp]:
  "mq_round_robin (clean_head u q mq) = mq_round_robin mq" "mq_futures (clean_head u q mq) = mq_futures mq"
  "mq_config (clean_head u q mq) = mq_config mq" "mq_sequence (clean_head u q mq) = mq_sequence mq"
  "mq_running (clean_head u q mq) = mq_running mq" "mq_breakers (clean_head u q mq) = mq_breakers mq"
  "mq_event (clean_head u q mq) = mq_event mq"
  "dict_get_or (mq_queues (clean_head u q mq)) v [] = (if v = u then dropWhile (dead mq) q else dict_get_or (mq_queues mq) v [])"
  by (simp_all add: clean_head_def Let_def)

lemma clean_head_total: "mq_total (clean_head u q mq) \<le> mq_total mq"
  by (simp add: clean_head_def Let_def)

text \<open>The live requests of a unit, and which of them a scan may choose.\<close>

definition live :: "request_queue \<Rightarrow> int \<Rightarrow> mb_request list" where
  "live mq u = dropWhile (dead mq) (dict_get_or (mq_queues mq) u [])"

definition admitted :: "rat \<Rightarrow> request_queue \<Rightarrow> int \<Rightarrow> bool" where
  "admitted now mq u = fst (query_breaker now u mq)"

text \<open>What scanning one unit does: a cleaned queue, a breaker queried, the stale units and the best so far.\<close>

lemma admitted_clean_head: "fst (query_breaker now u (clean_head v q mq)) = admitted now mq u"
proof -
  have "get_circuit_breaker (clean_head v q mq) u = get_circuit_breaker mq u"
    by (simp add: get_circuit_breaker_def cong: option.case_cong)
  then show ?thesis by (simp add: admitted_def query_breaker_def split_beta' Let_def)
qed

lemma scan_unit_cases:
  obtains (stale) mq1 where "scan_unit now u (best, st, mq) = (best, st @ [u], mq1)" "live mq u = []"
      "mq1 = (if dict_get_or (mq_queues mq) u [] = [] then mq else clean_head u (dict_get_or (mq_queues mq) u []) mq)"
    | (live) r cb where "scan_unit now u (best, st, mq) =
        (if admitted now mq u \<and> (case best of None \<Rightarrow> True | Some (b, _) \<Rightarrow> prio_num (rq_priority r) < prio_num (rq_priority b))
         then Some (r, u) else best, st, put_breaker u cb (clean_head u (dict_get_or (mq_queues mq) u []) mq))"
      "live mq u \<noteq> []" "r = hd (live mq u)"
proof (cases "live mq u")
  case Nil
  show ?thesis
  proof (cases "dict_get_or (mq_queues mq) u [] = []")
    case True
    then show ?thesis using stale [of mq] Nil by (simp add: scan_unit_def)
  next
    case False
    then have "dict_get_or (mq_queues (clean_head u (dict_get_or (mq_queues mq) u []) mq)) u [] = []"
      using Nil by (simp add: live_def)
    then show ?thesis
      using stale [of "clean_head u (dict_get_or (mq_queues mq) u []) mq"] Nil False
      by (simp add: scan_unit_def Let_def del: clean_head_simps)
  qed
next
  case (Cons r rs)
  let ?mq1 = "clean_head u (dict_get_or (mq_queues mq) u []) mq"
  have ne: "dict_get_or (mq_queues mq) u [] \<noteq> []" using Cons by (auto simp: live_def)
  have q: "dict_get_or (mq_queues ?mq1) u [] = r # rs" using Cons by (simp add: live_def)
  obtain ok cb where ok: "query_breaker now u ?mq1 = (ok, put_breaker u cb ?mq1)"
    using query_breaker_put [of now u ?mq1] by (metis prod.collapse)
  have "ok = admitted now mq u"
    using ok admitted_clean_head [of now u u "dict_get_or (mq_queues mq) u []" mq] by simp
  have "scan_unit now u (best, st, mq) = (if ok \<and> (case best of None \<Rightarrow> True | Some (b, _) \<Rightarrow> prio_num (rq_priority r) < prio_num (rq_priority b))
         then Some (r, u) else best, st, put_breaker u cb ?mq1)"
    unfolding scan_unit_def by (simp only: prod.case ne if_False Let_def q list.case ok) simp
  then show ?thesis unfolding \<open>ok = admitted now mq u\<close> by (rule live) (simp_all add: Cons)
qed

lemma get_put_breaker [simp]:
  "get_circuit_breaker (put_breaker u cb mq) v = (if v = u then cb else get_circuit_breaker mq v)"
  by (simp add: get_circuit_breaker_def put_breaker_def update_conv' cong: option.case_cong)

lemma get_breaker_clean [simp]: "get_circuit_breaker (clean_head u q mq) v = get_circuit_breaker mq v"
  by (simp add: get_circuit_breaker_def cong: option.case_cong)

definition same_frame :: "request_queue \<Rightarrow> request_queue \<Rightarrow> bool" where
  "same_frame mq mq' \<longleftrightarrow> mq_round_robin mq' = mq_round_robin mq \<and> mq_futures mq' = mq_futures mq \<and> mq_config mq' = mq_config mq
     \<and> mq_sequence mq' = mq_sequence mq \<and> mq_running mq' = mq_running mq \<and> mq_event mq' = mq_event mq
     \<and> mq_total mq' \<le> mq_total mq"

definition scanned :: "rat \<Rightarrow> request_queue \<Rightarrow> int set \<Rightarrow> (mb_request \<times> int) option \<Rightarrow> bool" where
  "scanned now mq U best = (case best of
       None \<Rightarrow> \<forall>v\<in>U. live mq v \<noteq> [] \<longrightarrow> \<not> admitted now mq v
     | Some (r, u) \<Rightarrow> u \<in> U \<and> live mq u \<noteq> [] \<and> r = hd (live mq u) \<and> admitted now mq u
         \<and> (\<forall>v\<in>U. live mq v \<noteq> [] \<longrightarrow> admitted now mq v \<longrightarrow> prio_num (rq_priority r) \<le> prio_num (rq_priority (hd (live mq v)))))"

lemma admitted_cong: "get_circuit_breaker mq' u = get_circuit_breaker mq u \<Longrightarrow> admitted now mq' u = admitted now mq u"
  by (simp add: admitted_def query_breaker_def split_beta' Let_def)

lemma live_cong: "mq_futures mq' = mq_futures mq \<Longrightarrow> dict_get_or (mq_queues mq') u [] = dict_get_or (mq_queues mq) u [] \<Longrightarrow> live mq' u = live mq u"
  by (simp add: live_def dead_def [abs_def])

lemma scan_fold:
  assumes "scan_inv mq" "distinct us" "fold (scan_unit now) us (None, [], mq) = (best, st, mq')"
  shows "scan_inv mq' \<and> same_frame mq mq'
    \<and> (\<forall>v. dict_get_or (mq_queues mq') v [] = (if v \<in> set us then live mq v else dict_get_or (mq_queues mq) v []))
    \<and> (\<forall>v. v \<notin> set us \<longrightarrow> get_circuit_breaker mq' v = get_circuit_breaker mq v)
    \<and> set st = {v \<in> set us. live mq v = []} \<and> scanned now mq (set us) best"
  using assms(2,3)
proof (induction us arbitrary: best st mq' rule: rev_induct)
  case Nil
  then show ?case using assms(1) by (simp add: same_frame_def scanned_def)
next
  case (snoc u us)
  obtain b1 s1 mq1 where f: "fold (scan_unit now) us (None, [], mq) = (b1, s1, mq1)" by (metis prod_cases3)
  then have step: "scan_unit now u (b1, s1, mq1) = (best, st, mq')" using snoc.prems(2) by simp
  have IH: "scan_inv mq1" "same_frame mq mq1"
      "\<And>v. dict_get_or (mq_queues mq1) v [] = (if v \<in> set us then live mq v else dict_get_or (mq_queues mq) v [])"
      "\<And>v. v \<notin> set us \<Longrightarrow> get_circuit_breaker mq1 v = get_circuit_breaker mq v"
      "set s1 = {v \<in> set us. live mq v = []}" "scanned now mq (set us) b1"
    using snoc.IH [OF _ f] snoc.prems(1) by auto
  have u: "u \<notin> set us" using snoc.prems(1) by simp
  have lu: "live mq1 u = live mq u" using IH(2,3) u by (intro live_cong) (simp_all add: same_frame_def)
  have au: "admitted now mq1 u = admitted now mq u" using IH(4) u by (intro admitted_cong) simp
  have dead: "dropWhile (dead mq1) (dict_get_or (mq_queues mq1) u []) = live mq u" using lu by (simp add: live_def)
  show ?case
  proof (rule scan_unit_cases [of now u b1 s1 mq1])
    fix mq2 assume 1: "scan_unit now u (b1, s1, mq1) = (b1, s1 @ [u], mq2)" and 2: "live mq1 u = []"
      and 3: "mq2 = (if dict_get_or (mq_queues mq1) u [] = [] then mq1 else clean_head u (dict_get_or (mq_queues mq1) u []) mq1)"
    have eq: "best = b1" "st = s1 @ [u]" "mq' = mq2" using step 1 by simp_all
    have "scanned now mq (set (us @ [u])) best"
      using IH(6) 2 lu by (auto simp: scanned_def eq split: option.splits)
    moreover have "set st = {v \<in> set (us @ [u]). live mq v = []}" using IH(5) 2 lu by (auto simp: eq)
    moreover have "scan_inv mq2 \<and> same_frame mq mq2 \<and> (\<forall>v. get_circuit_breaker mq2 v = get_circuit_breaker mq1 v)
        \<and> (\<forall>v. dict_get_or (mq_queues mq2) v [] = (if v = u then [] else dict_get_or (mq_queues mq1) v []))"
    proof (cases "dict_get_or (mq_queues mq1) u [] = []")
      case True
      then show ?thesis using IH(1,2) 3 by simp
    next
      case False
      then have ne: "dict_get_or (mq_queues mq1) u [] \<noteq> []" and mq2: "mq2 = clean_head u (dict_get_or (mq_queues mq1) u []) mq1"
        using 3 by simp_all
      have "same_frame mq mq2" using IH(2) clean_head_total [of u "dict_get_or (mq_queues mq1) u []" mq1] by (simp add: same_frame_def mq2)
      then show ?thesis using clean_head_inv [OF IH(1) refl ne] 2 lu dead by (simp add: mq2)
    qed
    ultimately show ?thesis using IH(3,4) u 2 lu by (simp add: eq)
  next
    fix r cb
    assume 1: "scan_unit now u (b1, s1, mq1) =
        (if admitted now mq1 u \<and> (case b1 of None \<Rightarrow> True | Some (b, _) \<Rightarrow> prio_num (rq_priority r) < prio_num (rq_priority b))
         then Some (r, u) else b1, s1, put_breaker u cb (clean_head u (dict_get_or (mq_queues mq1) u []) mq1))"
      and 2: "live mq1 u \<noteq> []" "r = hd (live mq1 u)"
    have ne: "dict_get_or (mq_queues mq1) u [] \<noteq> []" using 2 by (auto simp: live_def)
    have eq: "best = (if admitted now mq u \<and> (case b1 of None \<Rightarrow> True | Some (b, _) \<Rightarrow> prio_num (rq_priority r) < prio_num (rq_priority b))
         then Some (r, u) else b1)" "st = s1" "mq' = put_breaker u cb (clean_head u (dict_get_or (mq_queues mq1) u []) mq1)"
      using step 1 au by simp_all
    have "scanned now mq (set (us @ [u])) best"
      using IH(6) 2 lu unfolding eq(1) by (auto simp: scanned_def split: option.splits if_splits)
    moreover have "same_frame mq mq'"
      using IH(2) clean_head_total [of u "dict_get_or (mq_queues mq1) u []" mq1] by (simp add: same_frame_def eq)
    ultimately show ?thesis using clean_head_inv [OF IH(1) refl ne] IH(3-5) u 2 lu dead by (auto simp: eq(2,3))
  qed
qed

lemma dict_del_keys_set: "set (dict_keys (dict_del u d)) = set (dict_keys d) - {u}"
proof (induction d)
  case (Cons kv d)
  then show ?case by (cases kv) auto
qed simp

lemma drop_unit_inv:
  assumes "scan_inv mq" "dict_get_or (mq_queues mq) u [] = []"
  shows "scan_inv (drop_unit u mq)"
proof -
  have d: "distinct (dict_keys (mq_queues mq))" "distinct (mq_round_robin mq)" "set (mq_round_robin mq) = set (dict_keys (mq_queues mq))"
    using assms(1) by (simp_all add: scan_inv_def)
  have "sum_list (map (length \<circ> snd) (dict_del u (mq_queues mq))) = queued mq"
    using sum_del [OF d(1), of u] assms(2) by (simp add: queued_def)
  moreover have "distinct (dict_keys (dict_del u (mq_queues mq)))" using d(1) by (rule distinct_delete)
  moreover have "set (remove1 u (mq_round_robin mq)) = set (dict_keys (dict_del u (mq_queues mq)))"
    using d(2,3) unfolding dict_del_keys_set by (metis set_remove1_eq)
  ultimately show ?thesis
    using assms(1) d(2) unfolding scan_inv_def drop_unit_def queued_def
    by (simp add: delete_conv' del: map_of_eq_Some_iff set_remove1_eq set_map)
qed

lemma drop_unit_simps [simp]:
  "mq_total (drop_unit u mq) = mq_total mq" "mq_futures (drop_unit u mq) = mq_futures mq"
  "mq_config (drop_unit u mq) = mq_config mq" "mq_sequence (drop_unit u mq) = mq_sequence mq"
  "mq_running (drop_unit u mq) = mq_running mq" "mq_event (drop_unit u mq) = mq_event mq" "mq_breakers (drop_unit u mq) = mq_breakers mq"
  "mq_queues (drop_unit u mq) = dict_del u (mq_queues mq)"
  "mq_round_robin (drop_unit u mq) = remove1 u (mq_round_robin mq)"
  by (simp_all add: drop_unit_def)

lemma drop_units:
  assumes "scan_inv mq" "\<forall>u\<in>set st. dict_get_or (mq_queues mq) u [] = []"
  shows "scan_inv (fold drop_unit st mq) \<and> mq_total (fold drop_unit st mq) = mq_total mq
    \<and> mq_config (fold drop_unit st mq) = mq_config mq \<and> mq_running (fold drop_unit st mq) = mq_running mq
    \<and> mq_futures (fold drop_unit st mq) = mq_futures mq \<and> mq_sequence (fold drop_unit st mq) = mq_sequence mq
    \<and> mq_breakers (fold drop_unit st mq) = mq_breakers mq
    \<and> (\<forall>v. dict_get (mq_queues (fold drop_unit st mq)) v = (if v \<in> set st then None else dict_get (mq_queues mq) v))"
  using assms
proof (induction st arbitrary: mq)
  case (Cons u st)
  have "scan_inv (drop_unit u mq)" using Cons.prems by (intro drop_unit_inv) simp_all
  moreover have "\<forall>v\<in>set st. dict_get_or (mq_queues (drop_unit u mq)) v [] = []" using Cons.prems(2) by simp
  ultimately have IH: "scan_inv (fold drop_unit st (drop_unit u mq)) \<and> mq_total (fold drop_unit st (drop_unit u mq)) = mq_total (drop_unit u mq)
    \<and> mq_config (fold drop_unit st (drop_unit u mq)) = mq_config (drop_unit u mq) \<and> mq_running (fold drop_unit st (drop_unit u mq)) = mq_running (drop_unit u mq)
    \<and> mq_futures (fold drop_unit st (drop_unit u mq)) = mq_futures (drop_unit u mq) \<and> mq_sequence (fold drop_unit st (drop_unit u mq)) = mq_sequence (drop_unit u mq)
    \<and> mq_breakers (fold drop_unit st (drop_unit u mq)) = mq_breakers (drop_unit u mq)
    \<and> (\<forall>v. dict_get (mq_queues (fold drop_unit st (drop_unit u mq))) v = (if v \<in> set st then None else dict_get (mq_queues (drop_unit u mq)) v))"
    by (rule Cons.IH)
  then show ?case by (simp add: delete_conv')
qed simp

lemma pop_unit_inv:
  assumes "scan_inv mq" "dict_get (mq_queues mq) u = Some (r # q)" "\<forall>v. dict_get (mq_queues mq) v \<noteq> Some []"
  shows "scan_inv (pop_unit u mq) \<and> (\<forall>v. dict_get (mq_queues (pop_unit u mq)) v \<noteq> Some [])
    \<and> mq_total (pop_unit u mq) = mq_total mq - 1 \<and> mq_config (pop_unit u mq) = mq_config mq \<and> mq_running (pop_unit u mq) = mq_running mq
    \<and> mq_futures (pop_unit u mq) = mq_futures mq \<and> mq_sequence (pop_unit u mq) = mq_sequence mq"
proof -
  define mq1 where "mq1 = mq\<lparr>mq_queues := dict_set u q (mq_queues mq), mq_total := mq_total mq - 1\<rparr>"
  have "scan_inv mq1"
    using scan_inv_shrink [OF assms(1,2), of q] by (simp add: mq1_def suffix_def)
  have get: "dict_get_or (mq_queues mq) u [] = r # q" using assms(2) by (simp add: dict_get_or_def)
  have q1: "dict_get (mq_queues mq1) v = (if v = u then Some q else dict_get (mq_queues mq) v)" for v
    by (simp add: mq1_def update_conv')
  show ?thesis
  proof (cases "q = []")
    case True
    then have "pop_unit u mq = drop_unit u mq1" using get by (simp add: pop_unit_def Let_def mq1_def)
    moreover have "dict_get_or (mq_queues mq1) u [] = []" using True by (simp add: mq1_def)
    ultimately show ?thesis
      using drop_unit_inv [OF \<open>scan_inv mq1\<close>] assms(3) q1 by (simp add: delete_conv' del: map_of_eq_Some_iff) (simp add: mq1_def)
  next
    case False
    then have pop: "pop_unit u mq = mq1\<lparr>mq_round_robin := remove1 u (mq_round_robin mq1) @ [u]\<rparr>"
      using get by (simp add: pop_unit_def Let_def mq1_def)
    have "u \<in> set (dict_keys (mq_queues mq1))" unfolding dict_keys_map_of using q1 [of u] by simp
    then have rr: "distinct (remove1 u (mq_round_robin mq1) @ [u])"
      "set (remove1 u (mq_round_robin mq1) @ [u]) = set (dict_keys (mq_queues mq1))"
      using \<open>scan_inv mq1\<close> by (auto simp: scan_inv_def)
    have "scan_inv (pop_unit u mq)"
      using \<open>scan_inv mq1\<close> rr unfolding pop scan_inv_def queued_def by (simp del: map_of_eq_Some_iff set_map set_append distinct_append)
    then show ?thesis using assms(3) q1 False unfolding pop by (simp del: map_of_eq_Some_iff) (simp add: mq1_def)
  qed
qed

lemma dequeue_laws:
  assumes "queue_inv mq"
  shows "queue_inv (snd (dequeue now mq)) \<and> mq_futures (snd (dequeue now mq)) = mq_futures mq
    \<and> mq_config (snd (dequeue now mq)) = mq_config mq \<and> mq_running (snd (dequeue now mq)) = mq_running mq
    \<and> mq_sequence (snd (dequeue now mq)) = mq_sequence mq \<and> mq_total (snd (dequeue now mq)) \<le> mq_total mq
    \<and> scanned now mq UNIV (map_option (\<lambda>r. (r, rq_unit r)) (fst (dequeue now mq)))
    \<and> (fst (dequeue now mq) = None \<longrightarrow> (\<forall>v. dict_get_or (mq_queues (snd (dequeue now mq))) v [] = live mq v))"
proof -
  have inv: "scan_inv mq" using assms by (simp add: queue_inv_def)
  then have d: "distinct (mq_round_robin mq)" "set (mq_round_robin mq) = set (dict_keys (mq_queues mq))" by (simp_all add: scan_inv_def)
  have outside: "dict_get_or (mq_queues mq) v [] = [] \<and> live mq v = []" if "v \<notin> set (mq_round_robin mq)" for v
    using that unfolding d(2) dict_keys_map_of by (simp add: live_def dict_get_or_def)
  show ?thesis
  proof (cases "mq_round_robin mq = []")
    case True
    then have "\<forall>v. live mq v = [] \<and> dict_get_or (mq_queues mq) v [] = []" using outside by simp
    then show ?thesis using assms True by (simp add: dequeue_def scanned_def)
  next
    case False
    obtain best st mq1 where scan: "scan_units now mq = (best, st, mq1)" by (metis prod_cases3)
    have s: "scan_inv mq1" "same_frame mq mq1"
        "\<And>v. dict_get_or (mq_queues mq1) v [] = live mq v"
        "set st = {v \<in> set (mq_round_robin mq). live mq v = []}" "scanned now mq (set (mq_round_robin mq)) best"
      using scan_fold [OF inv d(1) scan [unfolded scan_units_def]] outside by auto
    define mq2 where "mq2 = fold drop_unit st mq1"
    have "\<forall>u\<in>set st. dict_get_or (mq_queues mq1) u [] = []" using s(3,4) by simp
    note drop = drop_units [OF s(1) this, folded mq2_def]
    have keys1: "set (dict_keys (mq_queues mq1)) = set (mq_round_robin mq)" using s(1,2) by (simp add: scan_inv_def same_frame_def)
    have ne: "dict_get (mq_queues mq2) v \<noteq> Some []" for v
    proof
      assume a: "dict_get (mq_queues mq2) v = Some []"
      then have "v \<notin> set st" "dict_get (mq_queues mq1) v = Some []" using drop by (auto split: if_splits)
      moreover from this have "v \<in> set (dict_keys (mq_queues mq1))" unfolding dict_keys_map_of by simp
      moreover have "live mq v = []" using s(3) [of v] calculation(2) by (simp add: dict_get_or_def)
      ultimately show False using s(4) keys1 by simp
    qed
    have frame: "mq_total mq2 \<le> mq_total mq" "mq_config mq2 = mq_config mq" "mq_running mq2 = mq_running mq"
      "mq_futures mq2 = mq_futures mq" "mq_sequence mq2 = mq_sequence mq"
      using drop s(2) by (simp_all add: same_frame_def)
    have scanU: "scanned now mq UNIV best" using s(5) outside by (auto simp: scanned_def split: option.splits)
    show ?thesis
    proof (cases best)
      case None
      have deq: "dequeue now mq = (None, mq2)" using False scan None by (simp add: dequeue_def mq2_def)
      have "queue_inv mq2" using assms drop ne frame by (auto simp: queue_inv_def)
      moreover have "dict_get_or (mq_queues mq2) v [] = live mq v" for v
        using drop s(3,4) by (simp add: dict_get_or_def del: map_of_eq_Some_iff)
      ultimately show ?thesis using scanU None frame unfolding deq by simp
    next
      case (Some ru)
      obtain r u where best: "best = Some (r, u)" using Some by (cases ru) simp
      have deq: "dequeue now mq = (Some r, pop_unit u mq2)" using False scan best by (simp add: dequeue_def mq2_def)
      have u: "live mq u \<noteq> []" "r = hd (live mq u)" "u \<in> set (mq_round_robin mq)" using s(5) best by (simp_all add: scanned_def)
      then have "dict_get_or (mq_queues mq1) u [] \<noteq> []" "u \<notin> set st" using s(3,4) by simp_all
      then have get: "dict_get (mq_queues mq2) u = Some (r # tl (live mq u))"
        using get_or_Some [of "mq_queues mq1" u] drop s(3) u by simp
      have "rq_unit r = u"
        using drop get unfolding scan_inv_def by (meson list.set_intros(1))
      note pop = pop_unit_inv [OF _ get] 
      have "scan_inv mq2" "\<forall>v. dict_get (mq_queues mq2) v \<noteq> Some []" using drop ne by blast+
      note pop = pop_unit_inv [OF this(1) get this(2)]
      then have "queue_inv (pop_unit u mq2)" using assms frame unfolding queue_inv_def by fastforce
      then show ?thesis using scanU best \<open>rq_unit r = u\<close> frame pop unfolding deq by simp
    qed
  qed
qed


section \<open>Every operation keeps the accounting\<close>

lemma rq_less_trans: "rq_less a b \<Longrightarrow> rq_less b c \<Longrightarrow> rq_less a c"
  by (auto simp: rq_less_def split: if_splits)

lemma rq_less_total: "rq_sequence a \<noteq> rq_sequence b \<Longrightarrow> \<not> rq_less a b \<Longrightarrow> rq_less b a"
  by (cases "rq_priority a"; cases "rq_priority b") (auto simp: rq_less_def)

lemma heap_push_set [simp]: "set (heap_push r q) = insert r (set q)"
  by (induction q) auto

lemma heap_push_length [simp]: "length (heap_push r q) = Suc (length q)"
  by (induction q) auto

lemma heap_push_sorted:
  "sorted_wrt rq_less q \<Longrightarrow> \<forall>x\<in>set q. rq_sequence x \<noteq> rq_sequence r \<Longrightarrow> sorted_wrt rq_less (heap_push r q)"
proof (induction q)
  case (Cons x q)
  then show ?case using rq_less_trans [of r x] rq_less_total [of r x] by auto
qed simp

lemma get_or_member: "scan_inv mq \<Longrightarrow> r \<in> set (dict_get_or (mq_queues mq) u []) \<Longrightarrow> rq_unit r = u \<and> rq_sequence r \<le> mq_sequence mq"
  unfolding scan_inv_def dict_get_or_def by (auto split: option.splits)

lemma get_or_sorted: "scan_inv mq \<Longrightarrow> sorted_wrt rq_less (dict_get_or (mq_queues mq) u [])"
  unfolding scan_inv_def dict_get_or_def by (auto split: option.splits)

lemma enqueue_scan_inv:
  assumes "scan_inv mq"
  shows "scan_inv (enqueue u p t now mq)"
proof -
  define r where "r = \<lparr>rq_priority = p, rq_unit = u, rq_timeout = t, rq_enqueue_time = now, rq_sequence = Suc (mq_sequence mq)\<rparr>"
  define q where "q = heap_push r (dict_get_or (mq_queues mq) u [])"
  define rr where "rr = (if dict_get (mq_queues mq) u = None then mq_round_robin mq @ [u] else mq_round_robin mq)"
  let ?d = "dict_set u q (mq_queues mq)"
  have d: "distinct (dict_keys (mq_queues mq))" "distinct (mq_round_robin mq)" "set (mq_round_robin mq) = set (dict_keys (mq_queues mq))"
    using assms by (simp_all add: scan_inv_def)
  have "sorted_wrt rq_less q"
    unfolding q_def using get_or_member [OF assms] get_or_sorted [OF assms] by (intro heap_push_sorted) (force simp: r_def)+
  moreover have "\<forall>x\<in>set q. rq_unit x = u \<and> rq_sequence x \<le> Suc (mq_sequence mq)"
    using get_or_member [OF assms] by (fastforce simp: q_def r_def)
  moreover have "int (sum_list (map (length \<circ> snd) ?d)) = int (queued mq) + 1"
    using sum_set [OF d(1), of u q] by (simp add: q_def queued_def)
  moreover have "distinct (dict_keys ?d)" using d(1) by (rule distinct_update)
  moreover have "distinct rr" "set rr = set (dict_keys ?d)"
    using d unfolding dict_set_keys_set rr_def by (auto simp: map_of_eq_None_iff image_iff)
  moreover have "\<forall>v x y. dict_get (mq_queues mq) v = Some x \<longrightarrow> y \<in> set x \<longrightarrow> rq_sequence y \<le> Suc (mq_sequence mq)"
    using assms unfolding scan_inv_def by (meson le_SucI)
  moreover have "enqueue u p t now mq = mq\<lparr>mq_sequence := Suc (mq_sequence mq), mq_round_robin := rr, mq_queues := ?d,
      mq_total := mq_total mq + 1, mq_event := True\<rparr>"
    by (simp add: enqueue_def Let_def r_def q_def rr_def)
  ultimately show ?thesis
    using assms unfolding scan_inv_def queued_def
    by (simp add: update_conv' del: map_of_eq_Some_iff dict_set_keys_image set_map)
qed

lemma enqueue_inv:
  assumes "queue_inv mq" "qc_max_queue_size (mq_config mq) > 0 \<longrightarrow> mq_total mq < qc_max_queue_size (mq_config mq)"
  shows "queue_inv (enqueue u p t now mq)"
proof -
  have "heap_push r q \<noteq> []" for r q by (cases q) auto
  then have "dict_get (mq_queues (enqueue u p t now mq)) v \<noteq> Some []" for v
    using assms(1) by (simp add: queue_inv_def enqueue_def Let_def update_conv' del: map_of_eq_Some_iff)
  moreover have "mq_total (enqueue u p t now mq) = mq_total mq + 1" "mq_config (enqueue u p t now mq) = mq_config mq"
    by (simp_all add: enqueue_def Let_def)
  ultimately show ?thesis
    using enqueue_scan_inv [of mq u p t now] assms unfolding queue_inv_def by auto
qed

lemma queue_inv_put_breaker [simp]: "queue_inv (put_breaker u cb mq) = queue_inv mq"
  by (simp add: queue_inv_def)

lemma queue_inv_futures [simp]: "queue_inv (mq\<lparr>mq_futures := f\<rparr>) = queue_inv mq"
  by (simp add: queue_inv_def scan_inv_def queued_def)

lemma queue_inv_event [simp]: "queue_inv (mq\<lparr>mq_event := b\<rparr>) = queue_inv mq"
  by (simp add: queue_inv_def scan_inv_def queued_def)

lemma queue_inv_running [simp]: "queue_inv (mq\<lparr>mq_running := b\<rparr>) = queue_inv mq"
  by (simp add: queue_inv_def scan_inv_def queued_def)

lemma queue_inv_set_future [simp]: "queue_inv (set_future s f mq) = queue_inv mq"
  by (simp add: set_future_def)

lemma query_breaker_inv: "query_breaker now u mq = (ok, mq') \<Longrightarrow> \<exists>cb. mq' = put_breaker u cb mq"
  using query_breaker_put [of now u mq] by simp

lemma submit_inv: "queue_inv mq \<Longrightarrow> queue_inv (fst (submit u p t now mq))"
proof -
  assume inv: "queue_inv mq"
  obtain ok mq1 where q: "query_breaker now u mq = (ok, mq1)" by fastforce
  then obtain cb where "mq1 = put_breaker u cb mq" using query_breaker_inv by blast
  then have "queue_inv mq1" using inv by simp
  then show ?thesis using inv q by (auto simp: submit_def intro: enqueue_inv)
qed

lemma worker_round_inv: "queue_inv mq \<Longrightarrow> queue_inv (snd (worker_round now mq))"
proof -
  assume inv: "queue_inv mq"
  obtain r mq1 where d: "dequeue now mq = (r, mq1)" by fastforce
  then have 1: "queue_inv mq1" using dequeue_laws [OF inv, of now] by simp
  show ?thesis
  proof (cases r)
    case None
    then show ?thesis using inv 1 d by (simp add: worker_round_def Let_def)
  next
    case (Some rq)
    obtain ok mq2 where q: "query_breaker now (rq_unit rq) mq1 = (ok, mq2)" by fastforce
    then obtain cb where "mq2 = put_breaker (rq_unit rq) cb mq1" using query_breaker_inv by blast
    then have "queue_inv mq2" using 1 by simp
    then show ?thesis using inv 1 d q Some by (simp add: worker_round_def Let_def)
  qed
qed

lemma clear_futures: "mq_config (fold (\<lambda>r. set_future (rq_sequence r) FCancelled) rs mq) = mq_config mq"
  by (induction rs arbitrary: mq) (simp_all add: set_future_def)

lemma queue_clear_inv: "queue_inv (queue_clear mq)"
  by (simp add: queue_clear_def queue_inv_def scan_inv_def queued_def)

lemma queue_step_inv: "queue_inv mq \<Longrightarrow> queue_inv (queue_step e mq)"
  by (cases e)
    (simp_all add: submit_inv worker_round_inv queue_clear_inv submit_timeout_def request_done_def queue_start_def
       queue_stop_def Let_def split: sum.splits)

lemma query_breaker_config: "query_breaker now u mq = (ok, mq') \<Longrightarrow> mq_config mq' = mq_config mq"
  using query_breaker_inv by fastforce

lemma submit_config: "mq_config (fst (submit u p t now mq)) = mq_config mq"
  by (auto simp: submit_def enqueue_def Let_def query_breaker_config split: prod.split)

lemma set_future_config [simp]: "mq_config (set_future s f mq) = mq_config mq"
  by (simp add: set_future_def)

lemma worker_round_config: "queue_inv mq \<Longrightarrow> mq_config (snd (worker_round now mq)) = mq_config mq"
proof -
  assume inv: "queue_inv mq"
  obtain r mq1 where d: "dequeue now mq = (r, mq1)" by fastforce
  then have 1: "mq_config mq1 = mq_config mq" using dequeue_laws [OF inv, of now] by simp
  obtain ok mq2 where q: "query_breaker now (rq_unit (the r)) mq1 = (ok, mq2)" by fastforce
  then have "mq_config mq2 = mq_config mq" using 1 query_breaker_config by simp
  then show ?thesis using d q 1 by (cases r) (simp_all add: worker_round_def Let_def)
qed

lemma queue_step_config: "queue_inv mq \<Longrightarrow> mq_config (queue_step e mq) = mq_config mq"
  by (cases e)
    (simp_all add: submit_config worker_round_config submit_timeout_def request_done_def queue_start_def
       queue_stop_def queue_clear_def clear_futures Let_def split: sum.splits)

interpretation queue: step_invariant queue_step "\<lambda>_. True" "\<lambda>mq. queue_inv mq \<and> mq_config mq = c" for c
  by unfold_locales (auto simp: queue_step_inv queue_step_config)

lemma queue_inv_run:
  "queue_inv (run_steps queue_step es (queue_init c)) \<and> mq_config (run_steps queue_step es (queue_init c)) = c"
  by (rule queue.always) (simp_all add: list_all_iff queue_init_def queue_inv_def scan_inv_def queued_def)

section \<open>Properties\<close>

text \<open>
  The counter that bounds the queue is right in every reachable state: it is the number of waiting
  requests, never more than the configured maximum when there is one, and the units that take turns are
  exactly those with waiting requests, each once.
\<close>

theorem queue_accounting:
  "let mq = run_steps queue_step es (queue_init c) in
     mq_total mq = int (sum_list (map (\<lambda>(u, q). length q) (mq_queues mq)))
     \<and> (qc_max_queue_size c \<le> 0 \<or> mq_total mq \<le> qc_max_queue_size c)
     \<and> distinct (mq_round_robin mq)
     \<and> (\<forall>u. u \<in> set (mq_round_robin mq) \<longleftrightarrow> dict_get_or (mq_queues mq) u [] \<noteq> [])"
proof -
  define mq where "mq = run_steps queue_step es (queue_init c)"
  have inv: "queue_inv mq" "mq_config mq = c" using queue_inv_run by (simp_all add: mq_def)
  have "(length \<circ> snd) = (\<lambda>(u :: int, q :: mb_request list). length q)" by auto
  then have "mq_total mq = int (sum_list (map (\<lambda>(u, q). length q) (mq_queues mq)))"
    using inv by (simp add: queue_inv_def scan_inv_def queued_def)
  moreover have "u \<in> set (mq_round_robin mq) \<longleftrightarrow> dict_get_or (mq_queues mq) u [] \<noteq> []" for u
  proof -
    have "u \<in> set (mq_round_robin mq) \<longleftrightarrow> dict_get (mq_queues mq) u \<noteq> None"
      using inv(1) unfolding dict_keys_map_of [symmetric] by (simp add: queue_inv_def scan_inv_def)
    moreover have "dict_get (mq_queues mq) u \<noteq> Some []" using inv(1) by (simp add: queue_inv_def)
    ultimately show ?thesis by (auto simp: dict_get_or_def split: option.split)
  qed
  ultimately show ?thesis
    using inv unfolding Let_def mq_def [symmetric] queue_inv_def scan_inv_def by (simp, linarith)
qed

text \<open>A request that waits in the queue of its unit and whose caller still waits.\<close>

definition pending :: "request_queue \<Rightarrow> mb_request \<Rightarrow> bool" where
  "pending mq r \<longleftrightarrow> r \<in> set (dict_get_or (mq_queues mq) (rq_unit r) []) \<and> mq_futures mq (rq_sequence r) = FPending"

lemma in_dropWhile: "x \<in> set xs \<Longrightarrow> \<not> P x \<Longrightarrow> x \<in> set (dropWhile P xs)"
  by (induction xs) auto

lemma pending_live:
  assumes "scan_inv mq" "pending mq r"
  shows "live mq (rq_unit r) \<noteq> [] \<and> (r = hd (live mq (rq_unit r)) \<or> rq_less (hd (live mq (rq_unit r))) r)"
proof -
  let ?q = "dict_get_or (mq_queues mq) (rq_unit r) []"
  have "r \<in> set (live mq (rq_unit r))" using assms(2) by (simp add: pending_def live_def dead_def in_dropWhile)
  moreover have "sorted_wrt rq_less (live mq (rq_unit r))"
    using get_or_sorted [OF assms(1)] sorted_wrt_append [of rq_less "takeWhile (dead mq) ?q" "dropWhile (dead mq) ?q"] by (simp add: live_def)
  ultimately show ?thesis by (cases "live mq (rq_unit r)") auto
qed

lemma head_pending:
  assumes "scan_inv mq" "live mq u \<noteq> []"
  shows "pending mq (hd (live mq u)) \<and> rq_unit (hd (live mq u)) = u"
proof -
  have "\<not> dead mq (hd (live mq u))" using assms(2) by (simp add: live_def hd_dropWhile)
  moreover have "hd (live mq u) \<in> set (dict_get_or (mq_queues mq) u [])"
    using assms(2) set_dropWhileD [of _ "dead mq"] hd_in_set unfolding live_def by metis
  ultimately show ?thesis using get_or_member [OF assms(1), of "hd (live mq u)" u] by (simp add: pending_def dead_def)
qed

text \<open>
  C16. What the fair scheduler picks, in every reachable state: a request whose caller still waits and
  whose unit's breaker admits it, writes before reads over all admitted units, and within a unit the
  oldest of its priority. It picks nothing only when every waiting request belongs to a unit whose
  breaker is open.
\<close>

theorem dequeue_most_urgent:
  assumes "mq = run_steps queue_step es (queue_init c)"
  shows "case fst (dequeue now mq) of
      None \<Rightarrow> \<forall>r. pending mq r \<longrightarrow> \<not> admitted now mq (rq_unit r)
    | Some b \<Rightarrow> pending mq b \<and> admitted now mq (rq_unit b)
        \<and> (\<forall>r. pending mq r \<longrightarrow> admitted now mq (rq_unit r) \<longrightarrow>
              prio_num (rq_priority b) \<le> prio_num (rq_priority r)
            \<and> (rq_unit r = rq_unit b \<longrightarrow> r = b \<or> rq_less b r))"
proof -
  have inv: "queue_inv mq" using queue_inv_run assms by blast
  then have inv2: "scan_inv mq" by (simp add: queue_inv_def)
  have sc: "scanned now mq UNIV (map_option (\<lambda>r. (r, rq_unit r)) (fst (dequeue now mq)))"
    using dequeue_laws [OF inv] by blast
  show ?thesis
  proof (cases "fst (dequeue now mq)")
    case None
    then show ?thesis using sc pending_live [OF inv2] by (simp add: scanned_def)
  next
    case (Some b)
    then have b: "live mq (rq_unit b) \<noteq> []" "b = hd (live mq (rq_unit b))" "admitted now mq (rq_unit b)"
      and least: "\<And>v. live mq v \<noteq> [] \<Longrightarrow> admitted now mq v \<Longrightarrow> prio_num (rq_priority b) \<le> prio_num (rq_priority (hd (live mq v)))"
      using sc by (simp_all add: scanned_def)
    have "prio_num (rq_priority b) \<le> prio_num (rq_priority r) \<and> (rq_unit r = rq_unit b \<longrightarrow> r = b \<or> rq_less b r)"
      if "pending mq r" "admitted now mq (rq_unit r)" for r
    proof -
      have "prio_num (rq_priority (hd (live mq (rq_unit r)))) \<le> prio_num (rq_priority r)"
        using pending_live [OF inv2 that(1)] by (auto simp: rq_less_def split: if_splits)
      then show ?thesis
        using least [of "rq_unit r"] pending_live [OF inv2 that(1)] that(2) b(2) by force
    qed
    then show ?thesis using Some b(2,3) head_pending [OF inv2 b(1)] by simp
  qed
qed

text \<open>Two reads of unit 1, then a write of unit 2: the write goes first.\<close>

definition demo_queue_config :: queue_config where
  "demo_queue_config = \<lparr>qc_default_timeout = 5, qc_threshold = 1, qc_cooldown = 30, qc_max_queue_size = 10, qc_drain_timeout = 10\<rparr>"

definition demo_queue_run :: "queue_event list" where
  "demo_queue_run = [StartQueue, Submit 1 READ_REQ None 0, Submit 1 READ_REQ None 0, Submit 2 WRITE_REQ None 1]"

definition demo_queue :: request_queue where
  "demo_queue = run_steps queue_step demo_queue_run (queue_init demo_queue_config)"

theorem dequeue_most_urgent_witness:
  "map_option rq_sequence (fst (dequeue 2 demo_queue)) = Some 3
   \<and> (case fst (dequeue 2 demo_queue) of None \<Rightarrow> False | Some b \<Rightarrow> pending demo_queue b)"
proof -
  have "map_option rq_sequence (fst (dequeue 2 demo_queue)) = Some 3" by code_simp
  then show ?thesis
    using dequeue_most_urgent [OF demo_queue_def, of 2] by (auto split: option.splits)
qed

text \<open>
  When every waiting request belongs to a unit whose breaker is open, a round of the worker ends with
  \<open>continue\<close>: the next one starts at once, without waiting, as long as the breakers stay open.
\<close>

lemma open_breakers_spin:
  assumes "queue_inv mq" "mq_running mq" "\<forall>v. live mq v \<noteq> [] \<longrightarrow> \<not> admitted now mq v" "pending mq r"
  shows "fst (worker_round now mq) = WorkerContinue
    \<and> (\<forall>v. dict_get_or (mq_queues (snd (worker_round now mq))) v [] = live mq v)"
proof -
  have laws: "scanned now mq UNIV (map_option (\<lambda>r. (r, rq_unit r)) (fst (dequeue now mq)))"
      "queue_inv (snd (dequeue now mq))" "mq_running (snd (dequeue now mq)) = mq_running mq"
      "fst (dequeue now mq) = None \<longrightarrow> (\<forall>v. dict_get_or (mq_queues (snd (dequeue now mq))) v [] = live mq v)"
    using dequeue_laws [OF assms(1)] by blast+
  then have none: "fst (dequeue now mq) = None" using assms(3) by (auto simp: scanned_def split: option.splits)
  then obtain mq1 where d: "dequeue now mq = (None, mq1)" by (metis prod.collapse)
  have inv: "scan_inv mq" using assms(1) by (simp add: queue_inv_def)
  have "dict_get_or (mq_queues mq1) (rq_unit r) [] \<noteq> []"
    using laws(4) d pending_live [OF inv assms(4)] by simp
  then have "0 < length (dict_get_or (mq_queues mq1) (rq_unit r) [])" by simp
  moreover have "length (dict_get_or (mq_queues mq1) (rq_unit r) []) \<le> queued mq1"
    using sum_del [of "mq_queues mq1" "rq_unit r"] laws(2) d by (simp add: queue_inv_def scan_inv_def queued_def)
  ultimately have "0 < queued mq1" by linarith
  then have "mq_total mq1 > 0" using laws(2) d by (simp add: queue_inv_def scan_inv_def)
  then show ?thesis using assms(2) d laws by (simp add: worker_round_def Let_def)
qed

end
