(* ===== verification/Strategies.thy ===== *)
theory Strategies
  imports Command_Core
begin

text \<open>
  The stateless control strategies of \<open>csp_lib/controller/strategies\<close>: fixed P/Q, stop, bypass,
  Volt-VAR (\<open>QVStrategy\<close>), frequency-power (\<open>FPStrategy\<close>) and droop, with \<open>ParamResolver\<close>, through
  which runtime parameters override the configuration. A configuration object is a record; the
  resolver reads its attributes by name. \<open>execute\<close> returns the command or the exception it raises.
  An axis carries a float: a reading that the code passes through unchecked raises here when it is no number.
\<close>

section \<open>Execution modes\<close>

datatype execution_mode = PERIODIC | TRIGGERED | HYBRID

record execution_config =
  ec_mode :: execution_mode
  ec_interval :: flt

definition mk_execution_config :: "execution_mode \<Rightarrow> flt \<Rightarrow> execution_config res" where
  "mk_execution_config m i = (if m \<noteq> TRIGGERED \<and> i \<le> 0 then Inl ValueError else Inr \<lparr>ec_mode = m, ec_interval = i\<rparr>)"

section \<open>Parameter resolution\<close>

record param_resolver =
  pr_params :: "nat option"
  pr_keys :: "(string \<times> string) list option"
  pr_config :: "(string \<times> pyval) list"
  pr_scale :: "(string \<times> flt) list option"

definition resolver_init :: "nat option \<Rightarrow> (string \<times> string) list option \<Rightarrow> (string \<times> pyval) list
    \<Rightarrow> (string \<times> flt) list option \<Rightarrow> param_resolver res" where
  "resolver_init ps ks cfg sc =
     (if (ps = None) \<noteq> (ks = None) then Inl ValueError
      else Inr \<lparr>pr_params = ps, pr_keys = ks, pr_config = cfg, pr_scale = sc\<rparr>)"

definition has_runtime :: "param_resolver \<Rightarrow> bool" where
  "has_runtime r = (pr_params r \<noteq> None)"

definition with_config :: "param_resolver \<Rightarrow> (string \<times> pyval) list \<Rightarrow> param_resolver res" where
  "with_config r cfg = resolver_init (pr_params r) (pr_keys r) cfg (pr_scale r)"

definition runtime_value :: "params_store \<Rightarrow> param_resolver \<Rightarrow> string \<Rightarrow> pyval" where
  "runtime_value store r field =
     (case (pr_params r, pr_keys r) of
        (Some i, Some ks) \<Rightarrow> (case dict_get ks field of None \<Rightarrow> PyNone | Some k \<Rightarrow> params_get (store i) k PyNone)
      | _ \<Rightarrow> PyNone)"

definition resolve :: "params_store \<Rightarrow> param_resolver \<Rightarrow> string \<Rightarrow> pyval res" where
  "resolve store r field =
     (let v = runtime_value store r field in
      rbind (if v \<noteq> PyNone then Inr v
             else case dict_get (pr_config r) field of None \<Rightarrow> Inl AttributeError | Some w \<Rightarrow> Inr w)
        (\<lambda>v. case (case pr_scale r of None \<Rightarrow> None | Some sc \<Rightarrow> dict_get sc field) of
               None \<Rightarrow> Inr v
             | Some factor \<Rightarrow> rbind (num_of v) (\<lambda>x. Inr (PyFloat (x * factor)))))"

definition resolve_optional :: "params_store \<Rightarrow> param_resolver \<Rightarrow> string option \<Rightarrow> pyval \<Rightarrow> pyval" where
  "resolve_optional store r key d =
     (case (key, pr_params r) of
        (Some k, Some i) \<Rightarrow> (let v = params_get (store i) k PyNone in if v = PyNone then d else v)
      | _ \<Rightarrow> d)"

text \<open>\<open>float(self._resolver.resolve(field))\<close> and the test of the runtime flag.\<close>

definition resolve_float :: "params_store \<Rightarrow> param_resolver \<Rightarrow> string \<Rightarrow> flt res" where
  "resolve_float store r field = rbind (resolve store r field) py_float"

definition runtime_disabled :: "params_store \<Rightarrow> param_resolver \<Rightarrow> string option \<Rightarrow> bool" where
  "runtime_disabled store r key = (key \<noteq> None \<and> \<not> truthy (resolve_optional store r key (PyBool True)))"

definition extra_get :: "strategy_context \<Rightarrow> string \<Rightarrow> pyval" where
  "extra_get ctx key = dict_get_or (ctx_extra ctx) key PyNone"

section \<open>Fixed set-points\<close>

record pq_config =
  pq_p :: flt
  pq_q :: flt

definition pq_execute :: "pq_config \<Rightarrow> strategy_context \<Rightarrow> command" where
  "pq_execute cfg ctx = mk_command (pq_p cfg) (pq_q cfg)"

definition stop_execute :: "strategy_context \<Rightarrow> command" where
  "stop_execute ctx = mk_command 0 0"

definition bypass_execute :: "strategy_context \<Rightarrow> command" where
  "bypass_execute ctx = last_command ctx"

section \<open>Volt-VAR\<close>

record qv_config =
  qv_nominal_voltage :: flt
  qv_v_set :: flt
  qv_droop :: flt
  qv_v_deadband :: flt
  qv_q_max_ratio :: flt

definition qv_attrs :: "qv_config \<Rightarrow> (string \<times> pyval) list" where
  "qv_attrs c = [(''nominal_voltage'', PyFloat (qv_nominal_voltage c)), (''v_set'', PyFloat (qv_v_set c)),
     (''droop'', PyFloat (qv_droop c)), (''v_deadband'', PyFloat (qv_v_deadband c)),
     (''q_max_ratio'', PyFloat (qv_q_max_ratio c))]"

definition qv_validate :: "qv_config \<Rightarrow> unit res" where
  "qv_validate c =
     (if qv_nominal_voltage c \<le> 0 then Inl ValueError
      else if \<not> (95 \<le> qv_v_set c \<and> qv_v_set c \<le> 105) then Inl ValueError
      else if \<not> (2 \<le> qv_droop c \<and> qv_droop c \<le> 10) then Inl ValueError
      else if \<not> (0 \<le> qv_v_deadband c \<and> qv_v_deadband c \<le> Fin (1 / 2)) then Inl ValueError
      else Inr ())"

definition calculate_q_ratio :: "params_store \<Rightarrow> param_resolver \<Rightarrow> pyval \<Rightarrow> flt res" where
  "calculate_q_ratio store r voltage =
     rbind (resolve_float store r ''nominal_voltage'') (\<lambda>nominal.
     rbind (resolve_float store r ''v_set'') (\<lambda>v_set.
     rbind (resolve_float store r ''droop'') (\<lambda>droop.
     rbind (resolve_float store r ''v_deadband'') (\<lambda>v_deadband.
     rbind (resolve_float store r ''q_max_ratio'') (\<lambda>q_max.
     rbind (num_of voltage) (\<lambda>voltage.
     rbind (fdiv voltage nominal) (\<lambda>v_pu.
     rbind (fdiv v_set 100) (\<lambda>v_set_pu.
     rbind (fdiv v_deadband 100) (\<lambda>db_pu.
     rbind (fdiv droop 100) (\<lambda>droop_pu.
       if v_pu \<le> v_set_pu - db_pu
       then rbind (fdiv (Fin (1 / 2) * (v_set_pu - db_pu - v_pu)) (v_set_pu * droop_pu)) (\<lambda>q. Inr (py_min q q_max))
       else if v_pu \<ge> v_set_pu + db_pu
       then rbind (fdiv (Fin (1 / 2) * (v_set_pu + db_pu - v_pu)) (v_set_pu * droop_pu)) (\<lambda>q. Inr (py_max q (- q_max)))
       else Inr 0))))))))))"

definition qv_execute :: "params_store \<Rightarrow> param_resolver \<Rightarrow> string option \<Rightarrow> strategy_context \<Rightarrow> command res" where
  "qv_execute store r enabled_key ctx =
     (if runtime_disabled store r enabled_key then Inr (mk_command 0 0)
      else if extra_get ctx ''voltage'' = PyNone then Inr (last_command ctx)
      else rbind (calculate_q_ratio store r (extra_get ctx ''voltage'')) (\<lambda>q_ratio.
           rbind (if ctx_system_base ctx \<noteq> None then percent_to_kvar ctx (q_ratio * 100) else Inr q_ratio)
             (\<lambda>q_kvar. Inr (mk_command 0 q_kvar))))"

section \<open>Frequency-power\<close>

record fp_config =
  fp_f_base :: flt
  fp_f1 :: flt  fp_f2 :: flt  fp_f3 :: flt  fp_f4 :: flt  fp_f5 :: flt  fp_f6 :: flt
  fp_p1 :: flt  fp_p2 :: flt  fp_p3 :: flt  fp_p4 :: flt  fp_p5 :: flt  fp_p6 :: flt

definition fp_attrs :: "fp_config \<Rightarrow> (string \<times> pyval) list" where
  "fp_attrs c = [(''f_base'', PyFloat (fp_f_base c)),
     (''f1'', PyFloat (fp_f1 c)), (''f2'', PyFloat (fp_f2 c)), (''f3'', PyFloat (fp_f3 c)),
     (''f4'', PyFloat (fp_f4 c)), (''f5'', PyFloat (fp_f5 c)), (''f6'', PyFloat (fp_f6 c)),
     (''p1'', PyFloat (fp_p1 c)), (''p2'', PyFloat (fp_p2 c)), (''p3'', PyFloat (fp_p3 c)),
     (''p4'', PyFloat (fp_p4 c)), (''p5'', PyFloat (fp_p5 c)), (''p6'', PyFloat (fp_p6 c))]"

fun pairwise :: "('a \<Rightarrow> 'a \<Rightarrow> bool) \<Rightarrow> 'a list \<Rightarrow> bool" where
  "pairwise P (x # y # xs) = (P x y \<and> pairwise P (y # xs))"
| "pairwise P xs = True"

definition fp_validate :: "fp_config \<Rightarrow> unit res" where
  "fp_validate c =
     (if \<not> pairwise (<) [fp_f1 c, fp_f2 c, fp_f3 c, fp_f4 c, fp_f5 c, fp_f6 c] then Inl ValueError
      else if \<not> pairwise (\<ge>) [fp_p1 c, fp_p2 c, fp_p3 c, fp_p4 c, fp_p5 c, fp_p6 c] then Inl ValueError
      else Inr ())"

definition get_absolute_frequencies :: "fp_config \<Rightarrow> flt list" where
  "get_absolute_frequencies c = map (\<lambda>f. fp_f_base c + f) [fp_f1 c, fp_f2 c, fp_f3 c, fp_f4 c, fp_f5 c, fp_f6 c]"

definition fp_interpolate :: "flt \<Rightarrow> flt \<Rightarrow> flt \<Rightarrow> flt \<Rightarrow> flt \<Rightarrow> flt res" where
  "fp_interpolate x x1 x2 y1 y2 =
     (if feq x2 x1 then Inr y1
      else rbind (fdiv ((y2 - y1) * (x - x1)) (x2 - x1)) (\<lambda>d. Inr (y1 + d)))"

text \<open>The curve through six points, once the parameters are read.\<close>

definition fp_curve :: "flt \<Rightarrow> flt \<Rightarrow> flt \<Rightarrow> flt \<Rightarrow> flt \<Rightarrow> flt \<Rightarrow> flt \<Rightarrow> flt \<Rightarrow> flt \<Rightarrow> flt \<Rightarrow> flt \<Rightarrow> flt \<Rightarrow> flt \<Rightarrow> flt res" where
  "fp_curve f1 f2 f3 f4 f5 f6 p1 p2 p3 p4 p5 p6 f =
     (if f < f1 then Inr p1
      else if f1 \<le> f \<and> f < f2 then fp_interpolate f f1 f2 p1 p2
      else if f2 \<le> f \<and> f < f3 then fp_interpolate f f2 f3 p2 (Fin (1 / 2) * (p3 + p4))
      else if f3 \<le> f \<and> f < f4 then Inr (Fin (1 / 2) * (p3 + p4))
      else if f4 \<le> f \<and> f < f5 then fp_interpolate f f4 f5 (Fin (1 / 2) * (p3 + p4)) p5
      else if f5 \<le> f \<and> f < f6 then fp_interpolate f f5 f6 p5 p6
      else Inr p6)"

definition calculate_power :: "params_store \<Rightarrow> param_resolver \<Rightarrow> pyval \<Rightarrow> flt res" where
  "calculate_power store r frequency =
     rbind (resolve_float store r ''f_base'') (\<lambda>fb.
     rbind (resolve_float store r ''f1'') (\<lambda>f1.
     rbind (resolve_float store r ''f2'') (\<lambda>f2.
     rbind (resolve_float store r ''f3'') (\<lambda>f3.
     rbind (resolve_float store r ''f4'') (\<lambda>f4.
     rbind (resolve_float store r ''f5'') (\<lambda>f5.
     rbind (resolve_float store r ''f6'') (\<lambda>f6.
     rbind (resolve_float store r ''p1'') (\<lambda>p1.
     rbind (resolve_float store r ''p2'') (\<lambda>p2.
     rbind (resolve_float store r ''p3'') (\<lambda>p3.
     rbind (resolve_float store r ''p4'') (\<lambda>p4.
     rbind (resolve_float store r ''p5'') (\<lambda>p5.
     rbind (resolve_float store r ''p6'') (\<lambda>p6.
     rbind (num_of frequency) (\<lambda>f.
       fp_curve (fb + f1) (fb + f2) (fb + f3) (fb + f4) (fb + f5) (fb + f6) p1 p2 p3 p4 p5 p6 f))))))))))))))"

definition fp_execute :: "params_store \<Rightarrow> param_resolver \<Rightarrow> string option \<Rightarrow> strategy_context \<Rightarrow> command res" where
  "fp_execute store r enabled_key ctx =
     (if runtime_disabled store r enabled_key then Inr (mk_command 0 0)
      else if extra_get ctx ''frequency'' = PyNone then Inr (last_command ctx)
      else rbind (calculate_power store r (extra_get ctx ''frequency'')) (\<lambda>p_percent.
           rbind (if ctx_system_base ctx \<noteq> None then percent_to_kw ctx p_percent else Inr p_percent)
             (\<lambda>p_kw. Inr (mk_command p_kw 0))))"

section \<open>Droop\<close>

record droop_config =
  dr_f_base :: flt
  dr_droop :: flt
  dr_deadband :: flt
  dr_rated_power :: flt
  dr_max_droop_power :: flt
  dr_interval :: flt

definition droop_attrs :: "droop_config \<Rightarrow> (string \<times> pyval) list" where
  "droop_attrs c = [(''f_base'', PyFloat (dr_f_base c)), (''droop'', PyFloat (dr_droop c)),
     (''deadband'', PyFloat (dr_deadband c)), (''rated_power'', PyFloat (dr_rated_power c)),
     (''max_droop_power'', PyFloat (dr_max_droop_power c)), (''interval'', PyFloat (dr_interval c))]"

definition droop_validate :: "droop_config \<Rightarrow> unit res" where
  "droop_validate c =
     (if dr_droop c \<le> 0 \<or> dr_f_base c \<le> 0 \<or> dr_deadband c < 0 \<or> dr_rated_power c < 0
         \<or> dr_max_droop_power c < 0 \<or> dr_interval c \<le> 0 then Inl ValueError else Inr ())"

text \<open>The module's own \<open>_clamp\<close>: unlike \<open>clamp\<close> it keeps a NaN.\<close>

definition droop_clamp :: "flt \<Rightarrow> flt \<Rightarrow> flt \<Rightarrow> flt" where
  "droop_clamp v lo hi = (if v < lo then lo else if v > hi then hi else v)"

record droop_strategy =
  ds_resolver :: param_resolver
  ds_enabled_key :: "string option"
  ds_schedule_p_key :: "string option"
  ds_active :: bool

definition resolve_rated_power :: "params_store \<Rightarrow> param_resolver \<Rightarrow> strategy_context \<Rightarrow> flt res" where
  "resolve_rated_power store r ctx =
     rbind (resolve_float store r ''rated_power'') (\<lambda>rated.
       if rated > 0 then Inr rated
       else case ctx_system_base ctx of None \<Rightarrow> Inr 0
            | Some b \<Rightarrow> if p_base b > 0 then Inr (p_base b) else Inr 0)"

text \<open>The response to the frequency, once the parameters are read.\<close>

definition droop_response :: "flt \<Rightarrow> flt \<Rightarrow> flt \<Rightarrow> flt \<Rightarrow> flt \<Rightarrow> flt \<Rightarrow> flt res" where
  "droop_response f_base droop deadband max_power rated frequency =
     (let freq_error = frequency - f_base in
      rbind (if fabs freq_error \<le> deadband then Inr 0
             else rbind (fdiv 100 (f_base * droop)) (\<lambda>gain. Inr (droop_clamp (- gain * freq_error) (- 100) 100))) (\<lambda>pct.
      rbind (fdiv (rated * pct) 100) (\<lambda>power.
        Inr (if max_power > 0 then droop_clamp power (- max_power) max_power else power))))"

definition droop_command :: "params_store \<Rightarrow> droop_strategy \<Rightarrow> strategy_context \<Rightarrow> pyval \<Rightarrow> command res" where
  "droop_command store s ctx frequency =
     (let r = ds_resolver s; rs = resolve_optional store r (ds_schedule_p_key s) PyNone in
      rbind (if rs \<noteq> PyNone then rbind (py_float rs) (\<lambda>x. Inr (PyFloat x))
             else Inr (dict_get_or (ctx_extra ctx) ''schedule_p'' (PyFloat 0))) (\<lambda>schedule_p.
      rbind (resolve_float store r ''f_base'') (\<lambda>f_base.
      rbind (resolve_float store r ''droop'') (\<lambda>droop.
      rbind (resolve_float store r ''deadband'') (\<lambda>deadband.
      rbind (resolve_float store r ''max_droop_power'') (\<lambda>max_power.
      rbind (resolve_rated_power store r ctx) (\<lambda>rated.
        if rated \<le> 0 then rbind (num_of schedule_p) (\<lambda>sp. Inr (mk_command sp 0))
        else rbind (num_of frequency) (\<lambda>f.
             rbind (droop_response f_base droop deadband max_power rated f) (\<lambda>power.
             rbind (num_of schedule_p) (\<lambda>sp.
               Inr (mk_command (droop_clamp (sp + power) (- rated) rated) 0)))))))))))"

definition droop_execute :: "params_store \<Rightarrow> droop_strategy \<Rightarrow> strategy_context \<Rightarrow> command res \<times> droop_strategy" where
  "droop_execute store s ctx =
     (if runtime_disabled store (ds_resolver s) (ds_enabled_key s)
      then (rbind (py_float (resolve_optional store (ds_resolver s) (ds_schedule_p_key s) (PyFloat 0)))
              (\<lambda>sp. Inr (mk_command sp 0)), s)
      else if extra_get ctx ''frequency'' = PyNone then (Inr (last_command ctx), s\<lparr>ds_active := False\<rparr>)
      else (droop_command store s ctx (extra_get ctx ''frequency''), s\<lparr>ds_active := True\<rparr>))"

definition droop_activate :: "droop_strategy \<Rightarrow> droop_strategy" where
  "droop_activate s = s\<lparr>ds_active := False\<rparr>"


section \<open>Reading the configuration\<close>

lemma resolve_plain:
  assumes "pr_params r = None" "pr_scale r = None" "dict_get (pr_config r) field = Some (PyFloat x)"
  shows "resolve_float store r field = Inr x"
  using assms by (simp add: resolve_float_def resolve_def runtime_value_def)

lemma resolver_plain: "resolver_init None None attrs sc = Inr r \<Longrightarrow> pr_params r = None \<and> pr_config r = attrs \<and> pr_scale r = sc"
  by (auto simp: resolver_init_def)

text \<open>
  Runtime parameters win over the configuration, for exactly the mapped fields; a parameter that is
  absent or \<open>None\<close> falls back; without a scale the value is passed on as it is.
\<close>

lemma resolve_precedence:
  assumes "pr_params r = Some i" "pr_keys r = Some ks" "pr_scale r = None" "dict_get (pr_config r) field = Some w"
  shows "resolve store r field = Inr (case dict_get ks field of None \<Rightarrow> w
     | Some k \<Rightarrow> (if params_get (store i) k PyNone = PyNone then w else params_get (store i) k PyNone))"
  using assms by (simp add: resolve_def runtime_value_def split: option.split)

section \<open>Frequency-power: a falling curve\<close>

definition line :: "rat \<Rightarrow> rat \<Rightarrow> rat \<Rightarrow> rat \<Rightarrow> rat \<Rightarrow> rat" where
  "line x1 x2 y1 y2 x = y1 + (y2 - y1) * (x - x1) / (x2 - x1)"

lemma line_falls: "x1 < x2 \<Longrightarrow> y2 \<le> y1 \<Longrightarrow> x \<le> x' \<Longrightarrow> line x1 x2 y1 y2 x' \<le> line x1 x2 y1 y2 x"
  unfolding line_def by (intro add_left_mono divide_right_mono mult_left_mono_neg) simp_all

lemma line_ends [simp]: "line x1 x2 y1 y2 x1 = y1" "x1 < x2 \<Longrightarrow> line x1 x2 y1 y2 x2 = y2"
  by (simp_all add: line_def)

lemma interpolate_line: "x1 < x2 \<Longrightarrow> fp_interpolate (Fin x) (Fin x1) (Fin x2) (Fin y1) (Fin y2) = Inr (Fin (line x1 x2 y1 y2 x))"
  by (simp add: fp_interpolate_def line_def)

definition falls :: "(rat \<Rightarrow> rat) \<Rightarrow> bool" where
  "falls f \<longleftrightarrow> (\<forall>x x'. x \<le> x' \<longrightarrow> f x' \<le> f x)"

text \<open>Two falling pieces that meet at \<open>c\<close>.\<close>

lemma falls_join:
  assumes "falls f" "falls g" "g c \<le> f c"
  shows "falls (\<lambda>x. if x < c then f x else g x)"
  unfolding falls_def
proof (intro allI impI)
  fix x x' :: rat
  assume "x \<le> x'"
  show "(if x' < c then f x' else g x') \<le> (if x < c then f x else g x)"
  proof (cases "x < c \<and> \<not> x' < c")
    case True
    then have "g x' \<le> g c" "f c \<le> f x" using assms(1,2) by (simp_all add: falls_def)
    then show ?thesis using True assms(3) by simp
  next
    case False
    then show ?thesis using assms(1,2) \<open>x \<le> x'\<close> by (auto simp: falls_def)
  qed
qed

lemma falls_line: "x1 < x2 \<Longrightarrow> y2 \<le> y1 \<Longrightarrow> falls (line x1 x2 y1 y2)"
  by (simp add: falls_def line_falls)

lemma falls_const: "falls (\<lambda>x. k)"
  by (simp add: falls_def)

definition curve :: "rat \<Rightarrow> rat \<Rightarrow> rat \<Rightarrow> rat \<Rightarrow> rat \<Rightarrow> rat \<Rightarrow> rat \<Rightarrow> rat \<Rightarrow> rat \<Rightarrow> rat \<Rightarrow> rat \<Rightarrow> rat \<Rightarrow> rat" where
  "curve f1 f2 f3 f4 f5 f6 p1 p2 pd p5 p6 x =
     (if x < f1 then p1 else if x < f2 then line f1 f2 p1 p2 x else if x < f3 then line f2 f3 p2 pd x
      else if x < f4 then pd else if x < f5 then line f4 f5 pd p5 x else if x < f6 then line f5 f6 p5 p6 x else p6)"

lemma curve_falls:
  assumes "f1 < f2" "f2 < f3" "f3 < f4" "f4 < f5" "f5 < f6" "p2 \<le> p1" "pd \<le> p2" "p5 \<le> pd" "p6 \<le> p5"
  shows "falls (curve f1 f2 f3 f4 f5 f6 p1 p2 pd p5 p6)"
proof -
  note g6 = falls_join [OF falls_line [of f5 f6 p6 p5] falls_const [of p6], of f6]
  have 6: "falls (\<lambda>x. if x < f6 then line f5 f6 p5 p6 x else p6)" using assms by (intro g6) simp_all
  have 5: "falls (\<lambda>x. if x < f5 then line f4 f5 pd p5 x else if x < f6 then line f5 f6 p5 p6 x else p6)"
    using assms by (intro falls_join [OF falls_line 6]) simp_all
  have 4: "falls (\<lambda>x. if x < f4 then pd else if x < f5 then line f4 f5 pd p5 x else if x < f6 then line f5 f6 p5 p6 x else p6)"
    using assms by (intro falls_join [OF falls_const 5]) simp_all
  have 3: "falls (\<lambda>x. if x < f3 then line f2 f3 p2 pd x else if x < f4 then pd else if x < f5 then line f4 f5 pd p5 x
      else if x < f6 then line f5 f6 p5 p6 x else p6)"
    using assms by (intro falls_join [OF falls_line 4]) simp_all
  have 2: "falls (\<lambda>x. if x < f2 then line f1 f2 p1 p2 x else if x < f3 then line f2 f3 p2 pd x else if x < f4 then pd
      else if x < f5 then line f4 f5 pd p5 x else if x < f6 then line f5 f6 p5 p6 x else p6)"
    using assms by (intro falls_join [OF falls_line 3]) simp_all
  show ?thesis
    unfolding curve_def [abs_def] using assms by (intro falls_join [OF falls_const 2]) simp_all
qed

lemma curve_range:
  assumes "f1 < f2" "f2 < f3" "f3 < f4" "f4 < f5" "f5 < f6" "p2 \<le> p1" "pd \<le> p2" "p5 \<le> pd" "p6 \<le> p5"
  shows "p6 \<le> curve f1 f2 f3 f4 f5 f6 p1 p2 pd p5 p6 x \<and> curve f1 f2 f3 f4 f5 f6 p1 p2 pd p5 p6 x \<le> p1"
proof -
  have *: "x \<le> x' \<Longrightarrow> curve f1 f2 f3 f4 f5 f6 p1 p2 pd p5 p6 x' \<le> curve f1 f2 f3 f4 f5 f6 p1 p2 pd p5 p6 x" for x x'
    using curve_falls [OF assms] by (simp add: falls_def)
  have "curve f1 f2 f3 f4 f5 f6 p1 p2 pd p5 p6 (max x f6) = p6" "curve f1 f2 f3 f4 f5 f6 p1 p2 pd p5 p6 (min x (f1 - 1)) = p1"
    using assms by (auto simp: curve_def)
  then show ?thesis using * [of x "max x f6"] * [of "min x (f1 - 1)" x] by simp
qed

lemma fp_curve_rat:
  assumes "f1 < f2" "f2 < f3" "f3 < f4" "f4 < f5" "f5 < f6"
  shows "fp_curve (Fin f1) (Fin f2) (Fin f3) (Fin f4) (Fin f5) (Fin f6) (Fin p1) (Fin p2) (Fin p3) (Fin p4) (Fin p5) (Fin p6) (Fin x)
    = Inr (Fin (curve f1 f2 f3 f4 f5 f6 p1 p2 (1 / 2 * (p3 + p4)) p5 p6 x))"
  using assms by (auto simp: fp_curve_def curve_def interpolate_line)

definition fp_finite :: "fp_config \<Rightarrow> bool" where
  "fp_finite c = list_all is_finite [fp_f_base c, fp_f1 c, fp_f2 c, fp_f3 c, fp_f4 c, fp_f5 c, fp_f6 c,
     fp_p1 c, fp_p2 c, fp_p3 c, fp_p4 c, fp_p5 c, fp_p6 c]"

text \<open>The exact factor from percent to the unit of the command.\<close>

definition percent_factor :: "(system_base \<Rightarrow> flt) \<Rightarrow> strategy_context \<Rightarrow> rat \<Rightarrow> bool" where
  "percent_factor axis ctx k = (case ctx_system_base ctx of None \<Rightarrow> k = 1 | Some b \<Rightarrow> axis b = Fin (100 * k))"

lemma fp_execute_rat:
  assumes "fp_validate c = Inr ()" "fp_finite c" "resolver_init None None (fp_attrs c) None = Inr r"
  obtains g p1 p6 where "falls g" "\<And>x. p6 \<le> g x \<and> g x \<le> p1" "fp_p1 c = Fin p1" "fp_p6 c = Fin p6"
    "\<And>ctx k x. percent_factor p_base ctx k \<Longrightarrow> extra_get ctx ''frequency'' = PyFloat (Fin x) \<Longrightarrow>
       fp_execute store r None ctx = Inr (mk_command (Fin (k * g x)) 0)"
proof -
  obtain fb f1 f2 f3 f4 f5 f6 p1 p2 p3 p4 p5 p6 where c: "fp_f_base c = Fin fb" "fp_f1 c = Fin f1" "fp_f2 c = Fin f2"
      "fp_f3 c = Fin f3" "fp_f4 c = Fin f4" "fp_f5 c = Fin f5" "fp_f6 c = Fin f6" "fp_p1 c = Fin p1" "fp_p2 c = Fin p2"
      "fp_p3 c = Fin p3" "fp_p4 c = Fin p4" "fp_p5 c = Fin p5" "fp_p6 c = Fin p6"
    using assms(2) by (auto simp: fp_finite_def is_finite_iff)
  have ord: "f1 < f2" "f2 < f3" "f3 < f4" "f4 < f5" "f5 < f6" "p2 \<le> p1" "p3 \<le> p2" "p4 \<le> p3" "p5 \<le> p4" "p6 \<le> p5"
    using assms(1) by (auto simp: fp_validate_def c split: if_splits)
  define g where "g = curve (fb + f1) (fb + f2) (fb + f3) (fb + f4) (fb + f5) (fb + f6) p1 p2 (1 / 2 * (p3 + p4)) p5 p6"
  have r: "pr_params r = None" "pr_config r = fp_attrs c" "pr_scale r = None" using resolver_plain [OF assms(3)] by simp_all
  have calc: "calculate_power store r (PyFloat (Fin x)) = Inr (Fin (g x))" for x
    using ord r by (simp add: calculate_power_def resolve_plain fp_attrs_def c num_of_def fp_curve_rat g_def)
  have "fp_execute store r None ctx = Inr (mk_command (Fin (k * g x)) 0)"
    if "percent_factor p_base ctx k" "extra_get ctx ''frequency'' = PyFloat (Fin x)" for ctx k x
    using that by (auto simp: fp_execute_def runtime_disabled_def calc percent_factor_def percent_to_kw_def mult.commute split: option.splits)
  moreover have "falls g" "\<And>x. p6 \<le> g x \<and> g x \<le> p1"
    using ord unfolding g_def by (intro curve_falls curve_range; simp add: field_simps)+
  ultimately show ?thesis using c that by blast
qed


text \<open>
  The frequency-power strategy with any accepted configuration: more frequency never means more
  power, the power stays between the two end points of the curve, and the reactive set-point is 0.
\<close>

theorem fp_falls:
  assumes "fp_validate c = Inr ()" "fp_finite c" "resolver_init None None (fp_attrs c) None = Inr r"
    "percent_factor p_base ctx k" "percent_factor p_base ctx' k" "k \<ge> 0"
    "extra_get ctx ''frequency'' = PyFloat (Fin x)" "extra_get ctx' ''frequency'' = PyFloat (Fin y)" "x \<le> y"
  shows "\<exists>p q p1 p6. fp_execute store r None ctx = Inr (mk_command (Fin p) 0)
    \<and> fp_execute store r None ctx' = Inr (mk_command (Fin q) 0)
    \<and> fp_p1 c = Fin p1 \<and> fp_p6 c = Fin p6 \<and> k * p6 \<le> q \<and> q \<le> p \<and> p \<le> k * p1"
proof (rule fp_execute_rat [OF assms(1-3), of store])
  fix g p1 p6
  assume g: "falls g" "\<And>x. p6 \<le> g x \<and> g x \<le> p1" "fp_p1 c = Fin p1" "fp_p6 c = Fin p6"
    and e: "\<And>ctx k x. percent_factor p_base ctx k \<Longrightarrow> extra_get ctx ''frequency'' = PyFloat (Fin x) \<Longrightarrow>
       fp_execute store r None ctx = Inr (mk_command (Fin (k * g x)) 0)"
  have "k * p6 \<le> k * g y" "k * g y \<le> k * g x" "k * g x \<le> k * p1"
    using g(1,2) assms(6,9) by (auto simp: falls_def intro!: mult_left_mono)
  then show ?thesis using g(3,4) e [OF assms(4,7)] e [OF assms(5,8)] by blast
qed

definition demo_fp :: fp_config where
  "demo_fp = \<lparr>fp_f_base = 60, fp_f1 = Fin (- 1 / 2), fp_f2 = Fin (- 1 / 4), fp_f3 = Fin (- 1 / 50), fp_f4 = Fin (1 / 50),
     fp_f5 = Fin (1 / 4), fp_f6 = Fin (1 / 2), fp_p1 = 100, fp_p2 = 52, fp_p3 = 9, fp_p4 = Fin (- 9), fp_p5 = Fin (- 52), fp_p6 = Fin (- 100)\<rparr>"

definition demo_reading :: "string \<Rightarrow> rat \<Rightarrow> strategy_context" where
  "demo_reading key x = default_context\<lparr>ctx_extra := [(key, PyFloat (Fin x))]\<rparr>"

definition plain_resolver :: "(string \<times> pyval) list \<Rightarrow> param_resolver" where
  "plain_resolver attrs = \<lparr>pr_params = None, pr_keys = None, pr_config = attrs, pr_scale = None\<rparr>"

lemma plain_resolver_init: "resolver_init None None attrs None = Inr (plain_resolver attrs)"
  by (simp add: resolver_init_def plain_resolver_def)

lemma demo_reading_get: "extra_get (demo_reading key x) key = PyFloat (Fin x)"
  by (simp add: demo_reading_def extra_get_def dict_get_or_def)

lemma demo_reading_factor: "percent_factor b (demo_reading key x) 1"
  by (simp add: demo_reading_def percent_factor_def default_context_def)

theorem fp_falls_witness:
  "\<exists>p q p1 p6. fp_execute (\<lambda>_. params_init []) (plain_resolver (fp_attrs demo_fp)) None (demo_reading ''frequency'' 59)
       = Inr (mk_command (Fin p) 0)
     \<and> fp_execute (\<lambda>_. params_init []) (plain_resolver (fp_attrs demo_fp)) None (demo_reading ''frequency'' 61)
       = Inr (mk_command (Fin q) 0)
     \<and> fp_p1 demo_fp = Fin p1 \<and> fp_p6 demo_fp = Fin p6 \<and> 1 * p6 \<le> q \<and> q \<le> p \<and> p \<le> 1 * p1"
proof (rule fp_falls [OF _ _ plain_resolver_init demo_reading_factor demo_reading_factor _ demo_reading_get demo_reading_get])
  show "fp_validate demo_fp = Inr ()" "fp_finite demo_fp" by (simp_all add: fp_validate_def fp_finite_def demo_fp_def)
qed simp_all

text \<open>A NaN frequency is below no bound of the curve: the strategy answers with the charging end point.\<close>

lemma fp_nan_frequency: "fp_curve f1 f2 f3 f4 f5 f6 p1 p2 p3 p4 p5 p6 NaN = Inr p6"
  by (simp add: fp_curve_def)

section \<open>Volt-VAR\<close>

definition qv_finite :: "qv_config \<Rightarrow> bool" where
  "qv_finite c = list_all is_finite [qv_nominal_voltage c, qv_v_set c, qv_droop c, qv_v_deadband c, qv_q_max_ratio c]"

text \<open>The ratio over the voltage in per unit: set-point \<open>u\<close>, deadband \<open>d\<close>, slope \<open>1 / (2 k)\<close>, limit \<open>m\<close>.\<close>

definition qv_curve :: "rat \<Rightarrow> rat \<Rightarrow> rat \<Rightarrow> rat \<Rightarrow> rat \<Rightarrow> rat" where
  "qv_curve u d k m x =
     (if x \<le> u - d then min ((u - d - x) / 2 / k) m
      else if u + d \<le> x then max ((u + d - x) / 2 / k) (- m) else 0)"

lemma qv_low: "k > 0 \<Longrightarrow> x \<le> u - d \<Longrightarrow> 0 \<le> (u - d - x) / 2 / (k :: rat)"
  by (intro divide_nonneg_pos) simp_all

lemma qv_high: "k > 0 \<Longrightarrow> u + d \<le> x \<Longrightarrow> (u + d - x) / 2 / (k :: rat) \<le> 0"
  by (intro divide_nonpos_pos) simp_all

lemma qv_slope: "k > 0 \<Longrightarrow> x \<le> x' \<Longrightarrow> (w - x') / 2 / k \<le> (w - x) / 2 / (k :: rat)"
  by (intro divide_right_mono) simp_all

lemma qv_bound: "k > 0 \<Longrightarrow> 0 \<le> m \<Longrightarrow> \<bar>qv_curve u d k m x\<bar> \<le> m"
proof (cases "x \<le> u - d")
  case True
  then show "k > 0 \<Longrightarrow> 0 \<le> m \<Longrightarrow> ?thesis" using qv_low [of k x u d] unfolding qv_curve_def by (simp add: min_def)
next
  case False
  then show "k > 0 \<Longrightarrow> 0 \<le> m \<Longrightarrow> ?thesis" using qv_high [of k u d x] unfolding qv_curve_def by (auto simp: max_def)
qed

lemma qv_support: "k > 0 \<Longrightarrow> 0 \<le> d \<Longrightarrow> 0 \<le> m \<Longrightarrow> x \<le> u \<Longrightarrow> 0 \<le> qv_curve u d k m x"
  using qv_low [of k x u d] unfolding qv_curve_def by (auto simp: min_def max_def)

lemma qv_absorb:
  assumes "k > 0" "0 \<le> d" "0 \<le> m" "u \<le> x"
  shows "qv_curve u d k m x \<le> 0"
proof (cases "x \<le> u - d")
  case True
  then have "u - d - x = 0" using assms by linarith
  then show ?thesis using True assms(3) by (simp add: qv_curve_def)
next
  case False
  then show ?thesis using qv_high [of k u d x] assms(1,3) unfolding qv_curve_def by (auto simp: max_def)
qed

lemma qv_falls:
  assumes "k > 0" "0 \<le> d" "0 \<le> m" "x \<le> x'"
  shows "qv_curve u d k m x' \<le> qv_curve u d k m x"
proof -
  consider "x' \<le> u - d" | "x \<le> u - d" "\<not> x' \<le> u - d" | "\<not> x \<le> u - d" "u + d \<le> x" | "\<not> x \<le> u - d" "\<not> u + d \<le> x"
    by blast
  then show ?thesis
  proof cases
    case 1
    then show ?thesis using qv_slope [OF assms(1,4), of "u - d"] assms(4) unfolding qv_curve_def by (simp add: min_def)
  next
    case 2
    then show ?thesis using qv_support [OF assms(1-3), of x u] qv_high [OF assms(1), of u d x'] assms(2,3)
      unfolding qv_curve_def by (auto simp: max_def)
  next
    case 3
    then have "\<not> x' \<le> u - d" "u + d \<le> x'" using assms(4) by linarith+
    then show ?thesis using 3 qv_slope [OF assms(1,4), of "u + d"] unfolding qv_curve_def by (simp add: max_def)
  next
    case 4
    then have "\<not> x' \<le> u - d" using assms(4) by linarith
    then show ?thesis using 4 qv_high [OF assms(1), of u d x'] assms(3) unfolding qv_curve_def by (auto simp: max_def)
  qed
qed

lemma calculate_q_ratio_rat:
  assumes "pr_params r = None" "pr_scale r = None" "pr_config r = qv_attrs c"
    "qv_nominal_voltage c = Fin vn" "qv_v_set c = Fin vs" "qv_droop c = Fin dr" "qv_v_deadband c = Fin db" "qv_q_max_ratio c = Fin qm"
    "vn > 0" "vs > 0" "dr > 0"
  shows "calculate_q_ratio store r (PyFloat (Fin v)) = Inr (Fin (qv_curve (vs / 100) (db / 100) (vs / 100 * (dr / 100)) qm (v / vn)))"
proof -
  have "resolve_float store r ''nominal_voltage'' = Inr (Fin vn)" "resolve_float store r ''v_set'' = Inr (Fin vs)"
    "resolve_float store r ''droop'' = Inr (Fin dr)" "resolve_float store r ''v_deadband'' = Inr (Fin db)"
    "resolve_float store r ''q_max_ratio'' = Inr (Fin qm)"
    using assms by (simp_all add: resolve_plain qv_attrs_def)
  moreover have "vs / 100 * (dr / 100) \<noteq> 0" "vn \<noteq> 0" using assms by simp_all
  ultimately show ?thesis by (simp add: calculate_q_ratio_def num_of_def qv_curve_def del: times_divide_eq_right)
qed


text \<open>
  The Volt-VAR strategy with any accepted configuration: the reactive power stays within the limit,
  supports a low voltage, absorbs at a high one, and never grows with the voltage.
\<close>

lemma qv_supports:
  assumes "qv_validate c = Inr ()" "qv_finite c" "qv_q_max_ratio c = Fin m" "m \<ge> 0"
    "qv_nominal_voltage c = Fin vn" "qv_v_set c = Fin vs"
    "case ctx_system_base ctx of None \<Rightarrow> w = 1 | Some b \<Rightarrow> q_base b = Fin w" "w \<ge> 0"
    "extra_get ctx ''voltage'' = PyFloat (Fin x)"
  shows "\<exists>q. qv_execute store (plain_resolver (qv_attrs c)) None ctx = Inr (mk_command 0 (Fin q)) \<and> \<bar>q\<bar> \<le> w * m
    \<and> (x / vn \<le> vs / 100 \<longrightarrow> 0 \<le> q) \<and> (vs / 100 \<le> x / vn \<longrightarrow> q \<le> 0)"
proof -
  obtain dr db where c: "qv_droop c = Fin dr" "qv_v_deadband c = Fin db"
    using assms(2) by (auto simp: qv_finite_def is_finite_iff)
  have pos: "vn > 0" "vs > 0" "dr > 0" "db \<ge> 0"
    using assms(1,5,6) by (auto simp: qv_validate_def c split: if_splits)
  let ?k = "vs / 100 * (dr / 100)" and ?q = "qv_curve (vs / 100) (db / 100) (vs / 100 * (dr / 100)) m (x / vn)"
  have k: "?k > 0" "db / 100 \<ge> 0" using pos by simp_all
  have calc: "calculate_q_ratio store (plain_resolver (qv_attrs c)) (PyFloat (Fin x)) = Inr (Fin ?q)"
    using pos assms(3,5,6) c by (intro calculate_q_ratio_rat) (simp_all add: plain_resolver_def)
  have "qv_execute store (plain_resolver (qv_attrs c)) None ctx = Inr (mk_command 0 (Fin (w * ?q)))"
    using assms(7,9) calc
    by (auto simp: qv_execute_def runtime_disabled_def percent_to_kvar_def mult.commute simp del: times_divide_eq_right split: option.splits)
  moreover have "\<bar>w * ?q\<bar> \<le> w * m"
    using qv_bound [OF k(1) assms(4), of "vs / 100" "db / 100" "x / vn"] assms(8) by (simp add: abs_mult mult_left_mono)
  moreover have "x / vn \<le> vs / 100 \<longrightarrow> 0 \<le> w * ?q" "vs / 100 \<le> x / vn \<longrightarrow> w * ?q \<le> 0"
    using qv_support [OF k assms(4), of "x / vn" "vs / 100"] qv_absorb [OF k assms(4), of "vs / 100" "x / vn"] assms(8)
    by (simp_all add: mult_nonneg_nonpos)
  ultimately show ?thesis by blast
qed

section \<open>Droop\<close>

lemma droop_clamp_Fin [simp]: "lo \<le> hi \<Longrightarrow> droop_clamp (Fin v) (Fin lo) (Fin hi) = Fin (max lo (min hi v))"
  by (auto simp: droop_clamp_def)

lemma fabs_uminus_Fin [simp]: "- Fin x = Fin (- x)"
  by simp

definition droop_power :: "rat \<Rightarrow> rat \<Rightarrow> rat \<Rightarrow> rat \<Rightarrow> rat \<Rightarrow> rat \<Rightarrow> rat" where
  "droop_power fb d db mx rated f =
     (let pct = (if \<bar>f - fb\<bar> \<le> db then 0 else max (- 100) (min 100 (- (100 / (fb * d)) * (f - fb))));
          power = rated * pct / 100
      in if mx > 0 then max (- mx) (min mx power) else power)"

text \<open>What the strategy reads, as numbers.\<close>

definition droop_inputs :: "params_store \<Rightarrow> droop_strategy \<Rightarrow> strategy_context
    \<Rightarrow> rat \<Rightarrow> rat \<Rightarrow> rat \<Rightarrow> rat \<Rightarrow> rat \<Rightarrow> rat \<Rightarrow> bool" where
  "droop_inputs store s ctx sp fb d db mx rated \<longleftrightarrow>
     resolve_optional store (ds_resolver s) (ds_schedule_p_key s) PyNone = PyNone
     \<and> dict_get_or (ctx_extra ctx) ''schedule_p'' (PyFloat 0) = PyFloat (Fin sp)
     \<and> resolve_float store (ds_resolver s) ''f_base'' = Inr (Fin fb)
     \<and> resolve_float store (ds_resolver s) ''droop'' = Inr (Fin d)
     \<and> resolve_float store (ds_resolver s) ''deadband'' = Inr (Fin db)
     \<and> resolve_float store (ds_resolver s) ''max_droop_power'' = Inr (Fin mx)
     \<and> resolve_rated_power store (ds_resolver s) ctx = Inr (Fin rated) \<and> rated > 0"

lemma droop_response_rat:
  assumes "rated > 0"
  shows "droop_response (Fin fb) (Fin d) (Fin db) (Fin mx) (Fin rated) (Fin f) =
     (if \<bar>f - fb\<bar> > db \<and> fb * d = 0 then Inl ZeroDivisionError else Inr (Fin (droop_power fb d db mx rated f)))"
  by (simp add: droop_response_def droop_power_def Let_def del: times_divide_eq_left minus_mult_left)

lemma droop_command_rat:
  assumes "droop_inputs store s ctx sp fb d db mx rated"
  shows "droop_command store s ctx (PyFloat (Fin f)) =
     (if \<bar>f - fb\<bar> > db \<and> fb * d = 0 then Inl ZeroDivisionError
      else Inr (mk_command (Fin (max (- rated) (min rated (sp + droop_power fb d db mx rated f)))) 0))"
  using assms by (simp add: droop_inputs_def droop_command_def num_of_def droop_response_rat)

lemma droop_power_sign:
  assumes "rated > 0" "fb * d > 0"
  shows "f \<le> fb \<Longrightarrow> 0 \<le> droop_power fb d db mx rated f" "fb \<le> f \<Longrightarrow> droop_power fb d db mx rated f \<le> 0"
proof -
  define g where "g = - (100 / (fb * d)) * (f - fb)"
  have k: "0 \<le> 100 / (fb * d)" using assms(2) by simp
  then have g: "f \<le> fb \<Longrightarrow> 0 \<le> g" "fb \<le> f \<Longrightarrow> g \<le> 0"
    by (auto simp only: g_def mult_minus_left neg_0_le_iff_le neg_le_0_iff_le intro!: mult_nonneg_nonneg mult_nonneg_nonpos)
  show "f \<le> fb \<Longrightarrow> 0 \<le> droop_power fb d db mx rated f"
    using g(1) assms(1) unfolding droop_power_def Let_def g_def [symmetric] by (auto simp: le_max_iff_disj)
  show "fb \<le> f \<Longrightarrow> droop_power fb d db mx rated f \<le> 0"
    using g(2) assms(1) unfolding droop_power_def Let_def g_def [symmetric]
    by (auto simp: mult_nonneg_nonpos divide_nonpos_pos min_le_iff_disj)
qed

text \<open>
  Droop with any runtime parameters that resolve to numbers: with a positive rated power the strategy
  raises exactly when \<open>f_base * droop\<close> is zero outside the deadband (a value the configuration check refuses, but a
  runtime parameter can set); otherwise the command is within the rated power whatever is scheduled,
  is the schedule alone inside the deadband, and moves against the frequency deviation elsewhere.
\<close>

theorem droop_command_bounded:
  assumes "droop_inputs store s ctx sp fb d db mx rated"
  shows "(droop_command store s ctx (PyFloat (Fin f)) = Inl ZeroDivisionError \<longleftrightarrow> \<bar>f - fb\<bar> > db \<and> fb * d = 0)
    \<and> (\<forall>e. droop_command store s ctx (PyFloat (Fin f)) = Inl e \<longrightarrow> e = ZeroDivisionError)
    \<and> (\<forall>c. droop_command store s ctx (PyFloat (Fin f)) = Inr c \<longrightarrow>
         (\<exists>t. c = mk_command (Fin t) 0 \<and> \<bar>t\<bar> \<le> rated
            \<and> (\<bar>f - fb\<bar> \<le> db \<longrightarrow> t = max (- rated) (min rated sp))
            \<and> (fb * d > 0 \<and> f \<le> fb \<longrightarrow> max (- rated) (min rated sp) \<le> t)
            \<and> (fb * d > 0 \<and> fb \<le> f \<longrightarrow> t \<le> max (- rated) (min rated sp))))"
proof -
  let ?p = "droop_power fb d db mx rated f"
  have pos: "rated > 0" using assms by (simp add: droop_inputs_def)
  have "\<bar>max (- rated) (min rated (sp + ?p))\<bar> \<le> rated" using pos by (auto simp: abs_le_iff)
  moreover have "\<bar>f - fb\<bar> \<le> db \<Longrightarrow> ?p = 0" by (simp add: droop_power_def)
  moreover have "fb * d > 0 \<Longrightarrow> f \<le> fb \<Longrightarrow> max (- rated) (min rated sp) \<le> max (- rated) (min rated (sp + ?p))"
    using droop_power_sign(1) [OF pos, of fb d f db mx] by (intro max.mono min.mono) simp_all
  moreover have "fb * d > 0 \<Longrightarrow> fb \<le> f \<Longrightarrow> max (- rated) (min rated (sp + ?p)) \<le> max (- rated) (min rated sp)"
    using droop_power_sign(2) [OF pos, of fb d f db mx] by (intro max.mono min.mono) simp_all
  ultimately have "let t = max (- rated) (min rated (sp + ?p)) in \<bar>t\<bar> \<le> rated
            \<and> (\<bar>f - fb\<bar> \<le> db \<longrightarrow> t = max (- rated) (min rated sp))
            \<and> (fb * d > 0 \<and> f \<le> fb \<longrightarrow> max (- rated) (min rated sp) \<le> t)
            \<and> (fb * d > 0 \<and> fb \<le> f \<longrightarrow> t \<le> max (- rated) (min rated sp))"
    unfolding Let_def by auto
  then show ?thesis unfolding droop_command_rat [OF assms] Let_def by (auto simp del: max.bounded_iff)
qed

definition demo_droop :: droop_strategy where
  "demo_droop = \<lparr>ds_resolver = (plain_resolver (droop_attrs \<lparr>dr_f_base = 60, dr_droop = Fin (1 / 20), dr_deadband = 0, dr_rated_power = 500,
       dr_max_droop_power = 0, dr_interval = 1\<rparr>))\<lparr>pr_scale := Some [(''droop'', 1)]\<rparr>,
     ds_enabled_key = None, ds_schedule_p_key = None, ds_active = False\<rparr>"

theorem droop_command_bounded_witness:
  "\<exists>t. droop_command (\<lambda>_. params_init []) demo_droop (demo_reading ''frequency'' 59) (PyFloat (Fin 59)) = Inr (mk_command (Fin t) 0)
     \<and> \<bar>t\<bar> \<le> 500"
proof -
  have ins: "droop_inputs (\<lambda>_. params_init []) demo_droop (demo_reading ''frequency'' 59) 0 60 (1 / 20) 0 0 500" by code_simp
  have "is_ok (droop_command (\<lambda>_. params_init []) demo_droop (demo_reading ''frequency'' 59) (PyFloat (Fin 59)))" by code_simp
  then show ?thesis using droop_command_bounded [OF ins, of 59] by (auto simp: is_ok_def split: sum.splits)
qed

end
