(* ===== verification/Ramp_Strategies.thy ===== *)
theory Ramp_Strategies
  imports Strategies
begin

text \<open>
  The strategies of \<open>csp_lib/controller/strategies\<close> that carry a history: the ramp to zero
  (\<open>ramp_stop.py\<close>), PV smoothing (\<open>pv_smooth_strategy.py\<close>) with the \<open>HistoryBuffer\<close> of
  \<open>controller/services\<close>, the island mode with its wait for synchronisation, and the schedule that
  delegates to another strategy. The monotonic clock is an argument.
\<close>

section \<open>Ramp to zero\<close>

record ramp_stop =
  ra_resolver :: param_resolver
  ra_enabled_key :: "string option"
  ra_current_p :: flt
  ra_last_time :: "rat option"

definition ramp_attrs :: "flt \<Rightarrow> flt \<Rightarrow> (string \<times> pyval) list" where
  "ramp_attrs rated rate = [(''rated_power'', PyFloat rated), (''ramp_rate_pct'', PyFloat rate)]"

definition ramp_activate :: "ramp_stop \<Rightarrow> ramp_stop" where
  "ramp_activate s = s\<lparr>ra_current_p := 0, ra_last_time := None\<rparr>"

definition ramp_down :: "flt \<Rightarrow> flt \<Rightarrow> flt" where
  "ramp_down p step = (if fabs p \<le> step then 0 else if p > 0 then p - step else p + step)"

definition ramp_execute :: "params_store \<Rightarrow> rat \<Rightarrow> strategy_context \<Rightarrow> ramp_stop \<Rightarrow> command res \<times> ramp_stop" where
  "ramp_execute store now ctx s =
     (if runtime_disabled store (ra_resolver s) (ra_enabled_key s) then (Inr (last_command ctx), s)
      else let dt = (case ra_last_time s of Some t \<Rightarrow> now - t | None \<Rightarrow> 0);
          p = (if feq (ra_current_p s) 0 \<and> dt = 0 then effective_p (last_command ctx) 0 else ra_current_p s);
          s1 = s\<lparr>ra_last_time := Some now, ra_current_p := p\<rparr>
        in if feq p 0 then (Inr (mk_command 0 0), s1)
           else case rbind (resolve_float store (ra_resolver s) ''rated_power'') (\<lambda>rated.
                     rbind (resolve_float store (ra_resolver s) ''ramp_rate_pct'') (\<lambda>rate.
                     rbind (fdiv rate 100) (\<lambda>x. Inr (ramp_down p (x * rated * Fin dt))))) of
               Inl e \<Rightarrow> (Inl e, s1)
             | Inr q \<Rightarrow> (Inr (mk_command q 0), s1\<lparr>ra_current_p := q\<rparr>))"

fun ramp_run :: "params_store \<Rightarrow> (rat \<times> strategy_context) list \<Rightarrow> ramp_stop \<Rightarrow> command res list \<times> ramp_stop" where
  "ramp_run store [] s = ([], s)"
| "ramp_run store ((now, ctx) # es) s =
     (let (c, s1) = ramp_execute store now ctx s; (cs, s2) = ramp_run store es s1 in (c # cs, s2))"

text \<open>The straight line from \<open>p\<close> to zero with slope \<open>r\<close>.\<close>

definition ramp_line :: "rat \<Rightarrow> rat \<Rightarrow> rat \<Rightarrow> rat" where
  "ramp_line p r d = sgn p * max 0 (\<bar>p\<bar> - r * d)"

lemma ramp_line_zero [simp]: "ramp_line p r 0 = p"
  by (simp add: ramp_line_def sgn_rat_def)

lemma ramp_down_line:
  assumes "0 \<le> r" "0 \<le> d" "0 \<le> e" "ramp_line p r d \<noteq> 0"
  shows "ramp_down (Fin (ramp_line p r d)) (Fin (r * e)) = Fin (ramp_line p r (d + e))"
proof -
  have e: "0 \<le> r * e" using assms by simp
  have pos: "\<bar>p\<bar> - r * d > 0" "p \<noteq> 0" using assms(4) by (auto simp: ramp_line_def max_def split: if_splits)
  then have l: "ramp_line p r d = sgn p * (\<bar>p\<bar> - r * d)" by (simp add: ramp_line_def)
  have l': "ramp_line p r (d + e) = sgn p * max 0 (\<bar>p\<bar> - r * d - r * e)" by (simp add: ramp_line_def algebra_simps)
  show ?thesis
    using pos e unfolding l l' by (cases "p > 0") (auto simp: ramp_down_def sgn_rat_def max_def)
qed

lemma ramp_line_stays_zero:
  assumes "0 \<le> r" "0 \<le> e" "ramp_line p r d = 0"
  shows "ramp_line p r (d + e) = 0"
proof -
  have "0 \<le> r * e" using assms by simp
  moreover have "p = 0 \<or> \<bar>p\<bar> \<le> r * d" using assms(3) by (auto simp: ramp_line_def sgn_rat_def max_def split: if_splits)
  ultimately show ?thesis by (auto simp: ramp_line_def algebra_simps)
qed

text \<open>A strategy whose parameters resolve to constants and that is not disabled.\<close>

definition ramps_at :: "params_store \<Rightarrow> ramp_stop \<Rightarrow> rat \<Rightarrow> bool" where
  "ramps_at store s r \<longleftrightarrow> ra_enabled_key s = None
     \<and> (\<exists>rated rate. resolve_float store (ra_resolver s) ''rated_power'' = Inr (Fin rated)
          \<and> resolve_float store (ra_resolver s) ''ramp_rate_pct'' = Inr (Fin rate) \<and> r = rate / 100 * rated)"

lemma ramp_first:
  assumes "ramps_at store s r" "0 \<le> r" "ra_current_p s = 0" "ra_last_time s = None" "effective_p (last_command ctx) 0 = Fin p"
  shows "ramp_execute store t ctx s = (Inr (mk_command (Fin p) 0), s\<lparr>ra_last_time := Some t, ra_current_p := Fin p\<rparr>)"
  using assms by (auto simp: ramp_execute_def runtime_disabled_def ramps_at_def ramp_down_def Let_def)

lemma ramp_next:
  assumes "ramps_at store s r" "0 \<le> r" "ra_current_p s = Fin (ramp_line p r d)" "ra_last_time s = Some t" "0 \<le> d" "0 < e"
  shows "ramp_execute store (t + e) ctx s =
    (Inr (mk_command (Fin (ramp_line p r (d + e))) 0), s\<lparr>ra_last_time := Some (t + e), ra_current_p := Fin (ramp_line p r (d + e))\<rparr>)"
proof (cases "ramp_line p r d = 0")
  case True
  then show ?thesis
    using assms ramp_line_stays_zero [of r e p d] by (simp add: ramp_execute_def runtime_disabled_def ramps_at_def Let_def)
next
  case False
  obtain rated rate where *: "ra_enabled_key s = None" "resolve_float store (ra_resolver s) ''rated_power'' = Inr (Fin rated)"
      "resolve_float store (ra_resolver s) ''ramp_rate_pct'' = Inr (Fin rate)" and r: "rate / 100 * rated = r"
    using assms(1) by (auto simp: ramps_at_def)
  have "ramp_down (Fin (ramp_line p r d)) (Fin (rate / 100 * rated * e)) = Fin (ramp_line p r (d + e))"
    using ramp_down_line [of r d e p] assms False unfolding r by simp
  then show ?thesis
    using False * assms(3-6) by (simp add: ramp_execute_def runtime_disabled_def Let_def del: times_divide_eq_left times_divide_eq_right)
qed


text \<open>
  The ramp is a straight line to zero: from the power of the last command at activation, whatever
  the pace of the ticks, the command at each tick lies on the line of slope rated power times rate
  through the first tick, with P = 0 from the moment it is reached, and the later contexts play no role.
\<close>

theorem ramp_stop_exact:
  assumes "ramps_at store s r" "0 \<le> r" "sorted_wrt (<) (t0 # map fst es)"
    "effective_p (last_command ctx) 0 = Fin p"
  shows "fst (ramp_run store ((t0, ctx) # es) (ramp_activate s))
    = map (\<lambda>t. Inr (mk_command (Fin (ramp_line p r (t - t0))) 0)) (t0 # map fst es)"
proof -
  have act: "ramps_at store (ramp_activate s) r" using assms(1) by (simp add: ramps_at_def ramp_activate_def)
  have run: "fst (ramp_run store es s') = map (\<lambda>t. Inr (mk_command (Fin (ramp_line p r (t - t0))) 0)) (map fst es)"
    if "ramps_at store s' r" "ra_current_p s' = Fin (ramp_line p r (t - t0))" "ra_last_time s' = Some t" "t0 \<le> t"
      "sorted_wrt (<) (t # map fst es)" for s' t
    using that
  proof (induction es arbitrary: s' t)
    case (Cons e es)
    obtain now c where e: "e = (now, c)" by fastforce
    let ?s = "s'\<lparr>ra_last_time := Some now, ra_current_p := Fin (ramp_line p r (now - t0))\<rparr>"
    have now: "0 < now - t" using Cons.prems(5) by (simp add: e)
    have step: "ramp_execute store now c s' = (Inr (mk_command (Fin (ramp_line p r (now - t0))) 0), ?s)"
      using ramp_next [OF Cons.prems(1) assms(2) Cons.prems(2,3) _ now, of c] Cons.prems(4) by simp
    have "ramps_at store ?s r" using Cons.prems(1) by (simp add: ramps_at_def)
    then have "fst (ramp_run store es ?s) = map (\<lambda>t. Inr (mk_command (Fin (ramp_line p r (t - t0))) 0)) (map fst es)"
      using Cons.prems(4,5) now by (intro Cons.IH [of _ now]) (simp_all add: e)
    then show ?case by (simp add: e step split_beta')
  qed simp
  have first: "ramp_execute store t0 ctx (ramp_activate s)
      = (Inr (mk_command (Fin p) 0), (ramp_activate s)\<lparr>ra_last_time := Some t0, ra_current_p := Fin p\<rparr>)"
    using assms(4) by (intro ramp_first [OF act assms(2)]) (simp_all add: ramp_activate_def)
  have "fst (ramp_run store es ((ramp_activate s)\<lparr>ra_last_time := Some t0, ra_current_p := Fin p\<rparr>))
      = map (\<lambda>t. Inr (mk_command (Fin (ramp_line p r (t - t0))) 0)) (map fst es)"
    using act assms(3) by (intro run [of _ t0]) (simp_all add: ramps_at_def)
  then show ?thesis by (simp add: first split_beta')
qed

definition demo_ramp :: ramp_stop where
  "demo_ramp = \<lparr>ra_resolver = plain_resolver (ramp_attrs 2000 5), ra_enabled_key = None, ra_current_p = 7, ra_last_time = None\<rparr>"

theorem ramp_stop_exact_witness:
  "fst (ramp_run (\<lambda>_. params_init []) [(10, default_context\<lparr>last_command := mk_command (Fin (- 250)) 0\<rparr>), (11, default_context), (13, default_context)]
      (ramp_activate demo_ramp))
    = [Inr (mk_command (Fin (- 250)) 0), Inr (mk_command (Fin (- 150)) 0), Inr (mk_command 0 0)]"
proof -
  have r: "ramps_at (\<lambda>_. params_init []) demo_ramp 100"
    by (simp add: ramps_at_def demo_ramp_def plain_resolver_def ramp_attrs_def resolve_plain)
  show ?thesis
    using ramp_stop_exact [OF r, of 10 "[(11, default_context), (13, default_context)]" "default_context\<lparr>last_command := mk_command (Fin (- 250)) 0\<rparr>" "- 250"]
    by (simp add: effective_p_def ramp_line_def)
qed

section \<open>History and PV smoothing\<close>

record history_buffer =
  hb_max_history :: int
  hb_queue :: "flt option list"

definition history_init :: "int \<Rightarrow> history_buffer res" where
  "history_init n = (if n < 1 then Inl ValueError else Inr \<lparr>hb_max_history = n, hb_queue = []\<rparr>)"

text \<open>\<open>deque(maxlen=n)\<close>: appending to a full deque drops its first element.\<close>

definition history_append :: "flt option \<Rightarrow> history_buffer \<Rightarrow> history_buffer" where
  "history_append v hb = hb\<lparr>hb_queue :=
     (if int (length (hb_queue hb)) \<ge> hb_max_history hb then tl (hb_queue hb) else hb_queue hb) @ [v]\<rparr>"

definition history_count :: "history_buffer \<Rightarrow> int" where
  "history_count hb = int (length (hb_queue hb))"

definition get_history :: "history_buffer \<Rightarrow> flt list" where
  "get_history hb = map the (filter (\<lambda>v. v \<noteq> None) (hb_queue hb))"

definition get_latest :: "history_buffer \<Rightarrow> flt option" where
  "get_latest hb = (case dropWhile (\<lambda>v. v = None) (rev (hb_queue hb)) of [] \<Rightarrow> None | v # _ \<Rightarrow> v)"

definition history_len :: "history_buffer \<Rightarrow> int" where
  "history_len hb = int (length (get_history hb))"

definition history_clear :: "history_buffer \<Rightarrow> history_buffer" where
  "history_clear hb = hb\<lparr>hb_queue := []\<rparr>"

text \<open>\<open>statistics.fmean\<close>: \<open>fsum\<close> refuses to add the two infinities.\<close>

definition fsum :: "flt list \<Rightarrow> flt res" where
  "fsum xs = (if PInf \<in> set xs \<and> NInf \<in> set xs then Inl ValueError else Inr (foldl (+) 0 xs))"

definition get_average :: "history_buffer \<Rightarrow> flt option res" where
  "get_average hb = (let valid = get_history hb in
     if valid = [] then Inr None
     else rbind (fsum valid) (\<lambda>t. rbind (fdiv t (Fin (of_nat (length valid)))) (\<lambda>m. Inr (Some m))))"

record pv_config =
  pv_capacity :: flt
  pv_ramp_rate :: flt
  pv_loss :: flt
  pv_min_history :: int

definition pv_attrs :: "pv_config \<Rightarrow> (string \<times> pyval) list" where
  "pv_attrs c = [(''capacity'', PyFloat (pv_capacity c)), (''ramp_rate'', PyFloat (pv_ramp_rate c)),
     (''pv_loss'', PyFloat (pv_loss c)), (''min_history'', PyInt (pv_min_history c))]"

definition pv_target :: "flt \<Rightarrow> flt \<Rightarrow> flt \<Rightarrow> flt" where
  "pv_target adjusted last_p rate_limit = py_max (py_min adjusted (last_p + rate_limit)) (last_p - rate_limit)"

definition pv_execute :: "params_store \<Rightarrow> param_resolver \<Rightarrow> string option \<Rightarrow> history_buffer option
    \<Rightarrow> strategy_context \<Rightarrow> command res" where
  "pv_execute store r enabled_key service ctx =
     (if runtime_disabled store r enabled_key then Inr (mk_command 0 0)
      else case service of None \<Rightarrow> Inr (mk_command 0 0)
      | Some hb \<Rightarrow>
        rbind (rbind (resolve store r ''min_history'') py_int) (\<lambda>min_history.
        rbind (resolve_float store r ''capacity'') (\<lambda>capacity.
        rbind (resolve_float store r ''ramp_rate'') (\<lambda>ramp_rate.
        rbind (resolve_float store r ''pv_loss'') (\<lambda>loss.
          if history_count hb < min_history then Inr (mk_command 0 0)
          else rbind (get_average hb) (\<lambda>avg.
            case avg of None \<Rightarrow> Inr (mk_command 0 0)
            | Some a \<Rightarrow>
              rbind (fdiv (capacity * ramp_rate) 100) (\<lambda>rate_limit.
                Inr (mk_command (pv_target (py_max (a - loss) 0) (effective_p (last_command ctx) 0) rate_limit) 0))))))))"


lemma history_append_max [simp]: "hb_max_history (fold history_append vs hb) = hb_max_history hb"
  by (induction vs arbitrary: hb) (simp_all add: history_append_def)

lemma history_append_queue: "hb_queue (history_append v hb) =
    (if int (length (hb_queue hb)) \<ge> hb_max_history hb then tl (hb_queue hb) else hb_queue hb) @ [v]"
  by (simp add: history_append_def)

text \<open>The buffer holds the last \<open>max_history\<close> values, in order.\<close>

lemma history_window:
  assumes "1 \<le> hb_max_history hb" "hb_queue hb = []"
  shows "hb_queue (fold history_append vs hb) = drop (length vs - nat (hb_max_history hb)) vs"
proof (induction vs rule: rev_induct)
  case Nil
  then show ?case using assms by simp
next
  case (snoc v vs)
  let ?q = "drop (length vs - nat (hb_max_history hb)) vs"
  have q: "hb_queue (fold history_append vs hb) = ?q" by (rule snoc)
  show ?case
  proof (cases "int (length ?q) \<ge> hb_max_history hb")
    case True
    then have "length vs \<ge> nat (hb_max_history hb)" by simp
    then show ?thesis using True q assms(1) by (simp add: history_append_queue tl_drop drop_Suc [symmetric] Suc_diff_le)
  next
    case False
    then have "length vs < nat (hb_max_history hb)" by simp
    then show ?thesis using False q by (simp add: history_append_queue)
  qed
qed

lemma foldl_plus_Fin: "foldl (+) (Fin a) (map Fin xs) = Fin (a + sum_list xs)"
  by (induction xs arbitrary: a) (simp_all add: add.assoc)

lemma get_average_Fin:
  assumes "get_history hb = map Fin xs" "xs \<noteq> []"
  shows "get_average hb = Inr (Some (Fin (sum_list xs / of_nat (length xs))))"
proof -
  have "fsum (map Fin xs) = Inr (Fin (sum_list xs))" using foldl_plus_Fin [of 0 xs] by (auto simp: fsum_def)
  then show ?thesis using assms by (simp add: get_average_def)
qed

text \<open>
  PV smoothing with a non-negative ramp: the set-point follows the mean of the valid samples among
  the last \<open>max_history\<close> ones, less the loss and not below zero, but never moves further than
  capacity times rate from the last command; within that reach it is met exactly.
\<close>

theorem pv_follows_within_ramp:
  assumes "history_init n = Inr hb0" "hb = fold history_append vs hb0"
    "map the (filter (\<lambda>v. v \<noteq> None) (drop (length vs - nat n) vs)) = map Fin xs" "xs \<noteq> []"
    "pv_capacity c = Fin cap" "pv_ramp_rate c = Fin rate" "pv_loss c = Fin loss" "pv_min_history c \<le> history_count hb"
    "0 \<le> cap * rate / 100" "effective_p (last_command ctx) 0 = Fin p"
  shows "\<exists>t. pv_execute store (plain_resolver (pv_attrs c)) None (Some hb) ctx = Inr (mk_command (Fin t) 0)
    \<and> \<bar>t - p\<bar> \<le> cap * rate / 100
    \<and> (let goal = max (sum_list xs / of_nat (length xs) - loss) 0 in
         (\<bar>goal - p\<bar> \<le> cap * rate / 100 \<longrightarrow> t = goal) \<and> (goal \<le> p \<longrightarrow> t \<le> p) \<and> (p \<le> goal \<longrightarrow> p \<le> t))"
proof -
  define g where "g = max (sum_list xs / of_nat (length xs) - loss) 0"
  define l where "l = cap * rate / 100"
  have hb0: "1 \<le> hb_max_history hb0" "hb_queue hb0 = []" "hb_max_history hb0 = n"
    using assms(1) by (auto simp: history_init_def split: if_splits)
  have "get_history hb = map Fin xs"
    using assms(3) history_window [OF hb0(1,2), of vs] hb0(3) by (simp add: get_history_def assms(2))
  then have avg: "get_average hb = Inr (Some (Fin (sum_list xs / of_nat (length xs))))" using assms(4) by (rule get_average_Fin)
  have "resolve store (plain_resolver (pv_attrs c)) ''min_history'' = Inr (PyInt (pv_min_history c))"
    by (simp add: resolve_def runtime_value_def plain_resolver_def pv_attrs_def)
  then have "pv_execute store (plain_resolver (pv_attrs c)) None (Some hb) ctx
      = Inr (mk_command (pv_target (Fin g) (Fin p) (Fin l)) 0)"
    using assms(5-8,10) avg
    by (simp add: pv_execute_def runtime_disabled_def resolve_plain plain_resolver_def pv_attrs_def g_def l_def)
  moreover have "pv_target (Fin g) (Fin p) (Fin l) = Fin (max (min g (p + l)) (p - l))" by (simp add: pv_target_def)
  moreover have "0 \<le> l" using assms(9) by (simp add: l_def)
  ultimately show ?thesis
    unfolding g_def [symmetric] l_def [symmetric] Let_def by (auto simp: abs_le_iff)
qed

theorem pv_follows_within_ramp_witness:
  "\<exists>t. pv_execute (\<lambda>_. params_init []) (plain_resolver (pv_attrs \<lparr>pv_capacity = 1000, pv_ramp_rate = 10, pv_loss = 0, pv_min_history = 1\<rparr>)) None
      (Some (fold history_append [Some (Fin 900), None, Some (Fin 300), Some (Fin 500)] \<lparr>hb_max_history = 3, hb_queue = []\<rparr>)) default_context
      = Inr (mk_command (Fin t) 0)
    \<and> \<bar>t - 0\<bar> \<le> 1000 * 10 / 100
    \<and> (let goal = max (sum_list [300, 500] / of_nat (length [300, 500 :: rat]) - 0) 0 in
         (\<bar>goal - 0\<bar> \<le> 1000 * 10 / 100 \<longrightarrow> t = goal) \<and> (goal \<le> 0 \<longrightarrow> t \<le> 0) \<and> (0 \<le> goal \<longrightarrow> 0 \<le> t))"
  by (rule pv_follows_within_ramp [of 3 "\<lparr>hb_max_history = 3, hb_queue = []\<rparr>" _ "[Some (Fin 900), None, Some (Fin 300), Some (Fin 500)]"])
    (simp_all add: history_init_def history_append_def history_count_def default_context_def default_command_def effective_p_def)

section \<open>Island mode\<close>

text \<open>
  Deactivation polls \<open>sync_ok\<close> every half second; \<open>sync k\<close> is its value after \<open>k\<close> sleeps. The
  result is the number of sleeps.
\<close>

function island_wait :: "(nat \<Rightarrow> bool) \<Rightarrow> rat \<Rightarrow> rat \<Rightarrow> nat \<Rightarrow> nat" where
  "island_wait sync timeout elapsed k =
     (if elapsed < timeout then if sync k then k else island_wait sync timeout (elapsed + 1 / 2) (Suc k) else k)"
  by auto

termination
proof (relation "measure (\<lambda>(sync, timeout, elapsed, k). nat \<lceil>2 * (timeout - elapsed)\<rceil>)")
  fix sync :: "nat \<Rightarrow> bool" and timeout elapsed :: rat and k :: nat
  assume "elapsed < timeout"
  then have "0 < \<lceil>2 * (timeout - elapsed)\<rceil>" by simp
  moreover have "\<lceil>2 * (timeout - (elapsed + 1 / 2))\<rceil> = \<lceil>2 * (timeout - elapsed)\<rceil> - 1"
    using ceiling_diff_of_int [of "2 * (timeout - elapsed)" 1] by (simp add: algebra_simps)
  ultimately show "((sync, timeout, elapsed + 1 / 2, Suc k), (sync, timeout, elapsed, k))
      \<in> measure (\<lambda>(sync, timeout, elapsed, k). nat \<lceil>2 * (timeout - elapsed)\<rceil>)"
    by simp
qed simp

declare island_wait.simps [simp del]

datatype relay_call = SetOpen | SetClose

definition island_execute :: "strategy_context \<Rightarrow> command" where
  "island_execute ctx = last_command ctx"

definition island_activate :: "relay_call list" where
  "island_activate = [SetOpen]"

definition island_deactivate :: "(nat \<Rightarrow> bool) \<Rightarrow> rat \<Rightarrow> nat \<times> relay_call list" where
  "island_deactivate sync timeout =
     (let k = island_wait sync timeout 0 0 in (k, if \<not> sync k then [] else [SetClose]))"


lemma island_wait_bound:
  "k \<le> island_wait sync timeout elapsed k
   \<and> island_wait sync timeout elapsed k \<le> k + nat \<lceil>2 * (timeout - elapsed)\<rceil>
   \<and> (\<forall>j. k \<le> j \<longrightarrow> j < island_wait sync timeout elapsed k \<longrightarrow> \<not> sync j)
   \<and> (sync (island_wait sync timeout elapsed k) \<or> island_wait sync timeout elapsed k = k + nat \<lceil>2 * (timeout - elapsed)\<rceil>)"
proof (induction sync timeout elapsed k rule: island_wait.induct)
  case (1 sync timeout elapsed k)
  show ?case
  proof (cases "elapsed < timeout \<and> \<not> sync k")
    case True
    have c: "nat \<lceil>2 * (timeout - elapsed)\<rceil> = Suc (nat \<lceil>2 * (timeout - (elapsed + 1 / 2))\<rceil>)"
    proof -
      have "0 < \<lceil>2 * (timeout - elapsed)\<rceil>" using True by simp
      moreover have "\<lceil>2 * (timeout - (elapsed + 1 / 2))\<rceil> = \<lceil>2 * (timeout - elapsed)\<rceil> - 1"
        using ceiling_diff_of_int [of "2 * (timeout - elapsed)" 1] by (simp add: algebra_simps)
      ultimately show ?thesis by linarith
    qed
    have w: "island_wait sync timeout elapsed k = island_wait sync timeout (elapsed + 1 / 2) (Suc k)"
      using True by (simp add: island_wait.simps [of sync timeout elapsed k])
    have IH: "Suc k \<le> island_wait sync timeout (elapsed + 1 / 2) (Suc k)"
      "island_wait sync timeout (elapsed + 1 / 2) (Suc k) \<le> Suc k + nat \<lceil>2 * (timeout - (elapsed + 1 / 2))\<rceil>"
      "\<And>j. Suc k \<le> j \<Longrightarrow> j < island_wait sync timeout (elapsed + 1 / 2) (Suc k) \<Longrightarrow> \<not> sync j"
      "sync (island_wait sync timeout (elapsed + 1 / 2) (Suc k))
       \<or> island_wait sync timeout (elapsed + 1 / 2) (Suc k) = Suc k + nat \<lceil>2 * (timeout - (elapsed + 1 / 2))\<rceil>"
      using 1 True by blast+
    have "\<not> sync j" if "k \<le> j" "j < island_wait sync timeout (elapsed + 1 / 2) (Suc k)" for j
      using that IH(3) True by (cases "j = k") auto
    then show ?thesis unfolding w c using IH(1,2,4) by auto
  next
    case False
    then show ?thesis by (auto simp: island_wait.simps [of sync timeout elapsed k])
  qed
qed

text \<open>
  Leaving the island mode ends, after at most \<open>2 * sync_timeout\<close> half-second sleeps (rounded up), and
  the breaker is closed exactly when one of the readings in that time was synchronous, at the first such reading.
\<close>

theorem island_reconnects:
  "fst (island_deactivate sync timeout) \<le> nat \<lceil>2 * timeout\<rceil>
   \<and> (\<forall>j < fst (island_deactivate sync timeout). \<not> sync j)
   \<and> snd (island_deactivate sync timeout) = (if \<exists>j \<le> nat \<lceil>2 * timeout\<rceil>. sync j then [SetClose] else [])"
proof -
  define k where "k = island_wait sync timeout 0 0"
  have k: "k \<le> nat \<lceil>2 * timeout\<rceil>" "\<And>j. j < k \<Longrightarrow> \<not> sync j" "sync k \<or> k = nat \<lceil>2 * timeout\<rceil>"
    using island_wait_bound [of 0 sync timeout 0] by (auto simp: k_def)
  have "(\<exists>j \<le> nat \<lceil>2 * timeout\<rceil>. sync j) \<longleftrightarrow> sync k"
    using k by (metis le_neq_implies_less linorder_less_linear)
  then show ?thesis using k(1,2) by (simp add: island_deactivate_def k_def [symmetric] Let_def)
qed

theorem island_reconnects_witness: "island_deactivate (\<lambda>k. k = 3) 60 = (3, [SetClose])"
proof -
  have "fst (island_deactivate (\<lambda>k. k = 3) 60) = 3" by (simp add: island_deactivate_def island_wait.simps)
  moreover have "snd (island_deactivate (\<lambda>k. k = 3) 60) = [SetClose]"
    using island_reconnects [of "\<lambda>k. k = 3" 60] by auto
  ultimately show ?thesis by (simp add: prod_eq_iff)
qed

section \<open>Delegation by schedule\<close>

text \<open>Strategies are ids; the hooks that run are returned in order.\<close>

datatype strategy_hook = OnActivate nat | OnDeactivate nat

record schedule_strategy =
  sg_current :: "nat option"
  sg_fallback :: nat

definition current_strategy :: "schedule_strategy \<Rightarrow> nat" where
  "current_strategy s = (case sg_current s of None \<Rightarrow> sg_fallback s | Some i \<Rightarrow> i)"

definition has_schedule :: "schedule_strategy \<Rightarrow> bool" where
  "has_schedule s = (sg_current s \<noteq> None)"

definition update_schedule :: "nat option \<Rightarrow> schedule_strategy \<Rightarrow> schedule_strategy \<times> strategy_hook list" where
  "update_schedule new s =
     (s\<lparr>sg_current := new\<rparr>,
      (case sg_current s of None \<Rightarrow> [] | Some i \<Rightarrow> [OnDeactivate i])
      @ (case new of None \<Rightarrow> [] | Some j \<Rightarrow> [OnActivate j]))"

definition schedule_execute :: "(nat \<Rightarrow> strategy_context \<Rightarrow> command res) \<Rightarrow> schedule_strategy \<Rightarrow> strategy_context \<Rightarrow> command res" where
  "schedule_execute run s ctx = run (current_strategy s) ctx"

definition schedule_on_activate :: "schedule_strategy \<Rightarrow> strategy_hook list" where
  "schedule_on_activate s = [OnActivate (current_strategy s)]"

definition schedule_on_deactivate :: "schedule_strategy \<Rightarrow> strategy_hook list" where
  "schedule_on_deactivate s = (case sg_current s of None \<Rightarrow> [] | Some i \<Rightarrow> [OnDeactivate i])"

text \<open>
  The fallback is activated when the strategy starts without a schedule, but never deactivated: not by
  a schedule that replaces it nor by the end of the strategy.
\<close>

lemma fallback_never_deactivated:
  "sg_current s = None \<Longrightarrow> schedule_on_activate s = [OnActivate (sg_fallback s)]
     \<and> (\<forall>new. snd (update_schedule new s) = (case new of None \<Rightarrow> [] | Some j \<Rightarrow> [OnActivate j]))
     \<and> schedule_on_deactivate s = []"
  by (simp add: schedule_on_activate_def current_strategy_def update_schedule_def schedule_on_deactivate_def)

end
