(* ===== verification/Load_Shedding.thy ===== *)
theory Load_Shedding
  imports Strategies
begin

text \<open>
  \<open>csp_lib/controller/strategies/load_shedding.py\<close>: stages of load circuits, shed and restored by
  conditions with a minimum hold and a restore delay. \<open>execute\<close> only decides; the decisions wait in a
  list until the background task carries them out. A call that raises keeps the state it has reached.
  Circuits are ids; what the background task calls is returned.
\<close>

section \<open>Conditions and stages\<close>

text \<open>The two built-in conditions behave alike; the key of the second has a default.\<close>

datatype shed_condition =
    ThresholdShed string flt flt
  | RemainingTimeShed string flt flt
  | ClientShed "strategy_context \<Rightarrow> bool res" "strategy_context \<Rightarrow> bool res"

definition shed_condition_valid :: "flt \<Rightarrow> flt \<Rightarrow> unit res" where
  "shed_condition_valid lo hi = (if hi < lo then Inl ValueError else Inr ())"

definition compare_extra :: "(flt \<Rightarrow> bool) \<Rightarrow> string \<Rightarrow> strategy_context \<Rightarrow> bool res" where
  "compare_extra test key ctx =
     (if extra_get ctx key = PyNone then Inr False else rbind (num_of (extra_get ctx key)) (\<lambda>v. Inr (test v)))"

fun should_shed :: "shed_condition \<Rightarrow> strategy_context \<Rightarrow> bool res" where
  "should_shed (ThresholdShed key lo hi) ctx = compare_extra (\<lambda>v. v < lo) key ctx"
| "should_shed (RemainingTimeShed key lo hi) ctx = compare_extra (\<lambda>v. v < lo) key ctx"
| "should_shed (ClientShed f g) ctx = f ctx"

fun should_restore :: "shed_condition \<Rightarrow> strategy_context \<Rightarrow> bool res" where
  "should_restore (ThresholdShed key lo hi) ctx = compare_extra (\<lambda>v. v > hi) key ctx"
| "should_restore (RemainingTimeShed key lo hi) ctx = compare_extra (\<lambda>v. v > hi) key ctx"
| "should_restore (ClientShed f g) ctx = g ctx"

record shed_stage =
  sh_name :: string
  sh_circuits :: "nat list"
  sh_condition :: shed_condition
  sh_priority :: int
  sh_min_hold :: rat

record stage_state =
  is_shed :: bool
  shed_at :: rat
  restore_requested_at :: "rat option"

definition stage_state_init :: stage_state where
  "stage_state_init = \<lparr>is_shed = False, shed_at = 0, restore_requested_at = None\<rparr>"

datatype shed_action = Shed | Restore

record load_shedding =
  ls_stages :: "shed_stage list"
  ls_sorted :: "shed_stage list"
  ls_states :: "(string \<times> stage_state) list"
  ls_pending :: "(string \<times> shed_action) list"
  ls_event :: bool
  ls_resolver :: param_resolver
  ls_enabled_key :: "string option"

definition load_shedding_init :: "shed_stage list \<Rightarrow> param_resolver \<Rightarrow> string option \<Rightarrow> load_shedding" where
  "load_shedding_init stages r key =
     \<lparr>ls_stages = stages, ls_sorted = sort_key sh_priority stages,
      ls_states = fold (\<lambda>st. dict_set (sh_name st) stage_state_init) stages [],
      ls_pending = [], ls_event = False, ls_resolver = r, ls_enabled_key = key\<rparr>"

section \<open>Deciding\<close>

text \<open>Every stage has a state, so the lookup never fails.\<close>

definition stage_of :: "load_shedding \<Rightarrow> string \<Rightarrow> stage_state" where
  "stage_of ls name = dict_get_or (ls_states ls) name stage_state_init"

definition put_stage :: "string \<Rightarrow> stage_state \<Rightarrow> shed_action list \<Rightarrow> load_shedding \<Rightarrow> load_shedding" where
  "put_stage name st acts ls = ls\<lparr>ls_states := dict_set name st (ls_states ls),
     ls_pending := ls_pending ls @ map (Pair name) acts\<rparr>"

definition stage_shed :: "rat \<Rightarrow> bool \<Rightarrow> stage_state \<Rightarrow> stage_state \<times> shed_action list" where
  "stage_shed now cond st =
     (if \<not> is_shed st \<and> cond then (\<lparr>is_shed = True, shed_at = now, restore_requested_at = None\<rparr>, [Shed]) else (st, []))"

definition stage_restore :: "rat \<Rightarrow> flt \<Rightarrow> rat \<Rightarrow> bool \<Rightarrow> stage_state \<Rightarrow> stage_state \<times> shed_action list" where
  "stage_restore hold delay now cond st =
     (if \<not> is_shed st then (st, [])
      else if \<not> cond then (st\<lparr>restore_requested_at := None\<rparr>, [])
      else if now - shed_at st < hold then (st, [])
      else case restore_requested_at st of
             None \<Rightarrow> (st\<lparr>restore_requested_at := Some now\<rparr>, [])
           | Some t \<Rightarrow> if Fin (now - t) \<ge> delay then (st\<lparr>is_shed := False, restore_requested_at := None\<rparr>, [Restore])
                       else (st, []))"

definition shed_step :: "rat \<Rightarrow> strategy_context \<Rightarrow> shed_stage \<Rightarrow> load_shedding \<Rightarrow> load_shedding \<times> unit res" where
  "shed_step now ctx stage ls =
     (let st = stage_of ls (sh_name stage) in
      case (if is_shed st then Inr False else should_shed (sh_condition stage) ctx) of
        Inl e \<Rightarrow> (ls, Inl e)
      | Inr c \<Rightarrow> (case stage_shed now c st of (st', acts) \<Rightarrow> (put_stage (sh_name stage) st' acts ls, Inr ())))"

definition restore_step :: "flt \<Rightarrow> rat \<Rightarrow> strategy_context \<Rightarrow> shed_stage \<Rightarrow> load_shedding \<Rightarrow> load_shedding \<times> unit res" where
  "restore_step delay now ctx stage ls =
     (let st = stage_of ls (sh_name stage) in
      case (if \<not> is_shed st then Inr False else should_restore (sh_condition stage) ctx) of
        Inl e \<Rightarrow> (ls, Inl e)
      | Inr c \<Rightarrow> (case stage_restore (sh_min_hold stage) delay now c st of (st', acts) \<Rightarrow>
                    (put_stage (sh_name stage) st' acts ls, Inr ())))"

text \<open>A loop whose body may raise.\<close>

fun each_stage :: "(shed_stage \<Rightarrow> load_shedding \<Rightarrow> load_shedding \<times> unit res) \<Rightarrow> shed_stage list
    \<Rightarrow> load_shedding \<Rightarrow> load_shedding \<times> unit res" where
  "each_stage f [] ls = (ls, Inr ())"
| "each_stage f (x # xs) ls = (case f x ls of (ls', Inl e) \<Rightarrow> (ls', Inl e) | (ls', Inr _) \<Rightarrow> each_stage f xs ls')"

definition shedding_execute :: "params_store \<Rightarrow> rat \<Rightarrow> strategy_context \<Rightarrow> load_shedding \<Rightarrow> load_shedding \<times> command res" where
  "shedding_execute store now ctx ls =
     (if runtime_disabled store (ls_resolver ls) (ls_enabled_key ls) then (ls, Inr (last_command ctx))
      else case resolve_float store (ls_resolver ls) ''restore_delay'' of
        Inl e \<Rightarrow> (ls, Inl e)
      | Inr delay \<Rightarrow>
        (case each_stage (shed_step now ctx) (ls_sorted ls) ls of
           (ls1, Inl e) \<Rightarrow> (ls1, Inl e)
         | (ls1, Inr _) \<Rightarrow>
           (case each_stage (restore_step delay now ctx) (rev (ls_sorted ls1)) ls1 of
              (ls2, Inl e) \<Rightarrow> (ls2, Inl e)
            | (ls2, Inr _) \<Rightarrow> (if ls_pending ls2 \<noteq> [] then ls2\<lparr>ls_event := True\<rparr> else ls2, Inr (last_command ctx)))))"

section \<open>Carrying out\<close>

definition stage_named :: "load_shedding \<Rightarrow> string \<Rightarrow> shed_stage option" where
  "stage_named ls name = find (\<lambda>st. sh_name st = name) (rev (ls_stages ls))"

definition action_calls :: "load_shedding \<Rightarrow> string \<times> shed_action \<Rightarrow> (nat \<times> shed_action) list" where
  "action_calls ls a = (case stage_named ls (fst a) of None \<Rightarrow> [] | Some st \<Rightarrow> map (\<lambda>c. (c, snd a)) (sh_circuits st))"

text \<open>One wake-up of the background task; a failing circuit is logged and the next one called.\<close>

definition action_round :: "load_shedding \<Rightarrow> load_shedding \<times> (nat \<times> shed_action) list" where
  "action_round ls =
     (if \<not> ls_event ls then (ls, [])
      else (ls\<lparr>ls_event := False, ls_pending := []\<rparr>, concat (map (action_calls ls) (ls_pending ls))))"

definition restore_all :: "(nat \<Rightarrow> bool) \<Rightarrow> load_shedding \<Rightarrow> (nat \<times> shed_action) list" where
  "restore_all circuit_shed ls =
     concat (map (\<lambda>st. if is_shed (stage_of ls (sh_name st))
                       then map (\<lambda>c. (c, Restore)) (filter circuit_shed (sh_circuits st)) else [])
        (rev (ls_sorted ls)))"

definition shedding_activate :: "load_shedding \<Rightarrow> load_shedding" where
  "shedding_activate ls = ls\<lparr>ls_event := False\<rparr>"

text \<open>The background task waits when it is cancelled; \<open>circuit_shed\<close> is what the circuits report.\<close>

definition shedding_deactivate :: "params_store \<Rightarrow> (nat \<Rightarrow> bool) \<Rightarrow> load_shedding
    \<Rightarrow> load_shedding \<times> (nat \<times> shed_action) list res" where
  "shedding_deactivate store circuit_shed ls =
     (case resolve store (ls_resolver ls) ''auto_restore_on_deactivate'' of
        Inl e \<Rightarrow> (ls, Inl e)
      | Inr v \<Rightarrow> (ls\<lparr>ls_pending := [], ls_states := map (\<lambda>(n, st). (n, stage_state_init)) (ls_states ls)\<rparr>,
                  Inr (if truthy v then restore_all circuit_shed ls else [])))"

definition shed_stage_names :: "load_shedding \<Rightarrow> string list" where
  "shed_stage_names ls = map fst (filter (\<lambda>(n, st). is_shed st) (ls_states ls))"


section \<open>Runs\<close>

text \<open>
  An evaluation at a time, then possibly a wake-up of the background task. The log holds what was
  decided and when.
\<close>

type_synonym shed_tick = "rat \<times> strategy_context \<times> bool"

definition shedding_tick :: "params_store \<Rightarrow> shed_tick \<Rightarrow> (rat \<times> string \<times> shed_action) list \<times> load_shedding
    \<Rightarrow> (rat \<times> string \<times> shed_action) list \<times> load_shedding" where
  "shedding_tick store e s = (case (e, s) of ((now, ctx, act), (lg, ls)) \<Rightarrow>
     let ls' = fst (shedding_execute store now ctx ls)
     in (lg @ map (Pair now) (drop (length (ls_pending ls)) (ls_pending ls')), if act then fst (action_round ls') else ls'))"

definition shedding_run :: "params_store \<Rightarrow> shed_tick list \<Rightarrow> load_shedding \<Rightarrow> (rat \<times> string \<times> shed_action) list \<times> load_shedding" where
  "shedding_run store es ls = fold (shedding_tick store) es ([], ls)"

text \<open>One stage on its own.\<close>

definition cond_val :: "bool res \<Rightarrow> bool" where
  "cond_val r = (case r of Inl _ \<Rightarrow> False | Inr b \<Rightarrow> b)"

definition stage_eval :: "flt \<Rightarrow> shed_stage \<Rightarrow> rat \<Rightarrow> strategy_context \<Rightarrow> stage_state \<Rightarrow> stage_state \<times> shed_action list" where
  "stage_eval delay stage now ctx st =
     (let (st1, a1) = stage_shed now (cond_val (should_shed (sh_condition stage) ctx)) st;
          (st2, a2) = stage_restore (sh_min_hold stage) delay now (cond_val (should_restore (sh_condition stage) ctx)) st1
      in (st2, a1 @ a2))"

definition stage_tick :: "flt \<Rightarrow> shed_stage \<Rightarrow> shed_tick \<Rightarrow> (rat \<times> shed_action) list \<times> stage_state \<Rightarrow> (rat \<times> shed_action) list \<times> stage_state" where
  "stage_tick delay stage e s = (case (e, s) of ((now, ctx, act), (lg, st)) \<Rightarrow>
     let (st', acts) = stage_eval delay stage now ctx st in (lg @ map (Pair now) acts, st'))"

definition stage_run :: "flt \<Rightarrow> shed_stage \<Rightarrow> shed_tick list \<Rightarrow> (rat \<times> shed_action) list \<times> stage_state" where
  "stage_run delay stage es = fold (stage_tick delay stage) es ([], stage_state_init)"

lemma stage_run_snoc: "stage_run delay stage (es @ [e]) = stage_tick delay stage e (stage_run delay stage es)"
  by (simp add: stage_run_def)

text \<open>What justifies an entry of the log, given the entries before it.\<close>

definition entry_ok :: "flt \<Rightarrow> shed_stage \<Rightarrow> shed_tick list \<Rightarrow> (rat \<times> shed_action) list \<Rightarrow> rat \<times> shed_action \<Rightarrow> bool" where
  "entry_ok delay stage es before x = (case x of
       (t, Shed) \<Rightarrow> before = [] \<or> snd (last before) = Restore
     | (t, Restore) \<Rightarrow> before \<noteq> [] \<and> snd (last before) = Shed
         \<and> (\<exists>r. fst (last before) + sh_min_hold stage \<le> r \<and> delay \<le> Fin (t - r)
              \<and> (\<forall>now ctx act. (now, ctx, act) \<in> set es \<longrightarrow> r \<le> now \<longrightarrow> now \<le> t \<longrightarrow> cond_val (should_restore (sh_condition stage) ctx))))"

definition log_ok :: "flt \<Rightarrow> shed_stage \<Rightarrow> shed_tick list \<Rightarrow> (rat \<times> shed_action) list \<Rightarrow> bool" where
  "log_ok delay stage es lg \<longleftrightarrow> (\<forall>before x rest. lg = before @ x # rest \<longrightarrow> entry_ok delay stage es before x)"

definition stage_inv :: "flt \<Rightarrow> shed_stage \<Rightarrow> shed_tick list \<Rightarrow> (rat \<times> shed_action) list \<Rightarrow> stage_state \<Rightarrow> bool" where
  "stage_inv delay stage es lg st \<longleftrightarrow> log_ok delay stage es lg
     \<and> fst ` set lg \<subseteq> fst ` set es
     \<and> (is_shed st \<longleftrightarrow> lg \<noteq> [] \<and> snd (last lg) = Shed)
     \<and> (is_shed st \<longrightarrow> fst (last lg) = shed_at st)
     \<and> (\<forall>r. restore_requested_at st = Some r \<longrightarrow> is_shed st \<and> shed_at st + sh_min_hold stage \<le> r
          \<and> (\<forall>now ctx act. (now, ctx, act) \<in> set es \<longrightarrow> r \<le> now \<longrightarrow> cond_val (should_restore (sh_condition stage) ctx)))"

lemma log_ok_snoc: "log_ok delay stage es (lg @ [x]) \<longleftrightarrow> log_ok delay stage es lg \<and> entry_ok delay stage es lg x"
proof
  assume l: "log_ok delay stage es lg \<and> entry_ok delay stage es lg x"
  show "log_ok delay stage es (lg @ [x])"
    unfolding log_ok_def
  proof (intro allI impI)
    fix before y rest
    assume eq: "lg @ [x] = before @ y # rest"
    show "entry_ok delay stage es before y"
    proof (cases rest rule: rev_cases)
      case Nil
      then show ?thesis using l eq by simp
    next
      case (snoc ys z)
      then have "lg = before @ y # ys" using eq by simp
      then show ?thesis using l unfolding log_ok_def by blast
    qed
  qed
next
  assume l: "log_ok delay stage es (lg @ [x])"
  then have "entry_ok delay stage es lg x" unfolding log_ok_def by blast
  moreover have "log_ok delay stage es lg" using l unfolding log_ok_def by (metis append_Cons append_assoc)
  ultimately show "log_ok delay stage es lg \<and> entry_ok delay stage es lg x" by blast
qed

lemma log_ok_later:
  assumes "log_ok delay stage es lg" "fst ` set lg \<subseteq> fst ` set es" "\<forall>t\<in>fst ` set es. t < now"
  shows "log_ok delay stage (es @ [(now, ctx, act)]) lg"
  unfolding log_ok_def
proof (intro allI impI)
  fix before x rest
  assume eq: "lg = before @ x # rest"
  obtain t a where x: "x = (t, a)" by fastforce
  have "fst x \<in> fst ` set lg" unfolding eq by simp
  then have "t \<in> fst ` set es" using assms(2) x by auto
  then have "t < now" using assms(3) by blast
  then show "entry_ok delay stage (es @ [(now, ctx, act)]) before x"
    using assms(1) eq unfolding log_ok_def entry_ok_def x by (cases a) fastforce+
qed

lemma stage_invI:
  assumes "log_ok delay stage es lg" "fst ` set lg \<subseteq> fst ` set es"
    "is_shed st \<longleftrightarrow> lg \<noteq> [] \<and> snd (last lg) = Shed" "is_shed st \<Longrightarrow> fst (last lg) = shed_at st"
    "\<And>r. restore_requested_at st = Some r \<Longrightarrow> is_shed st \<and> shed_at st + sh_min_hold stage \<le> r
          \<and> (\<forall>now ctx act. (now, ctx, act) \<in> set es \<longrightarrow> r \<le> now \<longrightarrow> cond_val (should_restore (sh_condition stage) ctx))"
  shows "stage_inv delay stage es lg st"
  using assms unfolding stage_inv_def by blast

lemma stage_inv_step:
  assumes inv: "stage_inv delay stage es lg st" and later: "\<forall>t\<in>fst ` set es. t < now"
    and tick: "stage_tick delay stage (now, ctx, act) (lg, st) = (lg', st')"
  shows "stage_inv delay stage (es @ [(now, ctx, act)]) lg' st'"
proof -
  let ?es = "es @ [(now, ctx, act)]" and ?rs = "cond_val (should_restore (sh_condition stage) ctx)"
    and ?sh = "cond_val (should_shed (sh_condition stage) ctx)"
  have i: "log_ok delay stage es lg" "fst ` set lg \<subseteq> fst ` set es" using inv unfolding stage_inv_def by blast+
  then have old: "log_ok delay stage ?es lg" "fst ` set lg \<subseteq> fst ` set ?es" using later by (rule log_ok_later) (use i(2) in auto)
  have st: "is_shed st \<longleftrightarrow> lg \<noteq> [] \<and> snd (last lg) = Shed" "is_shed st \<Longrightarrow> fst (last lg) = shed_at st"
    and req: "\<And>r. restore_requested_at st = Some r \<Longrightarrow> is_shed st \<and> shed_at st + sh_min_hold stage \<le> r
          \<and> (\<forall>now ctx act. (now, ctx, act) \<in> set es \<longrightarrow> r \<le> now \<longrightarrow> cond_val (should_restore (sh_condition stage) ctx))"
    using inv unfolding stage_inv_def by blast+
  note defs = stage_tick_def stage_eval_def stage_shed_def stage_restore_def
  consider (idle) "\<not> is_shed st" "\<not> ?sh" | (shed) "\<not> is_shed st" "?sh" | (hold) "is_shed st" by blast
  then show ?thesis
  proof cases
    case idle
    then have "lg' = lg" "st' = st" using tick by (simp_all add: defs)
    moreover have "restore_requested_at st = None" using req idle(1) by (cases "restore_requested_at st") auto
    ultimately show ?thesis using old st idle(1) by (intro stage_invI) simp_all
  next
    case shed
    then have lg': "lg' = lg @ [(now, Shed)]" and st': "is_shed st'" "shed_at st' = now"
      "restore_requested_at st' = (if ?rs \<and> sh_min_hold stage \<le> 0 then Some now else None)"
      using tick by (auto simp: defs split: if_splits)
    have "lg = [] \<or> snd (last lg) = Restore" using shed(1) st(1) by (metis shed_action.exhaust)
    then have "log_ok delay stage ?es lg'" using old(1) by (simp add: lg' log_ok_snoc entry_ok_def)
    then show ?thesis
      using old(2) st' later by (intro stage_invI) (force simp: lg' split: if_splits)+
  next
    case hold
    show ?thesis
    proof (cases ?rs)
      case False
      then have "lg' = lg" "st' = st\<lparr>restore_requested_at := None\<rparr>" using tick hold by (simp_all add: defs)
      then show ?thesis using old st hold by (intro stage_invI) simp_all
    next
      case True
      show ?thesis
      proof (cases "now - shed_at st < sh_min_hold stage")
        case early: True
        then have "lg' = lg" "st' = st" using tick hold True by (simp_all add: defs)
        then show ?thesis using old st hold req True by (intro stage_invI) auto
      next
        case late: False
        show ?thesis
        proof (cases "restore_requested_at st")
          case None
          then have eq: "lg' = lg" "st' = st\<lparr>restore_requested_at := Some now\<rparr>" using tick hold True late by (simp_all add: defs)
          have "\<forall>n c a. (n, c, a) \<in> set ?es \<longrightarrow> now \<le> n \<longrightarrow> cond_val (should_restore (sh_condition stage) c)"
            using later True by fastforce
          then show ?thesis using old st hold late by (intro stage_invI) (simp_all add: eq algebra_simps)
        next
          case (Some r)
          show ?thesis
          proof (cases "delay \<le> Fin (now - r)")
            case False
            then have "lg' = lg" "st' = st" using tick hold True late Some by (simp_all add: defs)
            then show ?thesis using old st hold req True by (intro stage_invI) auto
          next
            case due: True
            then have eq: "lg' = lg @ [(now, Restore)]" "st' = st\<lparr>is_shed := False, restore_requested_at := None\<rparr>"
              using tick hold True late Some by (simp_all add: defs)
            have "entry_ok delay stage ?es lg (now, Restore)"
              unfolding entry_ok_def using st hold req [OF Some] due True by auto
            then show ?thesis using old by (intro stage_invI) (simp_all add: eq log_ok_snoc)
          qed
        qed
      qed
    qed
  qed
qed

lemma stage_run_inv:
  "sorted_wrt (<) (map fst es) \<Longrightarrow> stage_inv delay stage es (fst (stage_run delay stage es)) (snd (stage_run delay stage es))"
proof (induction es rule: rev_induct)
  case Nil
  then show ?case by (simp add: stage_run_def stage_inv_def log_ok_def stage_state_init_def)
next
  case (snoc e es)
  obtain now ctx act where e: "e = (now, ctx, act)" by (cases e) auto
  obtain lg st where r: "stage_run delay stage es = (lg, st)" by fastforce
  obtain lg' st' where t: "stage_tick delay stage e (lg, st) = (lg', st')" by fastforce
  have "stage_inv delay stage es lg st" using snoc r by (simp add: sorted_wrt_append)
  moreover have "\<forall>t\<in>fst ` set es. t < now" using snoc.prems e by (auto simp: sorted_wrt_append)
  ultimately show ?case using t by (simp add: stage_run_snoc r e stage_inv_step)
qed


section \<open>The strategy runs its stages side by side\<close>

definition acts_of :: "string \<Rightarrow> (string \<times> shed_action) list \<Rightarrow> shed_action list" where
  "acts_of n xs = map snd (filter (\<lambda>x. fst x = n) xs)"

lemma acts_of_Nil [simp]: "acts_of n [] = []"
  by (simp add: acts_of_def)

lemma acts_of_append [simp]: "acts_of n (xs @ ys) = acts_of n xs @ acts_of n ys"
  by (simp add: acts_of_def)

lemma acts_of_pair [simp]: "acts_of n (map (Pair m) as) = (if n = m then as else [])"
  by (induction as) (auto simp: acts_of_def)

definition same_setup :: "load_shedding \<Rightarrow> load_shedding \<Rightarrow> bool" where
  "same_setup ls ls' \<longleftrightarrow> ls_stages ls' = ls_stages ls \<and> ls_sorted ls' = ls_sorted ls \<and> ls_resolver ls' = ls_resolver ls
     \<and> ls_enabled_key ls' = ls_enabled_key ls"

text \<open>What a loop over the stages \<open>xs\<close> does, when the body acts on each stage by \<open>g\<close>.\<close>

definition stages_did :: "(shed_stage \<Rightarrow> stage_state \<Rightarrow> stage_state \<times> shed_action list) \<Rightarrow> shed_stage list
    \<Rightarrow> load_shedding \<Rightarrow> load_shedding \<Rightarrow> bool" where
  "stages_did g xs ls ls' \<longleftrightarrow> same_setup ls ls'
     \<and> (\<forall>x\<in>set xs. stage_of ls' (sh_name x) = fst (g x (stage_of ls (sh_name x))))
     \<and> (\<forall>n. n \<notin> sh_name ` set xs \<longrightarrow> stage_of ls' n = stage_of ls n)
     \<and> (\<exists>new. ls_pending ls' = ls_pending ls @ new
          \<and> (\<forall>x\<in>set xs. acts_of (sh_name x) new = snd (g x (stage_of ls (sh_name x)))))"

lemma stage_of_put [simp]: "stage_of (put_stage m st as ls) n = (if n = m then st else stage_of ls n)"
  by (simp add: stage_of_def put_stage_def)

lemma put_stage_simps [simp]:
  "ls_pending (put_stage m st as ls) = ls_pending ls @ map (Pair m) as" "same_setup ls (put_stage m st as ls)"
  by (simp_all add: put_stage_def same_setup_def)

lemma each_stage_did:
  assumes "\<And>x ls. x \<in> set xs \<Longrightarrow> f x ls =
      (put_stage (sh_name x) (fst (g x (stage_of ls (sh_name x)))) (snd (g x (stage_of ls (sh_name x)))) ls, Inr ())"
    "distinct (map sh_name xs)"
  shows "\<exists>ls'. each_stage f xs ls = (ls', Inr ()) \<and> stages_did g xs ls ls'
     \<and> (\<exists>new. ls_pending ls' = ls_pending ls @ new \<and> (\<forall>n. n \<notin> sh_name ` set xs \<longrightarrow> acts_of n new = []))"
  using assms
proof (induction xs arbitrary: ls)
  case Nil
  then show ?case by (auto simp: stages_did_def same_setup_def)
next
  case (Cons x xs)
  define ls1 where "ls1 = put_stage (sh_name x) (fst (g x (stage_of ls (sh_name x)))) (snd (g x (stage_of ls (sh_name x)))) ls"
  have fx: "f x ls = (ls1, Inr ())" using Cons.prems(1) [of x ls] by (simp add: ls1_def)
  have x: "sh_name x \<notin> sh_name ` set xs" using Cons.prems(2) by simp
  obtain ls' new where ls': "each_stage f xs ls1 = (ls', Inr ())" "stages_did g xs ls1 ls'"
    and new: "ls_pending ls' = ls_pending ls1 @ new" "\<And>n. n \<notin> sh_name ` set xs \<Longrightarrow> acts_of n new = []"
    using Cons.IH [of ls1] Cons.prems by auto
  have acts: "\<forall>y\<in>set xs. acts_of (sh_name y) new = snd (g y (stage_of ls1 (sh_name y)))"
    using ls'(2) new(1) unfolding stages_did_def by auto
  let ?new = "map (Pair (sh_name x)) (snd (g x (stage_of ls (sh_name x)))) @ new"
  have pend: "ls_pending ls' = ls_pending ls @ ?new" using new(1) by (simp add: ls1_def)
  have "sh_name y \<noteq> sh_name x" if "y \<in> set xs" for y using that x by (metis image_eqI)
  then have names: "\<And>y. y \<in> set xs \<Longrightarrow> (sh_name y = sh_name x) = False" by simp
  have did: "same_setup ls1 ls'" "\<forall>y\<in>set xs. stage_of ls' (sh_name y) = fst (g y (stage_of ls1 (sh_name y)))"
    "\<forall>n. n \<notin> sh_name ` set xs \<longrightarrow> stage_of ls' n = stage_of ls1 n"
    using ls'(2) unfolding stages_did_def by blast+
  have "same_setup ls ls1" by (simp add: ls1_def)
  then have "same_setup ls ls'" using did(1) by (simp add: same_setup_def)
  moreover have "\<forall>y\<in>set (x # xs). stage_of ls' (sh_name y) = fst (g y (stage_of ls (sh_name y)))"
    using did(2,3) x names by (simp add: ls1_def)
  moreover have "\<forall>n. n \<notin> sh_name ` set (x # xs) \<longrightarrow> stage_of ls' n = stage_of ls n"
    using did(3) by (simp add: ls1_def)
  moreover have "\<forall>y\<in>set (x # xs). acts_of (sh_name y) ?new = snd (g y (stage_of ls (sh_name y)))"
    using acts new(2) [OF x] names by (simp add: ls1_def)
  ultimately have "stages_did g (x # xs) ls ls'" unfolding stages_did_def using pend by blast
  moreover have "\<forall>n. n \<notin> sh_name ` set (x # xs) \<longrightarrow> acts_of n ?new = []" using new(2) by auto
  ultimately show ?case using ls'(1) fx pend by auto
qed

definition conds_ok :: "strategy_context \<Rightarrow> shed_stage list \<Rightarrow> bool" where
  "conds_ok ctx xs = list_all (\<lambda>x. is_ok (should_shed (sh_condition x) ctx) \<and> is_ok (should_restore (sh_condition x) ctx)) xs"

lemma shed_step_put:
  assumes "is_ok (should_shed (sh_condition x) ctx)"
  shows "shed_step now ctx x ls = (put_stage (sh_name x)
      (fst (stage_shed now (cond_val (should_shed (sh_condition x) ctx)) (stage_of ls (sh_name x))))
      (snd (stage_shed now (cond_val (should_shed (sh_condition x) ctx)) (stage_of ls (sh_name x)))) ls, Inr ())"
proof -
  obtain b where "should_shed (sh_condition x) ctx = Inr b" using assms by (cases "should_shed (sh_condition x) ctx") auto
  then show ?thesis by (simp add: shed_step_def Let_def stage_shed_def cond_val_def)
qed

lemma restore_step_put:
  assumes "is_ok (should_restore (sh_condition x) ctx)"
  shows "restore_step delay now ctx x ls = (put_stage (sh_name x)
      (fst (stage_restore (sh_min_hold x) delay now (cond_val (should_restore (sh_condition x) ctx)) (stage_of ls (sh_name x))))
      (snd (stage_restore (sh_min_hold x) delay now (cond_val (should_restore (sh_condition x) ctx)) (stage_of ls (sh_name x)))) ls, Inr ())"
proof -
  obtain b where "should_restore (sh_condition x) ctx = Inr b" using assms by (cases "should_restore (sh_condition x) ctx") auto
  then show ?thesis by (simp add: restore_step_def Let_def stage_restore_def cond_val_def split_beta')
qed


lemma execute_did:
  assumes "\<not> runtime_disabled store (ls_resolver ls) (ls_enabled_key ls)"
    "resolve_float store (ls_resolver ls) ''restore_delay'' = Inr delay"
    "distinct (map sh_name (ls_sorted ls))" "conds_ok ctx (ls_sorted ls)"
  shows "snd (shedding_execute store now ctx ls) = Inr (last_command ctx)
     \<and> stages_did (\<lambda>x. stage_eval delay x now ctx) (ls_sorted ls) ls (fst (shedding_execute store now ctx ls))"
proof -
  let ?g = "\<lambda>x. stage_shed now (cond_val (should_shed (sh_condition x) ctx))"
    and ?h = "\<lambda>x. stage_restore (sh_min_hold x) delay now (cond_val (should_restore (sh_condition x) ctx))"
  have ok: "is_ok (should_shed (sh_condition x) ctx)" "is_ok (should_restore (sh_condition x) ctx)" if "x \<in> set (ls_sorted ls)" for x
    using that assms(4) by (simp_all add: conds_ok_def list_all_iff)
  obtain ls1 where 1: "each_stage (shed_step now ctx) (ls_sorted ls) ls = (ls1, Inr ())" "stages_did ?g (ls_sorted ls) ls ls1"
    using each_stage_did [of "ls_sorted ls" "shed_step now ctx" ?g ls] shed_step_put ok assms(3) by blast
  have sorted: "ls_sorted ls1 = ls_sorted ls" using 1(2) by (simp add: stages_did_def same_setup_def)
  obtain ls2 where 2: "each_stage (restore_step delay now ctx) (rev (ls_sorted ls)) ls1 = (ls2, Inr ())"
      "stages_did ?h (rev (ls_sorted ls)) ls1 ls2"
    using each_stage_did [of "rev (ls_sorted ls)" "restore_step delay now ctx" ?h ls1] restore_step_put ok assms(3)
    by (auto simp: rev_map [symmetric])
  obtain new1 new2 where n: "ls_pending ls1 = ls_pending ls @ new1" "ls_pending ls2 = ls_pending ls1 @ new2"
    "\<forall>x\<in>set (ls_sorted ls). acts_of (sh_name x) new1 = snd (?g x (stage_of ls (sh_name x)))"
    "\<forall>x\<in>set (ls_sorted ls). acts_of (sh_name x) new2 = snd (?h x (stage_of ls1 (sh_name x)))"
    using 1(2) 2(2) unfolding stages_did_def by auto
  have did: "stages_did (\<lambda>x. stage_eval delay x now ctx) (ls_sorted ls) ls ls2"
    unfolding stages_did_def
  proof (intro conjI exI [of _ "new1 @ new2"])
    show "same_setup ls ls2" using 1(2) 2(2) by (simp add: stages_did_def same_setup_def)
  qed (use 1(2) 2(2) n in \<open>auto simp: stages_did_def stage_eval_def split_beta' Let_def\<close>)
  have e: "shedding_execute store now ctx ls = (if ls_pending ls2 \<noteq> [] then ls2\<lparr>ls_event := True\<rparr> else ls2, Inr (last_command ctx))"
    using assms(1,2) 1(1) 2(1) by (simp add: shedding_execute_def sorted)
  have ev: "stages_did g xs l (ls2\<lparr>ls_event := True\<rparr>) = stages_did g xs l ls2" for g xs l
    by (simp add: stages_did_def same_setup_def stage_of_def)
  show ?thesis using did by (simp add: e ev)
qed

text \<open>The entries of one stage.\<close>

definition log_of :: "string \<Rightarrow> (rat \<times> string \<times> shed_action) list \<Rightarrow> (rat \<times> shed_action) list" where
  "log_of n lg = map (\<lambda>(t, m, a). (t, a)) (filter (\<lambda>(t, m, a). m = n) lg)"

lemma log_of_append [simp]: "log_of n (xs @ ys) = log_of n xs @ log_of n ys"
  by (simp add: log_of_def)

lemma log_of_new [simp]: "log_of n (map (Pair t) xs) = map (Pair t) (acts_of n xs)"
  by (induction xs) (auto simp: log_of_def acts_of_def)

definition shedding_ready :: "params_store \<Rightarrow> flt \<Rightarrow> shed_stage list \<Rightarrow> shed_tick list \<Rightarrow> load_shedding \<Rightarrow> bool" where
  "shedding_ready store delay stages es ls \<longleftrightarrow>
     \<not> runtime_disabled store (ls_resolver ls) (ls_enabled_key ls)
     \<and> resolve_float store (ls_resolver ls) ''restore_delay'' = Inr delay
     \<and> distinct (map sh_name stages) \<and> ls_sorted ls = sort_key sh_priority stages
     \<and> (\<forall>(now, ctx, act)\<in>set es. conds_ok ctx stages)"


lemma shedding_run_snoc: "shedding_run store (es @ [e]) ls = shedding_tick store e (shedding_run store es ls)"
  by (simp add: shedding_run_def)

lemma shedding_run_stages:
  assumes "shedding_ready store delay stages es ls" "\<forall>x\<in>set stages. stage_of ls (sh_name x) = stage_state_init"
  shows "same_setup ls (snd (shedding_run store es ls))
     \<and> (\<forall>x\<in>set stages. log_of (sh_name x) (fst (shedding_run store es ls)) = fst (stage_run delay x es)
          \<and> stage_of (snd (shedding_run store es ls)) (sh_name x) = snd (stage_run delay x es))"
  using assms(1)
proof (induction es rule: rev_induct)
  case Nil
  then show ?case using assms(2) by (simp add: shedding_run_def stage_run_def same_setup_def log_of_def)
next
  case (snoc e es)
  obtain now ctx act where e: "e = (now, ctx, act)" by (cases e) auto
  obtain lg l where r: "shedding_run store es ls = (lg, l)" by fastforce
  define l' where "l' = fst (shedding_execute store now ctx l)"
  have IH: "same_setup ls l" "\<forall>x\<in>set stages. log_of (sh_name x) lg = fst (stage_run delay x es)
      \<and> stage_of l (sh_name x) = snd (stage_run delay x es)"
    using snoc r by (simp_all add: shedding_ready_def)
  have set: "set (ls_sorted l) = set stages" "distinct (map sh_name (ls_sorted l))"
    using IH(1) snoc.prems by (simp_all add: same_setup_def shedding_ready_def distinct_map)
  have "stages_did (\<lambda>x. stage_eval delay x now ctx) (ls_sorted l) l l'"
    unfolding l'_def using snoc.prems IH(1) set
    by (intro conjunct2 [OF execute_did]) (simp_all add: same_setup_def shedding_ready_def e conds_ok_def list_all_iff)
  then obtain new where did: "same_setup l l'" "ls_pending l' = ls_pending l @ new"
      "\<forall>x\<in>set stages. stage_of l' (sh_name x) = fst (stage_eval delay x now ctx (stage_of l (sh_name x)))"
      "\<forall>x\<in>set stages. acts_of (sh_name x) new = snd (stage_eval delay x now ctx (stage_of l (sh_name x)))"
    unfolding stages_did_def set by blast
  have act: "same_setup l' (fst (action_round l'))" "stage_of (fst (action_round l')) n = stage_of l' n" for n
    by (simp_all add: action_round_def same_setup_def stage_of_def)
  have run: "shedding_run store (es @ [e]) ls = (lg @ map (Pair now) new, if act then fst (action_round l') else l')"
    using did(2) by (simp add: shedding_run_snoc r e shedding_tick_def l'_def [symmetric])
  have "same_setup ls (if act then fst (action_round l') else l')"
    using IH(1) did(1) act(1) by (auto simp: same_setup_def)
  then show ?case
    using IH(2) did(3,4) act(2) unfolding run by (simp add: stage_run_snoc e stage_tick_def split_beta' Let_def)
qed

lemma states_fresh: "dict_get_or (fold (\<lambda>st. dict_set (sh_name st) stage_state_init) stages d) n stage_state_init
    = (if n \<in> sh_name ` set stages then stage_state_init else dict_get_or d n stage_state_init)"
  by (induction stages arbitrary: d) auto

text \<open>
  C18. Shedding and restoring, over any run with increasing times, any pace of the background task
  and conditions that do not raise: the decisions for a stage alternate, starting with a shedding, and a stage
  is restored only if it was shed at least \<open>min_hold_seconds\<close> before some moment since which, for at least the
  restore delay, every evaluation saw its restore condition hold.
\<close>

theorem restored_only_when_stable:
  assumes "shedding_ready store delay stages es (load_shedding_init stages r key)" "sorted_wrt (<) (map fst es)"
    "x \<in> set stages"
    "log_of (sh_name x) (fst (shedding_run store es (load_shedding_init stages r key))) = before @ (t, a) # rest"
  shows "if a = Shed then before = [] \<or> snd (last before) = Restore
    else before \<noteq> [] \<and> snd (last before) = Shed
      \<and> (\<exists>u. fst (last before) + sh_min_hold x \<le> u \<and> delay \<le> Fin (t - u)
           \<and> (\<forall>now ctx act. (now, ctx, act) \<in> set es \<longrightarrow> u \<le> now \<longrightarrow> now \<le> t \<longrightarrow> should_restore (sh_condition x) ctx = Inr True))"
proof -
  have "\<forall>x\<in>set stages. stage_of (load_shedding_init stages r key) (sh_name x) = stage_state_init"
    by (simp add: stage_of_def load_shedding_init_def states_fresh)
  then have "fst (stage_run delay x es) = before @ (t, a) # rest"
    using shedding_run_stages [OF assms(1)] assms(3,4) by simp
  then have "entry_ok delay x es before (t, a)"
    using stage_run_inv [OF assms(2), of delay x] unfolding stage_inv_def log_ok_def by blast
  moreover have "should_restore c ctx = Inr True" if "cond_val (should_restore c ctx)" for c ctx
    using that by (cases "should_restore c ctx") (simp_all add: cond_val_def)
  ultimately show ?thesis by (cases a; simp add: entry_ok_def) fastforce
qed


definition demo_stage :: shed_stage where
  "demo_stage = \<lparr>sh_name = ''lights'', sh_circuits = [7, 8], sh_condition = ThresholdShed ''soc'' 20 30,
     sh_priority = 1, sh_min_hold = 30\<rparr>"

definition demo_shedding :: load_shedding where
  "demo_shedding = load_shedding_init [demo_stage]
     (plain_resolver [(''restore_delay'', PyFloat 60), (''auto_restore_on_deactivate'', PyBool True)]) None"

definition demo_ticks :: "shed_tick list" where
  "demo_ticks = [(1, demo_reading ''soc'' 10, True), (40, demo_reading ''soc'' 50, False), (100, demo_reading ''soc'' 50, False)]"

theorem restored_only_when_stable_witness:
  "fst (shedding_run (\<lambda>_. params_init []) demo_ticks demo_shedding) = [(1, ''lights'', Shed), (100, ''lights'', Restore)]
   \<and> (\<exists>u. 1 + 30 \<le> u \<and> (60 :: flt) \<le> Fin (100 - u))"
proof -
  have ready: "shedding_ready (\<lambda>_. params_init []) 60 [demo_stage] demo_ticks demo_shedding"
    by (simp add: shedding_ready_def demo_shedding_def load_shedding_init_def runtime_disabled_def resolve_plain plain_resolver_def
      demo_ticks_def conds_ok_def demo_stage_def compare_extra_def demo_reading_get num_of_def)
  have lg: "fst (shedding_run (\<lambda>_. params_init []) demo_ticks demo_shedding) = [(1, ''lights'', Shed), (100, ''lights'', Restore)]"
    by code_simp
  have sorted: "sorted_wrt (<) (map fst demo_ticks)" by (simp add: demo_ticks_def)
  have entry: "log_of (sh_name demo_stage) (fst (shedding_run (\<lambda>_. params_init []) demo_ticks demo_shedding))
      = [(1, Shed)] @ (100, Restore) # []"
    unfolding lg by (simp add: log_of_def demo_stage_def)
  have "\<exists>u. fst (last [(1, Shed)]) + sh_min_hold demo_stage \<le> u \<and> (60 :: flt) \<le> Fin (100 - u)"
    using restored_only_when_stable [OF ready [unfolded demo_shedding_def] sorted _ entry [unfolded demo_shedding_def]] by auto
  then show ?thesis using lg by (simp add: demo_stage_def)
qed

text \<open>
  A restoration that is decided but not yet carried out is lost when the strategy is deactivated: the
  stage no longer counts as shed, so its circuits are not restored, and the decision is discarded.
\<close>

lemma pending_restore_lost:
  "ls_pending (snd (shedding_run (\<lambda>_. params_init []) demo_ticks demo_shedding)) = [(''lights'', Restore)]
   \<and> snd (shedding_deactivate (\<lambda>_. params_init []) (\<lambda>_. True) (snd (shedding_run (\<lambda>_. params_init []) demo_ticks demo_shedding))) = Inr []
   \<and> ls_pending (fst (shedding_deactivate (\<lambda>_. params_init []) (\<lambda>_. True)
        (snd (shedding_run (\<lambda>_. params_init []) demo_ticks demo_shedding)))) = []"
  by code_simp

end
