(* ===== verification/Can_Frames.thy ===== *)
theory Can_Frames
  imports Csp_Prelude
begin

text \<open>
  CAN frames: \<open>equipment/processing/can_parser.py\<close> takes bit fields out of the 8 bytes of a frame,
  \<open>can_encoder.py\<close> keeps one 64-bit buffer per sending CAN id and writes bit fields into it. Python
  integers are unbounded; a byte is an \<open>8 word\<close>. The lock of the buffer is left out.
\<close>

unbundle bit_operations_syntax

section \<open>Integers and bytes\<close>

definition to_bytes_le :: "int \<Rightarrow> 8 word list res" where
  "to_bytes_le v = (if v < 0 \<or> v \<ge> 2 ^ 64 then Inl OverflowError
     else Inr (map (\<lambda>i. word_of_int (drop_bit (8 * i) v)) [0..<8]))"

definition from_bytes_le :: "8 word list \<Rightarrow> int" where
  "from_bytes_le bs = foldr (\<lambda>b n. uint b + 256 * n) bs 0"

section \<open>Fields\<close>

record can_field =
  cf_name :: string
  cf_start_bit :: nat
  cf_bit_length :: nat
  cf_resolution :: flt
  cf_offset :: flt
  cf_decimals :: "int option"
  cf_as_int :: bool

definition can_field_valid :: "can_field \<Rightarrow> unit res" where
  "can_field_valid f = (if feq (cf_resolution f) 0 then Inl ValueError else Inr ())"

definition field_mask :: "can_field \<Rightarrow> int" where
  "field_mask f = push_bit (cf_bit_length f) 1 - 1"

text \<open>\<open>round(x, n)\<close> of a float and \<open>int(x)\<close>.\<close>

definition round_to :: "int \<Rightarrow> rat \<Rightarrow> rat" where
  "round_to n x = (if n \<ge> 0 then of_int (round_half_even (x * 10 ^ nat n)) / 10 ^ nat n
     else of_int (round_half_even (x / 10 ^ nat (- n))) * 10 ^ nat (- n))"

definition py_round_to :: "flt \<Rightarrow> int \<Rightarrow> flt" where
  "py_round_to x n = (case x of Fin q \<Rightarrow> Fin (round_to n q) | _ \<Rightarrow> x)"

definition raw_field :: "int \<Rightarrow> can_field \<Rightarrow> int" where
  "raw_field v f = drop_bit (cf_start_bit f) v AND field_mask f"

definition extract_field :: "8 word list \<Rightarrow> can_field \<Rightarrow> pyval res" where
  "extract_field bs f =
     (let raw = raw_field (from_bytes_le bs) f;
          p = Fin (of_int raw) * cf_resolution f + cf_offset f;
          p = (case cf_decimals f of None \<Rightarrow> p | Some n \<Rightarrow> py_round_to p n)
      in if cf_as_int f then rbind (py_int (PyFloat p)) (\<lambda>i. Inr (PyInt i)) else Inr (PyFloat p))"

section \<open>The parser\<close>

record can_parser =
  cp_source_name :: string
  cp_fields :: "can_field list"
  cp_remove_source :: bool
  cp_little_endian :: bool

definition parser_bytes :: "can_parser \<Rightarrow> pyval \<Rightarrow> 8 word list res" where
  "parser_bytes p raw =
     (if \<not> is_int_val raw then Inl AttributeError
      else rbind (to_bytes_le (int_val raw)) (\<lambda>bs. Inr (if cp_little_endian p then bs else rev bs)))"

fun extract_fields :: "8 word list \<Rightarrow> can_field list \<Rightarrow> (string \<times> pyval) list \<Rightarrow> (string \<times> pyval) list res" where
  "extract_fields bs [] result = Inr result"
| "extract_fields bs (f # fs) result = rbind (extract_field bs f) (\<lambda>v. extract_fields bs fs (dict_set (cf_name f) v result))"

definition parser_process :: "can_parser \<Rightarrow> (string \<times> pyval) list \<Rightarrow> (string \<times> pyval) list res" where
  "parser_process p vals =
     (let raw = dict_get_or vals (cp_source_name p) PyNone in
      rbind (if raw \<noteq> PyNone then rbind (parser_bytes p raw) (\<lambda>bs. extract_fields bs (cp_fields p) vals)
             else Inr (fold (\<lambda>f. dict_set (cf_name f) PyNone) (cp_fields p) vals))
        (\<lambda>result. Inr (if cp_remove_source p then dict_del (cp_source_name p) result else result)))"

section \<open>The encoder\<close>

record can_signal =
  cs_can_id :: int
  cs_field :: can_field
  cs_min_raw :: "int option"
  cs_max_raw :: "int option"

definition raw_limits :: "can_signal \<Rightarrow> int \<times> int" where
  "raw_limits s = (case cs_min_raw s of None \<Rightarrow> 0 | Some m \<Rightarrow> m,
     case cs_max_raw s of None \<Rightarrow> field_mask (cs_field s) | Some m \<Rightarrow> min (field_mask (cs_field s)) m)"

definition encode_physical :: "can_signal \<Rightarrow> flt \<Rightarrow> int res" where
  "encode_physical s x =
     rbind (fdiv (x - cf_offset (cs_field s)) (cf_resolution (cs_field s))) (\<lambda>q.
     rbind (case q of Fin r \<Rightarrow> Inr (round_half_even r) | NaN \<Rightarrow> Inl ValueError | _ \<Rightarrow> Inl OverflowError) (\<lambda>raw.
       Inr (max (fst (raw_limits s)) (min (snd (raw_limits s)) raw))))"

definition pack_field :: "int \<Rightarrow> can_signal \<Rightarrow> int \<Rightarrow> int" where
  "pack_field buf s raw =
     (let f = cs_field s; m = field_mask f
      in (buf AND (NOT (push_bit (cf_start_bit f) m) AND 0xFFFFFFFFFFFFFFFF)) OR push_bit (cf_start_bit f) (raw AND m))"

record frame_buffer =
  fb_signals :: "(string \<times> can_signal) list"
  fb_buffers :: "(int \<times> int) list"

text \<open>\<open>data[:8].ljust(8, b"\\x00")\<close>.\<close>

definition initial_buffer :: "8 word list \<Rightarrow> int" where
  "initial_buffer data = from_bytes_le (take 8 data @ replicate (8 - length (take 8 data)) 0)"

definition frame_buffer_init :: "(int \<times> 8 word list) list \<Rightarrow> can_signal list \<Rightarrow> frame_buffer" where
  "frame_buffer_init configs signals =
     \<lparr>fb_signals = fold (\<lambda>s. dict_set (cf_name (cs_field s)) s) signals [],
      fb_buffers = fold (\<lambda>(i, data). dict_set i (initial_buffer data)) configs []\<rparr>"

definition write_raw :: "can_signal \<Rightarrow> int \<Rightarrow> frame_buffer \<Rightarrow> frame_buffer res" where
  "write_raw s raw fb =
     (case dict_get (fb_buffers fb) (cs_can_id s) of None \<Rightarrow> Inl KeyError
      | Some buf \<Rightarrow> Inr (fb\<lparr>fb_buffers := dict_set (cs_can_id s) (pack_field buf s raw) (fb_buffers fb)\<rparr>))"

definition get_signal :: "frame_buffer \<Rightarrow> string \<Rightarrow> can_signal res" where
  "get_signal fb name = (case dict_get (fb_signals fb) name of None \<Rightarrow> Inl KeyError | Some s \<Rightarrow> Inr s)"

definition set_raw :: "string \<Rightarrow> int \<Rightarrow> frame_buffer \<Rightarrow> frame_buffer res" where
  "set_raw name raw fb = rbind (get_signal fb name) (\<lambda>s. write_raw s raw fb)"

definition set_signal :: "string \<Rightarrow> flt \<Rightarrow> frame_buffer \<Rightarrow> frame_buffer res" where
  "set_signal name x fb = rbind (get_signal fb name) (\<lambda>s. rbind (encode_physical s x) (\<lambda>raw. write_raw s raw fb))"

definition get_frame :: "frame_buffer \<Rightarrow> int \<Rightarrow> 8 word list res" where
  "get_frame fb can_id = (case dict_get (fb_buffers fb) can_id of None \<Rightarrow> Inl KeyError | Some buf \<Rightarrow> to_bytes_le buf)"

section \<open>Bits\<close>

lemma field_mask_bits: "field_mask f = mask (cf_bit_length f)"
  by (simp add: field_mask_def mask_eq_exp_minus_1 push_bit_eq_mult)

lemma bit_word64: "bit (0xFFFFFFFFFFFFFFFF :: int) n \<longleftrightarrow> n < 64"
proof -
  have eq: "(0xFFFFFFFFFFFFFFFF :: int) = mask 64" by (simp add: mask_eq_exp_minus_1)
  show ?thesis unfolding eq by (simp only: bit_mask_iff) simp
qed

lemma bit_pack_field:
  "bit (pack_field buf s raw) n \<longleftrightarrow>
     (if cf_start_bit (cs_field s) \<le> n \<and> n < cf_start_bit (cs_field s) + cf_bit_length (cs_field s)
      then bit raw (n - cf_start_bit (cs_field s)) else bit buf n \<and> n < 64)"
  by (auto simp: pack_field_def Let_def field_mask_bits bit_or_iff bit_and_iff bit_not_iff bit_push_bit_iff bit_mask_iff bit_word64)

lemma raw_field_bits: "raw_field v f = take_bit (cf_bit_length f) (drop_bit (cf_start_bit f) v)"
  by (simp add: raw_field_def field_mask_bits take_bit_eq_mask)

lemma int_of_nth_byte: "bit (word_of_int (drop_bit k v) :: 8 word) n \<longleftrightarrow> n < 8 \<and> bit v (k + n)"
  by (simp add: bit_simps)

lemma from_bytes_le_Cons: "from_bytes_le (b # bs) = uint b + 256 * from_bytes_le bs"
  by (simp add: from_bytes_le_def)

lemma bytes_split: "uint (word_of_int (v :: int) :: 8 word) + 256 * drop_bit 8 v = v"
proof -
  have "uint (word_of_int v :: 8 word) = v mod 256" by (simp add: uint_word_of_int)
  moreover have "drop_bit 8 v = v div 256" by (simp add: drop_bit_eq_div)
  ultimately show ?thesis by simp
qed

lemma from_bytes_digits: "0 \<le> v \<Longrightarrow> v < 2 ^ (8 * k) \<Longrightarrow>
    from_bytes_le (map (\<lambda>i. word_of_int (drop_bit (8 * i) v)) [0..<k]) = v"
proof (induction k arbitrary: v)
  case 0
  then show ?case by (simp add: from_bytes_le_def)
next
  case (Suc k)
  have "v div 256 * 256 \<le> v" by simp
  moreover have "v < 2 ^ (8 * k) * 256" using Suc.prems(2) by (simp add: power_add mult.commute)
  ultimately have "v div 256 < 2 ^ (8 * k)" by linarith
  then have d: "0 \<le> drop_bit 8 v" "drop_bit 8 v < 2 ^ (8 * k)" using Suc.prems(1) by (simp_all add: drop_bit_eq_div)
  have "map (\<lambda>i. word_of_int (drop_bit (8 * i) v) :: 8 word) [0..<Suc k]
      = word_of_int v # map (\<lambda>i. word_of_int (drop_bit (8 * i) (drop_bit 8 v))) [0..<k]"
    by (simp add: upt_conv_Cons map_Suc_upt [symmetric] add.commute del: upt_Suc)
  then show ?case by (simp only: from_bytes_le_Cons Suc.IH [OF d] bytes_split)
qed

lemma from_to_bytes: "to_bytes_le v = Inr bs \<Longrightarrow> from_bytes_le bs = v"
  using from_bytes_digits [of v 8] by (auto simp: to_bytes_le_def split: if_splits)

lemma to_bytes_total: "0 \<le> v \<Longrightarrow> v < 2 ^ 64 \<Longrightarrow> \<exists>bs. to_bytes_le v = Inr bs \<and> length bs = 8"
  by (simp add: to_bytes_le_def)


lemma to_bytes_length: "to_bytes_le v = Inr bs \<Longrightarrow> length bs = 8"
  by (auto simp: to_bytes_le_def split: if_splits)

definition word64 :: "int \<Rightarrow> bool" where
  "word64 v \<longleftrightarrow> 0 \<le> v \<and> v < 2 ^ 64"

lemma word64_take_bit: "word64 v \<longleftrightarrow> take_bit 64 v = v"
  unfolding word64_def by (simp only: take_bit_int_eq_self_iff)

lemma word64_bits: "word64 v \<longleftrightarrow> (\<forall>n. bit v n \<longrightarrow> n < 64)"
proof
  assume "word64 v"
  then have "bit v n = bit (take_bit 64 v) n" for n by (simp only: word64_take_bit)
  then show "\<forall>n. bit v n \<longrightarrow> n < 64" unfolding bit_take_bit_iff by blast
next
  assume "\<forall>n. bit v n \<longrightarrow> n < 64"
  then have "take_bit 64 v = v" by (intro bit_eqI) (auto simp: bit_take_bit_iff)
  then show "word64 v" by (simp only: word64_take_bit)
qed

lemma pack_word64:
  assumes "word64 buf" "cf_start_bit (cs_field s) + cf_bit_length (cs_field s) \<le> 64"
  shows "word64 (pack_field buf s raw)"
  using assms(2) unfolding word64_bits bit_pack_field by auto

lemma pack_same: "raw_field (pack_field buf s raw) (cs_field s) = take_bit (cf_bit_length (cs_field s)) raw"
  unfolding raw_field_bits by (intro bit_eqI) (auto simp: bit_take_bit_iff bit_drop_bit_eq bit_pack_field)

definition apart :: "can_field \<Rightarrow> can_field \<Rightarrow> bool" where
  "apart f g = (cf_start_bit f + cf_bit_length f \<le> cf_start_bit g \<or> cf_start_bit g + cf_bit_length g \<le> cf_start_bit f)"

lemma pack_other:
  assumes "apart (cs_field s) f" "cf_start_bit f + cf_bit_length f \<le> 64"
  shows "raw_field (pack_field buf s raw) f = raw_field buf f"
  unfolding raw_field_bits
  using assms by (intro bit_eqI) (auto simp: bit_take_bit_iff bit_drop_bit_eq bit_pack_field apart_def)

lemma from_bytes_word: "0 \<le> from_bytes_le bs \<and> from_bytes_le bs < 256 ^ length bs"
proof (induction bs)
  case (Cons b bs)
  have "0 \<le> uint b" "uint b < 256" using uint_bounded [of b] by simp_all
  then show ?case using Cons by (simp add: from_bytes_le_Cons)
qed (simp add: from_bytes_le_def)

lemma initial_word64: "word64 (initial_buffer data)"
proof -
  have "length (take 8 data @ replicate (8 - length (take 8 data)) (0 :: 8 word)) = 8" by simp
  then show ?thesis
    unfolding initial_buffer_def word64_def
    using from_bytes_word [of "take 8 data @ replicate (8 - length (take 8 data)) 0"] by simp
qed

section \<open>Signals as independent registers\<close>

datatype can_op = SetSignal string flt | SetRaw string int

text \<open>A call that raises changes nothing.\<close>

definition can_step :: "can_op \<Rightarrow> frame_buffer \<Rightarrow> frame_buffer" where
  "can_step c fb = (case (case c of SetSignal n x \<Rightarrow> set_signal n x fb | SetRaw n r \<Rightarrow> set_raw n r fb) of
     Inl e \<Rightarrow> fb | Inr fb' \<Rightarrow> fb')"

text \<open>The reference: a signal holds the last raw value written to it.\<close>

definition register_step :: "can_signal \<Rightarrow> can_op \<Rightarrow> int \<Rightarrow> int" where
  "register_step s c v = (case c of
       SetRaw n r \<Rightarrow> if n = cf_name (cs_field s) then take_bit (cf_bit_length (cs_field s)) r else v
     | SetSignal n x \<Rightarrow> if n = cf_name (cs_field s)
         then (case encode_physical s x of Inl e \<Rightarrow> v | Inr r \<Rightarrow> take_bit (cf_bit_length (cs_field s)) r) else v)"

definition signals_ok :: "(int \<times> 8 word list) list \<Rightarrow> can_signal list \<Rightarrow> bool" where
  "signals_ok configs signals \<longleftrightarrow> distinct (map (\<lambda>s. cf_name (cs_field s)) signals)
     \<and> (\<forall>s\<in>set signals. cs_can_id s \<in> fst ` set configs \<and> cf_start_bit (cs_field s) + cf_bit_length (cs_field s) \<le> 64)
     \<and> (\<forall>s\<in>set signals. \<forall>t\<in>set signals. s = t \<or> cs_can_id s \<noteq> cs_can_id t \<or> apart (cs_field s) (cs_field t))"

definition names_known :: "can_signal list \<Rightarrow> (string \<times> can_signal) list \<Rightarrow> bool" where
  "names_known signals d \<longleftrightarrow> (\<forall>s\<in>set signals. dict_get d (cf_name (cs_field s)) = Some s)
     \<and> (\<forall>n s. dict_get d n = Some s \<longrightarrow> s \<in> set signals \<and> cf_name (cs_field s) = n)"

definition buffer_inv :: "can_signal list \<Rightarrow> (can_signal \<Rightarrow> int) \<Rightarrow> frame_buffer \<Rightarrow> bool" where
  "buffer_inv signals val fb \<longleftrightarrow> names_known signals (fb_signals fb)
     \<and> (\<forall>s\<in>set signals. \<exists>buf. dict_get (fb_buffers fb) (cs_can_id s) = Some buf \<and> word64 buf \<and> raw_field buf (cs_field s) = val s)"

lemma buffer_inv_write:
  assumes "buffer_inv signals val fb" "signals_ok configs signals" "s \<in> set signals"
  shows "\<exists>fb'. write_raw s r fb = Inr fb'
    \<and> buffer_inv signals (\<lambda>t. if t = s then take_bit (cf_bit_length (cs_field s)) r else val t) fb'"
proof -
  obtain buf where buf: "dict_get (fb_buffers fb) (cs_can_id s) = Some buf" "word64 buf"
    using assms(1,3) unfolding buffer_inv_def by blast
  let ?fb = "fb\<lparr>fb_buffers := dict_set (cs_can_id s) (pack_field buf s r) (fb_buffers fb)\<rparr>"
  have w: "write_raw s r fb = Inr ?fb" using buf by (simp add: write_raw_def)
  have fits: "cf_start_bit (cs_field t) + cf_bit_length (cs_field t) \<le> 64" if "t \<in> set signals" for t
    using assms(2) that unfolding signals_ok_def by blast
  have "\<exists>b. dict_get (fb_buffers ?fb) (cs_can_id t) = Some b \<and> word64 b
      \<and> raw_field b (cs_field t) = (if t = s then take_bit (cf_bit_length (cs_field s)) r else val t)"
    if t: "t \<in> set signals" for t
  proof (cases "cs_can_id t = cs_can_id s")
    case True
    have "word64 (pack_field buf s r)" using pack_word64 [OF buf(2) fits [OF assms(3)]] .
    moreover have "raw_field (pack_field buf s r) (cs_field t) = (if t = s then take_bit (cf_bit_length (cs_field s)) r else val t)"
    proof (cases "t = s")
      case True
      then show ?thesis by (simp add: pack_same)
    next
      case False
      then have "apart (cs_field s) (cs_field t)" using assms(2,3) t True unfolding signals_ok_def apart_def by metis
      moreover have "raw_field buf (cs_field t) = val t" using assms(1) t buf(1) True unfolding buffer_inv_def by fastforce
      ultimately show ?thesis using False fits [OF t] by (simp add: pack_other)
    qed
    ultimately show ?thesis using True by (simp add: update_conv' del: map_of_eq_Some_iff)
  next
    case False
    moreover have "t \<noteq> s" using False by blast
    ultimately show ?thesis using assms(1) t unfolding buffer_inv_def by (simp add: update_conv' del: map_of_eq_Some_iff)
  qed
  moreover have "fb_signals ?fb = fb_signals fb" by simp
  ultimately have "buffer_inv signals (\<lambda>t. if t = s then take_bit (cf_bit_length (cs_field s)) r else val t) ?fb"
    using assms(1) unfolding buffer_inv_def by simp
  then show ?thesis using w by blast
qed

lemma get_signal_ok:
  assumes "buffer_inv signals val fb" "get_signal fb n = Inr s"
  shows "s \<in> set signals \<and> cf_name (cs_field s) = n"
proof -
  have "dict_get (fb_signals fb) n = Some s"
    using assms(2) by (cases "dict_get (fb_signals fb) n") (simp_all add: get_signal_def)
  then show ?thesis using assms(1) unfolding buffer_inv_def names_known_def by blast
qed

lemma get_signal_fails:
  assumes "buffer_inv signals val fb" "get_signal fb n = Inl e" "s \<in> set signals"
  shows "cf_name (cs_field s) \<noteq> n"
proof -
  have "dict_get (fb_signals fb) n = None"
    using assms(2) by (cases "dict_get (fb_signals fb) n") (simp_all add: get_signal_def)
  moreover have "dict_get (fb_signals fb) (cf_name (cs_field s)) = Some s"
    using assms(1,3) unfolding buffer_inv_def names_known_def by blast
  ultimately show ?thesis by auto
qed

lemma buffer_inv_cong: "(\<And>s. s \<in> set signals \<Longrightarrow> val s = val' s) \<Longrightarrow> buffer_inv signals val fb = buffer_inv signals val' fb"
  unfolding buffer_inv_def by simp

lemma name_eq: "signals_ok configs signals \<Longrightarrow> s \<in> set signals \<Longrightarrow> t \<in> set signals \<Longrightarrow>
    cf_name (cs_field s) = cf_name (cs_field t) \<Longrightarrow> s = t"
  unfolding signals_ok_def distinct_map by (meson inj_onD)

lemma buffer_inv_step:
  assumes "buffer_inv signals val fb" "signals_ok configs signals"
  shows "buffer_inv signals (\<lambda>s. register_step s c (val s)) (can_step c fb)"
proof -
  have keep: "buffer_inv signals (\<lambda>s. register_step s c (val s)) fb"
    if "\<And>s. s \<in> set signals \<Longrightarrow> register_step s c (val s) = val s"
    using assms(1) buffer_inv_cong [of signals "\<lambda>s. register_step s c (val s)" val] that by simp
  have wrote: "\<exists>fb'. write_raw s r fb = Inr fb' \<and> buffer_inv signals (\<lambda>s. register_step s c (val s)) fb'"
    if s: "s \<in> set signals" and c: "\<And>t. t \<in> set signals \<Longrightarrow>
      register_step t c (val t) = (if t = s then take_bit (cf_bit_length (cs_field s)) r else val t)" for s r
  proof -
    obtain fb' where fb': "write_raw s r fb = Inr fb'"
        "buffer_inv signals (\<lambda>t. if t = s then take_bit (cf_bit_length (cs_field s)) r else val t) fb'"
      using buffer_inv_write [OF assms s, of r] by blast
    have "buffer_inv signals (\<lambda>s. register_step s c (val s)) fb'
        = buffer_inv signals (\<lambda>t. if t = s then take_bit (cf_bit_length (cs_field s)) r else val t) fb'"
      by (rule buffer_inv_cong) (rule c)
    then show ?thesis using fb' by blast
  qed
  show ?thesis
  proof (cases c)
    case (SetRaw n r)
    show ?thesis
    proof (cases "get_signal fb n")
      case (Inl e)
      then have "can_step c fb = fb" by (simp add: can_step_def SetRaw set_raw_def)
      moreover have "register_step t c (val t) = val t" if "t \<in> set signals" for t
        using get_signal_fails [OF assms(1) Inl that] by (auto simp: register_step_def SetRaw)
      ultimately show ?thesis using keep by simp
    next
      case (Inr s)
      note s = get_signal_ok [OF assms(1) Inr]
      have nm: "(n = cf_name (cs_field t)) = (t = s)" if "t \<in> set signals" for t
        using s name_eq [OF assms(2) that, of s] by metis
      have "\<exists>fb'. write_raw s r fb = Inr fb' \<and> buffer_inv signals (\<lambda>s. register_step s c (val s)) fb'"
        using s by (intro wrote) (simp_all add: register_step_def SetRaw nm)
      then show ?thesis using Inr by (auto simp: can_step_def SetRaw set_raw_def)
    qed
  next
    case (SetSignal n x)
    show ?thesis
    proof (cases "get_signal fb n")
      case (Inl e)
      then have "can_step c fb = fb" by (simp add: can_step_def SetSignal set_signal_def)
      moreover have "register_step t c (val t) = val t" if "t \<in> set signals" for t
        using get_signal_fails [OF assms(1) Inl that] by (auto simp: register_step_def SetSignal)
      ultimately show ?thesis using keep by simp
    next
      case (Inr s)
      note s = get_signal_ok [OF assms(1) Inr]
      have nm: "(n = cf_name (cs_field t)) = (t = s)" if "t \<in> set signals" for t
        using s name_eq [OF assms(2) that, of s] by metis
      show ?thesis
      proof (cases "encode_physical s x")
        case e: (Inl e)
        then have "can_step c fb = fb" using Inr by (simp add: can_step_def SetSignal set_signal_def)
        moreover have "register_step t c (val t) = val t" if "t \<in> set signals" for t
          using e nm [OF that] by (simp add: register_step_def SetSignal)
        ultimately show ?thesis using keep by simp
      next
        case r: (Inr r)
        have "\<exists>fb'. write_raw s r fb = Inr fb' \<and> buffer_inv signals (\<lambda>s. register_step s c (val s)) fb'"
          using s r by (intro wrote) (simp_all add: register_step_def SetSignal nm)
        then show ?thesis using Inr r by (auto simp: can_step_def SetSignal set_signal_def)
      qed
    qed
  qed
qed


lemma names_known_init:
  "distinct (map (\<lambda>s. cf_name (cs_field s)) signals) \<Longrightarrow>
    names_known signals (fold (\<lambda>s. dict_set (cf_name (cs_field s)) s) signals [])"
proof (induction signals rule: rev_induct)
  case (snoc s signals)
  then have IH: "names_known signals (fold (\<lambda>s. dict_set (cf_name (cs_field s)) s) signals [])" by simp
  have new: "cf_name (cs_field t) \<noteq> cf_name (cs_field s)" if "t \<in> set signals" for t
  proof
    assume "cf_name (cs_field t) = cf_name (cs_field s)"
    then have "cf_name (cs_field s) \<in> (\<lambda>s. cf_name (cs_field s)) ` set signals" using that by (rule_tac x = t in image_eqI) simp_all
    then show False using snoc.prems by simp
  qed
  let ?d = "fold (\<lambda>s. dict_set (cf_name (cs_field s)) s) signals []"
  have g: "dict_get (fold (\<lambda>s. dict_set (cf_name (cs_field s)) s) (signals @ [s]) []) n
      = (if n = cf_name (cs_field s) then Some s else dict_get ?d n)" for n
    by (simp add: update_conv' del: map_of_eq_Some_iff)
  have known: "dict_get ?d (cf_name (cs_field t)) = Some t" if "t \<in> set signals" for t
    using IH that unfolding names_known_def by blast
  have only: "t \<in> set signals \<and> cf_name (cs_field t) = n" if "dict_get ?d n = Some t" for n t
    using IH that unfolding names_known_def by blast
  show ?case
    unfolding names_known_def g
  proof (intro conjI ballI allI impI)
    fix t assume "t \<in> set (signals @ [s])"
    then show "(if cf_name (cs_field t) = cf_name (cs_field s) then Some s else dict_get ?d (cf_name (cs_field t))) = Some t"
      using new [of t] known [of t] by (cases "t = s") (simp_all del: map_of_eq_Some_iff)
  next
    fix n t assume a: "(if n = cf_name (cs_field s) then Some s else dict_get ?d n) = Some t"
    have "t = s \<and> n = cf_name (cs_field s) \<or> dict_get ?d n = Some t"
      using a by (cases "n = cf_name (cs_field s)") (simp_all del: map_of_eq_Some_iff)
    then show "t \<in> set (signals @ [s])" "cf_name (cs_field t) = n" using only [of n t] by auto
  qed
qed (simp add: names_known_def)

text \<open>What a signal reads before any write.\<close>

definition initial_raw :: "(int \<times> 8 word list) list \<Rightarrow> can_signal \<Rightarrow> int" where
  "initial_raw configs s = (case dict_get (fb_buffers (frame_buffer_init configs [])) (cs_can_id s) of
     None \<Rightarrow> 0 | Some buf \<Rightarrow> raw_field buf (cs_field s))"

lemma buffers_init:
  "i \<in> fst ` set configs \<Longrightarrow> \<exists>buf. dict_get (fold (\<lambda>(i, data). dict_set i (initial_buffer data)) configs []) i = Some buf \<and> word64 buf"
proof (induction configs rule: rev_induct)
  case (snoc c configs)
  then show ?case by (cases c) (auto simp: update_conv' initial_word64 simp del: map_of_eq_Some_iff)
qed simp

lemma buffer_inv_init:
  assumes "signals_ok configs signals"
  shows "buffer_inv signals (initial_raw configs) (frame_buffer_init configs signals)"
  unfolding buffer_inv_def
proof (intro conjI ballI)
  show "names_known signals (fb_signals (frame_buffer_init configs signals))"
    using assms names_known_init by (simp add: signals_ok_def frame_buffer_init_def)
  fix s assume "s \<in> set signals"
  then have "cs_can_id s \<in> fst ` set configs" using assms unfolding signals_ok_def by blast
  then obtain buf where "dict_get (fold (\<lambda>(i, data). dict_set i (initial_buffer data)) configs []) (cs_can_id s) = Some buf" "word64 buf"
    using buffers_init [of "cs_can_id s" configs] by metis
  then show "\<exists>buf. dict_get (fb_buffers (frame_buffer_init configs signals)) (cs_can_id s) = Some buf \<and> word64 buf
      \<and> raw_field buf (cs_field s) = initial_raw configs s"
    by (simp add: frame_buffer_init_def initial_raw_def del: map_of_eq_Some_iff)
qed

lemma buffer_inv_run:
  assumes "signals_ok configs signals"
  shows "buffer_inv signals (\<lambda>s. fold (register_step s) ops (initial_raw configs s))
    (fold can_step ops (frame_buffer_init configs signals))"
proof (induction ops rule: rev_induct)
  case Nil
  then show ?case using buffer_inv_init [OF assms] by simp
next
  case (snoc c ops)
  then show ?case using buffer_inv_step [OF snoc assms, of c] by simp
qed

text \<open>
  C15. A frame buffer with signals that do not overlap behaves as one register per signal, in both
  directions: after any calls of \<open>set_signal\<close> and \<open>set_raw\<close>, accepted or raising, the frame of a signal exists, has
  8 bytes, and the parser's bit extraction reads from it the last value written to that signal
  (truncated to its width), or the initial data; writes to other signals never show.
\<close>

theorem can_signals_independent:
  assumes "signals_ok configs signals" "s \<in> set signals"
  shows "\<exists>bs. get_frame (fold can_step ops (frame_buffer_init configs signals)) (cs_can_id s) = Inr bs \<and> length bs = 8
    \<and> raw_field (from_bytes_le bs) (cs_field s) = fold (register_step s) ops (initial_raw configs s)"
proof -
  define fb where "fb = fold can_step ops (frame_buffer_init configs signals)"
  obtain buf where buf: "dict_get (fb_buffers fb) (cs_can_id s) = Some buf" "word64 buf"
      "raw_field buf (cs_field s) = fold (register_step s) ops (initial_raw configs s)"
    using buffer_inv_run [OF assms(1), of ops] assms(2) unfolding buffer_inv_def fb_def by blast
  obtain bs where bs: "to_bytes_le buf = Inr bs" "length bs = 8"
    using buf(2) to_bytes_total [of buf] unfolding word64_def by blast
  then have "get_frame fb (cs_can_id s) = Inr bs" using buf(1) by (simp add: get_frame_def)
  then show ?thesis using bs buf(3) from_to_bytes [OF bs(1)] unfolding fb_def by blast
qed

text \<open>A float that fits comes back within half a step of the resolution.\<close>

lemma physical_roundtrip:
  assumes "cf_resolution (cs_field s) = Fin r" "r \<noteq> 0" "cf_offset (cs_field s) = Fin z" "cs_min_raw s = None" "cs_max_raw s = None"
    "0 \<le> (x - z) / r" "(x - z) / r \<le> of_int (field_mask (cs_field s))" "cf_decimals (cs_field s) = None" "\<not> cf_as_int (cs_field s)"
    "encode_physical s (Fin x) = Inr raw" "raw_field (from_bytes_le bs) (cs_field s) = take_bit (cf_bit_length (cs_field s)) raw"
  shows "\<exists>y. extract_field bs (cs_field s) = Inr (PyFloat (Fin y)) \<and> \<bar>y - x\<bar> \<le> \<bar>r\<bar> / 2"
proof -
  let ?q = "(x - z) / r" and ?m = "field_mask (cs_field s)"
  have near: "\<bar>of_int (round_half_even ?q) - ?q\<bar> \<le> 1 / 2" by (rule round_half_even_dist)
  have lo: "0 \<le> round_half_even ?q"
  proof -
    have "- 1 < (of_int (round_half_even ?q) :: rat)" using near assms(6) by linarith
    then show ?thesis by linarith
  qed
  have hi: "round_half_even ?q \<le> ?m"
  proof -
    have "(of_int (round_half_even ?q) :: rat) < of_int ?m + 1" using near assms(7) by linarith
    then show ?thesis by linarith
  qed
  have raw: "raw = round_half_even ?q"
    using assms(1-5,10) lo hi by (simp add: encode_physical_def raw_limits_def)
  have "take_bit (cf_bit_length (cs_field s)) raw = raw"
    using lo hi unfolding raw field_mask_bits mask_eq_exp_minus_1 by (simp add: take_bit_int_eq_self_iff)
  then have "extract_field bs (cs_field s) = Inr (PyFloat (Fin (of_int raw * r + z)))"
    using assms(1,3,8,9,11) by (simp add: extract_field_def Let_def)
  moreover have "\<bar>of_int raw * r + z - x\<bar> = \<bar>r\<bar> * \<bar>of_int raw - ?q\<bar>"
  proof -
    have q: "r * ?q = x - z" using assms(2) by simp
    have "r * (of_int raw - ?q) = of_int raw * r + z - x" unfolding right_diff_distrib q by (simp add: mult.commute)
    then show ?thesis by (metis abs_mult)
  qed
  moreover have "\<bar>r\<bar> * \<bar>of_int raw - ?q\<bar> \<le> \<bar>r\<bar> * (1 / 2)" using near unfolding raw by (intro mult_left_mono) simp_all
  ultimately show ?thesis by auto
qed

definition demo_signal :: "string \<Rightarrow> nat \<Rightarrow> nat \<Rightarrow> can_signal" where
  "demo_signal name start len = \<lparr>cs_can_id = 512, cs_field = \<lparr>cf_name = name, cf_start_bit = start, cf_bit_length = len,
     cf_resolution = Fin (1 / 10), cf_offset = Fin (- 40), cf_decimals = None, cf_as_int = False\<rparr>, cs_min_raw = None, cs_max_raw = None\<rparr>"

theorem can_signals_independent_witness:
  "\<exists>bs. get_frame (fold can_step [SetSignal ''power'' (Fin 60), SetRaw ''mode'' 19, SetSignal ''mode'' NaN]
       (frame_buffer_init [(512, [])] [demo_signal ''power'' 0 16, demo_signal ''mode'' 16 4])) 512 = Inr bs
     \<and> raw_field (from_bytes_le bs) (cs_field (demo_signal ''mode'' 16 4)) = 3"
proof -
  have ok: "signals_ok [(512, [])] [demo_signal ''power'' 0 16, demo_signal ''mode'' 16 4]"
    by (simp add: signals_ok_def demo_signal_def apart_def)
  have "fold (register_step (demo_signal ''mode'' 16 4)) [SetSignal ''power'' (Fin 60), SetRaw ''mode'' 19, SetSignal ''mode'' NaN]
      (initial_raw [(512, [])] (demo_signal ''mode'' 16 4)) = 3" by code_simp
  then show ?thesis
    using can_signals_independent [OF ok, of "demo_signal ''mode'' 16 4" "[SetSignal ''power'' (Fin 60), SetRaw ''mode'' 19, SetSignal ''mode'' NaN]"]
    by (auto simp: demo_signal_def)
qed

text \<open>A signal that reaches beyond bit 63 is not refused, and its frame cannot be built once such a bit is set.\<close>

lemma wide_signal_breaks_frame:
  "get_frame (can_step (SetRaw ''x'' 255) (frame_buffer_init [(512, [])] [demo_signal ''x'' 60 8])) 512 = Inl OverflowError"
  by code_simp

end
