(* ===== verification/Point_Transforms.thy ===== *)
theory Point_Transforms
  imports Modbus_Types Can_Frames
begin

text \<open>
  What happens to a value between a register and the application: the transform steps and pipelines of
  \<open>equipment/core\<close>, the register codec step, validators and point definitions, and the aggregators of
  \<open>equipment/processing\<close>. \<open>str_of\<close> stands for \<open>str()\<close> of a value that is no number, used in a text only.
\<close>

unbundle bit_operations_syntax

section \<open>Transform steps\<close>

datatype transform =
    ScaleTransform flt flt
  | RoundTransform int
  | EnumMapTransform "(int \<times> string) list" string
  | ClampTransform "flt option" "flt option"
  | BoolTransform "int list"
  | InverseTransform flt flt
  | BitExtractTransform int int
  | ByteExtractTransform int int
  | PowerFactorTransform bool
  | MultiFieldExtractTransform "(string \<times> int \<times> int) list"
  | ModbusDecoder modbus_type byte_order register_order
  | ModbusEncoder modbus_type byte_order register_order
  | ClientTransform "pyval \<Rightarrow> pyval res"

fun transform_valid :: "transform \<Rightarrow> bool" where
  "transform_valid (BitExtractTransform off len) = (0 \<le> off \<and> 1 \<le> len \<and> off + len \<le> 64)"
| "transform_valid (ByteExtractTransform off len) = (0 \<le> off \<and> 1 \<le> len)"
| "transform_valid (MultiFieldExtractTransform fs) =
     (fs \<noteq> [] \<and> distinct (map fst fs) \<and> list_all (\<lambda>(n, off, len). 0 \<le> off \<and> 1 \<le> len) fs)"
| "transform_valid _ = True"

text \<open>\<open>isinstance(value, (int, float))\<close>, then \<open>float(value)\<close>.\<close>

definition as_number :: "pyval \<Rightarrow> flt res" where
  "as_number v = (if is_num_val v then Inr (flt_val v) else Inl TypeError)"

definition extract_bits :: "int \<Rightarrow> int \<Rightarrow> int \<Rightarrow> pyval" where
  "extract_bits v off len =
     (let r = drop_bit (nat off) v AND (push_bit (nat len) 1 - 1)
      in if len = 1 then PyBool (r \<noteq> 0) else PyInt r)"

definition enum_map :: "(pyval \<Rightarrow> string) \<Rightarrow> (int \<times> string) list \<Rightarrow> string \<Rightarrow> pyval \<Rightarrow> pyval res" where
  "enum_map str_of m d v =
     (if is_int_val v then Inr (PyStr (dict_get_or m (int_val v) d))
      else case py_int v of
          Inr i \<Rightarrow> Inr (PyStr (dict_get_or m i d))
        | Inl e \<Rightarrow> if e = TypeError \<or> e = ValueError then Inr (PyStr (d @ '' ('' @ str_of v @ '')'')) else Inl e)"

definition clamp_step :: "flt option \<Rightarrow> flt option \<Rightarrow> flt \<Rightarrow> flt" where
  "clamp_step lo hi x =
     (let r = (case lo of None \<Rightarrow> x | Some l \<Rightarrow> py_max x l) in case hi of None \<Rightarrow> r | Some h \<Rightarrow> py_min r h)"

definition power_factor :: "flt \<Rightarrow> flt \<times> string" where
  "power_factor x =
     (if x > 1 then (2 - x, ''leading'')
      else if x < - 1 then (- 2 - x, ''leading'')
      else if feq (fabs x) 1 then (x, ''unity'')
      else (x, ''lagging''))"

text \<open>Register lists hold integers.\<close>

definition register_val :: "pyval \<Rightarrow> int res" where
  "register_val v = (if is_int_val v then Inr (int_val v) else Inl TypeError)"

definition register_list_bytes :: "int list \<Rightarrow> 8 word list" where
  "register_list_bytes regs = concat (map (\<lambda>r. [word_of_int (drop_bit 8 r), word_of_int r]) regs)"

fun apply_step :: "(pyval \<Rightarrow> string) \<Rightarrow> transform \<Rightarrow> pyval \<Rightarrow> pyval res" where
  "apply_step str_of (ScaleTransform m z) v = rbind (as_number v) (\<lambda>x. Inr (PyFloat (x * m + z)))"
| "apply_step str_of (RoundTransform n) v = rbind (as_number v) (\<lambda>x. Inr (PyFloat (py_round_to x n)))"
| "apply_step str_of (EnumMapTransform m d) v = enum_map str_of m d v"
| "apply_step str_of (ClampTransform lo hi) v = rbind (as_number v) (\<lambda>x. Inr (PyFloat (clamp_step lo hi x)))"
| "apply_step str_of (BoolTransform ts) v = Inr (PyBool (case v of
       PyBool b \<Rightarrow> b | PyInt i \<Rightarrow> i \<in> set ts | _ \<Rightarrow> truthy v))"
| "apply_step str_of (InverseTransform m z) v = rbind (as_number v) (\<lambda>x.
       if feq m 0 then Inl ValueError else rbind (fdiv (x - z) m) (\<lambda>y. Inr (PyFloat y)))"
| "apply_step str_of (BitExtractTransform off len) v =
     (if is_int_val v then Inr (extract_bits (int_val v) off len) else Inl TypeError)"
| "apply_step str_of (ByteExtractTransform off len) v = (case v of
       PyList xs \<Rightarrow> rbind (rmap register_val xs) (\<lambda>regs. Inr (PyBytes (py_slice (register_list_bytes regs) off (off + len))))
     | _ \<Rightarrow> Inl TypeError)"
| "apply_step str_of (PowerFactorTransform st) v = rbind (as_number v) (\<lambda>x.
       let (pf, status) = power_factor x
       in Inr (if st then PyDict [(''pf'', PyFloat pf), (''status'', PyStr status)] else PyFloat pf))"
| "apply_step str_of (MultiFieldExtractTransform fs) v =
     (if is_int_val v then Inr (PyDict (fold (\<lambda>(n, off, len). dict_set n (extract_bits (int_val v) off len)) fs []))
      else Inl TypeError)"
| "apply_step str_of (ModbusDecoder ty bo ro) v = (case v of
       PyList xs \<Rightarrow> if length xs \<noteq> register_count ty then Inl ValueError
                    else rbind (rmap register_val xs) (\<lambda>regs. type_decode ty regs bo ro)
     | _ \<Rightarrow> Inl TypeError)"
| "apply_step str_of (ModbusEncoder ty bo ro) v = rbind (type_encode ty v bo ro) (\<lambda>regs. Inr (PyList (map PyInt regs)))"
| "apply_step str_of (ClientTransform f) v = f v"

fun process_pipeline :: "(pyval \<Rightarrow> string) \<Rightarrow> transform list \<Rightarrow> pyval \<Rightarrow> pyval res" where
  "process_pipeline str_of [] v = Inr v"
| "process_pipeline str_of (t # ts) v = rbind (apply_step str_of t v) (process_pipeline str_of ts)"

section \<open>Points\<close>

datatype validator =
    RangeValidator "flt option" "flt option"
  | EnumValidator "pyval list"
  | CompositeValidator "validator list"
  | ClientValidator "pyval \<Rightarrow> bool"

fun validate :: "validator \<Rightarrow> pyval \<Rightarrow> bool" where
  "validate (RangeValidator lo hi) v =
     (is_num_val v \<and> \<not> (case lo of None \<Rightarrow> False | Some l \<Rightarrow> flt_val v < l) \<and> \<not> (case hi of None \<Rightarrow> False | Some h \<Rightarrow> flt_val v > h))"
| "validate (EnumValidator allowed) v = list_ex (\<lambda>w. py_eq v w) allowed"
| "validate (CompositeValidator vs) v = list_all (\<lambda>w. validate w v) vs"
| "validate (ClientValidator f) v = f v"

record point =
  pt_name :: string
  pt_address :: int
  pt_type :: modbus_type
  pt_function_code :: "int option"
  pt_byte_order :: byte_order
  pt_register_order :: register_order
  pt_unit_id :: "int option"
  pt_pipeline :: "transform list option"
  pt_validator :: "validator option"
  pt_read_group :: string

definition point_valid :: "point \<Rightarrow> unit res" where
  "point_valid p = (case pt_unit_id p of None \<Rightarrow> Inr () | Some u \<Rightarrow> if 0 \<le> u \<and> u \<le> 255 then Inr () else Inl ConfigurationError)"

text \<open>\<open>ReadPoint\<close> and \<open>WritePoint\<close> fill in their function code.\<close>

definition read_point :: "point \<Rightarrow> point res" where
  "read_point p = rbind (point_valid p) (\<lambda>_. Inr (if pt_function_code p = None then p\<lparr>pt_function_code := Some 3\<rparr> else p))"

definition write_point :: "point \<Rightarrow> point res" where
  "write_point p = rbind (point_valid p) (\<lambda>_. Inr (if pt_function_code p = None then p\<lparr>pt_function_code := Some 16\<rparr> else p))"

section \<open>Aggregators\<close>

datatype aggregator =
    CoilToBitmask string "string list" bool
  | ComputedValue string "string list" "pyval list \<Rightarrow> pyval res"

fun coil_bits :: "(string \<times> pyval) list \<Rightarrow> nat \<Rightarrow> string list \<Rightarrow> int \<Rightarrow> int option" where
  "coil_bits vals i [] m = Some m"
| "coil_bits vals i (n # ns) m =
     (let v = dict_get_or vals n PyNone in
      if v = PyNone then None
      else coil_bits vals (Suc i) ns (if truthy v then m OR push_bit i 1 else m))"

fun aggregate :: "aggregator \<Rightarrow> (string \<times> pyval) list \<Rightarrow> (string \<times> pyval) list" where
  "aggregate (CoilToBitmask out names rm) vals =
     (let r = dict_set out (case coil_bits vals 0 names 0 of None \<Rightarrow> PyNone | Some m \<Rightarrow> PyInt m) vals
      in if rm then fold dict_del names r else r)"
| "aggregate (ComputedValue out names f) vals =
     dict_set out (case f (map (\<lambda>n. dict_get_or vals n PyNone) names) of Inl e \<Rightarrow> PyNone | Inr v \<Rightarrow> v) vals"

definition aggregate_all :: "aggregator list \<Rightarrow> (string \<times> pyval) list \<Rightarrow> (string \<times> pyval) list" where
  "aggregate_all as vals = fold aggregate as vals"


section \<open>Coils to bits and back\<close>

lemma coil_bits_Some:
  assumes "\<forall>n\<in>set ns. dict_get_or vals n PyNone \<noteq> PyNone"
  shows "\<exists>r. coil_bits vals i ns m = Some r
    \<and> (\<forall>k. bit r k \<longleftrightarrow> bit m k \<or> (i \<le> k \<and> k < i + length ns \<and> truthy (dict_get_or vals (ns ! (k - i)) PyNone)))"
  using assms
proof (induction ns arbitrary: i m)
  case (Cons n ns)
  let ?t = "truthy (dict_get_or vals n PyNone)"
  let ?m = "if ?t then m OR push_bit i 1 else m"
  obtain r where r: "coil_bits vals (Suc i) ns ?m = Some r"
    "\<And>k. bit r k \<longleftrightarrow> bit ?m k \<or> (Suc i \<le> k \<and> k < Suc i + length ns \<and> truthy (dict_get_or vals (ns ! (k - Suc i)) PyNone))"
    using Cons.IH [of "Suc i" ?m] Cons.prems by auto
  have m: "bit ?m k \<longleftrightarrow> bit m k \<or> (k = i \<and> ?t)" for k
    by (auto simp: bit_or_iff bit_exp_iff)
  have "bit r k \<longleftrightarrow> bit m k \<or> (i \<le> k \<and> k < i + length (n # ns) \<and> truthy (dict_get_or vals ((n # ns) ! (k - i)) PyNone))" for k
  proof -
    consider "k < i" | "k = i" | j where "k = Suc (i + j)" by (metis add_Suc less_iff_Suc_add nat_neq_iff)
    then show ?thesis unfolding r(2) m by cases simp_all
  qed
  then show ?case using r(1) Cons.prems by auto
qed (auto simp: bit_0_eq)

lemma extract_one_bit: "extract_bits v (int i) 1 = PyBool (bit v i)"
proof -
  have "(drop_bit i v AND 1 \<noteq> 0) = odd (drop_bit i v)" unfolding and_one_eq odd_iff_mod_2_eq_one by arith
  then show ?thesis by (simp add: extract_bits_def Let_def bit_iff_odd_drop_bit)
qed

lemma dels_keep: "out \<notin> set names \<Longrightarrow> dict_get_or (fold dict_del names d) out x = dict_get_or d out x"
  by (induction names arbitrary: d) auto

text \<open>
  Coils packed into a register value come back one by one: when every coil was read, the aggregated
  value holds, at the position of each coil, what its reading was worth as a truth value; with a missing
  coil the aggregated value is \<open>None\<close>.
\<close>

theorem coils_roundtrip:
  assumes "out \<notin> set names \<or> \<not> rm"
  shows "(if \<forall>n\<in>set names. dict_get_or vals n PyNone \<noteq> PyNone
     then \<exists>m. dict_get_or (aggregate (CoilToBitmask out names rm) vals) out PyNone = PyInt m
       \<and> (\<forall>i < length names. apply_step str_of (BitExtractTransform (int i) 1) (PyInt m)
            = Inr (PyBool (truthy (dict_get_or vals (names ! i) PyNone))))
     else dict_get_or (aggregate (CoilToBitmask out names rm) vals) out PyNone = PyNone)"
proof -
  have get: "dict_get_or (aggregate (CoilToBitmask out names rm) vals) out PyNone
      = (case coil_bits vals 0 names 0 of None \<Rightarrow> PyNone | Some m \<Rightarrow> PyInt m)"
    using assms by (auto simp: dels_keep Let_def)
  show ?thesis
  proof (cases "\<forall>n\<in>set names. dict_get_or vals n PyNone \<noteq> PyNone")
    case True
    obtain r where r: "coil_bits vals 0 names 0 = Some r"
      "\<And>k. bit r k \<longleftrightarrow> bit (0 :: int) k \<or> (0 \<le> k \<and> k < 0 + length names \<and> truthy (dict_get_or vals (names ! (k - 0)) PyNone))"
      using coil_bits_Some [OF True, of 0 0] by auto
    have "apply_step str_of (BitExtractTransform (int i) 1) (PyInt r) = Inr (PyBool (truthy (dict_get_or vals (names ! i) PyNone)))"
      if "i < length names" for i
      using that extract_one_bit [of r i] r(2) [of i] by (simp del: One_nat_def)
    then show ?thesis using True get r(1) by auto
  next
    case False
    have "coil_bits vals i names m = None" for i m
      using False by (induction names arbitrary: i m) (auto simp: Let_def)
    then show ?thesis using False get by simp
  qed
qed

theorem coils_roundtrip_witness:
  "\<exists>m. dict_get_or (aggregate (CoilToBitmask ''err'' [''a'', ''b''] True) [(''a'', PyBool False), (''b'', PyInt 1)]) ''err'' PyNone = PyInt m
     \<and> apply_step (\<lambda>_. []) (BitExtractTransform 1 1) (PyInt m) = Inr (PyBool True)"
proof -
  have "\<forall>n\<in>set [''a'', ''b'']. dict_get_or [(''a'', PyBool False), (''b'', PyInt 1)] n PyNone \<noteq> PyNone"
    by (simp add: dict_get_or_def)
  then obtain m where "dict_get_or (aggregate (CoilToBitmask ''err'' [''a'', ''b''] True) [(''a'', PyBool False), (''b'', PyInt 1)]) ''err'' PyNone = PyInt m"
    "\<forall>i < length [''a'', ''b'']. apply_step (\<lambda>_. []) (BitExtractTransform (int i) 1) (PyInt m)
      = Inr (PyBool (truthy (dict_get_or [(''a'', PyBool False), (''b'', PyInt 1)] ([''a'', ''b''] ! i) PyNone)))"
    using coils_roundtrip [of "''err''" "[''a'', ''b'']" True "[(''a'', PyBool False), (''b'', PyInt 1)]" "\<lambda>_. []"] by auto
  then show ?thesis by (intro exI [of _ m]) (auto simp: dict_get_or_def dest: spec [of _ 1])
qed

text \<open>Scaling and its inverse.\<close>

lemma scale_inverse:
  assumes "m \<noteq> 0"
  shows "process_pipeline str_of [ScaleTransform (Fin m) (Fin z), InverseTransform (Fin m) (Fin z)] (PyFloat (Fin x)) = Inr (PyFloat (Fin x))"
  using assms by (simp add: as_number_def)

text \<open>A power factor register in the coded range gives a power factor.\<close>

lemma power_factor_range: "- 2 \<le> x \<Longrightarrow> x \<le> 2 \<Longrightarrow> \<exists>y. fst (power_factor (Fin x)) = Fin y \<and> \<bar>y\<bar> \<le> 1"
  by (auto simp: power_factor_def abs_le_iff)

text \<open>The range validator compares only, so a NaN passes.\<close>

lemma range_validator_nan: "validate (RangeValidator lo hi) (PyFloat NaN)"
  by (simp split: option.split)

text \<open>An infinite reading escapes the fallback of the enumeration step.\<close>

lemma enum_map_infinity: "apply_step str_of (EnumMapTransform m d) (PyFloat PInf) = Inl OverflowError"
  by (simp add: enum_map_def)

end
