(* ===== verification/Transport.thy ===== *)
theory Transport
  imports Point_Transforms "HOL-Library.List_Lexorder" "HOL-Library.Product_Lexorder" "HOL-Library.Char_ord"
begin

text \<open>
  \<open>equipment/transport\<close>: the grouper that merges points into block reads, the scheduler that rotates
  groups, the reader that cuts the points out of the blocks, and the writer with its validation and
  read-back. The Modbus client with the device behind it is a parameter: what a read returns, and how a
  write changes the state of the device. Text of errors is left out.
\<close>

section \<open>Grouping\<close>

record read_group =
  rg_function_code :: int
  rg_start_address :: int
  rg_count :: int
  rg_points :: "point list"
  rg_unit_id :: "int option"

definition mk_read_group :: "int \<Rightarrow> int \<Rightarrow> int \<Rightarrow> point list \<Rightarrow> int option \<Rightarrow> read_group res" where
  "mk_read_group fc start count points uid =
     (let g = \<lparr>rg_function_code = fc, rg_start_address = start, rg_count = count, rg_points = points, rg_unit_id = uid\<rparr>;
          units = remdups (map pt_unit_id points)
      in case units of
           [] \<Rightarrow> Inr g
         | [u] \<Rightarrow> if uid \<noteq> None \<and> u \<noteq> None \<and> u \<noteq> uid then Inl ValueError else Inr g
         | _ \<Rightarrow> Inl ValueError)"

type_synonym grouper_config = "(int \<times> int) list"

definition default_max_length :: grouper_config where
  "default_max_length = [(1, 2000), (2, 2000), (3, 125), (4, 125)]"

definition grouper_config_valid :: "grouper_config \<Rightarrow> unit res" where
  "grouper_config_valid c = (if list_ex (\<lambda>(fc, n). n \<le> 0) c then Inl ValueError else Inr ())"

definition fc_key :: "point \<Rightarrow> int" where
  "fc_key p = (case pt_function_code p of None \<Rightarrow> - 1 | Some fc \<Rightarrow> fc)"

definition sort_point_key :: "point \<Rightarrow> int \<times> string \<times> int \<times> int" where
  "sort_point_key p = (case pt_unit_id p of None \<Rightarrow> - 1 | Some u \<Rightarrow> u, pt_read_group p, fc_key p, pt_address p)"

definition bucket_key :: "point \<Rightarrow> int option \<times> string \<times> int" where
  "bucket_key p = (pt_unit_id p, pt_read_group p, fc_key p)"

text \<open>\<open>itertools.groupby\<close>: runs of neighbours with equal keys.\<close>

fun group_runs :: "('a \<Rightarrow> 'k) \<Rightarrow> 'a list \<Rightarrow> ('k \<times> 'a list) list" where
  "group_runs key [] = []"
| "group_runs key (x # xs) = (case group_runs key xs of
     [] \<Rightarrow> [(key x, [x])]
   | (k, ys) # gs \<Rightarrow> if k = key x then (k, x # ys) # gs else (key x, [x]) # (k, ys) # gs)"

definition point_end :: "point \<Rightarrow> int" where
  "point_end p = pt_address p + int (register_count (pt_type p))"

fun merge_loop :: "int \<Rightarrow> int option \<Rightarrow> int \<Rightarrow> point list \<Rightarrow> int \<Rightarrow> int \<Rightarrow> point list \<Rightarrow> read_group list res" where
  "merge_loop fc uid n current start stop [] =
     (if current = [] then Inr [] else rbind (mk_read_group fc start (stop - start) current uid) (\<lambda>g. Inr [g]))"
| "merge_loop fc uid n current start stop (p # ps) =
     (if current = [] then merge_loop fc uid n [p] (pt_address p) (point_end p) ps
      else if point_end p - start \<le> n then merge_loop fc uid n (current @ [p]) start (max stop (point_end p)) ps
      else rbind (mk_read_group fc start (stop - start) current uid) (\<lambda>g.
           rbind (merge_loop fc uid n [p] (pt_address p) (point_end p) ps) (\<lambda>gs. Inr (g # gs))))"

definition merge_consecutive :: "grouper_config \<Rightarrow> point list \<Rightarrow> int \<Rightarrow> int option \<Rightarrow> read_group list res" where
  "merge_consecutive cfg points fc uid = merge_loop fc uid (dict_get_or cfg fc 125) [] 0 0 points"

definition group_points :: "grouper_config \<Rightarrow> point list \<Rightarrow> read_group list res" where
  "group_points cfg points =
     (if points = [] then Inr []
      else rbind (rmap (\<lambda>((uid, _, fc), ps). merge_consecutive cfg ps fc uid)
                    (group_runs bucket_key (sort_key sort_point_key points))) (\<lambda>gss. Inr (concat gss)))"

section \<open>Rotation\<close>

record read_scheduler =
  sc_always :: "read_group list"
  sc_rotating :: "read_group list list"
  sc_index :: nat

definition scheduler_init :: "read_group list option \<Rightarrow> read_group list list option \<Rightarrow> read_scheduler" where
  "scheduler_init always rotating = \<lparr>sc_always = (case always of None \<Rightarrow> [] | Some gs \<Rightarrow> gs),
     sc_rotating = (case rotating of None \<Rightarrow> [] | Some gss \<Rightarrow> gss), sc_index = 0\<rparr>"

definition peek_next_groups :: "read_scheduler \<Rightarrow> read_group list" where
  "peek_next_groups s = sc_always s @ (if sc_rotating s \<noteq> [] then sc_rotating s ! sc_index s else [])"

definition get_next_groups :: "read_scheduler \<Rightarrow> read_group list \<times> read_scheduler" where
  "get_next_groups s =
     (if sc_rotating s \<noteq> []
      then (sc_always s @ sc_rotating s ! sc_index s, s\<lparr>sc_index := (sc_index s + 1) mod length (sc_rotating s)\<rparr>)
      else (sc_always s, s))"

definition update_groups :: "read_group list option \<Rightarrow> read_group list list option \<Rightarrow> read_scheduler \<Rightarrow> read_scheduler" where
  "update_groups always rotating s =
     (let s1 = (case always of None \<Rightarrow> s | Some gs \<Rightarrow> s\<lparr>sc_always := gs\<rparr>)
      in case rotating of None \<Rightarrow> s1 | Some gss \<Rightarrow> s1\<lparr>sc_rotating := gss, sc_index := 0\<rparr>)"

definition scheduler_reset :: "read_scheduler \<Rightarrow> read_scheduler" where
  "scheduler_reset s = s\<lparr>sc_index := 0\<rparr>"

section \<open>Reading\<close>

text \<open>Function code, address, count and unit of a read; the registers (coils as 0 and 1) or the error.\<close>

type_synonym read_fn = "int \<Rightarrow> int \<Rightarrow> int \<Rightarrow> int \<Rightarrow> int list res"

record group_reader =
  gr_unit_id :: int
  gr_address_offset :: int
  gr_max_concurrent :: int

definition group_reader_init :: "int \<Rightarrow> int \<Rightarrow> int \<Rightarrow> group_reader res" where
  "group_reader_init uid off n =
     (if n < 1 then Inl ConfigurationError else Inr \<lparr>gr_unit_id = uid, gr_address_offset = off, gr_max_concurrent = n\<rparr>)"

definition is_modbus_error :: "py_exc \<Rightarrow> bool" where
  "is_modbus_error e = (e \<in> {ModbusError, ModbusEncodeError, ModbusDecodeError, ModbusConfigError,
     ModbusCircuitBreakerError, ModbusQueueFullError})"

definition read_from_device :: "read_fn \<Rightarrow> group_reader \<Rightarrow> read_group \<Rightarrow> int \<Rightarrow> int list res" where
  "read_from_device rd r g uid =
     (if rg_function_code g \<in> {1, 2, 3, 4}
      then (case rd (rg_function_code g) (rg_start_address g + gr_address_offset r) (rg_count g) uid of
              Inr raw \<Rightarrow> Inr raw | Inl e \<Rightarrow> Inl (if is_modbus_error e then CommunicationError else e))
      else Inl ConfigurationError)"

definition point_value :: "(pyval \<Rightarrow> string) \<Rightarrow> point \<Rightarrow> int list \<Rightarrow> pyval res" where
  "point_value str_of p regs =
     rbind (type_decode (pt_type p) regs (pt_byte_order p) (pt_register_order p)) (\<lambda>v.
       case pt_pipeline p of None \<Rightarrow> Inr v | Some ts \<Rightarrow> process_pipeline str_of ts v)"

fun decode_points :: "(pyval \<Rightarrow> string) \<Rightarrow> int \<Rightarrow> int list \<Rightarrow> point list \<Rightarrow> (string \<times> pyval) list \<Rightarrow> (string \<times> pyval) list res" where
  "decode_points str_of start raw [] result = Inr result"
| "decode_points str_of start raw (p # ps) result =
     (let off = pt_address p - start; len = int (register_count (pt_type p)); regs = py_slice raw off (off + len)
      in if int (length regs) < len then Inl CommunicationError
         else rbind (point_value str_of p regs) (\<lambda>v. decode_points str_of start raw ps (dict_set (pt_name p) v result)))"

definition read_one :: "(pyval \<Rightarrow> string) \<Rightarrow> read_fn \<Rightarrow> group_reader \<Rightarrow> read_group \<Rightarrow> (string \<times> pyval) list res" where
  "read_one str_of rd r g =
     (let uid = (case rg_unit_id g of Some u \<Rightarrow> u | None \<Rightarrow> gr_unit_id r)
      in rbind (read_from_device rd r g uid) (\<lambda>raw. decode_points str_of (rg_start_address g) raw (rg_points g) []))"

definition dict_update :: "(string \<times> pyval) list \<Rightarrow> (string \<times> pyval) list \<Rightarrow> (string \<times> pyval) list" where
  "dict_update d e = fold (\<lambda>(k, v). dict_set k v) e d"

text \<open>One after the other the first failure ends the call; concurrently a failed group is left out.\<close>

fun read_serial :: "(read_group \<Rightarrow> (string \<times> pyval) list res) \<Rightarrow> read_group list \<Rightarrow> (string \<times> pyval) list \<Rightarrow> (string \<times> pyval) list res" where
  "read_serial f [] result = Inr result"
| "read_serial f (g # gs) result = rbind (f g) (\<lambda>d. read_serial f gs (dict_update result d))"

fun read_gather :: "(read_group \<Rightarrow> (string \<times> pyval) list res) \<Rightarrow> read_group list \<Rightarrow> (string \<times> pyval) list \<Rightarrow> (string \<times> pyval) list" where
  "read_gather f [] result = result"
| "read_gather f (g # gs) result = (case f g of Inl e \<Rightarrow> read_gather f gs result | Inr d \<Rightarrow> read_gather f gs (dict_update result d))"

definition read_many :: "(pyval \<Rightarrow> string) \<Rightarrow> read_fn \<Rightarrow> group_reader \<Rightarrow> read_group list \<Rightarrow> (string \<times> pyval) list res" where
  "read_many str_of rd r gs =
     (if gr_max_concurrent r = 1 then read_serial (read_one str_of rd r) gs []
      else Inr (read_gather (read_one str_of rd r) gs []))"

section \<open>Writing\<close>

datatype write_status = SUCCESS | VALIDATION_FAILED | WRITE_FAILED | VERIFICATION_FAILED

record write_result =
  wr_status :: write_status
  wr_point_name :: string
  wr_value :: pyval

text \<open>Function code, address, values and unit of a write; the device afterwards and the outcome.\<close>

record 'd modbus_client =
  mc_read :: "int \<Rightarrow> int \<Rightarrow> int \<Rightarrow> int \<Rightarrow> 'd \<Rightarrow> int list res"
  mc_write :: "int \<Rightarrow> int \<Rightarrow> int list \<Rightarrow> int \<Rightarrow> 'd \<Rightarrow> 'd \<times> unit res"

record validated_writer =
  vw_unit_id :: int
  vw_address_offset :: int

definition resolve_unit_id :: "validated_writer \<Rightarrow> point \<Rightarrow> int" where
  "resolve_unit_id w p = (case pt_unit_id p of Some u \<Rightarrow> u | None \<Rightarrow> vw_unit_id w)"

definition is_integer_float :: "flt \<Rightarrow> bool" where
  "is_integer_float x = (case x of Fin q \<Rightarrow> of_int \<lfloor>q\<rfloor> = q | _ \<Rightarrow> False)"

definition float_to_int :: "pyval \<Rightarrow> pyval" where
  "float_to_int v = (case v of PyFloat (Fin q) \<Rightarrow> if is_integer_float (Fin q) then PyInt \<lfloor>q\<rfloor> else v | _ \<Rightarrow> v)"

definition encode_point :: "point \<Rightarrow> pyval \<Rightarrow> int list res" where
  "encode_point p v =
     rbind (type_encode (pt_type p) v (pt_byte_order p) (pt_register_order p)) (\<lambda>regs.
       if pt_function_code p \<in> {Some 5, Some 6} \<and> length regs \<noteq> 1 then Inl ConfigurationError else Inr regs)"

text \<open>Coils are written as truth values.\<close>

definition write_to_device :: "'d modbus_client \<Rightarrow> validated_writer \<Rightarrow> point \<Rightarrow> int list \<Rightarrow> 'd \<Rightarrow> 'd \<times> unit res" where
  "write_to_device c w p regs d =
     (case pt_function_code p of
        None \<Rightarrow> (d, Inl ConfigurationError)
      | Some fc \<Rightarrow>
          let a = pt_address p + vw_address_offset w; u = resolve_unit_id w p
          in if fc = 5 \<or> fc = 15 then mc_write c fc a (map (\<lambda>r. of_bool (r \<noteq> 0)) regs) u d
             else if fc = 6 \<or> fc = 16 then mc_write c fc a regs u d
             else (d, Inl ConfigurationError))"

definition read_back :: "'d modbus_client \<Rightarrow> validated_writer \<Rightarrow> point \<Rightarrow> 'd \<Rightarrow> pyval res" where
  "read_back c w p d =
     (let a = pt_address p + vw_address_offset w; n = int (register_count (pt_type p)); u = resolve_unit_id w p in
      rbind (if pt_function_code p \<in> {Some 5, Some 15} then mc_read c 1 a n u d
             else if pt_function_code p \<in> {Some 6, Some 16} then mc_read c 3 a n u d
             else Inl ConfigurationError)
        (\<lambda>regs. type_decode (pt_type p) regs (pt_byte_order p) (pt_register_order p)))"

definition values_equal :: "pyval \<Rightarrow> pyval \<Rightarrow> bool" where
  "values_equal expected actual = (case (expected, actual) of
       (PyFloat x, PyFloat y) \<Rightarrow> fabs (x - y) < Fin (1 / 10 ^ 6)
     | _ \<Rightarrow> py_eq expected actual)"

definition failed_write :: "point \<Rightarrow> pyval \<Rightarrow> py_exc \<Rightarrow> write_result res" where
  "failed_write p v e = (if e = ConfigurationError then Inl ConfigurationError
     else Inr \<lparr>wr_status = WRITE_FAILED, wr_point_name = pt_name p, wr_value = v\<rparr>)"

definition validated_write :: "(pyval \<Rightarrow> string) \<Rightarrow> 'd modbus_client \<Rightarrow> validated_writer \<Rightarrow> point \<Rightarrow> pyval \<Rightarrow> bool \<Rightarrow> 'd
    \<Rightarrow> 'd \<times> write_result res" where
  "validated_write str_of c w p value verify d =
     (if (case pt_validator p of None \<Rightarrow> False | Some vd \<Rightarrow> \<not> validate vd value)
      then (d, Inr \<lparr>wr_status = VALIDATION_FAILED, wr_point_name = pt_name p, wr_value = value\<rparr>)
      else case (case pt_pipeline p of None \<Rightarrow> Inr value | Some ts \<Rightarrow> process_pipeline str_of ts value) of
        Inl e \<Rightarrow> (d, failed_write p value e)
      | Inr v0 \<Rightarrow>
        let v = float_to_int v0 in
        case encode_point p v of
          Inl e \<Rightarrow> (d, failed_write p v e)
        | Inr regs \<Rightarrow>
          (case write_to_device c w p regs d of
             (d', Inl e) \<Rightarrow> (d', failed_write p v e)
           | (d', Inr _) \<Rightarrow>
             if \<not> verify then (d', Inr \<lparr>wr_status = SUCCESS, wr_point_name = pt_name p, wr_value = v\<rparr>)
             else (case read_back c w p d' of
                 Inl e \<Rightarrow> (d', failed_write p v e)
               | Inr actual \<Rightarrow> (d', Inr \<lparr>wr_status = (if values_equal v actual then SUCCESS else VERIFICATION_FAILED),
                                       wr_point_name = pt_name p, wr_value = v\<rparr>))))"


section \<open>Groups cover their points\<close>

lemma group_runs_concat: "concat (map snd (group_runs key xs)) = xs"
  by (induction xs) (auto split: list.splits)

lemma group_runs_key: "(k, ys) \<in> set (group_runs key xs) \<Longrightarrow> ys \<noteq> [] \<and> (\<forall>y\<in>set ys. key y = k)"
proof (induction xs arbitrary: k ys)
  case (Cons x xs)
  show ?case
  proof (cases "group_runs key xs")
    case Nil
    then show ?thesis using Cons.prems by simp
  next
    case (Cons r gs)
    obtain j zs where r: "r = (j, zs)" by fastforce
    have IH: "ys \<noteq> [] \<and> (\<forall>y\<in>set ys. key y = k)" if "(k, ys) \<in> set ((j, zs) # gs)" for k ys
      using Cons.IH that unfolding Cons r .
    have "(k, ys) \<in> set (if j = key x then (j, x # zs) # gs else (key x, [x]) # (j, zs) # gs)"
      using Cons.prems Cons r by simp
    then show ?thesis using IH [of j zs] IH [of k ys] by (auto split: if_splits)
  qed
qed simp

lemma remdups_const: "xs \<noteq> [] \<Longrightarrow> \<forall>x\<in>set xs. f x = u \<Longrightarrow> remdups (map f xs) = [u]"
proof (induction xs)
  case (Cons x xs)
  then have "xs \<noteq> [] \<Longrightarrow> f x \<in> set (map f xs)" by (cases xs) auto
  then show ?case using Cons by (cases "xs = []") (simp_all del: set_map)
qed simp

definition group_covers :: "int \<Rightarrow> read_group \<Rightarrow> bool" where
  "group_covers n g \<longleftrightarrow> rg_points g \<noteq> []
     \<and> (\<forall>p\<in>set (rg_points g). pt_unit_id p = rg_unit_id g \<and> fc_key p = rg_function_code g
          \<and> rg_start_address g \<le> pt_address p \<and> point_end p \<le> rg_start_address g + rg_count g)
     \<and> (rg_count g \<le> n \<or> (\<exists>p\<in>set (rg_points g). rg_count g = int (register_count (pt_type p))))"

lemma mk_read_group_ok:
  "ps \<noteq> [] \<Longrightarrow> \<forall>p\<in>set ps. pt_unit_id p = uid \<Longrightarrow> mk_read_group fc start n ps uid =
    Inr \<lparr>rg_function_code = fc, rg_start_address = start, rg_count = n, rg_points = ps, rg_unit_id = uid\<rparr>"
  using remdups_const [of ps pt_unit_id uid] by (simp add: mk_read_group_def Let_def)

lemma merge_loop_covers:
  assumes "\<forall>p\<in>set (current @ ps). pt_unit_id p = uid \<and> fc_key p = fc" "sorted (map pt_address ps)"
    "current = [] \<or> (\<forall>p\<in>set current. start \<le> pt_address p \<and> point_end p \<le> stop) \<and> (\<forall>p\<in>set ps. start \<le> pt_address p)
       \<and> (stop - start \<le> n \<or> (\<exists>p\<in>set current. stop - start = int (register_count (pt_type p))))"
  shows "\<exists>gs. merge_loop fc uid n current start stop ps = Inr gs \<and> concat (map rg_points gs) = current @ ps
    \<and> (\<forall>g\<in>set gs. group_covers n g)"
  using assms
proof (induction fc uid n current start stop ps rule: merge_loop.induct)
  case (1 fc uid n current start stop)
  then show ?case by (cases "current = []") (auto simp: mk_read_group_ok group_covers_def)
next
  case (2 fc uid n current start stop p ps)
  have fresh: "\<forall>q\<in>set ([p] @ ps). pt_unit_id q = uid \<and> fc_key q = fc" "sorted (map pt_address ps)"
    "(\<forall>q\<in>set [p]. pt_address p \<le> pt_address q \<and> point_end q \<le> point_end p) \<and> (\<forall>q\<in>set ps. pt_address p \<le> pt_address q)
       \<and> (point_end p - pt_address p \<le> n \<or> (\<exists>q\<in>set [p]. point_end p - pt_address p = int (register_count (pt_type q))))"
    using 2(4,5) by (auto simp: point_end_def)
  show ?case
  proof (cases "current = []")
    case True
    then show ?thesis using 2(1) [OF True fresh(1,2)] fresh(3) by auto
  next
    case False
    then have cur: "\<forall>q\<in>set current. start \<le> pt_address q \<and> point_end q \<le> stop" "\<forall>q\<in>set (p # ps). start \<le> pt_address q"
        "stop - start \<le> n \<or> (\<exists>q\<in>set current. stop - start = int (register_count (pt_type q)))"
      using 2(6) by auto
    show ?thesis
    proof (cases "point_end p - start \<le> n")
      case fits: True
      have "\<forall>q\<in>set (current @ [p]). start \<le> pt_address q \<and> point_end q \<le> max stop (point_end p)" using cur(1,2) by auto
      moreover have "max stop (point_end p) - start \<le> n
          \<or> (\<exists>q\<in>set (current @ [p]). max stop (point_end p) - start = int (register_count (pt_type q)))"
        using cur(3) fits by (auto simp: max_def)
      ultimately show ?thesis
        using 2(2) [OF False fits] 2(4) fresh(2) cur(2) False fits by auto
    next
      case full: False
      obtain gs where gs: "merge_loop fc uid n [p] (pt_address p) (point_end p) ps = Inr gs"
          "concat (map rg_points gs) = [p] @ ps" "\<forall>g\<in>set gs. group_covers n g"
        using 2(3) [OF False full] fresh mk_read_group_ok [OF False, of uid fc start "stop - start"] 2(4) by auto
      have "group_covers n \<lparr>rg_function_code = fc, rg_start_address = start, rg_count = stop - start, rg_points = current, rg_unit_id = uid\<rparr>"
        using cur(1,3) 2(4) False by (auto simp: group_covers_def)
      then show ?thesis using gs full False 2(4) by (simp add: mk_read_group_ok)
    qed
  qed
qed


lemma bucket_sorted:
  assumes "sorted (map sort_point_key ps)" "\<forall>p\<in>set ps. bucket_key p = k"
  shows "sorted (map pt_address ps)"
proof -
  have "sort_point_key p \<le> sort_point_key q \<longleftrightarrow> pt_address p \<le> pt_address q" if "p \<in> set ps" "q \<in> set ps" for p q
  proof -
    have "bucket_key p = bucket_key q" using assms(2) that by simp
    then show ?thesis by (simp add: sort_point_key_def bucket_key_def)
  qed
  then show ?thesis using assms(1) unfolding sorted_map by (metis (no_types, lifting) sorted_wrt_mono_rel)
qed

lemma sorted_segment: "sorted (map f (concat yss)) \<Longrightarrow> ys \<in> set yss \<Longrightarrow> sorted (map f ys)"
  by (induction yss) (auto simp: sorted_append)

text \<open>Every group covers its points, and the groups list the points in sorted order.\<close>

definition groups_cover :: "grouper_config \<Rightarrow> read_group list \<Rightarrow> bool" where
  "groups_cover cfg gs \<longleftrightarrow> (\<forall>g\<in>set gs. group_covers (dict_get_or cfg (rg_function_code g) 125) g)"

lemma merge_runs_cover:
  assumes "\<forall>r\<in>set rs. (\<forall>y\<in>set (snd r). bucket_key y = fst r) \<and> sorted (map pt_address (snd r))"
  shows "\<exists>gss. rmap (\<lambda>((uid, _, fc), ps). merge_consecutive cfg ps fc uid) rs = Inr gss
    \<and> concat (map rg_points (concat gss)) = concat (map snd rs) \<and> groups_cover cfg (concat gss)"
  using assms
proof (induction rs)
  case (Cons r rs)
  obtain uid gr fc ps where r: "r = ((uid, gr, fc), ps)" by (cases r) auto
  have "\<forall>p\<in>set ([] @ ps). pt_unit_id p = uid \<and> fc_key p = fc" "sorted (map pt_address ps)"
    using Cons.prems by (auto simp: r bucket_key_def)
  then obtain gs where gs: "merge_consecutive cfg ps fc uid = Inr gs" "concat (map rg_points gs) = ps"
      "\<forall>g\<in>set gs. group_covers (dict_get_or cfg fc 125) g"
    unfolding merge_consecutive_def using merge_loop_covers [of "[]" ps uid fc 0 0 "dict_get_or cfg fc 125"] by auto
  have fcs: "rg_function_code g = fc" if "g \<in> set gs" for g
  proof -
    have "group_covers (dict_get_or cfg fc 125) g" using gs(3) that by blast
    then obtain p where p: "p \<in> set (rg_points g)" "fc_key p = rg_function_code g" by (cases "rg_points g") (auto simp: group_covers_def)
    then have "p \<in> set ps" using gs(2) that by auto
    then show ?thesis using p(2) \<open>\<forall>p\<in>set ([] @ ps). pt_unit_id p = uid \<and> fc_key p = fc\<close> by simp
  qed
  obtain gss where "rmap (\<lambda>((uid, _, fc), ps). merge_consecutive cfg ps fc uid) rs = Inr gss"
      "concat (map rg_points (concat gss)) = concat (map snd rs)" "groups_cover cfg (concat gss)"
    using Cons.IH Cons.prems by auto
  then show ?case using gs fcs by (auto simp: r groups_cover_def)
qed (simp add: groups_cover_def)

lemma group_points_cover:
  "\<exists>gs. group_points cfg points = Inr gs \<and> concat (map rg_points gs) = sort_key sort_point_key points \<and> groups_cover cfg gs"
proof (cases "points = []")
  case True
  then show ?thesis by (simp add: group_points_def groups_cover_def)
next
  case False
  let ?rs = "group_runs bucket_key (sort_key sort_point_key points)"
  have prem: "(\<forall>y\<in>set ys. bucket_key y = k) \<and> sorted (map pt_address ys)" if "(k, ys) \<in> set ?rs" for k ys
  proof -
    have "\<forall>y\<in>set ys. bucket_key y = k" using group_runs_key [OF that] by blast
    moreover have "sorted (map sort_point_key ys)"
    proof (rule sorted_segment [of sort_point_key "map snd ?rs" ys])
      show "sorted (map sort_point_key (concat (map snd ?rs)))" unfolding group_runs_concat by (rule sorted_sort_key)
      show "ys \<in> set (map snd ?rs)" using that image_eqI [of ys snd "(k, ys)" "set ?rs"] by simp
    qed
    ultimately show ?thesis using bucket_sorted by blast
  qed
  obtain gss where "rmap (\<lambda>((uid, _, fc), ps). merge_consecutive cfg ps fc uid) ?rs = Inr gss"
      "concat (map rg_points (concat gss)) = concat (map snd ?rs)" "groups_cover cfg (concat gss)"
    using merge_runs_cover [of ?rs cfg] prem by fastforce
  then show ?thesis using False by (simp add: group_points_def group_runs_concat)
qed

section \<open>A block read is as good as one read per point\<close>

text \<open>A device that answers every read of an existing function code with its registers.\<close>

definition answers :: "read_fn \<Rightarrow> (int \<Rightarrow> int \<Rightarrow> int \<Rightarrow> int) \<Rightarrow> bool" where
  "answers rd mem \<longleftrightarrow> (\<forall>fc a n u. fc \<in> {1, 2, 3, 4} \<longrightarrow> 0 \<le> n \<longrightarrow> rd fc a n u = Inr (map (\<lambda>i. mem u fc (a + int i)) [0..<nat n]))"

text \<open>Reading a point on its own.\<close>

definition own_value :: "(pyval \<Rightarrow> string) \<Rightarrow> (int \<Rightarrow> int \<Rightarrow> int \<Rightarrow> int) \<Rightarrow> group_reader \<Rightarrow> point \<Rightarrow> pyval res" where
  "own_value str_of mem r p = point_value str_of p
     (map (\<lambda>i. mem (case pt_unit_id p of Some u \<Rightarrow> u | None \<Rightarrow> gr_unit_id r) (fc_key p) (pt_address p + gr_address_offset r + int i))
        [0..<register_count (pt_type p)])"

lemma cut_block:
  assumes "start \<le> a" "a + int n \<le> start + c"
  shows "py_slice (map (\<lambda>i. f (start + off + int i)) [0..<nat c]) (a - start) (a - start + int n)
    = map (\<lambda>i. f (a + off + int i)) [0..<n]"
proof -
  have c: "nat (a - start) + n \<le> nat c" using assms by linarith
  have "py_slice (map (\<lambda>i. f (start + off + int i)) [0..<nat c]) (a - start) (a - start + int n)
      = take n (drop (nat (a - start)) (map (\<lambda>i. f (start + off + int i)) [0..<nat c]))"
    using assms by (intro py_slice_inside) simp_all
  also have "\<dots> = map (\<lambda>i. f (a + off + int i)) [0..<n]"
    using c assms(1) by (intro nth_equalityI) (simp_all add: algebra_simps)
  finally show ?thesis .
qed


definition put_points :: "(point \<Rightarrow> pyval) \<Rightarrow> point list \<Rightarrow> (string \<times> pyval) list \<Rightarrow> (string \<times> pyval) list" where
  "put_points v ps d = fold (\<lambda>p. dict_set (pt_name p) (v p)) ps d"

lemma put_points_new:
  "distinct (map pt_name ps) \<Longrightarrow> (\<And>p. p \<in> set ps \<Longrightarrow> pt_name p \<notin> set (dict_keys d)) \<Longrightarrow>
    put_points v ps d = d @ map (\<lambda>p. (pt_name p, v p)) ps"
proof (induction ps arbitrary: d)
  case (Cons p ps)
  have "dict_set (pt_name p) (v p) d = d @ [(pt_name p, v p)]" using Cons.prems(2) [of p] by (intro dict_set_keys_new) simp
  then have "put_points v (p # ps) d = put_points v ps (d @ [(pt_name p, v p)])" by (simp add: put_points_def)
  moreover have "pt_name q \<notin> set (dict_keys (d @ [(pt_name p, v p)]))" if "q \<in> set ps" for q
  proof -
    have "pt_name q \<noteq> pt_name p" using Cons.prems(1) that by (metis distinct.simps(2) image_eqI list.simps(9) set_map)
    then show ?thesis using Cons.prems(2) [of q] that by simp
  qed
  ultimately show ?case using Cons by simp
qed (simp add: put_points_def)

lemma dict_update_points:
  assumes "distinct (map pt_name ps)"
  shows "dict_update d (put_points v ps []) = put_points v ps d"
proof -
  have "put_points v ps [] = map (\<lambda>p. (pt_name p, v p)) ps" using put_points_new [OF assms, of "[]" v] by simp
  then show ?thesis by (simp add: dict_update_def put_points_def fold_map o_def split_beta')
qed

lemma decode_points_own:
  assumes "\<forall>p\<in>set ps. start \<le> pt_address p \<and> point_end p \<le> start + c \<and> fc_key p = fc
      \<and> (case pt_unit_id p of Some u \<Rightarrow> u | None \<Rightarrow> gr_unit_id r) = u"
    "\<forall>p\<in>set ps. own_value str_of mem r p = Inr (v p)"
  shows "decode_points str_of start (map (\<lambda>i. mem u fc (start + gr_address_offset r + int i)) [0..<nat c]) ps result
    = Inr (put_points v ps result)"
  using assms
proof (induction ps arbitrary: result)
  case (Cons p ps)
  let ?n = "register_count (pt_type p)"
  have cut: "py_slice (map (\<lambda>i. mem u fc (start + gr_address_offset r + int i)) [0..<nat c])
      (pt_address p - start) (pt_address p - start + int ?n)
      = map (\<lambda>i. mem u fc (pt_address p + gr_address_offset r + int i)) [0..<?n]"
    using Cons.prems(1) by (intro cut_block) (simp_all add: point_end_def)
  have "point_value str_of p (map (\<lambda>i. mem u fc (pt_address p + gr_address_offset r + int i)) [0..<?n]) = Inr (v p)"
    using Cons.prems by (simp add: own_value_def)
  then show ?case using Cons cut by (simp add: Let_def put_points_def)
qed (simp add: put_points_def)

lemma read_one_own:
  assumes "answers rd mem" "group_covers n g" "rg_function_code g \<in> {1, 2, 3, 4}" "0 \<le> rg_count g"
    "\<forall>p\<in>set (rg_points g). own_value str_of mem r p = Inr (v p)"
  shows "read_one str_of rd r g = Inr (put_points v (rg_points g) [])"
proof -
  let ?u = "case rg_unit_id g of Some u \<Rightarrow> u | None \<Rightarrow> gr_unit_id r"
  have raw: "read_from_device rd r g ?u = Inr (map (\<lambda>i. mem ?u (rg_function_code g) (rg_start_address g + gr_address_offset r + int i)) [0..<nat (rg_count g)])"
  proof -
    have "rd (rg_function_code g) (rg_start_address g + gr_address_offset r) (rg_count g) ?u
        = Inr (map (\<lambda>i. mem ?u (rg_function_code g) (rg_start_address g + gr_address_offset r + int i)) [0..<nat (rg_count g)])"
      using assms(1,3,4) unfolding answers_def by blast
    then show ?thesis using assms(3) by (simp only: read_from_device_def sum.case simp_thms if_True)
  qed
  have "\<forall>p\<in>set (rg_points g). rg_start_address g \<le> pt_address p \<and> point_end p \<le> rg_start_address g + rg_count g
      \<and> fc_key p = rg_function_code g \<and> (case pt_unit_id p of Some u \<Rightarrow> u | None \<Rightarrow> gr_unit_id r) = ?u"
    using assms(2) unfolding group_covers_def by auto
  then show ?thesis using raw decode_points_own [OF _ assms(5)] by (simp add: read_one_def Let_def)
qed

lemma read_all_own:
  assumes "\<And>g. g \<in> set gs \<Longrightarrow> f g = Inr (put_points v (rg_points g) [])" "distinct (map pt_name (concat (map rg_points gs)))"
  shows "read_serial f gs d = Inr (put_points v (concat (map rg_points gs)) d)
    \<and> read_gather f gs d = put_points v (concat (map rg_points gs)) d"
  using assms
proof (induction gs arbitrary: d)
  case (Cons g gs)
  have "dict_update d (put_points v (rg_points g) []) = put_points v (rg_points g) d"
    using Cons.prems(2) by (intro dict_update_points) simp
  then show ?case using Cons by (simp add: put_points_def)
qed (simp add: put_points_def)


definition demo_point :: "string \<Rightarrow> int \<Rightarrow> modbus_type \<Rightarrow> point" where
  "demo_point name a ty = \<lparr>pt_name = name, pt_address = a, pt_type = ty, pt_function_code = Some 3, pt_byte_order = BIG_ENDIAN,
     pt_register_order = HIGH_FIRST, pt_unit_id = None, pt_pipeline = None, pt_validator = None, pt_read_group = []\<rparr>"

definition demo_reader :: group_reader where
  "demo_reader = \<lparr>gr_unit_id = 1, gr_address_offset = 0, gr_max_concurrent = 1\<rparr>"


section \<open>Verified writes\<close>

text \<open>A device whose holding registers read back what an accepted write put there.\<close>

definition keeps_registers :: "'d modbus_client \<Rightarrow> bool" where
  "keeps_registers c \<longleftrightarrow> (\<forall>fc a regs u d d'. fc \<in> {6, 16} \<longrightarrow> mc_write c fc a regs u d = (d', Inr ())
     \<longrightarrow> mc_read c 3 a (int (length regs)) u d' = Inr regs)"

definition integer_type :: "modbus_type \<Rightarrow> bool" where
  "integer_type ty = (case ty of Float32 \<Rightarrow> False | Float64 \<Rightarrow> False | ModbusString n \<Rightarrow> False | _ \<Rightarrow> type_valid ty)"

lemma integer_type_encodes:
  assumes "integer_type ty" "type_encode ty v bo ro = Inr regs"
  shows "is_int_val v \<and> canonical ty v = PyInt (int_val v) \<and> type_valid ty \<and> ty \<noteq> Float32 \<and> ty \<noteq> Float64"
  using assms by (cases ty) (auto simp: integer_type_def int16_encode_def uint16_encode_def multi_int_encode_def dynamic_encode_def
    split: if_splits)

lemma values_equal_int: "is_int_val v \<Longrightarrow> values_equal v (PyInt (int_val v))"
  by (cases v) (simp_all add: values_equal_def)

lemma write_then_read_back:
  assumes "keeps_registers c" "integer_type (pt_type p)" "pt_function_code p \<in> {Some 6, Some 16}"
    "encode_point p v = Inr regs" "write_to_device c w p regs d = (d', Inr u)"
  shows "read_back c w p d' = Inr (PyInt (int_val v)) \<and> is_int_val v"
proof -
  have enc: "type_encode (pt_type p) v (pt_byte_order p) (pt_register_order p) = Inr regs"
    using assms(4) by (auto simp: encode_point_def rbind_def split: sum.splits if_splits)
  note int = integer_type_encodes [OF assms(2) enc]
  have len: "length regs = register_count (pt_type p)"
    and dec: "type_decode (pt_type p) regs (pt_byte_order p) (pt_register_order p) = Inr (PyInt (int_val v))"
    using type_laws [of "pt_type p" v _ _ regs "[]"] enc int by simp_all
  obtain fc where fc: "pt_function_code p = Some fc" "fc \<in> {6, 16}" using assms(3) by auto
  have "mc_write c fc (pt_address p + vw_address_offset w) regs (resolve_unit_id w p) d = (d', Inr ())"
    using assms(5) fc by (auto simp: write_to_device_def Let_def)
  then have "mc_read c 3 (pt_address p + vw_address_offset w) (int (length regs)) (resolve_unit_id w p) d' = Inr regs"
    using assms(1) fc(2) unfolding keeps_registers_def by blast
  then show ?thesis using fc int dec len by (auto simp: read_back_def Let_def)
qed

text \<open>
  A verified write of an integer register point on a device that keeps its registers never ends in
  \<open>VERIFICATION_FAILED\<close>; when it reports \<open>SUCCESS\<close> the point reads back the written value, and a value the
  validator refuses leaves the device as it was.
\<close>

theorem verified_write_stored:
  assumes "keeps_registers c" "integer_type (pt_type p)" "pt_function_code p \<in> {Some 6, Some 16}"
    "validated_write str_of c w p value True d = (d', Inr r)"
  shows "wr_status r \<noteq> VERIFICATION_FAILED
    \<and> (wr_status r = SUCCESS \<longrightarrow> read_back c w p d' = Inr (PyInt (int_val (wr_value r))))
    \<and> (wr_status r = VALIDATION_FAILED \<longrightarrow> d' = d)"
proof -
  consider (refused) "d' = d" "wr_status r = VALIDATION_FAILED" | (failed) "wr_status r = WRITE_FAILED"
    | (stored) v regs where "encode_point p v = Inr regs" "write_to_device c w p regs d = (d', Inr ())" "wr_value r = v"
        "case read_back c w p d' of Inl e \<Rightarrow> False | Inr actual \<Rightarrow> wr_status r = (if values_equal v actual then SUCCESS else VERIFICATION_FAILED)"
    using assms(4) unfolding validated_write_def Let_def failed_write_def
    by (auto split: sum.splits if_splits prod.splits)
  then show ?thesis
  proof cases
    case stored
    have "read_back c w p d' = Inr (PyInt (int_val v)) \<and> is_int_val v"
      by (rule write_then_read_back [OF assms(1-3) stored(1,2)])
    then show ?thesis using stored(3,4) values_equal_int by simp
  qed simp_all
qed

definition demo_memory :: "(int \<Rightarrow> int) modbus_client" where
  "demo_memory = \<lparr>mc_read = (\<lambda>fc a n u d. Inr (map (\<lambda>i. d (a + int i)) [0..<nat n])),
     mc_write = (\<lambda>fc a regs u d. (\<lambda>x. if a \<le> x \<and> x < a + int (length regs) then regs ! nat (x - a) else d x, Inr ()))\<rparr>"

lemma demo_memory_keeps: "keeps_registers demo_memory"
  by (auto simp: keeps_registers_def demo_memory_def intro!: nth_equalityI)

lemma demo_write_succeeds:
  "\<not> isl (snd (validated_write (\<lambda>_. []) demo_memory \<lparr>vw_unit_id = 1, vw_address_offset = 0\<rparr>
      ((demo_point ''p'' 40 Int32)\<lparr>pt_function_code := Some 16\<rparr>) (PyInt (- 5)) True (\<lambda>_. 0)))"
  by code_simp

theorem verified_write_stored_witness:
  "wr_status (projr (snd (validated_write (\<lambda>_. []) demo_memory \<lparr>vw_unit_id = 1, vw_address_offset = 0\<rparr>
      ((demo_point ''p'' 40 Int32)\<lparr>pt_function_code := Some 16\<rparr>) (PyInt (- 5)) True (\<lambda>_. 0)))) \<noteq> VERIFICATION_FAILED"
proof -
  let ?p = "(demo_point ''p'' 40 Int32)\<lparr>pt_function_code := Some 16\<rparr>" and ?w = "\<lparr>vw_unit_id = 1, vw_address_offset = 0\<rparr>"
  obtain d' r where out: "validated_write (\<lambda>_. []) demo_memory ?w ?p (PyInt (- 5)) True (\<lambda>_. 0) = (d', r)" by fastforce
  have "\<exists>x. r = Inr x" using demo_write_succeeds unfolding out by (cases r) simp_all
  then obtain x where x: "r = Inr x" by blast
  have "wr_status x \<noteq> VERIFICATION_FAILED"
    using verified_write_stored [OF demo_memory_keeps _ _ out [unfolded x]] by (simp add: demo_point_def integer_type_def)
  then show ?thesis using out x by simp
qed

section \<open>Rotation of the groups\<close>

definition scheduler_ok :: "read_scheduler \<Rightarrow> bool" where
  "scheduler_ok s \<longleftrightarrow> sc_rotating s = [] \<or> sc_index s < length (sc_rotating s)"

lemma scheduler_ok_steps [simp]:
  "scheduler_ok (scheduler_init always rotating)"
  "scheduler_ok s \<Longrightarrow> scheduler_ok (snd (get_next_groups s))"
  "scheduler_ok s \<Longrightarrow> scheduler_ok (update_groups always rotating s)"
  "scheduler_ok (scheduler_reset s)"
  by (auto simp: scheduler_ok_def scheduler_init_def get_next_groups_def update_groups_def scheduler_reset_def Let_def split: option.splits)

definition rounds :: "nat \<Rightarrow> read_scheduler \<Rightarrow> read_scheduler" where
  "rounds n s = ((\<lambda>s. snd (get_next_groups s)) ^^ n) s"

lemma rounds_index:
  "scheduler_ok s \<Longrightarrow> sc_rotating s \<noteq> [] \<Longrightarrow>
    sc_index (rounds n s) = (sc_index s + n) mod length (sc_rotating s) \<and> sc_rotating (rounds n s) = sc_rotating s
    \<and> sc_always (rounds n s) = sc_always s"
  by (induction n) (simp_all add: rounds_def scheduler_ok_def get_next_groups_def mod_Suc_eq)

lemma rounds_cycle:
  assumes "scheduler_ok s" "sc_rotating s \<noteq> []"
  shows "map (\<lambda>n. fst (get_next_groups (rounds n s))) [0..<length (sc_rotating s)]
    = map (\<lambda>gs. sc_always s @ gs) (rotate (sc_index s) (sc_rotating s))"
  using rounds_index [OF assms] assms(2)
  by (intro nth_equalityI) (simp_all add: get_next_groups_def nth_rotate)

text \<open>The groups shown ahead are the groups taken next.\<close>

lemma peek_is_next: "peek_next_groups s = fst (get_next_groups s)"
  by (simp add: peek_next_groups_def get_next_groups_def)

section \<open>Read-back of floating point values\<close>

text \<open>
  The tolerance of \<open>_values_equal\<close> is absolute: a single precision value near 1234 is off by up to
  \<open>6 * 10 ^ - 5\<close>, so a correct write of it fails its verification.
\<close>

lemma float32_verify_fails:
  "type_decode Float32 [17562, 17203] BIG_ENDIAN HIGH_FIRST = Inr (PyFloat (Fin (10109747 / 8192)))"
  "\<not> values_equal (PyFloat (Fin (12341 / 10))) (PyFloat (Fin (10109747 / 8192)))"
  "\<bar>12341 / 10 - 10109747 / 8192\<bar> < (1 / 16384 :: rat)"
  by (code_simp, simp add: values_equal_def, simp)

end
