(* ===== verification/Compensator.thy ===== *)
theory Compensator
  imports Command_Core
begin

text \<open>
  \<open>csp_lib/controller/compensator.py\<close>: the power compensator, a feed-forward table by power bin plus an
  integral of the error at the meter, with dead band, hold after a change of set-point, asymmetric
  anti-windup, rate limit and the two ways the table learns. A configuration holds finite numbers. The
  repository of the table is the list of the tables handed to its \<open>save\<close>; a failing \<open>save\<close> is logged and
  ignored by the code. What a repository loads is an argument.
\<close>

section \<open>Configuration and state\<close>

record comp_config =
  cc_rated_power :: rat
  cc_output_min :: rat
  cc_output_max :: rat
  cc_integral_time_seconds :: "rat option"
  cc_integral_max_ratio :: rat
  cc_deadband_ratio :: rat
  cc_deadband_setpoint_ratio :: rat
  cc_measurement_noise_kw :: "rat option"
  cc_power_bin_step_pct :: int
  cc_steady_state_threshold :: rat
  cc_steady_state_seconds :: rat
  cc_hold_seconds :: rat
  cc_setpoint_change_threshold_ratio :: rat
  cc_ff_min :: rat
  cc_ff_max :: rat
  cc_error_ema_alpha :: rat
  cc_rate_limit :: "rat option"
  cc_measurement_key :: string
  cc_saturation_learn_min_cycles :: int
  cc_saturation_learn_alpha :: rat
  cc_saturation_learn_max_step :: rat

definition comp_config_valid :: "comp_config \<Rightarrow> unit res" where
  "comp_config_valid c = (if cc_setpoint_change_threshold_ratio c < 0 then Inl ValueError else Inr ())"

record compensator =
  cp_enabled :: bool
  cp_repository :: bool
  cp_saved :: "(int \<times> flt) list list"
  cp_ff_table :: "(int \<times> flt) list"
  cp_integral :: flt
  cp_filtered_error :: flt
  cp_last_setpoint :: flt
  cp_last_output :: flt
  cp_steady_count :: int
  cp_integral_hold :: int
  cp_hold_initial :: int
  cp_cycles_in_hold :: int
  cp_last_error_magnitude :: flt
  cp_saturation_escape_count :: int

section \<open>Derived values\<close>

definition cycles_from_seconds :: "rat \<Rightarrow> flt \<Rightarrow> int \<Rightarrow> int res" where
  "cycles_from_seconds seconds dt floor_cycles =
     (if dt \<le> 0 then Inr floor_cycles
      else rbind (fdiv (Fin seconds) dt) (\<lambda>x. rbind (to_integer round_half_even x) (\<lambda>n. Inr (max floor_cycles n))))"

definition effective_ki :: "comp_config \<Rightarrow> rat" where
  "effective_ki c = (case cc_integral_time_seconds c of None \<Rightarrow> 0
     | Some t \<Rightarrow> if t \<le> 0 then 0 else cc_integral_max_ratio c / t)"

definition noise_floor :: "comp_config \<Rightarrow> rat" where
  "noise_floor c = (case cc_measurement_noise_kw c of None \<Rightarrow> 0 | Some n \<Rightarrow> if n > 0 then 3 * n else 0)"

definition effective_deadband :: "comp_config \<Rightarrow> rat" where
  "effective_deadband c = max (cc_deadband_ratio c * cc_rated_power c) (noise_floor c)"

definition deadband_for_setpoint :: "comp_config \<Rightarrow> flt \<Rightarrow> flt" where
  "deadband_for_setpoint c sp =
     (if cc_deadband_setpoint_ratio c \<le> 0 then Fin (effective_deadband c)
      else py_max (Fin (noise_floor c)) (py_min (Fin (effective_deadband c)) (fabs sp * Fin (cc_deadband_setpoint_ratio c))))"

definition initial_ff_table :: "comp_config \<Rightarrow> (int \<times> flt) list" where
  "initial_ff_table c =
     (let step = (if cc_power_bin_step_pct c \<le> 0 then 10 else cc_power_bin_step_pct c); n = 100 div step
      in map (\<lambda>i. (i, 1)) [- n..n])"

definition iclamp :: "int \<Rightarrow> int \<Rightarrow> int \<Rightarrow> int" where
  "iclamp x lo hi = max lo (min hi x)"

text \<open>The position on the axis of bins; \<open>100 // step\<close> on either side is the last bin.\<close>

definition bin_position :: "comp_config \<Rightarrow> flt \<Rightarrow> flt res" where
  "bin_position c p =
     rbind (fdiv p (Fin (cc_rated_power c))) (\<lambda>x. fdiv (x * 100) (Fin (of_int (cc_power_bin_step_pct c))))"

definition n_bins :: "comp_config \<Rightarrow> int" where
  "n_bins c = 100 div cc_power_bin_step_pct c"

definition get_bin_index :: "comp_config \<Rightarrow> flt \<Rightarrow> int res" where
  "get_bin_index c p =
     rbind (bin_position c p) (\<lambda>x. rbind (to_integer round_half_even x) (\<lambda>i.
       Inr (iclamp i (- n_bins c) (n_bins c))))"

definition ff_at :: "(int \<times> flt) list \<Rightarrow> int \<Rightarrow> flt" where
  "ff_at t i = dict_get_or t i 1"

definition get_ff :: "comp_config \<Rightarrow> flt \<Rightarrow> (int \<times> flt) list \<Rightarrow> flt res" where
  "get_ff c sp t =
     rbind (bin_position c sp) (\<lambda>pos.
     rbind (to_integer floor pos) (\<lambda>lo0. rbind (to_integer ceiling pos) (\<lambda>hi0.
       let lo = iclamp lo0 (- n_bins c) (n_bins c); hi = iclamp hi0 (- n_bins c) (n_bins c)
       in if lo = hi then Inr (ff_at t lo)
          else let frac = pos - Fin (of_int lo) in Inr (ff_at t lo * (1 - frac) + ff_at t hi * frac))))"

section \<open>The feed-forward table\<close>

definition save_ff_table :: "compensator \<Rightarrow> compensator" where
  "save_ff_table s = (if cp_repository s then s\<lparr>cp_saved := cp_saved s @ [cp_ff_table s]\<rparr> else s)"

definition put_ff :: "int \<Rightarrow> flt \<Rightarrow> compensator \<Rightarrow> compensator" where
  "put_ff i x s = s\<lparr>cp_ff_table := dict_set i x (cp_ff_table s)\<rparr>"

definition load_entries :: "(int \<times> flt) list \<Rightarrow> (int \<times> flt) list \<Rightarrow> (int \<times> flt) list" where
  "load_entries data t = fold (\<lambda>(i, x) t. if i \<in> set (dict_keys t) then dict_set i x t else t) data t"

definition comp_load_ff_table :: "(int \<times> flt) list \<Rightarrow> compensator \<Rightarrow> compensator" where
  "comp_load_ff_table data s = s\<lparr>cp_ff_table := load_entries data (cp_ff_table s)\<rparr>"

text \<open>\<open>_load_ff_table\<close>: a table of another step is interpolated; the keys of a dict are distinct.\<close>

definition migrated_value :: "(int \<times> flt) list \<Rightarrow> rat \<Rightarrow> flt option" where
  "migrated_value data pos =
     (case (dict_get data \<lfloor>pos\<rfloor>, dict_get data \<lceil>pos\<rceil>) of
        (Some x, Some y) \<Rightarrow> if \<lfloor>pos\<rfloor> = \<lceil>pos\<rceil> then Some x
          else let frac = Fin (pos - of_int \<lfloor>pos\<rfloor>) in Some (x * (1 - frac) + y * frac)
      | _ \<Rightarrow> None)"

definition migrate_table :: "comp_config \<Rightarrow> (int \<times> flt) list \<Rightarrow> int \<Rightarrow> (int \<times> flt) list \<Rightarrow> (int \<times> flt) list res" where
  "migrate_table c data file_max t =
     (let old_step = 100 div file_max; step = cc_power_bin_step_pct c
      in if step = 0 \<or> (t \<noteq> [] \<and> old_step = 0) then Inl ZeroDivisionError
         else Inr (map (\<lambda>(i, x). (i, case migrated_value data (of_int i / (of_int old_step / of_int step)) of None \<Rightarrow> x | Some y \<Rightarrow> y)) t))"

definition load_saved :: "comp_config \<Rightarrow> (int \<times> flt) list option \<Rightarrow> (compensator, unit) op" where
  "load_saved c loaded s = (case loaded of None \<Rightarrow> (Inr (), s) | Some [] \<Rightarrow> (Inr (), s)
     | Some data \<Rightarrow>
         let file_max = Max (set (map (\<lambda>(i, _). \<bar>i\<bar>) data)) in
         if cc_power_bin_step_pct c = 0 then (Inl ZeroDivisionError, s)
         else if file_max \<noteq> n_bins c \<and> file_max > 0 then
           (case migrate_table c data file_max (cp_ff_table s) of
              Inl e \<Rightarrow> (Inl e, s)
            | Inr t \<Rightarrow> (Inr (), save_ff_table (s\<lparr>cp_ff_table := t\<rparr>)))
         else (Inr (), comp_load_ff_table data s))"

definition compensator_init :: "comp_config \<Rightarrow> bool \<Rightarrow> (int \<times> flt) list option \<Rightarrow> compensator res" where
  "compensator_init c repository loaded =
     (let s = \<lparr>cp_enabled = True, cp_repository = repository, cp_saved = [], cp_ff_table = initial_ff_table c, cp_integral = 0,
          cp_filtered_error = 0, cp_last_setpoint = 0, cp_last_output = 0, cp_steady_count = 0, cp_integral_hold = 0,
          cp_hold_initial = 0, cp_cycles_in_hold = 0, cp_last_error_magnitude = 0, cp_saturation_escape_count = 0\<rparr>
      in if repository then (case load_saved c loaded s of (Inl e, _) \<Rightarrow> Inl e | (Inr _, s') \<Rightarrow> Inr s') else Inr s)"

definition comp_reset :: "compensator \<Rightarrow> compensator" where
  "comp_reset s = s\<lparr>cp_integral := 0, cp_filtered_error := 0, cp_last_setpoint := 0, cp_last_output := 0, cp_steady_count := 0,
     cp_integral_hold := 0, cp_hold_initial := 0, cp_cycles_in_hold := 0, cp_last_error_magnitude := 0, cp_saturation_escape_count := 0\<rparr>"

definition set_enabled :: "bool \<Rightarrow> compensator \<Rightarrow> compensator" where
  "set_enabled b s = (let s' = s\<lparr>cp_enabled := b\<rparr> in if b then s' else comp_reset s')"

definition reset_ff_table :: "comp_config \<Rightarrow> compensator \<Rightarrow> compensator" where
  "reset_ff_table c s = s\<lparr>cp_ff_table := initial_ff_table c\<rparr>"

definition update_ff_bin :: "comp_config \<Rightarrow> pyval \<Rightarrow> pyval \<Rightarrow> bool \<Rightarrow> (compensator, unit) op" where
  "update_ff_bin c bin_idx ff_ratio persist s = (case bin_idx of
       PyInt i \<Rightarrow>
         if i \<notin> set (dict_keys (cp_ff_table s)) then (Inl ValueError, s)
         else if is_non_finite_float ff_ratio then (Inl ValueError, s)
         else (case py_float ff_ratio of Inl e \<Rightarrow> (Inl e, s)
           | Inr x \<Rightarrow> if x < 0 then (Inl ValueError, s)
             else let s' = put_ff i (clamp x (Fin (cc_ff_min c)) (Fin (cc_ff_max c))) s
                  in (Inr (), if persist then save_ff_table s' else s'))
     | _ \<Rightarrow> (Inl TypeError, s))"

section \<open>The steps of a cycle\<close>

definition inherit_ff :: "comp_config \<Rightarrow> flt \<Rightarrow> flt \<Rightarrow> (compensator, unit) op" where
  "inherit_ff c old_sp new_sp s =
     (case rbind (get_bin_index c old_sp) (\<lambda>i. rbind (get_bin_index c new_sp) (\<lambda>j. Inr (i, j))) of
        Inl e \<Rightarrow> (Inl e, s)
      | Inr (i, j) \<Rightarrow>
          if i = j \<or> i * j < 0 then (Inr (), s)
          else let old_ff = ff_at (cp_ff_table s) i; new_ff = ff_at (cp_ff_table s) j
            in if fabs (new_ff - 1) < Fin (1 / 10 ^ 6) \<and> fabs (old_ff - 1) > Fin (1 / 10 ^ 6)
               then (Inr (), put_ff j old_ff s) else (Inr (), s))"

definition setpoint_change_policy :: "comp_config \<Rightarrow> flt \<Rightarrow> int \<Rightarrow> (compensator, unit) op" where
  "setpoint_change_policy c new_sp hold s =
     (if fabs (new_sp - cp_last_setpoint s) < Fin (cc_setpoint_change_threshold_ratio c * cc_rated_power c) then (Inr (), s)
      else inherit_ff c (cp_last_setpoint s) new_sp
        (s\<lparr>cp_integral := 0, cp_steady_count := 0, cp_integral_hold := hold, cp_hold_initial := hold, cp_cycles_in_hold := 0,
           cp_last_error_magnitude := PInf\<rparr>))"

definition filter_error :: "comp_config \<Rightarrow> flt \<Rightarrow> compensator \<Rightarrow> flt \<times> compensator" where
  "filter_error c error s =
     (if cc_error_ema_alpha c > 0
      then let fe = Fin (cc_error_ema_alpha c) * error + Fin (1 - cc_error_ema_alpha c) * cp_filtered_error s
           in (fe, s\<lparr>cp_filtered_error := fe\<rparr>)
      else (error, s))"

definition feed_forward :: "comp_config \<Rightarrow> flt \<Rightarrow> (int \<times> flt) list \<Rightarrow> flt res" where
  "feed_forward c sp t =
     rbind (get_ff c sp t) (\<lambda>ff.
       if sp \<ge> 0 then Inr (ff * sp) else if fabs ff > Fin (1 / 10 ^ 6) then fdiv sp ff else Inr sp)"

definition clamp_integral :: "comp_config \<Rightarrow> flt \<Rightarrow> flt" where
  "clamp_integral c x =
     (let ki = effective_ki c; m = cc_integral_max_ratio c * cc_rated_power c / ki
      in if ki = 0 then x else clamp x (Fin (- m)) (Fin m))"

text \<open>Step 6: the hold counts down, or the integral moves when the anti-windup allows it.\<close>

definition update_integral :: "comp_config \<Rightarrow> flt \<Rightarrow> flt \<Rightarrow> flt \<Rightarrow> flt \<Rightarrow> compensator \<Rightarrow> compensator" where
  "update_integral c ffo fe deadband dt s =
     (let sat_high = ffo \<ge> Fin (cc_output_max c); sat_low = ffo \<le> Fin (cc_output_min c) in
      if cp_integral_hold s > 0 then
        let m = fabs fe; n = cp_cycles_in_hold s + 1; s1 = s\<lparr>cp_cycles_in_hold := n, cp_last_error_magnitude := m\<rparr>
        in if n \<ge> cp_hold_initial s * 3 then s1\<lparr>cp_integral_hold := 0\<rparr>
           else if m < cp_last_error_magnitude s - deadband then s1
           else s1\<lparr>cp_integral_hold := cp_integral_hold s - 1\<rparr>
      else if (sat_high \<and> fe < - deadband) \<or> (sat_low \<and> fe > deadband) \<or> (\<not> (sat_high \<or> sat_low) \<and> fabs fe \<ge> deadband)
      then s\<lparr>cp_integral := clamp_integral c (cp_integral s + fe * dt)\<rparr>
      else s)"

text \<open>Steps 7 to 9; \<open>math.copysign(m, d)\<close> has the size of \<open>m\<close> and the sign of \<open>d\<close>.\<close>

definition copysign :: "flt \<Rightarrow> flt \<Rightarrow> flt" where
  "copysign m d = (if d < 0 then - fabs m else fabs m)"

definition limited_output :: "comp_config \<Rightarrow> flt \<Rightarrow> flt \<Rightarrow> compensator \<Rightarrow> flt" where
  "limited_output c ffo dt s =
     (let out = clamp (ffo + Fin (effective_ki c) * cp_integral s) (Fin (cc_output_min c)) (Fin (cc_output_max c))
      in case cc_rate_limit c of None \<Rightarrow> out
         | Some rate \<Rightarrow> if rate > 0 then
             let max_delta = Fin rate * dt; delta = out - cp_last_output s
             in if fabs delta > max_delta then cp_last_output s + copysign max_delta delta else out
           else out)"

definition learn_if_steady :: "comp_config \<Rightarrow> flt \<Rightarrow> flt \<Rightarrow> flt \<Rightarrow> int \<Rightarrow> (compensator, unit) op" where
  "learn_if_steady c sp fe deadband cycles s =
     (if fabs sp < py_max deadband (Fin (1 / 10 ^ 6)) then (Inr (), s\<lparr>cp_steady_count := 0\<rparr>)
      else if \<not> fabs fe < py_max (Fin (cc_steady_state_threshold c) * fabs sp) deadband then (Inr (), s\<lparr>cp_steady_count := 0\<rparr>)
      else let s1 = s\<lparr>cp_steady_count := cp_steady_count s + 1\<rparr>; i_term = Fin (effective_ki c) * cp_integral s in
        if cp_steady_count s1 < cycles then (Inr (), s1)
        else if fabs i_term < deadband then (Inr (), s1\<lparr>cp_steady_count := 0\<rparr>)
        else case get_bin_index c sp of Inl e \<Rightarrow> (Inl e, s1)
        | Inr i \<Rightarrow>
          let old_ff = ff_at (cp_ff_table s) i in
          case (if sp \<ge> 0 then fdiv (old_ff * sp + i_term) sp
                else rbind (fdiv sp old_ff) (\<lambda>x. let denom = x + i_term
                       in if fabs denom > Fin (1 / 10 ^ 6) then fdiv sp denom else Inr old_ff)) of
            Inl e \<Rightarrow> (Inl e, s1)
          | Inr x \<Rightarrow>
            let new_ff = clamp x (Fin (cc_ff_min c)) (Fin (cc_ff_max c))
            in (Inr (), (if fabs (new_ff - old_ff) > Fin (1 / 10 ^ 6)
                  then save_ff_table (put_ff i new_ff (s1\<lparr>cp_integral := 0\<rparr>)) else s1)\<lparr>cp_steady_count := 0\<rparr>))"

definition learn_from_saturation :: "comp_config \<Rightarrow> flt \<Rightarrow> flt \<Rightarrow> bool \<Rightarrow> flt \<Rightarrow> (compensator, unit) op" where
  "learn_from_saturation c sp meas sat_high out s =
     (let floor_kw = Fin (max (effective_deadband c) 1) in
      if cp_saturation_escape_count s < cc_saturation_learn_min_cycles c \<or> \<not> is_finite meas \<or> fabs meas < floor_kw
         \<or> sat_high \<and> meas \<le> 0 \<or> \<not> sat_high \<and> meas \<ge> 0 then (Inr (), s)
      else case get_bin_index c sp of Inl e \<Rightarrow> (Inl e, s)
      | Inr i \<Rightarrow>
        let old_ff = ff_at (cp_ff_table s) i in
        if fabs out < floor_kw then (Inr (), s)
        else case (if sat_high then fdiv out meas else fdiv meas out) of Inl e \<Rightarrow> (Inl e, s)
        | Inr physical \<Rightarrow>
          let alpha = cc_saturation_learn_alpha c; step = Fin (cc_saturation_learn_max_step c);
              smoothed = Fin alpha * physical + Fin (1 - alpha) * old_ff;
              new_ff = clamp (clamp smoothed (old_ff - step) (old_ff + step)) (Fin (cc_ff_min c)) (Fin (cc_ff_max c))
          in (Inr (), if fabs (new_ff - old_ff) > Fin (1 / 10 ^ 6) then save_ff_table (put_ff i new_ff s) else s))"

text \<open>Step 10.\<close>

definition learn :: "comp_config \<Rightarrow> flt \<Rightarrow> flt \<Rightarrow> flt \<Rightarrow> flt \<Rightarrow> flt \<Rightarrow> flt \<Rightarrow> int \<Rightarrow> (compensator, unit) op" where
  "learn c sp meas fe ffo out deadband cycles s =
     (let sat_high = ffo \<ge> Fin (cc_output_max c); sat_low = ffo \<le> Fin (cc_output_min c) in
      if sat_high \<or> sat_low then
        let s1 = s\<lparr>cp_saturation_escape_count := cp_saturation_escape_count s + 1\<rparr>
        in sbind (if cp_integral_hold s1 = 0 \<and> fabs sp \<ge> deadband then learn_from_saturation c sp meas sat_high out else op_ret ())
             (\<lambda>_. op_mod (\<lambda>s. s\<lparr>cp_steady_count := 0\<rparr>)) s1
      else learn_if_steady c sp fe deadband cycles (s\<lparr>cp_saturation_escape_count := 0\<rparr>))"

definition compensate :: "comp_config \<Rightarrow> flt \<Rightarrow> flt \<Rightarrow> flt \<Rightarrow> (compensator, flt) op" where
  "compensate c sp meas dt s =
     (if fabs sp < Fin (1 / 10 ^ 6)
      then (Inr 0, s\<lparr>cp_integral := 0, cp_last_setpoint := 0, cp_last_output := 0, cp_steady_count := 0\<rparr>)
      else let deadband = deadband_for_setpoint c sp in
        sbind (op_res (cycles_from_seconds (cc_hold_seconds c) dt 0)) (\<lambda>hold.
        sbind (op_res (cycles_from_seconds (cc_steady_state_seconds c) dt 1)) (\<lambda>steady.
        sbind (setpoint_change_policy c sp hold) (\<lambda>_.
        sbind (op_mod (\<lambda>s. s\<lparr>cp_last_setpoint := sp\<rparr>)) (\<lambda>_.
        sbind (\<lambda>s. (Inr (fst (filter_error c (sp - meas) s)), snd (filter_error c (sp - meas) s))) (\<lambda>fe.
        sbind (\<lambda>s. (feed_forward c sp (cp_ff_table s), s)) (\<lambda>ffo.
        sbind (op_mod (update_integral c ffo fe deadband dt)) (\<lambda>_.
        sbind (\<lambda>s. (Inr (limited_output c ffo dt s), s)) (\<lambda>out.
        sbind (learn c sp meas fe ffo out deadband steady) (\<lambda>_.
        sbind (op_mod (\<lambda>s. s\<lparr>cp_last_output := out\<rparr>)) (\<lambda>_. op_ret out)))))))))) s)"

definition comp_process :: "comp_config \<Rightarrow> command \<Rightarrow> strategy_context \<Rightarrow> (compensator, command) op" where
  "comp_process c cmd ctx s =
     (let meas = dict_get_or (ctx_extra ctx) (cc_measurement_key c) PyNone in
      case p_target cmd of NO_CHANGE \<Rightarrow> (Inr cmd, s)
      | Val sp \<Rightarrow>
        if \<not> cp_enabled s \<or> meas = PyNone \<or> is_non_finite_float meas then (Inr cmd, s)
        else sbind (op_res (py_float (dict_get_or (ctx_extra ctx) ''dt'' (PyFloat (Fin (3 / 10)))))) (\<lambda>dt.
             sbind (op_res (py_float meas)) (\<lambda>m.
             sbind (compensate c sp m dt) (\<lambda>p. op_ret (with_p cmd (Val p))))) s)"

section \<open>What every operation keeps\<close>

definition in_ff_range :: "comp_config \<Rightarrow> flt \<Rightarrow> bool" where
  "in_ff_range c x \<longleftrightarrow> (\<exists>q. x = Fin q \<and> cc_ff_min c \<le> q \<and> q \<le> cc_ff_max c)"

definition in_output_range :: "comp_config \<Rightarrow> flt \<Rightarrow> bool" where
  "in_output_range c x \<longleftrightarrow> (\<exists>q. x = Fin q \<and> cc_output_min c \<le> q \<and> q \<le> cc_output_max c)"

definition integral_bounded :: "comp_config \<Rightarrow> flt \<Rightarrow> bool" where
  "integral_bounded c x \<longleftrightarrow> (effective_ki c \<noteq> 0 \<longrightarrow>
     (\<exists>i. x = Fin i \<and> \<bar>effective_ki c * i\<bar> \<le> cc_integral_max_ratio c * cc_rated_power c))"

definition comp_inv :: "comp_config \<Rightarrow> compensator \<Rightarrow> bool" where
  "comp_inv c s \<longleftrightarrow> (\<forall>x\<in>snd ` set (cp_ff_table s). in_ff_range c x)
     \<and> dict_keys (cp_ff_table s) = dict_keys (initial_ff_table c)
     \<and> in_output_range c (cp_last_output s) \<and> integral_bounded c (cp_integral s)"

text \<open>A configuration whose ranges contain the neutral values.\<close>

definition comp_sound :: "comp_config \<Rightarrow> bool" where
  "comp_sound c \<longleftrightarrow> cc_ff_min c \<le> 1 \<and> 1 \<le> cc_ff_max c \<and> cc_output_min c \<le> 0 \<and> 0 \<le> cc_output_max c
     \<and> 0 \<le> cc_integral_max_ratio c \<and> 0 < cc_rated_power c \<and> 0 < cc_power_bin_step_pct c"

lemma clamp_in_ranges:
  "comp_sound c \<Longrightarrow> in_ff_range c (clamp x (Fin (cc_ff_min c)) (Fin (cc_ff_max c)))"
  "comp_sound c \<Longrightarrow> in_output_range c (clamp x (Fin (cc_output_min c)) (Fin (cc_output_max c)))"
  by (auto simp: in_ff_range_def in_output_range_def comp_sound_def intro!: clamp_bounds elim: order_trans)

lemma effective_ki_nonneg: "comp_sound c \<Longrightarrow> 0 \<le> effective_ki c"
  by (simp add: comp_sound_def effective_ki_def split: option.splits)

lemma clamp_integral_bounded:
  assumes "comp_sound c"
  shows "integral_bounded c (clamp_integral c x)"
proof (cases "effective_ki c = 0")
  case False
  let ?k = "effective_ki c" and ?m = "cc_integral_max_ratio c * cc_rated_power c"
  have m: "0 \<le> ?m" "0 < ?k" using assms effective_ki_nonneg [OF assms] False by (simp_all add: comp_sound_def)
  then obtain y where y: "clamp x (Fin (- (?m / ?k))) (Fin (?m / ?k)) = Fin y" "- (?m / ?k) \<le> y" "y \<le> ?m / ?k"
    using clamp_bounds [of "- (?m / ?k)" "?m / ?k" x] by auto
  have "\<bar>y\<bar> \<le> ?m / ?k" using y by linarith
  then have "?k * \<bar>y\<bar> \<le> ?m" using m(2) by (simp add: pos_le_divide_eq mult.commute)
  then have "\<bar>?k * y\<bar> \<le> ?m" using m(2) by (simp add: abs_mult)
  then show ?thesis using y(1) False by (simp add: integral_bounded_def clamp_integral_def Let_def)
qed (simp add: integral_bounded_def)

lemma initial_keys: "dict_keys (initial_ff_table c) = [- (100 div (if cc_power_bin_step_pct c \<le> 0 then 10 else cc_power_bin_step_pct c))..
    100 div (if cc_power_bin_step_pct c \<le> 0 then 10 else cc_power_bin_step_pct c)]"
  by (simp add: initial_ff_table_def Let_def o_def)

lemma bin_in_table:
  assumes "comp_sound c" "comp_inv c s" "get_bin_index c sp = Inr i"
  shows "i \<in> set (dict_keys (cp_ff_table s))"
proof -
  have step: "0 < cc_power_bin_step_pct c" using assms(1) by (simp add: comp_sound_def)
  then have "0 \<le> n_bins c" by (simp add: n_bins_def pos_imp_zdiv_nonneg_iff)
  then have "- n_bins c \<le> i \<and> i \<le> n_bins c"
    using assms(3) by (auto simp: get_bin_index_def iclamp_def res_simps)
  then show ?thesis using step assms(2) unfolding comp_inv_def initial_keys by (simp add: n_bins_def del: set_map)
qed

lemma ff_at_in_range:
  assumes "comp_sound c" "comp_inv c s"
  shows "in_ff_range c (ff_at (cp_ff_table s) i)"
proof (cases "dict_get (cp_ff_table s) i")
  case None
  then show ?thesis using assms(1) by (auto simp: ff_at_def dict_get_or_def in_ff_range_def comp_sound_def)
next
  case (Some x)
  then have "x \<in> snd ` set (cp_ff_table s)" using map_of_SomeD by force
  then show ?thesis using assms(2) Some unfolding comp_inv_def by (auto simp: ff_at_def dict_get_or_def)
qed

lemma put_ff_inv:
  assumes "comp_inv c s" "i \<in> set (dict_keys (cp_ff_table s))" "in_ff_range c x"
  shows "comp_inv c (put_ff i x s)"
proof -
  have "snd ` set (dict_set i x (cp_ff_table s)) \<subseteq> insert x (snd ` set (cp_ff_table s))"
    by (rule dict_set_values)
  then have "\<forall>y\<in>snd ` set (dict_set i x (cp_ff_table s)). in_ff_range c y"
    using assms(1,3) unfolding comp_inv_def by blast
  then show ?thesis using assms(1) dict_set_keys_old [OF assms(2)] by (simp add: comp_inv_def put_ff_def del: set_map)
qed

lemma comp_inv_cong:
  "cp_ff_table s' = cp_ff_table s \<Longrightarrow> cp_last_output s' = cp_last_output s \<Longrightarrow> cp_integral s' = cp_integral s \<Longrightarrow>
    comp_inv c s' = comp_inv c s"
  by (simp add: comp_inv_def)

lemma integral_bounded_zero [simp]: "comp_sound c \<Longrightarrow> integral_bounded c (Fin 0)"
  by (simp add: integral_bounded_def comp_sound_def)

lemma output_range_zero [simp]: "comp_sound c \<Longrightarrow> in_output_range c (Fin 0)"
  by (simp add: in_output_range_def comp_sound_def)

section \<open>Every operation keeps the invariant\<close>

lemma inherit_ff_inv:
  assumes "comp_sound c" "comp_inv c s"
  shows "comp_inv c (snd (inherit_ff c old_sp new_sp s))"
proof -
  have "comp_inv c (put_ff j (ff_at (cp_ff_table s) i) s)" if "get_bin_index c new_sp = Inr j" for i j
    using put_ff_inv [OF assms(2) bin_in_table [OF assms that] ff_at_in_range [OF assms]] .
  then show ?thesis using assms(2) by (auto simp: inherit_ff_def Let_def rbind_def split: sum.splits if_splits)
qed

lemma setpoint_change_inv:
  assumes "comp_sound c" "comp_inv c s"
  shows "comp_inv c (snd (setpoint_change_policy c sp hold s))"
proof -
  have "comp_inv c (s\<lparr>cp_integral := 0, cp_steady_count := 0, cp_integral_hold := hold, cp_hold_initial := hold, cp_cycles_in_hold := 0,
      cp_last_error_magnitude := PInf\<rparr>)"
    using assms by (simp add: comp_inv_def)
  then show ?thesis using inherit_ff_inv [OF assms(1)] assms(2) by (simp add: setpoint_change_policy_def)
qed

lemma update_integral_inv:
  "comp_sound c \<Longrightarrow> comp_inv c s \<Longrightarrow> comp_inv c (update_integral c ffo fe deadband dt s)"
  using clamp_integral_bounded [of c] by (simp add: update_integral_def Let_def comp_inv_def)

lemma save_keeps [simp]:
  "cp_ff_table (save_ff_table s) = cp_ff_table s" "cp_last_output (save_ff_table s) = cp_last_output s"
  "cp_integral (save_ff_table s) = cp_integral s"
  by (simp_all add: save_ff_table_def)

lemma comp_inv_fields [simp]:
  "comp_inv c (save_ff_table s) = comp_inv c s"
  "comp_inv c (s\<lparr>cp_steady_count := n\<rparr>) = comp_inv c s"
  "comp_inv c (s\<lparr>cp_saturation_escape_count := n\<rparr>) = comp_inv c s"
  "comp_inv c (s\<lparr>cp_filtered_error := x\<rparr>) = comp_inv c s"
  "comp_inv c (s\<lparr>cp_last_setpoint := x\<rparr>) = comp_inv c s"
  "comp_inv c (s\<lparr>cp_enabled := b\<rparr>) = comp_inv c s"
  by (rule comp_inv_cong; simp)+

lemma put_ff_learnt:
  assumes "comp_sound c" "comp_inv c s" "get_bin_index c sp = Inr i"
  shows "comp_inv c (put_ff i (clamp x (Fin (cc_ff_min c)) (Fin (cc_ff_max c))) s)"
  using put_ff_inv [OF assms(2) bin_in_table [OF assms] clamp_in_ranges(1) [OF assms(1)]] .

lemma learn_if_steady_inv:
  assumes "comp_sound c" "comp_inv c s"
  shows "comp_inv c (snd (learn_if_steady c sp fe deadband cycles s))"
proof -
  have z: "comp_inv c (s\<lparr>cp_steady_count := n, cp_integral := 0\<rparr>)" for n using assms by (simp add: comp_inv_def)
  have put: "comp_inv c (put_ff i (clamp x (Fin (cc_ff_min c)) (Fin (cc_ff_max c))) (s\<lparr>cp_steady_count := n, cp_integral := 0\<rparr>))"
    if "get_bin_index c sp = Inr i" for i x n
    by (rule put_ff_learnt [OF assms(1) z that])
  show ?thesis unfolding learn_if_steady_def Let_def
    by (simp split: sum.split) (use put assms in \<open>simp add: comp_inv_def\<close>)
qed

lemma learn_from_saturation_inv:
  assumes "comp_sound c" "comp_inv c s"
  shows "comp_inv c (snd (learn_from_saturation c sp meas hi out s))"
  using put_ff_learnt [OF assms] assms(2) unfolding learn_from_saturation_def Let_def
  by (auto split: sum.split)

lemma learn_inv:
  assumes "comp_sound c" "comp_inv c s"
  shows "comp_inv c (snd (learn c sp meas fe ffo out deadband cycles s))"
proof -
  have "preserves (comp_inv c) (if h then learn_from_saturation c sp meas hi out else op_ret ())" for h hi
    using learn_from_saturation_inv [OF assms(1)] by (cases h) (simp_all add: preserves_def)
  then have sat: "preserves (comp_inv c) (sbind (if h then learn_from_saturation c sp meas hi out else op_ret ())
      (\<lambda>_. op_mod (\<lambda>s. s\<lparr>cp_steady_count := 0\<rparr>)))" for h hi
    by (intro preserves_sbind preserves_mod) simp_all
  let ?s1 = "s\<lparr>cp_saturation_escape_count := cp_saturation_escape_count s + 1\<rparr>"
  show ?thesis
  proof (cases "ffo \<ge> Fin (cc_output_max c) \<or> ffo \<le> Fin (cc_output_min c)")
    case True
    have "comp_inv c ?s1" using assms(2) by simp
    then show ?thesis using True preservesD [OF sat, of ?s1] by (simp add: learn_def Let_def)
  next
    case False
    have "comp_inv c (s\<lparr>cp_saturation_escape_count := 0\<rparr>)" using assms(2) by simp
    then show ?thesis using False learn_if_steady_inv [OF assms(1)] by (simp add: learn_def Let_def)
  qed
qed

text \<open>The rate limit never leaves the output range, as it moves towards the limited output.\<close>

lemma limited_output_range:
  assumes "comp_sound c" "in_output_range c (cp_last_output s)" "\<not> dt < 0"
  shows "in_output_range c (limited_output c ffo dt s)"
proof -
  let ?out = "clamp (ffo + Fin (effective_ki c) * cp_integral s) (Fin (cc_output_min c)) (Fin (cc_output_max c))"
  obtain q where q: "?out = Fin q" "cc_output_min c \<le> q" "q \<le> cc_output_max c"
    using clamp_in_ranges(2) [OF assms(1)] unfolding in_output_range_def by blast
  obtain l where l: "cp_last_output s = Fin l" "cc_output_min c \<le> l" "l \<le> cc_output_max c"
    using assms(2) unfolding in_output_range_def by blast
  have "in_output_range c (Fin l + copysign (Fin rate * dt) (Fin q - Fin l))"
    if "rate > 0" "fabs (Fin q - Fin l) > Fin rate * dt" for rate
  proof (cases dt)
    case (Fin d)
    then have d: "0 \<le> rate * d" "rate * d < \<bar>q - l\<bar>" using assms(3) that by simp_all
    then show ?thesis using Fin q l by (auto simp: copysign_def in_output_range_def)
  qed (use that assms(3) in \<open>simp_all\<close>)
  then show ?thesis using q l unfolding limited_output_def Let_def
    by (auto split: option.split simp: in_output_range_def)
qed

lemma put_output_inv:
  assumes "comp_sound c" "comp_inv c s" "\<not> dt < 0"
  shows "comp_inv c (snd (sbind (\<lambda>s. (Inr (limited_output c ffo dt s), s)) (\<lambda>out.
      sbind (learn c sp meas fe ffo out deadband cycles) (\<lambda>_.
      sbind (op_mod (\<lambda>s. s\<lparr>cp_last_output := out\<rparr>)) (\<lambda>_. op_ret out))) s))"
proof -
  let ?out = "limited_output c ffo dt s"
  have out: "in_output_range c ?out" using limited_output_range assms unfolding comp_inv_def by blast
  obtain r s1 where learn: "learn c sp meas fe ffo ?out deadband cycles s = (r, s1)" by fastforce
  have "comp_inv c s1" using learn_inv [OF assms(1,2), of sp meas fe ffo ?out deadband cycles] learn by simp
  then show ?thesis using learn out by (cases r) (simp_all add: comp_inv_def)
qed

lemma compensate_inv:
  assumes "comp_sound c" "comp_inv c s" "\<not> dt < 0"
  shows "comp_inv c (snd (compensate c sp meas dt s))"
proof (cases "fabs sp < Fin (1 / 10 ^ 6)")
  case True
  then show ?thesis using assms by (simp add: compensate_def comp_inv_def)
next
  case False
  have filt: "comp_inv c (snd (filter_error c e s))" if "comp_inv c s" for e s
    using that by (simp add: filter_error_def Let_def)
  have tail: "preserves (comp_inv c) (sbind (\<lambda>s. (Inr (limited_output c ffo dt s), s)) (\<lambda>out.
      sbind (learn c sp meas fe ffo out deadband cycles) (\<lambda>_.
      sbind (op_mod (\<lambda>s. s\<lparr>cp_last_output := out\<rparr>)) (\<lambda>_. op_ret out))))" for fe ffo deadband cycles
    by (rule preservesI) (rule put_output_inv [OF assms(1) _ assms(3)])
  show ?thesis unfolding compensate_def if_not_P [OF False] Let_def
    by (rule preservesD [where law = "comp_inv c", OF _ assms(2)], intro tail preserves_sbind)
      (use assms(1) in \<open>auto intro!: preservesI setpoint_change_inv update_integral_inv filt\<close>)
qed

lemma compensate_output:
  assumes "compensate c sp meas dt s = (Inr p, s')"
  shows "cp_last_output s' = p"
  using assms unfolding compensate_def Let_def
  by (auto split: if_splits elim!: sbind_cases)

section \<open>A run of the compensator\<close>

datatype comp_event =
    CompProcess command strategy_context
  | CompCompensate flt flt flt
  | CompReset
  | CompResetTable
  | CompLoadTable "(int \<times> flt) list"
  | CompUpdateBin pyval pyval bool
  | CompEnable bool

fun comp_step :: "comp_config \<Rightarrow> comp_event \<Rightarrow> compensator \<Rightarrow> compensator" where
  "comp_step c (CompProcess cmd ctx) s = snd (comp_process c cmd ctx s)"
| "comp_step c (CompCompensate sp meas dt) s = snd (compensate c sp meas dt s)"
| "comp_step c CompReset s = comp_reset s"
| "comp_step c CompResetTable s = reset_ff_table c s"
| "comp_step c (CompLoadTable data) s = comp_load_ff_table data s"
| "comp_step c (CompUpdateBin i x b) s = snd (update_ff_bin c i x b s)"
| "comp_step c (CompEnable b) s = set_enabled b s"

definition context_dt :: "strategy_context \<Rightarrow> flt res" where
  "context_dt ctx = py_float (dict_get_or (ctx_extra ctx) ''dt'' (PyFloat (Fin (3 / 10))))"

text \<open>Time does not run backwards, and tables from outside respect the limits of the coefficients.\<close>

fun comp_ok :: "comp_config \<Rightarrow> comp_event \<Rightarrow> bool" where
  "comp_ok c (CompProcess cmd ctx) = (case context_dt ctx of Inl _ \<Rightarrow> True | Inr dt \<Rightarrow> \<not> dt < 0)"
| "comp_ok c (CompCompensate sp meas dt) = (\<not> dt < 0)"
| "comp_ok c (CompLoadTable data) = list_all (\<lambda>(i, x). in_ff_range c x) data"
| "comp_ok c e = True"

lemma initial_in_range: "comp_sound c \<Longrightarrow> x \<in> snd ` set (initial_ff_table c) \<Longrightarrow> in_ff_range c x"
  by (auto simp: initial_ff_table_def Let_def in_ff_range_def comp_sound_def)

lemma load_table_inv:
  "comp_inv c s \<Longrightarrow> list_all (\<lambda>(i, x). in_ff_range c x) data \<Longrightarrow> comp_inv c (comp_load_ff_table data s)"
proof (induction data arbitrary: s)
  case (Cons e data)
  obtain i x where e: "e = (i, x)" by fastforce
  let ?s1 = "if i \<in> set (dict_keys (cp_ff_table s)) then put_ff i x s else s"
  have "comp_inv c ?s1" using Cons.prems e put_ff_inv [of c s i x] by simp
  then have "comp_inv c (comp_load_ff_table data ?s1)" using Cons by simp
  moreover have "comp_load_ff_table (e # data) s = comp_load_ff_table data ?s1"
    by (simp add: comp_load_ff_table_def load_entries_def put_ff_def e)
  ultimately show ?case by simp
qed (simp add: comp_load_ff_table_def load_entries_def)

lemma mix_in_range:
  assumes "in_ff_range c x" "in_ff_range c y" "0 \<le> f" "f \<le> 1"
  shows "in_ff_range c (x * (1 - Fin f) + y * Fin f)"
proof -
  obtain a b where ab: "x = Fin a" "y = Fin b" "cc_ff_min c \<le> a" "a \<le> cc_ff_max c" "cc_ff_min c \<le> b" "b \<le> cc_ff_max c"
    using assms(1,2) unfolding in_ff_range_def by blast
  let ?g = "1 - f" and ?lo = "cc_ff_min c" and ?hi = "cc_ff_max c"
  have g: "0 \<le> ?g" using assms(4) by simp
  have "?lo * ?g + ?lo * f \<le> a * ?g + b * f" "a * ?g + b * f \<le> ?hi * ?g + ?hi * f"
    using ab g assms(3) by (auto intro!: add_mono mult_right_mono)
  moreover have "?lo * ?g + ?lo * f = ?lo" "?hi * ?g + ?hi * f = ?hi" by (simp_all add: algebra_simps)
  ultimately show ?thesis using ab(1,2) by (simp add: in_ff_range_def)
qed

lemma migrated_in_range:
  assumes "list_all (\<lambda>(i, x). in_ff_range c x) data" "migrated_value data pos = Some y"
  shows "in_ff_range c y"
proof -
  have dat: "in_ff_range c x" if "dict_get data i = Some x" for i x
    using assms(1) map_of_SomeD [OF that] by (auto simp: list_all_iff)
  have "0 \<le> pos - of_int \<lfloor>pos\<rfloor>" "pos - of_int \<lfloor>pos\<rfloor> \<le> 1" by linarith+
  then show ?thesis using assms(2) dat mix_in_range
    by (auto simp: migrated_value_def Let_def split: option.splits if_splits)
qed

lemma load_saved_inv:
  assumes "comp_inv c s" "list_all (\<lambda>(i, x). in_ff_range c x) (case loaded of None \<Rightarrow> [] | Some d \<Rightarrow> d)"
  shows "comp_inv c (snd (load_saved c loaded s))"
proof (cases loaded)
  case (Some data)
  have "comp_inv c (save_ff_table (s\<lparr>cp_ff_table := t\<rparr>))" if "migrate_table c data m (cp_ff_table s) = Inr t" for m t
  proof -
    let ?r = "\<lambda>i. of_int i / (of_int (100 div m) / of_int (cc_power_bin_step_pct c)) :: rat"
    have t: "t = map (\<lambda>(i, x). (i, case migrated_value data (?r i) of None \<Rightarrow> x | Some y \<Rightarrow> y)) (cp_ff_table s)"
      using that by (simp add: migrate_table_def Let_def split: if_splits)
    have "in_ff_range c x" if "x \<in> snd ` set t" for x
      using that migrated_in_range assms Some unfolding t comp_inv_def by (auto split: option.splits)
    moreover have "dict_keys t = dict_keys (cp_ff_table s)" unfolding t by (auto split: prod.split)
    ultimately show ?thesis using assms(1) unfolding comp_inv_fields by (simp add: comp_inv_def del: set_map map_map)
  qed
  then show ?thesis using Some assms load_table_inv [OF assms(1)]
    by (auto simp: load_saved_def Let_def split: list.split sum.split)
qed (use assms in \<open>simp add: load_saved_def\<close>)

lemma init_inv:
  assumes "comp_sound c" "list_all (\<lambda>(i, x). in_ff_range c x) (case loaded of None \<Rightarrow> [] | Some d \<Rightarrow> d)"
    "compensator_init c repository loaded = Inr s"
  shows "comp_inv c s"
proof -
  let ?s = "\<lparr>cp_enabled = True, cp_repository = repository, cp_saved = [], cp_ff_table = initial_ff_table c, cp_integral = 0,
      cp_filtered_error = 0, cp_last_setpoint = 0, cp_last_output = 0, cp_steady_count = 0, cp_integral_hold = 0,
      cp_hold_initial = 0, cp_cycles_in_hold = 0, cp_last_error_magnitude = 0, cp_saturation_escape_count = 0\<rparr>"
  have s: "comp_inv c ?s" using assms(1) initial_in_range [OF assms(1)] unfolding comp_inv_def by simp
  then have "comp_inv c (snd (load_saved c loaded ?s))" using assms(2) by (rule load_saved_inv)
  then show ?thesis using assms(3) s by (auto simp: compensator_init_def Let_def split: if_splits prod.splits sum.splits)
qed

lemma comp_step_inv:
  assumes "comp_sound c" "comp_inv c s" "comp_ok c e"
  shows "comp_inv c (comp_step c e s)"
proof (cases e)
  case (CompProcess cmd ctx)
  show ?thesis
  proof (cases "context_dt ctx")
    case (Inr dt)
    have "preserves (comp_inv c) (sbind (op_res (py_float m)) (\<lambda>m. sbind (compensate c sp m dt) (\<lambda>p. op_ret (with_p cmd (Val p)))))" for m sp
      using assms(1,3) CompProcess Inr by (intro preserves_sbind) (auto intro!: preservesI compensate_inv)
    then show ?thesis using assms(2) CompProcess Inr
      by (auto simp: comp_process_def Let_def context_dt_def preserves_def split: axis.split)
  qed (use CompProcess assms in \<open>auto simp: comp_process_def Let_def context_dt_def split: axis.split\<close>)
next
  case (CompUpdateBin i x b)
  have "comp_inv c (put_ff k (clamp y (Fin (cc_ff_min c)) (Fin (cc_ff_max c))) s)" if "k \<in> set (dict_keys (cp_ff_table s))" for k y
    by (rule put_ff_inv [OF assms(2) that clamp_in_ranges(1) [OF assms(1)]])
  then show ?thesis using CompUpdateBin assms(2)
    by (auto simp: update_ff_bin_def Let_def simp del: set_map split: pyval.split sum.split)
next
  case CompResetTable
  then show ?thesis using assms initial_in_range [OF assms(1)] by (auto simp: reset_ff_table_def comp_inv_def)
next
  case (CompCompensate sp meas dt)
  then show ?thesis using compensate_inv [OF assms(1,2)] assms(3) by simp
next
  case (CompLoadTable data)
  then show ?thesis using load_table_inv [OF assms(2)] assms(3) by simp
next
  case CompReset
  then show ?thesis using assms(1,2) by (simp add: comp_reset_def comp_inv_def)
next
  case (CompEnable b)
  then show ?thesis using assms(1,2) by (simp add: comp_reset_def set_enabled_def Let_def comp_inv_def)
qed

section \<open>Bounded commands\<close>

interpretation comp_run: step_invariant "comp_step c" "comp_ok c" "\<lambda>s. comp_sound c \<longrightarrow> comp_inv c s" for c
  by unfold_locales (blast intro: comp_step_inv)


definition demo_comp_config :: comp_config where
  "demo_comp_config = \<lparr>cc_rated_power = 2000, cc_output_min = - 2000, cc_output_max = 2000, cc_integral_time_seconds = Some (1 / 6),
     cc_integral_max_ratio = 1 / 20, cc_deadband_ratio = 1 / 4000, cc_deadband_setpoint_ratio = 1 / 50, cc_measurement_noise_kw = None,
     cc_power_bin_step_pct = 5, cc_steady_state_threshold = 1 / 50, cc_steady_state_seconds = 3 / 10, cc_hold_seconds = 0,
     cc_setpoint_change_threshold_ratio = 1 / 20000, cc_ff_min = 4 / 5, cc_ff_max = 3 / 2, cc_error_ema_alpha = 0, cc_rate_limit = None,
     cc_measurement_key = ''meter_power'', cc_saturation_learn_min_cycles = 2, cc_saturation_learn_alpha = 1 / 2,
     cc_saturation_learn_max_step = 3 / 100\<rparr>"

definition demo_comp :: compensator where
  "demo_comp = projr (compensator_init demo_comp_config False None)"

lemma demo_comp_runs:
  "compensate demo_comp_config (Fin 1000) (Fin 990) (Fin (3 / 10)) (run_steps (comp_step demo_comp_config) [] demo_comp)
    = (Inr (Fin (10009 / 10)), snd (compensate demo_comp_config (Fin 1000) (Fin 990) (Fin (3 / 10)) demo_comp))"
  by (rule prod_eqI) (code_simp, simp)

lemma demo_comp_sound: "comp_sound demo_comp_config" "compensator_init demo_comp_config False None = Inr demo_comp"
  by (simp_all add: comp_sound_def demo_comp_config_def demo_comp_def compensator_init_def Let_def)


section \<open>Learning without a bump\<close>

lemma get_ff_center:
  assumes "cc_rated_power c \<noteq> 0" "cc_power_bin_step_pct c \<noteq> 0" "\<bar>k\<bar> \<le> n_bins c"
    "sp = of_int k * of_int (cc_power_bin_step_pct c) / 100 * cc_rated_power c"
  shows "get_ff c (Fin sp) t = Inr (ff_at t k) \<and> get_bin_index c (Fin sp) = Inr k"
proof -
  have pos: "bin_position c (Fin sp) = Inr (Fin (of_int k))" using assms by (simp add: bin_position_def)
  have "iclamp k (- n_bins c) (n_bins c) = k" using assms(3) by (simp add: iclamp_def)
  then show ?thesis using pos by (simp add: get_ff_def get_bin_index_def)
qed

lemma ff_at_put [simp]: "ff_at (cp_ff_table (put_ff i x s)) j = (if j = i then x else ff_at (cp_ff_table s) j)"
  by (simp add: ff_at_def put_ff_def)

text \<open>A clamped value strictly inside its limits has not been changed.\<close>

lemma clamp_inside: "clamp x (Fin lo) (Fin hi) = Fin y \<Longrightarrow> lo < y \<Longrightarrow> y < hi \<Longrightarrow> x = Fin y"
  by (cases x) (auto simp: clamp_def py_max_def py_min_def split: if_splits)

lemma learn_if_steady_learns:
  assumes "learn_if_steady c sp fe deadband cycles s = (Inr (), s')" "cp_ff_table s' \<noteq> cp_ff_table s" "get_bin_index c sp = Inr k"
  obtains x where "cp_integral s' = 0" "cp_ff_table s' = dict_set k (clamp x (Fin (cc_ff_min c)) (Fin (cc_ff_max c))) (cp_ff_table s)"
    "(if sp \<ge> 0 then fdiv (ff_at (cp_ff_table s) k * sp + Fin (effective_ki c) * cp_integral s) sp
      else rbind (fdiv sp (ff_at (cp_ff_table s) k)) (\<lambda>y. let denom = y + Fin (effective_ki c) * cp_integral s
             in if fabs denom > Fin (1 / 10 ^ 6) then fdiv sp denom else Inr (ff_at (cp_ff_table s) k))) = Inr x"
    "fabs (clamp x (Fin (cc_ff_min c)) (Fin (cc_ff_max c)) - ff_at (cp_ff_table s) k) > Fin (1 / 10 ^ 6)"
  using assms unfolding learn_if_steady_def Let_def
  by (auto split: if_splits sum.splits simp: put_ff_def)

lemma fin_unless_fails:
  assumes "fdiv (Fin a + x) (Fin b) = Inr (Fin q)" "b \<noteq> 0"
  shows "\<exists>y. x = Fin y \<and> q = (a + y) / b"
  using assms by (cases x) (auto split: if_splits)

text \<open>
  Learning moves the integral into the table without a bump: when the steady-state rule changes the
  coefficient of the bin the set-point lies on, and the limits of the coefficient do not cut it off, the
  new feed-forward plus the (now empty) integral gives exactly the command of before.
\<close>

theorem learning_is_bumpless:
  assumes "comp_sound c" "1 / 10 ^ 6 < cc_ff_min c" "comp_inv c s" "\<bar>k\<bar> \<le> n_bins c"
    "sp = of_int k * of_int (cc_power_bin_step_pct c) / 100 * cc_rated_power c"
    "learn_if_steady c (Fin sp) fe deadband cycles s = (Inr (), s')" "cp_ff_table s' \<noteq> cp_ff_table s"
    "ff_at (cp_ff_table s') k = Fin f" "cc_ff_min c < f" "f < cc_ff_max c"
  shows "\<exists>x y i. feed_forward c (Fin sp) (cp_ff_table s) = Inr (Fin x) \<and> cp_integral s' = Fin 0
    \<and> Fin (effective_ki c) * cp_integral s = Fin i \<and> feed_forward c (Fin sp) (cp_ff_table s') = Inr (Fin y) \<and> y = x + i"
proof -
  let ?i = "Fin (effective_ki c) * cp_integral s" and ?old = "ff_at (cp_ff_table s) k"
  have center: "get_ff c (Fin sp) t = Inr (ff_at t k) \<and> get_bin_index c (Fin sp) = Inr k" for t
    by (rule get_ff_center) (use assms(1,4,5) in \<open>simp_all add: comp_sound_def\<close>)
  obtain a where a: "?old = Fin a" "cc_ff_min c \<le> a"
    using ff_at_in_range [OF assms(1,3), of k] unfolding in_ff_range_def by blast
  obtain x where x: "cp_integral s' = 0" "cp_ff_table s' = dict_set k (clamp x (Fin (cc_ff_min c)) (Fin (cc_ff_max c))) (cp_ff_table s)"
    "(if 0 \<le> Fin sp then fdiv (?old * Fin sp + ?i) (Fin sp) else rbind (fdiv (Fin sp) ?old)
        (\<lambda>y. let denom = y + ?i in if fabs denom > Fin (1 / 10 ^ 6) then fdiv (Fin sp) denom else Inr ?old)) = Inr x"
    "fabs (clamp x (Fin (cc_ff_min c)) (Fin (cc_ff_max c)) - ?old) > Fin (1 / 10 ^ 6)"
    using learn_if_steady_learns [OF assms(6,7)] center by blast
  have "clamp x (Fin (cc_ff_min c)) (Fin (cc_ff_max c)) = Fin f" using assms(8) unfolding x(2) by (simp add: ff_at_def)
  then have f: "x = Fin f" by (rule clamp_inside) (use assms(9,10) in simp_all)
  have pos: "1 / 10 ^ 6 < a" "1 / 10 ^ 6 < f" "0 < a" "0 < f" using assms(2,9) a(2) by auto
  show ?thesis
  proof (cases "0 \<le> sp")
    case True
    have "sp \<noteq> 0" using x(3) True by auto
    then obtain y where y: "?i = Fin y" "f = (a * sp + y) / sp"
      using x(3) True f a(1) fin_unless_fails [of "a * sp" ?i sp f] by auto
    then show ?thesis using True center assms(8) a(1) x(1) \<open>sp \<noteq> 0\<close> by (simp add: feed_forward_def)
  next
    case False
    then have "(if fabs (Fin (sp / a) + ?i) > Fin (1 / 10 ^ 6) then fdiv (Fin sp) (Fin (sp / a) + ?i) else Inr (Fin a)) = Inr (Fin f)"
      using x(3) pos f unfolding a(1) by (simp add: Let_def cong: if_cong)
    moreover have "f \<noteq> a" using x(4) a(1) f \<open>clamp x _ _ = Fin f\<close> by auto
    ultimately have "fabs (Fin (sp / a) + ?i) > Fin (1 / 10 ^ 6)" "fdiv (Fin sp) (Fin (sp / a) + ?i) = Inr (Fin f)"
      by (auto split: if_splits)
    then obtain y where y: "?i = Fin y" "f = sp / (sp / a + y)"
      using False pos by (cases ?i) (auto split: if_splits)
    have "sp / f = sp / a + y" using y(2) False by (cases "sp / a + y = 0") auto
    then show ?thesis using False center assms(8) a(1) x(1) pos y(1) by (simp add: feed_forward_def)
  qed
qed

definition learnt_comp :: compensator where
  "learnt_comp = snd (learn_if_steady demo_comp_config (Fin 1000) (Fin 10) (Fin (1 / 2)) 1 (demo_comp\<lparr>cp_integral := Fin 3\<rparr>))"

lemma learnt_comp_values:
  "fst (learn_if_steady demo_comp_config (Fin 1000) (Fin 10) (Fin (1 / 2)) 1 (demo_comp\<lparr>cp_integral := Fin 3\<rparr>)) = Inr ()"
  "ff_at (cp_ff_table learnt_comp) 10 = Fin (10009 / 10000)" "ff_at (cp_ff_table demo_comp) 10 = Fin 1"
  by (code_simp, code_simp, code_simp)

theorem learning_is_bumpless_witness:
  "\<exists>x y i. feed_forward demo_comp_config (Fin 1000) (cp_ff_table demo_comp) = Inr (Fin x) \<and> cp_integral learnt_comp = Fin 0
    \<and> Fin (effective_ki demo_comp_config) * Fin 3 = Fin i
    \<and> feed_forward demo_comp_config (Fin 1000) (cp_ff_table learnt_comp) = Inr (Fin y) \<and> y = x + i"
proof -
  let ?s = "demo_comp\<lparr>cp_integral := Fin 3\<rparr>"
  have "comp_inv demo_comp_config demo_comp" using init_inv [OF demo_comp_sound(1) _ demo_comp_sound(2)] by simp
  then have inv: "comp_inv demo_comp_config ?s" by (simp add: comp_inv_def integral_bounded_def effective_ki_def demo_comp_config_def)
  have run: "learn_if_steady demo_comp_config (Fin 1000) (Fin 10) (Fin (1 / 2)) 1 ?s = (Inr (), learnt_comp)"
    by (rule prod_eqI) (simp_all add: learnt_comp_values(1) learnt_comp_def)
  have "cp_ff_table learnt_comp \<noteq> cp_ff_table ?s" using learnt_comp_values(2,3) by auto
  then show ?thesis
    using learning_is_bumpless [OF demo_comp_sound(1) _ inv _ _ run, of 10 "10009 / 10000"] learnt_comp_values(2)
    by (simp add: demo_comp_config_def n_bins_def)
qed

section \<open>The hold ends\<close>

text \<open>
  Cycles on one set-point, given the feed-forward output, the error, the dead band and the time step of each:
  after at most three times the initial hold the hold is over, however the error behaves.
\<close>

definition hold_runs :: "compensator \<Rightarrow> bool" where
  "hold_runs s \<longleftrightarrow> cp_integral_hold s \<le> 0 \<or> cp_cycles_in_hold s < 3 * cp_hold_initial s"

lemma update_integral_hold:
  assumes "hold_runs s"
  shows "hold_runs (update_integral c ffo fe deadband dt s)
    \<and> (cp_integral_hold s \<le> 0 \<longrightarrow> cp_integral_hold (update_integral c ffo fe deadband dt s) \<le> 0)
    \<and> (0 < cp_integral_hold (update_integral c ffo fe deadband dt s) \<longrightarrow>
         cp_cycles_in_hold (update_integral c ffo fe deadband dt s) = cp_cycles_in_hold s + 1
         \<and> cp_hold_initial (update_integral c ffo fe deadband dt s) = cp_hold_initial s)"
  using assms by (auto simp: hold_runs_def update_integral_def Let_def)

lemma hold_ends:
  assumes "hold_runs s" "3 * cp_hold_initial s \<le> cp_cycles_in_hold s + int (length xs)"
  shows "cp_integral_hold (fold (\<lambda>(ffo, fe, deadband, dt). update_integral c ffo fe deadband dt) xs s) \<le> 0"
  using assms
proof (induction xs arbitrary: s)
  case Nil
  then show ?case by (auto simp: hold_runs_def)
next
  case (Cons x xs)
  obtain ffo fe deadband dt where x: "x = (ffo, fe, deadband, dt)" by (cases x) auto
  let ?s = "update_integral c ffo fe deadband dt s"
  have over: "cp_integral_hold (fold (\<lambda>(ffo, fe, deadband, dt). update_integral c ffo fe deadband dt) ys t) \<le> 0"
    if "cp_integral_hold t \<le> 0" for ys t
    using that by (induction ys arbitrary: t) (auto simp: update_integral_def Let_def)
  show ?case
  proof (cases "cp_integral_hold ?s > 0")
    case True
    then show ?thesis using Cons.IH [of ?s] Cons.prems update_integral_hold [OF Cons.prems(1), of c ffo fe deadband dt] x by simp
  qed (use over [of ?s] x in simp)
qed

section \<open>What the compensator leaves alone\<close>

text \<open>A measurement that is not finite, or an axis left unchanged, changes neither the command nor the state.\<close>

lemma process_bypass:
  "p_target cmd = NO_CHANGE \<or> is_non_finite_float (dict_get_or (ctx_extra ctx) (cc_measurement_key c) PyNone) \<Longrightarrow>
    comp_process c cmd ctx s = (Inr cmd, s)"
  by (auto simp: comp_process_def Let_def split: axis.split)

text \<open>A zero set-point is not subject to the rate limit: the command jumps to zero.\<close>

lemma zero_setpoint_jumps: "fst (compensate (c\<lparr>cc_rate_limit := Some r\<rparr>) 0 meas dt s) = Inr 0"
  by (simp add: compensate_def)

text \<open>A coefficient loaded from outside is not clamped: a zero one makes the learning of a charging bin raise.\<close>

lemma loaded_coefficient_raises:
  "fst (learn_if_steady demo_comp_config (Fin (- 1000)) (Fin 10) (Fin (1 / 2)) 1
      (comp_load_ff_table [(- 10, 0)] (demo_comp\<lparr>cp_integral := Fin 3\<rparr>))) = Inl ZeroDivisionError"
  by code_simp

end
