(* ===== verification/Reconcilers.thy ===== *)
theory Reconcilers
  imports Command_Router
begin

text \<open>
  The reconcilers, which push the desired state back to the devices: the scaffold of \<open>core/reconciler.py\<close>,
  the unconditional refresh of \<open>integration/command_refresh.py\<close> and the repair of drifted set-points of
  \<open>integration/setpoint_drift_reconciler.py\<close>. The order in which Python walks through a set of device
  ids, the clock and the cached readings of the devices are arguments. The periodic loops around
  \<open>reconcile_once\<close> are paced by \<open>next_tick_delay\<close> (theory \<open>Resilience\<close>).
\<close>

section \<open>The scaffold\<close>

record reconciler_status =
  rs_name :: string
  rs_last_run_at :: "rat option"
  rs_last_error :: "py_exc option"
  rs_run_count :: nat
  rs_healthy :: bool
  rs_detail :: "(string \<times> pyval) list"

record reconciler =
  rc_name :: string
  rc_run_count :: nat
  rc_status :: reconciler_status

definition empty_status :: "string \<Rightarrow> reconciler_status" where
  "empty_status name = \<lparr>rs_name = name, rs_last_run_at = None, rs_last_error = None, rs_run_count = 0, rs_healthy = True, rs_detail = []\<rparr>"

definition init_reconciler :: "string \<Rightarrow> reconciler" where
  "init_reconciler name = \<lparr>rc_name = name, rc_run_count = 0, rc_status = empty_status name\<rparr>"

text \<open>The work leaves its diagnostic detail also when it raises; the exception ends in the status.\<close>

definition reconcile_once :: "rat \<Rightarrow> ('s \<Rightarrow> unit res \<times> (string \<times> pyval) list \<times> 's) \<Rightarrow> reconciler \<times> 's \<Rightarrow> reconciler \<times> 's" where
  "reconcile_once now work hs =
     (let h = fst hs; (r, detail, s') = work (snd hs); n = rc_run_count h + 1;
          err = (case r of Inl e \<Rightarrow> Some e | Inr _ \<Rightarrow> None)
      in (h\<lparr>rc_run_count := n,
            rc_status := \<lparr>rs_name = rc_name h, rs_last_run_at = Some now, rs_last_error = err, rs_run_count = n,
              rs_healthy = (err = None), rs_detail = detail\<rparr>\<rparr>, s'))"

section \<open>Refreshing the desired state\<close>

record refresh_service =
  rf_interval :: rat
  rf_device_filter :: "string set option"

definition refresh_service_init :: "rat \<Rightarrow> string set option \<Rightarrow> refresh_service res" where
  "refresh_service_init interval flt =
     (if interval \<le> 0 then Inl ValueError else Inr \<lparr>rf_interval = interval, rf_device_filter = flt\<rparr>)"

definition refresh_targets :: "refresh_service \<Rightarrow> router \<Rightarrow> string set" where
  "refresh_targets sv r = (case rf_device_filter sv of None \<Rightarrow> get_tracked_device_ids r | Some f \<Rightarrow> get_tracked_device_ids r \<inter> f)"

definition refresh_device :: "router_env \<Rightarrow> string \<Rightarrow> router \<Rightarrow> router" where
  "refresh_device env did r = fold (\<lambda>(point, v) r. snd (try_write_single env did point v r)) (get_last_written r did) r"

definition refresh_once :: "router_env \<Rightarrow> (string set \<Rightarrow> string list) \<Rightarrow> refresh_service \<Rightarrow> router \<Rightarrow> router" where
  "refresh_once env iter sv r = fold (refresh_device env) (iter (refresh_targets sv r)) r"

section \<open>Repairing drifted set-points\<close>

record drift_tolerance =
  dt_absolute :: flt
  dt_relative :: flt

record drift_reconciler =
  dr_tolerance :: drift_tolerance
  dr_per_device :: "(string \<times> drift_tolerance) list"
  dr_min_rewrite_interval :: rat
  dr_last_write_at :: "((string \<times> string) \<times> rat) list"

definition tolerance_valid :: "drift_tolerance \<Rightarrow> bool" where
  "tolerance_valid t = (\<not> (dt_absolute t < 0 \<or> dt_relative t < 0))"

definition drift_reconciler_init :: "drift_tolerance \<Rightarrow> (string \<times> drift_tolerance) list \<Rightarrow> rat \<Rightarrow> drift_reconciler res" where
  "drift_reconciler_init tol per_device min_interval =
     (if \<not> tolerance_valid tol \<or> \<not> list_all (\<lambda>(_, t). tolerance_valid t) per_device \<or> min_interval < 0 then Inl ConfigurationError
      else Inr \<lparr>dr_tolerance = tol, dr_per_device = per_device, dr_min_rewrite_interval = min_interval, dr_last_write_at = []\<rparr>)"

definition is_bool_val :: "pyval \<Rightarrow> bool" where
  "is_bool_val v = (case v of PyBool _ \<Rightarrow> True | _ \<Rightarrow> False)"

definition is_drift :: "pyval \<Rightarrow> pyval \<Rightarrow> drift_tolerance \<Rightarrow> bool" where
  "is_drift desired actual tol =
     (if is_bool_val desired \<or> is_bool_val actual then \<not> py_eq desired actual
      else if \<not> is_num_val desired \<or> \<not> is_num_val actual then \<not> py_eq desired actual
      else let diff = fabs (flt_val actual - flt_val desired); size = fabs (flt_val desired) in
        if diff \<le> dt_absolute tol then False
        else if dt_relative tol > 0 \<and> size > 0 \<and> (case fdiv diff size of Inl e \<Rightarrow> False | Inr q \<Rightarrow> q \<le> dt_relative tol) then False
        else True)"

text \<open>The sentinel differs from every reading.\<close>

definition value_drifts :: "wvalue \<Rightarrow> pyval \<Rightarrow> drift_tolerance \<Rightarrow> bool" where
  "value_drifts v actual tol = (case v of WNoChange \<Rightarrow> True | WVal desired \<Rightarrow> is_drift desired actual tol)"

text \<open>What a round counts, and the points it has repaired.\<close>

record drift_round =
  dd_drift_count :: int
  dd_skipped :: int
  dd_fixed :: "string list"

text \<open>The clock after the \<open>n\<close>-th write is \<open>done n\<close>.\<close>

definition drift_point :: "router_env \<Rightarrow> rat \<Rightarrow> (nat \<Rightarrow> rat) \<Rightarrow> (string \<times> pyval) list \<Rightarrow> drift_tolerance \<Rightarrow> string \<Rightarrow> string \<times> wvalue
    \<Rightarrow> drift_round \<times> drift_reconciler \<times> router \<Rightarrow> drift_round \<times> drift_reconciler \<times> router" where
  "drift_point env now done latest tol did pv st =
     (case (pv, st) of ((point, v), (d, dr, r)) \<Rightarrow>
        case dict_get latest point of
          None \<Rightarrow> (d, dr, r)
        | Some actual \<Rightarrow>
          if \<not> value_drifts v actual tol then (d, dr, r)
          else let d1 = d\<lparr>dd_drift_count := dd_drift_count d + 1\<rparr>; cooldown = dr_min_rewrite_interval dr > 0 in
            if cooldown \<and> (case dict_get (dr_last_write_at dr) (did, point) of None \<Rightarrow> False | Some t \<Rightarrow> now - t < dr_min_rewrite_interval dr)
            then (d1\<lparr>dd_skipped := dd_skipped d1 + 1\<rparr>, dr, r)
            else (case try_write_single env did point v r of
                (False, r') \<Rightarrow> (d1, dr, r')
              | (True, r') \<Rightarrow>
                  (d1\<lparr>dd_fixed := dd_fixed d1 @ [did @ ''.'' @ point]\<rparr>,
                   (if cooldown then dr\<lparr>dr_last_write_at := dict_set (did, point) (done (length (rt_attempts r'))) (dr_last_write_at dr)\<rparr> else dr), r')))"

definition drift_device :: "router_env \<Rightarrow> rat \<Rightarrow> (nat \<Rightarrow> rat) \<Rightarrow> (nat \<Rightarrow> (string \<times> pyval) list) \<Rightarrow> string
    \<Rightarrow> drift_round \<times> drift_reconciler \<times> router \<Rightarrow> drift_round \<times> drift_reconciler \<times> router" where
  "drift_device env now done latest did st =
     (case st of (d, dr, r) \<Rightarrow>
        case get_device (re_registry env) did of
          None \<Rightarrow> st
        | Some dev \<Rightarrow>
            if \<not> dev_responsive (re_store env dev) then st
            else fold (drift_point env now done (latest dev) (dict_get_or (dr_per_device dr) did (dr_tolerance dr)) did)
                   (get_last_written r did) st)"

definition drift_work :: "router_env \<Rightarrow> rat \<Rightarrow> (nat \<Rightarrow> rat) \<Rightarrow> (nat \<Rightarrow> (string \<times> pyval) list) \<Rightarrow> (string set \<Rightarrow> string list)
    \<Rightarrow> drift_reconciler \<times> router \<Rightarrow> drift_round \<times> drift_reconciler \<times> router" where
  "drift_work env now done latest iter s =
     (case s of (dr, r) \<Rightarrow> fold (drift_device env now done latest) (iter (get_tracked_device_ids r))
        (\<lparr>dd_drift_count = 0, dd_skipped = 0, dd_fixed = []\<rparr>, dr, r))"

definition drift_detail :: "drift_reconciler \<Rightarrow> drift_round \<Rightarrow> (string \<times> pyval) list" where
  "drift_detail dr d = [(''drift_count'', PyInt (dd_drift_count d)), (''devices_fixed'', PyList (map PyStr (dd_fixed d)))]
     @ (if dr_min_rewrite_interval dr > 0 then [(''skipped_by_cooldown'', PyInt (dd_skipped d))] else [])"

definition drift_reconcile :: "router_env \<Rightarrow> rat \<Rightarrow> (nat \<Rightarrow> rat) \<Rightarrow> (nat \<Rightarrow> (string \<times> pyval) list) \<Rightarrow> (string set \<Rightarrow> string list)
    \<Rightarrow> drift_reconciler \<times> router \<Rightarrow> unit res \<times> (string \<times> pyval) list \<times> drift_reconciler \<times> router" where
  "drift_reconcile env now done latest iter s =
     (case drift_work env now done latest iter s of (d, dr, r) \<Rightarrow> (Inr (), drift_detail dr d, dr, r))"

section \<open>A refresh rewrites the desired state and leaves it alone\<close>

text \<open>The device a write to an id reaches, if the router lets it through.\<close>

definition write_target :: "router_env \<Rightarrow> string \<Rightarrow> nat option" where
  "write_target env did = (case get_device (re_registry env) did of None \<Rightarrow> None
     | Some dev \<Rightarrow> if may_write env dev then Some dev else None)"

lemma try_write_single_target:
  "try_write_single env did point v r =
     (case write_target env did of None \<Rightarrow> (False, r)
      | Some dev \<Rightarrow> if v = WNoChange then (False, r) else write_and_record env dev did point v r)"
  by (simp add: try_write_single_def write_target_def may_write_def Let_def split: option.split)

lemma rewrite_desired:
  assumes "dict_get (get_last_written r did) point = Some v"
  shows "rt_last_written (snd (try_write_single env did point v r)) = rt_last_written r"
proof -
  have "dict_get (rt_last_written r) did \<noteq> None"
    using assms by (auto simp: get_last_written_def dict_get_or_def split: option.splits)
  then have "dict_get (rt_last_written r) did = Some (get_last_written r did)"
    by (auto simp: get_last_written_def dict_get_or_def)
  then show ?thesis using assms
    by (simp add: try_write_single_target dict_set_same get_last_written_def split: option.split)
qed

text \<open>The writes a list of points of one device asks for.\<close>

definition desired_writes :: "router_env \<Rightarrow> string \<Rightarrow> (string \<times> wvalue) list \<Rightarrow> (nat \<times> string \<times> wvalue) list" where
  "desired_writes env did pvs = (case write_target env did of None \<Rightarrow> []
     | Some dev \<Rightarrow> map (\<lambda>(p, v). (dev, p, v)) (filter (\<lambda>(p, v). v \<noteq> WNoChange) pvs))"

lemma rewrite_points:
  assumes "\<forall>(p, v)\<in>set pvs. dict_get (get_last_written r did) p = Some v"
  shows "rt_last_written (fold (\<lambda>(p, v) r. snd (try_write_single env did p v r)) pvs r) = rt_last_written r
    \<and> rt_attempts (fold (\<lambda>(p, v) r. snd (try_write_single env did p v r)) pvs r) = rt_attempts r @ desired_writes env did pvs"
  using assms
proof (induction pvs arbitrary: r)
  case (Cons pv pvs)
  obtain p v where pv: "pv = (p, v)" by fastforce
  let ?r = "snd (try_write_single env did p v r)"
  have same: "rt_last_written ?r = rt_last_written r" using Cons.prems pv by (intro rewrite_desired) simp
  then have "\<forall>(p, v)\<in>set pvs. dict_get (get_last_written ?r did) p = Some v"
    using Cons.prems by (simp add: get_last_written_def)
  moreover have "rt_attempts ?r = rt_attempts r @ desired_writes env did [(p, v)]"
    by (simp add: try_write_single_target desired_writes_def split: option.split)
  moreover have "desired_writes env did (pv # pvs) = desired_writes env did [(p, v)] @ desired_writes env did pvs"
    by (simp add: desired_writes_def pv split: option.split)
  ultimately show ?case using Cons.IH [of ?r] same pv by simp
qed (simp add: desired_writes_def split: option.split)

text \<open>A dict has one entry per key.\<close>

definition dicts_ok :: "router \<Rightarrow> bool" where
  "dicts_ok r \<longleftrightarrow> (\<forall>did. distinct (dict_keys (get_last_written r did)))"

lemma last_written_entries: "dicts_ok r \<Longrightarrow> \<forall>(p, v)\<in>set (get_last_written r did). dict_get (get_last_written r did) p = Some v"
  by (auto simp: dicts_ok_def)

text \<open>
  A refresh rewrites exactly the desired state: every tracked device that passes the filter, is known,
  responsive and unprotected gets each of its points once, with the value kept for it, whichever writes
  fail and whatever the order of the set; the desired state itself does not change, so refreshing again
  asks for the same writes.
\<close>

theorem refresh_exact:
  assumes "dicts_ok r"
  shows "rt_last_written (refresh_once env iter sv r) = rt_last_written r
    \<and> rt_attempts (refresh_once env iter sv r) =
        rt_attempts r @ concat (map (\<lambda>did. desired_writes env did (get_last_written r did)) (iter (refresh_targets sv r)))"
proof -
  have "rt_last_written (fold (refresh_device env) dids q) = rt_last_written r
      \<and> rt_attempts (fold (refresh_device env) dids q) =
          rt_attempts q @ concat (map (\<lambda>did. desired_writes env did (get_last_written r did)) dids)"
    if "rt_last_written q = rt_last_written r" for dids q
    using that
  proof (induction dids arbitrary: q)
    case (Cons did dids)
    have last: "get_last_written q = get_last_written r" using Cons.prems by (auto simp: get_last_written_def)
    then have "\<forall>(p, v)\<in>set (get_last_written q did). dict_get (get_last_written q did) p = Some v"
      using last_written_entries [OF assms] by simp
    note one = rewrite_points [OF this, of env, folded refresh_device_def]
    then show ?case using Cons.IH [of "refresh_device env did q"] Cons.prems last by simp
  qed simp
  then show ?thesis by (simp add: refresh_once_def)
qed

definition demo_router :: router where
  "demo_router = \<lparr>rt_last_written = [(''a'', [(''p_set'', WVal (PyFloat 10))])], rt_attempts = [], rt_raised = None\<rparr>"

lemma demo_router_ok: "dicts_ok demo_router"
  by (simp add: dicts_ok_def demo_router_def get_last_written_def dict_get_or_def)

theorem refresh_exact_witness:
  "rt_attempts (refresh_once demo_env (\<lambda>A. if ''a'' \<in> A then [''a''] else []) \<lparr>rf_interval = 1, rf_device_filter = None\<rparr> demo_router)
    = [(0, ''p_set'', WVal (PyFloat 10))]"
  using refresh_exact [OF demo_router_ok, of demo_env "\<lambda>A. if ''a'' \<in> A then [''a''] else []" "\<lparr>rf_interval = 1, rf_device_filter = None\<rparr>"]
  by (simp add: demo_router_def refresh_targets_def get_tracked_device_ids_def desired_writes_def write_target_def may_write_def
    get_last_written_def dict_get_or_def demo_env_def demo_store_def get_device_def)

section \<open>A repair rewrites exactly what has drifted\<close>

definition cooling :: "rat \<Rightarrow> drift_reconciler \<Rightarrow> string \<Rightarrow> string \<Rightarrow> bool" where
  "cooling now dr did point \<longleftrightarrow> dr_min_rewrite_interval dr > 0
     \<and> (case dict_get (dr_last_write_at dr) (did, point) of None \<Rightarrow> False | Some t \<Rightarrow> now - t < dr_min_rewrite_interval dr)"

definition due :: "rat \<Rightarrow> (string \<times> pyval) list \<Rightarrow> drift_tolerance \<Rightarrow> drift_reconciler \<Rightarrow> string \<Rightarrow> string \<times> wvalue \<Rightarrow> bool" where
  "due now latest tol dr did pv \<longleftrightarrow> (case pv of (point, v) \<Rightarrow>
     (case dict_get latest point of None \<Rightarrow> False | Some actual \<Rightarrow> value_drifts v actual tol \<and> \<not> cooling now dr did point))"

text \<open>The same configuration, and the same last write of the points that were not visited.\<close>

definition same_besides :: "(string \<times> string) set \<Rightarrow> drift_reconciler \<Rightarrow> drift_reconciler \<Rightarrow> bool" where
  "same_besides K dr dr' \<longleftrightarrow> dr_tolerance dr' = dr_tolerance dr \<and> dr_per_device dr' = dr_per_device dr
     \<and> dr_min_rewrite_interval dr' = dr_min_rewrite_interval dr
     \<and> (\<forall>k. k \<notin> K \<longrightarrow> dict_get (dr_last_write_at dr') k = dict_get (dr_last_write_at dr) k)"

lemma same_besides_refl [simp]: "same_besides K dr dr"
  by (simp add: same_besides_def)

lemma same_besides_trans: "same_besides K dr dr1 \<Longrightarrow> same_besides L dr1 dr2 \<Longrightarrow> same_besides (K \<union> L) dr dr2"
  by (simp add: same_besides_def)

lemma same_besides_due: "same_besides K dr dr' \<Longrightarrow> (did, fst pv) \<notin> K \<Longrightarrow> due now latest tol dr' did pv = due now latest tol dr did pv"
  by (cases pv) (simp add: due_def cooling_def same_besides_def split: option.split)

lemma drift_point_effect:
  assumes "drift_point env now done latest tol did (p, v) (d, dr, r) = (d', dr', r')" "dict_get (get_last_written r did) p = Some v"
  shows "rt_last_written r' = rt_last_written r
    \<and> rt_attempts r' = rt_attempts r @ (if due now latest tol dr did (p, v) then desired_writes env did [(p, v)] else [])
    \<and> same_besides {(did, p)} dr dr'"
proof (cases "due now latest tol dr did (p, v)")
  case False
  then show ?thesis using assms(1)
    by (auto simp: drift_point_def due_def cooling_def Let_def split: option.splits if_splits)
next
  case True
  obtain ok r1 where w: "try_write_single env did p v r = (ok, r1)" by fastforce
  have "r' = r1 \<and> same_besides {(did, p)} dr dr'"
    using assms(1) True w
    by (auto simp: drift_point_def due_def cooling_def Let_def same_besides_def map_of_dict_set split: option.splits if_splits bool.splits)
  moreover have "rt_last_written r1 = rt_last_written r" using rewrite_desired [OF assms(2), of env] w by simp
  moreover have "rt_attempts r1 = rt_attempts r @ desired_writes env did [(p, v)]"
    using arg_cong [OF w, of "\<lambda>x. rt_attempts (snd x)"] by (auto simp: try_write_single_target desired_writes_def split: option.splits if_splits)
  ultimately show ?thesis using True by simp
qed

lemma desired_writes_Cons: "desired_writes env did (pv # pvs) = desired_writes env did [pv] @ desired_writes env did pvs"
  by (simp add: desired_writes_def split: option.split)

lemma drift_points_effect:
  assumes "fold (drift_point env now done latest tol did) pvs (d, dr, r) = (d', dr', r')" "distinct (map fst pvs)"
    "\<forall>(p, v)\<in>set pvs. dict_get (get_last_written r did) p = Some v"
  shows "rt_last_written r' = rt_last_written r
    \<and> rt_attempts r' = rt_attempts r @ desired_writes env did (filter (due now latest tol dr did) pvs)
    \<and> same_besides (Pair did ` fst ` set pvs) dr dr'"
  using assms
proof (induction pvs arbitrary: d dr r)
  case (Cons pv pvs)
  obtain p v where pv: "pv = (p, v)" by fastforce
  obtain d1 dr1 r1 where one: "drift_point env now done latest tol did (p, v) (d, dr, r) = (d1, dr1, r1)" by (metis prod_cases3)
  have eff: "rt_last_written r1 = rt_last_written r" "same_besides {(did, p)} dr dr1"
    "rt_attempts r1 = rt_attempts r @ (if due now latest tol dr did (p, v) then desired_writes env did [(p, v)] else [])"
    using drift_point_effect [OF one] Cons.prems(3) pv by simp_all
  have "fold (drift_point env now done latest tol did) pvs (d1, dr1, r1) = (d', dr', r')" using Cons.prems(1) one pv by simp
  moreover have "\<forall>(p, v)\<in>set pvs. dict_get (get_last_written r1 did) p = Some v"
    using Cons.prems(3) eff(1) by (simp add: get_last_written_def)
  ultimately have IH: "rt_last_written r' = rt_last_written r1" "same_besides (Pair did ` fst ` set pvs) dr1 dr'"
    "rt_attempts r' = rt_attempts r1 @ desired_writes env did (filter (due now latest tol dr1 did) pvs)"
    using Cons.IH [of d1 dr1 r1] Cons.prems(2) by simp_all
  have "(did, fst qv) \<notin> {(did, p)}" if "qv \<in> set pvs" for qv
    using Cons.prems(2) that pv by (auto simp: image_iff)
  then have same: "filter (due now latest tol dr1 did) pvs = filter (due now latest tol dr did) pvs"
    by (intro filter_cong refl same_besides_due [OF eff(2)])
  have attempts: "rt_attempts r' = rt_attempts r @ desired_writes env did (filter (due now latest tol dr did) (pv # pvs))"
    using IH(3) eff(3) same pv by (simp add: desired_writes_Cons [of env did _ "filter _ _"])
  have "same_besides (Pair did ` fst ` set (pv # pvs)) dr dr'"
    using same_besides_trans [OF eff(2) IH(2)] pv by simp
  then show ?case using attempts IH(1) eff(1) by simp
qed (simp add: desired_writes_def split: option.split)

definition drift_writes :: "router_env \<Rightarrow> rat \<Rightarrow> (nat \<Rightarrow> (string \<times> pyval) list) \<Rightarrow> drift_reconciler \<Rightarrow> router \<Rightarrow> string
    \<Rightarrow> (nat \<times> string \<times> wvalue) list" where
  "drift_writes env now latest dr r did = (case get_device (re_registry env) did of None \<Rightarrow> []
     | Some dev \<Rightarrow> if \<not> dev_responsive (re_store env dev) then []
         else desired_writes env did (filter (due now (latest dev) (dict_get_or (dr_per_device dr) did (dr_tolerance dr)) dr did) (get_last_written r did)))"

lemma drift_device_effect:
  assumes "drift_device env now done latest did (d, dr, r) = (d', dr', r')" "dicts_ok r"
  shows "rt_last_written r' = rt_last_written r \<and> rt_attempts r' = rt_attempts r @ drift_writes env now latest dr r did
    \<and> same_besides (Pair did ` UNIV) dr dr'"
proof (cases "\<exists>dev. get_device (re_registry env) did = Some dev \<and> dev_responsive (re_store env dev)")
  case True
  then obtain dev where dev: "get_device (re_registry env) did = Some dev" "dev_responsive (re_store env dev)" by blast
  have "distinct (map fst (get_last_written r did))" using assms(2) by (simp add: dicts_ok_def)
  moreover have "fold (drift_point env now done (latest dev) (dict_get_or (dr_per_device dr) did (dr_tolerance dr)) did)
      (get_last_written r did) (d, dr, r) = (d', dr', r')"
    using assms(1) dev by (simp add: drift_device_def)
  ultimately have "rt_last_written r' = rt_last_written r \<and> rt_attempts r' = rt_attempts r @ desired_writes env did
        (filter (due now (latest dev) (dict_get_or (dr_per_device dr) did (dr_tolerance dr)) dr did) (get_last_written r did))
      \<and> same_besides (Pair did ` fst ` set (get_last_written r did)) dr dr'"
    using drift_points_effect last_written_entries [OF assms(2)] by blast
  moreover have "same_besides (Pair did ` UNIV) dr dr'" if "same_besides (Pair did ` K) dr dr'" for K :: "string set"
    using that unfolding same_besides_def by blast
  ultimately have "rt_last_written r' = rt_last_written r \<and> rt_attempts r' = rt_attempts r @ desired_writes env did
        (filter (due now (latest dev) (dict_get_or (dr_per_device dr) did (dr_tolerance dr)) dr did) (get_last_written r did))
      \<and> same_besides (Pair did ` UNIV) dr dr'"
    by blast
  then show ?thesis using dev by (simp add: drift_writes_def)
next
  case False
  then have "drift_writes env now latest dr r did = []" by (auto simp: drift_writes_def split: option.split)
  moreover have "d' = d \<and> dr' = dr \<and> r' = r" using assms(1) False by (auto simp: drift_device_def split: option.splits if_splits)
  ultimately show ?thesis by simp
qed

text \<open>
  A repair round writes exactly what has drifted: for each tracked device that is known, responsive and
  unprotected, each point whose cached reading differs from its desired value beyond the tolerance and
  whose last repair is not younger than the cooldown is written once, with the desired value, and nothing
  else is; the desired state does not change.
\<close>

theorem drift_repair_exact:
  assumes "dicts_ok r" "distinct (iter (get_tracked_device_ids r))" "drift_work env now done latest iter (dr, r) = (d, dr', r')"
  shows "rt_last_written r' = rt_last_written r
    \<and> rt_attempts r' = rt_attempts r @ concat (map (drift_writes env now latest dr r) (iter (get_tracked_device_ids r)))"
proof -
  have "rt_last_written r' = rt_last_written r \<and> rt_attempts r' = rt_attempts q @ concat (map (drift_writes env now latest dr r) dids)"
    if "fold (drift_device env now done latest) dids (d0, dr0, q) = (d, dr', r')" "distinct dids" "rt_last_written q = rt_last_written r"
      "same_besides K dr dr0" "K \<inter> (\<Union>did\<in>set dids. Pair did ` UNIV) = {}" for dids d0 dr0 q K
    using that
  proof (induction dids arbitrary: d0 dr0 q K)
    case (Cons did dids)
    obtain d1 dr1 q1 where one: "drift_device env now done latest did (d0, dr0, q) = (d1, dr1, q1)" by (metis prod_cases3)
    have last: "get_last_written q = get_last_written r" using Cons.prems(3) by (auto simp: get_last_written_def)
    have eff: "rt_last_written q1 = rt_last_written q" "rt_attempts q1 = rt_attempts q @ drift_writes env now latest dr0 q did"
      "same_besides (Pair did ` UNIV) dr0 dr1"
      using drift_device_effect [OF one] assms(1) last by (simp_all add: dicts_ok_def)
    have "(did, fst pv) \<notin> K" for pv :: "string \<times> wvalue" using Cons.prems(5) by auto
    then have "due now l tol dr0 did = due now l tol dr did" for l tol
      by (intro ext same_besides_due [OF Cons.prems(4)])
    then have same: "drift_writes env now latest dr0 q did = drift_writes env now latest dr r did"
      using Cons.prems(4) last by (simp add: drift_writes_def same_besides_def split: option.split)
    have "rt_last_written r' = rt_last_written r \<and> rt_attempts r' = rt_attempts q1 @ concat (map (drift_writes env now latest dr r) dids)"
    proof (rule Cons.IH [of d1 dr1 q1 "K \<union> Pair did ` UNIV"])
      show "same_besides (K \<union> Pair did ` UNIV) dr dr1" by (rule same_besides_trans [OF Cons.prems(4) eff(3)])
      show "(K \<union> Pair did ` UNIV) \<inter> (\<Union>did\<in>set dids. Pair did ` UNIV) = {}" using Cons.prems(2,5) by auto
    qed (use Cons.prems one eff in simp_all)
    then show ?case using eff(2) same by simp
  qed simp
  from this [of "iter (get_tracked_device_ids r)" _ dr r "{}"] show ?thesis
    using assms by (simp add: drift_work_def)
qed

definition demo_drift :: drift_reconciler where
  "demo_drift = \<lparr>dr_tolerance = \<lparr>dt_absolute = 0, dt_relative = Fin (1 / 100)\<rparr>, dr_per_device = [], dr_min_rewrite_interval = 0, dr_last_write_at = []\<rparr>"

theorem drift_repair_exact_witness:
  "rt_attempts (snd (snd (drift_work demo_env 0 (\<lambda>_. 0) (\<lambda>_. [(''p_set'', PyFloat 3)]) (\<lambda>A. if ''a'' \<in> A then [''a''] else []) (demo_drift, demo_router))))
    = [(0, ''p_set'', WVal (PyFloat 10))]"
proof -
  let ?iter = "\<lambda>A. if ''a'' \<in> A then [''a''] else []" and ?latest = "\<lambda>_. [(''p_set'', PyFloat 3)]"
  obtain d dr' r' where run: "drift_work demo_env 0 (\<lambda>_. 0) ?latest ?iter (demo_drift, demo_router) = (d, dr', r')" by (metis prod_cases3)
  show ?thesis
    using drift_repair_exact [OF demo_router_ok _ run] unfolding run
    by (simp add: demo_router_def demo_drift_def get_tracked_device_ids_def drift_writes_def desired_writes_def write_target_def
      may_write_def get_last_written_def dict_get_or_def demo_env_def demo_store_def get_device_def due_def cooling_def value_drifts_def is_drift_def
      is_bool_val_def)
qed

text \<open>A desired value that is not a number drifts at every round, also when the device holds it.\<close>

lemma nan_always_drifts: "is_drift (PyFloat NaN) (PyFloat x) tol"
  by (cases x) (simp_all add: is_drift_def is_bool_val_def Let_def minus_flt_def)

end
