(* ===== verification/Heartbeat.thy ===== *)
theory Heartbeat
  imports Reconcilers
begin

text \<open>
  The heartbeat that tells devices the controller is alive: \<open>integration/heartbeat_generators.py\<close>,
  \<open>heartbeat_targets.py\<close>, \<open>heartbeat.py\<close> and the mapping of \<open>schema.py\<close>. Generators are objects that
  mappings may share, in a store by address; a target is its identity. The outcome of the \<open>n\<close>-th write of a
  round is an argument: no exception, or the one the device or the target raises.
\<close>

section \<open>Value generators\<close>

datatype generator =
    ToggleGenerator "(string \<times> int) list"
  | IncrementGenerator int "(string \<times> int) list"
  | ConstantGenerator int

definition increment_generator :: "int \<Rightarrow> generator res" where
  "increment_generator m = (if 1 \<le> m \<and> m \<le> 65535 then Inr (IncrementGenerator m []) else Inl ValueError)"

definition constant_generator :: "int \<Rightarrow> generator res" where
  "constant_generator v = (if 0 \<le> v \<and> v \<le> 65535 then Inr (ConstantGenerator v) else Inl ValueError)"

fun gen_next :: "string \<Rightarrow> generator \<Rightarrow> int \<times> generator" where
  "gen_next key (ToggleGenerator st) = (let v = 1 - dict_get_or st key 0 in (v, ToggleGenerator (dict_set key v st)))"
| "gen_next key (IncrementGenerator m st) =
     (let v = (dict_get_or st key 0 + 1) mod (m + 1) in (v, IncrementGenerator m (dict_set key v st)))"
| "gen_next key (ConstantGenerator v) = (v, ConstantGenerator v)"

fun gen_reset :: "string option \<Rightarrow> generator \<Rightarrow> generator" where
  "gen_reset None (ToggleGenerator st) = ToggleGenerator []"
| "gen_reset (Some k) (ToggleGenerator st) = ToggleGenerator (dict_del k st)"
| "gen_reset None (IncrementGenerator m st) = IncrementGenerator m []"
| "gen_reset (Some k) (IncrementGenerator m st) = IncrementGenerator m (dict_del k st)"
| "gen_reset key (ConstantGenerator v) = ConstantGenerator v"

section \<open>Mappings\<close>

datatype heartbeat_mode = TOGGLE | INCREMENT | CONSTANT

record heartbeat_mapping =
  hm_point :: string
  hm_device :: "string option"
  hm_trait :: "string option"
  hm_mode :: heartbeat_mode
  hm_constant_value :: int
  hm_increment_max :: int
  hm_generator :: "nat option"
  hm_target :: "string option"

definition heartbeat_mapping_valid :: "heartbeat_mapping \<Rightarrow> unit res" where
  "heartbeat_mapping_valid m =
     (if hm_generator m \<noteq> None \<and> (hm_mode m \<noteq> TOGGLE \<or> hm_constant_value m \<noteq> 1 \<or> hm_increment_max m \<noteq> 65535 \<or> hm_target m = None)
      then Inl ValueError
      else if hm_target m \<noteq> None then
        (if hm_device m \<noteq> None \<or> hm_trait m \<noteq> None then Inl ValueError else Inr ())
      else if (hm_device m = None) = (hm_trait m = None) then Inl ValueError else Inr ())"

section \<open>The service\<close>

datatype hb_write = DeviceWrite nat string int | TargetWrite string int

text \<open>
  \<open>hm_generator\<close> is an address in \<open>hb_generators\<close>; the cache of generators built from the mode is keyed by
  the object of the mapping, here its position.
\<close>

record heartbeat_service =
  hb_mappings :: "heartbeat_mapping list"
  hb_interval :: rat
  hb_use_capability :: bool
  hb_cap_mode :: heartbeat_mode
  hb_cap_constant_value :: int
  hb_cap_increment_max :: int
  hb_targets :: "string list"
  hb_counters :: "(string \<times> int) list"
  hb_paused :: bool
  hb_targets_generator :: generator
  hb_cache :: "(nat \<times> generator) list"
  hb_generators :: "(nat \<times> generator) list"
  hb_log :: "hb_write list"

record heartbeat_env =
  he_registry :: registry
  he_store :: device_store
  he_outcome :: "nat \<Rightarrow> py_exc option"

definition heartbeat_init :: "heartbeat_mapping list \<Rightarrow> rat \<Rightarrow> bool \<Rightarrow> heartbeat_mode \<Rightarrow> int \<Rightarrow> int \<Rightarrow> string list \<Rightarrow> (nat \<times> generator) list
    \<Rightarrow> heartbeat_service res" where
  "heartbeat_init ms interval use_cap mode const inc targets gens =
     (if interval \<le> 0 then Inl ValueError
      else Inr \<lparr>hb_mappings = ms, hb_interval = interval, hb_use_capability = use_cap, hb_cap_mode = mode, hb_cap_constant_value = const,
        hb_cap_increment_max = inc, hb_targets = targets, hb_counters = [], hb_paused = False, hb_targets_generator = ToggleGenerator [],
        hb_cache = [], hb_generators = gens, hb_log = []\<rparr>)"

definition heartbeat_pause :: "heartbeat_service \<Rightarrow> heartbeat_service" where
  "heartbeat_pause s = s\<lparr>hb_paused := True\<rparr>"

definition heartbeat_resume :: "heartbeat_service \<Rightarrow> heartbeat_service" where
  "heartbeat_resume s = s\<lparr>hb_paused := False\<rparr>"

definition reset_counters :: "heartbeat_service \<Rightarrow> heartbeat_service" where
  "reset_counters s = s\<lparr>hb_counters := [], hb_cache := map (\<lambda>(k, g). (k, gen_reset None g)) (hb_cache s),
     hb_targets_generator := gen_reset None (hb_targets_generator s)\<rparr>"

definition is_device_error :: "py_exc \<Rightarrow> bool" where
  "is_device_error e = (e \<in> {DeviceError, DeviceConnectionError, CommunicationError})"

definition hb_safe_write :: "heartbeat_env \<Rightarrow> nat \<Rightarrow> string \<Rightarrow> int \<Rightarrow> (heartbeat_service, unit) op" where
  "hb_safe_write env dev point v s =
     (case he_outcome env (length (hb_log s)) of None \<Rightarrow> Inr () | Some e \<Rightarrow> if is_device_error e then Inr () else Inl e,
      s\<lparr>hb_log := hb_log s @ [DeviceWrite dev point v]\<rparr>)"

definition hb_target_write :: "string \<Rightarrow> int \<Rightarrow> heartbeat_service \<Rightarrow> heartbeat_service" where
  "hb_target_write target v s = s\<lparr>hb_log := hb_log s @ [TargetWrite target v]\<rparr>"

definition compute_next :: "string \<Rightarrow> heartbeat_mode \<Rightarrow> int \<Rightarrow> int \<Rightarrow> (heartbeat_service, int) op" where
  "compute_next key mode const inc s =
     (let current = dict_get_or (hb_counters s) key 0 in
      case mode of
        TOGGLE \<Rightarrow> (Inr (1 - current), s\<lparr>hb_counters := dict_set key (1 - current) (hb_counters s)\<rparr>)
      | INCREMENT \<Rightarrow>
          if inc + 1 = 0 then (Inl ZeroDivisionError, s)
          else let v = (current + 1) mod (inc + 1) in (Inr v, s\<lparr>hb_counters := dict_set key v (hb_counters s)\<rparr>)
      | CONSTANT \<Rightarrow> (Inr const, s))"

text \<open>\<open>device_id or trait\<close>: an empty id counts as none; an absent name prints as \<open>None\<close>.\<close>

definition mapping_key :: "heartbeat_mapping \<Rightarrow> string" where
  "mapping_key m =
     (let name = (case hm_device m of Some d \<Rightarrow> if d \<noteq> [] then Some d else hm_trait m | None \<Rightarrow> hm_trait m)
      in ''mapping:'' @ (case name of None \<Rightarrow> ''None'' | Some n \<Rightarrow> n) @ '':'' @ hm_point m)"

definition device_key :: "string \<Rightarrow> string" where
  "device_key did = ''cap:'' @ did"

definition mode_generator :: "heartbeat_mapping \<Rightarrow> generator res" where
  "mode_generator m = (case hm_mode m of TOGGLE \<Rightarrow> Inr (ToggleGenerator [])
     | INCREMENT \<Rightarrow> increment_generator (hm_increment_max m) | CONSTANT \<Rightarrow> constant_generator (hm_constant_value m))"

text \<open>\<open>_resolve_generator\<close> and \<open>next\<close> on the generator it finds.\<close>

definition resolved_next :: "nat \<Rightarrow> heartbeat_mapping \<Rightarrow> string \<Rightarrow> (heartbeat_service, int) op" where
  "resolved_next i m target s =
     (case hm_generator m of
        Some g \<Rightarrow> (let (v, g') = gen_next target (dict_get_or (hb_generators s) g (ToggleGenerator []))
                  in (Inr v, s\<lparr>hb_generators := dict_set g g' (hb_generators s)\<rparr>))
      | None \<Rightarrow>
          (case (case dict_get (hb_cache s) i of Some g \<Rightarrow> Inr g | None \<Rightarrow> mode_generator m) of
             Inl e \<Rightarrow> (Inl e, s)
           | Inr g \<Rightarrow> (let (v, g') = gen_next target g in (Inr v, s\<lparr>hb_cache := dict_set i g' (hb_cache s)\<rparr>))))"

definition send_mapping :: "heartbeat_env \<Rightarrow> nat \<times> heartbeat_mapping \<Rightarrow> (heartbeat_service, unit) op" where
  "send_mapping env im =
     (case im of (i, m) \<Rightarrow>
        case hm_target m of
          Some t \<Rightarrow> sbind (resolved_next i m t) (\<lambda>v. op_mod (hb_target_write t v))
        | None \<Rightarrow>
            sbind (compute_next (mapping_key m) (hm_mode m) (hm_constant_value m) (hm_increment_max m)) (\<lambda>v.
              case hm_device m of
                Some did \<Rightarrow>
                  (case get_device (he_registry env) did of
                     Some dev \<Rightarrow> if dev_responsive (he_store env dev) then hb_safe_write env dev (hm_point m) v else op_ret ()
                   | None \<Rightarrow> op_ret ())
              | None \<Rightarrow>
                  (case hm_trait m of
                     None \<Rightarrow> op_ret ()
                   | Some t \<Rightarrow> sbind (op_res (get_responsive_devices_by_trait (he_registry env) (he_store env) t))
                       (sfor (\<lambda>dev. hb_safe_write env dev (hm_point m) v)))))"

definition send_target :: "string \<Rightarrow> (heartbeat_service, unit) op" where
  "send_target t s = (let (v, g) = gen_next t (hb_targets_generator s)
     in (Inr (), hb_target_write t v (s\<lparr>hb_targets_generator := g\<rparr>)))"

definition send_capability :: "heartbeat_env \<Rightarrow> nat \<Rightarrow> (heartbeat_service, unit) op" where
  "send_capability env dev s =
     (let d = he_store env dev in
      sbind (op_res (resolve_point d ''heartbeat'' ''heartbeat'')) (\<lambda>point.
      sbind (compute_next (device_key (dev_id d)) (hb_cap_mode s) (hb_cap_constant_value s) (hb_cap_increment_max s)) (\<lambda>v.
        hb_safe_write env dev point v)) s)"

definition send_heartbeats :: "heartbeat_env \<Rightarrow> (heartbeat_service, unit) op" where
  "send_heartbeats env s =
     sbind (sfor (send_mapping env) (enumerate 0 (hb_mappings s))) (\<lambda>_.
     sbind (sfor send_target (hb_targets s)) (\<lambda>_.
       if hb_use_capability s
       then sfor (send_capability env) (get_responsive_devices_with_capability (he_registry env) (he_store env) ''heartbeat'')
       else op_ret ())) s"

definition heartbeat_work :: "heartbeat_env \<Rightarrow> heartbeat_service \<Rightarrow> unit res \<times> (string \<times> pyval) list \<times> heartbeat_service" where
  "heartbeat_work env s =
     (let (r, s') = (if hb_paused s then (Inr (), s) else send_heartbeats env s) in (r, [(''paused'', PyBool (hb_paused s))], s'))"

section \<open>The counter of a mapping alternates\<close>

text \<open>A mapping written by mode whose counter no other mapping uses.\<close>

definition own_counter :: "heartbeat_mapping list \<Rightarrow> heartbeat_mapping \<Rightarrow> bool" where
  "own_counter ms m \<longleftrightarrow> hm_target m = None
     \<and> (\<exists>xs ys. ms = xs @ m # ys \<and> (\<forall>m'\<in>set xs \<union> set ys. hm_target m' = None \<longrightarrow> mapping_key m' \<noteq> mapping_key m))"

definition counter :: "heartbeat_mapping \<Rightarrow> heartbeat_service \<Rightarrow> int" where
  "counter m s = dict_get_or (hb_counters s) (mapping_key m) 0"

lemma key_kinds: "mapping_key m \<noteq> device_key did"
  by (simp add: mapping_key_def device_key_def)

text \<open>What an operation does to a counter it does not own, and to the log: nothing, and append.\<close>

definition keeps :: "heartbeat_mapping \<Rightarrow> int \<Rightarrow> hb_write list \<Rightarrow> heartbeat_service \<Rightarrow> bool" where
  "keeps m x lg s \<longleftrightarrow> counter m s = x \<and> set lg \<subseteq> set (hb_log s)"

lemma write_keeps: "preserves (keeps m x lg) (hb_safe_write env dev point v)"
  by (auto simp: preserves_def keeps_def counter_def hb_safe_write_def)

lemma compute_keeps: "key \<noteq> mapping_key m \<Longrightarrow> preserves (keeps m x lg) (compute_next key mode c i)"
  by (auto simp: preserves_def keeps_def counter_def compute_next_def Let_def split: heartbeat_mode.split)

lemma resolved_keeps: "preserves (keeps m x lg) (resolved_next i m' t)"
  by (auto simp: preserves_def keeps_def counter_def resolved_next_def split: option.split sum.split prod.split)

lemma mapping_keeps: "hm_target m' = None \<longrightarrow> mapping_key m' \<noteq> mapping_key m \<Longrightarrow> preserves (keeps m x lg) (send_mapping env (i, m'))"
  unfolding send_mapping_def prod.case
  by (auto split: option.split intro!: preserves_sbind preserves_sfor write_keeps compute_keeps resolved_keeps preserves_mod
    simp: keeps_def counter_def hb_target_write_def)

lemma target_keeps: "preserves (keeps m x lg) (send_target t)"
  by (auto simp: preserves_def keeps_def counter_def send_target_def hb_target_write_def split: prod.split)

lemma capability_keeps: "preserves (keeps m x lg) (send_capability env dev)"
proof -
  have "preserves (keeps m x lg) (sbind (op_res (resolve_point d ''heartbeat'' ''heartbeat'')) (\<lambda>point.
      sbind (compute_next (device_key did) md c i) (\<lambda>v. hb_safe_write env dev point v)))" for d did md c i
    by (intro preserves_sbind preserves_pure write_keeps compute_keeps) (simp add: key_kinds [symmetric])
  then show ?thesis unfolding preserves_def send_capability_def Let_def by blast
qed

lemma device_loop_writes:
  assumes "sfor (\<lambda>dev. hb_safe_write env dev point v) devs s = (Inr (), s')" "dev \<in> set devs"
  shows "DeviceWrite dev point v \<in> set (hb_log s')"
proof -
  obtain xs ys where "devs = xs @ dev # ys" using assms(2) by (meson split_list)
  then obtain s1 s2 where s: "hb_safe_write env dev point v s1 = (Inr (), s2)" "sfor (\<lambda>dev. hb_safe_write env dev point v) ys s2 = (Inr (), s')"
    using assms(1) by (auto elim: sfor_middle)
  have "preserves (\<lambda>s. DeviceWrite dev point v \<in> set (hb_log s)) (sfor (\<lambda>dev. hb_safe_write env dev point v) ys)"
    by (intro preserves_sfor) (auto simp: preserves_def hb_safe_write_def)
  moreover have "DeviceWrite dev point v \<in> set (hb_log s2)" using s(1) by (auto simp: hb_safe_write_def)
  ultimately show ?thesis using s(2) preservesD by fastforce
qed

text \<open>The devices a mapping reaches.\<close>

definition mapped_devices :: "heartbeat_env \<Rightarrow> heartbeat_mapping \<Rightarrow> nat set" where
  "mapped_devices env m = (case hm_device m of
       Some did \<Rightarrow> {dev. get_device (he_registry env) did = Some dev \<and> dev_responsive (he_store env dev)}
     | None \<Rightarrow> (case hm_trait m of None \<Rightarrow> {}
         | Some t \<Rightarrow> (case get_responsive_devices_by_trait (he_registry env) (he_store env) t of Inl _ \<Rightarrow> {} | Inr ds \<Rightarrow> set ds)))"

lemma send_mapping_writes:
  assumes "send_mapping env (i, m) s = (Inr (), s')" "hm_target m = None" "hm_mode m = TOGGLE"
  shows "counter m s' = 1 - counter m s \<and> (\<forall>dev\<in>mapped_devices env m. DeviceWrite dev (hm_point m) (counter m s') \<in> set (hb_log s'))"
proof -
  let ?s1 = "s\<lparr>hb_counters := dict_set (mapping_key m) (1 - counter m s) (hb_counters s)\<rparr>" and ?v = "1 - counter m s"
  have c1: "counter m ?s1 = ?v" by (simp add: counter_def)
  have nxt: "compute_next (mapping_key m) (hm_mode m) (hm_constant_value m) (hm_increment_max m) s = (Inr ?v, ?s1)"
    using assms(3) by (simp add: compute_next_def counter_def Let_def)
  show ?thesis
  proof (cases "hm_device m")
    case (Some did)
    then show ?thesis
      using assms(1,2) nxt c1 by (auto simp: send_mapping_def mapped_devices_def hb_safe_write_def counter_def split: option.splits if_splits)
  next
    case None
    show ?thesis
    proof (cases "hm_trait m")
      case (Some t)
      obtain ds where ds: "get_responsive_devices_by_trait (he_registry env) (he_store env) t = Inr ds"
          "sfor (\<lambda>dev. hb_safe_write env dev (hm_point m) ?v) ds ?s1 = (Inr (), s')"
        using assms(1,2) nxt None Some by (auto simp: send_mapping_def elim!: sbind_InrE)
      have "preserves (keeps m ?v []) (sfor (\<lambda>dev. hb_safe_write env dev (hm_point m) ?v) ds)"
        by (intro preserves_sfor write_keeps)
      moreover have "keeps m ?v [] ?s1" using c1 by (simp add: keeps_def)
      ultimately have "keeps m ?v [] s'" using ds(2) by (rule preserves_run)
      then show ?thesis using ds None Some device_loop_writes [OF ds(2)] by (simp add: keeps_def mapped_devices_def)
    qed (use assms(1,2) nxt c1 None in \<open>simp add: send_mapping_def mapped_devices_def\<close>)
  qed
qed

text \<open>
  C21. A round of heartbeats that is not cut short writes to every responsive device of a toggling mapping
  with a counter of its own, whatever the other mappings, targets and capability devices do, and the value
  is never the one of the round before: the counter turns from 0 to 1 and back.
\<close>

theorem heartbeat_alternates:
  assumes "own_counter (hb_mappings s) m" "hm_mode m = TOGGLE" "send_heartbeats env s = (Inr (), s')"
  shows "counter m s' = 1 - counter m s \<and> (\<forall>dev\<in>mapped_devices env m. DeviceWrite dev (hm_point m) (counter m s') \<in> set (hb_log s'))"
proof -
  obtain xs ys where ms: "hb_mappings s = xs @ m # ys" "hm_target m = None"
      "\<forall>m'\<in>set xs \<union> set ys. hm_target m' = None \<longrightarrow> mapping_key m' \<noteq> mapping_key m"
    using assms(1) unfolding own_counter_def by blast
  let ?n = "length xs"
  have enum: "enumerate 0 (hb_mappings s) = enumerate 0 xs @ (?n, m) # enumerate (Suc ?n) ys"
    unfolding ms(1) enumerate_append_eq by simp
  let ?rest = "\<lambda>_. sbind (sfor send_target (hb_targets s)) (\<lambda>_. if hb_use_capability s
         then sfor (send_capability env) (get_responsive_devices_with_capability (he_registry env) (he_store env) ''heartbeat'')
         else op_ret ())"
  obtain u s3 where all: "sfor (send_mapping env) (enumerate 0 (hb_mappings s)) s = (Inr u, s3)" and rest: "?rest u s3 = (Inr (), s')"
    using assms(3) unfolding send_heartbeats_def by (rule sbind_InrE)
  obtain s1 s2 where run: "sfor (send_mapping env) (enumerate 0 xs) s = (Inr (), s1)" "send_mapping env (?n, m) s1 = (Inr (), s2)"
      "sfor (send_mapping env) (enumerate (Suc ?n) ys) s2 = (Inr (), s3)"
    using all unfolding enum by (auto elim: sfor_middle)
  have others: "preserves (keeps m x lg) (sfor (send_mapping env) (enumerate k zs))" if "set zs \<subseteq> set xs \<union> set ys" for x lg k zs
  proof (rule preserves_sfor)
    fix im assume "im \<in> set (enumerate k zs)"
    then have "snd im \<in> set (map snd (enumerate k zs))" by (simp del: map_snd_enumerate)
    then have "snd im \<in> set zs" by simp
    then have "snd im \<in> set xs \<union> set ys" using that by blast
    then show "preserves (keeps m x lg) (send_mapping env im)" using ms(3) mapping_keeps by (cases im) auto
  qed
  have "keeps m (counter m s) [] s1" using preservesD [OF others [of xs "counter m s" "[]" 0], of s] run(1) by (simp add: keeps_def)
  then have two: "counter m s2 = 1 - counter m s" "\<forall>dev\<in>mapped_devices env m. DeviceWrite dev (hm_point m) (counter m s2) \<in> set (hb_log s2)"
    using send_mapping_writes [OF run(2) ms(2) assms(2)] unfolding keeps_def by metis+
  let ?K = "keeps m (counter m s2) (hb_log s2)"
  have "?K s3" using preservesD [OF others [of ys "counter m s2" "hb_log s2" "Suc ?n"], of s2] run(3) by (simp add: keeps_def)
  moreover have "preserves ?K (?rest u)"
    by (auto intro!: preserves_sbind preserves_sfor target_keeps capability_keeps)
  ultimately have "?K s'" using preservesD rest by fastforce
  then show ?thesis using two by (auto simp: keeps_def)
qed

definition demo_heartbeat :: heartbeat_mapping where
  "demo_heartbeat = \<lparr>hm_point = ''hb'', hm_device = Some ''a'', hm_trait = None, hm_mode = TOGGLE, hm_constant_value = 1,
     hm_increment_max = 65535, hm_generator = None, hm_target = None\<rparr>"

definition demo_heartbeat_env :: heartbeat_env where
  "demo_heartbeat_env = \<lparr>he_registry = re_registry demo_env, he_store = re_store demo_env, he_outcome = (\<lambda>n. Some DeviceError)\<rparr>"

definition demo_heartbeat_service :: heartbeat_service where
  "demo_heartbeat_service = projr (heartbeat_init [demo_heartbeat] 1 False TOGGLE 1 65535 [] [])"

theorem heartbeat_alternates_witness:
  "DeviceWrite 0 ''hb'' 1 \<in> set (hb_log (snd (send_heartbeats demo_heartbeat_env demo_heartbeat_service)))"
proof -
  let ?s = demo_heartbeat_service and ?env = demo_heartbeat_env
  note defs = demo_heartbeat_service_def demo_heartbeat_env_def demo_heartbeat_def heartbeat_init_def demo_env_def demo_store_def get_device_def
  have "hb_mappings ?s = [] @ demo_heartbeat # []" by (simp add: demo_heartbeat_service_def heartbeat_init_def)
  then have own: "own_counter (hb_mappings ?s) demo_heartbeat"
    unfolding own_counter_def by (intro conjI exI [of _ "[]"]) (simp_all add: demo_heartbeat_def)
  have "fst (send_heartbeats ?env ?s) = Inr ()"
    by (simp add: send_heartbeats_def send_mapping_def sbind_def compute_next_def hb_safe_write_def is_device_error_def Let_def defs)
  then have run: "send_heartbeats ?env ?s = (Inr (), snd (send_heartbeats ?env ?s))" by (metis prod.collapse)
  have "counter demo_heartbeat ?s = 0" "0 \<in> mapped_devices ?env demo_heartbeat" "hm_mode demo_heartbeat = TOGGLE" "hm_point demo_heartbeat = ''hb''"
    by (simp_all add: counter_def mapped_devices_def defs)
  then show ?thesis
    using heartbeat_alternates [OF own _ run] by force
qed

section \<open>Mappings that share a counter\<close>

text \<open>
  The counter of a mapping is named after its device or its trait and its point, so that a device and a trait
  of the same name share one: each round toggles it twice and both write the same value at every round.
\<close>

lemma shared_counter_freezes:
  "mapping_key (m\<lparr>hm_device := Some ''pcs'', hm_trait := None\<rparr>) = mapping_key (m\<lparr>hm_device := None, hm_trait := Some ''pcs''\<rparr>)"
  by (simp add: mapping_key_def)

text \<open>Pausing stops the writes and keeps the counters.\<close>

lemma paused_round: "hb_paused s \<Longrightarrow> heartbeat_work env s = (Inr (), [(''paused'', PyBool True)], s)"
  by (simp add: heartbeat_work_def)

text \<open>The mapping does not check the maximum of a counter: \<open>-1\<close> makes every round raise.\<close>

lemma increment_max_unchecked:
  "heartbeat_mapping_valid (demo_heartbeat\<lparr>hm_mode := INCREMENT, hm_increment_max := - 1\<rparr>) = Inr ()"
  "fst (compute_next key INCREMENT c (- 1) s) = Inl ZeroDivisionError"
  by (simp_all add: heartbeat_mapping_valid_def demo_heartbeat_def compute_next_def Let_def)

end
