(* ===== verification/Context_Builder.thy ===== *)
theory Context_Builder
  imports Device_Registry Command_Core
begin

text \<open>
  \<open>csp_lib/integration/context_builder.py\<close> with its mappings from \<open>schema.py\<close>: from the cached readings of
  the devices and the runtime parameters to the context a strategy reads. The readings of a device are
  an argument; functions a client supplies are arguments that may raise. Readings that are compared are
  numbers or texts. Log lines are left out.
\<close>

section \<open>Aggregation\<close>

datatype aggregate_func = AVERAGE_OF | SUM_OF | MIN_OF | MAX_OF | FIRST_OF

text \<open>\<open>a + b\<close> and \<open>a < b\<close> on readings.\<close>

definition py_add :: "pyval \<Rightarrow> pyval \<Rightarrow> pyval res" where
  "py_add a b =
     (if is_int_val a \<and> is_int_val b then Inr (PyInt (int_val a + int_val b))
      else if is_num_val a \<and> is_num_val b then Inr (PyFloat (flt_val a + flt_val b))
      else case (a, b) of
        (PyStr s, PyStr t) \<Rightarrow> Inr (PyStr (s @ t))
      | (PyBytes s, PyBytes t) \<Rightarrow> Inr (PyBytes (s @ t))
      | (PyList s, PyList t) \<Rightarrow> Inr (PyList (s @ t))
      | _ \<Rightarrow> Inl TypeError)"

definition py_less :: "pyval \<Rightarrow> pyval \<Rightarrow> bool res" where
  "py_less a b =
     (if is_num_val a \<and> is_num_val b then Inr (flt_val a < flt_val b)
      else case (a, b) of (PyStr s, PyStr t) \<Rightarrow> Inr (s < t) | _ \<Rightarrow> Inl TypeError)"

fun py_sum_from :: "pyval \<Rightarrow> pyval list \<Rightarrow> pyval res" where
  "py_sum_from a [] = Inr a"
| "py_sum_from a (x # xs) = rbind (py_add a x) (\<lambda>b. py_sum_from b xs)"

text \<open>\<open>min\<close> and \<open>max\<close> of a list keep the first of equal values.\<close>

fun py_min_from :: "pyval \<Rightarrow> pyval list \<Rightarrow> pyval res" where
  "py_min_from a [] = Inr a"
| "py_min_from a (x # xs) = rbind (py_less x a) (\<lambda>b. py_min_from (if b then x else a) xs)"

fun py_max_from :: "pyval \<Rightarrow> pyval list \<Rightarrow> pyval res" where
  "py_max_from a [] = Inr a"
| "py_max_from a (x # xs) = rbind (py_less a x) (\<lambda>b. py_max_from (if b then x else a) xs)"

definition builtin_aggregate :: "aggregate_func \<Rightarrow> pyval list \<Rightarrow> pyval res" where
  "builtin_aggregate f vs =
     (case vs of [] \<Rightarrow> Inr PyNone
      | v # rest \<Rightarrow> (case f of
          AVERAGE_OF \<Rightarrow> rbind (py_sum_from (PyInt 0) vs) (\<lambda>t. rbind (num_of t) (\<lambda>x.
            rbind (fdiv x (Fin (of_nat (length vs)))) (\<lambda>y. Inr (PyFloat y))))
        | SUM_OF \<Rightarrow> py_sum_from (PyInt 0) vs
        | MIN_OF \<Rightarrow> py_min_from v rest
        | MAX_OF \<Rightarrow> py_max_from v rest
        | FIRST_OF \<Rightarrow> Inr v))"

section \<open>Mappings\<close>

record context_mapping =
  xm_point :: string
  xm_field :: string
  xm_device :: "string option"
  xm_trait :: "string option"
  xm_param :: "string option"
  xm_aggregate :: aggregate_func
  xm_custom :: "(pyval list \<Rightarrow> pyval res) option"
  xm_default :: pyval
  xm_transform :: "(pyval \<Rightarrow> pyval res) option"

definition context_mapping_valid :: "context_mapping \<Rightarrow> unit res" where
  "context_mapping_valid m =
     (if length (filter (\<lambda>x. x \<noteq> None) [xm_device m, xm_trait m, xm_param m]) \<noteq> 1 then Inl ValueError else Inr ())"

record capability_context_mapping =
  xc_name :: string
  xc_slot :: string
  xc_field :: string
  xc_device :: "string option"
  xc_trait :: "string option"
  xc_aggregate :: aggregate_func
  xc_custom :: "(pyval list \<Rightarrow> pyval res) option"
  xc_default :: pyval
  xc_transform :: "(pyval \<Rightarrow> pyval res) option"
  xc_min_device_ratio :: flt

definition capability_context_mapping_valid :: "string list \<Rightarrow> capability_context_mapping \<Rightarrow> unit res" where
  "capability_context_mapping_valid read_slots m =
     (if xc_device m \<noteq> None \<and> xc_trait m \<noteq> None then Inl ValueError
      else if xc_slot m \<notin> set read_slots then Inl ValueError else Inr ())"

section \<open>Reading\<close>

record builder =
  bd_registry :: registry
  bd_store :: device_store
  bd_latest :: "nat \<Rightarrow> (string \<times> pyval) list"
  bd_params :: "runtime_params option"

text \<open>A client function that raises counts as no value, or as the default.\<close>

definition aggregate_values :: "aggregate_func \<Rightarrow> (pyval list \<Rightarrow> pyval res) option \<Rightarrow> pyval list \<Rightarrow> pyval res" where
  "aggregate_values f custom vs0 =
     (let vs = filter (\<lambda>v. v \<noteq> PyNone) vs0 in
      if vs = [] then Inr PyNone
      else case custom of Some g \<Rightarrow> (case g vs of Inl _ \<Rightarrow> Inr PyNone | Inr v \<Rightarrow> Inr v)
        | None \<Rightarrow> builtin_aggregate f vs)"

definition or_default_value :: "pyval \<Rightarrow> (pyval \<Rightarrow> pyval res) option \<Rightarrow> pyval \<Rightarrow> pyval" where
  "or_default_value d t raw =
     (if raw = PyNone then d
      else case t of None \<Rightarrow> raw | Some f \<Rightarrow> (case f raw of Inl _ \<Rightarrow> d | Inr v \<Rightarrow> v))"

definition read_param :: "builder \<Rightarrow> string \<Rightarrow> pyval" where
  "read_param b key = (case bd_params b of None \<Rightarrow> PyNone | Some p \<Rightarrow> params_get p key PyNone)"

definition latest_of :: "builder \<Rightarrow> string \<Rightarrow> nat \<Rightarrow> pyval" where
  "latest_of b point dev = dict_get_or (bd_latest b dev) point PyNone"

definition read_single_device :: "builder \<Rightarrow> string \<Rightarrow> string \<Rightarrow> pyval" where
  "read_single_device b did point = (case get_device (bd_registry b) did of None \<Rightarrow> PyNone
     | Some dev \<Rightarrow> if dev_responsive (bd_store b dev) then latest_of b point dev else PyNone)"

definition read_trait_aggregate :: "builder \<Rightarrow> context_mapping \<Rightarrow> string \<Rightarrow> pyval res" where
  "read_trait_aggregate b m t =
     rbind (get_responsive_devices_by_trait (bd_registry b) (bd_store b) t) (\<lambda>devs.
       aggregate_values (xm_aggregate m) (xm_custom m) (map (latest_of b (xm_point m)) devs))"

definition resolve_value :: "builder \<Rightarrow> context_mapping \<Rightarrow> pyval res" where
  "resolve_value b m =
     rbind (case xm_param m of Some k \<Rightarrow> Inr (read_param b k)
            | None \<Rightarrow> (case xm_device m of Some did \<Rightarrow> Inr (read_single_device b did (xm_point m))
                     | None \<Rightarrow> (case xm_trait m of Some t \<Rightarrow> read_trait_aggregate b m t | None \<Rightarrow> Inr PyNone)))
       (\<lambda>raw. Inr (or_default_value (xm_default m) (xm_transform m) raw))"

definition capability_value :: "builder \<Rightarrow> capability_context_mapping \<Rightarrow> nat \<Rightarrow> pyval res" where
  "capability_value b m dev =
     rbind (resolve_point (bd_store b dev) (xc_name m) (xc_slot m)) (\<lambda>point. Inr (latest_of b point dev))"

definition read_capability_single :: "builder \<Rightarrow> capability_context_mapping \<Rightarrow> string \<Rightarrow> pyval res" where
  "read_capability_single b m did = (case get_device (bd_registry b) did of None \<Rightarrow> Inr PyNone
     | Some dev \<Rightarrow> if \<not> dev_responsive (bd_store b dev) \<or> \<not> has_capability (bd_store b dev) (xc_name m) then Inr PyNone
                  else capability_value b m dev)"

definition filter_and_aggregate :: "builder \<Rightarrow> capability_context_mapping \<Rightarrow> nat list \<Rightarrow> pyval res" where
  "filter_and_aggregate b m capable =
     (let responsive = filter (\<lambda>d. dev_responsive (bd_store b d)) capable in
      if responsive = [] then Inr PyNone
      else if xc_min_device_ratio m > 0
              \<and> Fin (of_nat (length responsive) / of_nat (length capable)) < xc_min_device_ratio m then Inr PyNone
      else rbind (rmap (capability_value b m) responsive) (aggregate_values (xc_aggregate m) (xc_custom m)))"

definition resolve_capability_value :: "builder \<Rightarrow> capability_context_mapping \<Rightarrow> pyval res" where
  "resolve_capability_value b m =
     rbind (case xc_device m of Some did \<Rightarrow> read_capability_single b m did
            | None \<Rightarrow> (case xc_trait m of
                Some t \<Rightarrow> rbind (get_devices_by_trait (bd_registry b) t) (\<lambda>devs.
                  filter_and_aggregate b m (filter (\<lambda>d. has_capability (bd_store b d) (xc_name m)) devs))
              | None \<Rightarrow> filter_and_aggregate b m (get_devices_with_capability (bd_registry b) (bd_store b) (xc_name m))))
       (\<lambda>raw. Inr (or_default_value (xc_default m) (xc_transform m) raw))"

section \<open>Building\<close>

text \<open>The attributes and the \<open>extra\<close> dict of the context that the mappings set.\<close>

record built =
  bt_fields :: "(string \<times> pyval) list"
  bt_extra :: "(string \<times> pyval) list"

definition set_context_field :: "string \<Rightarrow> pyval \<Rightarrow> built \<Rightarrow> built" where
  "set_context_field field v0 c =
     (let v = (if is_non_finite_float v0 then PyNone else v0)
      in if take 6 field = ''extra.'' then c\<lparr>bt_extra := dict_set (drop 6 field) v (bt_extra c)\<rparr>
         else c\<lparr>bt_fields := dict_set field v (bt_fields c)\<rparr>)"

fun set_all :: "(string \<times> pyval res) list \<Rightarrow> built \<Rightarrow> built res" where
  "set_all [] c = Inr c"
| "set_all ((field, r) # rest) c = rbind r (\<lambda>v. set_all rest (set_context_field field v c))"

definition build_context :: "builder \<Rightarrow> context_mapping list \<Rightarrow> capability_context_mapping list \<Rightarrow> built res" where
  "build_context b ms cms =
     set_all (map (\<lambda>m. (xm_field m, resolve_value b m)) ms @ map (\<lambda>m. (xc_field m, resolve_capability_value b m)) cms)
       \<lparr>bt_fields = [], bt_extra = []\<rparr>"

section \<open>No value that is not finite reaches a strategy\<close>

definition values_finite :: "(string \<times> pyval) list \<Rightarrow> bool" where
  "values_finite d \<longleftrightarrow> (\<forall>v\<in>snd ` set d. \<not> is_non_finite_float v)"

lemma values_finite_set: "values_finite d \<Longrightarrow> \<not> is_non_finite_float v \<Longrightarrow> values_finite (dict_set k v d)"
  using dict_set_values [of k v d] unfolding values_finite_def by blast

lemma set_all_finite:
  "set_all kvs c = Inr c' \<Longrightarrow> values_finite (bt_fields c) \<Longrightarrow> values_finite (bt_extra c) \<Longrightarrow>
    values_finite (bt_fields c') \<and> values_finite (bt_extra c')"
proof (induction kvs c rule: set_all.induct)
  case (2 field r rest c)
  have none: "\<not> is_non_finite_float PyNone" by (simp add: is_non_finite_float_def)
  obtain v where "r = Inr v" "set_all rest (set_context_field field v c) = Inr c'"
    using 2(2) by (auto simp: res_simps)
  moreover have "values_finite (bt_fields (set_context_field field v c)) \<and> values_finite (bt_extra (set_context_field field v c))"
    using 2(3,4) none by (simp add: set_context_field_def Let_def values_finite_set)
  ultimately show ?case using 2(1) by blast
qed simp

text \<open>
  C20. Whatever the devices report, the parameters hold and the client functions compute, a context that is
  built contains neither NaN nor an infinity: the guards of the strategies and the protections compare
  finite numbers, texts or the absence of a value.
\<close>

theorem context_finite:
  assumes "build_context b ms cms = Inr c"
  shows "values_finite (bt_fields c) \<and> values_finite (bt_extra c)"
  using assms unfolding build_context_def by (rule set_all_finite) (simp_all add: values_finite_def)

definition demo_builder :: builder where
  "demo_builder = \<lparr>bd_registry = registry_init\<lparr>rg_devices := [(''a'', 0), (''b'', 1)], rg_trait_devices := [(''m'', [''b'', ''a''])]\<rparr>,
     bd_store = (\<lambda>i. \<lparr>dev_id = (if i = 0 then ''a'' else ''b''), dev_protected = False, dev_responsive = True, dev_capabilities = []\<rparr>),
     bd_latest = (\<lambda>i. [(''p'', PyFloat (if i = 0 then 4 else NaN)), (''q'', PyFloat (if i = 0 then 4 else 1))]), bd_params = None\<rparr>"

definition demo_mapping :: "string \<Rightarrow> context_mapping" where
  "demo_mapping point = \<lparr>xm_point = point, xm_field = ''extra.'' @ point, xm_device = None, xm_trait = Some ''m'', xm_param = None,
     xm_aggregate = AVERAGE_OF, xm_custom = None, xm_default = PyFloat 7, xm_transform = None\<rparr>"

lemma demo_built: "build_context demo_builder [demo_mapping ''p'', demo_mapping ''q''] [] =
    Inr \<lparr>bt_fields = [], bt_extra = [(''p'', PyNone), (''q'', PyFloat (Fin (5 / 2)))]\<rparr>"
  by (simp add: build_context_def demo_mapping_def resolve_value_def read_trait_aggregate_def get_responsive_devices_by_trait_def
    get_devices_by_trait_def devices_of_def demo_builder_def registry_init_def device_at_def get_device_def latest_of_def aggregate_values_def
    builtin_aggregate_def py_add_def num_of_def or_default_value_def set_context_field_def is_non_finite_float_def dict_get_or_def Let_def)

theorem context_finite_witness:
  "values_finite [(''p'', PyNone), (''q'', PyFloat (Fin (5 / 2)))]"
  using context_finite [OF demo_built] by simp

text \<open>
  One NaN among the readings of a trait makes the average NaN, and the field becomes \<open>None\<close>: the default of
  the mapping, meant for a value that cannot be had, is not used.
\<close>

lemma nan_bypasses_default:
  "build_context demo_builder [demo_mapping ''p''] [] = Inr \<lparr>bt_fields = [], bt_extra = [(''p'', PyNone)]\<rparr>
   \<and> xm_default (demo_mapping ''p'') = PyFloat 7"
  by (simp add: build_context_def demo_mapping_def resolve_value_def read_trait_aggregate_def get_responsive_devices_by_trait_def
    get_devices_by_trait_def devices_of_def demo_builder_def registry_init_def device_at_def get_device_def latest_of_def aggregate_values_def
    builtin_aggregate_def py_add_def num_of_def or_default_value_def set_context_field_def is_non_finite_float_def dict_get_or_def Let_def)

section \<open>An average lies between the extremes\<close>

definition finite_reading :: "pyval \<Rightarrow> bool" where
  "finite_reading v \<longleftrightarrow> is_num_val v \<and> is_finite (flt_val v)"

definition rat_of :: "pyval \<Rightarrow> rat" where
  "rat_of v = (case flt_val v of Fin q \<Rightarrow> q | _ \<Rightarrow> 0)"

lemma rat_of: "finite_reading v \<Longrightarrow> is_num_val v \<and> flt_val v = Fin (rat_of v)"
  by (cases "flt_val v") (auto simp: finite_reading_def rat_of_def)

lemma py_add_finite:
  "finite_reading a \<Longrightarrow> finite_reading b \<Longrightarrow> \<exists>c. py_add a b = Inr c \<and> finite_reading c \<and> rat_of c = rat_of a + rat_of b"
  by (cases a; cases b) (auto simp: py_add_def finite_reading_def rat_of_def is_finite_iff)

lemma py_sum_finite:
  "\<forall>v\<in>set vs. finite_reading v \<Longrightarrow> finite_reading a \<Longrightarrow>
    \<exists>c. py_sum_from a vs = Inr c \<and> finite_reading c \<and> rat_of c = rat_of a + sum_list (map rat_of vs)"
proof (induction vs arbitrary: a)
  case (Cons v vs)
  obtain b where "py_add a v = Inr b" "finite_reading b" "rat_of b = rat_of a + rat_of v"
    using py_add_finite Cons.prems by (metis list.set_intros(1))
  then show ?case using Cons.IH [of b] Cons.prems by auto
qed simp

lemma py_less_finite: "finite_reading a \<Longrightarrow> finite_reading b \<Longrightarrow> py_less a b = Inr (rat_of a < rat_of b)"
  using rat_of [of a] rat_of [of b] by (simp add: py_less_def)

lemma py_extremes:
  "\<forall>v\<in>set (a # vs). finite_reading v \<Longrightarrow>
    (\<exists>lo\<in>set (a # vs). py_min_from a vs = Inr lo \<and> (\<forall>v\<in>set (a # vs). rat_of lo \<le> rat_of v))
    \<and> (\<exists>hi\<in>set (a # vs). py_max_from a vs = Inr hi \<and> (\<forall>v\<in>set (a # vs). rat_of v \<le> rat_of hi))"
proof (induction vs arbitrary: a)
  case (Cons v vs)
  let ?l = "if rat_of v < rat_of a then v else a" and ?h = "if rat_of a < rat_of v then v else a"
  have "\<exists>lo\<in>set (?l # vs). py_min_from ?l vs = Inr lo \<and> (\<forall>x\<in>set (?l # vs). rat_of lo \<le> rat_of x)"
    "\<exists>hi\<in>set (?h # vs). py_max_from ?h vs = Inr hi \<and> (\<forall>x\<in>set (?h # vs). rat_of x \<le> rat_of hi)"
    using Cons.IH [of ?l] Cons.IH [of ?h] Cons.prems by auto
  moreover have "py_min_from a (v # vs) = py_min_from ?l vs" "py_max_from a (v # vs) = py_max_from ?h vs"
    using Cons.prems by (simp_all add: py_less_finite)
  ultimately show ?case by (auto split: if_splits)
qed simp

lemma mean_between:
  fixes f :: "'a \<Rightarrow> rat"
  assumes "xs \<noteq> []" "\<forall>x\<in>set xs. l \<le> f x \<and> f x \<le> h"
  shows "l \<le> sum_list (map f xs) / of_nat (length xs) \<and> sum_list (map f xs) / of_nat (length xs) \<le> h"
proof -
  have "l * of_nat (length xs) \<le> sum_list (map f xs) \<and> sum_list (map f xs) \<le> h * of_nat (length xs)"
    using assms(2) by (induction xs) (auto simp: algebra_simps)
  then show ?thesis using assms(1) by (simp add: pos_le_divide_eq pos_divide_le_eq)
qed

text \<open>
  On finite readings the built-in aggregations never raise: \<open>MIN\<close> and \<open>MAX\<close> are readings, and the
  average is the exact mean and lies between them.
\<close>

theorem aggregates_ordered:
  assumes "vs \<noteq> []" "\<forall>v\<in>set vs. finite_reading v"
  shows "\<exists>lo\<in>set vs. \<exists>hi\<in>set vs. builtin_aggregate MIN_OF vs = Inr lo \<and> builtin_aggregate MAX_OF vs = Inr hi
    \<and> (\<exists>a. builtin_aggregate AVERAGE_OF vs = Inr (PyFloat (Fin a)) \<and> a = sum_list (map rat_of vs) / of_nat (length vs)
         \<and> rat_of lo \<le> a \<and> a \<le> rat_of hi)"
proof -
  obtain v rest where vs: "vs = v # rest" using assms(1) by (cases vs) auto
  obtain lo hi where ext: "lo \<in> set vs" "hi \<in> set vs" "py_min_from v rest = Inr lo" "py_max_from v rest = Inr hi"
      "\<forall>x\<in>set vs. rat_of lo \<le> rat_of x \<and> rat_of x \<le> rat_of hi"
    using py_extremes [of v rest] assms(2) unfolding vs by blast
  have zero: "finite_reading (PyInt 0)" "rat_of (PyInt 0) = 0" by (simp_all add: finite_reading_def rat_of_def)
  obtain t where t: "py_sum_from (PyInt 0) vs = Inr t" "finite_reading t" "rat_of t = sum_list (map rat_of vs)"
    using py_sum_finite [OF assms(2) zero(1)] zero(2) by auto
  have "builtin_aggregate AVERAGE_OF vs = Inr (PyFloat (Fin (sum_list (map rat_of vs) / of_nat (length vs))))"
    using t rat_of [OF t(2)] assms(1) by (simp add: builtin_aggregate_def num_of_def vs)
  moreover have "builtin_aggregate MIN_OF vs = Inr lo" "builtin_aggregate MAX_OF vs = Inr hi"
    using ext(3,4) by (simp_all add: builtin_aggregate_def vs)
  ultimately show ?thesis using mean_between [OF assms(1) ext(5)] ext(1,2) by blast
qed

theorem aggregates_ordered_witness:
  "\<exists>a. builtin_aggregate AVERAGE_OF [PyInt 1, PyFloat (Fin 4)] = Inr (PyFloat (Fin a))"
  using aggregates_ordered [of "[PyInt 1, PyFloat (Fin 4)]"] by (auto simp: finite_reading_def)

section \<open>The quality gate\<close>

text \<open>A capability value other than the default needs its share of responsive devices.\<close>

lemma quality_gate:
  assumes "filter_and_aggregate b m capable = Inr v" "v \<noteq> PyNone" "xc_min_device_ratio m = Fin q" "0 < q"
  shows "q * of_nat (length capable) \<le> of_nat (length (filter (\<lambda>d. dev_responsive (bd_store b d)) capable))"
proof -
  have "capable \<noteq> []" "\<not> of_nat (length (filter (\<lambda>d. dev_responsive (bd_store b d)) capable)) / of_nat (length capable) < q"
    using assms by (auto simp: filter_and_aggregate_def Let_def split: if_splits)
  then show ?thesis by (simp add: not_less pos_le_divide_eq)
qed

end
