(* ===== verification/Modbus_Device.thy ===== *)
theory Modbus_Device
  imports Transport Alarm_State
begin

text \<open>
  \<open>csp_lib/equipment/device\<close>: the Modbus device of \<open>base.py\<close>, \<open>mixins.py\<close>, \<open>config.py\<close> and \<open>action.py\<close>: its
  status over connects, reads and failures, the values it keeps, its alarms, writes, digital outputs and
  reconfiguration. The outcome of \<open>client.connect\<close>, the block reads and the clock are arguments, what
  the device emits is a log. A pending pulse is its configuration; the read task is a flag.
\<close>

section \<open>Configuration\<close>

record device_config =
  vc_device_id :: string
  vc_unit_id :: int
  vc_address_offset :: int
  vc_read_interval :: rat
  vc_reconnect_interval :: rat
  vc_disconnect_threshold :: int
  vc_max_concurrent_reads :: int

definition device_config_valid :: "device_config \<Rightarrow> unit res" where
  "device_config_valid c =
     (if vc_device_id c = [] \<or> \<not> (0 \<le> vc_unit_id c \<and> vc_unit_id c \<le> 255) \<or> vc_read_interval c \<le> 0
        \<or> vc_disconnect_threshold c < 1 \<or> vc_reconnect_interval c \<le> 0 \<or> vc_max_concurrent_reads c < 0
      then Inl ConfigurationError else Inr ())"

text \<open>A read point with its flag \<open>reject_non_finite\<close>.\<close>

record device_read_point =
  rp_point :: point
  rp_reject_non_finite :: bool

record device_evaluator =
  de_point :: string
  de_evaluate :: "pyval \<Rightarrow> (string \<times> bool) list res"
  de_alarms :: "alarm_def list"

datatype do_mode = PULSE | SUSTAINED | TOGGLE_DO

record do_action =
  do_point :: string
  do_label :: string
  do_mode :: do_mode
  do_pulse_duration :: rat
  do_on_value :: int
  do_off_value :: int

definition do_action_valid :: "do_action \<Rightarrow> unit res" where
  "do_action_valid c = (if do_mode c = PULSE \<and> do_pulse_duration c \<le> 0 then Inl ValueError else Inr ())"

section \<open>State\<close>

datatype dev_event =
    EvConnected
  | EvDisconnected int
  | EvReadError int
  | EvReadComplete "(string \<times> pyval) list"
  | EvValueChange string pyval pyval
  | EvAlarm alarm_event
  | EvWriteComplete string pyval
  | EvWriteError string pyval
  | EvPointToggled string bool
  | EvCapabilityAdded string
  | EvCapabilityRemoved string
  | EvReconfigured "string list"
  | EvRestarted

record mb_device =
  mv_config :: device_config
  mv_always :: "device_read_point list"
  mv_rotating :: "device_read_point list list"
  mv_write_points :: "(string \<times> point) list"
  mv_scheduler :: read_scheduler
  mv_alarms :: alarm_manager
  mv_evaluators :: "device_evaluator list"
  mv_aggregators :: "aggregator list option"
  mv_capabilities :: "(string \<times> (string \<times> string) list) list"
  mv_disabled :: "string list"
  mv_latest :: "(string \<times> pyval) list"
  mv_connected :: bool
  mv_responsive :: bool
  mv_failures :: int
  mv_last_failure :: "rat option"
  mv_running :: bool
  mv_do_actions :: "(string \<times> do_action) list"
  mv_pulses :: "do_action list"
  mv_events :: "dev_event list"

definition emit :: "dev_event \<Rightarrow> mb_device \<Rightarrow> mb_device" where
  "emit e s = s\<lparr>mv_events := mv_events s @ [e]\<rparr>"

definition group_of :: "device_read_point list \<Rightarrow> read_group list res" where
  "group_of ps = group_points default_max_length (map rp_point ps)"

definition dict_build :: "('k \<times> 'v) list \<Rightarrow> ('k \<times> 'v) list" where
  "dict_build kvs = fold (\<lambda>(k, v). dict_set k v) kvs []"

fun register_evaluators :: "device_evaluator list \<Rightarrow> alarm_manager \<Rightarrow> alarm_manager \<times> bool" where
  "register_evaluators [] m = (m, False)"
| "register_evaluators (e # es) m = (case register_alarms (de_alarms e) m of
     (m', True) \<Rightarrow> (m', True) | (m', False) \<Rightarrow> register_evaluators es m')"

definition device_init :: "device_config \<Rightarrow> device_read_point list \<Rightarrow> device_read_point list list \<Rightarrow> point list \<Rightarrow> device_evaluator list
    \<Rightarrow> aggregator list option \<Rightarrow> (string \<times> (string \<times> string) list) list \<Rightarrow> mb_device res" where
  "device_init c always rotating wps evs aggs caps =
     rbind (group_of always) (\<lambda>ag. rbind (rmap group_of rotating) (\<lambda>rgs.
       case register_evaluators evs [] of
         (m, True) \<Rightarrow> Inl KeyError
       | (m, False) \<Rightarrow>
           Inr \<lparr>mv_config = c, mv_always = always, mv_rotating = rotating, mv_write_points = dict_build (map (\<lambda>p. (pt_name p, p)) wps),
             mv_scheduler = scheduler_init (Some ag) (Some rgs), mv_alarms = m, mv_evaluators = evs, mv_aggregators = aggs,
             mv_capabilities = dict_build caps, mv_disabled = [], mv_latest = [], mv_connected = False, mv_responsive = False,
             mv_failures = 0, mv_last_failure = None, mv_running = False, mv_do_actions = [], mv_pulses = [], mv_events = []\<rparr>))"

section \<open>Queries\<close>

definition is_unreachable :: "mb_device \<Rightarrow> bool" where
  "is_unreachable s = (mv_connected s \<and> \<not> mv_responsive s)"

definition is_protected :: "mb_device \<Rightarrow> bool" where
  "is_protected s = has_protection_alarm (mv_alarms s)"

definition is_healthy :: "mb_device \<Rightarrow> bool" where
  "is_healthy s = (mv_connected s \<and> mv_responsive s \<and> \<not> is_protected s)"

definition should_attempt_read :: "rat \<Rightarrow> mb_device \<Rightarrow> bool" where
  "should_attempt_read now s = (mv_responsive s
     \<or> (case mv_last_failure s of None \<Rightarrow> True | Some t \<Rightarrow> now - t \<ge> vc_reconnect_interval (mv_config s)))"

definition read_names :: "mb_device \<Rightarrow> string list" where
  "read_names s = map (\<lambda>p. pt_name (rp_point p)) (mv_always s @ concat (mv_rotating s))"

definition all_point_names :: "mb_device \<Rightarrow> string set" where
  "all_point_names s = set (read_names s) \<union> set (dict_keys (mv_write_points s))"

definition used_unit_ids :: "mb_device \<Rightarrow> int set" where
  "used_unit_ids s = insert (vc_unit_id (mv_config s))
     (set (List.map_filter pt_unit_id (map rp_point (mv_always s @ concat (mv_rotating s)) @ map snd (mv_write_points s))))"

text \<open>The first definition of a name counts, a fixed point before a rotating one; of two fixed ones the last.\<close>

definition read_point_lookup :: "mb_device \<Rightarrow> (string \<times> device_read_point) list" where
  "read_point_lookup s =
     fold (\<lambda>p d. if dict_get d (pt_name (rp_point p)) = None then dict_set (pt_name (rp_point p)) p d else d) (concat (mv_rotating s))
       (dict_build (map (\<lambda>p. (pt_name (rp_point p), p)) (mv_always s)))"

definition should_reject_non_finite :: "mb_device \<Rightarrow> string \<Rightarrow> pyval \<Rightarrow> bool" where
  "should_reject_non_finite s name v =
     (case dict_get (read_point_lookup s) name of None \<Rightarrow> False
      | Some p \<Rightarrow> rp_reject_non_finite p \<and> (case v of PyFloat x \<Rightarrow> \<not> is_finite x | _ \<Rightarrow> False))"

definition enable_point :: "string \<Rightarrow> (mb_device, unit) op" where
  "enable_point name s = (if name \<notin> all_point_names s then (Inl KeyError, s)
     else (Inr (), emit (EvPointToggled name True) (s\<lparr>mv_disabled := removeAll name (mv_disabled s)\<rparr>)))"

definition disable_point :: "string \<Rightarrow> (mb_device, unit) op" where
  "disable_point name s = (if name \<notin> all_point_names s then (Inl KeyError, s)
     else (Inr (), emit (EvPointToggled name False) (s\<lparr>mv_disabled := List.insert name (mv_disabled s)\<rparr>)))"

definition add_capability :: "string \<Rightarrow> (string \<times> string) list \<Rightarrow> mb_device \<Rightarrow> mb_device" where
  "add_capability cap binding s = emit (EvCapabilityAdded cap) (s\<lparr>mv_capabilities := dict_set cap binding (mv_capabilities s)\<rparr>)"

definition remove_capability :: "string \<Rightarrow> mb_device \<Rightarrow> mb_device" where
  "remove_capability cap s = (if dict_get (mv_capabilities s) cap = None then s
     else emit (EvCapabilityRemoved cap) (s\<lparr>mv_capabilities := dict_del cap (mv_capabilities s)\<rparr>))"

section \<open>Reading\<close>

definition process_value :: "string \<times> pyval \<Rightarrow> mb_device \<Rightarrow> mb_device" where
  "process_value nv s = (case nv of (name, v) \<Rightarrow>
     if name \<in> set (mv_disabled s) then s
     else if should_reject_non_finite s name v then s
     else let old = dict_get_or (mv_latest s) name PyNone;
              s1 = (if \<not> py_eq old v then emit (EvValueChange name old v) s else s)
          in s1\<lparr>mv_latest := dict_set name v (mv_latest s1)\<rparr>)"

definition process_values :: "(string \<times> pyval) list \<Rightarrow> mb_device \<Rightarrow> mb_device" where
  "process_values vs s = fold process_value vs s"

definition effective_values :: "mb_device \<Rightarrow> (string \<times> pyval) list \<Rightarrow> (string \<times> pyval) list" where
  "effective_values s vs = map (\<lambda>(name, v). (name,
     if should_reject_non_finite s name v then dict_get_or (mv_latest s) name v else v)) vs"

text \<open>An evaluator that raises is skipped.\<close>

definition evaluate_alarm :: "rat \<Rightarrow> (string \<times> pyval) list \<Rightarrow> device_evaluator \<Rightarrow> mb_device \<Rightarrow> mb_device" where
  "evaluate_alarm now vs ev s =
     (if de_point ev \<in> set (mv_disabled s) then s
      else case dict_get_or vs (de_point ev) PyNone of PyNone \<Rightarrow> s
      | v \<Rightarrow> (case de_evaluate ev v of Inl e \<Rightarrow> s
          | Inr evals \<Rightarrow> (case update_alarms now evals (mv_alarms s) of
              (m, evs) \<Rightarrow> fold (\<lambda>e. emit (EvAlarm e)) evs (s\<lparr>mv_alarms := m\<rparr>))))"

definition evaluate_alarms :: "rat \<Rightarrow> (string \<times> pyval) list \<Rightarrow> mb_device \<Rightarrow> mb_device" where
  "evaluate_alarms now vs s = fold (evaluate_alarm now vs) (mv_evaluators s) s"

definition device_clear_alarm :: "rat \<Rightarrow> string \<Rightarrow> mb_device \<Rightarrow> mb_device" where
  "device_clear_alarm now code s = (case clear_alarm now code (mv_alarms s) of
     (m, None) \<Rightarrow> s\<lparr>mv_alarms := m\<rparr> | (m, Some e) \<Rightarrow> emit (EvAlarm e) (s\<lparr>mv_alarms := m\<rparr>))"

definition handle_read_failure :: "rat \<Rightarrow> mb_device \<Rightarrow> mb_device" where
  "handle_read_failure now s =
     emit (EvReadError (mv_failures s + 1)) (s\<lparr>mv_failures := mv_failures s + 1, mv_last_failure := Some now\<rparr>)"

definition check_disconnect_threshold :: "mb_device \<Rightarrow> mb_device" where
  "check_disconnect_threshold s =
     (if mv_failures s \<ge> vc_disconnect_threshold (mv_config s) \<and> mv_responsive s
      then emit (EvDisconnected (mv_failures s)) (s\<lparr>mv_responsive := False\<rparr>) else s)"

text \<open>The scheduler has moved on also when the read fails.\<close>

definition read_all :: "(read_group list \<Rightarrow> (string \<times> pyval) list res) \<Rightarrow> (mb_device, (string \<times> pyval) list) op" where
  "read_all reader s =
     (case get_next_groups (mv_scheduler s) of (groups, sc) \<Rightarrow>
        (if groups = [] then Inr []
         else rbind (reader groups) (\<lambda>vs. Inr (case mv_aggregators s of None \<Rightarrow> vs | Some as \<Rightarrow> aggregate_all as vs)),
         s\<lparr>mv_scheduler := sc\<rparr>))"

definition read_succeeded :: "rat \<Rightarrow> (string \<times> pyval) list \<Rightarrow> mb_device \<Rightarrow> (string \<times> pyval) list \<times> mb_device" where
  "read_succeeded now vs s =
     (let s1 = s\<lparr>mv_failures := 0, mv_last_failure := None, mv_responsive := True\<rparr>;
          s2 = (if mv_responsive s then s1 else emit EvConnected s1);
          s3 = process_values vs s2;
          ev = effective_values s3 vs;
          s4 = evaluate_alarms now ev s3
      in (ev, emit (EvReadComplete ev) s4))"

definition read_once :: "rat \<Rightarrow> unit res \<Rightarrow> (read_group list \<Rightarrow> (string \<times> pyval) list res) \<Rightarrow> (mb_device, (string \<times> pyval) list) op" where
  "read_once now connect reader s =
     (if \<not> mv_connected s \<and> connect \<noteq> Inr () then (Inl DeviceConnectionError, s\<lparr>mv_last_failure := Some now\<rparr>)
      else let s1 = (if mv_connected s then s else s\<lparr>mv_connected := True, mv_failures := 0\<rparr>)
        in case read_all reader s1 of
             (Inl e, s2) \<Rightarrow> (Inl CommunicationError, check_disconnect_threshold (handle_read_failure now s2))
           | (Inr vs, s2) \<Rightarrow> (case read_succeeded now vs s2 of (ev, s3) \<Rightarrow> (Inr ev, s3)))"

text \<open>The block reads of the device, as its constructor sets up the reader.\<close>

definition device_reader :: "(pyval \<Rightarrow> string) \<Rightarrow> read_fn \<Rightarrow> mb_device \<Rightarrow> read_group list \<Rightarrow> (string \<times> pyval) list res" where
  "device_reader str_of rd s = read_many str_of rd
     \<lparr>gr_unit_id = vc_unit_id (mv_config s), gr_address_offset = vc_address_offset (mv_config s), gr_max_concurrent = 1\<rparr>"

text \<open>One round of the read loop, up to its sleep; \<open>None\<close> is the sleep after a failed connect.\<close>

definition read_loop_round :: "rat \<Rightarrow> unit res \<Rightarrow> (read_group list \<Rightarrow> (string \<times> pyval) list res) \<Rightarrow> mb_device
    \<Rightarrow> (string \<times> pyval) list res option \<times> mb_device" where
  "read_loop_round now connect reader s =
     (if \<not> mv_connected s \<and> connect \<noteq> Inr () then (None, s)
      else let s1 = (if mv_connected s then s else emit EvConnected (s\<lparr>mv_connected := True, mv_responsive := True, mv_failures := 0\<rparr>));
               (r, s2) = read_once now connect reader s1
           in (Some r, s2))"

section \<open>Lifecycle\<close>

definition device_connect :: "unit res \<Rightarrow> (mb_device, unit) op" where
  "device_connect connect s =
     (if connect \<noteq> Inr () then (Inl DeviceConnectionError, s)
      else (Inr (), emit EvConnected (s\<lparr>mv_connected := True, mv_responsive := True, mv_failures := 0\<rparr>)))"

definition device_start :: "mb_device \<Rightarrow> mb_device" where
  "device_start s = s\<lparr>mv_running := True\<rparr>"

definition device_stop :: "mb_device \<Rightarrow> mb_device" where
  "device_stop s = s\<lparr>mv_pulses := [], mv_running := False\<rparr>"

definition device_disconnect :: "unit res \<Rightarrow> (mb_device, unit) op" where
  "device_disconnect outcome s =
     (let s1 = device_stop s in
      if \<not> mv_connected s1 then (Inr (), s1)
      else if outcome \<noteq> Inr () then (Inl DeviceConnectionError, s1)
      else (Inr (), emit (EvDisconnected 0) (s1\<lparr>mv_connected := False, mv_responsive := False, mv_failures := 0, mv_last_failure := None\<rparr>)))"

definition device_restart :: "mb_device \<Rightarrow> mb_device" where
  "device_restart s = emit EvRestarted (device_start (device_stop s))"

section \<open>Writing\<close>

type_synonym 'd device_world = "mb_device \<times> 'd"

definition device_writer :: "mb_device \<Rightarrow> validated_writer" where
  "device_writer s = \<lparr>vw_unit_id = vc_unit_id (mv_config s), vw_address_offset = vc_address_offset (mv_config s)\<rparr>"

definition device_write :: "(pyval \<Rightarrow> string) \<Rightarrow> 'd modbus_client \<Rightarrow> string \<Rightarrow> pyval \<Rightarrow> bool \<Rightarrow> ('d device_world, write_result) op" where
  "device_write str_of c name v verify sd =
     (case sd of (s, d) \<Rightarrow>
        if name \<in> set (mv_disabled s) then (Inr \<lparr>wr_status = VALIDATION_FAILED, wr_point_name = name, wr_value = v\<rparr>, s, d)
        else case dict_get (mv_write_points s) name of
          None \<Rightarrow> (Inr \<lparr>wr_status = VALIDATION_FAILED, wr_point_name = name, wr_value = v\<rparr>, s, d)
        | Some p \<Rightarrow> (case validated_write str_of c (device_writer s) p v verify d of
            (d', Inl e) \<Rightarrow> (Inl e, s, d')
          | (d', Inr r) \<Rightarrow> (Inr r, emit (if wr_status r = SUCCESS then EvWriteComplete name v else EvWriteError name v) s, d')))"

definition configure_do_actions :: "do_action list \<Rightarrow> (mb_device, unit) op" where
  "configure_do_actions cs s =
     (if \<not> distinct (map do_label cs) then (Inl ValueError, s)
      else (Inr (), s\<lparr>mv_do_actions := map (\<lambda>c. (do_label c, c)) cs, mv_pulses := []\<rparr>))"

definition toggle_value :: "mb_device \<Rightarrow> do_action \<Rightarrow> int" where
  "toggle_value s c =
     (if py_eq (dict_get_or (mv_latest s) (do_point c) (PyInt (do_off_value c))) (PyInt (do_on_value c)) then do_off_value c else do_on_value c)"

definition execute_do_action :: "(pyval \<Rightarrow> string) \<Rightarrow> 'd modbus_client \<Rightarrow> string \<Rightarrow> bool \<Rightarrow> ('d device_world, write_result) op" where
  "execute_do_action str_of c label turn_off sd =
     (case dict_get (mv_do_actions (fst sd)) label of
        None \<Rightarrow> (Inl ValueError, sd)
      | Some a \<Rightarrow> (case do_mode a of
          SUSTAINED \<Rightarrow> device_write str_of c (do_point a) (PyInt (if turn_off then do_off_value a else do_on_value a)) False sd
        | TOGGLE_DO \<Rightarrow>
            let v = PyInt (toggle_value (fst sd) a) in
            sbind (device_write str_of c (do_point a) v False) (\<lambda>r (s, d).
              (Inr r, if wr_status r = SUCCESS then s\<lparr>mv_latest := dict_set (do_point a) v (mv_latest s)\<rparr> else s, d)) sd
        | PULSE \<Rightarrow>
            sbind (device_write str_of c (do_point a) (PyInt (do_on_value a)) False) (\<lambda>r (s, d).
              (Inr r, if wr_status r = SUCCESS then s\<lparr>mv_pulses := mv_pulses s @ [a]\<rparr> else s, d)) sd))"

text \<open>The delayed half of the \<open>i\<close>-th pending pulse; whatever it raises is logged.\<close>

definition pulse_off :: "(pyval \<Rightarrow> string) \<Rightarrow> 'd modbus_client \<Rightarrow> nat \<Rightarrow> 'd device_world \<Rightarrow> 'd device_world" where
  "pulse_off str_of c i sd =
     (if i < length (mv_pulses (fst sd)) then
        let a = mv_pulses (fst sd) ! i;
            (s, d) = snd (device_write str_of c (do_point a) (PyInt (do_off_value a)) False sd)
        in (s\<lparr>mv_pulses := take i (mv_pulses s) @ drop (Suc i) (mv_pulses s)\<rparr>, d)
      else sd)"

section \<open>Reconfiguration\<close>

record reconfigure_spec =
  rc_always :: "device_read_point list option"
  rc_rotating :: "device_read_point list list option"
  rc_write_points :: "point list option"
  rc_evaluators :: "device_evaluator list option"
  rc_capabilities :: "(string \<times> (string \<times> string) list) list option"

definition reconfigure_reads :: "reconfigure_spec \<Rightarrow> (mb_device, unit) op" where
  "reconfigure_reads spec s =
     (if rc_always spec = None \<and> rc_rotating spec = None then (Inr (), s)
      else let s1 = s\<lparr>mv_always := (case rc_always spec of None \<Rightarrow> mv_always s | Some ps \<Rightarrow> ps),
                      mv_rotating := (case rc_rotating spec of None \<Rightarrow> mv_rotating s | Some pss \<Rightarrow> pss)\<rparr>
        in case rbind (group_of (mv_always s1)) (\<lambda>ag. rbind (rmap group_of (mv_rotating s1)) (\<lambda>rgs. Inr (ag, rgs))) of
             Inl e \<Rightarrow> (Inl e, s1)
           | Inr (ag, rgs) \<Rightarrow> (Inr (), s1\<lparr>mv_scheduler := update_groups (Some ag) (Some rgs) (mv_scheduler s1)\<rparr>))"

text \<open>The states of the old alarms are taken over; a duplicate code raises with the new manager half built.\<close>

definition reconfigure_alarms :: "device_evaluator list option \<Rightarrow> (mb_device, unit) op" where
  "reconfigure_alarms evs s = (case evs of None \<Rightarrow> (Inr (), s)
     | Some es \<Rightarrow> (case register_evaluators es [] of
         (m, True) \<Rightarrow> (Inl KeyError, s\<lparr>mv_evaluators := es, mv_alarms := m\<rparr>)
       | (m, False) \<Rightarrow> (Inr (), s\<lparr>mv_evaluators := es, mv_alarms := import_states (mv_alarms s) m\<rparr>)))"

definition changed_sections :: "reconfigure_spec \<Rightarrow> string list" where
  "changed_sections spec =
     (if rc_always spec \<noteq> None then [''always_points''] else []) @ (if rc_rotating spec \<noteq> None then [''rotating_points''] else [])
     @ (if rc_write_points spec \<noteq> None then [''write_points''] else []) @ (if rc_evaluators spec \<noteq> None then [''alarm_evaluators''] else [])
     @ (if rc_capabilities spec \<noteq> None then [''capability_bindings''] else [])"

definition reconfigure :: "reconfigure_spec \<Rightarrow> (mb_device, unit) op" where
  "reconfigure spec s =
     (let running = mv_running s; s0 = (if running then device_stop s else s);
          (r, s1) =
            sbind (reconfigure_reads spec) (\<lambda>_.
            sbind (op_mod (\<lambda>s. case rc_write_points spec of None \<Rightarrow> s
                     | Some wps \<Rightarrow> s\<lparr>mv_write_points := dict_build (map (\<lambda>p. (pt_name p, p)) wps)\<rparr>)) (\<lambda>_.
            sbind (reconfigure_alarms (rc_evaluators spec)) (\<lambda>_.
            sbind (op_mod (\<lambda>s. case rc_capabilities spec of None \<Rightarrow> s | Some caps \<Rightarrow> s\<lparr>mv_capabilities := dict_build caps\<rparr>)) (\<lambda>_.
              op_mod (\<lambda>s. s\<lparr>mv_disabled := filter (\<lambda>n. n \<in> all_point_names s) (mv_disabled s)\<rparr>))))) s0;
          s2 = (if running then device_start s1 else s1)
      in case r of Inl e \<Rightarrow> (Inl e, s2) | Inr _ \<Rightarrow> (Inr (), emit (EvReconfigured (changed_sections spec)) s2))"

section \<open>What reading leaves alone\<close>

lemma emit_simps [simp]:
  "mv_config (emit e s) = mv_config s" "mv_always (emit e s) = mv_always s" "mv_rotating (emit e s) = mv_rotating s"
  "mv_latest (emit e s) = mv_latest s" "mv_responsive (emit e s) = mv_responsive s" "mv_connected (emit e s) = mv_connected s"
  "mv_failures (emit e s) = mv_failures s" "mv_events (emit e s) = mv_events s @ [e]" "mv_disabled (emit e s) = mv_disabled s"
  "mv_evaluators (emit e s) = mv_evaluators s" "mv_write_points (emit e s) = mv_write_points s" "mv_pulses (emit e s) = mv_pulses s"
  by (simp_all add: emit_def)

text \<open>The announced changes of the connection, \<open>True\<close> for connected.\<close>

definition conn_change :: "dev_event \<Rightarrow> bool option" where
  "conn_change e = (case e of EvConnected \<Rightarrow> Some True | EvDisconnected _ \<Rightarrow> Some False | _ \<Rightarrow> None)"

definition conn_log :: "mb_device \<Rightarrow> bool list" where
  "conn_log s = List.map_filter conn_change (mv_events s)"

lemma conn_log_emit [simp]: "conn_log (emit e s) = conn_log s @ (case conn_change e of None \<Rightarrow> [] | Some b \<Rightarrow> [b])"
  by (simp add: conn_log_def List.map_filter_def split: option.split)

lemma conn_log_frame [simp]:
  "conn_log (s\<lparr>mv_failures := f\<rparr>) = conn_log s" "conn_log (s\<lparr>mv_last_failure := l\<rparr>) = conn_log s"
  "conn_log (s\<lparr>mv_responsive := b\<rparr>) = conn_log s" "conn_log (s\<lparr>mv_alarms := m\<rparr>) = conn_log s"
  "conn_log (s\<lparr>mv_latest := d\<rparr>) = conn_log s" "conn_log (s\<lparr>mv_scheduler := sc\<rparr>) = conn_log s"
  by (simp_all add: conn_log_def)

text \<open>Two devices that agree on their status and configuration.\<close>

definition same_status :: "mb_device \<Rightarrow> mb_device \<Rightarrow> bool" where
  "same_status s t \<longleftrightarrow> mv_config t = mv_config s \<and> mv_always t = mv_always s \<and> mv_rotating t = mv_rotating s \<and> conn_log t = conn_log s
     \<and> mv_responsive t = mv_responsive s \<and> mv_connected t = mv_connected s \<and> mv_failures t = mv_failures s"

lemma same_status_refl [simp]: "same_status s s"
  by (simp add: same_status_def)

lemma same_status_trans: "same_status r s \<Longrightarrow> same_status s t \<Longrightarrow> same_status r t"
  by (simp add: same_status_def)

lemma process_values_status: "same_status s (process_values vs s)"
proof (induction vs arbitrary: s)
  case (Cons v vs)
  have "same_status s (process_value v s)"
    by (simp add: process_value_def same_status_def conn_change_def Let_def conn_log_def emit_def List.map_filter_def split: prod.split)
  then show ?case using same_status_trans Cons.IH by (simp add: process_values_def)
qed (simp add: process_values_def)

lemma alarm_events_status: "same_status s (fold (\<lambda>e. emit (EvAlarm e)) evs s) \<and> mv_latest (fold (\<lambda>e. emit (EvAlarm e)) evs s) = mv_latest s"
  by (induction evs arbitrary: s) (auto simp: same_status_def conn_change_def)

lemma evaluate_alarms_status: "same_status s (evaluate_alarms now vs s) \<and> mv_latest (evaluate_alarms now vs s) = mv_latest s"
proof -
  have set_alarms: "same_status s (s\<lparr>mv_alarms := m\<rparr>)" for s m by (simp add: same_status_def conn_log_def)
  have events: "same_status s (fold (\<lambda>e. emit (EvAlarm e)) evs (s\<lparr>mv_alarms := m\<rparr>))
    \<and> mv_latest (fold (\<lambda>e. emit (EvAlarm e)) evs (s\<lparr>mv_alarms := m\<rparr>)) = mv_latest s" for s evs m
    using same_status_trans [OF set_alarms] alarm_events_status by fastforce
  have one: "same_status s (evaluate_alarm now vs ev s) \<and> mv_latest (evaluate_alarm now vs ev s) = mv_latest s" for ev s
    by (simp add: evaluate_alarm_def events split: pyval.split sum.split prod.split)
  have "same_status s (fold (evaluate_alarm now vs) evs s) \<and> mv_latest (fold (evaluate_alarm now vs) evs s) = mv_latest s" for evs
  proof (induction evs arbitrary: s)
    case (Cons ev evs)
    then show ?case using one [of s ev] same_status_trans by fastforce
  qed simp
  then show ?thesis by (simp add: evaluate_alarms_def)
qed

section \<open>Responsiveness\<close>

lemma read_all_status: "same_status s (snd (read_all reader s)) \<and> mv_latest (snd (read_all reader s)) = mv_latest s"
  by (simp add: read_all_def same_status_def conn_log_def split: prod.split)

lemma read_succeeded_status:
  assumes "read_succeeded now vs s = (ev, t)"
  shows "mv_config t = mv_config s \<and> mv_connected t = mv_connected s \<and> mv_failures t = 0 \<and> mv_responsive t
    \<and> conn_log t = conn_log s @ (if mv_responsive s then [] else [True])"
proof -
  define s2 where "s2 = (let s1 = s\<lparr>mv_failures := 0, mv_last_failure := None, mv_responsive := True\<rparr>
    in if mv_responsive s then s1 else emit EvConnected s1)"
  have s2: "mv_config s2 = mv_config s \<and> mv_connected s2 = mv_connected s \<and> mv_failures s2 = 0 \<and> mv_responsive s2
    \<and> conn_log s2 = conn_log s @ (if mv_responsive s then [] else [True])"
    by (simp add: s2_def Let_def conn_change_def)
  have t: "t = emit (EvReadComplete ev) (evaluate_alarms now ev (process_values vs s2))"
    using assms by (auto simp: read_succeeded_def Let_def s2_def)
  have "same_status s2 (evaluate_alarms now ev (process_values vs s2))"
    using same_status_trans [OF process_values_status] evaluate_alarms_status by blast
  then show ?thesis using s2 by (simp add: t same_status_def conn_change_def)
qed

text \<open>A read of a connected device: a success clears the failures, a failure counts and may cross the threshold.\<close>

lemma read_once_status:
  assumes "mv_connected s" "read_once now connect reader s = (r, t)"
  shows "mv_config t = mv_config s \<and> mv_connected t
    \<and> mv_failures t = (if isl r then mv_failures s + 1 else 0)
    \<and> mv_responsive t = (if isl r then mv_responsive s \<and> mv_failures s + 1 < vc_disconnect_threshold (mv_config s) else True)
    \<and> conn_log t = conn_log s @ (if mv_responsive t = mv_responsive s then [] else [mv_responsive t])"
proof -
  obtain x u where u: "read_all reader s = (x, u)" by (cases "read_all reader s")
  have same: "same_status s u" using read_all_status [of s reader] u by simp
  show ?thesis
  proof (cases x)
    case (Inl e)
    then have t: "t = check_disconnect_threshold (handle_read_failure now u)" "isl r"
      using assms u by (auto simp: read_once_def)
    show ?thesis using same t(2) assms(1)
      by (auto simp: t(1) check_disconnect_threshold_def handle_read_failure_def same_status_def conn_change_def)
  next
    case (Inr vs)
    obtain ev v where v: "read_succeeded now vs u = (ev, v)" by (cases "read_succeeded now vs u")
    then have "t = v" "\<not> isl r" using assms u Inr by (auto simp: read_once_def)
    then show ?thesis using read_succeeded_status [OF v] same assms(1) by (simp add: same_status_def)
  qed
qed

type_synonym read_input = "rat \<times> unit res \<times> (read_group list \<Rightarrow> (string \<times> pyval) list res)"

fun read_run :: "read_input list \<Rightarrow> mb_device \<Rightarrow> bool list \<times> mb_device" where
  "read_run [] s = ([], s)"
| "read_run ((now, connect, reader) # rs) s =
     (case read_once now connect reader s of (r, s') \<Rightarrow> (case read_run rs s' of (bs, t) \<Rightarrow> ((\<not> isl r) # bs, t)))"

lemma read_run_snoc:
  "read_run (rs @ [(now, connect, reader)]) s =
     (case read_run rs s of (bs, u) \<Rightarrow> (case read_once now connect reader u of (r, t) \<Rightarrow> (bs @ [\<not> isl r], t)))"
  by (induction rs s rule: read_run.induct) (auto split: prod.split)

text \<open>
  C36. The responsiveness of a connected device is exactly its disconnect threshold over the outcomes of its
  reads: after any sequence of reads the failure count is the number of failures since the last success, the device
  counts as responsive exactly while that number is below the threshold, and the changes it announces alternate,
  starting with a disconnect and ending with its present status.
\<close>

theorem responsiveness_exact:
  assumes "mv_connected s" "mv_responsive s" "mv_failures s = 0" "1 \<le> vc_disconnect_threshold (mv_config s)"
    and "read_run rs s = (bs, t)"
  shows "mv_failures t = int (trailing False bs)
    \<and> (mv_responsive t \<longleftrightarrow> int (trailing False bs) < vc_disconnect_threshold (mv_config s))
    \<and> (\<exists>l. conn_log t = conn_log s @ l \<and> alternates True l \<and> mv_responsive t = last (True # l))"
proof -
  have "mv_config t = mv_config s \<and> mv_connected t \<and> mv_failures t = int (trailing False bs)
    \<and> (mv_responsive t \<longleftrightarrow> int (trailing False bs) < vc_disconnect_threshold (mv_config s))
    \<and> (\<exists>l. conn_log t = conn_log s @ l \<and> alternates True l \<and> mv_responsive t = last (True # l))"
    using assms(5)
  proof (induction rs arbitrary: bs t rule: rev_induct)
    case Nil
    then show ?case using assms(1-4) by (auto simp: trailing_def)
  next
    case (snoc x rs)
    obtain now connect reader where x: "x = (now, connect, reader)" by (cases x)
    obtain cs u where u: "read_run rs s = (cs, u)" by (cases "read_run rs s")
    obtain r where r: "read_once now connect reader u = (r, t)" "bs = cs @ [\<not> isl r]"
      using snoc.prems by (auto simp: x read_run_snoc u split: prod.splits)
    obtain l where IH: "mv_config u = mv_config s" "mv_connected u" "mv_failures u = int (trailing False cs)"
      "mv_responsive u \<longleftrightarrow> int (trailing False cs) < vc_disconnect_threshold (mv_config s)"
      "conn_log u = conn_log s @ l" "alternates True l" "mv_responsive u = last (True # l)"
      using snoc.IH [OF u] by blast
    note step = read_once_status [OF IH(2) r(1)]
    have resp: "mv_responsive t \<longleftrightarrow> int (trailing False bs) < vc_disconnect_threshold (mv_config s)"
      using step IH assms(4) by (auto simp: r(2))
    let ?m = "if mv_responsive t = mv_responsive u then [] else [mv_responsive t]"
    have "conn_log t = conn_log s @ (l @ ?m)" using step IH(5) by simp
    moreover have "alternates True (l @ ?m)" using IH(6,7) by (auto simp: alternates_snoc)
    moreover have "mv_responsive t = last (True # (l @ ?m))" using IH(7) by auto
    ultimately show ?case using step IH resp by (auto simp: r(2))
  qed
  then show ?thesis by blast
qed

section \<open>The values a device keeps\<close>

text \<open>What a running device can do; reconfiguration is apart, since it changes the points.\<close>

inductive dev_step :: "(pyval \<Rightarrow> string) \<Rightarrow> 'd modbus_client \<Rightarrow> 'd device_world \<Rightarrow> 'd device_world \<Rightarrow> bool" for str_of c where
  round: "dev_step str_of c (s, d) (snd (read_loop_round now connect reader s), d)"
| reads: "dev_step str_of c (s, d) (snd (read_once now connect reader s), d)"
| connect: "dev_step str_of c (s, d) (snd (device_connect outcome s), d)"
| disconnect: "dev_step str_of c (s, d) (snd (device_disconnect outcome s), d)"
| start: "dev_step str_of c (s, d) (device_start s, d)"
| stop: "dev_step str_of c (s, d) (device_stop s, d)"
| restart: "dev_step str_of c (s, d) (device_restart s, d)"
| writes: "dev_step str_of c sd (snd (device_write str_of c name v verify sd))"
| configure: "dev_step str_of c (s, d) (snd (configure_do_actions cs s), d)"
| action: "dev_step str_of c sd (snd (execute_do_action str_of c label turn_off sd))"
| pulse: "dev_step str_of c sd (pulse_off str_of c i sd)"
| enable: "dev_step str_of c (s, d) (snd (enable_point name s), d)"
| disable: "dev_step str_of c (s, d) (snd (disable_point name s), d)"
| clear: "dev_step str_of c (s, d) (device_clear_alarm now code s, d)"
| add: "dev_step str_of c (s, d) (add_capability cap binding s, d)"
| remove: "dev_step str_of c (s, d) (remove_capability cap s, d)"

definition clean_values :: "mb_device \<Rightarrow> bool" where
  "clean_values s \<longleftrightarrow> (\<forall>n v. map_of (mv_latest s) n = Some v \<longrightarrow> \<not> should_reject_non_finite s n v)"

text \<open>Two devices with the same points; \<open>kept\<close> ones have the same values too.\<close>

definition same_points :: "mb_device \<Rightarrow> mb_device \<Rightarrow> bool" where
  "same_points s t \<longleftrightarrow> mv_always t = mv_always s \<and> mv_rotating t = mv_rotating s"

definition kept :: "mb_device \<Rightarrow> mb_device \<Rightarrow> bool" where
  "kept s t \<longleftrightarrow> same_points s t \<and> mv_latest t = mv_latest s"

lemma same_points_reject: "same_points s t \<Longrightarrow> should_reject_non_finite t = should_reject_non_finite s"
  by (intro ext) (simp add: same_points_def should_reject_non_finite_def read_point_lookup_def)

lemma kept_clean: "kept s t \<Longrightarrow> clean_values s \<Longrightarrow> clean_values t"
  by (auto simp: kept_def clean_values_def same_points_reject)

lemma clean_set:
  assumes "clean_values s" "\<not> should_reject_non_finite s n v"
  shows "clean_values (s\<lparr>mv_latest := dict_set n v (mv_latest s)\<rparr>)"
proof -
  have "should_reject_non_finite (s\<lparr>mv_latest := d\<rparr>) = should_reject_non_finite s" for d
    by (rule same_points_reject) (simp add: same_points_def)
  then show ?thesis using assms by (auto simp: clean_values_def map_of_dict_set)
qed

lemma process_values_clean: "clean_values s \<Longrightarrow> clean_values (process_values vs s)"
proof (induction vs arbitrary: s)
  case (Cons nv vs)
  obtain n v where nv: "nv = (n, v)" by (cases nv)
  have "kept s (emit e s)" for e by (simp add: kept_def same_points_def)
  then have "clean_values (emit e s)" for e using kept_clean Cons.prems by blast
  moreover have "should_reject_non_finite (emit e s) = should_reject_non_finite s" for e
    by (rule same_points_reject) (simp add: same_points_def)
  ultimately have "clean_values (process_value nv s)"
    using Cons.prems clean_set [of s n v] clean_set [of "emit (EvValueChange n (dict_get_or (mv_latest s) n PyNone) v) s" n v]
    by (simp add: process_value_def nv Let_def)
  then show ?case using Cons.IH by (simp add: process_values_def)
qed (simp add: process_values_def)

lemma read_once_clean: "clean_values s \<Longrightarrow> clean_values (snd (read_once now connect reader s))"
proof -
  assume s: "clean_values s"
  define s1 where "s1 = (if mv_connected s then s else s\<lparr>mv_connected := True, mv_failures := 0\<rparr>)"
  obtain x u where u: "read_all reader s1 = (x, u)" by (cases "read_all reader s1")
  have "kept s s1" by (simp add: s1_def kept_def same_points_def)
  moreover have "same_status s1 u \<and> mv_latest u = mv_latest s1" using read_all_status [of s1 reader] u by simp
  ultimately have cu: "clean_values u" using s kept_clean by (fastforce simp: kept_def same_points_def same_status_def)
  have fail: "kept u (check_disconnect_threshold (handle_read_failure now u))"
    by (simp add: check_disconnect_threshold_def handle_read_failure_def kept_def same_points_def)
  have succ: "clean_values w" if w: "read_succeeded now vs u = (ev, w)" for vs ev w
  proof -
    define u2 where "u2 = (let s1 = u\<lparr>mv_failures := 0, mv_last_failure := None, mv_responsive := True\<rparr>
      in if mv_responsive u then s1 else emit EvConnected s1)"
    have "kept u u2" by (simp add: u2_def Let_def kept_def same_points_def)
    then have "clean_values (process_values vs u2)" using cu kept_clean process_values_clean by blast
    moreover have "kept (process_values vs u2) w"
      using w evaluate_alarms_status [of "process_values vs u2" now ev]
      by (auto simp: read_succeeded_def Let_def u2_def kept_def same_points_def same_status_def)
    ultimately show ?thesis using kept_clean by blast
  qed
  have "kept s (s\<lparr>mv_last_failure := Some now\<rparr>)" by (simp add: kept_def same_points_def)
  then show "clean_values (snd (read_once now connect reader s))"
    using kept_clean [OF _ s] kept_clean [OF fail cu] succ
    by (auto simp: read_once_def s1_def [symmetric] u Let_def split: sum.split prod.split)
qed

lemma device_write_kept: "kept (fst sd) (fst (snd (device_write str_of c name v verify sd)))"
  by (cases sd) (auto simp: device_write_def kept_def same_points_def split: option.split sum.split prod.split)

lemma action_clean: "clean_values (fst sd) \<Longrightarrow> clean_values (fst (snd (execute_do_action str_of c label turn_off sd)))"
proof (cases "dict_get (mv_do_actions (fst sd)) label")
  case (Some a)
  assume clean: "clean_values (fst sd)"
  show ?thesis
  proof (cases "do_mode a = SUSTAINED")
    case True
    then show ?thesis using Some kept_clean [OF device_write_kept clean] by (simp add: execute_do_action_def)
  next
    case False
    define v where "v = (if do_mode a = PULSE then PyInt (do_on_value a) else PyInt (toggle_value (fst sd) a))"
    obtain x s' d' where w: "device_write str_of c (do_point a) v False sd = (x, s', d')"
      using prod_cases3 by blast
    then have s': "clean_values s'" using kept_clean [OF device_write_kept clean] by (metis fst_conv snd_conv)
    have "\<not> should_reject_non_finite s' (do_point a) v"
      by (simp add: should_reject_non_finite_def v_def split: option.split)
    then have "clean_values (s'\<lparr>mv_latest := dict_set (do_point a) v (mv_latest s')\<rparr>)" by (rule clean_set [OF s'])
    moreover have "clean_values (s'\<lparr>mv_pulses := ps\<rparr>)" for ps
      by (rule kept_clean [OF _ s']) (simp add: kept_def same_points_def)
    ultimately show ?thesis using False Some w s'
      by (cases "do_mode a") (auto simp: execute_do_action_def v_def sbind_def Let_def split: sum.split)
  qed
qed (simp add: execute_do_action_def)

lemma pulse_kept: "kept (fst sd) (fst (pulse_off str_of c i sd))"
  using device_write_kept [of sd str_of c]
  by (auto simp: pulse_off_def Let_def kept_def same_points_def split: prod.split) (metis fst_conv snd_conv)+

lemmas dev_op_defs = device_connect_def device_disconnect_def device_start_def device_stop_def device_restart_def
  configure_do_actions_def enable_point_def disable_point_def add_capability_def remove_capability_def

lemma dev_step_clean: "dev_step str_of c sd sd' \<Longrightarrow> clean_values (fst sd) \<Longrightarrow> clean_values (fst sd')"
proof (induction rule: dev_step.induct)
  case (round s d now connect reader)
  have "kept s (emit EvConnected (s\<lparr>mv_connected := True, mv_responsive := True, mv_failures := 0\<rparr>))"
    by (simp add: kept_def same_points_def)
  then have "clean_values (emit EvConnected (s\<lparr>mv_connected := True, mv_responsive := True, mv_failures := 0\<rparr>))"
    using round kept_clean by simp
  then show ?case using round read_once_clean
    by (auto simp: read_loop_round_def Let_def split: prod.split) (metis snd_conv)+
next
  case (reads s d now connect reader)
  then show ?case using read_once_clean by simp
next
  case (writes sd name v verify)
  then show ?case using device_write_kept kept_clean by blast
next
  case (action sd label turn_off)
  then show ?case by (rule action_clean)
next
  case (pulse sd i)
  then show ?case using pulse_kept kept_clean by blast
next
  case (clear s d now code)
  have "kept s (device_clear_alarm now code s)"
    by (simp add: device_clear_alarm_def kept_def same_points_def split: prod.split option.split)
  then show ?case using clear kept_clean by simp
qed (simp_all add: dev_op_defs Let_def kept_clean [unfolded kept_def same_points_def])


text \<open>A disabled point refuses every write and the device does not see it; neither does one that is not writable.\<close>

lemma disabled_write_refused:
  "name \<in> set (mv_disabled s) \<or> dict_get (mv_write_points s) name = None \<Longrightarrow>
   device_write str_of c name v verify (s, d) = (Inr \<lparr>wr_status = VALIDATION_FAILED, wr_point_name = name, wr_value = v\<rparr>, s, d)"
  by (auto simp: device_write_def)

text \<open>A pulse that is stopped before its delay leaves its output on: the delayed write is gone with it.\<close>

lemma stopped_pulse_never_off: "pulse_off str_of c i (device_stop s, d) = (device_stop s, d)"
  by (simp add: pulse_off_def device_stop_def)

section \<open>An example device\<close>

definition demo_device_config :: device_config where
  "demo_device_config = \<lparr>vc_device_id = ''m1'', vc_unit_id = 1, vc_address_offset = 0, vc_read_interval = 1, vc_reconnect_interval = 5,
     vc_disconnect_threshold = 2, vc_max_concurrent_reads = 1\<rparr>"

definition demo_device :: mb_device where
  "demo_device = projr (device_init demo_device_config [\<lparr>rp_point = demo_point ''v'' 40 UInt16, rp_reject_non_finite = True\<rparr>] [] [] [] None [])"

definition demo_up :: mb_device where
  "demo_up = snd (device_connect (Inr ()) demo_device)"

definition demo_reads :: "read_input list" where
  "demo_reads = [(0, Inr (), \<lambda>_. Inr [(''v'', PyInt 3)]), (1, Inr (), \<lambda>_. Inl ModbusError), (2, Inr (), \<lambda>_. Inl ModbusError)]"

theorem responsiveness_exact_witness: "mv_failures (snd (read_run demo_reads demo_up)) = 2 \<and> \<not> mv_responsive (snd (read_run demo_reads demo_up))"
proof -
  obtain bs t where run: "read_run demo_reads demo_up = (bs, t)" by fastforce
  have "fst (read_run demo_reads demo_up) = [True, False, False]" by code_simp
  then have bs: "bs = [True, False, False]" by (simp add: run)
  have "mv_connected demo_up" "mv_responsive demo_up" "mv_failures demo_up = 0" "vc_disconnect_threshold (mv_config demo_up) = 2"
    by code_simp+
  then show ?thesis using responsiveness_exact [OF _ _ _ _ run] by (simp add: run bs trailing_def)
qed


end
