(* ===== verification/Strategy_Executor.thy ===== *)
theory Strategy_Executor
  imports Resilience Strategies
begin

text \<open>
  \<open>csp_lib/controller/executor\<close>: the run loop of \<open>strategy_executor.py\<close> as a machine whose steps go from one
  \<open>await\<close> to the next, with the callers of \<open>trigger\<close>, \<open>set_strategy\<close> and \<open>stop\<close> in between, and the
  shut-down flag of \<open>compute_offloader.py\<close>. What the context provider, the strategy, the command callback and
  the hooks of a strategy return or raise are arguments of the steps. A strategy is its identity with its
  execution configuration, whose interval is a finite number. The log records what a caller can see.
\<close>

section \<open>State\<close>

record exec_strategy =
  es_id :: nat
  es_mode :: execution_mode
  es_interval :: rat

datatype exec_cause = By_Trigger | By_Tick | By_Hand

datatype exec_event =
    CalledTrigger
  | CalledStop
  | Began nat exec_cause strategy_context
  | Computed command
  | Sent command
  | Fell_back nat

text \<open>
  The points at which the loop can stand. An execution carries its cause and the strategy whose execution was
  begun; the strategy of a tick is the one whose configuration was read at the top.
\<close>

datatype loop_point =
    Halted
  | Idle
  | Await_Trigger
  | Await_Tick rat bool
  | Yielding
  | Top
  | Starting exec_cause exec_strategy
  | Computing exec_cause exec_strategy
  | Sending exec_cause exec_strategy command

record strategy_executor =
  se_strategy :: "exec_strategy option"
  se_last_command :: command
  se_trigger :: bool
  se_changed :: bool
  se_stop :: bool
  se_running :: bool
  se_callback :: bool
  se_offloader :: "bool option"
  se_anchor :: rat
  se_done :: int
  se_point :: loop_point
  se_log :: "exec_event list"

text \<open>An offloader is its shut-down flag.\<close>

definition executor_init :: "bool \<Rightarrow> bool \<Rightarrow> strategy_executor" where
  "executor_init callback offloaded =
     \<lparr>se_strategy = None, se_last_command = default_command, se_trigger = False, se_changed = False, se_stop = False, se_running = False,
       se_callback = callback, se_offloader = (if offloaded then Some False else None), se_anchor = 0, se_done = 0, se_point = Halted, se_log = []\<rparr>"

definition note_exec :: "exec_event \<Rightarrow> strategy_executor \<Rightarrow> strategy_executor" where
  "note_exec e s = s\<lparr>se_log := se_log s @ [e]\<rparr>"

section \<open>The callers\<close>

definition executor_trigger :: "strategy_executor \<Rightarrow> strategy_executor" where
  "executor_trigger s = note_exec CalledTrigger (s\<lparr>se_trigger := True\<rparr>)"

definition executor_stop :: "strategy_executor \<Rightarrow> strategy_executor" where
  "executor_stop s = note_exec CalledStop (s\<lparr>se_stop := True, se_trigger := True, se_changed := True, se_offloader := map_option (\<lambda>_. True) (se_offloader s)\<rparr>)"

text \<open>The results of \<open>on_deactivate\<close> of the old and \<open>on_activate\<close> of the new strategy are arguments.\<close>

definition executor_set_strategy :: "exec_strategy option \<Rightarrow> unit res \<Rightarrow> unit res \<Rightarrow> (strategy_executor, unit) op" where
  "executor_set_strategy new deact act s =
     (if se_strategy s \<noteq> None \<and> isl deact then (deact, s)
      else let s1 = s\<lparr>se_strategy := new\<rparr>
           in if new \<noteq> None \<and> isl act then (act, s1) else (Inr (), s1\<lparr>se_changed := True\<rparr>))"

section \<open>One execution\<close>

text \<open>
  \<open>_execute_strategy\<close> up to the strategy's result: the context provider gives the base context; an offloader that is shut
  down raises. The second half runs the callback. A strategy that raises leaves \<open>last_command\<close> as it was.
\<close>

definition exec_context :: "strategy_executor \<Rightarrow> rat \<Rightarrow> strategy_context \<Rightarrow> strategy_context" where
  "exec_context s now base = base\<lparr>last_command := se_last_command s, ctx_time := Some now\<rparr>"

definition fallback_command :: command where
  "fallback_command = \<lparr>p_target = Val 0, q_target = Val 0, is_fallback = True\<rparr>"

definition begin_execution :: "rat \<Rightarrow> strategy_context res \<Rightarrow> exec_cause \<Rightarrow> exec_strategy \<Rightarrow> strategy_executor \<Rightarrow> bool \<times> strategy_executor" where
  "begin_execution now base cause st s = (case base of
       Inl e \<Rightarrow> (False, note_exec (Fell_back (es_id st)) s)
     | Inr ctx \<Rightarrow> if se_offloader s = Some True then (False, note_exec (Fell_back (es_id st)) s)
                 else (True, note_exec (Began (es_id st) cause (exec_context s now ctx)) s))"

definition end_computation :: "exec_strategy \<Rightarrow> command res \<Rightarrow> strategy_executor \<Rightarrow> command option \<times> strategy_executor" where
  "end_computation st r s = (case r of
       Inl e \<Rightarrow> (None, note_exec (Fell_back (es_id st)) s)
     | Inr c \<Rightarrow> (Some c, note_exec (Computed c) (s\<lparr>se_last_command := c\<rparr>)))"

definition end_callback :: "exec_strategy \<Rightarrow> command \<Rightarrow> unit res \<Rightarrow> strategy_executor \<Rightarrow> command \<times> strategy_executor" where
  "end_callback st c r s = (case r of
       Inl e \<Rightarrow> (fallback_command, note_exec (Fell_back (es_id st)) s) | Inr _ \<Rightarrow> (c, note_exec (Sent c) s))"

text \<open>\<open>execute_once\<close>, taken as one step.\<close>

definition execute_once :: "rat \<Rightarrow> strategy_context res \<Rightarrow> (strategy_context \<Rightarrow> command res) \<Rightarrow> unit res \<Rightarrow> strategy_executor
    \<Rightarrow> command \<times> strategy_executor" where
  "execute_once now base f sent s = (case se_strategy s of
       None \<Rightarrow> (default_command, s)
     | Some st \<Rightarrow> (case begin_execution now base By_Hand st s of
         (False, s1) \<Rightarrow> (fallback_command, s1)
       | (True, s1) \<Rightarrow> (case end_computation st (f (exec_context s now (projr base))) s1 of
           (None, s2) \<Rightarrow> (fallback_command, s2)
         | (Some c, s2) \<Rightarrow> if se_callback s2 then end_callback st c sent s2 else (c, s2))))"

section \<open>The loop\<close>

definition loop_start :: "rat \<Rightarrow> strategy_executor \<Rightarrow> strategy_executor" where
  "loop_start now s = s\<lparr>se_stop := False, se_running := True, se_anchor := now, se_done := 0, se_point := Top\<rparr>"

definition loop_exit :: "strategy_executor \<Rightarrow> strategy_executor" where
  "loop_exit s = s\<lparr>se_running := False, se_point := Halted\<rparr>"

definition loop_top :: "strategy_executor \<Rightarrow> strategy_executor" where
  "loop_top s = (if se_stop s then loop_exit s
     else case se_strategy s of None \<Rightarrow> s\<lparr>se_point := Idle\<rparr>
     | Some st \<Rightarrow> s\<lparr>se_changed := False, se_point := (if es_mode st = TRIGGERED then Await_Trigger else Starting By_Tick st)\<rparr>)"

text \<open>After an execution: back to the top, or to the wait for the next tick of the configuration read at the top.\<close>

definition after_execution :: "rat \<Rightarrow> exec_cause \<Rightarrow> exec_strategy \<Rightarrow> strategy_executor \<Rightarrow> strategy_executor" where
  "after_execution now cause st s =
     (if cause = By_Trigger then s\<lparr>se_point := Top\<rparr>
      else if se_stop s then loop_exit s
      else case next_tick_delay (se_anchor s) (se_done s) (es_interval st) now of (delay, anchor, n) \<Rightarrow>
        s\<lparr>se_anchor := anchor, se_done := n,
          se_point := (if delay \<le> 0 then Yielding else Await_Tick (now + delay) (es_mode st = HYBRID))\<rparr>)"

definition restart_ticks :: "rat \<Rightarrow> strategy_executor \<Rightarrow> strategy_executor" where
  "restart_ticks now s = s\<lparr>se_anchor := now, se_done := 0\<rparr>"

text \<open>\<open>got\<close>: whether the wait finished with the trigger's task among its finished ones.\<close>

definition wake_trigger :: "rat \<Rightarrow> bool \<Rightarrow> strategy_executor \<Rightarrow> strategy_executor" where
  "wake_trigger now got s =
     (let s1 = (if got then s\<lparr>se_trigger := False\<rparr> else s)
      in if se_stop s1 then loop_exit s1
         else if se_changed s1 then (restart_ticks now s1)\<lparr>se_changed := False, se_point := Top\<rparr>
         else case se_strategy s1 of None \<Rightarrow> s1\<lparr>se_point := Top\<rparr> | Some st \<Rightarrow> s1\<lparr>se_point := Starting By_Trigger st\<rparr>)"

definition wake_tick :: "rat \<Rightarrow> bool \<Rightarrow> strategy_executor \<Rightarrow> strategy_executor" where
  "wake_tick now got s =
     (let s1 = (if got then s\<lparr>se_trigger := False\<rparr> else s)
      in if se_stop s1 then loop_exit s1
         else if se_changed s1 then (restart_ticks now s1)\<lparr>se_changed := False, se_point := Top\<rparr>
         else (if got then restart_ticks now s1 else s1)\<lparr>se_point := Top\<rparr>)"

text \<open>
  One move of the loop. The wait for a trigger ends when an event it waits for is set; the wait for a tick also
  when its time has come. Without an offloader the strategy runs in the step of its caller: the loop does not
  await at \<open>Computing\<close> then.
\<close>

inductive loop_step :: "strategy_executor \<Rightarrow> strategy_executor \<Rightarrow> bool" where
  top: "se_point s = Top \<Longrightarrow> loop_step s (loop_top s)"
| idle: "se_point s = Idle \<Longrightarrow> loop_step s (s\<lparr>se_point := Top\<rparr>)"
| triggered: "se_point s = Await_Trigger \<Longrightarrow> got \<longrightarrow> se_trigger s \<Longrightarrow> got \<or> se_changed s \<or> se_stop s \<Longrightarrow> loop_step s (wake_trigger now got s)"
| tick: "se_point s = Await_Tick deadline hybrid \<Longrightarrow> got \<longrightarrow> hybrid \<and> se_trigger s \<Longrightarrow> got \<or> se_changed s \<or> se_stop s \<or> deadline \<le> now
    \<Longrightarrow> loop_step s (wake_tick now got s)"
| yielded: "se_point s = Yielding \<Longrightarrow> loop_step s (wake_tick now False s)"
| begins: "se_point s = Starting cause st \<Longrightarrow> begin_execution now base cause st s = (True, t) \<Longrightarrow> loop_step s (t\<lparr>se_point := Computing cause st\<rparr>)"
| refused: "se_point s = Starting cause st \<Longrightarrow> begin_execution now base cause st s = (False, t) \<Longrightarrow> loop_step s (after_execution now cause st t)"
| computed: "se_point s = Computing cause st \<Longrightarrow> end_computation st r s = (Some c, t)
    \<Longrightarrow> loop_step s (if se_callback t then t\<lparr>se_point := Sending cause st c\<rparr> else after_execution now cause st t)"
| failed: "se_point s = Computing cause st \<Longrightarrow> end_computation st r s = (None, t) \<Longrightarrow> loop_step s (after_execution now cause st t)"
| sent: "se_point s = Sending cause st c \<Longrightarrow> end_callback st c r s = (d, t) \<Longrightarrow> loop_step s (after_execution now cause st t)"

definition at_await :: "strategy_executor \<Rightarrow> bool" where
  "at_await s = (case se_point s of Top \<Rightarrow> False | Starting _ _ \<Rightarrow> False | Computing _ _ \<Rightarrow> se_offloader s \<noteq> None | _ \<Rightarrow> True)"

inductive exec_step :: "strategy_executor \<Rightarrow> strategy_executor \<Rightarrow> bool" where
  loop: "loop_step s t \<Longrightarrow> exec_step s t"
| run: "se_point s = Halted \<Longrightarrow> exec_step s (loop_start now s)"
| cancel: "at_await s \<Longrightarrow> exec_step s (loop_exit s)"
| trigger: "at_await s \<Longrightarrow> exec_step s (executor_trigger s)"
| stop: "at_await s \<Longrightarrow> exec_step s (executor_stop s)"
| set_strategy: "at_await s \<Longrightarrow> exec_step s (snd (executor_set_strategy new deact act s))"
| by_hand: "at_await s \<Longrightarrow> exec_step s (snd (execute_once now base f sent s))"

inductive_cases loop_stepE: "loop_step s t"

section \<open>Triggers are consumed\<close>

definition begun :: "exec_cause \<Rightarrow> strategy_executor \<Rightarrow> nat" where
  "begun cause s = length (filter (\<lambda>e. case e of Began _ k _ \<Rightarrow> k = cause | _ \<Rightarrow> False) (se_log s))"

definition calls :: "strategy_executor \<Rightarrow> nat" where
  "calls s = length (filter (\<lambda>e. e = CalledTrigger \<or> e = CalledStop) (se_log s))"

lemma note_exec_simps [simp]:
  "se_trigger (note_exec e s) = se_trigger s" "se_stop (note_exec e s) = se_stop s" "se_point (note_exec e s) = se_point s"
  "se_last_command (note_exec e s) = se_last_command s" "se_callback (note_exec e s) = se_callback s" "se_log (note_exec e s) = se_log s @ [e]"
  "se_strategy (note_exec e s) = se_strategy s" "se_changed (note_exec e s) = se_changed s" "se_offloader (note_exec e s) = se_offloader s"
  by (simp_all add: note_exec_def)

lemma log_counts [simp]:
  "begun cause (note_exec e s) = begun cause s + (case e of Began _ k _ \<Rightarrow> of_bool (k = cause) | _ \<Rightarrow> 0)"
  "calls (note_exec e s) = calls s + of_bool (e = CalledTrigger \<or> e = CalledStop)"
  by (auto simp: begun_def calls_def split: exec_event.split)

text \<open>What a triggered execution waiting to begin has already consumed.\<close>

definition owed :: "strategy_executor \<Rightarrow> nat" where
  "owed s = of_bool (se_trigger s) + (case se_point s of Starting k _ \<Rightarrow> of_bool (k = By_Trigger) | _ \<Rightarrow> 0)"

definition trigger_inv :: "strategy_executor \<Rightarrow> bool" where
  "trigger_inv s \<longleftrightarrow> begun By_Trigger s + owed s \<le> calls s"

lemmas loop_move_defs = loop_top_def loop_exit_def wake_trigger_def wake_tick_def restart_ticks_def begin_execution_def
  after_execution_def end_computation_def end_callback_def

lemma counts_frame [simp]:
  "begun k (s\<lparr>se_point := p\<rparr>) = begun k s" "calls (s\<lparr>se_point := p\<rparr>) = calls s" "begun k (s\<lparr>se_trigger := b\<rparr>) = begun k s"
  "calls (s\<lparr>se_trigger := b\<rparr>) = calls s" "begun k (s\<lparr>se_changed := b\<rparr>) = begun k s" "calls (s\<lparr>se_changed := b\<rparr>) = calls s"
  "begun k (s\<lparr>se_running := b\<rparr>) = begun k s" "calls (s\<lparr>se_running := b\<rparr>) = calls s" "begun k (s\<lparr>se_anchor := a\<rparr>) = begun k s"
  "calls (s\<lparr>se_anchor := a\<rparr>) = calls s" "begun k (s\<lparr>se_done := n\<rparr>) = begun k s" "calls (s\<lparr>se_done := n\<rparr>) = calls s"
  "begun k (s\<lparr>se_last_command := c\<rparr>) = begun k s" "calls (s\<lparr>se_last_command := c\<rparr>) = calls s" "begun k (s\<lparr>se_stop := b\<rparr>) = begun k s"
  "calls (s\<lparr>se_stop := b\<rparr>) = calls s" "begun k (s\<lparr>se_offloader := o'\<rparr>) = begun k s" "calls (s\<lparr>se_offloader := o'\<rparr>) = calls s"
  "begun k (s\<lparr>se_strategy := st\<rparr>) = begun k s" "calls (s\<lparr>se_strategy := st\<rparr>) = calls s"
  by (simp_all add: begun_def calls_def)

lemma loop_step_triggers: "loop_step s t \<Longrightarrow> trigger_inv s \<Longrightarrow> trigger_inv t"
  by (induction rule: loop_step.induct)
    (auto simp: trigger_inv_def owed_def loop_move_defs Let_def split: if_splits option.splits sum.splits prod.splits)

lemma execute_once_frame:
  "se_trigger (snd (execute_once now base f sent s)) = se_trigger s \<and> se_point (snd (execute_once now base f sent s)) = se_point s
    \<and> begun By_Trigger (snd (execute_once now base f sent s)) = begun By_Trigger s \<and> calls (snd (execute_once now base f sent s)) = calls s"
  by (simp add: execute_once_def begin_execution_def end_computation_def end_callback_def split: option.split sum.split prod.split bool.split)

lemma exec_step_triggers: "exec_step s t \<Longrightarrow> trigger_inv s \<Longrightarrow> trigger_inv t"
proof (induction rule: exec_step.induct)
  case (by_hand s now base f sent)
  then show ?case using execute_once_frame [of now base f sent s] by (simp add: trigger_inv_def owed_def)
next
  case (set_strategy s new deact act)
  then show ?case by (simp add: executor_set_strategy_def trigger_inv_def owed_def Let_def)
next
  case (loop s t)
  then show ?case using loop_step_triggers by blast
qed (auto simp: trigger_inv_def owed_def loop_start_def loop_exit_def executor_trigger_def executor_stop_def split: loop_point.splits)

text \<open>
  Whatever callers, strategies and callbacks do, and however the waits of the loop are interleaved with
  them, every execution of a strategy in its triggered mode has consumed a call of \<open>trigger\<close> or \<open>stop\<close> of its own: calls that come
  while one is pending are merged and none is used twice.
\<close>

theorem triggers_not_reused:
  assumes "exec_step\<^sup>*\<^sup>* (executor_init callback offloaded) s"
  shows "begun By_Trigger s + of_bool (se_trigger s) \<le> calls s"
proof -
  have "trigger_inv (executor_init callback offloaded)"
    by (simp add: trigger_inv_def owed_def executor_init_def begun_def)
  then have "trigger_inv s" using assms by (induction rule: rtranclp_induct [OF assms]) (blast intro: exec_step_triggers)+
  then show ?thesis by (simp add: trigger_inv_def owed_def)
qed

section \<open>The last command\<close>

text \<open>Every context begun with holds the command computed last before it.\<close>

fun chained :: "command \<Rightarrow> exec_event list \<Rightarrow> bool" where
  "chained c [] = True"
| "chained c (Began i k ctx # es) = (last_command ctx = c \<and> chained c es)"
| "chained c (Computed d # es) = chained d es"
| "chained c (e # es) = chained c es"

definition computed_in :: "exec_event list \<Rightarrow> command list" where
  "computed_in es = List.map_filter (\<lambda>e. case e of Computed c \<Rightarrow> Some c | _ \<Rightarrow> None) es"

lemma computed_in_snoc [simp]: "computed_in (es @ [e]) = computed_in es @ (case e of Computed c \<Rightarrow> [c] | _ \<Rightarrow> [])"
  by (simp add: computed_in_def List.map_filter_def split: exec_event.split)

lemma chained_snoc: "chained c (es @ [e]) \<longleftrightarrow> chained c es
    \<and> (case e of Began i k ctx \<Rightarrow> last_command ctx = last (c # computed_in es) | _ \<Rightarrow> True)"
  by (induction c es rule: chained.induct) (simp_all add: computed_in_def List.map_filter_def split: exec_event.split)

definition chain_inv :: "strategy_executor \<Rightarrow> bool" where
  "chain_inv s \<longleftrightarrow> se_last_command s = last (default_command # computed_in (se_log s)) \<and> chained default_command (se_log s)"

lemma loop_step_chain: "loop_step s t \<Longrightarrow> chain_inv s \<Longrightarrow> chain_inv t"
  by (induction rule: loop_step.induct)
    (auto simp: chain_inv_def chained_snoc exec_context_def loop_move_defs Let_def note_exec_def split: if_splits option.splits sum.splits prod.splits)

lemma execution_chain:
  "chain_inv s \<Longrightarrow> chain_inv (snd (begin_execution now base k st s))" "chain_inv s \<Longrightarrow> chain_inv (snd (end_computation st r s))"
  "chain_inv s \<Longrightarrow> chain_inv (snd (end_callback st c sent s))"
  by (auto simp: chain_inv_def chained_snoc exec_context_def loop_move_defs note_exec_def split: sum.split)

lemma execute_once_chain: "chain_inv s \<Longrightarrow> chain_inv (snd (execute_once now base f sent s))"
proof (cases "se_strategy s")
  case (Some st)
  assume s: "chain_inv s"
  obtain b s1 where s1: "begin_execution now base By_Hand st s = (b, s1)" by fastforce
  obtain x s2 where s2: "end_computation st (f (exec_context s now (projr base))) s1 = (x, s2)" by fastforce
  have "chain_inv s1" using execution_chain(1) [OF s, of now base By_Hand st] by (simp add: s1)
  moreover from this have "chain_inv s2" using execution_chain(2) [of s1 st "f (exec_context s now (projr base))"] by (simp add: s2)
  ultimately show ?thesis using Some execution_chain(3) [of s2]
    by (simp add: execute_once_def s1 s2 split: bool.split option.split)
qed (simp add: execute_once_def)

lemma exec_step_chain: "exec_step s t \<Longrightarrow> chain_inv s \<Longrightarrow> chain_inv t"
proof (induction rule: exec_step.induct)
  case (loop s t)
  then show ?case by (rule loop_step_chain)
next
  case (by_hand s now base f sent)
  then show ?case using execute_once_chain by blast
qed (auto simp: chain_inv_def chained_snoc loop_start_def loop_exit_def executor_trigger_def executor_stop_def executor_set_strategy_def
      Let_def note_exec_def)

text \<open>
  The executor remembers exactly the last command a strategy computed: executions that fail before they
  compute one leave it as it was, every context handed to a strategy carries the command computed last before it,
  and the first one the default command, in any order of executions, failures, triggers, strategy changes and stops.
\<close>

theorem last_command_exact:
  assumes "exec_step\<^sup>*\<^sup>* (executor_init callback offloaded) s"
  shows "se_last_command s = last (default_command # computed_in (se_log s)) \<and> chained default_command (se_log s)"
proof -
  have "chain_inv (executor_init callback offloaded)"
    by (simp add: chain_inv_def executor_init_def computed_in_def List.map_filter_def)
  then have "chain_inv s" using assms by (induction rule: rtranclp_induct [OF assms]) (blast intro: exec_step_chain)+
  then show ?thesis by (simp add: chain_inv_def)
qed

section \<open>Stopping\<close>

definition to_halt :: "strategy_executor \<Rightarrow> nat" where
  "to_halt s = (case se_point s of Halted \<Rightarrow> 0 | Idle \<Rightarrow> 2 | Computing _ _ \<Rightarrow> 3 | Sending _ _ _ \<Rightarrow> 2 | Starting _ _ \<Rightarrow> 4 | _ \<Rightarrow> 1)"

text \<open>A stopped loop is not about to begin an execution.\<close>

definition stop_inv :: "strategy_executor \<Rightarrow> bool" where
  "stop_inv s \<longleftrightarrow> (se_stop s \<longrightarrow> (\<forall>k st. se_point s \<noteq> Starting k st))"

lemma loop_step_stopping:
  assumes "loop_step s t" "stop_inv s" "se_stop s"
  shows "se_stop t \<and> to_halt t < to_halt s \<and> begun k t = begun k s"
  using assms
  by (induction rule: loop_step.induct)
    (auto simp: stop_inv_def to_halt_def loop_move_defs Let_def split: if_splits option.splits sum.splits prod.splits exec_cause.splits)

lemma exec_step_stop_inv: "exec_step s t \<Longrightarrow> stop_inv s \<Longrightarrow> stop_inv t"
proof (induction rule: exec_step.induct)
  case (loop s t)
  then show ?case
    by (induction rule: loop_step.induct)
      (auto simp: stop_inv_def loop_move_defs Let_def split: if_splits option.splits sum.splits prod.splits)
next
  case (by_hand s now base f sent)
  have "se_stop (snd (execute_once now base f sent s)) = se_stop s \<and> se_point (snd (execute_once now base f sent s)) = se_point s"
    by (simp add: execute_once_def begin_execution_def end_computation_def end_callback_def split: option.split sum.split prod.split bool.split)
  then show ?case using by_hand by (simp add: stop_inv_def)
next
  case (set_strategy s new deact act)
  then show ?case by (simp add: executor_set_strategy_def stop_inv_def Let_def)
qed (auto simp: stop_inv_def loop_start_def loop_exit_def executor_trigger_def executor_stop_def at_await_def split: loop_point.splits)

lemma loop_step_progress:
  assumes "se_point s \<noteq> Halted" "se_stop s"
  shows "\<exists>t. loop_step s t"
proof (cases "se_point s")
  case Await_Trigger
  then show ?thesis using loop_step.triggered [of s False] assms by blast
next
  case (Await_Tick deadline hybrid)
  then show ?thesis using loop_step.tick [of s deadline hybrid False] assms by blast
next
  case (Starting k st)
  have "begin_execution 0 (Inl ValueError) k st s = (False, note_exec (Fell_back (es_id st)) s)" by (simp add: begin_execution_def)
  then show ?thesis using loop_step.refused [OF Starting] by blast
next
  case (Computing k st)
  have "end_computation st (Inl ValueError) s = (None, note_exec (Fell_back (es_id st)) s)" by (simp add: end_computation_def)
  then show ?thesis using loop_step.failed [OF Computing] by blast
next
  case (Sending k st c)
  obtain d u where "end_callback st c (Inr ()) s = (d, u)" by fastforce
  then show ?thesis using loop_step.sent [OF Sending] by blast
qed (use assms loop_step.intros in blast)+

lemma stopping_run:
  assumes "(loop_step ^^ n) s t" "stop_inv s" "se_stop s"
  shows "to_halt t + n \<le> to_halt s \<and> begun k t = begun k s \<and> se_stop t"
  using assms(1)
proof (induction n arbitrary: t)
  case (Suc n)
  obtain u where u: "(loop_step ^^ n) s u" "loop_step u t" using Suc.prems by auto
  have IH: "to_halt u + n \<le> to_halt s \<and> begun k u = begun k s \<and> se_stop u" by (rule Suc.IH [OF u(1)])
  have "exec_step\<^sup>*\<^sup>* s u" using u(1) by (metis exec_step.loop mono_rtranclp relpowp_imp_rtranclp)
  then have "stop_inv u" using assms(2) by (induction rule: rtranclp_induct) (blast intro: exec_step_stop_inv)+
  then show ?case using loop_step_stopping [OF u(2), of k] IH by fastforce
qed (simp add: assms)

text \<open>
  C38. Once \<open>stop\<close> has been called the loop begins no further execution and halts after at most three of its own
  moves (an execution that is under way may finish), from whatever point it stands at and whatever happened before;
  until it has halted it can always move.
\<close>

theorem executor_halts:
  assumes "exec_step\<^sup>*\<^sup>* (executor_init callback offloaded) s" "se_stop s" "(loop_step ^^ n) s t"
  shows "n \<le> 3 \<and> begun k t = begun k s \<and> (se_point t \<noteq> Halted \<longrightarrow> (\<exists>u. loop_step t u))"
proof -
  have "stop_inv (executor_init callback offloaded)" by (simp add: stop_inv_def executor_init_def)
  then have inv: "stop_inv s" using assms(1) by (induction rule: rtranclp_induct [OF assms(1)]) (blast intro: exec_step_stop_inv)+
  then have "to_halt s \<le> 3" using assms(2) by (auto simp: to_halt_def stop_inv_def split: loop_point.split)
  then show ?thesis using stopping_run [OF assms(3) inv assms(2), of k] loop_step_progress [of t] by auto
qed

section \<open>Lost and stale requests\<close>

text \<open>A stop before the loop's first step is lost: \<open>run\<close> clears it.\<close>

lemma early_stop_lost: "\<not> se_stop (loop_start now (executor_stop s))"
  by (simp add: loop_start_def)

text \<open>A loop stopped in a periodic wait leaves its trigger set; after a restart a triggered strategy runs once without one.\<close>

lemma stale_trigger:
  assumes "se_strategy s = Some st" "es_mode st = TRIGGERED" "se_trigger s"
  shows "loop_step (loop_top (loop_start now s)) (wake_trigger later True (loop_top (loop_start now s)))
    \<and> se_point (wake_trigger later True (loop_top (loop_start now s))) = Starting By_Trigger st"
proof -
  have "loop_top (loop_start now s) = s\<lparr>se_stop := False, se_running := True, se_anchor := now, se_done := 0, se_changed := False, se_point := Await_Trigger\<rparr>"
    using assms by (simp add: loop_top_def loop_start_def)
  then show ?thesis using assms loop_step.triggered [of "loop_top (loop_start now s)" True later] by (simp add: wake_trigger_def)
qed

text \<open>A trigger that wakes the loop together with a change of the strategy is consumed without an execution.\<close>

lemma swallowed_trigger:
  assumes "se_changed s" "\<not> se_stop s"
  shows "\<not> se_trigger (wake_trigger now True s) \<and> se_point (wake_trigger now True s) = Top \<and> begun k (wake_trigger now True s) = begun k s"
  using assms by (simp add: wake_trigger_def restart_ticks_def)

text \<open>The offloader stays shut down: after a restart every execution falls back.\<close>

lemma offloader_dead_after_restart:
  "se_offloader s \<noteq> None \<Longrightarrow> fst (begin_execution later base k st (loop_start now (executor_stop s))) = False"
  by (auto simp: begin_execution_def loop_start_def executor_stop_def split: sum.split)

section \<open>Examples\<close>

definition demo_strategy :: exec_strategy where
  "demo_strategy = \<lparr>es_id = 1, es_mode = TRIGGERED, es_interval = 1\<rparr>"

definition demo_waiting :: strategy_executor where
  "demo_waiting = loop_top (loop_start 0 (snd (executor_set_strategy (Some demo_strategy) (Inr ()) (Inr ()) (executor_init False False))))"

definition demo_fired :: strategy_executor where
  "demo_fired = snd (begin_execution 1 (Inr default_context) By_Trigger demo_strategy (wake_trigger 1 True (executor_trigger demo_waiting)))"

lemma demo_waiting_reachable: "exec_step\<^sup>*\<^sup>* (executor_init False False) demo_waiting"
proof -
  let ?s0 = "executor_init False False" and ?s1 = "snd (executor_set_strategy (Some demo_strategy) (Inr ()) (Inr ()) (executor_init False False))"
  have "exec_step ?s0 ?s1" by (rule exec_step.set_strategy) (simp add: at_await_def executor_init_def)
  moreover have "exec_step ?s1 (loop_start 0 ?s1)" by (rule exec_step.run) (simp add: executor_set_strategy_def executor_init_def)
  moreover have "exec_step (loop_start 0 ?s1) demo_waiting" unfolding demo_waiting_def
    by (rule exec_step.loop, rule loop_step.top) (simp add: loop_start_def)
  ultimately show ?thesis by (meson converse_rtranclp_into_rtranclp rtranclp.rtrancl_refl)
qed

lemma demo_fired_reachable: "exec_step\<^sup>*\<^sup>* (executor_init False False) (demo_fired\<lparr>se_point := Computing By_Trigger demo_strategy\<rparr>)"
proof -
  have at: "se_point demo_waiting = Await_Trigger" by code_simp
  have "exec_step demo_waiting (executor_trigger demo_waiting)" by (rule exec_step.trigger) (simp add: at_await_def at)
  moreover have "exec_step (executor_trigger demo_waiting) (wake_trigger 1 True (executor_trigger demo_waiting))"
    by (rule exec_step.loop, rule loop_step.triggered) (simp_all add: executor_trigger_def at)
  moreover have "exec_step (wake_trigger 1 True (executor_trigger demo_waiting)) (demo_fired\<lparr>se_point := Computing By_Trigger demo_strategy\<rparr>)"
  proof (rule exec_step.loop, rule loop_step.begins)
    show "se_point (wake_trigger 1 True (executor_trigger demo_waiting)) = Starting By_Trigger demo_strategy"
      by (simp add: demo_waiting_def executor_trigger_def wake_trigger_def loop_top_def loop_start_def executor_set_strategy_def executor_init_def demo_strategy_def)
    show "begin_execution 1 (Inr default_context) By_Trigger demo_strategy (wake_trigger 1 True (executor_trigger demo_waiting)) = (True, demo_fired)"
      by (simp add: demo_fired_def demo_waiting_def begin_execution_def executor_trigger_def wake_trigger_def loop_top_def loop_start_def
        executor_set_strategy_def executor_init_def demo_strategy_def)
  qed
  ultimately show ?thesis using demo_waiting_reachable by (meson rtranclp.rtrancl_into_rtrancl)
qed

theorem triggers_not_reused_witness:
  "begun By_Trigger (demo_fired\<lparr>se_point := Computing By_Trigger demo_strategy\<rparr>) = 1 \<and> calls (demo_fired\<lparr>se_point := Computing By_Trigger demo_strategy\<rparr>) = 1"
proof -
  have "begun By_Trigger demo_fired = 1" "calls demo_fired \<le> 1" by code_simp+
  then show ?thesis using triggers_not_reused [OF demo_fired_reachable] by simp
qed

theorem last_command_exact_witness:
  "se_last_command (demo_fired\<lparr>se_point := Computing By_Trigger demo_strategy\<rparr>) = default_command"
proof -
  have "computed_in (se_log demo_fired) = []" by code_simp
  then show ?thesis using last_command_exact [OF demo_fired_reachable] by simp
qed

theorem executor_halts_witness: "begun By_Tick (loop_exit (executor_stop demo_waiting)) = begun By_Tick (executor_stop demo_waiting)"
proof -
  have "exec_step demo_waiting (executor_stop demo_waiting)"
    by (rule exec_step.stop) (simp add: demo_waiting_def at_await_def loop_top_def loop_start_def executor_set_strategy_def executor_init_def demo_strategy_def)
  then have reach: "exec_step\<^sup>*\<^sup>* (executor_init False False) (executor_stop demo_waiting)"
    using demo_waiting_reachable by (meson rtranclp.rtrancl_into_rtrancl)
  have at: "se_point (executor_stop demo_waiting) = Await_Trigger" "se_stop (executor_stop demo_waiting)" by code_simp+
  have "loop_step (executor_stop demo_waiting) (wake_trigger 0 False (executor_stop demo_waiting))"
    by (rule loop_step.triggered) (use at in simp_all)
  moreover have "wake_trigger 0 False (executor_stop demo_waiting) = loop_exit (executor_stop demo_waiting)"
    using at(2) by (simp add: wake_trigger_def)
  ultimately have "(loop_step ^^ 1) (executor_stop demo_waiting) (loop_exit (executor_stop demo_waiting))" by (simp add: eq_OO)
  then show ?thesis using executor_halts [OF reach at(2), of 1 _ By_Tick] by blast
qed

end
