(* ===== verification/Batch_Upload.thy ===== *)
theory Batch_Upload
  imports Csp_Prelude "HOL-Library.Multiset" "HOL-Library.Sublist"
begin

text \<open>
  \<open>csp_lib/mongo\<close>: the queues of \<open>queue.py\<close>, the writer of \<open>writer.py\<close> and the uploader of \<open>uploader.py\<close> with its
  retries and its flush loop. \<open>insert_many\<close> of the database driver is a parameter; documents that arrive while a
  write is in flight are an argument of the flush. The log holds the calls
  of \<open>enqueue\<close> and what the code reports: batches written and documents dropped.
\<close>

section \<open>Queues\<close>

type_synonym document = "(string \<times> pyval) list"

definition batch_enqueue :: "int \<Rightarrow> document \<Rightarrow> document list \<Rightarrow> (document list \<times> bool) res" where
  "batch_enqueue max_size doc q =
     (if int (length q) \<ge> max_size then (case q of [] \<Rightarrow> Inl IndexError | old # rest \<Rightarrow> Inr (rest @ [doc], False))
      else Inr (q @ [doc], True))"

definition batch_drain :: "document list \<Rightarrow> document list \<times> document list" where
  "batch_drain q = (q, [])"

fun restore_loop :: "int \<Rightarrow> document list \<Rightarrow> document list \<Rightarrow> document list" where
  "restore_loop max_size [] q = q"
| "restore_loop max_size (doc # docs) q = (if int (length q) < max_size then restore_loop max_size docs (doc # q) else q)"

definition batch_restore :: "int \<Rightarrow> document list \<Rightarrow> document list \<Rightarrow> document list" where
  "batch_restore max_size docs q = restore_loop max_size (rev docs) q"

section \<open>The writer\<close>

text \<open>The answers of \<open>insert_many\<close>: the number of inserted ids, a bulk write error with the codes of its errors and its count, or another exception.\<close>

datatype insert_outcome = Inserted int | Bulk_Error "int option list" int | Insert_Raised

type_synonym 'd mongo = "string \<Rightarrow> document list \<Rightarrow> bool \<Rightarrow> 'd \<Rightarrow> 'd \<times> insert_outcome"

record batch_result =
  br_success :: bool
  br_inserted :: int
  br_duplicates :: int

definition handle_bulk_error :: "int option list \<Rightarrow> int \<Rightarrow> batch_result" where
  "handle_bulk_error codes n =
     (let dups = int (length (filter (\<lambda>c. c = Some 11000) codes)); non_dups = int (length codes) - dups
      in \<lparr>br_success = (non_dups = 0), br_inserted = n, br_duplicates = dups\<rparr>)"

definition write_batch :: "'d mongo \<Rightarrow> string \<Rightarrow> document list \<Rightarrow> bool \<Rightarrow> 'd \<Rightarrow> 'd \<times> batch_result" where
  "write_batch ins coll docs ordered d =
     (if docs = [] then (d, \<lparr>br_success = True, br_inserted = 0, br_duplicates = 0\<rparr>)
      else case ins coll docs ordered d of
        (d', Inserted n) \<Rightarrow> (d', \<lparr>br_success = True, br_inserted = n, br_duplicates = 0\<rparr>)
      | (d', Bulk_Error codes n) \<Rightarrow> (d', if ordered then \<lparr>br_success = False, br_inserted = 0, br_duplicates = 0\<rparr> else handle_bulk_error codes n)
      | (d', Insert_Raised) \<Rightarrow> (d', \<lparr>br_success = False, br_inserted = 0, br_duplicates = 0\<rparr>))"

section \<open>The uploader\<close>

record uploader_config =
  uc_flush_interval :: int
  uc_batch_size_threshold :: int
  uc_max_queue_size :: int
  uc_max_retry_count :: int

definition uploader_config_valid :: "uploader_config \<Rightarrow> unit res" where
  "uploader_config_valid c = (if uc_flush_interval c \<le> 0 \<or> uc_batch_size_threshold c \<le> 0 \<or> uc_max_queue_size c \<le> 0 \<or> uc_max_retry_count c < 0
     then Inl ValueError else Inr ())"

datatype upload_event = Queued string document | Wrote string "document list" | Dropped string "document list"

record uploader =
  up_config :: uploader_config
  up_queues :: "(string \<times> document list) list"
  up_retries :: "(string \<times> int) list"
  up_stop :: bool
  up_threshold :: bool
  up_running :: bool
  up_log :: "upload_event list"

definition uploader_init :: "uploader_config \<Rightarrow> uploader" where
  "uploader_init c = \<lparr>up_config = c, up_queues = [], up_retries = [], up_stop = False, up_threshold = False, up_running = False, up_log = []\<rparr>"

definition register_collection :: "string \<Rightarrow> uploader \<Rightarrow> uploader" where
  "register_collection c u = (if dict_get (up_queues u) c \<noteq> None then u
     else u\<lparr>up_queues := dict_set c [] (up_queues u), up_retries := dict_set c 0 (up_retries u)\<rparr>)"

definition queue_of :: "uploader \<Rightarrow> string \<Rightarrow> document list" where
  "queue_of u c = dict_get_or (up_queues u) c []"

definition note_dropped :: "string \<Rightarrow> document list \<Rightarrow> uploader \<Rightarrow> uploader" where
  "note_dropped c docs u = (if docs = [] then u else u\<lparr>up_log := up_log u @ [Dropped c docs]\<rparr>)"

definition uploader_enqueue :: "string \<Rightarrow> document \<Rightarrow> (uploader, unit) op" where
  "uploader_enqueue c doc u =
     (let u1 = register_collection c u; q = queue_of u1 c in
      case batch_enqueue (uc_max_queue_size (up_config u)) doc q of
        Inl e \<Rightarrow> (Inl e, u1)
      | Inr (q', kept) \<Rightarrow>
          (Inr (), note_dropped c (if kept then [] else [hd q])
             (u1\<lparr>up_queues := dict_set c q' (up_queues u1), up_log := up_log u1 @ [Queued c doc],
                 up_threshold := (up_threshold u1 \<or> int (length q') \<ge> uc_batch_size_threshold (up_config u))\<rparr>)))"

definition write_immediate :: "'d mongo \<Rightarrow> string \<Rightarrow> document \<Rightarrow> 'd \<Rightarrow> 'd \<times> batch_result" where
  "write_immediate ins c doc d = write_batch ins c [doc] True d"

definition uploader_start :: "uploader \<Rightarrow> uploader" where
  "uploader_start u = (if up_running u then u else u\<lparr>up_stop := False, up_threshold := False, up_running := True\<rparr>)"

definition handle_write_failure :: "string \<Rightarrow> document list \<Rightarrow> uploader \<Rightarrow> uploader" where
  "handle_write_failure c docs u =
     (let n = dict_get_or (up_retries u) c 0 + 1; u1 = u\<lparr>up_retries := dict_set c n (up_retries u)\<rparr> in
      if n \<le> uc_max_retry_count (up_config u)
      then let q = queue_of u1 c; q' = batch_restore (uc_max_queue_size (up_config u)) docs q
           in note_dropped c (take (length docs + length q - length q') docs) (u1\<lparr>up_queues := dict_set c q' (up_queues u1)\<rparr>)
      else note_dropped c docs (u1\<lparr>up_retries := dict_set c 0 (up_retries u1)\<rparr>))"

text \<open>Documents that arrive while a write is under way.\<close>

definition enqueue_all :: "(string \<times> document) list \<Rightarrow> uploader \<Rightarrow> uploader" where
  "enqueue_all arrivals u = fold (\<lambda>(c, doc) u. snd (uploader_enqueue c doc u)) arrivals u"

definition flush_collection :: "'d mongo \<Rightarrow> (string \<times> document) list \<Rightarrow> string \<Rightarrow> uploader \<times> 'd \<Rightarrow> uploader \<times> 'd" where
  "flush_collection ins arrivals c ud = (case ud of (u, d) \<Rightarrow>
     (case dict_get (up_queues u) c of None \<Rightarrow> (u, d)
      | Some q \<Rightarrow> (case batch_drain q of (docs, rest) \<Rightarrow>
          if docs = [] then (u, d)
          else let (d', r) = write_batch ins c docs True d;
                   u1 = enqueue_all arrivals (u\<lparr>up_queues := dict_set c rest (up_queues u)\<rparr>)
               in (if br_success r then u1\<lparr>up_retries := dict_set c 0 (up_retries u1), up_log := up_log u1 @ [Wrote c docs]\<rparr>
                   else handle_write_failure c docs u1, d'))))"

text \<open>\<open>arrivals\<close> gives the documents that arrive during the write of each collection.\<close>

definition flush_all :: "'d mongo \<Rightarrow> (string \<Rightarrow> (string \<times> document) list) \<Rightarrow> uploader \<times> 'd \<Rightarrow> uploader \<times> 'd" where
  "flush_all ins arrivals ud = fold (\<lambda>c. flush_collection ins (arrivals c) c) (dict_keys (up_queues (fst ud))) ud"

text \<open>One round of the flush loop after its wait, and \<open>stop\<close>, which lets it finish.\<close>

definition flush_round :: "'d mongo \<Rightarrow> (string \<Rightarrow> (string \<times> document) list) \<Rightarrow> uploader \<times> 'd \<Rightarrow> uploader \<times> 'd" where
  "flush_round ins arrivals ud = (case flush_all ins arrivals ud of (u, d) \<Rightarrow>
     (if up_stop (fst ud) then u\<lparr>up_running := False\<rparr> else u\<lparr>up_threshold := False\<rparr>, d))"

definition uploader_stop :: "'d mongo \<Rightarrow> (string \<Rightarrow> (string \<times> document) list) \<Rightarrow> uploader \<times> 'd \<Rightarrow> uploader \<times> 'd" where
  "uploader_stop ins arrivals ud = (case ud of (u, d) \<Rightarrow>
     (if up_running u then flush_round ins arrivals (u\<lparr>up_stop := True\<rparr>, d) else (u\<lparr>up_stop := True\<rparr>, d)))"

section \<open>A full queue keeps the newest documents\<close>

definition newest :: "int \<Rightarrow> document list \<Rightarrow> document list" where
  "newest n docs = drop (length docs - nat n) docs"

lemma newest_all: "int (length docs) \<le> n \<Longrightarrow> newest n docs = docs"
  by (simp add: newest_def)

lemma batch_enqueue_newest:
  assumes "0 < n" "int (length q) \<le> n"
  shows "\<exists>kept. batch_enqueue n doc q = Inr (newest n (q @ [doc]), kept) \<and> q @ [doc] = (if kept then [] else [hd q]) @ newest n (q @ [doc])"
proof (cases "int (length q) = n")
  case True
  then obtain old rest where q: "q = old # rest" using assms(1) by (cases q) auto
  have "nat n = Suc (length rest)" using True by (simp add: q)
  then have "newest n (q @ [doc]) = rest @ [doc]" by (simp add: newest_def q)
  then show ?thesis using True by (auto simp: batch_enqueue_def q)
next
  case False
  then show ?thesis using assms by (intro exI [of _ True]) (simp add: batch_enqueue_def newest_def)
qed

lemma restore_loop_newest:
  "int (length q) \<le> n \<Longrightarrow> restore_loop n docs q = newest n (rev docs @ q)"
proof (induction docs arbitrary: q)
  case (Cons doc docs)
  show ?case
  proof (cases "int (length q) < n")
    case True
    then show ?thesis using Cons.IH [of "doc # q"] by simp
  next
    case False
    then have "nat n = length q" using Cons.prems by simp
    then show ?thesis using False by (simp add: newest_def)
  qed
qed (simp add: newest_all)

lemma batch_restore_newest: "int (length q) \<le> n \<Longrightarrow> batch_restore n docs q = newest n (docs @ q)"
  by (simp add: batch_restore_def restore_loop_newest)

section \<open>Nothing is lost silently, repeated or reordered\<close>

definition queued :: "uploader \<Rightarrow> string \<Rightarrow> document list" where
  "queued u c = List.map_filter (\<lambda>e. case e of Queued c' doc \<Rightarrow> if c' = c then Some doc else None | _ \<Rightarrow> None) (up_log u)"

definition written :: "uploader \<Rightarrow> string \<Rightarrow> document list" where
  "written u c = concat (map (\<lambda>e. case e of Wrote c' docs \<Rightarrow> if c' = c then docs else [] | _ \<Rightarrow> []) (up_log u))"

definition dropped :: "uploader \<Rightarrow> string \<Rightarrow> document list" where
  "dropped u c = concat (map (\<lambda>e. case e of Dropped c' docs \<Rightarrow> if c' = c then docs else [] | _ \<Rightarrow> []) (up_log u))"

text \<open>The books of a collection, with \<open>flight\<close> the documents whose write is under way.\<close>

definition books :: "document list \<Rightarrow> uploader \<Rightarrow> string \<Rightarrow> bool" where
  "books flight u c \<longleftrightarrow> subseq (written u c @ flight @ queue_of u c) (queued u c)
     \<and> mset (queued u c) = mset (written u c) + mset flight + mset (queue_of u c) + mset (dropped u c)
     \<and> int (length (queue_of u c)) \<le> uc_max_queue_size (up_config u)"

lemma books_cong:
  "up_log v = up_log u \<Longrightarrow> queue_of v c = queue_of u c \<Longrightarrow> up_config v = up_config u \<Longrightarrow> books flight v c = books flight u c"
  by (simp add: books_def written_def queued_def dropped_def)

lemma queue_of_set [simp]: "queue_of (u\<lparr>up_queues := dict_set c q (up_queues v)\<rparr>) c' = (if c' = c then q else queue_of v c')"
  by (simp add: queue_of_def)

lemma queue_of_frame [simp]:
  "queue_of (u\<lparr>up_retries := r\<rparr>) c = queue_of u c" "queue_of (u\<lparr>up_log := l\<rparr>) c = queue_of u c"
  "queue_of (u\<lparr>up_threshold := b\<rparr>) c = queue_of u c" "queue_of (u\<lparr>up_stop := b\<rparr>) c = queue_of u c" "queue_of (u\<lparr>up_running := b\<rparr>) c = queue_of u c"
  by (simp_all add: queue_of_def)

lemma queue_of_register [simp]: "queue_of (register_collection c u) c' = queue_of u c'"
  by (simp add: register_collection_def) (simp add: queue_of_def dict_get_or_def)

lemma register_frame [simp]: "up_log (register_collection c u) = up_log u" "up_config (register_collection c u) = up_config u"
  by (simp_all add: register_collection_def)

lemma note_dropped_simps [simp]:
  "queue_of (note_dropped c docs u) c' = queue_of u c'" "up_config (note_dropped c docs u) = up_config u"
  "queued (note_dropped c docs u) c' = queued u c'" "written (note_dropped c docs u) c' = written u c'"
  "dropped (note_dropped c docs u) c' = dropped u c' @ (if c' = c then docs else [])"
  by (auto simp: note_dropped_def queued_def written_def dropped_def List.map_filter_def)

lemma newest_subseq: "subseq (newest n docs) docs"
  unfolding newest_def by (rule suffix_imp_subseq [OF suffix_drop])

lemma newest_length: "0 \<le> n \<Longrightarrow> int (length (newest n docs)) \<le> n"
  by (simp add: newest_def)

lemma enqueue_books:
  assumes "books (if c' = c then flight else []) u c'" "int (length (queue_of u c0)) \<le> uc_max_queue_size (up_config u)" "0 < uc_max_queue_size (up_config u)"
  shows "books (if c' = c then flight else []) (snd (uploader_enqueue c0 doc u)) c'"
proof -
  let ?n = "uc_max_queue_size (up_config u)" and ?q = "queue_of u c0"
  obtain kept where kept: "batch_enqueue ?n doc ?q = Inr (newest ?n (?q @ [doc]), kept)"
    "?q @ [doc] = (if kept then [] else [hd ?q]) @ newest ?n (?q @ [doc])"
    using batch_enqueue_newest [OF assms(3,2)] by blast
  define u1 where "u1 = register_collection c0 u"
  define u2 where "u2 = u1\<lparr>up_queues := dict_set c0 (newest ?n (?q @ [doc])) (up_queues u1), up_log := up_log u1 @ [Queued c0 doc],
    up_threshold := (up_threshold u1 \<or> int (length (newest ?n (?q @ [doc]))) \<ge> uc_batch_size_threshold (up_config u))\<rparr>"
  have v: "snd (uploader_enqueue c0 doc u) = note_dropped c0 (if kept then [] else [hd ?q]) u2"
    using kept(1) by (simp add: uploader_enqueue_def Let_def u1_def u2_def)
  have u2: "queue_of u2 x = (if x = c0 then newest ?n (?q @ [doc]) else queue_of u x)" "up_config u2 = up_config u"
    "queued u2 x = queued u x @ (if x = c0 then [doc] else [])" "written u2 x = written u x" "dropped u2 x = dropped u x" for x
    by (simp_all add: u2_def u1_def) (auto simp: u1_def queued_def written_def dropped_def List.map_filter_def)
  let ?fl = "if c' = c then flight else []"
  show ?thesis
  proof (cases "c' = c0")
    case True
    have "subseq (written u c' @ ?fl @ newest ?n (?q @ [doc])) (written u c' @ ?fl @ ?q @ [doc])"
      by (intro list_emb_append_mono subseq_order.refl newest_subseq)
    also have "subseq \<dots> (queued u c' @ [doc])" using assms(1) True list_emb_append_mono [of _ "written u c' @ ?fl @ ?q" "queued u c'" "[doc]" "[doc]"]
      by (simp add: books_def)
    finally have "subseq (written u c' @ ?fl @ newest ?n (?q @ [doc])) (queued u c' @ [doc])" .
    moreover have "mset ?q + {#doc#} = mset (if kept then [] else [hd ?q]) + mset (newest ?n (?q @ [doc]))"
      using arg_cong [OF kept(2), of mset] by simp
    ultimately show ?thesis using assms True newest_length [of ?n "?q @ [doc]"]
      unfolding v books_def by (simp add: u2 ac_simps)
  next
    case False
    then show ?thesis using assms(1) unfolding v books_def by (simp add: u2)
  qed
qed

definition all_books :: "string \<Rightarrow> document list \<Rightarrow> uploader \<Rightarrow> bool" where
  "all_books c flight u \<longleftrightarrow> 0 < uc_max_queue_size (up_config u) \<and> (\<forall>c'. books (if c' = c then flight else []) u c')"

lemma enqueue_config [simp]: "up_config (snd (uploader_enqueue c doc u)) = up_config u"
  by (simp add: uploader_enqueue_def Let_def split: sum.split prod.split)

lemma enqueue_all_books: "all_books c flight u \<Longrightarrow> all_books c flight (enqueue_all arrivals u)"
proof (induction arrivals arbitrary: u)
  case (Cons a arrivals)
  have "int (length (queue_of u (fst a))) \<le> uc_max_queue_size (up_config u)"
    using Cons.prems unfolding all_books_def books_def by blast
  then have "all_books c flight (snd (uploader_enqueue (fst a) (snd a) u))"
    using Cons.prems enqueue_books [of _ c flight u "fst a" "snd a"] unfolding all_books_def by simp
  then show ?case using Cons.IH by (simp add: enqueue_all_def case_prod_beta)
qed (simp add: enqueue_all_def)

lemma newest_split:
  assumes "int (length q) \<le> n"
  shows "docs @ q = take (length docs + length q - length (newest n (docs @ q))) docs @ newest n (docs @ q)"
proof -
  define k where "k = length docs + length q - nat n"
  have k: "k \<le> length docs" "newest n (docs @ q) = drop k docs @ q" using assms by (simp_all add: k_def newest_def)
  then have "length docs + length q - length (newest n (docs @ q)) = k" by simp
  then show ?thesis by (simp add: k(2))
qed

lemma books_other:
  assumes "up_config v = up_config u" "queue_of v c = queue_of u c" "written v c = written u c" "queued v c = queued u c" "dropped v c = dropped u c"
  shows "books flight v c = books flight u c"
  using assms by (simp add: books_def)

lemma failure_books:
  assumes "all_books c docs u"
  shows "all_books c [] (handle_write_failure c docs u)"
proof -
  let ?n = "uc_max_queue_size (up_config u)" and ?q = "queue_of u c" and ?v = "handle_write_failure c docs u"
  have bc: "books docs u c" "0 < ?n" using assms(1) by (auto simp: all_books_def dest: spec [of _ c])
  have len: "int (length ?q) \<le> ?n" using bc by (simp add: books_def)
  note split = newest_split [OF len, of docs]
  have frame: "up_config ?v = up_config u" "written ?v c' = written u c'" "queued ?v c' = queued u c'"
    "c' \<noteq> c \<Longrightarrow> queue_of ?v c' = queue_of u c' \<and> dropped ?v c' = dropped u c'" for c'
    by (simp_all add: handle_write_failure_def Let_def) (auto simp: written_def queued_def dropped_def)
  have "queue_of ?v c = newest ?n (docs @ ?q) \<and> dropped ?v c = dropped u c @ take (length docs + length ?q - length (newest ?n (docs @ ?q))) docs
    \<or> queue_of ?v c = ?q \<and> dropped ?v c = dropped u c @ docs"
    using batch_restore_newest [OF len] by (simp add: handle_write_failure_def Let_def) (simp add: dropped_def)
  then have "books [] ?v c"
  proof
    assume v: "queue_of ?v c = newest ?n (docs @ ?q) \<and> dropped ?v c = dropped u c @ take (length docs + length ?q - length (newest ?n (docs @ ?q))) docs"
    have "subseq (written u c @ newest ?n (docs @ ?q)) (written u c @ docs @ ?q)"
      by (intro list_emb_append_mono subseq_order.refl newest_subseq)
    also have "subseq \<dots> (queued u c)" using bc by (simp add: books_def)
    finally have "subseq (written u c @ newest ?n (docs @ ?q)) (queued u c)" .
    moreover have "mset docs + mset ?q = mset (take (length docs + length ?q - length (newest ?n (docs @ ?q))) docs) + mset (newest ?n (docs @ ?q))"
      using arg_cong [OF split, of mset] by simp
    ultimately show ?thesis using bc v newest_length [of ?n "docs @ ?q"] by (simp add: books_def frame ac_simps)
  next
    assume v: "queue_of ?v c = ?q \<and> dropped ?v c = dropped u c @ docs"
    have "subseq (written u c @ ?q) (written u c @ docs @ ?q)"
      by (intro list_emb_append_mono subseq_order.refl suffix_imp_subseq) (simp add: suffix_def)
    also have "subseq \<dots> (queued u c)" using bc by (simp add: books_def)
    finally show ?thesis using bc v by (simp add: books_def frame ac_simps)
  qed
  moreover have "books [] ?v c'" if "c' \<noteq> c" for c'
  proof -
    have "books [] u c'" using assms that unfolding all_books_def by presburger
    then show ?thesis using that frame books_other [of ?v u c'] by simp
  qed
  ultimately show ?thesis using assms frame(1) unfolding all_books_def by metis
qed

lemma success_books:
  assumes "all_books c docs u"
  shows "all_books c [] (u\<lparr>up_retries := r, up_log := up_log u @ [Wrote c docs]\<rparr>)"
proof -
  let ?v = "u\<lparr>up_retries := r, up_log := up_log u @ [Wrote c docs]\<rparr>"
  have v: "written ?v c' = written u c' @ (if c' = c then docs else [])" "queued ?v c' = queued u c'" "dropped ?v c' = dropped u c'"
    "queue_of ?v c' = queue_of u c'" for c'
    by (simp_all add: written_def queued_def dropped_def List.map_filter_def)
  then show ?thesis using assms unfolding all_books_def books_def by (auto simp: ac_simps)
qed

lemma drain_books:
  assumes "all_books c0 [] u"
  shows "all_books c (queue_of u c) (u\<lparr>up_queues := dict_set c [] (up_queues u)\<rparr>)"
proof -
  let ?v = "u\<lparr>up_queues := dict_set c [] (up_queues u)\<rparr>"
  have v: "written ?v c' = written u c'" "queued ?v c' = queued u c'" "dropped ?v c' = dropped u c'" for c'
    by (simp_all add: written_def queued_def dropped_def)
  have "books [] u c'" for c' using assms by (simp add: all_books_def)
  then show ?thesis using assms unfolding all_books_def books_def by (auto simp: v)
qed

lemma flush_collection_books:
  assumes "all_books [] [] (fst ud)"
  shows "all_books [] [] (fst (flush_collection ins arrivals c ud))"
proof -
  obtain u d where ud: "ud = (u, d)" by (cases ud)
  have any: "all_books c0 [] v = all_books [] [] v" for c0 v by (simp add: all_books_def)
  show ?thesis
  proof (cases "dict_get (up_queues u) c")
    case (Some q)
    then have q: "queue_of u c = q" by (simp add: queue_of_def dict_get_or_def)
    obtain d' r where r: "write_batch ins c q True d = (d', r)" by fastforce
    define u1 where "u1 = enqueue_all arrivals (u\<lparr>up_queues := dict_set c [] (up_queues u)\<rparr>)"
    have "all_books c q u1" unfolding u1_def using assms drain_books [of _ u c] by (auto simp: ud q intro: enqueue_all_books)
    then have "all_books [] [] (handle_write_failure c q u1)"
      "all_books [] [] (u1\<lparr>up_retries := dict_set c 0 (up_retries u1), up_log := up_log u1 @ [Wrote c q]\<rparr>)"
      using failure_books success_books any by metis+
    then show ?thesis using assms Some r by (simp add: flush_collection_def ud batch_drain_def u1_def Let_def)
  qed (use assms ud in \<open>simp add: flush_collection_def\<close>)
qed

lemma flush_all_books: "all_books [] [] (fst ud) \<Longrightarrow> all_books [] [] (fst (flush_all ins arrivals ud))"
proof -
  have "all_books [] [] (fst (fold (\<lambda>c. flush_collection ins (arrivals c) c) cs ud))" if "all_books [] [] (fst ud)" for cs
    using that by (induction cs arbitrary: ud) (simp_all add: flush_collection_books)
  then show "all_books [] [] (fst ud) \<Longrightarrow> ?thesis" by (simp add: flush_all_def)
qed

inductive up_step :: "'d mongo \<Rightarrow> uploader \<times> 'd \<Rightarrow> uploader \<times> 'd \<Rightarrow> bool" for ins where
  register: "up_step ins (u, d) (register_collection c u, d)"
| enqueue: "up_step ins (u, d) (snd (uploader_enqueue c doc u), d)"
| immediate: "up_step ins (u, d) (u, fst (write_immediate ins c doc d))"
| flush: "up_step ins ud (flush_collection ins arrivals c ud)"
| round: "up_step ins ud (flush_round ins later ud)"
| start: "up_step ins (u, d) (uploader_start u, d)"
| stop: "up_step ins ud (uploader_stop ins later ud)"

lemma all_books_cong:
  "up_log v = up_log u \<Longrightarrow> up_queues v = up_queues u \<Longrightarrow> up_config v = up_config u \<Longrightarrow> all_books c flight v = all_books c flight u"
  unfolding all_books_def using books_cong [of v u] by (simp add: queue_of_def)

lemma flush_round_books: "all_books [] [] (fst ud) \<Longrightarrow> all_books [] [] (fst (flush_round ins arrivals ud))"
  using flush_all_books [of ud ins arrivals]
  by (auto simp: flush_round_def split: prod.split elim: all_books_cong [THEN iffD2, rotated -1])

lemma up_step_books: "up_step ins ud ud' \<Longrightarrow> all_books [] [] (fst ud) \<Longrightarrow> all_books [] [] (fst ud')"
proof (induction rule: up_step.induct)
  case (register u d c)
  then show ?case using books_cong [of "register_collection c u" u] by (simp add: all_books_def)
next
  case (enqueue u d c doc)
  then show ?case using enqueue_all_books [of "[]" "[]" u "[(c, doc)]"] by (simp add: enqueue_all_def)
next
  case (immediate u d c doc)
  then show ?case by simp
next
  case (flush ud arrivals c)
  then show ?case by (rule flush_collection_books)
next
  case (round ud later)
  then show ?case by (rule flush_round_books)
next
  case (start u d)
  then show ?case by (simp add: uploader_start_def all_books_cong [of "u\<lparr>up_stop := False, up_threshold := False, up_running := True\<rparr>" u])
next
  case (stop ud later)
  obtain u d where ud: "ud = (u, d)" by (cases ud)
  have "all_books [] [] (u\<lparr>up_stop := True\<rparr>)" using stop ud all_books_cong [of "u\<lparr>up_stop := True\<rparr>" u] by simp
  then show ?case using flush_round_books [of "(u\<lparr>up_stop := True\<rparr>, d)"] by (simp add: uploader_stop_def ud)
qed

text \<open>
  In any order of enqueues, flushes, failing and succeeding writes, restarts and stops, and with documents that
  arrive while a write is in flight: the batches reported as written and then the queue of a collection are in the order
  in which its documents were enqueued, none twice, no document is missing but the ones the log reports as dropped, and
  no queue exceeds its bound.
\<close>

theorem upload_in_order:
  assumes "uploader_config_valid cfg = Inr ()" "(up_step ins)\<^sup>*\<^sup>* (uploader_init cfg, d) (u, d')"
  shows "subseq (written u c @ queue_of u c) (queued u c)
    \<and> mset (queued u c) = mset (written u c) + mset (queue_of u c) + mset (dropped u c)
    \<and> int (length (queue_of u c)) \<le> uc_max_queue_size (up_config u)"
proof -
  have "all_books [] [] (uploader_init cfg)" using assms(1)
    by (auto simp: all_books_def books_def uploader_init_def queue_of_def queued_def written_def dropped_def List.map_filter_def
        uploader_config_valid_def split: if_splits)
  moreover have "all_books [] [] (fst ud')" if "(up_step ins)\<^sup>*\<^sup>* ud ud'" "all_books [] [] (fst ud)" for ud ud'
    using that by (induction rule: rtranclp_induct) (blast intro: up_step_books)+
  ultimately have "all_books [] [] u" using assms(2) by fastforce
  then have "books [] u c" by (simp add: all_books_def)
  then show ?thesis by (simp add: books_def)
qed

text \<open>Without a drop in the log the written batches and the queue are exactly what was enqueued.\<close>

lemma no_drop_exact: "books [] u c \<Longrightarrow> dropped u c = [] \<Longrightarrow> written u c @ queue_of u c = queued u c"
  by (metis append_Nil books_def mset_append mset.simps(1) add.right_neutral size_mset subseq_same_length)

text \<open>A threshold reached by documents that arrive during a round does not wake the next one: the round clears the event last.\<close>

lemma threshold_lost: "\<not> up_stop (fst ud) \<Longrightarrow> \<not> up_threshold (fst (flush_round ins arrivals ud))"
  by (simp add: flush_round_def split: prod.split)

section \<open>A partial write is lost\<close>

text \<open>
  A driver with an ordered insert over documents that carry ids, as MongoDB's adds them to the documents of a batch: it inserts up to the first
  duplicate and then raises. A document that is refused once makes every retry fail at the first
  document of the batch, which is there already, until the whole batch is dropped.
\<close>

definition demo_uploader_config :: uploader_config where
  "demo_uploader_config = \<lparr>uc_flush_interval = 5, uc_batch_size_threshold = 2, uc_max_queue_size = 3, uc_max_retry_count = 1\<rparr>"

definition demo_doc :: "int \<Rightarrow> document" where
  "demo_doc i = [(''_id'', PyInt i)]"

fun demo_insert :: "document list mongo" where
  "demo_insert c [] ordered db = (db, Inserted 0)"
| "demo_insert c (x # xs) ordered db = (if x \<in> set db then (db, Bulk_Error [Some 11000] 0) else demo_insert c xs ordered (db @ [x]))"

definition demo_uploader :: uploader where
  "demo_uploader = enqueue_all [(''t'', demo_doc 1), (''t'', demo_doc 2), (''t'', demo_doc 3)] (uploader_init demo_uploader_config)"

lemma partial_write_lost:
  "let run = flush_collection demo_insert [] ''t'' (flush_collection demo_insert [] ''t'' (demo_uploader, [demo_doc 2]))
   in dropped (fst run) ''t'' = [demo_doc 1, demo_doc 2, demo_doc 3] \<and> snd run = [demo_doc 2, demo_doc 1]"
  by code_simp

theorem upload_in_order_witness:
  "let u = fst (flush_collection demo_insert [(''t'', demo_doc 4)] ''t'' (snd (uploader_enqueue ''t'' (demo_doc 3) (uploader_init demo_uploader_config)), []))
   in queue_of u ''t'' = [demo_doc 4] \<and> subseq (written u ''t'' @ queue_of u ''t'') (queued u ''t'')"
proof -
  let ?u1 = "snd (uploader_enqueue ''t'' (demo_doc 3) (uploader_init demo_uploader_config))"
  let ?ud = "flush_collection demo_insert [(''t'', demo_doc 4)] ''t'' (?u1, [])"
  have "up_step demo_insert (uploader_init demo_uploader_config, []) (?u1, [])" by (rule up_step.enqueue)
  moreover have "up_step demo_insert (?u1, []) ?ud" by (rule up_step.flush)
  ultimately have run: "(up_step demo_insert)\<^sup>*\<^sup>* (uploader_init demo_uploader_config, []) (fst ?ud, snd ?ud)" by auto
  have "uploader_config_valid demo_uploader_config = Inr ()" by code_simp
  moreover have "queue_of (fst ?ud) ''t'' = [demo_doc 4]" by code_simp
  ultimately show ?thesis using upload_in_order [OF _ run, of "''t''"] by (simp add: Let_def)
qed

end
