(* ===== verification/Local_Buffer.thy ===== *)
theory Local_Buffer
  imports Batch_Upload
begin

text \<open>
  \<open>csp_lib/mongo/local_buffer\<close>: the SQLite store of \<open>sqlite_store.py\<close> (its table as a list of rows in the order of
  their ids) and the buffered uploader of \<open>uploader.py\<close>: enqueue, immediate writes, replay and clean-up. The database behind it is the
  driver of \<open>Batch_Upload\<close>; the clock, the random keys and what JSON makes of a document are arguments.
\<close>

section \<open>The store\<close>

text \<open>\<open>bw_json\<close> is what the stored text parses to, \<open>None\<close> if it is not the text of a dictionary.\<close>

record buffered_row =
  bw_id :: int
  bw_collection :: string
  bw_json :: "document option"
  bw_key :: string
  bw_enqueued_at :: rat
  bw_synced :: bool
  bw_synced_at :: "rat option"
  bw_retries :: int

record buffer_store =
  bs_open :: bool
  bs_rows :: "buffered_row list"
  bs_next :: int

definition store_open :: "buffer_store \<Rightarrow> buffer_store" where
  "store_open s = s\<lparr>bs_open := True\<rparr>"

definition store_close :: "buffer_store \<Rightarrow> buffer_store" where
  "store_close s = s\<lparr>bs_open := False\<rparr>"

definition store_append :: "rat \<Rightarrow> string \<Rightarrow> document option \<Rightarrow> string \<Rightarrow> bool \<Rightarrow> buffer_store \<Rightarrow> int option \<times> buffer_store" where
  "store_append now coll json key synced s =
     (if \<not> bs_open s then (None, s)
      else if key \<in> bw_key ` set (bs_rows s) then (None, s)
      else (Some (bs_next s), s\<lparr>bs_next := bs_next s + 1, bs_rows := bs_rows s @ [\<lparr>bw_id = bs_next s, bw_collection = coll, bw_json = json,
        bw_key = key, bw_enqueued_at = now, bw_synced = synced, bw_synced_at = (if synced then Some now else None), bw_retries = 0\<rparr>]\<rparr>))"

definition fetch_pending :: "int \<Rightarrow> buffer_store \<Rightarrow> buffered_row list" where
  "fetch_pending limit s = (if \<not> bs_open s then [] else take (nat limit) (filter (\<lambda>r. \<not> bw_synced r) (bs_rows s)))"

definition map_rows :: "int list \<Rightarrow> (buffered_row \<Rightarrow> buffered_row) \<Rightarrow> buffer_store \<Rightarrow> buffer_store" where
  "map_rows ids f s = (if \<not> bs_open s then s else s\<lparr>bs_rows := map (\<lambda>r. if bw_id r \<in> set ids then f r else r) (bs_rows s)\<rparr>)"

definition mark_synced :: "rat \<Rightarrow> int list \<Rightarrow> buffer_store \<Rightarrow> buffer_store" where
  "mark_synced now ids = map_rows ids (\<lambda>r. if bw_synced r then r else r\<lparr>bw_synced := True, bw_synced_at := Some now\<rparr>)"

definition bump_retry :: "int list \<Rightarrow> buffer_store \<Rightarrow> buffer_store" where
  "bump_retry ids = map_rows ids (\<lambda>r. r\<lparr>bw_retries := bw_retries r + 1\<rparr>)"

definition expired :: "rat \<Rightarrow> buffered_row \<Rightarrow> bool" where
  "expired cutoff r = (bw_synced r \<and> (case bw_synced_at r of None \<Rightarrow> False | Some t \<Rightarrow> t < cutoff))"

definition delete_synced_before :: "rat \<Rightarrow> buffer_store \<Rightarrow> int \<times> buffer_store" where
  "delete_synced_before cutoff s = (if \<not> bs_open s then (0, s)
     else (int (length (filter (expired cutoff) (bs_rows s))), s\<lparr>bs_rows := filter (\<lambda>r. \<not> expired cutoff r) (bs_rows s)\<rparr>))"

definition count_pending :: "buffer_store \<Rightarrow> int" where
  "count_pending s = (if \<not> bs_open s then 0 else int (length (filter (\<lambda>r. \<not> bw_synced r) (bs_rows s))))"

definition max_synced_sequence :: "buffer_store \<Rightarrow> int" where
  "max_synced_sequence s = (if \<not> bs_open s then 0
     else case map bw_id (filter bw_synced (bs_rows s)) of [] \<Rightarrow> 0 | i # ids \<Rightarrow> fold max ids i)"

section \<open>The buffered uploader\<close>

record buffer_config =
  lc_replay_interval :: rat
  lc_replay_batch_size :: int
  lc_cleanup_interval :: rat
  lc_retention_seconds :: rat
  lc_max_retry_count :: int

definition buffer_config_valid :: "buffer_config \<Rightarrow> unit res" where
  "buffer_config_valid c = (if lc_replay_interval c \<le> 0 \<or> lc_replay_batch_size c \<le> 0 \<or> lc_cleanup_interval c \<le> 0
     \<or> lc_retention_seconds c < 0 \<or> lc_max_retry_count c < 0 then Inl ValueError else Inr ())"

record local_buffer =
  lb_config :: buffer_config
  lb_store :: buffer_store
  lb_collections :: "string list"
  lb_stop :: bool

definition key_field :: string where
  "key_field = ''_idempotency_key''"

definition compute_key :: "string \<Rightarrow> string \<Rightarrow> document \<Rightarrow> string" where
  "compute_key coll uuid doc = (case dict_get doc key_field of
     Some (PyStr k) \<Rightarrow> if k \<noteq> [] then k else coll @ '':'' @ uuid | _ \<Rightarrow> coll @ '':'' @ uuid)"

definition with_key :: "string \<Rightarrow> document \<Rightarrow> document" where
  "with_key key doc = (if dict_get doc key_field = None then dict_set key_field (PyStr key) doc else doc)"

definition buffer_enqueue :: "(document \<Rightarrow> document res) \<Rightarrow> rat \<Rightarrow> string \<Rightarrow> string \<Rightarrow> document \<Rightarrow> (local_buffer, int option) op" where
  "buffer_enqueue ser now uuid coll doc b =
     (let b1 = b\<lparr>lb_collections := List.insert coll (lb_collections b)\<rparr> in
      case ser doc of Inl e \<Rightarrow> (Inl e, b1)
      | Inr json \<Rightarrow> (case store_append now coll (Some json) (compute_key coll uuid doc) False (lb_store b1) of
          (row, st) \<Rightarrow> (Inr row, b1\<lparr>lb_store := st\<rparr>)))"

definition buffer_write_immediate :: "(document \<Rightarrow> document res) \<Rightarrow> 'd mongo \<Rightarrow> rat \<Rightarrow> string \<Rightarrow> string \<Rightarrow> document \<Rightarrow> (local_buffer \<times> 'd, batch_result) op" where
  "buffer_write_immediate ser ins now uuid coll doc bd =
     (case bd of (b, d) \<Rightarrow> (case buffer_enqueue ser now uuid coll doc b of
        (Inl e, b1) \<Rightarrow> (Inl e, b1, d)
      | (Inr row, b1) \<Rightarrow> (case Batch_Upload.write_immediate ins coll (with_key (compute_key coll uuid doc) doc) d of
          (d', r) \<Rightarrow> (Inr r, if row \<noteq> None \<and> (br_success r \<or> br_inserted r + br_duplicates r \<ge> 1)
             then b1\<lparr>lb_store := mark_synced now [the row] (lb_store b1)\<rparr> else b1, d'))))"

text \<open>\<open>_replay_collection\<close>: rows that do not parse are left out of the write, not of the marking.\<close>

definition replay_docs :: "buffered_row list \<Rightarrow> document list" where
  "replay_docs rows = List.map_filter (\<lambda>r. map_option (with_key (bw_key r)) (bw_json r)) rows"

definition replay_collection :: "'d mongo \<Rightarrow> rat \<Rightarrow> string \<times> buffered_row list \<Rightarrow> local_buffer \<times> 'd \<Rightarrow> local_buffer \<times> 'd" where
  "replay_collection ins now grp bd =
     (case grp of (coll, rows) \<Rightarrow> (case bd of (b, d) \<Rightarrow>
        let docs = replay_docs rows; ids = map bw_id rows in
        if docs = [] then (b, d)
        else case write_batch ins coll docs False d of (d', r) \<Rightarrow>
          (b\<lparr>lb_store := (if br_success r \<or> br_inserted r + br_duplicates r \<ge> int (length docs)
             then mark_synced now ids else bump_retry ids) (lb_store b)\<rparr>, d')))"

definition group_rows :: "buffered_row list \<Rightarrow> (string \<times> buffered_row list) list" where
  "group_rows rows = fold (\<lambda>r g. dict_set (bw_collection r) (dict_get_or g (bw_collection r) [] @ [r]) g) rows []"

text \<open>The collections are written concurrently; their rows are disjoint, so their order does not matter.\<close>

definition replay_once :: "'d mongo \<Rightarrow> rat \<Rightarrow> local_buffer \<times> 'd \<Rightarrow> local_buffer \<times> 'd" where
  "replay_once ins now bd = fold (replay_collection ins now)
     (group_rows (fetch_pending (lc_replay_batch_size (lb_config (fst bd))) (lb_store (fst bd)))) bd"

definition cleanup_once :: "rat \<Rightarrow> local_buffer \<Rightarrow> local_buffer" where
  "cleanup_once now b = b\<lparr>lb_store := snd (delete_synced_before (now - lc_retention_seconds (lb_config b)) (lb_store b))\<rparr>"

definition buffer_start :: "local_buffer \<Rightarrow> local_buffer" where
  "buffer_start b = b\<lparr>lb_stop := False, lb_store := store_open (lb_store b)\<rparr>"

definition buffer_stop :: "'d mongo \<Rightarrow> rat \<Rightarrow> local_buffer \<times> 'd \<Rightarrow> local_buffer \<times> 'd" where
  "buffer_stop ins now bd = (case replay_once ins now ((fst bd)\<lparr>lb_stop := True\<rparr>, snd bd) of
     (b, d) \<Rightarrow> (b\<lparr>lb_store := store_close (lb_store b)\<rparr>, d))"

definition buffer_init :: "buffer_config \<Rightarrow> local_buffer" where
  "buffer_init c = \<lparr>lb_config = c, lb_store = \<lparr>bs_open = False, bs_rows = [], bs_next = 1\<rparr>, lb_collections = [], lb_stop = False\<rparr>"

definition buffer_register :: "string \<Rightarrow> local_buffer \<times> uploader \<Rightarrow> local_buffer \<times> uploader" where
  "buffer_register coll bu = (case bu of (b, u) \<Rightarrow> (b\<lparr>lb_collections := List.insert coll (lb_collections b)\<rparr>, register_collection coll u))"

section \<open>What the database promises\<close>

text \<open>
  The documented behaviour of \<open>insert_many\<close> with the unique index on the key: documents stay; without an error
  all are there; an unordered insert that refuses some has tried each one, so its count and its errors add up and a document refused
  as a duplicate has its key there already. \<open>has d c k\<close>: collection \<open>c\<close> has a document with key \<open>k\<close>.
\<close>

definition payload_key :: "document \<Rightarrow> pyval" where
  "payload_key doc = dict_get_or doc key_field PyNone"

definition mongo_keeps :: "('d \<Rightarrow> string \<Rightarrow> pyval \<Rightarrow> bool) \<Rightarrow> 'd mongo \<Rightarrow> bool" where
  "mongo_keeps has ins \<longleftrightarrow>
     (\<forall>d c docs ordered d' out. ins c docs ordered d = (d', out) \<longrightarrow>
        (\<forall>c' k. has d c' k \<longrightarrow> has d' c' k)
        \<and> (\<forall>n. out = Inserted n \<longrightarrow> (\<forall>doc \<in> set docs. has d' c (payload_key doc)))
        \<and> (\<forall>codes n. out = Bulk_Error codes n \<and> \<not> ordered \<longrightarrow> n + int (length codes) = int (length docs)
             \<and> (set codes \<subseteq> {Some 11000} \<longrightarrow> (\<forall>doc \<in> set docs. has d' c (payload_key doc)))))"

lemma write_batch_stored:
  assumes "mongo_keeps has ins" "docs \<noteq> []" "write_batch ins c docs ordered d = (d', r)"
    and "br_success r \<or> br_inserted r + br_duplicates r \<ge> int (length docs)" "doc \<in> set docs"
  shows "has d' c (payload_key doc)"
proof -
  obtain out where ins: "ins c docs ordered d = (d', out)"
    using assms(2,3) by (auto simp: write_batch_def split: prod.splits insert_outcome.splits)
  show ?thesis
  proof (cases out)
    case (Inserted n)
    then show ?thesis using assms(1,5) ins unfolding mongo_keeps_def by blast
  next
    case (Bulk_Error codes n)
    have o: "\<not> ordered" using assms(2-4) ins Bulk_Error by (auto simp: write_batch_def split: if_splits)
    have r: "r = handle_bulk_error codes n" using assms(2,3) ins Bulk_Error o by (simp add: write_batch_def)
    have law: "n + int (length codes) = int (length docs)" "set codes \<subseteq> {Some 11000} \<longrightarrow> (\<forall>doc \<in> set docs. has d' c (payload_key doc))"
      using assms(1) ins Bulk_Error o unfolding mongo_keeps_def by blast+
    have "length (filter (\<lambda>c. c = Some 11000) codes) \<ge> length codes"
      using assms(4) law(1) by (auto simp: r handle_bulk_error_def Let_def)
    then have "\<forall>c \<in> set codes. c = Some 11000" using length_filter_less [of _ codes "\<lambda>c. c = Some 11000"] by force
    then have "set codes \<subseteq> {Some 11000}" by blast
    then show ?thesis using law(2) assms(5) by blast
  next
    case Insert_Raised
    then have "r = \<lparr>br_success = False, br_inserted = 0, br_duplicates = 0\<rparr>" using assms(2,3) ins by (simp add: write_batch_def)
    then show ?thesis using assms(2,4) by simp
  qed
qed

lemma write_batch_monotone:
  assumes "mongo_keeps has ins" "write_batch ins c docs ordered d = (d', r)" "has d c' k"
  shows "has d' c' k"
proof (cases "docs = []")
  case False
  then obtain out where "ins c docs ordered d = (d', out)"
    using assms(2) by (auto simp: write_batch_def split: prod.splits insert_outcome.splits)
  then show ?thesis using assms(1,3) unfolding mongo_keeps_def by blast
qed (use assms in \<open>simp add: write_batch_def\<close>)

section \<open>A buffered document is never lost\<close>

text \<open>The document of row \<open>r\<close> is still pending under its id, or the database has it.\<close>

definition same_row :: "buffered_row \<Rightarrow> buffered_row \<Rightarrow> bool" where
  "same_row r r' \<longleftrightarrow> bw_id r' = bw_id r \<and> bw_collection r' = bw_collection r \<and> bw_json r' = bw_json r \<and> bw_key r' = bw_key r"

definition pending_row :: "buffered_row \<Rightarrow> local_buffer \<Rightarrow> bool" where
  "pending_row r b \<longleftrightarrow> (\<exists>r' \<in> set (bs_rows (lb_store b)). same_row r r' \<and> \<not> bw_synced r')"

definition stored_row :: "('d \<Rightarrow> string \<Rightarrow> pyval \<Rightarrow> bool) \<Rightarrow> buffered_row \<Rightarrow> 'd \<Rightarrow> bool" where
  "stored_row has r d \<longleftrightarrow> (\<forall>doc. bw_json r = Some doc \<longrightarrow> has d (bw_collection r) (payload_key (with_key (bw_key r) doc)))"

definition ids_ok :: "buffer_store \<Rightarrow> bool" where
  "ids_ok s \<longleftrightarrow> distinct (map bw_id (bs_rows s)) \<and> (\<forall>r \<in> set (bs_rows s). bw_id r < bs_next s)"

definition buffer_inv :: "('d \<Rightarrow> string \<Rightarrow> pyval \<Rightarrow> bool) \<Rightarrow> buffered_row \<Rightarrow> local_buffer \<times> 'd \<Rightarrow> bool" where
  "buffer_inv has r bd \<longleftrightarrow> ids_ok (lb_store (fst bd)) \<and> bw_id r < bs_next (lb_store (fst bd)) \<and> (pending_row r (fst bd) \<or> stored_row has r (snd bd))"

lemma map_rows_ids_ok: "(\<And>r. bw_id (f r) = bw_id r) \<Longrightarrow> ids_ok s \<Longrightarrow> ids_ok (map_rows ids f s)"
proof -
  assume f: "\<And>r. bw_id (f r) = bw_id r" and s: "ids_ok s"
  have "map bw_id (map (\<lambda>r. if bw_id r \<in> set ids then f r else r) rows) = map bw_id rows" for rows
    by (simp add: f)
  then show "ids_ok (map_rows ids f s)" using s f by (auto simp: ids_ok_def map_rows_def simp del: map_map)
qed

lemma marks_ids_ok [simp]: "ids_ok s \<Longrightarrow> ids_ok (mark_synced now ids s)" "ids_ok s \<Longrightarrow> ids_ok (bump_retry ids s)"
  by (simp_all add: mark_synced_def bump_retry_def map_rows_ids_ok)

lemma marks_next [simp]: "bs_next (mark_synced now ids s) = bs_next s" "bs_next (bump_retry ids s) = bs_next s"
  by (simp_all add: mark_synced_def bump_retry_def map_rows_def)

lemma map_rows_pending:
  assumes "pending_row r b" "bw_id r \<in> set ids \<Longrightarrow> \<forall>x. same_row x (f x) \<and> bw_synced (f x) = bw_synced x"
  shows "pending_row r (b\<lparr>lb_store := map_rows ids f (lb_store b)\<rparr>)"
proof -
  obtain r' where r': "r' \<in> set (bs_rows (lb_store b))" "same_row r r'" "\<not> bw_synced r'" using assms(1) by (auto simp: pending_row_def)
  show ?thesis
  proof (cases "bs_open (lb_store b)")
    case True
    define r'' where "r'' = (if bw_id r' \<in> set ids then f r' else r')"
    have "r'' \<in> set (bs_rows (map_rows ids f (lb_store b)))" using r'(1) True by (simp add: map_rows_def r''_def)
    moreover have "same_row r r'' \<and> \<not> bw_synced r''" using assms(2) r'(2,3) by (auto simp: same_row_def r''_def)
    ultimately show ?thesis unfolding pending_row_def by auto
  next
    case False
    then show ?thesis using assms(1) by (simp add: map_rows_def pending_row_def)
  qed
qed

lemma bump_pending: "pending_row r b \<Longrightarrow> pending_row r (b\<lparr>lb_store := bump_retry ids (lb_store b)\<rparr>)"
  unfolding bump_retry_def by (rule map_rows_pending) (auto simp: same_row_def)

lemma mark_pending: "pending_row r b \<Longrightarrow> bw_id r \<notin> set ids \<Longrightarrow> pending_row r (b\<lparr>lb_store := mark_synced now ids (lb_store b)\<rparr>)"
  unfolding mark_synced_def by (rule map_rows_pending) auto

lemma replay_collection_inv:
  assumes "mongo_keeps has ins" "buffer_inv has r bd" "bw_json r = Some doc"
    and "\<forall>g \<in> set rows. bw_collection g = coll \<and> (bw_id g = bw_id r \<longrightarrow> same_row r g)"
  shows "buffer_inv has r (replay_collection ins now (coll, rows) bd)"
proof -
  obtain b d where bd: "bd = (b, d)" by (cases bd)
  show ?thesis
  proof (cases "replay_docs rows = []")
    case False
    obtain d' w where w: "write_batch ins coll (replay_docs rows) False d = (d', w)" by fastforce
    have keep: "stored_row has r d \<Longrightarrow> stored_row has r d'"
      using write_batch_monotone [OF assms(1) w] by (simp add: stored_row_def)
    have here: "stored_row has r d'" if mem: "bw_id r \<in> bw_id ` set rows" and full: "br_success w \<or> br_inserted w + br_duplicates w \<ge> int (length (replay_docs rows))"
    proof -
      obtain g where g0: "g \<in> set rows" "bw_id r = bw_id g" using mem by blast
      then have g: "g \<in> set rows" "same_row r g" "bw_collection r = coll" using assms(4) by (auto simp: same_row_def)
      have "with_key (bw_key r) doc \<in> set (replay_docs rows)"
        using g assms(3) by (auto simp: replay_docs_def List.map_filter_def same_row_def intro!: rev_image_eqI [of g])
      then show ?thesis using write_batch_stored [OF assms(1) False w full] g(3) assms(3) by (simp add: stored_row_def)
    qed
    define full where "full = (br_success w \<or> br_inserted w + br_duplicates w \<ge> int (length (replay_docs rows)))"
    have eq: "replay_collection ins now (coll, rows) bd =
      (b\<lparr>lb_store := (if full then mark_synced now (map bw_id rows) else bump_retry (map bw_id rows)) (lb_store b)\<rparr>, d')"
      using False w by (simp add: replay_collection_def bd full_def Let_def)
    have "pending_row r b \<or> stored_row has r d" using assms(2) by (simp add: bd buffer_inv_def)
    then have "pending_row r (fst (replay_collection ins now (coll, rows) bd)) \<or> stored_row has r d'"
      using keep here [folded full_def] bump_pending [of r b "map bw_id rows"] mark_pending [of r b "map bw_id rows" now]
      unfolding eq by (cases full) auto
    then show ?thesis using assms(2) by (simp add: eq [unfolded bd] bd buffer_inv_def)
  qed (use assms(2) bd in \<open>simp add: replay_collection_def\<close>)
qed

lemma dict_set_mem: "x \<in> set (dict_set k v d) \<Longrightarrow> x = (k, v) \<or> x \<in> set d"
  by (induction d) (auto split: if_splits)

lemma group_rows_sound:
  "(coll, rows) \<in> set (group_rows rs) \<Longrightarrow> set rows \<subseteq> set rs \<and> (\<forall>g \<in> set rows. bw_collection g = coll)"
proof -
  let ?ok = "\<lambda>d. distinct (dict_keys d) \<and> (\<forall>(coll, rows) \<in> set d. set rows \<subseteq> set rs \<and> (\<forall>g \<in> set rows. bw_collection g = coll))"
  have "?ok (fold (\<lambda>r g. dict_set (bw_collection r) (dict_get_or g (bw_collection r) [] @ [r]) g) xs d)" if "set xs \<subseteq> set rs" "?ok d" for xs d
    using that
  proof (induction xs arbitrary: d)
    case (Cons r xs)
    have old: "set (dict_get_or d (bw_collection r) []) \<subseteq> set rs \<and> (\<forall>g \<in> set (dict_get_or d (bw_collection r) []). bw_collection g = bw_collection r)"
      using Cons.prems(2) by (auto simp: dict_get_or_def split: option.split dest!: map_of_SomeD)
    have "distinct (dict_keys (dict_set (bw_collection r) (dict_get_or d (bw_collection r) [] @ [r]) d))"
      using Cons.prems(2) by (simp add: distinct_update)
    moreover have "set rows \<subseteq> set rs \<and> (\<forall>g \<in> set rows. bw_collection g = coll)"
      if "(coll, rows) \<in> set (dict_set (bw_collection r) (dict_get_or d (bw_collection r) [] @ [r]) d)" for coll rows
      using dict_set_mem [OF that] old Cons.prems by (elim disjE) auto
    ultimately have "?ok (dict_set (bw_collection r) (dict_get_or d (bw_collection r) [] @ [r]) d)" by blast
    then show ?case using Cons.IH Cons.prems(1) by simp
  qed simp
  from this [of rs "[]"] show "(coll, rows) \<in> set (group_rows rs) \<Longrightarrow> ?thesis" by (auto simp: group_rows_def)
qed

lemma replay_once_inv:
  assumes "mongo_keeps has ins" "buffer_inv has r bd" "bw_json r = Some doc"
  shows "buffer_inv has r (replay_once ins now bd)"
proof (cases "stored_row has r (snd bd)")
  case True
  have keep: "ids_ok (lb_store (fst v)) \<and> bw_id r < bs_next (lb_store (fst v)) \<and> stored_row has r (snd v)"
    if "v = fold (replay_collection ins now) grps u" "ids_ok (lb_store (fst u)) \<and> bw_id r < bs_next (lb_store (fst u)) \<and> stored_row has r (snd u)" for grps u v
    using that
  proof (induction grps arbitrary: u)
    case (Cons grp grps)
    have "ids_ok (lb_store (fst (replay_collection ins now grp u))) \<and> bw_id r < bs_next (lb_store (fst (replay_collection ins now grp u)))
      \<and> stored_row has r (snd (replay_collection ins now grp u))"
      using Cons.prems(2) write_batch_monotone [OF assms(1)]
      by (auto simp: replay_collection_def Let_def stored_row_def split: prod.split)
    then show ?case using Cons by simp
  qed simp
  then show ?thesis using True assms(2) unfolding replay_once_def buffer_inv_def by blast
next
  case False
  define rs where "rs = fetch_pending (lc_replay_batch_size (lb_config (fst bd))) (lb_store (fst bd))"
  have "set rs \<subseteq> set (bs_rows (lb_store (fst bd)))" by (auto simp: rs_def fetch_pending_def dest: in_set_takeD)
  moreover obtain r' where r': "r' \<in> set (bs_rows (lb_store (fst bd)))" "same_row r r'"
    using assms(2) False by (auto simp: buffer_inv_def pending_row_def)
  moreover have "inj_on bw_id (set (bs_rows (lb_store (fst bd))))" using assms(2) by (simp add: buffer_inv_def ids_ok_def distinct_map)
  ultimately have same: "\<forall>g \<in> set rs. bw_id g = bw_id r \<longrightarrow> same_row r g"
    unfolding same_row_def inj_on_def by (metis subset_eq)
  have "buffer_inv has r (fold (replay_collection ins now) grps u)"
    if "set grps \<subseteq> set (group_rows rs)" "buffer_inv has r u" for grps u
    using that
  proof (induction grps arbitrary: u)
    case (Cons grp grps)
    obtain coll rows where grp: "grp = (coll, rows)" by (cases grp)
    then have "\<forall>g \<in> set rows. bw_collection g = coll \<and> (bw_id g = bw_id r \<longrightarrow> same_row r g)"
      using group_rows_sound [of coll rows rs] Cons.prems(1) same by auto
    then have "buffer_inv has r (replay_collection ins now grp u)"
      unfolding grp by (rule replay_collection_inv [OF assms(1) Cons.prems(2) assms(3)])
    then show ?case using Cons by simp
  qed simp
  then show ?thesis using assms(2) by (simp add: replay_once_def rs_def)
qed

inductive lb_step :: "(document \<Rightarrow> document res) \<Rightarrow> 'd mongo \<Rightarrow> local_buffer \<times> 'd \<Rightarrow> local_buffer \<times> 'd \<Rightarrow> bool" for ser ins where
  start: "lb_step ser ins (b, d) (buffer_start b, d)"
| enqueue: "lb_step ser ins (b, d) (snd (buffer_enqueue ser now uuid coll doc b), d)"
| immediate: "lb_step ser ins bd (snd (buffer_write_immediate ser ins now uuid coll doc bd))"
| register: "lb_step ser ins (b, d) (fst (buffer_register coll (b, u)), d)"
| replay: "lb_step ser ins bd (replay_once ins now bd)"
| cleanup: "lb_step ser ins (b, d) (cleanup_once now b, d)"
| stop: "lb_step ser ins bd (buffer_stop ins now bd)"

lemma append_ids_ok:
  "store_append now coll json key synced s = (row, s') \<Longrightarrow> ids_ok s \<Longrightarrow> ids_ok s' \<and> bs_next s \<le> bs_next s'
     \<and> set (bs_rows s) \<subseteq> set (bs_rows s') \<and> (case row of None \<Rightarrow> True | Some i \<Rightarrow> i = bs_next s \<and> bs_next s < bs_next s')"
  by (auto simp: store_append_def ids_ok_def split: if_splits intro: less_imp_le) (force dest: bspec)+

lemma pending_cong: "set (bs_rows (lb_store b)) \<subseteq> set (bs_rows (lb_store b')) \<Longrightarrow> pending_row r b \<Longrightarrow> pending_row r b'"
  by (auto simp: pending_row_def)

lemma buffer_enqueue_inv:
  assumes "buffer_inv has r (b, d)" "buffer_enqueue ser now uuid coll doc b = (x, b')"
  shows "buffer_inv has r (b', d) \<and> (\<forall>i. x = Inr (Some i) \<longrightarrow> i \<noteq> bw_id r)"
proof (cases "ser doc")
  case (Inr json)
  obtain row st where st: "store_append now coll (Some json) (compute_key coll uuid doc) False (lb_store b) = (row, st)" by fastforce
  have b': "lb_store b' = st" "x = Inr row" using assms(2) Inr st by (auto simp: buffer_enqueue_def)
  have s: "ids_ok (lb_store b)" "bw_id r < bs_next (lb_store b)" using assms(1) by (simp_all add: buffer_inv_def)
  have "pending_row r b \<Longrightarrow> pending_row r b'"
    by (rule pending_cong) (use append_ids_ok [OF st s(1)] b' in auto)
  then show ?thesis using append_ids_ok [OF st s(1)] assms(1) b' s
    by (auto simp: buffer_inv_def split: option.splits)
next
  case (Inl e)
  then show ?thesis using assms by (auto simp: buffer_enqueue_def buffer_inv_def pending_row_def)
qed

lemma lb_step_inv:
  assumes "mongo_keeps has ins" "bw_json r = Some doc0" "lb_step ser ins bd bd'" "buffer_inv has r bd"
  shows "buffer_inv has r bd'"
  using assms(3,4)
proof (induction rule: lb_step.induct)
  case (enqueue b d now uuid coll doc)
  then show ?case using buffer_enqueue_inv [of has r b d ser now uuid coll doc] by (metis prod.collapse)
next
  case (immediate bd now uuid coll doc)
  obtain b d where bd: "bd = (b, d)" by (cases bd)
  obtain x b1 where e: "buffer_enqueue ser now uuid coll doc b = (x, b1)" by fastforce
  have inv: "buffer_inv has r (b1, d)" "\<And>i. x = Inr (Some i) \<Longrightarrow> i \<noteq> bw_id r"
    using buffer_enqueue_inv [OF _ e, of has r d] immediate bd by blast+
  show ?case
  proof (cases x)
    case (Inr row)
    obtain d' w where w: "Batch_Upload.write_immediate ins coll (with_key (compute_key coll uuid doc) doc) d = (d', w)" by fastforce
    have "stored_row has r d \<Longrightarrow> stored_row has r d'"
      using write_batch_monotone [OF assms(1) w [unfolded write_immediate_def]] by (simp add: stored_row_def)
    then have "buffer_inv has r (b1, d')" using inv(1) by (auto simp: buffer_inv_def)
    moreover from this have "buffer_inv has r (b1\<lparr>lb_store := mark_synced now [i] (lb_store b1)\<rparr>, d')" if "row = Some i" for i
      using inv(2) [of i] that Inr mark_pending [of r b1 "[i]" now] by (auto simp: buffer_inv_def)
    ultimately show ?thesis using Inr w e by (auto simp: buffer_write_immediate_def bd)
  qed (use inv(1) e bd in \<open>simp add: buffer_write_immediate_def\<close>)
next
  case (replay bd now)
  then show ?case using replay_once_inv [OF assms(1) _ assms(2)] by blast
next
  case (cleanup b d now)
  then show ?case by (auto simp: buffer_inv_def cleanup_once_def delete_synced_before_def pending_row_def ids_ok_def expired_def distinct_map_filter)
next
  case (stop bd now)
  have "buffer_inv has r ((fst bd)\<lparr>lb_stop := True\<rparr>, snd bd)" using stop by (auto simp: buffer_inv_def pending_row_def)
  then have "buffer_inv has r (replay_once ins now ((fst bd)\<lparr>lb_stop := True\<rparr>, snd bd))" by (rule replay_once_inv [OF assms(1) _ assms(2)])
  then show ?case by (auto simp: buffer_stop_def buffer_inv_def pending_row_def store_close_def ids_ok_def split: prod.split)
qed (auto simp: buffer_inv_def pending_row_def buffer_start_def store_open_def buffer_register_def ids_ok_def)

text \<open>
  C39. A document that the local buffer has accepted is never lost: after any sequence of further enqueues,
  immediate writes, replays, clean-ups, stops and restarts, whatever the database answers, it is still pending under its id in the store
  or the database has a document with its key.
\<close>

theorem buffered_never_lost:
  assumes "mongo_keeps has ins"
    and "(lb_step ser ins)\<^sup>*\<^sup>* (buffer_init cfg, d0) (b, d)"
    and "r \<in> set (bs_rows (lb_store b))" "\<not> bw_synced r" "bw_json r = Some doc"
    and "(lb_step ser ins)\<^sup>*\<^sup>* (b, d) (b', d')"
  shows "pending_row r b' \<or> has d' (bw_collection r) (payload_key (with_key (bw_key r) doc))"
proof -
  have ids: "ids_ok (lb_store (fst bd))" if "(lb_step ser ins)\<^sup>*\<^sup>* (buffer_init cfg, d0) bd" for bd
  proof -
    let ?r = "\<lparr>bw_id = 0, bw_collection = [], bw_json = Some [], bw_key = [], bw_enqueued_at = 0, bw_synced = False, bw_synced_at = None, bw_retries = 0\<rparr>"
    have "buffer_inv (\<lambda>_ _ _. True) ?r (buffer_init cfg, d0)" by (simp add: buffer_inv_def ids_ok_def buffer_init_def stored_row_def)
    moreover have "mongo_keeps (\<lambda>_ _ _. True) ins" using assms(1) by (simp add: mongo_keeps_def)
    ultimately have "buffer_inv (\<lambda>_ _ _. True) ?r bd" using that
      by (induction rule: rtranclp_induct [OF that]) (use lb_step_inv [where r = ?r] in force)+
    then show ?thesis by (simp add: buffer_inv_def)
  qed
  have "ids_ok (lb_store b)" using ids [OF assms(2)] by simp
  then have "buffer_inv has r (b, d)" using assms(3,4) by (auto simp: buffer_inv_def ids_ok_def pending_row_def same_row_def)
  then have "buffer_inv has r (b', d')" using assms(6)
    by (induction rule: rtranclp_induct [OF assms(6)]) (use lb_step_inv [OF assms(1,5)] in blast)+
  then show ?thesis using assms(5) by (simp add: buffer_inv_def stored_row_def)
qed

text \<open>Accepting a document means that an open store holds it, pending, under the returned id.\<close>

lemma enqueue_accepts:
  assumes "buffer_enqueue ser now uuid coll doc b = (Inr (Some i), b')"
  shows "\<exists>r json. r \<in> set (bs_rows (lb_store b')) \<and> bw_id r = i \<and> \<not> bw_synced r \<and> ser doc = Inr json \<and> bw_json r = Some json
    \<and> bw_collection r = coll \<and> bw_key r = compute_key coll uuid doc"
  using assms by (auto simp: buffer_enqueue_def store_append_def Let_def split: sum.splits prod.splits if_splits)

section \<open>What the buffer does not do\<close>

text \<open>A closed store drops a document with no more than a line in the log.\<close>

lemma closed_store_drops: "\<not> bs_open (lb_store b) \<Longrightarrow> ser doc = Inr json \<Longrightarrow> fst (buffer_enqueue ser now uuid coll doc b) = Inr None"
  by (simp add: buffer_enqueue_def store_append_def)

text \<open>
  A batch with a document that the database keeps refusing is never marked, though its other documents are
  written: replay returns to the same rows for ever, and rows behind the first batch are not tried. The retry counts are not consulted.
\<close>

lemma map_rows_pending_same:
  assumes "\<And>r. bw_synced (f r) = bw_synced r"
  shows "map bw_synced (bs_rows (map_rows ids f s)) = map bw_synced (bs_rows s)"
  using assms by (simp add: map_rows_def)

lemma blocked_head:
  assumes "write_batch ins coll (replay_docs rows) False d = (d', w)" "\<not> br_success w"
    "br_inserted w + br_duplicates w < int (length (replay_docs rows))"
  shows "map bw_synced (bs_rows (lb_store (fst (replay_collection ins now (coll, rows) (b, d))))) = map bw_synced (bs_rows (lb_store b))"
  using assms by (simp add: replay_collection_def Let_def bump_retry_def map_rows_pending_same)

text \<open>A row that does not parse is marked as synced with the others of its batch, though it was not written.\<close>

definition demo_row :: "int \<Rightarrow> document option \<Rightarrow> buffered_row" where
  "demo_row i json = \<lparr>bw_id = i, bw_collection = ''t'', bw_json = json, bw_key = (if i = 1 then ''a'' else ''b''), bw_enqueued_at = 0,
     bw_synced = False, bw_synced_at = None, bw_retries = 0\<rparr>"

definition demo_buffer :: "buffered_row list \<Rightarrow> local_buffer" where
  "demo_buffer rows = \<lparr>lb_config = \<lparr>lc_replay_interval = 5, lc_replay_batch_size = 500, lc_cleanup_interval = 3600, lc_retention_seconds = 60,
     lc_max_retry_count = 100\<rparr>, lb_store = \<lparr>bs_open = True, bs_rows = rows, bs_next = 3\<rparr>, lb_collections = [''t''], lb_stop = False\<rparr>"

definition demo_key_insert :: "document list mongo" where
  "demo_key_insert c docs ordered db = (db @ docs, Inserted (int (length docs)))"

lemma unparsed_marked_synced:
  "map bw_synced (bs_rows (lb_store (fst (replay_once demo_key_insert 0 (demo_buffer [demo_row 1 None, demo_row 2 (Some [])], []))))) = [True, True]"
  by code_simp

text \<open>A document that carries an empty key keeps it: two of them are duplicates for the database, though the store has a key of its own for each.\<close>

lemma empty_key_collides:
  "payload_key (with_key (compute_key c u1 [(key_field, PyStr []), (''v'', PyInt 1)]) [(key_field, PyStr []), (''v'', PyInt 1)])
   = payload_key (with_key (compute_key c u2 [(key_field, PyStr []), (''v'', PyInt 2)]) [(key_field, PyStr []), (''v'', PyInt 2)])"
  by (simp add: with_key_def payload_key_def key_field_def dict_get_or_def)

section \<open>An example\<close>

definition demo_has :: "document list \<Rightarrow> string \<Rightarrow> pyval \<Rightarrow> bool" where
  "demo_has db c k = (k \<in> payload_key ` set db)"

lemma demo_key_insert_keeps: "mongo_keeps demo_has demo_key_insert"
  by (auto simp: mongo_keeps_def demo_key_insert_def demo_has_def)

definition demo_started :: local_buffer where
  "demo_started = snd (buffer_enqueue Inr 0 ''u'' ''t'' [(''v'', PyInt 1)] (buffer_start (buffer_init (lb_config (demo_buffer [])))))"

theorem buffered_never_lost_witness:
  "demo_has (snd (replay_once demo_key_insert 1 (demo_started, []))) ''t'' (PyStr ''t:u'')
   \<or> pending_row (hd (bs_rows (lb_store demo_started))) (fst (replay_once demo_key_insert 1 (demo_started, [])))"
proof -
  let ?b0 = "buffer_init (lb_config (demo_buffer []))" and ?r = "hd (bs_rows (lb_store demo_started))"
  let ?bd = "replay_once demo_key_insert 1 (demo_started, [])"
  have "lb_step Inr demo_key_insert (?b0, []) (buffer_start ?b0, [])" by (rule lb_step.start)
  moreover have "lb_step Inr demo_key_insert (buffer_start ?b0, []) (demo_started, [])" unfolding demo_started_def by (rule lb_step.enqueue)
  ultimately have reach: "(lb_step Inr demo_key_insert)\<^sup>*\<^sup>* (?b0, []) (demo_started, [])" by auto
  have step: "(lb_step Inr demo_key_insert)\<^sup>*\<^sup>* (demo_started, []) (fst ?bd, snd ?bd)"
    using r_into_rtranclp [of "lb_step Inr demo_key_insert", OF lb_step.replay] by simp
  have row: "bs_rows (lb_store demo_started) = [\<lparr>bw_id = 1, bw_collection = ''t'', bw_json = Some [(''v'', PyInt 1)], bw_key = ''t:u'',
    bw_enqueued_at = 0, bw_synced = False, bw_synced_at = None, bw_retries = 0\<rparr>]" by code_simp
  then show ?thesis using buffered_never_lost [OF demo_key_insert_keeps reach _ _ _ step, of ?r "[(''v'', PyInt 1)]"]
    by (auto simp: with_key_def payload_key_def key_field_def dict_get_or_def)
qed

end
