(* ===== verification/Control_Cycle.thy ===== *)
theory Control_Cycle
  imports System_Controller Protection Distributor Command_Router
begin

text \<open>
  The control cycle of \<open>csp_lib/integration/system_controller.py\<close>, which composes the protection guard, the
  processors, the event overrides, the distributor and the router: context, command callback, device alarms,
  snapshots, read triggers, preflight, start and stop. The context builder's result, the processors and
  the clients' callbacks are arguments; what each start or stop of a part answers is an argument too.
\<close>

section \<open>State\<close>

datatype power_distributor = EqualDistributor | ProportionalDistributor string | SOCBalancingDistributor soc_balancing

fun distribute :: "power_distributor \<Rightarrow> command \<Rightarrow> device_snapshot list \<Rightarrow> shares res" where
  "distribute EqualDistributor cmd ds = equal_distribute cmd ds"
| "distribute (ProportionalDistributor key) cmd ds = proportional_distribute key cmd ds"
| "distribute (SOCBalancingDistributor cfg) cmd ds = soc_distribute cfg cmd ds"

record cycle_config =
  cy_mappings :: "command_mapping list"
  cy_capability_mappings :: "capability_mapping list"
  cy_distributor :: "power_distributor option"
  cy_processors :: "(command \<Rightarrow> strategy_context \<Rightarrow> command res) list"
  cy_alarm_mode :: string
  cy_alarm_key :: string
  cy_alarm_callback :: bool
  cy_clear_callback :: bool
  cy_requirements :: "capability_requirement list"
  cy_strict :: bool
  cy_read_triggers :: "string list"

text \<open>
  The devices at the time of a cycle: their readings, the read slots of a capability, which have a stop action, and what
  the clients' alarm callbacks answer.
\<close>

record cycle_env =
  ce_router :: router_env
  ce_latest :: "nat \<Rightarrow> (string \<times> pyval) list"
  ce_read_slots :: "string \<Rightarrow> string list"
  ce_stop_action :: "nat \<Rightarrow> bool"
  ce_callback :: "nat \<Rightarrow> unit res"

datatype alarm_call = CallAlarm nat | CallStop nat | CallClear nat

record control_system =
  cs_controller :: controller
  cs_guard :: protection_guard
  cs_router :: router
  cs_cached :: "strategy_context option"
  cs_overrides :: "event_override list"
  cs_override_states :: override_states
  cs_alarmed :: "string list"
  cs_alarm_calls :: "alarm_call list"

abbreviation "env_devices env \<equiv> all_devices (re_registry (ce_router env))"
abbreviation "env_store env \<equiv> re_store (ce_router env)"

section \<open>Context\<close>

definition any_protected :: "cycle_env \<Rightarrow> bool res" where
  "any_protected env = rbind (env_devices env) (\<lambda>ds. Inr (list_ex (\<lambda>d. dev_protected (env_store env d)) ds))"

definition system_context :: "cycle_config \<Rightarrow> cycle_env \<Rightarrow> strategy_context res \<Rightarrow> (control_system, strategy_context) op" where
  "system_context cfg env base s =
     (case rbind base (\<lambda>ctx. rbind (any_protected env) (\<lambda>alarm.
        Inr (ctx\<lparr>ctx_extra := dict_set (cy_alarm_key cfg) (PyBool (cy_alarm_mode cfg \<noteq> ''per_device'' \<and> alarm)) (ctx_extra ctx)\<rparr>))) of
        Inl e \<Rightarrow> (Inl e, s)
      | Inr ctx \<Rightarrow> (Inr ctx, s\<lparr>cs_cached := Some ctx\<rparr>))"

section \<open>Snapshots\<close>

definition binding_values :: "cycle_env \<Rightarrow> nat \<Rightarrow> string \<times> (string \<times> string) list \<Rightarrow> (string \<times> (string \<times> pyval) list) res" where
  "binding_values env dev = (\<lambda>(cap, binding).
     rbind (rmap (\<lambda>slot. case dict_get binding slot of None \<Rightarrow> Inl KeyError
         | Some point \<Rightarrow> Inr (slot, dict_get_or (ce_latest env dev) point PyNone)) (ce_read_slots env cap))
       (\<lambda>slots. Inr (cap, dict_of slots)))"

definition device_snapshot_of :: "cycle_env \<Rightarrow> nat \<Rightarrow> device_snapshot res" where
  "device_snapshot_of env dev =
     (let d = env_store env dev in
      rbind (rmap (binding_values env dev) (dev_capabilities d)) (\<lambda>caps.
        Inr \<lparr>ds_id = dev_id d, ds_metadata = get_metadata (re_registry (ce_router env)) (dev_id d),
             ds_latest = ce_latest env dev, ds_capabilities = dict_of caps\<rparr>))"

definition snapshot_devices :: "cycle_config \<Rightarrow> cycle_env \<Rightarrow> nat list res" where
  "snapshot_devices cfg env = rbind (env_devices env) (\<lambda>ds. Inr (filter (\<lambda>dev.
     let d = env_store env dev in dev_responsive d \<and> \<not> dev_protected d
       \<and> list_ex (\<lambda>c. c \<in> cap_name ` set (cy_capability_mappings cfg)) (dict_keys (dev_capabilities d))) ds))"

definition build_device_snapshots :: "cycle_config \<Rightarrow> cycle_env \<Rightarrow> device_snapshot list res" where
  "build_device_snapshots cfg env = rbind (snapshot_devices cfg env) (rmap (device_snapshot_of env))"

section \<open>The command callback\<close>

text \<open>A processor that raises is skipped.\<close>

definition run_processors :: "cycle_config \<Rightarrow> strategy_context \<Rightarrow> command \<Rightarrow> command" where
  "run_processors cfg ctx cmd = fold (\<lambda>p c. case p c ctx of Inl e \<Rightarrow> c | Inr c' \<Rightarrow> c') (cy_processors cfg) cmd"

definition evaluate_overrides :: "(nat \<Rightarrow> bool) \<Rightarrow> rat \<Rightarrow> strategy_context \<Rightarrow> control_system \<Rightarrow> control_system" where
  "evaluate_overrides suppress now ctx s =
     (case evaluate_event_overrides suppress now ctx (cs_overrides s) (cs_override_states s) (cs_controller s) of
        (sts, sc) \<Rightarrow> s\<lparr>cs_override_states := sts, cs_controller := sc\<rparr>)"

definition route_command :: "cycle_config \<Rightarrow> cycle_env \<Rightarrow> command \<Rightarrow> (control_system, unit) op" where
  "route_command cfg env cmd s =
     (let routed = (\<lambda>r. (case rt_raised r of None \<Rightarrow> Inr () | Some e \<Rightarrow> Inl e, s\<lparr>cs_router := r\<lparr>rt_raised := None\<rparr>\<rparr>)) in
      case cy_distributor cfg of
        Some dt \<Rightarrow> if cy_capability_mappings cfg \<noteq> [] then
            (case rbind (build_device_snapshots cfg env) (distribute dt cmd) of
               Inl e \<Rightarrow> (Inl e, s)
             | Inr per_device \<Rightarrow> routed (route_per_device (ce_router env) (cy_mappings cfg) (cy_capability_mappings cfg) cmd per_device (cs_router s)))
          else routed (route (ce_router env) (cy_mappings cfg) (cy_capability_mappings cfg) cmd (cs_router s))
      | None \<Rightarrow> routed (route (ce_router env) (cy_mappings cfg) (cy_capability_mappings cfg) cmd (cs_router s)))"

definition handle_device_alarm :: "cycle_config \<Rightarrow> cycle_env \<Rightarrow> nat \<Rightarrow> (control_system, unit) op" where
  "handle_device_alarm cfg env dev s =
     (let d = env_store env dev; did = dev_id d in
      if dev_protected d \<and> did \<notin> set (cs_alarmed s) then
        let s1 = s\<lparr>cs_alarmed := set_add did (cs_alarmed s)\<rparr> in
        if cy_alarm_callback cfg then (ce_callback env dev, s1\<lparr>cs_alarm_calls := cs_alarm_calls s1 @ [CallAlarm dev]\<rparr>)
        else if ce_stop_action env dev then (Inr (), s1\<lparr>cs_alarm_calls := cs_alarm_calls s1 @ [CallStop dev]\<rparr>)
        else (Inr (), s1)
      else if \<not> dev_protected d \<and> did \<in> set (cs_alarmed s) then
        let s1 = s\<lparr>cs_alarmed := removeAll did (cs_alarmed s)\<rparr> in
        if cy_clear_callback cfg then (ce_callback env dev, s1\<lparr>cs_alarm_calls := cs_alarm_calls s1 @ [CallClear dev]\<rparr>)
        else (Inr (), s1)
      else (Inr (), s))"

definition handle_device_alarms :: "cycle_config \<Rightarrow> cycle_env \<Rightarrow> (control_system, unit) op" where
  "handle_device_alarms cfg env s = (case env_devices env of Inl e \<Rightarrow> (Inl e, s) | Inr ds \<Rightarrow> sfor (handle_device_alarm cfg env) ds s)"

definition on_command :: "params_store \<Rightarrow> cycle_config \<Rightarrow> cycle_env \<Rightarrow> (nat \<Rightarrow> bool) \<Rightarrow> rat \<Rightarrow> strategy_context res \<Rightarrow> command \<Rightarrow> (control_system, unit) op" where
  "on_command store cfg env suppress now base cmd =
     sbind (\<lambda>s. case cs_cached s of Some ctx \<Rightarrow> (Inr ctx, s) | None \<Rightarrow> system_context cfg env base s) (\<lambda>ctx s.
       case guard_apply store (cs_guard s) cmd ctx of (result, g) \<Rightarrow>
         let s1 = s\<lparr>cs_guard := g\<rparr>;
             final = run_processors cfg ctx (protected_command result);
             s2 = (if cs_overrides s1 \<noteq> [] then evaluate_overrides suppress now ctx s1 else s1)
         in sbind (route_command cfg env final)
              (\<lambda>_ s3. if cy_alarm_mode cfg = ''per_device'' then handle_device_alarms cfg env s3 else (Inr (), s3)) s2)"

section \<open>Preflight and read triggers\<close>

definition preflight_check :: "cycle_config \<Rightarrow> cycle_env \<Rightarrow> (capability_requirement \<times> nat) list res" where
  "preflight_check cfg env =
     (if cy_requirements cfg = [] then Inr []
      else rbind (validate_capabilities (re_registry (ce_router env)) (env_store env) (cy_requirements cfg)) (\<lambda>failures.
        if failures \<noteq> [] \<and> cy_strict cfg then Inl ConfigurationError else Inr failures))"

text \<open>The life cycle: which parts run, the devices with a read trigger, and the triggers attached at the start.\<close>

record lifecycle =
  lf_feed :: bool
  lf_refresh :: bool
  lf_heartbeat :: bool
  lf_task :: bool
  lf_triggers :: "string list"
  lf_detachers :: "string list"

text \<open>The configured parts, and what their starts, their stops and the subscriptions to a device answer.\<close>

record lifecycle_env =
  le_has_feed :: bool
  le_has_refresh :: bool
  le_has_heartbeat :: bool
  le_processors_init :: "unit res"
  le_refresh_start :: "unit res"
  le_heartbeat_start :: "unit res"
  le_subscribe :: "string \<Rightarrow> unit res"
  le_task_end :: "unit res"
  le_heartbeat_stop :: "unit res"
  le_refresh_stop :: "unit res"

definition attach_read_trigger :: "cycle_env \<Rightarrow> lifecycle_env \<Rightarrow> string \<Rightarrow> (lifecycle, unit) op" where
  "attach_read_trigger env le did s =
     (if get_device (re_registry (ce_router env)) did = None then (Inl ValueError, s)
      else if did \<in> set (lf_triggers s) then (Inl ValueError, s)
      else case le_subscribe le did of Inl e \<Rightarrow> (Inl e, s) | Inr _ \<Rightarrow> (Inr (), s\<lparr>lf_triggers := lf_triggers s @ [did]\<rparr>))"

definition detach_all :: "lifecycle \<Rightarrow> lifecycle" where
  "detach_all s = s\<lparr>lf_triggers := filter (\<lambda>d. d \<notin> set (lf_detachers s)) (lf_triggers s), lf_detachers := []\<rparr>"

fun attach_configured :: "cycle_env \<Rightarrow> lifecycle_env \<Rightarrow> string list \<Rightarrow> (lifecycle, unit) op" where
  "attach_configured env le [] s = (Inr (), s)"
| "attach_configured env le (did # ids) s = (case attach_read_trigger env le did s of
     (Inr _, s1) \<Rightarrow> attach_configured env le ids (s1\<lparr>lf_detachers := lf_detachers s1 @ [did]\<rparr>)
   | (Inl e, s1) \<Rightarrow> if e = ValueError then attach_configured env le ids s1 else (Inl e, detach_all s1))"

definition start_parts :: "cycle_config \<Rightarrow> cycle_env \<Rightarrow> lifecycle_env \<Rightarrow> (lifecycle, unit) op" where
  "start_parts cfg env le =
     sbind (op_res (preflight_check cfg env)) (\<lambda>_.
     sbind (op_res (le_processors_init le)) (\<lambda>_.
     sbind (op_mod (\<lambda>s. if le_has_feed le then s\<lparr>lf_feed := True\<rparr> else s)) (\<lambda>_.
     sbind (\<lambda>s. if le_has_refresh le then (case le_refresh_start le of Inl e \<Rightarrow> (Inl e, s) | Inr _ \<Rightarrow> (Inr (), s\<lparr>lf_refresh := True\<rparr>)) else (Inr (), s)) (\<lambda>_.
     sbind (\<lambda>s. if le_has_heartbeat le then (case le_heartbeat_start le of Inl e \<Rightarrow> (Inl e, s) | Inr _ \<Rightarrow> (Inr (), s\<lparr>lf_heartbeat := True\<rparr>)) else (Inr (), s)) (\<lambda>_.
     sbind (op_mod (\<lambda>s. s\<lparr>lf_task := True\<rparr>)) (\<lambda>_.
       attach_configured env le (cy_read_triggers cfg)))))))"

text \<open>Each \<open>finally\<close> runs, and what is raised last is raised.\<close>

definition system_stop :: "lifecycle_env \<Rightarrow> (lifecycle, unit) op" where
  "system_stop le s =
     (let s1 = detach_all s;
          r1 = (if lf_task s1 then le_task_end le else Inr ());
          s2 = s1\<lparr>lf_task := False\<rparr>;
          r2 = (if le_has_heartbeat le then le_heartbeat_stop le else Inr ());
          s3 = (if r2 = Inr () then s2\<lparr>lf_heartbeat := False\<rparr> else s2);
          r3 = (if le_has_refresh le then le_refresh_stop le else Inr ());
          s4 = (if r3 = Inr () then s3\<lparr>lf_refresh := False\<rparr> else s3)
      in (if isl r3 then r3 else if isl r2 then r2 else r1, s4\<lparr>lf_feed := False\<rparr>))"

definition system_start :: "cycle_config \<Rightarrow> cycle_env \<Rightarrow> lifecycle_env \<Rightarrow> (lifecycle, unit) op" where
  "system_start cfg env le s = (case start_parts cfg env le s of
       (Inr _, s1) \<Rightarrow> (Inr (), s1) | (Inl e, s1) \<Rightarrow> (Inl e, snd (system_stop le s1)))"

section \<open>What a cycle sends\<close>

text \<open>The values a command offers to the mappings.\<close>

definition offers :: "command \<Rightarrow> wvalue \<Rightarrow> bool" where
  "offers c v \<longleftrightarrow> v \<noteq> WNoChange \<and> (\<exists>f. command_field c f = Some v)"

definition no_transforms :: "cycle_config \<Rightarrow> bool" where
  "no_transforms cfg \<longleftrightarrow> list_all (\<lambda>m. cm_transform m = None) (cy_mappings cfg) \<and> list_all (\<lambda>m. cap_transform m = None) (cy_capability_mappings cfg)"

lemma plain_value: "mapping_value c f None = Some v \<Longrightarrow> offers c v"
  by (auto simp: mapping_value_def transformed_def offers_def split: option.splits if_splits)

definition attempts_only :: "router_env \<Rightarrow> (wvalue \<Rightarrow> bool) \<Rightarrow> router \<Rightarrow> bool" where
  "attempts_only env V r \<longleftrightarrow> list_all (\<lambda>(dev, point, v). may_write env dev \<and> V v) (rt_attempts r)"

interpretation only: value_writes env "attempts_only env V" V for env V
  by unfold_locales (simp_all add: attempts_only_def)

lemma attempts_only_mono: "attempts_only env V r \<Longrightarrow> (\<And>v. V v \<Longrightarrow> W v) \<Longrightarrow> attempts_only env W r"
  by (auto simp: attempts_only_def list_all_iff)

text \<open>Where the value of an attempted write comes from: the final command, or the share of a device.\<close>

definition sent_value :: "cycle_config \<Rightarrow> cycle_env \<Rightarrow> command \<Rightarrow> wvalue \<Rightarrow> bool" where
  "sent_value cfg env final v \<longleftrightarrow> offers final v
     \<or> (\<exists>dt shares did c. cy_distributor cfg = Some dt \<and> rbind (build_device_snapshots cfg env) (distribute dt final) = Inr shares
          \<and> dict_get shares did = Some c \<and> offers c v)"

lemma route_command_attempts:
  assumes "no_transforms cfg" "attempts_only (ce_router env) (sent_value cfg env final) (cs_router s)"
  shows "attempts_only (ce_router env) (sent_value cfg env final) (cs_router (snd (route_command cfg env final s)))"
proof -
  have plain: "m \<in> set (cy_mappings cfg) \<Longrightarrow> mapping_value c (cm_field m) (cm_transform m) = Some v \<Longrightarrow> offers c v"
    "m' \<in> set (cy_capability_mappings cfg) \<Longrightarrow> mapping_value c (cap_field m') (cap_transform m') = Some v \<Longrightarrow> offers c v" for m m' c v
    using assms(1) plain_value by (auto simp: no_transforms_def list_all_iff)
  have final: "offers final v \<Longrightarrow> sent_value cfg env final v" for v by (simp add: sent_value_def)
  have one: "attempts_only (ce_router env) (sent_value cfg env final)
      (route (ce_router env) (cy_mappings cfg) (cy_capability_mappings cfg) final (cs_router s))"
    by (rule only.route) (use assms(2) plain final in auto)
  have many: "attempts_only (ce_router env) (sent_value cfg env final)
      (route_per_device (ce_router env) (cy_mappings cfg) (cy_capability_mappings cfg) final shares (cs_router s))"
    if "cy_distributor cfg = Some dt" "rbind (build_device_snapshots cfg env) (distribute dt final) = Inr shares" for dt shares
  proof (rule only.route_per_device)
    fix m did c v
    assume "m \<in> set (cy_capability_mappings cfg)" "dict_get shares did = Some c" "mapping_value c (cap_field m) (cap_transform m) = Some v"
    then show "sent_value cfg env final v" using that plain(2) unfolding sent_value_def by blast
  qed (use assms(2) plain final in auto)
  have flag: "attempts_only e V (r\<lparr>rt_raised := x\<rparr>) = attempts_only e V r" for e V r x by (simp add: attempts_only_def)
  show ?thesis using assms(2) one many
    by (auto simp: route_command_def Let_def flag split: option.split sum.split)
qed

lemma alarms_router: "cs_router (snd (handle_device_alarms cfg env s)) = cs_router s"
proof -
  have one: "preserves (\<lambda>u. cs_router u = cs_router s) (handle_device_alarm cfg env dev)" for dev
    by (rule preservesI) (auto simp: handle_device_alarm_def Let_def split: if_splits)
  have "preserves (\<lambda>u. cs_router u = cs_router s) (sfor (handle_device_alarm cfg env) ds)" for ds
    by (rule preserves_sfor) (rule one)
  note run = preserves_run [OF this refl prod.collapse [symmetric]]
  show ?thesis
  proof (cases "env_devices env")
    case (Inr ds)
    then show ?thesis using run [of ds] by (simp only: handle_device_alarms_def sum.case)
  qed (simp add: handle_device_alarms_def)
qed

lemma on_command_attempts:
  assumes "cs_cached s = Some ctx" "no_transforms cfg" "rt_attempts (cs_router s) = []"
    and "on_command store cfg env suppress now base cmd s = (res, t)"
  shows "attempts_only (ce_router env)
    (sent_value cfg env (run_processors cfg ctx (protected_command (fst (guard_apply store (cs_guard s) cmd ctx))))) (cs_router t)"
proof -
  obtain result g where g: "guard_apply store (cs_guard s) cmd ctx = (result, g)" by fastforce
  define final where "final = run_processors cfg ctx (protected_command result)"
  define s2 where "s2 = (let s1 = s\<lparr>cs_guard := g\<rparr> in if cs_overrides s1 \<noteq> [] then evaluate_overrides suppress now ctx s1 else s1)"
  obtain r s3 where r: "route_command cfg env final s2 = (r, s3)" by fastforce
  have "attempts_only (ce_router env) (sent_value cfg env final) (cs_router s2)"
    using assms(3) by (simp add: s2_def evaluate_overrides_def attempts_only_def Let_def split: prod.split)
  then have "attempts_only (ce_router env) (sent_value cfg env final) (cs_router s3)"
    using route_command_attempts [OF assms(2), of env final s2] r by simp
  moreover have "cs_router t = cs_router s3"
  proof -
    have "on_command store cfg env suppress now base cmd s
      = sbind (route_command cfg env final) (\<lambda>_ s3. if cy_alarm_mode cfg = ''per_device'' then handle_device_alarms cfg env s3 else (Inr (), s3)) s2"
      by (simp add: on_command_def sbind_def assms(1) g final_def s2_def Let_def)
    then have run: "(case r of Inl e \<Rightarrow> (Inl e, s3) | Inr _ \<Rightarrow> if cy_alarm_mode cfg = ''per_device'' then handle_device_alarms cfg env s3 else (Inr (), s3)) = (res, t)"
      using assms(4) r by (simp add: sbind_def)
    have "cs_router (snd (case r of Inl e \<Rightarrow> (Inl e, s3) | Inr _ \<Rightarrow> if c then handle_device_alarms cfg env s3 else (Inr (), s3))) = cs_router s3" for c
      using alarms_router [of cfg env s3] by (cases r) simp_all
    from this [of "cy_alarm_mode cfg = ''per_device''"] show ?thesis by (simp only: run snd_conv)
  qed
  ultimately show ?thesis by (simp add: final_def g)
qed


definition demo_config :: cycle_config where
  "demo_config = \<lparr>cy_mappings = demo_mappings, cy_capability_mappings = [], cy_distributor = None, cy_processors = [],
     cy_alarm_mode = ''per_device'', cy_alarm_key = ''system_alarm'', cy_alarm_callback = False, cy_clear_callback = True,
     cy_requirements = [], cy_strict = True, cy_read_triggers = [''a'', ''c'', ''b'']\<rparr>"

definition demo_cycle_env :: cycle_env where
  "demo_cycle_env = \<lparr>ce_router = demo_env, ce_latest = (\<lambda>_. []), ce_read_slots = (\<lambda>_. []), ce_stop_action = (\<lambda>_. True), ce_callback = (\<lambda>_. Inr ())\<rparr>"

definition demo_soc_rule :: protection_rule where
  "demo_soc_rule = \<lparr>rule_kind = DynamicSOCProtection (FromParams 0 ''soc_max'' ''soc_min'' (Fin 0)), is_triggered = False\<rparr>"

definition demo_full :: strategy_context where
  "demo_full = default_context\<lparr>ctx_soc := Some (Fin 92)\<rparr>"

definition demo_system :: "string list \<Rightarrow> control_system" where
  "demo_system alarmed = \<lparr>cs_controller = demo_controller [], cs_guard = guard_init [demo_soc_rule], cs_router = router_init,
     cs_cached = Some demo_full, cs_overrides = [], cs_override_states = [], cs_alarmed = alarmed, cs_alarm_calls = []\<rparr>"

definition demo_cycle :: "command \<Rightarrow> (unit res \<times> control_system)" where
  "demo_cycle cmd = on_command (\<lambda>_. params_init [(''soc_max'', PyInt 90)]) demo_config demo_cycle_env (\<lambda>_. False) 0 (Inr demo_full) cmd (demo_system [])"


text \<open>What a processor makes of the protected command is not protected again.\<close>

lemma processors_unprotected:
  "cy_processors cfg = [\<lambda>c ctx. Inr wish] \<Longrightarrow> run_processors cfg ctx (protected_command (fst (guard_apply store g cmd ctx))) = wish"
  by (simp add: run_processors_def)

section \<open>Device alarms\<close>

definition alarm_calls_of :: "cycle_config \<Rightarrow> cycle_env \<Rightarrow> string list \<Rightarrow> nat \<Rightarrow> alarm_call list" where
  "alarm_calls_of cfg env alarmed dev =
     (let d = env_store env dev in
      if dev_protected d \<and> dev_id d \<notin> set alarmed then (if cy_alarm_callback cfg then [CallAlarm dev] else if ce_stop_action env dev then [CallStop dev] else [])
      else if \<not> dev_protected d \<and> dev_id d \<in> set alarmed \<and> cy_clear_callback cfg then [CallClear dev] else [])"

lemma device_alarms_run:
  assumes "sfor (handle_device_alarm cfg env) ds s = (Inr (), t)" "distinct (map (\<lambda>d. dev_id (env_store env d)) ds)"
  shows "set (cs_alarmed t) = set (cs_alarmed s) - (\<lambda>d. dev_id (env_store env d)) ` {d \<in> set ds. \<not> dev_protected (env_store env d)}
      \<union> (\<lambda>d. dev_id (env_store env d)) ` {d \<in> set ds. dev_protected (env_store env d)}
    \<and> cs_alarm_calls t = cs_alarm_calls s @ concat (map (alarm_calls_of cfg env (cs_alarmed s)) ds)"
  using assms
proof (induction ds arbitrary: s)
  case (Cons d ds)
  obtain u where u: "handle_device_alarm cfg env d s = (Inr (), u)" "sfor (handle_device_alarm cfg env) ds u = (Inr (), t)"
    using Cons.prems(1) by (auto elim: sbind_InrE)
  have alarmed: "set (cs_alarmed u) = (if dev_protected (env_store env d) then insert (dev_id (env_store env d)) (set (cs_alarmed s))
      else set (cs_alarmed s) - {dev_id (env_store env d)})"
    and calls: "cs_alarm_calls u = cs_alarm_calls s @ alarm_calls_of cfg env (cs_alarmed s) d"
    using u(1) by (auto simp: handle_device_alarm_def alarm_calls_of_def Let_def set_add_def split: if_splits)
  have "dev_id (env_store env d) \<notin> (\<lambda>d. dev_id (env_store env d)) ` set ds" using Cons.prems(2) by simp
  then have other: "\<forall>d' \<in> set ds. dev_id (env_store env d') \<noteq> dev_id (env_store env d)" by (auto simp: image_iff)
  then have "map (alarm_calls_of cfg env (cs_alarmed u)) ds = map (alarm_calls_of cfg env (cs_alarmed s)) ds"
    using alarmed by (simp add: alarm_calls_of_def Let_def)
  moreover have "distinct (map (\<lambda>d. dev_id (env_store env d)) ds)" using Cons.prems(2) by simp
  note IH = Cons.IH [OF u(2) this]
  ultimately have "cs_alarm_calls t = cs_alarm_calls s @ concat (map (alarm_calls_of cfg env (cs_alarmed s)) (d # ds))"
    using calls by (simp only: list.map concat.simps append_assoc)
  moreover note IH [THEN conjunct1]
  ultimately show ?case using alarmed other by (auto split: if_splits)
qed (simp add: op_ret_def)

text \<open>
  C6. In the per-device mode a round of the device alarms that no callback interrupts leaves exactly the ids of the registered
  devices with a protection alarm in the set of alarmed ones, beside ids that are no longer registered, and calls for each
  device whose alarm has changed since the last round, and for no other, the configured reaction once.
\<close>

theorem device_alarms_exact:
  assumes "env_devices env = Inr ds" "distinct (map (\<lambda>d. dev_id (env_store env d)) ds)"
    and "handle_device_alarms cfg env s = (Inr (), t)" "d \<in> set ds"
  shows "(dev_id (env_store env d) \<in> set (cs_alarmed t) \<longleftrightarrow> dev_protected (env_store env d))
    \<and> cs_alarm_calls t = cs_alarm_calls s @ concat (map (alarm_calls_of cfg env (cs_alarmed s)) ds)"
proof -
  have run: "sfor (handle_device_alarm cfg env) ds s = (Inr (), t)" using assms(1,3) by (simp add: handle_device_alarms_def)
  have "inj_on (\<lambda>d. dev_id (env_store env d)) (set ds)" using assms(2) by (simp add: distinct_map)
  then show ?thesis using device_alarms_run [OF run assms(2)] assms(4) by (auto simp: inj_on_def)
qed

theorem device_alarms_exact_witness:
  "cs_alarm_calls (snd (handle_device_alarms demo_config demo_cycle_env (demo_system [''a'']))) = [CallClear 0, CallStop 1]
   \<and> cs_alarmed (snd (handle_device_alarms demo_config demo_cycle_env (demo_system [''a'']))) = [''b'']"
proof -
  have run: "handle_device_alarms demo_config demo_cycle_env (demo_system [''a''])
      = (Inr (), snd (handle_device_alarms demo_config demo_cycle_env (demo_system [''a''])))"
    by (simp add: prod_eq_iff) code_simp
  show ?thesis
    using device_alarms_exact [OF _ _ run, of "[0, 1]" 0]
    by (simp add: alarm_calls_of_def) code_simp
qed

section \<open>Start and stop\<close>

definition halted :: "lifecycle \<Rightarrow> bool" where
  "halted s \<longleftrightarrow> \<not> lf_feed s \<and> \<not> lf_refresh s \<and> \<not> lf_heartbeat s \<and> \<not> lf_task s \<and> lf_triggers s = [] \<and> lf_detachers s = []"

text \<open>Triggers are those attached at the start, and nothing runs that is not configured.\<close>

definition own_parts :: "lifecycle_env \<Rightarrow> lifecycle \<Rightarrow> bool" where
  "own_parts le s \<longleftrightarrow> set (lf_triggers s) \<subseteq> set (lf_detachers s) \<and> (lf_refresh s \<longrightarrow> le_has_refresh le) \<and> (lf_heartbeat s \<longrightarrow> le_has_heartbeat le)"

lemma detach_all_own: "own_parts le s \<Longrightarrow> own_parts le (detach_all s) \<and> lf_triggers (detach_all s) = []"
  by (auto simp: own_parts_def detach_all_def filter_empty_conv)

lemma attach_configured_own: "own_parts le s \<Longrightarrow> own_parts le (snd (attach_configured env le ids s))"
proof (induction ids arbitrary: s)
  case (Cons did ids)
  obtain x u where u: "attach_read_trigger env le did s = (x, u)" by fastforce
  have attached: "x = Inr () \<Longrightarrow> own_parts le (u\<lparr>lf_detachers := lf_detachers u @ [did]\<rparr>)" and failed: "x = Inl e \<Longrightarrow> u = s" for e
    using u Cons.prems by (auto simp: attach_read_trigger_def own_parts_def split: if_splits sum.splits)
  show ?case
  proof (cases x)
    case (Inl e)
    then have "u = s" by (rule failed)
    then show ?thesis using Cons.IH [OF Cons.prems] detach_all_own [OF Cons.prems] u Inl by simp
  next
    case (Inr y)
    then show ?thesis using Cons.IH [OF attached] u by simp
  qed
qed simp

lemma start_parts_own: "own_parts le s \<Longrightarrow> own_parts le (snd (start_parts cfg env le s))"
proof -
  have tail: "preserves (own_parts le) (attach_configured env le ids)" for ids
    by (rule preservesI) (use attach_configured_own [of le _ env ids] in force)
  have "preserves (own_parts le) (start_parts cfg env le)" unfolding start_parts_def
    by (intro preserves_sbind tail) (auto intro!: preservesI simp: own_parts_def op_res_def op_mod_def split: sum.splits if_splits)
  then show ?thesis if "own_parts le s"
    using preserves_run [of "own_parts le" _ s "fst (start_parts cfg env le s)" "snd (start_parts cfg env le s)"] that by simp
qed

lemma start_parts_running:
  assumes "start_parts cfg env le s = (Inr (), t)"
  shows "lf_task t \<and> (le_has_feed le \<longrightarrow> lf_feed t) \<and> (le_has_refresh le \<longrightarrow> lf_refresh t) \<and> (le_has_heartbeat le \<longrightarrow> lf_heartbeat t)"
proof -
  have keep: "lf_task (snd (attach_configured env le ids u)) = lf_task u \<and> lf_feed (snd (attach_configured env le ids u)) = lf_feed u
      \<and> lf_refresh (snd (attach_configured env le ids u)) = lf_refresh u \<and> lf_heartbeat (snd (attach_configured env le ids u)) = lf_heartbeat u" for ids u
    by (induction ids arbitrary: u) (auto simp: attach_read_trigger_def detach_all_def split: sum.split)
  show ?thesis using assms keep
    by (auto simp: start_parts_def sbind_def op_res_def op_mod_def split: if_splits sum.splits dest!: arg_cong [where f = snd])
qed

lemma stop_halts:
  assumes "own_parts le s" "le_heartbeat_stop le = Inr ()" "le_refresh_stop le = Inr ()"
  shows "halted (snd (system_stop le s))"
  using assms detach_all_own [OF assms(1)]
  by (auto simp: system_stop_def halted_def own_parts_def Let_def detach_all_def)


definition demo_parts :: "unit res \<Rightarrow> lifecycle_env" where
  "demo_parts sub = \<lparr>le_has_feed = True, le_has_refresh = True, le_has_heartbeat = True, le_processors_init = Inr (), le_refresh_start = Inr (),
     le_heartbeat_start = Inr (), le_subscribe = (\<lambda>d. if d = ''b'' then sub else Inr ()), le_task_end = Inr (), le_heartbeat_stop = Inr (), le_refresh_stop = Inr ()\<rparr>"

definition idle :: lifecycle where
  "idle = \<lparr>lf_feed = False, lf_refresh = False, lf_heartbeat = False, lf_task = False, lf_triggers = [], lf_detachers = []\<rparr>"


end
