(* ===== verification/Schedule_Service.thy ===== *)
theory Schedule_Service
  imports System_Controller Reconcilers "HOL-Library.List_Lexorder" "HOL-Library.Char_ord"
begin

text \<open>
  The schedule service of \<open>csp_lib/manager/schedule\<close>: rules and their repository, the matching of times and days,
  the strategy factory and the polling reconciler that keeps the schedule mode of the system controller on the
  winning rule. What the configuration of a strategy accepts, the id of the strategy built from it and the JSON text
  of a configuration are arguments.
\<close>

section \<open>Rules\<close>

datatype schedule_type = ONCE | DAILY | WEEKLY

datatype strategy_type = PQ | PV_SMOOTH | QV | FP | ISLAND | BYPASS | STOP

record schedule_rule =
  sr_name :: string
  sr_site :: string
  sr_schedule :: schedule_type
  sr_strategy :: strategy_type
  sr_config :: "(string \<times> pyval) list"
  sr_start_time :: string
  sr_end_time :: string
  sr_priority :: int
  sr_enabled :: bool
  sr_days :: "int list"
  sr_start_date :: "int option"
  sr_end_date :: "int option"

fun schedule_value :: "schedule_type \<Rightarrow> string" where
  "schedule_value ONCE = ''once''"
| "schedule_value DAILY = ''daily''"
| "schedule_value WEEKLY = ''weekly''"

fun strategy_value :: "strategy_type \<Rightarrow> string" where
  "strategy_value PQ = ''pq''"
| "strategy_value PV_SMOOTH = ''pv_smooth''"
| "strategy_value QV = ''qv''"
| "strategy_value FP = ''fp''"
| "strategy_value ISLAND = ''island''"
| "strategy_value BYPASS = ''bypass''"
| "strategy_value STOP = ''stop''"

section \<open>Matching\<close>

text \<open>Times are compared as text; a date is its ordinal, as \<open>date.toordinal\<close> counts.\<close>

definition matches_time :: "schedule_rule \<Rightarrow> string \<Rightarrow> bool" where
  "matches_time r now = (if sr_start_time r \<le> sr_end_time r then sr_start_time r \<le> now \<and> now \<le> sr_end_time r
     else sr_start_time r \<le> now \<or> now \<le> sr_end_time r)"

definition matches_schedule :: "schedule_rule \<Rightarrow> int \<Rightarrow> int \<Rightarrow> bool" where
  "matches_schedule r weekday date = (case sr_schedule r of
       DAILY \<Rightarrow> True
     | WEEKLY \<Rightarrow> weekday \<in> set (sr_days r)
     | ONCE \<Rightarrow> (case sr_start_date r of None \<Rightarrow> True | Some d \<Rightarrow> \<not> date < d)
         \<and> (case sr_end_date r of None \<Rightarrow> True | Some d \<Rightarrow> \<not> d < date))"

definition digit_char :: "nat \<Rightarrow> char" where
  "digit_char k = char_of (48 + k)"

text \<open>\<open>now.strftime("%H:%M")\<close> of a minute of the day, and the weekday of a date (0 is Monday).\<close>

definition hhmm :: "nat \<Rightarrow> string" where
  "hhmm m = [digit_char (m div 600), digit_char (m div 60 mod 10), CHR '':'', digit_char (m mod 60 div 10), digit_char (m mod 10)]"

definition weekday_of :: "int \<Rightarrow> int" where
  "weekday_of date = (date + 6) mod 7"

section \<open>The repository\<close>

type_synonym schedule_repository = "((string \<times> string) \<times> schedule_rule) list"

definition schedule_upsert :: "schedule_rule \<Rightarrow> schedule_repository \<Rightarrow> schedule_repository" where
  "schedule_upsert r repo = dict_set (sr_site r, sr_name r) r repo"

definition get_all_enabled :: "schedule_repository \<Rightarrow> string \<Rightarrow> schedule_rule list" where
  "get_all_enabled repo site = map snd (filter (\<lambda>(k, r). fst k = site \<and> sr_enabled r) repo)"

text \<open>\<open>sort(reverse=True)\<close> keeps the order of rules of the same priority.\<close>

definition find_active_rules :: "schedule_rule list \<Rightarrow> int \<Rightarrow> nat \<Rightarrow> schedule_rule list" where
  "find_active_rules enabled date minute =
     sort_key (\<lambda>r. - sr_priority r)
       (filter (\<lambda>r. matches_time r (hhmm minute) \<and> matches_schedule r (weekday_of date) date) enabled)"

section \<open>The factory\<close>

record strategy_factory =
  sf_pv_service :: bool
  sf_relay :: bool
  sf_accepts :: "strategy_type \<Rightarrow> (string \<times> pyval) list \<Rightarrow> unit res"
  sf_new :: "strategy_type \<Rightarrow> (string \<times> pyval) list \<Rightarrow> nat"

definition factory_create :: "strategy_factory \<Rightarrow> strategy_type \<Rightarrow> (string \<times> pyval) list \<Rightarrow> nat option res" where
  "factory_create f ty cfg =
     (let configured = rbind (sf_accepts f ty cfg) (\<lambda>_. Inr (Some (sf_new f ty cfg))) in
      case ty of
        PQ \<Rightarrow> configured
      | PV_SMOOTH \<Rightarrow> if \<not> sf_pv_service f then Inr None else configured
      | QV \<Rightarrow> configured
      | FP \<Rightarrow> configured
      | ISLAND \<Rightarrow> if \<not> sf_relay f then Inr None else configured
      | BYPASS \<Rightarrow> Inr (Some (sf_new f BYPASS []))
      | STOP \<Rightarrow> Inr (Some (sf_new f STOP [])))"

section \<open>The service\<close>

text \<open>\<open>str\<close> of an integer.\<close>

fun nat_str :: "nat \<Rightarrow> string" where
  "nat_str n = (if n < 10 then [digit_char n] else nat_str (n div 10) @ [digit_char (n mod 10)])"

definition int_str :: "int \<Rightarrow> string" where
  "int_str i = (if i < 0 then CHR ''-'' # nat_str (nat (- i)) else nat_str (nat i))"

definition make_rule_key :: "((string \<times> pyval) list \<Rightarrow> string) \<Rightarrow> schedule_rule \<Rightarrow> string" where
  "make_rule_key json r = sr_name r @ ''|'' @ schedule_value (sr_schedule r) @ ''|'' @ int_str (sr_priority r) @ ''|'' @ json (sr_config r)"

record schedule_service =
  sv_rule_key :: "string option"
  sv_controller :: controller

record schedule_env =
  sv_suppress :: "nat \<Rightarrow> bool"
  sv_factory :: strategy_factory
  sv_json :: "(string \<times> pyval) list \<Rightarrow> string"

definition schedule_work :: "schedule_env \<Rightarrow> schedule_rule list res \<Rightarrow> schedule_service \<Rightarrow> unit res \<times> (string \<times> pyval) list \<times> schedule_service" where
  "schedule_work env found s =
     (case found of Inl e \<Rightarrow> (Inl e, [], s)
      | Inr rules \<Rightarrow>
        let d0 = [(''rules_matched'', PyInt (int (length rules)))] in
        case rules of
          [] \<Rightarrow> (if sv_rule_key s \<noteq> None then
              (case deactivate_schedule_mode (sv_suppress env) (sv_controller s) of
                 Inl e \<Rightarrow> (Inl e, d0, s)
               | Inr (sc, effs) \<Rightarrow> (Inr (), d0 @ [(''action'', PyStr ''deactivated'')], \<lparr>sv_rule_key = None, sv_controller = sc\<rparr>))
            else (Inr (), d0 @ [(''action'', PyStr ''no_match'')], s))
        | r # rs \<Rightarrow>
            let key = make_rule_key (sv_json env) r; d1 = d0 @ [(''rule_name'', PyStr (sr_name r))] in
            if Some key = sv_rule_key s then (Inr (), d1 @ [(''action'', PyStr ''unchanged'')], s)
            else (case factory_create (sv_factory env) (sr_strategy r) (sr_config r) of
                Inl e \<Rightarrow> (Inl e, d1, s)
              | Inr None \<Rightarrow> (Inr (), d1 @ [(''action'', PyStr ''factory_failed'')], s)
              | Inr (Some strategy) \<Rightarrow>
                  (case activate_schedule_mode (sv_suppress env) (sv_controller s) strategy
                          (sr_name r @ '' ('' @ strategy_value (sr_strategy r) @ '')'') of
                     Inl e \<Rightarrow> (Inl e, d1, s)
                   | Inr (sc, effs) \<Rightarrow> (Inr (), d1 @ [(''action'', PyStr ''switched''), (''rule_key'', PyStr key)],
                       \<lparr>sv_rule_key = Some key, sv_controller = sc\<rparr>))))"

text \<open>One round of the polling loop; a node that is not the leader skips it.\<close>

definition poll_round :: "schedule_env \<Rightarrow> bool option \<Rightarrow> rat \<Rightarrow> schedule_rule list res \<Rightarrow> reconciler \<times> schedule_service \<Rightarrow> reconciler \<times> schedule_service" where
  "poll_round env gate now found hs = (if gate = Some False then hs else reconcile_once now (schedule_work env found) hs)"

section \<open>The time window\<close>

lemma digit_order: "a < 10 \<Longrightarrow> b < 10 \<Longrightarrow> (digit_char a < digit_char b \<longleftrightarrow> a < b) \<and> (digit_char a = digit_char b \<longleftrightarrow> a = b)"
proof -
  assume ab: "a < 10" "b < 10"
  have code: "of_char (digit_char k) = 48 + k" if "k < 10" for k :: nat
    using that by (simp add: digit_char_def of_char_of take_bit_eq_mod)
  have "digit_char a = digit_char b \<longleftrightarrow> (of_char (digit_char a) :: nat) = of_char (digit_char b)" by simp
  then show ?thesis using ab by (simp add: less_char_def code)
qed

lemma minutes_lexicographic:
  fixes a b c d a' b' c' d' :: nat
  assumes "b < 10" "c < 6" "d < 10" "b' < 10" "c' < 6" "d' < 10"
  shows "600 * a + 60 * b + 10 * c + d \<le> 600 * a' + 60 * b' + 10 * c' + d'
    \<longleftrightarrow> a < a' \<or> a = a' \<and> (b < b' \<or> b = b' \<and> (c < c' \<or> c = c' \<and> d \<le> d'))"
proof (cases a a' rule: linorder_cases)
  case equal
  then show ?thesis
  proof (cases b b' rule: linorder_cases)
    case eq: equal
    then show ?thesis using equal assms by (cases c c' rule: linorder_cases) simp_all
  qed (use assms in simp_all)
qed (use assms in simp_all)

lemma digits_order:
  assumes "a < 10" "b < 10" "c < 10" "c < 6" "d < 10" "a' < 10" "b' < 10" "c' < 10" "c' < 6" "d' < 10"
  shows "[digit_char a, digit_char b, CHR '':'', digit_char c, digit_char d] \<le> [digit_char a', digit_char b', CHR '':'', digit_char c', digit_char d']
    \<longleftrightarrow> 600 * a + 60 * b + 10 * c + d \<le> 600 * a' + 60 * b' + 10 * c' + d'"
proof -
  have last: "[digit_char d] \<le> [digit_char d'] \<longleftrightarrow> d \<le> d'"
    using digit_order [OF assms(5,10)] by auto
  show ?thesis
    unfolding minutes_lexicographic [OF assms(2,4,5,7,9,10)]
    using last digit_order [OF assms(1,6)] digit_order [OF assms(2,7)] digit_order [OF assms(3,8)] by simp
qed

lemma hhmm_order:
  assumes "s < 1440" "t < 1440"
  shows "hhmm s \<le> hhmm t \<longleftrightarrow> s \<le> t"
proof -
  have hours: "m div 600 = m div 60 div 10" "m mod 10 = m mod 60 mod 10" for m :: nat
    by (simp_all add: div_mult2_eq [symmetric] mod_mod_cancel)
  have compose: "m = x * 60 + y \<Longrightarrow> x = u * 10 + v \<Longrightarrow> y = w * 10 + z \<Longrightarrow> m = 600 * u + 60 * v + 10 * w + z" for m x y u v w z :: nat
    by simp
  have split: "m = 600 * (m div 600) + 60 * (m div 60 mod 10) + 10 * (m mod 60 div 10) + m mod 10" for m :: nat
    using compose [OF div_mult_mod_eq [of m 60, symmetric] div_mult_mod_eq [of "m div 60" 10, symmetric] div_mult_mod_eq [of "m mod 60" 10, symmetric]]
    by (simp only: hours [of m])
  have tens: "m mod 60 div 10 < 6" for m :: nat by (rule less_mult_imp_div_less) simp
  have small: "m div 600 < 10" "m div 60 mod 10 < 10" "m mod 60 div 10 < 10" "m mod 60 div 10 < 6" "m mod 10 < 10" if "m < 1440" for m :: nat
  proof -
    have "m < 10 * 600" using that by linarith
    then show "m div 600 < 10" by (rule less_mult_imp_div_less)
    show "m mod 60 div 10 < 10" by (rule less_trans [OF tens]) simp
    show "m div 60 mod 10 < 10" "m mod 10 < 10" by (rule mod_less_divisor, rule zero_less_numeral)+
  qed (rule tens)
  note s = small [OF assms(1)] and t = small [OF assms(2)]
  have "hhmm s \<le> hhmm t \<longleftrightarrow> 600 * (s div 600) + 60 * (s div 60 mod 10) + 10 * (s mod 60 div 10) + s mod 10
      \<le> 600 * (t div 600) + 60 * (t div 60 mod 10) + 10 * (t mod 60 div 10) + t mod 10"
    unfolding hhmm_def by (rule digits_order [OF s t])
  then show ?thesis by (simp only: split [symmetric])
qed

text \<open>
  A rule whose times are written HH:MM is active exactly in the cyclic interval of minutes from its start to its
  end, both included, also across midnight: the minutes since the start, around the clock, are at most
  the length of the interval. The comparison of texts is this comparison of minutes.
\<close>

theorem time_window_exact:
  assumes "sr_start_time r = hhmm s" "sr_end_time r = hhmm e" "s < 1440" "e < 1440" "n < 1440"
  shows "matches_time r (hhmm n) \<longleftrightarrow> (n + 1440 - s) mod 1440 \<le> (e + 1440 - s) mod 1440"
proof -
  have "matches_time r (hhmm n) \<longleftrightarrow> (if s \<le> e then s \<le> n \<and> n \<le> e else s \<le> n \<or> n \<le> e)"
    using assms by (simp add: matches_time_def hhmm_order)
  moreover have "(m + 1440 - s) mod 1440 = (if s \<le> m then m - s else m + 1440 - s)" if "m < 1440" for m
    using that assms(3) by (auto simp: mod_if)
  ultimately show ?thesis using assms(3-5) by auto
qed

definition demo_rule :: "string \<Rightarrow> strategy_type \<Rightarrow> int \<Rightarrow> schedule_rule" where
  "demo_rule name ty prio = \<lparr>sr_name = name, sr_site = ''s'', sr_schedule = DAILY, sr_strategy = ty, sr_config = [],
     sr_start_time = ''22:00'', sr_end_time = ''06:00'', sr_priority = prio, sr_enabled = True, sr_days = [0], sr_start_date = None, sr_end_date = None\<rparr>"

theorem time_window_exact_witness:
  "matches_time (demo_rule ''night'' STOP 1) (hhmm 90) \<and> \<not> matches_time (demo_rule ''night'' STOP 1) (hhmm 720)"
proof -
  have times: "sr_start_time (demo_rule ''night'' STOP 1) = hhmm 1320" "sr_end_time (demo_rule ''night'' STOP 1) = hhmm 360"
    by code_simp+
  show ?thesis using time_window_exact [OF times, of 90] time_window_exact [OF times, of 720] by simp
qed

text \<open>
  A weekly rule across midnight: the weekday is that of the moment, so the hours after midnight belong to the day
  of the rule itself and not to the night that began on it.
\<close>

lemma weekly_night_split:
  assumes "r = (demo_rule ''night'' STOP 1)\<lparr>sr_schedule := WEEKLY\<rparr>"
  shows "weekday_of 1 = 0 \<and> r \<in> set (find_active_rules [r] 1 120) \<and> r \<notin> set (find_active_rules [r] 2 120)"
  unfolding assms by code_simp

section \<open>The schedule mode follows the rules\<close>

text \<open>What the schedule mode runs, and whether it is a base mode.\<close>

definition schedule_entry :: "controller \<Rightarrow> nat option" where
  "schedule_entry sc = map_option md_strategy (dict_get (mm_modes (sc_modes sc)) schedule_mode)"

definition schedule_on :: "controller \<Rightarrow> bool" where
  "schedule_on sc \<longleftrightarrow> schedule_mode \<in> set (mm_bases (sc_modes sc))"

lemma base_names: "mm_inv mm \<Longrightarrow> set (base_mode_names mm) = set (mm_bases mm)"
proof -
  assume inv: "mm_inv mm"
  have named: "dict_get (mm_modes mm) n = Some m \<Longrightarrow> md_name m = n" for n m
    using inv by (auto simp: mm_inv_def list_all_iff dest: map_of_SomeD)
  have known: "n \<in> set (mm_bases mm) \<Longrightarrow> \<exists>m. dict_get (mm_modes mm) n = Some m" for n
    using inv dict_key_mem [of "mm_modes mm" n] by (auto simp: mm_inv_def)
  show ?thesis
    by (auto simp: base_mode_names_def sorted_bases_def map_filter_def named image_iff) (metis known named option.sel)
qed

lemma mode_op_modes: "mode_op suppress sc r = Inr (sc', effs) \<Longrightarrow> \<exists>mm' es. r = Inr (mm', es) \<and> sc_modes sc' = mm'"
  using fold_run_effect_overrides by (fastforce simp: mode_op_def res_simps dest: arg_cong [where f = "\<lambda>x. sc_modes (fst x)"])

lemma mode_op_runs: "\<exists>sc' effs. mode_op suppress sc (Inr (mm', es)) = Inr (sc', effs) \<and> sc_modes sc' = mm'"
  using fold_run_effect_overrides [of suppress es "(sc\<lparr>sc_modes := mm'\<rparr>, [])"]
  by (cases "fold (run_effect suppress) es (sc\<lparr>sc_modes := mm'\<rparr>, [])") (simp add: mode_op_def)

definition takes_on :: "controller \<Rightarrow> nat \<Rightarrow> bool" where
  "takes_on sc st \<longleftrightarrow> mm_inv (sc_modes sc) \<and> schedule_on sc \<and> schedule_entry sc = Some st"

lemma add_schedule_base:
  assumes "mm_inv (sc_modes sc)" "schedule_entry sc = Some st"
  shows "\<exists>sc' effs. mode_op suppress sc (add_base_mode (sc_modes sc) schedule_mode src) = Inr (sc', effs) \<and> takes_on sc' st"
proof -
  obtain mm' es where add: "add_base_mode (sc_modes sc) schedule_mode src = Inr (mm', es)"
    "mm_modes mm' = mm_modes (sc_modes sc)" "schedule_mode \<in> set (mm_bases mm')"
    using assms(2) by (cases "schedule_mode \<in> set (mm_bases (sc_modes sc))") (auto simp: add_base_mode_def schedule_entry_def switched_def)
  have "mm_inv mm'" using mm_inv_exec [OF assms(1), of "AddBase schedule_mode src"] add(1) by simp
  then show ?thesis
    using mode_op_runs [of suppress sc mm' es] add assms(2)
    by (fastforce simp: takes_on_def schedule_on_def schedule_entry_def)
qed

lemma activate_takes_on:
  assumes "mm_inv (sc_modes sc)" "activate_schedule_mode suppress sc st desc = Inr (sc', effs)"
  shows "takes_on sc' st"
proof (cases "dict_get (mm_modes (sc_modes sc)) schedule_mode")
  case None
  then obtain sc1 es where reg: "mode_op suppress sc (mm_register (sc_modes sc) schedule_mode st priority_schedule desc) = Inr (sc1, es)"
    and add: "seq_op suppress (Inr (sc1, es)) (\<lambda>sc. add_base_mode (sc_modes sc) schedule_mode (Some SCHEDULE)) = Inr (sc', effs)"
    using assms(2) by (auto simp: activate_schedule_mode_def seq_op_def res_simps)
  from mode_op_modes [OF reg] obtain mm1 es1 where mm1: "mm_register (sc_modes sc) schedule_mode st priority_schedule desc = Inr (mm1, es1)" "sc_modes sc1 = mm1" by blast
  have "mm_inv (sc_modes sc1)" using mm_inv_exec [OF assms(1), of "Register schedule_mode st priority_schedule desc"] mm1 by simp
  moreover have "map_option md_strategy (dict_get (mm_modes mm1) schedule_mode) = Some st" using mm1(1) None by (auto simp: mm_register_def map_of_dict_set)
  ultimately show ?thesis using add_schedule_base [of sc1 st suppress "Some SCHEDULE"] add mm1(2) by (auto simp: seq_op_def schedule_entry_def)
next
  case (Some m)
  obtain sc1 es where upd: "mode_op suppress sc (update_mode_strategy (sc_modes sc) schedule_mode st (Some SCHEDULE) (Some desc)) = Inr (sc1, es)"
    and rest: "(if schedule_mode \<notin> set (base_mode_names (sc_modes sc1))
        then seq_op suppress (Inr (sc1, es)) (\<lambda>sc. add_base_mode (sc_modes sc) schedule_mode (Some SCHEDULE)) else Inr (sc1, es)) = Inr (sc', effs)"
    using assms(2) Some by (auto simp: activate_schedule_mode_def res_simps split: if_splits)
  from mode_op_modes [OF upd] obtain mm1 es1 where mm1: "update_mode_strategy (sc_modes sc) schedule_mode st (Some SCHEDULE) (Some desc) = Inr (mm1, es1)" "sc_modes sc1 = mm1" by blast
  have inv: "mm_inv (sc_modes sc1)" using mm_inv_exec [OF assms(1), of "UpdateStrategy schedule_mode st (Some SCHEDULE) (Some desc)"] mm1 by simp
  have "map_option md_strategy (dict_get (mm_modes mm1) schedule_mode) = Some st"
    using mm1(1) Some by (auto simp: update_mode_strategy_def map_of_dict_set Let_def)
  then have entry: "schedule_entry sc1 = Some st" using mm1(2) by (simp add: schedule_entry_def)
  show ?thesis
  proof (cases "schedule_mode \<in> set (mm_bases (sc_modes sc1))")
    case True
    then show ?thesis using rest base_names [OF inv] inv entry by (simp add: takes_on_def schedule_on_def)
  next
    case False
    then show ?thesis using rest base_names [OF inv] add_schedule_base [OF inv entry, of suppress "Some SCHEDULE"] by (auto simp: seq_op_def)
  qed
qed

lemma deactivate_takes_off:
  assumes "mm_inv (sc_modes sc)" "deactivate_schedule_mode suppress sc = Inr (sc', effs)"
  shows "mm_inv (sc_modes sc') \<and> \<not> schedule_on sc'"
proof (cases "schedule_on sc")
  case True
  then obtain mm1 es1 where mm1: "remove_base_mode (sc_modes sc) schedule_mode None = Inr (mm1, es1)" "sc_modes sc' = mm1"
    using assms base_names [OF assms(1)] mode_op_modes by (fastforce simp: deactivate_schedule_mode_def schedule_on_def)
  have "mm_inv mm1" using mm_inv_exec [OF assms(1), of "RemoveBase schedule_mode None"] mm1 by simp
  moreover have "schedule_mode \<notin> set (mm_bases mm1)"
    using mm1(1) assms(1) by (auto simp: remove_base_mode_def switched_def mm_inv_def split: if_splits)
  ultimately show ?thesis using mm1 by (simp add: schedule_on_def)
qed (use assms base_names [OF assms(1)] in \<open>auto simp: deactivate_schedule_mode_def schedule_on_def\<close>)

text \<open>Operations of others on the modes that leave the schedule mode and the set of bases around it alone.\<close>

fun foreign :: "mm_op \<Rightarrow> bool" where
  "foreign (Register n s p d) = (n \<noteq> schedule_mode)"
| "foreign (Unregister n) = (n \<noteq> schedule_mode)"
| "foreign (SetBase n src) = False"
| "foreign (AddBase n src) = (n \<noteq> schedule_mode)"
| "foreign (RemoveBase n src) = (n \<noteq> schedule_mode)"
| "foreign (UpdateStrategy n s src d) = (n \<noteq> schedule_mode)"
| "foreign (AsyncUnregister n src) = (n \<noteq> schedule_mode)"
| "foreign _ = True"

lemma foreign_keeps:
  assumes "foreign e" "mm_inv (sc_modes sc)"
  shows "mm_inv (sc_modes (sc_step suppress e sc)) \<and> schedule_on (sc_step suppress e sc) = schedule_on sc
    \<and> schedule_entry (sc_step suppress e sc) = schedule_entry sc"
proof (cases "mm_exec e (sc_modes sc)")
  case (Inr r)
  obtain mm' es where r: "r = (mm', es)" by fastforce
  then have "mm_inv mm'" using mm_inv_exec [OF assms(2)] Inr by blast
  moreover have "schedule_mode \<in> set (mm_bases mm') \<longleftrightarrow> schedule_mode \<in> set (mm_bases (sc_modes sc))"
    "dict_get (mm_modes mm') schedule_mode = dict_get (mm_modes (sc_modes sc)) schedule_mode"
    using assms Inr r
    by (cases e; auto simp: mm_op_defs map_of_dict_set delete_conv' res_simps split: option.splits if_splits dest: in_remove1D)+
  moreover have "sc_modes (sc_step suppress e sc) = mm'"
    using mode_op_runs [of suppress sc mm' es] Inr r by (auto simp: sc_step_def)
  ultimately show ?thesis by (simp add: schedule_on_def schedule_entry_def)
qed (use assms(2) in \<open>simp add: sc_step_def mode_op_def\<close>)

datatype schedule_event = Poll "bool option" rat "schedule_rule list res" | Modes mm_op

fun schedule_step :: "schedule_env \<Rightarrow> schedule_event \<Rightarrow> reconciler \<times> schedule_service \<Rightarrow> reconciler \<times> schedule_service" where
  "schedule_step env (Poll gate now found) hs = poll_round env gate now found hs"
| "schedule_step env (Modes e) (h, s) = (h, s\<lparr>sv_controller := sc_step (sv_suppress env) e (sv_controller s)\<rparr>)"

fun allowed_event :: "schedule_event \<Rightarrow> bool" where
  "allowed_event (Poll gate now found) = True"
| "allowed_event (Modes e) = foreign e"

fun event_rules :: "schedule_event \<Rightarrow> schedule_rule set" where
  "event_rules (Poll gate now found) = (case found of Inl e \<Rightarrow> {} | Inr rules \<Rightarrow> set rules)"
| "event_rules (Modes e) = {}"

definition polled :: "schedule_event list \<Rightarrow> schedule_rule set" where
  "polled es = \<Union> (event_rules ` set es)"

text \<open>The remembered key is that of a rule from \<open>R\<close>, and the mode runs a strategy made for that rule.\<close>

definition follows_rules :: "schedule_env \<Rightarrow> schedule_rule set \<Rightarrow> schedule_service \<Rightarrow> bool" where
  "follows_rules env R s \<longleftrightarrow> mm_inv (sc_modes (sv_controller s)) \<and> (case sv_rule_key s of
       None \<Rightarrow> \<not> schedule_on (sv_controller s)
     | Some k \<Rightarrow> \<exists>r \<in> R. make_rule_key (sv_json env) r = k
         \<and> (\<exists>st. factory_create (sv_factory env) (sr_strategy r) (sr_config r) = Inr (Some st) \<and> takes_on (sv_controller s) st))"

lemma follows_rules_mono: "follows_rules env R s \<Longrightarrow> R \<subseteq> R' \<Longrightarrow> follows_rules env R' s"
  by (auto simp: follows_rules_def split: option.splits)

lemma schedule_work_follows:
  assumes "follows_rules env R s" "\<forall>rules. found = Inr rules \<longrightarrow> set rules \<subseteq> R"
  shows "follows_rules env R (snd (snd (schedule_work env found s)))"
proof (cases found)
  case (Inr rules)
  show ?thesis
  proof (cases rules)
    case Nil
    show ?thesis
    proof (cases "sv_rule_key s = None \<or> isl (deactivate_schedule_mode (sv_suppress env) (sv_controller s))")
      case False
      then obtain sc effs where "deactivate_schedule_mode (sv_suppress env) (sv_controller s) = Inr (sc, effs)"
        by (cases "deactivate_schedule_mode (sv_suppress env) (sv_controller s)") auto
      then show ?thesis using False Inr Nil assms(1) deactivate_takes_off [of "sv_controller s" "sv_suppress env" sc effs]
        by (auto simp: schedule_work_def follows_rules_def Let_def)
    qed (use Inr Nil assms(1) in \<open>auto simp: schedule_work_def Let_def split: sum.split\<close>)
  next
    case (Cons r rs)
    have r: "r \<in> R" using assms(2) Inr Cons by auto
    let ?made = "factory_create (sv_factory env) (sr_strategy r) (sr_config r)"
    show ?thesis
    proof (cases "\<exists>st sc effs. ?made = Inr (Some st) \<and> Some (make_rule_key (sv_json env) r) \<noteq> sv_rule_key s
        \<and> activate_schedule_mode (sv_suppress env) (sv_controller s) st (sr_name r @ '' ('' @ strategy_value (sr_strategy r) @ '')'') = Inr (sc, effs)")
      case True
      then obtain st sc effs where made: "?made = Inr (Some st)" "Some (make_rule_key (sv_json env) r) \<noteq> sv_rule_key s"
        and on: "activate_schedule_mode (sv_suppress env) (sv_controller s) st (sr_name r @ '' ('' @ strategy_value (sr_strategy r) @ '')'') = Inr (sc, effs)"
        by blast
      have "takes_on sc st" using activate_takes_on [OF _ on] assms(1) by (auto simp: follows_rules_def)
      then show ?thesis using made on r Inr Cons
        by (auto simp: schedule_work_def follows_rules_def Let_def takes_on_def intro!: bexI [of _ r])
    next
      case False
      then have "snd (snd (schedule_work env found s)) = s"
        using Inr Cons by (auto simp: schedule_work_def Let_def split: sum.split option.split)
      then show ?thesis using assms(1) by simp
    qed
  qed
qed (use assms(1) in \<open>simp add: schedule_work_def\<close>)

lemma schedule_step_follows:
  assumes "follows_rules env R (snd hs)" "allowed_event e" "event_rules e \<subseteq> R"
  shows "follows_rules env R (snd (schedule_step env e hs))"
proof (cases e)
  case (Poll gate now found)
  have "\<forall>rules. found = Inr rules \<longrightarrow> set rules \<subseteq> R" using assms(3) Poll by auto
  note schedule_work_follows [OF assms(1) this]
  then show ?thesis
    using assms(1) Poll by (simp add: poll_round_def reconcile_once_def Let_def split_beta)
next
  case (Modes m)
  obtain h s where hs: "hs = (h, s)" by fastforce
  have "mm_inv (sc_modes (sv_controller s))" using assms(1) hs by (simp add: follows_rules_def)
  with assms(2) Modes have "foreign m" "mm_inv (sc_modes (sv_controller s))" by simp_all
  from foreign_keeps [OF this, of "sv_suppress env"] show ?thesis
    using assms(1) hs Modes by (auto simp: follows_rules_def takes_on_def split: option.splits)
qed

lemma schedule_run_follows:
  "follows_rules env R (snd hs) \<Longrightarrow> list_all allowed_event es \<Longrightarrow> polled es \<subseteq> R \<Longrightarrow> follows_rules env R (snd (run_steps (schedule_step env) es hs))"
proof (induction es arbitrary: hs)
  case (Cons e es)
  have "event_rules e \<subseteq> R" "polled es \<subseteq> R" using Cons.prems(3) by (auto simp: polled_def)
  then show ?case using Cons schedule_step_follows [of env R hs e] by simp
qed simp

lemma winning_rule:
  assumes "find_active_rules enabled date minute = r # rs"
  shows "r \<in> set enabled \<and> matches_time r (hhmm minute) \<and> matches_schedule r (weekday_of date) date
    \<and> (\<forall>r' \<in> set enabled. matches_time r' (hhmm minute) \<and> matches_schedule r' (weekday_of date) date \<longrightarrow> sr_priority r' \<le> sr_priority r)"
proof -
  let ?active = "filter (\<lambda>r. matches_time r (hhmm minute) \<and> matches_schedule r (weekday_of date) date) enabled"
  have all: "set (r # rs) = set ?active" using assms by (metis find_active_rules_def set_sort)
  have "sorted (map (\<lambda>r. - sr_priority r) (r # rs))" using assms by (metis find_active_rules_def sorted_sort_key)
  then have "\<forall>r' \<in> set (r # rs). sr_priority r' \<le> sr_priority r" by auto
  then have "\<forall>r' \<in> set ?active. sr_priority r' \<le> sr_priority r" unfolding all .
  moreover have "r \<in> set ?active" unfolding all [symmetric] by simp
  ultimately show ?thesis by simp
qed


definition demo_schedule_env :: schedule_env where
  "demo_schedule_env = \<lparr>sv_suppress = (\<lambda>_. False), 
     sv_factory = \<lparr>sf_pv_service = False, sf_relay = False, sf_accepts = (\<lambda>_ _. Inr ()), sf_new = (\<lambda>ty _. if ty = STOP then 7 else 3)\<rparr>,
     sv_json = (\<lambda>_. ''{}'')\<rparr>"

definition demo_schedule :: "schedule_event list \<Rightarrow> reconciler \<times> schedule_service" where
  "demo_schedule es = run_steps (schedule_step demo_schedule_env) es (init_reconciler ''s'', \<lparr>sv_rule_key = None, sv_controller = demo_controller []\<rparr>)"

definition demo_night :: "schedule_rule list" where
  "demo_night = [demo_rule ''idle'' BYPASS 1, demo_rule ''night'' STOP 5]"


text \<open>The key leaves the kind of strategy out: editing only the kind of a rule does not switch.\<close>

lemma kind_not_in_key:
  "schedule_entry (sv_controller (snd (demo_schedule [Poll None 0 (Inr [demo_rule ''a'' BYPASS 1]), Poll None 30 (Inr [demo_rule ''a'' STOP 1])]))) = Some 3"
  by code_simp

text \<open>An operator who sets another base mode drops the schedule mode until the winning rule changes.\<close>

lemma set_base_drops_schedule:
  "\<not> schedule_on (sv_controller (snd (demo_schedule [Poll None 0 (Inr [demo_rule ''a'' STOP 1]), Modes (SetBase None None), Poll None 30 (Inr [demo_rule ''a'' STOP 1])])))"
  by code_simp

end
