(* ===== verification/Command_Manager.thy ===== *)
theory Command_Manager
  imports Gateway_Writes Transport
begin

text \<open>
  The write commands of \<open>csp_lib/manager/command\<close>: the records of the audit trail and their repository in memory,
  the manager with its leader gate, device table and validation rules, and the adapter that turns messages of a Redis channel
  into commands. A call of a device is a suspension point: an execution is its part before the write and its part
  after it, and other executions may run between the two. Fresh ids, the clock and what devices answer are arguments; the log
  of the calls of devices and of their answers is kept beside the state of the code.
\<close>

section \<open>Commands and records\<close>

datatype command_source = REDIS_PUBSUB | GRPC | REST_API | INTERNAL

datatype command_status = PENDING | EXECUTING | SUCCESS | FAILED | DEVICE_NOT_FOUND | VALIDATION_FAILED

definition terminal_statuses :: "command_status list" where
  "terminal_statuses = [SUCCESS, FAILED, DEVICE_NOT_FOUND, VALIDATION_FAILED]"

record write_command =
  wc_command_id :: string
  wc_device_id :: string
  wc_point_name :: string
  wc_value :: pyval
  wc_source :: command_source
  wc_source_info :: "(string \<times> pyval) list"
  wc_verify :: bool
  wc_timestamp :: rat

datatype command_outcome =
    Written write_result
  | Rejected pyval

record command_record =
  cr_command_id :: string
  cr_device_id :: string
  cr_point_name :: string
  cr_value :: pyval
  cr_source :: command_source
  cr_source_info :: "(string \<times> pyval) list"
  cr_status :: command_status
  cr_result :: "command_outcome option"
  cr_timestamp :: rat
  cr_executed_at :: "rat option"
  cr_completed_at :: "rat option"

definition record_of_command :: "write_command \<Rightarrow> command_record" where
  "record_of_command c = \<lparr>cr_command_id = wc_command_id c, cr_device_id = wc_device_id c, cr_point_name = wc_point_name c,
     cr_value = wc_value c, cr_source = wc_source c, cr_source_info = wc_source_info c, cr_status = PENDING, cr_result = None,
     cr_timestamp = wc_timestamp c, cr_executed_at = None, cr_completed_at = None\<rparr>"

section \<open>The repository\<close>

text \<open>The records in the order of their creation; an update looks for the first one with the id.\<close>

definition set_status :: "rat \<Rightarrow> command_status \<Rightarrow> command_outcome option \<Rightarrow> command_record \<Rightarrow> command_record" where
  "set_status now st res r =
     (let r1 = r\<lparr>cr_status := st\<rparr>;
          r2 = (if st = EXECUTING then r1\<lparr>cr_executed_at := Some now\<rparr>
                else if st \<in> set terminal_statuses then r1\<lparr>cr_completed_at := Some now\<rparr> else r1)
      in case res of None \<Rightarrow> r2 | Some x \<Rightarrow> r2\<lparr>cr_result := Some x\<rparr>)"

fun update_status :: "string \<Rightarrow> (command_record \<Rightarrow> command_record) \<Rightarrow> command_record list \<Rightarrow> command_record list" where
  "update_status cid f [] = []"
| "update_status cid f (r # rs) = (if cr_command_id r = cid then f r # rs else r # update_status cid f rs)"

definition list_by_device :: "command_record list \<Rightarrow> string \<Rightarrow> nat \<Rightarrow> command_record list" where
  "list_by_device rs did limit = take limit (sort_key (\<lambda>r. - cr_timestamp r) (filter (\<lambda>r. cr_device_id r = did) rs))"

section \<open>The manager\<close>

type_synonym validation_rule = "string \<Rightarrow> pyval \<Rightarrow> validation_result res"

record command_manager =
  cm_records :: "command_record list"
  cm_devices :: "(string \<times> nat) list"
  cm_leader :: "bool option"
  cm_rules_global :: "validation_rule list"
  cm_rules_by_point :: "(string \<times> validation_rule) list"
  cm_flight :: "(write_command \<times> nat) list"
  cm_writes :: "(string \<times> nat \<times> string \<times> pyval) list"
  cm_answers :: "(string \<times> write_result res) list"

definition manager_init :: "bool option \<Rightarrow> validation_rule list \<Rightarrow> (string \<times> validation_rule) list \<Rightarrow> command_manager" where
  "manager_init gate global by_point = \<lparr>cm_records = [], cm_devices = [], cm_leader = gate, cm_rules_global = global,
     cm_rules_by_point = by_point, cm_flight = [], cm_writes = [], cm_answers = []\<rparr>"

definition register_device :: "string \<Rightarrow> nat \<Rightarrow> command_manager \<Rightarrow> command_manager" where
  "register_device did dev m = m\<lparr>cm_devices := dict_set did dev (cm_devices m)\<rparr>"

definition unregister_device :: "string \<Rightarrow> command_manager \<Rightarrow> command_manager" where
  "unregister_device did m = m\<lparr>cm_devices := dict_del did (cm_devices m)\<rparr>"

definition put_status :: "rat \<Rightarrow> string \<Rightarrow> command_status \<Rightarrow> command_outcome option \<Rightarrow> command_manager \<Rightarrow> command_manager" where
  "put_status now cid st res m = m\<lparr>cm_records := update_status cid (set_status now st res) (cm_records m)\<rparr>"

text \<open>The rules in order; \<open>Inr None\<close> is a rejection.\<close>

fun run_rules :: "validation_rule list \<Rightarrow> string \<Rightarrow> pyval \<Rightarrow> pyval option res" where
  "run_rules [] point v = Inr (Some v)"
| "run_rules (rule # rules) point v = rbind (rule point v) (\<lambda>(accepted, w). if accepted then run_rules rules point w else Inr None)"

definition applicable_rules :: "command_manager \<Rightarrow> string \<Rightarrow> validation_rule list" where
  "applicable_rules m point = cm_rules_global m @ (case dict_get (cm_rules_by_point m) point of None \<Rightarrow> [] | Some r \<Rightarrow> [r])"

definition run_validation :: "command_manager \<Rightarrow> write_command \<Rightarrow> write_command option res" where
  "run_validation m c = rbind (run_rules (applicable_rules m (wc_point_name c)) (wc_point_name c) (wc_value c)) (\<lambda>r.
     Inr (map_option (\<lambda>w. if \<not> py_eq w (wc_value c) then c\<lparr>wc_value := w\<rparr> else c) r))"

text \<open>Before the write: what the caller gets at once, or the command and the device that is being written.\<close>

datatype begun = Done write_result | Writing write_command nat

definition execute_begin :: "rat \<Rightarrow> write_command \<Rightarrow> (command_manager, begun) op" where
  "execute_begin now c m =
     (if cm_leader m = Some False then (Inl NotLeaderError, m)
      else let m1 = m\<lparr>cm_records := cm_records m @ [record_of_command c]\<rparr>; cid = wc_command_id c in
        case dict_get (cm_devices m1) (wc_device_id c) of
          None \<Rightarrow> (Inr (Done \<lparr>wr_status = WRITE_FAILED, wr_point_name = wc_point_name c, wr_value = wc_value c\<rparr>), put_status now cid DEVICE_NOT_FOUND None m1)
        | Some dev \<Rightarrow>
          (case run_validation m1 c of
             Inl e \<Rightarrow> (Inl e, m1)
           | Inr None \<Rightarrow> (Inr (Done \<lparr>wr_status = write_status.VALIDATION_FAILED, wr_point_name = wc_point_name c, wr_value = wc_value c\<rparr>),
                put_status now cid VALIDATION_FAILED (Some (Rejected (wc_value c))) m1)
           | Inr (Some c') \<Rightarrow> (let m2 = put_status now cid EXECUTING None m1 in
                (Inr (Writing c' dev), m2\<lparr>cm_flight := cm_flight m2 @ [(c', dev)],
                   cm_writes := cm_writes m2 @ [(wc_command_id c', dev, wc_point_name c', wc_value c')]\<rparr>))))"

text \<open>After the write.\<close>

definition execute_end :: "rat \<Rightarrow> write_command \<Rightarrow> write_result res \<Rightarrow> command_manager \<Rightarrow> write_result \<times> command_manager" where
  "execute_end now c outcome m =
     (let m1 = m\<lparr>cm_answers := cm_answers m @ [(wc_command_id c, outcome)]\<rparr>; cid = wc_command_id c in
      case outcome of
        Inl e \<Rightarrow> (\<lparr>wr_status = WRITE_FAILED, wr_point_name = wc_point_name c, wr_value = wc_value c\<rparr>, put_status now cid FAILED None m1)
      | Inr w \<Rightarrow> (w, put_status now cid (if wr_status w = write_status.SUCCESS then SUCCESS else FAILED) (Some (Written w)) m1))"

definition land :: "nat \<Rightarrow> command_manager \<Rightarrow> command_manager" where
  "land k m = m\<lparr>cm_flight := take k (cm_flight m) @ drop (Suc k) (cm_flight m)\<rparr>"

text \<open>A whole execution without another one in between.\<close>

definition execute :: "rat \<Rightarrow> rat \<Rightarrow> (nat \<Rightarrow> string \<Rightarrow> pyval \<Rightarrow> bool \<Rightarrow> write_result res) \<Rightarrow> write_command \<Rightarrow> (command_manager, write_result) op" where
  "execute now later dev_write c = sbind (execute_begin now c) (\<lambda>b m.
     case b of Done w \<Rightarrow> (Inr w, m)
     | Writing c' dev \<Rightarrow> (case execute_end later c' (dev_write dev (wc_point_name c') (wc_value c') (wc_verify c')) (land (length (cm_flight m) - 1) m) of
          (w, m') \<Rightarrow> (Inr w, m')))"

section \<open>The adapter\<close>

text \<open>A message: the fields of the JSON object that are there.\<close>

record command_message =
  ms_command_id :: "string option"
  ms_system_command :: "string option"
  ms_device_id :: "string option"
  ms_point_name :: "string option"
  ms_action :: "string option"
  ms_value :: "pyval option"
  ms_verify :: "bool option"

definition is_action_command :: "command_message \<Rightarrow> bool" where
  "is_action_command msg = (ms_action msg \<noteq> None \<and> ms_point_name msg = None)"

text \<open>\<open>WriteCommand.from_dict\<close> with the id and the time that stand in for missing ones.\<close>

definition write_from_message :: "string \<Rightarrow> rat \<Rightarrow> command_source \<Rightarrow> command_message \<Rightarrow> write_command res" where
  "write_from_message fresh now src msg =
     (case (ms_device_id msg, ms_point_name msg, ms_value msg) of
        (Some d, Some p, Some v) \<Rightarrow> Inr \<lparr>wc_command_id = (case ms_command_id msg of None \<Rightarrow> fresh | Some i \<Rightarrow> i), wc_device_id = d, wc_point_name = p,
           wc_value = v, wc_source = src, wc_source_info = [], wc_verify = (case ms_verify msg of None \<Rightarrow> False | Some b \<Rightarrow> b), wc_timestamp = now\<rparr>
      | _ \<Rightarrow> Inl KeyError)"

text \<open>The parameters of an action.\<close>

definition action_params :: "pyval option \<Rightarrow> (string \<times> pyval) list" where
  "action_params v = (case v of Some (PyDict d) \<Rightarrow> d | Some PyNone \<Rightarrow> [] | Some w \<Rightarrow> [(''value'', w)] | None \<Rightarrow> [])"

record command_result =
  re_command_id :: string
  re_device_id :: string
  re_status :: string
  re_action :: "string option"
  re_point_name :: "string option"
  re_value :: "pyval option"

fun write_status_value :: "write_status \<Rightarrow> string" where
  "write_status_value write_status.SUCCESS = ''success''"
| "write_status_value write_status.VALIDATION_FAILED = ''validation_failed''"
| "write_status_value WRITE_FAILED = ''write_failed''"
| "write_status_value VERIFICATION_FAILED = ''verification_failed''"

text \<open>The devices: what a write and an action answer (\<open>None\<close>: the device has no actions), and the orchestrator.\<close>

record adapter_env =
  ad_write :: "nat \<Rightarrow> string \<Rightarrow> pyval \<Rightarrow> bool \<Rightarrow> write_result res"
  ad_action :: "nat \<Rightarrow> (string \<Rightarrow> (string \<times> pyval) list \<Rightarrow> write_result res) option"
  ad_orchestrator :: "(string \<Rightarrow> string res) option"
  ad_fresh :: string
  ad_now :: rat

definition or_empty :: "string option \<Rightarrow> string" where
  "or_empty x = (case x of None \<Rightarrow> [] | Some s \<Rightarrow> s)"

definition adapter_write :: "adapter_env \<Rightarrow> command_message \<Rightarrow> (command_manager, command_result) op" where
  "adapter_write env msg m = (case write_from_message (ad_fresh env) (ad_now env) REDIS_PUBSUB msg of
       Inl e \<Rightarrow> (Inl e, m)
     | Inr c \<Rightarrow> sbind (execute (ad_now env) (ad_now env) (ad_write env) c) (\<lambda>w. op_ret
         \<lparr>re_command_id = or_empty (ms_command_id msg), re_device_id = or_empty (ms_device_id msg), re_status = write_status_value (wr_status w),
          re_action = None, re_point_name = Some (wr_point_name w), re_value = Some (wr_value w)\<rparr>) m)"

text \<open>The action a message asks for goes to the device itself; the actions called are returned with the result.\<close>

definition adapter_action :: "adapter_env \<Rightarrow> command_message \<Rightarrow> command_manager \<Rightarrow> command_result res \<times> (nat \<times> string \<times> (string \<times> pyval) list) list" where
  "adapter_action env msg m =
     (case (ms_device_id msg, ms_action msg) of
        (Some d, Some a) \<Rightarrow>
          (let cid = (case ms_command_id msg of None \<Rightarrow> ad_fresh env | Some i \<Rightarrow> i);
               answer = (\<lambda>st v. \<lparr>re_command_id = cid, re_device_id = d, re_status = st, re_action = Some a, re_point_name = None, re_value = v\<rparr>) in
           case dict_get (cm_devices m) d of
             None \<Rightarrow> (Inr (answer ''write_failed'' None), [])
           | Some dev \<Rightarrow> (case ad_action env dev of
               None \<Rightarrow> (Inr (answer ''write_failed'' (ms_value msg)), [])
             | Some f \<Rightarrow> (rbind (f a (action_params (ms_value msg))) (\<lambda>w. Inr (answer (write_status_value (wr_status w)) (ms_value msg))),
                 [(dev, a, action_params (ms_value msg))])))
      | _ \<Rightarrow> (Inr \<lparr>re_command_id = or_empty (ms_command_id msg), re_device_id = or_empty (ms_device_id msg), re_status = ''validation_failed'',
                 re_action = ms_action msg, re_point_name = None, re_value = None\<rparr>, []))"

definition adapter_system :: "adapter_env \<Rightarrow> command_message \<Rightarrow> string \<Rightarrow> command_result res" where
  "adapter_system env msg name =
     (let answer = (\<lambda>st. \<lparr>re_command_id = or_empty (ms_command_id msg), re_device_id = ''system'', re_status = st,
            re_action = Some name, re_point_name = None, re_value = None\<rparr>) in
      case ad_orchestrator env of None \<Rightarrow> Inr (answer ''failed'')
      | Some f \<Rightarrow> (case f name of Inr st \<Rightarrow> Inr (answer st) | Inl e \<Rightarrow> if e = KeyError then Inr (answer ''failed'') else Inl e))"

text \<open>The message loop: what is published (nothing after an exception), the actions called, and the manager.\<close>

definition handle_message :: "adapter_env \<Rightarrow> command_message \<Rightarrow> command_manager
    \<Rightarrow> command_result option \<times> (nat \<times> string \<times> (string \<times> pyval) list) list \<times> command_manager" where
  "handle_message env msg m =
     (let published = (\<lambda>r. case r of Inl e \<Rightarrow> None | Inr x \<Rightarrow> Some x) in
      case ms_system_command msg of
        Some name \<Rightarrow> (published (adapter_system env msg name), [], m)
      | None \<Rightarrow>
          if is_action_command msg then (case adapter_action env msg m of (r, acts) \<Rightarrow> (published r, acts, m))
          else (case adapter_write env msg m of (r, m') \<Rightarrow> (published r, [], m')))"

section \<open>Runs\<close>

datatype command_event =
    Begin rat write_command
  | End rat nat "write_result res"
  | Register_Device string nat
  | Unregister_Device string
  | Gate "bool option"

fun command_step :: "command_event \<Rightarrow> command_manager \<Rightarrow> command_manager" where
  "command_step (Begin now c) m = snd (execute_begin now c m)"
| "command_step (End now k outcome) m =
     (if k < length (cm_flight m) then snd (execute_end now (fst (cm_flight m ! k)) outcome (land k m)) else m)"
| "command_step (Register_Device did dev) m = register_device did dev m"
| "command_step (Unregister_Device did) m = unregister_device did m"
| "command_step (Gate g) m = m\<lparr>cm_leader := g\<rparr>"

definition begun_ids :: "command_event list \<Rightarrow> string list" where
  "begun_ids es = concat (map (\<lambda>e. case e of Begin now c \<Rightarrow> [wc_command_id c] | _ \<Rightarrow> []) es)"

section \<open>The audit trail\<close>

lemma update_status_new: "cid \<notin> cr_command_id ` set rs \<Longrightarrow> update_status cid f (rs @ [r]) = rs @ [if cr_command_id r = cid then f r else r]"
  by (induction rs) auto

lemma update_status_map: "distinct (map cr_command_id rs) \<Longrightarrow> update_status cid f rs = map (\<lambda>r. if cr_command_id r = cid then f r else r) rs"
proof (induction rs)
  case (Cons r rs)
  have "\<forall>x \<in> set rs. cr_command_id x \<noteq> cr_command_id r" using Cons.prems by (auto simp: image_iff)
  then have "map (\<lambda>x. if cr_command_id x = cr_command_id r then f x else x) rs = rs" by (intro map_idI) simp
  then show ?case using Cons by auto
qed simp

lemma set_status_simps [simp]:
  "cr_command_id (set_status now st res r) = cr_command_id r" "cr_status (set_status now st res r) = st"
  "cr_executed_at (set_status now st res r) = (if st = EXECUTING then Some now else cr_executed_at r)"
  by (simp_all add: set_status_def Let_def split: option.split)

text \<open>What the start of an execution with a new id does: nothing, a record that is not executed, or a record and a write.\<close>

lemma execute_begin_effect:
  assumes "wc_command_id c \<notin> cr_command_id ` set (cm_records m)"
  shows "snd (execute_begin now c m) = m
    \<or> (\<exists>r. snd (execute_begin now c m) = m\<lparr>cm_records := cm_records m @ [r]\<rparr>
         \<and> cr_command_id r = wc_command_id c \<and> cr_status r \<in> {PENDING, DEVICE_NOT_FOUND, VALIDATION_FAILED} \<and> cr_executed_at r = None)
    \<or> (\<exists>r c' dev. snd (execute_begin now c m) = m\<lparr>cm_records := cm_records m @ [r], cm_flight := cm_flight m @ [(c', dev)],
           cm_writes := cm_writes m @ [(wc_command_id c, dev, wc_point_name c', wc_value c')]\<rparr>
         \<and> cr_command_id r = wc_command_id c \<and> cr_status r = EXECUTING \<and> cr_executed_at r = Some now
         \<and> wc_command_id c' = wc_command_id c \<and> run_validation m c = Inr (Some c'))"
proof (cases "cm_leader m = Some False")
  case False
  let ?m = "m\<lparr>cm_records := cm_records m @ [record_of_command c]\<rparr>"
  have status: "put_status t (wc_command_id c) st x ?m = m\<lparr>cm_records := cm_records m @ [set_status t st x (record_of_command c)]\<rparr>" for t st x
    using update_status_new [OF assms] by (simp add: put_status_def record_of_command_def)
  have valid: "run_validation ?m c = run_validation m c" by (simp add: run_validation_def applicable_rules_def)
  have id: "run_validation m c = Inr (Some c') \<Longrightarrow> wc_command_id c' = wc_command_id c" for c'
    by (auto simp: run_validation_def res_simps)
  have new: "cr_command_id (record_of_command c) = wc_command_id c" "cr_status (record_of_command c) = PENDING" "cr_executed_at (record_of_command c) = None"
    by (simp_all add: record_of_command_def)
  show ?thesis
  proof (cases "dict_get (cm_devices m) (wc_device_id c)")
    case None
    then show ?thesis using False new by (auto simp: execute_begin_def Let_def status)
  next
    case (Some dev)
    show ?thesis
    proof (cases "run_validation m c")
      case (Inl e)
      then show ?thesis using False Some new by (auto simp: execute_begin_def Let_def valid)
    next
      case (Inr x)
      show ?thesis
      proof (cases x)
        case None
        have "snd (execute_begin now c m) = m\<lparr>cm_records := cm_records m @ [set_status now VALIDATION_FAILED (Some (Rejected (wc_value c))) (record_of_command c)]\<rparr>"
          using False Some Inr None by (simp add: execute_begin_def Let_def valid status)
        then show ?thesis using new by (intro disjI2 disjI1 exI [of _ "set_status now VALIDATION_FAILED (Some (Rejected (wc_value c))) (record_of_command c)"]) simp
      next
        case c': (Some c')
        have "snd (execute_begin now c m) = m\<lparr>cm_records := cm_records m @ [set_status now EXECUTING None (record_of_command c)],
            cm_flight := cm_flight m @ [(c', dev)], cm_writes := cm_writes m @ [(wc_command_id c, dev, wc_point_name c', wc_value c')]\<rparr>"
          using False Some Inr c' id [of c'] by (simp add: execute_begin_def Let_def valid status)
        then show ?thesis using new Inr c' id [of c']
          by (intro disjI2 exI [of _ "set_status now EXECUTING None (record_of_command c)"] exI [of _ c'] exI [of _ dev]) simp
      qed
    qed
  qed
qed (simp add: execute_begin_def)

definition answer_status :: "write_result res \<Rightarrow> command_status" where
  "answer_status x = (case x of Inl e \<Rightarrow> FAILED | Inr w \<Rightarrow> if wr_status w = write_status.SUCCESS then SUCCESS else FAILED)"

text \<open>The status a record must have, from what the devices were asked and have answered.\<close>

definition status_ok :: "command_manager \<Rightarrow> command_record \<Rightarrow> bool" where
  "status_ok m r \<longleftrightarrow> (if cr_executed_at r = None then cr_status r \<in> {PENDING, DEVICE_NOT_FOUND, VALIDATION_FAILED}
     else cr_status r = (case map_of (cm_answers m) (cr_command_id r) of None \<Rightarrow> EXECUTING | Some x \<Rightarrow> answer_status x))"

definition written_ids :: "command_manager \<Rightarrow> string list" where
  "written_ids m = map fst (cm_writes m)"

definition flight_ids :: "command_manager \<Rightarrow> string list" where
  "flight_ids m = map (\<lambda>x. wc_command_id (fst x)) (cm_flight m)"

definition answered_ids :: "command_manager \<Rightarrow> string list" where
  "answered_ids m = map fst (cm_answers m)"

definition audited :: "command_manager \<Rightarrow> bool" where
  "audited m \<longleftrightarrow> distinct (map cr_command_id (cm_records m))
     \<and> written_ids m = map cr_command_id (filter (\<lambda>r. cr_executed_at r \<noteq> None) (cm_records m))
     \<and> distinct (flight_ids m @ answered_ids m) \<and> set (flight_ids m @ answered_ids m) = set (written_ids m)
     \<and> list_all (status_ok m) (cm_records m)"

lemma written_recorded: "audited m \<Longrightarrow> set (written_ids m) \<subseteq> cr_command_id ` set (cm_records m)"
  by (auto simp: audited_def)

lemma status_ok_frame: "cm_answers m' = cm_answers m \<Longrightarrow> status_ok m' = status_ok m"
  by (simp add: status_ok_def fun_eq_iff)

lemma audited_begin:
  assumes "audited m" "wc_command_id c \<notin> cr_command_id ` set (cm_records m)"
  shows "audited (snd (execute_begin now c m)) \<and> cr_command_id ` set (cm_records (snd (execute_begin now c m))) \<subseteq> insert (wc_command_id c) (cr_command_id ` set (cm_records m))"
proof -
  have fresh: "wc_command_id c \<notin> set (written_ids m)"
    using assms written_recorded by blast
  have "set (flight_ids m @ answered_ids m) = set (written_ids m)" using assms(1) by (simp add: audited_def)
  with fresh have unused: "wc_command_id c \<notin> set (flight_ids m)" "wc_command_id c \<notin> set (answered_ids m)" by auto
  then have unanswered: "map_of (cm_answers m) (wc_command_id c) = None"
    by (simp add: answered_ids_def map_of_eq_None_iff)
  from execute_begin_effect [OF assms(2), of now] show ?thesis
  proof (elim disjE exE conjE)
    fix r assume run: "snd (execute_begin now c m) = m\<lparr>cm_records := cm_records m @ [r]\<rparr>" "cr_command_id r = wc_command_id c"
      "cr_status r \<in> {PENDING, DEVICE_NOT_FOUND, VALIDATION_FAILED}" "cr_executed_at r = None"
    let ?m = "m\<lparr>cm_records := cm_records m @ [r]\<rparr>"
    have "status_ok ?m = status_ok m" by (rule status_ok_frame) simp
    moreover have "written_ids ?m = written_ids m" "flight_ids ?m = flight_ids m" "answered_ids ?m = answered_ids m"
      by (simp_all add: written_ids_def flight_ids_def answered_ids_def)
    moreover have "status_ok m r" using run(3,4) by (simp add: status_ok_def)
    ultimately have "audited ?m" using assms run(2,4) by (simp add: audited_def)
    then show ?thesis using run by auto
  next
    fix r c' dev
    assume run: "snd (execute_begin now c m) = m\<lparr>cm_records := cm_records m @ [r], cm_flight := cm_flight m @ [(c', dev)],
        cm_writes := cm_writes m @ [(wc_command_id c, dev, wc_point_name c', wc_value c')]\<rparr>" (is "_ = ?m")
      "cr_command_id r = wc_command_id c" "cr_status r = EXECUTING" "cr_executed_at r = Some now" "wc_command_id c' = wc_command_id c"
    have "status_ok ?m = status_ok m" by (rule status_ok_frame) simp
    moreover have "written_ids ?m = written_ids m @ [wc_command_id c]" "flight_ids ?m = flight_ids m @ [wc_command_id c]" "answered_ids ?m = answered_ids m"
      using run(5) by (simp_all add: written_ids_def flight_ids_def answered_ids_def)
    moreover have "status_ok m r" using run(2,3,4) unanswered by (simp add: status_ok_def)
    ultimately have "audited ?m" using assms run(2,4) unused by (simp add: audited_def)
    then show ?thesis using run by auto
  qed (use assms in auto)
qed

lemma execute_end_effect:
  "snd (execute_end now c x m) = m\<lparr>cm_answers := cm_answers m @ [(wc_command_id c, x)],
     cm_records := update_status (wc_command_id c) (set_status now (answer_status x) (case x of Inl e \<Rightarrow> None | Inr w \<Rightarrow> Some (Written w))) (cm_records m)\<rparr>"
  by (simp add: execute_end_def put_status_def answer_status_def Let_def split: sum.split)

lemma flight_ids_land:
  assumes "k < length (cm_flight m)"
  shows "\<exists>xs ys. flight_ids m = xs @ wc_command_id (fst (cm_flight m ! k)) # ys \<and> flight_ids (land k m) = xs @ ys"
proof (intro exI conjI)
  show "flight_ids m = map (\<lambda>x. wc_command_id (fst x)) (take k (cm_flight m)) @ wc_command_id (fst (cm_flight m ! k)) # map (\<lambda>x. wc_command_id (fst x)) (drop (Suc k) (cm_flight m))"
    unfolding flight_ids_def by (subst id_take_nth_drop [OF assms]) (simp only: map_append list.map)
qed (simp add: flight_ids_def land_def)

lemma audited_end:
  assumes "audited m" "k < length (cm_flight m)"
  shows "audited (snd (execute_end now (fst (cm_flight m ! k)) x (land k m)))
    \<and> cr_command_id ` set (cm_records (snd (execute_end now (fst (cm_flight m ! k)) x (land k m)))) = cr_command_id ` set (cm_records m)"
proof -
  let ?cid = "wc_command_id (fst (cm_flight m ! k))"
  let ?f = "set_status now (answer_status x) (case x of Inl e \<Rightarrow> None | Inr w \<Rightarrow> Some (Written w))"
  let ?m = "snd (execute_end now (fst (cm_flight m ! k)) x (land k m))"
  let ?set = "\<lambda>r. if cr_command_id r = ?cid then ?f r else r"
  have records: "cm_records ?m = map ?set (cm_records m)"
    using update_status_map assms(1) by (simp add: execute_end_effect audited_def land_def)
  obtain xs ys where flight: "flight_ids m = xs @ ?cid # ys" "flight_ids ?m = xs @ ys"
    using flight_ids_land [OF assms(2)] by (auto simp: execute_end_effect flight_ids_def)
  have answered: "answered_ids ?m = answered_ids m @ [?cid]" and written: "written_ids ?m = written_ids m"
    by (simp_all add: execute_end_effect land_def answered_ids_def written_ids_def)
  have kept: "cr_executed_at (?set r) = cr_executed_at r" "cr_command_id (?set r) = cr_command_id r" for r
    by (auto simp: answer_status_def split: sum.split)
  have "?cid \<notin> set (answered_ids m)" using assms(1) flight by (auto simp: audited_def)
  then have unanswered: "map_of (cm_answers m) ?cid = None" by (simp add: answered_ids_def map_of_eq_None_iff)
  have answers: "map_of (cm_answers ?m) i = (if i = ?cid then Some x else map_of (cm_answers m) i)" for i
    using unanswered by (simp add: execute_end_effect land_def map_add_def split: option.split)
  have executed: "cr_executed_at r \<noteq> None" if "r \<in> set (cm_records m)" "cr_command_id r = ?cid" for r
  proof -
    have "?cid \<in> set (written_ids m)" using assms(1) flight by (auto simp: audited_def)
    then obtain r' where "r' \<in> set (cm_records m)" "cr_command_id r' = ?cid" "cr_executed_at r' \<noteq> None" using assms(1) by (auto simp: audited_def)
    moreover have "inj_on cr_command_id (set (cm_records m))" using assms(1) by (simp add: audited_def distinct_map)
    ultimately show ?thesis using that by (auto simp: inj_on_def)
  qed
  have "status_ok ?m (?set r)" if r: "r \<in> set (cm_records m)" for r
  proof (cases "cr_command_id r = ?cid")
    case True
    then obtain y where "cr_executed_at r = Some y" using executed [OF r True] by auto
    then have "cr_executed_at (?set r) = Some y" by (simp only: kept)
    moreover have "cr_status (?set r) = answer_status x" "cr_command_id (?set r) = ?cid" using True by simp_all
    ultimately show ?thesis unfolding status_ok_def by (simp only: answers option.case) simp
  next
    case False
    have "status_ok m r" using assms(1) r by (simp add: audited_def list_all_iff)
    then show ?thesis using False by (auto simp: status_ok_def answers split: if_splits)
  qed
  then have "list_all (status_ok ?m) (cm_records ?m)" unfolding records list.set_map list_all_iff by (simp only: ball_simps(9)) blast
  moreover have ids: "map cr_command_id (cm_records ?m) = map cr_command_id (cm_records m)" unfolding records by (simp add: kept)
  moreover have "map cr_command_id (filter (\<lambda>r. cr_executed_at r \<noteq> None) (cm_records ?m)) = map cr_command_id (filter (\<lambda>r. cr_executed_at r \<noteq> None) (cm_records m))"
    unfolding records by (simp add: filter_map comp_def kept cong: filter_cong)
  moreover have "distinct (flight_ids ?m @ answered_ids ?m)" "set (flight_ids ?m @ answered_ids ?m) = set (flight_ids m @ answered_ids m)"
    using assms(1) unfolding audited_def flight answered by auto
  ultimately have "audited ?m" using assms(1) unfolding audited_def written by (simp only: list.set_map)
  then show ?thesis using arg_cong [OF ids, of set] by (simp only: list.set_map)
qed

lemma begun_ids_Cons: "begun_ids (e # es) = (case e of Begin now c \<Rightarrow> wc_command_id c # begun_ids es | _ \<Rightarrow> begun_ids es)"
  by (simp add: begun_ids_def split: command_event.split)

lemma audited_run:
  assumes "audited m" "distinct (begun_ids es)" "set (begun_ids es) \<inter> cr_command_id ` set (cm_records m) = {}"
  shows "audited (run_steps command_step es m)"
  using assms
proof (induction es arbitrary: m)
  case (Cons e es)
  have frame: "audited m'" if "audited m" "cm_records m' = cm_records m" "cm_flight m' = cm_flight m" "cm_writes m' = cm_writes m" "cm_answers m' = cm_answers m" for m' :: command_manager
  proof -
    have "written_ids m' = written_ids m" "flight_ids m' = flight_ids m" "answered_ids m' = answered_ids m"
      using that by (simp_all add: written_ids_def flight_ids_def answered_ids_def)
    then show ?thesis using that(1,2) status_ok_frame [OF that(5)] by (simp add: audited_def)
  qed
  have rest: "distinct (begun_ids es)" using Cons.prems(2) by (auto simp: begun_ids_Cons split: command_event.splits)
  have "audited (command_step e m) \<and> set (begun_ids es) \<inter> cr_command_id ` set (cm_records (command_step e m)) = {}"
  proof (cases e)
    case (Begin now c)
    have new: "wc_command_id c \<notin> cr_command_id ` set (cm_records m)" "wc_command_id c \<notin> set (begun_ids es)"
      using Cons.prems(2,3) Begin by (auto simp: begun_ids_Cons)
    have apart: "set (begun_ids es) \<inter> cr_command_id ` set (cm_records m) = {}" using Cons.prems(3) Begin by (simp add: begun_ids_Cons)
    note effect = audited_begin [OF Cons.prems(1) new(1), of now]
    have "set (begun_ids es) \<inter> cr_command_id ` set (cm_records (snd (execute_begin now c m)))
        \<subseteq> set (begun_ids es) \<inter> insert (wc_command_id c) (cr_command_id ` set (cm_records m))"
      by (rule Int_mono [OF subset_refl conjunct2 [OF effect]])
    also have "\<dots> = {}" using new(2) apart by simp
    finally show ?thesis using conjunct1 [OF effect] by (simp only: Begin command_step.simps subset_empty simp_thms)
  next
    case (End now k outcome)
    then show ?thesis using audited_end [OF Cons.prems(1), of k now outcome] Cons.prems by (auto simp: begun_ids_Cons)
  qed (use Cons.prems frame in \<open>auto simp: begun_ids_Cons register_device_def unregister_device_def\<close>)
  then show ?case using Cons.IH rest by simp
qed simp

lemma audited_init: "audited (manager_init gate global by_point)"
  by (simp add: audited_def manager_init_def written_ids_def flight_ids_def answered_ids_def)

text \<open>
  C32. The audit trail is exact: after any interleaving of executions with distinct ids, of answers of the devices, of
  registrations and of changes of leadership, the writes the devices have seen are, in order, those of the records marked as
  executed; such a record is EXECUTING until the device has answered, then SUCCESS if the answer
  was a success and FAILED if it was a failure or an exception; a record that is not executed is never one of these three.
\<close>

theorem audit_exact:
  assumes "distinct (begun_ids es)" "m = run_steps command_step es (manager_init gate global by_point)"
  shows "map fst (cm_writes m) = map cr_command_id (filter (\<lambda>r. cr_executed_at r \<noteq> None) (cm_records m))
    \<and> (\<forall>r \<in> set (cm_records m). if cr_executed_at r = None then cr_status r \<in> {PENDING, DEVICE_NOT_FOUND, VALIDATION_FAILED}
         else cr_status r = (case map_of (cm_answers m) (cr_command_id r) of None \<Rightarrow> EXECUTING
            | Some (Inr w) \<Rightarrow> if wr_status w = write_status.SUCCESS then SUCCESS else FAILED
            | Some (Inl e) \<Rightarrow> FAILED))"
proof -
  have "audited m" unfolding assms(2)
    by (rule audited_run [OF audited_init assms(1)]) (simp add: manager_init_def)
  then have "written_ids m = map cr_command_id (filter (\<lambda>r. cr_executed_at r \<noteq> None) (cm_records m))" "list_all (status_ok m) (cm_records m)"
    by (simp_all add: audited_def)
  then show ?thesis
    unfolding written_ids_def status_ok_def list_all_iff answer_status_def by (auto split: option.splits sum.splits)
qed

text \<open>The rule of a point is the last one that is applied.\<close>

lemma run_rules_last:
  "run_rules (rules @ [rule]) point v = Inr (Some w) \<Longrightarrow> \<exists>u. rule point u = Inr (True, w)"
  by (induction rules arbitrary: v) (auto simp: res_simps split: if_splits)

definition range_point_rule :: "range_rule \<Rightarrow> validation_rule" where
  "range_point_rule r = (\<lambda>point v. range_apply r v)"

definition in_limits :: "rat \<Rightarrow> rat \<Rightarrow> pyval \<Rightarrow> bool" where
  "in_limits lo hi v \<longleftrightarrow> (\<exists>q. flt_val v = Fin q \<and> lo \<le> q \<and> q \<le> hi)"

lemma range_apply_limits:
  assumes "range_apply r v = Inr (True, w)" "rr_min r = Some (Fin lo)" "rr_max r = Some (Fin hi)" "lo \<le> hi"
  shows "is_num_val w \<and> in_limits lo hi w"
proof -
  have "is_num_val v" "\<not> is_non_finite_float v" using assms by (auto simp: range_apply_def comparable_def split: if_splits)
  then obtain q where "flt_val v = Fin q" by (cases v; cases "flt_val v") (auto simp: is_non_finite_float_def)
  then show ?thesis using assms \<open>is_num_val v\<close>
    by (auto simp: range_apply_def below_def above_def in_limits_def comparable_def split: if_splits)
qed

lemma py_eq_in_limits: "py_eq w v \<Longrightarrow> is_num_val w \<Longrightarrow> in_limits lo hi w \<Longrightarrow> in_limits lo hi v"
proof -
  assume eq: "py_eq w v" "is_num_val w" "in_limits lo hi w"
  then have "feq (flt_val w) (flt_val v)" by (cases w) auto
  then show ?thesis using eq(3) by (cases "flt_val v") (auto simp: in_limits_def feq_def)
qed

lemma writes_in_limits:
  assumes "dict_get (cm_rules_by_point m) point = Some (range_point_rule r)" "rr_min r = Some (Fin lo)" "rr_max r = Some (Fin hi)" "lo \<le> hi"
    and "\<forall>x \<in> set (cm_writes m). case x of (cid, dev, p, v) \<Rightarrow> p = point \<longrightarrow> in_limits lo hi v"
  shows "\<forall>x \<in> set (cm_writes (command_step e m)). case x of (cid, dev, p, v) \<Rightarrow> p = point \<longrightarrow> in_limits lo hi v"
proof (cases e)
  case (Begin now c)
  have "in_limits lo hi (wc_value c')" if valid: "run_validation m c = Inr (Some c')" and p: "wc_point_name c' = point" for c'
  proof -
    obtain w where w: "run_rules (applicable_rules m (wc_point_name c)) (wc_point_name c) (wc_value c) = Inr (Some w)"
      and c': "c' = (if \<not> py_eq w (wc_value c) then c\<lparr>wc_value := w\<rparr> else c)"
      using valid by (auto simp: run_validation_def res_simps)
    have "wc_point_name c = point" using c' p by (auto split: if_splits)
    then obtain u where "range_apply r u = Inr (True, w)"
      using w run_rules_last assms(1) by (fastforce simp: applicable_rules_def range_point_rule_def)
    from range_apply_limits [OF this assms(2-4)] show ?thesis using c' py_eq_in_limits by auto
  qed
  then show ?thesis using assms(5) Begin
    by (auto simp: execute_begin_def put_status_def Let_def run_validation_def applicable_rules_def split: option.split sum.split)
next
  case (End now k outcome)
  then show ?thesis using assms(5) by (auto simp: execute_end_effect land_def)
qed (use assms(5) in \<open>auto simp: register_device_def unregister_device_def\<close>)

lemma rules_constant: "cm_rules_by_point (command_step e m) = cm_rules_by_point m"
  by (cases e)
    (auto simp: execute_begin_def execute_end_effect land_def put_status_def Let_def register_device_def unregister_device_def split: option.split sum.split)


definition demo_command :: "string \<Rightarrow> string \<Rightarrow> pyval \<Rightarrow> write_command" where
  "demo_command cid did v = \<lparr>wc_command_id = cid, wc_device_id = did, wc_point_name = ''p_set'', wc_value = v,
     wc_source = REST_API, wc_source_info = [], wc_verify = False, wc_timestamp = 0\<rparr>"

definition demo_success :: write_result where
  "demo_success = \<lparr>wr_status = write_status.SUCCESS, wr_point_name = ''p_set'', wr_value = PyFloat (Fin 100)\<rparr>"

definition demo_events :: "command_event list" where
  "demo_events = [Register_Device ''a'' 0, Begin 1 (demo_command ''x'' ''a'' (PyFloat (Fin 500))), Begin 2 (demo_command ''y'' ''b'' (PyInt 5)),
     Begin 3 (demo_command ''z'' ''a'' (PyFloat NaN)), Begin 4 (demo_command ''w'' ''a'' (PyInt 7)), End 5 1 (Inl CommunicationError), End 6 0 (Inr demo_success)]"

definition demo_limits :: range_rule where
  "demo_limits = \<lparr>rr_min = Some (Fin 0), rr_max = Some (Fin 100), rr_clamp = True\<rparr>"

definition demo_manager :: command_manager where
  "demo_manager = run_steps command_step demo_events (manager_init (Some True) [] [(''p_set'', range_point_rule demo_limits)])"

lemma demo_trail:
  "map (\<lambda>r. (cr_command_id r, cr_status r)) (cm_records demo_manager)
     = [(''x'', SUCCESS), (''y'', DEVICE_NOT_FOUND), (''z'', VALIDATION_FAILED), (''w'', FAILED)]"
  "cm_writes demo_manager = [(''x'', 0, ''p_set'', PyFloat (Fin 100)), (''w'', 0, ''p_set'', PyInt 7)]"
  by code_simp+

theorem audit_exact_witness:
  "map fst (cm_writes demo_manager) = map cr_command_id (filter (\<lambda>r. cr_executed_at r \<noteq> None) (cm_records demo_manager))
   \<and> map (\<lambda>r. cr_status r) (cm_records demo_manager) = [SUCCESS, DEVICE_NOT_FOUND, VALIDATION_FAILED, FAILED]"
proof -
  have "distinct (begun_ids demo_events)" by code_simp
  from audit_exact [OF this refl, of "Some True" "[]" "[(''p_set'', range_point_rule demo_limits)]"]
  show ?thesis using arg_cong [OF demo_trail(1), of "map snd"] by (simp add: demo_manager_def comp_def)
qed


section \<open>What the trail does not see\<close>

lemma follower_refuses: "cm_leader m = Some False \<Longrightarrow> execute_begin now c m = (Inl NotLeaderError, m)"
  by (simp add: execute_begin_def)

text \<open>An action from the channel goes to the device on a node that is not the leader too, and leaves no record.\<close>

lemma actions_bypass_gate:
  assumes "ms_system_command msg = None" "ms_action msg = Some a" "ms_point_name msg = None" "ms_device_id msg = Some d"
    and "dict_get (cm_devices m) d = Some dev" "ad_action env dev = Some f"
  shows "fst (snd (handle_message env msg m)) = [(dev, a, action_params (ms_value msg))] \<and> snd (snd (handle_message env msg m)) = m"
  using assms by (simp add: handle_message_def is_action_command_def adapter_action_def Let_def)

text \<open>A rule that raises leaves its record pending.\<close>

lemma raising_rule_pending:
  assumes "cm_leader m \<noteq> Some False" "dict_get (cm_devices m) (wc_device_id c) = Some dev" "run_validation m c = Inl e"
  shows "execute_begin now c m = (Inl e, m\<lparr>cm_records := cm_records m @ [record_of_command c]\<rparr>)"
  using assms by (simp add: execute_begin_def Let_def run_validation_def applicable_rules_def)

text \<open>A second command with an id in use changes the record of the first.\<close>

lemma reused_id_overwrites:
  "map (\<lambda>r. (cr_value r, cr_status r)) (cm_records (run_steps command_step
     [Register_Device ''a'' 0, Begin 1 (demo_command ''x'' ''a'' (PyInt 1)), End 2 0 (Inr demo_success), Begin 3 (demo_command ''x'' ''b'' (PyInt 2))]
     (manager_init None [] []))) = [(PyInt 1, DEVICE_NOT_FOUND), (PyInt 2, PENDING)]"
  by code_simp

text \<open>A write without an id is recorded under a fresh one, which the published result does not tell.\<close>

lemma result_without_id:
  assumes "ms_command_id msg = None" "ms_system_command msg = None" "ms_action msg = None" "handle_message env msg m = (Some r, acts, m')"
  shows "re_command_id r = []"
  using assms by (auto simp: handle_message_def is_action_command_def adapter_write_def sbind_def or_empty_def Let_def split: sum.splits prod.splits)
end
