(* ===== verification/Alarm_Records.thy ===== *)
theory Alarm_Records
  imports Alarm_State
begin

text \<open>
  Alarm records (\<open>csp_lib/manager/alarm\<close>) and their notifications (\<open>csp_lib/notification\<close>): the repository in memory,
  the manager that turns the events of devices into records, history documents and notifications, and the batcher
  with its bounded queue, deduplication and groups. Titles of notifications are not modelled, and English stands for
  the Chinese labels of a lost capability; whether a channel accepts a batch is an argument. A batch that is taken from the queue is sent before another one is taken.
\<close>

section \<open>Records and their repository\<close>

datatype alarm_type = DISCONNECT | DEVICE_ALARM | CAPABILITY_DEGRADED

fun alarm_type_value :: "alarm_type \<Rightarrow> string" where
  "alarm_type_value DISCONNECT = ''disconnect''"
| "alarm_type_value DEVICE_ALARM = ''device_alarm''"
| "alarm_type_value CAPABILITY_DEGRADED = ''capability_degraded''"

datatype alarm_status = ACTIVE | RESOLVED

record alarm_record =
  ar_alarm_key :: string
  ar_device_id :: string
  ar_type :: alarm_type
  ar_code :: string
  ar_name :: string
  ar_level :: alarm_level
  ar_description :: string
  ar_timestamp :: rat
  ar_resolved_timestamp :: "rat option"
  ar_status :: alarm_status

definition make_key :: "string \<Rightarrow> alarm_type \<Rightarrow> string \<Rightarrow> string" where
  "make_key did ty code = did @ '':'' @ alarm_type_value ty @ '':'' @ code"

type_synonym alarm_repository = "(string \<times> alarm_record) list"

text \<open>The repository and whether the record is new.\<close>

definition alarm_upsert :: "alarm_record \<Rightarrow> alarm_repository \<Rightarrow> bool \<times> alarm_repository" where
  "alarm_upsert r repo = (case dict_get repo (ar_alarm_key r) of
       Some old \<Rightarrow> if ar_status old = ACTIVE then (False, repo) else (True, dict_set (ar_alarm_key r) r repo)
     | None \<Rightarrow> (True, dict_set (ar_alarm_key r) r repo))"

definition alarm_resolve :: "string \<Rightarrow> rat \<Rightarrow> alarm_repository \<Rightarrow> bool \<times> alarm_repository" where
  "alarm_resolve key time repo = (case dict_get repo key of
       None \<Rightarrow> (False, repo)
     | Some r \<Rightarrow> if ar_status r \<noteq> ACTIVE then (False, repo)
         else (True, dict_set key (r\<lparr>ar_status := RESOLVED, ar_resolved_timestamp := Some time\<rparr>) repo))"

definition get_active_records :: "alarm_repository \<Rightarrow> alarm_record list" where
  "get_active_records repo = filter (\<lambda>r. ar_status r = ACTIVE) (map snd repo)"

definition get_active_by_device :: "alarm_repository \<Rightarrow> string \<Rightarrow> alarm_record list" where
  "get_active_by_device repo did = filter (\<lambda>r. ar_status r = ACTIVE \<and> ar_device_id r = did) (map snd repo)"

section \<open>Notifications\<close>

datatype notification_event = TRIGGERED | RESOLVED_EVENT

record notification =
  nt_body :: string
  nt_level :: alarm_level
  nt_device_id :: string
  nt_alarm_key :: string
  nt_event :: notification_event
  nt_occurred_at :: rat

definition from_alarm_record :: "alarm_record \<Rightarrow> notification_event \<Rightarrow> notification" where
  "from_alarm_record r ev = \<lparr>nt_body = (if ar_description r \<noteq> [] then ar_description r else ar_name r), nt_level = ar_level r,
     nt_device_id = ar_device_id r, nt_alarm_key = ar_alarm_key r, nt_event = ev, nt_occurred_at = ar_timestamp r\<rparr>"

text \<open>The device of a key: what stands before the first colon.\<close>

definition key_device :: "string \<Rightarrow> string" where
  "key_device key = takeWhile (\<lambda>c. c \<noteq> CHR '':'') key"

section \<open>The persistence manager\<close>

text \<open>
  What the manager has handed out: notifications to the dispatcher, and history documents (key, device, event, time) to the
  uploader, both only when they are configured.
\<close>

record alarm_manager =
  am_repository :: alarm_repository
  am_dispatcher :: bool
  am_uploader :: bool
  am_disconnect_code :: string
  am_disconnect_name :: string
  am_notified :: "notification list"
  am_history :: "(string \<times> string \<times> notification_event \<times> rat) list"

definition alarm_manager_init :: "bool \<Rightarrow> bool \<Rightarrow> string \<Rightarrow> string \<Rightarrow> alarm_manager" where
  "alarm_manager_init disp up code name = \<lparr>am_repository = [], am_dispatcher = disp, am_uploader = up, am_disconnect_code = code,
     am_disconnect_name = name, am_notified = [], am_history = []\<rparr>"

definition notify :: "notification \<Rightarrow> alarm_manager \<Rightarrow> alarm_manager" where
  "notify n m = (if am_dispatcher m then m\<lparr>am_notified := am_notified m @ [n]\<rparr> else m)"

definition emit_history :: "string \<times> string \<times> notification_event \<times> rat \<Rightarrow> alarm_manager \<Rightarrow> alarm_manager" where
  "emit_history h m = (if am_uploader m then m\<lparr>am_history := am_history m @ [h]\<rparr> else m)"

definition create_alarm :: "alarm_record \<Rightarrow> alarm_manager \<Rightarrow> alarm_manager" where
  "create_alarm r m = (case alarm_upsert r (am_repository m) of
     (new, repo) \<Rightarrow> (let m1 = m\<lparr>am_repository := repo\<rparr> in
       if new then emit_history (ar_alarm_key r, ar_device_id r, TRIGGERED, ar_timestamp r) (notify (from_alarm_record r TRIGGERED) m1) else m1))"

definition resolve_alarm :: "string \<Rightarrow> rat \<Rightarrow> alarm_manager \<Rightarrow> alarm_manager" where
  "resolve_alarm key time m = (case alarm_resolve key time (am_repository m) of
     (done, repo) \<Rightarrow> (let m1 = m\<lparr>am_repository := repo\<rparr> in
       if done then emit_history (key, (if key_device key \<noteq> [] then key_device key else key), RESOLVED_EVENT, time)
         (notify \<lparr>nt_body = key, nt_level = INFO, nt_device_id = key_device key, nt_alarm_key = key, nt_event = RESOLVED_EVENT, nt_occurred_at = time\<rparr> m1)
       else m1))"

text \<open>The events of devices the manager subscribes to.\<close>

datatype device_event =
    Disconnected string string rat
  | Connected string rat
  | AlarmTriggered string alarm_def rat
  | AlarmCleared string alarm_def rat
  | CapabilityRemoved string string rat
  | CapabilityAdded string string rat

definition new_record :: "string \<Rightarrow> alarm_type \<Rightarrow> string \<Rightarrow> string \<Rightarrow> alarm_level \<Rightarrow> string \<Rightarrow> rat \<Rightarrow> alarm_record" where
  "new_record did ty code name level desc time = \<lparr>ar_alarm_key = make_key did ty code, ar_device_id = did, ar_type = ty, ar_code = code,
     ar_name = name, ar_level = level, ar_description = desc, ar_timestamp = time, ar_resolved_timestamp = None, ar_status = ACTIVE\<rparr>"

fun handle_event :: "device_event \<Rightarrow> alarm_manager \<Rightarrow> alarm_manager" where
  "handle_event (Disconnected did reason time) m =
     create_alarm (new_record did DISCONNECT (am_disconnect_code m) (am_disconnect_name m) WARNING reason time) m"
| "handle_event (Connected did time) m = resolve_alarm (make_key did DISCONNECT (am_disconnect_code m)) time m"
| "handle_event (AlarmTriggered did a time) m =
     create_alarm (new_record did DEVICE_ALARM (al_code a) (al_name a) (al_level a) (al_description a) time) m"
| "handle_event (AlarmCleared did a time) m = resolve_alarm (make_key did DEVICE_ALARM (al_code a)) time m"
| "handle_event (CapabilityRemoved did cap time) m =
     create_alarm (new_record did CAPABILITY_DEGRADED cap (''degraded: '' @ cap) WARNING (did @ '' lost '' @ cap) time) m"
| "handle_event (CapabilityAdded did cap time) m = resolve_alarm (make_key did CAPABILITY_DEGRADED cap) time m"

section \<open>The batcher\<close>

datatype event_category = SYSTEM | REPORT | MAINTENANCE | CUSTOM

datatype notification_item =
    Alarm_Item notification
  | Event_Item string event_category bool

record batch_config =
  bc_flush_interval :: rat
  bc_batch_size_threshold :: int
  bc_max_queue_size :: int
  bc_deduplicate_by_key :: bool

definition batch_config_valid :: "batch_config \<Rightarrow> bool" where
  "batch_config_valid c = (0 < bc_flush_interval c \<and> 0 < bc_batch_size_threshold c \<and> 0 < bc_max_queue_size c)"

fun dedup_key :: "notification_item \<Rightarrow> string option" where
  "dedup_key (Alarm_Item n) = Some (nt_alarm_key n)"
| "dedup_key (Event_Item b c i) = None"

text \<open>The later item takes the place of the earlier one with its key.\<close>

fun deduplicate_loop :: "notification_item list \<Rightarrow> (string \<times> nat) list \<Rightarrow> notification_item list \<Rightarrow> notification_item list" where
  "deduplicate_loop [] seen out = out"
| "deduplicate_loop (i # is) seen out = (case dedup_key i of
       None \<Rightarrow> deduplicate_loop is seen (out @ [i])
     | Some k \<Rightarrow> (case dict_get seen k of
         Some j \<Rightarrow> deduplicate_loop is seen (out[j := i])
       | None \<Rightarrow> deduplicate_loop is (dict_set k (length out) seen) (out @ [i])))"

definition deduplicate :: "notification_item list \<Rightarrow> notification_item list" where
  "deduplicate items = deduplicate_loop items [] []"

definition group_items :: "(notification_item \<Rightarrow> string) \<Rightarrow> notification_item list \<Rightarrow> (string \<times> notification_item list) list" where
  "group_items g items = fold (\<lambda>i gs. dict_set (g i) (dict_get_or gs (g i) [] @ [i]) gs) items []"

record batcher =
  ba_channels :: "nat list"
  ba_config :: batch_config
  ba_group_key :: "notification_item \<Rightarrow> string"
  ba_queue :: "notification_item list"
  ba_sent :: "(nat \<times> notification_item list) list"

definition batcher_init :: "nat list \<Rightarrow> batch_config \<Rightarrow> (notification_item \<Rightarrow> string) \<Rightarrow> batcher" where
  "batcher_init cs cfg g = \<lparr>ba_channels = cs, ba_config = cfg, ba_group_key = g, ba_queue = [], ba_sent = []\<rparr>"

text \<open>Every channel gets the items; one that raises is skipped.\<close>

definition send_to_channels :: "(nat \<Rightarrow> notification_item list \<Rightarrow> bool) \<Rightarrow> notification_item list \<Rightarrow> batcher \<Rightarrow> batcher" where
  "send_to_channels accepts items b = b\<lparr>ba_sent := ba_sent b @ map (\<lambda>c. (c, items)) (filter (\<lambda>c. accepts c items) (ba_channels b))\<rparr>"

definition batcher_flush :: "(nat \<Rightarrow> notification_item list \<Rightarrow> bool) \<Rightarrow> batcher \<Rightarrow> batcher" where
  "batcher_flush accepts b =
     (let items = ba_queue b; b1 = b\<lparr>ba_queue := []\<rparr> in
      if items = [] then b1
      else let items = (if bc_deduplicate_by_key (ba_config b) then deduplicate items else items)
        in fold (\<lambda>(k, is). send_to_channels accepts is) (group_items (ba_group_key b) items) b1)"

text \<open>\<open>deque(maxlen=n).append\<close> drops the first item of a full queue.\<close>

definition append_bounded :: "int \<Rightarrow> 'a \<Rightarrow> 'a list \<Rightarrow> 'a list" where
  "append_bounded n x xs = drop (length (xs @ [x]) - nat n) (xs @ [x])"

definition enqueue_item :: "(nat \<Rightarrow> notification_item list \<Rightarrow> bool) \<Rightarrow> notification_item \<Rightarrow> batcher \<Rightarrow> batcher" where
  "enqueue_item accepts i b =
     (let b1 = b\<lparr>ba_queue := append_bounded (bc_max_queue_size (ba_config b)) i (ba_queue b)\<rparr> in
      if int (length (ba_queue b1)) \<ge> bc_batch_size_threshold (ba_config b) then batcher_flush accepts b1 else b1)"

definition batcher_dispatch :: "(nat \<Rightarrow> notification_item list \<Rightarrow> bool) \<Rightarrow> notification \<Rightarrow> batcher \<Rightarrow> batcher" where
  "batcher_dispatch accepts n b = enqueue_item accepts (Alarm_Item n) b"

definition dispatch_event :: "(nat \<Rightarrow> notification_item list \<Rightarrow> bool) \<Rightarrow> string \<Rightarrow> event_category \<Rightarrow> bool \<Rightarrow> batcher \<Rightarrow> batcher" where
  "dispatch_event accepts body cat immediate b =
     (let e = Event_Item body cat immediate in if immediate then send_to_channels accepts [e] b else enqueue_item accepts e b)"

definition dispatch_immediate :: "(nat \<Rightarrow> notification_item list \<Rightarrow> bool) \<Rightarrow> notification \<Rightarrow> batcher \<Rightarrow> batcher" where
  "dispatch_immediate accepts n b = send_to_channels accepts [Alarm_Item n] b"

text \<open>The dispatcher without batches.\<close>

definition dispatcher_dispatch :: "(nat \<Rightarrow> notification_item list \<Rightarrow> bool) \<Rightarrow> nat list \<Rightarrow> notification \<Rightarrow> (nat \<times> notification) list" where
  "dispatcher_dispatch accepts cs n = map (\<lambda>c. (c, n)) (filter (\<lambda>c. accepts c [Alarm_Item n]) cs)"

section \<open>Records against events\<close>

definition active :: "alarm_manager \<Rightarrow> string \<Rightarrow> bool" where
  "active m k \<longleftrightarrow> (\<exists>r. dict_get (am_repository m) k = Some r \<and> ar_status r = ACTIVE)"

definition told :: "alarm_manager \<Rightarrow> string \<Rightarrow> bool list" where
  "told m k = map (\<lambda>n. nt_event n = TRIGGERED) (filter (\<lambda>n. nt_alarm_key n = k) (am_notified m))"

text \<open>The alarm an event is about, and whether it raises it.\<close>

fun event_change :: "string \<Rightarrow> device_event \<Rightarrow> (string \<times> alarm_type \<times> string) \<times> bool" where
  "event_change code (Disconnected did reason time) = ((did, DISCONNECT, code), True)"
| "event_change code (Connected did time) = ((did, DISCONNECT, code), False)"
| "event_change code (AlarmTriggered did a time) = ((did, DEVICE_ALARM, al_code a), True)"
| "event_change code (AlarmCleared did a time) = ((did, DEVICE_ALARM, al_code a), False)"
| "event_change code (CapabilityRemoved did cap time) = ((did, CAPABILITY_DEGRADED, cap), True)"
| "event_change code (CapabilityAdded did cap time) = ((did, CAPABILITY_DEGRADED, cap), False)"

definition source_key :: "string \<times> alarm_type \<times> string \<Rightarrow> string" where
  "source_key = (\<lambda>(did, ty, code). make_key did ty code)"

definition plain_id :: "string \<Rightarrow> bool" where
  "plain_id did \<longleftrightarrow> CHR '':'' \<notin> set did"

lemma colon_split:
  assumes "CHR '':'' \<notin> set a" "CHR '':'' \<notin> set b" "a @ CHR '':'' # x = b @ CHR '':'' # y"
  shows "a = b \<and> x = y"
proof -
  have cut: "takeWhile (\<lambda>c. c \<noteq> CHR '':'') (u @ CHR '':'' # v) = u" if "CHR '':'' \<notin> set u" for u v
    using that by (subst takeWhile_append2) auto
  have "a = b" using cut [OF assms(1), of x] cut [OF assms(2), of y] assms(3) by simp
  then show ?thesis using assms(3) by simp
qed

lemma source_key_inj: "plain_id (fst a) \<Longrightarrow> plain_id (fst b) \<Longrightarrow> source_key a = source_key b \<longleftrightarrow> a = b"
proof -
  assume ids: "plain_id (fst a)" "plain_id (fst b)"
  obtain d t c d' t' c' where ab: "a = (d, t, c)" "b = (d', t', c')" by (cases a; cases b) auto
  have types: "CHR '':'' \<notin> set (alarm_type_value ty)" for ty by (cases ty) auto
  have "t = t'" if "alarm_type_value t = alarm_type_value t'" using that by (cases t; cases t') auto
  then show ?thesis using ids colon_split [of d d'] colon_split [OF types [of t] types [of t'], of c c']
    by (auto simp: ab source_key_def make_key_def plain_id_def)
qed

lemma create_effect:
  assumes "am_dispatcher m" "ar_status r = ACTIVE"
  shows "active (create_alarm r m) j \<longleftrightarrow> j = ar_alarm_key r \<or> active m j"
    "told (create_alarm r m) j = told m j @ (if j = ar_alarm_key r \<and> \<not> active m j then [True] else [])"
  using assms by (auto simp: create_alarm_def alarm_upsert_def active_def told_def notify_def emit_history_def Let_def
    map_of_dict_set from_alarm_record_def split: option.splits)

lemma resolve_effect:
  assumes "am_dispatcher m"
  shows "active (resolve_alarm k time m) j \<longleftrightarrow> j \<noteq> k \<and> active m j"
    "told (resolve_alarm k time m) j = told m j @ (if j = k \<and> active m j then [False] else [])"
  using assms by (auto simp: resolve_alarm_def alarm_resolve_def active_def told_def notify_def emit_history_def Let_def
    map_of_dict_set split: option.splits)

lemma manager_frame:
  "am_dispatcher (create_alarm r m) = am_dispatcher m" "am_disconnect_code (create_alarm r m) = am_disconnect_code m"
  "am_dispatcher (resolve_alarm k time m) = am_dispatcher m" "am_disconnect_code (resolve_alarm k time m) = am_disconnect_code m"
  by (auto simp: create_alarm_def resolve_alarm_def notify_def emit_history_def Let_def split: prod.split)

lemma handle_effect:
  assumes "am_dispatcher m" "event_change (am_disconnect_code m) e = (src, up)"
  shows "active (handle_event e m) j = (if j = source_key src then up else active m j)"
    "told (handle_event e m) j = told m j @ (if j = source_key src \<and> up \<noteq> active m j then [up] else [])"
    "am_dispatcher (handle_event e m)" "am_disconnect_code (handle_event e m) = am_disconnect_code m"
  using assms by (cases e; auto simp: create_effect resolve_effect manager_frame new_record_def source_key_def)+

lemma fold_handle:
  assumes "am_dispatcher m" "\<forall>e \<in> set es. plain_id (fst (fst (event_change (am_disconnect_code m) e)))" "plain_id (fst src)"
    and "alternates False (told m (source_key src))" "last (False # told m (source_key src)) = active m (source_key src)"
  shows "active (fold handle_event es m) (source_key src)
      = last (active m (source_key src) # map snd (filter (\<lambda>x. fst x = src) (map (event_change (am_disconnect_code m)) es)))
    \<and> alternates False (told (fold handle_event es m) (source_key src))
    \<and> last (False # told (fold handle_event es m) (source_key src)) = active (fold handle_event es m) (source_key src)"
  using assms
proof (induction es arbitrary: m)
  case (Cons e es)
  obtain s up where e: "event_change (am_disconnect_code m) e = (s, up)" by fastforce
  have key: "source_key src = source_key s \<longleftrightarrow> s = src" using source_key_inj [of src s] Cons.prems(2,3) e by auto
  note eff = handle_effect [OF Cons.prems(1) e]
  have alt: "alternates False (told (handle_event e m) (source_key src))"
    "last (False # told (handle_event e m) (source_key src)) = active (handle_event e m) (source_key src)"
    using Cons.prems(4,5) unfolding eff(1,2) by (auto simp: alternates_snoc)
  have "\<forall>e' \<in> set es. plain_id (fst (fst (event_change (am_disconnect_code (handle_event e m)) e')))"
    using Cons.prems(2) by (simp add: eff(4))
  from Cons.IH [OF eff(3) this Cons.prems(3) alt] show ?case
    using e key by (auto simp: eff(1,4))
qed auto

text \<open>
  C31. Alarm records follow the devices: with device ids without a colon, after any events a record is active exactly when the
  last event about that device, kind and code has raised it, and for each record the dispatcher has been given alternating
  notifications, triggered first, the last of which tells whether it is active: repeated events notify nobody.
\<close>

theorem alarm_records_exact:
  assumes "m = fold handle_event es (alarm_manager_init True uploader code name)"
    and "\<forall>e \<in> set es. plain_id (fst (fst (event_change code e)))" "plain_id did"
    and "k = make_key did ty c"
  shows "((\<exists>r. dict_get (am_repository m) k = Some r \<and> ar_status r = ACTIVE)
      \<longleftrightarrow> last (False # map snd (filter (\<lambda>x. fst x = (did, ty, c)) (map (event_change code) es))))
    \<and> alternates False (map (\<lambda>n. nt_event n = TRIGGERED) (filter (\<lambda>n. nt_alarm_key n = k) (am_notified m)))
    \<and> last (False # map (\<lambda>n. nt_event n = TRIGGERED) (filter (\<lambda>n. nt_alarm_key n = k) (am_notified m)))
        = (\<exists>r. dict_get (am_repository m) k = Some r \<and> ar_status r = ACTIVE)"
proof -
  let ?m = "alarm_manager_init True uploader code name" and ?src = "(did, ty, c)"
  have init: "am_dispatcher ?m" "am_disconnect_code ?m = code" "told ?m j = []" "\<not> active ?m j" for j
    by (simp_all add: alarm_manager_init_def told_def active_def)
  have "k = source_key ?src" using assms(4) by (simp add: source_key_def)
  with fold_handle [of ?m es ?src] assms(1-3) init show ?thesis unfolding active_def told_def by auto
qed

definition over_temp :: alarm_def where
  "over_temp = \<lparr>al_code = ''OT'', al_name = ''over'', al_level = ALARM, al_hysteresis = \<lparr>activate_threshold = 1, clear_threshold = 1\<rparr>, al_description = []\<rparr>"

definition demo_device_events :: "device_event list" where
  "demo_device_events = [AlarmTriggered ''a'' over_temp 1, AlarmTriggered ''a'' over_temp 2, Disconnected ''a'' [] 3, AlarmCleared ''a'' over_temp 4, AlarmTriggered ''a'' over_temp 5]"

theorem alarm_records_exact_witness:
  "map nt_event (filter (\<lambda>n. nt_alarm_key n = make_key ''a'' DEVICE_ALARM ''OT'') (am_notified (fold handle_event demo_device_events (alarm_manager_init True False ''D'' ''d''))))
     = [TRIGGERED, RESOLVED_EVENT, TRIGGERED]
   \<and> (\<exists>r. dict_get (am_repository (fold handle_event demo_device_events (alarm_manager_init True False ''D'' ''d''))) (make_key ''a'' DEVICE_ALARM ''OT'') = Some r \<and> ar_status r = ACTIVE)"
proof
  show "map nt_event (filter (\<lambda>n. nt_alarm_key n = make_key ''a'' DEVICE_ALARM ''OT'') (am_notified (fold handle_event demo_device_events (alarm_manager_init True False ''D'' ''d''))))
     = [TRIGGERED, RESOLVED_EVENT, TRIGGERED]" by code_simp
  show "\<exists>r. dict_get (am_repository (fold handle_event demo_device_events (alarm_manager_init True False ''D'' ''d''))) (make_key ''a'' DEVICE_ALARM ''OT'') = Some r \<and> ar_status r = ACTIVE"
    using alarm_records_exact [OF refl _ _ refl, of demo_device_events "''D''" "''a''" False "''d''" DEVICE_ALARM "''OT''"]
    by (simp add: demo_device_events_def plain_id_def over_temp_def)
qed

text \<open>With a colon in an id two devices may share a record, and the device of a resolved alarm is cut off.\<close>

lemma colon_keys_collide: "make_key ''a'' DEVICE_ALARM ''device_alarm:x'' = make_key ''a:device_alarm'' DEVICE_ALARM ''x''"
  by (simp add: make_key_def)

lemma colon_device_cut: "key_device (make_key ''plc:1'' ty c) = ''plc''"
  by (simp add: key_device_def make_key_def)

section \<open>What a channel gets\<close>

definition last_for :: "string \<Rightarrow> notification_item list \<Rightarrow> notification_item option" where
  "last_for k xs = (let ys = filter (\<lambda>i. dedup_key i = Some k) xs in if ys = [] then None else Some (last ys))"

lemma last_for_append: "last_for k (xs @ ys) = (case last_for k ys of None \<Rightarrow> last_for k xs | Some i \<Rightarrow> Some i)"
  by (simp add: last_for_def Let_def last_append)

lemma last_for_single: "last_for k [i] = (if dedup_key i = Some k then Some i else None)"
  by (simp add: last_for_def)

lemma last_for_Nil [simp]: "last_for k [] = None"
  by (simp add: last_for_def)

lemma last_for_filter: "filter (\<lambda>i. dedup_key i = Some k) xs = filter (\<lambda>i. dedup_key i = Some k) ys \<Longrightarrow> last_for k xs = last_for k ys"
  by (simp add: last_for_def)

lemma last_for_Cons: "last_for k (i # is) = (case last_for k is of None \<Rightarrow> if dedup_key i = Some k then Some i else None | Some j \<Rightarrow> Some j)"
  using last_for_append [of k "[i]" "is"] by (simp add: last_for_single split: option.split)

lemma last_for_plain: "dedup_key i = None \<Longrightarrow> last_for k (i # is) = last_for k is"
  by (simp add: last_for_def)

lemma filter_update: "\<not> P (xs ! j) \<Longrightarrow> \<not> P y \<Longrightarrow> filter P (xs[j := y]) = filter P xs"
  by (induction xs arbitrary: j) (auto split: nat.split)

lemma filter_only:
  assumes "j < length xs" "\<forall>i < length xs. P (xs ! i) \<longleftrightarrow> i = j"
  shows "filter P xs = [xs ! j]"
proof -
  have before: "filter P (take j xs) = []" using assms by (auto simp: filter_empty_conv in_set_conv_nth)
  have after: "filter P (drop (Suc j) xs) = []" using assms by (fastforce simp: filter_empty_conv in_set_conv_nth)
  show ?thesis using assms by (subst id_take_nth_drop [OF assms(1)]) (simp add: before after)
qed

text \<open>\<open>seen\<close> holds the place of the only item with a key.\<close>

definition seen_ok :: "(string \<times> nat) list \<Rightarrow> notification_item list \<Rightarrow> bool" where
  "seen_ok seen out \<longleftrightarrow> (\<forall>k. case map_of seen k of
       None \<Rightarrow> \<forall>i < length out. dedup_key (out ! i) \<noteq> Some k
     | Some j \<Rightarrow> j < length out \<and> (\<forall>i < length out. dedup_key (out ! i) = Some k \<longleftrightarrow> i = j))"

lemma seen_ok_Some: "seen_ok seen out \<Longrightarrow> map_of seen k = Some j \<Longrightarrow> j < length out \<and> (\<forall>i < length out. dedup_key (out ! i) = Some k \<longleftrightarrow> i = j)"
  unfolding seen_ok_def by (erule allE [of _ k]) simp

lemma seen_ok_None: "seen_ok seen out \<Longrightarrow> map_of seen k = None \<Longrightarrow> \<forall>i < length out. dedup_key (out ! i) \<noteq> Some k"
  unfolding seen_ok_def by (erule allE [of _ k]) simp

lemma seen_ok_plain: "seen_ok seen out \<Longrightarrow> dedup_key i = None \<Longrightarrow> seen_ok seen (out @ [i])"
  unfolding seen_ok_def by (rule allI, erule_tac x = k in allE) (auto simp: nth_append less_Suc_eq split: option.splits)

lemma seen_ok_new:
  assumes "seen_ok seen out" "dedup_key i = Some k" "map_of seen k = None"
  shows "seen_ok (dict_set k (length out) seen) (out @ [i])"
  unfolding seen_ok_def
proof
  fix j
  show "case map_of (dict_set k (length out) seen) j of None \<Rightarrow> \<forall>a < length (out @ [i]). dedup_key ((out @ [i]) ! a) \<noteq> Some j
      | Some b \<Rightarrow> b < length (out @ [i]) \<and> (\<forall>a < length (out @ [i]). dedup_key ((out @ [i]) ! a) = Some j \<longleftrightarrow> a = b)"
    using seen_ok_None [OF assms(1,3)] seen_ok_None [OF assms(1), of j] seen_ok_Some [OF assms(1), of j] assms(2)
    by (cases "j = k") (auto simp: map_of_dict_set nth_append less_Suc_eq split: option.split)
qed

lemma seen_ok_again:
  assumes "seen_ok seen out" "dedup_key i = Some k" "map_of seen k = Some j"
  shows "seen_ok seen (out[j := i])"
  unfolding seen_ok_def
proof
  fix x
  have "dedup_key (out[j := i] ! a) = dedup_key (out ! a)" if "a < length out" for a
    using seen_ok_Some [OF assms(1,3)] assms(2) that by (auto simp: nth_list_update)
  then show "case map_of seen x of None \<Rightarrow> \<forall>a < length (out[j := i]). dedup_key (out[j := i] ! a) \<noteq> Some x
      | Some b \<Rightarrow> b < length (out[j := i]) \<and> (\<forall>a < length (out[j := i]). dedup_key (out[j := i] ! a) = Some x \<longleftrightarrow> a = b)"
    using seen_ok_None [OF assms(1), of x] seen_ok_Some [OF assms(1), of x] by (cases "map_of seen x") simp_all
qed

lemma deduplicate_loop_plain:
  assumes "seen_ok seen out"
  shows "filter (\<lambda>i. dedup_key i = None \<and> Q i) (deduplicate_loop is seen out) = filter (\<lambda>i. dedup_key i = None \<and> Q i) (out @ is)"
  using assms
proof (induction "is" seen out rule: deduplicate_loop.induct)
  case (2 i "is" seen out)
  show ?case
  proof (cases "dedup_key i")
    case None
    then show ?thesis using "2.IH"(1) [OF None seen_ok_plain [OF "2.prems" None]] by simp
  next
    case (Some key)
    show ?thesis
    proof (cases "map_of seen key")
      case none: None
      then show ?thesis using "2.IH"(2) [OF Some none seen_ok_new [OF "2.prems" Some none]] Some by simp
    next
      case some: (Some j)
      have "dedup_key (out ! j) = Some key" using seen_ok_Some [OF "2.prems" some] by simp
      then show ?thesis using "2.IH"(3) [OF Some some seen_ok_again [OF "2.prems" Some some]] Some some by (simp add: filter_update)
    qed
  qed
qed simp

lemma deduplicate_loop_key:
  assumes "seen_ok seen out"
  shows "filter (\<lambda>i. dedup_key i = Some k) (deduplicate_loop is seen out)
      = (case last_for k is of None \<Rightarrow> filter (\<lambda>i. dedup_key i = Some k) out | Some i \<Rightarrow> [i])"
  using assms
proof (induction "is" seen out rule: deduplicate_loop.induct)
  case (2 i "is" seen out)
  show ?case
  proof (cases "dedup_key i")
    case None
    then show ?thesis using "2.IH"(1) [OF None seen_ok_plain [OF "2.prems" None]] by (simp add: last_for_Cons split: option.split)
  next
    case (Some key)
    show ?thesis
    proof (cases "map_of seen key")
      case none: None
      have "key = k \<Longrightarrow> filter (\<lambda>i. dedup_key i = Some k) out = []"
        using seen_ok_None [OF "2.prems" none] by (auto simp: filter_empty_conv in_set_conv_nth)
      then show ?thesis using "2.IH"(2) [OF Some none seen_ok_new [OF "2.prems" Some none]] Some none by (auto simp: last_for_Cons split: option.split)
    next
      case some: (Some j)
      have j: "j < length out" "\<forall>a < length out. dedup_key (out ! a) = Some key \<longleftrightarrow> a = j" using seen_ok_Some [OF "2.prems" some] by auto
      have "key = k \<Longrightarrow> filter (\<lambda>i. dedup_key i = Some k) (out[j := i]) = [i]"
        using filter_only [of j "out[j := i]" "\<lambda>i. dedup_key i = Some k"] j Some by (auto simp: nth_list_update)
      moreover have "key \<noteq> k \<Longrightarrow> filter (\<lambda>i. dedup_key i = Some k) (out[j := i]) = filter (\<lambda>i. dedup_key i = Some k) out"
        using j Some by (intro filter_update) auto
      ultimately show ?thesis using "2.IH"(3) [OF Some some seen_ok_again [OF "2.prems" Some some]] Some some by (auto simp: last_for_Cons split: option.split)
    qed
  qed
qed simp

lemma deduplicate_filter:
  "filter (\<lambda>i. dedup_key i = None \<and> Q i) (deduplicate items) = filter (\<lambda>i. dedup_key i = None \<and> Q i) items"
  "filter (\<lambda>i. dedup_key i = Some k) (deduplicate items) = (case last_for k items of None \<Rightarrow> [] | Some i \<Rightarrow> [i])"
proof -
  have ok: "seen_ok [] []" by (simp add: seen_ok_def)
  from deduplicate_loop_plain [OF ok] show "filter (\<lambda>i. dedup_key i = None \<and> Q i) (deduplicate items) = filter (\<lambda>i. dedup_key i = None \<and> Q i) items"
    by (simp add: deduplicate_def)
  from deduplicate_loop_key [OF ok] show "filter (\<lambda>i. dedup_key i = Some k) (deduplicate items) = (case last_for k items of None \<Rightarrow> [] | Some i \<Rightarrow> [i])"
    by (simp add: deduplicate_def split: option.split)
qed

text \<open>Groups: what all lies in one group keeps its order.\<close>

definition grouped :: "(notification_item \<Rightarrow> string) \<Rightarrow> (string \<times> notification_item list) list \<Rightarrow> bool" where
  "grouped g gs \<longleftrightarrow> distinct (map fst gs) \<and> (\<forall>(k, is) \<in> set gs. \<forall>i \<in> set is. g i = k)"

lemma grouped_add:
  assumes "grouped g gs"
  shows "grouped g (dict_set (g i) (dict_get_or gs (g i) [] @ [i]) gs)"
    "(\<And>j. P j \<Longrightarrow> g j = x) \<Longrightarrow> filter P (concat (map snd (dict_set (g i) (dict_get_or gs (g i) [] @ [i]) gs))) = filter P (concat (map snd gs) @ [i])"
proof -
  have "\<forall>j \<in> set (dict_get_or gs (g i) [] @ [i]). g j = g i"
    using assms by (auto simp: grouped_def dict_get_or_def split: option.splits dest: map_of_SomeD)
  moreover have "(k, is) \<in> set (dict_set key v gs) \<Longrightarrow> (k, is) = (key, v) \<or> (k, is) \<in> set gs" for k "is" key v
    by (induction gs) (auto split: if_splits)
  ultimately show "grouped g (dict_set (g i) (dict_get_or gs (g i) [] @ [i]) gs)"
    using assms by (fastforce simp: grouped_def distinct_update)
  assume P: "\<And>j. P j \<Longrightarrow> g j = x"
  show "filter P (concat (map snd (dict_set (g i) (dict_get_or gs (g i) [] @ [i]) gs))) = filter P (concat (map snd gs) @ [i])"
    using assms
  proof (induction gs)
    case (Cons e gs)
    obtain k "is" where e: "e = (k, is)" by fastforce
    have rest: "grouped g gs" using Cons.prems by (simp add: grouped_def)
    show ?case
    proof (cases "k = g i")
      case True
      have "filter P (concat (map snd gs)) = []" if "P i"
      proof -
        have "\<forall>(k', is') \<in> set gs. k' \<noteq> g i \<and> (\<forall>j \<in> set is'. g j = k')"
          using Cons.prems True e by (auto simp: grouped_def image_iff)
        then have "\<forall>j \<in> set (concat (map snd gs)). g j \<noteq> g i" by auto
        moreover have "g i = x" using P that by blast
        ultimately have "\<forall>j \<in> set (concat (map snd gs)). \<not> P j" using P by blast
        then show ?thesis by (simp only: filter_empty_conv)
      qed
      then show ?thesis using e True by (auto simp: dict_get_or_def)
    next
      case False
      then show ?thesis using Cons.IH [OF rest] e by (simp add: dict_get_or_def)
    qed
  qed (simp add: dict_get_or_def)
qed

lemma group_filter:
  assumes "\<And>j. P j \<Longrightarrow> g j = x"
  shows "filter P (concat (map snd (group_items g items))) = filter P items"
proof -
  have "grouped g (group_items g items) \<and> filter P (concat (map snd (group_items g items))) = filter P items"
  proof (induction items rule: rev_induct)
    case (snoc i items)
    have step: "group_items g (items @ [i]) = dict_set (g i) (dict_get_or (group_items g items) (g i) [] @ [i]) (group_items g items)"
      by (simp add: group_items_def)
    have filter_step: "filter P (concat (map snd (group_items g (items @ [i])))) = filter P (concat (map snd (group_items g items)) @ [i])"
      unfolding step by (rule grouped_add(2)) (use snoc assms in auto)
    show ?case using snoc filter_step grouped_add(1) [of g "group_items g items" i] by (simp add: step)
  qed (simp add: group_items_def grouped_def)
  then show ?thesis ..
qed

lemma group_set: "set (concat (map snd (group_items g items))) = set items"
proof -
  have "set (filter (\<lambda>j. j = i) (concat (map snd (group_items g items)))) = set (filter (\<lambda>j. j = i) items)" for i
    using group_filter [of "\<lambda>j. j = i" g "g i" items] by simp
  then show ?thesis unfolding set_filter by (simp only: set_eq_iff mem_Collect_eq) blast
qed

definition received :: "nat \<Rightarrow> batcher \<Rightarrow> notification_item list" where
  "received c b = concat (map snd (filter (\<lambda>x. fst x = c) (ba_sent b)))"

fun plain_event :: "notification_item \<Rightarrow> bool" where
  "plain_event (Alarm_Item n) = False"
| "plain_event (Event_Item body cat immediate) = (\<not> immediate)"

lemma plain_event_key: "plain_event i \<Longrightarrow> dedup_key i = None"
  by (cases i) auto

lemma received_send:
  assumes "distinct (ba_channels b)" "c \<in> set (ba_channels b)" "\<forall>is. accepts c is"
  shows "received c (send_to_channels accepts items b) = received c b @ items"
proof -
  have only: "distinct cs \<Longrightarrow> concat (map snd (filter (\<lambda>x. fst x = c) (map (\<lambda>c. (c, items)) (filter (\<lambda>c. accepts c items) cs))))
      = (if c \<in> set cs then items else [])" for cs
    using assms(3) by (induction cs) auto
  show ?thesis using only [OF assms(1)] assms(2) by (simp add: received_def send_to_channels_def)
qed

lemma send_frame [simp]: "ba_channels (send_to_channels accepts items b) = ba_channels b" "ba_queue (send_to_channels accepts items b) = ba_queue b"
  "ba_config (send_to_channels accepts items b) = ba_config b" "ba_group_key (send_to_channels accepts items b) = ba_group_key b"
  by (simp_all add: send_to_channels_def)

lemma received_fold:
  assumes "distinct (ba_channels b)" "c \<in> set (ba_channels b)" "\<forall>is. accepts c is"
  shows "received c (fold (\<lambda>(k, is). send_to_channels accepts is) gs b) = received c b @ concat (map snd gs)
    \<and> ba_queue (fold (\<lambda>(k, is). send_to_channels accepts is) gs b) = ba_queue b
    \<and> ba_channels (fold (\<lambda>(k, is). send_to_channels accepts is) gs b) = ba_channels b
    \<and> ba_config (fold (\<lambda>(k, is). send_to_channels accepts is) gs b) = ba_config b
    \<and> ba_group_key (fold (\<lambda>(k, is). send_to_channels accepts is) gs b) = ba_group_key b"
  using assms by (induction gs arbitrary: b) (auto simp: received_send)

text \<open>The channel and the queue together hold, for each alarm its latest notification, and the events of a group in order.\<close>

definition in_step :: "nat \<Rightarrow> notification_item list \<Rightarrow> batcher \<Rightarrow> bool" where
  "in_step c given b \<longleftrightarrow> (\<forall>k. last_for k (received c b @ ba_queue b) = last_for k given)
     \<and> (\<forall>x. filter (\<lambda>i. plain_event i \<and> ba_group_key b i = x) (received c b @ ba_queue b) = filter (\<lambda>i. plain_event i \<and> ba_group_key b i = x) given)"

definition serves :: "(nat \<Rightarrow> notification_item list \<Rightarrow> bool) \<Rightarrow> nat \<Rightarrow> batcher \<Rightarrow> bool" where
  "serves accepts c b \<longleftrightarrow> distinct (ba_channels b) \<and> c \<in> set (ba_channels b) \<and> (\<forall>is. accepts c is)
     \<and> bc_deduplicate_by_key (ba_config b) \<and> batch_config_valid (ba_config b) \<and> bc_batch_size_threshold (ba_config b) \<le> bc_max_queue_size (ba_config b)"

lemma flush_in_step:
  assumes "serves accepts c b" "in_step c given b"
  shows "in_step c given (batcher_flush accepts b) \<and> serves accepts c (batcher_flush accepts b) \<and> ba_queue (batcher_flush accepts b) = []"
proof (cases "ba_queue b = []")
  case False
  let ?q = "ba_queue b" and ?b = "b\<lparr>ba_queue := []\<rparr>" and ?g = "ba_group_key b"
  let ?out = "concat (map snd (group_items ?g (deduplicate ?q)))"
  have run: "batcher_flush accepts b = fold (\<lambda>(k, is). send_to_channels accepts is) (group_items ?g (deduplicate ?q)) ?b"
    using False assms(1) by (simp add: batcher_flush_def serves_def Let_def)
  have sent: "received c (batcher_flush accepts b) = received c ?b @ ?out \<and> ba_queue (batcher_flush accepts b) = [] \<and> ba_channels (batcher_flush accepts b) = ba_channels b
      \<and> ba_config (batcher_flush accepts b) = ba_config b \<and> ba_group_key (batcher_flush accepts b) = ?g"
    using received_fold [of ?b c accepts "group_items ?g (deduplicate ?q)"] assms(1) by (simp add: run serves_def)
  have "received c ?b = received c b" by (simp add: received_def)
  with sent have got: "received c (batcher_flush accepts b) = received c b @ ?out" "ba_queue (batcher_flush accepts b) = []" "ba_group_key (batcher_flush accepts b) = ?g"
    by simp_all
  have keys: "last_for k ?out = last_for k ?q" for k
  proof -
    have "filter (\<lambda>i. dedup_key i = Some k) ?out = filter (\<lambda>i. dedup_key i = Some k) (deduplicate ?q)"
    proof (cases "last_for k ?q")
      case None
      then have none: "filter (\<lambda>i. dedup_key i = Some k) (deduplicate ?q) = []" by (simp add: deduplicate_filter(2))
      then have "filter (\<lambda>i. dedup_key i = Some k) ?out = []" unfolding filter_empty_conv group_set .
      then show ?thesis by (simp only: none)
    next
      case (Some i)
      then have one: "filter (\<lambda>i. dedup_key i = Some k) (deduplicate ?q) = [i]" by (simp add: deduplicate_filter(2))
      then have "set (filter (\<lambda>i. dedup_key i = Some k) (deduplicate ?q)) = {i}" by simp
      then have only: "j \<in> set (deduplicate ?q) \<Longrightarrow> dedup_key j = Some k \<longleftrightarrow> j = i" for j by auto
      have "filter (\<lambda>i. dedup_key i = Some k) ?out = filter (\<lambda>j. j = i) ?out"
        by (rule filter_cong [OF refl]) (simp only: group_set only)
      also have "\<dots> = filter (\<lambda>j. j = i) (deduplicate ?q)" by (rule group_filter [where x = "?g i"]) simp
      also have "\<dots> = filter (\<lambda>i. dedup_key i = Some k) (deduplicate ?q)" by (rule filter_cong) (simp_all add: only)
      finally show ?thesis .
    qed
    then have "last_for k ?out = last_for k (deduplicate ?q)" by (rule last_for_filter)
    also have "\<dots> = last_for k ?q"
      using deduplicate_filter(2) [of k ?q] by (cases "last_for k ?q") (simp_all add: last_for_def [of k "deduplicate ?q"])
    finally show ?thesis .
  qed
  have events: "filter (\<lambda>i. plain_event i \<and> ?g i = x) ?out = filter (\<lambda>i. plain_event i \<and> ?g i = x) ?q" for x
  proof -
    have "filter (\<lambda>i. plain_event i \<and> ?g i = x) ?out = filter (\<lambda>i. plain_event i \<and> ?g i = x) (deduplicate ?q)"
      by (rule group_filter [where x = x]) simp
    also have "\<dots> = filter (\<lambda>i. dedup_key i = None \<and> plain_event i \<and> ?g i = x) (deduplicate ?q)"
      by (rule filter_cong) (auto simp: plain_event_key)
    also have "\<dots> = filter (\<lambda>i. dedup_key i = None \<and> plain_event i \<and> ?g i = x) ?q" by (rule deduplicate_filter(1))
    also have "\<dots> = filter (\<lambda>i. plain_event i \<and> ?g i = x) ?q" by (rule filter_cong) (auto simp: plain_event_key)
    finally show ?thesis .
  qed
  have "in_step c given (batcher_flush accepts b)"
    using assms(2) by (simp add: in_step_def got last_for_append keys events)
  then show ?thesis using assms(1) sent got(2) by (simp add: serves_def run)
qed (use assms in \<open>auto simp: batcher_flush_def in_step_def serves_def received_def\<close>)


datatype batch_op = Dispatch notification | Dispatch_Event string event_category bool | Flush

fun batch_step :: "(nat \<Rightarrow> notification_item list \<Rightarrow> bool) \<Rightarrow> batch_op \<Rightarrow> batcher \<Rightarrow> batcher" where
  "batch_step accepts (Dispatch n) b = batcher_dispatch accepts n b"
| "batch_step accepts (Dispatch_Event body cat immediate) b = dispatch_event accepts body cat immediate b"
| "batch_step accepts Flush b = batcher_flush accepts b"

fun given_items :: "batch_op \<Rightarrow> notification_item list" where
  "given_items (Dispatch n) = [Alarm_Item n]"
| "given_items (Dispatch_Event body cat immediate) = (if immediate then [] else [Event_Item body cat immediate])"
| "given_items Flush = []"

definition roomy :: "batcher \<Rightarrow> bool" where
  "roomy b \<longleftrightarrow> int (length (ba_queue b)) < bc_batch_size_threshold (ba_config b)"

lemma enqueue_in_step:
  assumes "serves accepts c b" "in_step c given b" "roomy b"
  shows "in_step c (given @ [i]) (enqueue_item accepts i b) \<and> serves accepts c (enqueue_item accepts i b) \<and> roomy (enqueue_item accepts i b)"
proof -
  let ?b = "b\<lparr>ba_queue := ba_queue b @ [i]\<rparr>"
  have "append_bounded (bc_max_queue_size (ba_config b)) i (ba_queue b) = ba_queue b @ [i]"
  proof -
    have "Suc (length (ba_queue b)) \<le> nat (bc_max_queue_size (ba_config b))" using assms(1,3) by (auto simp: serves_def roomy_def)
    then show ?thesis by (simp add: append_bounded_def)
  qed
  then have run: "enqueue_item accepts i b = (if int (length (ba_queue ?b)) \<ge> bc_batch_size_threshold (ba_config b) then batcher_flush accepts ?b else ?b)"
    by (simp add: enqueue_item_def Let_def)
  have "received c ?b = received c b" by (simp add: received_def)
  then have "in_step c (given @ [i]) ?b"
    using assms(2) by (simp add: in_step_def last_for_append [of _ given] last_for_append [of _ _ "[i]"] split: option.split flip: append_assoc)
  moreover have "serves accepts c ?b" using assms(1) by (simp add: serves_def)
  ultimately show ?thesis
    using flush_in_step [of accepts c ?b "given @ [i]"] run by (auto simp: roomy_def serves_def batch_config_valid_def)
qed

lemma batch_run_in_step:
  assumes "serves accepts c b" "in_step c given b" "roomy b"
  shows "in_step c (given @ concat (map given_items ops)) (fold (batch_step accepts) ops b) \<and> serves accepts c (fold (batch_step accepts) ops b)"
  using assms
proof (induction ops arbitrary: b given)
  case (Cons op ops)
  have "in_step c (given @ given_items op) (batch_step accepts op b) \<and> serves accepts c (batch_step accepts op b) \<and> roomy (batch_step accepts op b)"
  proof (cases op)
    case (Dispatch_Event body cat immediate)
    show ?thesis
    proof (cases immediate)
      case True
      have sent: "received c (send_to_channels accepts [Event_Item body cat True] b) = received c b @ [Event_Item body cat True]"
        using Cons.prems(1) by (intro received_send) (auto simp: serves_def)
      then have "in_step c given (send_to_channels accepts [Event_Item body cat True] b)"
        using Cons.prems(2) by (simp add: in_step_def last_for_append last_for_plain)
      then show ?thesis using Cons.prems True Dispatch_Event by (simp add: dispatch_event_def serves_def roomy_def)
    qed (use enqueue_in_step [OF Cons.prems] Dispatch_Event in \<open>simp add: dispatch_event_def\<close>)
  next
    case Flush
    then show ?thesis using flush_in_step [OF Cons.prems(1,2)] by (auto simp: roomy_def serves_def batch_config_valid_def)
  qed (use enqueue_in_step [OF Cons.prems] in \<open>simp add: batcher_dispatch_def\<close>)
  then show ?case using Cons.IH by fastforce
qed simp

text \<open>
  Batching loses no alarm: with deduplication and a threshold within the size of the queue, after any dispatches and
  flushes that end with a flush, a channel that accepts its batches has got, for every alarm key, as its last
  notification the last one dispatched, and of each group all events, in the order of their dispatch.
\<close>

theorem batch_keeps_latest:
  assumes "distinct channels" "c \<in> set channels" "\<forall>is. accepts c is" "batch_config_valid cfg" "bc_deduplicate_by_key cfg"
    and "bc_batch_size_threshold cfg \<le> bc_max_queue_size cfg"
    and "got = concat (map snd (filter (\<lambda>x. fst x = c) (ba_sent (batcher_flush accepts (fold (batch_step accepts) ops (batcher_init channels cfg g))))))"
  shows "last_for k got = last_for k (concat (map given_items ops))
    \<and> filter (\<lambda>i. plain_event i \<and> g i = x) got = filter (\<lambda>i. plain_event i \<and> g i = x) (concat (map given_items ops))"
proof -
  let ?b = "batcher_init channels cfg g" and ?run = "fold (batch_step accepts) ops (batcher_init channels cfg g)"
  have start: "serves accepts c ?b" "in_step c [] ?b" "roomy ?b"
    using assms(1-6) by (simp_all add: batcher_init_def serves_def in_step_def roomy_def received_def batch_config_valid_def)
  have "ba_group_key (fold (\<lambda>(k, is). send_to_channels accepts is) gs b) = ba_group_key b" for b and gs :: "(string \<times> notification_item list) list"
    by (induction gs arbitrary: b) auto
  then have flush_g: "ba_group_key (batcher_flush accepts b) = ba_group_key b" for b by (simp add: batcher_flush_def Let_def)
  have "ba_group_key (batch_step accepts op b) = ba_group_key b" for op b
    by (cases op) (simp_all add: batcher_dispatch_def dispatch_event_def enqueue_item_def flush_g Let_def)
  then have "ba_group_key (fold (batch_step accepts) ops b) = ba_group_key b" for b by (induction ops arbitrary: b) auto
  then have g: "ba_group_key (batcher_flush accepts ?run) = g" by (simp add: flush_g batcher_init_def)
  from batch_run_in_step [OF start, of ops] have "in_step c (concat (map given_items ops)) ?run" "serves accepts c ?run" by simp_all
  from flush_in_step [OF this(2,1)]
  have "in_step c (concat (map given_items ops)) (batcher_flush accepts ?run)" and empty: "ba_queue (batcher_flush accepts ?run) = []" by simp_all
  then show ?thesis using assms(7) by (simp add: in_step_def g received_def empty)
qed

definition demo_note :: "notification_event \<Rightarrow> notification_item" where
  "demo_note ev = Alarm_Item \<lparr>nt_body = [], nt_level = ALARM, nt_device_id = ''a'', nt_alarm_key = ''k'', nt_event = ev, nt_occurred_at = 0\<rparr>"

definition the_note :: "notification_event \<Rightarrow> notification" where
  "the_note ev = \<lparr>nt_body = [], nt_level = ALARM, nt_device_id = ''a'', nt_alarm_key = ''k'', nt_event = ev, nt_occurred_at = 0\<rparr>"

definition demo_batch :: batch_config where
  "demo_batch = \<lparr>bc_flush_interval = 5, bc_batch_size_threshold = 3, bc_max_queue_size = 4, bc_deduplicate_by_key = True\<rparr>"

definition demo_batch_ops :: "batch_op list" where
  "demo_batch_ops = [Dispatch (the_note TRIGGERED), Dispatch_Event ''x'' SYSTEM False, Dispatch (the_note RESOLVED_EVENT), Dispatch (the_note TRIGGERED), Dispatch (the_note RESOLVED_EVENT)]"

theorem batch_keeps_latest_witness:
  "last_for ''k'' (concat (map snd (filter (\<lambda>x. fst x = 1) (ba_sent (batcher_flush (\<lambda>_ _. True)
     (fold (batch_step (\<lambda>_ _. True)) demo_batch_ops (batcher_init [0, 1] demo_batch (\<lambda>_. []))))))))
   = Some (demo_note RESOLVED_EVENT)"
proof -
  have "last_for ''k'' (concat (map given_items demo_batch_ops)) = Some (demo_note RESOLVED_EVENT)" by code_simp
  then show ?thesis
    using batch_keeps_latest [of "[0, 1]" 1 "\<lambda>_ _. True" demo_batch _ demo_batch_ops "\<lambda>_. []" "''k''"]
    by (simp add: demo_batch_def batch_config_valid_def)
qed

text \<open>An immediate notification overtakes the queued ones of its key, and a channel that rejects a batch never gets it again.\<close>

lemma immediate_overtakes:
  "received 0 (batcher_flush (\<lambda>_ _. True) (dispatch_immediate (\<lambda>_ _. True) (the_note RESOLVED_EVENT)
     (batcher_dispatch (\<lambda>_ _. True) (the_note TRIGGERED) (batcher_init [0] demo_batch (\<lambda>_. []))))) = [demo_note RESOLVED_EVENT, demo_note TRIGGERED]"
  by code_simp

lemma rejected_batch_lost:
  assumes "\<forall>c is. \<not> accepts c is"
  shows "ba_queue (batcher_flush accepts b) = [] \<and> ba_sent (batcher_flush accepts b) = ba_sent b"
proof -
  have "ba_queue (fold (\<lambda>(k, is). send_to_channels accepts is) gs u) = ba_queue u \<and> ba_sent (fold (\<lambda>(k, is). send_to_channels accepts is) gs u) = ba_sent u"
    for u and gs :: "(string \<times> notification_item list) list"
    using assms by (induction gs arbitrary: u) (auto simp: send_to_channels_def)
  then show ?thesis by (simp add: batcher_flush_def Let_def)
qed

end
