(* ===== verification/Statistics.thy ===== *)
theory Statistics
  imports Device_Registry
begin

text \<open>
  The energy statistics of \<open>csp_lib/statistics\<close>: the accumulator of one interval, the tracker of a device, the
  engine with its power sums and the manager that turns completed intervals into documents. A time is in seconds
  since the beginning of some hour of the clock.
\<close>

section \<open>Configuration\<close>

datatype meter_type = CUMULATIVE | INSTANTANEOUS

record metric_definition =
  me_device_id :: string
  me_meter_type :: meter_type
  me_point_name :: string

record power_sum_definition =
  ps_name :: string
  ps_trait :: string
  ps_point_name :: string

record statistics_config =
  st_metrics :: "metric_definition list"
  st_power_sums :: "power_sum_definition list"
  st_intervals :: "int list"

section \<open>One interval\<close>

record interval_record =
  ir_device_id :: string
  ir_interval_minutes :: int
  ir_period_start :: rat
  ir_period_end :: rat
  ir_kwh :: flt
  ir_sample_count :: nat
  ir_meter_type :: meter_type

record accumulator =
  ia_device_id :: string
  ia_interval_minutes :: int
  ia_meter_type :: meter_type
  ia_period_start :: "rat option"
  ia_sample_count :: nat
  ia_first_value :: "flt option"
  ia_last_value :: "flt option"
  ia_kwh_accumulated :: flt
  ia_prev :: "(flt \<times> rat) option"

definition accumulator_init :: "string \<Rightarrow> int \<Rightarrow> meter_type \<Rightarrow> accumulator" where
  "accumulator_init did i ty = \<lparr>ia_device_id = did, ia_interval_minutes = i, ia_meter_type = ty, ia_period_start = None, ia_sample_count = 0,
     ia_first_value = None, ia_last_value = None, ia_kwh_accumulated = 0, ia_prev = None\<rparr>"

text \<open>The minute of the hour, and the time with the minute rounded down to a multiple of the interval.\<close>

definition minute_of :: "rat \<Rightarrow> int" where
  "minute_of t = \<lfloor>t / 60\<rfloor> mod 60"

definition floor_timestamp :: "int \<Rightarrow> rat \<Rightarrow> rat res" where
  "floor_timestamp i t = (if i = 0 then Inl ZeroDivisionError else Inr (of_int (3600 * \<lfloor>t / 3600\<rfloor> + 60 * (minute_of t div i * i))))"

definition start_sample :: "flt \<Rightarrow> rat \<Rightarrow> accumulator \<Rightarrow> accumulator" where
  "start_sample v t a = (case ia_meter_type a of
       CUMULATIVE \<Rightarrow> a\<lparr>ia_sample_count := 1, ia_first_value := Some v, ia_last_value := Some v\<rparr>
     | INSTANTANEOUS \<Rightarrow> a\<lparr>ia_sample_count := 1, ia_kwh_accumulated := 0, ia_prev := Some (v, t)\<rparr>)"

definition accumulate :: "flt \<Rightarrow> rat \<Rightarrow> accumulator \<Rightarrow> accumulator" where
  "accumulate v t a = (case ia_meter_type a of
       CUMULATIVE \<Rightarrow> a\<lparr>ia_sample_count := ia_sample_count a + 1, ia_last_value := Some v\<rparr>
     | INSTANTANEOUS \<Rightarrow> a\<lparr>ia_sample_count := ia_sample_count a + 1, ia_prev := Some (v, t),
         ia_kwh_accumulated := (case ia_prev a of None \<Rightarrow> ia_kwh_accumulated a
           | Some (p, pt) \<Rightarrow> ia_kwh_accumulated a + (p + v) * Fin (1 / 2) * Fin ((t - pt) / 3600))\<rparr>)"

definition or_zero :: "flt option \<Rightarrow> flt" where
  "or_zero x = (case x of None \<Rightarrow> 0 | Some v \<Rightarrow> v)"

definition finalize :: "rat \<Rightarrow> accumulator \<Rightarrow> interval_record" where
  "finalize boundary a = \<lparr>ir_device_id = ia_device_id a, ir_interval_minutes = ia_interval_minutes a,
     ir_period_start = (case ia_period_start a of None \<Rightarrow> 0 | Some s \<Rightarrow> s), ir_period_end = boundary,
     ir_kwh = (case ia_meter_type a of CUMULATIVE \<Rightarrow> or_zero (ia_last_value a) - or_zero (ia_first_value a) | INSTANTANEOUS \<Rightarrow> ia_kwh_accumulated a),
     ir_sample_count = ia_sample_count a, ir_meter_type = ia_meter_type a\<rparr>"

definition reset_accumulator :: "accumulator \<Rightarrow> accumulator" where
  "reset_accumulator a = a\<lparr>ia_first_value := None, ia_last_value := None, ia_kwh_accumulated := 0, ia_prev := None, ia_sample_count := 0\<rparr>"

definition acc_feed :: "flt \<Rightarrow> rat \<Rightarrow> (accumulator, interval_record option) op" where
  "acc_feed v t a = (case ia_period_start a of
       None \<Rightarrow> (case floor_timestamp (ia_interval_minutes a) t of
           Inl e \<Rightarrow> (Inl e, a)
         | Inr s \<Rightarrow> (Inr None, start_sample v t (a\<lparr>ia_period_start := Some s\<rparr>)))
     | Some s \<Rightarrow> (let boundary = s + 60 * of_int (ia_interval_minutes a) in
         if boundary \<le> t then
           (case floor_timestamp (ia_interval_minutes a) t of
              Inl e \<Rightarrow> (Inl e, a)
            | Inr s' \<Rightarrow> (Inr (Some (finalize boundary a)), start_sample v t (reset_accumulator (a\<lparr>ia_period_start := Some s'\<rparr>))))
         else (Inr None, accumulate v t a)))"

section \<open>Trackers and the engine\<close>

type_synonym tracker = "accumulator list"

fun tracker_feed :: "flt \<Rightarrow> rat \<Rightarrow> (tracker, interval_record list) op" where
  "tracker_feed v t [] = (Inr [], [])"
| "tracker_feed v t (a # as) = (case acc_feed v t a of
     (Inl e, a') \<Rightarrow> (Inl e, a' # as)
   | (Inr r, a') \<Rightarrow> (case tracker_feed v t as of
       (Inl e, as') \<Rightarrow> (Inl e, a' # as')
     | (Inr rs, as') \<Rightarrow> (Inr ((case r of None \<Rightarrow> [] | Some x \<Rightarrow> [x]) @ rs), a' # as')))"

record power_sum_record =
  pr_name :: string
  pr_interval_minutes :: int
  pr_period_start :: rat
  pr_period_end :: rat
  pr_total_power :: flt
  pr_device_count :: nat

record statistics_engine =
  se_config :: statistics_config
  se_trackers :: "(string \<times> tracker) list"
  se_metric_points :: "(string \<times> string) list"
  se_power_values :: "(string \<times> (string \<times> flt) list) list"
  se_device_sums :: "(string \<times> (string \<times> string) list) list"

definition engine_init :: "statistics_config \<Rightarrow> statistics_engine" where
  "engine_init c = \<lparr>se_config = c,
     se_trackers = fold (\<lambda>m. dict_set (me_device_id m) (map (\<lambda>i. accumulator_init (me_device_id m) i (me_meter_type m)) (st_intervals c))) (st_metrics c) [],
     se_metric_points = fold (\<lambda>m. dict_set (me_device_id m) (me_point_name m)) (st_metrics c) [],
     se_power_values = fold (\<lambda>ps. dict_set (ps_name ps) []) (st_power_sums c) [], se_device_sums = []\<rparr>"

definition register_sum_device :: "string \<Rightarrow> string \<Rightarrow> string \<Rightarrow> statistics_engine \<Rightarrow> statistics_engine" where
  "register_sum_device name point did e =
     (let mine = dict_get_or (se_device_sums e) did [] in
      if (name, point) \<in> set mine then e\<lparr>se_device_sums := dict_set did mine (se_device_sums e)\<rparr>
      else e\<lparr>se_device_sums := dict_set did (mine @ [(name, point)]) (se_device_sums e),
             se_power_values := dict_set name (dict_set did 0 (dict_get_or (se_power_values e) name [])) (se_power_values e)\<rparr>)"

definition register_power_sum_devices :: "string \<Rightarrow> string list \<Rightarrow> statistics_engine \<Rightarrow> statistics_engine" where
  "register_power_sum_devices name dids e = (case filter (\<lambda>ps. ps_name ps = name) (st_power_sums (se_config e)) of
       [] \<Rightarrow> e
     | ps # _ \<Rightarrow> fold (register_sum_device name (ps_point_name ps)) dids e)"

definition finite_number :: "pyval \<Rightarrow> bool" where
  "finite_number v = (is_num_val v \<and> is_finite (flt_val v))"

definition update_sum :: "string \<Rightarrow> (string \<times> pyval) list \<Rightarrow> string \<times> string \<Rightarrow> statistics_engine \<Rightarrow> statistics_engine" where
  "update_sum did vals = (\<lambda>(name, point) e. case dict_get vals point of
       None \<Rightarrow> e
     | Some v \<Rightarrow> if finite_number v then e\<lparr>se_power_values := dict_set name (dict_set did (flt_val v) (dict_get_or (se_power_values e) name [])) (se_power_values e)\<rparr>
         else e)"

definition process_read :: "string \<Rightarrow> (string \<times> pyval) list \<Rightarrow> rat \<Rightarrow> (statistics_engine, interval_record list) op" where
  "process_read did vals t e =
     (let tracked = (case dict_get (se_metric_points e) did of
            None \<Rightarrow> (Inr [], e)
          | Some point \<Rightarrow> (case dict_get vals point of
              None \<Rightarrow> (Inr [], e)
            | Some v \<Rightarrow> if point \<noteq> [] \<and> finite_number v then
                (case dict_get (se_trackers e) did of None \<Rightarrow> (Inl KeyError, e)
                 | Some tr \<Rightarrow> (case tracker_feed (flt_val v) t tr of (r, tr') \<Rightarrow> (r, e\<lparr>se_trackers := dict_set did tr' (se_trackers e)\<rparr>)))
                else (Inr [], e)))
      in case tracked of (Inl x, e1) \<Rightarrow> (Inl x, e1)
         | (Inr rs, e1) \<Rightarrow> (Inr rs, fold (update_sum did vals) (dict_get_or (se_device_sums e1) did []) e1))"

definition get_power_sum :: "statistics_engine \<Rightarrow> string \<Rightarrow> flt" where
  "get_power_sum e name = foldl (+) 0 (map snd (dict_get_or (se_power_values e) name []))"

definition get_all_power_sums :: "statistics_engine \<Rightarrow> (string \<times> flt) list" where
  "get_all_power_sums e = map (\<lambda>(name, vals). (name, get_power_sum e name)) (se_power_values e)"

definition build_power_sum_records :: "statistics_engine \<Rightarrow> int \<Rightarrow> rat \<Rightarrow> rat \<Rightarrow> power_sum_record list" where
  "build_power_sum_records e i s t = map (\<lambda>(name, vals). \<lparr>pr_name = name, pr_interval_minutes = i, pr_period_start = s, pr_period_end = t,
     pr_total_power = foldl (+) 0 (map snd vals), pr_device_count = length vals\<rparr>) (se_power_values e)"

section \<open>The manager\<close>

datatype statistics_document = Energy interval_record | PowerSum power_sum_record

record statistics_manager =
  sm_engine :: statistics_engine
  sm_uploaded :: "statistics_document list"

text \<open>Power sums of the intervals of the records, each interval length once.\<close>

fun sum_documents :: "statistics_engine \<Rightarrow> int list \<Rightarrow> interval_record list \<Rightarrow> power_sum_record list" where
  "sum_documents e seen [] = []"
| "sum_documents e seen (r # rs) = (if ir_interval_minutes r \<in> set seen then sum_documents e seen rs
     else build_power_sum_records e (ir_interval_minutes r) (ir_period_start r) (ir_period_end r) @ sum_documents e (ir_interval_minutes r # seen) rs)"

definition on_read_complete :: "string \<Rightarrow> (string \<times> pyval) list \<Rightarrow> rat \<Rightarrow> (statistics_manager, unit) op" where
  "on_read_complete did vals t m = (case process_read did vals t (sm_engine m) of
       (Inl x, e) \<Rightarrow> (Inl x, m\<lparr>sm_engine := e\<rparr>)
     | (Inr rs, e) \<Rightarrow> (Inr (), m\<lparr>sm_engine := e, sm_uploaded := sm_uploaded m @ map Energy rs
         @ (if rs \<noteq> [] \<and> st_power_sums (se_config e) \<noteq> [] then map PowerSum (sum_documents e [] rs) else [])\<rparr>))"

definition statistics_init :: "(nat \<Rightarrow> device) \<Rightarrow> registry option \<Rightarrow> statistics_config \<Rightarrow> statistics_manager" where
  "statistics_init store reg c =
     \<lparr>sm_engine = (case reg of None \<Rightarrow> engine_init c
        | Some r \<Rightarrow> fold (\<lambda>ps. register_power_sum_devices (ps_name ps) (map (\<lambda>d. dev_id (store d)) (case get_devices_by_trait r (ps_trait ps) of Inl x \<Rightarrow> [] | Inr ds \<Rightarrow> ds)))
            (st_power_sums c) (engine_init c)),
      sm_uploaded = []\<rparr>"

section \<open>The intervals a run of samples falls into\<close>

text \<open>Interval \<open>s\<close> of length \<open>i\<close> minutes holds the times in \<open>[60 i s, 60 i (s + 1))\<close>.\<close>

definition slot :: "int \<Rightarrow> rat \<Rightarrow> int" where
  "slot i t = \<lfloor>t / of_int (60 * i)\<rfloor>"

definition energy_of :: "meter_type \<Rightarrow> (flt \<times> rat) list \<Rightarrow> flt" where
  "energy_of ty xs = (case ty of
       CUMULATIVE \<Rightarrow> fst (last xs) - fst (hd xs)
     | INSTANTANEOUS \<Rightarrow> foldl (\<lambda>w ((p, pt), (v, t)). w + (p + v) * Fin (1 / 2) * Fin ((t - pt) / 3600)) 0 (zip xs (tl xs)))"

definition samples_of :: "int \<Rightarrow> (flt \<times> rat) list \<Rightarrow> int \<Rightarrow> (flt \<times> rat) list" where
  "samples_of i xs s = filter (\<lambda>x. slot i (snd x) = s) xs"

definition slot_record :: "string \<Rightarrow> int \<Rightarrow> meter_type \<Rightarrow> (flt \<times> rat) list \<Rightarrow> int \<Rightarrow> interval_record" where
  "slot_record did i ty xs s = \<lparr>ir_device_id = did, ir_interval_minutes = i, ir_period_start = of_int (60 * i * s), ir_period_end = of_int (60 * i * (s + 1)),
     ir_kwh = energy_of ty (samples_of i xs s), ir_sample_count = length (samples_of i xs s), ir_meter_type = ty\<rparr>"

text \<open>One record for every interval that was entered and left again.\<close>

definition interval_records :: "string \<Rightarrow> int \<Rightarrow> meter_type \<Rightarrow> (flt \<times> rat) list \<Rightarrow> interval_record list" where
  "interval_records did i ty xs = map (slot_record did i ty xs) (butlast (remdups_adj (map (slot i \<circ> snd) xs)))"

fun acc_run :: "(flt \<times> rat) list \<Rightarrow> accumulator \<Rightarrow> interval_record list \<times> accumulator" where
  "acc_run [] a = ([], a)"
| "acc_run (x # xs) a = (case acc_feed (fst x) (snd x) a of
     (Inl e, a') \<Rightarrow> ([], a')
   | (Inr r, a') \<Rightarrow> (case acc_run xs a' of (rs, a'') \<Rightarrow> ((case r of None \<Rightarrow> [] | Some y \<Rightarrow> [y]) @ rs, a'')))"

definition never_zero :: "accumulator \<Rightarrow> bool" where
  "never_zero a = (ia_interval_minutes a \<noteq> 0)"

lemma floor_div_int: "0 < n \<Longrightarrow> \<lfloor>(x::rat) / of_int n\<rfloor> = \<lfloor>x\<rfloor> div n"
proof (rule floor_unique)
  assume n: "0 < n"
  have "\<lfloor>x\<rfloor> div n * n \<le> \<lfloor>x\<rfloor>" using n by (simp add: div_mult_mod_eq minus_mod_eq_div_mult [symmetric])
  then have "of_int (\<lfloor>x\<rfloor> div n) * of_int n \<le> x" unfolding of_int_mult [symmetric] le_floor_iff .
  then show "of_int (\<lfloor>x\<rfloor> div n) \<le> x / of_int n" using n by (simp add: pos_le_divide_eq)
  have "\<lfloor>x\<rfloor> < (\<lfloor>x\<rfloor> div n + 1) * n" using n by (metis add.commute div_mult_mod_eq distrib_right mult_1 add_less_cancel_left pos_mod_bound mult.commute)
  then have "x < of_int (\<lfloor>x\<rfloor> div n + 1) * of_int n" unfolding of_int_mult [symmetric] floor_less_iff .
  then show "x / of_int n < of_int (\<lfloor>x\<rfloor> div n) + 1" using n by (simp add: pos_divide_less_eq)
qed

lemma div_within: "0 < i \<Longrightarrow> 0 < k \<Longrightarrow> i * k * (m div (i * k)) + m mod (i * k) div i * i = i * (m div (i::int))"
proof -
  assume pos: "0 < i" "0 < k"
  have "m mod (i * k) = i * (m div i mod k) + m mod i" using pos by (simp add: zmod_zmult2_eq)
  then have a: "m mod (i * k) div i = m div i mod k" using pos by simp
  have b: "m div (i * k) = m div i div k" using pos by (simp add: zdiv_zmult2_eq)
  have "k * (m div i div k) + m div i mod k = m div i" by simp
  then show ?thesis unfolding a b by (metis distrib_left mult.assoc mult.commute)
qed

lemma floor_timestamp_slot:
  assumes "0 < i" "i dvd 60"
  shows "floor_timestamp i t = Inr (of_int (60 * i * slot i t))"
proof -
  define m where "m = \<lfloor>t / 60\<rfloor>"
  obtain k where k: "60 = i * k" using assms(2) by (elim dvdE)
  have kp: "0 < k" using assms(1) k by (metis zero_less_mult_pos zero_less_numeral)
  have h: "\<lfloor>t / 3600\<rfloor> = m div 60" using floor_div_int [of 60 "t / 60"] by (simp add: m_def)
  have s: "slot i t = m div i" using floor_div_int [of i "t / 60"] assms(1) by (simp add: m_def slot_def)
  have "60 * (m div 60) + m mod 60 div i * i = i * (m div i)"
    using div_within [OF assms(1) kp, of m] unfolding k [symmetric] .
  then have "3600 * (m div 60) + 60 * (m mod 60 div i * i) = 60 * i * (m div i)" by linarith
  then show ?thesis using assms(1) unfolding floor_timestamp_def minute_of_def h s m_def [symmetric] by simp
qed

lemma slot_next: "0 < i \<Longrightarrow> of_int (60 * i * s) + 60 * of_int i \<le> t \<longleftrightarrow> s < slot i t"
proof -
  assume i: "0 < i"
  have "s < slot i t \<longleftrightarrow> of_int (s + 1) \<le> t / of_int (60 * i)" by (simp only: slot_def less_iff_succ_less_eq le_floor_iff)
  also have "\<dots> \<longleftrightarrow> of_int (s + 1) * of_int (60 * i) \<le> t" using i by (intro pos_le_divide_eq) simp
  finally show ?thesis by (simp add: algebra_simps)
qed

lemma slot_mono: "0 < i \<Longrightarrow> t \<le> t' \<Longrightarrow> slot i t \<le> slot i t'"
  by (auto simp: slot_def intro!: floor_mono divide_right_mono)

text \<open>The accumulator inside interval \<open>s\<close> after the samples \<open>g\<close> of that interval.\<close>

definition acc_within :: "string \<Rightarrow> int \<Rightarrow> meter_type \<Rightarrow> int \<Rightarrow> (flt \<times> rat) list \<Rightarrow> accumulator" where
  "acc_within did i ty s g = \<lparr>ia_device_id = did, ia_interval_minutes = i, ia_meter_type = ty, ia_period_start = Some (of_int (60 * i * s)), ia_sample_count = length g,
     ia_first_value = (if ty = CUMULATIVE then Some (fst (hd g)) else None), ia_last_value = (if ty = CUMULATIVE then Some (fst (last g)) else None),
     ia_kwh_accumulated = (if ty = CUMULATIVE then 0 else energy_of ty g), ia_prev = (if ty = CUMULATIVE then None else Some (last g))\<rparr>"

definition acc_after :: "string \<Rightarrow> int \<Rightarrow> meter_type \<Rightarrow> (flt \<times> rat) list \<Rightarrow> accumulator" where
  "acc_after did i ty xs = (if xs = [] then accumulator_init did i ty
     else acc_within did i ty (slot i (snd (last xs))) (samples_of i xs (slot i (snd (last xs)))))"

lemma zip_tl_snoc: "xs \<noteq> [] \<Longrightarrow> zip (xs @ [x]) (tl (xs @ [x])) = zip xs (tl xs) @ [(last xs, x)]"
proof (induction xs)
  case (Cons y ys)
  then show ?case by (cases ys) simp_all
qed simp

lemma energy_of_snoc: "g \<noteq> [] \<Longrightarrow> energy_of INSTANTANEOUS (g @ [(v, t)]) =
    energy_of INSTANTANEOUS g + (fst (last g) + v) * Fin (1 / 2) * Fin ((t - snd (last g)) / 3600)"
  by (drule zip_tl_snoc [where x = "(v, t)"]) (simp add: energy_of_def case_prod_beta del: tl_append2)

lemma accumulate_within: "g \<noteq> [] \<Longrightarrow> accumulate v t (acc_within did i ty s g) = acc_within did i ty s (g @ [(v, t)])"
  by (cases ty; cases "last g") (simp_all add: accumulate_def acc_within_def energy_of_snoc)

lemma start_within: "start_sample v t (reset_accumulator (acc_within did i ty s g\<lparr>ia_period_start := Some (of_int (60 * i * s'))\<rparr>)) = acc_within did i ty s' [(v, t)]"
  by (cases ty) (simp_all add: start_sample_def reset_accumulator_def acc_within_def energy_of_def)

lemma start_init: "start_sample v t (accumulator_init did i ty\<lparr>ia_period_start := Some (of_int (60 * i * s'))\<rparr>) = acc_within did i ty s' [(v, t)]"
  by (cases ty) (simp_all add: start_sample_def accumulator_init_def acc_within_def energy_of_def)

lemma within_simps [simp]: "ia_period_start (acc_within did i ty s g) = Some (of_int (60 * i * s))" "ia_interval_minutes (acc_within did i ty s g) = i"
  "ia_period_start (accumulator_init did i ty) = None" "ia_interval_minutes (accumulator_init did i ty) = i"
  by (simp_all add: acc_within_def accumulator_init_def)

lemma finalize_within: "finalize (of_int (60 * i * (s + 1))) (acc_within did i ty s (samples_of i xs s)) = slot_record did i ty xs s"
  by (cases ty) (simp_all add: finalize_def acc_within_def slot_record_def or_zero_def energy_of_def)

lemma feed_within:
  assumes "0 < i" "i dvd 60" "g \<noteq> []" "s \<le> slot i t"
  shows "acc_feed v t (acc_within did i ty s g) = (if slot i t = s then (Inr None, acc_within did i ty s (g @ [(v, t)]))
    else (Inr (Some (finalize (of_int (60 * i * (s + 1))) (acc_within did i ty s g))), acc_within did i ty (slot i t) [(v, t)]))"
proof -
  have b: "of_int (60 * i * s) + 60 * of_int i = (of_int (60 * i * (s + 1)) :: rat)" by (simp add: algebra_simps)
  show ?thesis using assms slot_next [OF assms(1), of s t]
    by (simp only: acc_feed_def within_simps option.case Let_def b floor_timestamp_slot sum.case start_within) (auto simp: accumulate_within)
qed

lemma feed_init:
  assumes "0 < i" "i dvd 60"
  shows "acc_feed v t (accumulator_init did i ty) = (Inr None, acc_within did i ty (slot i t) [(v, t)])"
  by (simp only: acc_feed_def within_simps option.case floor_timestamp_slot [OF assms] sum.case start_init)

lemma remdups_adj_snoc: "remdups_adj (xs @ [x]) = (if xs \<noteq> [] \<and> last xs = x then remdups_adj xs else remdups_adj xs @ [x])"
  by (induction xs rule: remdups_adj.induct) auto

lemma remdups_adj_last: "xs \<noteq> [] \<Longrightarrow> last (remdups_adj xs) = last xs"
  by (induction xs rule: remdups_adj.induct) auto

lemma sorted_le_last: "sorted xs \<Longrightarrow> y \<in> set xs \<Longrightarrow> y \<le> last xs"
  by (induction xs) auto

lemma sorted_before_last: "sorted xs \<Longrightarrow> y \<in> set (butlast (remdups_adj xs)) \<Longrightarrow> (y::int) < last xs"
proof (induction xs rule: rev_induct)
  case (snoc z zs)
  show ?case
  proof (cases "zs \<noteq> [] \<and> last zs = z")
    case True
    then show ?thesis using snoc by (simp add: remdups_adj_snoc sorted_append)
  next
    case False
    then have "remdups_adj (zs @ [z]) = remdups_adj zs @ [z]" by (auto simp: remdups_adj_snoc)
    then have y: "y \<in> set zs" using snoc.prems(2) by simp
    moreover from y have "zs \<noteq> []" by auto
    ultimately have "y \<le> last zs" "last zs \<le> z" "last zs \<noteq> z" using snoc.prems(1) False by (auto simp: sorted_append sorted_le_last)
    then show ?thesis by simp
  qed
qed simp

lemma sample_frame [simp]: "ia_interval_minutes (start_sample v t a) = ia_interval_minutes a" "ia_interval_minutes (accumulate v t a) = ia_interval_minutes a"
  "ia_device_id (start_sample v t a) = ia_device_id a" "ia_device_id (accumulate v t a) = ia_device_id a"
  "ia_interval_minutes (reset_accumulator a) = ia_interval_minutes a" "ia_device_id (reset_accumulator a) = ia_device_id a"
  by (simp_all add: start_sample_def accumulate_def reset_accumulator_def split: meter_type.split)

lemma finalize_frame [simp]: "ir_interval_minutes (finalize b a) = ia_interval_minutes a" "ir_device_id (finalize b a) = ia_device_id a"
  by (simp_all add: finalize_def)

lemma feed_total:
  assumes "never_zero a"
  obtains r a' where "acc_feed v t a = (Inr r, a')" "ia_interval_minutes a' = ia_interval_minutes a" "ia_device_id a' = ia_device_id a"
    "\<forall>y. r = Some y \<longrightarrow> ir_interval_minutes y = ia_interval_minutes a \<and> ir_device_id y = ia_device_id a"
proof -
  have "\<exists>r a'. acc_feed v t a = (Inr r, a') \<and> ia_interval_minutes a' = ia_interval_minutes a \<and> ia_device_id a' = ia_device_id a
      \<and> (\<forall>y. r = Some y \<longrightarrow> ir_interval_minutes y = ia_interval_minutes a \<and> ir_device_id y = ia_device_id a)"
    using assms by (cases "ia_period_start a") (simp_all add: acc_feed_def never_zero_def floor_timestamp_def Let_def)
  then show thesis using that by blast
qed

lemma acc_run_append: "never_zero a \<Longrightarrow> acc_run xs a = (r1, b) \<Longrightarrow> acc_run ys b = (r2, c) \<Longrightarrow> acc_run (xs @ ys) a = (r1 @ r2, c)"
proof (induction xs arbitrary: a r1 b)
  case (Cons x xs)
  obtain r a' where f: "acc_feed (fst x) (snd x) a = (Inr r, a')" "ia_interval_minutes a' = ia_interval_minutes a" using feed_total [OF Cons.prems(1)] .
  then have nz: "never_zero a'" using Cons.prems(1) by (simp add: never_zero_def)
  obtain r' b' where run: "acc_run xs a' = (r', b')" by (cases "acc_run xs a'")
  then show ?case using Cons.prems f(1) Cons.IH [OF nz run] by auto
qed simp

lemma samples_of_snoc: "samples_of i (xs @ [x]) s = samples_of i xs s @ (if slot i (snd x) = s then [x] else [])"
  by (simp add: samples_of_def)

lemma slot_record_snoc: "s \<noteq> slot i (snd x) \<Longrightarrow> slot_record did i ty (xs @ [x]) s = slot_record did i ty xs s"
  by (simp add: slot_record_def samples_of_snoc)

lemma records_snoc_same:
  assumes "xs \<noteq> []" "slot i (snd x) = slot i (snd (last xs))" "sorted (map (slot i \<circ> snd) xs)"
  shows "interval_records did i ty (xs @ [x]) = interval_records did i ty xs"
proof -
  let ?m = "map (slot i \<circ> snd) xs"
  have r: "remdups_adj (map (slot i \<circ> snd) (xs @ [x])) = remdups_adj ?m" using assms(1, 2) by (simp add: remdups_adj_snoc last_map)
  have "\<forall>s\<in>set (butlast (remdups_adj ?m)). s \<noteq> slot i (snd x)" using sorted_before_last [OF assms(3)] assms(1, 2) by (force simp: last_map)
  then show ?thesis unfolding interval_records_def r by (simp add: slot_record_snoc)
qed

lemma records_snoc_new:
  assumes "xs \<noteq> []" "slot i (snd (last xs)) < slot i (snd x)" "sorted (map (slot i \<circ> snd) xs)"
  shows "interval_records did i ty (xs @ [x]) = interval_records did i ty xs @ [slot_record did i ty xs (slot i (snd (last xs)))]"
proof -
  let ?m = "map (slot i \<circ> snd) xs"
  have r: "remdups_adj (map (slot i \<circ> snd) (xs @ [x])) = remdups_adj ?m @ [slot i (snd x)]" using assms(1, 2) by (simp add: remdups_adj_snoc last_map)
  have l: "last (remdups_adj ?m) = slot i (snd (last xs))" using assms(1) by (simp add: remdups_adj_last last_map)
  have e: "remdups_adj ?m = butlast (remdups_adj ?m) @ [slot i (snd (last xs))]" using assms(1) l by (metis append_butlast_last_id map_is_Nil_conv remdups_adj_Nil_iff)
  have "\<forall>s\<in>set (butlast (remdups_adj ?m)). s < slot i (snd x)" using sorted_before_last [OF assms(3)] assms(1, 2) by (force simp: last_map)
  then have "\<forall>s\<in>set (remdups_adj ?m). s \<noteq> slot i (snd x)" using assms(2) by (subst e) auto
  then have "interval_records did i ty (xs @ [x]) = map (slot_record did i ty xs) (remdups_adj ?m)"
    unfolding interval_records_def r by (simp add: slot_record_snoc)
  then show ?thesis unfolding interval_records_def by (subst (asm) e) simp
qed

lemma samples_of_last: "xs \<noteq> [] \<Longrightarrow> samples_of i xs (slot i (snd (last xs))) \<noteq> []"
  by (auto simp: samples_of_def filter_empty_conv intro!: bexI [of _ "last xs"])

lemma samples_of_new: "sorted (map (slot i \<circ> snd) xs) \<Longrightarrow> (xs \<noteq> [] \<Longrightarrow> slot i (snd (last xs)) < s) \<Longrightarrow> samples_of i xs s = []"
  using sorted_le_last [of "map (slot i \<circ> snd) xs"] by (cases "xs = []") (force simp: samples_of_def filter_empty_conv last_map)+

text \<open>The records of a run of samples in time order are those of the intervals left.\<close>

lemma acc_run_exact:
  assumes "0 < i" "i dvd 60"
  shows "sorted (map snd xs) \<Longrightarrow> acc_run xs (accumulator_init did i ty) = (interval_records did i ty xs, acc_after did i ty xs)"
proof (induction xs rule: rev_induct)
  case Nil
  show ?case by (simp add: interval_records_def acc_after_def)
next
  case (snoc x xs)
  have nz: "never_zero (accumulator_init did i ty)" using assms(1) by (simp add: never_zero_def)
  have sorted: "sorted (map snd xs)" "xs \<noteq> [] \<Longrightarrow> snd (last xs) \<le> snd x" using snoc.prems by (auto simp: sorted_append)
  have slots: "sorted (map (slot i \<circ> snd) xs)"
    using sorted(1) assms(1) by (simp add: sorted_map sorted_wrt_map) (erule sorted_wrt_mono_rel [rotated], auto intro: slot_mono)
  have run: "acc_run xs (accumulator_init did i ty) = (interval_records did i ty xs, acc_after did i ty xs)" using snoc.IH [OF sorted(1)] .
  have "acc_run [x] (acc_after did i ty xs) = (drop (length (interval_records did i ty xs)) (interval_records did i ty (xs @ [x])), acc_after did i ty (xs @ [x]))
      \<and> interval_records did i ty (xs @ [x]) = interval_records did i ty xs @ drop (length (interval_records did i ty xs)) (interval_records did i ty (xs @ [x]))"
  proof (cases "xs = []")
    case True
    then show ?thesis using assms by (simp add: acc_after_def feed_init interval_records_def samples_of_def)
  next
    case False
    let ?s = "slot i (snd (last xs))"
    have le: "?s \<le> slot i (snd x)" using sorted(2) False assms(1) by (simp add: slot_mono)
    note feed = feed_within [OF assms samples_of_last [OF False] le, of "fst x" did ty]
    show ?thesis
    proof (cases "slot i (snd x) = ?s")
      case True
      then show ?thesis using False feed by (simp add: acc_after_def records_snoc_same [OF False True slots] samples_of_snoc)
    next
      case new: False
      then have lt: "?s < slot i (snd x)" using le by simp
      have none: "samples_of i xs (slot i (snd x)) = []" using slots lt by (rule samples_of_new)
      show ?thesis using False feed new none
        by (simp add: acc_after_def records_snoc_new [OF False lt slots] samples_of_snoc finalize_within del: of_int_add of_int_mult)
    qed
  qed
  then show ?case using acc_run_append [OF nz run] by metis
qed

section \<open>The energy documents of a run of reads\<close>

type_synonym reading = "string \<times> (string \<times> pyval) list \<times> rat"

fun read_all :: "reading list \<Rightarrow> (statistics_manager, unit) op" where
  "read_all [] m = (Inr (), m)"
| "read_all ((did, vals, t) # reads) m = (case on_read_complete did vals t m of
     (Inl x, m') \<Rightarrow> (Inl x, m')
   | (Inr u, m') \<Rightarrow> read_all reads m')"

definition metric_of :: "statistics_config \<Rightarrow> string \<Rightarrow> metric_definition option" where
  "metric_of c did = find (\<lambda>m. me_device_id m = did) (rev (st_metrics c))"

definition sample_in :: "string \<Rightarrow> string \<Rightarrow> reading \<Rightarrow> (flt \<times> rat) list" where
  "sample_in did point = (\<lambda>(d, vals, t). if d = did \<and> point \<noteq> [] then (case dict_get vals point of None \<Rightarrow> []
     | Some v \<Rightarrow> if finite_number v then [(flt_val v, t)] else []) else [])"

definition samples_for :: "string \<Rightarrow> string \<Rightarrow> reading list \<Rightarrow> (flt \<times> rat) list" where
  "samples_for did point reads = concat (map (sample_in did point) reads)"

definition energy_documents :: "statistics_manager \<Rightarrow> interval_record list" where
  "energy_documents m = concat (map (\<lambda>d. case d of Energy r \<Rightarrow> [r] | PowerSum p \<Rightarrow> []) (sm_uploaded m))"

definition record_of :: "string \<Rightarrow> int \<Rightarrow> interval_record \<Rightarrow> bool" where
  "record_of did i r = (ir_device_id r = did \<and> ir_interval_minutes r = i)"

lemma acc_run_frame: "never_zero a \<Longrightarrow> acc_run xs a = (rs, b) \<Longrightarrow> ia_interval_minutes b = ia_interval_minutes a \<and> ia_device_id b = ia_device_id a
    \<and> (\<forall>r\<in>set rs. record_of (ia_device_id a) (ia_interval_minutes a) r)"
proof (induction xs arbitrary: a rs b)
  case (Cons x xs)
  obtain r a' where f: "acc_feed (fst x) (snd x) a = (Inr r, a')" "ia_interval_minutes a' = ia_interval_minutes a" "ia_device_id a' = ia_device_id a"
    "\<forall>y. r = Some y \<longrightarrow> ir_interval_minutes y = ia_interval_minutes a \<and> ir_device_id y = ia_device_id a" using feed_total [OF Cons.prems(1)] .
  have nz: "never_zero a'" using Cons.prems(1) f(2) by (simp add: never_zero_def)
  obtain rs' b' where run: "acc_run xs a' = (rs', b')" by (cases "acc_run xs a'")
  then show ?case using Cons.prems(2) f Cons.IH [OF nz run] by (cases r) (auto simp: record_of_def)
qed simp

lemma tracker_feed_runs: "\<forall>a\<in>set tr. never_zero a \<Longrightarrow>
    tracker_feed v t tr = (Inr (concat (map (\<lambda>a. fst (acc_run [(v, t)] a)) tr)), map (\<lambda>a. snd (acc_run [(v, t)] a)) tr)"
proof (induction tr)
  case (Cons a tr)
  have nz: "never_zero a" using Cons.prems by simp
  obtain r a' where "acc_feed v t a = (Inr r, a')" using feed_total [OF nz] .
  then show ?case using Cons by simp
qed simp

definition tracker_after :: "string \<Rightarrow> int list \<Rightarrow> meter_type \<Rightarrow> (flt \<times> rat) list \<Rightarrow> tracker" where
  "tracker_after did intervals ty xs = map (\<lambda>i. snd (acc_run xs (accumulator_init did i ty))) intervals"

lemma run_init:
  assumes "i \<noteq> 0"
  shows "never_zero (snd (acc_run xs (accumulator_init did i ty)))" "ia_interval_minutes (snd (acc_run xs (accumulator_init did i ty))) = i"
    "ia_device_id (snd (acc_run xs (accumulator_init did i ty))) = did"
    "acc_run (xs @ ys) (accumulator_init did i ty) = (fst (acc_run xs (accumulator_init did i ty)) @ fst (acc_run ys (snd (acc_run xs (accumulator_init did i ty)))),
       snd (acc_run ys (snd (acc_run xs (accumulator_init did i ty)))))"
proof -
  have nz: "never_zero (accumulator_init did i ty)" using assms by (simp add: never_zero_def)
  have d: "ia_device_id (accumulator_init did i ty) = did" by (simp add: accumulator_init_def)
  note frame = acc_run_frame [OF nz prod.collapse [symmetric], of xs]
  show "ia_interval_minutes (snd (acc_run xs (accumulator_init did i ty))) = i"
    "ia_device_id (snd (acc_run xs (accumulator_init did i ty))) = did" using frame d by simp_all
  then show "never_zero (snd (acc_run xs (accumulator_init did i ty)))" using assms by (simp add: never_zero_def)
  show "acc_run (xs @ ys) (accumulator_init did i ty) = (fst (acc_run xs (accumulator_init did i ty)) @ fst (acc_run ys (snd (acc_run xs (accumulator_init did i ty)))),
       snd (acc_run ys (snd (acc_run xs (accumulator_init did i ty)))))"
    by (rule acc_run_append [OF nz prod.collapse [symmetric] prod.collapse [symmetric]])
qed

lemma filter_concat_distinct:
  "distinct js \<Longrightarrow> \<forall>j\<in>set js. \<forall>r\<in>set (f j). P r \<longleftrightarrow> j = i \<Longrightarrow> filter P (concat (map f js)) = (if i \<in> set js then f i else [])"
proof (induction js)
  case (Cons j js)
  then show ?case by (cases "j = i") (auto simp: filter_empty_conv filter_id_conv)
qed simp

lemma tracker_records:
  assumes "0 \<notin> set js" "distinct js" "i \<in> set js"
  shows "filter (record_of did i) (concat (map (\<lambda>a. fst (acc_run xs a)) (tracker_after did js ty ys)))
    = fst (acc_run xs (snd (acc_run ys (accumulator_init did i ty))))"
proof -
  let ?f = "\<lambda>j. fst (acc_run xs (snd (acc_run ys (accumulator_init did j ty))))"
  have "\<forall>j\<in>set js. \<forall>r\<in>set (?f j). record_of did i r \<longleftrightarrow> j = i"
  proof (intro ballI)
    fix j r
    assume j: "j \<in> set js" and r: "r \<in> set (?f j)"
    have nz: "j \<noteq> 0" using j assms(1) by metis
    show "record_of did i r \<longleftrightarrow> j = i" using acc_run_frame [OF run_init(1) [OF nz, of ys did ty] prod.collapse [symmetric], of xs] run_init(2, 3) [OF nz, of ys did ty] r
      by (auto simp: record_of_def)
  qed
  from filter_concat_distinct [OF assms(2) this] assms(3) show ?thesis by (simp add: tracker_after_def comp_def)
qed

definition stats_inv :: "statistics_config \<Rightarrow> reading list \<Rightarrow> statistics_engine \<Rightarrow> bool" where
  "stats_inv c reads e \<longleftrightarrow> (\<forall>did. dict_get (se_metric_points e) did = map_option me_point_name (metric_of c did)
     \<and> dict_get (se_trackers e) did = map_option (\<lambda>m. tracker_after did (st_intervals c) (me_meter_type m) (samples_for did (me_point_name m) reads)) (metric_of c did))"

lemma metric_of_id: "metric_of c did = Some m \<Longrightarrow> me_device_id m = did"
  by (auto simp: metric_of_def find_Some_iff)

lemma find_append: "find P (xs @ ys) = (case find P xs of None \<Rightarrow> find P ys | Some x \<Rightarrow> Some x)"
  by (induction xs) auto

lemma fold_metric: "dict_get (fold (\<lambda>m. dict_set (me_device_id m) (f m)) ms d) did =
    (case find (\<lambda>m. me_device_id m = did) (rev ms) of None \<Rightarrow> dict_get d did | Some m \<Rightarrow> Some (f m))"
proof (induction ms arbitrary: d)
  case (Cons m ms)
  then show ?case by (auto simp: find_append map_of_dict_set split: option.split)
qed simp

lemma engine_init_inv: "stats_inv c [] (engine_init c)"
  unfolding stats_inv_def
proof (intro allI conjI)
  fix did
  show "dict_get (se_metric_points (engine_init c)) did = map_option me_point_name (metric_of c did)"
    by (simp add: engine_init_def fold_metric metric_of_def split: option.split)
  have "dict_get (se_trackers (engine_init c)) did = map_option (\<lambda>m. map (\<lambda>i. accumulator_init (me_device_id m) i (me_meter_type m)) (st_intervals c)) (metric_of c did)"
    by (simp add: engine_init_def fold_metric metric_of_def split: option.split)
  also have "\<dots> = map_option (\<lambda>m. tracker_after did (st_intervals c) (me_meter_type m) (samples_for did (me_point_name m) [])) (metric_of c did)"
    using metric_of_id [of c did] by (cases "metric_of c did") (simp_all add: tracker_after_def samples_for_def)
  finally show "dict_get (se_trackers (engine_init c)) did = \<dots>" .
qed

lemma stats_inv_cong: "se_metric_points e' = se_metric_points e \<Longrightarrow> se_trackers e' = se_trackers e \<Longrightarrow> stats_inv c reads e' = stats_inv c reads e"
  by (simp add: stats_inv_def)

lemma fold_frame: "(\<And>x e. f (g x e) = f e) \<Longrightarrow> f (fold g xs e) = f e"
  by (induction xs arbitrary: e) simp_all

lemma register_sum_frame [simp]:
  "se_metric_points (register_sum_device name point did e) = se_metric_points e" "se_trackers (register_sum_device name point did e) = se_trackers e"
  by (simp_all add: register_sum_device_def Let_def)

lemma register_sums_frame [simp]:
  "se_metric_points (register_power_sum_devices name dids e) = se_metric_points e" "se_trackers (register_power_sum_devices name dids e) = se_trackers e"
  by (simp_all add: register_power_sum_devices_def fold_frame [where f = se_metric_points] fold_frame [where f = se_trackers] split: list.split)

lemma update_sum_frame [simp]:
  "se_metric_points (update_sum did vals x e) = se_metric_points e" "se_trackers (update_sum did vals x e) = se_trackers e"
  by (simp_all add: update_sum_def split: prod.split option.split)

lemma statistics_init_inv: "stats_inv c [] (sm_engine (statistics_init store reg c))"
proof -
  have "se_metric_points (sm_engine (statistics_init store reg c)) = se_metric_points (engine_init c)"
    "se_trackers (sm_engine (statistics_init store reg c)) = se_trackers (engine_init c)"
    by (cases reg; simp add: statistics_init_def fold_frame [where f = se_metric_points] fold_frame [where f = se_trackers])+
  from stats_inv_cong [OF this] engine_init_inv show ?thesis by blast
qed

definition records_at :: "statistics_config \<Rightarrow> reading list \<Rightarrow> reading \<Rightarrow> interval_record list" where
  "records_at c reads r = (case metric_of c (fst r) of None \<Rightarrow> []
     | Some m \<Rightarrow> concat (map (\<lambda>a. fst (acc_run (sample_in (fst r) (me_point_name m) r) a))
         (tracker_after (fst r) (st_intervals c) (me_meter_type m) (samples_for (fst r) (me_point_name m) reads))))"

lemma not_zero: "0 \<notin> set js \<Longrightarrow> j \<in> set js \<Longrightarrow> j \<noteq> (0::int)"
  by metis

lemma tracker_after_snoc: "0 \<notin> set js \<Longrightarrow> map (\<lambda>a. snd (acc_run ys a)) (tracker_after did js ty xs) = tracker_after did js ty (xs @ ys)"
  unfolding tracker_after_def map_map comp_def by (rule map_cong [OF refl]) (simp only: run_init(4) [OF not_zero] snd_conv)

lemma tracker_after_nz: "0 \<notin> set js \<Longrightarrow> \<forall>a\<in>set (tracker_after did js ty xs). never_zero a"
  by (auto simp: tracker_after_def intro!: run_init(1) dest: not_zero)

lemma samples_for_snoc: "samples_for did point (reads @ [r]) = samples_for did point reads @ sample_in did point r"
  by (simp add: samples_for_def)

lemma sample_in_other: "fst r \<noteq> did \<Longrightarrow> sample_in did point r = []"
  by (cases r) (simp add: sample_in_def)

lemma stats_inv_stay:
  assumes "stats_inv c reads e" "\<And>m. metric_of c (fst r) = Some m \<Longrightarrow> sample_in (fst r) (me_point_name m) r = []"
  shows "stats_inv c (reads @ [r]) e"
proof -
  have "sample_in did (me_point_name m) r = []" if "metric_of c did = Some m" for did m using assms(2) that sample_in_other by (cases "fst r = did") auto
  then have "map_option (\<lambda>m. tracker_after did (st_intervals c) (me_meter_type m) (samples_for did (me_point_name m) (reads @ [r]))) (metric_of c did)
      = map_option (\<lambda>m. tracker_after did (st_intervals c) (me_meter_type m) (samples_for did (me_point_name m) reads)) (metric_of c did)" for did
    by (cases "metric_of c did") (simp_all add: samples_for_snoc)
  then show ?thesis using assms(1) by (simp only: stats_inv_def simp_thms)
qed

text \<open>One read: the records of the device's tracker, and the engine after it.\<close>

lemma tracked_sample:
  assumes inv: "stats_inv c reads e" and nz: "0 \<notin> set (st_intervals c)" and m: "metric_of c did = Some m"
    and v: "dict_get vals (me_point_name m) = Some v" "me_point_name m \<noteq> []" "finite_number v"
  shows "\<exists>tr'. dict_get (se_trackers e) did = Some (tracker_after did (st_intervals c) (me_meter_type m) (samples_for did (me_point_name m) reads))
    \<and> tracker_feed (flt_val v) t (tracker_after did (st_intervals c) (me_meter_type m) (samples_for did (me_point_name m) reads)) = (Inr (records_at c reads (did, vals, t)), tr')
    \<and> stats_inv c (reads @ [(did, vals, t)]) (e\<lparr>se_trackers := dict_set did tr' (se_trackers e)\<rparr>)"
proof -
  have smp: "sample_in did (me_point_name m) (did, vals, t) = [(flt_val v, t)]" using v by (simp add: sample_in_def)
  let ?tr = "tracker_after did (st_intervals c) (me_meter_type m) (samples_for did (me_point_name m) reads)"
  let ?tr' = "tracker_after did (st_intervals c) (me_meter_type m) (samples_for did (me_point_name m) (reads @ [(did, vals, t)]))"
  have get: "dict_get (se_trackers e) did = Some ?tr" using inv m by (simp add: stats_inv_def)
  have feed: "tracker_feed (flt_val v) t ?tr = (Inr (records_at c reads (did, vals, t)), ?tr')"
    using m smp by (simp only: tracker_feed_runs [OF tracker_after_nz [OF nz]] tracker_after_snoc [OF nz] samples_for_snoc records_at_def fst_conv option.case)
  have "stats_inv c (reads @ [(did, vals, t)]) (e\<lparr>se_trackers := dict_set did ?tr' (se_trackers e)\<rparr>)"
    unfolding stats_inv_def
  proof (intro allI conjI)
    fix d
    show "dict_get (se_metric_points (e\<lparr>se_trackers := dict_set did ?tr' (se_trackers e)\<rparr>)) d = map_option me_point_name (metric_of c d)"
      using inv by (simp add: stats_inv_def)
    show "dict_get (se_trackers (e\<lparr>se_trackers := dict_set did ?tr' (se_trackers e)\<rparr>)) d =
        map_option (\<lambda>m. tracker_after d (st_intervals c) (me_meter_type m) (samples_for d (me_point_name m) (reads @ [(did, vals, t)]))) (metric_of c d)"
    proof (cases "d = did")
      case True
      then show ?thesis using m by (simp add: map_of_dict_set)
    next
      case False
      then have "sample_in d point (did, vals, t) = []" for point by (simp add: sample_in_def)
      then show ?thesis using False inv by (simp add: map_of_dict_set stats_inv_def samples_for_snoc)
    qed
  qed
  then show ?thesis using get feed by blast
qed

lemma process_read_step:
  assumes inv: "stats_inv c reads e" and nz: "0 \<notin> set (st_intervals c)"
  shows "\<exists>e'. process_read did vals t e = (Inr (records_at c reads (did, vals, t)), e') \<and> stats_inv c (reads @ [(did, vals, t)]) e'"
proof -
  have sums: "stats_inv c rs (fold (update_sum did vals) xs e1) = stats_inv c rs e1" for rs xs e1
    by (rule stats_inv_cong) (rule fold_frame, simp)+
  consider (none) "records_at c reads (did, vals, t) = []" "stats_inv c (reads @ [(did, vals, t)]) e"
      "(case dict_get (se_metric_points e) did of None \<Rightarrow> True | Some point \<Rightarrow> (case dict_get vals point of None \<Rightarrow> True | Some v \<Rightarrow> \<not> (point \<noteq> [] \<and> finite_number v)))"
    | (some) m v where "metric_of c did = Some m" "dict_get vals (me_point_name m) = Some v" "me_point_name m \<noteq> []" "finite_number v"
  proof (cases "\<exists>m v. metric_of c did = Some m \<and> dict_get vals (me_point_name m) = Some v \<and> me_point_name m \<noteq> [] \<and> finite_number v")
    case False
    have quiet: "sample_in did (me_point_name m) (did, vals, t) = []" if "metric_of c did = Some m" for m
      using False that by (auto simp: sample_in_def split: option.split)
    have "records_at c reads (did, vals, t) = []" using quiet by (auto simp: records_at_def split: option.split)
    moreover have "stats_inv c (reads @ [(did, vals, t)]) e" by (rule stats_inv_stay [OF inv]) (simp add: quiet)
    moreover have "dict_get (se_metric_points e) did = map_option me_point_name (metric_of c did)" using inv by (simp add: stats_inv_def)
    ultimately show thesis using False none by (cases "metric_of c did") (auto split: option.split)
  qed (use some in blast)
  then show ?thesis
  proof cases
    case none
    then show ?thesis by (auto simp: process_read_def sums split: option.splits)
  next
    case some
    have point: "dict_get (se_metric_points e) did = Some (me_point_name m)" using inv some(1) by (simp add: stats_inv_def)
    show ?thesis using tracked_sample [OF inv nz some, of t] some point by (auto simp: process_read_def sums)
  qed
qed

lemma on_read_step:
  assumes inv: "stats_inv c reads (sm_engine m)" and nz: "0 \<notin> set (st_intervals c)"
  shows "\<exists>m'. on_read_complete did vals t m = (Inr (), m') \<and> stats_inv c (reads @ [(did, vals, t)]) (sm_engine m')
    \<and> energy_documents m' = energy_documents m @ records_at c reads (did, vals, t)"
proof -
  have energy: "concat (map (\<lambda>d. case d of Energy r \<Rightarrow> [r] | PowerSum p \<Rightarrow> []) (map Energy rs)) = rs" for rs by (induction rs) simp_all
  have sums: "concat (map (\<lambda>d. case d of Energy r \<Rightarrow> [r] | PowerSum p \<Rightarrow> []) (map PowerSum ps)) = []" for ps by (induction ps) simp_all
  obtain e' where "process_read did vals t (sm_engine m) = (Inr (records_at c reads (did, vals, t)), e')" "stats_inv c (reads @ [(did, vals, t)]) e'"
    using process_read_step [OF inv nz] by blast
  then show ?thesis by (auto simp: on_read_complete_def energy_documents_def energy sums simp del: map_map)
qed

lemma records_at_about:
  assumes nz: "0 \<notin> set (st_intervals c)" and m: "metric_of c did = Some m" and i: "distinct (st_intervals c)" "i \<in> set (st_intervals c)"
  shows "filter (record_of did i) (records_at c reads r) =
    fst (acc_run (sample_in did (me_point_name m) r) (snd (acc_run (samples_for did (me_point_name m) reads) (accumulator_init did i (me_meter_type m)))))"
proof (cases "fst r = did")
  case True
  then show ?thesis using tracker_records [OF nz i, of did] m by (simp add: records_at_def)
next
  case False
  have "\<not> record_of did i x" if x: "x \<in> set (records_at c reads r)" for x
  proof (cases "metric_of c (fst r)")
    case (Some m')
    then obtain j where j: "j \<in> set (st_intervals c)" "x \<in> set (fst (acc_run (sample_in (fst r) (me_point_name m') r)
        (snd (acc_run (samples_for (fst r) (me_point_name m') reads) (accumulator_init (fst r) j (me_meter_type m'))))))"
      using x by (auto simp: records_at_def tracker_after_def)
    have j0: "j \<noteq> 0" using not_zero [OF nz j(1)] .
    have "ir_device_id x = fst r"
      using acc_run_frame [OF run_init(1) [OF j0] prod.collapse [symmetric]] run_init(3) [OF j0] j(2) unfolding record_of_def by metis
    then show ?thesis using False by (simp add: record_of_def)
  qed (use x in \<open>simp add: records_at_def\<close>)
  then have "filter (record_of did i) (records_at c reads r) = []" by (simp add: filter_empty_conv)
  then show ?thesis using sample_in_other [OF False] by simp
qed

lemma read_all_exact:
  assumes nz: "0 \<notin> set (st_intervals c)" and m: "metric_of c did = Some m" and i: "distinct (st_intervals c)" "i \<in> set (st_intervals c)"
  shows "stats_inv c before (sm_engine s) \<Longrightarrow>
      filter (record_of did i) (energy_documents s) = fst (acc_run (samples_for did (me_point_name m) before) (accumulator_init did i (me_meter_type m))) \<Longrightarrow>
    \<exists>s'. read_all reads s = (Inr (), s') \<and> filter (record_of did i) (energy_documents s')
      = fst (acc_run (samples_for did (me_point_name m) (before @ reads)) (accumulator_init did i (me_meter_type m)))"
proof (induction reads arbitrary: before s)
  case (Cons r reads)
  obtain d vals t where r: "r = (d, vals, t)" by (cases r)
  obtain s1 where s1: "on_read_complete d vals t s = (Inr (), s1)" "stats_inv c (before @ [r]) (sm_engine s1)"
    "energy_documents s1 = energy_documents s @ records_at c before r" using on_read_step [OF Cons.prems(1) nz] r by blast
  have "filter (record_of did i) (energy_documents s1) = fst (acc_run (samples_for did (me_point_name m) (before @ [r])) (accumulator_init did i (me_meter_type m)))"
    using s1(3) Cons.prems(2) records_at_about [OF nz m i] run_init(4) [OF not_zero [OF nz i(2)]] by (simp add: samples_for_snoc)
  from Cons.IH [OF s1(2) this] show ?case using r s1(1) by simp
qed simp

text \<open>
  C30. After any reads of any devices, the manager has uploaded, for a device with a metric and an interval that divides the hour, one
  energy record per interval of the clock that the device's samples have entered and left, in order: its bounds, the number of its samples,
  and its energy, the last reading less the first for a cumulative meter and the trapezoidal sum over its samples for the others. Reads
  without the point or without a finite number are passed over, and no read fails.
\<close>

theorem energy_records_exact:
  assumes "0 \<notin> set (st_intervals c)" "distinct (st_intervals c)" "i \<in> set (st_intervals c)" "0 < i" "i dvd 60"
    and m: "metric_of c did = Some m" and "sorted (map snd (samples_for did (me_point_name m) reads))"
  shows "\<exists>s. read_all reads (statistics_init store reg c) = (Inr (), s) \<and>
    filter (record_of did i) (energy_documents s) = interval_records did i (me_meter_type m) (samples_for did (me_point_name m) reads)"
proof -
  have "energy_documents (statistics_init store reg c) = []" by (simp add: statistics_init_def energy_documents_def)
  then show ?thesis
    using read_all_exact [OF assms(1) m assms(2, 3) statistics_init_inv, of store reg reads] acc_run_exact [OF assms(4, 5, 7)] by (simp add: samples_for_def)
qed

definition sample_config :: statistics_config where
  "sample_config = \<lparr>st_metrics = [\<lparr>me_device_id = ''m1'', me_meter_type = CUMULATIVE, me_point_name = ''e''\<rparr>,
       \<lparr>me_device_id = ''m2'', me_meter_type = INSTANTANEOUS, me_point_name = ''p''\<rparr>],
     st_power_sums = [\<lparr>ps_name = ''load'', ps_trait = ''meter'', ps_point_name = ''p''\<rparr>], st_intervals = [15, 30]\<rparr>"

definition sample_reads :: "reading list" where
  "sample_reads = [(''m1'', [(''e'', PyInt 100)], 10), (''m2'', [(''p'', PyInt 60)], 20), (''m2'', [(''p'', PyNone)], 500), (''m2'', [(''p'', PyInt 30)], 620),
     (''m1'', [(''e'', PyInt 104)], 800), (''m1'', [(''e'', PyInt 107)], 1000), (''m2'', [(''p'', PyInt 0)], 1300), (''m1'', [(''e'', PyInt 111)], 1900)]"

theorem energy_records_exact_witness:
  "\<exists>s. read_all sample_reads (statistics_init (\<lambda>_. undefined) None sample_config) = (Inr (), s) \<and>
    filter (record_of ''m2'' 15) (energy_documents s) = [\<lparr>ir_device_id = ''m2'', ir_interval_minutes = 15, ir_period_start = 0, ir_period_end = 900,
      ir_kwh = Fin (15 / 2), ir_sample_count = 2, ir_meter_type = INSTANTANEOUS\<rparr>]"
proof -
  have m: "metric_of sample_config ''m2'' = Some \<lparr>me_device_id = ''m2'', me_meter_type = INSTANTANEOUS, me_point_name = ''p''\<rparr>" by code_simp
  have r: "interval_records ''m2'' 15 INSTANTANEOUS (samples_for ''m2'' ''p'' sample_reads) = [\<lparr>ir_device_id = ''m2'', ir_interval_minutes = 15,
      ir_period_start = 0, ir_period_end = 900, ir_kwh = Fin (15 / 2), ir_sample_count = 2, ir_meter_type = INSTANTANEOUS\<rparr>]" by code_simp
  have t: "sorted (map snd (samples_for ''m2'' ''p'' sample_reads))" by code_simp
  show ?thesis using energy_records_exact [of sample_config 15 "''m2''" _ sample_reads "\<lambda>_. undefined" None, OF _ _ _ _ _ m] t r by (simp add: sample_config_def)
qed

text \<open>The energy between the last sample of an interval and the first of the next is in no record of a cumulative meter.\<close>

lemma boundary_energy_lost:
  "let rs = interval_records ''m1'' 15 CUMULATIVE [(Fin 100, 10), (Fin 104, 800), (Fin 107, 1000), (Fin 110, 1700), (Fin 111, 1900)]
   in map ir_kwh rs = [Fin 4, Fin 3]"
  by code_simp

text \<open>An interval that does not divide the hour overlaps the one before it.\<close>

lemma intervals_overlap:
  "map (\<lambda>r. (ir_period_start r, ir_period_end r)) (fst (acc_run [(Fin 1, 2700), (Fin 2, 5399), (Fin 3, 5400), (Fin 4, 6300)] (accumulator_init ''m'' 45 CUMULATIVE)))
     = [(2700, 5400), (3600, 6300)]"
  by code_simp

text \<open>Of two metrics of a device the second takes the place of the first.\<close>

lemma second_metric_wins:
  "metric_of \<lparr>st_metrics = [\<lparr>me_device_id = ''m1'', me_meter_type = CUMULATIVE, me_point_name = ''e''\<rparr>,
       \<lparr>me_device_id = ''m1'', me_meter_type = INSTANTANEOUS, me_point_name = ''p''\<rparr>], st_power_sums = [], st_intervals = [15]\<rparr> ''m1''
     = Some \<lparr>me_device_id = ''m1'', me_meter_type = INSTANTANEOUS, me_point_name = ''p''\<rparr>"
  by code_simp

text \<open>Every device that crosses the same boundary uploads all power sums again.\<close>

lemma power_sums_repeated:
  "length (filter (\<lambda>d. case d of Energy r \<Rightarrow> False | PowerSum p \<Rightarrow> pr_interval_minutes p = 15 \<and> pr_period_start p = 0)
     (sm_uploaded (snd (read_all sample_reads (statistics_init (\<lambda>_. undefined) None sample_config))))) = 2"
  by code_simp

end
