(* ===== verification/Device_Events.thy ===== *)
theory Device_Events
  imports Command_Core
begin

text \<open>
  The event emitter of a device (\<open>equipment/device/events.py\<close>) and the bridge that joins the events of several devices
  (\<open>equipment/device/event_bridge.py\<close>). The coroutines of the emitter, its worker and the callers of \<open>emit_await\<close>, are the
  steps of a transition relation: one step per stretch of code between two awaits. The lists of handlers are objects with an address,
  since the worker iterates over a list that others may change. Starting and stopping are not run at the same time.
\<close>

section \<open>Handlers and their lists\<close>

datatype handler_entry = Strong nat | Weak nat

type_synonym event_item = "string \<times> pyval"

definition sentinel :: event_item where
  "sentinel = (''__stop__'', PyNone)"

record event_dispatch =
  dp_item :: event_item
  dp_list :: nat
  dp_index :: nat

datatype event_worker = NoWorker | Polling | Waiting | Busy bool event_dispatch | Draining | Ended

record emitter =
  em_handlers :: "(string \<times> nat) list"
  em_lists :: "(nat \<times> handler_entry list) list"
  em_fresh :: nat
  em_dead :: "nat list"
  em_queue :: "event_item list"
  em_max :: nat
  em_running :: bool
  em_stopping :: bool
  em_worker :: event_worker
  em_awaits :: "(nat \<times> event_dispatch) list"
  em_accepted :: "event_item list"
  em_taken :: "(event_item \<times> handler_entry list) list"
  em_called :: "(event_item \<times> handler_entry) list"
  em_await_called :: "(nat \<times> event_item \<times> handler_entry) list"

definition emitter_init :: "nat \<Rightarrow> emitter" where
  "emitter_init n = \<lparr>em_handlers = [], em_lists = [], em_fresh = 0, em_dead = [], em_queue = [], em_max = n, em_running = False, em_stopping = False,
     em_worker = NoWorker, em_awaits = [], em_accepted = [], em_taken = [], em_called = [], em_await_called = []\<rparr>"

abbreviation list_at :: "emitter \<Rightarrow> nat \<Rightarrow> handler_entry list" where
  "list_at e a \<equiv> dict_get_or (em_lists e) a []"

fun entry_alive :: "nat list \<Rightarrow> handler_entry \<Rightarrow> bool" where
  "entry_alive gone (Strong h) = True"
| "entry_alive gone (Weak h) = (h \<notin> set gone)"

definition handlers_of :: "string \<Rightarrow> emitter \<Rightarrow> handler_entry list" where
  "handlers_of ev e = (case dict_get (em_handlers e) ev of None \<Rightarrow> [] | Some a \<Rightarrow> list_at e a)"

definition on_handler :: "string \<Rightarrow> handler_entry \<Rightarrow> emitter \<Rightarrow> emitter" where
  "on_handler ev h e =
     (case dict_get (em_handlers e) ev of
        None \<Rightarrow> e\<lparr>em_handlers := dict_set ev (em_fresh e) (em_handlers e), em_lists := dict_set (em_fresh e) [h] (em_lists e), em_fresh := em_fresh e + 1\<rparr>
      | Some a \<Rightarrow> e\<lparr>em_lists := dict_set a (list_at e a @ [h]) (em_lists e)\<rparr>)"

definition cancel_handler :: "string \<Rightarrow> handler_entry \<Rightarrow> emitter \<Rightarrow> emitter" where
  "cancel_handler ev h e =
     (case dict_get (em_handlers e) ev of
        None \<Rightarrow> e
      | Some a \<Rightarrow> e\<lparr>em_lists := dict_set a (remove1 h (list_at e a)) (em_lists e)\<rparr>)"

definition clear_handlers :: "string option \<Rightarrow> emitter \<Rightarrow> emitter" where
  "clear_handlers ev e = (case ev of None \<Rightarrow> e\<lparr>em_handlers := []\<rparr> | Some n \<Rightarrow> e\<lparr>em_handlers := dict_del n (em_handlers e)\<rparr>)"

definition has_listeners :: "string \<Rightarrow> emitter \<Rightarrow> bool" where
  "has_listeners ev e = (\<exists>h\<in>set (handlers_of ev e). entry_alive (em_dead e) h)"

section \<open>The queue\<close>

definition queue_full :: "emitter \<Rightarrow> bool" where
  "queue_full e = (0 < em_max e \<and> em_max e \<le> length (em_queue e))"

definition emit_event :: "string \<Rightarrow> pyval \<Rightarrow> emitter \<Rightarrow> emitter" where
  "emit_event ev p e = (if \<not> em_running e \<or> handlers_of ev e = [] then e
     else if queue_full e then e
     else e\<lparr>em_queue := em_queue e @ [(ev, p)], em_accepted := em_accepted e @ [(ev, p)]\<rparr>)"

text \<open>The beginning of \<open>_process_event\<close>: a list of the handlers alive, which takes the place of the registered one if any has died.\<close>

definition begin_event :: "event_item \<Rightarrow> emitter \<Rightarrow> event_dispatch option \<times> emitter" where
  "begin_event x e = (let hs = handlers_of (fst x) e in
     if hs = [] then (None, e)
     else let alive = filter (entry_alive (em_dead e)) hs;
              e1 = e\<lparr>em_lists := dict_set (em_fresh e) alive (em_lists e), em_fresh := em_fresh e + 1\<rparr>
          in (Some \<lparr>dp_item = x, dp_list = em_fresh e, dp_index = 0\<rparr>,
              if length alive \<noteq> length hs then e1\<lparr>em_handlers := dict_set (fst x) (em_fresh e) (em_handlers e)\<rparr> else e1))"

text \<open>The next handler of the list under iteration, if any.\<close>

definition next_handler :: "event_dispatch \<Rightarrow> emitter \<Rightarrow> (handler_entry \<times> event_dispatch) option" where
  "next_handler d e = (if dp_index d < length (list_at e (dp_list d))
     then Some (list_at e (dp_list d) ! dp_index d, d\<lparr>dp_index := dp_index d + 1\<rparr>) else None)"

definition called_now :: "event_dispatch \<Rightarrow> handler_entry \<Rightarrow> emitter \<Rightarrow> (event_item \<times> handler_entry) list" where
  "called_now d h e = (if entry_alive (em_dead e) h then [(dp_item d, h)] else [])"

section \<open>The worker\<close>

definition take_event :: "bool \<Rightarrow> emitter \<Rightarrow> emitter" where
  "take_event main e = (case em_queue e of
       [] \<Rightarrow> e\<lparr>em_worker := (if main then Waiting else Ended)\<rparr>
     | x # xs \<Rightarrow> (let e1 = e\<lparr>em_queue := xs\<rparr> in
         if x = sentinel then e1\<lparr>em_worker := Draining\<rparr>
         else case begin_event x e1 of
           (None, e2) \<Rightarrow> e2\<lparr>em_worker := (if main then Polling else Draining), em_taken := em_taken e2 @ [(x, [])]\<rparr>
         | (Some d, e2) \<Rightarrow> e2\<lparr>em_worker := Busy main d, em_taken := em_taken e2 @ [(x, handlers_of (fst x) e1)]\<rparr>))"

definition worker_step :: "emitter \<Rightarrow> emitter" where
  "worker_step e = (case em_worker e of
       NoWorker \<Rightarrow> e
     | Polling \<Rightarrow> e\<lparr>em_worker := (if em_running e then Waiting else Draining)\<rparr>
     | Waiting \<Rightarrow> take_event True e
     | Busy main d \<Rightarrow> (case next_handler d e of
           None \<Rightarrow> e\<lparr>em_worker := (if main then Polling else Draining)\<rparr>
         | Some (h, d') \<Rightarrow> e\<lparr>em_worker := Busy main d', em_called := em_called e @ called_now d h e\<rparr>)
     | Draining \<Rightarrow> take_event False e
     | Ended \<Rightarrow> e)"

text \<open>The cancellation of the worker: the main loop leaves for the drain loop, the drain loop ends.\<close>

definition cancel_worker :: "emitter \<Rightarrow> emitter" where
  "cancel_worker e = (case em_worker e of
       Waiting \<Rightarrow> e\<lparr>em_worker := Draining\<rparr>
     | Busy main d \<Rightarrow> e\<lparr>em_worker := (if main then Draining else Ended)\<rparr>
     | _ \<Rightarrow> e)"

section \<open>Starting and stopping\<close>

definition emitter_start :: "emitter \<Rightarrow> emitter" where
  "emitter_start e = (if em_running e then e else e\<lparr>em_running := True, em_worker := Polling\<rparr>)"

definition stop_begin :: "emitter \<Rightarrow> emitter" where
  "stop_begin e = (if \<not> em_running e then e
     else let e1 = e\<lparr>em_running := False, em_stopping := True\<rparr> in
       if em_worker e = NoWorker then e1\<lparr>em_stopping := False\<rparr>
       else if queue_full e1 then e1 else e1\<lparr>em_queue := em_queue e1 @ [sentinel]\<rparr>)"

definition stop_end :: "emitter \<Rightarrow> emitter" where
  "stop_end e = e\<lparr>em_worker := NoWorker, em_stopping := False\<rparr>"

section \<open>The steps of an emitter\<close>

datatype em_action = EmOn string handler_entry | EmCancel string handler_entry | EmClear "string option" | EmEmit string pyval | EmWorker | EmPollTimeout
  | EmStart | EmStop | EmStopTimeout | EmStopEnd | EmCollect nat | EmAwait nat string pyval | EmAwaitCall nat

definition await_begin :: "nat \<Rightarrow> string \<Rightarrow> pyval \<Rightarrow> emitter \<Rightarrow> emitter" where
  "await_begin n ev p e = (case begin_event (ev, p) e of
       (None, e1) \<Rightarrow> e1
     | (Some d, e1) \<Rightarrow> e1\<lparr>em_awaits := dict_set n d (em_awaits e1)\<rparr>)"

definition await_call :: "nat \<Rightarrow> emitter \<Rightarrow> emitter" where
  "await_call n e = (case dict_get (em_awaits e) n of
       None \<Rightarrow> e
     | Some d \<Rightarrow> (case next_handler d e of
         None \<Rightarrow> e\<lparr>em_awaits := dict_del n (em_awaits e)\<rparr>
       | Some (h, d') \<Rightarrow> e\<lparr>em_awaits := dict_set n d' (em_awaits e), em_await_called := em_await_called e @ map (Pair n) (called_now d h e)\<rparr>))"

inductive em_step :: "emitter \<Rightarrow> em_action \<Rightarrow> emitter \<Rightarrow> bool" where
  on: "em_step e (EmOn ev h) (on_handler ev h e)"
| cancel: "em_step e (EmCancel ev h) (cancel_handler ev h e)"
| clear: "em_step e (EmClear ev) (clear_handlers ev e)"
| emit: "em_step e (EmEmit ev p) (emit_event ev p e)"
| worker: "em_step e EmWorker (worker_step e)"
| poll: "em_worker e = Waiting \<Longrightarrow> em_step e EmPollTimeout (e\<lparr>em_worker := Polling\<rparr>)"
| start: "\<not> em_stopping e \<Longrightarrow> em_step e EmStart (emitter_start e)"
| stop: "\<not> em_stopping e \<Longrightarrow> em_step e EmStop (stop_begin e)"
| timeout: "em_stopping e \<Longrightarrow> em_step e EmStopTimeout (cancel_worker e)"
| stopped: "em_stopping e \<Longrightarrow> em_worker e = Ended \<Longrightarrow> em_step e EmStopEnd (stop_end e)"
| collect: "em_step e (EmCollect h) (e\<lparr>em_dead := h # em_dead e\<rparr>)"
| await: "dict_get (em_awaits e) n = None \<Longrightarrow> em_step e (EmAwait n ev p) (await_begin n ev p e)"
| awaited: "em_step e (EmAwaitCall n) (await_call n e)"

inductive em_run :: "emitter \<Rightarrow> em_action list \<Rightarrow> emitter \<Rightarrow> bool" where
  start_run: "em_run e [] e"
| more: "em_run e as e' \<Longrightarrow> em_step e' a e'' \<Longrightarrow> em_run e (as @ [a]) e''"

section \<open>Events are handled once and in order\<close>

text \<open>A run in which no handler is collected, the drain does not time out and nobody emits the stop marker as an event.\<close>

fun calm :: "em_action \<Rightarrow> bool" where
  "calm (EmEmit ev p) = ((ev, p) \<noteq> sentinel)"
| "calm (EmCollect h) = False"
| "calm EmStopTimeout = False"
| "calm _ = True"

definition calls_of :: "event_item \<times> handler_entry list \<Rightarrow> (event_item \<times> handler_entry) list" where
  "calls_of = (\<lambda>(x, hs). map (Pair x) hs)"

definition registered :: "emitter \<Rightarrow> nat set" where
  "registered e = ran (dict_get (em_handlers e))"

fun worker_ok :: "event_worker \<Rightarrow> emitter \<Rightarrow> bool" where
  "worker_ok (Busy main d) e = (dp_list d < em_fresh e \<and> dp_list d \<notin> registered e \<and> em_taken e \<noteq> [] \<and> last (em_taken e) = (dp_item d, list_at e (dp_list d))
     \<and> dp_index d \<le> length (list_at e (dp_list d))
     \<and> em_called e = concat (map calls_of (butlast (em_taken e))) @ map (Pair (dp_item d)) (take (dp_index d) (list_at e (dp_list d)))
     \<and> (\<not> main \<longrightarrow> em_stopping e) \<and> (\<not> em_running e \<longrightarrow> em_stopping e))"
| "worker_ok w e = (em_called e = concat (map calls_of (em_taken e)) \<and>
     (case w of NoWorker \<Rightarrow> \<not> em_running e \<and> \<not> em_stopping e \<and> em_queue e = [] | Draining \<Rightarrow> em_stopping e | Ended \<Rightarrow> em_stopping e \<and> em_queue e = []
      | _ \<Rightarrow> em_running e \<or> em_stopping e))"

definition em_inv :: "emitter \<Rightarrow> bool" where
  "em_inv e \<longleftrightarrow> em_dead e = [] \<and> (\<forall>a\<in>registered e. a < em_fresh e) \<and> worker_ok (em_worker e) e
     \<and> em_accepted e = map fst (em_taken e) @ filter (\<lambda>x. x \<noteq> sentinel) (em_queue e)
     \<and> sentinel \<notin> set (butlast (em_queue e)) \<and> (sentinel \<in> set (em_queue e) \<longrightarrow> em_stopping e) \<and> (em_stopping e \<longrightarrow> \<not> em_running e)
     \<and> (0 < em_max e \<longrightarrow> length (em_queue e) \<le> em_max e)"

lemma registered_mem: "dict_get (em_handlers e) ev = Some a \<Longrightarrow> a \<in> registered e"
  by (auto simp: registered_def ran_def)

lemma ran_set: "ran (dict_get (dict_set k v d)) \<subseteq> insert v (ran (dict_get d))"
  by (auto simp: ran_def map_of_dict_set split: if_splits)

lemma ran_del: "ran (dict_get (dict_del k d)) \<subseteq> ran (dict_get d)"
  by (auto simp: ran_def AList.delete_conv' split: if_splits)

text \<open>Registered lists may change under a dispatch, the list it iterates over stays.\<close>

definition same_flow :: "emitter \<Rightarrow> emitter \<Rightarrow> bool" where
  "same_flow e e' \<longleftrightarrow> em_queue e' = em_queue e \<and> em_max e' = em_max e \<and> em_running e' = em_running e \<and> em_stopping e' = em_stopping e \<and> em_worker e' = em_worker e
     \<and> em_accepted e' = em_accepted e \<and> em_taken e' = em_taken e \<and> em_called e' = em_called e \<and> em_dead e' = em_dead e \<and> em_fresh e \<le> em_fresh e'
     \<and> registered e' \<subseteq> registered e \<union> {em_fresh e..<em_fresh e'} \<and> (\<forall>a. a < em_fresh e \<longrightarrow> a \<notin> registered e \<longrightarrow> list_at e' a = list_at e a)"

lemma same_flow_worker:
  assumes w: "worker_ok (em_worker e) e" and f: "same_flow e e'"
  shows "worker_ok (em_worker e') e'"
proof (cases "em_worker e")
  case (Busy main d)
  have b: "dp_list d < em_fresh e" "dp_list d \<notin> registered e" using w Busy by simp_all
  have "em_fresh e \<le> em_fresh e'" "registered e' \<subseteq> registered e \<union> {em_fresh e..<em_fresh e'}" using f by (simp_all add: same_flow_def)
  then have "dp_list d \<notin> registered e'" "dp_list d < em_fresh e'" using b by auto
  moreover have "list_at e' (dp_list d) = list_at e (dp_list d)" using f b by (simp add: same_flow_def)
  ultimately show ?thesis using w Busy f by (simp add: same_flow_def)
qed (use w f in \<open>simp_all add: same_flow_def\<close>)

lemma same_flow_inv:
  assumes "em_inv e" "same_flow e e'"
  shows "em_inv e'"
proof -
  have reg: "registered e' \<subseteq> registered e \<union> {em_fresh e..<em_fresh e'}" "em_fresh e \<le> em_fresh e'" using assms(2) by (simp_all add: same_flow_def)
  have old: "\<forall>a\<in>registered e. a < em_fresh e" using assms(1) by (simp add: em_inv_def)
  have new: "a < em_fresh e'" if "a \<in> registered e'" for a
    using that reg old by (meson Un_iff atLeastLessThan_iff less_le_trans subsetD)
  have "worker_ok (em_worker e') e'" by (rule same_flow_worker [OF _ assms(2)]) (use assms(1) in \<open>simp add: em_inv_def\<close>)
  then show ?thesis using assms new by (simp add: em_inv_def same_flow_def)
qed

lemma same_flow_refl: "same_flow e e"
  by (simp add: same_flow_def)

lemma on_flow: "same_flow e (on_handler ev h e)"
proof (cases "dict_get (em_handlers e) ev")
  case None
  then show ?thesis using ran_set [of ev "em_fresh e" "em_handlers e"] by (auto simp: on_handler_def same_flow_def registered_def)
next
  case (Some a)
  then show ?thesis using registered_mem [OF Some] by (auto simp: on_handler_def same_flow_def registered_def)
qed

lemma cancel_flow: "same_flow e (cancel_handler ev h e)"
  by (auto simp: cancel_handler_def same_flow_def registered_def ran_def split: option.split)

lemma clear_flow: "same_flow e (clear_handlers ev e)"
  using ran_del by (fastforce simp: clear_handlers_def same_flow_def registered_def split: option.split)

text \<open>With all handlers alive a dispatch gets a list of its own.\<close>

lemma begin_event_alive:
  assumes "em_dead e = []" "begin_event x e = (r, e')"
  shows "same_flow e e'" and "r = None \<longleftrightarrow> handlers_of (fst x) e = []"
    and "r = Some d \<Longrightarrow> dp_item d = x \<and> dp_index d = 0 \<and> dp_list d = em_fresh e \<and> em_fresh e' = em_fresh e + 1 \<and> list_at e' (dp_list d) = handlers_of (fst x) e \<and> registered e' = registered e"
proof -
  have alive: "filter (entry_alive []) hs = hs" for hs
    by (rule filter_True) (metis entry_alive.elims(3) empty_iff empty_set)
  show "same_flow e e'" "r = None \<longleftrightarrow> handlers_of (fst x) e = []"
    "r = Some d \<Longrightarrow> dp_item d = x \<and> dp_index d = 0 \<and> dp_list d = em_fresh e \<and> em_fresh e' = em_fresh e + 1 \<and> list_at e' (dp_list d) = handlers_of (fst x) e \<and> registered e' = registered e"
    using assms by (auto simp: begin_event_def alive Let_def same_flow_def registered_def split: if_splits)
qed

lemma emit_inv: "em_inv e \<Longrightarrow> (ev, p) \<noteq> sentinel \<Longrightarrow> em_inv (emit_event ev p e)"
proof -
  assume inv: "em_inv e" and ns: "(ev, p) \<noteq> sentinel"
  show ?thesis
  proof (cases "\<not> em_running e \<or> handlers_of ev e = [] \<or> queue_full e")
    case False
    let ?e = "e\<lparr>em_queue := em_queue e @ [(ev, p)], em_accepted := em_accepted e @ [(ev, p)]\<rparr>"
    have "sentinel \<notin> set (em_queue e)" using inv False by (auto simp: em_inv_def)
    moreover have "worker_ok (em_worker ?e) ?e" using inv False by (cases "em_worker e") (auto simp: em_inv_def registered_def)
    ultimately have "em_inv ?e" using inv False ns by (auto simp: em_inv_def registered_def queue_full_def)
    then show ?thesis using False by (simp add: emit_event_def)
  qed (use inv in \<open>auto simp: emit_event_def\<close>)
qed

lemma calls_of_Nil [simp]: "calls_of (x, []) = []"
  by (simp add: calls_of_def)

lemma take_inv:
  assumes inv: "em_inv e" and w: "em_worker e = (if main then Waiting else Draining)"
  shows "em_inv (take_event main e)"
proof (cases "em_queue e")
  case Nil
  then show ?thesis using inv w by (cases main) (simp_all add: take_event_def em_inv_def registered_def)
next
  case (Cons x xs)
  let ?e = "e\<lparr>em_queue := xs\<rparr>"
  have called: "em_called e = concat (map calls_of (em_taken e))" "em_running e \<or> em_stopping e" "\<not> main \<Longrightarrow> em_stopping e"
    using inv w by (cases main; simp add: em_inv_def)+
  have rest: "sentinel \<notin> set (butlast xs)" "sentinel \<in> set xs \<Longrightarrow> em_stopping e" "x = sentinel \<Longrightarrow> xs = []"
    "0 < em_max e \<Longrightarrow> length xs \<le> em_max e" using inv Cons by (auto simp: em_inv_def split: if_splits)
  show ?thesis
  proof (cases "x = sentinel")
    case True
    then have "em_stopping e" using inv Cons by (auto simp: em_inv_def)
    then show ?thesis using inv True Cons rest called by (simp add: take_event_def em_inv_def registered_def)
  next
    case False
    obtain r e2 where b: "begin_event x ?e = (r, e2)" by (cases "begin_event x ?e")
    have dead: "em_dead ?e = []" using inv by (simp add: em_inv_def)
    note f = begin_event_alive [OF dead b]
    have keep: "em_queue e2 = xs" "em_max e2 = em_max e" "em_running e2 = em_running e" "em_stopping e2 = em_stopping e" "em_accepted e2 = em_accepted e"
      "em_taken e2 = em_taken e" "em_called e2 = em_called e" "em_dead e2 = []" using f(1) dead by (simp_all add: same_flow_def)
    have old: "\<forall>a\<in>registered e. a < em_fresh e" using inv by (simp add: em_inv_def)
    show ?thesis
    proof (cases r)
      case None
      have "e2 = ?e" using b None by (auto simp: begin_event_def Let_def split: if_splits)
      then show ?thesis using inv b None Cons False rest called by (cases main) (simp_all add: take_event_def em_inv_def registered_def)
    next
      case (Some d)
      note g = f(3) [OF Some]
      have reg: "registered e2 = registered e" using g by (simp add: registered_def)
      define e3 where "e3 = e2\<lparr>em_worker := Busy main d, em_taken := em_taken e2 @ [(x, handlers_of (fst x) ?e)]\<rparr>"
      have e3: "em_queue e3 = xs" "em_max e3 = em_max e" "em_running e3 = em_running e" "em_stopping e3 = em_stopping e" "em_accepted e3 = em_accepted e"
        "em_taken e3 = em_taken e @ [(x, handlers_of (fst x) ?e)]" "em_called e3 = em_called e" "em_dead e3 = []" "em_worker e3 = Busy main d"
        "registered e3 = registered e" "em_fresh e3 = em_fresh e + 1" "em_lists e3 = em_lists e2"
        using keep reg g by (simp_all add: e3_def registered_def)
      have bound: "\<forall>a\<in>registered e3. a < em_fresh e3" using old by (auto simp: e3(10, 11))
      have own: "dp_list d \<notin> registered e3" using old g by (auto simp: e3(10))
      have "worker_ok (em_worker e3) e3" using own e3 g called by auto
      moreover have "em_accepted e3 = map fst (em_taken e3) @ filter (\<lambda>x. x \<noteq> sentinel) (em_queue e3)" using inv Cons False e3 by (simp add: em_inv_def)
      moreover have "em_stopping e \<longrightarrow> \<not> em_running e" using inv by (simp add: em_inv_def)
      ultimately have "em_inv e3" unfolding em_inv_def using bound e3 rest by (simp del: worker_ok.simps)
      moreover have "take_event main e = e3" using Cons False b Some by (simp add: take_event_def e3_def)
      ultimately show ?thesis by simp
    qed
  qed
qed

lemma worker_inv:
  assumes inv: "em_inv e"
  shows "em_inv (worker_step e)"
proof (cases "em_worker e")
  case (Busy main d)
  let ?hs = "list_at e (dp_list d)"
  have w: "worker_ok (Busy main d) e" using inv Busy by (simp add: em_inv_def)
  show ?thesis
  proof (cases "dp_index d < length ?hs")
    case True
    have alive: "entry_alive (em_dead e) h" for h using inv by (cases h) (simp_all add: em_inv_def)
    let ?e = "e\<lparr>em_worker := Busy main (d\<lparr>dp_index := dp_index d + 1\<rparr>), em_called := em_called e @ [(dp_item d, ?hs ! dp_index d)]\<rparr>"
    have "worker_ok (em_worker ?e) ?e" using w True by (simp add: registered_def take_Suc_conv_app_nth)
    then have "em_inv ?e" using inv by (simp add: em_inv_def registered_def)
    then show ?thesis using Busy True alive by (simp add: worker_step_def next_handler_def called_now_def)
  next
    case False
    have l: "em_taken e = butlast (em_taken e) @ [(dp_item d, ?hs)]" using w by (metis append_butlast_last_id worker_ok.simps(1))
    have "em_called e = concat (map calls_of (butlast (em_taken e))) @ calls_of (dp_item d, ?hs)" using w False by (simp add: calls_of_def)
    also have "\<dots> = concat (map calls_of (butlast (em_taken e) @ [(dp_item d, ?hs)]))" by simp
    finally have "em_called e = concat (map calls_of (em_taken e))" unfolding l [symmetric] .
    then show ?thesis using inv w Busy False by (cases main) (auto simp: worker_step_def next_handler_def em_inv_def registered_def)
  qed
next
  case Waiting
  then show ?thesis using take_inv [OF inv, of True] by (simp add: worker_step_def)
next
  case Draining
  then show ?thesis using take_inv [OF inv, of False] by (simp add: worker_step_def)
qed (use inv in \<open>auto simp: worker_step_def em_inv_def registered_def\<close>)

lemma start_inv: "em_inv e \<Longrightarrow> \<not> em_stopping e \<Longrightarrow> em_inv (emitter_start e)"
  by (cases "em_worker e") (auto simp: emitter_start_def em_inv_def registered_def)

lemma stop_inv:
  assumes inv: "em_inv e" and idle: "\<not> em_stopping e"
  shows "em_inv (stop_begin e)"
proof (cases "em_running e")
  case True
  have ns: "sentinel \<notin> set (em_queue e)" using inv idle by (simp add: em_inv_def)
  have w: "em_worker e \<noteq> NoWorker" "em_worker e \<noteq> Ended" using inv True idle by (cases "em_worker e"; simp add: em_inv_def)+
  let ?e = "e\<lparr>em_running := False, em_stopping := True\<rparr>"
  let ?e' = "?e\<lparr>em_queue := em_queue e @ [sentinel]\<rparr>"
  have ok: "worker_ok (em_worker e) ?e \<and> worker_ok (em_worker e) ?e'" using inv w by (cases "em_worker e") (auto simp: em_inv_def registered_def)
  have "em_inv ?e" using inv idle ns ok by (simp add: em_inv_def registered_def del: worker_ok.simps)
  moreover have "em_inv ?e'" if "\<not> queue_full ?e"
    using inv idle ns ok that by (auto simp add: em_inv_def registered_def queue_full_def butlast_append simp del: worker_ok.simps)
  ultimately show ?thesis using True w by (simp add: stop_begin_def Let_def)
qed (use inv in \<open>simp add: stop_begin_def\<close>)

lemma stop_end_inv: "em_inv e \<Longrightarrow> em_stopping e \<Longrightarrow> em_worker e = Ended \<Longrightarrow> em_inv (stop_end e)"
  by (simp add: stop_end_def em_inv_def registered_def)

lemma await_inv:
  assumes inv: "em_inv e"
  shows "em_inv (await_begin n ev p e)" "em_inv (await_call n e)"
proof -
  have dead: "em_dead e = []" using inv by (simp add: em_inv_def)
  obtain r e' where b: "begin_event (ev, p) e = (r, e')" by (cases "begin_event (ev, p) e")
  have "same_flow e (await_begin n ev p e)" using begin_event_alive(1) [OF dead b] b
    by (cases r) (simp_all add: await_begin_def same_flow_def registered_def)
  then show "em_inv (await_begin n ev p e)" by (rule same_flow_inv [OF inv])
  have "same_flow e (await_call n e)" by (simp add: await_call_def same_flow_def registered_def split: option.split prod.split)
  then show "em_inv (await_call n e)" by (rule same_flow_inv [OF inv])
qed

lemma step_inv: "em_step e a e' \<Longrightarrow> calm a \<Longrightarrow> em_inv e \<Longrightarrow> em_inv e'"
proof (induction rule: em_step.induct)
  case (poll e)
  then show ?case by (simp add: em_inv_def registered_def)
qed (auto intro: same_flow_inv on_flow cancel_flow clear_flow emit_inv worker_inv start_inv stop_inv stop_end_inv await_inv)

lemma emitter_init_inv: "em_inv (emitter_init n)"
  by (simp add: em_inv_def emitter_init_def registered_def)

lemma run_inv: "em_run e as e' \<Longrightarrow> \<forall>a\<in>set as. calm a \<Longrightarrow> em_inv e \<Longrightarrow> em_inv e'"
  by (induction rule: em_run.induct) (auto intro: step_inv)

text \<open>The steps as a function, for runs of an example.\<close>

fun em_do :: "em_action \<Rightarrow> emitter \<Rightarrow> emitter option" where
  "em_do (EmOn ev h) e = Some (on_handler ev h e)"
| "em_do (EmCancel ev h) e = Some (cancel_handler ev h e)"
| "em_do (EmClear ev) e = Some (clear_handlers ev e)"
| "em_do (EmEmit ev p) e = Some (emit_event ev p e)"
| "em_do EmWorker e = Some (worker_step e)"
| "em_do EmPollTimeout e = (if em_worker e = Waiting then Some (e\<lparr>em_worker := Polling\<rparr>) else None)"
| "em_do EmStart e = (if em_stopping e then None else Some (emitter_start e))"
| "em_do EmStop e = (if em_stopping e then None else Some (stop_begin e))"
| "em_do EmStopTimeout e = (if em_stopping e then Some (cancel_worker e) else None)"
| "em_do EmStopEnd e = (if em_stopping e \<and> em_worker e = Ended then Some (stop_end e) else None)"
| "em_do (EmCollect h) e = Some (e\<lparr>em_dead := h # em_dead e\<rparr>)"
| "em_do (EmAwait n ev p) e = (if dict_get (em_awaits e) n = None then Some (await_begin n ev p e) else None)"
| "em_do (EmAwaitCall n) e = Some (await_call n e)"

fun em_play :: "em_action list \<Rightarrow> emitter \<Rightarrow> emitter option" where
  "em_play [] e = Some e"
| "em_play (a # as) e = (case em_do a e of None \<Rightarrow> None | Some e' \<Rightarrow> em_play as e')"

lemma em_do_step: "em_do a e = Some e' \<longleftrightarrow> em_step e a e'"
  by (cases a) (auto simp: em_step.simps)

lemma em_run_play: "em_play as e' = Some e'' \<Longrightarrow> em_run e bs e' \<Longrightarrow> em_run e (bs @ as) e''"
proof (induction as arbitrary: e' bs)
  case (Cons a as)
  then obtain e1 where "em_do a e' = Some e1" "em_play as e1 = Some e''" by (auto split: option.splits)
  then show ?case using Cons.IH [of e1 "bs @ [a]"] Cons.prems(2) em_run.more em_do_step by fastforce
qed simp

lemma em_play_run: "em_play as e = Some e' \<Longrightarrow> em_run e as e'"
  using em_run_play [OF _ em_run.start_run, of as e e'] by simp

text \<open>
  C35. In any run of the emitter, its worker and its callers in which no handler is collected, the drain does not time out and the stop marker
  is not used as an event: the events taken from the queue followed by those still in it are the accepted ones in order; every event
  taken is given once, in the order of registration, to the handlers registered when it was taken, whatever is registered, cancelled
  or cleared meanwhile; the queue keeps its bound; and when the emitter is stopped every accepted event has been handled.
\<close>

theorem events_handled_in_order:
  assumes "em_run (emitter_init n) acts e" "\<forall>a\<in>set acts. calm a"
  shows "em_accepted e = map fst (em_taken e) @ filter (\<lambda>x. x \<noteq> sentinel) (em_queue e)
    \<and> (\<exists>rest. concat (map calls_of (em_taken e)) = em_called e @ rest
         \<and> (case em_worker e of Busy main d \<Rightarrow> rest = drop (dp_index d) (calls_of (last (em_taken e))) | _ \<Rightarrow> rest = []))
    \<and> (0 < em_max e \<longrightarrow> length (em_queue e) \<le> em_max e)
    \<and> (em_worker e = NoWorker \<longrightarrow> map fst (em_taken e) = em_accepted e)"
proof -
  have inv: "em_inv e" using run_inv assms emitter_init_inv by blast
  have "\<exists>rest. concat (map calls_of (em_taken e)) = em_called e @ rest
      \<and> (case em_worker e of Busy main d \<Rightarrow> rest = drop (dp_index d) (calls_of (last (em_taken e))) | _ \<Rightarrow> rest = [])"
  proof (cases "em_worker e")
    case (Busy main d)
    let ?hs = "list_at e (dp_list d)"
    have w: "worker_ok (Busy main d) e" using inv Busy by (simp add: em_inv_def)
    then have last: "last (em_taken e) = (dp_item d, ?hs)" "em_taken e \<noteq> []" by simp_all
    then have l: "em_taken e = butlast (em_taken e) @ [(dp_item d, ?hs)]" by (metis append_butlast_last_id)
    have "concat (map calls_of (butlast (em_taken e) @ [(dp_item d, ?hs)])) = concat (map calls_of (butlast (em_taken e))) @ calls_of (dp_item d, ?hs)" by simp
    then have "concat (map calls_of (em_taken e)) = concat (map calls_of (butlast (em_taken e))) @ calls_of (dp_item d, ?hs)" unfolding l [symmetric] .
    also have "calls_of (dp_item d, ?hs) = map (Pair (dp_item d)) (take (dp_index d) ?hs) @ drop (dp_index d) (calls_of (dp_item d, ?hs))"
      by (simp add: calls_of_def take_map [symmetric])
    finally show ?thesis using w Busy last by simp
  qed (use inv in \<open>simp_all add: em_inv_def\<close>)
  then show ?thesis using inv by (auto simp: em_inv_def)
qed

definition sample_acts :: "em_action list" where
  "sample_acts = [EmStart, EmOn ''v'' (Strong 1), EmOn ''v'' (Strong 2), EmWorker, EmEmit ''v'' (PyInt 5), EmEmit ''o'' PyNone, EmEmit ''v'' (PyInt 6),
     EmWorker, EmWorker, EmCancel ''v'' (Strong 2), EmWorker, EmWorker, EmStop, EmWorker, EmWorker, EmWorker, EmWorker, EmWorker, EmWorker, EmStopEnd]"

theorem events_handled_in_order_witness:
  "\<exists>e. em_run (emitter_init 10) sample_acts e \<and> map fst (em_taken e) = [(''v'', PyInt 5), (''v'', PyInt 6)]
    \<and> em_called e = [((''v'', PyInt 5), Strong 1), ((''v'', PyInt 5), Strong 2), ((''v'', PyInt 6), Strong 1)]"
proof -
  have "map_option (\<lambda>e. (em_worker e, em_accepted e, em_called e)) (em_play sample_acts (emitter_init 10))
      = Some (NoWorker, [(''v'', PyInt 5), (''v'', PyInt 6)], [((''v'', PyInt 5), Strong 1), ((''v'', PyInt 5), Strong 2), ((''v'', PyInt 6), Strong 1)])" by code_simp
  then obtain e where play: "em_play sample_acts (emitter_init 10) = Some e" and e: "em_worker e = NoWorker" "em_accepted e = [(''v'', PyInt 5), (''v'', PyInt 6)]"
    "em_called e = [((''v'', PyInt 5), Strong 1), ((''v'', PyInt 5), Strong 2), ((''v'', PyInt 6), Strong 1)]" by auto
  have run: "em_run (emitter_init 10) sample_acts e" using play by (rule em_play_run)
  have calm: "\<forall>a\<in>set sample_acts. calm a" by code_simp
  have "map fst (em_taken e) = em_accepted e" by (rule events_handled_in_order [OF run calm, THEN conjunct2, THEN conjunct2, THEN conjunct2, THEN mp, OF e(1)])
  then show ?thesis using run e(2, 3) by metis
qed

section \<open>What the hypotheses exclude\<close>

text \<open>
  When the drain times out the stop marker stays in the queue. The worker of the next start reads it and ends, while the emitter
  goes on accepting events that nobody will handle.
\<close>

lemma stale_stop_marker:
  "map_option (\<lambda>e. (em_running e, em_worker e, em_queue e))
     (em_play [EmStart, EmOn ''v'' (Strong 1), EmWorker, EmEmit ''v'' (PyInt 1), EmEmit ''v'' (PyInt 2), EmWorker, EmStop, EmWorker, EmWorker, EmWorker, EmWorker, EmStopTimeout,
        EmStopEnd, EmStart, EmWorker, EmWorker, EmWorker, EmEmit ''v'' (PyInt 3), EmWorker, EmWorker] (emitter_init 10))
   = Some (True, Ended, [(''v'', PyInt 3)])"
  by code_simp

text \<open>
  After a dead handler has been dropped the worker iterates over the registered list itself: a handler that cancels its own
  registration makes the next one be skipped.
\<close>

lemma purged_list_shared:
  "map_option em_called (em_play [EmStart, EmOn ''v'' (Weak 0), EmOn ''v'' (Strong 1), EmOn ''v'' (Strong 2), EmOn ''v'' (Strong 3), EmCollect 0, EmWorker,
        EmEmit ''v'' (PyInt 1), EmWorker, EmWorker, EmCancel ''v'' (Strong 1), EmWorker, EmWorker] (emitter_init 10))
   = Some [((''v'', PyInt 1), Strong 1), ((''v'', PyInt 1), Strong 3)]"
  by code_simp

text \<open>A worker that is cancelled in its main loop enters the drain loop, which no time limit bounds any more.\<close>

lemma timeout_restarts_drain:
  "map_option (\<lambda>e. (em_worker e, em_stopping e, em_called e))
     (em_play [EmStart, EmOn ''v'' (Strong 1), EmWorker, EmEmit ''v'' (PyInt 1), EmEmit ''v'' (PyInt 2), EmWorker, EmWorker, EmStop, EmStopTimeout, EmWorker, EmWorker] (emitter_init 10))
   = Some (Busy False \<lparr>dp_item = (''v'', PyInt 2), dp_list = 2, dp_index = 1\<rparr>, True, [((''v'', PyInt 1), Strong 1), ((''v'', PyInt 2), Strong 1)])"
  by code_simp

section \<open>The bridge\<close>

text \<open>
  A debounce task sleeps until its deadline, then evaluates the condition and gives the rising edges to the handlers of the target.
  The handlers are called from the registered list itself.
\<close>

record aggregate_condition =
  ag_source :: string
  ag_target :: string
  ag_predicate :: "(string \<times> pyval) list \<Rightarrow> bool"
  ag_debounce :: rat

datatype debounce_task = Sleeping nat rat | Emitting nat nat | Finished

record event_bridge =
  br_handlers :: "(string \<times> nat list) list"
  br_latest :: "(string \<times> (string \<times> pyval) list) list"
  br_tasks :: "(string \<times> debounce_task) list"
  br_results :: "(string \<times> bool) list"
  br_attached :: bool
  br_evaluated :: "(string \<times> bool) list"
  br_emitted :: "string list"
  br_called :: "(string \<times> nat) list"

definition bridge_init :: event_bridge where
  "bridge_init = \<lparr>br_handlers = [], br_latest = [], br_tasks = [], br_results = [], br_attached = False, br_evaluated = [], br_emitted = [], br_called = []\<rparr>"

definition bridge_key :: "aggregate_condition \<Rightarrow> string" where
  "bridge_key c = ag_source c @ '':'' @ ag_target c"

definition bridge_on :: "string \<Rightarrow> nat \<Rightarrow> event_bridge \<Rightarrow> event_bridge" where
  "bridge_on ev h b = b\<lparr>br_handlers := dict_set ev (dict_get_or (br_handlers b) ev [] @ [h]) (br_handlers b)\<rparr>"

definition bridge_cancel :: "string \<Rightarrow> nat \<Rightarrow> event_bridge \<Rightarrow> event_bridge" where
  "bridge_cancel ev h b = (case dict_get (br_handlers b) ev of None \<Rightarrow> b | Some hs \<Rightarrow> b\<lparr>br_handlers := dict_set ev (remove1 h hs) (br_handlers b)\<rparr>)"

definition bridge_detach :: "event_bridge \<Rightarrow> event_bridge" where
  "bridge_detach b = b\<lparr>br_attached := False, br_tasks := [], br_latest := [], br_results := []\<rparr>"

text \<open>A device event: the task of the condition's key is cancelled, wherever it is, and a new one sleeps.\<close>

definition bridge_event :: "aggregate_condition list \<Rightarrow> nat \<Rightarrow> string \<Rightarrow> pyval \<Rightarrow> rat \<Rightarrow> event_bridge \<Rightarrow> event_bridge" where
  "bridge_event conds i did p now b = (let c = conds ! i in
     b\<lparr>br_latest := dict_set (ag_source c) (dict_set did p (dict_get_or (br_latest b) (ag_source c) [])) (br_latest b),
       br_tasks := dict_set (bridge_key c) (Sleeping i (now + ag_debounce c)) (br_tasks b)\<rparr>)"

definition debounce_check :: "aggregate_condition \<Rightarrow> nat \<Rightarrow> event_bridge \<Rightarrow> event_bridge" where
  "debounce_check c i b = (let k = bridge_key c;
       current = ag_predicate c (dict_get_or (br_latest b) (ag_source c) []);
       last_result = dict_get_or (br_results b) k False;
       b1 = b\<lparr>br_evaluated := br_evaluated b @ [(k, current)]\<rparr>
     in if current \<and> \<not> last_result then b1\<lparr>br_results := dict_set k True (br_results b), br_tasks := dict_set k (Emitting i 0) (br_tasks b), br_emitted := br_emitted b @ [k]\<rparr>
        else if \<not> current \<and> last_result then b1\<lparr>br_results := dict_set k False (br_results b), br_tasks := dict_set k Finished (br_tasks b)\<rparr>
        else b1\<lparr>br_tasks := dict_set k Finished (br_tasks b)\<rparr>)"

definition bridge_task_step :: "aggregate_condition list \<Rightarrow> rat \<Rightarrow> string \<Rightarrow> event_bridge \<Rightarrow> event_bridge" where
  "bridge_task_step conds now k b = (case dict_get (br_tasks b) k of
       Some (Sleeping i deadline) \<Rightarrow> if deadline \<le> now \<and> i < length conds \<and> bridge_key (conds ! i) = k then debounce_check (conds ! i) i b else b
     | Some (Emitting i n) \<Rightarrow> (let hs = dict_get_or (br_handlers b) (ag_target (conds ! i)) [] in
         if n < length hs then b\<lparr>br_tasks := dict_set k (Emitting i (n + 1)) (br_tasks b), br_called := br_called b @ [(ag_target (conds ! i), hs ! n)]\<rparr>
         else b\<lparr>br_tasks := dict_set k Finished (br_tasks b)\<rparr>)
     | _ \<Rightarrow> b)"

datatype bridge_action = BrEvent nat string pyval rat | BrTask string rat | BrOn string nat | BrCancel string nat

fun bridge_do :: "aggregate_condition list \<Rightarrow> bridge_action \<Rightarrow> event_bridge \<Rightarrow> event_bridge" where
  "bridge_do conds (BrEvent i did p now) b = (if i < length conds then bridge_event conds i did p now b else b)"
| "bridge_do conds (BrTask k now) b = bridge_task_step conds now k b"
| "bridge_do conds (BrOn ev h) b = bridge_on ev h b"
| "bridge_do conds (BrCancel ev h) b = bridge_cancel ev h b"

text \<open>The target of a key is emitted at the rising edges of the results of its evaluations, which begin with False.\<close>

fun rising :: "bool \<Rightarrow> bool list \<Rightarrow> nat" where
  "rising old [] = 0"
| "rising old (r # rs) = (if r \<and> \<not> old then 1 else 0) + rising r rs"

lemma rising_snoc: "rising old (rs @ [r]) = rising old rs + (if r \<and> \<not> last (old # rs) then 1 else 0)"
  by (induction rs arbitrary: old) auto

definition results_of :: "string \<Rightarrow> event_bridge \<Rightarrow> bool list" where
  "results_of k b = map snd (filter (\<lambda>x. fst x = k) (br_evaluated b))"

definition edge_inv :: "string \<Rightarrow> event_bridge \<Rightarrow> bool" where
  "edge_inv k b \<longleftrightarrow> count_list (br_emitted b) k = rising False (results_of k b) \<and> dict_get_or (br_results b) k False = last (False # results_of k b)"

lemma count_list_snoc: "count_list (xs @ [x]) y = count_list xs y + (if x = y then 1 else 0)"
  by (induction xs) auto

lemma debounce_edge: "edge_inv k b \<Longrightarrow> edge_inv k (debounce_check c i b)"
  by (cases "bridge_key c = k")
    (auto simp: edge_inv_def debounce_check_def results_of_def Let_def rising_snoc count_list_snoc)

lemma bridge_edges: "count_list (br_emitted (fold (bridge_do conds) acts bridge_init)) k = rising False (results_of k (fold (bridge_do conds) acts bridge_init))"
proof -
  have step: "edge_inv k b \<Longrightarrow> edge_inv k (bridge_do conds a b)" for a b
  proof (cases a)
    case (BrTask k' now)
    assume inv: "edge_inv k b"
    show ?thesis
    proof (cases "dict_get (br_tasks b) k'")
      case (Some t)
      show ?thesis using inv debounce_edge [OF inv] unfolding BrTask
        by (cases t) (simp_all add: bridge_task_step_def Some Let_def edge_inv_def results_of_def)
    qed (use inv BrTask in \<open>simp add: bridge_task_step_def\<close>)
  qed (auto simp: edge_inv_def results_of_def bridge_event_def bridge_on_def bridge_cancel_def Let_def split: option.split)
  have "edge_inv k (fold (bridge_do conds) acts b)" if "edge_inv k b" for b using that by (induction acts arbitrary: b) (simp_all add: step)
  then show ?thesis by (simp add: edge_inv_def bridge_init_def results_of_def)
qed

text \<open>An event that arrives while the handlers are called cancels them: the handlers left are never called for this edge.\<close>

lemma emission_cancelled:
  "br_called (fold (bridge_do [\<lparr>ag_source = ''c'', ag_target = ''r'', ag_predicate = (\<lambda>ps. 2 \<le> length ps), ag_debounce = 1\<rparr>])
     [BrOn ''r'' 1, BrOn ''r'' 2, BrEvent 0 ''a'' PyNone 0, BrEvent 0 ''b'' PyNone 0, BrTask ''c:r'' 1, BrTask ''c:r'' 1, BrEvent 0 ''a'' PyNone 2,
      BrTask ''c:r'' 3, BrTask ''c:r'' 4, BrTask ''c:r'' 5] bridge_init) = [(''r'', 1)]"
  by code_simp

text \<open>Two conditions with the same source and target share a key: the first is never evaluated.\<close>

lemma conditions_share_key:
  "br_evaluated (fold (bridge_do [\<lparr>ag_source = ''c'', ag_target = ''r'', ag_predicate = (\<lambda>ps. True), ag_debounce = 1\<rparr>,
       \<lparr>ag_source = ''c'', ag_target = ''r'', ag_predicate = (\<lambda>ps. False), ag_debounce = 1\<rparr>])
     [BrEvent 0 ''a'' PyNone 0, BrEvent 1 ''a'' PyNone 0, BrTask ''c:r'' 1, BrTask ''c:r'' 2] bridge_init) = [(''c:r'', False)]"
  by code_simp

end
