(* ===== verification/Data_Upload.thy ===== *)
theory Data_Upload
  imports Batch_Upload
begin

text \<open>
  The upload of device readings (\<open>manager/data/upload.py\<close>, \<open>manager/data/targets.py\<close>): the targets of a device with their transforms and write
  policies, the older configuration with one collection and a minimum interval, and the null documents of a disconnected device. What
  the uploader does with a document is an argument; the collections and documents given to it are logged.
\<close>

section \<open>Targets\<close>

datatype write_policy = ALWAYS | ON_CHANGE | INTERVAL

datatype transform_result = NoDocument | OneDocument document | Documents "document list"

record upload_target =
  ut_collection :: string
  ut_transform :: "document \<Rightarrow> transform_result res"
  ut_policy :: write_policy

record target_runtime =
  rt_target :: upload_target
  rt_legacy :: bool
  rt_save_interval :: "rat option"
  rt_last_raw_values :: "document option"
  rt_last_result :: "document list option"
  rt_last_shape_cache :: "document list option"
  rt_last_save_time :: "rat option"

definition target_runtime_init :: "upload_target \<Rightarrow> target_runtime" where
  "target_runtime_init t = \<lparr>rt_target = t, rt_legacy = False, rt_save_interval = None, rt_last_raw_values = None, rt_last_result = None,
     rt_last_shape_cache = None, rt_last_save_time = None\<rparr>"

primrec nullify_nested :: "pyval \<Rightarrow> pyval" where
  "nullify_nested PyNone = PyNone"
| "nullify_nested (PyBool b) = PyNone"
| "nullify_nested (PyInt i) = PyNone"
| "nullify_nested (PyFloat x) = PyNone"
| "nullify_nested (PyStr s) = PyNone"
| "nullify_nested (PyBytes bs) = PyNone"
| "nullify_nested (PyList xs) = PyList (map nullify_nested xs)"
| "nullify_nested (PyDict d) = PyDict (map (map_prod id nullify_nested) d)"

definition nullify_values :: "document \<Rightarrow> document" where
  "nullify_values d = map (map_prod id nullify_nested) d"

fun normalize_result :: "transform_result \<Rightarrow> document list option" where
  "normalize_result NoDocument = None"
| "normalize_result (OneDocument d) = Some [d]"
| "normalize_result (Documents ds) = Some ds"

definition docs_eq :: "document list \<Rightarrow> document list \<Rightarrow> bool" where
  "docs_eq a b = py_eq (PyList (map PyDict a)) (PyList (map PyDict b))"

section \<open>Configuration and subscription\<close>

record data_upload_manager =
  du_targets :: "(string \<times> target_runtime list) list"
  du_subscribed :: "string list"
  du_collections :: "string list"
  du_sent :: "((string \<times> nat) \<times> document \<times> bool) list"

definition data_upload_init :: data_upload_manager where
  "data_upload_init = \<lparr>du_targets = [], du_subscribed = [], du_collections = [], du_sent = []\<rparr>"

definition configure_outputs :: "string \<Rightarrow> upload_target list \<Rightarrow> (data_upload_manager, unit) op" where
  "configure_outputs did outputs m =
     (if outputs = [] then (Inl ValueError, m)
      else if INTERVAL \<in> set (map ut_policy outputs) then (Inl NotImplementedError, m)
      else (Inr (), m\<lparr>du_targets := dict_set did (map target_runtime_init outputs) (du_targets m), du_collections := du_collections m @ map ut_collection outputs\<rparr>))"

definition install_legacy_target :: "string \<Rightarrow> string \<Rightarrow> rat option \<Rightarrow> data_upload_manager \<Rightarrow> data_upload_manager" where
  "install_legacy_target did coll interval m =
     m\<lparr>du_targets := dict_set did [(target_runtime_init \<lparr>ut_collection = coll, ut_transform = (\<lambda>v. Inr (OneDocument v)), ut_policy = ALWAYS\<rparr>)
         \<lparr>rt_legacy := True, rt_save_interval := (case interval of None \<Rightarrow> None | Some i \<Rightarrow> if i > 0 then Some i else None)\<rparr>] (du_targets m),
       du_collections := du_collections m @ [coll]\<rparr>"

definition configure_upload :: "string \<Rightarrow> string option \<Rightarrow> rat option \<Rightarrow> upload_target list option \<Rightarrow> (data_upload_manager, unit) op" where
  "configure_upload did coll interval outputs m = (case (coll, outputs) of
       (Some c, Some ts) \<Rightarrow> (Inl ValueError, m)
     | (None, None) \<Rightarrow> (Inl ValueError, m)
     | (None, Some ts) \<Rightarrow> configure_outputs did ts m
     | (Some c, None) \<Rightarrow> (Inr (), install_legacy_target did c interval m))"

definition subscribe_upload :: "string \<Rightarrow> data_upload_manager \<Rightarrow> data_upload_manager" where
  "subscribe_upload did m = (if did \<in> set (du_subscribed m) then m
     else let m1 = (if dict_get (du_targets m) did = None then install_legacy_target did ''device_data'' None m else m)
       in m1\<lparr>du_subscribed := du_subscribed m1 @ [did]\<rparr>)"

definition unsubscribe_upload :: "string \<Rightarrow> data_upload_manager \<Rightarrow> data_upload_manager" where
  "unsubscribe_upload did m = (if did \<notin> set (du_subscribed m) then m
     else m\<lparr>du_subscribed := removeAll did (du_subscribed m), du_targets := dict_del did (du_targets m)\<rparr>)"

section \<open>The events of a device\<close>

text \<open>What the uploader does with a document: whether \<open>enqueue\<close> returns, and its state after it.\<close>

type_synonym 'u uploader_fn = "string \<Rightarrow> document \<Rightarrow> 'u \<Rightarrow> bool \<times> 'u"

fun enqueue_docs :: "'u uploader_fn \<Rightarrow> string \<Rightarrow> document list \<Rightarrow> 'u \<Rightarrow> (document \<times> bool) list \<times> 'u" where
  "enqueue_docs enq coll [] u = ([], u)"
| "enqueue_docs enq coll (d # ds) u = (case enq coll d u of (ok, u1) \<Rightarrow> (case enqueue_docs enq coll ds u1 of (rs, u2) \<Rightarrow> ((d, ok) # rs, u2)))"

definition all_ok :: "(document \<times> bool) list \<Rightarrow> bool" where
  "all_ok rs = (\<forall>(d, ok)\<in>set rs. ok)"

definition document_of :: "string \<Rightarrow> pyval \<Rightarrow> document \<Rightarrow> document" where
  "document_of did ts vals = fold (\<lambda>(k, v). dict_set k v) vals [(''device_id'', PyStr did), (''timestamp'', ts)]"

text \<open>Of a target: the documents given to the uploader and the state after the event.\<close>

definition handle_legacy_read :: "'u uploader_fn \<Rightarrow> string \<Rightarrow> pyval \<Rightarrow> rat \<Rightarrow> document \<Rightarrow> target_runtime \<Rightarrow> 'u \<Rightarrow> (document \<times> bool) list \<times> target_runtime \<times> 'u" where
  "handle_legacy_read enq did ts now vals rt u =
     (let rt1 = rt\<lparr>rt_last_raw_values := Some vals\<rparr>;
          skip = (case (rt_save_interval rt, rt_last_save_time rt) of (Some i, Some l) \<Rightarrow> now - l < i | _ \<Rightarrow> False)
      in if skip then ([], rt1, u)
         else case enq (ut_collection (rt_target rt)) (document_of did ts vals) u of (ok, u1) \<Rightarrow>
           ([(document_of did ts vals, ok)], (if ok \<and> rt_save_interval rt \<noteq> None then rt1\<lparr>rt_last_save_time := Some now\<rparr> else rt1), u1))"

definition handle_read :: "'u uploader_fn \<Rightarrow> string \<Rightarrow> pyval \<Rightarrow> rat \<Rightarrow> document \<Rightarrow> target_runtime \<Rightarrow> 'u \<Rightarrow> (document \<times> bool) list \<times> target_runtime \<times> 'u" where
  "handle_read enq did ts now vals rt u =
     (if rt_legacy rt then handle_legacy_read enq did ts now vals rt u
      else case ut_transform (rt_target rt) vals of
        Inl e \<Rightarrow> ([], rt, u)
      | Inr r \<Rightarrow> (case normalize_result r of
          None \<Rightarrow> ([], rt, u)
        | Some docs \<Rightarrow>
            if docs = [] then ([], rt, u)
            else if ut_policy (rt_target rt) = ON_CHANGE \<and> (case rt_last_result rt of None \<Rightarrow> False | Some old \<Rightarrow> docs_eq old docs) then ([], rt, u)
            else (case enqueue_docs enq (ut_collection (rt_target rt)) docs u of (rs, u1) \<Rightarrow>
              (rs, (if \<not> all_ok rs then rt
                    else case ut_policy (rt_target rt) of ON_CHANGE \<Rightarrow> rt\<lparr>rt_last_result := Some docs\<rparr>
                      | ALWAYS \<Rightarrow> rt\<lparr>rt_last_shape_cache := Some docs\<rparr> | INTERVAL \<Rightarrow> rt), u1))))"

definition handle_disconnect :: "'u uploader_fn \<Rightarrow> string \<Rightarrow> pyval \<Rightarrow> target_runtime \<Rightarrow> 'u \<Rightarrow> (document \<times> bool) list \<times> target_runtime \<times> 'u" where
  "handle_disconnect enq did ts rt u =
     (let coll = ut_collection (rt_target rt) in
      if rt_legacy rt then
        (case rt_last_raw_values rt of
           None \<Rightarrow> ([], rt, u)
         | Some raw \<Rightarrow> if raw = [] then ([], rt, u)
             else case enqueue_docs enq coll [document_of did ts (nullify_values raw)] u of (rs, u1) \<Rightarrow> (rs, rt, u1))
      else if ut_policy (rt_target rt) \<noteq> ALWAYS then ([], rt, u)
      else case rt_last_shape_cache rt of
          None \<Rightarrow> ([], rt, u)
        | Some cached \<Rightarrow> (case enqueue_docs enq coll (map nullify_values cached) u of (rs, u1) \<Rightarrow> (rs, rt, u1)))"

fun each_target :: "(target_runtime \<Rightarrow> 'u \<Rightarrow> (document \<times> bool) list \<times> target_runtime \<times> 'u) \<Rightarrow> target_runtime list \<Rightarrow> 'u
    \<Rightarrow> (document \<times> bool) list list \<times> target_runtime list \<times> 'u" where
  "each_target f [] u = ([], [], u)"
| "each_target f (rt # rts) u = (case f rt u of (rs, rt1, u1) \<Rightarrow> (case each_target f rts u1 of (rss, rts1, u2) \<Rightarrow> (rs # rss, rt1 # rts1, u2)))"

datatype upload_event = ReadComplete document pyval rat | Disconnected pyval

definition target_event :: "'u uploader_fn \<Rightarrow> string \<Rightarrow> upload_event \<Rightarrow> target_runtime \<Rightarrow> 'u \<Rightarrow> (document \<times> bool) list \<times> target_runtime \<times> 'u" where
  "target_event enq did ev = (case ev of ReadComplete vals ts now \<Rightarrow> handle_read enq did ts now vals | Disconnected ts \<Rightarrow> handle_disconnect enq did ts)"

definition sent_entries :: "string \<Rightarrow> (document \<times> bool) list list \<Rightarrow> ((string \<times> nat) \<times> document \<times> bool) list" where
  "sent_entries did rss = concat (map (\<lambda>x. map (Pair (did, fst x)) (snd x)) (enumerate 0 rss))"

definition on_upload_event :: "'u uploader_fn \<Rightarrow> string \<Rightarrow> upload_event \<Rightarrow> data_upload_manager \<times> 'u \<Rightarrow> data_upload_manager \<times> 'u" where
  "on_upload_event enq did ev = (\<lambda>(m, u).
     if did \<notin> set (du_subscribed m) then (m, u)
     else case dict_get (du_targets m) did of
       None \<Rightarrow> (m, u)
     | Some rts \<Rightarrow> (case each_target (target_event enq did ev) rts u of (rss, rts1, u1) \<Rightarrow>
         (m\<lparr>du_targets := dict_set did rts1 (du_targets m), du_sent := du_sent m @ sent_entries did rss\<rparr>, u1)))"

section \<open>What a target uploads\<close>

definition docs_at :: "upload_target \<Rightarrow> upload_event \<Rightarrow> document list" where
  "docs_at t ev = (case ev of Disconnected ts \<Rightarrow> []
     | ReadComplete vals ts now \<Rightarrow> (case ut_transform t vals of Inl e \<Rightarrow> []
         | Inr r \<Rightarrow> (case normalize_result r of None \<Rightarrow> [] | Some ds \<Rightarrow> ds)))"

text \<open>The outputs of the reads, and those that differ from the one before.\<close>

definition outputs_of :: "upload_target \<Rightarrow> upload_event list \<Rightarrow> document list list" where
  "outputs_of t evs = filter (\<lambda>ds. ds \<noteq> []) (map (docs_at t) evs)"

definition same_docs :: "document list option \<Rightarrow> document list \<Rightarrow> bool" where
  "same_docs old ds = (case old of None \<Rightarrow> False | Some p \<Rightarrow> docs_eq p ds)"

fun changed_docs :: "document list option \<Rightarrow> document list list \<Rightarrow> document list list" where
  "changed_docs old [] = []"
| "changed_docs old (ds # dss) = (if same_docs old ds then changed_docs old dss else ds # changed_docs (Some ds) dss)"

definition last_of :: "'a option \<Rightarrow> 'a list \<Rightarrow> 'a option" where
  "last_of x xs = (if xs = [] then x else Some (last xs))"

definition docs_or_null :: "upload_target \<Rightarrow> upload_event list \<Rightarrow> upload_event \<Rightarrow> document list" where
  "docs_or_null t evs ev = (case ev of Disconnected ts \<Rightarrow> (case last_of None (outputs_of t evs) of None \<Rightarrow> [] | Some ds \<Rightarrow> map nullify_values ds)
     | ReadComplete vals ts now \<Rightarrow> docs_at t ev)"

definition upload_spec :: "upload_target \<Rightarrow> upload_event list \<Rightarrow> document list" where
  "upload_spec t evs = (if ut_policy t = ON_CHANGE then concat (changed_docs None (outputs_of t evs))
     else concat (map (\<lambda>n. docs_or_null t (take n evs) (evs ! n)) [0..<length evs]))"

definition runtime_after :: "upload_target \<Rightarrow> upload_event list \<Rightarrow> target_runtime" where
  "runtime_after t evs = (target_runtime_init t)\<lparr>rt_last_result := (if ut_policy t = ON_CHANGE then last_of None (changed_docs None (outputs_of t evs)) else None),
     rt_last_shape_cache := (if ut_policy t = ON_CHANGE then None else last_of None (outputs_of t evs))\<rparr>"

lemma changed_snoc: "changed_docs old (dss @ [ds]) = changed_docs old dss @ (if same_docs (last_of old (changed_docs old dss)) ds then [] else [ds])"
  by (induction dss arbitrary: old) (auto simp: last_of_def)

lemma last_of_snoc [simp]: "last_of x (xs @ [y]) = Some y"
  by (simp add: last_of_def)

lemma outputs_snoc: "outputs_of t (evs @ [ev]) = outputs_of t evs @ (if docs_at t ev = [] then [] else [docs_at t ev])"
  by (simp add: outputs_of_def)

lemma spec_snoc: "upload_spec t (evs @ [ev]) = upload_spec t evs @ (if ut_policy t = ON_CHANGE
    then (if docs_at t ev = [] \<or> same_docs (last_of None (changed_docs None (outputs_of t evs))) (docs_at t ev) then [] else docs_at t ev)
    else docs_or_null t evs ev)"
proof (cases "ut_policy t = ON_CHANGE")
  case True
  then show ?thesis by (simp add: upload_spec_def outputs_snoc changed_snoc)
next
  case False
  have "map (\<lambda>n. docs_or_null t (take n (evs @ [ev])) ((evs @ [ev]) ! n)) [0..<length evs] = map (\<lambda>n. docs_or_null t (take n evs) (evs ! n)) [0..<length evs]"
    by (rule map_cong) (simp_all add: nth_append)
  then show ?thesis using False by (simp add: upload_spec_def del: take_append map_eq_conv) simp
qed

definition accepts_all :: "'u uploader_fn \<Rightarrow> bool" where
  "accepts_all enq \<longleftrightarrow> (\<forall>coll d u. fst (enq coll d u))"

lemma enqueue_accepted:
  assumes "accepts_all enq"
  shows "\<exists>u'. enqueue_docs enq coll ds u = (map (\<lambda>d. (d, True)) ds, u')"
proof (induction ds arbitrary: u)
  case (Cons d ds)
  obtain u1 where "enq coll d u = (True, u1)" using assms unfolding accepts_all_def by (metis (full_types) prod.collapse)
  then show ?case using Cons.IH [of u1] by auto
qed simp

text \<open>One event of a target whose documents are accepted.\<close>

lemma target_step:
  assumes acc: "accepts_all enq" and pol: "ut_policy t \<noteq> INTERVAL"
  shows "\<exists>rs u'. target_event enq did ev (runtime_after t evs) u = (rs, runtime_after t (evs @ [ev]), u')
    \<and> upload_spec t (evs @ [ev]) = upload_spec t evs @ map fst rs"
proof (cases ev)
  case (Disconnected ts)
  have out: "outputs_of t (evs @ [ev]) = outputs_of t evs" by (simp add: outputs_snoc docs_at_def Disconnected)
  then have rt: "runtime_after t (evs @ [ev]) = runtime_after t evs" by (simp add: runtime_after_def)
  have sp: "upload_spec t (evs @ [ev]) = upload_spec t evs @ (if ut_policy t = ON_CHANGE then []
      else case last_of None (outputs_of t evs) of None \<Rightarrow> [] | Some ds \<Rightarrow> map nullify_values ds)"
    by (simp add: spec_snoc docs_at_def docs_or_null_def Disconnected)
  obtain u' where "enqueue_docs enq (ut_collection t) (map nullify_values (the (last_of None (outputs_of t evs)))) u
      = (map (\<lambda>d. (d, True)) (map nullify_values (the (last_of None (outputs_of t evs)))), u')" using enqueue_accepted [OF acc] by blast
  then show ?thesis using pol unfolding rt sp
    by (cases "ut_policy t"; cases "last_of None (outputs_of t evs)")
      (simp_all add: target_event_def Disconnected handle_disconnect_def runtime_after_def target_runtime_init_def comp_def)
next
  case (ReadComplete vals ts now)
  let ?ds = "docs_at t ev"
  obtain u' where enq: "enqueue_docs enq (ut_collection t) ?ds u = (map (\<lambda>d. (d, True)) ?ds, u')" using enqueue_accepted [OF acc] by blast
  have plain: "\<not> rt_legacy (runtime_after t evs)" "rt_target (runtime_after t evs) = t" by (simp_all add: runtime_after_def target_runtime_init_def)
  show ?thesis
  proof (cases "?ds = []")
    case True
    then have "target_event enq did ev (runtime_after t evs) u = ([], runtime_after t evs, u)" using plain
      by (auto simp: target_event_def ReadComplete handle_read_def docs_at_def split: sum.split option.split)
    moreover have "runtime_after t (evs @ [ev]) = runtime_after t evs" using True by (simp add: runtime_after_def outputs_snoc)
    moreover have "upload_spec t (evs @ [ev]) = upload_spec t evs" using True by (simp add: spec_snoc docs_or_null_def ReadComplete)
    ultimately show ?thesis by simp
  next
    case False
    then obtain r where r: "ut_transform t vals = Inr r" "normalize_result r = Some ?ds"
      by (auto simp: docs_at_def ReadComplete split: sum.splits option.splits)
    have ok: "all_ok (map (\<lambda>d. (d, True)) ?ds)" by (simp add: all_ok_def)
    have skip: "ut_policy t = ON_CHANGE \<Longrightarrow> (case rt_last_result (runtime_after t evs) of None \<Rightarrow> False | Some old \<Rightarrow> docs_eq old ?ds)
        = same_docs (last_of None (changed_docs None (outputs_of t evs))) ?ds"
      by (simp add: runtime_after_def same_docs_def)
    have te: "target_event enq did ev = handle_read enq did ts now vals" by (simp add: target_event_def ReadComplete)
    have ev: "target_event enq did ev (runtime_after t evs) u =
        (if ut_policy t = ON_CHANGE \<and> same_docs (last_of None (changed_docs None (outputs_of t evs))) ?ds then ([], runtime_after t evs, u)
         else (map (\<lambda>d. (d, True)) ?ds, (case ut_policy t of ON_CHANGE \<Rightarrow> (runtime_after t evs)\<lparr>rt_last_result := Some ?ds\<rparr>
            | ALWAYS \<Rightarrow> (runtime_after t evs)\<lparr>rt_last_shape_cache := Some ?ds\<rparr> | INTERVAL \<Rightarrow> runtime_after t evs), u'))"
      using plain r False enq ok skip unfolding te handle_read_def by (cases "ut_policy t") simp_all
    show ?thesis unfolding ev using pol False
      by (cases "ut_policy t") (simp_all add: runtime_after_def outputs_snoc changed_snoc spec_snoc docs_or_null_def ReadComplete comp_def)
  qed
qed

lemma each_target_steps:
  assumes "each_target f rts u = (rss, rts', u')"
  shows "length rss = length rts \<and> length rts' = length rts \<and> (\<forall>j<length rts. \<exists>v v'. f (rts ! j) v = (rss ! j, rts' ! j, v'))"
  using assms
proof (induction rts arbitrary: u rss rts')
  case (Cons rt rts)
  obtain rs rt1 u1 where f: "f rt u = (rs, rt1, u1)" by (cases "f rt u")
  obtain rss0 rts0 u2 where rest: "each_target f rts u1 = (rss0, rts0, u2)" by (cases "each_target f rts u1")
  have eq: "rss = rs # rss0" "rts' = rt1 # rts0" "u' = u2" using Cons.prems f rest by simp_all
  have IH: "length rss0 = length rts \<and> length rts0 = length rts \<and> (\<forall>j<length rts. \<exists>v v'. f (rts ! j) v = (rss0 ! j, rts0 ! j, v'))"
    using Cons.IH [of u1 rss0 rts0] rest eq(3) by simp
  have "\<exists>v v'. f ((rt # rts) ! j) v = (rss ! j, rts' ! j, v')" if "j < length (rt # rts)" for j
    using that f IH by (cases j) (auto simp: eq)
  then show ?case using IH by (simp add: eq)
qed simp

definition sent_by :: "string \<Rightarrow> nat \<Rightarrow> data_upload_manager \<Rightarrow> document list" where
  "sent_by did j m = map (fst \<circ> snd) (filter (\<lambda>x. fst x = (did, j)) (du_sent m))"

lemma filter_Pair: "filter (\<lambda>x. fst x = k) (map (Pair k') rs) = (if k = k' then map (Pair k') rs else [])"
  by (induction rs) auto

lemma sent_entries_other: "d \<noteq> did \<Longrightarrow> filter (\<lambda>x. fst x = (d, j)) (sent_entries did rss) = []"
  by (auto simp: sent_entries_def filter_empty_conv)

lemma sent_entries_at_from: "map (fst \<circ> snd) (filter (\<lambda>x. fst x = (did, n + j)) (concat (map (\<lambda>x. map (Pair (did, fst x)) (snd x)) (enumerate n rss))))
    = (if j < length rss then map fst (rss ! j) else [])"
proof (induction rss arbitrary: n j)
  case (Cons rs rss)
  have no: "filter (\<lambda>x. fst x = (did, n)) (concat (map (\<lambda>x. map (Pair (did, fst x)) (snd x)) (enumerate (Suc n) rss))) = []"
    by (auto simp: filter_empty_conv in_set_enumerate_eq)
  show ?case using no Cons.IH [of "Suc n"] by (cases j) (simp_all add: filter_Pair comp_def)
qed simp

lemma sent_entries_at: "map (fst \<circ> snd) (filter (\<lambda>x. fst x = (did, j)) (sent_entries did rss)) = (if j < length rss then map fst (rss ! j) else [])"
  using sent_entries_at_from [of did 0 j rss] by (simp add: sent_entries_def)

definition upload_inv :: "string \<Rightarrow> upload_target list \<Rightarrow> upload_event list \<Rightarrow> data_upload_manager \<Rightarrow> bool" where
  "upload_inv did ts evs m \<longleftrightarrow> did \<in> set (du_subscribed m) \<and> dict_get (du_targets m) did = Some (map (\<lambda>t. runtime_after t evs) ts)
     \<and> (\<forall>j<length ts. sent_by did j m = upload_spec (ts ! j) evs)"

lemma upload_step:
  assumes inv: "upload_inv did ts evs m" and acc: "accepts_all enq" and pol: "INTERVAL \<notin> set (map ut_policy ts)"
  shows "upload_inv did ts (evs @ (if d = did then [ev] else [])) (fst (on_upload_event enq d ev (m, u)))"
proof (cases "d = did")
  case False
  obtain rss rts u1 where "each_target (target_event enq d ev) (the (dict_get (du_targets m) d)) u = (rss, rts, u1)" by (cases "each_target (target_event enq d ev) (the (dict_get (du_targets m) d)) u")
  then have "upload_inv did ts evs (fst (on_upload_event enq d ev (m, u)))" using inv False sent_entries_other [of did d] by (cases "dict_get (du_targets m) d") (auto simp: on_upload_event_def upload_inv_def sent_by_def map_of_dict_set split: prod.split)
  then show ?thesis using False by simp
next
  case True
  let ?rts = "map (\<lambda>t. runtime_after t evs) ts"
  obtain rss rts u1 where step: "each_target (target_event enq did ev) ?rts u = (rss, rts, u1)" by (cases "each_target (target_event enq did ev) ?rts u")
  have len: "length rss = length ts" "length rts = length ts" using each_target_steps [OF step] by simp_all
  have each: "rts ! j = runtime_after (ts ! j) (evs @ [ev]) \<and> upload_spec (ts ! j) (evs @ [ev]) = upload_spec (ts ! j) evs @ map fst (rss ! j)" if j: "j < length ts" for j
  proof -
    obtain v v' where f: "target_event enq did ev (runtime_after (ts ! j) evs) v = (rss ! j, rts ! j, v')" using each_target_steps [OF step] j by auto
    have "ut_policy (ts ! j) \<noteq> INTERVAL" using pol j by (metis length_map nth_map nth_mem)
    from target_step [OF acc this, of did ev evs v] f show ?thesis by auto
  qed
  then have rts: "rts = map (\<lambda>t. runtime_after t (evs @ [ev])) ts" using len by (intro nth_equalityI) simp_all
  have m1: "fst (on_upload_event enq d ev (m, u)) = m\<lparr>du_targets := dict_set did rts (du_targets m), du_sent := du_sent m @ sent_entries did rss\<rparr>"
    using inv True step by (simp add: on_upload_event_def upload_inv_def)
  show ?thesis unfolding m1 using inv True each len
    by (simp add: upload_inv_def rts map_of_dict_set sent_by_def sent_entries_at)
qed

definition upload_run :: "'u uploader_fn \<Rightarrow> (string \<times> upload_event) list \<Rightarrow> data_upload_manager \<times> 'u \<Rightarrow> data_upload_manager \<times> 'u" where
  "upload_run enq evs = fold (\<lambda>(d, ev). on_upload_event enq d ev) evs"

definition events_for :: "string \<Rightarrow> (string \<times> upload_event) list \<Rightarrow> upload_event list" where
  "events_for did evs = map snd (filter (\<lambda>x. fst x = did) evs)"

lemma upload_run_inv:
  assumes "accepts_all enq" "INTERVAL \<notin> set (map ut_policy ts)"
  shows "upload_inv did ts before m \<Longrightarrow> upload_inv did ts (before @ events_for did evs) (fst (upload_run enq evs (m, u)))"
proof (induction evs arbitrary: before m u)
  case Nil
  then show ?case by (simp add: events_for_def upload_run_def)
next
  case (Cons x evs)
  obtain d ev where x: "x = (d, ev)" by (cases x)
  obtain m1 u1 where s: "on_upload_event enq d ev (m, u) = (m1, u1)" by (cases "on_upload_event enq d ev (m, u)")
  have "upload_inv did ts (before @ (if d = did then [ev] else [])) m1" using upload_step [OF Cons.prems assms, of d ev u] s by simp
  from Cons.IH [OF this, of u1] show ?case using s by (cases "d = did") (auto simp add: upload_run_def x events_for_def)
qed


definition sample_target :: "write_policy \<Rightarrow> upload_target" where
  "sample_target p = \<lparr>ut_collection = ''c'', ut_transform = (\<lambda>v. Inr (OneDocument [(''soc'', dict_get_or v ''soc'' PyNone)])), ut_policy = p\<rparr>"

definition sample_events :: "(string \<times> upload_event) list" where
  "sample_events = [(''d'', ReadComplete [(''soc'', PyInt 5), (''x'', PyInt 1)] PyNone 0), (''e'', Disconnected PyNone),
     (''d'', ReadComplete [(''soc'', PyFloat 5), (''x'', PyInt 2)] PyNone 1), (''d'', Disconnected PyNone), (''d'', ReadComplete [(''soc'', PyInt 6)] PyNone 2)]"


text \<open>Two saves of the older configuration are at least its interval apart, counting those that succeeded.\<close>

lemma legacy_throttled:
  "handle_legacy_read enq did ts now vals rt u = (rs, rt', u') \<Longrightarrow> rt_save_interval rt = Some i \<Longrightarrow> rs \<noteq> [] \<Longrightarrow>
    (case rt_last_save_time rt of None \<Rightarrow> True | Some l \<Rightarrow> i \<le> now - l) \<and> (all_ok rs \<longrightarrow> rt_last_save_time rt' = Some now)"
  by (auto simp: handle_legacy_read_def Let_def all_ok_def split: option.splits if_splits prod.splits)

text \<open>A point that is called like the device id takes its place in the document.\<close>

lemma point_hides_device:
  "dict_get (document_of ''pcs1'' (PyInt 7) [(''device_id'', PyInt 3), (''timestamp'', PyNone)]) ''device_id'' = Some (PyInt 3)"
  by code_simp

text \<open>The null document of a target has no device id and no time, even when its transform puts them in.\<close>

lemma null_document_anonymous:
  "map nullify_values [[(''device_id'', PyStr ''pcs1''), (''timestamp'', PyInt 7), (''soc'', PyInt 50)]]
     = [[(''device_id'', PyNone), (''timestamp'', PyNone), (''soc'', PyNone)]]"
  by code_simp

text \<open>When one of several documents is refused, the others are uploaded again with the next read.\<close>

lemma refused_batch_repeated:
  "sent_by ''d'' 0 (fst (upload_run (\<lambda>c d n. (n \<noteq> (1::nat), n + 1)) [(''d'', ReadComplete [] PyNone 0), (''d'', ReadComplete [] PyNone 1)]
     (subscribe_upload ''d'' (snd (configure_upload ''d'' None None (Some [\<lparr>ut_collection = ''c'', ut_transform = (\<lambda>v. Inr (Documents [[(''a'', PyInt 1)], [(''b'', PyInt 2)]])),
        ut_policy = ON_CHANGE\<rparr>]) data_upload_init)), 0))) = [[(''a'', PyInt 1)], [(''b'', PyInt 2)], [(''a'', PyInt 1)], [(''b'', PyInt 2)]]"
  by code_simp

text \<open>Unsubscribing forgets the configuration: after the next subscription the readings go to the default collection.\<close>

lemma configuration_forgotten:
  "map_option (map (\<lambda>rt. (ut_collection (rt_target rt), rt_legacy rt))) (dict_get (du_targets (subscribe_upload ''d'' (unsubscribe_upload ''d''
     (subscribe_upload ''d'' (snd (configure_upload ''d'' (Some ''meter'') None None data_upload_init)))))) ''d'') = Some [(''device_data'', True)]"
  by code_simp

end
