(* ===== verification/Device_Manager.thy ===== *)
theory Device_Manager
  imports Resilience Device_Registry Data_Upload
begin

text \<open>
  The manager that connects and reads the devices (\<open>manager/device/manager.py\<close>), the group that reads its devices one after the other
  (\<open>manager/device/group.py\<close>) and the unified manager that subscribes every device to the other managers (\<open>manager/unified.py\<close>).
  A device is its address in the store of \<open>Device_Registry\<close>; the outcome of each of its coroutines is an argument, and the calls are logged.
\<close>

section \<open>The loop of a group\<close>

datatype group_phase = NoTask | Turn nat | Reading nat | Resting nat rat | Pausing rat | LoopEnded

record device_group =
  gr_devices :: "nat list"
  gr_interval :: rat
  gr_step_interval :: rat
  gr_task :: group_phase
  gr_stop :: bool
  gr_anchor :: rat
  gr_ticks :: int
  gr_turns :: "(nat \<times> bool) list"

definition device_group_init :: "nat list \<Rightarrow> rat \<Rightarrow> device_group" where
  "device_group_init devs interval = \<lparr>gr_devices = devs, gr_interval = interval, gr_step_interval = 1 / 20, gr_task = NoTask, gr_stop = False,
     gr_anchor = 0, gr_ticks = 0, gr_turns = []\<rparr>"

definition group_running :: "device_group \<Rightarrow> bool" where
  "group_running g = (gr_task g \<notin> {NoTask, LoopEnded})"

definition group_start :: "rat \<Rightarrow> device_group \<Rightarrow> device_group" where
  "group_start now g = (if group_running g then g else g\<lparr>gr_stop := False, gr_task := Turn 0, gr_anchor := now, gr_ticks := 0\<rparr>)"

definition group_stop :: "device_group \<Rightarrow> device_group" where
  "group_stop g = (let g1 = g\<lparr>gr_stop := True\<rparr> in if group_running g then g1\<lparr>gr_task := NoTask\<rparr> else g1)"

text \<open>A stretch of the loop, at a time at which the devices answer whether a read should be attempted.\<close>

definition group_step :: "rat \<Rightarrow> (nat \<Rightarrow> bool) \<Rightarrow> device_group \<Rightarrow> device_group" where
  "group_step now attempt g = (case gr_task g of
       Turn n \<Rightarrow>
         if n < length (gr_devices g) \<and> \<not> gr_stop g then
           (let d = gr_devices g ! n in
            if attempt d then g\<lparr>gr_task := Reading n, gr_turns := gr_turns g @ [(d, True)]\<rparr>
            else g\<lparr>gr_task := Turn (n + 1), gr_turns := gr_turns g @ [(d, False)]\<rparr>)
         else (case next_tick_delay (gr_anchor g) (gr_ticks g) (gr_interval g) now of
           (delay, anchor, ticks) \<Rightarrow> g\<lparr>gr_task := Pausing (if 0 < delay then now + delay else now), gr_anchor := anchor, gr_ticks := ticks\<rparr>)
     | Reading n \<Rightarrow> g\<lparr>gr_task := Resting n (now + gr_step_interval g)\<rparr>
     | Resting n until \<Rightarrow> if until \<le> now then g\<lparr>gr_task := Turn (n + 1)\<rparr> else g
     | Pausing until \<Rightarrow> if gr_stop g then g\<lparr>gr_task := LoopEnded\<rparr> else if until \<le> now then g\<lparr>gr_task := Turn 0\<rparr> else g
     | _ \<Rightarrow> g)"

section \<open>The device manager\<close>

datatype dev_call = CallConnect | CallDisconnect | CallStart | CallStop | CallReadOnce | CallEnsureStarted | CallEnsureStopped

datatype call_outcome = CallDone | CallFailed | CallCancelled

type_synonym call_env = "nat \<Rightarrow> dev_call \<Rightarrow> call_outcome"

record device_manager =
  dm_standalone :: "nat list"
  dm_groups :: "device_group list"
  dm_registered_ids :: "string list"
  dm_running :: bool
  dm_calls :: "(nat \<times> dev_call) list"

definition device_manager_init :: device_manager where
  "device_manager_init = \<lparr>dm_standalone = [], dm_groups = [], dm_registered_ids = [], dm_running = False, dm_calls = []\<rparr>"

definition required_methods :: "bool \<Rightarrow> dev_call list" where
  "required_methods for_group = [CallConnect, CallDisconnect] @ (if for_group then [CallReadOnce, CallEnsureStarted, CallEnsureStopped] else [CallStart, CallStop])"

definition has_lifecycle :: "(nat \<Rightarrow> dev_call list) \<Rightarrow> bool \<Rightarrow> nat \<Rightarrow> bool" where
  "has_lifecycle methods for_group d = (\<forall>c\<in>set (required_methods for_group). c \<in> set (methods d))"

definition dm_register :: "device_store \<Rightarrow> (nat \<Rightarrow> dev_call list) \<Rightarrow> nat \<Rightarrow> (device_manager, unit) op" where
  "dm_register store methods d m =
     (if \<not> has_lifecycle methods False d then (Inl ValueError, m)
      else if dev_id (store d) \<in> set (dm_registered_ids m) then (Inl ValueError, m)
      else (Inr (), m\<lparr>dm_standalone := dm_standalone m @ [d], dm_registered_ids := set_add (dev_id (store d)) (dm_registered_ids m)\<rparr>))"

fun check_group :: "device_store \<Rightarrow> (nat \<Rightarrow> dev_call list) \<Rightarrow> string list \<Rightarrow> nat list \<Rightarrow> string list \<Rightarrow> string list res" where
  "check_group store methods ids [] new = Inr new"
| "check_group store methods ids (d # ds) new =
     (if \<not> has_lifecycle methods True d then Inl ValueError
      else if dev_id (store d) \<in> set ids \<or> dev_id (store d) \<in> set new then Inl ValueError
      else check_group store methods ids ds (new @ [dev_id (store d)]))"

definition dm_register_group :: "device_store \<Rightarrow> (nat \<Rightarrow> dev_call list) \<Rightarrow> nat list \<Rightarrow> rat \<Rightarrow> (device_manager, unit) op" where
  "dm_register_group store methods ds interval m = (case check_group store methods (dm_registered_ids m) ds [] of
       Inl e \<Rightarrow> (Inl e, m)
     | Inr new \<Rightarrow> (Inr (), m\<lparr>dm_groups := dm_groups m @ [device_group_init ds interval], dm_registered_ids := fold set_add new (dm_registered_ids m)\<rparr>))"

definition all_managed :: "device_manager \<Rightarrow> nat list" where
  "all_managed m = dm_standalone m @ concat (map gr_devices (dm_groups m))"

subsection \<open>Calls to a device\<close>

text \<open>Steps of one device in order; whether none was cancelled. Failures are logged by the code and passed over.\<close>

fun safe_steps :: "call_env \<Rightarrow> nat \<Rightarrow> dev_call list \<Rightarrow> device_manager \<Rightarrow> bool \<times> device_manager" where
  "safe_steps out d [] m = (True, m)"
| "safe_steps out d (c # cs) m = (let m1 = m\<lparr>dm_calls := dm_calls m @ [(d, c)]\<rparr> in
     if out d c = CallCancelled then (False, m1) else safe_steps out d cs m1)"

text \<open>The devices of a batch run side by side; a cancelled one aborts the caller after all have ended.\<close>

fun gather_devices :: "call_env \<Rightarrow> dev_call list \<Rightarrow> nat list \<Rightarrow> device_manager \<Rightarrow> bool \<times> device_manager" where
  "gather_devices out cs [] m = (True, m)"
| "gather_devices out cs (d # ds) m = (case safe_steps out d cs m of (ok, m1) \<Rightarrow>
     (case gather_devices out cs ds m1 of (ok', m2) \<Rightarrow> (ok \<and> ok', m2)))"

subsection \<open>Start and stop\<close>

fun start_groups :: "call_env \<Rightarrow> rat \<Rightarrow> device_group list \<Rightarrow> device_manager \<Rightarrow> bool \<times> device_group list \<times> device_manager" where
  "start_groups out now [] m = (True, [], m)"
| "start_groups out now (g # gs) m = (case gather_devices out [CallConnect, CallEnsureStarted] (gr_devices g) m of
     (False, m1) \<Rightarrow> (False, g # gs, m1)
   | (True, m1) \<Rightarrow> (case start_groups out now gs m1 of (ok, gs', m2) \<Rightarrow> (ok, group_start now g # gs', m2)))"

text \<open>The result tells whether the start has completed; a cancelled one is rolled back in the flag only.\<close>

definition dm_start :: "call_env \<Rightarrow> rat \<Rightarrow> device_manager \<Rightarrow> bool \<times> device_manager" where
  "dm_start out now m =
     (if dm_running m then (True, m)
      else case gather_devices out [CallConnect, CallStart] (dm_standalone m) (m\<lparr>dm_running := True\<rparr>) of
        (False, m1) \<Rightarrow> (False, m1\<lparr>dm_running := False\<rparr>)
      | (True, m1) \<Rightarrow> (case start_groups out now (dm_groups m1) m1 of
          (ok, gs, m2) \<Rightarrow> (ok, m2\<lparr>dm_groups := gs, dm_running := ok\<rparr>)))"

fun stop_groups :: "call_env \<Rightarrow> device_group list \<Rightarrow> device_manager \<Rightarrow> bool \<times> device_group list \<times> device_manager" where
  "stop_groups out [] m = (True, [], m)"
| "stop_groups out (g # gs) m = (case gather_devices out [CallEnsureStopped, CallDisconnect] (gr_devices g) m of
     (False, m1) \<Rightarrow> (False, group_stop g # gs, m1)
   | (True, m1) \<Rightarrow> (case stop_groups out gs m1 of (ok, gs', m2) \<Rightarrow> (ok, group_stop g # gs', m2)))"

definition dm_stop :: "call_env \<Rightarrow> device_manager \<Rightarrow> bool \<times> device_manager" where
  "dm_stop out m =
     (if \<not> dm_running m then (True, m)
      else case gather_devices out [CallStop, CallDisconnect] (dm_standalone m) (m\<lparr>dm_running := False\<rparr>) of
        (False, m1) \<Rightarrow> (False, m1)
      | (True, m1) \<Rightarrow> (case stop_groups out (dm_groups m1) m1 of (ok, gs, m2) \<Rightarrow> (ok, m2\<lparr>dm_groups := gs\<rparr>)))"

subsection \<open>Leaving\<close>

text \<open>The result is None when the call is cancelled, else whether the device was found.\<close>

definition dm_unregister :: "device_store \<Rightarrow> call_env \<Rightarrow> string \<Rightarrow> device_manager \<Rightarrow> bool option \<times> device_manager" where
  "dm_unregister store out did m = (case find (\<lambda>d. dev_id (store d) = did) (dm_standalone m) of
       None \<Rightarrow> (Some False, m)
     | Some d \<Rightarrow> (case (if dm_running m then safe_steps out d [CallStop, CallDisconnect] m else (True, m)) of
         (False, m1) \<Rightarrow> (None, m1)
       | (True, m1) \<Rightarrow> (Some True, m1\<lparr>dm_standalone := remove1 d (dm_standalone m1), dm_registered_ids := removeAll did (dm_registered_ids m1)\<rparr>)))"

definition group_ids :: "device_store \<Rightarrow> device_group \<Rightarrow> string list" where
  "group_ids store g = map (\<lambda>d. dev_id (store d)) (gr_devices g)"

fun without_group :: "device_store \<Rightarrow> string list \<Rightarrow> device_group list \<Rightarrow> device_group list" where
  "without_group store ids [] = []"
| "without_group store ids (g # gs) = (if set (group_ids store g) = set ids then gs else g # without_group store ids gs)"

fun stop_first :: "device_store \<Rightarrow> string list \<Rightarrow> device_group list \<Rightarrow> device_group list" where
  "stop_first store ids [] = []"
| "stop_first store ids (g # gs) = (if set (group_ids store g) = set ids then group_stop g # gs else g # stop_first store ids gs)"

definition dm_unregister_group :: "device_store \<Rightarrow> call_env \<Rightarrow> string list \<Rightarrow> device_manager \<Rightarrow> bool option \<times> device_manager" where
  "dm_unregister_group store out ids m = (case find (\<lambda>g. set (group_ids store g) = set ids) (dm_groups m) of
       None \<Rightarrow> (Some False, m)
     | Some g \<Rightarrow> (case (if dm_running m then gather_devices out [CallDisconnect] (gr_devices g) (m\<lparr>dm_groups := stop_first store ids (dm_groups m)\<rparr>) else (True, m)) of
         (False, m1) \<Rightarrow> (None, m1)
       | (True, m1) \<Rightarrow> (Some True, m1\<lparr>dm_groups := without_group store ids (dm_groups m1),
           dm_registered_ids := filter (\<lambda>i. i \<notin> set (group_ids store g)) (dm_registered_ids m1)\<rparr>)))"

section \<open>The unified manager\<close>

record unified_manager =
  um_devices :: device_manager
  um_has_alarm :: bool
  um_has_command :: bool
  um_has_data :: bool
  um_has_state :: bool
  um_has_statistics :: bool
  um_alarm :: "string list"
  um_command :: "(string \<times> nat) list"
  um_data :: data_upload_manager
  um_state :: "string list"
  um_statistics :: "string list"
  um_capability :: "string list"
  um_registry :: "registry option"
  um_leader :: "bool option"

definition unified_init :: "bool \<Rightarrow> bool \<Rightarrow> bool \<Rightarrow> bool \<Rightarrow> bool \<Rightarrow> registry option \<Rightarrow> bool option \<Rightarrow> unified_manager" where
  "unified_init alarm command data state statistics reg leader =
     \<lparr>um_devices = device_manager_init, um_has_alarm = alarm, um_has_command = command, um_has_data = data, um_has_state = state, um_has_statistics = statistics \<and> data,
      um_alarm = [], um_command = [], um_data = data_upload_init, um_state = [], um_statistics = [], um_capability = [], um_registry = reg, um_leader = leader\<rparr>"

definition subscribe_data :: "string \<Rightarrow> string option \<Rightarrow> upload_target list option \<Rightarrow> (unified_manager, unit) op" where
  "subscribe_data did coll outputs u =
     (if coll = None \<and> outputs = None then (Inr (), u)
      else case configure_upload did (if outputs = None then coll else None) None outputs (um_data u) of
        (Inl e, m) \<Rightarrow> (Inl e, u\<lparr>um_data := m\<rparr>)
      | (Inr _, m) \<Rightarrow> (Inr (), u\<lparr>um_data := subscribe_upload did m\<rparr>))"

definition join_alarm :: "string \<Rightarrow> unified_manager \<Rightarrow> unified_manager" where
  "join_alarm did u = (if um_has_alarm u then u\<lparr>um_alarm := set_add did (um_alarm u)\<rparr> else u)"

definition join_command :: "string \<Rightarrow> nat \<Rightarrow> unified_manager \<Rightarrow> unified_manager" where
  "join_command did d u = (if um_has_command u then u\<lparr>um_command := dict_set did d (um_command u)\<rparr> else u)"

definition join_state :: "string \<Rightarrow> unified_manager \<Rightarrow> unified_manager" where
  "join_state did u = (if um_has_state u then u\<lparr>um_state := set_add did (um_state u)\<rparr> else u)"

definition join_statistics :: "string \<Rightarrow> unified_manager \<Rightarrow> unified_manager" where
  "join_statistics did u = (if um_has_statistics u then u\<lparr>um_statistics := set_add did (um_statistics u)\<rparr> else u)"

definition subscribe_all :: "device_store \<Rightarrow> nat \<Rightarrow> string option \<Rightarrow> upload_target list option \<Rightarrow> (unified_manager, unit) op" where
  "subscribe_all store d coll outputs u =
     (let did = dev_id (store d); u1 = join_command did d (join_alarm did u)
      in case (if um_has_data u1 then subscribe_data did coll outputs u1 else (Inr (), u1)) of
           (Inl e, u2) \<Rightarrow> (Inl e, u2)
         | (Inr _, u2) \<Rightarrow> (Inr (), join_statistics did (join_state did u2)))"

text \<open>The unit ids a device uses are put into its metadata unless the caller gives them.\<close>

definition build_metadata :: "pyval list option \<Rightarrow> (string \<times> pyval) list \<Rightarrow> (string \<times> pyval) list" where
  "build_metadata used user = fold (\<lambda>(k, v). dict_set k v) user (case used of None \<Rightarrow> [] | Some ids \<Rightarrow> [(''used_unit_ids'', PyList ids)])"

definition register_to_registry :: "device_store \<Rightarrow> nat \<Rightarrow> string list \<Rightarrow> (string \<times> pyval) list \<Rightarrow> (unified_manager, unit) op" where
  "register_to_registry store d traits metadata u = (case um_registry u of
       None \<Rightarrow> (Inr (), u)
     | Some r \<Rightarrow> (case rg_register r store d traits metadata of
         Inl e \<Rightarrow> (Inl e, u)
       | Inr r1 \<Rightarrow> (Inr (), u\<lparr>um_registry := Some (case refresh_capability_traits r1 store (dev_id (store d)) of Inl e \<Rightarrow> r1 | Inr r2 \<Rightarrow> r2),
             um_capability := set_add (dev_id (store d)) (um_capability u)\<rparr>)))"

record register_args =
  ra_collection :: "string option"
  ra_traits :: "string list"
  ra_metadata :: "(string \<times> pyval) list"
  ra_outputs :: "upload_target list option"

definition outputs_exclusive :: "register_args \<Rightarrow> bool" where
  "outputs_exclusive a = (ra_collection a = None \<or> ra_outputs a = None)"

definition join_managers :: "device_store \<Rightarrow> register_args \<Rightarrow> nat \<Rightarrow> (unified_manager, unit) op" where
  "join_managers store a d u = (case subscribe_all store d (ra_collection a) (ra_outputs a) u of
       (Inl e, u1) \<Rightarrow> (Inl e, u1)
     | (Inr _, u1) \<Rightarrow> register_to_registry store d (ra_traits a) (ra_metadata a) u1)"

definition um_register :: "device_store \<Rightarrow> (nat \<Rightarrow> dev_call list) \<Rightarrow> register_args \<Rightarrow> nat \<Rightarrow> (unified_manager, unit) op" where
  "um_register store methods a d u =
     (if \<not> outputs_exclusive a then (Inl ValueError, u)
      else case dm_register store methods d (um_devices u) of
        (Inl e, m) \<Rightarrow> (Inl e, u)
      | (Inr _, m) \<Rightarrow> join_managers store a d (u\<lparr>um_devices := m\<rparr>))"

fun join_each :: "device_store \<Rightarrow> register_args \<Rightarrow> nat list \<Rightarrow> (unified_manager, unit) op" where
  "join_each store a [] u = (Inr (), u)"
| "join_each store a (d # ds) u = (case join_managers store a d u of
     (Inl e, u1) \<Rightarrow> (Inl e, u1) | (Inr _, u1) \<Rightarrow> join_each store a ds u1)"

definition um_register_group :: "device_store \<Rightarrow> (nat \<Rightarrow> dev_call list) \<Rightarrow> register_args \<Rightarrow> rat \<Rightarrow> nat list \<Rightarrow> (unified_manager, unit) op" where
  "um_register_group store methods a interval ds u =
     (if \<not> outputs_exclusive a then (Inl ValueError, u)
      else case dm_register_group store methods ds interval (um_devices u) of
        (Inl e, m) \<Rightarrow> (Inl e, u)
      | (Inr _, m) \<Rightarrow> join_each store a ds (u\<lparr>um_devices := m\<rparr>))"

text \<open>Leaving all managers: a step that raises is logged and leaves its manager as it is.\<close>

datatype cascade_step = StepAlarm | StepCommand | StepData | StepState | StepStatistics | StepCapability | StepRegistry

definition leave_alarm :: "(cascade_step \<Rightarrow> bool) \<Rightarrow> string \<Rightarrow> unified_manager \<Rightarrow> unified_manager" where
  "leave_alarm fails did u = (if um_has_alarm u \<and> \<not> fails StepAlarm then u\<lparr>um_alarm := removeAll did (um_alarm u)\<rparr> else u)"

definition leave_command :: "(cascade_step \<Rightarrow> bool) \<Rightarrow> string \<Rightarrow> unified_manager \<Rightarrow> unified_manager" where
  "leave_command fails did u = (if um_has_command u \<and> \<not> fails StepCommand then u\<lparr>um_command := dict_del did (um_command u)\<rparr> else u)"

definition leave_data :: "(cascade_step \<Rightarrow> bool) \<Rightarrow> string \<Rightarrow> unified_manager \<Rightarrow> unified_manager" where
  "leave_data fails did u = (if um_has_data u \<and> \<not> fails StepData then u\<lparr>um_data := unsubscribe_upload did (um_data u)\<rparr> else u)"

definition leave_state :: "(cascade_step \<Rightarrow> bool) \<Rightarrow> string \<Rightarrow> unified_manager \<Rightarrow> unified_manager" where
  "leave_state fails did u = (if um_has_state u \<and> \<not> fails StepState then u\<lparr>um_state := removeAll did (um_state u)\<rparr> else u)"

definition leave_statistics :: "(cascade_step \<Rightarrow> bool) \<Rightarrow> string \<Rightarrow> unified_manager \<Rightarrow> unified_manager" where
  "leave_statistics fails did u = (if um_has_statistics u \<and> \<not> fails StepStatistics then u\<lparr>um_statistics := removeAll did (um_statistics u)\<rparr> else u)"

definition leave_registry :: "(cascade_step \<Rightarrow> bool) \<Rightarrow> string \<Rightarrow> unified_manager \<Rightarrow> unified_manager" where
  "leave_registry fails did u = (let u1 = u\<lparr>um_capability := removeAll did (um_capability u)\<rparr>
     in if fails StepRegistry then u1 else u1\<lparr>um_registry := map_option (\<lambda>r. fst (rg_unregister r did)) (um_registry u1)\<rparr>)"

definition cascade_unsubscribe :: "(cascade_step \<Rightarrow> bool) \<Rightarrow> string \<Rightarrow> unified_manager \<Rightarrow> unified_manager" where
  "cascade_unsubscribe fails did u = leave_registry fails did (leave_statistics fails did (leave_state fails did (leave_data fails did
     (leave_command fails did (leave_alarm fails did u)))))"

definition um_unregister :: "device_store \<Rightarrow> call_env \<Rightarrow> (cascade_step \<Rightarrow> bool) \<Rightarrow> string \<Rightarrow> unified_manager \<Rightarrow> bool option \<times> unified_manager" where
  "um_unregister store out fails did u = (case find (\<lambda>d. dev_id (store d) = did) (all_managed (um_devices u)) of
       None \<Rightarrow> (Some False, u)
     | Some d \<Rightarrow> (let u1 = cascade_unsubscribe fails (dev_id (store d)) u in
         case dm_unregister store out did (um_devices u1) of (r, m) \<Rightarrow> (if r = None then None else Some True, u1\<lparr>um_devices := m\<rparr>)))"

definition um_unregister_group :: "device_store \<Rightarrow> call_env \<Rightarrow> (cascade_step \<Rightarrow> bool) \<Rightarrow> string list \<Rightarrow> unified_manager \<Rightarrow> bool option \<times> unified_manager" where
  "um_unregister_group store out fails ids u = (case find (\<lambda>g. set (group_ids store g) = set ids) (dm_groups (um_devices u)) of
       None \<Rightarrow> (Some False, u)
     | Some g \<Rightarrow> (let u1 = fold (cascade_unsubscribe fails) (group_ids store g) u in
         case dm_unregister_group store out ids (um_devices u1) of (r, m) \<Rightarrow> (if r = None then None else Some True, u1\<lparr>um_devices := m\<rparr>)))"

definition um_start :: "call_env \<Rightarrow> rat \<Rightarrow> unified_manager \<Rightarrow> bool \<times> unified_manager" where
  "um_start out now u = (if um_leader u = Some False then (True, u)
     else case dm_start out now (um_devices u) of (ok, m) \<Rightarrow> (ok, u\<lparr>um_devices := m\<rparr>))"

definition um_stop :: "call_env \<Rightarrow> unified_manager \<Rightarrow> bool \<times> unified_manager" where
  "um_stop out u = (case dm_stop out (um_devices u) of (ok, m) \<Rightarrow> (ok, u\<lparr>um_devices := m\<rparr>))"

record unified_status =
  us_devices_count :: nat
  us_running :: bool
  us_is_leader :: "bool option"
  us_state_sync_enabled :: bool
  us_statistics_enabled :: bool

definition um_describe :: "unified_manager \<Rightarrow> unified_status" where
  "um_describe u = \<lparr>us_devices_count = length (dm_standalone (um_devices u)) + sum_list (map (length \<circ> gr_devices) (dm_groups (um_devices u))),
     us_running = dm_running (um_devices u), us_is_leader = um_leader u, us_state_sync_enabled = um_has_state u, us_statistics_enabled = um_has_statistics u\<rparr>"

section \<open>Registrations and subscriptions agree\<close>

definition managed_ids :: "device_store \<Rightarrow> device_manager \<Rightarrow> string list" where
  "managed_ids store m = map (\<lambda>d. dev_id (store d)) (all_managed m)"

definition dm_inv :: "device_store \<Rightarrow> device_manager \<Rightarrow> bool" where
  "dm_inv store m \<longleftrightarrow> distinct (managed_ids store m) \<and> set (dm_registered_ids m) = set (managed_ids store m)"

text \<open>Exactly the devices of a set are known to the managers that are enabled.\<close>

definition joined_core :: "string set \<Rightarrow> unified_manager \<Rightarrow> bool" where
  "joined_core S u \<longleftrightarrow> set (um_alarm u) = (if um_has_alarm u then S else {}) \<and> fst ` set (um_command u) = (if um_has_command u then S else {})
     \<and> set (um_state u) = (if um_has_state u then S else {}) \<and> set (um_statistics u) = (if um_has_statistics u then S else {})
     \<and> set (du_subscribed (um_data u)) \<subseteq> (if um_has_data u then S else {})"

definition joined :: "string set \<Rightarrow> unified_manager \<Rightarrow> bool" where
  "joined S u \<longleftrightarrow> joined_core S u \<and> set (um_capability u) = (if um_registry u = None then {} else S)
     \<and> (case um_registry u of None \<Rightarrow> True | Some r \<Rightarrow> fst ` set (rg_devices r) = S)"

definition um_inv :: "device_store \<Rightarrow> unified_manager \<Rightarrow> bool" where
  "um_inv store u \<longleftrightarrow> dm_inv store (um_devices u) \<and> joined (set (managed_ids store (um_devices u))) u"

lemma set_add_set [simp]: "set (set_add x xs) = insert x (set xs)"
  by (auto simp: set_add_def)

lemma fold_frame_eq: "(\<And>x s. f (g x s) = f s) \<Longrightarrow> f (fold g xs s) = f s"
  by (induction xs arbitrary: s) simp_all

lemma index_frame: "rg_devices (add_trait_index d t rg) = rg_devices rg" "rg_devices (remove_trait_index d t rg) = rg_devices rg"
  by (simp_all add: add_trait_index_def remove_trait_index_def Let_def split: option.split)

lemma fold_index_frame: "rg_devices (fold (add_trait_index d) ts rg) = rg_devices rg" "rg_devices (fold (remove_trait_index d) ts rg) = rg_devices rg"
  by (rule fold_frame_eq [where f = rg_devices], rule index_frame)+

lemma rg_register_devices: "rg_register rg store d traits meta = Inr rg' \<Longrightarrow> rg_devices rg' = dict_set (dev_id (store d)) d (rg_devices rg)"
  by (auto simp: rg_register_def Let_def fold_index_frame split: if_splits)

lemma refresh_devices: "refresh_capability_traits rg store did = Inr rg' \<Longrightarrow> rg_devices rg' = rg_devices rg"
  by (auto simp: refresh_capability_traits_def Let_def fold_index_frame split: option.splits)

lemma unregister_devices: "rg_devices (fst (rg_unregister rg did)) = dict_del did (rg_devices rg)"
  by (auto simp: rg_unregister_def Let_def fold_index_frame AList.delete_idem map_of_eq_None_iff)

lemma keys_del [simp]: "fst ` set (dict_del k d) = fst ` set d - {k}"
  by (auto simp: AList.delete_eq image_iff)

lemma configure_keeps: "du_subscribed (snd (configure_upload did coll i outs m)) = du_subscribed m"
  by (auto simp: configure_upload_def configure_outputs_def install_legacy_target_def split: option.split)

lemma subscribe_set: "set (du_subscribed (subscribe_upload did m)) = insert did (set (du_subscribed m))"
  by (auto simp: subscribe_upload_def install_legacy_target_def Let_def)

lemma unsubscribe_set: "set (du_subscribed (unsubscribe_upload did m)) = set (du_subscribed m) - {did}"
  by (auto simp: unsubscribe_upload_def)

lemma subscribe_data_frame:
  assumes "subscribe_data did coll outs u = (r, u')"
  shows "um_devices u' = um_devices u \<and> um_has_alarm u' = um_has_alarm u \<and> um_has_command u' = um_has_command u \<and> um_has_data u' = um_has_data u
    \<and> um_has_state u' = um_has_state u \<and> um_has_statistics u' = um_has_statistics u \<and> um_alarm u' = um_alarm u \<and> um_command u' = um_command u
    \<and> um_state u' = um_state u \<and> um_statistics u' = um_statistics u \<and> um_capability u' = um_capability u \<and> um_registry u' = um_registry u
    \<and> set (du_subscribed (um_data u')) \<subseteq> insert did (set (du_subscribed (um_data u)))"
proof -
  obtain r0 m where c: "configure_upload did (if outs = None then coll else None) None outs (um_data u) = (r0, m)"
    by (cases "configure_upload did (if outs = None then coll else None) None outs (um_data u)")
  then have "du_subscribed m = du_subscribed (um_data u)" using configure_keeps by (metis snd_conv)
  then have sub: "set (du_subscribed m) \<subseteq> insert did (set (du_subscribed (um_data u)))" "set (du_subscribed (subscribe_upload did m)) \<subseteq> insert did (set (du_subscribed (um_data u)))"
    using subscribe_set [of did m] by auto
  show ?thesis
  proof (cases "coll = None \<and> outs = None")
    case True
    then show ?thesis using assms by (auto simp: subscribe_data_def)
  next
    case False
    then have "u' = (case r0 of Inl e \<Rightarrow> u\<lparr>um_data := m\<rparr> | Inr x \<Rightarrow> u\<lparr>um_data := subscribe_upload did m\<rparr>)"
      using assms unfolding subscribe_data_def c by (cases r0) (auto simp only: if_False prod.case sum.case prod.inject)
    then show ?thesis using sub by (cases r0) simp_all
  qed
qed

lemma join_alarm_frame [simp]:
  "um_devices (join_alarm did u) = um_devices u" "um_has_alarm (join_alarm did u) = um_has_alarm u" "um_has_command (join_alarm did u) = um_has_command u"
  "um_has_data (join_alarm did u) = um_has_data u" "um_has_state (join_alarm did u) = um_has_state u" "um_has_statistics (join_alarm did u) = um_has_statistics u"
  "um_command (join_alarm did u) = um_command u" "um_data (join_alarm did u) = um_data u" "um_state (join_alarm did u) = um_state u"
  "um_statistics (join_alarm did u) = um_statistics u" "um_capability (join_alarm did u) = um_capability u" "um_registry (join_alarm did u) = um_registry u"
  by (simp_all add: join_alarm_def Let_def)

lemma join_command_frame [simp]:
  "um_devices (join_command did d u) = um_devices u" "um_has_alarm (join_command did d u) = um_has_alarm u"
  "um_has_command (join_command did d u) = um_has_command u" "um_has_data (join_command did d u) = um_has_data u"
  "um_has_state (join_command did d u) = um_has_state u" "um_has_statistics (join_command did d u) = um_has_statistics u"
  "um_alarm (join_command did d u) = um_alarm u" "um_data (join_command did d u) = um_data u" "um_state (join_command did d u) = um_state u"
  "um_statistics (join_command did d u) = um_statistics u" "um_capability (join_command did d u) = um_capability u"
  "um_registry (join_command did d u) = um_registry u"
  by (simp_all add: join_command_def Let_def)

lemma join_state_frame [simp]:
  "um_devices (join_state did u) = um_devices u" "um_has_alarm (join_state did u) = um_has_alarm u" "um_has_command (join_state did u) = um_has_command u"
  "um_has_data (join_state did u) = um_has_data u" "um_has_state (join_state did u) = um_has_state u" "um_has_statistics (join_state did u) = um_has_statistics u"
  "um_alarm (join_state did u) = um_alarm u" "um_command (join_state did u) = um_command u" "um_data (join_state did u) = um_data u"
  "um_statistics (join_state did u) = um_statistics u" "um_capability (join_state did u) = um_capability u" "um_registry (join_state did u) = um_registry u"
  by (simp_all add: join_state_def Let_def)

lemma join_statistics_frame [simp]:
  "um_devices (join_statistics did u) = um_devices u" "um_has_alarm (join_statistics did u) = um_has_alarm u"
  "um_has_command (join_statistics did u) = um_has_command u" "um_has_data (join_statistics did u) = um_has_data u"
  "um_has_state (join_statistics did u) = um_has_state u" "um_has_statistics (join_statistics did u) = um_has_statistics u"
  "um_alarm (join_statistics did u) = um_alarm u" "um_command (join_statistics did u) = um_command u" "um_data (join_statistics did u) = um_data u"
  "um_state (join_statistics did u) = um_state u" "um_capability (join_statistics did u) = um_capability u" "um_registry (join_statistics did u) = um_registry u"
  by (simp_all add: join_statistics_def Let_def)

lemma leave_alarm_frame [simp]:
  "um_devices (leave_alarm fails did u) = um_devices u" "um_has_alarm (leave_alarm fails did u) = um_has_alarm u"
  "um_has_command (leave_alarm fails did u) = um_has_command u" "um_has_data (leave_alarm fails did u) = um_has_data u"
  "um_has_state (leave_alarm fails did u) = um_has_state u" "um_has_statistics (leave_alarm fails did u) = um_has_statistics u"
  "um_command (leave_alarm fails did u) = um_command u" "um_data (leave_alarm fails did u) = um_data u" "um_state (leave_alarm fails did u) = um_state u"
  "um_statistics (leave_alarm fails did u) = um_statistics u" "um_capability (leave_alarm fails did u) = um_capability u"
  "um_registry (leave_alarm fails did u) = um_registry u"
  by (simp_all add: leave_alarm_def Let_def)

lemma leave_command_frame [simp]:
  "um_devices (leave_command fails did u) = um_devices u" "um_has_alarm (leave_command fails did u) = um_has_alarm u"
  "um_has_command (leave_command fails did u) = um_has_command u" "um_has_data (leave_command fails did u) = um_has_data u"
  "um_has_state (leave_command fails did u) = um_has_state u" "um_has_statistics (leave_command fails did u) = um_has_statistics u"
  "um_alarm (leave_command fails did u) = um_alarm u" "um_data (leave_command fails did u) = um_data u" "um_state (leave_command fails did u) = um_state u"
  "um_statistics (leave_command fails did u) = um_statistics u" "um_capability (leave_command fails did u) = um_capability u"
  "um_registry (leave_command fails did u) = um_registry u"
  by (simp_all add: leave_command_def Let_def)

lemma leave_data_frame [simp]:
  "um_devices (leave_data fails did u) = um_devices u" "um_has_alarm (leave_data fails did u) = um_has_alarm u"
  "um_has_command (leave_data fails did u) = um_has_command u" "um_has_data (leave_data fails did u) = um_has_data u"
  "um_has_state (leave_data fails did u) = um_has_state u" "um_has_statistics (leave_data fails did u) = um_has_statistics u"
  "um_alarm (leave_data fails did u) = um_alarm u" "um_command (leave_data fails did u) = um_command u" "um_state (leave_data fails did u) = um_state u"
  "um_statistics (leave_data fails did u) = um_statistics u" "um_capability (leave_data fails did u) = um_capability u"
  "um_registry (leave_data fails did u) = um_registry u"
  by (simp_all add: leave_data_def Let_def)

lemma leave_state_frame [simp]:
  "um_devices (leave_state fails did u) = um_devices u" "um_has_alarm (leave_state fails did u) = um_has_alarm u"
  "um_has_command (leave_state fails did u) = um_has_command u" "um_has_data (leave_state fails did u) = um_has_data u"
  "um_has_state (leave_state fails did u) = um_has_state u" "um_has_statistics (leave_state fails did u) = um_has_statistics u"
  "um_alarm (leave_state fails did u) = um_alarm u" "um_command (leave_state fails did u) = um_command u" "um_data (leave_state fails did u) = um_data u"
  "um_statistics (leave_state fails did u) = um_statistics u" "um_capability (leave_state fails did u) = um_capability u"
  "um_registry (leave_state fails did u) = um_registry u"
  by (simp_all add: leave_state_def Let_def)

lemma leave_statistics_frame [simp]:
  "um_devices (leave_statistics fails did u) = um_devices u" "um_has_alarm (leave_statistics fails did u) = um_has_alarm u"
  "um_has_command (leave_statistics fails did u) = um_has_command u" "um_has_data (leave_statistics fails did u) = um_has_data u"
  "um_has_state (leave_statistics fails did u) = um_has_state u" "um_has_statistics (leave_statistics fails did u) = um_has_statistics u"
  "um_alarm (leave_statistics fails did u) = um_alarm u" "um_command (leave_statistics fails did u) = um_command u"
  "um_data (leave_statistics fails did u) = um_data u" "um_state (leave_statistics fails did u) = um_state u"
  "um_capability (leave_statistics fails did u) = um_capability u" "um_registry (leave_statistics fails did u) = um_registry u"
  by (simp_all add: leave_statistics_def Let_def)

lemma leave_registry_frame [simp]:
  "um_devices (leave_registry fails did u) = um_devices u" "um_has_alarm (leave_registry fails did u) = um_has_alarm u"
  "um_has_command (leave_registry fails did u) = um_has_command u" "um_has_data (leave_registry fails did u) = um_has_data u"
  "um_has_state (leave_registry fails did u) = um_has_state u" "um_has_statistics (leave_registry fails did u) = um_has_statistics u"
  "um_alarm (leave_registry fails did u) = um_alarm u" "um_command (leave_registry fails did u) = um_command u" "um_data (leave_registry fails did u) = um_data u"
  "um_state (leave_registry fails did u) = um_state u" "um_statistics (leave_registry fails did u) = um_statistics u"
  by (simp_all add: leave_registry_def Let_def)

lemma join_sets [simp]:
  "set (um_alarm (join_alarm did u)) = (if um_has_alarm u then insert did (set (um_alarm u)) else set (um_alarm u))"
  "fst ` set (um_command (join_command did d u)) = (if um_has_command u then insert did (fst ` set (um_command u)) else fst ` set (um_command u))"
  "set (um_state (join_state did u)) = (if um_has_state u then insert did (set (um_state u)) else set (um_state u))"
  "set (um_statistics (join_statistics did u)) = (if um_has_statistics u then insert did (set (um_statistics u)) else set (um_statistics u))"
  by (simp_all add: join_alarm_def join_command_def join_state_def join_statistics_def)

lemma subscribe_all_joins:
  assumes "subscribe_all store d coll outs u = (Inr x, u')" "joined_core S u"
  shows "um_devices u' = um_devices u \<and> um_registry u' = um_registry u \<and> um_capability u' = um_capability u \<and> joined_core (insert (dev_id (store d)) S) u'"
proof -
  define did where "did = dev_id (store d)"
  define u1 where "u1 = join_command did d (join_alarm did u)"
  define dat where "dat = (if um_has_data u1 then subscribe_data did coll outs u1 else (Inr (), u1))"
  obtain r2 u2 where pair: "dat = (r2, u2)" by (cases dat)
  have run: "(case dat of (Inl e, u2) \<Rightarrow> (Inl e, u2) | (Inr y, u2) \<Rightarrow> (Inr (), join_statistics did (join_state did u2))) = (Inr x, u')"
    using assms(1) unfolding subscribe_all_def Let_def did_def u1_def dat_def .
  have u2: "dat = (Inr (), u2)" and u': "u' = join_statistics did (join_state did u2)" using run pair by (cases r2; simp)+
  have fr: "um_devices u2 = um_devices u1 \<and> um_has_alarm u2 = um_has_alarm u1 \<and> um_has_command u2 = um_has_command u1 \<and> um_has_data u2 = um_has_data u1
    \<and> um_has_state u2 = um_has_state u1 \<and> um_has_statistics u2 = um_has_statistics u1 \<and> um_alarm u2 = um_alarm u1 \<and> um_command u2 = um_command u1
    \<and> um_state u2 = um_state u1 \<and> um_statistics u2 = um_statistics u1 \<and> um_capability u2 = um_capability u1 \<and> um_registry u2 = um_registry u1
    \<and> set (du_subscribed (um_data u2)) \<subseteq> (if um_has_data u1 then insert did (set (du_subscribed (um_data u1))) else set (du_subscribed (um_data u1)))"
    using u2 subscribe_data_frame [of did coll outs u1 "Inr ()" u2] unfolding dat_def by (cases "um_has_data u1") simp_all
  have S: "set (um_alarm u) = (if um_has_alarm u then S else {})" "fst ` set (um_command u) = (if um_has_command u then S else {})"
    "set (um_state u) = (if um_has_state u then S else {})" "set (um_statistics u) = (if um_has_statistics u then S else {})"
    "set (du_subscribed (um_data u)) \<subseteq> (if um_has_data u then S else {})" using assms(2) by (simp_all only: joined_core_def)
  have one: "um_has_alarm u' = um_has_alarm u" "um_has_command u' = um_has_command u" "um_has_state u' = um_has_state u" "um_has_statistics u' = um_has_statistics u"
    "um_has_data u' = um_has_data u" "um_alarm u' = um_alarm (join_alarm did u)" "fst ` set (um_command u') = fst ` set (um_command (join_command did d u))"
    "set (um_state u') = set (um_state (join_state did u))" "set (um_statistics u') = set (um_statistics (join_statistics did u))"
    "um_devices u' = um_devices u" "um_registry u' = um_registry u" "um_capability u' = um_capability u" using fr by (simp_all add: u' u1_def)
  have "set (um_alarm u') = (if um_has_alarm u then insert did S else {})" using S(1) by (simp add: one)
  moreover have "fst ` set (um_command u') = (if um_has_command u then insert did S else {})" using S(2) by (simp add: one(7))
  moreover have "set (um_state u') = (if um_has_state u then insert did S else {})" using S(3) by (simp add: one(8))
  moreover have "set (um_statistics u') = (if um_has_statistics u then insert did S else {})" using S(4) by (simp add: one(9))
  moreover have "set (du_subscribed (um_data u')) \<subseteq> (if um_has_data u then insert did S else {})" using S(5) fr by (cases "um_has_data u") (auto simp: u' u1_def)
  ultimately show ?thesis by (simp only: joined_core_def one did_def [symmetric] simp_thms)
qed

lemma join_managers_joins:
  assumes j: "join_managers store a d u = (Inr x, u')" and S: "joined S u"
  shows "um_devices u' = um_devices u \<and> joined (insert (dev_id (store d)) S) u'"
proof -
  let ?did = "dev_id (store d)"
  obtain u1 where sub: "subscribe_all store d (ra_collection a) (ra_outputs a) u = (Inr (), u1)" and reg: "register_to_registry store d (ra_traits a) (ra_metadata a) u1 = (Inr x, u')"
    using j by (auto simp: join_managers_def split: prod.splits sum.splits)
  have core: "um_devices u1 = um_devices u" "um_registry u1 = um_registry u" "um_capability u1 = um_capability u" "joined_core (insert ?did S) u1"
    using subscribe_all_joins [OF sub, of S] S by (simp_all add: joined_def)
  show ?thesis
  proof (cases "um_registry u")
    case None
    then show ?thesis using reg core S by (simp add: register_to_registry_def joined_def)
  next
    case (Some r)
    then obtain r1 where r1: "rg_register r store d (ra_traits a) (ra_metadata a) = Inr r1"
      and u': "u' = u1\<lparr>um_registry := Some (case refresh_capability_traits r1 store ?did of Inl e \<Rightarrow> r1 | Inr r2 \<Rightarrow> r2), um_capability := set_add ?did (um_capability u1)\<rparr>"
      using reg core by (auto simp: register_to_registry_def split: sum.splits)
    have "rg_devices (case refresh_capability_traits r1 store ?did of Inl e \<Rightarrow> r1 | Inr r2 \<Rightarrow> r2) = rg_devices r1"
    proof (cases "refresh_capability_traits r1 store ?did")
      case (Inr r2)
      then show ?thesis using refresh_devices [OF Inr] by simp
    qed simp
    then show ?thesis using rg_register_devices [OF r1] core S Some by (simp add: u' joined_def joined_core_def)
  qed
qed

lemma leave_sets [simp]:
  "set (um_alarm (leave_alarm (\<lambda>_. False) did u)) = (if um_has_alarm u then set (um_alarm u) - {did} else set (um_alarm u))"
  "fst ` set (um_command (leave_command (\<lambda>_. False) did u)) = (if um_has_command u then fst ` set (um_command u) - {did} else fst ` set (um_command u))"
  "set (um_state (leave_state (\<lambda>_. False) did u)) = (if um_has_state u then set (um_state u) - {did} else set (um_state u))"
  "set (um_statistics (leave_statistics (\<lambda>_. False) did u)) = (if um_has_statistics u then set (um_statistics u) - {did} else set (um_statistics u))"
  "set (du_subscribed (um_data (leave_data (\<lambda>_. False) did u))) = (if um_has_data u then set (du_subscribed (um_data u)) - {did} else set (du_subscribed (um_data u)))"
  "set (um_capability (leave_registry (\<lambda>_. False) did u)) = set (um_capability u) - {did}"
  "um_registry (leave_registry (\<lambda>_. False) did u) = map_option (\<lambda>r. fst (rg_unregister r did)) (um_registry u)"
  by (simp_all add: leave_alarm_def leave_command_def leave_state_def leave_statistics_def leave_data_def leave_registry_def unsubscribe_set)

lemma cascade_leaves:
  assumes S: "joined S u"
  shows "joined (S - {did}) (cascade_unsubscribe (\<lambda>_. False) did u) \<and> um_devices (cascade_unsubscribe (\<lambda>_. False) did u) = um_devices u"
proof -
  let ?u = "cascade_unsubscribe (\<lambda>_. False) did u"
  have core: "set (um_alarm u) = (if um_has_alarm u then S else {})" "fst ` set (um_command u) = (if um_has_command u then S else {})"
    "set (um_state u) = (if um_has_state u then S else {})" "set (um_statistics u) = (if um_has_statistics u then S else {})"
    "set (du_subscribed (um_data u)) \<subseteq> (if um_has_data u then S else {})" using S by (simp_all only: joined_def joined_core_def)
  have "set (um_alarm ?u) = (if um_has_alarm u then S - {did} else {})" using core(1) by (simp add: cascade_unsubscribe_def)
  moreover have "fst ` set (um_command ?u) = (if um_has_command u then S - {did} else {})" using core(2) by (simp add: cascade_unsubscribe_def)
  moreover have "set (um_state ?u) = (if um_has_state u then S - {did} else {})" using core(3) by (simp add: cascade_unsubscribe_def)
  moreover have "set (um_statistics ?u) = (if um_has_statistics u then S - {did} else {})" using core(4) by (simp add: cascade_unsubscribe_def)
  moreover have "set (du_subscribed (um_data ?u)) \<subseteq> (if um_has_data u then S - {did} else {})" using core(5) by (cases "um_has_data u") (auto simp: cascade_unsubscribe_def)
  moreover have flags: "um_has_alarm ?u = um_has_alarm u" "um_has_command ?u = um_has_command u" "um_has_state ?u = um_has_state u" "um_has_statistics ?u = um_has_statistics u"
    "um_has_data ?u = um_has_data u" "um_devices ?u = um_devices u" by (simp_all add: cascade_unsubscribe_def)
  ultimately have "joined_core (S - {did}) ?u" by (simp only: joined_core_def simp_thms)
  moreover have "set (um_capability ?u) = set (um_capability u) - {did}" "um_registry ?u = map_option (\<lambda>r. fst (rg_unregister r did)) (um_registry u)"
    by (simp_all add: cascade_unsubscribe_def)
  ultimately show ?thesis using S flags(6) by (cases "um_registry u") (simp_all add: joined_def unregister_devices)
qed

lemma cascade_all_leaves:
  "joined S u \<Longrightarrow> joined (S - set dids) (fold (cascade_unsubscribe (\<lambda>_. False)) dids u) \<and> um_devices (fold (cascade_unsubscribe (\<lambda>_. False)) dids u) = um_devices u"
proof (induction dids arbitrary: S u)
  case (Cons did dids)
  from Cons.IH [of "S - {did}" "cascade_unsubscribe (\<lambda>_. False) did u"] cascade_leaves [OF Cons.prems, of did]
  show ?case by (simp add: insert_Diff_if Diff_insert2 [symmetric])
qed simp

lemma join_each_joins: "join_each store a ds u = (Inr x, u') \<Longrightarrow> joined S u \<Longrightarrow>
    um_devices u' = um_devices u \<and> joined (S \<union> (\<lambda>d. dev_id (store d)) ` set ds) u'"
proof (induction ds arbitrary: S u)
  case (Cons d ds)
  obtain y u1 where one: "join_managers store a d u = (Inr y, u1)" "join_each store a ds u1 = (Inr x, u')"
    using Cons.prems(1) by (auto split: prod.splits sum.splits)
  have "joined (insert (dev_id (store d)) S) u1" "um_devices u1 = um_devices u" using join_managers_joins [OF one(1) Cons.prems(2)] by simp_all
  then show ?case using Cons.IH [OF one(2)] by fastforce
qed simp

text \<open>The operations of the device manager.\<close>

lemma managed_ids_split: "managed_ids store m = map (\<lambda>d. dev_id (store d)) (dm_standalone m) @ map (\<lambda>d. dev_id (store d)) (concat (map gr_devices (dm_groups m)))"
  by (simp add: managed_ids_def all_managed_def)

lemma dm_register_inv:
  assumes r: "dm_register store methods d m = (Inr x, m')" and inv: "dm_inv store m"
  shows "dm_inv store m' \<and> set (managed_ids store m') = insert (dev_id (store d)) (set (managed_ids store m))"
proof -
  have new: "dev_id (store d) \<notin> set (managed_ids store m)" and m': "m' = m\<lparr>dm_standalone := dm_standalone m @ [d], dm_registered_ids := set_add (dev_id (store d)) (dm_registered_ids m)\<rparr>"
    using r inv by (auto simp: dm_register_def dm_inv_def split: if_splits)
  define A where "A = map (\<lambda>d. dev_id (store d)) (dm_standalone m)"
  define B where "B = map (\<lambda>d. dev_id (store d)) (concat (map gr_devices (dm_groups m)))"
  have ids: "managed_ids store m = A @ B" "managed_ids store m' = A @ dev_id (store d) # B" by (simp_all add: managed_ids_split m' A_def B_def)
  have "set (dm_registered_ids m') = insert (dev_id (store d)) (set (dm_registered_ids m))" by (simp add: m')
  then show ?thesis using inv new by (auto simp: dm_inv_def ids)
qed

lemma check_group_ids:
  "check_group store methods ids ds new = Inr out \<Longrightarrow> out = new @ map (\<lambda>d. dev_id (store d)) ds \<and> set (map (\<lambda>d. dev_id (store d)) ds) \<inter> set ids = {}
    \<and> (distinct new \<longrightarrow> distinct out)"
proof (induction ds arbitrary: new)
  case (Cons d ds)
  have "check_group store methods ids ds (new @ [dev_id (store d)]) = Inr out" and fresh: "dev_id (store d) \<notin> set ids" "dev_id (store d) \<notin> set new"
    using Cons.prems by (simp_all split: if_splits)
  note IH = Cons.IH [OF this(1)]
  have "distinct new \<longrightarrow> distinct out" 
  proof
    assume "distinct new"
    then have "distinct (new @ [dev_id (store d)])" using fresh(2) by simp
    then show "distinct out" using IH by blast
  qed
  moreover have "out = new @ map (\<lambda>d. dev_id (store d)) (d # ds)" "set (map (\<lambda>d. dev_id (store d)) (d # ds)) \<inter> set ids = {}" using IH fresh by simp_all
  ultimately show ?case by blast
qed simp

lemma fold_set_add [simp]: "set (fold set_add xs ys) = set xs \<union> set ys"
  by (induction xs arbitrary: ys) auto

lemma dm_register_group_inv:
  assumes r: "dm_register_group store methods ds interval m = (Inr x, m')" and inv: "dm_inv store m"
  shows "dm_inv store m' \<and> set (managed_ids store m') = set (managed_ids store m) \<union> (\<lambda>d. dev_id (store d)) ` set ds"
proof -
  obtain new where new: "check_group store methods (dm_registered_ids m) ds [] = Inr new"
    and m': "m' = m\<lparr>dm_groups := dm_groups m @ [device_group_init ds interval], dm_registered_ids := fold set_add new (dm_registered_ids m)\<rparr>"
    using r by (auto simp: dm_register_group_def split: sum.splits)
  have ids: "managed_ids store m' = managed_ids store m @ map (\<lambda>d. dev_id (store d)) ds" by (simp add: m' managed_ids_def all_managed_def device_group_init_def)
  have reg: "set (dm_registered_ids m') = set new \<union> set (dm_registered_ids m)" by (simp add: m')
  show ?thesis using check_group_ids [OF new] inv by (auto simp: dm_inv_def ids reg)
qed

definition same_books :: "device_manager \<Rightarrow> device_manager \<Rightarrow> bool" where
  "same_books m m' \<longleftrightarrow> dm_standalone m' = dm_standalone m \<and> dm_groups m' = dm_groups m \<and> dm_registered_ids m' = dm_registered_ids m \<and> dm_running m' = dm_running m"

lemma safe_steps_frame: "same_books m (snd (safe_steps out d cs m))"
  by (induction cs arbitrary: m) (simp_all add: Let_def same_books_def)

lemma gather_frame: "same_books m (snd (gather_devices out cs ds m))"
proof (induction ds arbitrary: m)
  case (Cons d ds)
  show ?case using safe_steps_frame [of m out d cs] Cons.IH [of "snd (safe_steps out d cs m)"]
    by (simp add: case_prod_beta same_books_def)
qed (simp add: same_books_def)

lemma distinct_remove1_ids: "distinct (map f xs) \<Longrightarrow> find (\<lambda>x. f x = k) xs = Some x \<Longrightarrow> map f (remove1 x xs) = remove1 k (map f xs) \<and> f x = k"
  by (induction xs) (auto split: if_splits)

lemma dm_unregister_inv:
  assumes r: "dm_unregister store out did m = (Some True, m')" and inv: "dm_inv store m"
  shows "dm_inv store m' \<and> set (managed_ids store m') = set (managed_ids store m) - {did}"
proof -
  let ?f = "\<lambda>d. dev_id (store d)"
  obtain d m1 where d: "find (\<lambda>d. dev_id (store d) = did) (dm_standalone m) = Some d"
    and run: "(if dm_running m then safe_steps out d [CallStop, CallDisconnect] m else (True, m)) = (True, m1)"
    and m': "m' = m1\<lparr>dm_standalone := remove1 d (dm_standalone m1), dm_registered_ids := removeAll did (dm_registered_ids m1)\<rparr>"
    using r by (auto simp: dm_unregister_def split: option.splits prod.splits bool.splits)
  have m1: "dm_standalone m1 = dm_standalone m" "dm_groups m1 = dm_groups m" "dm_registered_ids m1 = dm_registered_ids m"
    using run safe_steps_frame [of m out d "[CallStop, CallDisconnect]"] by (cases "dm_running m"; simp only: same_books_def if_True if_False snd_conv prod.inject)+
  have dist: "distinct (map ?f (dm_standalone m))" using inv by (simp add: dm_inv_def managed_ids_def all_managed_def)
  have rest: "map ?f (remove1 d (dm_standalone m)) = remove1 did (map ?f (dm_standalone m))" using distinct_remove1_ids [OF dist d] by simp
  have mem: "did \<in> set (map ?f (dm_standalone m))" using d by (auto simp: find_Some_iff)
  have ids: "managed_ids store m' = remove1 did (managed_ids store m)" using rest mem by (simp add: m' m1 managed_ids_def all_managed_def remove1_append)
  show ?thesis using inv by (simp add: dm_inv_def ids) (simp add: m' m1)
qed

lemma without_group_ids:
  "distinct (concat (map (group_ids store) gs)) \<Longrightarrow> find (\<lambda>g. set (group_ids store g) = set ids) gs = Some g \<Longrightarrow>
    distinct (concat (map (group_ids store) (without_group store ids gs))) \<and>
    set (concat (map (group_ids store) (without_group store ids gs))) = set (concat (map (group_ids store) gs)) - set (group_ids store g)
    \<and> set (group_ids store g) \<subseteq> set (concat (map (group_ids store) gs))"
proof (induction gs)
  case (Cons h gs)
  show ?case
  proof (cases "set (group_ids store h) = set ids")
    case True
    then show ?thesis using Cons.prems by auto
  next
    case False
    then have f: "find (\<lambda>g. set (group_ids store g) = set ids) gs = Some g" using Cons.prems(2) by simp
    have d: "distinct (group_ids store h)" "distinct (concat (map (group_ids store) gs))" "set (group_ids store h) \<inter> set (concat (map (group_ids store) gs)) = {}"
      using Cons.prems(1) by simp_all
    note IH = Cons.IH [OF d(2) f]
    show ?thesis using False d IH by auto
  qed
qed simp

lemma without_stop_first: "concat (map (group_ids store) (without_group store ids (stop_first store ids gs))) = concat (map (group_ids store) (without_group store ids gs))"
  by (induction gs) (simp_all add: group_ids_def group_stop_def Let_def)

lemma managed_ids_groups: "managed_ids store m = map (\<lambda>d. dev_id (store d)) (dm_standalone m) @ concat (map (group_ids store) (dm_groups m))"
proof -
  have "group_ids store = (\<lambda>g. map (\<lambda>d. dev_id (store d)) (gr_devices g))" by (rule ext) (simp add: group_ids_def)
  then show ?thesis by (simp add: managed_ids_split map_concat comp_def)
qed

lemma dm_unregister_group_inv:
  assumes r: "dm_unregister_group store out ids m = (Some True, m')" and inv: "dm_inv store m"
    and g: "find (\<lambda>g. set (group_ids store g) = set ids) (dm_groups m) = Some g"
  shows "dm_inv store m' \<and> set (managed_ids store m') = set (managed_ids store m) - set (group_ids store g)"
proof -
  let ?m0 = "m\<lparr>dm_groups := stop_first store ids (dm_groups m)\<rparr>"
  obtain m1 where run: "(if dm_running m then gather_devices out [CallDisconnect] (gr_devices g) ?m0 else (True, m)) = (True, m1)"
    and m': "m' = m1\<lparr>dm_groups := without_group store ids (dm_groups m1), dm_registered_ids := filter (\<lambda>i. i \<notin> set (group_ids store g)) (dm_registered_ids m1)\<rparr>"
    using r g by (auto simp: dm_unregister_group_def split: prod.splits bool.splits)
  have m1: "dm_standalone m1 = dm_standalone m" "dm_registered_ids m1 = dm_registered_ids m"
    "concat (map (group_ids store) (without_group store ids (dm_groups m1))) = concat (map (group_ids store) (without_group store ids (dm_groups m)))"
    using run gather_frame [of ?m0 out "[CallDisconnect]" "gr_devices g"] by (cases "dm_running m"; simp add: same_books_def without_stop_first)+
  define A where "A = map (\<lambda>d. dev_id (store d)) (dm_standalone m)"
  have ids: "managed_ids store m = A @ concat (map (group_ids store) (dm_groups m))"
    "managed_ids store m' = A @ concat (map (group_ids store) (without_group store ids (dm_groups m)))" by (simp_all add: managed_ids_groups A_def m' m1)
  have dist: "distinct A" "distinct (concat (map (group_ids store) (dm_groups m)))" "set A \<inter> set (concat (map (group_ids store) (dm_groups m))) = {}"
    using inv unfolding dm_inv_def ids distinct_append by blast+
  note w = without_group_ids [OF dist(2) g]
  have reg: "set (dm_registered_ids m') = set (managed_ids store m) - set (group_ids store g)" using inv by (auto simp: m' m1 dm_inv_def)
  have sets: "set (managed_ids store m') = set (managed_ids store m) - set (group_ids store g)" unfolding ids set_append using w dist(3) by blast
  have "distinct (managed_ids store m')" unfolding ids distinct_append using w dist by blast
  then show ?thesis using reg sets by (simp add: dm_inv_def)
qed

lemma start_groups_frame: "start_groups out now gs m = (ok, gs', m') \<Longrightarrow> same_books m m' \<and> map gr_devices gs' = map gr_devices gs"
proof (induction gs arbitrary: m gs' ok m')
  case (Cons g gs)
  obtain b m1 where g: "gather_devices out [CallConnect, CallEnsureStarted] (gr_devices g) m = (b, m1)" by (cases "gather_devices out [CallConnect, CallEnsureStarted] (gr_devices g) m")
  have f: "same_books m m1" using gather_frame [of m out "[CallConnect, CallEnsureStarted]" "gr_devices g"] g by simp
  obtain ok2 gs2 m2 where r: "start_groups out now gs m1 = (ok2, gs2, m2)" by (cases "start_groups out now gs m1")
  show ?case using Cons.prems g r f Cons.IH [OF r] by (cases b) (auto simp: same_books_def group_start_def)
qed (simp add: same_books_def)

lemma stop_groups_frame: "stop_groups out gs m = (ok, gs', m') \<Longrightarrow> same_books m m' \<and> map gr_devices gs' = map gr_devices gs"
proof (induction gs arbitrary: m gs' ok m')
  case (Cons g gs)
  obtain b m1 where g: "gather_devices out [CallEnsureStopped, CallDisconnect] (gr_devices g) m = (b, m1)" by (cases "gather_devices out [CallEnsureStopped, CallDisconnect] (gr_devices g) m")
  have f: "same_books m m1" using gather_frame [of m out "[CallEnsureStopped, CallDisconnect]" "gr_devices g"] g by simp
  obtain ok2 gs2 m2 where r: "stop_groups out gs m1 = (ok2, gs2, m2)" by (cases "stop_groups out gs m1")
  show ?case using Cons.prems g r f Cons.IH [OF r] by (cases b) (auto simp: same_books_def group_stop_def Let_def)
qed (simp add: same_books_def)

lemma dm_start_stop_inv:
  assumes inv: "dm_inv store m"
  shows "dm_inv store (snd (dm_start out now m)) \<and> managed_ids store (snd (dm_start out now m)) = managed_ids store m"
    and "dm_inv store (snd (dm_stop out m)) \<and> managed_ids store (snd (dm_stop out m)) = managed_ids store m"
proof -
  have cong: "dm_inv store m' \<and> managed_ids store m' = managed_ids store m"
    if "dm_standalone m' = dm_standalone m" "map gr_devices (dm_groups m') = map gr_devices (dm_groups m)" "dm_registered_ids m' = dm_registered_ids m" for m'
    using inv that by (simp add: dm_inv_def managed_ids_split)
  show "dm_inv store (snd (dm_start out now m)) \<and> managed_ids store (snd (dm_start out now m)) = managed_ids store m"
  proof (cases "dm_running m")
    case False
    obtain b m1 where g: "gather_devices out [CallConnect, CallStart] (dm_standalone m) (m\<lparr>dm_running := True\<rparr>) = (b, m1)"
      by (cases "gather_devices out [CallConnect, CallStart] (dm_standalone m) (m\<lparr>dm_running := True\<rparr>)")
    have f: "same_books (m\<lparr>dm_running := True\<rparr>) m1" using gather_frame [of "m\<lparr>dm_running := True\<rparr>" out "[CallConnect, CallStart]" "dm_standalone m"] g by simp
    obtain ok2 gs2 m2 where r: "start_groups out now (dm_groups m1) m1 = (ok2, gs2, m2)" by (cases "start_groups out now (dm_groups m1) m1")
    show ?thesis by (rule cong) (use False g r f start_groups_frame [OF r] in \<open>cases b; simp add: dm_start_def same_books_def\<close>)+
  qed (use inv in \<open>simp add: dm_start_def\<close>)
  show "dm_inv store (snd (dm_stop out m)) \<and> managed_ids store (snd (dm_stop out m)) = managed_ids store m"
  proof (cases "dm_running m")
    case True
    obtain b m1 where g: "gather_devices out [CallStop, CallDisconnect] (dm_standalone m) (m\<lparr>dm_running := False\<rparr>) = (b, m1)"
      by (cases "gather_devices out [CallStop, CallDisconnect] (dm_standalone m) (m\<lparr>dm_running := False\<rparr>)")
    have f: "same_books (m\<lparr>dm_running := False\<rparr>) m1" using gather_frame [of "m\<lparr>dm_running := False\<rparr>" out "[CallStop, CallDisconnect]" "dm_standalone m"] g by simp
    obtain ok2 gs2 m2 where r: "stop_groups out (dm_groups m1) m1 = (ok2, gs2, m2)" by (cases "stop_groups out (dm_groups m1) m1")
    show ?thesis by (rule cong) (use True g r f stop_groups_frame [OF r] in \<open>cases b; simp add: dm_stop_def same_books_def\<close>)+
  qed (use inv in \<open>simp add: dm_stop_def\<close>)
qed

section \<open>Runs of the unified manager\<close>

datatype unified_op = UmRegister register_args nat | UmRegisterGroup register_args rat "nat list" | UmUnregister string | UmUnregisterGroup "string list"
  | UmStart rat | UmStop

text \<open>
  An operation that is refused before anything has changed leaves the manager as it is. The run ends (None) when a registration
  fails half way, an unregistration is cancelled, or a device of a group is unregistered alone.
\<close>

fun um_step :: "device_store \<Rightarrow> (nat \<Rightarrow> dev_call list) \<Rightarrow> call_env \<Rightarrow> unified_op \<Rightarrow> unified_manager \<Rightarrow> unified_manager option" where
  "um_step store methods out (UmRegister a d) u =
     (if \<not> outputs_exclusive a \<or> \<not> is_ok (fst (dm_register store methods d (um_devices u))) then Some u
      else case um_register store methods a d u of (Inl e, u') \<Rightarrow> None | (Inr x, u') \<Rightarrow> Some u')"
| "um_step store methods out (UmRegisterGroup a interval ds) u =
     (if \<not> outputs_exclusive a \<or> \<not> is_ok (fst (dm_register_group store methods ds interval (um_devices u))) then Some u
      else case um_register_group store methods a interval ds u of (Inl e, u') \<Rightarrow> None | (Inr x, u') \<Rightarrow> Some u')"
| "um_step store methods out (UmUnregister did) u =
     (if find (\<lambda>d. dev_id (store d) = did) (dm_standalone (um_devices u)) = None \<and> did \<in> set (managed_ids store (um_devices u)) then None
      else case um_unregister store out (\<lambda>_. False) did u of (None, u') \<Rightarrow> None | (Some b, u') \<Rightarrow> Some u')"
| "um_step store methods out (UmUnregisterGroup ids) u =
     (case um_unregister_group store out (\<lambda>_. False) ids u of (None, u') \<Rightarrow> None | (Some b, u') \<Rightarrow> Some u')"
| "um_step store methods out (UmStart now) u = Some (snd (um_start out now u))"
| "um_step store methods out UmStop u = Some (snd (um_stop out u))"

fun um_run :: "device_store \<Rightarrow> (nat \<Rightarrow> dev_call list) \<Rightarrow> call_env \<Rightarrow> unified_op list \<Rightarrow> unified_manager \<Rightarrow> unified_manager option" where
  "um_run store methods out [] u = Some u"
| "um_run store methods out (x # xs) u = (case um_step store methods out x u of None \<Rightarrow> None | Some u' \<Rightarrow> um_run store methods out xs u')"

lemma joined_devices [simp]: "joined S (u\<lparr>um_devices := m\<rparr>) = joined S u"
  by (simp add: joined_def joined_core_def)

lemma um_step_register:
  assumes "um_step store methods out (UmRegister a d) u = Some u'" "um_inv store u"
  shows "um_inv store u'"
proof (cases "\<not> outputs_exclusive a \<or> \<not> is_ok (fst (dm_register store methods d (um_devices u)))")
  case False
  then obtain x m where m: "dm_register store methods d (um_devices u) = (Inr x, m)"
    by (cases "dm_register store methods d (um_devices u)"; cases "fst (dm_register store methods d (um_devices u))") auto
  then obtain y where j: "join_managers store a d (u\<lparr>um_devices := m\<rparr>) = (Inr y, u')"
    using assms(1) False by (auto simp: um_register_def split: prod.splits sum.splits)
  have S: "joined (set (managed_ids store (um_devices u))) (u\<lparr>um_devices := m\<rparr>)" using assms(2) by (simp add: um_inv_def)
  show ?thesis using join_managers_joins [OF j S] dm_register_inv [OF m] assms(2) by (simp add: um_inv_def)
qed (use assms in auto)

lemma um_step_register_group:
  assumes "um_step store methods out (UmRegisterGroup a interval ds) u = Some u'" "um_inv store u"
  shows "um_inv store u'"
proof (cases "\<not> outputs_exclusive a \<or> \<not> is_ok (fst (dm_register_group store methods ds interval (um_devices u)))")
  case False
  then obtain x m where m: "dm_register_group store methods ds interval (um_devices u) = (Inr x, m)"
    by (cases "dm_register_group store methods ds interval (um_devices u)"; cases "fst (dm_register_group store methods ds interval (um_devices u))") auto
  then obtain y where j: "join_each store a ds (u\<lparr>um_devices := m\<rparr>) = (Inr y, u')"
    using assms(1) False by (auto simp: um_register_group_def split: prod.splits sum.splits)
  have S: "joined (set (managed_ids store (um_devices u))) (u\<lparr>um_devices := m\<rparr>)" using assms(2) by (simp add: um_inv_def)
  show ?thesis using join_each_joins [OF j S] dm_register_group_inv [OF m] assms(2) by (simp add: um_inv_def)
qed (use assms in auto)

lemma find_append_None: "find P (xs @ ys) = (case find P xs of None \<Rightarrow> find P ys | Some x \<Rightarrow> Some x)"
  by (induction xs) auto

lemma um_step_unregister:
  assumes step: "um_step store methods out (UmUnregister did) u = Some u'" and inv: "um_inv store u"
  shows "um_inv store u'"
proof (cases "find (\<lambda>d. dev_id (store d) = did) (dm_standalone (um_devices u))")
  case None
  then have "did \<notin> set (managed_ids store (um_devices u))" using step by (auto split: if_splits)
  then have "find (\<lambda>d. dev_id (store d) = did) (all_managed (um_devices u)) = None" by (auto simp: find_None_iff managed_ids_def)
  then show ?thesis using step inv None by (auto simp: um_unregister_def split: if_splits)
next
  case (Some d)
  have f: "find (\<lambda>d. dev_id (store d) = did) (all_managed (um_devices u)) = Some d" using Some by (simp add: all_managed_def find_append_None)
  have id: "dev_id (store d) = did" using Some by (auto simp: find_Some_iff)
  let ?u1 = "cascade_unsubscribe (\<lambda>_. False) did u"
  have S: "joined (set (managed_ids store (um_devices u))) u" "dm_inv store (um_devices u)" using inv by (simp_all add: um_inv_def)
  note c = cascade_leaves [OF S(1), of did]
  obtain r m where un: "dm_unregister store out did (um_devices u) = (r, m)" by (cases "dm_unregister store out did (um_devices u)")
  have r: "r = None \<or> r = Some True" using un Some by (auto simp: dm_unregister_def split: prod.splits bool.splits)
  have "um_unregister store out (\<lambda>_. False) did u = (if r = None then None else Some True, ?u1\<lparr>um_devices := m\<rparr>)"
    using f id c un by (simp add: um_unregister_def Let_def)
  then have "r = Some True" "u' = ?u1\<lparr>um_devices := m\<rparr>" using step Some r by (auto split: if_splits)
  then show ?thesis using c dm_unregister_inv [of store out did "um_devices u" m] un S(2) by (simp add: um_inv_def)
qed

lemma um_step_unregister_group:
  assumes step: "um_step store methods out (UmUnregisterGroup ids) u = Some u'" and inv: "um_inv store u"
  shows "um_inv store u'"
proof (cases "find (\<lambda>g. set (group_ids store g) = set ids) (dm_groups (um_devices u))")
  case None
  then show ?thesis using step inv by (simp add: um_unregister_group_def)
next
  case (Some g)
  let ?u1 = "fold (cascade_unsubscribe (\<lambda>_. False)) (group_ids store g) u"
  have S: "joined (set (managed_ids store (um_devices u))) u" "dm_inv store (um_devices u)" using inv by (simp_all add: um_inv_def)
  note c = cascade_all_leaves [OF S(1), of "group_ids store g"]
  obtain r m where un: "dm_unregister_group store out ids (um_devices u) = (r, m)" by (cases "dm_unregister_group store out ids (um_devices u)")
  have r: "r = None \<or> r = Some True" using un Some by (auto simp: dm_unregister_group_def split: prod.splits bool.splits)
  have "um_unregister_group store out (\<lambda>_. False) ids u = (if r = None then None else Some True, ?u1\<lparr>um_devices := m\<rparr>)"
    using Some c un by (simp add: um_unregister_group_def Let_def)
  then have "r = Some True" "u' = ?u1\<lparr>um_devices := m\<rparr>" using step r by (auto split: if_splits)
  then show ?thesis using c dm_unregister_group_inv [of store out ids "um_devices u" m g] un Some S(2) by (simp add: um_inv_def)
qed

lemma um_step_inv:
  assumes s: "um_step store methods out x u = Some u'" and inv: "um_inv store u"
  shows "um_inv store u'"
proof (cases x)
  case (UmStart now)
  show ?thesis using s inv dm_start_stop_inv(1) [of store "um_devices u" out now] UmStart by (auto simp: um_start_def um_inv_def split: if_splits prod.splits)
next
  case UmStop
  show ?thesis using s inv dm_start_stop_inv(2) [of store "um_devices u" out] UmStop by (auto simp: um_stop_def um_inv_def split: prod.splits)
next
  case (UmRegister a d)
  show ?thesis by (rule um_step_register [OF s [unfolded UmRegister] inv])
next
  case (UmRegisterGroup a interval ds)
  show ?thesis by (rule um_step_register_group [OF s [unfolded UmRegisterGroup] inv])
next
  case (UmUnregister did)
  show ?thesis by (rule um_step_unregister [OF s [unfolded UmUnregister] inv])
next
  case (UmUnregisterGroup ids)
  show ?thesis by (rule um_step_unregister_group [OF s [unfolded UmUnregisterGroup] inv])
qed

lemma um_run_inv: "um_run store methods out ops u = Some u' \<Longrightarrow> um_inv store u \<Longrightarrow> um_inv store u'"
  by (induction ops arbitrary: u) (auto split: option.splits intro: um_step_inv)


definition sample_store :: device_store where
  "sample_store n = \<lparr>dev_id = (if n = 0 then ''a'' else if n = 1 then ''b'' else ''c''), dev_protected = False, dev_responsive = True, dev_capabilities = []\<rparr>"

definition all_methods :: "nat \<Rightarrow> dev_call list" where
  "all_methods d = [CallConnect, CallDisconnect, CallStart, CallStop, CallReadOnce, CallEnsureStarted, CallEnsureStopped]"

definition plain_args :: "string option \<Rightarrow> register_args" where
  "plain_args coll = \<lparr>ra_collection = coll, ra_traits = [''pcs''], ra_metadata = [], ra_outputs = None\<rparr>"

definition sample_ops :: "unified_op list" where
  "sample_ops = [UmRegister (plain_args (Some ''m'')) 0, UmRegisterGroup (plain_args None) 1 [1, 2], UmStart 0, UmUnregister ''a'', UmRegister (plain_args None) 1, UmStop]"


section \<open>Start and stop reach every device\<close>

definition never_cancelled :: "call_env \<Rightarrow> bool" where
  "never_cancelled out \<longleftrightarrow> (\<forall>d c. out d c \<noteq> CallCancelled)"

definition calls_for :: "dev_call list \<Rightarrow> nat list \<Rightarrow> (nat \<times> dev_call) list" where
  "calls_for cs ds = concat (map (\<lambda>d. map (Pair d) cs) ds)"

lemma safe_steps_calls: "never_cancelled out \<Longrightarrow> safe_steps out d cs m = (True, m\<lparr>dm_calls := dm_calls m @ map (Pair d) cs\<rparr>)"
  by (induction cs arbitrary: m) (simp_all add: never_cancelled_def Let_def)

lemma gather_calls: "never_cancelled out \<Longrightarrow> gather_devices out cs ds m = (True, m\<lparr>dm_calls := dm_calls m @ calls_for cs ds\<rparr>)"
  by (induction ds arbitrary: m) (simp_all add: safe_steps_calls calls_for_def)

lemma start_groups_calls: "never_cancelled out \<Longrightarrow> start_groups out now gs m =
    (True, map (group_start now) gs, m\<lparr>dm_calls := dm_calls m @ calls_for [CallConnect, CallEnsureStarted] (concat (map gr_devices gs))\<rparr>)"
  by (induction gs arbitrary: m) (simp_all add: gather_calls calls_for_def)

lemma stop_groups_calls: "never_cancelled out \<Longrightarrow> stop_groups out gs m =
    (True, map group_stop gs, m\<lparr>dm_calls := dm_calls m @ calls_for [CallEnsureStopped, CallDisconnect] (concat (map gr_devices gs))\<rparr>)"
  by (induction gs arbitrary: m) (simp_all add: gather_calls calls_for_def)

lemma group_start_runs: "group_running (group_start now g)" "gr_devices (group_start now g) = gr_devices g"
  "\<not> group_running (group_stop g)" "gr_devices (group_stop g) = gr_devices g"
  by (auto simp: group_running_def group_start_def group_stop_def Let_def)

text \<open>
  C24. Whichever calls to devices fail, as long as none is cancelled: a start of the device manager connects and starts every standalone
  device, connects every device of a group and starts its event loop, and starts the loop of every group; the stop that follows stops and
  disconnects each of them and ends the loops; nothing else is called.
\<close>

theorem start_stop_reach_all:
  assumes "never_cancelled out" "\<not> dm_running m"
  shows "\<exists>m1 m2. dm_start out now m = (True, m1) \<and> dm_running m1 \<and> dm_stop out m1 = (True, m2) \<and> \<not> dm_running m2
    \<and> dm_calls m1 = dm_calls m @ calls_for [CallConnect, CallStart] (dm_standalone m)
        @ calls_for [CallConnect, CallEnsureStarted] (concat (map gr_devices (dm_groups m)))
    \<and> (\<forall>g\<in>set (dm_groups m1). group_running g)
    \<and> dm_calls m2 = dm_calls m1 @ calls_for [CallStop, CallDisconnect] (dm_standalone m)
        @ calls_for [CallEnsureStopped, CallDisconnect] (concat (map gr_devices (dm_groups m)))
    \<and> (\<forall>g\<in>set (dm_groups m2). \<not> group_running g)"
proof -
  have devs: "map gr_devices (map (group_start now) gs) = map gr_devices gs" for gs by (simp add: comp_def group_start_runs)
  let ?m1 = "m\<lparr>dm_groups := map (group_start now) (dm_groups m), dm_running := True, dm_calls := dm_calls m @ calls_for [CallConnect, CallStart] (dm_standalone m)
        @ calls_for [CallConnect, CallEnsureStarted] (concat (map gr_devices (dm_groups m)))\<rparr>"
  have start: "dm_start out now m = (True, ?m1)" using assms by (simp add: dm_start_def gather_calls start_groups_calls)
  have "dm_stop out ?m1 = (True, ?m1\<lparr>dm_groups := map group_stop (dm_groups ?m1), dm_running := False, dm_calls := dm_calls ?m1 @ calls_for [CallStop, CallDisconnect] (dm_standalone m)
        @ calls_for [CallEnsureStopped, CallDisconnect] (concat (map gr_devices (map (group_start now) (dm_groups m))))\<rparr>)"
    using assms(1) by (simp add: dm_stop_def gather_calls stop_groups_calls)
  then show ?thesis using start unfolding devs by (auto simp: group_start_runs)
qed

theorem start_stop_reach_all_witness:
  "\<exists>m1 m2. dm_start (\<lambda>d c. if d = 0 then CallFailed else CallDone) 5 (device_manager_init\<lparr>dm_standalone := [0, 1], dm_groups := [device_group_init [2] 1]\<rparr>) = (True, m1)
    \<and> dm_stop (\<lambda>d c. if d = 0 then CallFailed else CallDone) m1 = (True, m2)
    \<and> dm_calls m1 = [(0, CallConnect), (0, CallStart), (1, CallConnect), (1, CallStart), (2, CallConnect), (2, CallEnsureStarted)]"
proof -
  let ?out = "\<lambda>d c. if d = 0 then CallFailed else CallDone"
  let ?m = "device_manager_init\<lparr>dm_standalone := [0, 1], dm_groups := [device_group_init [2] 1]\<rparr>"
  have n: "never_cancelled ?out" by (simp add: never_cancelled_def)
  have d: "\<not> dm_running ?m" by (simp add: device_manager_init_def)
  have calls: "dm_calls ?m @ calls_for [CallConnect, CallStart] (dm_standalone ?m) @ calls_for [CallConnect, CallEnsureStarted] (concat (map gr_devices (dm_groups ?m)))
      = [(0, CallConnect), (0, CallStart), (1, CallConnect), (1, CallStart), (2, CallConnect), (2, CallEnsureStarted)]" by code_simp
  from start_stop_reach_all [OF n d, of 5, unfolded calls] show ?thesis by blast
qed

text \<open>A group takes its devices in turn, round after round, until it is stopped.\<close>

fun turn_count :: "device_group \<Rightarrow> group_phase \<Rightarrow> nat" where
  "turn_count g (Turn n) = n"
| "turn_count g (Reading n) = n + 1"
| "turn_count g (Resting n t) = n + 1"
| "turn_count g (Pausing t) = length (gr_devices g)"
| "turn_count g w = 0"

definition rounds_inv :: "device_group \<Rightarrow> bool" where
  "rounds_inv g \<longleftrightarrow> group_running g \<and> \<not> gr_stop g \<and> turn_count g (gr_task g) \<le> length (gr_devices g)
     \<and> (\<exists>k. map fst (gr_turns g) = concat (replicate k (gr_devices g)) @ take (turn_count g (gr_task g)) (gr_devices g))"

lemma rounds_step: "rounds_inv g \<Longrightarrow> rounds_inv (group_step now attempt g)"
proof -
  assume inv: "rounds_inv g"
  obtain k where k: "map fst (gr_turns g) = concat (replicate k (gr_devices g)) @ take (turn_count g (gr_task g)) (gr_devices g)" using inv by (auto simp: rounds_inv_def)
  show ?thesis
  proof (cases "gr_task g")
    case (Turn n)
    show ?thesis
    proof (cases "n < length (gr_devices g)")
      case True
      then have "map fst (gr_turns g) @ [gr_devices g ! n] = concat (replicate k (gr_devices g)) @ take (n + 1) (gr_devices g)" using k Turn by (simp add: take_Suc_conv_app_nth)
      then show ?thesis using inv Turn True by (auto simp: rounds_inv_def group_step_def group_running_def Let_def)
    next
      case False
      then show ?thesis using inv Turn k by (auto simp: rounds_inv_def group_step_def group_running_def split: prod.split)
    qed
  next
    case (Pausing t)
    have "map fst (gr_turns g) = concat (replicate (k + 1) (gr_devices g))" using k Pausing
      by (metis append.right_neutral concat.simps(1) concat.simps(2) concat_append order_refl replicate_Suc replicate_append_same take_all turn_count.simps(4) Suc_eq_plus1)
    then have "\<exists>k. map fst (gr_turns g) = concat (replicate k (gr_devices g))" by blast
    then show ?thesis using inv Pausing k by (auto simp: rounds_inv_def group_step_def group_running_def)
  qed (use inv in \<open>auto simp: rounds_inv_def group_step_def group_running_def\<close>)
qed

lemma group_rounds:
  "rounds_inv (fold (\<lambda>(now, attempt). group_step now attempt) steps (group_start t (device_group_init ds i)))"
proof -
  have start: "rounds_inv (group_start t (device_group_init ds i))" by (simp add: rounds_inv_def group_start_def device_group_init_def group_running_def)
  have "rounds_inv g \<Longrightarrow> rounds_inv (fold (\<lambda>(now, attempt). group_step now attempt) steps g)" for g
    by (induction steps arbitrary: g) (auto intro: rounds_step)
  then show ?thesis using start .
qed

section \<open>What goes wrong half way\<close>

text \<open>A registration that raises after the device manager has taken the device leaves it there: repeating it is refused.\<close>

lemma registration_half_done:
  "case um_register sample_store all_methods ((plain_args None)\<lparr>ra_outputs := Some []\<rparr>) 0 (unified_init True False True True False None None) of
     (r, u) \<Rightarrow> r = Inl ValueError \<and> managed_ids sample_store (um_devices u) = [''a''] \<and> um_alarm u = [''a''] \<and> um_state u = []
       \<and> fst (um_register sample_store all_methods (plain_args None) 0 u) = Inl ValueError"
  by code_simp

text \<open>A device of a group that is unregistered alone loses all its subscriptions and is reported as removed, but it is still read.\<close>

lemma group_member_unregistered:
  "case um_unregister sample_store (\<lambda>_ _. CallDone) (\<lambda>_. False) ''b'' (snd (um_register_group sample_store all_methods (plain_args None) 1 [1, 2]
      (unified_init True False False False False None None))) of (r, u) \<Rightarrow> r = Some True \<and> um_alarm u = [''c''] \<and> managed_ids sample_store (um_devices u) = [''b'', ''c'']"
  by code_simp

text \<open>A device registered while the manager runs is never connected.\<close>

lemma late_device_idle:
  "case um_register sample_store all_methods (plain_args None) 0 (snd (um_start (\<lambda>_ _. CallDone) 0 (unified_init True False False False False None None))) of
     (r, u) \<Rightarrow> dm_running (um_devices u) \<and> managed_ids sample_store (um_devices u) = [''a''] \<and> dm_calls (um_devices (snd (um_start (\<lambda>_ _. CallDone) 0 u))) = []"
  by code_simp

text \<open>After a cancelled start a stop does nothing: the devices already started go on.\<close>

lemma cancelled_start_leaks:
  "case dm_start (\<lambda>d c. if d = 1 \<and> c = CallStart then CallCancelled else CallDone) 0 (device_manager_init\<lparr>dm_standalone := [0, 1]\<rparr>) of
     (ok, m) \<Rightarrow> \<not> ok \<and> (0, CallStart) \<in> set (dm_calls m) \<and> dm_calls (snd (dm_stop (\<lambda>_ _. CallDone) m)) = dm_calls m"
  by code_simp

text \<open>Unregistering a running group disconnects its devices but does not stop their event loops, as the stop of the manager does.\<close>

lemma group_events_leak:
  "case dm_unregister_group sample_store (\<lambda>_ _. CallDone) [''b''] (device_manager_init\<lparr>dm_groups := [device_group_init [1] 1], dm_running := True\<rparr>) of
     (r, m) \<Rightarrow> r = Some True \<and> dm_calls m = [(1, CallDisconnect)]"
  by code_simp

text \<open>A start on a follower returns at once, and nothing starts the devices when it is promoted.\<close>

lemma follower_start_skipped: "um_leader u = Some False \<Longrightarrow> um_start out now u = (True, u)"
  by (simp add: um_start_def)

end
