(* ===== verification/Cluster_State.thy ===== *)
theory Cluster_State
  imports Context_Builder Election
begin

text \<open>
  What the leader shares through Redis: the client (\<open>redis/client.py\<close>), the state of the devices (\<open>manager/state/sync.py\<close>), the state of the
  cluster (\<open>cluster/sync.py\<close>), the context a follower builds from it (\<open>cluster/context.py\<close>) and the switch between the two roles
  (\<open>cluster/controller.py\<close>). A JSON text that \<open>json.dumps\<close> has made is kept as the value it stands for; what \<open>json.loads\<close> makes of any other
  text is an argument. Redis keys live until they expire.
\<close>

section \<open>Redis and its client\<close>

datatype redis_text = Json pyval | Raw string

fun json_ok :: "pyval \<Rightarrow> bool" and json_ok_list :: "pyval list \<Rightarrow> bool" and json_ok_dict :: "(string \<times> pyval) list \<Rightarrow> bool" where
  "json_ok (PyBytes bs) = False"
| "json_ok (PyList vs) = json_ok_list vs"
| "json_ok (PyDict d) = json_ok_dict d"
| "json_ok v = True"
| "json_ok_list [] = True"
| "json_ok_list (v # vs) = (json_ok v \<and> json_ok_list vs)"
| "json_ok_dict [] = True"
| "json_ok_dict ((k, v) # d) = (json_ok v \<and> json_ok_dict d)"

definition dumps :: "pyval \<Rightarrow> redis_text res" where
  "dumps v = (if json_ok v then Inr (Json v) else Inl TypeError)"

type_synonym json_loads = "string \<Rightarrow> pyval option"

fun text_loads :: "json_loads \<Rightarrow> redis_text \<Rightarrow> pyval option" where
  "text_loads loads (Json v) = Some v"
| "text_loads loads (Raw s) = loads s"

record redis_store =
  rs_strings :: "(string \<times> redis_text \<times> rat option) list"
  rs_hashes :: "(string \<times> (string \<times> redis_text) list \<times> rat option) list"
  rs_sets :: "(string \<times> string list) list"
  rs_published :: "(string \<times> redis_text) list"

definition redis_empty :: redis_store where
  "redis_empty = \<lparr>rs_strings = [], rs_hashes = [], rs_sets = [], rs_published = []\<rparr>"

definition unexpired :: "rat \<Rightarrow> rat option \<Rightarrow> bool" where
  "unexpired now e = (case e of None \<Rightarrow> True | Some t \<Rightarrow> now < t)"

definition redis_get :: "rat \<Rightarrow> string \<Rightarrow> redis_store \<Rightarrow> redis_text option" where
  "redis_get now k s = (case dict_get (rs_strings s) k of None \<Rightarrow> None | Some (t, e) \<Rightarrow> if unexpired now e then Some t else None)"

definition raw_hash :: "rat \<Rightarrow> string \<Rightarrow> redis_store \<Rightarrow> (string \<times> redis_text) list \<times> rat option" where
  "raw_hash now k s = (case dict_get (rs_hashes s) k of None \<Rightarrow> ([], None) | Some (h, e) \<Rightarrow> if unexpired now e then (h, e) else ([], None))"

text \<open>The client's \<open>hset\<close> encodes what is not a string and \<open>hgetall\<close> decodes what can be decoded.\<close>

definition hash_text :: "pyval \<Rightarrow> redis_text res" where
  "hash_text v = (case v of PyStr s \<Rightarrow> Inr (Raw s) | _ \<Rightarrow> dumps v)"

definition hash_value :: "json_loads \<Rightarrow> redis_text \<Rightarrow> pyval" where
  "hash_value loads t = (case text_loads loads t of Some v \<Rightarrow> v | None \<Rightarrow> (case t of Raw s \<Rightarrow> PyStr s | Json v \<Rightarrow> v))"

definition hgetall :: "json_loads \<Rightarrow> rat \<Rightarrow> string \<Rightarrow> redis_store \<Rightarrow> (string \<times> pyval) list" where
  "hgetall loads now k s = map (\<lambda>(f, t). (f, hash_value loads t)) (fst (raw_hash now k s))"

datatype redis_op = RSet string redis_text "rat option" | RHset string "(string \<times> redis_text) list" | RExpire string rat | RDelete string
  | RSadd string string | RSrem string string | RPublish string redis_text

fun redis_exec :: "rat \<Rightarrow> redis_op \<Rightarrow> redis_store \<Rightarrow> redis_store" where
  "redis_exec now (RSet k t ttl) s = s\<lparr>rs_strings := dict_set k (t, map_option (\<lambda>d. now + d) ttl) (rs_strings s)\<rparr>"
| "redis_exec now (RHset k h) s = s\<lparr>rs_hashes := dict_set k (fold (\<lambda>(f, t). dict_set f t) h (fst (raw_hash now k s)), snd (raw_hash now k s)) (rs_hashes s)\<rparr>"
| "redis_exec now (RExpire k d) s = (let s1 = (case dict_get (rs_hashes s) k of None \<Rightarrow> s
       | Some (h, e) \<Rightarrow> if unexpired now e then s\<lparr>rs_hashes := dict_set k (h, Some (now + d)) (rs_hashes s)\<rparr> else s)
     in case dict_get (rs_strings s1) k of None \<Rightarrow> s1
       | Some (t, e) \<Rightarrow> if unexpired now e then s1\<lparr>rs_strings := dict_set k (t, Some (now + d)) (rs_strings s1)\<rparr> else s1)"
| "redis_exec now (RDelete k) s = s\<lparr>rs_strings := dict_del k (rs_strings s), rs_hashes := dict_del k (rs_hashes s), rs_sets := dict_del k (rs_sets s)\<rparr>"
| "redis_exec now (RSadd k x) s = s\<lparr>rs_sets := dict_set k (set_add x (dict_get_or (rs_sets s) k [])) (rs_sets s)\<rparr>"
| "redis_exec now (RSrem k x) s = s\<lparr>rs_sets := dict_set k (removeAll x (dict_get_or (rs_sets s) k [])) (rs_sets s)\<rparr>"
| "redis_exec now (RPublish ch t) s = s\<lparr>rs_published := rs_published s @ [(ch, t)]\<rparr>"

text \<open>Operations in order; the connection may be lost after some of them.\<close>

definition redis_run :: "rat \<Rightarrow> nat option \<Rightarrow> redis_op list \<Rightarrow> redis_store \<Rightarrow> bool \<times> redis_store" where
  "redis_run now lost ops s = (case lost of None \<Rightarrow> (True, fold (redis_exec now) ops s)
     | Some n \<Rightarrow> (length ops \<le> n, fold (redis_exec now) (take n ops) s))"

section \<open>The state of the devices\<close>

record state_sync_config =
  sy_state_ttl :: rat
  sy_online_ttl :: rat
  sy_key_prefix :: string
  sy_channel_prefix :: string

definition state_sync_config_valid :: "state_sync_config \<Rightarrow> unit res" where
  "state_sync_config_valid c = (if sy_state_ttl c \<le> 0 \<or> sy_online_ttl c \<le> 0 \<or> sy_key_prefix c = [] \<or> sy_channel_prefix c = [] then Inl ValueError else Inr ())"

definition sync_key :: "state_sync_config \<Rightarrow> string \<Rightarrow> string \<Rightarrow> string" where
  "sync_key c did suffix = sy_key_prefix c @ '':'' @ did @ '':'' @ suffix"

definition sync_channel :: "state_sync_config \<Rightarrow> string \<Rightarrow> string \<Rightarrow> string" where
  "sync_channel c did suffix = sy_channel_prefix c @ '':'' @ did @ '':'' @ suffix"

datatype sync_event = SyncRead "(string \<times> pyval) list" pyval | SyncConnected pyval | SyncDisconnected string pyval
  | SyncTriggered string "(string \<times> pyval) list" pyval | SyncCleared string "(string \<times> pyval) list" pyval

text \<open>The Redis operations of an event. What \<open>json.dumps\<close> refuses in the values of a reading raises, and so does an empty mapping.\<close>

definition sync_ops :: "state_sync_config \<Rightarrow> string \<Rightarrow> sync_event \<Rightarrow> redis_op list res" where
  "sync_ops c did ev = (case ev of
       SyncRead vals ts \<Rightarrow> rbind (rmap (\<lambda>(k, v). rbind (hash_text v) (\<lambda>t. Inr (k, t))) vals) (\<lambda>h.
         if h = [] then Inl DataError else Inr [RHset (sync_key c did ''state'') h, RExpire (sync_key c did ''state'') (sy_state_ttl c), RSet (sync_key c did ''online'') (Raw ''1'') (Some (sy_online_ttl c)),
              RPublish (sync_channel c did ''data'') (Json (PyDict [(''timestamp'', ts), (''values'', PyDict vals)]))])
     | SyncConnected ts \<Rightarrow> Inr [RSet (sync_key c did ''online'') (Raw ''1'') (Some (sy_online_ttl c)),
              RPublish (sync_channel c did ''status'') (Json (PyDict [(''online'', PyBool True), (''timestamp'', ts)]))]
     | SyncDisconnected reason ts \<Rightarrow> Inr [RSet (sync_key c did ''online'') (Raw ''0'') None,
              RPublish (sync_channel c did ''status'') (Json (PyDict [(''online'', PyBool False), (''reason'', PyStr reason), (''timestamp'', ts)]))]
     | SyncTriggered code alarm ts \<Rightarrow> Inr [RSadd (sync_key c did ''alarms'') code,
              RPublish (sync_channel c did ''alarm'') (Json (PyDict [(''type'', PyStr ''triggered''), (''alarm'', PyDict ((''code'', PyStr code) # alarm)), (''timestamp'', ts)]))]
     | SyncCleared code alarm ts \<Rightarrow> Inr [RSrem (sync_key c did ''alarms'') code,
              RPublish (sync_channel c did ''alarm'') (Json (PyDict [(''type'', PyStr ''cleared''), (''alarm'', PyDict ((''code'', PyStr code) # alarm)), (''timestamp'', ts)]))])"

definition sync_handle :: "state_sync_config \<Rightarrow> bool option \<Rightarrow> rat \<Rightarrow> string \<Rightarrow> sync_event \<Rightarrow> redis_store \<Rightarrow> redis_store" where
  "sync_handle c leader now did ev s = (if leader = Some False then s
     else case sync_ops c did ev of Inl e \<Rightarrow> s | Inr ops \<Rightarrow> fold (redis_exec now) ops s)"

section \<open>The state of the cluster\<close>

record leader_state =
  ls_elected_at :: rat
  ls_hostname :: string
  ls_base_modes :: "string list"
  ls_overrides :: "string list"
  ls_effective :: "string option"
  ls_protection :: "(string list \<times> bool) option"
  ls_p_target :: flt
  ls_q_target :: flt
  ls_auto_stop :: bool

record share_config =
  sh_instance :: string
  sh_namespace :: string
  sh_state_ttl :: rat
  sh_device_ids :: "string list"

definition redis_key :: "share_config \<Rightarrow> string \<Rightarrow> string" where
  "redis_key c suffix = ''cluster:'' @ sh_namespace c @ '':'' @ suffix"

definition redis_channel :: "share_config \<Rightarrow> string \<Rightarrow> string" where
  "redis_channel c suffix = ''channel:cluster:'' @ sh_namespace c @ '':'' @ suffix"

definition names_text :: "string list \<Rightarrow> redis_text" where
  "names_text ns = Json (PyList (map PyStr ns))"

definition identity_ops :: "share_config \<Rightarrow> leader_state \<Rightarrow> redis_op list" where
  "identity_ops c l = [RSet (redis_key c ''leader'') (Json (PyDict [(''instance_id'', PyStr (sh_instance c)), (''elected_at'', PyFloat (Fin (ls_elected_at l))),
     (''hostname'', PyStr (ls_hostname l))])) (Some (sh_state_ttl c))]"

definition mode_ops :: "share_config \<Rightarrow> leader_state \<Rightarrow> redis_op list" where
  "mode_ops c l = [RHset (redis_key c ''mode_state'') [(''base_modes'', names_text (ls_base_modes l)), (''overrides'', names_text (ls_overrides l)),
       (''effective_mode'', Raw (case ls_effective l of None \<Rightarrow> [] | Some n \<Rightarrow> n))], RExpire (redis_key c ''mode_state'') (sh_state_ttl c)]"

definition protection_ops :: "share_config \<Rightarrow> leader_state \<Rightarrow> redis_op list" where
  "protection_ops c l = [RHset (redis_key c ''protection_state'') [(''triggered_rules'', names_text (case ls_protection l of None \<Rightarrow> [] | Some (rs, m) \<Rightarrow> rs)),
       (''was_modified'', Json (PyBool (case ls_protection l of None \<Rightarrow> False | Some (rs, m) \<Rightarrow> m)))], RExpire (redis_key c ''protection_state'') (sh_state_ttl c)]"

definition command_ops :: "share_config \<Rightarrow> rat \<Rightarrow> leader_state \<Rightarrow> redis_op list" where
  "command_ops c now l = [RHset (redis_key c ''last_command'') [(''p_target'', Json (PyFloat (ls_p_target l))), (''q_target'', Json (PyFloat (ls_q_target l))),
       (''timestamp'', Json (PyFloat (Fin now)))], RExpire (redis_key c ''last_command'') (sh_state_ttl c)]"

definition auto_stop_ops :: "share_config \<Rightarrow> leader_state \<Rightarrow> redis_op list" where
  "auto_stop_ops c l = [RSet (redis_key c ''auto_stop_active'') (Raw (if ls_auto_stop l then ''1'' else ''0'')) (Some (sh_state_ttl c))]"

definition publish_all :: "share_config \<Rightarrow> rat \<Rightarrow> leader_state \<Rightarrow> redis_op list" where
  "publish_all c now l = identity_ops c l @ mode_ops c l @ protection_ops c l @ command_ops c now l @ auto_stop_ops c l"

definition publisher_start :: "share_config \<Rightarrow> leader_state \<Rightarrow> redis_op list" where
  "publisher_start c l = identity_ops c l @ [RPublish (redis_channel c ''leader_change'') (Json (PyDict [(''instance_id'', PyStr (sh_instance c)), (''action'', PyStr ''elected'')]))]"

definition publisher_stop :: "share_config \<Rightarrow> redis_op list" where
  "publisher_stop c = [RDelete (redis_key c ''leader'')]"

subsection \<open>The follower's side\<close>

record cluster_snapshot =
  cs_leader_id :: pyval
  cs_elected_at :: pyval
  cs_base_modes :: "pyval list"
  cs_override_names :: "pyval list"
  cs_effective_mode :: pyval
  cs_triggered_rules :: "pyval list"
  cs_protection_was_modified :: pyval
  cs_p_target :: flt
  cs_q_target :: flt
  cs_command_timestamp :: "flt option"
  cs_auto_stop_active :: bool

definition empty_snapshot :: cluster_snapshot where
  "empty_snapshot = \<lparr>cs_leader_id = PyNone, cs_elected_at = PyNone, cs_base_modes = [], cs_override_names = [], cs_effective_mode = PyNone, cs_triggered_rules = [],
     cs_protection_was_modified = PyBool False, cs_p_target = 0, cs_q_target = 0, cs_command_timestamp = None, cs_auto_stop_active = False\<rparr>"

definition py_tuple :: "pyval \<Rightarrow> pyval list res" where
  "py_tuple v = (case v of PyList xs \<Rightarrow> Inr xs | PyStr s \<Rightarrow> Inr (map (\<lambda>c. PyStr [c]) s) | PyDict d \<Rightarrow> Inr (map (\<lambda>(k, x). PyStr k) d)
     | PyBytes bs \<Rightarrow> Inr (map (\<lambda>b. PyInt (uint b)) bs) | _ \<Rightarrow> Inl TypeError)"

text \<open>A list field of a hash: its value, or the old one when there is none to be had.\<close>

definition names_field :: "json_loads \<Rightarrow> pyval \<Rightarrow> pyval list \<Rightarrow> pyval list res" where
  "names_field loads raw old = (case raw of
       PyStr s \<Rightarrow> (case loads s of None \<Rightarrow> Inr old | Some v \<Rightarrow> if v = PyNone then Inr old else py_tuple v)
     | PyList xs \<Rightarrow> Inr xs
     | _ \<Rightarrow> Inr old)"

definition parse_float_field :: "pyval \<Rightarrow> flt \<Rightarrow> flt" where
  "parse_float_field raw d = (case (case raw of PyStr s \<Rightarrow> (case py_float (PyStr s) of Inl e \<Rightarrow> PyNone | Inr x \<Rightarrow> PyFloat x)
         | PyBytes bs \<Rightarrow> (case py_float (PyBytes bs) of Inl e \<Rightarrow> PyNone | Inr x \<Rightarrow> PyFloat x) | _ \<Rightarrow> raw) of
       v \<Rightarrow> (case safe_float v None of None \<Rightarrow> d | Some x \<Rightarrow> x))"

definition read_leader :: "json_loads \<Rightarrow> redis_text option \<Rightarrow> cluster_snapshot \<Rightarrow> cluster_snapshot" where
  "read_leader loads t n = (case t of None \<Rightarrow> n
     | Some x \<Rightarrow> (case text_loads loads x of Some (PyDict d) \<Rightarrow> n\<lparr>cs_leader_id := dict_get_or d ''instance_id'' PyNone, cs_elected_at := dict_get_or d ''elected_at'' PyNone\<rparr>
         | _ \<Rightarrow> n))"

definition read_modes :: "json_loads \<Rightarrow> (string \<times> pyval) list \<Rightarrow> cluster_snapshot \<Rightarrow> cluster_snapshot res" where
  "read_modes loads h n = (if h = [] then Inr n
     else rbind (names_field loads (dict_get_or h ''base_modes'' PyNone) (cs_base_modes n)) (\<lambda>bs.
       rbind (names_field loads (dict_get_or h ''overrides'' PyNone) (cs_override_names n)) (\<lambda>os.
         let eff = dict_get_or h ''effective_mode'' (PyStr []) in
         Inr (n\<lparr>cs_base_modes := bs, cs_override_names := os, cs_effective_mode := (if truthy eff then eff else PyNone)\<rparr>))))"

definition read_protection :: "json_loads \<Rightarrow> (string \<times> pyval) list \<Rightarrow> cluster_snapshot \<Rightarrow> cluster_snapshot res" where
  "read_protection loads h n = (if h = [] then Inr n
     else rbind (names_field loads (dict_get_or h ''triggered_rules'' PyNone) (cs_triggered_rules n)) (\<lambda>rs.
       Inr (n\<lparr>cs_triggered_rules := rs, cs_protection_was_modified := (case dict_get_or h ''was_modified'' PyNone of PyBool b \<Rightarrow> PyBool b
           | PyStr s \<Rightarrow> (case loads s of None \<Rightarrow> cs_protection_was_modified n | Some v \<Rightarrow> if v = PyNone then cs_protection_was_modified n else v)
           | _ \<Rightarrow> cs_protection_was_modified n)\<rparr>)))"

definition read_command :: "(string \<times> pyval) list \<Rightarrow> cluster_snapshot \<Rightarrow> cluster_snapshot" where
  "read_command h n = (if h = [] then n
     else n\<lparr>cs_p_target := parse_float_field (dict_get_or h ''p_target'' PyNone) 0, cs_q_target := parse_float_field (dict_get_or h ''q_target'' PyNone) 0,
       cs_command_timestamp := Some (parse_float_field (dict_get_or h ''timestamp'' PyNone) 0)\<rparr>)"

definition poll_snapshot :: "json_loads \<Rightarrow> share_config \<Rightarrow> rat \<Rightarrow> redis_store \<Rightarrow> cluster_snapshot res" where
  "poll_snapshot loads c now s =
     rbind (read_modes loads (hgetall loads now (redis_key c ''mode_state'') s) (read_leader loads (redis_get now (redis_key c ''leader'') s) empty_snapshot)) (\<lambda>n.
       rbind (read_protection loads (hgetall loads now (redis_key c ''protection_state'') s) n) (\<lambda>n1.
         Inr ((read_command (hgetall loads now (redis_key c ''last_command'') s) n1)\<lparr>cs_auto_stop_active := redis_get now (redis_key c ''auto_stop_active'') s = Some (Raw ''1'')\<rparr>)))"

record state_subscriber =
  sb_snapshot :: cluster_snapshot
  sb_device_states :: "(string \<times> (string \<times> pyval) list) list"

definition device_state_key :: "string \<Rightarrow> string" where
  "device_state_key did = ''device:'' @ did @ '':state''"

definition poll_device :: "json_loads \<Rightarrow> rat \<Rightarrow> redis_store \<Rightarrow> string \<Rightarrow> (string \<times> (string \<times> pyval) list) list \<Rightarrow> (string \<times> (string \<times> pyval) list) list" where
  "poll_device loads now s did d = (case hgetall loads now (device_state_key did) s of [] \<Rightarrow> d | h \<Rightarrow> dict_set did h d)"

text \<open>A poll that raises keeps the old snapshot; a device that cannot be read keeps its old values.\<close>

definition poll_all :: "json_loads \<Rightarrow> share_config \<Rightarrow> rat \<Rightarrow> bool \<Rightarrow> (string \<Rightarrow> bool) \<Rightarrow> redis_store \<Rightarrow> state_subscriber \<Rightarrow> state_subscriber" where
  "poll_all loads c now up dev_up s b = (case poll_snapshot loads c now s of
       Inr n \<Rightarrow> if up then b\<lparr>sb_snapshot := n, sb_device_states := fold (poll_device loads now s) (filter dev_up (sh_device_ids c)) (sb_device_states b)\<rparr> else b
     | Inl e \<Rightarrow> b)"

section \<open>The context of a follower\<close>

record virtual_builder =
  vb_states :: "(string \<times> (string \<times> pyval) list) list"
  vb_trait_devices :: "(string \<times> string list) list"

definition virtual_point :: "virtual_builder \<Rightarrow> string \<Rightarrow> string \<Rightarrow> pyval" where
  "virtual_point v point did = dict_get_or (dict_get_or (vb_states v) did []) point PyNone"

definition virtual_trait_aggregate :: "virtual_builder \<Rightarrow> context_mapping \<Rightarrow> string \<Rightarrow> pyval res" where
  "virtual_trait_aggregate v m t = aggregate_values (xm_aggregate m) (xm_custom m) (map (virtual_point v (xm_point m)) (dict_get_or (vb_trait_devices v) t []))"

definition virtual_resolve_value :: "virtual_builder \<Rightarrow> context_mapping \<Rightarrow> pyval res" where
  "virtual_resolve_value v m =
     rbind (case xm_device m of Some did \<Rightarrow> Inr (virtual_point v (xm_point m) did)
            | None \<Rightarrow> (case xm_trait m of Some t \<Rightarrow> virtual_trait_aggregate v m t | None \<Rightarrow> Inr PyNone))
       (\<lambda>raw. Inr (or_default_value (xm_default m) (xm_transform m) raw))"

definition virtual_set_field :: "string \<Rightarrow> pyval \<Rightarrow> built \<Rightarrow> built" where
  "virtual_set_field field v c = (if take 6 field = ''extra.'' then c\<lparr>bt_extra := dict_set (drop 6 field) v (bt_extra c)\<rparr>
     else c\<lparr>bt_fields := dict_set field v (bt_fields c)\<rparr>)"

fun virtual_set_all :: "(string \<times> pyval res) list \<Rightarrow> built \<Rightarrow> built res" where
  "virtual_set_all [] c = Inr c"
| "virtual_set_all ((field, r) # rest) c = rbind r (\<lambda>v. virtual_set_all rest (virtual_set_field field v c))"

definition virtual_build :: "virtual_builder \<Rightarrow> context_mapping list \<Rightarrow> built res" where
  "virtual_build v ms = virtual_set_all (map (\<lambda>m. (xm_field m, virtual_resolve_value v m)) ms) \<lparr>bt_fields = [], bt_extra = []\<rparr>"

text \<open>\<open>_build_trait_device_map\<close> of the cluster controller, once, when it starts.\<close>

fun build_trait_device_map :: "registry \<Rightarrow> device_store \<Rightarrow> context_mapping list \<Rightarrow> (string \<times> string list) list \<Rightarrow> (string \<times> string list) list res" where
  "build_trait_device_map rg store [] d = Inr d"
| "build_trait_device_map rg store (m # ms) d = (case xm_trait m of
       None \<Rightarrow> build_trait_device_map rg store ms d
     | Some t \<Rightarrow> if dict_get d t \<noteq> None then build_trait_device_map rg store ms d
         else rbind (get_devices_by_trait rg t) (\<lambda>devs. build_trait_device_map rg store ms (dict_set t (map (\<lambda>i. dev_id (store i)) devs) d)))"

section \<open>What a follower sees\<close>

lemma map_of_mapped: "map_of (map (\<lambda>(f, t). (f, g t)) h) k = map_option g (map_of h k)"
  by (induction h) auto

lemma hgetall_get: "dict_get_or (hgetall loads now k s) f d = (case dict_get (fst (raw_hash now k s)) f of None \<Rightarrow> d | Some t \<Rightarrow> hash_value loads t)"
  by (simp add: hgetall_def dict_get_or_def map_of_mapped split: option.split)

lemma hgetall_empty: "hgetall loads now k s = [] \<longleftrightarrow> fst (raw_hash now k s) = []"
  by (simp add: hgetall_def)

lemma keys_differ [simp]: "redis_key c a = redis_key c b \<longleftrightarrow> a = b"
  by (simp add: redis_key_def)

fun op_key :: "redis_op \<Rightarrow> string option" where
  "op_key (RSet k t ttl) = Some k"
| "op_key (RHset k h) = Some k"
| "op_key (RExpire k d) = Some k"
| "op_key (RDelete k) = Some k"
| "op_key (RSadd k x) = Some k"
| "op_key (RSrem k x) = Some k"
| "op_key (RPublish ch t) = None"

lemma redis_frame:
  assumes "op_key op \<noteq> Some k"
  shows "raw_hash now k (redis_exec t op s) = raw_hash now k s" "redis_get now k (redis_exec t op s) = redis_get now k s"
    "dict_get_or (rs_sets (redis_exec t op s)) k [] = dict_get_or (rs_sets s) k []"
  using assms by (cases op; auto simp: raw_hash_def redis_get_def Let_def update_conv' delete_conv' split: option.split prod.split)+

lemma redis_run_frame:
  assumes "\<forall>op\<in>set ops. op_key op \<noteq> Some k"
  shows "raw_hash now k (fold (redis_exec t) ops s) = raw_hash now k s \<and> redis_get now k (fold (redis_exec t) ops s) = redis_get now k s"
  using assms by (induction ops arbitrary: s) (auto simp: redis_frame)

text \<open>A hash that has been written and given a new time to live.\<close>

lemma published_hash:
  "raw_hash now k (redis_exec t (RExpire k d) (redis_exec t (RHset k h) s))
    = (if now < t + d then (fold (\<lambda>(f, x). dict_set f x) h (fst (raw_hash t k s)), Some (t + d)) else ([], None))"
proof -
  have un: "unexpired t (snd (raw_hash t k s))"
    by (auto simp: raw_hash_def unexpired_def split: option.split)
  show ?thesis
    using un by (auto simp: raw_hash_def [of now] Let_def update_conv' unexpired_def split: option.split prod.split)
qed

lemma published_string: "redis_get now k (redis_exec t (RSet k x (Some d)) s) = (if now < t + d then Some x else None)"
  by (auto simp: redis_get_def update_conv' unexpired_def)

lemma names_back: "names_field loads (PyList xs) old = Inr xs"
  by (simp add: names_field_def)

subsection \<open>The view of the cluster\<close>

definition leader_view :: "share_config \<Rightarrow> rat \<Rightarrow> leader_state \<Rightarrow> cluster_snapshot" where
  "leader_view c t l = \<lparr>cs_leader_id = PyStr (sh_instance c), cs_elected_at = PyFloat (Fin (ls_elected_at l)), cs_base_modes = map PyStr (ls_base_modes l),
     cs_override_names = map PyStr (ls_overrides l), cs_effective_mode = (case ls_effective l of None \<Rightarrow> PyNone | Some n \<Rightarrow> PyStr n),
     cs_triggered_rules = (case ls_protection l of None \<Rightarrow> [] | Some (rs, m) \<Rightarrow> map PyStr rs),
     cs_protection_was_modified = PyBool (case ls_protection l of None \<Rightarrow> False | Some (rs, m) \<Rightarrow> m), cs_p_target = ls_p_target l, cs_q_target = ls_q_target l,
     cs_command_timestamp = Some (Fin t), cs_auto_stop_active = ls_auto_stop l\<rparr>"

text \<open>The parts of a published state, each found under its own key.\<close>

lemma fold_exec_append: "fold (redis_exec t) (xs @ ys) s = fold (redis_exec t) ys (fold (redis_exec t) xs s)"
  by simp

lemma published_modes:
  "raw_hash now (redis_key c ''mode_state'') (fold (redis_exec t) (publish_all c t l) s) = (if now < t + sh_state_ttl c
     then (fold (\<lambda>(f, x). dict_set f x) [(''base_modes'', names_text (ls_base_modes l)), (''overrides'', names_text (ls_overrides l)),
       (''effective_mode'', Raw (case ls_effective l of None \<Rightarrow> [] | Some n \<Rightarrow> n))] (fst (raw_hash t (redis_key c ''mode_state'') s)), Some (t + sh_state_ttl c)) else ([], None))"
  unfolding publish_all_def fold_exec_append
  by (simp add: identity_ops_def mode_ops_def protection_ops_def command_ops_def auto_stop_ops_def redis_frame published_hash del: redis_exec.simps)

lemma published_protection:
  "raw_hash now (redis_key c ''protection_state'') (fold (redis_exec t) (publish_all c t l) s) = (if now < t + sh_state_ttl c
     then (fold (\<lambda>(f, x). dict_set f x) [(''triggered_rules'', names_text (case ls_protection l of None \<Rightarrow> [] | Some (rs, m) \<Rightarrow> rs)),
       (''was_modified'', Json (PyBool (case ls_protection l of None \<Rightarrow> False | Some (rs, m) \<Rightarrow> m)))] (fst (raw_hash t (redis_key c ''protection_state'') s)), Some (t + sh_state_ttl c)) else ([], None))"
  unfolding publish_all_def fold_exec_append
  by (simp add: identity_ops_def mode_ops_def protection_ops_def command_ops_def auto_stop_ops_def redis_frame published_hash del: redis_exec.simps)

lemma published_command:
  "raw_hash now (redis_key c ''last_command'') (fold (redis_exec t) (publish_all c t l) s) = (if now < t + sh_state_ttl c
     then (fold (\<lambda>(f, x). dict_set f x) [(''p_target'', Json (PyFloat (ls_p_target l))), (''q_target'', Json (PyFloat (ls_q_target l))),
       (''timestamp'', Json (PyFloat (Fin t)))] (fst (raw_hash t (redis_key c ''last_command'') s)), Some (t + sh_state_ttl c)) else ([], None))"
  unfolding publish_all_def fold_exec_append
  by (simp add: identity_ops_def mode_ops_def protection_ops_def command_ops_def auto_stop_ops_def redis_frame published_hash del: redis_exec.simps)

lemma published_leader:
  "redis_get now (redis_key c ''leader'') (fold (redis_exec t) (publish_all c t l) s) = (if now < t + sh_state_ttl c
     then Some (Json (PyDict [(''instance_id'', PyStr (sh_instance c)), (''elected_at'', PyFloat (Fin (ls_elected_at l))), (''hostname'', PyStr (ls_hostname l))])) else None)"
  unfolding publish_all_def fold_exec_append
  by (simp add: identity_ops_def mode_ops_def protection_ops_def command_ops_def auto_stop_ops_def redis_frame published_string del: redis_exec.simps)

lemma published_auto_stop:
  "redis_get now (redis_key c ''auto_stop_active'') (fold (redis_exec t) (publish_all c t l) s) = (if now < t + sh_state_ttl c then Some (Raw (if ls_auto_stop l then ''1'' else ''0'')) else None)"
  unfolding publish_all_def fold_exec_append
  by (simp add: identity_ops_def mode_ops_def protection_ops_def command_ops_def auto_stop_ops_def redis_frame published_string del: redis_exec.simps)

lemma dict_set_some: "dict_set k v d \<noteq> []"
  by (cases d) auto

lemma finite_field: "parse_float_field (PyFloat (Fin x)) d = Fin x"
  by (simp add: parse_float_field_def safe_float_def)

lemma published_reads:
  assumes "now < t + sh_state_ttl c" "loads [] = None" "\<And>n. ls_effective l = Some n \<Longrightarrow> n \<noteq> [] \<and> loads n = None"
    and "ls_p_target l = Fin p" "ls_q_target l = Fin q"
    and s': "s' = fold (redis_exec t) (publish_all c t l) s"
  shows "read_leader loads (redis_get now (redis_key c ''leader'') s') n = n\<lparr>cs_leader_id := PyStr (sh_instance c), cs_elected_at := PyFloat (Fin (ls_elected_at l))\<rparr>"
    and "read_modes loads (hgetall loads now (redis_key c ''mode_state'') s') n = Inr (n\<lparr>cs_base_modes := map PyStr (ls_base_modes l),
      cs_override_names := map PyStr (ls_overrides l), cs_effective_mode := (case ls_effective l of None \<Rightarrow> PyNone | Some n \<Rightarrow> PyStr n)\<rparr>)"
    and "read_protection loads (hgetall loads now (redis_key c ''protection_state'') s') n = Inr (n\<lparr>
      cs_triggered_rules := (case ls_protection l of None \<Rightarrow> [] | Some (rs, m) \<Rightarrow> map PyStr rs),
      cs_protection_was_modified := PyBool (case ls_protection l of None \<Rightarrow> False | Some (rs, m) \<Rightarrow> m)\<rparr>)"
    and "read_command (hgetall loads now (redis_key c ''last_command'') s') n = n\<lparr>cs_p_target := ls_p_target l, cs_q_target := ls_q_target l, cs_command_timestamp := Some (Fin t)\<rparr>"
proof -
  note look = hgetall_get hgetall_empty update_conv' dict_set_some hash_value_def names_text_def names_back
  show "read_leader loads (redis_get now (redis_key c ''leader'') s') n = n\<lparr>cs_leader_id := PyStr (sh_instance c), cs_elected_at := PyFloat (Fin (ls_elected_at l))\<rparr>"
    using assms(1) by (simp add: s' published_leader read_leader_def dict_get_or_def)
  show "read_modes loads (hgetall loads now (redis_key c ''mode_state'') s') n = Inr (n\<lparr>cs_base_modes := map PyStr (ls_base_modes l),
      cs_override_names := map PyStr (ls_overrides l), cs_effective_mode := (case ls_effective l of None \<Rightarrow> PyNone | Some n \<Rightarrow> PyStr n)\<rparr>)"
    using assms(1-3) by (simp add: s' published_modes read_modes_def look Let_def split: option.split)
  show "read_protection loads (hgetall loads now (redis_key c ''protection_state'') s') n = Inr (n\<lparr>
      cs_triggered_rules := (case ls_protection l of None \<Rightarrow> [] | Some (rs, m) \<Rightarrow> map PyStr rs),
      cs_protection_was_modified := PyBool (case ls_protection l of None \<Rightarrow> False | Some (rs, m) \<Rightarrow> m)\<rparr>)"
    using assms(1) by (simp add: s' published_protection read_protection_def look split: option.split)
  show "read_command (hgetall loads now (redis_key c ''last_command'') s') n = n\<lparr>cs_p_target := ls_p_target l, cs_q_target := ls_q_target l, cs_command_timestamp := Some (Fin t)\<rparr>"
    using assms(1,4,5) by (simp add: s' published_command read_command_def look finite_field)
qed

text \<open>
  C25. What the leader has published at \<open>t\<close>, a follower reads as it was (its names and modes, the triggered rules, the targets, whether the site is
  stopped) until the time to live has passed, whatever the store held before; from then on it reads the empty state. This holds for a mode name that is
  not by itself a JSON text and for finite targets.
\<close>

theorem follower_view_exact:
  assumes "loads [] = None" "\<And>n. ls_effective l = Some n \<Longrightarrow> n \<noteq> [] \<and> loads n = None" "ls_p_target l = Fin p" "ls_q_target l = Fin q"
  shows "poll_snapshot loads c now (fold (redis_exec t) (publish_all c t l) s) = Inr (if now < t + sh_state_ttl c then leader_view c t l else empty_snapshot)"
proof (cases "now < t + sh_state_ttl c")
  case True
  note r = published_reads [OF True assms refl]
  show ?thesis
    using True by (simp add: poll_snapshot_def r published_auto_stop leader_view_def empty_snapshot_def)
next
  case False
  have none: "hgetall loads now (redis_key c k) (fold (redis_exec t) (publish_all c t l) s) = []" if "k \<in> {''mode_state'', ''protection_state'', ''last_command''}" for k
    using that False by (auto simp: hgetall_def published_modes published_protection published_command)
  show ?thesis
    using False none by (simp add: poll_snapshot_def published_leader published_auto_stop read_leader_def read_modes_def read_protection_def read_command_def empty_snapshot_def)
qed

definition demo_share :: share_config where
  "demo_share = \<lparr>sh_instance = ''n1'', sh_namespace = ''s'', sh_state_ttl = 30, sh_device_ids = [''d'']\<rparr>"

definition demo_leader :: "string \<Rightarrow> leader_state" where
  "demo_leader mode = \<lparr>ls_elected_at = 5, ls_hostname = ''h'', ls_base_modes = [''pq''], ls_overrides = [], ls_effective = Some mode, ls_protection = None,
     ls_p_target = 7, ls_q_target = 0, ls_auto_stop = True\<rparr>"

text \<open>The texts that \<open>json.loads\<close> takes among those of the examples.\<close>

definition demo_loads :: json_loads where
  "demo_loads s = (if s = ''1'' then Some (PyInt 1) else if s = ''true'' then Some (PyBool True) else None)"

theorem follower_view_exact_witness:
  "poll_snapshot demo_loads demo_share 39 (fold (redis_exec 10) (publish_all demo_share 10 (demo_leader ''pq'')) redis_empty) = Inr (leader_view demo_share 10 (demo_leader ''pq''))
   \<and> poll_snapshot demo_loads demo_share 40 (fold (redis_exec 10) (publish_all demo_share 10 (demo_leader ''pq'')) redis_empty) = Inr empty_snapshot"
  using follower_view_exact [of demo_loads "demo_leader ''pq''" 7 0 demo_share 39 10 redis_empty]
    follower_view_exact [of demo_loads "demo_leader ''pq''" 7 0 demo_share 40 10 redis_empty]
  by (simp add: demo_loads_def demo_leader_def demo_share_def)

subsection \<open>The context of a follower\<close>

definition finite_only :: "pyval \<Rightarrow> pyval" where
  "finite_only v = (if is_non_finite_float v then PyNone else v)"

definition finite_built :: "built \<Rightarrow> built" where
  "finite_built c = \<lparr>bt_fields = map (\<lambda>(k, v). (k, finite_only v)) (bt_fields c), bt_extra = map (\<lambda>(k, v). (k, finite_only v)) (bt_extra c)\<rparr>"

lemma map_dict_set: "map (\<lambda>(k, v). (k, g v)) (dict_set k v d) = dict_set k (g v) (map (\<lambda>(k, v). (k, g v)) d)"
  by (induction d) auto

lemma finite_set_field: "finite_built (virtual_set_field f v c) = set_context_field f v (finite_built c)"
  by (simp add: finite_built_def virtual_set_field_def set_context_field_def map_dict_set finite_only_def Let_def)

lemma finite_set_all: "set_all kvs (finite_built c) = rbind (virtual_set_all kvs c) (\<lambda>d. Inr (finite_built d))"
proof (induction kvs arbitrary: c)
  case (Cons kv kvs)
  obtain f r where kv: "kv = (f, r)" by force
  show ?case
  proof (cases r)
    case (Inr v)
    then show ?thesis using Cons.IH [of "virtual_set_field f v c"] by (simp add: kv finite_set_field)
  qed (simp add: kv)
qed simp

text \<open>The devices answer, and the follower's copy of their values is theirs.\<close>

definition mirrored :: "builder \<Rightarrow> virtual_builder \<Rightarrow> string \<Rightarrow> bool" where
  "mirrored b v did = (case get_device (bd_registry b) did of
       None \<Rightarrow> dict_get_or (vb_states v) did [] = []
     | Some dev \<Rightarrow> dev_id (bd_store b dev) = did \<and> dev_responsive (bd_store b dev) \<and> dict_get_or (vb_states v) did [] = bd_latest b dev)"

lemma mirrored_point:
  "mirrored b v did \<Longrightarrow> virtual_point v point did = read_single_device b did point"
  by (auto simp: mirrored_def virtual_point_def read_single_device_def latest_of_def split: option.splits)

lemma mirrored_devices:
  assumes "rmap (device_at (bd_registry b)) dids = Inr devs" "\<forall>did. mirrored b v did"
  shows "filter (\<lambda>d. dev_responsive (bd_store b d)) devs = devs
    \<and> map (virtual_point v point) (map (\<lambda>i. dev_id (bd_store b i)) devs) = map (latest_of b point) devs"
  using assms(1)
proof (induction dids arbitrary: devs)
  case (Cons did dids)
  obtain dev rest where d: "device_at (bd_registry b) did = Inr dev" "rmap (device_at (bd_registry b)) dids = Inr rest" "devs = dev # rest"
    using Cons.prems by (auto simp: res_simps)
  have got: "get_device (bd_registry b) did = Some dev"
    using d(1) by (auto simp: device_at_def get_device_def split: option.splits)
  have mir: "mirrored b v did" using assms(2) by blast
  then have m: "dev_id (bd_store b dev) = did" "dev_responsive (bd_store b dev)"
    using got by (simp_all add: mirrored_def)
  have pt: "virtual_point v point (dev_id (bd_store b dev)) = latest_of b point dev"
    using got m mirrored_point [OF mir, of point] by (simp add: read_single_device_def)
  note ih = Cons.IH [OF d(2)]
  show ?case
    unfolding d(3) list.map filter.simps pt conjunct1 [OF ih] conjunct2 [OF ih] using m(2) by simp
qed simp

lemma trait_map_keeps: "build_trait_device_map rg store ms d = Inr tm \<Longrightarrow> dict_get d t = Some x \<Longrightarrow> dict_get tm t = Some x"
proof (induction ms arbitrary: d)
  case (Cons m ms)
  show ?case
  proof (cases "xm_trait m")
    case None
    then show ?thesis using Cons by auto
  next
    case (Some u)
    have kept: "dict_get (dict_set u y d) t = Some x" if "dict_get d u = None" for y
      using that Cons.prems(2) by (auto simp: update_conv')
    show ?thesis
      using Cons.prems(1) Some Cons.IH [OF _ Cons.prems(2)] Cons.IH [OF _ kept] by (auto simp: res_simps split: if_splits)
  qed
qed simp

lemma trait_map_entry:
  "build_trait_device_map rg store ms d = Inr tm \<Longrightarrow> m \<in> set ms \<Longrightarrow> xm_trait m = Some t \<Longrightarrow>
   \<forall>t x. dict_get d t = Some x \<longrightarrow> (\<exists>devs. get_devices_by_trait rg t = Inr devs \<and> x = map (\<lambda>i. dev_id (store i)) devs) \<Longrightarrow>
   \<exists>devs. get_devices_by_trait rg t = Inr devs \<and> dict_get tm t = Some (map (\<lambda>i. dev_id (store i)) devs)"
proof (induction ms arbitrary: d)
  case (Cons n ms)
  show ?case
  proof (cases "xm_trait n")
    case None
    then show ?thesis using Cons by auto
  next
    case (Some u)
    show ?thesis
    proof (cases "dict_get d u")
      case None
      then obtain devs where devs: "get_devices_by_trait rg u = Inr devs" "build_trait_device_map rg store ms (dict_set u (map (\<lambda>i. dev_id (store i)) devs) d) = Inr tm"
        using Cons.prems(1) Some by (auto simp: res_simps)
      let ?d = "dict_set u (map (\<lambda>i. dev_id (store i)) devs) d"
      have all: "\<forall>t x. dict_get ?d t = Some x \<longrightarrow> (\<exists>devs. get_devices_by_trait rg t = Inr devs \<and> x = map (\<lambda>i. dev_id (store i)) devs)"
        using Cons.prems(4) devs(1) by (auto simp: update_conv')
      show ?thesis
      proof (cases "m = n")
        case True
        then have "t = u" using Some Cons.prems(3) by simp
        then show ?thesis using devs trait_map_keeps [OF devs(2), of u] by (auto simp: update_conv')
      next
        case False
        then show ?thesis using Cons.IH [OF devs(2) _ Cons.prems(3) all] Cons.prems(2) by auto
      qed
    next
      case (Some x)
      note x = this
      have rest: "build_trait_device_map rg store ms d = Inr tm" using Cons.prems(1) x \<open>xm_trait n = Some u\<close> by simp
      show ?thesis
      proof (cases "m = n")
        case True
        then have "t = u" using \<open>xm_trait n = Some u\<close> Cons.prems(3) by simp
        then show ?thesis using Cons.prems(4) x trait_map_keeps [OF rest x] by auto
      next
        case False
        then show ?thesis using Cons.IH [OF rest _ Cons.prems(3,4)] Cons.prems(2) by auto
      qed
    qed
  qed
qed simp


definition demo_virtual :: virtual_builder where
  "demo_virtual = \<lparr>vb_states = [(''a'', [(''p'', PyFloat 4), (''q'', PyFloat 4)]), (''b'', [(''p'', PyFloat NaN), (''q'', PyFloat 1)])],
     vb_trait_devices = [(''m'', [''a'', ''b''])]\<rparr>"

lemma demo_mirrored: "mirrored demo_builder demo_virtual did"
  by (auto simp: mirrored_def demo_builder_def demo_virtual_def get_device_def registry_init_def dict_get_or_def)

lemma demo_trait_map:
  "build_trait_device_map (bd_registry demo_builder) (bd_store demo_builder) [demo_mapping ''p'', demo_mapping ''q''] [] = Inr (vb_trait_devices demo_virtual)"
  by (simp add: demo_builder_def demo_virtual_def demo_mapping_def get_devices_by_trait_def devices_of_def registry_init_def dict_get_or_def device_at_def)


text \<open>The NaN that the leader drops reaches the strategy of the follower.\<close>

lemma follower_keeps_nan:
  "virtual_build demo_virtual [demo_mapping ''p''] = Inr \<lparr>bt_fields = [], bt_extra = [(''p'', PyFloat NaN)]\<rparr>"
  by (simp add: virtual_build_def demo_mapping_def virtual_resolve_value_def virtual_trait_aggregate_def demo_virtual_def virtual_point_def dict_get_or_def
    aggregate_values_def builtin_aggregate_def py_add_def num_of_def or_default_value_def virtual_set_field_def)

text \<open>A mapping from a parameter reads the parameter on the leader and has its default on a follower.\<close>

lemma follower_ignores_parameters:
  assumes "xm_param m = Some k" "xm_device m = None" "xm_trait m = None"
  shows "virtual_resolve_value v m = Inr (xm_default m)" "resolve_value b m = Inr (or_default_value (xm_default m) (xm_transform m) (read_param b k))"
  using assms by (simp_all add: virtual_resolve_value_def resolve_value_def or_default_value_def)

subsection \<open>The values of the devices\<close>

definition sync_plain :: "json_loads \<Rightarrow> pyval \<Rightarrow> bool" where
  "sync_plain loads v = (case v of PyStr s \<Rightarrow> loads s = None | _ \<Rightarrow> json_ok v)"

lemma plain_text: "sync_plain loads v \<Longrightarrow> \<exists>t. hash_text v = Inr t \<and> hash_value loads t = v"
  by (cases v) (auto simp: sync_plain_def hash_text_def dumps_def hash_value_def)

lemma plain_texts:
  "\<forall>(k, v)\<in>set vals. sync_plain loads v \<Longrightarrow> \<exists>h. rmap (\<lambda>(k, v). rbind (hash_text v) (\<lambda>t. Inr (k, t))) vals = Inr h
    \<and> map (\<lambda>(k, t). (k, hash_value loads t)) h = vals"
proof (induction vals)
  case (Cons kv vals)
  obtain k v where kv: "kv = (k, v)" by force
  obtain t where "hash_text v = Inr t" "hash_value loads t = v" using plain_text Cons.prems kv by fastforce
  moreover obtain h where "rmap (\<lambda>(k, v). rbind (hash_text v) (\<lambda>t. Inr (k, t))) vals = Inr h" "map (\<lambda>(k, t). (k, hash_value loads t)) h = vals"
    using Cons by auto
  ultimately show ?case by (auto simp: kv)
qed simp

lemma fold_dict_set_get: "distinct (map fst h) \<Longrightarrow> map_of (fold (\<lambda>(f, x). dict_set f x) h d) k = (case map_of h k of Some x \<Rightarrow> Some x | None \<Rightarrow> map_of d k)"
proof (induction h arbitrary: d)
  case (Cons fx h)
  obtain f x where "fx = (f, x)" by force
  then show ?case using Cons by (auto simp: update_conv' split: option.split dest: map_of_SomeD intro: rev_image_eqI)
qed simp

text \<open>
  A reading that the leader has synchronised is read back point by point, value and type, until its time to live has passed; from then on
  there is nothing to be read.
\<close>

lemma device_values_exact:
  assumes "\<forall>(k, v)\<in>set vals. sync_plain loads v" "distinct (map fst vals)" "vals \<noteq> []" "leader \<noteq> Some False"
  shows "t + sy_state_ttl y \<le> now \<Longrightarrow> hgetall loads now (sync_key y did ''state'') (sync_handle y leader t did (SyncRead vals ts) s) = []"
    and "now < t + sy_state_ttl y \<Longrightarrow> (k, v) \<in> set vals \<Longrightarrow>
      dict_get (hgetall loads now (sync_key y did ''state'') (sync_handle y leader t did (SyncRead vals ts) s)) k = Some v"
proof -
  obtain h where h: "rmap (\<lambda>(k, v). rbind (hash_text v) (\<lambda>t. Inr (k, t))) vals = Inr h" "map (\<lambda>(k, t). (k, hash_value loads t)) h = vals"
    using plain_texts [OF assms(1)] by blast
  have keys: "map fst h = map fst vals" using arg_cong [OF h(2), of "map fst"] by (simp add: o_def case_prod_unfold)
  have other: "sync_key y did ''online'' \<noteq> sync_key y did ''state''" by (simp add: sync_key_def)
  have ops: "sync_handle y leader t did (SyncRead vals ts) s = redis_exec t (RPublish (sync_channel y did ''data'') (Json (PyDict [(''timestamp'', ts), (''values'', PyDict vals)])))
      (redis_exec t (RSet (sync_key y did ''online'') (Raw ''1'') (Some (sy_online_ttl y))) (redis_exec t (RExpire (sync_key y did ''state'') (sy_state_ttl y)) (redis_exec t (RHset (sync_key y did ''state'') h) s)))"
    using assms(3,4) h by (cases leader) (auto simp: sync_handle_def sync_ops_def simp del: redis_exec.simps)
  have raw: "raw_hash now (sync_key y did ''state'') (sync_handle y leader t did (SyncRead vals ts) s)
    = (if now < t + sy_state_ttl y then (fold (\<lambda>(f, x). dict_set f x) h (fst (raw_hash t (sync_key y did ''state'') s)), Some (t + sy_state_ttl y)) else ([], None))"
    unfolding ops using other by (simp add: redis_frame published_hash del: redis_exec.simps)
  then show "hgetall loads now (sync_key y did ''state'') (sync_handle y leader t did (SyncRead vals ts) s) = []" if "t + sy_state_ttl y \<le> now"
    using that by (simp add: hgetall_def)
  assume "now < t + sy_state_ttl y" "(k, v) \<in> set vals"
  then obtain x where x: "(k, x) \<in> set h" "hash_value loads x = v" using h(2) by auto
  then have "map_of h k = Some x" using keys assms(2) by (simp add: map_of_is_SomeI)
  then show "dict_get (hgetall loads now (sync_key y did ''state'') (sync_handle y leader t did (SyncRead vals ts) s)) k = Some v"
    using raw \<open>now < _\<close> x(2) keys assms(2) by (simp add: hgetall_def map_of_mapped fold_dict_set_get)
qed

subsection \<open>The alarms of a device\<close>

fun alarm_codes :: "string \<Rightarrow> string \<times> sync_event \<Rightarrow> string set \<Rightarrow> string set" where
  "alarm_codes did (d, SyncTriggered code a ts) A = (if d = did then insert code A else A)"
| "alarm_codes did (d, SyncCleared code a ts) A = (if d = did then A - {code} else A)"
| "alarm_codes did (d, ev) A = A"

definition synced_alarms :: "state_sync_config \<Rightarrow> string \<Rightarrow> redis_store \<Rightarrow> string set" where
  "synced_alarms y did s = set (dict_get_or (rs_sets s) (sync_key y did ''alarms'') [])"

lemma expire_sets [simp]: "rs_sets (redis_exec t (RExpire k d) s) = rs_sets s"
  by (simp add: Let_def split: option.split prod.split)

lemma sync_handle_alarms:
  "synced_alarms y did (sync_handle y None t d ev s) = alarm_codes did (d, ev) (synced_alarms y did s)"
proof (cases ev)
  case (SyncRead vals ts)
  then show ?thesis
    by (auto simp: sync_handle_def sync_ops_def synced_alarms_def rbind_def simp del: redis_exec.simps(3) split: sum.split)
qed (auto simp: sync_handle_def sync_ops_def synced_alarms_def sync_key_def)

text \<open>Whatever the order of the events of all devices, the set in Redis holds the codes whose last event was a trigger.\<close>

lemma alarms_mirror_exact:
  "synced_alarms y did (fold (\<lambda>(t, d, ev). sync_handle y None t d ev) evs s) = fold (\<lambda>(t, d, ev). alarm_codes did (d, ev)) evs (synced_alarms y did s)"
  by (induction evs arbitrary: s) (auto simp: sync_handle_alarms)

subsection \<open>What does not come back\<close>

definition demo_sync :: "string \<Rightarrow> state_sync_config" where
  "demo_sync prefix = \<lparr>sy_state_ttl = 60, sy_online_ttl = 60, sy_key_prefix = prefix, sy_channel_prefix = ''c''\<rparr>"

definition demo_polled :: "string \<Rightarrow> rat \<Rightarrow> (string \<times> (string \<times> pyval) list) list" where
  "demo_polled prefix now = sb_device_states (poll_all demo_loads demo_share now True (\<lambda>_. True)
     (sync_handle (demo_sync prefix) None 10 ''d'' (SyncRead [(''mode'', PyStr ''1'')] PyNone) redis_empty)
     \<lparr>sb_snapshot = empty_snapshot, sb_device_states = [(''d'', [(''mode'', PyStr ''old'')])]\<rparr>)"

text \<open>A text that reads as JSON is written as it is and parsed when it is read: the value \<open>''1''\<close> comes back as a number.\<close>

lemma text_becomes_number: "demo_polled ''device'' 11 = [(''d'', [(''mode'', PyInt 1)])]"
  by code_simp

text \<open>With another key prefix the follower finds nothing, and what it knew stays.\<close>

lemma prefix_not_shared: "demo_polled ''site.device'' 11 = [(''d'', [(''mode'', PyStr ''old'')])]"
  by code_simp

text \<open>When the values of a device have expired in Redis, a follower goes on with the last ones it has read.\<close>

lemma expired_values_stay: "demo_polled ''device'' 70 = [(''d'', [(''mode'', PyStr ''old'')])]"
  by code_simp

text \<open>The flag of a device that has disconnected never expires.\<close>

lemma offline_flag_stays: "redis_get now (sync_key y did ''online'') (sync_handle y None t did (SyncDisconnected reason ts) s) = Some (Raw ''0'')"
  by (simp add: sync_handle_def sync_ops_def redis_get_def unexpired_def update_conv')

text \<open>A publisher that stops removes the identity of the leader, also when another instance has published its own since.\<close>

lemma stop_removes_other_leader:
  assumes "sh_namespace c = sh_namespace c'" "now < t + sh_state_ttl c'"
  shows "redis_get now (redis_key c' ''leader'') (fold (redis_exec t) (identity_ops c' l) s) = Some (Json (PyDict [(''instance_id'', PyStr (sh_instance c')),
      (''elected_at'', PyFloat (Fin (ls_elected_at l))), (''hostname'', PyStr (ls_hostname l))]))"
    and "redis_get now (redis_key c' ''leader'') (fold (redis_exec t) (identity_ops c' l @ publisher_stop c) s) = None"
  using assms by (simp_all add: identity_ops_def publisher_stop_def redis_key_def redis_get_def update_conv' unexpired_def delete_conv')

text \<open>A mode whose name is a JSON text comes back as a value of another type.\<close>

lemma mode_name_parsed:
  "map_option cs_effective_mode (case poll_snapshot demo_loads demo_share 11 (fold (redis_exec 10) (publish_all demo_share 10 (demo_leader ''1'')) redis_empty) of Inr n \<Rightarrow> Some n | _ \<Rightarrow> None) = Some (PyInt 1)"
  by code_simp

end
