(* ===== verification/Cluster_Control.thy ===== *)
theory Cluster_Control
  imports Cluster_State Mode_Manager
begin

text \<open>
  The cluster controller (\<open>cluster/controller.py\<close>): it starts as a follower, and the callbacks of the elector (theory \<open>Election\<close>) promote it to the
  leader and demote it. A callback is a coroutine: its program counter tells what it waits for, and events of the election, polls and a stop may come
  in between. What each awaited call does, return or raise, is an argument. Publish loops are numbered as they are created.
\<close>

datatype handler_pc = NoHandler | PromUnified | PromGrace | PromPublisher | PromMode "string list" | PromHook | DemPublisher | DemUnified | DemHook

record cluster_controller =
  ct_elector :: elector
  ct_handler :: handler_pc
  ct_live :: bool
  ct_executor :: bool
  ct_unified :: bool
  ct_subscriber :: bool
  ct_publisher :: "nat option"
  ct_loops :: "nat list"
  ct_fresh :: nat
  ct_modes :: mode_manager
  ct_snapshot :: cluster_snapshot

record controller_config =
  ctc_cluster :: cluster_config
  ctc_promoted_hook :: bool
  ctc_demoted_hook :: bool

definition controller_init :: "mode_manager \<Rightarrow> cluster_controller" where
  "controller_init mm = \<lparr>ct_elector = elector_init, ct_handler = NoHandler, ct_live = True, ct_executor = False, ct_unified = False, ct_subscriber = False,
     ct_publisher = None, ct_loops = [], ct_fresh = 0, ct_modes = mm, ct_snapshot = empty_snapshot\<rparr>"

definition enter_follower_mode :: "cluster_controller \<Rightarrow> cluster_controller" where
  "enter_follower_mode ct = ct\<lparr>ct_live := False\<rparr>"

definition enter_leader_mode :: "cluster_controller \<Rightarrow> cluster_controller" where
  "enter_leader_mode ct = ct\<lparr>ct_live := True\<rparr>"

text \<open>A command of the strategy reaches the devices through the real handler only.\<close>

definition commands_reach :: "cluster_controller \<Rightarrow> bool" where
  "commands_reach ct = (ct_executor ct \<and> ct_live ct)"

definition role :: "cluster_controller \<Rightarrow> election_state" where
  "role ct = el_state (ct_elector ct)"

subsection \<open>Promotion\<close>

text \<open>The modes of the snapshot that are registered and not yet active are added one by one; the result is what is left when one has been added.\<close>

fun sync_modes :: "string list \<Rightarrow> mode_manager \<Rightarrow> mode_manager \<times> string list option" where
  "sync_modes [] mm = (mm, None)"
| "sync_modes (n # ns) mm = (if dict_get (mm_modes mm) n \<noteq> None \<and> n \<notin> set (base_mode_names mm)
     then case add_base_mode mm n None of Inl e \<Rightarrow> sync_modes ns mm | Inr (mm', eff) \<Rightarrow> (mm', Some ns)
     else sync_modes ns mm)"

definition snapshot_modes :: "cluster_snapshot \<Rightarrow> string list" where
  "snapshot_modes n = concat (map (\<lambda>v. case v of PyStr s \<Rightarrow> [s] | _ \<Rightarrow> []) (cs_base_modes n))"

definition elected_returns :: "controller_config \<Rightarrow> bool \<Rightarrow> cluster_controller \<Rightarrow> cluster_controller" where
  "elected_returns cfg ok ct = ct\<lparr>ct_handler := NoHandler, ct_elector := election_step (ctc_cluster cfg) (ElectedReturned ok) (ct_elector ct)\<rparr>"

definition continue_modes :: "controller_config \<Rightarrow> string list \<Rightarrow> cluster_controller \<Rightarrow> cluster_controller" where
  "continue_modes cfg ns ct = (case sync_modes ns (ct_modes ct) of
       (mm, Some rest) \<Rightarrow> ct\<lparr>ct_modes := mm, ct_handler := PromMode rest\<rparr>
     | (mm, None) \<Rightarrow> if ctc_promoted_hook cfg then ct\<lparr>ct_modes := mm, ct_handler := PromHook\<rparr> else elected_returns cfg True (ct\<lparr>ct_modes := mm\<rparr>))"

definition handle_elected :: "controller_config \<Rightarrow> bool \<Rightarrow> cluster_controller \<Rightarrow> cluster_controller" where
  "handle_elected cfg ok ct = (case ct_handler ct of
       PromUnified \<Rightarrow> if ok then ct\<lparr>ct_handler := PromGrace\<rparr> else elected_returns cfg False (ct\<lparr>ct_unified := False\<rparr>)
     | PromGrace \<Rightarrow> (enter_leader_mode ct)\<lparr>ct_publisher := Some (ct_fresh ct), ct_fresh := Suc (ct_fresh ct), ct_handler := PromPublisher\<rparr>
     | PromPublisher \<Rightarrow> if ok then continue_modes cfg (snapshot_modes (ct_snapshot ct)) (case ct_publisher ct of None \<Rightarrow> ct | Some p \<Rightarrow> ct\<lparr>ct_loops := ct_loops ct @ [p]\<rparr>)
         else elected_returns cfg False ct
     | PromMode ns \<Rightarrow> if ok then continue_modes cfg ns ct else elected_returns cfg False ct
     | PromHook \<Rightarrow> elected_returns cfg ok ct
     | _ \<Rightarrow> ct)"

subsection \<open>Demotion\<close>

definition drop_publisher :: "cluster_controller \<Rightarrow> cluster_controller" where
  "drop_publisher ct = (case ct_publisher ct of None \<Rightarrow> ct | Some p \<Rightarrow> ct\<lparr>ct_publisher := None, ct_loops := removeAll p (ct_loops ct)\<rparr>)"

text \<open>\<open>is_running\<close> of the unified manager is reset at the beginning of its stop.\<close>

definition leave_leader_mode :: "cluster_controller \<Rightarrow> cluster_controller" where
  "leave_leader_mode ct = (enter_follower_mode (drop_publisher ct))\<lparr>ct_unified := False, ct_handler := DemUnified\<rparr>"

definition begin_demotion :: "cluster_controller \<Rightarrow> cluster_controller" where
  "begin_demotion ct = (if ct_publisher ct \<noteq> None then ct\<lparr>ct_handler := DemPublisher\<rparr> else leave_leader_mode ct)"

definition handle_demoted :: "controller_config \<Rightarrow> bool \<Rightarrow> cluster_controller \<Rightarrow> cluster_controller" where
  "handle_demoted cfg ok ct = (case ct_handler ct of
       DemPublisher \<Rightarrow> leave_leader_mode ct
     | DemUnified \<Rightarrow> ct\<lparr>ct_handler := (if ok \<and> ctc_demoted_hook cfg then DemHook else NoHandler)\<rparr>
     | DemHook \<Rightarrow> ct\<lparr>ct_handler := NoHandler\<rparr>
     | _ \<Rightarrow> ct)"

subsection \<open>Start, stop and the events in between\<close>

definition called :: "elector \<Rightarrow> elector \<Rightarrow> string \<Rightarrow> bool" where
  "called el el' cb = (el_calls el' = el_calls el @ [cb])"

definition elector_moves :: "controller_config \<Rightarrow> election_event \<Rightarrow> cluster_controller \<Rightarrow> cluster_controller" where
  "elector_moves cfg ev ct = (let el = ct_elector ct; el' = election_step (ctc_cluster cfg) ev el; ct' = ct\<lparr>ct_elector := el'\<rparr> in
     if called el el' ''on_elected'' then ct'\<lparr>ct_unified := True, ct_handler := PromUnified\<rparr>
     else if called el el' ''on_demoted'' then begin_demotion ct' else ct')"

definition cluster_start :: "controller_config \<Rightarrow> bool \<Rightarrow> cluster_controller \<Rightarrow> cluster_controller" where
  "cluster_start cfg ok ct = (let ct1 = enter_follower_mode (ct\<lparr>ct_subscriber := True\<rparr>) in
     if ok then ct1\<lparr>ct_executor := True, ct_elector := election_step (ctc_cluster cfg) Start elector_init\<rparr> else ct1)"

text \<open>The stop of the elector cancels a callback that is under way; a unified manager whose start is cancelled does not run.\<close>

definition cluster_stop :: "controller_config \<Rightarrow> cluster_controller \<Rightarrow> cluster_controller" where
  "cluster_stop cfg ct = (drop_publisher ct)\<lparr>ct_elector := election_step (ctc_cluster cfg) Stop (ct_elector ct), ct_handler := NoHandler, ct_executor := False,
     ct_unified := False, ct_subscriber := False\<rparr>"

datatype cluster_event = ClusterStart bool | ClusterStop | Elect election_event | HandlerDone bool | SnapshotPolled cluster_snapshot

fun outside_event :: "election_event \<Rightarrow> bool" where
  "outside_event Start = False"
| "outside_event Stop = False"
| "outside_event (ElectedReturned ok) = False"
| "outside_event ev = True"

fun cluster_step :: "controller_config \<Rightarrow> cluster_event \<Rightarrow> cluster_controller \<Rightarrow> cluster_controller" where
  "cluster_step cfg (ClusterStart ok) ct = (if ct_subscriber ct then ct else cluster_start cfg ok ct)"
| "cluster_step cfg ClusterStop ct = cluster_stop cfg ct"
| "cluster_step cfg (Elect ev) ct = (if ct_executor ct \<and> outside_event ev then elector_moves cfg ev ct else ct)"
| "cluster_step cfg (HandlerDone ok) ct = handle_demoted cfg ok (handle_elected cfg ok ct)"
| "cluster_step cfg (SnapshotPolled n) ct = (if ct_subscriber ct then ct\<lparr>ct_snapshot := n\<rparr> else ct)"

section \<open>The role and what runs agree\<close>

definition has_loop :: "cluster_controller \<Rightarrow> bool" where
  "has_loop ct = (\<exists>p. ct_publisher ct = Some p \<and> ct_loops ct = [p])"

definition parts_off :: "cluster_controller \<Rightarrow> bool" where
  "parts_off ct = (\<not> ct_unified ct \<and> ct_publisher ct = None \<and> ct_loops ct = [])"

definition electing :: "cluster_controller \<Rightarrow> bool" where
  "electing ct = (case el_campaign (ct_elector ct) of Electing l \<Rightarrow> True | _ \<Rightarrow> False)"

definition phase_inv :: "cluster_controller \<Rightarrow> bool" where
  "phase_inv ct = (case ct_handler ct of
       NoHandler \<Rightarrow> \<not> electing ct \<and> (if role ct = LEADER then el_campaign (ct_elector ct) = LeaderWait \<and> ct_live ct \<and> ct_unified ct \<and> has_loop ct
         else \<not> ct_live ct \<and> parts_off ct)
     | PromUnified \<Rightarrow> electing ct \<and> \<not> ct_live ct \<and> ct_unified ct \<and> ct_publisher ct = None \<and> ct_loops ct = []
     | PromGrace \<Rightarrow> electing ct \<and> \<not> ct_live ct \<and> ct_unified ct \<and> ct_publisher ct = None \<and> ct_loops ct = []
     | PromPublisher \<Rightarrow> electing ct \<and> ct_live ct \<and> ct_unified ct \<and> ct_publisher ct \<noteq> None \<and> ct_loops ct = []
     | PromMode ns \<Rightarrow> electing ct \<and> ct_live ct \<and> ct_unified ct \<and> has_loop ct
     | PromHook \<Rightarrow> electing ct \<and> ct_live ct \<and> ct_unified ct \<and> has_loop ct
     | DemPublisher \<Rightarrow> el_campaign (ct_elector ct) = LeaderWait \<and> role ct = FOLLOWER \<and> ct_live ct \<and> ct_unified ct \<and> has_loop ct
     | DemUnified \<Rightarrow> el_campaign (ct_elector ct) = LeaderWait \<and> role ct = FOLLOWER \<and> \<not> ct_live ct \<and> parts_off ct
     | DemHook \<Rightarrow> el_campaign (ct_elector ct) = LeaderWait \<and> role ct = FOLLOWER \<and> \<not> ct_live ct \<and> parts_off ct)"

definition controller_inv :: "controller_config \<Rightarrow> cluster_controller \<Rightarrow> bool" where
  "controller_inv cfg ct = (elector_inv (ctc_cluster cfg) (ct_elector ct) \<and>
     (if ct_executor ct then ct_subscriber ct \<and> role ct \<noteq> STOPPED \<and> phase_inv ct else ct_handler ct = NoHandler \<and> parts_off ct))"

text \<open>What an event from outside does to the elector.\<close>

lemma elector_elected:
  assumes "outside_event ev" "elector_inv c el" "called el (election_step c ev el) ''on_elected''"
  shows "(\<exists>l. el_campaign el = Txn l) \<and> (\<exists>l. el_campaign (election_step c ev el) = Electing l) \<and> el_state (election_step c ev el) = LEADER"
  using assms
  by (cases ev; cases "el_campaign el"; cases "el_keepalive el")
    (auto simp: election_defs called_def elector_inv_def split: bool.splits option.splits if_splits)

lemma elector_demoted:
  assumes "outside_event ev" "elector_inv c el" "called el (election_step c ev el) ''on_demoted''"
  shows "el_campaign el = LeaderWait \<and> el_state el = LEADER \<and> el_campaign (election_step c ev el) = LeaderWait \<and> el_state (election_step c ev el) = FOLLOWER"
  using assms
  by (cases ev; cases "el_campaign el"; cases "el_keepalive el")
    (auto simp: election_defs called_def elector_inv_def split: bool.splits option.splits if_splits)

lemma elector_quiet:
  assumes "outside_event ev" "elector_inv c el" "el_state el \<noteq> STOPPED"
    "\<not> called el (election_step c ev el) ''on_elected''" "\<not> called el (election_step c ev el) ''on_demoted''"
  shows "el_state (election_step c ev el) \<noteq> STOPPED
    \<and> ((\<exists>l. el_campaign el = Electing l) \<or> el_campaign el = LeaderWait \<longrightarrow> el_campaign (election_step c ev el) = el_campaign el \<and> el_state (election_step c ev el) = el_state el)
    \<and> ((\<exists>l. el_campaign (election_step c ev el) = Electing l) \<longrightarrow> (\<exists>l. el_campaign el = Electing l))
    \<and> (el_state (election_step c ev el) = LEADER \<longrightarrow> el_state el = LEADER)"
  using assms
  by (cases ev; cases "el_campaign el"; cases "el_keepalive el")
    (auto simp: election_defs called_def elector_inv_def split: bool.splits option.splits if_splits)

lemma electing_iff: "electing ct \<longleftrightarrow> (\<exists>l. el_campaign (ct_elector ct) = Electing l)"
  by (cases "el_campaign (ct_elector ct)") (simp_all add: electing_def)

lemma electing_leads: "elector_inv c (ct_elector ct) \<Longrightarrow> electing ct \<Longrightarrow> role ct = LEADER"
  by (auto simp: electing_iff elector_inv_def role_def)

lemma quiet_phase:
  assumes "phase_inv ct" "electing ct \<or> el_campaign (ct_elector ct) = LeaderWait \<Longrightarrow> el_campaign el' = el_campaign (ct_elector ct) \<and> el_state el' = role ct"
    and "\<And>l. el_campaign el' = Electing l \<Longrightarrow> electing ct" "el_state el' = LEADER \<Longrightarrow> role ct = LEADER"
  shows "phase_inv (ct\<lparr>ct_elector := el'\<rparr>)"
proof (cases "electing ct \<or> el_campaign (ct_elector ct) = LeaderWait")
  case True
  note same = assms(2) [OF True]
  have "electing (ct\<lparr>ct_elector := el'\<rparr>) = electing ct" "role (ct\<lparr>ct_elector := el'\<rparr>) = role ct"
    using same by (simp_all add: electing_def role_def)
  moreover have "has_loop (ct\<lparr>ct_elector := el'\<rparr>) = has_loop ct" "parts_off (ct\<lparr>ct_elector := el'\<rparr>) = parts_off ct"
    by (simp_all add: has_loop_def parts_off_def)
  ultimately show ?thesis using assms(1) same by (cases "ct_handler ct") (simp_all add: phase_inv_def)
next
  case False
  then have h: "ct_handler ct = NoHandler" using assms(1) by (cases "ct_handler ct") (simp_all add: phase_inv_def)
  then have "role ct \<noteq> LEADER" "\<not> ct_live ct" "parts_off ct" using assms(1) False by (auto simp: phase_inv_def split: if_splits)
  then show ?thesis
    using h assms(3,4) False by (auto simp: phase_inv_def electing_iff role_def parts_off_def)
qed

lemma moves_inv:
  assumes "cluster_config_valid (ctc_cluster cfg)" "controller_inv cfg ct" "ct_executor ct" "outside_event ev"
  shows "controller_inv cfg (elector_moves cfg ev ct)"
proof -
  let ?el = "ct_elector ct" and ?el' = "election_step (ctc_cluster cfg) ev (ct_elector ct)"
  have inv: "elector_inv (ctc_cluster cfg) ?el" "ct_subscriber ct" "role ct \<noteq> STOPPED" "phase_inv ct"
    using assms(2,3) by (simp_all add: controller_inv_def)
  have inv': "elector_inv (ctc_cluster cfg) ?el'" using elector_inv_step [OF assms(1) inv(1)] .
  show ?thesis
  proof (cases "called ?el ?el' ''on_elected''")
    case True
    note e = elector_elected [OF assms(4) inv(1) True]
    then have "ct_handler ct = NoHandler" "role ct \<noteq> LEADER"
      using inv(4) unfolding phase_inv_def by (auto simp: electing_iff split: handler_pc.splits if_splits)
    then have "\<not> ct_live ct" "parts_off ct" using inv(4) by (simp_all add: phase_inv_def)
    moreover have "elector_moves cfg ev ct = ct\<lparr>ct_elector := ?el', ct_unified := True, ct_handler := PromUnified\<rparr>"
      using True by (simp del: election_step.simps add: elector_moves_def Let_def)
    ultimately show ?thesis
      using e inv' assms(3) inv(2) by (simp del: election_step.simps add: controller_inv_def phase_inv_def electing_iff role_def parts_off_def)
  next
    case False
    note not_elected = this
    show ?thesis
    proof (cases "called ?el ?el' ''on_demoted''")
      case True
      note e = elector_demoted [OF assms(4) inv(1) True]
      then have "ct_handler ct = NoHandler"
        using inv(4) unfolding phase_inv_def by (auto simp: electing_iff role_def split: handler_pc.splits if_splits)
      then have p: "ct_live ct" "ct_unified ct" "has_loop ct" using inv(4) e by (simp_all add: phase_inv_def role_def)
      then have "elector_moves cfg ev ct = ct\<lparr>ct_elector := ?el', ct_handler := DemPublisher\<rparr>"
        using True not_elected by (auto simp: elector_moves_def Let_def begin_demotion_def has_loop_def simp del: election_step.simps)
      then show ?thesis
        using e inv' assms(3) inv(2) p by (simp del: election_step.simps add: controller_inv_def phase_inv_def electing_iff role_def has_loop_def)
    next
      case False
      note q = elector_quiet [OF assms(4) inv(1) inv(3) [unfolded role_def] not_elected False]
      have moved: "elector_moves cfg ev ct = ct\<lparr>ct_elector := ?el'\<rparr>"
        using not_elected False by (simp del: election_step.simps add: elector_moves_def Let_def)
      have "phase_inv (ct\<lparr>ct_elector := ?el'\<rparr>)"
        by (rule quiet_phase [OF inv(4)]) (use q in \<open>auto simp: electing_iff role_def simp del: election_step.simps\<close>)
      then show ?thesis
        using moved inv' inv(2) q assms(3) by (simp del: election_step.simps add: controller_inv_def role_def)
    qed
  qed
qed

lemma returned_inv:
  assumes "cluster_config_valid (ctc_cluster cfg)" "elector_inv (ctc_cluster cfg) (ct_elector ct)" "ct_executor ct" "ct_subscriber ct" "electing ct"
    and "ct_live ct" "ct_unified ct" "has_loop ct"
  shows "controller_inv cfg (elected_returns cfg True ct)"
proof -
  let ?el' = "election_step (ctc_cluster cfg) (ElectedReturned True) (ct_elector ct)"
  obtain l where l: "el_campaign (ct_elector ct) = Electing l" using assms(5) by (auto simp: electing_iff)
  have "el_campaign ?el' = LeaderWait \<and> el_state ?el' = LEADER"
    using l assms(2) by (auto simp: election_defs elector_inv_def split: keepalive_pc.split)
  then show ?thesis
    using elector_inv_step [OF assms(1,2)] assms(3-)
    by (simp del: election_step.simps add: controller_inv_def elected_returns_def phase_inv_def electing_iff role_def has_loop_def)
qed

lemma modes_inv:
  assumes "cluster_config_valid (ctc_cluster cfg)" "elector_inv (ctc_cluster cfg) (ct_elector ct)" "ct_executor ct" "ct_subscriber ct" "electing ct"
    and "ct_live ct" "ct_unified ct" "has_loop ct"
  shows "controller_inv cfg (continue_modes cfg ns ct)"
proof -
  obtain mm r where sm: "sync_modes ns (ct_modes ct) = (mm, r)" by force
  have lead: "el_state (ct_elector ct) = LEADER" using electing_leads [OF assms(2,5)] by (simp add: role_def)
  show ?thesis
  proof (cases r)
    case (Some rest)
    then show ?thesis
      using assms(2-) lead by (simp add: continue_modes_def sm controller_inv_def phase_inv_def electing_iff role_def has_loop_def)
  next
    case None
    show ?thesis
    proof (cases "ctc_promoted_hook cfg")
      case True
      then show ?thesis
        using assms(2-) lead None by (simp add: continue_modes_def sm controller_inv_def phase_inv_def electing_iff role_def has_loop_def)
    next
      case False
      then show ?thesis
        using returned_inv [OF assms(1), of "ct\<lparr>ct_modes := mm\<rparr>"] assms(2-) None
        by (simp add: continue_modes_def sm electing_iff has_loop_def)
    qed
  qed
qed

lemma handler_inv:
  assumes "cluster_config_valid (ctc_cluster cfg)" "controller_inv cfg ct"
  shows "controller_inv cfg (handle_demoted cfg True (handle_elected cfg True ct))"
proof (cases "ct_executor ct")
  case False
  then show ?thesis using assms(2) by (simp add: controller_inv_def handle_elected_def handle_demoted_def)
next
  case True
  have inv: "elector_inv (ctc_cluster cfg) (ct_elector ct)" "ct_subscriber ct" "role ct \<noteq> STOPPED" "phase_inv ct"
    using assms(2) True by (simp_all add: controller_inv_def)
  have later: "handle_demoted cfg True (continue_modes cfg ns c) = continue_modes cfg ns c" for ns c
    by (simp del: election_step.simps add: handle_demoted_def continue_modes_def elected_returns_def split: prod.split option.split)
  show ?thesis
  proof (cases "ct_handler ct")
    case NoHandler
    then show ?thesis using assms(2) by (simp add: handle_elected_def handle_demoted_def)
  next
    case PromUnified
    then show ?thesis
      using inv True by (simp add: handle_elected_def handle_demoted_def controller_inv_def phase_inv_def electing_iff role_def)
  next
    case PromGrace
    then show ?thesis
      using inv True by (simp add: handle_elected_def handle_demoted_def controller_inv_def phase_inv_def electing_iff role_def enter_leader_mode_def)
  next
    case PromPublisher
    then obtain p where p: "ct_publisher ct = Some p" "electing ct" "ct_live ct" "ct_unified ct" "ct_loops ct = []"
      using inv(4) by (auto simp: phase_inv_def)
    then show ?thesis
      using modes_inv [OF assms(1), of "ct\<lparr>ct_loops := [p]\<rparr>"] PromPublisher inv(1,2) True
      by (simp add: handle_elected_def later electing_iff has_loop_def)
  next
    case (PromMode ns)
    then have "electing ct" "ct_live ct" "ct_unified ct" "has_loop ct" using inv(4) by (simp_all add: phase_inv_def)
    then show ?thesis
      using modes_inv [OF assms(1) inv(1) True inv(2)] PromMode by (simp add: handle_elected_def later)
  next
    case PromHook
    then have "electing ct" "ct_live ct" "ct_unified ct" "has_loop ct" using inv(4) by (simp_all add: phase_inv_def)
    then show ?thesis
      using returned_inv [OF assms(1) inv(1) True inv(2)] PromHook by (simp del: election_step.simps add: handle_elected_def handle_demoted_def elected_returns_def)
  next
    case DemPublisher
    then show ?thesis
      using inv True by (auto simp: handle_elected_def handle_demoted_def controller_inv_def phase_inv_def role_def leave_leader_mode_def enter_follower_mode_def
        drop_publisher_def has_loop_def parts_off_def)
  next
    case DemUnified
    then show ?thesis
      using inv True by (simp add: handle_elected_def handle_demoted_def controller_inv_def phase_inv_def role_def parts_off_def electing_def)
  next
    case DemHook
    then show ?thesis
      using inv True by (simp add: handle_elected_def handle_demoted_def controller_inv_def phase_inv_def role_def parts_off_def electing_def)
  qed
qed

lemma controller_step:
  assumes "cluster_config_valid (ctc_cluster cfg) \<and> ev \<noteq> HandlerDone False" "controller_inv cfg ct"
  shows "controller_inv cfg (cluster_step cfg ev ct)"
proof (cases ev)
  case (ClusterStart ok)
  have "elector_inv (ctc_cluster cfg) (election_step (ctc_cluster cfg) Start elector_init)"
    using elector_inv_step elector_inv_init assms(1) by blast
  then show ?thesis
    using assms(2) by (cases ok) (auto simp: ClusterStart cluster_start_def Let_def enter_follower_mode_def controller_inv_def phase_inv_def electing_def role_def
      on_start_def elector_init_def parts_off_def split: if_splits)
next
  case ClusterStop
  have e: "elector_inv (ctc_cluster cfg) (election_step (ctc_cluster cfg) Stop (ct_elector ct))"
    using elector_inv_step assms by (simp add: controller_inv_def del: election_step.simps)
  have "parts_off ((drop_publisher ct)\<lparr>ct_elector := el, ct_handler := NoHandler, ct_executor := False, ct_unified := False, ct_subscriber := False\<rparr>)" for el
    using assms(2) by (cases "ct_handler ct")
      (auto simp: controller_inv_def phase_inv_def drop_publisher_def parts_off_def has_loop_def split: option.split if_splits)
  then show ?thesis
    using e by (simp add: ClusterStop cluster_stop_def controller_inv_def del: election_step.simps)
next
  case (Elect e)
  then show ?thesis using moves_inv assms by simp
next
  case (HandlerDone ok)
  then show ?thesis using handler_inv assms by simp
next
  case (SnapshotPolled n)
  have "phase_inv (ct\<lparr>ct_snapshot := n\<rparr>) = phase_inv ct" "parts_off (ct\<lparr>ct_snapshot := n\<rparr>) = parts_off ct" "role (ct\<lparr>ct_snapshot := n\<rparr>) = role ct"
    by (cases "ct_handler ct") (simp_all add: phase_inv_def has_loop_def parts_off_def electing_def role_def)
  then show ?thesis
    using assms(2) by (auto simp: SnapshotPolled controller_inv_def)
qed

interpretation cluster: step_invariant "cluster_step cfg" "\<lambda>ev. cluster_config_valid (ctc_cluster cfg) \<and> ev \<noteq> HandlerDone False" "controller_inv cfg" for cfg
  by unfold_locales (rule controller_step)

lemma controller_inv_init: "controller_inv cfg (controller_init mm)"
  by (simp add: controller_inv_def controller_init_def elector_inv_init parts_off_def)

lemma live_phase:
  assumes "controller_inv cfg ct" "commands_reach ct"
  shows "(role ct = LEADER \<or> ct_handler ct = DemPublisher) \<and> ct_unified ct"
  using assms electing_leads [of "ctc_cluster cfg" ct]
  by (cases "ct_handler ct") (auto simp: controller_inv_def phase_inv_def commands_reach_def split: if_splits)

lemma settled_phase:
  assumes "controller_inv cfg ct" "ct_executor ct" "ct_handler ct = NoHandler"
  shows "(commands_reach ct \<longleftrightarrow> role ct = LEADER) \<and> (ct_unified ct \<longleftrightarrow> role ct = LEADER) \<and> length (ct_loops ct) = (if role ct = LEADER then 1 else 0)"
  using assms by (auto simp: controller_inv_def phase_inv_def commands_reach_def has_loop_def parts_off_def split: if_splits)


definition demo_controller :: "bool \<Rightarrow> controller_config" where
  "demo_controller hook = \<lparr>ctc_cluster = demo_cluster, ctc_promoted_hook = hook, ctc_demoted_hook = False\<rparr>"

definition demo_modes :: mode_manager where
  "demo_modes = (mm_init False)\<lparr>mm_modes := [(''pq'', \<lparr>md_name = ''pq'', md_strategy = 1, md_priority = 10, md_description = []\<rparr>)]\<rparr>"

definition demo_promotion :: "cluster_event list" where
  "demo_promotion = [ClusterStart True, SnapshotPolled (leader_view demo_share 1 (demo_leader ''pq'')), Elect (LeaseGranted 7), Elect (TxnDone True),
     HandlerDone True, HandlerDone True, HandlerDone True, HandlerDone True]"

definition demo_fencing :: "cluster_event list" where
  "demo_fencing = map Elect (failures 3) @ [HandlerDone True, HandlerDone True]"

definition observed :: "cluster_controller \<Rightarrow> election_state \<times> bool \<times> bool \<times> nat list \<times> string list" where
  "observed ct = (role ct, commands_reach ct, ct_unified ct, ct_loops ct, mm_bases (ct_modes ct))"

lemma demo_promoted: "observed (run_steps (cluster_step (demo_controller False)) demo_promotion (controller_init demo_modes)) = (LEADER, True, True, [0], [''pq''])"
  by code_simp

lemma demo_demoted: "observed (run_steps (cluster_step (demo_controller False)) (demo_promotion @ demo_fencing) (controller_init demo_modes)) = (FOLLOWER, False, False, [], [''pq''])"
  by code_simp


text \<open>When a promotion raises after the switch, the instance goes on as a follower whose commands reach the devices.\<close>

lemma failed_promotion_commands:
  "observed (run_steps (cluster_step (demo_controller False)) ([ClusterStart True, Elect (LeaseGranted 7), Elect (TxnDone True), HandlerDone True, HandlerDone True, HandlerDone False]
     @ map Elect [RetryTimeout, LeaseGranted 8, TxnDone False, LeaderRead (Some ''node1@h''), LeaseRevoked True]) (controller_init demo_modes)) = (FOLLOWER, True, True, [], [])"
  by code_simp

text \<open>And one that is elected again has two publish loops, of which the demotion stops one.\<close>

lemma failed_promotion_leaks_loop:
  "observed (run_steps (cluster_step (demo_controller True)) ([ClusterStart True, Elect (LeaseGranted 7), Elect (TxnDone True), HandlerDone True, HandlerDone True, HandlerDone True, HandlerDone False]
     @ map Elect [RetryTimeout, LeaseGranted 8, TxnDone True] @ replicate 4 (HandlerDone True) @ demo_fencing) (controller_init demo_modes)) = (FOLLOWER, False, False, [0], [])"
  by code_simp

text \<open>The overrides of the old leader are not taken over, whatever the snapshot says.\<close>

lemma sync_modes_overrides: "sync_modes ns mm = (mm', r) \<Longrightarrow> mm_overrides mm' = mm_overrides mm"
proof (induction ns mm rule: sync_modes.induct)
  case (2 n ns mm)
  then show ?case
    by (auto simp: add_base_mode_def switched_def set_source_def split: if_splits sum.splits)
qed simp

lemma overrides_not_taken_over: "mm_overrides (ct_modes (handle_elected cfg ok ct)) = mm_overrides (ct_modes ct)"
  by (auto simp: handle_elected_def continue_modes_def elected_returns_def enter_leader_mode_def
    dest: sync_modes_overrides split: handler_pc.split option.split prod.split)

end
