(* ===== verification/Orchestrator.thy ===== *)
theory Orchestrator
  imports Device_Registry
begin

text \<open>
  System commands (\<open>csp_lib/integration/orchestrator.py\<close>): sequences of steps over groups of devices, with delays before a step and a check after it that
  polls the devices until they are ready. The registry as a step finds it, the answers of the devices and their attributes at every poll are arguments.
  The loop of a check may never end, which is the value \<open>None\<close>. The log holds the calls and the sleeps in order; a step calls its devices side by side. The number in a default description is left out.
\<close>

record step_check =
  sc_trait :: "string option"
  sc_device_ids :: "string list option"
  sc_check :: string
  sc_timeout :: rat
  sc_poll_interval :: rat

record command_step =
  st_action :: string
  st_trait :: "string option"
  st_device_ids :: "string list option"
  st_params :: "(string \<times> pyval) list"
  st_delay_before :: rat
  st_check_after :: "step_check option"
  st_description :: string

record system_command =
  sq_name :: string
  sq_steps :: "command_step list"

datatype step_status = STEP_SUCCESS | STEP_FAILED | STEP_CHECK_FAILED

record step_result =
  sp_step_index :: nat
  sp_description :: string
  sp_status :: step_status
  sp_device_results :: "(string \<times> string) list"
  sp_check_passed :: "bool option"

record command_result =
  sx_command_name :: string
  sx_success :: bool
  sx_step_results :: "step_result list"
  sx_aborted_at_step :: "nat option"

text \<open>What \<open>execute_action\<close> does: it answers with a status and an error message, with something else, raises or is cancelled.\<close>

datatype action_answer = AnswerStatus string string | AnswerOther | AnswerRaised string | AnswerCancelled

datatype orch_event = Slept rat | Called nat nat string

record orch_env =
  oe_registry :: "nat \<Rightarrow> registry"
  oe_store :: device_store
  oe_actionable :: "nat \<Rightarrow> bool"
  oe_answer :: "nat \<Rightarrow> nat \<Rightarrow> action_answer"
  oe_attribute :: "nat \<Rightarrow> nat \<Rightarrow> nat \<Rightarrow> string \<Rightarrow> bool"

record orchestrator =
  oc_commands :: "(string \<times> system_command) list"
  oc_last_result :: "bool option"
  oc_last_executed :: "rat option"
  oc_total_executions :: nat
  oc_total_aborts :: nat

definition orchestrator_init :: orchestrator where
  "orchestrator_init = \<lparr>oc_commands = [], oc_last_result = None, oc_last_executed = None, oc_total_executions = 0, oc_total_aborts = 0\<rparr>"

definition orch_register :: "system_command \<Rightarrow> orchestrator \<Rightarrow> orchestrator" where
  "orch_register c oc = oc\<lparr>oc_commands := dict_set (sq_name c) c (oc_commands oc)\<rparr>"

definition orch_unregister :: "string \<Rightarrow> orchestrator \<Rightarrow> orchestrator" where
  "orch_unregister n oc = oc\<lparr>oc_commands := dict_del n (oc_commands oc)\<rparr>"

definition orch_registered :: "orchestrator \<Rightarrow> string list" where
  "orch_registered oc = sort (dict_keys (oc_commands oc))"

definition orch_degraded :: "orchestrator \<Rightarrow> bool" where
  "orch_degraded oc = (oc_last_result oc = Some False)"

definition orch_record :: "bool \<Rightarrow> rat \<Rightarrow> orchestrator \<Rightarrow> orchestrator" where
  "orch_record ok now oc = oc\<lparr>oc_total_executions := oc_total_executions oc + 1, oc_total_aborts := oc_total_aborts oc + (if ok then 0 else 1),
     oc_last_executed := Some now, oc_last_result := Some ok\<rparr>"

section \<open>One step\<close>

fun known_devices :: "registry \<Rightarrow> string list \<Rightarrow> nat list" where
  "known_devices rg [] = []"
| "known_devices rg (did # dids) = (case get_device rg did of None \<Rightarrow> known_devices rg dids | Some d \<Rightarrow> d # known_devices rg dids)"

definition resolve_devices :: "registry \<Rightarrow> string option \<Rightarrow> string list option \<Rightarrow> nat list res" where
  "resolve_devices rg t ids = (case t of Some x \<Rightarrow> get_devices_by_trait rg x
     | None \<Rightarrow> (case ids of Some dids \<Rightarrow> Inr (known_devices rg dids) | None \<Rightarrow> Inr []))"

text \<open>The result of a device, and whether it is a failure. A cancellation is not an \<open>Exception\<close> in Python.\<close>

definition device_result :: "action_answer \<Rightarrow> string \<times> bool" where
  "device_result a = (case a of
       AnswerRaised e \<Rightarrow> (e, True)
     | AnswerStatus s e \<Rightarrow> if s = ''success'' \<or> s = ''write_success'' then (''success'', False) else (if e = [] then s else e, True)
     | _ \<Rightarrow> (''success'', False))"

definition step_results_of :: "orch_env \<Rightarrow> nat \<Rightarrow> nat list \<Rightarrow> (string \<times> string) list" where
  "step_results_of env i devs =
     fold (\<lambda>d. dict_set (dev_id (oe_store env d)) (fst (device_result (oe_answer env i d)))) (filter (oe_actionable env) devs)
       (fold (\<lambda>d. dict_set (dev_id (oe_store env d)) ''action not supported'') (filter (\<lambda>d. \<not> oe_actionable env d) devs) [])"

definition all_have :: "orch_env \<Rightarrow> nat \<Rightarrow> nat \<Rightarrow> nat list \<Rightarrow> string \<Rightarrow> bool" where
  "all_have env i n devs attr = list_all (\<lambda>d. oe_attribute env i n d attr) devs"

text \<open>The polls of a check: whether it has passed and how often it has slept.\<close>

partial_function (option) check_loop :: "(nat \<Rightarrow> bool) \<Rightarrow> rat \<Rightarrow> rat \<Rightarrow> nat \<Rightarrow> rat \<Rightarrow> (bool \<times> nat) option" where
  "check_loop ready timeout interval n elapsed =
     (if elapsed < timeout then if ready n then Some (True, n) else check_loop ready timeout interval (Suc n) (elapsed + interval)
      else Some (ready n, n))"

definition run_check :: "orch_env \<Rightarrow> nat \<Rightarrow> step_check \<Rightarrow> (bool \<times> nat) res option" where
  "run_check env i c = (case resolve_devices (oe_registry env i) (sc_trait c) (sc_device_ids c) of
       Inl e \<Rightarrow> Some (Inl e)
     | Inr devs \<Rightarrow> if devs = [] then Some (Inr (True, 0))
         else map_option Inr (check_loop (\<lambda>n. all_have env i n devs (sc_check c)) (sc_timeout c) (sc_poll_interval c) 0 0))"

definition step_result_init :: "nat \<Rightarrow> command_step \<Rightarrow> step_result" where
  "step_result_init i st = \<lparr>sp_step_index = i, sp_description = (if st_description st = [] then st_action st else st_description st), sp_status = STEP_FAILED,
     sp_device_results = [], sp_check_passed = None\<rparr>"

definition execute_step :: "orch_env \<Rightarrow> nat \<Rightarrow> command_step \<Rightarrow> (step_result res \<times> orch_event list) option" where
  "execute_step env i st =
     (let slept = (if st_delay_before st > 0 then [Slept (st_delay_before st)] else []); r = step_result_init i st in
      case resolve_devices (oe_registry env i) (st_trait st) (st_device_ids st) of
        Inl e \<Rightarrow> Some (Inl e, slept)
      | Inr [] \<Rightarrow> Some (Inr r, slept)
      | Inr devs \<Rightarrow>
          (let able = filter (oe_actionable env) devs; calls = slept @ map (\<lambda>d. Called i d (st_action st)) able;
               r1 = r\<lparr>sp_device_results := step_results_of env i devs\<rparr> in
           if list_ex (\<lambda>d. snd (device_result (oe_answer env i d))) able then Some (Inr r1, calls)
           else case st_check_after st of
             None \<Rightarrow> Some (Inr (r1\<lparr>sp_status := STEP_SUCCESS\<rparr>), calls)
           | Some c \<Rightarrow> (case run_check env i c of
               None \<Rightarrow> None
             | Some (Inl e) \<Rightarrow> Some (Inl e, calls)
             | Some (Inr (ok, n)) \<Rightarrow> Some (Inr (r1\<lparr>sp_status := (if ok then STEP_SUCCESS else STEP_CHECK_FAILED), sp_check_passed := Some ok\<rparr>),
                 calls @ replicate n (Slept (sc_poll_interval c))))))"

section \<open>A command\<close>

fun execute_steps :: "orch_env \<Rightarrow> nat \<Rightarrow> command_step list \<Rightarrow> (step_result list res \<times> orch_event list) option" where
  "execute_steps env i [] = Some (Inr [], [])"
| "execute_steps env i (st # sts) = (case execute_step env i st of
       None \<Rightarrow> None
     | Some (Inl e, lg) \<Rightarrow> Some (Inl e, lg)
     | Some (Inr r, lg) \<Rightarrow> if sp_status r \<noteq> STEP_SUCCESS then Some (Inr [r], lg)
         else (case execute_steps env (Suc i) sts of
             None \<Rightarrow> None
           | Some (Inl e, lg') \<Rightarrow> Some (Inl e, lg @ lg')
           | Some (Inr rs, lg') \<Rightarrow> Some (Inr (r # rs), lg @ lg')))"

definition all_succeed :: "step_result list \<Rightarrow> bool" where
  "all_succeed rs = list_all (\<lambda>r. sp_status r = STEP_SUCCESS) rs"

definition orch_execute :: "orch_env \<Rightarrow> rat \<Rightarrow> string \<Rightarrow> orchestrator \<Rightarrow> (command_result res \<times> orch_event list \<times> orchestrator) option" where
  "orch_execute env now name oc = (case dict_get (oc_commands oc) name of
       None \<Rightarrow> Some (Inl KeyError, [], oc)
     | Some c \<Rightarrow> (case execute_steps env 0 (sq_steps c) of
         None \<Rightarrow> None
       | Some (Inl e, lg) \<Rightarrow> Some (Inl e, lg, oc)
       | Some (Inr rs, lg) \<Rightarrow> Some (Inr \<lparr>sx_command_name = name, sx_success = all_succeed rs, sx_step_results = rs,
             sx_aborted_at_step = (if all_succeed rs then None else Some (length rs - 1))\<rparr>, lg, orch_record (all_succeed rs) now oc)))"

definition execute_from_dict :: "orch_env \<Rightarrow> rat \<Rightarrow> (string \<times> string) list \<Rightarrow> orchestrator \<Rightarrow> (command_result res \<times> orch_event list \<times> orchestrator) option" where
  "execute_from_dict env now data oc =
     orch_execute env now (if dict_get_or data ''command_name'' [] \<noteq> [] then dict_get_or data ''command_name'' [] else dict_get_or data ''system_command'' []) oc"

section \<open>Checks end\<close>

lemma check_loop_exact:
  assumes "0 < interval" "elapsed = of_nat n * interval"
  shows "\<exists>m. check_loop ready timeout interval n elapsed = Some (\<exists>k\<ge>n. k \<le> max n (nat \<lceil>timeout / interval\<rceil>) \<and> ready k, m) \<and> n \<le> m \<and> m \<le> max n (nat \<lceil>timeout / interval\<rceil>)"
  using assms(2)
proof (induction "nat \<lceil>timeout / interval\<rceil> - n" arbitrary: n elapsed rule: less_induct)
  case less
  let ?N = "nat \<lceil>timeout / interval\<rceil>"
  show ?case
  proof (cases "elapsed < timeout")
    case False
    then have "timeout / interval \<le> of_nat n" using assms(1) less.prems by (simp add: pos_divide_le_eq)
    then have "?N \<le> n" by (simp add: ceiling_le_iff nat_le_iff)
    then have mx: "max n ?N = n" by simp
    have "check_loop ready timeout interval n elapsed = Some (ready n, n)" using False by (subst check_loop.simps) simp
    moreover have "(\<exists>k\<ge>n. k \<le> n \<and> ready k) = ready n" using le_antisym by blast
    ultimately show ?thesis unfolding mx by simp
  next
    case True
    then have "of_nat n < timeout / interval" using assms(1) less.prems by (simp add: pos_less_divide_eq)
    then have "int n < \<lceil>timeout / interval\<rceil>" by (simp add: less_ceiling_iff)
    then have less_N: "n < ?N" by simp
    show ?thesis
    proof (cases "ready n")
      case True
      then have "check_loop ready timeout interval n elapsed = Some (True, n)" using \<open>elapsed < timeout\<close> by (subst check_loop.simps) simp
      then show ?thesis using True by auto
    next
      case False
      have step: "check_loop ready timeout interval n elapsed = check_loop ready timeout interval (Suc n) (elapsed + interval)"
        using True False by (subst check_loop.simps) simp
      have lt: "?N - Suc n < ?N - n" using less_N by linarith
      have eq: "elapsed + interval = of_nat (Suc n) * interval" using less.prems by (simp add: algebra_simps)
      obtain m where m: "check_loop ready timeout interval (Suc n) (elapsed + interval) = Some (\<exists>k\<ge>Suc n. k \<le> max (Suc n) ?N \<and> ready k, m)" "Suc n \<le> m" "m \<le> max (Suc n) ?N"
        using less.hyps [OF lt eq] by blast
      have mx: "max (Suc n) ?N = ?N" "max n ?N = ?N" using less_N by simp_all
      have same: "(\<exists>k\<ge>Suc n. k \<le> ?N \<and> ready k) = (\<exists>k\<ge>n. k \<le> ?N \<and> ready k)"
        using False Suc_leD by (auto simp: Suc_le_eq order.strict_iff_order)
      show ?thesis
        using m(1) Suc_leD [OF m(2)] m(3) unfolding step mx same by simp
    qed
  qed
qed

definition polls_of :: "step_check \<Rightarrow> nat" where
  "polls_of c = nat \<lceil>sc_timeout c / sc_poll_interval c\<rceil>"

definition check_ok :: "orch_env \<Rightarrow> nat \<Rightarrow> step_check \<Rightarrow> bool" where
  "check_ok env i c = (case resolve_devices (oe_registry env i) (sc_trait c) (sc_device_ids c) of Inl e \<Rightarrow> False
     | Inr devs \<Rightarrow> devs = [] \<or> (\<exists>k\<le>polls_of c. all_have env i k devs (sc_check c)))"

lemma run_check_exact:
  assumes "0 < sc_poll_interval c" "resolve_devices (oe_registry env i) (sc_trait c) (sc_device_ids c) = Inr devs"
  shows "\<exists>n\<le>polls_of c. run_check env i c = Some (Inr (check_ok env i c, n))"
proof (cases "devs = []")
  case True
  then show ?thesis using assms(2) by (auto simp: run_check_def check_ok_def)
next
  case False
  have start: "0 = of_nat 0 * sc_poll_interval c" by simp
  obtain m where "check_loop (\<lambda>n. all_have env i n devs (sc_check c)) (sc_timeout c) (sc_poll_interval c) 0 0
      = Some (\<exists>k\<ge>0. k \<le> max 0 (polls_of c) \<and> all_have env i k devs (sc_check c), m)" "m \<le> max 0 (polls_of c)"
    using check_loop_exact [OF assms(1) start, of "\<lambda>n. all_have env i n devs (sc_check c)" "sc_timeout c"] unfolding polls_of_def by blast
  then show ?thesis using False assms(2) by (auto simp: run_check_def check_ok_def)
qed

section \<open>What a command does\<close>

definition devices_answer :: "orch_env \<Rightarrow> nat \<Rightarrow> nat list \<Rightarrow> bool" where
  "devices_answer env i devs = list_all (\<lambda>d. oe_actionable env d \<longrightarrow> \<not> snd (device_result (oe_answer env i d))) devs"

definition step_ok :: "orch_env \<Rightarrow> nat \<Rightarrow> command_step \<Rightarrow> bool" where
  "step_ok env i st = (case resolve_devices (oe_registry env i) (st_trait st) (st_device_ids st) of Inl e \<Rightarrow> False
     | Inr devs \<Rightarrow> devs \<noteq> [] \<and> devices_answer env i devs \<and> (case st_check_after st of None \<Rightarrow> True | Some c \<Rightarrow> check_ok env i c))"

definition step_calls :: "orch_env \<Rightarrow> nat \<Rightarrow> command_step \<Rightarrow> orch_event list" where
  "step_calls env i st = (case resolve_devices (oe_registry env i) (st_trait st) (st_device_ids st) of Inl e \<Rightarrow> []
     | Inr devs \<Rightarrow> map (\<lambda>d. Called i d (st_action st)) (filter (oe_actionable env) devs))"

definition runnable :: "orch_env \<Rightarrow> nat \<Rightarrow> command_step \<Rightarrow> bool" where
  "runnable env i st = ((\<exists>devs. resolve_devices (oe_registry env i) (st_trait st) (st_device_ids st) = Inr devs)
     \<and> (case st_check_after st of None \<Rightarrow> True | Some c \<Rightarrow> 0 < sc_poll_interval c \<and> (\<exists>devs. resolve_devices (oe_registry env i) (sc_trait c) (sc_device_ids c) = Inr devs)))"

fun all_runnable :: "orch_env \<Rightarrow> nat \<Rightarrow> command_step list \<Rightarrow> bool" where
  "all_runnable env i [] = True"
| "all_runnable env i (st # sts) = (runnable env i st \<and> all_runnable env (Suc i) sts)"

text \<open>The specification: steps are done until one is not in order; the devices of that one are still called.\<close>

fun planned_calls :: "orch_env \<Rightarrow> nat \<Rightarrow> command_step list \<Rightarrow> orch_event list" where
  "planned_calls env i [] = []"
| "planned_calls env i (st # sts) = step_calls env i st @ (if step_ok env i st then planned_calls env (Suc i) sts else [])"

fun first_failing :: "orch_env \<Rightarrow> nat \<Rightarrow> command_step list \<Rightarrow> nat option" where
  "first_failing env i [] = None"
| "first_failing env i (st # sts) = (if step_ok env i st then first_failing env (Suc i) sts else Some i)"

definition calls_in :: "orch_event list \<Rightarrow> orch_event list" where
  "calls_in lg = filter (\<lambda>e. case e of Called i d a \<Rightarrow> True | Slept t \<Rightarrow> False) lg"

lemma calls_in_simps [simp]: "calls_in [] = []" "calls_in (xs @ ys) = calls_in xs @ calls_in ys" "calls_in (map (\<lambda>d. Called i d a) ds) = map (\<lambda>d. Called i d a) ds"
  "calls_in [Slept t] = []" "calls_in (replicate n (Slept t)) = []"
  by (simp_all add: calls_in_def filter_map o_def)

fun slept_time :: "orch_event list \<Rightarrow> rat" where
  "slept_time [] = 0"
| "slept_time (Slept t # lg) = t + slept_time lg"
| "slept_time (Called i d a # lg) = slept_time lg"

lemma slept_time_append [simp]: "slept_time (xs @ ys) = slept_time xs + slept_time ys"
  by (induction xs rule: slept_time.induct) simp_all

lemma slept_time_calls [simp]: "slept_time (map (\<lambda>d. Called i d a) ds) = 0"
  by (induction ds) simp_all

lemma slept_time_replicate [simp]: "slept_time (replicate n (Slept t)) = of_nat n * t"
  by (induction n) (simp_all add: algebra_simps)

definition step_budget :: "command_step \<Rightarrow> rat" where
  "step_budget st = max 0 (st_delay_before st) + (case st_check_after st of None \<Rightarrow> 0 | Some c \<Rightarrow> max 0 (sc_timeout c) + \<bar>sc_poll_interval c\<bar>)"

lemma polls_budget:
  assumes "0 < sc_poll_interval c" "n \<le> polls_of c"
  shows "of_nat n * sc_poll_interval c \<le> max 0 (sc_timeout c) + \<bar>sc_poll_interval c\<bar>"
proof -
  let ?q = "sc_timeout c / sc_poll_interval c"
  have "of_nat (polls_of c) \<le> max 0 (?q + 1)"
    unfolding polls_of_def using ceiling_correct [of ?q] by (cases "0 \<le> \<lceil>?q\<rceil>") auto
  also have "\<dots> \<le> max 0 ?q + 1" by simp
  finally have "of_nat n \<le> max 0 ?q + 1" using assms(2) of_nat_mono [of n "polls_of c"] by (metis order_trans)
  then have "of_nat n * sc_poll_interval c \<le> (max 0 ?q + 1) * sc_poll_interval c" using assms(1) by (simp add: mult_right_mono)
  also have "\<dots> = max 0 (sc_timeout c) + sc_poll_interval c"
    using assms(1) by (cases "0 \<le> sc_timeout c") (simp_all add: algebra_simps max_def zero_le_divide_iff)
  finally show ?thesis using assms(1) by simp
qed

lemma answers_iff: "list_ex (\<lambda>d. snd (device_result (oe_answer env i d))) (filter (oe_actionable env) devs) \<longleftrightarrow> \<not> devices_answer env i devs"
  by (induction devs) (auto simp: devices_answer_def)

lemma execute_step_exact:
  assumes "runnable env i st"
  shows "\<exists>r lg. execute_step env i st = Some (Inr r, lg) \<and> (sp_status r = STEP_SUCCESS \<longleftrightarrow> step_ok env i st) \<and> sp_step_index r = i
    \<and> calls_in lg = step_calls env i st \<and> slept_time lg \<le> step_budget st"
proof -
  obtain devs where devs: "resolve_devices (oe_registry env i) (st_trait st) (st_device_ids st) = Inr devs" using assms by (auto simp: runnable_def)
  define slept where "slept = (if st_delay_before st > 0 then [Slept (st_delay_before st)] else [])"
  have sl: "slept_time slept = max 0 (st_delay_before st)" "calls_in slept = []" by (simp_all add: slept_def)
  have rest: "0 \<le> (case st_check_after st of None \<Rightarrow> 0 | Some c \<Rightarrow> max 0 (sc_timeout c) + \<bar>sc_poll_interval c\<bar>)" by (simp split: option.split)
  let ?r = "(step_result_init i st)\<lparr>sp_device_results := step_results_of env i devs\<rparr>" and ?able = "filter (oe_actionable env) devs"
  let ?calls = "slept @ map (\<lambda>d. Called i d (st_action st)) ?able"
  have c: "calls_in ?calls = step_calls env i st" "slept_time ?calls = max 0 (st_delay_before st)"
    using sl by (simp_all add: step_calls_def devs)
  consider (none) "devs = []" | (refused) "devs \<noteq> []" "\<not> devices_answer env i devs" | (plain) "devs \<noteq> []" "devices_answer env i devs" "st_check_after st = None"
    | (checked) c where "devs \<noteq> []" "devices_answer env i devs" "st_check_after st = Some c"
    by (cases "st_check_after st") blast+
  then show ?thesis
  proof cases
    case none
    have "execute_step env i st = Some (Inr (step_result_init i st), slept)" using devs none by (simp add: execute_step_def slept_def Let_def)
    then show ?thesis using sl rest devs none by (simp add: step_result_init_def step_ok_def step_calls_def step_budget_def)
  next
    case refused
    then have "execute_step env i st = Some (Inr ?r, ?calls)"
      using devs by (cases devs) (simp_all add: execute_step_def slept_def Let_def answers_iff [symmetric])
    then show ?thesis using c rest devs refused by (simp add: step_result_init_def step_ok_def step_budget_def)
  next
    case plain
    then have "execute_step env i st = Some (Inr (?r\<lparr>sp_status := STEP_SUCCESS\<rparr>), ?calls)"
      using devs answers_iff [of env i devs] by (cases devs) (simp_all add: execute_step_def slept_def Let_def)
    then show ?thesis using c rest devs plain by (simp add: step_result_init_def step_ok_def step_budget_def)
  next
    case (checked ck)
    obtain cd where cd: "0 < sc_poll_interval ck" "resolve_devices (oe_registry env i) (sc_trait ck) (sc_device_ids ck) = Inr cd"
      using assms checked(3) by (auto simp: runnable_def)
    obtain n where n: "n \<le> polls_of ck" "run_check env i ck = Some (Inr (check_ok env i ck, n))" using run_check_exact [OF cd] by blast
    have "execute_step env i st = Some (Inr (?r\<lparr>sp_status := (if check_ok env i ck then STEP_SUCCESS else STEP_CHECK_FAILED), sp_check_passed := Some (check_ok env i ck)\<rparr>),
        ?calls @ replicate n (Slept (sc_poll_interval ck)))"
      using devs checked answers_iff [of env i devs] n by (cases devs) (simp_all add: execute_step_def slept_def Let_def)
    then show ?thesis using c rest devs checked polls_budget [OF cd(1) n(1)] by (simp add: step_result_init_def step_ok_def step_budget_def)
  qed
qed

lemma execute_steps_exact:
  assumes "all_runnable env i sts"
  shows "\<exists>rs lg. execute_steps env i sts = Some (Inr rs, lg) \<and> calls_in lg = planned_calls env i sts \<and> slept_time lg \<le> sum_list (map step_budget sts)
    \<and> (case first_failing env i sts of None \<Rightarrow> all_succeed rs \<and> length rs = length sts | Some k \<Rightarrow> \<not> all_succeed rs \<and> rs \<noteq> [] \<and> k = i + (length rs - 1))"
  using assms
proof (induction sts arbitrary: i)
  case Nil
  then show ?case by (simp add: all_succeed_def)
next
  case (Cons st sts)
  obtain r lg where r: "execute_step env i st = Some (Inr r, lg)" "(sp_status r = STEP_SUCCESS) = step_ok env i st" "calls_in lg = step_calls env i st" "slept_time lg \<le> step_budget st"
    using execute_step_exact [of env i st] Cons.prems by auto
  have pos: "0 \<le> sum_list (map step_budget sts)"
    by (induction sts) (simp_all add: step_budget_def split: option.split)
  obtain rs lg' where rs: "execute_steps env (Suc i) sts = Some (Inr rs, lg')" "calls_in lg' = planned_calls env (Suc i) sts" "slept_time lg' \<le> sum_list (map step_budget sts)"
    "case first_failing env (Suc i) sts of None \<Rightarrow> all_succeed rs \<and> length rs = length sts | Some k \<Rightarrow> \<not> all_succeed rs \<and> rs \<noteq> [] \<and> k = Suc i + (length rs - 1)"
    using Cons.IH [of "Suc i"] Cons.prems by auto
  show ?case
  proof (cases "step_ok env i st")
    case False
    then show ?thesis using r pos by (simp add: all_succeed_def)
  next
    case True
    then have "execute_steps env i (st # sts) = Some (Inr (r # rs), lg @ lg')" using r rs(1) by simp
    moreover have "case first_failing env i (st # sts) of None \<Rightarrow> all_succeed (r # rs) \<and> length (r # rs) = length (st # sts)
        | Some k \<Rightarrow> \<not> all_succeed (r # rs) \<and> r # rs \<noteq> [] \<and> k = i + (length (r # rs) - 1)"
      using True r(2) rs(4) by (auto simp: all_succeed_def split: option.splits)
    ultimately show ?thesis using True r rs(2,3) by simp
  qed
qed


definition demo_orch_env :: "(nat \<Rightarrow> nat \<Rightarrow> action_answer) \<Rightarrow> (nat \<Rightarrow> bool) \<Rightarrow> orch_env" where
  "demo_orch_env ans able = \<lparr>oe_registry = (\<lambda>i. registry_init\<lparr>rg_devices := [(''m'', 0), (''p'', 1)]\<rparr>),
     oe_store = (\<lambda>d. \<lparr>dev_id = (if d = 0 then ''m'' else ''p''), dev_protected = False, dev_responsive = True, dev_capabilities = []\<rparr>),
     oe_actionable = able, oe_answer = ans, oe_attribute = (\<lambda>i n d a. n \<ge> 2)\<rparr>"

definition demo_step :: "string list \<Rightarrow> step_check option \<Rightarrow> command_step" where
  "demo_step ids ck = \<lparr>st_action = ''start'', st_trait = None, st_device_ids = Some ids, st_params = [], st_delay_before = 1, st_check_after = ck, st_description = []\<rparr>"

definition demo_check :: "rat \<Rightarrow> rat \<Rightarrow> step_check" where
  "demo_check timeout interval = \<lparr>sc_trait = None, sc_device_ids = Some [''m''], sc_check = ''is_responsive'', sc_timeout = timeout, sc_poll_interval = interval\<rparr>"

definition demo_orch :: orchestrator where
  "demo_orch = orch_register \<lparr>sq_name = ''go'', sq_steps = [demo_step [''m''] (Some (demo_check 1 (1 / 2))), demo_step [''p''] None]\<rparr> orchestrator_init"


section \<open>What a command does not do\<close>

text \<open>With no wait between polls, a check of devices that are not ready never ends.\<close>

lemma check_never_ends:
  assumes "interval \<le> 0" "elapsed < timeout" "\<forall>n. \<not> ready n"
  shows "check_loop ready timeout interval n elapsed = None"
proof -
  have "interval \<le> 0 \<longrightarrow> elapsed < timeout \<longrightarrow> (\<forall>n. \<not> ready n) \<longrightarrow> False" if "check_loop ready timeout interval n elapsed = Some y" for y
    using that
  proof (rule check_loop.raw_induct [where P = "\<lambda>ready timeout interval n elapsed y. interval \<le> 0 \<longrightarrow> elapsed < timeout \<longrightarrow> (\<forall>n. \<not> ready n) \<longrightarrow> False", rotated])
    fix loop :: "(nat \<Rightarrow> bool) \<Rightarrow> rat \<Rightarrow> rat \<Rightarrow> nat \<Rightarrow> rat \<Rightarrow> (bool \<times> nat) option" and ready timeout interval n elapsed y
    assume ih: "\<And>ready timeout interval n elapsed y. loop ready timeout interval n elapsed = Some y \<Longrightarrow> interval \<le> 0 \<longrightarrow> elapsed < timeout \<longrightarrow> (\<forall>n. \<not> ready n) \<longrightarrow> False"
      and step: "(if elapsed < timeout then if ready n then Some (True, n) else loop ready timeout interval (Suc n) (elapsed + interval) else Some (ready n, n)) = Some y"
    show "interval \<le> 0 \<longrightarrow> elapsed < timeout \<longrightarrow> (\<forall>n. \<not> ready n) \<longrightarrow> False"
    proof (intro impI)
      assume "interval \<le> 0" "elapsed < timeout" "\<forall>n. \<not> ready n"
      then show False using ih [of ready timeout interval "Suc n" "elapsed + interval" y] step by auto
    qed
  qed
  then show ?thesis using assms by (cases "check_loop ready timeout interval n elapsed") auto
qed

text \<open>Devices without actions and cancelled actions count as done: a command succeeds with no device started.\<close>

definition demo_start :: command_step where
  "demo_start = demo_step [''m''] None"

lemma unsupported_succeeds:
  "map_option (\<lambda>(r, lg). (case r of Inr x \<Rightarrow> sp_status x | _ \<Rightarrow> STEP_FAILED, lg)) (execute_step (demo_orch_env (\<lambda>i d. AnswerOther) (\<lambda>d. False)) 0 demo_start) = Some (STEP_SUCCESS, [Slept 1])"
  by (simp add: execute_step_def demo_start_def demo_step_def demo_orch_env_def resolve_devices_def get_device_def step_result_init_def)

lemma cancelled_succeeds:
  "map_option (\<lambda>(r, lg). (case r of Inr x \<Rightarrow> (sp_status x, sp_device_results x) | _ \<Rightarrow> (STEP_FAILED, []))) (execute_step (demo_orch_env (\<lambda>i d. AnswerCancelled) (\<lambda>d. True)) 0 demo_start)
   = Some (STEP_SUCCESS, [(''m'', ''success'')])"
  by (simp add: execute_step_def demo_start_def demo_step_def demo_orch_env_def resolve_devices_def get_device_def step_result_init_def step_results_of_def device_result_def)

text \<open>A device of a step that the registry does not know is left out, and the step succeeds without it.\<close>

lemma missing_device_succeeds:
  "map_option (\<lambda>(r, lg). (case r of Inr x \<Rightarrow> sp_status x | _ \<Rightarrow> STEP_FAILED, calls_in lg)) (execute_step (demo_orch_env (\<lambda>i d. AnswerOther) (\<lambda>d. True)) 0 (demo_step [''m'', ''x''] None))
   = Some (STEP_SUCCESS, [Called 0 0 ''start''])"
  by (simp add: execute_step_def demo_step_def demo_orch_env_def resolve_devices_def get_device_def step_result_init_def device_result_def calls_in_def)

end
