(* ===== verification/Can_Device.thy ===== *)
theory Can_Device
  imports Modbus_Device Can_Frames Resilience Command_Core
begin

text \<open>
  The CAN device (\<open>equipment/device/can_device.py\<close>) with its periodic sender (\<open>equipment/transport/periodic_sender.py\<close>) and the client it listens with
  (\<open>can/clients/python_can.py\<close>). What the bus answers and the clock are arguments, what the device emits is a log. The frame buffer and the parser are those of
  \<open>Can_Frames\<close>, alarms and events those of the Modbus device. A handler, a pending request and a task are their numbers.
\<close>

section \<open>The periodic sender\<close>

record periodic_sender =
  psn_configs :: "(int \<times> rat \<times> bool) list"
  psn_tasks :: "int list"
  psn_paused :: "int list"
  psn_running :: bool

definition periodic_init :: "(int \<times> rat \<times> bool) list \<Rightarrow> periodic_sender" where
  "periodic_init cfgs = \<lparr>psn_configs = dict_build cfgs, psn_tasks = [], psn_paused = [], psn_running = False\<rparr>"

definition periodic_start :: "periodic_sender \<Rightarrow> periodic_sender" where
  "periodic_start p = (if psn_running p then p
     else p\<lparr>psn_running := True, psn_tasks := fold (\<lambda>(i, c). if snd c then List.insert i else id) (psn_configs p) (psn_tasks p)\<rparr>)"

definition periodic_stop :: "periodic_sender \<Rightarrow> periodic_sender" where
  "periodic_stop p = (if psn_running p then p\<lparr>psn_running := False, psn_tasks := []\<rparr> else p)"

definition periodic_pause :: "int \<Rightarrow> periodic_sender \<Rightarrow> periodic_sender" where
  "periodic_pause i p = p\<lparr>psn_paused := List.insert i (psn_paused p)\<rparr>"

definition periodic_resume :: "int \<Rightarrow> periodic_sender \<Rightarrow> periodic_sender" where
  "periodic_resume i p = p\<lparr>psn_paused := removeAll i (psn_paused p)\<rparr>"

text \<open>One round of the loop of a frame: the frame that is sent, if any, the delay and the next anchor. The send may raise; then the clock after the delay is the new anchor.\<close>

record send_pace =
  pc_anchor :: rat
  pc_count :: int

definition send_round :: "frame_buffer \<Rightarrow> periodic_sender \<Rightarrow> int \<Rightarrow> rat \<Rightarrow> unit res \<Rightarrow> rat \<Rightarrow> rat \<Rightarrow> send_pace \<Rightarrow> 8 word list option \<times> rat \<times> send_pace" where
  "send_round fb p i interval sent now later pace =
     (let paused = i \<in> set (psn_paused p); frame = (if paused then Inr [] else get_frame fb i); ok = (paused \<or> (case frame of Inl e \<Rightarrow> False | Inr d \<Rightarrow> sent = Inr ()));
          out = (case frame of Inr d \<Rightarrow> if paused then None else Some d | Inl e \<Rightarrow> None) in
      if ok then (case next_tick_delay (pc_anchor pace) (pc_count pace) interval now of (delay, anchor, n) \<Rightarrow> (out, delay, \<lparr>pc_anchor = anchor, pc_count = n\<rparr>))
      else (out, interval, \<lparr>pc_anchor = later, pc_count = 0\<rparr>))"

definition send_now :: "frame_buffer \<Rightarrow> int \<Rightarrow> unit res \<Rightarrow> 8 word list res" where
  "send_now fb i sent = rbind (get_frame fb i) (\<lambda>d. rbind sent (\<lambda>_. Inr d))"

section \<open>The client\<close>

record can_client =
  cl_connected :: bool
  cl_listening :: bool
  cl_handlers :: "(int \<times> nat list) list"
  cl_pending :: "(int \<times> nat) list"
  cl_answered :: "nat list"

definition can_client_init :: can_client where
  "can_client_init = \<lparr>cl_connected = False, cl_listening = False, cl_handlers = [], cl_pending = [], cl_answered = []\<rparr>"

definition client_subscribe :: "int \<Rightarrow> nat \<Rightarrow> can_client \<Rightarrow> can_client" where
  "client_subscribe i h c = c\<lparr>cl_handlers := dict_set i (dict_get_or (cl_handlers c) i [] @ [h]) (cl_handlers c)\<rparr>"

definition client_unsubscribe :: "int \<Rightarrow> nat \<Rightarrow> can_client \<Rightarrow> can_client" where
  "client_unsubscribe i h c = (case dict_get (cl_handlers c) i of None \<Rightarrow> c | Some hs \<Rightarrow> c\<lparr>cl_handlers := dict_set i (remove1 h hs) (cl_handlers c)\<rparr>)"

definition client_start_listener :: "can_client \<Rightarrow> can_client" where
  "client_start_listener c = c\<lparr>cl_listening := True\<rparr>"

definition client_stop_listener :: "can_client \<Rightarrow> can_client" where
  "client_stop_listener c = c\<lparr>cl_listening := False\<rparr>"

definition client_disconnect :: "can_client \<Rightarrow> can_client" where
  "client_disconnect c = (client_stop_listener c)\<lparr>cl_connected := False\<rparr>"

text \<open>A request registers its future under the id it expects; its end, by an answer or the time-out, drops whatever is registered there.\<close>

definition request_begin :: "int \<Rightarrow> nat \<Rightarrow> can_client \<Rightarrow> can_client" where
  "request_begin rid fut c = c\<lparr>cl_pending := dict_set rid fut (cl_pending c)\<rparr>"

definition request_end :: "int \<Rightarrow> can_client \<Rightarrow> can_client" where
  "request_end rid c = c\<lparr>cl_pending := dict_del rid (cl_pending c)\<rparr>"

text \<open>A received frame: the request it answers, and the handlers called, in order.\<close>

definition client_receive :: "int \<Rightarrow> can_client \<Rightarrow> nat list \<times> can_client" where
  "client_receive i c = (dict_get_or (cl_handlers c) i [],
     case dict_get (cl_pending c) i of None \<Rightarrow> c
     | Some fut \<Rightarrow> if fut \<in> set (cl_answered c) then c else c\<lparr>cl_answered := cl_answered c @ [fut]\<rparr>)"

section \<open>The device\<close>

record rx_definition =
  rx_can_id :: int
  rx_parser :: can_parser
  rx_is_periodic :: bool
  rx_request_data :: "8 word list"

record can_device =
  cv_config :: device_config
  cv_buffer :: "frame_buffer option"
  cv_tx_names :: "string list"
  cv_sender :: "periodic_sender option"
  cv_rx :: "(int \<times> rx_definition) list"
  cv_subscribed :: "int list"
  cv_alarms :: alarm_manager
  cv_evaluators :: "device_evaluator list"
  cv_aggregators :: "aggregator list option"
  cv_capabilities :: "(string \<times> (string \<times> string) list) list"
  cv_latest :: "(string \<times> pyval) list"
  cv_connected :: bool
  cv_responsive :: bool
  cv_snapshot :: bool
  cv_rx_timeout :: rat
  cv_last_rx :: rat
  cv_events :: "dev_event list"

definition can_device_init :: "device_config \<Rightarrow> can_signal list \<Rightarrow> (int \<times> 8 word list) list \<Rightarrow> (int \<times> rat \<times> bool) list \<Rightarrow> rx_definition list \<Rightarrow> device_evaluator list
    \<Rightarrow> aggregator list option \<Rightarrow> (string \<times> (string \<times> string) list) list \<Rightarrow> rat \<Rightarrow> can_device res" where
  "can_device_init c signals buffers periodic rxs evs aggs caps timeout = (case register_evaluators evs [] of
       (m, True) \<Rightarrow> Inl KeyError
     | (m, False) \<Rightarrow> Inr \<lparr>cv_config = c, cv_buffer = (if signals = [] then None else Some (frame_buffer_init buffers signals)),
         cv_tx_names = map (\<lambda>s. cf_name (cs_field s)) signals, cv_sender = (if signals = [] \<or> periodic = [] then None else Some (periodic_init periodic)),
         cv_rx = dict_build (map (\<lambda>d. (rx_can_id d, d)) rxs), cv_subscribed = [], cv_alarms = m, cv_evaluators = evs, cv_aggregators = aggs, cv_capabilities = dict_build caps,
         cv_latest = [], cv_connected = False, cv_responsive = False, cv_snapshot = False, cv_rx_timeout = timeout, cv_last_rx = 0, cv_events = []\<rparr>)"

definition can_emit :: "dev_event \<Rightarrow> can_device \<Rightarrow> can_device" where
  "can_emit e s = s\<lparr>cv_events := cv_events s @ [e]\<rparr>"

definition can_add_capability :: "string \<Rightarrow> (string \<times> string) list \<Rightarrow> can_device \<Rightarrow> can_device" where
  "can_add_capability cap binding s = can_emit (EvCapabilityAdded cap) (s\<lparr>cv_capabilities := dict_set cap binding (cv_capabilities s)\<rparr>)"

definition can_remove_capability :: "string \<Rightarrow> can_device \<Rightarrow> can_device" where
  "can_remove_capability cap s = (if dict_get (cv_capabilities s) cap = None then s
     else can_emit (EvCapabilityRemoved cap) (s\<lparr>cv_capabilities := dict_del cap (cv_capabilities s)\<rparr>))"

datatype health_status = HEALTHY | DEGRADED | UNHEALTHY

definition can_health :: "can_device \<Rightarrow> health_status" where
  "can_health s = (if cv_connected s \<and> cv_responsive s \<and> \<not> has_protection_alarm (cv_alarms s) then HEALTHY else if cv_connected s then DEGRADED else UNHEALTHY)"

subsection \<open>Receiving\<close>

definition frame_int :: "rx_definition \<Rightarrow> 8 word list \<Rightarrow> int" where
  "frame_int d data = (let bs = data @ replicate (8 - length data) 0 in from_bytes_le (if cp_little_endian (rx_parser d) then bs else rev bs))"

definition frame_values :: "can_device \<Rightarrow> rx_definition \<Rightarrow> 8 word list \<Rightarrow> (string \<times> pyval) list res" where
  "frame_values s d data = rbind (parser_process (rx_parser d) [(cp_source_name (rx_parser d), PyInt (frame_int d data))]) (\<lambda>vs.
     Inr (case cv_aggregators s of None \<Rightarrow> vs | Some as \<Rightarrow> aggregate_all as vs))"

definition frame_arrived :: "rat \<Rightarrow> can_device \<Rightarrow> can_device" where
  "frame_arrived now s = (let s1 = s\<lparr>cv_last_rx := now\<rparr> in
     if \<not> cv_responsive s1 \<and> cv_connected s1 then can_emit EvConnected (s1\<lparr>cv_responsive := True\<rparr>) else s1)"

definition value_changes :: "(string \<times> pyval) list \<Rightarrow> (string \<times> pyval) list \<Rightarrow> dev_event list" where
  "value_changes latest vs = concat (map (\<lambda>(n, v). let old = dict_get_or latest n PyNone in if py_eq old v then [] else [EvValueChange n old v]) vs)"

definition store_values :: "(string \<times> pyval) list \<Rightarrow> can_device \<Rightarrow> can_device" where
  "store_values vs s = s\<lparr>cv_events := cv_events s @ value_changes (cv_latest s) vs, cv_latest := fold (\<lambda>(n, v). dict_set n v) vs (cv_latest s)\<rparr>"

definition process_rx_frame :: "rat \<Rightarrow> rx_definition \<Rightarrow> 8 word list \<Rightarrow> (can_device, unit) op" where
  "process_rx_frame now d data s = (let s1 = frame_arrived now s in
     case frame_values s1 d data of Inl e \<Rightarrow> (Inl e, s1) | Inr vs \<Rightarrow> (Inr (), store_values vs s1))"

text \<open>The answers to the requests come one after the other; one that raises ends the read.\<close>

fun request_each :: "(int \<Rightarrow> rat \<times> 8 word list res) \<Rightarrow> (int \<times> rx_definition) list \<Rightarrow> (can_device, unit) op" where
  "request_each bus [] s = (Inr (), s)"
| "request_each bus ((i, d) # ds) s = (if rx_is_periodic d \<or> rx_request_data d = [] then request_each bus ds s
     else case bus i of (now, Inl e) \<Rightarrow> (Inl e, s)
       | (now, Inr data) \<Rightarrow> (case process_rx_frame now d data s of (Inl e, s1) \<Rightarrow> (Inl e, s1) | (Inr u, s1) \<Rightarrow> request_each bus ds s1))"

definition can_read_once :: "(int \<Rightarrow> rat \<times> 8 word list res) \<Rightarrow> (can_device, (string \<times> pyval) list) op" where
  "can_read_once bus s = (case request_each bus (cv_rx s) s of (Inl e, s1) \<Rightarrow> (Inl e, s1) | (Inr u, s1) \<Rightarrow> (Inr (cv_latest s1), s1))"

subsection \<open>Writing\<close>

text \<open>The number that a written value stands for is checked by the arithmetic of the encoder.\<close>

definition can_write :: "string \<Rightarrow> pyval \<Rightarrow> bool \<Rightarrow> unit res \<Rightarrow> can_device \<Rightarrow> write_result \<times> (int \<times> 8 word list) option \<times> can_device" where
  "can_write name v immediate sent s =
     (case cv_buffer s of None \<Rightarrow> (\<lparr>wr_status = VALIDATION_FAILED, wr_point_name = name, wr_value = v\<rparr>, None, s)
      | Some fb \<Rightarrow> if name \<notin> set (cv_tx_names s) then (\<lparr>wr_status = VALIDATION_FAILED, wr_point_name = name, wr_value = v\<rparr>, None, s)
        else case rbind (num_of v) (\<lambda>x. set_signal name x fb) of
          Inl e \<Rightarrow> (\<lparr>wr_status = WRITE_FAILED, wr_point_name = name, wr_value = v\<rparr>, None, can_emit (EvWriteError name v) s)
        | Inr fb' \<Rightarrow> (let s1 = s\<lparr>cv_buffer := Some fb'\<rparr> in
            if \<not> immediate then (\<lparr>wr_status = SUCCESS, wr_point_name = name, wr_value = v\<rparr>, None, can_emit (EvWriteComplete name v) s1)
            else case rbind (get_signal fb' name) (\<lambda>sg. rbind (get_frame fb' (cs_can_id sg)) (\<lambda>d. Inr (cs_can_id sg, d))) of
              Inl e \<Rightarrow> (\<lparr>wr_status = WRITE_FAILED, wr_point_name = name, wr_value = v\<rparr>, None, can_emit (EvWriteError name v) s1)
            | Inr f \<Rightarrow> if sent = Inr () then (\<lparr>wr_status = SUCCESS, wr_point_name = name, wr_value = v\<rparr>, Some f, can_emit (EvWriteComplete name v) s1)
                else (\<lparr>wr_status = WRITE_FAILED, wr_point_name = name, wr_value = v\<rparr>, Some f, can_emit (EvWriteError name v) s1)))"

subsection \<open>The snapshot loop\<close>

definition check_rx_timeout :: "rat \<Rightarrow> can_device \<Rightarrow> can_device" where
  "check_rx_timeout now s = (if cv_last_rx s = 0 then s
     else if now - cv_last_rx s > cv_rx_timeout s \<and> cv_responsive s then can_emit (EvDisconnected 0) (s\<lparr>cv_responsive := False\<rparr>) else s)"

text \<open>The alarm mixin reads \<open>_disabled_points\<close> for every evaluator, before its \<open>try\<close>; a CAN device has no such attribute.\<close>

definition can_evaluate_alarm :: "(string \<times> pyval) list \<Rightarrow> (can_device, unit) op" where
  "can_evaluate_alarm vs s = (if cv_evaluators s = [] then (Inr (), s) else (Inl AttributeError, s))"

text \<open>One round up to the sleep; what raises ends the task.\<close>

definition snapshot_round :: "rat \<Rightarrow> can_device \<Rightarrow> can_device" where
  "snapshot_round now s = (if \<not> cv_snapshot s then s
     else case can_evaluate_alarm (cv_latest s) (can_emit (EvReadComplete (cv_latest s)) s) of
       (Inl e, s1) \<Rightarrow> s1\<lparr>cv_snapshot := False\<rparr>
     | (Inr u, s1) \<Rightarrow> check_rx_timeout now s1)"

subsection \<open>Lifecycle\<close>

definition can_connect :: "rat \<Rightarrow> unit res \<Rightarrow> unit res \<Rightarrow> (can_device, unit) op" where
  "can_connect now opened listener s =
     (case opened of Inl e \<Rightarrow> (Inl e, s)
      | Inr u \<Rightarrow> (let s1 = s\<lparr>cv_connected := True, cv_responsive := True, cv_last_rx := now,
            cv_subscribed := cv_subscribed s @ map fst (filter (\<lambda>(i, d). rx_is_periodic d) (cv_rx s))\<rparr> in
          case listener of Inl e \<Rightarrow> (Inl e, s1) | Inr u \<Rightarrow> (Inr (), can_emit EvConnected s1)))"

definition can_start :: "can_device \<Rightarrow> can_device" where
  "can_start s = s\<lparr>cv_sender := map_option periodic_start (cv_sender s), cv_snapshot := True\<rparr>"

definition can_stop :: "can_device \<Rightarrow> can_device" where
  "can_stop s = s\<lparr>cv_snapshot := False, cv_sender := map_option periodic_stop (cv_sender s)\<rparr>"

definition can_disconnect :: "unit res \<Rightarrow> (can_device, unit) op" where
  "can_disconnect outcome s = (let s1 = (can_stop s)\<lparr>cv_subscribed := []\<rparr> in
     if \<not> cv_connected s1 then (Inr (), s1)
     else case outcome of Inl e \<Rightarrow> (Inl e, s1)
       | Inr u \<Rightarrow> (Inr (), can_emit (EvDisconnected 0) (s1\<lparr>cv_connected := False, cv_responsive := False\<rparr>)))"

text \<open>A frame on the bus reaches every subscription of its id; what a handler raises is logged by the client.\<close>

definition bus_frame :: "rat \<Rightarrow> int \<Rightarrow> 8 word list \<Rightarrow> can_device \<Rightarrow> can_device" where
  "bus_frame now i data s = (case dict_get (cv_rx s) i of None \<Rightarrow> s
     | Some d \<Rightarrow> ((\<lambda>s1. snd (process_rx_frame now d data s1)) ^^ count_list (cv_subscribed s) i) s)"

section \<open>The device follows the bus\<close>

datatype bus_input = BusFrame rat int "8 word list" | SnapshotTick rat

fun bus_step :: "bus_input \<Rightarrow> can_device \<Rightarrow> can_device" where
  "bus_step (BusFrame now i data) s = bus_frame now i data s"
| "bus_step (SnapshotTick now) s = snapshot_round now s"

definition heard_ids :: "can_device \<Rightarrow> int set" where
  "heard_ids s = fst ` set (filter (\<lambda>(i, d). rx_is_periodic d) (cv_rx s))"

definition is_heard :: "int set \<Rightarrow> bus_input \<Rightarrow> bool" where
  "is_heard ids e = (case e of BusFrame now i data \<Rightarrow> i \<in> ids | SnapshotTick now \<Rightarrow> False)"

fun input_time :: "bus_input \<Rightarrow> rat" where
  "input_time (BusFrame now i data) = now"
| "input_time (SnapshotTick now) = now"

text \<open>When a frame that the device listens to last came, and the snapshots since then.\<close>

definition last_heard :: "int set \<Rightarrow> rat \<Rightarrow> bus_input list \<Rightarrow> rat" where
  "last_heard ids t0 es = last (t0 # map input_time (filter (is_heard ids) es))"

definition ticks_since :: "int set \<Rightarrow> bus_input list \<Rightarrow> rat list" where
  "ticks_since ids es = map input_time (filter (\<lambda>e. \<exists>now. e = SnapshotTick now) (takeWhile (\<lambda>e. \<not> is_heard ids e) (rev es)))"

text \<open>The values of the frames, the later ones over the earlier ones; a frame that cannot be parsed has none.\<close>

definition heard_values :: "can_device \<Rightarrow> bus_input \<Rightarrow> (string \<times> pyval) list" where
  "heard_values s e = (case e of
       BusFrame now i data \<Rightarrow> if i \<in> heard_ids s then (case dict_get (cv_rx s) i of None \<Rightarrow> [] | Some d \<Rightarrow> (case frame_values s d data of Inl x \<Rightarrow> [] | Inr vs \<Rightarrow> vs)) else []
     | SnapshotTick now \<Rightarrow> [])"

definition connection_changes :: "can_device \<Rightarrow> bool list" where
  "connection_changes s = List.map_filter conn_change (cv_events s)"

text \<open>The parts of a device that listening does not change.\<close>

definition same_setup :: "can_device \<Rightarrow> can_device \<Rightarrow> bool" where
  "same_setup s s' = (cv_rx s' = cv_rx s \<and> cv_subscribed s' = cv_subscribed s \<and> cv_aggregators s' = cv_aggregators s \<and> cv_rx_timeout s' = cv_rx_timeout s
     \<and> cv_evaluators s' = cv_evaluators s \<and> cv_connected s' = cv_connected s \<and> cv_snapshot s' = cv_snapshot s)"

lemma value_changes_silent: "List.map_filter conn_change (value_changes latest vs) = []"
  by (induction vs) (auto simp: value_changes_def List.map_filter_def conn_change_def Let_def)

lemma map_filter_append: "List.map_filter f (xs @ ys) = List.map_filter f xs @ List.map_filter f ys"
  by (simp add: List.map_filter_def)

lemma frame_values_frame [simp]:
  "frame_values (s\<lparr>cv_last_rx := x\<rparr>) d data = frame_values s d data" "frame_values (s\<lparr>cv_responsive := r\<rparr>) d data = frame_values s d data"
  "frame_values (s\<lparr>cv_events := evs\<rparr>) d data = frame_values s d data"
  by (simp_all add: frame_values_def)

lemma frame_effect:
  assumes "cv_connected s"
  shows "same_setup s (snd (process_rx_frame now d data s))" "cv_last_rx (snd (process_rx_frame now d data s)) = now" "cv_responsive (snd (process_rx_frame now d data s))"
    "connection_changes (snd (process_rx_frame now d data s)) = connection_changes s @ (if cv_responsive s then [] else [True])"
    "cv_latest (snd (process_rx_frame now d data s)) = fold (\<lambda>(n, v). dict_set n v) (case frame_values s d data of Inl e \<Rightarrow> [] | Inr vs \<Rightarrow> vs) (cv_latest s)"
proof -
  have fv: "frame_values (frame_arrived now s) d data = frame_values s d data"
    by (simp add: frame_arrived_def can_emit_def Let_def)
  show "same_setup s (snd (process_rx_frame now d data s))" "cv_last_rx (snd (process_rx_frame now d data s)) = now" "cv_responsive (snd (process_rx_frame now d data s))"
    "connection_changes (snd (process_rx_frame now d data s)) = connection_changes s @ (if cv_responsive s then [] else [True])"
    "cv_latest (snd (process_rx_frame now d data s)) = fold (\<lambda>(n, v). dict_set n v) (case frame_values s d data of Inl e \<Rightarrow> [] | Inr vs \<Rightarrow> vs) (cv_latest s)"
    using assms by (auto simp: process_rx_frame_def fv Let_def same_setup_def connection_changes_def store_values_def map_filter_append value_changes_silent
      frame_arrived_def can_emit_def conn_change_def List.map_filter_def [of _ "[EvConnected]"] split: sum.split)
qed

lemma tick_effect:
  assumes "cv_snapshot s" "cv_evaluators s = []" "cv_last_rx s \<noteq> 0"
  shows "same_setup s (snapshot_round now s)" "cv_last_rx (snapshot_round now s) = cv_last_rx s" "cv_latest (snapshot_round now s) = cv_latest s"
    "cv_responsive (snapshot_round now s) = (cv_responsive s \<and> now - cv_last_rx s \<le> cv_rx_timeout s)"
    "connection_changes (snapshot_round now s) = connection_changes s @ (if cv_responsive s \<and> now - cv_last_rx s > cv_rx_timeout s then [False] else [])"
  using assms by (auto simp: snapshot_round_def can_evaluate_alarm_def check_rx_timeout_def can_emit_def same_setup_def connection_changes_def map_filter_append
    conn_change_def List.map_filter_def [of _ "[EvReadComplete x]" for x] List.map_filter_def [of _ "[EvDisconnected x]" for x])

text \<open>One subscription for every frame the device listens to; a frame of another id is not for it.\<close>

definition tuned :: "can_device \<Rightarrow> bool" where
  "tuned s = (\<forall>i. count_list (cv_subscribed s) i = (if i \<in> heard_ids s then 1 else 0))"

lemma bus_frame_once:
  assumes "tuned s"
  shows "bus_frame now i data s = (case dict_get (cv_rx s) i of None \<Rightarrow> s | Some d \<Rightarrow> if i \<in> heard_ids s then snd (process_rx_frame now d data s) else s)"
  using assms by (auto simp: bus_frame_def tuned_def split: option.split)

lemma same_setup_ids: "same_setup s s' \<Longrightarrow> heard_ids s' = heard_ids s" "same_setup s s' \<Longrightarrow> tuned s' = tuned s"
  by (simp_all add: same_setup_def heard_ids_def tuned_def)

lemma same_setup_refl: "same_setup s s"
  by (simp add: same_setup_def)

lemma same_setup_trans: "same_setup a b \<Longrightarrow> same_setup b c \<Longrightarrow> same_setup a c"
  by (simp add: same_setup_def)

lemma same_setup_values: "same_setup s s' \<Longrightarrow> heard_values s' e = heard_values s e"
  by (auto simp: same_setup_def heard_values_def heard_ids_def frame_values_def split: bus_input.split option.split)

lemma ids_known: "i \<in> heard_ids s \<Longrightarrow> dict_get (cv_rx s) i \<noteq> None"
  by (auto simp: heard_ids_def map_of_eq_None_iff intro: rev_image_eqI)

lemma last_heard_snoc: "last_heard ids t0 (es @ [e]) = (if is_heard ids e then input_time e else last_heard ids t0 es)"
  by (simp add: last_heard_def)

lemma ticks_since_snoc: "ticks_since ids (es @ [e]) = (if is_heard ids e then [] else (case e of SnapshotTick now \<Rightarrow> [now] | _ \<Rightarrow> []) @ ticks_since ids es)"
  by (auto simp: ticks_since_def split: bus_input.split)

fun alternating :: "bool \<Rightarrow> bool list \<Rightarrow> bool" where
  "alternating b [] = True"
| "alternating b (x # xs) = (x \<noteq> b \<and> alternating x xs)"

lemma alternating_snoc: "alternating b (xs @ [x]) = (alternating b xs \<and> x \<noteq> last (b # xs))"
  by (induction b xs rule: alternating.induct) auto

lemma bus_run:
  assumes "tuned s" "cv_connected s" "cv_snapshot s" "cv_evaluators s = []" "cv_last_rx s = t0" "0 < t0" "\<forall>e\<in>set es. 0 < input_time e" "cv_responsive s"
    and "alternating False (connection_changes s)" "last (False # connection_changes s)"
  defines "s' \<equiv> fold bus_step es s"
  shows "same_setup s s' \<and> cv_last_rx s' = last_heard (heard_ids s) t0 es \<and> 0 < cv_last_rx s'
    \<and> cv_responsive s' = (\<forall>now\<in>set (ticks_since (heard_ids s) es). now - last_heard (heard_ids s) t0 es \<le> cv_rx_timeout s)
    \<and> cv_latest s' = fold (\<lambda>(n, v). dict_set n v) (concat (map (heard_values s) es)) (cv_latest s)
    \<and> alternating False (connection_changes s') \<and> last (False # connection_changes s') = cv_responsive s'"
  using assms(7) unfolding s'_def
proof (induction es rule: rev_induct)
  case Nil
  then show ?case using assms(5-10) by (simp add: same_setup_refl last_heard_def ticks_since_def)
next
  case (snoc e es)
  let ?s = "fold bus_step es s"
  have ih: "same_setup s ?s" "cv_last_rx ?s = last_heard (heard_ids s) t0 es" "0 < cv_last_rx ?s"
      "cv_responsive ?s = (\<forall>now\<in>set (ticks_since (heard_ids s) es). now - last_heard (heard_ids s) t0 es \<le> cv_rx_timeout s)"
      "cv_latest ?s = fold (\<lambda>(n, v). dict_set n v) (concat (map (heard_values s) es)) (cv_latest s)"
      "alternating False (connection_changes ?s)" "last (False # connection_changes ?s) = cv_responsive ?s"
    using snoc by simp_all
  have up: "cv_connected ?s" "cv_snapshot ?s" "cv_evaluators ?s = []" "cv_rx_timeout ?s = cv_rx_timeout s" "tuned ?s" "heard_ids ?s = heard_ids s"
    using assms(1-4) ih(1) same_setup_ids [OF ih(1)] by (simp_all add: same_setup_def)
  have grow: "alternating False (connection_changes ?s @ [\<not> cv_responsive ?s])" using ih(6,7) by (simp add: alternating_snoc)
  show ?case
  proof (cases e)
    case (SnapshotTick now)
    note t = tick_effect [OF up(2,3), of now] 
    have "cv_last_rx ?s \<noteq> 0" using ih(3) by simp
    note t = t [OF this]
    have quiet: "heard_values s e = []" "\<not> is_heard (heard_ids s) e" by (simp_all add: SnapshotTick heard_values_def is_heard_def)
    have "connection_changes (snapshot_round now ?s) = connection_changes ?s @ (if cv_responsive ?s \<and> \<not> cv_responsive (snapshot_round now ?s) then [False] else [])"
      using t(4,5) by (auto simp: up(4))
    then have "alternating False (connection_changes (snapshot_round now ?s)) \<and> last (False # connection_changes (snapshot_round now ?s)) = cv_responsive (snapshot_round now ?s)"
      using grow ih(6,7) t(4) by (auto split: if_splits)
    moreover have "same_setup s (snapshot_round now ?s)" using same_setup_trans [OF ih(1) t(1)] .
    moreover have "cv_responsive (snapshot_round now ?s) = (\<forall>n\<in>set (ticks_since (heard_ids s) (es @ [e])). n - last_heard (heard_ids s) t0 (es @ [e]) \<le> cv_rx_timeout s)"
      using t(4) ih(2,4) quiet by (auto simp: ticks_since_snoc last_heard_snoc SnapshotTick up(4))
    ultimately show ?thesis
      using t(2,3) ih(2,3,5) quiet by (simp add: SnapshotTick last_heard_snoc)
  next
    case (BusFrame now i data)
    show ?thesis
    proof (cases "i \<in> heard_ids s")
      case False
      then have quiet: "heard_values s (BusFrame now i data) = []" by (simp add: heard_values_def)
      from False have "bus_frame now i data ?s = ?s" using up(5,6) by (simp add: bus_frame_once split: option.split)
      then show ?thesis
        using ih False quiet by (simp add: BusFrame last_heard_snoc ticks_since_snoc is_heard_def)
    next
      case True
      then obtain d where d: "dict_get (cv_rx ?s) i = Some d" using ids_known [of i ?s] up(6) by auto
      note f = frame_effect [OF up(1), of now d data]
      have step: "bus_frame now i data ?s = snd (process_rx_frame now d data ?s)" using True d up(5,6) by (simp add: bus_frame_once)
      have vals: "(case frame_values ?s d data of Inl e \<Rightarrow> [] | Inr vs \<Rightarrow> vs) = heard_values s e"
        using same_setup_values [OF ih(1), of e] True d up(6) by (simp add: BusFrame heard_values_def)
      have "alternating False (connection_changes (bus_frame now i data ?s)) \<and> last (False # connection_changes (bus_frame now i data ?s)) = cv_responsive (bus_frame now i data ?s)"
        using grow ih(6,7) f(3,4) by (auto simp: step)
      moreover have nonempty: "cv_responsive ?s \<Longrightarrow> connection_changes ?s \<noteq> []" using ih(7) by auto
      ultimately show ?thesis
        using f same_setup_trans [OF ih(1) f(1)] ih(5) vals True snoc.prems nonempty
        by (simp add: BusFrame step last_heard_snoc ticks_since_snoc is_heard_def)
    qed
  qed
qed

lemma dict_build_distinct: "distinct (map fst (dict_build kvs))"
proof -
  have "distinct (map fst (fold (\<lambda>(k, v). dict_set k v) kvs d))" if "distinct (map fst d)" for d
    using that by (induction kvs arbitrary: d) (auto simp: distinct_update)
  then show ?thesis by (simp add: dict_build_def)
qed

lemma count_distinct: "distinct xs \<Longrightarrow> count_list xs x = (if x \<in> set xs then 1 else 0)"
  by (induction xs) auto

text \<open>The device as it listens: connected at \<open>t0\<close> and started.\<close>

definition listening_device :: "rat \<Rightarrow> can_device \<Rightarrow> can_device" where
  "listening_device t0 s = can_start (snd (can_connect t0 (Inr ()) (Inr ()) s))"

lemma listening_setup:
  assumes "can_device_init c signals buffers periodic rxs [] aggs caps timeout = Inr s0"
  shows "tuned (listening_device t0 s0)" "cv_connected (listening_device t0 s0)" "cv_snapshot (listening_device t0 s0)" "cv_evaluators (listening_device t0 s0) = []"
    "cv_last_rx (listening_device t0 s0) = t0" "cv_responsive (listening_device t0 s0)" "connection_changes (listening_device t0 s0) = [True]" "cv_latest (listening_device t0 s0) = []"
    "cv_rx_timeout (listening_device t0 s0) = timeout"
proof -
  have s0: "cv_rx s0 = dict_build (map (\<lambda>d. (rx_can_id d, d)) rxs)" "cv_subscribed s0 = []" "cv_evaluators s0 = []" "cv_events s0 = []" "cv_latest s0 = []" "cv_rx_timeout s0 = timeout"
    using assms by (auto simp: can_device_init_def)
  have "distinct (map fst (filter (\<lambda>(i, d). rx_is_periodic d) (cv_rx s0)))"
    using dict_build_distinct unfolding s0(1) by (rule distinct_map_filter)
  then show "tuned (listening_device t0 s0)"
    by (simp add: tuned_def heard_ids_def listening_device_def can_start_def can_connect_def can_emit_def Let_def s0(2) count_distinct)
  show "cv_connected (listening_device t0 s0)" "cv_snapshot (listening_device t0 s0)" "cv_evaluators (listening_device t0 s0) = []"
    "cv_last_rx (listening_device t0 s0) = t0" "cv_responsive (listening_device t0 s0)" "connection_changes (listening_device t0 s0) = [True]" "cv_latest (listening_device t0 s0) = []"
    "cv_rx_timeout (listening_device t0 s0) = timeout"
    by (simp_all add: listening_device_def can_start_def can_connect_def can_emit_def Let_def s0 connection_changes_def conn_change_def List.map_filter_simps)
qed

text \<open>
  C29. A CAN device without alarm evaluators that listens to the bus: after any frames and snapshots it counts as responsive exactly when no snapshot since the last
  frame it listens to has come later than the time-out, its values are those of the frames it could parse, later ones over earlier ones, and it has announced the
  changes of its connection in turn, the last one being its status.
\<close>

theorem can_device_tracks:
  assumes "can_device_init c signals buffers periodic rxs [] aggs caps timeout = Inr s0" "0 < t0" "\<forall>e\<in>set es. 0 < input_time e"
    and "s = listening_device t0 s0" "s' = fold bus_step es s"
  shows "cv_responsive s' = (\<forall>now\<in>set (ticks_since (heard_ids s) es). now - last_heard (heard_ids s) t0 es \<le> timeout)
    \<and> cv_latest s' = fold (\<lambda>(n, v). dict_set n v) (concat (map (heard_values s) es)) []
    \<and> alternating False (connection_changes s') \<and> last (False # connection_changes s') = cv_responsive s'"
proof -
  note l = listening_setup [OF assms(1), of t0, folded assms(4)]
  note r = bus_run [OF l(1-5) assms(2,3) l(6), folded assms(5)]
  show ?thesis using r unfolding l(7-9) by simp
qed

definition demo_parser :: can_parser where
  "demo_parser = \<lparr>cp_source_name = ''raw'', cp_fields = [\<lparr>cf_name = ''soc'', cf_start_bit = 0, cf_bit_length = 8, cf_resolution = Fin (1 / 2), cf_offset = Fin 0,
     cf_decimals = None, cf_as_int = False\<rparr>], cp_remove_source = True, cp_little_endian = True\<rparr>"

definition demo_rx :: "bool \<Rightarrow> rx_definition" where
  "demo_rx periodic = \<lparr>rx_can_id = 256, rx_parser = demo_parser, rx_is_periodic = periodic, rx_request_data = [1]\<rparr>"

definition demo_can_config :: device_config where
  "demo_can_config = \<lparr>vc_device_id = ''bms'', vc_unit_id = 1, vc_address_offset = 0, vc_read_interval = 1, vc_reconnect_interval = 5, vc_disconnect_threshold = 5, vc_max_concurrent_reads = 0\<rparr>"

definition demo_can :: "bool \<Rightarrow> device_evaluator list \<Rightarrow> can_device" where
  "demo_can periodic evs = (case can_device_init demo_can_config [] [] [] [demo_rx periodic] evs None [] 10 of Inr s \<Rightarrow> s)"

definition demo_inputs :: "bus_input list" where
  "demo_inputs = [BusFrame 2 256 [100], SnapshotTick 3, SnapshotTick 13, BusFrame 14 256 [90], SnapshotTick 20]"

lemma demo_can_init: "can_device_init demo_can_config [] [] [] [demo_rx True] [] None [] 10 = Inr (demo_can True [])"
  by (simp add: demo_can_def can_device_init_def)

definition demo_seen :: "can_device \<Rightarrow> bool \<times> (string \<times> pyval) list \<times> bool list" where
  "demo_seen s = (cv_responsive s, cv_latest s, connection_changes s)"

lemma demo_heard: "heard_ids (listening_device 1 (demo_can True [])) = {256}"
  by (simp add: demo_can_def can_device_init_def demo_rx_def listening_device_def can_start_def can_connect_def can_emit_def Let_def heard_ids_def dict_build_def)

theorem can_device_tracks_witness:
  "cv_responsive (fold bus_step demo_inputs (listening_device 1 (demo_can True [])))
   \<and> \<not> cv_responsive (fold bus_step (take 3 demo_inputs) (listening_device 1 (demo_can True [])))"
proof -
  have pos: "\<forall>e\<in>set demo_inputs. 0 < input_time e" "\<forall>e\<in>set (take 3 demo_inputs). 0 < input_time e" by (simp_all add: demo_inputs_def)
  have since: "ticks_since {256} demo_inputs = [20]" "last_heard {256} 1 demo_inputs = 14"
      "ticks_since {256} (take 3 demo_inputs) = [13, 3]" "last_heard {256} 1 (take 3 demo_inputs) = 2"
    by (simp_all add: ticks_since_def last_heard_def demo_inputs_def is_heard_def)
  show ?thesis
    using can_device_tracks [OF demo_can_init _ pos(1) refl refl, of 1] can_device_tracks [OF demo_can_init _ pos(2) refl refl, of 1]
    by (simp add: demo_heard since)
qed

lemma demo_values: "demo_seen (fold bus_step demo_inputs (listening_device 1 (demo_can True []))) = (True, [(''soc'', PyFloat (Fin 45))], [True, False, True])"
  by code_simp

section \<open>What a device does not do\<close>

text \<open>
  With any alarm evaluator the first snapshot raises after it has announced its values, and its task ends: no further snapshot, no alarm and no time-out of the bus,
  whatever happens.
\<close>

lemma evaluator_kills_snapshots:
  assumes "cv_evaluators s \<noteq> []" "cv_snapshot s"
  shows "snapshot_round now s = (can_emit (EvReadComplete (cv_latest s)) s)\<lparr>cv_snapshot := False\<rparr>"
    and "snapshot_round later (snapshot_round now s) = snapshot_round now s"
  using assms by (simp_all add: snapshot_round_def can_evaluate_alarm_def can_emit_def)

text \<open>When the listener does not start, the device counts as connected, and the next connect subscribes its frames again: each is then handled twice.\<close>

lemma failed_listener_subscribes_twice:
  assumes "cv_subscribed s = []" "(i, d) \<in> set (cv_rx s)" "rx_is_periodic d"
  shows "cv_connected (snd (can_connect t (Inr ()) (Inl e) s))" "2 \<le> count_list (cv_subscribed (snd (can_connect t' (Inr ()) (Inr ()) (snd (can_connect t (Inr ()) (Inl e) s))))) i"
proof -
  let ?ids = "map fst (filter (\<lambda>(i, d). rx_is_periodic d) (cv_rx s))"
  have "i \<in> set ?ids" using assms(2,3) by force
  then have "1 \<le> count_list ?ids i" by (metis One_nat_def Suc_leI count_list_0_iff not_gr_zero)
  then show "2 \<le> count_list (cv_subscribed (snd (can_connect t' (Inr ()) (Inr ()) (snd (can_connect t (Inr ()) (Inl e) s))))) i"
    using assms(1) by (simp add: can_connect_def Let_def can_emit_def)
qed (simp add: can_connect_def Let_def)

text \<open>A device whose frames must be requested is not asked by its own loop, and is soon taken for dead.\<close>

lemma requests_not_sent:
  "demo_seen (fold bus_step [SnapshotTick 2, SnapshotTick 12] (listening_device 1 (demo_can False []))) = (False, [], [True, False])"
  by code_simp

text \<open>Of two requests that wait for the same id, the answer goes to the later one; and the end of the earlier one drops the later one's.\<close>

lemma requests_collide:
  "cl_answered (snd (client_receive i (request_begin i 2 (request_begin i 1 can_client_init)))) = [2]"
  "cl_answered (snd (client_receive i (request_end i (request_begin i 2 (request_begin i 1 can_client_init))))) = []"
  by (simp_all add: client_receive_def request_begin_def request_end_def can_client_init_def update_conv' delete_conv')

text \<open>A paused frame is not sent, and any other round sends what the buffer holds then.\<close>

lemma send_round_exact:
  "fst (send_round fb p i interval sent now later pace) = (if i \<in> set (psn_paused p) then None else case get_frame fb i of Inl e \<Rightarrow> None | Inr d \<Rightarrow> Some d)"
  by (simp add: send_round_def Let_def split: sum.split prod.split)

end
