(* ===== verification/Spec2Isabelle.thy ===== *)
theory Spec2Isabelle
  imports Csp_Prelude Resilience RuntimeParams Command_Core Protection Mode_Manager System_Controller Distributor Device_Registry Command_Router Election Modbus_Types Alarm_State Alarm_Aggregator Gateway_Registers Gateway_Writes Gateway_Watchdog Request_Queue Strategies Ramp_Strategies Load_Shedding Can_Frames Point_Transforms Transport Compensator Reconcilers Heartbeat Context_Builder Modbus_Device Strategy_Executor Batch_Upload Local_Buffer Control_Cycle Schedule_Service Command_Manager Alarm_Records Statistics Device_Events Data_Upload Device_Manager Cluster_State Cluster_Control Orchestrator Can_Device
begin

text \<open>
  A verification development of \<open>csp_lib\<close>, the Python library of an energy management controller for
  battery and photovoltaic sites (paths below are under \<open>src/csp_lib\<close>).

  \<^bold>\<open>How the program works.\<close> Devices (inverters, meters, batteries) are polled over Modbus or CAN: points
  are grouped into block reads, the registers are decoded and transformed, alarms are evaluated on the
  readings. The registry finds devices by trait and capability. In every control period the readings
  become a strategy context; the strategy the mode manager asks for turns it into a command (active and
  reactive power), the protection guard limits the command, the distributor splits it among the devices,
  and the command router writes it to their points and remembers what it wrote. Around this loop stand a
  Modbus gateway for the site's energy management system with its register map, write validation and
  watchdog, an aggregator of alarm sources, load shedding, and leader election among redundant instances.

  \<^bold>\<open>The theories, by component.\<close>

  \<^item> \<open>Csp_Prelude\<close>: errors as values (\<open>res\<close>, the exceptions the code raises), Python's floats, values,
    insertion-ordered dictionaries, slices and truth values, and the lemmas all components share.
  \<^item> \<open>Resilience\<close>: \<open>core/resilience.py\<close> (circuit breaker, retry delays) and \<open>core/_time_anchor.py\<close>. The
    breaker is CLOSED exactly when the failures since the last success are below the threshold; bounds of
    the cooldown; a loop paced by \<open>next_tick_delay\<close> does not drift.
  \<^item> \<open>RuntimeParams\<close>: \<open>core/runtime_params.py\<close>, the shared parameters with their observers. A batch update
    is a sequence of single ones, and whoever replays the notifications knows the state.
  \<^item> \<open>Command_Core\<close>: \<open>core/_numeric.py\<close>, \<open>controller/core\<close>: numeric guards, commands with axes that may
    be unchanged, contexts, configuration from dictionaries. \<open>Protection\<close>: \<open>controller/system/protection.py\<close>
    and \<open>dynamic_protection.py\<close>: the rules, alone and chained, never amplify, keep to the limits of the state
    of charge and of the grid, and stop on alarms.
  \<^item> \<open>Mode_Manager\<close>: \<open>controller/system/mode.py\<close>: base modes and the stack of overrides; the effective mode
    against its specification. \<open>System_Controller\<close>: how \<open>integration/system_controller.py\<close>,
    \<open>controller/system/schedule_mode.py\<close> and \<open>event_override.py\<close> keep the executor on that mode.
  \<^item> \<open>Strategies\<close>, \<open>Ramp_Strategies\<close>, \<open>Load_Shedding\<close>: \<open>controller/strategies\<close> and
    \<open>controller/services\<close>: what each strategy commands, its monotony and bounds, the shape of ramps, the
    wait for synchronisation before reconnecting, the timing of shedding and restoring.
  \<^item> \<open>Distributor\<close>: \<open>integration/distributor.py\<close>: shares that add up, limits of devices, equalisation of the
    state of charge. \<open>Device_Registry\<close>: \<open>integration/registry.py\<close>: the indices agree.
    \<open>Command_Router\<close>: \<open>integration/command_router.py\<close>: only writable points of existing devices are
    written, and the desired state is what was last written.
  \<^item> \<open>Modbus_Types\<close>: \<open>modbus/types\<close>, \<open>modbus/codec.py\<close>: the register codecs including the IEEE 754 formats,
    behind the locale \<open>register_type\<close>. \<open>Request_Queue\<close>: \<open>modbus/clients/queue.py\<close>: the fair priority
    queue with a breaker per unit.
  \<^item> \<open>Point_Transforms\<close>, \<open>Transport\<close>: \<open>equipment/core\<close>, \<open>equipment/processing\<close>, \<open>equipment/transport\<close>:
    transform pipelines, validators, block reads and verified writes. \<open>Can_Frames\<close>: \<open>can_parser.py\<close> and
    \<open>can_encoder.py\<close>, signals as independent registers of one frame. \<open>Alarm_State\<close>: \<open>equipment/alarm\<close>,
    evaluators and hysteresis. \<open>Alarm_Aggregator\<close>: \<open>alarm/aggregator.py\<close>.
  \<^item> \<open>Gateway_Registers\<close>, \<open>Gateway_Writes\<close>, \<open>Gateway_Watchdog\<close>: \<open>modbus_gateway\<close>: the register map, what a
    write from outside goes through, and the communication watchdog.
  \<^item> \<open>Election\<close>: \<open>cluster/election.py\<close>, one elector against an etcd that may answer, fail or be cut off.
    \<open>Cluster_State\<close>: \<open>cluster/sync.py\<close>, \<open>cluster/context.py\<close>, \<open>manager/state\<close> over a Redis whose keys expire (\<open>redis/client.py\<close>):
    what followers read is what the leader published, and the context they build. \<open>Cluster_Control\<close>:
    \<open>cluster/controller.py\<close>, promotion and demotion from one await to the next: only a leader commands.
    \<open>Orchestrator\<close>: \<open>integration/orchestrator.py\<close>: a command calls the devices of its steps in order up to the
    first step that is not in order, and always ends.
  \<^item> \<open>Context_Builder\<close>: \<open>integration/context_builder.py\<close>, mappings of \<open>schema.py\<close>: what a strategy reads is finite, and
    the aggregates are ordered. \<open>Control_Cycle\<close>: the cycle of \<open>integration/system_controller.py\<close> over the
    builder, guard, processors, distributor and router, the device alarms, and its start and stop, which is
    all or nothing. \<open>Compensator\<close>: \<open>controller/compensator.py\<close>, what it sends stays in its limits whatever it learns.
    \<open>Strategy_Executor\<close>: \<open>controller/executor\<close>, the run loop from one await to the next: every trigger runs,
    commands form a chain, and a stop is reached within a bounded number of steps.
  \<^item> \<open>Reconcilers\<close>: \<open>core/reconciler.py\<close>, \<open>integration/command_refresh.py\<close>, \<open>setpoint_drift_reconciler.py\<close>: the desired
    state is written again, and only drifted set-points are repaired. \<open>Heartbeat\<close>: \<open>integration/heartbeat*.py\<close>.
  \<^item> \<open>Modbus_Device\<close>, \<open>Device_Events\<close>: \<open>equipment/device\<close>: connection, responsiveness, cached values and alarms of a
    device against what its reads answered; the event queue with its worker, whose handlers see the events in order,
    and the bridge that joins conditions of several devices. \<open>Can_Device\<close>: \<open>equipment/device/can_device.py\<close>,
    \<open>equipment/transport/periodic_sender.py\<close>, \<open>can/clients/python_can.py\<close>: responsiveness and values of a CAN
    device follow the bus.
  \<^item> \<open>Device_Manager\<close>: \<open>manager/device\<close>, \<open>manager/unified.py\<close>: the books of all managers agree after every
    registration, and starting and stopping reach every device. \<open>Command_Manager\<close>: \<open>manager/command\<close>: the audit trail and
    the checks before a device is written. \<open>Schedule_Service\<close>: \<open>manager/schedule\<close>: the rule in force.
    \<open>Alarm_Records\<close>: \<open>manager/alarm\<close> and \<open>notification\<close>: one active record per alarm. \<open>Data_Upload\<close>: \<open>manager/data\<close>: which
    documents are uploaded. \<open>Statistics\<close>: \<open>statistics\<close>: energy per interval of the clock.
  \<^item> \<open>Batch_Upload\<close>, \<open>Local_Buffer\<close>: \<open>mongo\<close>: queues, batches and retries, and the SQLite buffer that keeps
    what the database has not taken.

  Names of records, constructors and functions are those of the code, with a prefix where two parts share
  a name. Each theory has the operations of its component in the order of the code, then the lemmas, then
  the properties, each with a concrete instance where it has hypotheses.

  \<^bold>\<open>Idealisations.\<close> A finite float is an exact rational and arithmetic on finite floats is exact; infinities
  and NaN are values of their own and behave as in Python, comparisons included, and so are the errors of
  division and conversion; the register formats round to nearest even. Characters have 8 bits. The
  clock, random numbers, \<open>str\<close> of a value and the answers of devices and services are arguments.
  Observers, callbacks, strategies, circuits and relays are ids and their calls are returned as values; a
  callback that re-enters its caller is not modelled. Objects that the code shares and mutates are in a
  store by address. A coroutine is modelled from one await to the next, so every interleaving is a
  sequence of steps. Text of errors and log lines are left out.

  \<^bold>\<open>Bounds.\<close> No definition uses fuel: recursion is on lists, naturals and trees, and the loops that wait
  (\<open>island_wait\<close>) have a measure, the time left. Loops that run for ever are one step per round; that a
  loop ends after a request to stop (\<open>executor_halts\<close>) is a bound on its steps.

  \<^bold>\<open>Not modelled.\<close> Wiring and pure input and output: the HTTP interface, logging, the
  clients of MongoDB and of pymodbus, the CAN sockets, monitoring of the host, simulators
  of devices and the servers around them, the distributed and hierarchical integration, calibration
  experiments, templates and manifests, protocols and schema classes without behaviour. The manifest names
  each with its reason.
\<close>

end
